(* ===== verification/PSM_Prelude.thy ===== *)
theory PSM_Prelude
  imports Main "HOL-Library.Word"
begin

text \<open>
  Shared vocabulary of the development: the C integer types at their width, the error codes of
  \<^verbatim>\<open>src/psm.h\<close>, the ways in which a C function of this library can stop without returning,
  and the generic lemmas on words, lists and options that the component theories share.

  The code is modelled as it is built for production: \<^verbatim>\<open>PSM_DEBUG\<close> and \<^verbatim>\<open>PSM_VALGRIND\<close> are
  off, so \<^verbatim>\<open>psmi_assert\<close> is empty and \<^verbatim>\<open>PSM_VALGRIND_REDZONE_SZ\<close> is 0, while
  \<^verbatim>\<open>psmi_assert_always\<close> stays and aborts the process.
\<close>

section \<open>Machine integers\<close>

type_synonym u8 = "8 word"
type_synonym u16 = "16 word"
type_synonym u32 = "32 word"
type_synonym u64 = "64 word"

named_theorems psm_defs \<open>definitions unfolded when a component's operation is evaluated\<close>
named_theorems psm_frame \<open>what an operation leaves unchanged\<close>

section \<open>Error codes and abnormal termination\<close>

text \<open>The enumerators of \<^verbatim>\<open>enum psm_error\<close>, in order.\<close>

datatype psm_error =
    PSM_OK | PSM_OK_NO_PROGRESS | PSM_PARAM_ERR | PSM_NO_MEMORY | PSM_INIT_NOT_INIT
  | PSM_INIT_BAD_API_VERSION | PSM_NO_AFFINITY | PSM_INTERNAL_ERR | PSM_SHMEM_SEGMENT_ERR
  | PSM_OPT_READONLY | PSM_TIMEOUT | PSM_TOO_MANY_ENDPOINTS | PSM_IS_FINALIZED
  | PSM_EP_WAS_CLOSED | PSM_EP_NO_DEVICE | PSM_EP_UNIT_NOT_FOUND | PSM_EP_DEVICE_FAILURE
  | PSM_EP_CLOSE_TIMEOUT | PSM_EP_NO_PORTS_AVAIL | PSM_EP_NO_NETWORK
  | PSM_EP_INVALID_UUID_KEY | PSM_EP_NO_RESOURCES
  | PSM_EPID_UNKNOWN | PSM_EPID_UNREACHABLE | PSM_EPID_INVALID_NODE | PSM_EPID_INVALID_MTU
  | PSM_EPID_INVALID_UUID_KEY | PSM_EPID_INVALID_VERSION | PSM_EPID_INVALID_CONNECT
  | PSM_EPID_ALREADY_CONNECTED | PSM_EPID_NETWORK_ERROR | PSM_EPID_INVALID_PKEY
  | PSM_EPID_PATH_RESOLUTION
  | PSM_MQ_NO_COMPLETIONS | PSM_MQ_TRUNCATION | PSM_AM_INVALID_REPLY | PSM_ERROR_LAST

text \<open>The values the C enumeration assigns, used where the code compares error codes.\<close>

fun psm_error_num :: "psm_error \<Rightarrow> nat" where
  "psm_error_num PSM_OK = 0"
| "psm_error_num PSM_OK_NO_PROGRESS = 1"
| "psm_error_num PSM_PARAM_ERR = 3"
| "psm_error_num PSM_NO_MEMORY = 4"
| "psm_error_num PSM_INIT_NOT_INIT = 5"
| "psm_error_num PSM_INIT_BAD_API_VERSION = 6"
| "psm_error_num PSM_NO_AFFINITY = 7"
| "psm_error_num PSM_INTERNAL_ERR = 8"
| "psm_error_num PSM_SHMEM_SEGMENT_ERR = 9"
| "psm_error_num PSM_OPT_READONLY = 10"
| "psm_error_num PSM_TIMEOUT = 11"
| "psm_error_num PSM_TOO_MANY_ENDPOINTS = 12"
| "psm_error_num PSM_IS_FINALIZED = 13"
| "psm_error_num PSM_EP_WAS_CLOSED = 20"
| "psm_error_num PSM_EP_NO_DEVICE = 21"
| "psm_error_num PSM_EP_UNIT_NOT_FOUND = 22"
| "psm_error_num PSM_EP_DEVICE_FAILURE = 23"
| "psm_error_num PSM_EP_CLOSE_TIMEOUT = 24"
| "psm_error_num PSM_EP_NO_PORTS_AVAIL = 25"
| "psm_error_num PSM_EP_NO_NETWORK = 26"
| "psm_error_num PSM_EP_INVALID_UUID_KEY = 27"
| "psm_error_num PSM_EP_NO_RESOURCES = 28"
| "psm_error_num PSM_EPID_UNKNOWN = 40"
| "psm_error_num PSM_EPID_UNREACHABLE = 41"
| "psm_error_num PSM_EPID_INVALID_NODE = 43"
| "psm_error_num PSM_EPID_INVALID_MTU = 44"
| "psm_error_num PSM_EPID_INVALID_UUID_KEY = 45"
| "psm_error_num PSM_EPID_INVALID_VERSION = 46"
| "psm_error_num PSM_EPID_INVALID_CONNECT = 47"
| "psm_error_num PSM_EPID_ALREADY_CONNECTED = 48"
| "psm_error_num PSM_EPID_NETWORK_ERROR = 49"
| "psm_error_num PSM_EPID_INVALID_PKEY = 50"
| "psm_error_num PSM_EPID_PATH_RESOLUTION = 51"
| "psm_error_num PSM_MQ_NO_COMPLETIONS = 60"
| "psm_error_num PSM_MQ_TRUNCATION = 61"
| "psm_error_num PSM_AM_INVALID_REPLY = 70"
| "psm_error_num PSM_ERROR_LAST = 80"

text \<open>
  A call that does not return: \<^verbatim>\<open>psmi_assert_always\<close> failing or \<^verbatim>\<open>abort()\<close>
  (\<open>Assert_Abort\<close>), \<^verbatim>\<open>psmi_handle_error (PSMI_EP_NORETURN, e, ...)\<close> (\<open>Error_Exit e\<close>), and
  an access the C standard leaves undefined: a dereference of NULL, an index past an allocation,
  a division by zero (\<open>Undefined_Access\<close>), and a loop that polls for something that never
  comes (\<open>Endless_Wait\<close>).
\<close>

datatype stop = Assert_Abort | Error_Exit psm_error | Undefined_Access | Endless_Wait

type_synonym 'a run = "stop + 'a"

definition run_bind :: "'a run \<Rightarrow> ('a \<Rightarrow> 'b run) \<Rightarrow> 'b run" where
  "run_bind r f = (case r of Inl e \<Rightarrow> Inl e | Inr a \<Rightarrow> f a)"

lemma run_bind_simps [simp]:
  "run_bind (Inl e) f = Inl e" "run_bind (Inr a) f = f a"
  by (simp_all add: run_bind_def)

lemma run_bind_Inr_iff: "run_bind r f = Inr b \<longleftrightarrow> (\<exists>a. r = Inr a \<and> f a = Inr b)"
  by (cases r) simp_all

lemma run_bind_InrE [elim!]:
  assumes "run_bind r f = Inr b"
  obtains a where "r = Inr a" "f a = Inr b"
  using assms by (auto simp: run_bind_Inr_iff)

lemma run_bind_cong [fundef_cong]:
  "r = r' \<Longrightarrow> (\<And>a. r' = Inr a \<Longrightarrow> f a = g a) \<Longrightarrow> run_bind r f = run_bind r' g"
  by (cases r') auto

section \<open>Words\<close>

text \<open>\<^verbatim>\<open>PSMI_POWEROFTWO\<close>, \<^verbatim>\<open>PSMI_ALIGNDOWN\<close> and \<^verbatim>\<open>PSMI_ALIGNUP\<close> of \<^verbatim>\<open>src/psm_help.h\<close>.\<close>

unbundle bit_operations_syntax

definition PSMI_POWEROFTWO :: "'a::len word \<Rightarrow> bool" where
  "PSMI_POWEROFTWO P \<longleftrightarrow> P AND (P - 1) = 0"

definition PSMI_ALIGNDOWN :: "u64 \<Rightarrow> u64 \<Rightarrow> u64" where
  "PSMI_ALIGNDOWN p P = p AND NOT (P - 1)"

definition PSMI_ALIGNUP :: "u64 \<Rightarrow> u64 \<Rightarrow> u64" where
  "PSMI_ALIGNUP p P = PSMI_ALIGNDOWN (p + (P - 1)) P"

lemma unat_inc: "x \<noteq> - 1 \<Longrightarrow> unat (x + 1) = Suc (unat (x :: 'a::len word))"
  by (metis add.commute unatSuc add_eq_0_iff2)

lemma unat_dec: "x \<noteq> 0 \<Longrightarrow> unat (x - 1) = unat (x :: 'a::len word) - 1"
  by (simp add: unat_minus_one)

lemma unat_plus_no_wrap:
  "unat x + unat y < 2 ^ LENGTH('a) \<Longrightarrow> unat (x + y :: 'a::len word) = unat x + unat y"
  by (simp add: unat_word_ariths)

lemma unat_ucast_up:
  assumes "LENGTH('a) \<le> LENGTH('b)"
  shows "unat (ucast (w :: 'a::len word) :: 'b::len word) = unat w"
proof -
  have "unat w < 2 ^ LENGTH('b)"
    using unsigned_less [of w, where 'a = nat] assms by (meson less_le_trans one_le_numeral power_increasing)
  then show ?thesis by (simp add: unsigned_ucast_eq take_bit_nat_eq_self)
qed

lemma unat_of_nat_below: "n < unat (w :: 'a::len word) \<Longrightarrow> unat (of_nat n :: 'a word) = n"
  by (metis less_trans mod_less unat_of_nat unsigned_less)

lemma word_mod_pow2:
  assumes "unat (P :: 'a::len word) = 2 ^ k"
  shows "of_nat n AND (P - 1) = (of_nat (n mod unat P) :: 'a word)"
proof -
  have "P = of_nat (unat P)" by simp
  then have "P = 2 ^ k" unfolding assms by simp
  then have "P - 1 = mask k" by (simp add: mask_eq_exp_minus_1)
  then have "of_nat n AND (P - 1) = take_bit k (of_nat n :: 'a word)" by (simp add: take_bit_eq_mask)
  also have "\<dots> = of_nat (n mod unat P)" unfolding assms
    by (simp add: take_bit_of_nat flip: take_bit_eq_mod)
  finally show ?thesis .
qed

lemma unat_and_mask: "m = mask k \<Longrightarrow> unat (x AND m :: 'a::len word) = unat x mod 2 ^ k"
proof -
  assume "m = mask k"
  then have "x AND m = take_bit k x" by (simp add: take_bit_eq_mask)
  then have "unat (x AND m) = take_bit k (unat x)" by (simp only: unsigned_take_bit_eq)
  then show ?thesis by (simp add: take_bit_eq_mod)
qed

lemma unat_plus_mod:
  assumes "k dvd 2 ^ LENGTH('a)"
  shows "unat (x + y :: 'a::len word) mod k = (unat x + unat y) mod k"
  using assms by (simp add: unat_word_ariths mod_mod_cancel)

lemma poweroftwo_nat: "n AND (n - 1) = 0 \<Longrightarrow> 0 < n \<Longrightarrow> \<exists>k. n = 2 ^ k" for n :: nat
proof (induction n rule: less_induct)
  case (less n)
  show ?case
  proof (cases "even n")
    case True
    then obtain m where m: "n = 2 * m" "0 < m" using less.prems by (auto elim: evenE)
    then have "n - 1 = 2 * (m - 1) + 1" by simp
    then have "n AND (n - 1) = 2 * (m AND (m - 1))" using m by (subst and_rec) simp
    then obtain k where "m = 2 ^ k" using less.IH [of m] less.prems m by auto
    then show ?thesis using m by (intro exI [of _ "Suc k"]) simp
  next
    case False
    then obtain m where m: "n = 2 * m + 1" by (auto elim: oddE)
    then have "n AND (n - 1) = 2 * m" by (subst and_rec) simp
    then show ?thesis using less.prems m by (intro exI [of _ 0]) simp
  qed
qed

lemma POWEROFTWO_unat:
  assumes "PSMI_POWEROFTWO P" "P \<noteq> 0"
  shows "\<exists>k. unat P = 2 ^ k"
proof -
  have "unat P AND (unat P - 1) = unat (P AND (P - 1))"
    using assms(2) by (simp add: unsigned_and_eq unat_dec)
  then show ?thesis using assms poweroftwo_nat [of "unat P"] by (simp add: PSMI_POWEROFTWO_def unat_gt_0)
qed

lemma ALIGNUP_bounds:
  assumes "unat p + unat (P - 1) < 2 ^ 64"
  shows "unat (PSMI_ALIGNUP p P) \<le> unat p + unat (P - 1)"
proof -
  have "PSMI_ALIGNUP p P \<le> p + (P - 1)"
    by (simp add: PSMI_ALIGNUP_def PSMI_ALIGNDOWN_def word_and_le2)
  then show ?thesis using assms by (simp add: word_le_nat_alt unat_plus_no_wrap)
qed

section \<open>Lists\<close>

lemma remove1_split: "x \<notin> set as \<Longrightarrow> remove1 x (as @ x # bs) = as @ bs"
  by (simp add: remove1_append)

lemma lessThan_add_image: "{..<m + n} = {..<m} \<union> (\<lambda>i. m + i) ` {..<n :: nat}"
proof -
  have "k \<in> (\<lambda>i. m + i) ` {..<n}" if "k < m + n" "\<not> k < m" for k
    using that by (intro image_eqI [of _ _ "k - m"]) auto
  then show ?thesis by auto
qed

end
