(* ===== verification/Tailq.thy ===== *)
theory Tailq
  imports PSM_Prelude
begin

text \<open>
  The tail queues of \<^verbatim>\<open>src/include/ipath_queue.h\<close> at the level of their pointers. An element is
  in a queue through two fields: \<^verbatim>\<open>tqe_next\<close>, the next element or NULL, and \<^verbatim>\<open>tqe_prev\<close>, the
  \<^emph>\<open>address\<close> of the \<^verbatim>\<open>next\<close> field that points at the element, which is either the head's
  \<^verbatim>\<open>tqh_first\<close> or the \<^verbatim>\<open>tqe_next\<close> of its predecessor. The macros dereference these
  addresses, and \<^verbatim>\<open>TAILQ_LAST\<close> and \<^verbatim>\<open>TAILQ_PREV\<close> cast the address of a link to the address of
  a head, relying on the two structures having the same layout; both are modelled as such.

  \<open>tq_list q xs\<close> relates a pointer queue to the list it represents; the macros are shown to
  implement the list operations, and the facts are packed into the interface \<open>linked_queue\<close>,
  which the timer component uses.
\<close>

section \<open>The structure and its macros\<close>

text \<open>The address of a link: of \<^verbatim>\<open>tqh_first\<close> of the head, or of \<^verbatim>\<open>tqe_next\<close> of an element.\<close>

datatype 'a tqloc = HeadLoc | NextLoc 'a

record 'a tailq =
  tqh_first :: "'a option"
  tqh_last :: "'a tqloc"
  tqe_next :: "'a \<Rightarrow> 'a option"
  tqe_prev :: "'a \<Rightarrow> 'a tqloc"

fun tq_load :: "'a tailq \<Rightarrow> 'a tqloc \<Rightarrow> 'a option" where
  "tq_load q HeadLoc = tqh_first q"
| "tq_load q (NextLoc x) = tqe_next q x"

fun tq_store :: "'a tqloc \<Rightarrow> 'a option \<Rightarrow> 'a tailq \<Rightarrow> 'a tailq" where
  "tq_store HeadLoc v q = q\<lparr>tqh_first := v\<rparr>"
| "tq_store (NextLoc x) v q = q\<lparr>tqe_next := (tqe_next q)(x := v)\<rparr>"

text \<open>
  \<^verbatim>\<open>((struct headname *) l)->tqh_last\<close> for the address \<open>l\<close> of a link: the second field of the
  structure the link is the first field of.
\<close>

fun tq_cast_last :: "'a tailq \<Rightarrow> 'a tqloc \<Rightarrow> 'a tqloc" where
  "tq_cast_last q HeadLoc = tqh_last q"
| "tq_cast_last q (NextLoc x) = tqe_prev q x"

definition set_prev :: "'a \<Rightarrow> 'a tqloc \<Rightarrow> 'a tailq \<Rightarrow> 'a tailq" where
  "set_prev x l q = q\<lparr>tqe_prev := (tqe_prev q)(x := l)\<rparr>"

definition set_next :: "'a \<Rightarrow> 'a option \<Rightarrow> 'a tailq \<Rightarrow> 'a tailq" where
  "set_next x v q = q\<lparr>tqe_next := (tqe_next q)(x := v)\<rparr>"

definition TAILQ_EMPTY :: "'a tailq \<Rightarrow> bool" where
  "TAILQ_EMPTY q \<longleftrightarrow> tqh_first q = None"

definition TAILQ_INIT :: "'a tailq \<Rightarrow> 'a tailq" where
  "TAILQ_INIT q = (let q = q\<lparr>tqh_first := None\<rparr> in q\<lparr>tqh_last := HeadLoc\<rparr>)"

definition TAILQ_INSERT_AFTER :: "'a \<Rightarrow> 'a \<Rightarrow> 'a tailq \<Rightarrow> 'a tailq" where
  "TAILQ_INSERT_AFTER listelm elm q =
     (let q = set_next elm (tqe_next q listelm) q;
          q = (case tqe_next q elm of
                 Some n \<Rightarrow> set_prev n (NextLoc elm) q
               | None \<Rightarrow> q\<lparr>tqh_last := NextLoc elm\<rparr>);
          q = set_next listelm (Some elm) q
      in set_prev elm (NextLoc listelm) q)"

definition TAILQ_INSERT_BEFORE :: "'a \<Rightarrow> 'a \<Rightarrow> 'a tailq \<Rightarrow> 'a tailq" where
  "TAILQ_INSERT_BEFORE listelm elm q =
     (let q = set_prev elm (tqe_prev q listelm) q;
          q = set_next elm (Some listelm) q;
          q = tq_store (tqe_prev q listelm) (Some elm) q
      in set_prev listelm (NextLoc elm) q)"

definition TAILQ_INSERT_HEAD :: "'a \<Rightarrow> 'a tailq \<Rightarrow> 'a tailq" where
  "TAILQ_INSERT_HEAD elm q =
     (let q = set_next elm (tqh_first q) q;
          q = (case tqe_next q elm of
                 Some n \<Rightarrow> set_prev n (NextLoc elm) q
               | None \<Rightarrow> q\<lparr>tqh_last := NextLoc elm\<rparr>);
          q = q\<lparr>tqh_first := Some elm\<rparr>
      in set_prev elm HeadLoc q)"

definition TAILQ_INSERT_TAIL :: "'a \<Rightarrow> 'a tailq \<Rightarrow> 'a tailq" where
  "TAILQ_INSERT_TAIL elm q =
     (let q = set_next elm None q;
          q = set_prev elm (tqh_last q) q;
          q = tq_store (tqh_last q) (Some elm) q
      in q\<lparr>tqh_last := NextLoc elm\<rparr>)"

definition TAILQ_LAST :: "'a tailq \<Rightarrow> 'a option" where
  "TAILQ_LAST q = tq_load q (tq_cast_last q (tqh_last q))"

definition TAILQ_PREV :: "'a \<Rightarrow> 'a tailq \<Rightarrow> 'a option" where
  "TAILQ_PREV elm q = tq_load q (tq_cast_last q (tqe_prev q elm))"

definition TAILQ_REMOVE :: "'a \<Rightarrow> 'a tailq \<Rightarrow> 'a tailq" where
  "TAILQ_REMOVE elm q =
     (let q = (case tqe_next q elm of
                 Some n \<Rightarrow> set_prev n (tqe_prev q elm) q
               | None \<Rightarrow> q\<lparr>tqh_last := tqe_prev q elm\<rparr>)
      in tq_store (tqe_prev q elm) (tqe_next q elm) q)"

lemmas tq_defs = set_prev_def set_next_def TAILQ_EMPTY_def TAILQ_INIT_def TAILQ_INSERT_AFTER_def
  TAILQ_INSERT_BEFORE_def TAILQ_INSERT_HEAD_def TAILQ_INSERT_TAIL_def TAILQ_LAST_def
  TAILQ_PREV_def TAILQ_REMOVE_def

section \<open>The represented list\<close>

text \<open>
  \<open>tq_seg q l xs l'\<close>: following links from the address \<open>l\<close> one meets the elements \<open>xs\<close>, each
  with the right back link, and ends at the address \<open>l'\<close>.
\<close>

fun tq_seg :: "'a tailq \<Rightarrow> 'a tqloc \<Rightarrow> 'a list \<Rightarrow> 'a tqloc \<Rightarrow> bool" where
  "tq_seg q l [] l' \<longleftrightarrow> l = l'"
| "tq_seg q l (x # xs) l' \<longleftrightarrow>
     tq_load q l = Some x \<and> tqe_prev q x = l \<and> tq_seg q (NextLoc x) xs l'"

definition tq_list :: "'a tailq \<Rightarrow> 'a list \<Rightarrow> bool" where
  "tq_list q xs \<longleftrightarrow> distinct xs \<and> tq_seg q HeadLoc xs (tqh_last q) \<and> tq_load q (tqh_last q) = None"

text \<open>The address of the last link of a segment that starts at \<open>l\<close>.\<close>

fun end_loc :: "'a tqloc \<Rightarrow> 'a list \<Rightarrow> 'a tqloc" where
  "end_loc l [] = l"
| "end_loc l (x # xs) = end_loc (NextLoc x) xs"

lemma end_loc_snoc [simp]: "end_loc l (xs @ [x]) = NextLoc x"
  by (induction xs arbitrary: l) auto

lemma end_loc_append: "end_loc l (xs @ ys) = end_loc (end_loc l xs) ys"
  by (induction xs arbitrary: l) auto

lemma end_loc_cases: "end_loc l xs = l \<or> (\<exists>x \<in> set xs. end_loc l xs = NextLoc x)"
  by (induction xs arbitrary: l) auto

lemma tq_seg_end: "tq_seg q l xs l' \<Longrightarrow> l' = end_loc l xs"
  by (induction xs arbitrary: l) auto

lemma tq_seg_append:
  "tq_seg q l (xs @ ys) l' \<longleftrightarrow> tq_seg q l xs (end_loc l xs) \<and> tq_seg q (end_loc l xs) ys l'"
  by (induction xs arbitrary: l) auto

text \<open>
  A segment depends only on the links it follows and on the back links of its elements: the
  frame rule of the pointer proofs.
\<close>

fun tq_links :: "'a tqloc \<Rightarrow> 'a list \<Rightarrow> 'a tqloc set" where
  "tq_links l [] = {}"
| "tq_links l (x # xs) = insert l (tq_links (NextLoc x) xs)"

lemma tq_links_sub: "m \<in> tq_links l xs \<Longrightarrow> m = l \<or> (\<exists>x \<in> set xs. m = NextLoc x)"
  by (induction xs arbitrary: l) fastforce+

lemma end_loc_notin_links:
  "distinct xs \<Longrightarrow> (\<And>x. x \<in> set xs \<Longrightarrow> l \<noteq> NextLoc x) \<Longrightarrow> end_loc l xs \<notin> tq_links l xs"
proof (induction xs arbitrary: l)
  case (Cons x xs)
  have "end_loc (NextLoc x) xs \<noteq> l"
    using end_loc_cases [of "NextLoc x" xs] Cons.prems(2) by auto
  then show ?case using Cons by auto
qed simp

lemma tq_seg_frame:
  assumes "tq_seg q l xs l'"
    and "\<And>m. m \<in> tq_links l xs \<Longrightarrow> tq_load q' m = tq_load q m"
    and "\<And>x. x \<in> set xs \<Longrightarrow> tqe_prev q' x = tqe_prev q x"
  shows "tq_seg q' l xs l'"
  using assms by (induction xs arbitrary: l) auto

text \<open>The effect of an assignment on what the links hold.\<close>

lemma tq_load_set [simp]:
  "tq_load (set_next x v q) m = (if m = NextLoc x then v else tq_load q m)"
  "tq_load (set_prev x l q) m = tq_load q m"
  "tq_load (q\<lparr>tqh_last := l\<rparr>) m = tq_load q m"
  "tq_load (q\<lparr>tqh_first := v\<rparr>) m = (if m = HeadLoc then v else tq_load q m)"
  "tq_load (tq_store l v q) m = (if m = l then v else tq_load q m)"
  by (cases m; simp add: set_next_def set_prev_def; fail | cases l; cases m; simp)+

lemma tq_prev_set [simp]:
  "tqe_prev (set_next x v q) = tqe_prev q"
  "tqe_prev (set_prev x l q) = (tqe_prev q)(x := l)"
  "tqe_prev (tq_store l v q) = tqe_prev q"
  by (simp_all add: set_next_def set_prev_def, cases l, simp_all)

lemma tq_last_set [simp]:
  "tqh_last (set_next x v q) = tqh_last q"
  "tqh_last (set_prev x l q) = tqh_last q"
  "tqh_last (tq_store l v q) = tqh_last q"
  by (simp_all add: set_next_def set_prev_def, cases l, simp_all)

lemma tqe_next_load: "tqe_next q x = tq_load q (NextLoc x)"
  by simp

lemma tqh_first_load: "tqh_first q = tq_load q HeadLoc"
  by simp

declare tq_load.simps [simp del]

lemma tq_load_last: "tq_list q xs \<Longrightarrow> tq_load q (tqh_last q) = None"
  by (simp add: tq_list_def)

lemma tq_list_lastp: "tq_list q xs \<Longrightarrow> tqh_last q = end_loc HeadLoc xs"
  by (auto simp: tq_list_def dest: tq_seg_end)

lemma tq_list_split:
  "tq_list q (xs @ x # ys) \<longleftrightarrow>
     distinct (xs @ x # ys) \<and> tq_seg q HeadLoc xs (end_loc HeadLoc xs) \<and>
     tq_load q (end_loc HeadLoc xs) = Some x \<and> tqe_prev q x = end_loc HeadLoc xs \<and>
     tq_seg q (NextLoc x) ys (tqh_last q) \<and> tq_load q (tqh_last q) = None"
  by (auto simp: tq_list_def tq_seg_append)

lemma end_loc_NextLoc_in: "end_loc l xs = NextLoc x \<Longrightarrow> l \<noteq> NextLoc x \<Longrightarrow> x \<in> set xs"
  using end_loc_cases [of l xs] by auto

lemma end_loc_fresh: "y \<notin> set xs \<Longrightarrow> end_loc HeadLoc xs \<noteq> NextLoc y"
  using end_loc_NextLoc_in [of HeadLoc xs y] by auto

text \<open>Reading a represented queue.\<close>

lemma tq_first: "tq_list q xs \<Longrightarrow> tqh_first q = (case xs of [] \<Rightarrow> None | x # _ \<Rightarrow> Some x)"
  by (cases xs) (auto simp: tq_list_def tqh_first_load)

lemma TAILQ_EMPTY_iff: "tq_list q xs \<Longrightarrow> TAILQ_EMPTY q \<longleftrightarrow> xs = []"
  by (auto simp: TAILQ_EMPTY_def tq_first split: list.splits)

lemma tq_next:
  "tq_list q (as @ x # bs) \<Longrightarrow> tqe_next q x = (case bs of [] \<Rightarrow> None | y # _ \<Rightarrow> Some y)"
  by (auto simp: tq_list_split tqe_next_load split: list.splits)

lemma tq_list_prev: "tq_list q (as @ x # bs) \<Longrightarrow> tqe_prev q x = end_loc HeadLoc as"
  by (auto simp: tq_list_split)

lemma TAILQ_PREV_eq:
  assumes "tq_list q (as @ x # bs)"
  shows "TAILQ_PREV x q = (if as = [] then None else Some (last as))"
proof (cases as rule: rev_cases)
  case Nil
  then show ?thesis using assms tq_list_prev [of q "[]" x bs] by (simp add: tq_defs tq_load_last)
next
  case (snoc as' y)
  with assms have *: "tq_list q (as' @ y # x # bs)" by simp
  have "tqe_prev q x = NextLoc y" using tq_list_prev [OF assms] snoc by simp
  moreover have "tq_load q (tqe_prev q y) = Some y" using * by (simp add: tq_list_split)
  ultimately show ?thesis by (simp add: tq_defs snoc)
qed

lemma TAILQ_LAST_eq:
  assumes "tq_list q xs"
  shows "TAILQ_LAST q = (if xs = [] then None else Some (last xs))"
proof (cases xs rule: rev_cases)
  case Nil
  then show ?thesis using assms tq_list_lastp [OF assms] by (simp add: tq_defs tq_list_def)
next
  case (snoc ys y)
  with assms have "tq_load q (tqe_prev q y) = Some y" by (simp add: tq_list_split)
  moreover have "tqh_last q = NextLoc y" using tq_list_lastp [OF assms] snoc by simp
  ultimately show ?thesis by (simp add: tq_defs snoc)
qed

section \<open>The macros implement the list operations\<close>

lemma tq_list_INIT: "tq_list (TAILQ_INIT q) []"
  by (simp add: tq_list_def tq_defs)

lemmas tq_view = tqe_next_load tqh_first_load Let_def

lemma tq_list_INSERT_TAIL:
  assumes "tq_list q xs" "x \<notin> set xs"
  shows "tq_list (TAILQ_INSERT_TAIL x q) (xs @ [x])"
proof -
  let ?l = "end_loc HeadLoc xs" and ?q = "TAILQ_INSERT_TAIL x q"
  have last: "tqh_last q = ?l" using assms(1) by (rule tq_list_lastp)
  have fr: "?l \<noteq> NextLoc x" using assms(2) by (rule end_loc_fresh)
  have nl: "?l \<notin> tq_links HeadLoc xs" using assms(1) by (auto simp: tq_list_def end_loc_notin_links)
  have "tq_seg ?q HeadLoc xs ?l"
  proof (rule tq_seg_frame)
    show "tq_seg q HeadLoc xs ?l" using assms(1) last by (simp add: tq_list_def)
  qed (use assms last nl in \<open>auto simp: TAILQ_INSERT_TAIL_def tq_view dest: tq_links_sub\<close>)
  then show ?thesis
    using assms last fr by (auto simp: tq_seg_append TAILQ_INSERT_TAIL_def tq_view tq_list_def)
qed

lemma tq_list_INSERT_HEAD:
  assumes "tq_list q xs" "x \<notin> set xs"
  shows "tq_list (TAILQ_INSERT_HEAD x q) (x # xs)"
proof (cases xs)
  case Nil
  then show ?thesis using assms by (auto simp: tq_list_def TAILQ_INSERT_HEAD_def tq_view)
next
  case (Cons y ys)
  let ?q = "TAILQ_INSERT_HEAD x q"
  have first: "tq_load q HeadLoc = Some y" using assms(1) Cons by (simp add: tq_list_def)
  have "tq_seg ?q (NextLoc y) ys (tqh_last q)"
  proof (rule tq_seg_frame)
    show "tq_seg q (NextLoc y) ys (tqh_last q)" using assms(1) Cons by (simp add: tq_list_def)
  qed (use assms Cons first in \<open>auto simp: TAILQ_INSERT_HEAD_def tq_view tq_list_def
         dest: tq_links_sub\<close>)
  moreover have "tqh_last q \<noteq> NextLoc x" "tqh_last q \<noteq> HeadLoc"
    using assms Cons tq_list_lastp [OF assms(1)] end_loc_NextLoc_in [of "NextLoc y" ys x]
      end_loc_cases [of "NextLoc y" ys] by auto
  ultimately show ?thesis
    using assms Cons first by (auto simp: tq_list_def TAILQ_INSERT_HEAD_def tq_view)
qed

lemma end_loc_notin_later:
  "distinct (as @ bs) \<Longrightarrow> b \<notin> set as \<Longrightarrow> end_loc HeadLoc as \<notin> tq_links (NextLoc b) bs"
  using end_loc_cases [of HeadLoc as] by (fastforce dest: tq_links_sub)

lemma tq_last_not_early:
  assumes "distinct (as @ b # bs)"
  shows "end_loc (NextLoc b) bs \<noteq> end_loc HeadLoc as"
  using assms end_loc_cases [of HeadLoc as] end_loc_cases [of "NextLoc b" bs] by auto

lemma tq_list_INSERT_AFTER:
  assumes q: "tq_list q (as @ y # bs)" and x: "x \<notin> set (as @ y # bs)"
  shows "tq_list (TAILQ_INSERT_AFTER y x q) (as @ y # x # bs)"
proof -
  let ?l = "end_loc HeadLoc as" and ?q = "TAILQ_INSERT_AFTER y x q"
  have d: "distinct (as @ y # bs)" using q by (simp add: tq_list_def)
  have last: "tqh_last q = end_loc (NextLoc y) bs"
    using tq_list_lastp [OF q] by (simp add: end_loc_append)
  have 1: "tq_seg ?q HeadLoc as ?l"
  proof (rule tq_seg_frame)
    show "tq_seg q HeadLoc as ?l" using q by (simp add: tq_list_split)
  qed (use q x d in \<open>cases bs; auto simp: TAILQ_INSERT_AFTER_def tq_view tq_list_split
         dest: tq_links_sub\<close>)+
  show ?thesis
  proof (cases bs)
    case Nil
    then have "tqh_last q = NextLoc y" using last by simp
    then show ?thesis using 1 q x d Nil end_loc_fresh [of x as] end_loc_fresh [of y as]
      by (auto simp: tq_list_split TAILQ_INSERT_AFTER_def tq_view)
  next
    case (Cons z zs)
    have n: "tq_load q (NextLoc y) = Some z" using q Cons by (simp add: tq_list_split)
    have "tq_seg ?q (NextLoc z) zs (tqh_last q)"
    proof (rule tq_seg_frame)
      show "tq_seg q (NextLoc z) zs (tqh_last q)" using q Cons by (simp add: tq_list_split)
    qed (use x d Cons n in \<open>auto simp: TAILQ_INSERT_AFTER_def tq_view dest: tq_links_sub\<close>)
    moreover have "tqh_last q \<noteq> NextLoc x" "tqh_last q \<noteq> NextLoc y" "tqh_last q \<noteq> HeadLoc"
      using last x d Cons end_loc_cases [of "NextLoc z" zs] by auto
    ultimately show ?thesis using 1 q x d Cons n end_loc_fresh [of x as] end_loc_fresh [of y as]
      by (auto simp: tq_list_split TAILQ_INSERT_AFTER_def tq_view)
  qed
qed

lemma tq_list_INSERT_BEFORE:
  assumes q: "tq_list q (as @ y # bs)" and x: "x \<notin> set (as @ y # bs)"
  shows "tq_list (TAILQ_INSERT_BEFORE y x q) (as @ x # y # bs)"
proof -
  let ?l = "end_loc HeadLoc as" and ?q = "TAILQ_INSERT_BEFORE y x q"
  have d: "distinct (as @ y # bs)" using q by (simp add: tq_list_def)
  have prev: "tqe_prev q y = ?l" using q by (rule tq_list_prev)
  have last: "tqh_last q = end_loc (NextLoc y) bs"
    using tq_list_lastp [OF q] by (simp add: end_loc_append)
  have 1: "tq_seg ?q HeadLoc as ?l"
  proof (rule tq_seg_frame)
    show "tq_seg q HeadLoc as ?l" using q by (simp add: tq_list_split)
  qed (use x d prev end_loc_notin_links [of as HeadLoc] in \<open>auto simp: TAILQ_INSERT_BEFORE_def
         tq_view dest: tq_links_sub\<close>)+
  have 2: "tq_seg ?q (NextLoc y) bs (tqh_last q)"
  proof (rule tq_seg_frame)
    show "tq_seg q (NextLoc y) bs (tqh_last q)" using q by (simp add: tq_list_split)
  qed (use x d prev end_loc_notin_later [of as bs y] in \<open>auto simp: TAILQ_INSERT_BEFORE_def
         tq_view dest: tq_links_sub\<close>)+
  have "tqh_last q \<noteq> NextLoc x"
    using last x end_loc_NextLoc_in [of "NextLoc y" bs x] by auto
  then show ?thesis using 1 2 q x d prev last tq_last_not_early [OF d] end_loc_fresh [of x as]
      end_loc_fresh [of y as]
    by (auto simp: tq_list_split TAILQ_INSERT_BEFORE_def tq_view)
qed

lemma tq_list_REMOVE_split:
  assumes q: "tq_list q (as @ x # bs)"
  shows "tq_list (TAILQ_REMOVE x q) (as @ bs)"
proof -
  let ?l = "end_loc HeadLoc as" and ?q = "TAILQ_REMOVE x q"
  have d: "distinct (as @ x # bs)" using q by (simp add: tq_list_def)
  have prev: "tqe_prev q x = ?l" using q by (rule tq_list_prev)
  have last: "tqh_last q = end_loc (NextLoc x) bs"
    using tq_list_lastp [OF q] by (simp add: end_loc_append)
  have fr: "?l \<noteq> NextLoc x" using d by (intro end_loc_fresh) auto
  have 1: "tq_seg ?q HeadLoc as ?l"
  proof (rule tq_seg_frame)
    show "tq_seg q HeadLoc as ?l" using q by (simp add: tq_list_split)
  qed (use q d prev end_loc_notin_links [of as HeadLoc] in \<open>cases bs; auto simp: TAILQ_REMOVE_def
         tq_view tq_list_split dest: tq_links_sub\<close>)+
  show ?thesis
  proof (cases bs)
    case Nil
    then show ?thesis using 1 q d prev last fr
      by (auto simp: tq_list_def tq_seg_append TAILQ_REMOVE_def tq_view)
  next
    case (Cons z zs)
    have n: "tq_load q (NextLoc x) = Some z" using q Cons by (simp add: tq_list_split)
    have "tq_seg ?q (NextLoc z) zs (tqh_last q)"
    proof (rule tq_seg_frame)
      show "tq_seg q (NextLoc z) zs (tqh_last q)" using q Cons by (simp add: tq_list_split)
    qed (use d Cons n prev end_loc_notin_later [of as zs z] in \<open>auto simp: TAILQ_REMOVE_def tq_view
           dest: tq_links_sub\<close>)
    then show ?thesis using 1 q d Cons n prev last fr tq_last_not_early [of as z zs]
      by (auto simp: tq_list_split TAILQ_REMOVE_def tq_view)
  qed
qed

lemma tq_list_REMOVE:
  assumes "tq_list q xs" "x \<in> set xs"
  shows "tq_list (TAILQ_REMOVE x q) (remove1 x xs)"
proof -
  obtain as bs where xs: "xs = as @ x # bs" "x \<notin> set as"
    using split_list_first [OF assms(2)] by blast
  then show ?thesis using tq_list_REMOVE_split [of q as x bs] assms(1)
    by (simp add: remove1_split)
qed

text \<open>
  \<^verbatim>\<open>TAILQ_REMOVE\<close> does not touch the removed element's own links, so \<^verbatim>\<open>TAILQ_PREV\<close> of a
  removed element still finds its old predecessor while that stays in the queue.
\<close>

lemma TAILQ_REMOVE_own_links [psm_frame]:
  assumes "tq_list q (as @ x # bs)"
  shows "tqe_next (TAILQ_REMOVE x q) x = tqe_next q x" "tqe_prev (TAILQ_REMOVE x q) x = tqe_prev q x"
proof -
  have d: "distinct (as @ x # bs)" and p: "tqe_prev q x = end_loc HeadLoc as"
    using assms tq_list_prev [OF assms] by (simp_all add: tq_list_def)
  have fr: "end_loc HeadLoc as \<noteq> NextLoc x" using d by (intro end_loc_fresh) auto
  show "tqe_next (TAILQ_REMOVE x q) x = tqe_next q x"
    using fr p by (simp add: TAILQ_REMOVE_def tq_view split: option.splits)
  show "tqe_prev (TAILQ_REMOVE x q) x = tqe_prev q x"
    using d assms by (cases bs) (auto simp: TAILQ_REMOVE_def tq_view tq_list_split)
qed

section \<open>Searching a queue\<close>

text \<open>
  \<^verbatim>\<open>TAILQ_FOREACH (v, head) if (p (v)) return v\<close> and the same with
  \<^verbatim>\<open>TAILQ_FOREACH_REVERSE\<close>, started at the cursor \<open>cur\<close>. On a broken (cyclic) queue the C loops
  run forever, which is \<open>None\<close>; \<open>Some None\<close> is falling off the end.
\<close>

partial_function (option) TAILQ_FOREACH_find ::
  "('a \<Rightarrow> bool) \<Rightarrow> 'a tailq \<Rightarrow> 'a option \<Rightarrow> 'a option option" where
  "TAILQ_FOREACH_find p q cur =
     (case cur of
        None \<Rightarrow> Some None
      | Some v \<Rightarrow> if p v then Some (Some v) else TAILQ_FOREACH_find p q (tqe_next q v))"

partial_function (option) TAILQ_FOREACH_REVERSE_find ::
  "('a \<Rightarrow> bool) \<Rightarrow> 'a tailq \<Rightarrow> 'a option \<Rightarrow> 'a option option" where
  "TAILQ_FOREACH_REVERSE_find p q cur =
     (case cur of
        None \<Rightarrow> Some None
      | Some v \<Rightarrow> if p v then Some (Some v) else TAILQ_FOREACH_REVERSE_find p q (TAILQ_PREV v q))"

lemma FOREACH_find_from:
  "tq_list q (as @ bs) \<Longrightarrow>
     TAILQ_FOREACH_find p q (case bs of [] \<Rightarrow> None | b # _ \<Rightarrow> Some b) = Some (find p bs)"
proof (induction bs arbitrary: as)
  case Nil
  then show ?case by (simp add: TAILQ_FOREACH_find.simps)
next
  case (Cons b bs)
  have "TAILQ_FOREACH_find p q (case bs of [] \<Rightarrow> None | b # _ \<Rightarrow> Some b) = Some (find p bs)"
    using Cons.IH [of "as @ [b]"] Cons.prems by simp
  then show ?case using tq_next [OF Cons.prems] by (simp add: TAILQ_FOREACH_find.simps)
qed

lemma FOREACH_REVERSE_find_from:
  "tq_list q (as @ bs) \<Longrightarrow>
     TAILQ_FOREACH_REVERSE_find p q (if as = [] then None else Some (last as)) = Some (find p (rev as))"
proof (induction as arbitrary: bs rule: rev_induct)
  case Nil
  then show ?case by (simp add: TAILQ_FOREACH_REVERSE_find.simps)
next
  case (snoc a as)
  have "TAILQ_FOREACH_REVERSE_find p q (if as = [] then None else Some (last as)) = Some (find p (rev as))"
    using snoc.IH [of "a # bs"] snoc.prems by simp
  then show ?case using TAILQ_PREV_eq [of q as a bs] snoc.prems
    by (simp add: TAILQ_FOREACH_REVERSE_find.simps)
qed

lemma TAILQ_FOREACH_find_eq:
  "tq_list q xs \<Longrightarrow> TAILQ_FOREACH_find p q (tqh_first q) = Some (find p xs)"
  using FOREACH_find_from [of q "[]" xs p] by (simp add: tq_first)

lemma TAILQ_FOREACH_REVERSE_find_eq:
  "tq_list q xs \<Longrightarrow> TAILQ_FOREACH_REVERSE_find p q (TAILQ_LAST q) = Some (find p (rev xs))"
  using FOREACH_REVERSE_find_from [of q xs "[]" p] by (simp add: TAILQ_LAST_eq)

section \<open>The interface: a doubly linked queue with constant-time removal\<close>

text \<open>
  What a client relies on when it appends fresh elements and removes members. Both the
  \<^verbatim>\<open>TAILQ\<close> macros and the completion queue of the matched queues
  (\<^verbatim>\<open>mq_qq_append\<close>, \<^verbatim>\<open>mq_qq_remove\<close>) provide it. A client's whole history of calls is a list
  of \<open>qcall\<close>; \<open>qcalls_ok\<close> is the client's side of the contract.
\<close>

datatype 'a qcall = QAppend 'a | QRemove 'a

fun qcall_list :: "'a qcall \<Rightarrow> 'a list \<Rightarrow> 'a list" where
  "qcall_list (QAppend x) xs = xs @ [x]"
| "qcall_list (QRemove x) xs = remove1 x xs"

fun qcalls_ok :: "'a list \<Rightarrow> 'a qcall list \<Rightarrow> bool" where
  "qcalls_ok xs [] \<longleftrightarrow> True"
| "qcalls_ok xs (QAppend x # cs) \<longleftrightarrow> x \<notin> set xs \<and> qcalls_ok (xs @ [x]) cs"
| "qcalls_ok xs (QRemove x # cs) \<longleftrightarrow> x \<in> set xs \<and> qcalls_ok (remove1 x xs) cs"

definition qcall_exec ::
  "('a \<Rightarrow> 'q \<Rightarrow> 'q) \<Rightarrow> ('a \<Rightarrow> 'q \<Rightarrow> 'q) \<Rightarrow> 'a qcall \<Rightarrow> 'q \<Rightarrow> 'q" where
  "qcall_exec app rem c q = (case c of QAppend x \<Rightarrow> app x q | QRemove x \<Rightarrow> rem x q)"

locale linked_queue =
  fixes rep :: "'q \<Rightarrow> 'a list \<Rightarrow> bool"
    and first :: "'q \<Rightarrow> 'a option"
    and append_elm :: "'a \<Rightarrow> 'q \<Rightarrow> 'q"
    and remove_elm :: "'a \<Rightarrow> 'q \<Rightarrow> 'q"
  assumes rep_distinct: "rep q xs \<Longrightarrow> distinct xs"
    and rep_first: "rep q xs \<Longrightarrow> first q = (case xs of [] \<Rightarrow> None | x # _ \<Rightarrow> Some x)"
    and rep_append: "rep q xs \<Longrightarrow> x \<notin> set xs \<Longrightarrow> rep (append_elm x q) (xs @ [x])"
    and rep_remove: "rep q xs \<Longrightarrow> x \<in> set xs \<Longrightarrow> rep (remove_elm x q) (remove1 x xs)"
begin

lemma rep_calls:
  "rep q xs \<Longrightarrow> qcalls_ok xs cs \<Longrightarrow>
     rep (fold (qcall_exec append_elm remove_elm) cs q) (fold qcall_list cs xs)"
proof (induction cs arbitrary: q xs)
  case (Cons c cs)
  then show ?case by (cases c) (auto simp: qcall_exec_def rep_append rep_remove intro!: Cons.IH)
qed simp

lemma rep_requeue: "rep q xs \<Longrightarrow> x \<in> set xs \<Longrightarrow>
    rep (append_elm x (remove_elm x q)) (remove1 x xs @ [x])"
  using rep_append [OF rep_remove] by (simp add: rep_distinct)

lemma rep_pop: "rep q (x # xs) \<Longrightarrow> first q = Some x \<and> rep (remove_elm x q) xs"
  using rep_first [of q "x # xs"] rep_remove [of q "x # xs" x] by simp

end

interpretation tailq: linked_queue tq_list tqh_first TAILQ_INSERT_TAIL TAILQ_REMOVE
  by unfold_locales
    (auto simp: tq_first tq_list_INSERT_TAIL tq_list_REMOVE, auto simp: tq_list_def)

section \<open>Properties\<close>

text \<open>
  After any history of \<^verbatim>\<open>TAILQ_INSERT_TAIL\<close> of fresh elements and \<^verbatim>\<open>TAILQ_REMOVE\<close> of
  members on an initialised queue, the pointers represent exactly the list that appending and
  removing give: links, back links, first and last pointer all agree with it, and
  \<^verbatim>\<open>TAILQ_LAST\<close> finds its last element.
\<close>

theorem tailq_history:
  assumes "qcalls_ok [] cs"
  shows "tq_list (fold (qcall_exec TAILQ_INSERT_TAIL TAILQ_REMOVE) cs (TAILQ_INIT q)) (fold qcall_list cs [])
    \<and> TAILQ_LAST (fold (qcall_exec TAILQ_INSERT_TAIL TAILQ_REMOVE) cs (TAILQ_INIT q)) =
        (case rev (fold qcall_list cs []) of [] \<Rightarrow> None | x # _ \<Rightarrow> Some x)"
proof -
  note r = tailq.rep_calls [OF tq_list_INIT assms, of q]
  then show ?thesis using TAILQ_LAST_eq [OF r]
    by (cases "fold qcall_list cs []" rule: rev_cases) auto
qed

theorem tailq_history_witness:
  "qcalls_ok [] [QAppend (1::nat), QAppend 2, QAppend 3, QRemove 3, QRemove 1, QAppend 1] \<and>
   tq_list (fold (qcall_exec TAILQ_INSERT_TAIL TAILQ_REMOVE)
     [QAppend (1::nat), QAppend 2, QAppend 3, QRemove 3, QRemove 1, QAppend 1]
     (TAILQ_INIT \<lparr>tqh_first = None, tqh_last = NextLoc 7, tqe_next = (\<lambda>_. Some 9), tqe_prev = (\<lambda>_. HeadLoc)\<rparr>))
     [2, 1]"
  using tailq_history [of "[QAppend (1::nat), QAppend 2, QAppend 3, QRemove 3, QRemove 1, QAppend 1]"]
  by simp

end
