(* ===== verification/Timer.thy ===== *)
theory Timer
  imports Tailq
begin

text \<open>
  The timer queue of \<^verbatim>\<open>src/psm_timer.c\<close> and \<^verbatim>\<open>src/psm_timer.h\<close>. The control block and the
  \<^verbatim>\<open>struct psmi_timer\<close> entries are one state: entries are named by numbers (their addresses) and
  their fields are functions of the name; the queue itself is the pointer structure of
  \<open>Tailq\<close>. A timer's callback is code outside this component: a value of type \<open>'f\<close> that an
  interpreter \<open>call\<close>, an argument of the functions that run callbacks, applies to the state. The
  state is an extensible record: \<open>'w\<close> is the rest of the program, which callbacks act on.

  Shown: the queue is always sorted by deadline and \<open>t_cyc_next_expire\<close> is always the earliest
  pending deadline; insertion is stable for deadlines and last-in-first-out for priorities; the
  insertion loops end; a sweep runs exactly the callbacks of the expired timers, earliest first.
\<close>

unbundle bit_operations_syntax

section \<open>State\<close>

type_synonym tmr = nat

record 'f timer_ctrl =
  t_cyc_next_expire :: u64
  timerq :: "tmr tailq"
  t_timeout :: "tmr \<Rightarrow> u64"
  t_flags :: "tmr \<Rightarrow> u8"
  expire_callback :: "tmr \<Rightarrow> 'f"
  t_context :: "tmr \<Rightarrow> u64"

definition PSMI_TIMER_PRIO_LAST :: u64 where "PSMI_TIMER_PRIO_LAST = 4"
definition PSMI_TIMER_INFINITE :: u64 where "PSMI_TIMER_INFINITE = 0xFFFFFFFFFFFFFFFF"
definition PSMI_TIMER_FLAG_PENDING :: u8 where "PSMI_TIMER_FLAG_PENDING = 1"

definition timer_pending :: "('f, 'w) timer_ctrl_scheme \<Rightarrow> tmr \<Rightarrow> bool" where
  "timer_pending ctrl t \<longleftrightarrow> t_flags ctrl t AND PSMI_TIMER_FLAG_PENDING \<noteq> 0"

section \<open>Operations\<close>

definition psmi_timer_init :: "('f, 'w) timer_ctrl_scheme \<Rightarrow> psm_error \<times> ('f, 'w) timer_ctrl_scheme" where
  "psmi_timer_init ctrl =
     (let ctrl = ctrl\<lparr>t_cyc_next_expire := PSMI_TIMER_INFINITE\<rparr>;
          ctrl = ctrl\<lparr>timerq := TAILQ_INIT (timerq ctrl)\<rparr>
      in (PSM_OK, ctrl))"

definition psmi_timer_entry_init ::
  "tmr \<Rightarrow> 'f \<Rightarrow> u64 \<Rightarrow> ('f, 'w) timer_ctrl_scheme \<Rightarrow> ('f, 'w) timer_ctrl_scheme" where
  "psmi_timer_entry_init t_init expire_fn ctx ctrl =
     ctrl\<lparr>timerq := set_next t_init None (timerq ctrl),
          t_timeout := (t_timeout ctrl)(t_init := 0),
          t_flags := (t_flags ctrl)(t_init := 0),
          expire_callback := (expire_callback ctrl)(t_init := expire_fn),
          t_context := (t_context ctrl)(t_init := ctx)\<rparr>"

definition psmi_timer_fini :: "('f, 'w) timer_ctrl_scheme \<Rightarrow> psm_error \<times> ('f, 'w) timer_ctrl_scheme" where
  "psmi_timer_fini ctrl = (PSM_OK, ctrl)"

text \<open>The result is \<open>None\<close> only if one of the two search loops does not end.\<close>

definition psmi_timer_request_always ::
  "tmr \<Rightarrow> u64 \<Rightarrow> ('f, 'w) timer_ctrl_scheme \<Rightarrow> ('f, 'w) timer_ctrl_scheme option" where
  "psmi_timer_request_always t_insert t_cyc_expire ctrl =
     (let ctrl = ctrl\<lparr>t_timeout := (t_timeout ctrl)(t_insert := t_cyc_expire)\<rparr>;
          ctrl = ctrl\<lparr>t_flags := (t_flags ctrl)
                        (t_insert := t_flags ctrl t_insert OR PSMI_TIMER_FLAG_PENDING)\<rparr>;
          q = timerq ctrl
      in if TAILQ_EMPTY q
         then Some (ctrl\<lparr>timerq := TAILQ_INSERT_TAIL t_insert q, t_cyc_next_expire := t_cyc_expire\<rparr>)
         else if t_cyc_expire > PSMI_TIMER_PRIO_LAST
         then (case TAILQ_FOREACH_find (\<lambda>t_cursor. t_timeout ctrl t_cursor \<le> t_cyc_expire) q (tqh_first q) of
                 None \<Rightarrow> None
               | Some (Some t_cursor) \<Rightarrow> Some (ctrl\<lparr>timerq := TAILQ_INSERT_BEFORE t_cursor t_insert q\<rparr>)
               | Some None \<Rightarrow> Some (ctrl\<lparr>t_cyc_next_expire := t_cyc_expire,
                                         timerq := TAILQ_INSERT_TAIL t_insert q\<rparr>))
         else (case TAILQ_FOREACH_REVERSE_find (\<lambda>t_cursor. t_timeout ctrl t_cursor \<ge> t_cyc_expire) q (TAILQ_LAST q) of
                 None \<Rightarrow> None
               | Some (Some t_cursor) \<Rightarrow>
                   Some (ctrl\<lparr>timerq := TAILQ_INSERT_AFTER t_cursor t_insert q,
                              t_cyc_next_expire := min t_cyc_expire (t_cyc_next_expire ctrl)\<rparr>)
               | Some None \<Rightarrow> Some (ctrl\<lparr>timerq := TAILQ_INSERT_HEAD t_insert q\<rparr>)))"

definition psmi_timer_request :: "tmr \<Rightarrow> u64 \<Rightarrow> ('f, 'w) timer_ctrl_scheme \<Rightarrow> ('f, 'w) timer_ctrl_scheme option" where
  "psmi_timer_request t_insert t_cyc ctrl =
     (if \<not> timer_pending ctrl t_insert then psmi_timer_request_always t_insert t_cyc ctrl
      else Some ctrl)"

text \<open>The assignment to \<open>t_cyc_next_expire\<close> that ends a removal and a sweep.\<close>

definition timer_reset_next :: "('f, 'w) timer_ctrl_scheme \<Rightarrow> ('f, 'w) timer_ctrl_scheme" where
  "timer_reset_next ctrl =
     (if TAILQ_EMPTY (timerq ctrl) then ctrl\<lparr>t_cyc_next_expire := PSMI_TIMER_INFINITE\<rparr>
      else ctrl\<lparr>t_cyc_next_expire := t_timeout ctrl (the (TAILQ_LAST (timerq ctrl)))\<rparr>)"

definition timer_unlink :: "tmr \<Rightarrow> ('f, 'w) timer_ctrl_scheme \<Rightarrow> ('f, 'w) timer_ctrl_scheme" where
  "timer_unlink t ctrl =
     (let ctrl = ctrl\<lparr>t_flags := (t_flags ctrl)(t := t_flags ctrl t AND NOT PSMI_TIMER_FLAG_PENDING)\<rparr>
      in ctrl\<lparr>timerq := TAILQ_REMOVE t (timerq ctrl)\<rparr>)"

definition psmi_timer_cancel_inner :: "tmr \<Rightarrow> ('f, 'w) timer_ctrl_scheme \<Rightarrow> ('f, 'w) timer_ctrl_scheme" where
  "psmi_timer_cancel_inner t_remove ctrl = timer_reset_next (timer_unlink t_remove ctrl)"

definition psmi_timer_cancel :: "tmr \<Rightarrow> ('f, 'w) timer_ctrl_scheme \<Rightarrow> ('f, 'w) timer_ctrl_scheme" where
  "psmi_timer_cancel t_remove ctrl =
     (if timer_pending ctrl t_remove then psmi_timer_cancel_inner t_remove ctrl else ctrl)"

text \<open>
  The sweep. After its callback the cursor moves to \<^verbatim>\<open>TAILQ_PREV\<close> of the entry that was just
  removed, read from the links that entry still holds.
\<close>

partial_function (option) timer_expire_loop ::
  "('f \<Rightarrow> tmr \<Rightarrow> u64 \<Rightarrow> ('f, 'w) timer_ctrl_scheme \<Rightarrow> ('f, 'w) timer_ctrl_scheme) \<Rightarrow> u64 \<Rightarrow> tmr option \<Rightarrow> psm_error \<Rightarrow>
   ('f, 'w) timer_ctrl_scheme \<Rightarrow> (psm_error \<times> ('f, 'w) timer_ctrl_scheme) option" where
  "timer_expire_loop call now cursor err ctrl =
     (case cursor of
        None \<Rightarrow> Some (err, ctrl)
      | Some t \<Rightarrow>
          if t_timeout ctrl t > now then Some (err, ctrl)
          else let ctrl = timer_unlink t ctrl;
                   ctrl = call (expire_callback ctrl t) t now ctrl
               in timer_expire_loop call now (TAILQ_PREV t (timerq ctrl)) PSM_OK ctrl)"

definition psmi_timer_process_expired ::
  "('f \<Rightarrow> tmr \<Rightarrow> u64 \<Rightarrow> ('f, 'w) timer_ctrl_scheme \<Rightarrow> ('f, 'w) timer_ctrl_scheme) \<Rightarrow> u64 \<Rightarrow> ('f, 'w) timer_ctrl_scheme \<Rightarrow>
   (psm_error \<times> ('f, 'w) timer_ctrl_scheme) option" where
  "psmi_timer_process_expired call now ctrl =
     (case timer_expire_loop call now (TAILQ_LAST (timerq ctrl)) PSM_OK_NO_PROGRESS ctrl of
        None \<Rightarrow> None
      | Some (err, ctrl) \<Rightarrow> Some (err, timer_reset_next ctrl))"

definition psmi_timer_process_if_expired ::
  "('f \<Rightarrow> tmr \<Rightarrow> u64 \<Rightarrow> ('f, 'w) timer_ctrl_scheme \<Rightarrow> ('f, 'w) timer_ctrl_scheme) \<Rightarrow> u64 \<Rightarrow> ('f, 'w) timer_ctrl_scheme \<Rightarrow>
   (psm_error \<times> ('f, 'w) timer_ctrl_scheme) option" where
  "psmi_timer_process_if_expired call now ctrl =
     (if t_cyc_next_expire ctrl \<le> now then psmi_timer_process_expired call now ctrl
      else Some (PSM_OK_NO_PROGRESS, ctrl))"

section \<open>Invariant\<close>

definition deadlines_ok :: "(tmr \<Rightarrow> u64) \<Rightarrow> tmr list \<Rightarrow> bool" where
  "deadlines_ok f xs \<longleftrightarrow> sorted_wrt (\<lambda>a b. f b \<le> f a) xs"

definition next_deadline :: "(tmr \<Rightarrow> u64) \<Rightarrow> tmr list \<Rightarrow> u64" where
  "next_deadline f xs = (if xs = [] then PSMI_TIMER_INFINITE else f (last xs))"

definition timer_inv :: "('f, 'w) timer_ctrl_scheme \<Rightarrow> tmr list \<Rightarrow> bool" where
  "timer_inv ctrl xs \<longleftrightarrow>
     tq_list (timerq ctrl) xs \<and> deadlines_ok (t_timeout ctrl) xs \<and>
     t_cyc_next_expire ctrl = next_deadline (t_timeout ctrl) xs \<and>
     (\<forall>t. timer_pending ctrl t \<longleftrightarrow> t \<in> set xs)"

lemmas timer_consts = PSMI_TIMER_PRIO_LAST_def PSMI_TIMER_INFINITE_def PSMI_TIMER_FLAG_PENDING_def

lemma flag_nz [simp]: "PSMI_TIMER_FLAG_PENDING \<noteq> 0"
  by (simp add: timer_consts)

lemma flag_clear: "(w AND NOT PSMI_TIMER_FLAG_PENDING) AND PSMI_TIMER_FLAG_PENDING = 0"
  by (simp add: and.assoc)

text \<open>
  Where a new deadline goes: a timer behind (towards the head of) every timer that expires
  strictly earlier or at the same time, an operation of a priority class in front of those of
  its own class.
\<close>

definition timer_place :: "(tmr \<Rightarrow> u64) \<Rightarrow> u64 \<Rightarrow> tmr \<Rightarrow> tmr list \<Rightarrow> tmr list" where
  "timer_place f e t xs =
     (if e > PSMI_TIMER_PRIO_LAST
      then filter (\<lambda>x. f x > e) xs @ t # filter (\<lambda>x. f x \<le> e) xs
      else filter (\<lambda>x. f x \<ge> e) xs @ t # filter (\<lambda>x. f x < e) xs)"

lemma deadlines_append: "deadlines_ok f (as @ bs) \<longleftrightarrow>
    deadlines_ok f as \<and> deadlines_ok f bs \<and> (\<forall>a \<in> set as. \<forall>b \<in> set bs. f b \<le> f a)"
  by (auto simp: deadlines_ok_def sorted_wrt_append)

lemma deadlines_Cons: "deadlines_ok f (a # bs) \<longleftrightarrow> deadlines_ok f bs \<and> (\<forall>b \<in> set bs. f b \<le> f a)"
  by (auto simp: deadlines_ok_def)

lemma deadlines_Nil [simp]: "deadlines_ok f []"
  by (simp add: deadlines_ok_def)

lemma deadlines_filter: "deadlines_ok f xs \<Longrightarrow> deadlines_ok f (filter P xs)"
  by (simp add: deadlines_ok_def sorted_wrt_filter)

lemma deadlines_remove1: "deadlines_ok f xs \<Longrightarrow> deadlines_ok f (remove1 x xs)"
  by (induction xs) (auto simp: deadlines_Cons dest: notin_set_remove1)

lemma deadlines_cong: "(\<And>x. x \<in> set xs \<Longrightarrow> f x = g x) \<Longrightarrow> deadlines_ok f xs = deadlines_ok g xs"
  by (auto simp: deadlines_ok_def sorted_wrt_iff_nth_less)

lemma timer_place_sorted:
  assumes "deadlines_ok f xs" "f t = e"
  shows "deadlines_ok f (timer_place f e t xs)"
  using assms by (fastforce simp: timer_place_def deadlines_append deadlines_Cons deadlines_filter)

lemma set_timer_place [simp]: "set (timer_place f e t xs) = insert t (set xs)"
  by (auto simp: timer_place_def)

lemma find_None_all: "find P xs = None \<longleftrightarrow> (\<forall>x \<in> set xs. \<not> P x)"
  by (induction xs) auto

lemma find_SomeE:
  assumes "find P xs = Some c"
  obtains as bs where "xs = as @ c # bs" "P c" "\<forall>a \<in> set as. \<not> P a"
  using assms
proof (induction xs arbitrary: thesis)
  case (Cons x xs)
  show ?case
  proof (cases "P x")
    case True
    then show ?thesis using Cons.prems(1) [of "[]" xs] Cons.prems(2) by simp
  next
    case False
    with Cons obtain as bs where "xs = as @ c # bs" "P c" "\<forall>a \<in> set as. \<not> P a" by auto
    then show ?thesis using False Cons.prems(1) [of "x # as" bs] by auto
  qed
qed simp

text \<open>The position found from the head, for a timer, and from the tail, for a priority.\<close>

lemma place_from_head:
  assumes "deadlines_ok f (as @ c # bs)" "\<forall>a \<in> set as. \<not> f a \<le> e" "f c \<le> e" "e > PSMI_TIMER_PRIO_LAST"
  shows "timer_place f e t (as @ c # bs) = as @ t # c # bs"
proof -
  have "filter (\<lambda>x. f x > e) (as @ c # bs) = as" "filter (\<lambda>x. f x \<le> e) (as @ c # bs) = c # bs"
    using assms by (fastforce simp: deadlines_append deadlines_Cons not_le filter_empty_conv
        filter_id_conv not_less)+
  then show ?thesis using assms(4) by (simp add: timer_place_def)
qed

lemma place_from_tail:
  assumes "deadlines_ok f (as @ c # bs)" "\<forall>b \<in> set bs. \<not> e \<le> f b" "e \<le> f c" "\<not> e > PSMI_TIMER_PRIO_LAST"
  shows "timer_place f e t (as @ c # bs) = as @ c # t # bs"
proof -
  have "filter (\<lambda>x. f x \<ge> e) (as @ c # bs) = as @ [c]" "filter (\<lambda>x. f x < e) (as @ c # bs) = bs"
    using assms by (fastforce simp: deadlines_append deadlines_Cons not_le filter_empty_conv
        filter_id_conv not_less)+
  then show ?thesis using assms(4) by (simp add: timer_place_def)
qed

lemma place_at_end:
  "xs \<noteq> [] \<Longrightarrow> \<forall>x \<in> set xs. \<not> f x \<le> e \<Longrightarrow> e > PSMI_TIMER_PRIO_LAST \<Longrightarrow> timer_place f e t xs = xs @ [t]"
  by (fastforce simp: timer_place_def not_le filter_empty_conv filter_id_conv not_less)

lemma place_at_front:
  "\<forall>x \<in> set xs. \<not> e \<le> f x \<Longrightarrow> \<not> e > PSMI_TIMER_PRIO_LAST \<Longrightarrow> timer_place f e t xs = t # xs"
  by (fastforce simp: timer_place_def not_le filter_empty_conv filter_id_conv not_less)

lemma timer_place_fresh:
  assumes "t \<notin> set xs"
  shows "timer_place (f(t := e)) e t xs = timer_place f e t xs"
proof -
  have eq: "filter (\<lambda>x. P ((f(t := e)) x)) xs = filter (\<lambda>x. P (f x)) xs" for P
    using assms by (intro filter_cong) auto
  show ?thesis
    by (simp only: timer_place_def eq [of "\<lambda>v. v > e"] eq [of "\<lambda>v. v \<le> e"]
        eq [of "\<lambda>v. v \<ge> e"] eq [of "\<lambda>v. v < e"])
qed

lemma place_empty: "timer_place f e t [] = [t]"
  by (simp add: timer_place_def)

lemma next_deadline_Min:
  "deadlines_ok f xs \<Longrightarrow> xs \<noteq> [] \<Longrightarrow> next_deadline f xs = Min (f ` set xs)"
  by (cases xs rule: rev_cases)
    (auto simp: next_deadline_def deadlines_append intro!: Min_eqI [symmetric])

lemma min_infinite: "min e PSMI_TIMER_INFINITE = e"
proof -
  have "PSMI_TIMER_INFINITE = - 1" by (simp add: timer_consts)
  then show ?thesis by (simp add: min_def) (metis word_n1_ge)
qed

lemma next_place:
  assumes "deadlines_ok f xs" "f t = e"
  shows "next_deadline f (timer_place f e t xs) = min e (next_deadline f xs)"
proof -
  have "timer_place f e t xs \<noteq> []" by (simp add: timer_place_def)
  then have "next_deadline f (timer_place f e t xs) = Min (insert e (f ` set xs))"
    using next_deadline_Min [OF timer_place_sorted [OF assms]] assms(2) by simp
  then show ?thesis using next_deadline_Min [OF assms(1)]
    by (cases "xs = []") (simp_all add: next_deadline_def min_infinite)
qed

section \<open>The operations keep the queue sorted and the next deadline right\<close>

lemma timer_inv_init: "(\<And>t. \<not> timer_pending ctrl t) \<Longrightarrow> timer_inv (snd (psmi_timer_init ctrl)) []"
  by (simp add: psmi_timer_init_def timer_inv_def tq_list_INIT next_deadline_def timer_pending_def)

definition timer_armed :: "tmr \<Rightarrow> u64 \<Rightarrow> ('f, 'w) timer_ctrl_scheme \<Rightarrow> ('f, 'w) timer_ctrl_scheme" where
  "timer_armed t e ctrl = ctrl\<lparr>t_timeout := (t_timeout ctrl)(t := e),
     t_flags := (t_flags ctrl)(t := t_flags ctrl t OR PSMI_TIMER_FLAG_PENDING)\<rparr>"

text \<open>
  \<open>request_placed ctrl t e xs r\<close>: the insertion returned a state in which the pointers represent
  the list with the new timer placed, and if the next deadline was right before, it is the
  earlier of the old and the new one. (During a sweep it is out of date until the sweep ends.)
\<close>

definition request_placed ::
  "('f, 'w) timer_ctrl_scheme \<Rightarrow> tmr \<Rightarrow> u64 \<Rightarrow> tmr list \<Rightarrow> ('f, 'w) timer_ctrl_scheme option \<Rightarrow> bool" where
  "request_placed ctrl t e xs r \<longleftrightarrow>
     (\<exists>q' n. r = Some (timer_armed t e ctrl\<lparr>timerq := q', t_cyc_next_expire := n\<rparr>)
        \<and> (t_cyc_next_expire ctrl = next_deadline (t_timeout ctrl) xs \<longrightarrow>
             n = min e (next_deadline (t_timeout ctrl) xs))
        \<and> tq_list q' (timer_place ((t_timeout ctrl)(t := e)) e t xs))"

lemma request_placedI:
  "r = Some (timer_armed t e ctrl\<lparr>timerq := q', t_cyc_next_expire := n\<rparr>) \<Longrightarrow>
   (t_cyc_next_expire ctrl = next_deadline (t_timeout ctrl) xs \<Longrightarrow>
      n = min e (next_deadline (t_timeout ctrl) xs)) \<Longrightarrow>
   tq_list q' (timer_place ((t_timeout ctrl)(t := e)) e t xs) \<Longrightarrow> request_placed ctrl t e xs r"
  unfolding request_placed_def by blast

lemma fresh_deadlines:
  assumes "t \<notin> set xs" "deadlines_ok f xs"
  shows "deadlines_ok (f(t := e)) xs" "next_deadline (f(t := e)) xs = next_deadline f xs"
    "next_deadline (f(t := e)) (timer_place (f(t := e)) e t xs) = min e (next_deadline f xs)"
proof -
  show d: "deadlines_ok (f(t := e)) xs"
    using assms deadlines_cong [of xs "f(t := e)" f] by (metis fun_upd_other)
  show n: "next_deadline (f(t := e)) xs = next_deadline f xs"
    using assms by (auto simp: next_deadline_def)
  show "next_deadline (f(t := e)) (timer_place (f(t := e)) e t xs) = min e (next_deadline f xs)"
    using next_place [OF d, of t e] n by simp
qed

lemma request_empty:
  assumes "tq_list (timerq ctrl) []"
  shows "request_placed ctrl t e [] (psmi_timer_request_always t e ctrl)"
proof (rule request_placedI)
  show "psmi_timer_request_always t e ctrl = Some (timer_armed t e ctrl
      \<lparr>timerq := TAILQ_INSERT_TAIL t (timerq ctrl), t_cyc_next_expire := e\<rparr>)"
    using TAILQ_EMPTY_iff [OF assms] by (simp add: psmi_timer_request_always_def timer_armed_def)
  show "e = min e (next_deadline (t_timeout ctrl) [])"
    using next_place [of "(t_timeout ctrl)(t := e)" "[]" t e]
    by (simp add: place_empty next_deadline_def)
qed (use tq_list_INSERT_TAIL [OF assms, of t] in \<open>simp add: place_empty\<close>)

lemma request_timer:
  assumes q: "tq_list (timerq ctrl) xs" and d: "deadlines_ok (t_timeout ctrl) xs" and t: "t \<notin> set xs"
    and ne: "xs \<noteq> []" and e: "e > PSMI_TIMER_PRIO_LAST"
  shows "request_placed ctrl t e xs (psmi_timer_request_always t e ctrl)"
proof -
  let ?f = "(t_timeout ctrl)(t := e)" and ?q = "timerq ctrl"
  note fr = fresh_deadlines [OF t d, of e]
  note unf = psmi_timer_request_always_def timer_armed_def Let_def TAILQ_EMPTY_iff [OF q]
    TAILQ_FOREACH_find_eq [OF q] ne e
  show ?thesis
  proof (cases "find (\<lambda>x. ?f x \<le> e) xs")
    case None
    then have pl: "timer_place ?f e t xs = xs @ [t]"
      using ne e by (intro place_at_end) (auto simp: find_None_all)
    then have "e = min e (next_deadline (t_timeout ctrl) xs)"
      using fr(3) by (simp add: next_deadline_def)
    moreover have "tq_list (TAILQ_INSERT_TAIL t ?q) (timer_place ?f e t xs)"
      unfolding pl by (rule tq_list_INSERT_TAIL [OF q t])
    ultimately show ?thesis using None by (intro request_placedI) (auto simp: unf)
  next
    case (Some c)
    obtain as bs where xs: "xs = as @ c # bs" "?f c \<le> e" "\<forall>a \<in> set as. \<not> ?f a \<le> e"
      using find_SomeE [OF Some] .
    then have pl: "timer_place ?f e t xs = as @ t # c # bs"
      using place_from_head [of ?f as c bs e t] fr(1) e by simp
    have "tq_list (TAILQ_INSERT_BEFORE c t ?q) (timer_place ?f e t xs)"
      using tq_list_INSERT_BEFORE [of ?q as c bs t] q t xs pl by simp
    moreover have "t_cyc_next_expire ctrl = min e (next_deadline (t_timeout ctrl) xs)"
      if "t_cyc_next_expire ctrl = next_deadline (t_timeout ctrl) xs"
      using fr(2,3) that pl xs ne by (simp add: next_deadline_def)
    ultimately show ?thesis using Some
      by (intro request_placedI [where n = "t_cyc_next_expire ctrl"]) (auto simp: unf)
  qed
qed

lemma request_prio:
  assumes q: "tq_list (timerq ctrl) xs" and d: "deadlines_ok (t_timeout ctrl) xs" and t: "t \<notin> set xs"
    and ne: "xs \<noteq> []" and e: "\<not> e > PSMI_TIMER_PRIO_LAST"
  shows "request_placed ctrl t e xs (psmi_timer_request_always t e ctrl)"
proof -
  let ?f = "(t_timeout ctrl)(t := e)" and ?q = "timerq ctrl"
  note fr = fresh_deadlines [OF t d, of e]
  note unf = psmi_timer_request_always_def timer_armed_def Let_def TAILQ_EMPTY_iff [OF q]
    TAILQ_FOREACH_REVERSE_find_eq [OF q] ne e
  show ?thesis
  proof (cases "find (\<lambda>x. e \<le> ?f x) (rev xs)")
    case None
    then have pl: "timer_place ?f e t xs = t # xs"
      using e by (intro place_at_front) (auto simp: find_None_all)
    have "t_cyc_next_expire ctrl = min e (next_deadline (t_timeout ctrl) xs)"
      if "t_cyc_next_expire ctrl = next_deadline (t_timeout ctrl) xs"
      using fr(2,3) that pl ne by (simp add: next_deadline_def)
    moreover have "tq_list (TAILQ_INSERT_HEAD t ?q) (timer_place ?f e t xs)"
      unfolding pl by (rule tq_list_INSERT_HEAD [OF q t])
    ultimately show ?thesis using None
      by (intro request_placedI [where n = "t_cyc_next_expire ctrl"]) (auto simp: unf)
  next
    case (Some c)
    obtain bs as where r: "rev xs = bs @ c # as" "e \<le> ?f c" "\<forall>a \<in> set bs. \<not> e \<le> ?f a"
      using find_SomeE [OF Some] .
    then have xs: "xs = rev as @ c # rev bs"
      by (metis append.assoc append_Cons append_Nil rev.simps(2) rev_append rev_rev_ident)
    then have pl: "timer_place ?f e t xs = rev as @ c # t # rev bs"
      using place_from_tail [of ?f "rev as" c "rev bs" e t] fr(1) e r by simp
    have "tq_list (TAILQ_INSERT_AFTER c t ?q) (timer_place ?f e t xs)"
      using tq_list_INSERT_AFTER [of ?q "rev as" c "rev bs" t] q t xs pl by simp
    then show ?thesis using Some
      by (intro request_placedI [where n = "min e (t_cyc_next_expire ctrl)"]) (auto simp: unf)
  qed
qed

lemma request_always_placed:
  assumes "tq_list (timerq ctrl) xs" "deadlines_ok (t_timeout ctrl) xs" "t \<notin> set xs"
  shows "request_placed ctrl t e xs (psmi_timer_request_always t e ctrl)"
  using assms request_empty request_timer request_prio by metis

lemma request_inv:
  assumes "timer_inv ctrl xs" "t \<notin> set xs"
  shows "\<exists>ctrl'. psmi_timer_request_always t e ctrl = Some ctrl' \<and>
     t_timeout ctrl' = (t_timeout ctrl)(t := e) \<and>
     timer_inv ctrl' (timer_place (t_timeout ctrl') e t xs)"
proof -
  have i: "tq_list (timerq ctrl) xs" "deadlines_ok (t_timeout ctrl) xs"
    using assms(1) by (simp_all add: timer_inv_def)
  note fr = fresh_deadlines [OF assms(2) i(2), of e]
  show ?thesis using assms fr request_always_placed [OF i assms(2), of e]
      timer_place_sorted [of "(t_timeout ctrl)(t := e)" xs t e]
    by (auto simp: request_placed_def timer_inv_def timer_armed_def timer_pending_def)
qed

lemma timer_unlink_frame [simp]:
  "t_timeout (timer_unlink t ctrl) = t_timeout ctrl"
  "timerq (timer_unlink t ctrl) = TAILQ_REMOVE t (timerq ctrl)"
  "expire_callback (timer_unlink t ctrl) = expire_callback ctrl"
  by (simp_all add: timer_unlink_def Let_def)

lemma timer_pending_unlink:
  "timer_pending (timer_unlink t ctrl) u \<longleftrightarrow> u \<noteq> t \<and> timer_pending ctrl u"
  by (simp add: timer_pending_def timer_unlink_def Let_def flag_clear)

lemma timer_reset_next_eq:
  "tq_list (timerq ctrl) xs \<Longrightarrow>
     timer_reset_next ctrl = ctrl\<lparr>t_cyc_next_expire := next_deadline (t_timeout ctrl) xs\<rparr>"
  by (simp add: timer_reset_next_def TAILQ_EMPTY_iff TAILQ_LAST_eq next_deadline_def)

lemma cancel_inner_inv:
  assumes "timer_inv ctrl xs" "t \<in> set xs"
  shows "timer_inv (psmi_timer_cancel_inner t ctrl) (remove1 t xs)"
proof -
  have q: "tq_list (timerq (timer_unlink t ctrl)) (remove1 t xs)" and d: "distinct xs"
    using assms tq_list_REMOVE [of "timerq ctrl" xs t] tailq.rep_distinct [of "timerq ctrl" xs]
    by (simp_all add: timer_inv_def)
  have "timer_pending (timer_unlink t ctrl) u \<longleftrightarrow> u \<in> set (remove1 t xs)" for u
    using assms d by (auto simp: timer_inv_def timer_pending_unlink)
  then show ?thesis using assms q
    by (simp add: psmi_timer_cancel_inner_def timer_reset_next_eq [OF q] timer_inv_def
        deadlines_remove1 timer_pending_def)
qed

section \<open>The interface: an alarm queue\<close>

text \<open>
  What the protocol engines rely on: arming an idle timer and disarming a pending one keep the
  set of pending timers, and the field the poll loop tests is the earliest of their deadlines.
\<close>

datatype tcall = Arm tmr u64 | Disarm tmr

fun tcalls :: "(tmr \<Rightarrow> u64 \<Rightarrow> 'c \<Rightarrow> 'c option) \<Rightarrow> (tmr \<Rightarrow> 'c \<Rightarrow> 'c) \<Rightarrow> tcall list \<Rightarrow> 'c \<Rightarrow> 'c option" where
  "tcalls arm disarm [] c = Some c"
| "tcalls arm disarm (Arm t e # cs) c =
     (case arm t e c of None \<Rightarrow> None | Some c' \<Rightarrow> tcalls arm disarm cs c')"
| "tcalls arm disarm (Disarm t # cs) c = tcalls arm disarm cs (disarm t c)"

locale alarm_queue =
  fixes inv :: "'c \<Rightarrow> bool"
    and pending :: "'c \<Rightarrow> tmr set"
    and deadline :: "'c \<Rightarrow> tmr \<Rightarrow> u64"
    and earliest :: "'c \<Rightarrow> u64"
    and arm :: "tmr \<Rightarrow> u64 \<Rightarrow> 'c \<Rightarrow> 'c option"
    and disarm :: "tmr \<Rightarrow> 'c \<Rightarrow> 'c"
  assumes pending_finite: "inv c \<Longrightarrow> finite (pending c)"
    and earliest_Min: "inv c \<Longrightarrow> pending c \<noteq> {} \<Longrightarrow> earliest c = Min (deadline c ` pending c)"
    and earliest_none: "inv c \<Longrightarrow> pending c = {} \<Longrightarrow> earliest c = PSMI_TIMER_INFINITE"
    and arm_idle: "inv c \<Longrightarrow> t \<notin> pending c \<Longrightarrow>
      \<exists>c'. arm t e c = Some c' \<and> inv c' \<and> pending c' = insert t (pending c) \<and>
           deadline c' = (deadline c)(t := e)"
    and arm_pending: "inv c \<Longrightarrow> t \<in> pending c \<Longrightarrow> arm t e c = Some c"
    and disarm_law: "inv c \<Longrightarrow> inv (disarm t c) \<and> pending (disarm t c) = pending c - {t} \<and>
           deadline (disarm t c) = deadline c"
begin

lemma tcalls_inv: "inv c \<Longrightarrow> \<exists>c'. tcalls arm disarm cs c = Some c' \<and> inv c'"
proof (induction cs arbitrary: c)
  case (Cons call cs)
  show ?case
  proof (cases call)
    case (Arm t e)
    obtain c' where "arm t e c = Some c'" "inv c'"
      using arm_idle [OF Cons.prems, of t e] arm_pending [OF Cons.prems, of t e] Cons.prems by blast
    then show ?thesis using Cons.IH [of c'] Arm by simp
  next
    case (Disarm t)
    then show ?thesis using Cons disarm_law by simp
  qed
qed simp

lemma tcalls_earliest:
  assumes "inv c"
  shows "\<exists>c'. tcalls arm disarm cs c = Some c' \<and>
     (\<forall>t \<in> pending c'. earliest c' \<le> deadline c' t) \<and>
     (pending c' \<noteq> {} \<longrightarrow> (\<exists>t \<in> pending c'. earliest c' = deadline c' t))"
proof -
  obtain c' where c: "tcalls arm disarm cs c = Some c'" "inv c'" using tcalls_inv assms by blast
  show ?thesis
  proof (cases "pending c' = {}")
    case False
    then have e: "earliest c' = Min (deadline c' ` pending c')" "finite (deadline c' ` pending c')"
      using earliest_Min pending_finite c by auto
    then have "earliest c' \<in> deadline c' ` pending c'" using Min_in False by simp
    then show ?thesis using e c by auto
  qed (use c in auto)
qed

end

definition timer_wf :: "('f, 'w) timer_ctrl_scheme \<Rightarrow> bool" where
  "timer_wf ctrl \<longleftrightarrow> (\<exists>xs. timer_inv ctrl xs)"

definition pending_set :: "('f, 'w) timer_ctrl_scheme \<Rightarrow> tmr set" where
  "pending_set ctrl = {t. timer_pending ctrl t}"

lemma pending_set_eq: "timer_inv ctrl xs \<Longrightarrow> pending_set ctrl = set xs"
  by (auto simp: timer_inv_def pending_set_def)

lemma timer_wfE:
  assumes "timer_wf ctrl"
  obtains xs where "timer_inv ctrl xs" "pending_set ctrl = set xs" "distinct xs"
  using assms pending_set_eq tailq.rep_distinct unfolding timer_wf_def timer_inv_def
  by (metis (no_types, lifting))

lemma request_idle_law:
  assumes "timer_wf c" "t \<notin> pending_set c"
  shows "\<exists>c'. psmi_timer_request t e c = Some c' \<and> timer_wf c' \<and>
      pending_set c' = insert t (pending_set c) \<and> t_timeout c' = (t_timeout c)(t := e)"
proof -
  obtain xs where xs: "timer_inv c xs" and p: "pending_set c = set xs"
    using timer_wfE [OF assms(1)] .
  obtain c' where c': "psmi_timer_request_always t e c = Some c'"
    "timer_inv c' (timer_place (t_timeout c') e t xs)" and "t_timeout c' = (t_timeout c)(t := e)"
    using request_inv [OF xs] assms(2) p by blast
  moreover have "pending_set c' = insert t (pending_set c)"
    using pending_set_eq [OF c'(2)] p by simp
  moreover have "psmi_timer_request t e c = Some c'"
    using c'(1) assms(2) by (simp add: psmi_timer_request_def pending_set_def)
  ultimately show ?thesis using c'(2) timer_wf_def by blast
qed

lemma cancel_timeout: "t_timeout (psmi_timer_cancel t c) = t_timeout c"
  by (simp add: psmi_timer_cancel_def psmi_timer_cancel_inner_def timer_reset_next_def)

lemma cancel_law:
  assumes "timer_wf c"
  shows "timer_wf (psmi_timer_cancel t c) \<and> pending_set (psmi_timer_cancel t c) = pending_set c - {t} \<and>
      t_timeout (psmi_timer_cancel t c) = t_timeout c"
proof -
  obtain xs where xs: "timer_inv c xs" and p: "pending_set c = set xs" and d: "distinct xs"
    using timer_wfE [OF assms] .
  have tp: "timer_pending c t \<longleftrightarrow> t \<in> set xs" using xs by (simp add: timer_inv_def)
  show ?thesis
  proof (cases "t \<in> set xs")
    case True
    note ci = cancel_inner_inv [OF xs True]
    have "psmi_timer_cancel t c = psmi_timer_cancel_inner t c"
      using True tp by (simp add: psmi_timer_cancel_def)
    then show ?thesis using ci pending_set_eq [OF ci] p d cancel_timeout [of t c] timer_wf_def
      by (metis set_remove1_eq)
  next
    case False
    then show ?thesis using tp p assms by (simp add: psmi_timer_cancel_def)
  qed
qed

lemma earliest_law:
  assumes "timer_wf c"
  shows "t_cyc_next_expire c =
    (if pending_set c = {} then PSMI_TIMER_INFINITE else Min (t_timeout c ` pending_set c))"
proof -
  obtain xs where xs: "timer_inv c xs" and p: "pending_set c = set xs" using timer_wfE [OF assms] .
  then show ?thesis using next_deadline_Min [of "t_timeout c" xs]
    by (cases "xs = []") (auto simp: timer_inv_def next_deadline_def)
qed

interpretation timer: alarm_queue timer_wf pending_set t_timeout t_cyc_next_expire
  psmi_timer_request psmi_timer_cancel
proof unfold_locales
  show "finite (pending_set c)" if "timer_wf c" for c :: "('f, 'w) timer_ctrl_scheme"
    using timer_wfE [OF that] by (metis List.finite_set)
  show "psmi_timer_request t e c = Some c" if "t \<in> pending_set c" for t e and c :: "('f, 'w) timer_ctrl_scheme"
    using that by (simp add: psmi_timer_request_def pending_set_def)
qed (simp_all add: earliest_law request_idle_law cancel_law)

section \<open>The sweep\<close>

text \<open>Callbacks that leave the timer queue alone.\<close>

definition quiet_callbacks ::
  "('f \<Rightarrow> tmr \<Rightarrow> u64 \<Rightarrow> ('f, 'w) timer_ctrl_scheme \<Rightarrow> ('f, 'w) timer_ctrl_scheme) \<Rightarrow> bool" where
  "quiet_callbacks call \<longleftrightarrow>
     (\<forall>f t now c. timerq (call f t now c) = timerq c \<and> t_timeout (call f t now c) = t_timeout c \<and>
        t_flags (call f t now c) = t_flags c)"

definition expire_one ::
  "('f \<Rightarrow> tmr \<Rightarrow> u64 \<Rightarrow> ('f, 'w) timer_ctrl_scheme \<Rightarrow> ('f, 'w) timer_ctrl_scheme) \<Rightarrow> u64 \<Rightarrow> tmr \<Rightarrow>
   ('f, 'w) timer_ctrl_scheme \<Rightarrow> ('f, 'w) timer_ctrl_scheme" where
  "expire_one call now t c = call (expire_callback c t) t now (timer_unlink t c)"

lemma TAILQ_PREV_removed:
  assumes "tq_list q (as @ x # bs)"
  shows "TAILQ_PREV x (TAILQ_REMOVE x q) = (if as = [] then None else Some (last as))"
proof -
  let ?q = "TAILQ_REMOVE x q"
  have q': "tq_list ?q (as @ bs)" using assms by (rule tq_list_REMOVE_split)
  have p: "tqe_prev ?q x = end_loc HeadLoc as"
    using TAILQ_REMOVE_own_links(2) [OF assms] tq_list_prev [OF assms] by simp
  show ?thesis
  proof (cases as rule: rev_cases)
    case Nil
    then show ?thesis using p q' by (simp add: TAILQ_PREV_def tq_load_last)
  next
    case (snoc as' y)
    then have "tq_load ?q (tqe_prev ?q y) = Some y" using q' by (simp add: tq_list_split)
    then show ?thesis using p snoc by (simp add: TAILQ_PREV_def)
  qed
qed

lemma expire_loop_quiet:
  assumes quiet: "quiet_callbacks call"
  shows "tq_list (timerq c) (live @ dead) \<Longrightarrow> \<forall>t \<in> set dead. t_timeout c t \<le> now \<Longrightarrow>
     \<forall>t \<in> set live. t_timeout c t > now \<Longrightarrow>
     timer_expire_loop call now (if live @ dead = [] then None else Some (last (live @ dead))) err c =
       Some (if dead = [] then err else PSM_OK, fold (expire_one call now) (rev dead) c)"
proof (induction dead arbitrary: c err rule: rev_induct)
  case Nil
  then show ?case by (subst timer_expire_loop.simps) simp
next
  case (snoc t dead)
  let ?c = "expire_one call now t c"
  have q: "timerq ?c = TAILQ_REMOVE t (timerq c)" "t_timeout ?c = t_timeout c"
    using quiet by (simp_all add: quiet_callbacks_def expire_one_def)
  have l: "tq_list (timerq c) ((live @ dead) @ t # [])" using snoc.prems(1) by simp
  have "tq_list (timerq ?c) (live @ dead)" using tq_list_REMOVE_split [OF l] q by simp
  then have IH: "timer_expire_loop call now (if live @ dead = [] then None else Some (last (live @ dead)))
      PSM_OK ?c = Some (PSM_OK, fold (expire_one call now) (rev dead) ?c)"
    using snoc.IH [of ?c PSM_OK] snoc.prems(2,3) q by simp
  have "TAILQ_PREV t (timerq ?c) = (if live @ dead = [] then None else Some (last (live @ dead)))"
    using TAILQ_PREV_removed [OF l] q by simp
  moreover have "timer_expire_loop call now (Some t) err c =
      timer_expire_loop call now (TAILQ_PREV t (timerq ?c)) PSM_OK ?c"
    using snoc.prems(2)
    by (auto simp: timer_expire_loop.simps [of call now "Some t"] expire_one_def Let_def)
  ultimately show ?case using IH by simp
qed

lemma fold_expire_quiet:
  assumes "quiet_callbacks call"
  shows "t_timeout (fold (expire_one call now) ts c) = t_timeout c \<and>
    (timer_pending (fold (expire_one call now) ts c) u \<longleftrightarrow> u \<notin> set ts \<and> timer_pending c u)"
proof (induction ts arbitrary: c)
  case (Cons t ts)
  have "t_timeout (expire_one call now t c) = t_timeout c"
    "timer_pending (expire_one call now t c) u \<longleftrightarrow> u \<noteq> t \<and> timer_pending c u"
    using assms timer_pending_unlink [of t c u]
    by (simp_all add: quiet_callbacks_def expire_one_def timer_pending_def)
  then show ?case using Cons.IH [of "expire_one call now t c"] by auto
qed simp

lemma fold_expire_queue:
  assumes "quiet_callbacks call" "tq_list (timerq c) (live @ dead)"
  shows "tq_list (timerq (fold (expire_one call now) (rev dead) c)) live"
  using assms(2)
proof (induction dead arbitrary: c rule: rev_induct)
  case (snoc t dead)
  have "timerq (expire_one call now t c) = TAILQ_REMOVE t (timerq c)"
    using assms(1) by (simp add: quiet_callbacks_def expire_one_def)
  then show ?case using snoc tq_list_REMOVE_split [of "timerq c" "live @ dead" t "[]"] by simp
qed simp

lemma deadlines_split:
  "deadlines_ok f xs \<Longrightarrow> xs = filter (\<lambda>x. f x > now) xs @ filter (\<lambda>x. f x \<le> now) xs"
proof (induction xs)
  case (Cons x xs)
  show ?case
  proof (cases "f x > now")
    case True
    then show ?thesis using Cons by (simp add: deadlines_Cons not_le [symmetric])
  next
    case False
    then have "filter (\<lambda>x. f x > now) xs = []" "filter (\<lambda>x. f x \<le> now) xs = xs"
      using Cons.prems by (fastforce simp: deadlines_Cons filter_empty_conv filter_id_conv)+
    then show ?thesis using False by simp
  qed
qed simp

lemma process_expired_quiet:
  fixes now :: u64
  assumes "timer_inv c xs" "quiet_callbacks call"
  defines "dead \<equiv> filter (\<lambda>t. t_timeout c t \<le> now) xs"
    and "live \<equiv> filter (\<lambda>t. t_timeout c t > now) xs"
  shows "\<exists>c'. psmi_timer_process_expired call now c =
      Some (if dead = [] then PSM_OK_NO_PROGRESS else PSM_OK, c') \<and> timer_inv c' live \<and>
      c' = timer_reset_next (fold (expire_one call now) (rev dead) c)"
proof -
  let ?c = "fold (expire_one call now) (rev dead) c"
  have q: "tq_list (timerq c) xs" and d: "deadlines_ok (t_timeout c) xs"
    using assms(1) by (simp_all add: timer_inv_def)
  have xs: "live @ dead = xs" unfolding live_def dead_def by (rule deadlines_split [OF d, symmetric])
  have ql: "tq_list (timerq c) (live @ dead)" using q by (simp only: xs)
  have q': "tq_list (timerq ?c) live" by (rule fold_expire_queue [OF assms(2) ql])
  have "timer_expire_loop call now (TAILQ_LAST (timerq c)) PSM_OK_NO_PROGRESS c =
      Some (if dead = [] then PSM_OK_NO_PROGRESS else PSM_OK, ?c)"
    unfolding TAILQ_LAST_eq [OF ql]
    by (rule expire_loop_quiet [OF assms(2) ql]) (simp_all add: dead_def live_def)
  moreover have "timer_inv (timer_reset_next ?c) live"
  proof -
    have t: "t_timeout ?c = t_timeout c" using fold_expire_quiet [OF assms(2)] by blast
    have "timer_pending ?c u \<longleftrightarrow> u \<in> set live" for u
      using fold_expire_quiet [OF assms(2), of now "rev dead" c u] assms(1)
      by (auto simp: timer_inv_def live_def dead_def)
    moreover have "deadlines_ok (t_timeout c) live"
      unfolding live_def by (rule deadlines_filter [OF d])
    ultimately show ?thesis using q' t
      by (simp add: timer_reset_next_eq [OF q'] timer_inv_def timer_pending_def)
  qed
  ultimately show ?thesis by (simp add: psmi_timer_process_expired_def)
qed

text \<open>
  A callback that arms its own timer again, for a time after \<open>now\<close>, as the protocol's
  retransmission callbacks do.
\<close>

definition rearm_callback ::
  "u64 \<Rightarrow> 'f \<Rightarrow> tmr \<Rightarrow> u64 \<Rightarrow> ('f, 'w) timer_ctrl_scheme \<Rightarrow> ('f, 'w) timer_ctrl_scheme" where
  "rearm_callback e f t now c = (case psmi_timer_request t e c of Some c' \<Rightarrow> c' | None \<Rightarrow> c)"

lemma rearm_state:
  fixes e now :: u64
  assumes "timer_inv c (xs @ [t])"
  defines "c1 \<equiv> rearm_callback e (expire_callback c t) t now (timer_unlink t c)"
  shows "t_timeout c1 = (t_timeout c)(t := e)"
    and "tq_list (timerq c1) (timer_place (t_timeout c1) e t xs)"
    and "timer_inv (timer_reset_next c1) (timer_place (t_timeout c1) e t xs)"
proof -
  let ?u = "timer_unlink t c" and ?ys = "timer_place (t_timeout c1) e t xs"
  have q: "tq_list (timerq c) (xs @ [t])" and d: "deadlines_ok (t_timeout c) (xs @ [t])"
    and p: "\<And>u. timer_pending c u \<longleftrightarrow> u \<in> set (xs @ [t])" using assms(1) by (simp_all add: timer_inv_def)
  have t: "t \<notin> set xs" using tailq.rep_distinct [OF q] by simp
  have u: "tq_list (timerq ?u) xs" "deadlines_ok (t_timeout ?u) xs"
    using tq_list_REMOVE_split [of "timerq c" xs t "[]"] q d by (simp_all add: deadlines_append)
  obtain q' n where r: "psmi_timer_request_always t e ?u =
      Some (timer_armed t e ?u\<lparr>timerq := q', t_cyc_next_expire := n\<rparr>)"
    "tq_list q' (timer_place ((t_timeout c)(t := e)) e t xs)"
    using request_always_placed [OF u t, of e] by (auto simp: request_placed_def)
  then have c1: "c1 = timer_armed t e ?u\<lparr>timerq := q', t_cyc_next_expire := n\<rparr>"
    by (simp add: c1_def rearm_callback_def psmi_timer_request_def timer_pending_unlink)
  show to: "t_timeout c1 = (t_timeout c)(t := e)" by (simp add: c1 timer_armed_def)
  show q1: "tq_list (timerq c1) ?ys" using r(2) to by (simp add: c1)
  have "timer_pending c1 v \<longleftrightarrow> v \<in> set ?ys" for v
    using p [of v] timer_pending_unlink [of t c v]
    by (auto simp: c1 timer_armed_def timer_pending_def)
  moreover have "deadlines_ok (t_timeout c1) ?ys"
    using timer_place_sorted [OF fresh_deadlines(1) [OF t u(2)], where t = t and e = e] to by simp
  ultimately show "timer_inv (timer_reset_next c1) ?ys"
    using q1 by (simp add: timer_reset_next_eq [OF q1] timer_inv_def timer_pending_def)
qed

lemma place_predecessors:
  assumes "timer_place f e t xs = as @ t # bs" "t \<notin> set xs" "a \<in> set as"
  shows "e \<le> f a"
proof (cases "e > PSMI_TIMER_PRIO_LAST")
  case True
  then have "filter (\<lambda>x. f x > e) xs @ t # filter (\<lambda>x. f x \<le> e) xs = as @ t # bs"
    using assms(1) by (simp add: timer_place_def)
  then have "as = filter (\<lambda>x. f x > e) xs"
    using assms(2) by (subst (asm) append_Cons_eq_iff) auto
  then show ?thesis using assms(3) by auto
next
  case False
  then have "filter (\<lambda>x. f x \<ge> e) xs @ t # filter (\<lambda>x. f x < e) xs = as @ t # bs"
    using assms(1) by (simp add: timer_place_def)
  then have "as = filter (\<lambda>x. f x \<ge> e) xs"
    using assms(2) by (subst (asm) append_Cons_eq_iff) auto
  then show ?thesis using assms(3) by auto
qed

lemma rearm_sweep:
  assumes inv: "timer_inv c (xs @ [t])" and due: "t_timeout c t \<le> now" and e: "now < e"
  shows "\<exists>c'. psmi_timer_process_expired (rearm_callback e) now c = Some (PSM_OK, c') \<and>
     t_timeout c' = (t_timeout c)(t := e) \<and> timer_inv c' (timer_place (t_timeout c') e t xs)"
proof -
  let ?c1 = "rearm_callback e (expire_callback c t) t now (timer_unlink t c)"
  let ?ys = "timer_place (t_timeout ?c1) e t xs"
  note rs = rearm_state [OF inv, of e now]
  note q = rs(2)
  have t: "t \<notin> set xs"
    using inv tailq.rep_distinct [of "timerq c" "xs @ [t]"] by (auto simp: timer_inv_def)
  obtain as bs where ys: "?ys = as @ t # bs" using split_list [of t ?ys] by auto
  have prev: "TAILQ_PREV t (timerq ?c1) = (if as = [] then None else Some (last as))"
    using TAILQ_PREV_eq [of "timerq ?c1" as t bs] q ys by simp
  have "as \<noteq> [] \<Longrightarrow> now < t_timeout ?c1 (last as)"
    using place_predecessors [OF ys t, of "last as"] e by auto
  then have stop: "timer_expire_loop (rearm_callback e) now (TAILQ_PREV t (timerq ?c1)) PSM_OK ?c1 =
      Some (PSM_OK, ?c1)"
    unfolding prev by (subst timer_expire_loop.simps) simp
  have "TAILQ_LAST (timerq c) = Some t"
    using inv TAILQ_LAST_eq [of "timerq c" "xs @ [t]"] by (simp add: timer_inv_def)
  then have "psmi_timer_process_expired (rearm_callback e) now c = Some (PSM_OK, timer_reset_next ?c1)"
    using stop due
    by (simp add: psmi_timer_process_expired_def timer_expire_loop.simps [of _ _ "Some t"] Let_def)
  moreover have "t_timeout (timer_reset_next ?c1) = t_timeout ?c1" by (simp add: timer_reset_next_def)
  ultimately show ?thesis using rs(1,3) by simp
qed

section \<open>Properties\<close>

text \<open>A control block with three timers, used by the witnesses.\<close>

definition timer_blank :: "unit timer_ctrl" where
  "timer_blank = \<lparr>t_cyc_next_expire = 0,
     timerq = \<lparr>tqh_first = None, tqh_last = HeadLoc, tqe_next = (\<lambda>_. None), tqe_prev = (\<lambda>_. HeadLoc)\<rparr>,
     t_timeout = (\<lambda>_. 0), t_flags = (\<lambda>_. 0), expire_callback = (\<lambda>_. ()), t_context = (\<lambda>_. 0)\<rparr>"

definition timer_three :: "unit timer_ctrl" where
  "timer_three = timer_blank\<lparr>t_cyc_next_expire := 20,
     timerq := \<lparr>tqh_first = Some 3, tqh_last = NextLoc 2,
        tqe_next = (\<lambda>_. None)(3 := Some 1, 1 := Some 2), tqe_prev = (\<lambda>_. HeadLoc)(1 := NextLoc 3, 2 := NextLoc 1)\<rparr>,
     t_timeout := (\<lambda>_. 0)(3 := 90, 1 := 50, 2 := 20), t_flags := (\<lambda>_. 0)(3 := 1, 1 := 1, 2 := 1)\<rparr>"

lemma timer_three_inv: "timer_inv timer_three [3, 1, 2]"
  by (auto simp: timer_inv_def timer_three_def tq_list_def deadlines_ok_def next_deadline_def
      timer_pending_def timer_consts tq_load.simps)



text \<open>
  \<^verbatim>\<open>psmi_timer_request_always\<close> on an idle timer always returns, and puts the timer at one
  determined place of the sorted queue: a timer behind all that expire at the same time or
  earlier (equal deadlines expire in the order they were requested), a delayed operation of a
  priority class in front of those of its class; the next deadline stays exact.
\<close>

theorem timer_request_position:
  assumes "timer_inv c xs" "\<not> timer_pending c t"
  shows "\<exists>c'. psmi_timer_request_always t e c = Some c' \<and> t_timeout c' = (t_timeout c)(t := e) \<and>
     timer_inv c' (if e > PSMI_TIMER_PRIO_LAST
       then filter (\<lambda>x. t_timeout c x > e) xs @ t # filter (\<lambda>x. t_timeout c x \<le> e) xs
       else filter (\<lambda>x. t_timeout c x \<ge> e) xs @ t # filter (\<lambda>x. t_timeout c x < e) xs)"
proof -
  have t: "t \<notin> set xs" using assms by (simp add: timer_inv_def)
  obtain c' where c': "psmi_timer_request_always t e c = Some c'" "t_timeout c' = (t_timeout c)(t := e)"
    "timer_inv c' (timer_place (t_timeout c') e t xs)" using request_inv [OF assms(1) t] by blast
  have "timer_place (t_timeout c') e t xs = timer_place (t_timeout c) e t xs"
    unfolding c'(2) by (rule timer_place_fresh [OF t])
  then show ?thesis using c' by (simp add: timer_place_def)
qed

theorem timer_request_position_witness:
  "timer_inv timer_three [3, 1, 2] \<and> \<not> timer_pending timer_three 5 \<and>
   (\<exists>c'. psmi_timer_request_always 5 50 timer_three = Some c' \<and> timer_inv c' [3, 5, 1, 2])"
proof -
  have n: "\<not> timer_pending timer_three 5" by (simp add: timer_pending_def timer_three_def timer_blank_def)
  show ?thesis using timer_request_position [OF timer_three_inv n, of 50] timer_three_inv n
    by (auto simp: timer_consts timer_three_def)
qed

text \<open>
  C36: A sweep at time \<open>now\<close> whose callbacks do not touch the queue terminates, runs the callback
  of every timer due at \<open>now\<close> exactly once, earliest first, each after its own removal, leaves
  exactly the later timers pending with an exact next deadline, and reports progress iff some
  timer was due.
\<close>

theorem timer_sweep:
  assumes "timer_inv c xs" "quiet_callbacks call"
  shows "\<exists>c'. psmi_timer_process_expired call now c =
      Some (if filter (\<lambda>t. t_timeout c t \<le> now) xs = [] then PSM_OK_NO_PROGRESS else PSM_OK, c') \<and>
      timer_inv c' (filter (\<lambda>t. t_timeout c t > now) xs) \<and>
      c' = timer_reset_next (fold (expire_one call now) (rev (filter (\<lambda>t. t_timeout c t \<le> now) xs)) c)"
  using process_expired_quiet [OF assms] .

theorem timer_sweep_witness:
  "timer_inv timer_three [3, 1, 2] \<and> quiet_callbacks (\<lambda>(f::unit) t now (c::unit timer_ctrl). c) \<and>
   (\<exists>c'. psmi_timer_process_expired (\<lambda>f t now c. c) 60 timer_three = Some (PSM_OK, c') \<and> timer_inv c' [3])"
proof -
  have q: "quiet_callbacks (\<lambda>(f::unit) t now (c::unit timer_ctrl). c)" by (simp add: quiet_callbacks_def)
  show ?thesis using timer_sweep [OF timer_three_inv q, of 60] timer_three_inv q
    by (auto simp: timer_three_def)
qed

text \<open>
  When the earliest due timer's callback arms itself again for a later time, the sweep ends
  there: the cursor is read from the timer's new place in the queue, so the remaining due timers
  keep waiting, but the queue stays sorted and the next deadline exact, so the next poll takes
  them up.
\<close>

theorem timer_rearm_ends_sweep:
  assumes "timer_inv c (xs @ [t])" "t_timeout c t \<le> now" "now < e"
  shows "\<exists>c'. psmi_timer_process_expired (rearm_callback e) now c = Some (PSM_OK, c') \<and>
     t_timeout c' = (t_timeout c)(t := e) \<and> timer_inv c' (timer_place (t_timeout c') e t xs)"
  using rearm_sweep [OF assms] .

theorem timer_rearm_ends_sweep_witness:
  "timer_inv timer_three ([3, 1] @ [2]) \<and>
   (\<exists>c'. psmi_timer_process_expired (rearm_callback 95) 60 timer_three = Some (PSM_OK, c') \<and>
      timer_inv c' [2, 3, 1] \<and> t_cyc_next_expire c' = 50)"
proof -
  have i: "timer_inv timer_three ([3, 1] @ [2])" using timer_three_inv by simp
  have "t_timeout timer_three 2 \<le> 60" by (simp add: timer_three_def)
  from timer_rearm_ends_sweep [OF i this, of 95] obtain c' where
    c': "psmi_timer_process_expired (rearm_callback 95) 60 timer_three = Some (PSM_OK, c')"
      "t_timeout c' = (t_timeout timer_three)(2 := 95)" "timer_inv c' (timer_place (t_timeout c') 95 2 [3, 1])"
    by auto
  have "timer_inv c' [2, 3, 1]" using c'(2,3) by (simp add: timer_place_def timer_consts timer_three_def)
  moreover from this have "t_cyc_next_expire c' = 50"
    using c'(2) by (simp add: timer_inv_def next_deadline_def timer_three_def)
  ultimately show ?thesis using c'(1) i by blast
qed

end
