(* ===== verification/Errors.thy ===== *)
theory Errors
  imports PSM_Prelude
begin

text \<open>
  Error handling, \<^verbatim>\<open>src/psm_error.c\<close>: the error handlers and their registration,
  \<^verbatim>\<open>psmi_handle_error\<close> with its special endpoints, the choice of the worst of two errors and
  the table of descriptions. The message text, the console and the syslog daemon are output only;
  what is sent to syslog is recorded as a list.

  Shown: choosing the worst error is the maximum of a total order, so combining many errors does
  not depend on their order; internal errors never return; the descriptions of the errors from 60
  on are those of another error.
\<close>

section \<open>Handlers\<close>

datatype psm_ep = EP_NONE | PSMI_EP_NORETURN | PSMI_EP_LOGEVENT | EP nat

datatype errhandler = Errhandler_psm | Errhandler_noop | Errhandler_user nat

datatype errhandler_arg = PSM_ERRHANDLER_PSM_HANDLER | PSM_ERRHANDLER_NO_HANDLER | User_Handler nat

datatype syslog_level = PSMI_NOLOG | LOG_ALERT | LOG_CRIT | LOG_ERR | LOG_NOTICE | LOG_INFO

record error_state =
  psmi_errhandler_global :: errhandler
  ep_errh :: "nat \<Rightarrow> errhandler"
  syslog :: "(bool \<times> syslog_level \<times> psm_error) list"

definition psmi_errhandler_noop :: "psm_error \<Rightarrow> psm_error run" where
  "psmi_errhandler_noop err = Inr err"

definition psmi_errhandler_psm :: "psm_error \<Rightarrow> psm_error run" where
  "psmi_errhandler_psm err = (if err = PSM_INTERNAL_ERR then Inl Assert_Abort else Inl (Error_Exit err))"

definition psm_error_defer :: "psm_error \<Rightarrow> psm_error run" where
  "psm_error_defer token_error = psmi_errhandler_psm token_error"

text \<open>\<open>user\<close> gives the behaviour of the handlers a user may register.\<close>

fun call_errhandler :: "(nat \<Rightarrow> psm_error \<Rightarrow> psm_error run) \<Rightarrow> errhandler \<Rightarrow> psm_error \<Rightarrow> psm_error run" where
  "call_errhandler user Errhandler_psm err = psmi_errhandler_psm err"
| "call_errhandler user Errhandler_noop err = psmi_errhandler_noop err"
| "call_errhandler user (Errhandler_user h) err = user h err"

fun chosen_errhandler :: "errhandler_arg \<Rightarrow> errhandler" where
  "chosen_errhandler PSM_ERRHANDLER_PSM_HANDLER = Errhandler_psm"
| "chosen_errhandler PSM_ERRHANDLER_NO_HANDLER = Errhandler_noop"
| "chosen_errhandler (User_Handler h) = Errhandler_user h"

text \<open>Only NULL and real endpoints are passed to the registration by users.\<close>

fun psm_error_register_handler :: "nat option \<Rightarrow> errhandler_arg \<Rightarrow> error_state \<Rightarrow> psm_error \<times> error_state" where
  "psm_error_register_handler None errhandler s =
     (PSM_OK, s\<lparr>psmi_errhandler_global := chosen_errhandler errhandler\<rparr>)"
| "psm_error_register_handler (Some ep) errhandler s =
     (PSM_OK, s\<lparr>ep_errh := (ep_errh s)(ep := chosen_errhandler errhandler)\<rparr>)"

section \<open>The table of descriptions\<close>

definition psmi_error_items :: "(syslog_level \<times> string) list" where
  "psmi_error_items = [
     (PSMI_NOLOG, ''Success''),
     (PSMI_NOLOG, ''No events were progressed in psm_poll''),
     (PSMI_NOLOG, ''unknown 2''),
     (PSMI_NOLOG, ''Error in a function parameter''),
     (LOG_CRIT, ''Ran out of memory''),
     (PSMI_NOLOG, ''PSM has not been initialized by psm_init''),
     (LOG_INFO, ''API version passed in psm_init is incompatible''),
     (PSMI_NOLOG, ''PSM Could not set affinity''),
     (LOG_ALERT, ''PSM Unresolved internal error''),
     (LOG_CRIT, ''PSM could not set up shared memory segment''),
     (PSMI_NOLOG, ''PSM option is a read-only option''),
     (PSMI_NOLOG, ''Operation timed out''),
     (LOG_INFO, ''Exceeded supported amount of endpoints''),
     (PSMI_NOLOG, ''PSM is in the finalized state''),
     (PSMI_NOLOG, ''unknown 14''),
     (PSMI_NOLOG, ''unknown 15''),
     (PSMI_NOLOG, ''unknown 16''),
     (PSMI_NOLOG, ''unknown 17''),
     (PSMI_NOLOG, ''unknown 18''),
     (PSMI_NOLOG, ''unknown 19''),
     (PSMI_NOLOG, ''Endpoint was closed''),
     (LOG_ALERT, ''PSM Could not find an InfiniPath Unit''),
     (PSMI_NOLOG, ''User passed a bad unit number''),
     (LOG_ALERT, ''Failure in initializing endpoint''),
     (PSMI_NOLOG, ''Error closing the endpoing error''),
     (PSMI_NOLOG, ''No free contexts could be obtained''),
     (LOG_ALERT, ''Could not detect network connectivity''),
     (LOG_INFO, ''Invalid Unique job-wide UUID Key''),
     (LOG_INFO, ''Out of endpoint resources''),
     (PSMI_NOLOG, ''unknown 29''),
     (PSMI_NOLOG, ''unknown 30''),
     (PSMI_NOLOG, ''unknown 31''),
     (PSMI_NOLOG, ''unknown 32''),
     (PSMI_NOLOG, ''unknown 33''),
     (PSMI_NOLOG, ''unknown 34''),
     (PSMI_NOLOG, ''unknown 35''),
     (PSMI_NOLOG, ''unknown 36''),
     (PSMI_NOLOG, ''unknown 37''),
     (PSMI_NOLOG, ''unknown 38''),
     (PSMI_NOLOG, ''unknown 39''),
     (PSMI_NOLOG, ''Unknown/unresolved connection status (other errors occured)''),
     (PSMI_NOLOG, ''Endpoint could not be reached''),
     (PSMI_NOLOG, ''unknown 42''),
     (LOG_CRIT, ''Invalid node (mismatch in bit width 32/64 or byte order)''),
     (LOG_CRIT, ''Invalid MTU''),
     (PSMI_NOLOG, ''UUID key mismatch''),
     (LOG_ERR, ''Incompatible PSM version''),
     (LOG_CRIT, ''Connect received garbled connection information''),
     (PSMI_NOLOG, ''Endpoint was already connected''),
     (LOG_CRIT, ''Two or more endpoints have the same network id (LID)''),
     (LOG_CRIT, ''Endpoint provided incompatible Partition Key''),
     (LOG_CRIT, ''Unable to resolve network path. Is the SM running?''),
     (PSMI_NOLOG, ''unknown 51''),
     (PSMI_NOLOG, ''unknown 52''),
     (PSMI_NOLOG, ''unknown 53''),
     (PSMI_NOLOG, ''unknown 54''),
     (PSMI_NOLOG, ''unknown 55''),
     (PSMI_NOLOG, ''unknown 56''),
     (PSMI_NOLOG, ''unknown 57''),
     (PSMI_NOLOG, ''unknown 58''),
     (PSMI_NOLOG, ''unknown 59''),
     (PSMI_NOLOG, ''MQ Non-blocking request is incomplete''),
     (PSMI_NOLOG, ''MQ Message has been truncated at the receiver''),
     (PSMI_NOLOG, ''unknown 62''),
     (PSMI_NOLOG, ''unknown 63''),
     (PSMI_NOLOG, ''unknown 64''),
     (PSMI_NOLOG, ''unknown 65''),
     (PSMI_NOLOG, ''unknown 66''),
     (PSMI_NOLOG, ''unknown 67''),
     (PSMI_NOLOG, ''unknown 68''),
     (PSMI_NOLOG, ''unknown 69''),
     (PSMI_NOLOG, ''Invalid AM reply''),
     (PSMI_NOLOG, ''unknown 71''),
     (PSMI_NOLOG, ''unknown 72''),
     (PSMI_NOLOG, ''unknown 73''),
     (PSMI_NOLOG, ''unknown 74''),
     (PSMI_NOLOG, ''unknown 75''),
     (PSMI_NOLOG, ''unknown 76''),
     (PSMI_NOLOG, ''unknown 77''),
     (PSMI_NOLOG, ''unknown 78''),
     (PSMI_NOLOG, ''unknown 79''),
     (PSMI_NOLOG, ''unknown 80'')]"

definition psm_error_get_string :: "psm_error \<Rightarrow> string" where
  "psm_error_get_string error =
     (if psm_error_num error \<ge> psm_error_num PSM_ERROR_LAST then ''unknown''
      else snd (psmi_error_items ! psm_error_num error))"

definition psmi_error_syslog_level :: "psm_error \<Rightarrow> syslog_level" where
  "psmi_error_syslog_level error =
     (if psm_error_num error \<ge> psm_error_num PSM_ERROR_LAST then PSMI_NOLOG
      else fst (psmi_error_items ! psm_error_num error))"

section \<open>Handling an error\<close>

text \<open>\<open>no_verbose\<close> is the value of \<^verbatim>\<open>PSM_NO_VERBOSE_ERRORS\<close> in the environment.\<close>

definition error_console_print :: "string option \<Rightarrow> psm_ep \<Rightarrow> error_state \<Rightarrow> bool" where
  "error_console_print no_verbose ep s =
     (if ep = PSMI_EP_LOGEVENT then True
      else if no_verbose = None \<or> no_verbose = Some [] then
        (case ep of
           PSMI_EP_NORETURN \<Rightarrow> False
         | EP_NONE \<Rightarrow> psmi_errhandler_global s \<noteq> Errhandler_psm
         | EP n \<Rightarrow> ep_errh s n \<noteq> Errhandler_psm
         | PSMI_EP_LOGEVENT \<Rightarrow> True)
      else False)"

definition psmi_handle_error ::
  "string option \<Rightarrow> (nat \<Rightarrow> psm_error \<Rightarrow> psm_error run) \<Rightarrow> psm_ep \<Rightarrow> psm_error \<Rightarrow> error_state \<Rightarrow>
   error_state \<times> psm_error run" where
  "psmi_handle_error no_verbose user ep error s =
     (let console_print = error_console_print no_verbose ep s;
          level = psmi_error_syslog_level error;
          s = (if level \<noteq> PSMI_NOLOG \<or> ep = PSMI_EP_LOGEVENT
               then s\<lparr>syslog := syslog s @
                  [(console_print, if ep = PSMI_EP_LOGEVENT then LOG_NOTICE else level, error)]\<rparr>
               else s)
      in (s, case ep of
               PSMI_EP_LOGEVENT \<Rightarrow> Inr PSM_OK
             | PSMI_EP_NORETURN \<Rightarrow> psmi_errhandler_psm error
             | EP_NONE \<Rightarrow> call_errhandler user (psmi_errhandler_global s) error
             | EP n \<Rightarrow> call_errhandler user (ep_errh s n) error))"

section \<open>The worst of two errors\<close>

text \<open>The errors \<^verbatim>\<open>_PSMI_ERR_IS\<close> tests, in the order of the tests.\<close>

definition error_cmp_order :: "psm_error list" where
  "error_cmp_order =
     [PSM_NO_MEMORY, PSM_INTERNAL_ERR, PSM_INIT_NOT_INIT, PSM_INIT_BAD_API_VERSION,
      PSM_EP_NO_DEVICE, PSM_EP_UNIT_NOT_FOUND, PSM_EP_DEVICE_FAILURE, PSM_EP_NO_PORTS_AVAIL,
      PSM_TOO_MANY_ENDPOINTS,
      PSM_EP_NO_NETWORK, PSM_SHMEM_SEGMENT_ERR, PSM_EP_CLOSE_TIMEOUT, PSM_EP_INVALID_UUID_KEY,
      PSM_EP_NO_RESOURCES,
      PSM_EPID_NETWORK_ERROR, PSM_EPID_INVALID_NODE, PSM_EPID_INVALID_CONNECT, PSM_EPID_INVALID_PKEY,
      PSM_EPID_INVALID_VERSION, PSM_EPID_INVALID_UUID_KEY, PSM_EPID_INVALID_MTU,
      PSM_TIMEOUT]"

definition psmi_error_cmp :: "psm_error \<Rightarrow> psm_error \<Rightarrow> psm_error" where
  "psmi_error_cmp errA errB =
     (case find (\<lambda>err. errA = err \<or> errB = err) error_cmp_order of
        Some err \<Rightarrow> err
      | None \<Rightarrow> (if psm_error_num errA > psm_error_num errB then errA else errB))"

text \<open>
  The order behind it: an error listed early is worse than one listed late, a listed one worse
  than an unlisted one, unlisted ones compare by number.
\<close>

fun err_pos :: "psm_error \<Rightarrow> psm_error list \<Rightarrow> nat" where
  "err_pos e [] = 0"
| "err_pos e (x # xs) = (if e = x then Suc (length xs) else err_pos e xs)"

definition badness :: "psm_error \<Rightarrow> nat" where
  "badness e = 100 * err_pos e error_cmp_order + psm_error_num e"

lemma psm_error_num_less: "psm_error_num e < 100"
  by (cases e) simp_all

lemma psm_error_num_inj: "psm_error_num a = psm_error_num b \<Longrightarrow> a = b"
  by (cases a; cases b) simp_all

lemma badness_inj: "badness a = badness b \<Longrightarrow> a = b"
proof -
  assume "badness a = badness b"
  then have "badness a mod 100 = badness b mod 100" by simp
  then show "a = b" by (simp add: badness_def psm_error_num_less psm_error_num_inj)
qed

lemma err_pos_le: "err_pos e xs \<le> length xs"
  by (induction xs) auto

lemma find_worst:
  "find (\<lambda>err. a = err \<or> b = err) xs =
     (if err_pos a xs = 0 \<and> err_pos b xs = 0 then None
      else if err_pos a xs > err_pos b xs then Some a else Some b)"
proof (induction xs)
  case (Cons x xs)
  have "err_pos a xs \<le> length xs" "err_pos b xs \<le> length xs" by (rule err_pos_le)+
  then show ?case using Cons.IH by auto
qed simp

lemma badness_less: "badness a < badness b \<longleftrightarrow>
    err_pos a error_cmp_order < err_pos b error_cmp_order \<or>
    err_pos a error_cmp_order = err_pos b error_cmp_order \<and> psm_error_num a < psm_error_num b"
  using psm_error_num_less [of a] psm_error_num_less [of b] unfolding badness_def by auto

lemma err_pos_inj: "err_pos a xs = err_pos b xs \<Longrightarrow> err_pos a xs \<noteq> 0 \<Longrightarrow> a = b"
proof (induction xs)
  case (Cons x xs)
  then show ?case using err_pos_le [of a xs] err_pos_le [of b xs] by (auto split: if_splits)
qed simp

lemma error_cmp_eq: "psmi_error_cmp a b = (if badness a > badness b then a else b)"
proof -
  let ?p = "\<lambda>e. err_pos e error_cmp_order"
  consider (none) "?p a = 0" "?p b = 0" | (a) "?p a > ?p b" | (b) "?p a < ?p b"
    | (same) "?p a = ?p b" "?p a \<noteq> 0" by linarith
  then show ?thesis
  proof cases
    case none
    then show ?thesis by (simp add: psmi_error_cmp_def find_worst badness_def)
  next
    case a
    then have "badness a > badness b" by (simp add: badness_less)
    then show ?thesis using a by (simp add: psmi_error_cmp_def find_worst)
  next
    case b
    then have "\<not> badness a > badness b" by (simp add: badness_less)
    then show ?thesis using b by (simp add: psmi_error_cmp_def find_worst)
  next
    case same
    then have "psmi_error_cmp a b = b" unfolding psmi_error_cmp_def find_worst by simp
    then show ?thesis using err_pos_inj [OF same] by simp
  qed
qed

section \<open>Properties\<close>

text \<open>
  C33: \<^verbatim>\<open>psmi_error_cmp\<close> is the maximum of a total order on error codes: commutative,
  associative, idempotent, always one of its arguments. So the worst error of an array, obtained by
  folding it, does not depend on the order of the array.
\<close>

theorem error_cmp_semilattice:
  "psmi_error_cmp a b = psmi_error_cmp b a \<and>
   psmi_error_cmp (psmi_error_cmp a b) c = psmi_error_cmp a (psmi_error_cmp b c) \<and>
   psmi_error_cmp a a = a \<and> psmi_error_cmp a b \<in> {a, b} \<and> psmi_error_cmp PSM_OK a = a"
proof -
  have ok: "badness PSM_OK = 0" by (simp add: badness_def error_cmp_order_def)
  show ?thesis using badness_inj [of a b] ok unfolding error_cmp_eq by auto
qed

text \<open>
  An error reported on the no-return endpoint never returns, whatever handlers are registered;
  a log event always returns \<^verbatim>\<open>PSM_OK\<close>; any other endpoint answers with its own handler.
\<close>

theorem handle_error_endpoints:
  "(\<exists>stop. snd (psmi_handle_error nv user PSMI_EP_NORETURN err s) = Inl stop) \<and>
   snd (psmi_handle_error nv user PSMI_EP_LOGEVENT err s) = Inr PSM_OK \<and>
   snd (psmi_handle_error nv user (EP n) err
      (snd (psm_error_register_handler (Some n) PSM_ERRHANDLER_NO_HANDLER s))) = Inr err \<and>
   snd (psmi_handle_error nv user EP_NONE err
      (snd (psm_error_register_handler None (User_Handler h) s))) = user h err"
  by (auto simp: psmi_handle_error_def Let_def psmi_errhandler_psm_def psmi_errhandler_noop_def)

text \<open>
  The description table has one entry too many before index 60: the description of an
  incomplete request is \<^verbatim>\<open>unknown 59\<close>, that of a truncated message says the request is incomplete,
  and that of an invalid active-message reply is \<^verbatim>\<open>unknown 69\<close>.
\<close>

theorem error_strings_shifted:
  "psm_error_get_string PSM_MQ_NO_COMPLETIONS = ''unknown 59'' \<and>
   psm_error_get_string PSM_MQ_TRUNCATION = ''MQ Non-blocking request is incomplete'' \<and>
   psm_error_get_string PSM_AM_INVALID_REPLY = ''unknown 69''"
  by (simp add: psm_error_get_string_def psmi_error_items_def)

end
