(* ===== verification/Memcpy.thy ===== *)
theory Memcpy
  imports PSM_Prelude
begin

text \<open>
  The byte memory and the copy routines: \<^verbatim>\<open>ipath_dwordcpy\<close> (\<^verbatim>\<open>src/ipath/ipath_dwordcpy-generic.c\<close>,
  the same code as \<^verbatim>\<open>ipath_dwordcpy-x86_64.c\<close>), \<^verbatim>\<open>psmi_mq_mtucpy\<close> (\<^verbatim>\<open>src/psm_mq.c\<close>),
  \<^verbatim>\<open>mq_copy_tiny\<close> (\<^verbatim>\<open>src/psm_mq_internal.h\<close>) and \<^verbatim>\<open>psmi_memcpyo\<close> with its SSE2 kernel
  (\<^verbatim>\<open>src/psm_memcpy.c\<close>).

  The memory is a function from addresses to bytes and \<open>mem_copy k d s\<close> is one access of \<open>k\<close> bytes:
  the loads of \<open>s\<close> followed by the stores to \<open>d\<close>. The vector instructions that need an aligned
  address fault on any other one. Prefetches have no effect on the memory. Sizes are natural
  numbers below \<open>2 ^ 64\<close>.

  Shown: each routine copies exactly the bytes asked for, touches nothing else, never faults on
  alignment, never fails one of its assertions and terminates, for buffers that do not overlap.
\<close>

unbundle bit_operations_syntax

type_synonym mem = "u64 \<Rightarrow> u8"

definition mem_copy :: "nat \<Rightarrow> u64 \<Rightarrow> u64 \<Rightarrow> mem \<Rightarrow> mem" where
  "mem_copy k d s m = (\<lambda>a. if unat (a - d) < k then m (s + (a - d)) else m a)"

section \<open>Routines\<close>

subsection \<open>\<^verbatim>\<open>ipath_dwordcpy\<close>\<close>

text \<open>The switch at its end: \<open>n\<close> single words.\<close>

fun dword_tail :: "nat \<Rightarrow> u64 \<Rightarrow> u64 \<Rightarrow> mem \<Rightarrow> mem" where
  "dword_tail 0 d s m = m"
| "dword_tail (Suc n) d s m = dword_tail n (d + 4) (s + 4) (mem_copy 4 d s m)"

function ipath_dwordcpy :: "u64 \<Rightarrow> u64 \<Rightarrow> nat \<Rightarrow> mem \<Rightarrow> mem" where
  "ipath_dwordcpy dest src ndw m =
     (if ndw \<ge> 8 then
        let m = mem_copy 8 dest src m;
            m = mem_copy 8 (dest + 8) (src + 8) m;
            m = mem_copy 8 (dest + 16) (src + 16) m;
            m = mem_copy 8 (dest + 24) (src + 24) m
        in ipath_dwordcpy (dest + 32) (src + 32) (ndw - 8) m
      else dword_tail ndw dest src m)"
  by pat_completeness auto
termination by (relation "measure (\<lambda>(d, s, n, m). n)") auto

declare ipath_dwordcpy.simps [simp del]

subsection \<open>\<^verbatim>\<open>psmi_mq_mtucpy\<close> and \<^verbatim>\<open>mq_copy_tiny\<close>\<close>

fun byte_loop :: "nat \<Rightarrow> u64 \<Rightarrow> u64 \<Rightarrow> mem \<Rightarrow> mem" where
  "byte_loop 0 d s m = m"
| "byte_loop (Suc n) d s m = byte_loop n (d + 1) (s + 1) (mem_copy 1 d s m)"

definition psmi_mq_mtucpy :: "u64 \<Rightarrow> u64 \<Rightarrow> u32 \<Rightarrow> mem \<Rightarrow> mem" where
  "psmi_mq_mtucpy dest src nchars m =
     (let m = (if drop_bit 2 nchars \<noteq> 0 then ipath_dwordcpy dest src (unat (drop_bit 2 nchars)) m else m);
          off = ucast (push_bit 2 (drop_bit 2 nchars))
      in byte_loop (unat (nchars AND 3)) (dest + off) (src + off) m)"

definition mq_copy_tiny :: "u64 \<Rightarrow> u64 \<Rightarrow> u8 \<Rightarrow> mem \<Rightarrow> mem" where
  "mq_copy_tiny dest src len m =
     (if len = 8 then mem_copy 4 (dest + 4) (src + 4) (mem_copy 4 dest src m)
      else if len = 4 then mem_copy 4 dest src m
      else if len = 0 then m
      else if len = 7 \<or> len = 6 \<or> len = 5
        then byte_loop (unat (len - 4)) (dest + 4) (src + 4) (mem_copy 4 dest src m)
      else if len = 3 \<or> len = 2 \<or> len = 1 then byte_loop (unat len) dest src m
      else psmi_mq_mtucpy dest src (ucast len) m)"

subsection \<open>\<^verbatim>\<open>psmi_memcpyo\<close>\<close>

definition OPTERON_L1_CACHE_BYTES :: nat where "OPTERON_L1_CACHE_BYTES = 65536"
definition OPTERON_L2_CACHE_BYTES :: nat where "OPTERON_L2_CACHE_BYTES = 1048576"

definition aligned16 :: "u64 \<Rightarrow> bool" where "aligned16 a \<longleftrightarrow> a AND 0xf = 0"

text \<open>
  One round of the unrolled SSE2 loop, 128 bytes: eight loads, then eight stores that need an
  aligned destination. The first two variants also need an aligned source; the last one stores the
  first vector before it loads the others.
\<close>

definition sse2_aligned_round :: "u64 \<Rightarrow> u64 \<Rightarrow> mem \<Rightarrow> mem run" where
  "sse2_aligned_round dp sp m =
     (if aligned16 sp \<and> aligned16 dp then Inr (mem_copy 128 dp sp m) else Inl Undefined_Access)"

definition sse2_unaligned_round :: "u64 \<Rightarrow> u64 \<Rightarrow> mem \<Rightarrow> mem run" where
  "sse2_unaligned_round dp sp m =
     (if aligned16 dp then Inr (mem_copy 128 dp sp m) else Inl Undefined_Access)"

definition sse2_unaligned_stream_round :: "u64 \<Rightarrow> u64 \<Rightarrow> mem \<Rightarrow> mem run" where
  "sse2_unaligned_stream_round dp sp m =
     (if aligned16 dp then Inr (mem_copy 112 (dp + 16) (sp + 16) (mem_copy 16 dp sp m))
      else Inl Undefined_Access)"

fun sse2_loop :: "(u64 \<Rightarrow> u64 \<Rightarrow> mem \<Rightarrow> mem run) \<Rightarrow> nat \<Rightarrow> u64 \<Rightarrow> u64 \<Rightarrow> mem \<Rightarrow> mem run" where
  "sse2_loop body 0 dp sp m = Inr m"
| "sse2_loop body (Suc count) dp sp m =
     run_bind (body dp sp m) (sse2_loop body count (dp + 128) (sp + 128))"

text \<open>The result is the number of bytes copied and the memory.\<close>

definition memcpy_pathscale_opteron_sse2 :: "u64 \<Rightarrow> u64 \<Rightarrow> nat \<Rightarrow> mem \<Rightarrow> (nat \<times> mem) run" where
  "memcpy_pathscale_opteron_sse2 d s n m =
     (if \<not> n \<ge> 16 then Inl Assert_Abort
      else let align = unat ((16 - (d AND 0xf)) AND 0xf);
               m = (if align \<noteq> 0 then byte_loop align d s m else m);
               dp = d + of_nat align;
               sp = s + of_nat align;
               n = n - align;
               count = n div 128
           in run_bind
                (if sp AND 0xf = 0 then
                   (if n < OPTERON_L2_CACHE_BYTES div 4 then sse2_loop sse2_aligned_round count dp sp m
                    else sse2_loop sse2_aligned_round count dp sp m)
                 else
                   (if n < OPTERON_L2_CACHE_BYTES div 4 then sse2_loop sse2_unaligned_round count dp sp m
                    else sse2_loop sse2_unaligned_stream_round count dp sp m))
                (\<lambda>m. Inr (align + count * 128, m)))"

text \<open>The copies of fewer than 16 bytes.\<close>

definition memcpyo_small :: "nat \<Rightarrow> u64 \<Rightarrow> u64 \<Rightarrow> mem \<Rightarrow> mem" where
  "memcpyo_small n d s m =
     (if n = 0 then m else if n = 1 then mem_copy 1 d s m else if n = 2 then mem_copy 2 d s m
      else if n = 4 then mem_copy 4 d s m else if n = 8 then mem_copy 8 d s m
      else
        let (d, s, m) = (if bit n 3 then (d + 8, s + 8, mem_copy 8 d s m) else (d, s, m));
            (d, s, m) = (if bit n 2 then (d + 4, s + 4, mem_copy 4 d s m) else (d, s, m));
            (d, s, m) = (if bit n 1 then (d + 2, s + 2, mem_copy 2 d s m) else (d, s, m))
        in if bit n 0 then mem_copy 1 d s m else m)"

text \<open>The loop of the copies below 64 bytes: two 64-bit words per round; returns the final \<open>i\<close>.\<close>

function pair_loop :: "nat \<Rightarrow> nat \<Rightarrow> u64 \<Rightarrow> u64 \<Rightarrow> mem \<Rightarrow> nat \<times> mem" where
  "pair_loop i count d s m =
     (if i < count - 1
      then pair_loop (i + 2) count d s (mem_copy 16 (d + of_nat (8 * i)) (s + of_nat (8 * i)) m)
      else (i, m))"
  by pat_completeness auto
termination by (relation "measure (\<lambda>(i, count, d, s, m). count - i)") auto

declare pair_loop.simps [simp del]

lemma pair_loop_ge: "i \<le> fst (pair_loop i count d s m) \<and> (i < count - 1 \<longrightarrow> i + 2 \<le> fst (pair_loop i count d s m))"
proof (induction i count d s m rule: pair_loop.induct)
  case (1 i count d s m)
  then show ?case by (subst (1 2) pair_loop.simps) auto
qed

lemma and7_less: "unat (d AND 7 :: u64) < 8"
  by (rule le_less_trans [OF word_le_nat_alt [THEN iffD1, OF word_and_le1]]) simp

lemma pair_loop_progress: "(i, m') = pair_loop 0 (n div 8) d s m \<Longrightarrow> \<not> n < 16 \<Longrightarrow> 2 \<le> i"
proof -
  assume *: "(i, m') = pair_loop 0 (n div 8) d s m" "\<not> n < 16"
  then have "1 < n div 8" by simp
  then show "2 \<le> i" using pair_loop_ge [of 0 "n div 8" d s m] by (simp flip: *(1))
qed

lemma align_progress: "8 - unat (d AND 7 :: u64) \<noteq> 0"
  using and7_less [of d] by simp

lemma mod_less_self: "\<not> n < 64 \<Longrightarrow> n - 64 * (n div 64) < (n :: nat)"
  by (simp add: minus_mult_div_eq_mod)

text \<open>The loop of the copies below the L1 cache size: four words, then four more, per round.\<close>

fun quad_loop :: "nat \<Rightarrow> u64 \<Rightarrow> u64 \<Rightarrow> mem \<Rightarrow> mem" where
  "quad_loop 0 dp sp m = m"
| "quad_loop (Suc i) dp sp m =
     quad_loop i (dp + 64) (sp + 64) (mem_copy 32 (dp + 32) (sp + 32) (mem_copy 32 dp sp m))"

function psmi_memcpyo :: "u64 \<Rightarrow> u64 \<Rightarrow> nat \<Rightarrow> mem \<Rightarrow> mem run" where
  "psmi_memcpyo d s n m =
     (if n < 16 then Inr (memcpyo_small n d s m)
      else if n < 64 then
        (let (i, m) = pair_loop 0 (n div 8) d s m;
             bytes = 8 * i
         in if n = bytes then Inr m
            else if n - bytes > 0
              then psmi_memcpyo (d + of_nat bytes) (s + of_nat bytes) (n - bytes) m
            else Inr m)
      else if n < OPTERON_L1_CACHE_BYTES then
        (let a = 8 - unat (d AND 7);
             (d, s, n', m) = (if a \<noteq> 8 then (d + of_nat a, s + of_nat a, n - a, byte_loop a d s m)
                              else (d, s, n, m));
             count = n' div 64;
             m = quad_loop count d s m;
             bytes = 64 * count
         in if n' = bytes then Inr m
            else if n' - bytes > 0 then psmi_memcpyo (d + of_nat bytes) (s + of_nat bytes) (n' - bytes) m
            else Inr m)
      else
        run_bind (memcpy_pathscale_opteron_sse2 d s n m)
          (\<lambda>(bytes, m). if \<not> bytes > 0 then Inl Assert_Abort
             else if n - bytes > 0
               then psmi_memcpyo (d + of_nat bytes) (s + of_nat bytes) (n - bytes) m
             else Inr m))"
  by pat_completeness auto
termination
  by (relation "measure (\<lambda>(d, s, n, m). n)")
    (auto dest!: pair_loop_progress simp: align_progress less_imp_diff_less mod_less_self split: if_splits)

declare psmi_memcpyo.simps [simp del]

section \<open>Copying in pieces\<close>

lemma sub_below_wraps:
  assumes "unat (a - d :: u64) < k" "k + n < 2 ^ 64"
  shows "\<not> unat (a - (d + of_nat k)) < n"
proof -
  have k: "unat (of_nat k :: u64) = k" using assms(2) by (simp add: unat_of_nat)
  have "a - (d + of_nat k) = (a - d) - of_nat k" by simp
  then show ?thesis using assms unat_sub_if' [of "a - d" "of_nat k"] k by (simp only:) simp
qed

lemma sub_above:
  assumes "k \<le> unat (a - d :: u64)"
  shows "unat (a - (d + of_nat k)) = unat (a - d) - k"
proof -
  have "k < 2 ^ 64" using assms unsigned_less [of "a - d", where 'a = nat] by simp
  then have k: "unat (of_nat k :: u64) = k" by (simp add: unat_of_nat)
  have "a - (d + of_nat k) = (a - d) - of_nat k" by simp
  then show ?thesis using assms unat_sub_if' [of "a - d" "of_nat k"] k by (simp only:) simp
qed

text \<open>Two buffers of \<open>n\<close> bytes that do not overlap.\<close>

definition apart :: "nat \<Rightarrow> u64 \<Rightarrow> u64 \<Rightarrow> bool" where
  "apart n d s \<longleftrightarrow> n < 2 ^ 64 \<and> (\<forall>i < n. \<forall>j < n. d + of_nat i \<noteq> s + of_nat j)"

lemma apart_less: "apart n d s \<Longrightarrow> k \<le> n \<Longrightarrow> apart k d s"
  by (auto simp: apart_def)

lemma apart_shift: "apart (k + n) d s \<Longrightarrow> apart n (d + of_nat k) (s + of_nat k)"
  unfolding apart_def
proof (intro conjI allI impI; elim conjE)
  fix i j assume "\<forall>i<k + n. \<forall>j<k + n. d + word_of_nat i \<noteq> s + word_of_nat j" "i < n" "j < n"
  then have "d + of_nat (k + i) \<noteq> s + of_nat (k + j)" by (meson nat_add_left_cancel_less)
  then show "d + of_nat k + of_nat i \<noteq> s + of_nat k + of_nat j" by (simp add: add.assoc)
qed simp

lemma mem_copy_0 [simp]: "mem_copy 0 d s m = m"
  by (simp add: mem_copy_def)

lemma mem_copy_append:
  assumes "apart (k + n) d s"
  shows "mem_copy n (d + of_nat k) (s + of_nat k) (mem_copy k d s m) = mem_copy (k + n) d s m"
proof
  fix a
  let ?i = "unat (a - d)"
  have kn: "k + n < 2 ^ 64" using assms by (simp add: apart_def)
  have a: "a = d + of_nat ?i" by simp
  show "mem_copy n (d + of_nat k) (s + of_nat k) (mem_copy k d s m) a = mem_copy (k + n) d s m a"
  proof (cases "?i < k")
    case True
    then have "\<not> unat (a - (d + of_nat k)) < n" using kn by (intro sub_below_wraps) auto
    then show ?thesis using True by (simp add: mem_copy_def)
  next
    case False
    then have e: "unat (a - (d + of_nat k)) = ?i - k" using kn by (intro sub_above) auto
    show ?thesis
    proof (cases "?i < k + n")
      case True
      have "\<not> unat (s + (a - d) - d) < k"
      proof
        assume j: "unat (s + (a - d) - d) < k"
        then have "d + of_nat (unat (s + (a - d) - d)) \<noteq> s + of_nat ?i"
          using assms True unfolding apart_def by (meson trans_less_add1)
        then show False by simp
      qed
      moreover have "?i - k < n" using True False by linarith
      ultimately show ?thesis using True False e by (simp add: mem_copy_def algebra_simps)
    next
      case False
      then have "\<not> ?i - k < n" by linarith
      then show ?thesis using e False \<open>\<not> ?i < k\<close> by (simp add: mem_copy_def)
    qed
  qed
qed

text \<open>The same with the offsets as word literals, the form in which the routines' definitions have them.\<close>

lemma mem_copy_step:
  assumes "apart n d s" "k \<le> n" "w = of_nat k"
  shows "mem_copy (n - k) (d + w) (s + w) (mem_copy k d s m) = mem_copy n d s m"
    and "apart (n - k) (d + w) (s + w)"
  using mem_copy_append [of k "n - k" d s m] apart_shift [of k "n - k" d s] assms by simp_all

lemma dword_tail_eq: "apart (4 * n) d s \<Longrightarrow> dword_tail n d s m = mem_copy (4 * n) d s m"
proof (induction n arbitrary: d s m)
  case (Suc n)
  have "4 * Suc n - 4 = 4 * n" by simp
  then show ?case using Suc.IH [of "d + 4" "s + 4"] mem_copy_step [OF Suc.prems, of 4 4] by simp
qed simp

lemma byte_loop_eq: "apart n d s \<Longrightarrow> byte_loop n d s m = mem_copy n d s m"
proof (induction n arbitrary: d s m)
  case (Suc n)
  then show ?case using Suc.IH [of "d + 1" "s + 1"] mem_copy_step [OF Suc.prems, of 1 1] by simp
qed simp

lemma quad_loop_eq: "apart (64 * n) d s \<Longrightarrow> quad_loop n d s m = mem_copy (64 * n) d s m"
proof (induction n arbitrary: d s m)
  case (Suc n)
  have "mem_copy 32 (d + 32) (s + 32) (mem_copy 32 d s m) = mem_copy 64 d s m"
    using mem_copy_step(1) [of 64 d s 32 32] apart_less [OF Suc.prems] by simp
  then show ?case using Suc.IH [of "d + 64" "s + 64"] mem_copy_step [OF Suc.prems, of 64 64] by simp
qed simp

lemma dwordcpy_eq: "apart (4 * n) d s \<Longrightarrow> ipath_dwordcpy d s n m = mem_copy (4 * n) d s m"
proof (induction n arbitrary: d s m rule: less_induct)
  case (less n)
  show ?case
  proof (cases "8 \<le> n")
    case False
    then show ?thesis using less.prems dword_tail_eq by (subst ipath_dwordcpy.simps) simp
  next
    case True
    let ?m1 = "mem_copy 8 d s m"
    let ?m2 = "mem_copy 8 (d + 8) (s + 8) ?m1"
    let ?m3 = "mem_copy 8 (d + 16) (s + 16) ?m2"
    have a: "apart 32 d s" using less.prems True by (auto intro: apart_less)
    have "?m2 = mem_copy 16 d s m"
      using mem_copy_step(1) [OF apart_less [OF a], of 16 8 8] by simp
    then have "?m3 = mem_copy 24 d s m"
      using mem_copy_step(1) [OF apart_less [OF a], of 24 16 16] by simp
    then have "mem_copy 8 (d + 24) (s + 24) ?m3 = mem_copy 32 d s m"
      using mem_copy_step(1) [OF a, of 24 24] by simp
    moreover have "4 * n - 32 = 4 * (n - 8)" using True by simp
    ultimately show ?thesis
      using True less.IH [of "n - 8" "d + 32" "s + 32"] mem_copy_step [OF less.prems, of 32 32]
      by (subst ipath_dwordcpy.simps) (simp add: Let_def)
  qed
qed

lemma mtucpy_eq:
  assumes "apart (unat n) d s"
  shows "psmi_mq_mtucpy d s n m = mem_copy (unat n) d s m"
proof -
  let ?q = "unat (drop_bit 2 n)" and ?w = "ucast (push_bit 2 (drop_bit 2 n)) :: u64"
  have q: "?q = unat n div 4" by (simp add: drop_bit_eq_div unat_div)
  have r: "unat (n AND 3) = unat n mod 4"
    using unat_and_mask [of 3 2 n] by (simp add: mask_numeral)
  have le: "4 * ?q \<le> unat n" using q by simp
  have "push_bit 2 (drop_bit 2 n) = of_nat (4 * ?q)" by (simp add: push_bit_eq_mult)
  moreover have "unat (of_nat (4 * ?q) :: u32) = 4 * ?q"
    using le unsigned_less [of n, where 'a = nat] by (simp add: unat_of_nat del: of_nat_mult)
  ultimately have "unat (push_bit 2 (drop_bit 2 n)) = 4 * ?q" by simp
  then have w: "?w = of_nat (4 * ?q)" by (metis of_nat_unat)
  have "(if drop_bit 2 n \<noteq> 0 then ipath_dwordcpy d s ?q m else m) = mem_copy (4 * ?q) d s m"
    using dwordcpy_eq [OF apart_less [OF assms le]] by (auto simp: unat_eq_0)
  moreover have "byte_loop (unat (n AND 3)) (d + ?w) (s + ?w) (mem_copy (4 * ?q) d s m) = mem_copy (unat n) d s m"
  proof -
    have "unat n - 4 * ?q = unat (n AND 3)" unfolding q r by (metis minus_mult_div_eq_mod)
    then show ?thesis using mem_copy_step [OF assms le w] byte_loop_eq by simp
  qed
  ultimately show ?thesis by (simp add: psmi_mq_mtucpy_def Let_def)
qed

lemma copy_tiny_eq:
  assumes "apart (unat n) d s"
  shows "mq_copy_tiny d s n m = mem_copy (unat n) d s m"
proof -
  consider "n = 8" | "n = 4" | "n = 0" | "n = 7 \<or> n = 6 \<or> n = 5" | "n = 3 \<or> n = 2 \<or> n = 1"
    | "n \<notin> {0, 1, 2, 3, 4, 5, 6, 7, 8}" by auto
  then show ?thesis
  proof cases
    case 1
    then show ?thesis using assms mem_copy_step(1) [of 8 d s 4 4] by (simp add: mq_copy_tiny_def)
  next
    case 4
    then have u: "4 \<le> unat n" "unat (n - 4) = unat n - 4" by auto
    have "n \<noteq> 8" "n \<noteq> 4" "n \<noteq> 0" using 4 by auto
    then have "mq_copy_tiny d s n m = byte_loop (unat n - 4) (d + 4) (s + 4) (mem_copy 4 d s m)"
      using 4 u(2) unfolding mq_copy_tiny_def by (simp only: if_True if_False)
    then show ?thesis using byte_loop_eq mem_copy_step [OF assms u(1), of 4] by simp
  next
    case 5
    then show ?thesis using assms byte_loop_eq by (auto simp: mq_copy_tiny_def)
  next
    case 6
    then show ?thesis using assms mtucpy_eq [of "ucast n :: u32"] by (simp add: mq_copy_tiny_def unat_ucast_up)
  qed (simp_all add: mq_copy_tiny_def)
qed

section \<open>\<^verbatim>\<open>psmi_memcpyo\<close> copies\<close>

lemma pair_loop_eq:
  assumes "apart n d s" "8 * count \<le> n" "i \<le> count" "even i"
  shows "\<exists>i'. pair_loop i count d s (mem_copy (8 * i) d s m) = (i', mem_copy (8 * i') d s m) \<and> i' \<le> count"
  using assms(3,4)
proof (induction "count - i" arbitrary: i rule: less_induct)
  case less
  show ?case
  proof (cases "i < count - 1")
    case False
    then show ?thesis using less.prems by (subst pair_loop.simps) auto
  next
    case True
    have "apart (8 * (i + 2)) d s" using assms(1,2) True by (auto intro: apart_less)
    then have "mem_copy 16 (d + of_nat (8 * i)) (s + of_nat (8 * i)) (mem_copy (8 * i) d s m) =
        mem_copy (8 * (i + 2)) d s m"
      using mem_copy_step(1) [of "8 * (i + 2)" d s "8 * i" "of_nat (8 * i)"] by simp
    moreover have "\<exists>i'. pair_loop (i + 2) count d s (mem_copy (8 * (i + 2)) d s m) =
        (i', mem_copy (8 * i') d s m) \<and> i' \<le> count"
      using True less.prems by (intro less.hyps) auto
    ultimately show ?thesis using True by (subst pair_loop.simps) simp
  qed
qed

lemma aligned16_unat: "aligned16 a \<longleftrightarrow> unat a mod 16 = 0"
  using unat_and_mask [of "0xf" 4 a] 
  by (simp add: aligned16_def mask_numeral) (metis unat_eq_0)

lemma aligned16_add: "aligned16 a \<Longrightarrow> aligned16 (a + 128)"
  by (simp add: aligned16_unat unat_plus_mod mod_add_left_eq [symmetric])

lemma sse2_loop_eq:
  assumes "\<And>dp sp m. P dp sp \<Longrightarrow> apart 128 dp sp \<Longrightarrow> body dp sp m = Inr (mem_copy 128 dp sp m)"
    "\<And>dp sp. P dp sp \<Longrightarrow> P (dp + 128) (sp + 128)"
  shows "P d s \<Longrightarrow> apart (128 * count) d s \<Longrightarrow> sse2_loop body count d s m = Inr (mem_copy (128 * count) d s m)"
proof (induction count arbitrary: d s m)
  case (Suc count)
  have "apart 128 d s" using Suc.prems(2) by (rule apart_less) simp
  then have "body d s m = Inr (mem_copy 128 d s m)" using assms(1) Suc.prems(1) by simp
  then show ?case
    using Suc.IH [OF assms(2) [OF Suc.prems(1)]] mem_copy_step [OF Suc.prems(2), of 128 128] by simp
qed simp

lemma sse2_rounds:
  "apart 128 dp sp \<Longrightarrow> aligned16 dp \<Longrightarrow> aligned16 sp \<Longrightarrow> sse2_aligned_round dp sp m = Inr (mem_copy 128 dp sp m)"
  "apart 128 dp sp \<Longrightarrow> aligned16 dp \<Longrightarrow> sse2_unaligned_round dp sp m = Inr (mem_copy 128 dp sp m)"
  "apart 128 dp sp \<Longrightarrow> aligned16 dp \<Longrightarrow> sse2_unaligned_stream_round dp sp m = Inr (mem_copy 128 dp sp m)"
  using mem_copy_step(1) [of 128 dp sp 16 16 m]
  by (simp_all add: sse2_aligned_round_def sse2_unaligned_round_def sse2_unaligned_stream_round_def)

lemma align_up16: "aligned16 (d + ((16 - (d AND 0xf)) AND 0xf))"
proof -
  let ?r = "unat d mod 16"
  have m: "unat (x AND 0xf) = unat x mod 16" for x :: u64
    using unat_and_mask [of "0xf" 4 x] by (simp add: mask_numeral)
  have "unat (16 - (d AND 0xf)) = 16 - ?r"
    using unat_sub_if' [of 16 "d AND 0xf"] m [of d] by simp
  then have "unat ((16 - (d AND 0xf)) AND 0xf) = (16 - ?r) mod 16" by (simp only: m)
  then have "unat (d + ((16 - (d AND 0xf)) AND 0xf)) mod 16 = (unat d + (16 - ?r) mod 16) mod 16"
    by (simp add: unat_plus_mod)
  also have "\<dots> = (?r + (16 - ?r)) mod 16" by (simp only: mod_add_left_eq mod_add_right_eq)
  finally have "unat (d + ((16 - (d AND 0xf)) AND 0xf)) mod 16 = 0" by simp
  then show ?thesis by (simp add: aligned16_unat)
qed

lemma sse2_eq:
  assumes "apart n d s" "16 \<le> n"
  shows "\<exists>b. memcpy_pathscale_opteron_sse2 d s n m = Inr (b, mem_copy b d s m) \<and> b \<le> n \<and> (144 \<le> n \<longrightarrow> 0 < b)"
proof -
  let ?w = "(16 - (d AND 0xf)) AND 0xf" let ?a = "unat ?w"
  let ?n = "n - ?a" let ?c = "?n div 128"
  have "?w \<le> 0xf" by (rule word_and_le1)
  then have a: "?a \<le> 15" by (simp add: word_le_nat_alt)
  then have an: "?a \<le> n" using assms(2) by simp
  have ca: "?a + 128 * ?c \<le> n" using an by (metis add_le_cancel_left le_add_diff_inverse times_div_less_eq_dividend mult.commute)
  have head: "(if ?a \<noteq> 0 then byte_loop ?a d s m else m) = mem_copy ?a d s m"
    using byte_loop_eq [OF apart_less [OF assms(1) an]] by simp
  have al: "aligned16 (d + of_nat ?a)" using align_up16 [of d] by simp
  note st = mem_copy_step [OF apart_less [OF assms(1) ca], of ?a "of_nat ?a"]
  have ap: "apart (128 * ?c) (d + of_nat ?a) (s + of_nat ?a)" using st(2) by simp
  have L: "sse2_loop body ?c (d + of_nat ?a) (s + of_nat ?a) (mem_copy ?a d s m) = Inr (mem_copy (?a + 128 * ?c) d s m)"
    if "\<And>dp sp m. P dp sp \<Longrightarrow> apart 128 dp sp \<Longrightarrow> body dp sp m = Inr (mem_copy 128 dp sp m)"
      "\<And>dp sp. P dp sp \<Longrightarrow> P (dp + 128) (sp + 128)" "P (d + of_nat ?a) (s + of_nat ?a)" for body P
    using sse2_loop_eq [where P = P and body = body, OF that ap] st(1) by simp
  have u: "sse2_loop sse2_unaligned_round ?c (d + of_nat ?a) (s + of_nat ?a) (mem_copy ?a d s m) = Inr (mem_copy (?a + 128 * ?c) d s m)"
    "sse2_loop sse2_unaligned_stream_round ?c (d + of_nat ?a) (s + of_nat ?a) (mem_copy ?a d s m) = Inr (mem_copy (?a + 128 * ?c) d s m)"
    by (rule L [where P = "\<lambda>dp sp. aligned16 dp"]; use al in \<open>auto intro: sse2_rounds aligned16_add\<close>)+
  have v: "sse2_loop sse2_aligned_round ?c (d + of_nat ?a) (s + of_nat ?a) (mem_copy ?a d s m) = Inr (mem_copy (?a + 128 * ?c) d s m)"
    if "aligned16 (s + of_nat ?a)"
    by (rule L [where P = "\<lambda>dp sp. aligned16 dp \<and> aligned16 sp"];
        use al that in \<open>auto intro: sse2_rounds aligned16_add\<close>)
  have "memcpy_pathscale_opteron_sse2 d s n m = Inr (?a + 128 * ?c, mem_copy (?a + 128 * ?c) d s m)"
    using assms(2) u v unfolding memcpy_pathscale_opteron_sse2_def Let_def head aligned16_def
    by (simp add: mult.commute)
  moreover have "0 < ?c" if "144 \<le> n" using that a by (simp add: div_greater_zero_iff)
  ultimately show ?thesis using ca by auto
qed

lemma bits_of_small:
  assumes "n < (16 :: nat)"
  shows "(if bit n 3 then 8 else 0) + (if bit n 2 then 4 else 0) + (if bit n 1 then 2 else 0) +
     (if bit n 0 then 1 else 0) = n"
proof -
  have "\<forall>n \<in> set [0..<16]. (if bit n 3 then 8 else 0) + (if bit n 2 then 4 else 0) +
     (if bit n 1 then 2 else 0) + (if bit n 0 then 1 else 0) = (n :: nat)" by code_simp
  then show ?thesis using assms by simp
qed

lemma copy_piece:
  "w = of_nat k \<Longrightarrow> (if b then (d + w, s + w, mem_copy k d s m) else (d, s, m)) =
     (d + of_nat (if b then k else 0), s + of_nat (if b then k else 0), mem_copy (if b then k else 0) d s m)"
  by simp

lemma memcpyo_small_eq:
  assumes "apart n d s" "n < 16"
  shows "memcpyo_small n d s m = mem_copy n d s m"
proof -
  let ?a = "if bit n 3 then 8 else 0 :: nat" and ?b = "if bit n 2 then 4 else 0 :: nat"
    and ?c = "if bit n 1 then 2 else 0 :: nat" and ?e = "if bit n 0 then 1 else 0 :: nat"
  have sum: "?a + ?b + ?c + ?e = n" by (rule bits_of_small [OF assms(2)])
  have J: "mem_copy l (d + of_nat k) (s + of_nat k) (mem_copy k d s m) = mem_copy (k + l) d s m"
    if "k + l \<le> n" for k l
    using mem_copy_append apart_less [OF assms(1) that] by blast
  have b: "mem_copy ?b (d + of_nat ?a) (s + of_nat ?a) (mem_copy ?a d s m) = mem_copy (?a + ?b) d s m"
    by (rule J) (use sum in linarith)
  have c: "mem_copy ?c (d + of_nat (?a + ?b)) (s + of_nat (?a + ?b)) (mem_copy (?a + ?b) d s m) = mem_copy (?a + ?b + ?c) d s m"
    by (rule J) (use sum in linarith)
  have e: "mem_copy ?e (d + of_nat (?a + ?b + ?c)) (s + of_nat (?a + ?b + ?c)) (mem_copy (?a + ?b + ?c) d s m) = mem_copy n d s m"
    using J [of "?a + ?b + ?c" ?e] sum by simp
  have last: "(if bit n 0 then mem_copy 1 d' s' m' else m') = mem_copy ?e d' s' m'" for d' s' m' by simp
  have "(let (d, s, m) = (if bit n 3 then (d + 8, s + 8, mem_copy 8 d s m) else (d, s, m));
            (d, s, m) = (if bit n 2 then (d + 4, s + 4, mem_copy 4 d s m) else (d, s, m));
            (d, s, m) = (if bit n 1 then (d + 2, s + 2, mem_copy 2 d s m) else (d, s, m))
        in if bit n 0 then mem_copy 1 d s m else m) = mem_copy n d s m"
    unfolding last copy_piece [OF of_nat_numeral [symmetric]] Let_def split b
      c [unfolded of_nat_add add.assoc [symmetric]] e [unfolded of_nat_add add.assoc [symmetric]] by (rule refl)
  then show ?thesis by (auto simp: memcpyo_small_def)
qed

lemma memcpyo_eq: "apart n d s \<Longrightarrow> psmi_memcpyo d s n m = Inr (mem_copy n d s m)"
proof (induction n arbitrary: d s m rule: less_induct)
  case (less n)
  have rest: "(if n - b > 0 then psmi_memcpyo (d + of_nat b) (s + of_nat b) (n - b) (mem_copy b d s m)
      else Inr (mem_copy b d s m)) = Inr (mem_copy n d s m)" if "b \<le> n" "0 < b" for b
    using less.IH [of "n - b" "d + of_nat b" "s + of_nat b"] mem_copy_step [OF less.prems that(1) refl] that by auto
  consider "n < 16" | "16 \<le> n" "n < 64" | "64 \<le> n" "n < OPTERON_L1_CACHE_BYTES" | "64 \<le> n" "OPTERON_L1_CACHE_BYTES \<le> n"
    by linarith
  then show ?case
  proof cases
    case 1
    then show ?thesis using memcpyo_small_eq [OF less.prems] by (subst psmi_memcpyo.simps) simp
  next
    case 2
    obtain i where i: "pair_loop 0 (n div 8) d s m = (i, mem_copy (8 * i) d s m)" "i \<le> n div 8"
      using pair_loop_eq [OF less.prems, of "n div 8" 0 m] by auto
    have "2 \<le> i" using pair_loop_progress [OF i(1) [symmetric]] 2 by simp
    then show ?thesis using rest [of "8 * i"] 2 i by (subst psmi_memcpyo.simps) (auto simp: Let_def)
  next
    case 4
    obtain b where b: "memcpy_pathscale_opteron_sse2 d s n m = Inr (b, mem_copy b d s m)" "b \<le> n" "0 < b"
      using sse2_eq [OF less.prems, of m] 4 by (auto simp: OPTERON_L1_CACHE_BYTES_def)
    then show ?thesis using rest [of b] 4 by (subst psmi_memcpyo.simps) simp
  next
    case 3
    let ?a = "8 - unat (d AND 7)"
    define k where "k = (if ?a \<noteq> 8 then ?a else 0)"
    have k: "k \<le> 7" "k \<le> n" "k = 0 \<longrightarrow> ?a = 8" using 3 align_progress [of d] by (auto simp: k_def)
    have head: "(if ?a \<noteq> 8 then (d + of_nat ?a, s + of_nat ?a, n - ?a, byte_loop ?a d s m) else (d, s, n, m)) =
        (d + of_nat k, s + of_nat k, n - k, mem_copy k d s m)"
      using byte_loop_eq [OF apart_less [OF less.prems k(2)]] by (cases "?a = 8") (simp_all add: k_def)
    let ?c = "(n - k) div 64"
    have kc: "k + 64 * ?c \<le> n" using k(2) by (metis add_le_cancel_left le_add_diff_inverse times_div_less_eq_dividend mult.commute)
    have ap: "apart (64 * ?c) (d + of_nat k) (s + of_nat k)" using apart_shift [OF apart_less [OF less.prems kc]] .
    have q: "quad_loop ?c (d + of_nat k) (s + of_nat k) (mem_copy k d s m) = mem_copy (k + 64 * ?c) d s m"
      using quad_loop_eq [OF ap] mem_copy_append [OF apart_less [OF less.prems kc]] by simp
    have pos: "0 < k + 64 * ?c" using 3 by (cases "k = 0") auto
    show ?thesis using rest [OF kc pos] 3 q by (subst psmi_memcpyo.simps) (auto simp: head Let_def add.assoc)
  qed
qed

lemma apartI:
  assumes "unat d + n \<le> unat s \<and> unat s + n \<le> 2 ^ 64 \<or> unat s + n \<le> unat d \<and> unat d + n \<le> 2 ^ 64" "n < 2 ^ 64"
  shows "apart n d s"
proof -
  have off: "unat (a + of_nat i) = unat a + i" if "i < n" "unat a + n \<le> 2 ^ 64" for a :: u64 and i
  proof -
    have "unat (of_nat i :: u64) = i" using that assms(2) by (simp add: unat_of_nat)
    then show ?thesis using that by (subst unat_plus_no_wrap) auto
  qed
  have le: "unat d + n \<le> 2 ^ 64" "unat s + n \<le> 2 ^ 64" using assms(1) by auto
  have "d + of_nat i \<noteq> s + of_nat j" if "i < n" "j < n" for i j
    using off [OF that(1) le(1)] off [OF that(2) le(2)] assms(1) that by auto
  then show ?thesis using assms(2) by (simp add: apart_def)
qed

section \<open>Properties\<close>

text \<open>
  C30: \<^verbatim>\<open>psmi_memcpyo\<close> on buffers that do not overlap terminates, never trips an assertion and
  never uses an aligned vector access on a misaligned address, for any sizes and alignments; it
  copies exactly \<open>n\<close> bytes and changes no other byte.
\<close>

theorem psmi_memcpyo_correct:
  assumes "apart n d s"
  shows "psmi_memcpyo d s n m = Inr (\<lambda>a. if unat (a - d) < n then m (s + (a - d)) else m a)"
  using memcpyo_eq [OF assms] by (simp add: mem_copy_def)

theorem psmi_memcpyo_correct_witness:
  "apart 70001 0x100003 0x200007 \<and>
   (\<exists>m'. psmi_memcpyo 0x100003 0x200007 70001 (\<lambda>a. ucast a) = Inr m' \<and> m' 0x100004 = 8 \<and> m' 0x100002 = 2)"
proof -
  have "apart 70001 0x100003 0x200007" by (rule apartI) simp_all
  then show ?thesis using psmi_memcpyo_correct [of 70001 "0x100003" "0x200007" "\<lambda>a. ucast a"]
    by (simp add: unsigned_minus_1_eq_mask mask_eq_exp_minus_1)
qed

text \<open>
  The two copy routines of the matched queues copy exactly the bytes asked for: the word copy
  with its byte tail, and the tiny-message copy whose length argument has 8 bits.
\<close>

theorem mq_copies_correct:
  assumes "apart (unat n) d s" "apart (unat t) d s"
  shows "psmi_mq_mtucpy d s n m = (\<lambda>a. if unat (a - d) < unat n then m (s + (a - d)) else m a) \<and>
    mq_copy_tiny d s t m = (\<lambda>a. if unat (a - d) < unat t then m (s + (a - d)) else m a)"
  using mtucpy_eq [OF assms(1)] copy_tiny_eq [OF assms(2)] by (simp add: mem_copy_def)

theorem mq_copies_correct_witness:
  "apart (unat (1001 :: u32)) 0x1000 0x2000 \<and> apart (unat (7 :: u8)) 0x1000 0x2000 \<and>
   psmi_mq_mtucpy 0x1000 0x2000 1001 (\<lambda>a. ucast a) 0x13e8 = ucast (0x23e8 :: u64) \<and>
   mq_copy_tiny 0x1000 0x2000 7 (\<lambda>a. ucast a) 0x1007 = 7"
proof -
  have a: "apart (unat (1001 :: u32)) 0x1000 0x2000" "apart (unat (7 :: u8)) 0x1000 0x2000"
    by (rule apartI; simp)+
  show ?thesis using mq_copies_correct [OF a] a by simp
qed

end
