(* ===== verification/Mpool.thy ===== *)
theory Mpool
  imports PSM_Prelude
begin

text \<open>
  The object pools of \<^verbatim>\<open>src/psm_mpool.c\<close>. Elements are named by their addresses; the header
  fields of an element (\<^verbatim>\<open>me_gen_count\<close>, \<^verbatim>\<open>me_index\<close>) are functions of the address and the free
  list \<^verbatim>\<open>mp_head\<close> (an \<^verbatim>\<open>SLIST\<close>) is the list of the free elements' addresses, first element
  first. The memory allocator is outside this component: what \<^verbatim>\<open>psmi_malloc\<close> answers is an
  argument, \<open>None\<close> for NULL.

  Shown: a pool never hands out an object twice, never grows past its maximum, finds every object
  again by its index, reports exhaustion only when it is exhausted, and calls the user back exactly
  when an exhausted pool gets an object back. The facts are packed into the interface
  \<open>object_pool\<close>, which the matched queues use for their requests.
\<close>

unbundle bit_operations_syntax

section \<open>State\<close>

record mpool =
  mp_flags :: u32
  mp_vector_shift :: nat
  mp_elm_vector_size :: u32
  mp_elm_offset :: u32
  mp_num_obj :: u32
  mp_num_obj_inuse :: u32
  mp_elm_size :: u32
  mp_obj_size :: u32
  mp_num_obj_per_chunk :: u32
  mp_num_obj_max_total :: u32
  mp_head :: "u64 list"
  mp_elm_vector :: "u64 list"
  mp_elm_vector_free :: nat
  mp_non_empty_cb :: bool
  me_gen_count :: "u64 \<Rightarrow> u32"
  me_index :: "u64 \<Rightarrow> u32"

definition sizeof_mpool_element :: u64 where "sizeof_mpool_element = 16"
definition PSMI_MPOOL_ALIGN :: u32 where "PSMI_MPOOL_ALIGN = 1"
definition PSMI_MPOOL_ALIGNMENT :: u64 where "PSMI_MPOOL_ALIGNMENT = 64"

section \<open>Operations\<close>

text \<open>
  The address of element \<open>i\<close> of a chunk: the product is computed in 32 bits, the sums in 64.
\<close>

definition elm_addr :: "mpool \<Rightarrow> u64 \<Rightarrow> u32 \<Rightarrow> u64" where
  "elm_addr mp chunk i = chunk + ucast (i * mp_elm_size mp) + ucast (mp_elm_offset mp)"

definition chunk_elm_init :: "u64 \<Rightarrow> u32 \<Rightarrow> mpool \<Rightarrow> mpool" where
  "chunk_elm_init chunk i mp =
     (let elm = elm_addr mp chunk i;
          mp = mp\<lparr>me_gen_count := (me_gen_count mp)(elm := 0)\<rparr>;
          mp = mp\<lparr>me_index := (me_index mp)(elm := mp_num_obj mp + i)\<rparr>
      in mp\<lparr>mp_head := elm # mp_head mp\<rparr>)"

definition psmi_mpool_allocate_chunk :: "u64 option \<Rightarrow> mpool \<Rightarrow> (psm_error \<times> mpool) run" where
  "psmi_mpool_allocate_chunk malloc mp =
     (let num_to_allocate =
            (if mp_num_obj mp + mp_num_obj_per_chunk mp > mp_num_obj_max_total mp then 0
             else mp_num_obj_per_chunk mp)
      in if num_to_allocate = 0 then Inr (PSM_NO_MEMORY, mp)
         else case malloc of
             None \<Rightarrow> Inr (PSM_NO_MEMORY, mp)
           | Some chunk \<Rightarrow>
               let mp = fold (chunk_elm_init chunk) (map of_nat [0..<unat num_to_allocate]) mp
               in if mp_elm_vector_free mp < length (mp_elm_vector mp)
                  then let mp = mp\<lparr>mp_elm_vector := (mp_elm_vector mp)[mp_elm_vector_free mp := chunk]\<rparr>;
                           mp = mp\<lparr>mp_elm_vector_free := Suc (mp_elm_vector_free mp)\<rparr>
                       in Inr (PSM_OK, mp\<lparr>mp_num_obj := mp_num_obj mp + num_to_allocate\<rparr>)
                  else Inl Undefined_Access)"

text \<open>
  The loop \<^verbatim>\<open>for (s = 1; s < num_obj_per_chunk; s <<= 1) mp->mp_vector_shift++\<close>; the bound is a
  power of two below \<open>2 ^ 32\<close>, so \<open>s\<close> does not wrap.
\<close>

function vector_shift_loop :: "nat \<Rightarrow> nat \<Rightarrow> nat" where
  "vector_shift_loop s n = (if 0 < s \<and> s < n then Suc (vector_shift_loop (2 * s) n) else 0)"
  by pat_completeness auto
termination by (relation "measure (\<lambda>(s, n). n - s)") auto

declare vector_shift_loop.simps [simp del]

text \<open>
  \<open>calloc_mp\<close> and \<open>calloc_vec\<close> say whether the two \<^verbatim>\<open>psmi_calloc\<close> calls succeed, \<open>malloc\<close> is the
  answer for the first chunk. \<open>Inr None\<close> is returning NULL.
\<close>

definition psmi_mpool_create ::
  "bool \<Rightarrow> bool \<Rightarrow> u64 option \<Rightarrow> u64 \<Rightarrow> u32 \<Rightarrow> u32 \<Rightarrow> u32 \<Rightarrow> bool \<Rightarrow> mpool option run" where
  "psmi_mpool_create calloc_mp calloc_vec malloc obj_size num_obj_per_chunk num_obj_max_total flags cb =
     (if \<not> PSMI_POWEROFTWO num_obj_per_chunk \<or> \<not> PSMI_POWEROFTWO num_obj_max_total \<or>
         num_obj_max_total < num_obj_per_chunk then Inr None
      else if \<not> calloc_mp then Inr None
      else if num_obj_per_chunk = 0 then Inl Undefined_Access
      else let vsize = num_obj_max_total div num_obj_per_chunk in
        if \<not> calloc_vec then Inr None
        else let hdr_size = (if flags AND PSMI_MPOOL_ALIGN \<noteq> 0
                             then PSMI_ALIGNUP sizeof_mpool_element PSMI_MPOOL_ALIGNMENT
                             else sizeof_mpool_element);
                 osize = ucast (PSMI_ALIGNUP obj_size
                            (if flags AND PSMI_MPOOL_ALIGN \<noteq> 0 then PSMI_MPOOL_ALIGNMENT else 8)) :: u32;
                 mp = \<lparr>mp_flags = flags,
                       mp_vector_shift = vector_shift_loop 1 (unat num_obj_per_chunk),
                       mp_elm_vector_size = vsize,
                       mp_elm_offset = ucast (hdr_size - sizeof_mpool_element),
                       mp_num_obj = 0, mp_num_obj_inuse = 0,
                       mp_elm_size = ucast (hdr_size + ucast osize), mp_obj_size = osize,
                       mp_num_obj_per_chunk = num_obj_per_chunk,
                       mp_num_obj_max_total = num_obj_max_total,
                       mp_head = [], mp_elm_vector = replicate (unat vsize) 0,
                       mp_elm_vector_free = 0, mp_non_empty_cb = cb,
                       me_gen_count = (\<lambda>_. 0), me_index = (\<lambda>_. 0)\<rparr>
             in run_bind (psmi_mpool_allocate_chunk malloc mp)
                  (\<lambda>(err, mp). Inr (if err \<noteq> PSM_OK then None else Some mp)))"

definition psmi_mpool_get :: "u64 option \<Rightarrow> mpool \<Rightarrow> (u64 option \<times> mpool) run" where
  "psmi_mpool_get malloc mp =
     run_bind (if mp_head mp = [] then psmi_mpool_allocate_chunk malloc mp else Inr (PSM_OK, mp))
       (\<lambda>(err, mp).
          if err \<noteq> PSM_OK then Inr (None, mp)
          else case mp_head mp of
              [] \<Rightarrow> Inl Undefined_Access
            | me # rest \<Rightarrow>
                let mp = mp\<lparr>mp_head := rest\<rparr>;
                    mp = mp\<lparr>mp_num_obj_inuse := mp_num_obj_inuse mp + 1\<rparr>
                in Inr (Some (me + sizeof_mpool_element), mp))"

text \<open>The first component tells whether the user's non-empty callback is invoked.\<close>

definition psmi_mpool_put :: "u64 \<Rightarrow> mpool \<Rightarrow> bool \<times> mpool" where
  "psmi_mpool_put obj mp =
     (let me = obj - sizeof_mpool_element;
          mp = mp\<lparr>me_gen_count := (me_gen_count mp)(me := me_gen_count mp me + 1)\<rparr>;
          was_empty = (mp_num_obj_inuse mp = mp_num_obj_max_total mp);
          mp = mp\<lparr>mp_head := me # mp_head mp\<rparr>;
          mp = mp\<lparr>mp_num_obj_inuse := mp_num_obj_inuse mp - 1\<rparr>
      in (mp_non_empty_cb mp \<and> was_empty, mp))"

definition psmi_mpool_get_obj_index :: "u64 \<Rightarrow> mpool \<Rightarrow> u32" where
  "psmi_mpool_get_obj_index obj mp = me_index mp (obj - sizeof_mpool_element)"

definition psmi_mpool_get_obj_gen_count :: "u64 \<Rightarrow> mpool \<Rightarrow> u32" where
  "psmi_mpool_get_obj_gen_count obj mp = me_gen_count mp (obj - sizeof_mpool_element)"

definition psmi_mpool_get_obj_index_gen_count :: "u64 \<Rightarrow> mpool \<Rightarrow> u32 \<times> u32" where
  "psmi_mpool_get_obj_index_gen_count obj mp =
     (let me = obj - sizeof_mpool_element in (me_index mp me, me_gen_count mp me))"

definition psmi_mpool_find_obj_by_index :: "mpool \<Rightarrow> int \<Rightarrow> u64 option run" where
  "psmi_mpool_find_obj_by_index mp index =
     (if index < 0 \<or> index \<ge> uint (mp_num_obj mp) then Inr None
      else let k = nat index div 2 ^ mp_vector_shift mp in
        if k < length (mp_elm_vector mp)
        then let me = elm_addr mp (mp_elm_vector mp ! k)
                        (of_int index AND (mp_num_obj_per_chunk mp - 1))
             in Inr (Some (me + sizeof_mpool_element))
        else Inl Undefined_Access)"

text \<open>The chunks a destroyed pool hands to \<^verbatim>\<open>psmi_free\<close>.\<close>

definition psmi_mpool_destroy :: "mpool \<Rightarrow> u64 list" where
  "psmi_mpool_destroy mp = filter (\<lambda>c. c \<noteq> 0) (mp_elm_vector mp)"

definition psmi_mpool_get_obj_info :: "mpool \<Rightarrow> u32 \<times> u32" where
  "psmi_mpool_get_obj_info mp = (mp_num_obj_per_chunk mp, mp_num_obj_max_total mp)"

section \<open>Invariant\<close>

text \<open>
  The pool's element with a given index, and the memory a chunk occupies. The allocator's
  documented behaviour is that a chunk it returns does not overlap the chunks the pool still owns
  and does not run past the end of the address space.
\<close>

abbreviation per_chunk :: "mpool \<Rightarrow> nat" where "per_chunk mp \<equiv> unat (mp_num_obj_per_chunk mp)"
abbreviation chunk_bytes :: "mpool \<Rightarrow> nat" where
  "chunk_bytes mp \<equiv> unat (mp_num_obj_per_chunk mp) * unat (mp_elm_size mp)"

definition mp_elm :: "mpool \<Rightarrow> nat \<Rightarrow> u64" where
  "mp_elm mp n = elm_addr mp (mp_elm_vector mp ! (n div per_chunk mp)) (of_nat (n mod per_chunk mp))"

definition chunk_region :: "mpool \<Rightarrow> u64 \<Rightarrow> nat set" where
  "chunk_region mp c = {unat c ..< unat c + chunk_bytes mp}"

definition malloc_fresh :: "mpool \<Rightarrow> u64 \<Rightarrow> bool" where
  "malloc_fresh mp c \<longleftrightarrow> unat c + chunk_bytes mp \<le> 2 ^ 64 \<and>
     (\<forall>k < mp_elm_vector_free mp. chunk_region mp (mp_elm_vector mp ! k) \<inter> chunk_region mp c = {})"

definition mp_geom :: "mpool \<Rightarrow> bool" where
  "mp_geom mp \<longleftrightarrow>
     per_chunk mp = 2 ^ mp_vector_shift mp \<and> per_chunk mp dvd unat (mp_num_obj_max_total mp) \<and>
     unat (mp_num_obj_max_total mp) < 2 ^ 31 \<and>
     mp_elm_offset mp < mp_elm_size mp \<and> chunk_bytes mp < 2 ^ 32 \<and>
     length (mp_elm_vector mp) = unat (mp_num_obj_max_total mp) div per_chunk mp \<and>
     unat (mp_num_obj mp) = mp_elm_vector_free mp * per_chunk mp \<and>
     mp_num_obj mp \<le> mp_num_obj_max_total mp \<and>
     (\<forall>k < mp_elm_vector_free mp. unat (mp_elm_vector mp ! k) + chunk_bytes mp \<le> 2 ^ 64) \<and>
     (\<forall>k < mp_elm_vector_free mp. \<forall>j < k.
        chunk_region mp (mp_elm_vector mp ! j) \<inter> chunk_region mp (mp_elm_vector mp ! k) = {})"

definition mpool_inv :: "mpool \<Rightarrow> bool" where
  "mpool_inv mp \<longleftrightarrow> mp_geom mp \<and>
     distinct (mp_head mp) \<and> set (mp_head mp) \<subseteq> mp_elm mp ` {..<unat (mp_num_obj mp)} \<and>
     unat (mp_num_obj_inuse mp) + length (mp_head mp) = unat (mp_num_obj mp) \<and>
     (\<forall>n < unat (mp_num_obj mp). me_index mp (mp_elm mp n) = of_nat n)"

text \<open>The objects a client holds: all of the pool's that are not on the free list.\<close>

definition mp_inuse :: "mpool \<Rightarrow> u64 set" where
  "mp_inuse mp = (\<lambda>me. me + sizeof_mpool_element) ` (mp_elm mp ` {..<unat (mp_num_obj mp)} - set (mp_head mp))"

lemma mp_geomD:
  assumes "mp_geom mp"
  shows "per_chunk mp dvd unat (mp_num_obj_max_total mp)" "unat (mp_num_obj_max_total mp) < 2 ^ 31"
    "mp_elm_offset mp < mp_elm_size mp" "chunk_bytes mp < 2 ^ 32"
    "length (mp_elm_vector mp) = unat (mp_num_obj_max_total mp) div per_chunk mp"
    "unat (mp_num_obj mp) = mp_elm_vector_free mp * per_chunk mp"
    "unat (mp_num_obj mp) \<le> unat (mp_num_obj_max_total mp)"
    "k < mp_elm_vector_free mp \<Longrightarrow> unat (mp_elm_vector mp ! k) + chunk_bytes mp \<le> 2 ^ 64"
    "k < mp_elm_vector_free mp \<Longrightarrow> j < mp_elm_vector_free mp \<Longrightarrow> j \<noteq> k \<Longrightarrow>
       chunk_region mp (mp_elm_vector mp ! j) \<inter> chunk_region mp (mp_elm_vector mp ! k) = {}"
    "0 < per_chunk mp"
  using assms unfolding mp_geom_def
  by (auto simp: word_le_nat_alt) (metis Int_iff empty_iff linorder_neqE_nat)+

lemma elm_addr_unat:
  assumes "i < per_chunk mp" "unat c + chunk_bytes mp \<le> 2 ^ 64" "mp_elm_offset mp < mp_elm_size mp"
    "chunk_bytes mp < 2 ^ 32"
  shows "unat (elm_addr mp c (of_nat i)) = unat c + i * unat (mp_elm_size mp) + unat (mp_elm_offset mp)"
    and "unat (elm_addr mp c (of_nat i)) \<in> chunk_region mp c"
proof -
  let ?E = "unat (mp_elm_size mp)" and ?o = "unat (mp_elm_offset mp)"
  have o: "?o < ?E" using assms(3) by (simp add: word_less_nat_alt)
  have "Suc i * ?E \<le> chunk_bytes mp" using assms(1) by (intro mult_le_mono1) simp
  then have b: "i * ?E + ?o < chunk_bytes mp" using o by simp
  have "i < 2 ^ 32" using assms(1) unsigned_less [of "mp_num_obj_per_chunk mp", where 'a = nat] by simp
  then have "unat (of_nat i * mp_elm_size mp) = i * ?E"
    using b assms(4) by (simp add: unat_word_ariths unat_of_nat)
  then have 1: "unat (ucast (of_nat i * mp_elm_size mp) :: u64) = i * ?E"
    "unat (ucast (mp_elm_offset mp) :: u64) = ?o"
    by (simp_all add: unat_ucast_up)
  have 2: "unat c + i * ?E + ?o < 2 ^ 64" using b assms(2) by linarith
  show 3: "unat (elm_addr mp c (of_nat i)) = unat c + i * ?E + ?o"
    using 1 2 by (simp add: elm_addr_def unat_word_ariths)
  show "unat (elm_addr mp c (of_nat i)) \<in> chunk_region mp c"
    using b by (simp add: 3 chunk_region_def)
qed

lemma mp_elm_pos:
  assumes "mp_geom mp" "n < unat (mp_num_obj mp)"
  shows "n div per_chunk mp < mp_elm_vector_free mp" "n mod per_chunk mp < per_chunk mp"
  using assms(2) mp_geomD [OF assms(1)] by (simp_all add: less_mult_imp_div_less)

lemma mp_elm_unat:
  assumes "mp_geom mp" "n < unat (mp_num_obj mp)"
  shows "unat (mp_elm mp n) = unat (mp_elm_vector mp ! (n div per_chunk mp)) +
       (n mod per_chunk mp) * unat (mp_elm_size mp) + unat (mp_elm_offset mp)"
    and "unat (mp_elm mp n) \<in> chunk_region mp (mp_elm_vector mp ! (n div per_chunk mp))"
  using elm_addr_unat [of "n mod per_chunk mp" mp "mp_elm_vector mp ! (n div per_chunk mp)"]
    mp_elm_pos [OF assms] mp_geomD [OF assms(1)] by (simp_all add: mp_elm_def)

lemma mp_elm_inj:
  assumes g: "mp_geom mp"
  shows "inj_on (mp_elm mp) {..<unat (mp_num_obj mp)}"
proof (rule inj_onI, unfold lessThan_iff)
  fix m n assume mn: "m < unat (mp_num_obj mp)" "n < unat (mp_num_obj mp)" "mp_elm mp m = mp_elm mp n"
  let ?P = "per_chunk mp" and ?r = "\<lambda>k. chunk_region mp (mp_elm_vector mp ! k)"
  note p = mp_elm_pos [OF g mn(1)] mp_elm_pos [OF g mn(2)]
  have "unat (mp_elm mp m) \<in> ?r (m div ?P) \<inter> ?r (n div ?P)"
    using mp_elm_unat(2) [OF g mn(1)] mp_elm_unat(2) [OF g mn(2)] mn(3) by simp
  then have d: "m div ?P = n div ?P"
    using mp_geomD(9) [OF g p(1,3)] by (metis Int_commute empty_iff)
  have "0 < unat (mp_elm_size mp)" using mp_geomD(3) [OF g] by (simp add: word_less_nat_alt)
  then have "m mod ?P = n mod ?P"
    using mp_elm_unat(1) [OF g mn(1)] mp_elm_unat(1) [OF g mn(2)] mn(3) d by simp
  then show "m = n" using d by (metis div_mult_mod_eq)
qed

section \<open>Growing the pool\<close>

lemma elm_addr_frame [simp]:
  "elm_addr (mp\<lparr>mp_head := h\<rparr>) = elm_addr mp" "elm_addr (mp\<lparr>me_gen_count := g\<rparr>) = elm_addr mp"
  "elm_addr (mp\<lparr>me_index := x\<rparr>) = elm_addr mp" "elm_addr (mp\<lparr>mp_num_obj_inuse := u\<rparr>) = elm_addr mp"
  "elm_addr (mp\<lparr>mp_num_obj := u\<rparr>) = elm_addr mp" "elm_addr (mp\<lparr>mp_elm_vector := v\<rparr>) = elm_addr mp"
  "elm_addr (mp\<lparr>mp_elm_vector_free := k\<rparr>) = elm_addr mp"
  by (simp_all add: elm_addr_def fun_eq_iff)

lemma fold_chunk_init:
  fixes c :: u64
  shows "inj_on (\<lambda>i. elm_addr mp c (of_nat i)) {..<n} \<Longrightarrow>
     (\<exists>g x. fold (chunk_elm_init c) (map of_nat [0..<n]) mp =
        mp\<lparr>mp_head := rev (map (\<lambda>i. elm_addr mp c (of_nat i)) [0..<n]) @ mp_head mp,
           me_gen_count := g, me_index := x\<rparr> \<and>
      (\<forall>i < n. x (elm_addr mp c (of_nat i)) = mp_num_obj mp + of_nat i) \<and>
      (\<forall>a. a \<notin> (\<lambda>i. elm_addr mp c (of_nat i)) ` {..<n} \<longrightarrow> x a = me_index mp a))"
proof (induction n)
  case 0
  show ?case by (intro exI [of _ "me_gen_count mp"] exI [of _ "me_index mp"]) simp
next
  case (Suc n)
  let ?e = "\<lambda>i. elm_addr mp c (of_nat i)"
  have inj: "inj_on ?e {..<n}" "?e n \<notin> ?e ` {..<n}"
    using Suc.prems by (auto simp: lessThan_Suc)
  obtain g x where f: "fold (chunk_elm_init c) (map of_nat [0..<n]) mp =
        mp\<lparr>mp_head := rev (map ?e [0..<n]) @ mp_head mp, me_gen_count := g, me_index := x\<rparr>"
    and x: "\<forall>i < n. x (?e i) = mp_num_obj mp + of_nat i" "\<forall>a. a \<notin> ?e ` {..<n} \<longrightarrow> x a = me_index mp a"
    using Suc.IH [OF inj(1)] by blast
  have "fold (chunk_elm_init c) (map of_nat [0..<Suc n]) mp =
      mp\<lparr>mp_head := rev (map ?e [0..<Suc n]) @ mp_head mp, me_gen_count := g(?e n := 0),
         me_index := x(?e n := mp_num_obj mp + of_nat n)\<rparr>"
    using f by (simp add: chunk_elm_init_def Let_def)
  moreover have "\<forall>i < Suc n. (x(?e n := mp_num_obj mp + of_nat n)) (?e i) = mp_num_obj mp + of_nat i"
  proof (intro allI impI)
    fix i assume "i < Suc n"
    then consider "i = n" | "i < n" "?e i \<noteq> ?e n" using inj(2) by (metis imageI lessThan_iff less_SucE)
    then show "(x(?e n := mp_num_obj mp + of_nat n)) (?e i) = mp_num_obj mp + of_nat i"
      using x(1) by cases simp_all
  qed
  moreover have "\<forall>a. a \<notin> ?e ` {..<Suc n} \<longrightarrow> (x(?e n := mp_num_obj mp + of_nat n)) a = me_index mp a"
    using x(2) by (auto simp: lessThan_Suc)
  ultimately show ?case by blast
qed

lemma chunk_elms_inj:
  assumes "unat c + chunk_bytes mp \<le> 2 ^ 64" "mp_elm_offset mp < mp_elm_size mp" "chunk_bytes mp < 2 ^ 32"
  shows "inj_on (\<lambda>i. elm_addr mp c (of_nat i)) {..<per_chunk mp}"
proof (rule inj_onI, unfold lessThan_iff)
  fix i j assume "i < per_chunk mp" "j < per_chunk mp" "elm_addr mp c (of_nat i) = elm_addr mp c (of_nat j)"
  then have "i * unat (mp_elm_size mp) = j * unat (mp_elm_size mp)"
    using elm_addr_unat(1) [OF _ assms, of i] elm_addr_unat(1) [OF _ assms, of j] by auto
  moreover have "0 < unat (mp_elm_size mp)" using assms(2) by (simp add: word_less_nat_alt)
  ultimately show "i = j" by simp
qed

lemma mp_no_wrap:
  assumes "mp_geom mp"
  shows "unat (mp_num_obj mp + mp_num_obj_per_chunk mp) = unat (mp_num_obj mp) + per_chunk mp"
proof (cases "unat (mp_num_obj_max_total mp) = 0")
  case True
  then have "mp_num_obj mp = 0" using mp_geomD(7) [OF assms] by (simp add: unat_eq_0)
  then show ?thesis by simp
next
  case False
  then have "per_chunk mp \<le> unat (mp_num_obj_max_total mp)"
    using mp_geomD(1) [OF assms] by (simp add: dvd_imp_le)
  then show ?thesis using mp_geomD(2,7) [OF assms] by (intro unat_plus_no_wrap) simp
qed

text \<open>The pool after a successful growth by the chunk \<open>c\<close>.\<close>

definition mp_grown :: "u64 \<Rightarrow> mpool \<Rightarrow> mpool \<Rightarrow> bool" where
  "mp_grown c mp mp' \<longleftrightarrow>
     (\<exists>g x. mp' = mp\<lparr>mp_head := rev (map (\<lambda>i. elm_addr mp c (of_nat i)) [0..<per_chunk mp]) @ mp_head mp,
            me_gen_count := g, me_index := x,
            mp_elm_vector := (mp_elm_vector mp)[mp_elm_vector_free mp := c],
            mp_elm_vector_free := Suc (mp_elm_vector_free mp),
            mp_num_obj := mp_num_obj mp + mp_num_obj_per_chunk mp\<rparr> \<and>
      (\<forall>i < per_chunk mp. x (elm_addr mp c (of_nat i)) = mp_num_obj mp + of_nat i) \<and>
      (\<forall>a. a \<notin> (\<lambda>i. elm_addr mp c (of_nat i)) ` {..<per_chunk mp} \<longrightarrow> x a = me_index mp a))"

lemma mp_room:
  assumes "mp_geom mp" "unat (mp_num_obj mp) + per_chunk mp \<le> unat (mp_num_obj_max_total mp)"
  shows "mp_elm_vector_free mp < length (mp_elm_vector mp)"
proof -
  have "Suc (mp_elm_vector_free mp) * per_chunk mp \<le> unat (mp_num_obj_max_total mp)"
    using assms mp_geomD(6) [OF assms(1)] by simp
  then have "Suc (mp_elm_vector_free mp) \<le> unat (mp_num_obj_max_total mp) div per_chunk mp"
    using mp_geomD(10) [OF assms(1)] by (simp add: less_eq_div_iff_mult_less_eq)
  then show ?thesis using mp_geomD(5) [OF assms(1)] by simp
qed

lemma allocate_chunk_cases:
  assumes "mp_geom mp" "\<And>c. malloc = Some c \<Longrightarrow> malloc_fresh mp c"
  shows "(\<exists>mp' c. malloc = Some c \<and> unat (mp_num_obj mp) + per_chunk mp \<le> unat (mp_num_obj_max_total mp) \<and>
            psmi_mpool_allocate_chunk malloc mp = Inr (PSM_OK, mp') \<and> mp_grown c mp mp') \<or>
         (malloc = None \<or> unat (mp_num_obj mp) + per_chunk mp > unat (mp_num_obj_max_total mp)) \<and>
           psmi_mpool_allocate_chunk malloc mp = Inr (PSM_NO_MEMORY, mp)"
proof -
  let ?full = "unat (mp_num_obj mp) + per_chunk mp > unat (mp_num_obj_max_total mp)"
  have full: "mp_num_obj mp + mp_num_obj_per_chunk mp > mp_num_obj_max_total mp \<longleftrightarrow> ?full"
    by (simp add: word_less_nat_alt mp_no_wrap [OF assms(1)])
  have nz: "mp_num_obj_per_chunk mp \<noteq> 0" using mp_geomD(10) [OF assms(1)] by auto
  show ?thesis
  proof (cases "malloc = None \<or> ?full")
    case True
    then show ?thesis using full nz by (auto simp: psmi_mpool_allocate_chunk_def Let_def)
  next
    case False
    then obtain c where c: "malloc = Some c" by auto
    then have "malloc_fresh mp c" using assms(2) by simp
    then have inj: "inj_on (\<lambda>i. elm_addr mp c (of_nat i)) {..<per_chunk mp}"
      using mp_geomD(3,4) [OF assms(1)] by (intro chunk_elms_inj) (auto simp: malloc_fresh_def)
    obtain g x where f: "fold (chunk_elm_init c) (map of_nat [0..<per_chunk mp]) mp =
        mp\<lparr>mp_head := rev (map (\<lambda>i. elm_addr mp c (of_nat i)) [0..<per_chunk mp]) @ mp_head mp,
           me_gen_count := g, me_index := x\<rparr>"
      and x: "\<forall>i < per_chunk mp. x (elm_addr mp c (of_nat i)) = mp_num_obj mp + of_nat i"
        "\<forall>a. a \<notin> (\<lambda>i. elm_addr mp c (of_nat i)) ` {..<per_chunk mp} \<longrightarrow> x a = me_index mp a"
      using fold_chunk_init [OF inj] by blast
    have "mp_elm_vector_free mp < length (mp_elm_vector mp)" using False mp_room [OF assms(1)] by simp
    then have "\<exists>mp'. psmi_mpool_allocate_chunk malloc mp = Inr (PSM_OK, mp') \<and> mp_grown c mp mp'"
      using x full False nz unfolding psmi_mpool_allocate_chunk_def mp_grown_def c
      by (simp add: Let_def f) blast
    then show ?thesis using c False by auto
  qed
qed

lemma mp_grown_fields:
  assumes "mp_grown c mp mp'"
  shows "mp_elm_vector_free mp' = Suc (mp_elm_vector_free mp)" "mp_num_obj_per_chunk mp' = mp_num_obj_per_chunk mp"
    "mp_elm_size mp' = mp_elm_size mp" "mp_elm_offset mp' = mp_elm_offset mp"
    "mp_num_obj_max_total mp' = mp_num_obj_max_total mp" "mp_vector_shift mp' = mp_vector_shift mp"
    "mp_elm_vector mp' = (mp_elm_vector mp)[mp_elm_vector_free mp := c]"
    "mp_num_obj mp' = mp_num_obj mp + mp_num_obj_per_chunk mp" "mp_num_obj_inuse mp' = mp_num_obj_inuse mp"
    "mp_head mp' = rev (map (\<lambda>i. elm_addr mp c (of_nat i)) [0..<per_chunk mp]) @ mp_head mp"
    "elm_addr mp' = elm_addr mp" "chunk_region mp' = chunk_region mp" "mp_non_empty_cb mp' = mp_non_empty_cb mp"
  using assms by (auto simp: mp_grown_def chunk_region_def fun_eq_iff)

lemma mp_grown_geom:
  assumes g: "mp_geom mp" and gr: "mp_grown c mp mp'" and fr: "malloc_fresh mp c"
    and room: "unat (mp_num_obj mp) + per_chunk mp \<le> unat (mp_num_obj_max_total mp)"
  shows "mp_geom mp'"
proof -
  note D = mp_geomD [OF g] and F = mp_grown_fields [OF gr]
  let ?v = "mp_elm_vector mp" and ?f = "mp_elm_vector_free mp"
  have len: "?f < length ?v" using mp_room [OF g room] .
  have n: "unat (mp_num_obj mp') = Suc ?f * per_chunk mp"
    using mp_no_wrap [OF g] D(6) F by simp
  have "mp_num_obj mp' \<le> mp_num_obj_max_total mp"
    using mp_no_wrap [OF g] room F by (simp add: word_le_nat_alt)
  moreover have "unat (mp_elm_vector mp' ! k) + chunk_bytes mp \<le> 2 ^ 64" if "k < Suc ?f" for k
    using that D(8) [of k] fr len F(7) by (cases "k = ?f") (auto simp: malloc_fresh_def)
  moreover have "chunk_region mp (mp_elm_vector mp' ! j) \<inter> chunk_region mp (mp_elm_vector mp' ! k) = {}"
    if "k < Suc ?f" "j < k" for j k
    using that D(9) [of k j] fr len F(7) by (cases "k = ?f") (auto simp: malloc_fresh_def)
  ultimately show ?thesis
    using D(1-5) n g unfolding mp_geom_def F(1-6,12) by (simp only: F(7) length_list_update) blast
qed

lemma mp_grown_elm_old:
  assumes "mp_geom mp" "mp_grown c mp mp'" "n < unat (mp_num_obj mp)"
  shows "mp_elm mp' n = mp_elm mp n"
  using mp_elm_pos(1) [OF assms(1,3)] mp_grown_fields [OF assms(2)] by (simp add: mp_elm_def)

lemma mp_grown_elm_new:
  assumes "mp_geom mp" "mp_grown c mp mp'" "i < per_chunk mp"
    "unat (mp_num_obj mp) + per_chunk mp \<le> unat (mp_num_obj_max_total mp)"
  shows "mp_elm mp' (unat (mp_num_obj mp) + i) = elm_addr mp c (of_nat i)"
proof -
  have "mp_elm_vector_free mp < length (mp_elm_vector mp)" using mp_room assms by blast
  then show ?thesis using mp_grown_fields [OF assms(2)] mp_geomD(6,10) [OF assms(1)] assms(3)
    by (simp add: mp_elm_def)
qed

lemma mp_grown_elms:
  assumes "mp_geom mp" "mp_grown c mp mp'"
    "unat (mp_num_obj mp) + per_chunk mp \<le> unat (mp_num_obj_max_total mp)"
  shows "mp_elm mp' ` {..<unat (mp_num_obj mp')} =
    mp_elm mp ` {..<unat (mp_num_obj mp)} \<union> (\<lambda>i. elm_addr mp c (of_nat i)) ` {..<per_chunk mp}"
proof -
  let ?N = "unat (mp_num_obj mp)" and ?P = "per_chunk mp"
  have n: "unat (mp_num_obj mp') = ?N + ?P"
    using mp_no_wrap [OF assms(1)] mp_grown_fields(8) [OF assms(2)] by simp
  have "mp_elm mp' ` {..<?N + ?P} = mp_elm mp' ` {..<?N} \<union> (\<lambda>i. mp_elm mp' (?N + i)) ` {..<?P}"
    by (simp only: lessThan_add_image image_Un image_image)
  moreover have "mp_elm mp' ` {..<?N} = mp_elm mp ` {..<?N}"
    using mp_grown_elm_old [OF assms(1,2)] by (intro image_cong) simp_all
  moreover have "(\<lambda>i. mp_elm mp' (?N + i)) ` {..<?P} = (\<lambda>i. elm_addr mp c (of_nat i)) ` {..<?P}"
    using mp_grown_elm_new [OF assms(1,2) _ assms(3)] by (intro image_cong) simp_all
  ultimately show ?thesis by (simp only: n)
qed

lemma fresh_chunk_disjoint:
  assumes "mp_geom mp" "malloc_fresh mp c"
  shows "mp_elm mp ` {..<unat (mp_num_obj mp)} \<inter> (\<lambda>i. elm_addr mp c (of_nat i)) ` {..<per_chunk mp} = {}"
proof -
  have "mp_elm mp n \<noteq> elm_addr mp c (of_nat i)" if "n < unat (mp_num_obj mp)" "i < per_chunk mp" for n i
  proof -
    let ?k = "n div per_chunk mp"
    have "unat (mp_elm mp n) \<in> chunk_region mp (mp_elm_vector mp ! ?k)"
      using mp_elm_unat(2) [OF assms(1) that(1)] .
    moreover have "unat (elm_addr mp c (of_nat i)) \<in> chunk_region mp c"
      using elm_addr_unat(2) that(2) assms mp_geomD(3,4) [OF assms(1)] by (simp add: malloc_fresh_def)
    ultimately show ?thesis
      using assms(2) mp_elm_pos(1) [OF assms(1) that(1)] unfolding malloc_fresh_def by (metis IntI empty_iff)
  qed
  then show ?thesis by auto
qed

lemma mp_grown_index:
  assumes inv: "mpool_inv mp" and gr: "mp_grown c mp mp'" and fr: "malloc_fresh mp c"
    and room: "unat (mp_num_obj mp) + per_chunk mp \<le> unat (mp_num_obj_max_total mp)"
    and m: "m < unat (mp_num_obj mp')"
  shows "me_index mp' (mp_elm mp' m) = of_nat m"
proof -
  let ?N = "unat (mp_num_obj mp)" and ?P = "per_chunk mp" and ?new = "\<lambda>i. elm_addr mp c (of_nat i)"
  have g: "mp_geom mp" using inv by (simp add: mpool_inv_def)
  have x: "\<forall>i < ?P. me_index mp' (?new i) = mp_num_obj mp + of_nat i"
    "\<forall>a. a \<notin> ?new ` {..<?P} \<longrightarrow> me_index mp' a = me_index mp a"
    using gr by (auto simp: mp_grown_def)
  show ?thesis
  proof (cases "m < ?N")
    case True
    then have "mp_elm mp m \<notin> ?new ` {..<?P}" using fresh_chunk_disjoint [OF g fr] by blast
    then have "me_index mp' (mp_elm mp m) = me_index mp (mp_elm mp m)" using x(2) by simp
    then show ?thesis using True inv mp_grown_elm_old [OF g gr True] by (simp add: mpool_inv_def)
  next
    case False
    have "m < ?N + ?P" using m mp_no_wrap [OF g] mp_grown_fields(8) [OF gr] by simp
    then obtain i where i: "m = ?N + i" "i < ?P"
      using False by (metis add_diff_inverse_nat nat_add_left_cancel_less)
    then show ?thesis using x(1) mp_grown_elm_new [OF g gr i(2) room] by simp
  qed
qed

lemma mp_grown_head:
  assumes inv: "mpool_inv mp" and gr: "mp_grown c mp mp'" and fr: "malloc_fresh mp c"
  shows "distinct (mp_head mp')" "length (mp_head mp') = length (mp_head mp) + per_chunk mp"
    "set (mp_head mp') = set (mp_head mp) \<union> (\<lambda>i. elm_addr mp c (of_nat i)) ` {..<per_chunk mp}"
proof -
  let ?new = "\<lambda>i. elm_addr mp c (of_nat i)"
  have g: "mp_geom mp" using inv by (simp add: mpool_inv_def)
  note F = mp_grown_fields(10) [OF gr]
  have "inj_on ?new {..<per_chunk mp}"
    using fr mp_geomD(3,4) [OF g] by (intro chunk_elms_inj) (auto simp: malloc_fresh_def)
  then have "distinct (map ?new [0..<per_chunk mp])" by (simp add: distinct_map atLeast0LessThan)
  moreover have "set (map ?new [0..<per_chunk mp]) = ?new ` {..<per_chunk mp}"
    by (simp add: atLeast0LessThan)
  moreover have "set (mp_head mp) \<inter> ?new ` {..<per_chunk mp} = {}"
    using inv fresh_chunk_disjoint [OF g fr] unfolding mpool_inv_def by blast
  ultimately show "distinct (mp_head mp')" "length (mp_head mp') = length (mp_head mp) + per_chunk mp"
    "set (mp_head mp') = set (mp_head mp) \<union> ?new ` {..<per_chunk mp}"
    using inv unfolding F mpool_inv_def by (simp_all only: distinct_append distinct_rev set_rev set_append
        length_append length_rev length_map) (auto simp only: length_upt)
qed

lemma mp_grown_inv:
  assumes inv: "mpool_inv mp" and gr: "mp_grown c mp mp'" and fr: "malloc_fresh mp c"
    and room: "unat (mp_num_obj mp) + per_chunk mp \<le> unat (mp_num_obj_max_total mp)"
  shows "mpool_inv mp'" "mp_inuse mp' = mp_inuse mp"
proof -
  have g: "mp_geom mp" using inv by (simp add: mpool_inv_def)
  note H = mp_grown_head [OF inv gr fr] and E = mp_grown_elms [OF g gr room]
  have "set (mp_head mp') \<subseteq> mp_elm mp' ` {..<unat (mp_num_obj mp')}"
    using inv unfolding E H(3) mpool_inv_def by blast
  moreover have "unat (mp_num_obj_inuse mp') + length (mp_head mp') = unat (mp_num_obj mp')"
    using inv mp_no_wrap [OF g] H(2) mp_grown_fields(8,9) [OF gr] by (simp add: mpool_inv_def)
  ultimately show "mpool_inv mp'"
    using mp_grown_geom [OF g gr fr room] H(1) mp_grown_index [OF inv gr fr room]
    unfolding mpool_inv_def by blast
  have "mp_elm mp ` {..<unat (mp_num_obj mp)} \<inter> (\<lambda>i. elm_addr mp c (of_nat i)) ` {..<per_chunk mp} = {}"
    using fresh_chunk_disjoint [OF g fr] .
  then show "mp_inuse mp' = mp_inuse mp" unfolding mp_inuse_def E H(3) by (intro arg_cong2 [where f = image] refl) blast
qed

section \<open>Taking and returning objects\<close>

lemma mp_elm_frame [simp]:
  "mp_elm (mp\<lparr>mp_head := h\<rparr>) = mp_elm mp" "mp_elm (mp\<lparr>me_gen_count := g\<rparr>) = mp_elm mp"
  "mp_elm (mp\<lparr>mp_num_obj_inuse := u\<rparr>) = mp_elm mp"
  by (simp_all add: mp_elm_def fun_eq_iff)

lemma mp_geom_frame [simp]:
  "mp_geom (mp\<lparr>mp_head := h\<rparr>) = mp_geom mp" "mp_geom (mp\<lparr>me_gen_count := g\<rparr>) = mp_geom mp"
  "mp_geom (mp\<lparr>mp_num_obj_inuse := u\<rparr>) = mp_geom mp"
  by (simp_all add: mp_geom_def chunk_region_def)

lemma malloc_fresh_frame [simp]:
  "malloc_fresh (mp\<lparr>mp_head := h\<rparr>) = malloc_fresh mp" "malloc_fresh (mp\<lparr>me_gen_count := g\<rparr>) = malloc_fresh mp"
  "malloc_fresh (mp\<lparr>mp_num_obj_inuse := u\<rparr>) = malloc_fresh mp"
  by (simp_all add: malloc_fresh_def chunk_region_def fun_eq_iff)

lemma mpool_invD:
  assumes "mpool_inv mp"
  shows "mp_geom mp" "distinct (mp_head mp)" "set (mp_head mp) \<subseteq> mp_elm mp ` {..<unat (mp_num_obj mp)}"
    "unat (mp_num_obj_inuse mp) + length (mp_head mp) = unat (mp_num_obj mp)"
    "n < unat (mp_num_obj mp) \<Longrightarrow> me_index mp (mp_elm mp n) = of_nat n"
    "unat (mp_num_obj_inuse mp) < 2 ^ 31"
  using assms mp_geomD(2,7) [of mp] unfolding mpool_inv_def by auto

lemma mpool_card: "mpool_inv mp \<Longrightarrow> card (mp_inuse mp) = unat (mp_num_obj_inuse mp)"
proof -
  assume inv: "mpool_inv mp"
  let ?E = "mp_elm mp ` {..<unat (mp_num_obj mp)}"
  have "card (?E - set (mp_head mp)) = card ?E - length (mp_head mp)"
    using mpool_invD(2,3) [OF inv] by (simp add: card_Diff_subset distinct_card)
  also have "card ?E = unat (mp_num_obj mp)" using mp_elm_inj [OF mpool_invD(1) [OF inv]] by (simp add: card_image)
  finally show ?thesis
    using mpool_invD(4) [OF inv] unfolding mp_inuse_def by (subst card_image) (auto intro: inj_onI)
qed

text \<open>The pool after \<open>obj\<close>'s element left, or joined, the free list.\<close>

abbreviation mp_pop :: "mpool \<Rightarrow> mpool" where
  "mp_pop mp \<equiv> mp\<lparr>mp_head := tl (mp_head mp), mp_num_obj_inuse := mp_num_obj_inuse mp + 1\<rparr>"

lemma mp_pop_inv:
  assumes inv: "mpool_inv mp" and ne: "mp_head mp = me # rest"
  shows "mpool_inv (mp_pop mp)" "me + sizeof_mpool_element \<notin> mp_inuse mp"
    "mp_inuse (mp_pop mp) = insert (me + sizeof_mpool_element) (mp_inuse mp)"
proof -
  note D = mpool_invD [OF inv]
  have "mp_num_obj_inuse mp \<noteq> - 1"
    using D(6) by (auto simp: unsigned_minus_1_eq_mask mask_eq_exp_minus_1)
  then have "unat (mp_num_obj_inuse mp + 1) + length rest = unat (mp_num_obj mp)"
    using unat_inc [of "mp_num_obj_inuse mp"] D(4) ne by simp
  then show "mpool_inv (mp_pop mp)" using D(1-3,5) ne unfolding mpool_inv_def by auto
  show "me + sizeof_mpool_element \<notin> mp_inuse mp" using ne by (auto simp: mp_inuse_def)
  have "mp_elm mp ` {..<unat (mp_num_obj mp)} - set rest =
      insert me (mp_elm mp ` {..<unat (mp_num_obj mp)} - set (mp_head mp))"
    using D(2,3) ne by auto
  then show "mp_inuse (mp_pop mp) = insert (me + sizeof_mpool_element) (mp_inuse mp)"
    by (simp add: mp_inuse_def ne)
qed

definition mp_exhausted :: "mpool \<Rightarrow> bool" where
  "mp_exhausted mp \<longleftrightarrow> unat (mp_num_obj_inuse mp) = unat (mp_num_obj_max_total mp)"

lemma full_iff_exhausted:
  assumes "mpool_inv mp" "mp_head mp = []"
  shows "unat (mp_num_obj mp) + per_chunk mp > unat (mp_num_obj_max_total mp) \<longleftrightarrow> mp_exhausted mp"
proof -
  note D = mp_geomD [OF mpool_invD(1) [OF assms(1)]]
  obtain k where k: "unat (mp_num_obj_max_total mp) = per_chunk mp * k" using D(1) by (rule dvdE)
  have "mp_elm_vector_free mp \<le> k" using D(6,7,10) k by (simp add: mult.commute)
  moreover have "unat (mp_num_obj mp) + per_chunk mp = per_chunk mp * Suc (mp_elm_vector_free mp)"
    using D(6) by (simp add: algebra_simps)
  ultimately have "unat (mp_num_obj mp) + per_chunk mp > unat (mp_num_obj_max_total mp) \<longleftrightarrow>
      k < Suc (mp_elm_vector_free mp)" unfolding k using D(10) by (simp del: mult_Suc_right)
  also have "\<dots> \<longleftrightarrow> mp_elm_vector_free mp = k" using \<open>mp_elm_vector_free mp \<le> k\<close> by auto
  also have "\<dots> \<longleftrightarrow> unat (mp_num_obj mp) = unat (mp_num_obj_max_total mp)"
    using D(6,10) k by (auto simp: mult.commute)
  finally show ?thesis using mpool_invD(4) [OF assms(1)] assms(2) by (simp add: mp_exhausted_def)
qed

definition malloc_ok :: "u64 option \<Rightarrow> mpool \<Rightarrow> bool" where
  "malloc_ok malloc mp \<longleftrightarrow> (\<forall>c. malloc = Some c \<longrightarrow> malloc_fresh mp c)"

lemma get_cases:
  assumes inv: "mpool_inv mp" and ok: "malloc_ok malloc mp"
  obtains (object) obj mp' where "psmi_mpool_get malloc mp = Inr (Some obj, mp')" "mpool_inv mp'"
      "obj \<notin> mp_inuse mp" "mp_inuse mp' = insert obj (mp_inuse mp)"
      "\<not> mp_exhausted mp" "malloc \<noteq> None \<or> mp_head mp \<noteq> []"
  | (null) "psmi_mpool_get malloc mp = Inr (None, mp)" "mp_head mp = []" "malloc = None \<or> mp_exhausted mp"
proof (cases "mp_head mp")
  case (Cons me rest)
  have "psmi_mpool_get malloc mp = Inr (Some (me + sizeof_mpool_element), mp_pop mp)"
    by (simp add: psmi_mpool_get_def Cons)
  moreover have "\<not> mp_exhausted mp"
    using mpool_invD(4) [OF inv] Cons mp_geomD(7) [OF mpool_invD(1) [OF inv]] by (simp add: mp_exhausted_def)
  ultimately show ?thesis using mp_pop_inv [OF inv Cons] Cons by (intro object) simp_all
next
  case Nil
  note full = full_iff_exhausted [OF inv Nil]
  have "(\<exists>mp' c. malloc = Some c \<and> unat (mp_num_obj mp) + per_chunk mp \<le> unat (mp_num_obj_max_total mp) \<and>
            psmi_mpool_allocate_chunk malloc mp = Inr (PSM_OK, mp') \<and> mp_grown c mp mp') \<or>
         (malloc = None \<or> unat (mp_num_obj mp) + per_chunk mp > unat (mp_num_obj_max_total mp)) \<and>
           psmi_mpool_allocate_chunk malloc mp = Inr (PSM_NO_MEMORY, mp)"
    using ok by (intro allocate_chunk_cases [OF mpool_invD(1) [OF inv]]) (simp add: malloc_ok_def)
  then consider mp' c where "malloc = Some c" "\<not> mp_exhausted mp"
        "unat (mp_num_obj mp) + per_chunk mp \<le> unat (mp_num_obj_max_total mp)"
        "psmi_mpool_allocate_chunk malloc mp = Inr (PSM_OK, mp')" "mp_grown c mp mp'"
    | "malloc = None \<or> mp_exhausted mp" "psmi_mpool_allocate_chunk malloc mp = Inr (PSM_NO_MEMORY, mp)"
    using full by (metis not_le)
  then show ?thesis
  proof cases
    case 1
    have fr: "malloc_fresh mp c" using ok 1(1) by (simp add: malloc_ok_def)
    note G = mp_grown_inv [OF inv 1(5) fr 1(3)]
    have "0 < length (mp_head mp')"
      using mp_grown_head(2) [OF inv 1(5) fr] mp_geomD(10) [OF mpool_invD(1) [OF inv]] by simp
    then obtain me rest where h: "mp_head mp' = me # rest" by (cases "mp_head mp'") auto
    have "psmi_mpool_get malloc mp = Inr (Some (me + sizeof_mpool_element), mp_pop mp')"
      by (simp add: psmi_mpool_get_def Nil 1(4) h)
    then show ?thesis using object mp_pop_inv [OF G(1) h] G(2) 1(1,2) by simp
  next
    case 2
    then show ?thesis using null Nil by (simp add: psmi_mpool_get_def)
  qed
qed

lemma put_inv:
  assumes inv: "mpool_inv mp" and obj: "obj \<in> mp_inuse mp"
  shows "mpool_inv (snd (psmi_mpool_put obj mp))" "mp_inuse (snd (psmi_mpool_put obj mp)) = mp_inuse mp - {obj}"
    "fst (psmi_mpool_put obj mp) \<longleftrightarrow> mp_non_empty_cb mp \<and> mp_exhausted mp"
proof -
  note D = mpool_invD [OF inv]
  let ?me = "obj - sizeof_mpool_element" and ?E = "mp_elm mp ` {..<unat (mp_num_obj mp)}"
  have me: "?me \<in> ?E" "?me \<notin> set (mp_head mp)" using obj by (auto simp: mp_inuse_def)
  have "finite (mp_inuse mp)" by (simp add: mp_inuse_def)
  then have "mp_num_obj_inuse mp \<noteq> 0" using mpool_card [OF inv] obj by (auto simp: card_gt_0_iff)
  then have n: "unat (mp_num_obj_inuse mp - 1) + Suc (length (mp_head mp)) = unat (mp_num_obj mp)"
    using unat_dec [of "mp_num_obj_inuse mp"] D(4) unat_gt_0 [of "mp_num_obj_inuse mp"] by simp
  then show "mpool_inv (snd (psmi_mpool_put obj mp))"
    using D(1-3,5) me unfolding mpool_inv_def by (simp add: psmi_mpool_put_def Let_def)
  show "mp_inuse (snd (psmi_mpool_put obj mp)) = mp_inuse mp - {obj}"
    unfolding mp_inuse_def psmi_mpool_put_def Let_def by force
  show "fst (psmi_mpool_put obj mp) \<longleftrightarrow> mp_non_empty_cb mp \<and> mp_exhausted mp"
    by (simp add: psmi_mpool_put_def Let_def mp_exhausted_def word_unat_eq_iff)
qed

section \<open>Finding objects by index\<close>

lemma find_elm:
  assumes g: "mp_geom mp" and n: "n < unat (mp_num_obj mp)"
  shows "psmi_mpool_find_obj_by_index mp (int n) = Inr (Some (mp_elm mp n + sizeof_mpool_element))"
proof -
  note D = mp_geomD [OF g]
  have sh: "per_chunk mp = 2 ^ mp_vector_shift mp" using g by (simp add: mp_geom_def)
  have k: "n div per_chunk mp < length (mp_elm_vector mp)"
    unfolding D(5) using n D(7) by (intro less_mult_imp_div_less) (simp only: dvd_div_mult_self [OF D(1)])
  have lt: "int n < 0 \<or> int n \<ge> uint (mp_num_obj mp) \<longleftrightarrow> False" 
    using n by (metis not_le of_nat_0_le_iff of_nat_less_iff uint_nat)
  show ?thesis
    unfolding psmi_mpool_find_obj_by_index_def mp_elm_def lt if_False Let_def nat_int of_int_of_nat_eq
      word_mod_pow2 [OF sh] sh [symmetric] if_P [OF k] by (rule refl)
qed

lemma find_by_index:
  assumes inv: "mpool_inv mp" and obj: "obj \<in> mp_inuse mp"
  shows "psmi_mpool_find_obj_by_index mp (uint (psmi_mpool_get_obj_index obj mp)) = Inr (Some obj)"
proof -
  obtain n where n: "n < unat (mp_num_obj mp)" "obj = mp_elm mp n + sizeof_mpool_element"
    using obj by (auto simp: mp_inuse_def)
  have "psmi_mpool_get_obj_index obj mp = of_nat n"
    using mpool_invD(5) [OF inv n(1)] n(2) by (simp add: psmi_mpool_get_obj_index_def)
  then have "uint (psmi_mpool_get_obj_index obj mp) = int n" using unat_of_nat_below [OF n(1)] by (simp only: uint_nat)
  then show ?thesis using find_elm [OF mpool_invD(1) [OF inv] n(1)] n(2) by (simp only:)
qed

lemma find_index_range:
  assumes inv: "mpool_inv mp" and i: "0 \<le> i" "i < uint (mp_num_obj mp)"
  shows "\<exists>obj. psmi_mpool_find_obj_by_index mp i = Inr (Some obj) \<and> uint (psmi_mpool_get_obj_index obj mp) = i"
proof -
  obtain n where n: "i = int n" "n < unat (mp_num_obj mp)"
    using i by (metis nonneg_int_cases of_nat_less_iff uint_nat)
  have "uint (psmi_mpool_get_obj_index (mp_elm mp n + sizeof_mpool_element) mp) = int n"
    using mpool_invD(5) [OF inv n(2)] unat_of_nat_below [OF n(2)]
    by (simp only: psmi_mpool_get_obj_index_def add_diff_cancel_right' uint_nat)
  then show ?thesis using find_elm [OF mpool_invD(1) [OF inv] n(2)] n(1) by (simp only:) blast
qed

section \<open>The interface: a pool of objects\<close>

text \<open>
  What a client relies on. \<open>held p\<close> is the set of objects handed out and not yet returned, \<open>'m\<close> is
  what the memory allocator does during the call and \<open>mem_ok\<close> its contract. A client's history is
  a sequence of calls; the client's side of the contract is to return only what it holds.
\<close>

inductive pool_hist ::
  "('m \<Rightarrow> 'p \<Rightarrow> ('o option \<times> 'p) run) \<Rightarrow> ('o \<Rightarrow> 'p \<Rightarrow> bool \<times> 'p) \<Rightarrow> ('m \<Rightarrow> 'p \<Rightarrow> bool) \<Rightarrow>
   'p \<Rightarrow> 'o list \<Rightarrow> 'p \<Rightarrow> bool"
  for get put mem_ok p0 where
  start: "pool_hist get put mem_ok p0 [] p0"
| take: "pool_hist get put mem_ok p0 hs p \<Longrightarrow> mem_ok m p \<Longrightarrow> get m p = Inr (Some obj, p') \<Longrightarrow>
     pool_hist get put mem_ok p0 (obj # hs) p'"
| refused: "pool_hist get put mem_ok p0 hs p \<Longrightarrow> mem_ok m p \<Longrightarrow> get m p = Inr (None, p') \<Longrightarrow>
     pool_hist get put mem_ok p0 hs p'"
| give: "pool_hist get put mem_ok p0 hs p \<Longrightarrow> obj \<in> set hs \<Longrightarrow>
     pool_hist get put mem_ok p0 (remove1 obj hs) (snd (put obj p))"

locale object_pool =
  fixes inv :: "'p \<Rightarrow> bool"
    and held :: "'p \<Rightarrow> 'o set"
    and get :: "'m \<Rightarrow> 'p \<Rightarrow> ('o option \<times> 'p) run"
    and put :: "'o \<Rightarrow> 'p \<Rightarrow> bool \<times> 'p"
    and mem_ok :: "'m \<Rightarrow> 'p \<Rightarrow> bool"
  assumes get_returns: "inv p \<Longrightarrow> mem_ok m p \<Longrightarrow> \<exists>r. get m p = Inr r"
    and get_object: "inv p \<Longrightarrow> mem_ok m p \<Longrightarrow> get m p = Inr (Some obj, p') \<Longrightarrow>
       inv p' \<and> obj \<notin> held p \<and> held p' = insert obj (held p)"
    and get_null: "inv p \<Longrightarrow> mem_ok m p \<Longrightarrow> get m p = Inr (None, p') \<Longrightarrow>
       inv p' \<and> held p' = held p"
    and put_object: "inv p \<Longrightarrow> obj \<in> held p \<Longrightarrow>
       inv (snd (put obj p)) \<and> held (snd (put obj p)) = held p - {obj}"
begin

lemma hist_held:
  assumes "pool_hist get put mem_ok p0 hs p" "inv p0" "held p0 = {}"
  shows "inv p \<and> distinct hs \<and> set hs = held p"
  using assms
proof induction
  case start
  then show ?case by simp
next
  case (take hs p m obj p')
  then have "inv p" "distinct hs" "set hs = held p" by auto
  then show ?case using get_object [of p m obj p'] take.hyps by simp
next
  case (refused hs p m p')
  then have "inv p" "distinct hs" "set hs = held p" by auto
  then show ?case using get_null [of p m p'] refused.hyps by simp
next
  case (give hs p obj)
  then show ?case using put_object [of p obj] by (auto simp: set_remove1_eq)
qed

lemma hist_never_stuck:
  assumes "pool_hist get put mem_ok p0 hs p" "inv p0" "held p0 = {}" "mem_ok m p"
  shows "\<exists>r p'. get m p = Inr (r, p')"
  using get_returns [of p m] hist_held [OF assms(1-3)] assms(4) by auto

end

interpretation mpool: object_pool mpool_inv mp_inuse psmi_mpool_get psmi_mpool_put malloc_ok
proof
  fix p m assume i: "mpool_inv p" "malloc_ok m p"
  show "\<exists>r. psmi_mpool_get m p = Inr r" using i by (rule get_cases) blast+
  show "mpool_inv p' \<and> obj \<notin> mp_inuse p \<and> mp_inuse p' = insert obj (mp_inuse p)"
    if "psmi_mpool_get m p = Inr (Some obj, p')" for obj p'
    using i by (rule get_cases) (use that in auto)
  show "mpool_inv p' \<and> mp_inuse p' = mp_inuse p" if "psmi_mpool_get m p = Inr (None, p')" for p'
    using i by (rule get_cases) (use that i in auto)
next
  fix p obj assume "mpool_inv p" "obj \<in> mp_inuse p"
  then show "mpool_inv (snd (psmi_mpool_put obj p)) \<and> mp_inuse (snd (psmi_mpool_put obj p)) = mp_inuse p - {obj}"
    using put_inv by simp
qed

section \<open>Creating a pool\<close>

lemma vector_shift_loop_pow: "m \<le> k \<Longrightarrow> vector_shift_loop (2 ^ m) (2 ^ k) = k - m"
proof (induction "k - m" arbitrary: m)
  case 0
  then show ?case by (subst vector_shift_loop.simps) simp
next
  case (Suc d)
  then have "vector_shift_loop (2 ^ Suc m) (2 ^ k) = k - Suc m" by (intro Suc.hyps(1)) auto
  then show ?case using Suc.hyps(2) by (subst vector_shift_loop.simps) (simp add: Suc_diff_Suc)
qed

text \<open>
  The caller's side: sizes for which the 32-bit size computations do not wrap, and an allocator
  that answers with a chunk inside the address space.
\<close>

definition create_args_ok :: "u64 \<Rightarrow> u32 \<Rightarrow> u32 \<Rightarrow> u64 option \<Rightarrow> bool" where
  "create_args_ok obj_size per maxt malloc \<longleftrightarrow>
     per \<noteq> 0 \<and> unat maxt < 2 ^ 31 \<and> unat per * (unat obj_size + 128) < 2 ^ 32 \<and>
     (\<forall>c. malloc = Some c \<longrightarrow> unat c + unat per * (unat obj_size + 128) \<le> 2 ^ 64)"

lemma elm_size_bounds:
  fixes osize esize :: u32 and hdr al sz :: u64
  assumes s: "unat sz + 128 < 2 ^ 32" and h: "hdr = 16 \<and> al = 8 \<or> hdr = 64 \<and> al = 64"
    and o: "osize = ucast (PSMI_ALIGNUP sz al)" and e: "esize = ucast (hdr + ucast osize)"
  shows "unat hdr \<le> unat esize" "unat esize \<le> unat sz + 127"
proof -
  have b: "unat (PSMI_ALIGNUP sz al) \<le> unat sz + unat (al - 1)"
    using s h by (intro ALIGNUP_bounds) auto
  have a: "unat (al - 1) \<le> 63" "unat hdr + unat (al - 1) \<le> 127" using h by auto
  have "unat osize = unat (PSMI_ALIGNUP sz al)"
    using b s a unfolding o by (simp add: unsigned_ucast_eq take_bit_nat_eq_self)
  moreover have "unat (hdr + ucast osize) = unat hdr + unat osize"
    using calculation b s a by (subst unat_plus_no_wrap) (auto simp: unat_ucast_up)
  moreover have "unat esize = unat (hdr + ucast osize)"
    using calculation b s a unfolding e by (simp add: unsigned_ucast_eq take_bit_nat_eq_self)
  ultimately show "unat hdr \<le> unat esize" "unat esize \<le> unat sz + 127" using a b by auto
qed

lemma empty_pool_inv:
  assumes "per_chunk mp = 2 ^ mp_vector_shift mp" "per_chunk mp dvd unat (mp_num_obj_max_total mp)"
    "unat (mp_num_obj_max_total mp) < 2 ^ 31" "mp_elm_offset mp < mp_elm_size mp" "chunk_bytes mp < 2 ^ 32"
    "length (mp_elm_vector mp) = unat (mp_num_obj_max_total mp) div per_chunk mp"
    "mp_num_obj mp = 0" "mp_num_obj_inuse mp = 0" "mp_elm_vector_free mp = 0" "mp_head mp = []"
  shows "mpool_inv mp" "mp_inuse mp = {}"
  using assms unfolding mpool_inv_def mp_geom_def mp_inuse_def by simp_all

lemma allocate_ok_inv:
  assumes inv: "mpool_inv mp" and fr: "\<And>c. malloc = Some c \<Longrightarrow> malloc_fresh mp c"
    and alloc: "psmi_mpool_allocate_chunk malloc mp = Inr (PSM_OK, mp')"
  shows "mpool_inv mp'" "mp_inuse mp' = mp_inuse mp" "mp_num_obj_max_total mp' = mp_num_obj_max_total mp"
    "mp_non_empty_cb mp' = mp_non_empty_cb mp"
proof -
  obtain c where c: "malloc = Some c" "mp_grown c mp mp'"
    "unat (mp_num_obj mp) + per_chunk mp \<le> unat (mp_num_obj_max_total mp)"
    using allocate_chunk_cases [of mp malloc, OF mpool_invD(1) [OF inv]] fr alloc
    by (elim meta_impE disjE exE conjE) auto
  show "mpool_inv mp'" "mp_inuse mp' = mp_inuse mp" using mp_grown_inv [OF inv c(2) fr [OF c(1)] c(3)] .
  show "mp_num_obj_max_total mp' = mp_num_obj_max_total mp" "mp_non_empty_cb mp' = mp_non_empty_cb mp"
    using mp_grown_fields(5,13) [OF c(2)] .
qed

lemma create_inv:
  assumes ok: "create_args_ok obj_size per maxt malloc"
    and r: "psmi_mpool_create calloc_mp calloc_vec malloc obj_size per maxt flags cb = Inr (Some mp)"
  shows "mpool_inv mp" "mp_inuse mp = {}" "mp_num_obj_max_total mp = maxt" "mp_non_empty_cb mp = cb"
proof -
  let ?al = "flags AND PSMI_MPOOL_ALIGN \<noteq> 0"
  let ?hdr = "if ?al then PSMI_ALIGNUP sizeof_mpool_element PSMI_MPOOL_ALIGNMENT else sizeof_mpool_element"
  let ?osize = "ucast (PSMI_ALIGNUP obj_size (if ?al then PSMI_MPOOL_ALIGNMENT else 8)) :: u32"
  let ?mp = "\<lparr>mp_flags = flags, mp_vector_shift = vector_shift_loop 1 (unat per),
      mp_elm_vector_size = maxt div per, mp_elm_offset = ucast (?hdr - sizeof_mpool_element),
      mp_num_obj = 0, mp_num_obj_inuse = 0, mp_elm_size = ucast (?hdr + ucast ?osize), mp_obj_size = ?osize,
      mp_num_obj_per_chunk = per, mp_num_obj_max_total = maxt,
      mp_head = [], mp_elm_vector = replicate (unat (maxt div per)) 0,
      mp_elm_vector_free = 0, mp_non_empty_cb = cb, me_gen_count = (\<lambda>_. 0), me_index = (\<lambda>_. 0)\<rparr>"
  have p2: "PSMI_POWEROFTWO per" "PSMI_POWEROFTWO maxt" "\<not> maxt < per"
    and alloc: "psmi_mpool_allocate_chunk malloc ?mp = Inr (PSM_OK, mp)"
    using r ok by (auto simp: psmi_mpool_create_def create_args_ok_def Let_def split: if_splits)
  have nz: "per \<noteq> 0" "maxt \<noteq> 0" using ok p2(3) by (auto simp: create_args_ok_def word_less_nat_alt unat_gt_0)
  obtain k j where k: "unat per = 2 ^ k" "unat maxt = 2 ^ j"
    using POWEROFTWO_unat p2(1,2) nz by metis
  have "k \<le> j" using p2(3) k by (simp add: word_less_nat_alt)
  then have dvd: "unat per dvd unat maxt" using k by (simp add: le_imp_power_dvd)
  have hdr: "?hdr = (if ?al then 64 else 16)"
    by (simp add: PSMI_ALIGNUP_def PSMI_ALIGNDOWN_def sizeof_mpool_element_def PSMI_MPOOL_ALIGNMENT_def)
  have "1 * (unat obj_size + 128) \<le> unat per * (unat obj_size + 128)" using k(1) by (intro mult_le_mono1) simp
  moreover have "unat per * (unat obj_size + 128) < 2 ^ 32" using ok by (simp add: create_args_ok_def)
  ultimately have sz: "unat obj_size + 128 < 2 ^ 32" unfolding nat_mult_1 by (rule le_less_trans)
  have es: "unat ?hdr \<le> unat (mp_elm_size ?mp)" "unat (mp_elm_size ?mp) \<le> unat obj_size + 127"
    using elm_size_bounds [OF sz _ refl refl, of ?hdr "if ?al then PSMI_MPOOL_ALIGNMENT else 8"] hdr
    by (auto simp: PSMI_MPOOL_ALIGNMENT_def)
  then have cb: "chunk_bytes ?mp \<le> unat per * (unat obj_size + 128)" by (simp add: mult_le_mono)
  have off: "mp_elm_offset ?mp < mp_elm_size ?mp"
    using es(1) unfolding word_less_nat_alt hdr by (auto simp: sizeof_mpool_element_def)
  have sh: "per_chunk ?mp = 2 ^ mp_vector_shift ?mp" using k vector_shift_loop_pow [of 0 k] by simp
  have by32: "chunk_bytes ?mp < 2 ^ 32"
    using cb ok unfolding create_args_ok_def by (meson le_less_trans)
  have mx: "per_chunk ?mp dvd unat (mp_num_obj_max_total ?mp)" "unat (mp_num_obj_max_total ?mp) < 2 ^ 31"
    "length (mp_elm_vector ?mp) = unat (mp_num_obj_max_total ?mp) div per_chunk ?mp"
    using dvd ok by (simp_all add: create_args_ok_def unat_div)
  have z: "mp_num_obj ?mp = 0" "mp_num_obj_inuse ?mp = 0" "mp_elm_vector_free ?mp = 0" "mp_head ?mp = []"
    by simp_all
  note inv = empty_pool_inv [OF sh mx(1,2) off by32 mx(3) z]
  have fr: "malloc_fresh ?mp c" if "malloc = Some c" for c
  proof -
    have "unat c + unat per * (unat obj_size + 128) \<le> 2 ^ 64" using ok that unfolding create_args_ok_def by blast
    then have "unat c + chunk_bytes ?mp \<le> 2 ^ 64" by (rule le_trans [OF add_left_mono [OF cb]])
    then show ?thesis unfolding malloc_fresh_def by simp
  qed
  note A = allocate_ok_inv [OF inv(1) fr alloc]
  show "mpool_inv mp" using A(1) .
  show "mp_inuse mp = {}" using A(2) inv(2) by simp
  show "mp_num_obj_max_total mp = maxt" "mp_non_empty_cb mp = cb" using A(3,4) by simp_all
qed

section \<open>Properties\<close>

text \<open>A pool of two objects of 64 bytes that can grow once.\<close>

definition demo_pool :: mpool where
  "demo_pool = \<lparr>mp_flags = 1, mp_vector_shift = 1, mp_elm_vector_size = 2, mp_elm_offset = 48,
     mp_num_obj = 2, mp_num_obj_inuse = 0, mp_elm_size = 128, mp_obj_size = 64,
     mp_num_obj_per_chunk = 2, mp_num_obj_max_total = 4, mp_head = [0x10b0, 0x1030],
     mp_elm_vector = [0x1000, 0], mp_elm_vector_free = 1, mp_non_empty_cb = True,
     me_gen_count = (\<lambda>_. 0), me_index = (\<lambda>_. 0)(0x10b0 := 1)\<rparr>"

lemmas mpool_eval =
  psmi_mpool_create_def psmi_mpool_allocate_chunk_def psmi_mpool_get_def psmi_mpool_put_def
  chunk_elm_init_def elm_addr_def PSMI_POWEROFTWO_def PSMI_ALIGNUP_def
  PSMI_ALIGNDOWN_def PSMI_MPOOL_ALIGN_def PSMI_MPOOL_ALIGNMENT_def sizeof_mpool_element_def

lemma demo_pool_created:
  "psmi_mpool_create True True (Some 0x1000) 64 2 4 1 True = Inr (Some demo_pool)"
proof -
  have "vector_shift_loop (Suc 0) 2 = 1" using vector_shift_loop_pow [of 0 1] by simp
  moreover have "replicate 2 (0 :: u64) = [0, 0]" by (simp add: numeral_2_eq_2)
  ultimately show ?thesis by (simp add: mpool_eval Let_def upt_rec demo_pool_def fun_eq_iff)
qed

lemma demo_args: "create_args_ok 64 2 4 (Some 0x1000)"
  by (simp add: create_args_ok_def)

lemma demo_pool_inv: "mpool_inv demo_pool" "mp_inuse demo_pool = {}"
  using create_inv [OF demo_args demo_pool_created] by simp_all

text \<open>
  C34: Whatever a client does with a pool it created (taking objects while the allocator grants or
  refuses memory, returning objects it holds), the objects it holds are pairwise distinct, they
  are exactly the elements missing from the free list, and there are never more of them than the
  maximum the pool was created with.
\<close>

theorem mpool_never_hands_out_twice:
  assumes "psmi_mpool_create calloc_mp calloc_vec malloc obj_size per maxt flags cb = Inr (Some mp0)"
    "create_args_ok obj_size per maxt malloc"
    "pool_hist psmi_mpool_get psmi_mpool_put malloc_ok mp0 hs mp"
  shows "distinct hs \<and> set hs = mp_inuse mp \<and> length hs \<le> unat (mp_num_obj_max_total mp) \<and> mpool_inv mp"
proof -
  note H = mpool.hist_held [OF assms(3) create_inv(1,2) [OF assms(2,1)]]
  have "length hs = unat (mp_num_obj_inuse mp)"
    using H mpool_card [of mp] distinct_card [of hs] by simp
  then show ?thesis using H mpool_invD(4) [of mp] mp_geomD(7) [OF mpool_invD(1) [of mp]] by simp
qed

theorem mpool_never_hands_out_twice_witness:
  "\<exists>mp. pool_hist psmi_mpool_get psmi_mpool_put malloc_ok demo_pool [0x1040, 0x10c0] mp \<and>
     mp_inuse mp = {0x1040, 0x10c0} \<and> length [0x1040, 0x10c0 :: u64] \<le> unat (mp_num_obj_max_total mp)"
proof -
  have ok: "malloc_ok None p" for p by (simp add: malloc_ok_def)
  have 1: "pool_hist psmi_mpool_get psmi_mpool_put malloc_ok demo_pool [0x10c0]
      (demo_pool\<lparr>mp_head := [0x1030], mp_num_obj_inuse := 1\<rparr>)"
    by (rule pool_hist.take [where mem_ok = malloc_ok, OF pool_hist.start ok]) (simp add: mpool_eval demo_pool_def)
  have 2: "pool_hist psmi_mpool_get psmi_mpool_put malloc_ok demo_pool [0x1040, 0x10c0]
      (demo_pool\<lparr>mp_head := [], mp_num_obj_inuse := 2\<rparr>)"
    by (rule pool_hist.take [where mem_ok = malloc_ok, OF 1 ok]) (simp add: mpool_eval demo_pool_def)
  show ?thesis using mpool_never_hands_out_twice [OF demo_pool_created demo_args 2] 2 by auto
qed

text \<open>
  \<^verbatim>\<open>psmi_mpool_get\<close> always returns; it returns NULL exactly when no element is free and
  either every one of the maximum number of objects is in use or the allocator refused, and then
  the pool is unchanged.
\<close>

theorem mpool_get_null_iff:
  assumes "mpool_inv mp" "malloc_ok malloc mp"
  shows "\<exists>r mp'. psmi_mpool_get malloc mp = Inr (r, mp') \<and>
     (r = None \<longleftrightarrow> mp_exhausted mp \<or> malloc = None \<and> mp_head mp = []) \<and> (r = None \<longrightarrow> mp' = mp)"
  using assms
proof (cases rule: get_cases)
  case null
  then show ?thesis using assms(1) by (auto simp: mp_exhausted_def)
qed auto

theorem mpool_get_null_iff_witness:
  "mpool_inv demo_pool \<and> (\<exists>r mp'. psmi_mpool_get None demo_pool = Inr (r, mp') \<and> r \<noteq> None)"
proof -
  have "malloc_ok None demo_pool" by (simp add: malloc_ok_def)
  moreover have "\<not> mp_exhausted demo_pool" "mp_head demo_pool \<noteq> []"
    by (simp_all add: mp_exhausted_def demo_pool_def)
  ultimately show ?thesis using mpool_get_null_iff [OF demo_pool_inv(1), of None] demo_pool_inv(1) by auto
qed

text \<open>
  The index of an object in use finds the object again, and every index below the number of
  allocated objects finds an object with that index; an index outside the range finds NULL.
\<close>

theorem mpool_index_roundtrip:
  assumes "mpool_inv mp"
  shows "(\<forall>obj \<in> mp_inuse mp. psmi_mpool_find_obj_by_index mp (uint (psmi_mpool_get_obj_index obj mp)) = Inr (Some obj))
    \<and> (\<forall>i. 0 \<le> i \<and> i < uint (mp_num_obj mp) \<longrightarrow>
          (\<exists>obj. psmi_mpool_find_obj_by_index mp i = Inr (Some obj) \<and> uint (psmi_mpool_get_obj_index obj mp) = i))
    \<and> (\<forall>i. i < 0 \<or> i \<ge> uint (mp_num_obj mp) \<longrightarrow> psmi_mpool_find_obj_by_index mp i = Inr None)"
  using find_by_index [OF assms] find_index_range [OF assms]
  by (auto simp: psmi_mpool_find_obj_by_index_def)

theorem mpool_index_roundtrip_witness:
  "mpool_inv demo_pool \<and> (\<exists>obj. psmi_mpool_find_obj_by_index demo_pool 1 = Inr (Some obj) \<and>
     uint (psmi_mpool_get_obj_index obj demo_pool) = 1) \<and> psmi_mpool_find_obj_by_index demo_pool 2 = Inr None"
proof -
  have "uint (mp_num_obj demo_pool) = 2" by (simp add: demo_pool_def)
  then show ?thesis using mpool_index_roundtrip [OF demo_pool_inv(1)] demo_pool_inv(1) by auto
qed

text \<open>
  Returning an object and taking one again gives that same object with its generation count
  one higher and no other object's count changed, and the pool's user is called back exactly when
  the pool was exhausted.
\<close>

theorem mpool_put_get_generation:
  assumes "mpool_inv mp" "obj \<in> mp_inuse mp"
  shows "(\<exists>mp'. psmi_mpool_get malloc (snd (psmi_mpool_put obj mp)) = Inr (Some obj, mp') \<and>
      mpool_inv mp' \<and> mp_inuse mp' = mp_inuse mp \<and>
      (\<forall>o'. psmi_mpool_get_obj_gen_count o' mp' =
         psmi_mpool_get_obj_gen_count o' mp + (if o' = obj then 1 else 0))) \<and>
    (fst (psmi_mpool_put obj mp) \<longleftrightarrow> mp_non_empty_cb mp \<and> mp_exhausted mp)"
proof -
  let ?p = "snd (psmi_mpool_put obj mp)"
  note P = put_inv [OF assms]
  have h: "mp_head ?p = (obj - sizeof_mpool_element) # mp_head mp"
    by (simp add: psmi_mpool_put_def Let_def)
  have get: "psmi_mpool_get malloc ?p = Inr (Some obj, mp_pop ?p)" by (simp add: psmi_mpool_get_def h)
  have "psmi_mpool_get_obj_gen_count o' (mp_pop ?p) =
      psmi_mpool_get_obj_gen_count o' mp + (if o' = obj then 1 else 0)" for o'
    by (simp add: psmi_mpool_get_obj_gen_count_def psmi_mpool_put_def Let_def)
  moreover have "mp_inuse (mp_pop ?p) = mp_inuse mp" using mp_pop_inv(3) [OF P(1) h] P(2) assms(2) by auto
  ultimately show ?thesis using get mp_pop_inv(1) [OF P(1) h] P(3) by auto
qed

theorem mpool_put_get_generation_witness:
  "\<exists>mp mp'. mpool_inv mp \<and> 0x10c0 \<in> mp_inuse mp \<and> psmi_mpool_get None (snd (psmi_mpool_put 0x10c0 mp)) = Inr (Some 0x10c0, mp') \<and>
     psmi_mpool_get_obj_gen_count 0x10c0 mp' = psmi_mpool_get_obj_gen_count 0x10c0 mp + 1"
proof -
  have h: "mp_head demo_pool = 0x10b0 # [0x1030]" by (simp add: demo_pool_def)
  note p = mp_pop_inv [OF demo_pool_inv(1) h]
  have i: "0x10c0 \<in> mp_inuse (mp_pop demo_pool)" using p(3) by (simp add: sizeof_mpool_element_def)
  show ?thesis using mpool_put_get_generation [OF p(1) i, of None] p(1) i by auto
qed

text \<open>
  Creation accepts a chunk size of zero objects (the power-of-two test lets it through) and
  then divides by it.
\<close>

theorem mpool_create_zero_chunk:
  "psmi_mpool_create True calloc_vec malloc obj_size 0 64 flags cb = Inl Undefined_Access"
  by (simp add: psmi_mpool_create_def PSMI_POWEROFTWO_def)

end
