(* ===== verification/Sysbuf.thy ===== *)
theory Sysbuf
  imports Mpool
begin

text \<open>
  The system buffers that hold unexpected messages, \<^verbatim>\<open>src/psm_mq_utils.c\<close>: seven size classes with
  free lists, the last one transient (blocks come from and go back to the C heap). Blocks are
  named by their addresses, the free list of a class (linked through the union's \<^verbatim>\<open>next\<close>) is the
  list of its blocks and the other view of the union, \<^verbatim>\<open>mem_handler\<close>, is a function of the block.
  Besides the file's static variables the state has the two counters of \<^verbatim>\<open>mq->stats\<close> that the
  allocator maintains and the number of calls made to \<^verbatim>\<open>psmi_malloc\<close>: \<open>malloc k\<close> is what the
  \<open>k\<close>-th call answers.

  Shown: a buffer handed out is not handed out again before it is freed, comes from the smallest
  class that fits and is NULL only when the C heap refuses; the facts are an instance of the
  interface \<open>object_pool\<close>.
\<close>

unbundle bit_operations_syntax

section \<open>State\<close>

definition MM_FLAG_NONE :: u32 where "MM_FLAG_NONE = 0"
definition MM_FLAG_TRANSIENT :: u32 where "MM_FLAG_TRANSIENT = 1"
definition MM_NUM_OF_POOLS :: nat where "MM_NUM_OF_POOLS = 7"

record mem_ctrl =
  free_list :: "u64 list"
  total_alloc :: u32
  current_available :: u32
  block_size :: u32
  mm_flags :: u32
  replenishing_rate :: u32

record sysbuf =
  handler_index :: "mem_ctrl list"
  mem_ctrl_is_init :: bool
  mem_ctrl_total_bytes :: u64
  mem_handler :: "u64 \<Rightarrow> nat"
  rx_sysbuf_num :: u64
  rx_sysbuf_bytes :: u64
  malloc_calls :: nat

definition block_sizes :: "u32 list" where "block_sizes = [256, 512, 1024, 2048, 4096, 8192, - 1]"
definition replenishing_rates :: "u32 list" where "replenishing_rates = [128, 64, 32, 16, 8, 4, 0]"
definition sizeof_mem_block_ctrl :: u32 where "sizeof_mem_block_ctrl = 8"

abbreviation ctrl :: "sysbuf \<Rightarrow> nat \<Rightarrow> mem_ctrl" where "ctrl sb h \<equiv> handler_index sb ! h"

definition upd_ctrl :: "nat \<Rightarrow> (mem_ctrl \<Rightarrow> mem_ctrl) \<Rightarrow> sysbuf \<Rightarrow> sysbuf" where
  "upd_ctrl h f sb = sb\<lparr>handler_index := (handler_index sb)[h := f (ctrl sb h)]\<rparr>"

section \<open>Operations\<close>

text \<open>The search \<^verbatim>\<open>while (mm_handler->block_size < alloc_size) mm_handler++\<close>.\<close>

function find_handler :: "mem_ctrl list \<Rightarrow> u32 \<Rightarrow> nat \<Rightarrow> nat run" where
  "find_handler hs alloc_size i =
     (if i < length hs
      then (if block_size (hs ! i) < alloc_size then find_handler hs alloc_size (Suc i) else Inr i)
      else Inl Undefined_Access)"
  by pat_completeness auto
termination by (relation "measure (\<lambda>(hs, a, i). length hs - i)") auto

declare find_handler.simps [simp del]

text \<open>One round of the replenishing loop: the new block and the state.\<close>

definition replenish_round :: "(nat \<Rightarrow> u64 option) \<Rightarrow> nat \<Rightarrow> sysbuf \<Rightarrow> u64 option \<times> sysbuf" where
  "replenish_round malloc h sb =
     (let newsz = block_size (ctrl sb h) + sizeof_mem_block_ctrl;
          new_block = malloc (malloc_calls sb);
          sb = sb\<lparr>malloc_calls := Suc (malloc_calls sb),
                  mem_ctrl_total_bytes := mem_ctrl_total_bytes sb + ucast newsz\<rparr>
      in (new_block,
          case new_block of
            None \<Rightarrow> sb
          | Some b \<Rightarrow> upd_ctrl h (\<lambda>c. c\<lparr>current_available := current_available c + 1,
                                   total_alloc := total_alloc c + 1,
                                   free_list := b # free_list c\<rparr>) sb))"

text \<open>
  \<^verbatim>\<open>do { ... } while (--replenishing && new_block)\<close>; the rate of a class that is not transient is
  positive (\<^verbatim>\<open>psmi_mq_sysbuf_init\<close> asserts it), so the loop is entered with \<open>Suc r\<close> only.
\<close>

fun replenish_loop :: "(nat \<Rightarrow> u64 option) \<Rightarrow> nat \<Rightarrow> nat \<Rightarrow> sysbuf \<Rightarrow> sysbuf" where
  "replenish_loop malloc h 0 sb = sb"
| "replenish_loop malloc h (Suc r) sb =
     (let (new_block, sb) = replenish_round malloc h sb
      in if r \<noteq> 0 \<and> new_block \<noteq> None then replenish_loop malloc h r sb else sb)"

text \<open>Taking the first free block, the code from \<^verbatim>\<open>if (mm_handler->current_available)\<close> on.\<close>

definition sysbuf_take :: "nat \<Rightarrow> sysbuf \<Rightarrow> (u64 option \<times> sysbuf) run" where
  "sysbuf_take h sb =
     (if current_available (ctrl sb h) \<noteq> 0 then
        (case free_list (ctrl sb h) of
           [] \<Rightarrow> Inl Undefined_Access
         | b # rest \<Rightarrow>
             Inr (Some (b + ucast sizeof_mem_block_ctrl),
                  upd_ctrl h (\<lambda>c. c\<lparr>current_available := current_available c - 1, free_list := rest\<rparr>)
                    (sb\<lparr>mem_handler := (mem_handler sb)(b := h)\<rparr>)))
      else Inr (None, sb))"

text \<open>\<^verbatim>\<open>psmi_mq_sysbuf_alloc\<close> once the allocator is initialised.\<close>

definition sysbuf_alloc_ready ::
  "(nat \<Rightarrow> u64 option) \<Rightarrow> u32 \<Rightarrow> sysbuf \<Rightarrow> (u64 option \<times> sysbuf) run" where
  "sysbuf_alloc_ready malloc alloc_size sb =
     (let sb = sb\<lparr>rx_sysbuf_num := rx_sysbuf_num sb + 1,
                  rx_sysbuf_bytes := rx_sysbuf_bytes sb + ucast alloc_size\<rparr>
      in run_bind (find_handler (handler_index sb) alloc_size 0)
           (\<lambda>h. if current_available (ctrl sb h) = 0 then
                  (if mm_flags (ctrl sb h) AND MM_FLAG_TRANSIENT \<noteq> 0 then
                     (let newsz = alloc_size + sizeof_mem_block_ctrl;
                          new_block = malloc (malloc_calls sb);
                          sb = sb\<lparr>malloc_calls := Suc (malloc_calls sb)\<rparr>
                      in case new_block of
                           None \<Rightarrow> Inr (None, sb)
                         | Some b \<Rightarrow>
                             Inr (Some (b + ucast sizeof_mem_block_ctrl),
                                  upd_ctrl h (\<lambda>c. c\<lparr>total_alloc := total_alloc c + 1\<rparr>)
                                    (sb\<lparr>mem_handler := (mem_handler sb)(b := h),
                                        mem_ctrl_total_bytes := mem_ctrl_total_bytes sb + ucast newsz\<rparr>)))
                   else sysbuf_take h (replenish_loop malloc h (unat (replenishing_rate (ctrl sb h))) sb))
                else sysbuf_take h sb))"

text \<open>The first component is the block handed back to \<^verbatim>\<open>psmi_free\<close>, if any.\<close>

definition psmi_mq_sysbuf_free :: "u64 \<Rightarrow> sysbuf \<Rightarrow> (u64 option \<times> sysbuf) run" where
  "psmi_mq_sysbuf_free mem_to_free sb =
     (if \<not> mem_ctrl_is_init sb then Inl Assert_Abort
      else let block_to_free = mem_to_free - ucast sizeof_mem_block_ctrl;
               h = mem_handler sb block_to_free
           in if h \<ge> length (handler_index sb) then Inl Undefined_Access
              else if mm_flags (ctrl sb h) AND MM_FLAG_TRANSIENT \<noteq> 0 then Inr (Some block_to_free, sb)
              else Inr (None, upd_ctrl h (\<lambda>c. c\<lparr>free_list := block_to_free # free_list c,
                                              current_available := current_available c + 1\<rparr>) sb))"

definition init_ctrl :: "u32 \<Rightarrow> u32 \<Rightarrow> mem_ctrl run" where
  "init_ctrl sz rate =
     (let c = \<lparr>free_list = [], total_alloc = 0, current_available = 0, block_size = sz,
               mm_flags = MM_FLAG_NONE, replenishing_rate = rate\<rparr>
      in if sz = - 1
         then (if rate = 0 then Inr (c\<lparr>mm_flags := MM_FLAG_TRANSIENT\<rparr>) else Inl Assert_Abort)
         else (if rate > 0 then Inr (c\<lparr>mm_flags := MM_FLAG_NONE\<rparr>) else Inl Assert_Abort))"

fun init_ctrls :: "(u32 \<times> u32) list \<Rightarrow> mem_ctrl list run" where
  "init_ctrls [] = Inr []"
| "init_ctrls ((sz, rate) # rest) =
     run_bind (init_ctrl sz rate) (\<lambda>c. run_bind (init_ctrls rest) (\<lambda>cs. Inr (c # cs)))"

text \<open>The loop that hits each block size once; freeing a NULL buffer reads below address 0.\<close>

fun warm_classes :: "(nat \<Rightarrow> u64 option) \<Rightarrow> u32 list \<Rightarrow> sysbuf \<Rightarrow> sysbuf run" where
  "warm_classes malloc [] sb = Inr sb"
| "warm_classes malloc (sz # rest) sb =
     (if sz = - 1 then warm_classes malloc rest sb
      else run_bind (sysbuf_alloc_ready malloc sz sb)
        (\<lambda>(ptr, sb). case ptr of
             None \<Rightarrow> Inl Undefined_Access
           | Some p \<Rightarrow> run_bind (psmi_mq_sysbuf_free p sb) (\<lambda>(_, sb). warm_classes malloc rest sb)))"

definition psmi_mq_sysbuf_init :: "(nat \<Rightarrow> u64 option) \<Rightarrow> sysbuf \<Rightarrow> sysbuf run" where
  "psmi_mq_sysbuf_init malloc sb =
     (if mem_ctrl_is_init sb then Inr sb
      else run_bind (init_ctrls (zip block_sizes replenishing_rates))
        (\<lambda>cs. warm_classes malloc block_sizes (sb\<lparr>mem_ctrl_is_init := True, handler_index := cs\<rparr>)))"

definition psmi_mq_sysbuf_alloc ::
  "(nat \<Rightarrow> u64 option) \<Rightarrow> u32 \<Rightarrow> sysbuf \<Rightarrow> (u64 option \<times> sysbuf) run" where
  "psmi_mq_sysbuf_alloc malloc alloc_size sb =
     run_bind (if \<not> mem_ctrl_is_init sb then psmi_mq_sysbuf_init malloc sb else Inr sb)
       (sysbuf_alloc_ready malloc alloc_size)"

text \<open>The blocks handed back to the C heap, in order.\<close>

definition psmi_mq_sysbuf_fini :: "sysbuf \<Rightarrow> u64 list \<times> sysbuf" where
  "psmi_mq_sysbuf_fini sb =
     (if \<not> mem_ctrl_is_init sb then ([], sb)
      else (concat (map free_list (handler_index sb)),
            sb\<lparr>handler_index := map (\<lambda>c. c\<lparr>free_list := []\<rparr>) (handler_index sb), mem_ctrl_is_init := False\<rparr>))"

section \<open>Invariant\<close>

definition all_free :: "sysbuf \<Rightarrow> u64 list" where
  "all_free sb = concat (map free_list (handler_index sb))"

text \<open>\<open>H\<close> is the set of buffers handed out and not freed.\<close>

abbreviation hdr :: "u64 \<Rightarrow> u64" where "hdr p \<equiv> p - ucast sizeof_mem_block_ctrl"

text \<open>The part of the state that never changes after initialisation.\<close>

definition classes_ok :: "sysbuf \<Rightarrow> bool" where
  "classes_ok sb \<longleftrightarrow>
     mem_ctrl_is_init sb \<and> map block_size (handler_index sb) = block_sizes \<and>
     map replenishing_rate (handler_index sb) = replenishing_rates \<and>
     (\<forall>h < MM_NUM_OF_POOLS. mm_flags (ctrl sb h) = (if h = 6 then MM_FLAG_TRANSIENT else MM_FLAG_NONE))"

definition sysbuf_inv :: "sysbuf \<Rightarrow> u64 set \<Rightarrow> bool" where
  "sysbuf_inv sb H \<longleftrightarrow> classes_ok sb \<and>
     (\<forall>h < MM_NUM_OF_POOLS. unat (current_available (ctrl sb h)) = length (free_list (ctrl sb h))) \<and>
     free_list (ctrl sb 6) = [] \<and> distinct (all_free sb) \<and>
     (\<forall>p \<in> H. hdr p \<notin> set (all_free sb) \<and> mem_handler sb (hdr p) < MM_NUM_OF_POOLS) \<and>
     finite H \<and> length (all_free sb) + card H \<le> malloc_calls sb \<and> malloc_calls sb < 2 ^ 32"

text \<open>
  The C heap: the answers to the calls still to come are blocks that are not allocated, that is
  neither on a free list nor in use, and differ from each other; \<open>heap_ok\<close> is the hypothesis of one
  operation, which makes at most 128 calls and returns none of their blocks to the heap.
\<close>

definition heap_fresh :: "(nat \<Rightarrow> u64 option) \<Rightarrow> sysbuf \<Rightarrow> u64 set \<Rightarrow> bool" where
  "heap_fresh malloc sb H \<longleftrightarrow>
     (\<forall>k b. malloc_calls sb \<le> k \<and> malloc k = Some b \<longrightarrow>
        b \<notin> set (all_free sb) \<and> b \<notin> hdr ` H \<and> (\<forall>j. malloc_calls sb \<le> j \<and> malloc j = Some b \<longrightarrow> j = k))"

definition heap_ok :: "(nat \<Rightarrow> u64 option) \<Rightarrow> sysbuf \<Rightarrow> u64 set \<Rightarrow> bool" where
  "heap_ok malloc sb H \<longleftrightarrow> malloc_calls sb + 128 < 2 ^ 32 \<and> heap_fresh malloc sb H"

lemma all_free_frame [simp]:
  "all_free (sb\<lparr>malloc_calls := n\<rparr>) = all_free sb" "all_free (sb\<lparr>mem_ctrl_total_bytes := w\<rparr>) = all_free sb"
  "all_free (sb\<lparr>mem_handler := m\<rparr>) = all_free sb" "all_free (sb\<lparr>rx_sysbuf_num := w\<rparr>) = all_free sb"
  "all_free (sb\<lparr>rx_sysbuf_bytes := w\<rparr>) = all_free sb"
  by (simp_all add: all_free_def)

lemma classes_frame [simp]:
  "classes_ok (sb\<lparr>malloc_calls := n\<rparr>) = classes_ok sb" "classes_ok (sb\<lparr>mem_ctrl_total_bytes := w\<rparr>) = classes_ok sb"
  "classes_ok (sb\<lparr>mem_handler := m\<rparr>) = classes_ok sb" "classes_ok (sb\<lparr>rx_sysbuf_num := w\<rparr>) = classes_ok sb"
  "classes_ok (sb\<lparr>rx_sysbuf_bytes := w\<rparr>) = classes_ok sb"
  by (simp_all add: classes_ok_def)

lemma classes_length: "classes_ok sb \<Longrightarrow> length (handler_index sb) = 7"
proof -
  assume "classes_ok sb"
  then have "length (map block_size (handler_index sb)) = length block_sizes" by (simp only: classes_ok_def)
  then show ?thesis by (simp add: block_sizes_def)
qed

lemma classes_block: "classes_ok sb \<Longrightarrow> h < 7 \<Longrightarrow> block_size (ctrl sb h) = block_sizes ! h"
  using classes_length [of sb] unfolding classes_ok_def by (metis nth_map)

lemma classes_rate: "classes_ok sb \<Longrightarrow> h < 7 \<Longrightarrow> replenishing_rate (ctrl sb h) = replenishing_rates ! h"
  using classes_length [of sb] unfolding classes_ok_def by (metis nth_map)

lemma classes_upd:
  assumes "classes_ok sb" "block_size (f (ctrl sb h)) = block_size (ctrl sb h)"
    "replenishing_rate (f (ctrl sb h)) = replenishing_rate (ctrl sb h)" "mm_flags (f (ctrl sb h)) = mm_flags (ctrl sb h)"
  shows "classes_ok (upd_ctrl h f sb)"
proof -
  have "map g ((handler_index sb)[h := f (ctrl sb h)]) = map g (handler_index sb)"
    if "g (f (ctrl sb h)) = g (ctrl sb h)" for g :: "mem_ctrl \<Rightarrow> u32"
    using that by (metis list_update_id map_update)
  moreover have "mm_flags ((handler_index sb)[h := f (ctrl sb h)] ! k) = mm_flags (ctrl sb k)" for k
    using assms(4)
    by (cases "h < length (handler_index sb)") (auto simp: nth_list_update list_update_beyond)
  ultimately show ?thesis using assms by (simp add: classes_ok_def upd_ctrl_def)
qed

lemma ctrl_upd [simp]:
  "h < length (handler_index sb) \<Longrightarrow> ctrl (upd_ctrl h f sb) k = (if k = h then f (ctrl sb h) else ctrl sb k)"
  by (simp add: upd_ctrl_def)

lemma upd_ctrl_frame [simp]:
  "malloc_calls (upd_ctrl h f sb) = malloc_calls sb" "mem_handler (upd_ctrl h f sb) = mem_handler sb"
  "mem_ctrl_is_init (upd_ctrl h f sb) = mem_ctrl_is_init sb" "length (handler_index (upd_ctrl h f sb)) = length (handler_index sb)"
  by (simp_all add: upd_ctrl_def)

lemma all_free_upd:
  assumes "h < length (handler_index sb)"
  obtains A B where "all_free sb = A @ free_list (ctrl sb h) @ B"
    "\<And>f. all_free (upd_ctrl h f sb) = A @ free_list (f (ctrl sb h)) @ B"
proof -
  let ?A = "concat (map free_list (take h (handler_index sb)))"
  let ?B = "concat (map free_list (drop (Suc h) (handler_index sb)))"
  have "all_free sb = ?A @ free_list (ctrl sb h) @ ?B"
    unfolding all_free_def by (subst id_take_nth_drop [OF assms]) simp
  moreover have "all_free (upd_ctrl h f sb) = ?A @ free_list (f (ctrl sb h)) @ ?B" for f
    unfolding all_free_def upd_ctrl_def using assms by (simp add: upd_conv_take_nth_drop)
  ultimately show ?thesis using that by blast
qed

text \<open>Putting a block on a free list and taking one off.\<close>

definition push_block :: "nat \<Rightarrow> u64 \<Rightarrow> (u32 \<Rightarrow> u32) \<Rightarrow> sysbuf \<Rightarrow> sysbuf" where
  "push_block h b t = upd_ctrl h (\<lambda>c. c\<lparr>current_available := current_available c + 1,
      total_alloc := t (total_alloc c), free_list := b # free_list c\<rparr>)"

lemma push_frame [simp]:
  "malloc_calls (push_block h b t sb) = malloc_calls sb" "mem_handler (push_block h b t sb) = mem_handler sb"
  "length (handler_index (push_block h b t sb)) = length (handler_index sb)"
  by (simp_all add: push_block_def)

lemma push_all_free:
  assumes "h < length (handler_index sb)"
  shows "set (all_free (push_block h b t sb)) = insert b (set (all_free sb))"
    "length (all_free (push_block h b t sb)) = Suc (length (all_free sb))"
    "distinct (all_free (push_block h b t sb)) \<longleftrightarrow> distinct (all_free sb) \<and> b \<notin> set (all_free sb)"
  by (rule all_free_upd [OF assms]; auto simp: push_block_def)+

lemma free_list_le: "h < length (handler_index sb) \<Longrightarrow> length (free_list (ctrl sb h)) \<le> length (all_free sb)"
  by (rule all_free_upd) auto

lemma push_inv:
  assumes inv: "sysbuf_inv sb H" and h: "h < 6" and b: "b \<notin> set (all_free sb)"
    and H': "H' \<subseteq> H" "\<And>p. p \<in> H' \<Longrightarrow> hdr p \<noteq> b" and n: "Suc (length (all_free sb)) + card H' \<le> malloc_calls sb"
  shows "sysbuf_inv (push_block h b t sb) H'"
proof -
  have c: "classes_ok sb" and len: "length (handler_index sb) = 7" using inv classes_length by (auto simp: sysbuf_inv_def)
  have h7: "h < length (handler_index sb)" using h len by simp
  note P = push_all_free [OF h7]
  have "length (free_list (ctrl sb h)) < 2 ^ 32 - 1"
    using free_list_le [OF h7] n inv unfolding sysbuf_inv_def by linarith
  then have av: "unat (current_available (ctrl sb h) + 1) = Suc (length (free_list (ctrl sb h)))"
    using inv h unfolding sysbuf_inv_def MM_NUM_OF_POOLS_def by (subst unat_plus_no_wrap) auto
  have "classes_ok (push_block h b t sb)" unfolding push_block_def by (rule classes_upd [OF c]) simp_all
  moreover have "finite H'" using inv H'(1) finite_subset unfolding sysbuf_inv_def by blast
  moreover have "hdr p \<notin> set (all_free (push_block h b t sb)) \<and> mem_handler (push_block h b t sb) (hdr p) < MM_NUM_OF_POOLS"
    if "p \<in> H'" for p
    using inv H' that unfolding P(1) sysbuf_inv_def by auto
  moreover have "ctrl (push_block h b t sb) k = (if k = h then (ctrl sb h)\<lparr>current_available := current_available (ctrl sb h) + 1,
      total_alloc := t (total_alloc (ctrl sb h)), free_list := b # free_list (ctrl sb h)\<rparr> else ctrl sb k)" for k
    unfolding push_block_def using h7 by simp
  ultimately show ?thesis
    using inv av b n h unfolding sysbuf_inv_def P(2,3) by simp
qed

lemma take_inv:
  assumes inv: "sysbuf_inv sb H" and h: "h < 6" and f: "free_list (ctrl sb h) = b # rest"
  obtains sb' where "sysbuf_take h sb = Inr (Some (b + ucast sizeof_mem_block_ctrl), sb')"
    "sysbuf_inv sb' (insert (b + ucast sizeof_mem_block_ctrl) H)" "b + ucast sizeof_mem_block_ctrl \<notin> H"
    "malloc_calls sb' = malloc_calls sb" "mem_handler sb' b = h"
    "insert b (set (all_free sb')) = set (all_free sb)"
proof -
  let ?p = "b + ucast sizeof_mem_block_ctrl"
  let ?f = "\<lambda>c. c\<lparr>current_available := current_available c - 1, free_list := rest\<rparr>"
  let ?sb = "sb\<lparr>mem_handler := (mem_handler sb)(b := h)\<rparr>"
  let ?sb' = "upd_ctrl h ?f ?sb"
  have c: "classes_ok sb" and len: "length (handler_index sb) = 7" using inv classes_length by (auto simp: sysbuf_inv_def)
  have h7: "h < length (handler_index ?sb)" using h len by simp
  have av: "unat (current_available (ctrl sb h)) = Suc (length rest)"
    using inv h f unfolding sysbuf_inv_def MM_NUM_OF_POOLS_def by auto
  then have nz: "current_available (ctrl sb h) \<noteq> 0" by auto
  obtain A B where AB0: "all_free ?sb = A @ free_list (ctrl ?sb h) @ B"
    "\<And>f. all_free (upd_ctrl h f ?sb) = A @ free_list (f (ctrl ?sb h)) @ B"
    using all_free_upd [OF h7] by blast
  have AB: "all_free sb = A @ b # rest @ B" "all_free ?sb' = A @ rest @ B"
    using AB0(1) AB0(2) [of ?f] f by simp_all
  have fresh: "?p \<notin> H" using inv AB(1) unfolding sysbuf_inv_def by auto
  have "classes_ok ?sb" using c by simp
  then have c': "classes_ok ?sb'" by (rule classes_upd) simp_all
  have "sysbuf_inv ?sb' (insert ?p H)"
    using inv c' fresh h h7 av unat_dec [OF nz] AB unfolding sysbuf_inv_def by (auto simp: MM_NUM_OF_POOLS_def)
  moreover have "sysbuf_take h sb = Inr (Some ?p, ?sb')" using nz f by (simp add: sysbuf_take_def)
  moreover have "insert b (set (all_free ?sb')) = set (all_free sb)" using AB by auto
  ultimately show ?thesis using that fresh by simp
qed

lemma take_empty:
  assumes "sysbuf_inv sb H" "h < 7" "free_list (ctrl sb h) = []"
  shows "sysbuf_take h sb = Inr (None, sb)"
proof -
  have "unat (current_available (ctrl sb h)) = 0" using assms by (simp add: sysbuf_inv_def MM_NUM_OF_POOLS_def)
  then show ?thesis by (simp add: sysbuf_take_def unat_eq_0)
qed

lemma heap_fresh_live:
  assumes "heap_fresh malloc sb H" "malloc_calls sb \<le> malloc_calls sb'"
    "set (all_free sb') \<union> hdr ` H' \<subseteq> set (all_free sb) \<union> hdr ` H"
  shows "heap_fresh malloc sb' H'"
  using assms unfolding heap_fresh_def by (meson UnCI UnE le_trans subsetD)

lemma heap_fresh_push:
  assumes "heap_fresh malloc sb H" "malloc (malloc_calls sb) = Some b" "malloc_calls sb' = Suc (malloc_calls sb)"
    "set (all_free sb') = insert b (set (all_free sb))"
  shows "heap_fresh malloc sb' H"
  using assms unfolding heap_fresh_def by (metis Suc_leD Suc_n_not_le_n insert_iff order_refl)

lemma round_some:
  assumes inv: "sysbuf_inv sb H" and fr: "heap_fresh malloc sb H" and n: "Suc (malloc_calls sb) < 2 ^ 32"
    and h: "h < 6" and m: "malloc (malloc_calls sb) = Some b"
  obtains sb' where "replenish_round malloc h sb = (Some b, sb')" "sysbuf_inv sb' H" "heap_fresh malloc sb' H"
    "malloc_calls sb' = Suc (malloc_calls sb)" "free_list (ctrl sb' h) \<noteq> []"
proof -
  let ?sb = "sb\<lparr>malloc_calls := Suc (malloc_calls sb),
      mem_ctrl_total_bytes := mem_ctrl_total_bytes sb + ucast (block_size (ctrl sb h) + sizeof_mem_block_ctrl)\<rparr>"
  let ?sb' = "push_block h b (\<lambda>t. t + 1) ?sb"
  have len: "h < length (handler_index ?sb)" using inv classes_length h by (auto simp: sysbuf_inv_def)
  have r: "replenish_round malloc h sb = (Some b, ?sb')"
    by (simp add: replenish_round_def push_block_def m Let_def)
  have i: "sysbuf_inv ?sb H" using inv n unfolding sysbuf_inv_def by simp
  have b: "b \<notin> set (all_free ?sb)" "\<And>p. p \<in> H \<Longrightarrow> hdr p \<noteq> b"
    using fr m unfolding heap_fresh_def by auto
  have "sysbuf_inv ?sb' H"
    using inv by (intro push_inv [OF i h b(1) subset_refl b(2)]) (auto simp: sysbuf_inv_def)
  moreover have "heap_fresh malloc ?sb' H"
    by (rule heap_fresh_push [OF fr m]) (use push_all_free(1) [OF len] in simp_all)
  moreover have "free_list (ctrl ?sb' h) \<noteq> []" unfolding push_block_def using len by simp
  ultimately show ?thesis using that r by simp
qed

lemma round_none:
  assumes "sysbuf_inv sb H" "Suc (malloc_calls sb) < 2 ^ 32" "malloc (malloc_calls sb) = None"
  obtains sb' where "replenish_round malloc h sb = (None, sb')" "sysbuf_inv sb' H" "handler_index sb' = handler_index sb"
    "malloc_calls sb' = Suc (malloc_calls sb)"
proof -
  let ?sb = "sb\<lparr>malloc_calls := Suc (malloc_calls sb),
      mem_ctrl_total_bytes := mem_ctrl_total_bytes sb + ucast (block_size (ctrl sb h) + sizeof_mem_block_ctrl)\<rparr>"
  have "replenish_round malloc h sb = (None, ?sb)" by (simp add: replenish_round_def Let_def assms(3))
  moreover have "sysbuf_inv ?sb H" using assms(1,2) unfolding sysbuf_inv_def by simp
  ultimately show ?thesis using that by simp
qed

lemma replenish_inv:
  "sysbuf_inv sb H \<Longrightarrow> heap_fresh malloc sb H \<Longrightarrow> malloc_calls sb + r < 2 ^ 32 \<Longrightarrow> h < 6 \<Longrightarrow>
   sysbuf_inv (replenish_loop malloc h r sb) H \<and> heap_fresh malloc (replenish_loop malloc h r sb) H \<and>
   malloc_calls (replenish_loop malloc h r sb) \<in> {malloc_calls sb .. malloc_calls sb + r} \<and>
   (free_list (ctrl (replenish_loop malloc h r sb) h) = [] \<longleftrightarrow>
      free_list (ctrl sb h) = [] \<and> (r = 0 \<or> malloc (malloc_calls sb) = None))"
proof (induction r arbitrary: sb)
  case (Suc r)
  have n: "Suc (malloc_calls sb) < 2 ^ 32" using Suc.prems(3) by simp
  show ?case
  proof (cases "malloc (malloc_calls sb)")
    case None
    obtain sb' where s: "replenish_round malloc h sb = (None, sb')" "sysbuf_inv sb' H" "handler_index sb' = handler_index sb"
      "malloc_calls sb' = Suc (malloc_calls sb)"
      using round_none [where malloc = malloc and h = h, OF Suc.prems(1) n None] by blast
    have "heap_fresh malloc sb' H"
      by (rule heap_fresh_live [OF Suc.prems(2)]) (use s(3,4) in \<open>simp_all add: all_free_def\<close>)
    then show ?thesis using None s by simp
  next
    case (Some b)
    obtain sb' where s: "replenish_round malloc h sb = (Some b, sb')" "sysbuf_inv sb' H" "heap_fresh malloc sb' H"
      "malloc_calls sb' = Suc (malloc_calls sb)" "free_list (ctrl sb' h) \<noteq> []"
      using round_some [where malloc = malloc and h = h, OF Suc.prems(1,2) n Suc.prems(4) Some] by blast
    then show ?thesis using Suc.IH [OF s(2,3)] Suc.prems(3,4) Some by simp
  qed
qed simp

lemma find_handler_spec:
  "i \<le> j \<Longrightarrow> j < length hs \<Longrightarrow> \<not> block_size (hs ! j) < n \<Longrightarrow>
   \<exists>h. find_handler hs n i = Inr h \<and> h \<le> j \<and> \<not> block_size (hs ! h) < n \<and> (\<forall>k. i \<le> k \<and> k < h \<longrightarrow> block_size (hs ! k) < n)"
proof (induction "j - i" arbitrary: i)
  case 0
  then show ?case by (subst find_handler.simps) auto
next
  case (Suc d)
  show ?case
  proof (cases "block_size (hs ! i) < n")
    case True
    then have "i \<noteq> j" using Suc.prems(3) by auto
    then have "\<exists>h. find_handler hs n (Suc i) = Inr h \<and> h \<le> j \<and> \<not> block_size (hs ! h) < n \<and>
        (\<forall>k. Suc i \<le> k \<and> k < h \<longrightarrow> block_size (hs ! k) < n)"
      using Suc.hyps(2) Suc.prems by (intro Suc.hyps(1)) auto
    then obtain h where h: "find_handler hs n (Suc i) = Inr h" "h \<le> j" "\<not> block_size (hs ! h) < n"
      "\<forall>k. Suc i \<le> k \<and> k < h \<longrightarrow> block_size (hs ! k) < n" by blast
    have "\<forall>k. i \<le> k \<and> k < h \<longrightarrow> block_size (hs ! k) < n" using h(4) True by (metis Suc_leI le_neq_implies_less)
    then show ?thesis using h True Suc.prems by (subst find_handler.simps) auto
  next
    case False
    then show ?thesis using Suc.prems by (subst find_handler.simps) auto
  qed
qed

text \<open>The class chosen for a size.\<close>

definition buf_class :: "u32 \<Rightarrow> nat" where
  "buf_class n = (if n \<le> 256 then 0 else if n \<le> 512 then 1 else if n \<le> 1024 then 2
     else if n \<le> 2048 then 3 else if n \<le> 4096 then 4 else if n \<le> 8192 then 5 else 6)"

lemma find_handler_class:
  assumes "classes_ok sb"
  shows "find_handler (handler_index sb) n 0 = Inr (buf_class n)"
proof -
  have len: "length (handler_index sb) = 7" using classes_length [OF assms] .
  have B: "k < 7 \<Longrightarrow> block_size (ctrl sb k) = block_sizes ! k" for k using classes_block [OF assms] .
  have "\<not> block_size (ctrl sb 6) < n" using B [of 6] by (simp add: block_sizes_def word_order.extremum not_less)
  then obtain h where h: "find_handler (handler_index sb) n 0 = Inr h" "h \<le> 6" "\<not> block_size (ctrl sb h) < n"
    "\<forall>k. k < h \<longrightarrow> block_size (ctrl sb k) < n" using find_handler_spec [of 0 6 "handler_index sb" n] len by auto
  have "h \<in> {0, 1, 2, 3, 4, 5, 6}" using h(2) by auto
  then have "h = buf_class n"
    using h(2-4) B [of 0] B [of 1] B [of 2] B [of 3] B [of 4] B [of 5] B [of 6]
    by (elim insertE emptyE) (auto simp: buf_class_def block_sizes_def not_less dest: spec [of _ 0] spec [of _ 1]
        spec [of _ 2] spec [of _ 3] spec [of _ 4] spec [of _ 5])
  then show ?thesis using h(1) by simp
qed

section \<open>Allocation and release\<close>

lemma buf_class_less: "buf_class n < 7" "buf_class n \<noteq> 6 \<Longrightarrow> buf_class n < 6"
  by (simp_all add: buf_class_def split: if_splits)

lemma rates_pos: "h < 6 \<Longrightarrow> classes_ok sb \<Longrightarrow> 0 < unat (replenishing_rate (ctrl sb h)) \<and> unat (replenishing_rate (ctrl sb h)) \<le> 128"
proof -
  assume h: "h < 6" and c: "classes_ok sb"
  have "h \<in> {0, 1, 2, 3, 4, 5}" using h by auto
  then show ?thesis using classes_rate [OF c, of h] by (elim insertE emptyE) (simp_all add: replenishing_rates_def)
qed

lemma class_flags: "classes_ok sb \<Longrightarrow> h < 7 \<Longrightarrow> mm_flags (ctrl sb h) AND MM_FLAG_TRANSIENT \<noteq> 0 \<longleftrightarrow> h = 6"
  by (auto simp: classes_ok_def MM_NUM_OF_POOLS_def MM_FLAG_TRANSIENT_def MM_FLAG_NONE_def)

text \<open>The state after the statistics are counted.\<close>

abbreviation counted :: "u32 \<Rightarrow> sysbuf \<Rightarrow> sysbuf" where
  "counted n sb \<equiv> sb\<lparr>rx_sysbuf_num := rx_sysbuf_num sb + 1, rx_sysbuf_bytes := rx_sysbuf_bytes sb + ucast n\<rparr>"

lemma counted_inv: "sysbuf_inv sb H \<Longrightarrow> sysbuf_inv (counted n sb) H"
  unfolding sysbuf_inv_def by simp

lemma available_iff: "sysbuf_inv sb H \<Longrightarrow> h < 7 \<Longrightarrow> current_available (ctrl sb h) = 0 \<longleftrightarrow> free_list (ctrl sb h) = []"
  unfolding sysbuf_inv_def MM_NUM_OF_POOLS_def by (metis length_0_conv unat_eq_0)

lemma alloc_pooled:
  assumes inv: "sysbuf_inv sb H" and h: "buf_class n \<noteq> 6"
  shows "psmi_mq_sysbuf_alloc malloc n sb = sysbuf_take (buf_class n)
     (if free_list (ctrl sb (buf_class n)) = []
      then replenish_loop malloc (buf_class n) (unat (replenishing_rate (ctrl sb (buf_class n)))) (counted n sb)
      else counted n sb)"
proof -
  have c: "classes_ok sb" "mem_ctrl_is_init sb" using inv by (auto simp: sysbuf_inv_def classes_ok_def)
  show ?thesis
    using c(2) h find_handler_class [OF c(1)] class_flags [OF c(1) buf_class_less(1) [of n]]
      available_iff [OF inv buf_class_less(1) [of n]]
    by (simp add: psmi_mq_sysbuf_alloc_def sysbuf_alloc_ready_def)
qed

lemma alloc_transient:
  assumes inv: "sysbuf_inv sb H" and h: "buf_class n = 6"
  shows "psmi_mq_sysbuf_alloc malloc n sb =
    (let sb1 = (counted n sb)\<lparr>malloc_calls := Suc (malloc_calls sb)\<rparr>
     in case malloc (malloc_calls sb) of
          None \<Rightarrow> Inr (None, sb1)
        | Some b \<Rightarrow> Inr (Some (b + ucast sizeof_mem_block_ctrl),
            upd_ctrl 6 (\<lambda>c. c\<lparr>total_alloc := total_alloc c + 1\<rparr>)
              (sb1\<lparr>mem_handler := (mem_handler sb)(b := 6),
                   mem_ctrl_total_bytes := mem_ctrl_total_bytes sb + ucast (n + sizeof_mem_block_ctrl)\<rparr>)))"
proof -
  have c: "classes_ok sb" "mem_ctrl_is_init sb" using inv by (auto simp: sysbuf_inv_def classes_ok_def)
  have "free_list (ctrl sb 6) = []" using inv by (simp add: sysbuf_inv_def)
  then show ?thesis
    using c(2) h find_handler_class [OF c(1)] class_flags [OF c(1), of 6] available_iff [OF inv, of 6]
    by (simp add: psmi_mq_sysbuf_alloc_def sysbuf_alloc_ready_def Let_def split: option.split)
qed

lemma transient_inv:
  assumes inv: "sysbuf_inv sb H" and n: "Suc (malloc_calls sb) < 2 ^ 32"
    and b: "b \<notin> set (all_free sb)" "b \<notin> hdr ` H" and sb': "handler_index sb' = handler_index sb"
    "mem_ctrl_is_init sb'" "mem_handler sb' = (mem_handler sb)(b := 6)" "malloc_calls sb' = Suc (malloc_calls sb)"
  shows "sysbuf_inv (upd_ctrl 6 (\<lambda>c. c\<lparr>total_alloc := t\<rparr>) sb') (insert (b + ucast sizeof_mem_block_ctrl) H)"
proof -
  let ?sb = "upd_ctrl 6 (\<lambda>c. c\<lparr>total_alloc := t\<rparr>) sb'" and ?p = "b + ucast sizeof_mem_block_ctrl"
  have c: "classes_ok sb'" using inv sb'(1,2) by (simp add: sysbuf_inv_def classes_ok_def)
  then have c': "classes_ok ?sb" by (rule classes_upd) simp_all
  have len: "6 < length (handler_index sb')" using classes_length [OF c] by simp
  have af: "all_free ?sb = all_free sb" by (rule all_free_upd [OF len]) (use sb'(1) in \<open>auto simp: all_free_def\<close>)
  have cl: "free_list (ctrl ?sb h) = free_list (ctrl sb h)" "current_available (ctrl ?sb h) = current_available (ctrl sb h)" for h
    using len sb'(1) by auto
  have "card (insert ?p H) \<le> Suc (card H)" by (rule card_insert_le_m1) simp_all
  then show ?thesis
    using inv c' n b sb'(3,4) unfolding sysbuf_inv_def cl af by (auto simp: MM_NUM_OF_POOLS_def)
qed

lemma heap_fresh_answer:
  assumes "heap_fresh malloc sb H" "malloc (malloc_calls sb) = Some b" "malloc_calls sb' = Suc (malloc_calls sb)"
    "all_free sb' = all_free sb"
  shows "heap_fresh malloc sb' (insert (b + ucast sizeof_mem_block_ctrl) H)"
proof -
  have "malloc_calls sb' \<le> k \<Longrightarrow> malloc k \<noteq> Some b" for k
    using assms(1-3) unfolding heap_fresh_def by (metis Suc_n_not_le_n order_refl Suc_leD)
  moreover have "heap_fresh malloc sb' H" by (rule heap_fresh_live [OF assms(1)]) (use assms(3,4) in simp_all)
  ultimately show ?thesis unfolding heap_fresh_def by auto
qed

lemma all_free_same:
  assumes "classes_ok sb" "handler_index s = handler_index sb"
  shows "all_free (upd_ctrl 6 (\<lambda>c. c\<lparr>total_alloc := total_alloc c + 1\<rparr>) s) = all_free sb"
proof -
  have "6 < length (handler_index s)" using classes_length [OF assms(1)] assms(2) by simp
  then show ?thesis by (rule all_free_upd) (use assms(2) in \<open>auto simp: all_free_def\<close>)
qed

lemma alloc_cases:
  assumes inv: "sysbuf_inv sb H" and ok: "heap_ok malloc sb H"
  obtains (buffer) p sb' where "psmi_mq_sysbuf_alloc malloc n sb = Inr (Some p, sb')"
      "sysbuf_inv sb' (insert p H)" "p \<notin> H" "mem_handler sb' (hdr p) = buf_class n"
      "malloc (malloc_calls sb) \<noteq> None \<or> free_list (ctrl sb (buf_class n)) \<noteq> []"
      "heap_fresh malloc sb' (insert p H)" "malloc_calls sb' \<in> {malloc_calls sb .. malloc_calls sb + 128}"
  | (null) sb' where "psmi_mq_sysbuf_alloc malloc n sb = Inr (None, sb')" "sysbuf_inv sb' H"
      "malloc (malloc_calls sb) = None" "free_list (ctrl sb (buf_class n)) = []"
proof (cases "buf_class n = 6")
  case True
  have n: "Suc (malloc_calls sb) < 2 ^ 32" using ok by (simp add: heap_ok_def)
  have f: "free_list (ctrl sb 6) = []" using inv by (simp add: sysbuf_inv_def)
  note eq = alloc_transient [OF inv True, of malloc]
  show ?thesis
  proof (cases "malloc (malloc_calls sb)")
    case None
    have "sysbuf_inv ((counted n sb)\<lparr>malloc_calls := Suc (malloc_calls sb)\<rparr>) H"
      using counted_inv [OF inv, of n] n unfolding sysbuf_inv_def by simp
    then show ?thesis using null eq None f True by (simp add: Let_def)
  next
    case (Some b)
    have b: "b \<notin> set (all_free sb)" "b \<notin> hdr ` H"
      using ok Some unfolding heap_ok_def heap_fresh_def by auto
    have "b + ucast sizeof_mem_block_ctrl \<notin> H" using b(2) by (metis add_diff_cancel_right' imageI)
    moreover have "sysbuf_inv (upd_ctrl 6 (\<lambda>c. c\<lparr>total_alloc := total_alloc c + 1\<rparr>)
        ((counted n sb)\<lparr>malloc_calls := Suc (malloc_calls sb), mem_handler := (mem_handler sb)(b := 6),
          mem_ctrl_total_bytes := mem_ctrl_total_bytes sb + ucast (n + sizeof_mem_block_ctrl)\<rparr>))
        (insert (b + ucast sizeof_mem_block_ctrl) H)" (is "sysbuf_inv (upd_ctrl 6 ?f ?s) _")
    proof -
      have "upd_ctrl 6 ?f ?s = upd_ctrl 6 (\<lambda>c. c\<lparr>total_alloc := total_alloc (ctrl ?s 6) + 1\<rparr>) ?s"
        by (simp add: upd_ctrl_def)
      then show ?thesis using transient_inv [OF inv n b, of ?s] inv
        by (simp add: sysbuf_inv_def classes_ok_def)
    qed
    moreover have "heap_fresh malloc (upd_ctrl 6 ?f ?s) (insert (b + ucast sizeof_mem_block_ctrl) H)"
      by (rule heap_fresh_answer [where malloc = malloc and sb = sb, OF _ Some])
        (use ok inv in \<open>auto simp: heap_ok_def all_free_same sysbuf_inv_def\<close>)
    ultimately show ?thesis using buffer eq Some True by (simp add: Let_def)
  qed
next
  case False
  let ?h = "buf_class n" let ?sb = "counted n sb"
  let ?r = "unat (replenishing_rate (ctrl sb ?h))"
  let ?s = "if free_list (ctrl sb ?h) = [] then replenish_loop malloc ?h ?r ?sb else ?sb"
  have h6: "?h < 6" using buf_class_less(2) False by blast
  have c: "classes_ok sb" using inv by (simp add: sysbuf_inv_def)
  have fr: "heap_fresh malloc ?sb H" using ok unfolding heap_ok_def heap_fresh_def by simp
  have r: "0 < ?r" "malloc_calls ?sb + ?r < 2 ^ 32" using rates_pos [OF h6 c] ok by (auto simp: heap_ok_def)
  have s: "sysbuf_inv ?s H" "free_list (ctrl ?s ?h) = [] \<longleftrightarrow> free_list (ctrl sb ?h) = [] \<and> malloc (malloc_calls sb) = None"
    "heap_fresh malloc ?s H" "malloc_calls ?s \<in> {malloc_calls sb .. malloc_calls sb + 128}"
    using replenish_inv [OF counted_inv [OF inv] fr r(2) h6] r(1) counted_inv [OF inv, of n] fr rates_pos [OF h6 c] by auto
  show ?thesis
  proof (cases "free_list (ctrl ?s ?h)")
    case Nil
    then show ?thesis
      using null [of ?s] take_empty [OF s(1) buf_class_less(1) Nil] s alloc_pooled [OF inv False, of malloc] by simp
  next
    case (Cons b rest)
    obtain sb' where t: "sysbuf_take ?h ?s = Inr (Some (b + ucast sizeof_mem_block_ctrl), sb')"
      "sysbuf_inv sb' (insert (b + ucast sizeof_mem_block_ctrl) H)" "b + ucast sizeof_mem_block_ctrl \<notin> H" "mem_handler sb' b = ?h"
      "malloc_calls sb' = malloc_calls ?s" "insert b (set (all_free sb')) = set (all_free ?s)"
      using take_inv [OF s(1) h6 Cons] by blast
    have "heap_fresh malloc sb' (insert (b + ucast sizeof_mem_block_ctrl) H)"
      by (rule heap_fresh_live [OF s(3)]) (use t(5,6) in auto)
    moreover    have "malloc (malloc_calls sb) \<noteq> None \<or> free_list (ctrl sb ?h) \<noteq> []" using s(2) Cons by auto
    ultimately show ?thesis using buffer [OF _ t(2,3)] t(1,4,5) s(4) alloc_pooled [OF inv False, of malloc] by simp
  qed
qed

text \<open>A buffer handed out lies in a block of a free list or one the C heap gave.\<close>

lemma replenish_free:
  "h < length (handler_index sb) \<Longrightarrow>
   set (free_list (ctrl (replenish_loop malloc h r sb) h)) \<subseteq> set (free_list (ctrl sb h)) \<union> {b. \<exists>k. malloc k = Some b}"
proof (induction r arbitrary: sb)
  case (Suc r)
  obtain nb sb1 where r1: "replenish_round malloc h sb = (nb, sb1)" by (cases "replenish_round malloc h sb") blast
  have "length (handler_index sb1) = length (handler_index sb) \<and>
      set (free_list (ctrl sb1 h)) \<subseteq> set (free_list (ctrl sb h)) \<union> {b. \<exists>k. malloc k = Some b}"
    using r1 Suc.prems by (auto simp: replenish_round_def Let_def split: option.splits)
  then show ?case using r1 Suc.IH [of sb1] Suc.prems by auto
qed simp

lemma alloc_source:
  assumes inv: "sysbuf_inv sb H" and al: "psmi_mq_sysbuf_alloc malloc n sb = Inr (Some p, sb')"
  shows "hdr p \<in> set (all_free sb) \<or> (\<exists>k. malloc k = Some (hdr p))"
proof (cases "buf_class n = 6")
  case True
  then show ?thesis using al unfolding alloc_transient [OF inv True] by (auto simp: Let_def split: option.splits)
next
  case False
  let ?h = "buf_class n"
  have l: "?h < length (handler_index sb)" using inv classes_length buf_class_less(1) by (simp add: sysbuf_inv_def)
  have sub: "set (free_list (ctrl sb ?h)) \<subseteq> set (all_free sb)"
    unfolding all_free_def set_concat set_map using nth_mem [OF l] by blast
  have "hdr p \<in> set (free_list (ctrl (if free_list (ctrl sb ?h) = []
      then replenish_loop malloc ?h (unat (replenishing_rate (ctrl sb ?h))) (counted n sb) else counted n sb) ?h))"
    using al unfolding alloc_pooled [OF inv False] by (auto simp: sysbuf_take_def split: if_splits list.splits)
  then show ?thesis
    using sub replenish_free [of ?h "counted n sb" malloc "unat (replenishing_rate (ctrl sb ?h))"] l
    by (auto split: if_splits)
qed

definition heap_nonnull :: "(nat \<Rightarrow> u64 option) \<Rightarrow> sysbuf \<Rightarrow> bool" where
  "heap_nonnull malloc sb \<longleftrightarrow> hdr 0 \<notin> set (all_free sb) \<and> (\<forall>k. malloc k \<noteq> Some (hdr 0))"

lemma alloc_nonnull: "sysbuf_inv sb H \<Longrightarrow> heap_nonnull malloc sb \<Longrightarrow> psmi_mq_sysbuf_alloc malloc n sb \<noteq> Inr (Some 0, sb')"
  using alloc_source [of sb H malloc n 0 sb'] by (auto simp: heap_nonnull_def)

lemma free_inv:
  assumes inv: "sysbuf_inv sb H" and p: "p \<in> H"
  obtains r sb' where "psmi_mq_sysbuf_free p sb = Inr (r, sb')" "sysbuf_inv sb' (H - {p})"
    "r = (if mem_handler sb (hdr p) = 6 then Some (hdr p) else None)"
    "mem_handler sb (hdr p) \<noteq> 6 \<Longrightarrow> sb' = push_block (mem_handler sb (hdr p)) (hdr p) id sb"
    "malloc_calls sb' = malloc_calls sb" "\<And>malloc. heap_fresh malloc sb H \<Longrightarrow> heap_fresh malloc sb' (H - {p})"
proof -
  let ?h = "mem_handler sb (hdr p)"
  have c: "classes_ok sb" "mem_ctrl_is_init sb" using inv by (auto simp: sysbuf_inv_def classes_ok_def)
  have h: "?h < 7" "hdr p \<notin> set (all_free sb)" using inv p by (auto simp: sysbuf_inv_def MM_NUM_OF_POOLS_def)
  have fin: "finite H" using inv by (simp add: sysbuf_inv_def)
  then have card: "Suc (card (H - {p})) = card H" using p by (metis card.remove)
  show ?thesis
  proof (cases "?h = 6")
    case True
    have "psmi_mq_sysbuf_free p sb = Inr (Some (hdr p), sb)"
      using c(2) classes_length [OF c(1)] class_flags [OF c(1) h(1)] True by (simp add: psmi_mq_sysbuf_free_def)
    moreover have "sysbuf_inv sb (H - {p})" using inv card fin unfolding sysbuf_inv_def by auto
    moreover have "heap_fresh malloc sb H \<Longrightarrow> heap_fresh malloc sb (H - {p})" for malloc
      by (rule heap_fresh_live) auto
    ultimately show ?thesis using that True by simp
  next
    case False
    then have h6: "?h < 6" using h(1) by simp
    have "psmi_mq_sysbuf_free p sb = Inr (None, push_block ?h (hdr p) id sb)"
      using c(2) classes_length [OF c(1)] class_flags [OF c(1) h(1)] False h(1)
      by (cases "ctrl sb ?h") (simp add: psmi_mq_sysbuf_free_def push_block_def upd_ctrl_def Let_def)
    moreover have "sysbuf_inv (push_block ?h (hdr p) id sb) (H - {p})"
      using inv card by (intro push_inv [OF inv h6 h(2)]) (auto simp: sysbuf_inv_def)
    moreover have "heap_fresh malloc sb H \<Longrightarrow> heap_fresh malloc (push_block ?h (hdr p) id sb) (H - {p})" for malloc
      by (rule heap_fresh_live) (use push_all_free(1) [of ?h sb] h(1) classes_length [OF c(1)] p in auto)
    ultimately show ?thesis using that False by simp
  qed
qed

section \<open>The interface: buffers are a pool of objects\<close>

text \<open>The allocator together with the buffers its clients hold.\<close>

definition buf_get :: "(nat \<Rightarrow> u64 option) \<times> u32 \<Rightarrow> sysbuf \<times> u64 set \<Rightarrow> (u64 option \<times> sysbuf \<times> u64 set) run" where
  "buf_get = (\<lambda>(malloc, n) (sb, H). run_bind (psmi_mq_sysbuf_alloc malloc n sb)
     (\<lambda>(p, sb). Inr (p, sb, case p of None \<Rightarrow> H | Some p \<Rightarrow> insert p H)))"

definition buf_put :: "u64 \<Rightarrow> sysbuf \<times> u64 set \<Rightarrow> bool \<times> sysbuf \<times> u64 set" where
  "buf_put p = (\<lambda>(sb, H). case psmi_mq_sysbuf_free p sb of
      Inr (r, sb) \<Rightarrow> (r \<noteq> None, sb, H - {p}) | Inl _ \<Rightarrow> (False, sb, H))"

interpretation sysbufs: object_pool "\<lambda>(sb, H). sysbuf_inv sb H" snd buf_get buf_put
  "\<lambda>(malloc, n) (sb, H). heap_ok malloc sb H"
proof (unfold_locales, goal_cases)
  case (1 p m)
  obtain sb H malloc n where e: "p = (sb, H)" "m = (malloc, n)" by (metis surj_pair)
  then have i: "sysbuf_inv sb H" "heap_ok malloc sb H" using 1 by auto
  then show ?case unfolding e buf_get_def by (rule alloc_cases [where n = n]) simp_all
next
  case (2 p m obj p')
  obtain sb H malloc n where e: "p = (sb, H)" "m = (malloc, n)" by (metis surj_pair)
  then have i: "sysbuf_inv sb H" "heap_ok malloc sb H" using 2 by auto
  show ?case using i by (rule alloc_cases [where n = n]) (use 2(3) in \<open>auto simp: e buf_get_def\<close>)
next
  case (3 p m p')
  obtain sb H malloc n where e: "p = (sb, H)" "m = (malloc, n)" by (metis surj_pair)
  then have i: "sysbuf_inv sb H" "heap_ok malloc sb H" using 3 by auto
  show ?case using i by (rule alloc_cases [where n = n]) (use 3(3) in \<open>auto simp: e buf_get_def\<close>)
next
  case (4 p obj)
  obtain sb H where e: "p = (sb, H)" by (metis surj_pair)
  then have i: "sysbuf_inv sb H" "obj \<in> H" using 4 by auto
  then show ?case by (rule free_inv) (auto simp: e buf_put_def)
qed

section \<open>Initialisation\<close>

abbreviation fresh_ctrl :: "u32 \<Rightarrow> u32 \<Rightarrow> u32 \<Rightarrow> mem_ctrl" where
  "fresh_ctrl sz flags rate \<equiv> \<lparr>free_list = [], total_alloc = 0, current_available = 0, block_size = sz,
     mm_flags = flags, replenishing_rate = rate\<rparr>"

definition fresh_ctrls :: "mem_ctrl list" where
  "fresh_ctrls = [fresh_ctrl 256 0 128, fresh_ctrl 512 0 64, fresh_ctrl 1024 0 32, fresh_ctrl 2048 0 16,
     fresh_ctrl 4096 0 8, fresh_ctrl 8192 0 4, fresh_ctrl (- 1) 1 0]"

lemma init_ctrls_ok: "init_ctrls (zip block_sizes replenishing_rates) = Inr fresh_ctrls"
  by (simp add: block_sizes_def replenishing_rates_def init_ctrl_def fresh_ctrls_def MM_FLAG_NONE_def MM_FLAG_TRANSIENT_def)

lemma fresh_inv:
  assumes "handler_index sb = fresh_ctrls" "mem_ctrl_is_init sb" "malloc_calls sb < 2 ^ 32"
  shows "sysbuf_inv sb {}"
proof -
  have seven: "h < 7 \<Longrightarrow> h \<in> {0, 1, 2, 3, 4, 5, 6}" for h :: nat by auto
  have "mm_flags (fresh_ctrls ! h) = (if h = 6 then 1 else 0) \<and> unat (current_available (fresh_ctrls ! h)) = 0 \<and>
      free_list (fresh_ctrls ! h) = []" if "h < 7" for h
    using seven [OF that] by (elim insertE emptyE) (auto simp: fresh_ctrls_def)
  then show ?thesis using assms
    by (simp add: sysbuf_inv_def classes_ok_def all_free_def MM_NUM_OF_POOLS_def MM_FLAG_NONE_def MM_FLAG_TRANSIENT_def)
      (simp add: fresh_ctrls_def block_sizes_def replenishing_rates_def)
qed

lemma warm_one:
  assumes inv: "sysbuf_inv sb {}" and fr: "heap_fresh malloc sb {}" and n: "malloc_calls sb + 128 < 2 ^ 32"
    and m: "malloc (malloc_calls sb) \<noteq> None" and sz: "sz \<noteq> - 1"
  obtains sb' where "warm_classes malloc (sz # szs) sb = warm_classes malloc szs sb'"
    "sysbuf_inv sb' {}" "heap_fresh malloc sb' {}" "malloc_calls sb' \<in> {malloc_calls sb .. malloc_calls sb + 128}"
proof -
  have ok: "heap_ok malloc sb {}" using fr n by (simp add: heap_ok_def)
  have "mem_ctrl_is_init sb" using inv by (simp add: sysbuf_inv_def classes_ok_def)
  then have "psmi_mq_sysbuf_alloc malloc sz sb = sysbuf_alloc_ready malloc sz sb"
    by (simp add: psmi_mq_sysbuf_alloc_def)
  then obtain p s where a: "sysbuf_alloc_ready malloc sz sb = Inr (Some p, s)" "sysbuf_inv s {p}"
    "heap_fresh malloc s {p}" "malloc_calls s \<in> {malloc_calls sb .. malloc_calls sb + 128}"
    by (metis alloc_cases [OF inv ok, of sz] m)
  obtain r s' where f: "psmi_mq_sysbuf_free p s = Inr (r, s')" "sysbuf_inv s' ({p} - {p})"
    "malloc_calls s' = malloc_calls s" "heap_fresh malloc s {p} \<Longrightarrow> heap_fresh malloc s' ({p} - {p})"
    using free_inv [OF a(2), of p] by blast
  show ?thesis using that [of s'] sz a f by simp
qed

lemma warm_all:
  "sysbuf_inv sb {} \<Longrightarrow> heap_fresh malloc sb {} \<Longrightarrow> malloc_calls sb + 128 * length szs < 2 ^ 32 \<Longrightarrow>
   (\<forall>k. malloc_calls sb \<le> k \<and> k < malloc_calls sb + 128 * length szs \<longrightarrow> malloc k \<noteq> None) \<Longrightarrow> \<exists>sb'. warm_classes malloc szs sb = Inr sb' \<and> sysbuf_inv sb' {}"
proof (induction szs arbitrary: sb)
  case (Cons sz szs)
  show ?case
  proof (cases "sz = - 1")
    case True
    have "\<exists>sb'. warm_classes malloc szs sb = Inr sb' \<and> sysbuf_inv sb' {}"
      by (rule Cons.IH [OF Cons.prems(1,2)]) (use Cons.prems(3,4) in auto)
    then show ?thesis using True by simp
  next
    case False
    obtain sb' where s: "warm_classes malloc (sz # szs) sb = warm_classes malloc szs sb'"
      "sysbuf_inv sb' {}" "heap_fresh malloc sb' {}" "malloc_calls sb' \<in> {malloc_calls sb .. malloc_calls sb + 128}"
      by (rule warm_one [OF Cons.prems(1,2) _ _ False]) (use Cons.prems(3,4) in auto)
    have "\<exists>sb''. warm_classes malloc szs sb' = Inr sb'' \<and> sysbuf_inv sb'' {}"
      by (intro Cons.IH [OF s(2,3)]) (use s(4) Cons.prems(3,4) in auto)
    then show ?thesis using s(1) by simp
  qed
qed simp

definition heap_willing :: "(nat \<Rightarrow> u64 option) \<Rightarrow> nat \<Rightarrow> bool" where
  "heap_willing malloc n \<longleftrightarrow>
     (\<forall>k. n \<le> k \<and> k < n + 1000 \<longrightarrow> malloc k \<noteq> None) \<and> (\<forall>j k. malloc j = malloc k \<and> malloc j \<noteq> None \<longrightarrow> j = k)"

lemma init_inv:
  assumes "\<not> mem_ctrl_is_init sb" "malloc_calls sb + 1000 < 2 ^ 32" "heap_willing malloc (malloc_calls sb)"
  shows "\<exists>sb'. psmi_mq_sysbuf_init malloc sb = Inr sb' \<and> sysbuf_inv sb' {}"
proof -
  let ?sb = "sb\<lparr>mem_ctrl_is_init := True, handler_index := fresh_ctrls\<rparr>"
  have "all_free ?sb = []" by (simp add: all_free_def fresh_ctrls_def)
  moreover have "malloc j = Some b \<Longrightarrow> malloc k = Some b \<Longrightarrow> j = k" for j k b
    using assms(3) unfolding heap_willing_def by (metis option.distinct(1))
  ultimately have "heap_fresh malloc ?sb {}" unfolding heap_fresh_def by auto
  moreover have "length block_sizes = 7" by (simp add: block_sizes_def)
  ultimately have "\<exists>sb'. warm_classes malloc block_sizes ?sb = Inr sb' \<and> sysbuf_inv sb' {}"
    using assms(2,3) by (intro warm_all fresh_inv) (auto simp: heap_willing_def)
  then show ?thesis using assms(1) init_ctrls_ok by (simp add: psmi_mq_sysbuf_init_def)
qed

section \<open>Properties\<close>

definition demo_sysbuf :: sysbuf where
  "demo_sysbuf = \<lparr>handler_index = fresh_ctrls, mem_ctrl_is_init = True, mem_ctrl_total_bytes = 0,
     mem_handler = (\<lambda>_. 0), rx_sysbuf_num = 0, rx_sysbuf_bytes = 0, malloc_calls = 0\<rparr>"

lemma demo_sysbuf_inv: "sysbuf_inv demo_sysbuf {}"
  by (rule fresh_inv) (simp_all add: demo_sysbuf_def)

lemma demo_heap: "heap_ok (\<lambda>k. if k < 2 then Some (0x1000 * of_nat (Suc k)) else None) demo_sysbuf {}"
proof -
  have "all_free demo_sysbuf = []" by (simp add: all_free_def demo_sysbuf_def fresh_ctrls_def)
  then show ?thesis by (auto simp: heap_ok_def heap_fresh_def demo_sysbuf_def less_2_cases_iff)
qed



text \<open>
  A pooled buffer that is freed and then asked for again is the same buffer, and freeing never
  aborts for a buffer in use; a buffer of the transient class goes back to the C heap.
\<close>

theorem sysbuf_free_realloc:
  assumes "sysbuf_inv sb H" "p \<in> H"
  shows "\<exists>r sb'. psmi_mq_sysbuf_free p sb = Inr (r, sb') \<and> sysbuf_inv sb' (H - {p}) \<and>
     (r = None \<longleftrightarrow> mem_handler sb (hdr p) \<noteq> 6) \<and>
     (r = None \<and> buf_class n = mem_handler sb (hdr p) \<longrightarrow>
        (\<exists>sb''. psmi_mq_sysbuf_alloc malloc n sb' = Inr (Some p, sb'')))"
proof -
  obtain r sb' where f: "psmi_mq_sysbuf_free p sb = Inr (r, sb')" "sysbuf_inv sb' (H - {p})"
    "r = (if mem_handler sb (hdr p) = 6 then Some (hdr p) else None)"
    "mem_handler sb (hdr p) \<noteq> 6 \<Longrightarrow> sb' = push_block (mem_handler sb (hdr p)) (hdr p) id sb"
    using free_inv [OF assms] by blast
  have "\<exists>sb''. psmi_mq_sysbuf_alloc malloc n sb' = Inr (Some p, sb'')"
    if n: "mem_handler sb (hdr p) \<noteq> 6" "buf_class n = mem_handler sb (hdr p)"
  proof -
    have "length (handler_index sb) = 7" using assms(1) classes_length by (simp add: sysbuf_inv_def)
    then have fl: "free_list (ctrl sb' (buf_class n)) = hdr p # free_list (ctrl sb (buf_class n))"
      using f(4) n buf_class_less(1) [of n] by (simp add: push_block_def)
    have h6: "buf_class n < 6" using n buf_class_less(2) [of n] by simp
    have fl': "free_list (ctrl (counted n sb') (buf_class n)) = hdr p # free_list (ctrl sb (buf_class n))" using fl by simp
    obtain sb'' where "sysbuf_take (buf_class n) (counted n sb') = Inr (Some (hdr p + ucast sizeof_mem_block_ctrl), sb'')"
      using take_inv [OF counted_inv [OF f(2)] h6 fl'] by blast
    then show ?thesis using alloc_pooled [OF f(2), of n malloc] n fl by simp
  qed
  then show ?thesis using f by auto
qed

theorem sysbuf_free_realloc_witness:
  "\<exists>p sb sb' sb''. sysbuf_inv sb {p} \<and> psmi_mq_sysbuf_free p sb = Inr (None, sb') \<and>
     psmi_mq_sysbuf_alloc (\<lambda>_. None) 300 sb' = Inr (Some p, sb'')"
proof -
  obtain p sb where a: "sysbuf_inv sb {p}" "mem_handler sb (hdr p) = buf_class 300"
    by (rule alloc_cases [OF demo_sysbuf_inv demo_heap, of 300]) (auto simp: demo_sysbuf_def)
  have "buf_class 300 = 1" by (simp add: buf_class_def)
  then show ?thesis using sysbuf_free_realloc [OF a(1), of p 300 "\<lambda>_. None"] a by auto
qed

text \<open>
  The count of bytes in system buffers is wrong when memory runs out: the pooled path adds the
  size of a block before it looks whether the C heap gave one.
\<close>

theorem sysbuf_total_counts_failures:
  assumes "sysbuf_inv sb H" "buf_class n \<noteq> 6" "free_list (ctrl sb (buf_class n)) = []"
    "malloc (malloc_calls sb) = None"
  shows "\<exists>sb'. psmi_mq_sysbuf_alloc malloc n sb = Inr (None, sb') \<and> all_free sb' = all_free sb \<and>
     mem_ctrl_total_bytes sb' =
       mem_ctrl_total_bytes sb + ucast (block_size (ctrl sb (buf_class n)) + sizeof_mem_block_ctrl)"
proof -
  let ?h = "buf_class n"
  have c: "classes_ok sb" using assms(1) by (simp add: sysbuf_inv_def)
  have h6: "?h < 6" using buf_class_less(2) assms(2) by blast
  obtain r where r: "unat (replenishing_rate (ctrl sb ?h)) = Suc r"
    using rates_pos [OF h6 c] by (metis gr0_implies_Suc)
  let ?s = "(counted n sb)\<lparr>malloc_calls := Suc (malloc_calls sb),
      mem_ctrl_total_bytes := mem_ctrl_total_bytes sb + ucast (block_size (ctrl sb ?h) + sizeof_mem_block_ctrl)\<rparr>"
  have "replenish_loop malloc ?h (Suc r) (counted n sb) = ?s"
    using assms(4) by (simp add: replenish_round_def Let_def)
  moreover have "current_available (ctrl sb ?h) = 0"
    using available_iff [OF assms(1) buf_class_less(1)] assms(3) by simp
  ultimately show ?thesis using alloc_pooled [OF assms(1,2), of malloc] assms(3) r by (simp add: sysbuf_take_def)
qed

theorem sysbuf_total_counts_failures_witness:
  "\<exists>sb'. psmi_mq_sysbuf_alloc (\<lambda>_. None) 100 demo_sysbuf = Inr (None, sb') \<and> all_free sb' = [] \<and>
     mem_ctrl_total_bytes sb' = 264"
proof -
  have "buf_class 100 = 0" by (simp add: buf_class_def)
  then show ?thesis using sysbuf_total_counts_failures [OF demo_sysbuf_inv, of 100 "\<lambda>_. None"]
    by (simp add: demo_sysbuf_def fresh_ctrls_def all_free_def sizeof_mem_block_ctrl_def)
qed

text \<open>
  C31: Whatever a program does with the buffers (allocating while the C heap grants or refuses,
  freeing buffers it holds), the buffers it holds at any time are pairwise distinct.
\<close>

theorem sysbuf_history_distinct:
  assumes "pool_hist buf_get buf_put (\<lambda>(malloc, n) (sb, H). heap_ok malloc sb H) (sb0, {}) hs (sb, H)"
    "sysbuf_inv sb0 {}"
  shows "distinct hs \<and> set hs = H \<and> sysbuf_inv sb H"
  using sysbufs.hist_held [OF assms(1)] assms(2) by auto

theorem sysbuf_history_distinct_witness:
  "sysbuf_inv demo_sysbuf {} \<and>
   (\<exists>p sb. pool_hist buf_get buf_put (\<lambda>(malloc, n) (sb, H). heap_ok malloc sb H) (demo_sysbuf, {}) [p] (sb, {p}) \<and>
      sysbuf_inv sb {p})"
proof -
  let ?m = "\<lambda>k. if k < 2 then Some (0x1000 * of_nat (Suc k) :: u64) else None"
  obtain p sb where a: "psmi_mq_sysbuf_alloc ?m 300 demo_sysbuf = Inr (Some p, sb)"
    by (rule alloc_cases [OF demo_sysbuf_inv demo_heap, of 300]) (auto simp: demo_sysbuf_def)
  have h: "pool_hist buf_get buf_put (\<lambda>(malloc, n) (sb, H). heap_ok malloc sb H) (demo_sysbuf, {}) [p] (sb, {p})"
    by (rule pool_hist.take [where m = "(?m, 300)", OF pool_hist.start])
      (use demo_heap a in \<open>simp_all add: buf_get_def\<close>)
  show ?thesis using sysbuf_history_distinct [OF h demo_sysbuf_inv] h demo_sysbuf_inv by blast
qed

text \<open>
  Initialisation succeeds whenever the C heap does, and leaves an allocator with nothing in
  use.
\<close>

theorem sysbuf_init_correct:
  assumes "\<not> mem_ctrl_is_init sb" "malloc_calls sb + 1000 < 2 ^ 32" "heap_willing malloc (malloc_calls sb)"
  shows "\<exists>sb'. psmi_mq_sysbuf_init malloc sb = Inr sb' \<and> sysbuf_inv sb' {}"
  using init_inv [OF assms] .

theorem sysbuf_init_correct_witness:
  "heap_willing (\<lambda>k. if k < 1000 then Some (0x10000 * of_nat k) else None) 0 \<and>
   (\<exists>sb'. psmi_mq_sysbuf_init (\<lambda>k. if k < 1000 then Some (0x10000 * of_nat k) else None)
      (demo_sysbuf\<lparr>mem_ctrl_is_init := False\<rparr>) = Inr sb' \<and> sysbuf_inv sb' {})"
proof -
  let ?m = "\<lambda>k. if k < 1000 then Some (0x10000 * of_nat k :: u64) else None"
  have "unat (0x10000 * of_nat k :: u64) = 0x10000 * k" if "k < 1000" for k
    using that unat_of_nat [of "0x10000 * k", where 'a = 64] by simp
  then have "0x10000 * of_nat j = (0x10000 * of_nat k :: u64) \<Longrightarrow> j = k" if "j < 1000" "k < 1000" for j k
    using that by (metis mult_left_cancel zero_neq_numeral)
  then have w: "heap_willing ?m 0" by (auto simp: heap_willing_def split: if_splits)
  then show ?thesis using sysbuf_init_correct [of "demo_sysbuf\<lparr>mem_ctrl_is_init := False\<rparr>" ?m] by (simp add: demo_sysbuf_def)
qed

end
