(* ===== verification/MQ_Queues.thy ===== *)
theory MQ_Queues
  imports Tailq
begin

text \<open>
  The queues of the matched-queue engine at the level of pointers: \<^verbatim>\<open>struct mqq\<close>, \<^verbatim>\<open>struct mqsq\<close>
  and the operations on them from \<^verbatim>\<open>src/psm_mq_internal.h\<close> and \<^verbatim>\<open>src/psm_mq.c\<close>. The expected, the
  unexpected and the completed queue share the link fields \<^verbatim>\<open>next\<close> and \<^verbatim>\<open>pprev\<close> of the requests, so
  one record holds the three queue heads and the links of all requests, and pointers to pointers
  are locations.

  Shown: every operation does to the three lists exactly what the list operations used by the
  matched-queue theory do (append at the end, find the first match, remove it), keeps the queues
  disjoint and leaves the other two queues alone; the completed queue is a second instance of
  the interface \<open>linked_queue\<close>.
\<close>

unbundle bit_operations_syntax

section \<open>State\<close>

datatype mq_queue = ExpectedQ | UnexpectedQ | CompletedQ

text \<open>What a \<^verbatim>\<open>psm_mq_req_t *\<close> can point to: the \<^verbatim>\<open>first\<close> field of a queue or the \<^verbatim>\<open>next\<close> of a request.\<close>

datatype 'r mloc = FirstOf mq_queue | NextOf 'r

record 'r mqlinks =
  q_first :: "mq_queue \<Rightarrow> 'r option"
  q_lastp :: "mq_queue \<Rightarrow> 'r mloc"
  r_next :: "'r \<Rightarrow> 'r option"
  r_pprev :: "'r \<Rightarrow> 'r mloc"

fun ml_load :: "'r mqlinks \<Rightarrow> 'r mloc \<Rightarrow> 'r option" where
  "ml_load h (FirstOf q) = q_first h q"
| "ml_load h (NextOf r) = r_next h r"

fun ml_store :: "'r mloc \<Rightarrow> 'r option \<Rightarrow> 'r mqlinks \<Rightarrow> 'r mqlinks" where
  "ml_store (FirstOf q) v h = h\<lparr>q_first := (q_first h)(q := v)\<rparr>"
| "ml_store (NextOf r) v h = h\<lparr>r_next := (r_next h)(r := v)\<rparr>"

section \<open>Operations\<close>

definition mq_q_init :: "mq_queue \<Rightarrow> 'r mqlinks \<Rightarrow> 'r mqlinks" where
  "mq_q_init q h =
     (let h = ml_store (FirstOf q) None h
      in h\<lparr>q_lastp := (q_lastp h)(q := FirstOf q)\<rparr>)"

definition mq_qq_append :: "mq_queue \<Rightarrow> 'r \<Rightarrow> 'r mqlinks \<Rightarrow> 'r mqlinks" where
  "mq_qq_append q req h =
     (let h = ml_store (NextOf req) None h;
          h = h\<lparr>r_pprev := (r_pprev h)(req := q_lastp h q)\<rparr>;
          h = ml_store (q_lastp h q) (Some req) h
      in h\<lparr>q_lastp := (q_lastp h)(q := NextOf req)\<rparr>)"

definition mq_sq_append :: "mq_queue \<Rightarrow> 'r \<Rightarrow> 'r mqlinks \<Rightarrow> 'r mqlinks" where
  "mq_sq_append q req h =
     (let h = ml_store (NextOf req) None h;
          h = ml_store (q_lastp h q) (Some req) h
      in h\<lparr>q_lastp := (q_lastp h)(q := NextOf req)\<rparr>)"

definition mq_qq_remove :: "mq_queue \<Rightarrow> 'r \<Rightarrow> 'r mqlinks \<Rightarrow> 'r mqlinks" where
  "mq_qq_remove q req h =
     (let h = (case r_next h req of
                 Some n \<Rightarrow> h\<lparr>r_pprev := (r_pprev h)(n := r_pprev h req)\<rparr>
               | None \<Rightarrow> h\<lparr>q_lastp := (q_lastp h)(q := r_pprev h req)\<rparr>)
      in ml_store (r_pprev h req) (r_next h req) h)"

text \<open>
  The search loop that \<^verbatim>\<open>mq_req_match\<close>, \<^verbatim>\<open>mq_req_match_with_tagsel\<close> and
  \<^verbatim>\<open>mq_req_remove_single\<close> share: the cursor \<^verbatim>\<open>curp\<close> and the request found there. On a cyclic queue
  it would not end, which is \<open>None\<close>.
\<close>

partial_function (option) mq_search :: "('r \<Rightarrow> bool) \<Rightarrow> 'r mqlinks \<Rightarrow> 'r mloc \<Rightarrow> ('r mloc \<times> 'r) option option" where
  "mq_search p h curp =
     (case ml_load h curp of
        None \<Rightarrow> Some None
      | Some cur \<Rightarrow> if p cur then Some (Some (curp, cur)) else mq_search p h (NextOf cur))"

text \<open>Unlinking at the cursor: \<^verbatim>\<open>if ((*curp = cur->next) == NULL) q->lastp = curp; cur->next = NULL\<close>.\<close>

definition mq_unlink :: "mq_queue \<Rightarrow> 'r mloc \<Rightarrow> 'r \<Rightarrow> 'r mqlinks \<Rightarrow> 'r mqlinks" where
  "mq_unlink q curp cur h =
     (let n = r_next h cur;
          h = ml_store curp n h;
          h = (if n = None then h\<lparr>q_lastp := (q_lastp h)(q := curp)\<rparr> else h)
      in ml_store (NextOf cur) None h)"

definition mq_search_remove ::
  "('r \<Rightarrow> bool) \<Rightarrow> mq_queue \<Rightarrow> bool \<Rightarrow> 'r mqlinks \<Rightarrow> ('r option \<times> 'r mqlinks) option" where
  "mq_search_remove p q remove h =
     map_option (\<lambda>res. case res of
         None \<Rightarrow> (None, h)
       | Some (curp, cur) \<Rightarrow> (Some cur, if remove then mq_unlink q curp cur h else h))
       (mq_search p h (FirstOf q))"

text \<open>\<open>tag_of\<close> and \<open>tagsel_of\<close> are the fields of the requests the loops read.\<close>

definition mq_req_match ::
  "('r \<Rightarrow> u64) \<Rightarrow> ('r \<Rightarrow> u64) \<Rightarrow> mq_queue \<Rightarrow> u64 \<Rightarrow> bool \<Rightarrow> 'r mqlinks \<Rightarrow> ('r option \<times> 'r mqlinks) option" where
  "mq_req_match tag_of tagsel_of q tag remove =
     mq_search_remove (\<lambda>cur. (tag XOR tag_of cur) AND tagsel_of cur = 0) q remove"

definition mq_req_match_with_tagsel ::
  "('r \<Rightarrow> u64) \<Rightarrow> mq_queue \<Rightarrow> u64 \<Rightarrow> u64 \<Rightarrow> bool \<Rightarrow> 'r mqlinks \<Rightarrow> ('r option \<times> 'r mqlinks) option" where
  "mq_req_match_with_tagsel tag_of q tag tagsel remove =
     mq_search_remove (\<lambda>cur. (tag XOR tag_of cur) AND tagsel = 0) q remove"

definition mq_req_remove_single :: "mq_queue \<Rightarrow> 'r \<Rightarrow> 'r mqlinks \<Rightarrow> (bool \<times> 'r mqlinks) option" where
  "mq_req_remove_single q req h =
     map_option (\<lambda>(r, h). (r \<noteq> None, h)) (mq_search_remove (\<lambda>cur. cur = req) q True h)"

section \<open>The lists the pointers represent\<close>

fun ml_seg :: "'r mqlinks \<Rightarrow> 'r mloc \<Rightarrow> 'r list \<Rightarrow> 'r mloc \<Rightarrow> bool" where
  "ml_seg h l [] l' \<longleftrightarrow> l = l'"
| "ml_seg h l (x # xs) l' \<longleftrightarrow> ml_load h l = Some x \<and> ml_seg h (NextOf x) xs l'"

fun ml_back :: "'r mqlinks \<Rightarrow> 'r mloc \<Rightarrow> 'r list \<Rightarrow> bool" where
  "ml_back h l [] \<longleftrightarrow> True"
| "ml_back h l (x # xs) \<longleftrightarrow> r_pprev h x = l \<and> ml_back h (NextOf x) xs"

definition sq_rep :: "mq_queue \<Rightarrow> 'r mqlinks \<Rightarrow> 'r list \<Rightarrow> bool" where
  "sq_rep q h xs \<longleftrightarrow> ml_seg h (FirstOf q) xs (q_lastp h q) \<and> ml_load h (q_lastp h q) = None \<and> distinct xs"

definition qq_rep :: "mq_queue \<Rightarrow> 'r mqlinks \<Rightarrow> 'r list \<Rightarrow> bool" where
  "qq_rep q h xs \<longleftrightarrow> sq_rep q h xs \<and> ml_back h (FirstOf q) xs"

lemma ml_load_store [simp]: "ml_load (ml_store l v h) l' = (if l' = l then v else ml_load h l')"
  by (cases l; cases l') auto

lemma ml_store_frame [simp]:
  "q_lastp (ml_store l v h) = q_lastp h" "r_pprev (ml_store l v h) = r_pprev h"
  by (cases l; simp)+

lemma ml_load_frame [simp]:
  "ml_load (h\<lparr>q_lastp := f\<rparr>) l = ml_load h l" "ml_load (h\<lparr>r_pprev := g\<rparr>) l = ml_load h l"
  by (cases l; simp)+

text \<open>From here on the links are read through locations only.\<close>

lemma link_loads: "r_next h r = ml_load h (NextOf r)" "q_first h q = ml_load h (FirstOf q)"
  by simp_all

declare ml_load.simps [simp del] ml_store.simps [simp del] link_loads [simp]

text \<open>The locations a segment reads.\<close>

definition seg_locs :: "'r mloc \<Rightarrow> 'r list \<Rightarrow> 'r mloc set" where
  "seg_locs l xs = insert l (NextOf ` set xs)"

lemma ml_seg_cong:
  "(\<And>l'. l' \<in> seg_locs l xs \<Longrightarrow> ml_load h l' = ml_load h' l') \<Longrightarrow> ml_seg h l xs e = ml_seg h' l xs e"
  by (induction xs arbitrary: l) (auto simp: seg_locs_def)

lemma ml_back_cong:
  "(\<And>x. x \<in> set xs \<Longrightarrow> r_pprev h x = r_pprev h' x) \<Longrightarrow> ml_back h l xs = ml_back h' l xs"
  by (induction xs arbitrary: l) auto

lemma ml_seg_append: "ml_seg h l (xs @ ys) e \<longleftrightarrow> (\<exists>m. ml_seg h l xs m \<and> ml_seg h m ys e)"
  by (induction xs arbitrary: l) auto

lemma ml_back_append: "ml_seg h l xs m \<Longrightarrow> ml_back h l (xs @ ys) \<longleftrightarrow> ml_back h l xs \<and> ml_back h m ys"
  by (induction xs arbitrary: l) auto

lemma seg_end: "ml_seg h l xs e \<Longrightarrow> e = (if xs = [] then l else NextOf (last xs))"
  by (induction xs arbitrary: l) (auto split: if_splits)

lemma seg_end_in: "ml_seg h l xs e \<Longrightarrow> e \<in> seg_locs l xs"
  using seg_end [of h l xs e] by (auto simp: seg_locs_def split: if_splits)

text \<open>A segment does not read the location it ends at.\<close>

lemma ml_seg_upd:
  "ml_seg h l xs e \<Longrightarrow> distinct xs \<Longrightarrow> l \<notin> NextOf ` set xs \<Longrightarrow>
   (\<And>l'. l' \<in> seg_locs l xs \<Longrightarrow> l' \<noteq> e \<Longrightarrow> ml_load h' l' = ml_load h l') \<Longrightarrow> ml_seg h' l xs e"
proof (induction xs arbitrary: l)
  case (Cons x xs)
  have "e \<in> NextOf ` set (x # xs)" using seg_end [OF Cons.prems(1)] by auto
  then have "l \<noteq> e" using Cons.prems(3) by auto
  then have "ml_load h' l = Some x" using Cons.prems(1,4) by (auto simp: seg_locs_def)
  moreover have "ml_seg h' (NextOf x) xs e"
    using Cons.prems by (intro Cons.IH) (auto simp: seg_locs_def)
  ultimately show ?case by simp
qed simp

lemma sq_rep_frame:
  assumes "sq_rep q h ys" "\<And>l. l \<in> seg_locs (FirstOf q) ys \<Longrightarrow> ml_load h' l = ml_load h l"
    "q_lastp h' q = q_lastp h q"
  shows "sq_rep q h' ys"
  using assms ml_seg_cong [of "FirstOf q" ys h h' "q_lastp h q"] seg_end_in [of h "FirstOf q" ys "q_lastp h q"]
  by (auto simp: sq_rep_def)

lemma qq_rep_frame:
  assumes "qq_rep q h ys" "\<And>l. l \<in> seg_locs (FirstOf q) ys \<Longrightarrow> ml_load h' l = ml_load h l"
    "q_lastp h' q = q_lastp h q" "\<And>y. y \<in> set ys \<Longrightarrow> r_pprev h' y = r_pprev h y"
  shows "qq_rep q h' ys"
  using assms sq_rep_frame [of q h ys h'] ml_back_cong [of ys h h' "FirstOf q"] by (auto simp: qq_rep_def)

section \<open>Appending\<close>

lemma sq_append_load:
  "ml_load (mq_sq_append q x h) l =
     (if l = q_lastp h q then Some x else if l = NextOf x then None else ml_load h l)"
  by (simp add: mq_sq_append_def Let_def)

lemma qq_append_load:
  "ml_load (mq_qq_append q x h) l =
     (if l = q_lastp h q then Some x else if l = NextOf x then None else ml_load h l)"
  by (simp add: mq_qq_append_def Let_def)

lemma append_frame [simp]:
  "q_lastp (mq_sq_append q x h) = (q_lastp h)(q := NextOf x)" "r_pprev (mq_sq_append q x h) = r_pprev h"
  "q_lastp (mq_qq_append q x h) = (q_lastp h)(q := NextOf x)"
  "r_pprev (mq_qq_append q x h) = (r_pprev h)(x := q_lastp h q)"
  by (simp_all add: mq_sq_append_def mq_qq_append_def Let_def)

lemma append_rep:
  assumes rep: "sq_rep q h xs" and x: "x \<notin> set xs"
    and load: "\<And>l. ml_load h' l = (if l = q_lastp h q then Some x else if l = NextOf x then None else ml_load h l)"
    and last: "q_lastp h' q = NextOf x"
  shows "sq_rep q h' (xs @ [x])"
proof -
  let ?e = "q_lastp h q"
  have e: "?e \<in> seg_locs (FirstOf q) xs" "?e \<noteq> NextOf x"
    using rep x seg_end_in [of h "FirstOf q" xs ?e] by (auto simp: sq_rep_def seg_locs_def)
  have "ml_seg h' (FirstOf q) xs ?e"
    by (rule ml_seg_upd [of h]) (use rep x load in \<open>auto simp: sq_rep_def seg_locs_def\<close>)
  then show ?thesis using rep x load last e(2) by (auto simp: sq_rep_def ml_seg_append)
qed

lemma sq_append_rep: "sq_rep q h xs \<Longrightarrow> x \<notin> set xs \<Longrightarrow> sq_rep q (mq_sq_append q x h) (xs @ [x])"
  by (rule append_rep) (simp_all add: sq_append_load)

lemma qq_append_rep:
  assumes "qq_rep q h xs" "x \<notin> set xs"
  shows "qq_rep q (mq_qq_append q x h) (xs @ [x])"
proof -
  let ?h = "mq_qq_append q x h"
  have s: "sq_rep q h xs" "ml_back h (FirstOf q) xs" using assms(1) by (simp_all add: qq_rep_def)
  have s': "sq_rep q ?h (xs @ [x])" by (rule append_rep [OF s(1) assms(2)]) (simp_all add: qq_append_load)
  then obtain m where m: "ml_seg ?h (FirstOf q) xs m" by (auto simp: sq_rep_def ml_seg_append)
  have "m = q_lastp h q"
    using seg_end [OF m] seg_end [of h "FirstOf q" xs "q_lastp h q"] s(1) by (simp add: sq_rep_def)
  moreover have "ml_back ?h (FirstOf q) xs"
  proof -
    have "ml_back ?h (FirstOf q) xs = ml_back h (FirstOf q) xs" using assms(2) by (intro ml_back_cong) auto
    then show ?thesis using s(2) by simp
  qed
  ultimately show ?thesis using s' by (simp add: qq_rep_def ml_back_append [OF m])
qed

section \<open>Searching and unlinking\<close>

lemma mq_search_find:
  "ml_seg h m bs e \<Longrightarrow> ml_load h e = None \<Longrightarrow>
   (case find p bs of
      None \<Rightarrow> mq_search p h m = Some None
    | Some c \<Rightarrow> \<exists>as bs' m'. bs = as @ c # bs' \<and> ml_seg h m as m' \<and> mq_search p h m = Some (Some (m', c)))"
proof (induction bs arbitrary: m)
  case Nil
  then show ?case by (simp add: mq_search.simps)
next
  case (Cons b bs)
  show ?case
  proof (cases "p b")
    case True
    then show ?thesis using Cons.prems by (simp add: mq_search.simps) (metis append_Nil ml_seg.simps(1))
  next
    case False
    have s: "mq_search p h m = mq_search p h (NextOf b)" using Cons.prems False by (subst mq_search.simps) simp
    have IH: "case find p bs of
      None \<Rightarrow> mq_search p h (NextOf b) = Some None
    | Some c \<Rightarrow> \<exists>as bs' m'. bs = as @ c # bs' \<and> ml_seg h (NextOf b) as m' \<and> mq_search p h (NextOf b) = Some (Some (m', c))"
      using Cons.prems by (intro Cons.IH) simp_all
    show ?thesis
    proof (cases "find p bs")
      case None
      then show ?thesis using IH False s by simp
    next
      case (Some c)
      then obtain as bs' m' where "bs = as @ c # bs'" "ml_seg h (NextOf b) as m'"
        "mq_search p h (NextOf b) = Some (Some (m', c))" using IH by auto
      then have "b # bs = (b # as) @ c # bs' \<and> ml_seg h m (b # as) m' \<and> mq_search p h m = Some (Some (m', c))"
        using s Cons.prems(1) by simp
      moreover have "find p (b # bs) = Some c" using Some False by simp
      ultimately show ?thesis by (metis (mono_tags, lifting) option.simps(5))
    qed
  qed
qed

lemma unlink_load:
  "curp \<noteq> NextOf c \<Longrightarrow> ml_load (mq_unlink q curp c h) l =
     (if l = NextOf c then None else if l = curp then r_next h c else ml_load h l)"
  by (simp add: mq_unlink_def Let_def)

lemma unlink_frame [simp]:
  "r_pprev (mq_unlink q curp c h) = r_pprev h"
  "q_lastp (mq_unlink q curp c h) = (if r_next h c = None then (q_lastp h)(q := curp) else q_lastp h)"
  by (simp_all add: mq_unlink_def Let_def)

lemma unlink_rep_gen:
  assumes rep: "sq_rep q h (as @ c # bs)" and as: "ml_seg h (FirstOf q) as curp"
    and load: "\<And>l. l \<noteq> NextOf c \<Longrightarrow> ml_load h' l = (if l = curp then r_next h c else ml_load h l)"
    and last: "q_lastp h' q = (if r_next h c = None then curp else q_lastp h q)"
  shows "sq_rep q h' (as @ bs)"
proof -
  let ?e = "q_lastp h q"
  have d: "distinct (as @ c # bs)" using rep by (simp add: sq_rep_def)
  have ce: "curp \<in> seg_locs (FirstOf q) as" using seg_end_in [OF as] .
  have cb: "curp \<notin> NextOf ` set bs" "curp \<noteq> NextOf c" using ce d by (auto simp: seg_locs_def)
  have nc: "\<forall>x \<in> set as \<union> set bs. x \<noteq> c" using d by auto
  have b: "ml_seg h (NextOf c) bs ?e" "ml_load h ?e = None"
    using rep as seg_end [OF as] unfolding sq_rep_def ml_seg_append by (metis ml_seg.simps(2) seg_end)+
  have a': "ml_seg h' (FirstOf q) as curp"
    by (rule ml_seg_upd [OF as]) (use d load nc in \<open>auto simp: seg_locs_def\<close>)
  show ?thesis
  proof (cases bs)
    case Nil
    then have "?e = NextOf c" using b(1) by simp
    then have "r_next h c = None" using b(2) by simp
    then show ?thesis using a' Nil d load [OF cb(2)] last by (simp add: sq_rep_def)
  next
    case (Cons b1 bs1)
    then have n: "r_next h c = Some b1" "ml_seg h (NextOf b1) bs1 ?e" using b(1) by auto
    have "ml_seg h' (NextOf b1) bs1 ?e"
      by (rule ml_seg_upd [OF n(2)]) (use d load cb nc Cons in \<open>auto simp: seg_locs_def\<close>)
    moreover have "ml_load h' ?e = None"
      using b(2) load [of ?e] seg_end_in [OF n(2)] d cb nc Cons by (auto simp: seg_locs_def)
    ultimately show ?thesis using a' n Cons d load [OF cb(2)] last by (auto simp: sq_rep_def ml_seg_append)
  qed
qed

lemma unlink_rep:
  assumes rep: "sq_rep q h (as @ c # bs)" and as: "ml_seg h (FirstOf q) as curp"
  shows "sq_rep q (mq_unlink q curp c h) (as @ bs)" "curp \<noteq> NextOf c"
proof -
  show n: "curp \<noteq> NextOf c" using seg_end_in [OF as] rep by (auto simp: seg_locs_def sq_rep_def)
  show "sq_rep q (mq_unlink q curp c h) (as @ bs)"
    by (rule unlink_rep_gen [OF assms]) (use unlink_load [OF n] in auto)
qed

text \<open>The whole search, on the list it represents.\<close>

definition list_search_remove :: "('r \<Rightarrow> bool) \<Rightarrow> bool \<Rightarrow> 'r list \<Rightarrow> 'r option \<times> 'r list" where
  "list_search_remove p remove xs =
     (case find p xs of None \<Rightarrow> (None, xs) | Some c \<Rightarrow> (Some c, if remove then remove1 c xs else xs))"

lemma search_remove_rep:
  assumes rep: "sq_rep q h xs"
  obtains h' where "mq_search_remove p q remove h = Some (fst (list_search_remove p remove xs), h')"
    "sq_rep q h' (snd (list_search_remove p remove xs))" "r_pprev h' = r_pprev h"
    "\<And>l. l \<notin> seg_locs (FirstOf q) xs \<Longrightarrow> ml_load h' l = ml_load h l" "\<And>q'. q' \<noteq> q \<Longrightarrow> q_lastp h' q' = q_lastp h q'"
proof -
  have seg: "ml_seg h (FirstOf q) xs (q_lastp h q)" "ml_load h (q_lastp h q) = None" "distinct xs"
    using rep by (simp_all add: sq_rep_def)
  note F = mq_search_find [OF seg(1,2), of p]
  show ?thesis
  proof (cases "find p xs")
    case None
    then show ?thesis using that [of h] F rep by (simp add: mq_search_remove_def list_search_remove_def)
  next
    case (Some c)
    then obtain as bs m where s: "xs = as @ c # bs" "ml_seg h (FirstOf q) as m"
      "mq_search p h (FirstOf q) = Some (Some (m, c))" using F by auto
    note U = unlink_rep [OF rep [unfolded s(1)] s(2)]
    have r: "remove1 c xs = as @ bs" using seg(3) s(1) by (simp add: remove1_append)
    have fr: "ml_load (mq_unlink q m c h) l = ml_load h l" if "l \<notin> seg_locs (FirstOf q) xs" for l
      using unlink_load [OF U(2), of q h l] seg_end_in [OF s(2)] that s(1) by (auto simp: seg_locs_def)
    show ?thesis
    proof (cases remove)
      case True
      then show ?thesis using that [of "mq_unlink q m c h"] s(3) U(1) r fr Some
        by (simp add: mq_search_remove_def list_search_remove_def)
    next
      case False
      then show ?thesis using that [of h] s(3) rep Some by (simp add: mq_search_remove_def list_search_remove_def)
    qed
  qed
qed

section \<open>Removing from the completed queue\<close>

lemma qq_remove_rep:
  assumes rep: "qq_rep q h (as @ c # bs)"
  shows "qq_rep q (mq_qq_remove q c h) (as @ bs)"
proof -
  let ?h = "mq_qq_remove q c h"
  have s: "sq_rep q h (as @ c # bs)" and bk: "ml_back h (FirstOf q) (as @ c # bs)" using rep by (simp_all add: qq_rep_def)
  obtain m where m: "ml_seg h (FirstOf q) as m" "ml_seg h m (c # bs) (q_lastp h q)"
    using s by (auto simp: sq_rep_def ml_seg_append)
  have B: "ml_back h (FirstOf q) as" "r_pprev h c = m" "ml_back h (NextOf c) bs"
    using bk by (simp_all add: ml_back_append [OF m(1)])
  have d: "distinct (as @ c # bs)" using s by (simp add: sq_rep_def)
  have pc: "r_pprev ?h x = (if ml_load h (NextOf c) = Some x then m else r_pprev h x)" for x
    using B(2) by (auto simp: mq_qq_remove_def Let_def split: option.split)
  have load: "ml_load ?h l = (if l = m then ml_load h (NextOf c) else ml_load h l)" for l
    using B(2) d m(2) by (auto simp: mq_qq_remove_def Let_def split: option.split)
  have s': "sq_rep q ?h (as @ bs)"
    by (rule unlink_rep_gen [OF s m(1)]) (use load B(2) in \<open>auto simp: mq_qq_remove_def Let_def split: option.split\<close>)
  obtain m' where m': "ml_seg ?h (FirstOf q) as m'" using s' by (auto simp: sq_rep_def ml_seg_append)
  have "m' = m" using seg_end [OF m'] seg_end [OF m(1)] by simp
  have nx: "ml_load h (NextOf c) = (case bs of [] \<Rightarrow> None | b # _ \<Rightarrow> Some b)"
    using m(2) s by (cases bs) (auto simp: sq_rep_def)
  have "r_pprev ?h x = r_pprev h x" if "x \<in> set as" for x
    using pc [of x] d nx that by (cases bs) auto
  then have "ml_back ?h (FirstOf q) as" using B(1) ml_back_cong [of as ?h h "FirstOf q"] by simp
  moreover have "ml_back ?h m bs"
  proof (cases bs)
    case (Cons b bs1)
    have "ml_back ?h (NextOf b) bs1 = ml_back h (NextOf b) bs1"
      by (rule ml_back_cong) (use pc d nx Cons in auto)
    then show ?thesis using Cons B(3) pc [of b] nx by simp
  qed simp
  ultimately show ?thesis using s' \<open>m' = m\<close> by (simp add: qq_rep_def ml_back_append [OF m'])
qed

lemma qq_remove1_rep: "qq_rep q h xs \<Longrightarrow> x \<in> set xs \<Longrightarrow> qq_rep q (mq_qq_remove q x h) (remove1 x xs)"
proof -
  assume rep: "qq_rep q h xs" and x: "x \<in> set xs"
  then obtain as bs where xs: "xs = as @ x # bs" "x \<notin> set as" by (metis split_list_first)
  then show ?thesis using qq_remove_rep [of q h as x bs] rep by (simp add: remove1_split)
qed

interpretation compq: linked_queue "qq_rep CompletedQ" "\<lambda>h. q_first h CompletedQ"
  "mq_qq_append CompletedQ" "mq_qq_remove CompletedQ"
proof
  fix h xs assume rep: "qq_rep CompletedQ h xs"
  show "distinct xs" using rep by (simp add: qq_rep_def sq_rep_def)
  show "q_first h CompletedQ = (case xs of [] \<Rightarrow> None | x # _ \<Rightarrow> Some x)"
    using rep by (cases xs) (auto simp: qq_rep_def sq_rep_def)
qed (auto intro: qq_append_rep qq_remove1_rep)

section \<open>The three queues together\<close>

text \<open>The abstract state: three lists. \<open>mqlists_ok\<close>: no request is in two places.\<close>

type_synonym 'r mqlists = "mq_queue \<Rightarrow> 'r list"

definition mq_rep :: "'r mqlinks \<Rightarrow> 'r mqlists \<Rightarrow> bool" where
  "mq_rep h Q \<longleftrightarrow> (\<forall>q. sq_rep q h (Q q)) \<and> ml_back h (FirstOf CompletedQ) (Q CompletedQ) \<and>
     (\<forall>q q'. q \<noteq> q' \<longrightarrow> set (Q q) \<inter> set (Q q') = {})"

lemma mq_repD:
  assumes "mq_rep h Q"
  shows "sq_rep q h (Q q)" "qq_rep CompletedQ h (Q CompletedQ)" "q \<noteq> q' \<Longrightarrow> set (Q q) \<inter> set (Q q') = {}"
  using assms by (auto simp: mq_rep_def qq_rep_def)

lemma mq_repI:
  assumes old: "mq_rep h Q" and q: "sq_rep q h' xs" and xs: "\<And>q'. q' \<noteq> q \<Longrightarrow> set xs \<inter> set (Q q') = {}"
    and bk: "if q = CompletedQ then ml_back h' (FirstOf q) xs
               else \<forall>x \<in> set (Q CompletedQ). r_pprev h' x = r_pprev h x"
    and fr: "\<And>q' l. q' \<noteq> q \<Longrightarrow> l \<in> seg_locs (FirstOf q') (Q q') \<Longrightarrow> ml_load h' l = ml_load h l"
    and last: "\<And>q'. q' \<noteq> q \<Longrightarrow> q_lastp h' q' = q_lastp h q'"
  shows "mq_rep h' (Q(q := xs))"
proof -
  have "sq_rep q' h' ((Q(q := xs)) q')" for q'
    using q sq_rep_frame [OF mq_repD(1) [OF old, of q'], of h'] fr last by (cases "q' = q") auto
  moreover have "ml_back h' (FirstOf CompletedQ) ((Q(q := xs)) CompletedQ)"
  proof (cases "q = CompletedQ")
    case False
    then have "ml_back h' (FirstOf CompletedQ) (Q CompletedQ) = ml_back h (FirstOf CompletedQ) (Q CompletedQ)"
      using bk by (intro ml_back_cong) auto
    then show ?thesis using False mq_repD(2) [OF old] by (simp add: qq_rep_def)
  qed (use bk in auto)
  moreover have "set ((Q(q := xs)) q1) \<inter> set ((Q(q := xs)) q2) = {}" if "q1 \<noteq> q2" for q1 q2
    using that xs [of q1] xs [of q2] mq_repD(3) [OF old that] by auto
  ultimately show ?thesis by (auto simp: mq_rep_def)
qed

lemma mq_rep_last: "mq_rep h Q \<Longrightarrow> q_lastp h q \<in> seg_locs (FirstOf q) (Q q)"
  using mq_repD(1) [of h Q q] seg_end_in [of h "FirstOf q" "Q q" "q_lastp h q"] by (simp add: sq_rep_def)

lemma seg_locs_other: "q \<noteq> q' \<Longrightarrow> set xs \<inter> set ys = {} \<Longrightarrow> seg_locs (FirstOf q) xs \<inter> seg_locs (FirstOf q') ys = {}"
  by (auto simp: seg_locs_def)

lemma mq_sq_append_mq_rep:
  assumes r: "mq_rep h Q" and q: "q \<noteq> CompletedQ" and x: "\<forall>q. x \<notin> set (Q q)"
  shows "mq_rep (mq_sq_append q x h) (Q(q := Q q @ [x]))"
proof (rule mq_repI [OF r])
  show "sq_rep q (mq_sq_append q x h) (Q q @ [x])" using sq_append_rep [OF mq_repD(1) [OF r]] x by blast
  show "set (Q q @ [x]) \<inter> set (Q q') = {}" if "q' \<noteq> q" for q'
    using mq_repD(3) [OF r, of q q'] that x by auto
  show "ml_load (mq_sq_append q x h) l = ml_load h l" if "q' \<noteq> q" "l \<in> seg_locs (FirstOf q') (Q q')" for q' l
  proof -
    have "l \<noteq> q_lastp h q" "l \<noteq> NextOf x"
      using mq_rep_last [OF r, of q] seg_locs_other [of q q' "Q q" "Q q'"] mq_repD(3) [OF r, of q q'] that x
      by (auto simp: seg_locs_def)
    then show ?thesis by (simp add: sq_append_load)
  qed
qed (use q in auto)

lemma mq_qq_append_mq_rep:
  assumes r: "mq_rep h Q" and x: "\<forall>q. x \<notin> set (Q q)"
  shows "mq_rep (mq_qq_append CompletedQ x h) (Q(CompletedQ := Q CompletedQ @ [x]))"
proof (rule mq_repI [OF r])
  have qq: "qq_rep CompletedQ (mq_qq_append CompletedQ x h) (Q CompletedQ @ [x])"
    using compq.rep_append [OF mq_repD(2) [OF r]] x by blast
  then show "sq_rep CompletedQ (mq_qq_append CompletedQ x h) (Q CompletedQ @ [x])" by (simp add: qq_rep_def)
  show "if CompletedQ = CompletedQ then ml_back (mq_qq_append CompletedQ x h) (FirstOf CompletedQ) (Q CompletedQ @ [x])
      else \<forall>y \<in> set (Q CompletedQ). r_pprev (mq_qq_append CompletedQ x h) y = r_pprev h y"
    using qq by (simp add: qq_rep_def)
  show "set (Q CompletedQ @ [x]) \<inter> set (Q q') = {}" if "q' \<noteq> CompletedQ" for q'
    using mq_repD(3) [OF r, of CompletedQ q'] that x by auto
  show "ml_load (mq_qq_append CompletedQ x h) l = ml_load h l" if "q' \<noteq> CompletedQ" "l \<in> seg_locs (FirstOf q') (Q q')" for q' l
  proof -
    have "l \<noteq> q_lastp h CompletedQ" "l \<noteq> NextOf x"
      using mq_rep_last [OF r, of CompletedQ] seg_locs_other [of CompletedQ q' "Q CompletedQ" "Q q'"]
        mq_repD(3) [OF r, of CompletedQ q'] that x
      by (auto simp: seg_locs_def)
    then show ?thesis by (simp add: qq_append_load)
  qed
qed auto

lemma mq_search_mq_rep:
  assumes r: "mq_rep h Q" and q: "q \<noteq> CompletedQ"
  obtains h' where "mq_search_remove p q remove h = Some (fst (list_search_remove p remove (Q q)), h')"
    "mq_rep h' (Q(q := snd (list_search_remove p remove (Q q))))"
proof -
  obtain h' where h': "mq_search_remove p q remove h = Some (fst (list_search_remove p remove (Q q)), h')"
    "sq_rep q h' (snd (list_search_remove p remove (Q q)))" "r_pprev h' = r_pprev h"
    "\<And>l. l \<notin> seg_locs (FirstOf q) (Q q) \<Longrightarrow> ml_load h' l = ml_load h l" "\<And>q'. q' \<noteq> q \<Longrightarrow> q_lastp h' q' = q_lastp h q'"
    using search_remove_rep [OF mq_repD(1) [OF r]] by metis
  have sub: "set (snd (list_search_remove p remove (Q q))) \<subseteq> set (Q q)"
    using set_remove1_subset [of _ "Q q"] by (auto simp: list_search_remove_def subset_iff split: option.split)
  have "mq_rep h' (Q(q := snd (list_search_remove p remove (Q q))))"
  proof (rule mq_repI [OF r h'(2)])
    show "set (snd (list_search_remove p remove (Q q))) \<inter> set (Q q') = {}" if "q' \<noteq> q" for q'
      using sub mq_repD(3) [OF r, of q q'] that by auto
    show "ml_load h' l = ml_load h l" if "q' \<noteq> q" "l \<in> seg_locs (FirstOf q') (Q q')" for q' l
      using h'(4) [of l] seg_locs_other [of q q' "Q q" "Q q'"] mq_repD(3) [OF r, of q q'] that by auto
  qed (use q h'(3,5) in auto)
  then show ?thesis using that h'(1) by blast
qed

lemma qq_remove_frame:
  assumes "qq_rep q h xs" "x \<in> set xs" "l \<notin> seg_locs (FirstOf q) xs"
  shows "ml_load (mq_qq_remove q x h) l = ml_load h l"
proof -
  obtain as bs where xs: "xs = as @ x # bs" using assms(2) by (metis split_list)
  obtain m where m: "ml_seg h (FirstOf q) as m" "r_pprev h x = m"
    using assms(1) unfolding xs qq_rep_def sq_rep_def ml_seg_append by (metis ml_back.simps(2) ml_back_append)
  have "m \<in> seg_locs (FirstOf q) xs" using seg_end_in [OF m(1)] xs by (auto simp: seg_locs_def)
  then show ?thesis using m(2) assms(3) by (auto simp: mq_qq_remove_def Let_def split: option.split)
qed

lemma mq_qq_remove_mq_rep:
  assumes r: "mq_rep h Q" and x: "x \<in> set (Q CompletedQ)"
  shows "mq_rep (mq_qq_remove CompletedQ x h) (Q(CompletedQ := remove1 x (Q CompletedQ)))"
proof (rule mq_repI [OF r])
  have qq: "qq_rep CompletedQ (mq_qq_remove CompletedQ x h) (remove1 x (Q CompletedQ))"
    using compq.rep_remove [OF mq_repD(2) [OF r] x] .
  then show "sq_rep CompletedQ (mq_qq_remove CompletedQ x h) (remove1 x (Q CompletedQ))" by (simp add: qq_rep_def)
  show "if CompletedQ = CompletedQ then ml_back (mq_qq_remove CompletedQ x h) (FirstOf CompletedQ) (remove1 x (Q CompletedQ))
      else \<forall>y \<in> set (Q CompletedQ). r_pprev (mq_qq_remove CompletedQ x h) y = r_pprev h y"
    using qq by (simp add: qq_rep_def)
  show "set (remove1 x (Q CompletedQ)) \<inter> set (Q q') = {}" if "q' \<noteq> CompletedQ" for q'
    using mq_repD(3) [OF r, of CompletedQ q'] that set_remove1_subset [of x "Q CompletedQ"] by auto
  show "ml_load (mq_qq_remove CompletedQ x h) l = ml_load h l" if "q' \<noteq> CompletedQ" "l \<in> seg_locs (FirstOf q') (Q q')" for q' l
    by (rule qq_remove_frame [OF mq_repD(2) [OF r] x])
      (use that seg_locs_other [of CompletedQ q' "Q CompletedQ" "Q q'"] mq_repD(3) [OF r, of CompletedQ q'] in auto)
qed (auto simp: mq_qq_remove_def Let_def split: option.split)

lemma list_search_this:
  "fst (list_search_remove (\<lambda>c. c = x) True xs) = (if x \<in> set xs then Some x else None)"
  by (induction xs) (auto simp: list_search_remove_def split: option.splits)

section \<open>Properties\<close>

text \<open>The calls the engine makes, on the pointers and on the lists.\<close>

datatype 'r mqcall =
    SqAppend mq_queue 'r
  | QqAppend 'r
  | QqRemove 'r
  | Match mq_queue u64 bool
  | MatchTagsel mq_queue u64 u64 bool
  | RemoveSingle mq_queue 'r

fun mqcall_exec ::
  "('r \<Rightarrow> u64) \<Rightarrow> ('r \<Rightarrow> u64) \<Rightarrow> 'r mqcall \<Rightarrow> 'r mqlinks \<Rightarrow> ('r option \<times> 'r mqlinks) option" where
  "mqcall_exec tg ts (SqAppend q x) h = Some (None, mq_sq_append q x h)"
| "mqcall_exec tg ts (QqAppend x) h = Some (None, mq_qq_append CompletedQ x h)"
| "mqcall_exec tg ts (QqRemove x) h = Some (None, mq_qq_remove CompletedQ x h)"
| "mqcall_exec tg ts (Match q tag remove) h = mq_req_match tg ts q tag remove h"
| "mqcall_exec tg ts (MatchTagsel q tag tagsel remove) h = mq_req_match_with_tagsel tg q tag tagsel remove h"
| "mqcall_exec tg ts (RemoveSingle q x) h =
     map_option (\<lambda>(found, h). (if found then Some x else None, h)) (mq_req_remove_single q x h)"

fun mqcall_list :: "('r \<Rightarrow> u64) \<Rightarrow> ('r \<Rightarrow> u64) \<Rightarrow> 'r mqcall \<Rightarrow> 'r mqlists \<Rightarrow> 'r option \<times> 'r mqlists" where
  "mqcall_list tg ts (SqAppend q x) Q = (None, Q(q := Q q @ [x]))"
| "mqcall_list tg ts (QqAppend x) Q = (None, Q(CompletedQ := Q CompletedQ @ [x]))"
| "mqcall_list tg ts (QqRemove x) Q = (None, Q(CompletedQ := remove1 x (Q CompletedQ)))"
| "mqcall_list tg ts (Match q tag remove) Q =
     (let (r, xs) = list_search_remove (\<lambda>c. (tag XOR tg c) AND ts c = 0) remove (Q q) in (r, Q(q := xs)))"
| "mqcall_list tg ts (MatchTagsel q tag tagsel remove) Q =
     (let (r, xs) = list_search_remove (\<lambda>c. (tag XOR tg c) AND tagsel = 0) remove (Q q) in (r, Q(q := xs)))"
| "mqcall_list tg ts (RemoveSingle q x) Q =
     (let (r, xs) = list_search_remove (\<lambda>c. c = x) True (Q q) in (r, Q(q := xs)))"

fun mqcall_ok :: "'r mqcall \<Rightarrow> 'r mqlists \<Rightarrow> bool" where
  "mqcall_ok (SqAppend q x) Q \<longleftrightarrow> q \<noteq> CompletedQ \<and> (\<forall>q'. x \<notin> set (Q q'))"
| "mqcall_ok (QqAppend x) Q \<longleftrightarrow> (\<forall>q'. x \<notin> set (Q q'))"
| "mqcall_ok (QqRemove x) Q \<longleftrightarrow> x \<in> set (Q CompletedQ)"
| "mqcall_ok (Match q _ _) Q \<longleftrightarrow> q \<noteq> CompletedQ"
| "mqcall_ok (MatchTagsel q _ _ _) Q \<longleftrightarrow> q \<noteq> CompletedQ"
| "mqcall_ok (RemoveSingle q _) Q \<longleftrightarrow> q \<noteq> CompletedQ"

text \<open>
  C20: One call on the linked queues refines the same call on lists: it returns (the search loops
  end), finds the first matching request of the list, and afterwards the links of the three queues
  represent exactly the three lists, which stay disjoint.
\<close>

theorem mq_queues_refine_lists:
  assumes "mq_rep h Q" "mqcall_ok c Q"
  shows "\<exists>h'. mqcall_exec tg ts c h = Some (fst (mqcall_list tg ts c Q), h') \<and> mq_rep h' (snd (mqcall_list tg ts c Q))"
proof (cases c)
  case (SqAppend q x)
  then show ?thesis using mq_sq_append_mq_rep [OF assms(1), of q x] assms(2) by simp
next
  case (QqAppend x)
  then show ?thesis using mq_qq_append_mq_rep [OF assms(1), of x] assms(2) by simp
next
  case (QqRemove x)
  then show ?thesis using mq_qq_remove_mq_rep [OF assms(1), of x] assms(2) by simp
next
  case (Match q tag rm)
  obtain h' where "mq_search_remove (\<lambda>c. (tag XOR tg c) AND ts c = 0) q rm h =
      Some (fst (list_search_remove (\<lambda>c. (tag XOR tg c) AND ts c = 0) rm (Q q)), h')"
    "mq_rep h' (Q(q := snd (list_search_remove (\<lambda>c. (tag XOR tg c) AND ts c = 0) rm (Q q))))"
    by (rule mq_search_mq_rep [OF assms(1)]) (use Match assms(2) in auto)
  then show ?thesis using Match by (simp add: mq_req_match_def case_prod_unfold Let_def)
next
  case (MatchTagsel q tag tagsel rm)
  obtain h' where "mq_search_remove (\<lambda>c. (tag XOR tg c) AND tagsel = 0) q rm h =
      Some (fst (list_search_remove (\<lambda>c. (tag XOR tg c) AND tagsel = 0) rm (Q q)), h')"
    "mq_rep h' (Q(q := snd (list_search_remove (\<lambda>c. (tag XOR tg c) AND tagsel = 0) rm (Q q))))"
    by (rule mq_search_mq_rep [OF assms(1)]) (use MatchTagsel assms(2) in auto)
  then show ?thesis using MatchTagsel by (simp add: mq_req_match_with_tagsel_def case_prod_unfold Let_def)
next
  case (RemoveSingle q x)
  obtain h' where "mq_search_remove (\<lambda>c. c = x) q True h = Some (fst (list_search_remove (\<lambda>c. c = x) True (Q q)), h')"
    "mq_rep h' (Q(q := snd (list_search_remove (\<lambda>c. c = x) True (Q q))))"
    by (rule mq_search_mq_rep [OF assms(1)]) (use RemoveSingle assms(2) in auto)
  then show ?thesis using RemoveSingle list_search_this [of x "Q q"]
    by (simp add: mq_req_remove_single_def case_prod_unfold Let_def)
qed

text \<open>A state with two posted requests, one unexpected and one completed.\<close>

definition demo_lists :: "nat mqlists" where
  "demo_lists = (\<lambda>q. case q of ExpectedQ \<Rightarrow> [1, 2] | UnexpectedQ \<Rightarrow> [3] | CompletedQ \<Rightarrow> [4])"

definition demo_links :: "nat mqlinks" where
  "demo_links = \<lparr>q_first = (\<lambda>q. Some (hd (demo_lists q))), q_lastp = (\<lambda>q. NextOf (last (demo_lists q))),
     r_next = (\<lambda>r. if r = 1 then Some 2 else None), r_pprev = (\<lambda>_. FirstOf CompletedQ)\<rparr>"

lemma demo_mq_rep: "mq_rep demo_links demo_lists"
proof -
  have "sq_rep q demo_links (demo_lists q)" for q
    by (cases q) (simp_all add: sq_rep_def demo_links_def demo_lists_def ml_load.simps)
  moreover have "q \<noteq> q' \<Longrightarrow> set (demo_lists q) \<inter> set (demo_lists q') = {}" for q q'
    by (cases q; cases q') (simp_all add: demo_lists_def)
  ultimately show ?thesis by (simp add: mq_rep_def demo_links_def demo_lists_def)
qed

theorem mq_queues_refine_lists_witness:
  "mq_rep demo_links demo_lists \<and>
   (\<exists>h'. mqcall_exec (\<lambda>r. of_nat r) (\<lambda>_. 3) (Match ExpectedQ 6 True) demo_links = Some (Some 2, h') \<and>
      mq_rep h' (demo_lists(ExpectedQ := [1])))"
proof -
  have "list_search_remove (\<lambda>c. (6 XOR of_nat c) AND 3 = (0 :: u64)) True (demo_lists ExpectedQ) = (Some 2, [1])"
    by (simp add: list_search_remove_def demo_lists_def)
  then show ?thesis
    using mq_queues_refine_lists [OF demo_mq_rep, of "Match ExpectedQ 6 True" "\<lambda>r. of_nat r" "\<lambda>_. 3"] demo_mq_rep by simp
qed

end
