(* ===== verification/MQ_State.thy ===== *)
theory MQ_State
  imports Errors Memcpy Sysbuf MQ_Queues
begin

text \<open>
  The state of a matched queue (\<^verbatim>\<open>struct psm_mq\<close>, \<^verbatim>\<open>struct psm_mq_req\<close>, \<^verbatim>\<open>psm_mq_stats_t\<close>), the
  small inline functions of \<^verbatim>\<open>src/psm_mq_internal.h\<close> and the request allocator of
  \<^verbatim>\<open>src/psm_mq_utils.c\<close>.

  Requests are named by their addresses in the request pools; their fields are a function of the
  address. The three queues are the lists of their requests (the theory \<open>MQ_Queues\<close> shows that the
  linked queues behave so), the per-flow queue \<^verbatim>\<open>egrlong\<close> of a peer (an \<^verbatim>\<open>STAILQ\<close>) likewise. The byte
  memory that holds user, system and packet buffers is part of the state. What the memory
  allocator answers during an operation is its argument \<open>env\<close>: the chunk a request pool may get and
  the answers to the system-buffer allocator.
\<close>

unbundle bit_operations_syntax

section \<open>Requests\<close>

definition MQE_TYPE_SEND :: u32 where "MQE_TYPE_SEND = 0x1000"
definition MQE_TYPE_RECV :: u32 where "MQE_TYPE_RECV = 0x2000"
definition MQE_TYPE_WAITING :: u32 where "MQE_TYPE_WAITING = 0x0001"
definition MQE_TYPE_WAITING_PEER :: u32 where "MQE_TYPE_WAITING_PEER = 0x0004"
definition MQE_TYPE_EGRLONG :: u32 where "MQE_TYPE_EGRLONG = 0x0008"

definition MQE_TYPE_IS_SEND :: "u32 \<Rightarrow> bool" where "MQE_TYPE_IS_SEND t \<longleftrightarrow> t AND MQE_TYPE_SEND \<noteq> 0"
definition MQE_TYPE_IS_RECV :: "u32 \<Rightarrow> bool" where "MQE_TYPE_IS_RECV t \<longleftrightarrow> t AND MQE_TYPE_RECV \<noteq> 0"

lemmas mqe_type_defs = MQE_TYPE_SEND_def MQE_TYPE_RECV_def MQE_TYPE_WAITING_def MQE_TYPE_EGRLONG_def
  MQE_TYPE_IS_SEND_def MQE_TYPE_IS_RECV_def

datatype mq_state = MQ_STATE_COMPLETE | MQ_STATE_POSTED | MQ_STATE_MATCHED | MQ_STATE_UNEXP
  | MQ_STATE_UNEXP_RV | MQ_STATE_FREE

definition MQ_MSG_TINY :: u16 where "MQ_MSG_TINY = 1"
definition MQ_MSG_SHORT :: u16 where "MQ_MSG_SHORT = 2"
definition MQ_MSG_LONG :: u16 where "MQ_MSG_LONG = 3"
definition MQ_MSG_USER_FIRST :: u16 where "MQ_MSG_USER_FIRST = 64"

lemmas mq_msg_defs = MQ_MSG_TINY_def MQ_MSG_SHORT_def MQ_MSG_LONG_def MQ_MSG_USER_FIRST_def

datatype mq_ret = MQ_RET_MATCH_OK | MQ_RET_UNEXP_OK | MQ_RET_UNEXP_NO_RESOURCES | MQ_RET_DATA_OK
  | MQ_RET_DATA_OUT_OF_ORDER

record psmi_egrid =
  egr_flowid :: u8
  egr_msgno :: "24 word"

text \<open>
  \<^verbatim>\<open>struct psm_mq_req\<close> without the queue links and the pointer to its queue (there is one). Callbacks
  are named by numbers, \<open>None\<close> is NULL. The field \<^verbatim>\<open>recv_msgposted\<close>, which shares its storage with
  \<^verbatim>\<open>send_msgoff\<close>, belongs to the expected protocol.
\<close>

record psm_mq_req =
  req_state :: mq_state
  req_type :: u32
  req_tag :: u64
  req_tagsel :: u64
  testwait_callback :: "nat option"
  req_buf :: u64
  req_buf_len :: u32
  req_error_code :: psm_error
  egrid :: psmi_egrid
  recv_msglen :: u32
  send_msglen :: u32
  recv_msgoff :: u32
  send_msgoff :: u32
  req_context :: u64
  rts_callback :: "nat option"
  rts_peer :: u64
  rts_reqidx_peer :: u32
  rts_sbuf :: u64
  ptl_req_ptr :: u64

record psm_mq_status =
  msg_tag :: u64
  msg_length :: u32
  nbytes :: u32
  error_code :: psm_error
  status_context :: u64

definition mq_status_copy :: "psm_mq_req \<Rightarrow> psm_mq_status" where
  "mq_status_copy req = \<lparr>msg_tag = req_tag req, msg_length = send_msglen req, nbytes = recv_msglen req,
     error_code = req_error_code req, status_context = req_context req\<rparr>"

text \<open>Returns the number of bytes to receive and the updated request.\<close>

definition mq_set_msglen :: "psm_mq_req \<Rightarrow> u32 \<Rightarrow> u32 \<Rightarrow> u32 \<times> psm_mq_req" where
  "mq_set_msglen req recvlen sendlen =
     (let req = req\<lparr>send_msglen := sendlen\<rparr>
      in if recvlen < sendlen
         then (recvlen, req\<lparr>recv_msglen := recvlen, req_error_code := PSM_MQ_TRUNCATION\<rparr>)
         else (sendlen, req\<lparr>recv_msglen := sendlen, req_error_code := PSM_OK\<rparr>))"

section \<open>The matched queue\<close>

text \<open>The two counters \<^verbatim>\<open>rx_sysbuf_*\<close> are kept with the system buffers.\<close>

record psm_mq_stats =
  rx_user_bytes :: u64
  rx_user_num :: u64
  rx_sys_bytes :: u64
  rx_sys_num :: u64
  tx_num :: u64
  tx_eager_num :: u64
  tx_eager_bytes :: u64
  tx_rndv_num :: u64
  tx_rndv_bytes :: u64
  tx_shm_num :: u64
  rx_shm_num :: u64

record psm_mq =
  sreq_pool :: mpool
  rreq_pool :: mpool
  unexpected_callback :: "nat option"
  expected_q :: "u64 list"
  unexpected_q :: "u64 list"
  completed_q :: "u64 list"
  cur_sysbuf_bytes :: u64
  max_sysbuf_bytes :: u64
  ipath_thresh_rv :: u32
  shm_thresh_rv :: u32
  ipath_window_rv :: u32
  stats :: psm_mq_stats
  reqs :: "u64 \<Rightarrow> psm_mq_req"
  sysbufs :: sysbuf
  egrlong :: "u64 \<Rightarrow> u8 \<Rightarrow> u64 list"
  mq_mem :: mem

record mq_env =
  pool_chunk :: "u64 option"
  heap :: "nat \<Rightarrow> u64 option"

definition upd_req :: "u64 \<Rightarrow> (psm_mq_req \<Rightarrow> psm_mq_req) \<Rightarrow> psm_mq \<Rightarrow> psm_mq" where
  "upd_req r f mq = mq\<lparr>reqs := (reqs mq)(r := f (reqs mq r))\<rparr>"

definition completed_append :: "u64 \<Rightarrow> psm_mq \<Rightarrow> psm_mq" where
  "completed_append r mq = mq\<lparr>completed_q := completed_q mq @ [r]\<rparr>"

definition completed_remove :: "u64 \<Rightarrow> psm_mq \<Rightarrow> psm_mq" where
  "completed_remove r mq = mq\<lparr>completed_q := remove1 r (completed_q mq)\<rparr>"

text \<open>\<^verbatim>\<open>mq_req_match (&mq->expected_q, tag, 1)\<close> and the searches of the unexpected queue.\<close>

definition expected_match :: "u64 \<Rightarrow> psm_mq \<Rightarrow> u64 option \<times> psm_mq" where
  "expected_match tag mq =
     (let (r, q) = list_search_remove
            (\<lambda>c. (tag XOR req_tag (reqs mq c)) AND req_tagsel (reqs mq c) = 0) True (expected_q mq)
      in (r, mq\<lparr>expected_q := q\<rparr>))"

definition unexpected_match :: "u64 \<Rightarrow> u64 \<Rightarrow> bool \<Rightarrow> psm_mq \<Rightarrow> u64 option \<times> psm_mq" where
  "unexpected_match tag tagsel remove mq =
     (let (r, q) = list_search_remove (\<lambda>c. (tag XOR req_tag (reqs mq c)) AND tagsel = 0) remove (unexpected_q mq)
      in (r, mq\<lparr>unexpected_q := q\<rparr>))"

definition expected_remove_single :: "u64 \<Rightarrow> psm_mq \<Rightarrow> bool \<times> psm_mq" where
  "expected_remove_single req mq =
     (let (r, q) = list_search_remove (\<lambda>c. c = req) True (expected_q mq)
      in (r \<noteq> None, mq\<lparr>expected_q := q\<rparr>))"

text \<open>The two copies; a NULL pointer is not accessed for zero bytes.\<close>

definition mq_mtucpy :: "u64 \<Rightarrow> u64 \<Rightarrow> u32 \<Rightarrow> psm_mq \<Rightarrow> psm_mq run" where
  "mq_mtucpy dest src n mq =
     (if n \<noteq> 0 \<and> (dest = 0 \<or> src = 0) then Inl Undefined_Access
      else Inr (mq\<lparr>mq_mem := psmi_mq_mtucpy dest src n (mq_mem mq)\<rparr>))"

definition mq_tinycpy :: "u64 \<Rightarrow> u64 \<Rightarrow> u32 \<Rightarrow> psm_mq \<Rightarrow> psm_mq run" where
  "mq_tinycpy dest src n mq =
     (if (ucast n :: u8) \<noteq> 0 \<and> (dest = 0 \<or> src = 0) then Inl Undefined_Access
      else Inr (mq\<lparr>mq_mem := mq_copy_tiny dest src (ucast n) (mq_mem mq)\<rparr>))"

definition mq_sysbuf_alloc :: "mq_env \<Rightarrow> u32 \<Rightarrow> psm_mq \<Rightarrow> (u64 \<times> psm_mq) run" where
  "mq_sysbuf_alloc env n mq =
     run_bind (psmi_mq_sysbuf_alloc (heap env) n (sysbufs mq))
       (\<lambda>(p, sb). Inr (case p of None \<Rightarrow> 0 | Some b \<Rightarrow> b, mq\<lparr>sysbufs := sb\<rparr>))"

definition mq_sysbuf_free :: "u64 \<Rightarrow> psm_mq \<Rightarrow> psm_mq run" where
  "mq_sysbuf_free p mq = run_bind (psmi_mq_sysbuf_free p (sysbufs mq)) (\<lambda>(_, sb). Inr (mq\<lparr>sysbufs := sb\<rparr>))"

definition psmi_mq_stats_rts_account :: "u64 \<Rightarrow> psm_mq \<Rightarrow> psm_mq" where
  "psmi_mq_stats_rts_account r mq =
     (let req = reqs mq r; s = stats mq
      in mq\<lparr>stats := (if MQE_TYPE_IS_SEND (req_type req)
           then s\<lparr>tx_num := tx_num s + 1, tx_rndv_num := tx_rndv_num s + 1,
                  tx_rndv_bytes := tx_rndv_bytes s + ucast (send_msglen req)\<rparr>
           else s\<lparr>rx_user_num := rx_user_num s + 1,
                  rx_user_bytes := rx_user_bytes s + ucast (recv_msglen req)\<rparr>)\<rparr>)"

section \<open>Allocating and freeing requests\<close>

text \<open>Running out of requests is reported on the no-return endpoint.\<close>

definition psmi_mq_req_alloc :: "mq_env \<Rightarrow> u32 \<Rightarrow> psm_mq \<Rightarrow> (u64 \<times> psm_mq) run" where
  "psmi_mq_req_alloc env type mq =
     run_bind (if type = MQE_TYPE_SEND
               then run_bind (psmi_mpool_get (pool_chunk env) (sreq_pool mq))
                      (\<lambda>(r, p). Inr (r, mq\<lparr>sreq_pool := p\<rparr>))
               else run_bind (psmi_mpool_get (pool_chunk env) (rreq_pool mq))
                      (\<lambda>(r, p). Inr (r, mq\<lparr>rreq_pool := p\<rparr>)))
       (\<lambda>(r, mq). case r of
            Some req \<Rightarrow>
              Inr (req, upd_req req (\<lambda>q. q\<lparr>req_type := type, req_state := MQ_STATE_FREE,
                 req_error_code := PSM_OK, testwait_callback := None, rts_peer := 0, ptl_req_ptr := 0\<rparr>) mq)
          | None \<Rightarrow> run_bind (psmi_errhandler_psm PSM_PARAM_ERR) (\<lambda>_. Inr (0, mq)))"

text \<open>
  \<^verbatim>\<open>psmi_mq_req_free\<close> is \<^verbatim>\<open>psmi_mpool_put\<close>, which finds the pool through the back pointer that
  \<^verbatim>\<open>psmi_mpool_get\<close> left in the element. A request comes from the pool of its type and keeps that
  bit of its type as long as it lives.
\<close>

definition psmi_mq_req_free :: "u64 \<Rightarrow> psm_mq \<Rightarrow> psm_mq" where
  "psmi_mq_req_free r mq =
     (if MQE_TYPE_IS_SEND (req_type (reqs mq r))
      then mq\<lparr>sreq_pool := snd (psmi_mpool_put r (sreq_pool mq))\<rparr>
      else mq\<lparr>rreq_pool := snd (psmi_mpool_put r (rreq_pool mq))\<rparr>)"

text \<open>
  \<^verbatim>\<open>psmi_mq_req_init\<close>: the limits \<^verbatim>\<open>(chunk, max)\<close> are what \<^verbatim>\<open>psmi_ep_parse_mpool_env\<close> returned, or its
  error. The created pools are warmed up by one allocation each. \<open>mk\<close> says what the memory
  allocator answers to the two pool creations.
\<close>

definition sizeof_psm_mq_req :: u64 where "sizeof_psm_mq_req = 184"

record pool_env =
  calloc_pool :: bool
  calloc_vector :: bool
  first_chunk :: "u64 option"

definition create_req_pool :: "psm_error + u32 \<times> u32 \<Rightarrow> pool_env \<Rightarrow> (psm_error + mpool) run" where
  "create_req_pool limits pe =
     (case limits of
        Inl err \<Rightarrow> Inr (Inl err)
      | Inr (chunksz, maxsz) \<Rightarrow>
          run_bind (psmi_mpool_create (calloc_pool pe) (calloc_vector pe) (first_chunk pe)
                      sizeof_psm_mq_req chunksz maxsz 0 False)
            (\<lambda>p. Inr (case p of None \<Rightarrow> Inl PSM_NO_MEMORY | Some p \<Rightarrow> Inr p)))"

definition warmup :: "mq_env \<Rightarrow> u32 \<Rightarrow> psm_mq \<Rightarrow> psm_mq run" where
  "warmup env type mq =
     run_bind (psmi_mq_req_alloc env type mq)
       (\<lambda>(r, mq). if r = 0 then Inl Assert_Abort else Inr (psmi_mq_req_free r mq))"

definition psmi_mq_req_init ::
  "psm_error + u32 \<times> u32 \<Rightarrow> psm_error + u32 \<times> u32 \<Rightarrow> pool_env \<Rightarrow> pool_env \<Rightarrow> mq_env \<Rightarrow> psm_mq \<Rightarrow>
   (psm_error \<times> psm_mq) run" where
  "psmi_mq_req_init slimits rlimits spe rpe env mq =
     run_bind (create_req_pool slimits spe)
       (\<lambda>s. case s of
          Inl err \<Rightarrow> Inr (err, mq)
        | Inr sp \<Rightarrow>
            let mq = mq\<lparr>sreq_pool := sp\<rparr>
            in run_bind (create_req_pool rlimits rpe)
              (\<lambda>r. case r of
                 Inl err \<Rightarrow> Inr (err, mq)
               | Inr rp \<Rightarrow>
                   let mq = mq\<lparr>rreq_pool := rp\<rparr>
                   in run_bind (warmup env MQE_TYPE_RECV mq)
                     (\<lambda>mq. run_bind (warmup env MQE_TYPE_SEND mq) (\<lambda>mq. Inr (PSM_OK, mq)))))"

text \<open>The chunks handed back to the C heap.\<close>

definition psmi_mq_req_fini :: "psm_mq \<Rightarrow> u64 list" where
  "psmi_mq_req_fini mq = psmi_mpool_destroy (rreq_pool mq) @ psmi_mpool_destroy (sreq_pool mq)"

end
