(* ===== verification/MQ_Recv.thy ===== *)
theory MQ_Recv
  imports MQ_State
begin

text \<open>
  The receive engine, \<^verbatim>\<open>src/psm_mq_recv.c\<close> and the tiny-message handler of
  \<^verbatim>\<open>src/psm_mq_internal.h\<close>: what the transports call when an envelope, a piece of data or a
  rendezvous request arrives. Payloads are addresses in the byte memory.
\<close>

unbundle bit_operations_syntax

section \<open>Data\<close>

definition psmi_mq_req_copy :: "u64 \<Rightarrow> u64 \<Rightarrow> u32 \<Rightarrow> psm_mq \<Rightarrow> psm_mq run" where
  "psmi_mq_req_copy r buf nb mq =
     (let req = reqs mq r;
          msglen_left = recv_msglen req - recv_msgoff req;
          msglen_this = min msglen_left nb;
          msgptr = req_buf req + ucast (recv_msgoff req)
      in run_bind (mq_mtucpy msgptr buf msglen_this mq)
           (\<lambda>mq. Inr (upd_req r (\<lambda>q. q\<lparr>recv_msgoff := recv_msgoff q + msglen_this,
                                       send_msgoff := send_msgoff q + nb\<rparr>) mq)))"

text \<open>\<^verbatim>\<open>STAILQ_REMOVE_HEAD\<close> on an empty queue follows a NULL pointer.\<close>

definition egrlong_remove_head :: "u64 \<Rightarrow> u8 \<Rightarrow> psm_mq \<Rightarrow> psm_mq run" where
  "egrlong_remove_head epaddr flowid mq =
     (case egrlong mq epaddr flowid of
        [] \<Rightarrow> Inl Undefined_Access
      | _ # rest \<Rightarrow> Inr (mq\<lparr>egrlong := (egrlong mq)(epaddr := (egrlong mq epaddr)(flowid := rest))\<rparr>))"

definition egrlong_insert_tail :: "u64 \<Rightarrow> u8 \<Rightarrow> u64 \<Rightarrow> psm_mq \<Rightarrow> psm_mq" where
  "egrlong_insert_tail epaddr flowid r mq =
     mq\<lparr>egrlong := (egrlong mq)(epaddr := (egrlong mq epaddr)(flowid := egrlong mq epaddr flowid @ [r]))\<rparr>"

definition psmi_mq_handle_data :: "u64 \<Rightarrow> u64 \<Rightarrow> u64 \<Rightarrow> u32 \<Rightarrow> psm_mq \<Rightarrow> (mq_ret \<times> psm_mq) run" where
  "psmi_mq_handle_data r epaddr buf nb mq =
     (let rc = (if req_state (reqs mq r) = MQ_STATE_MATCHED then MQ_RET_MATCH_OK else MQ_RET_UNEXP_OK)
      in run_bind (psmi_mq_req_copy r buf nb mq)
           (\<lambda>mq. if send_msgoff (reqs mq r) = send_msglen (reqs mq r) then
                   run_bind (if req_type (reqs mq r) AND MQE_TYPE_EGRLONG \<noteq> 0
                             then egrlong_remove_head epaddr (egr_flowid (egrid (reqs mq r))) mq
                             else Inr mq)
                     (\<lambda>mq. if req_state (reqs mq r) = MQ_STATE_MATCHED
                           then Inr (rc, completed_append r (upd_req r (\<lambda>q. q\<lparr>req_state := MQ_STATE_COMPLETE\<rparr>) mq))
                           else Inr (rc, upd_req r (\<lambda>q. q\<lparr>req_state := MQ_STATE_COMPLETE\<rparr>) mq))
                 else Inr (rc, mq)))"

section \<open>Rendezvous\<close>

definition psmi_mq_handle_rts ::
  "mq_env \<Rightarrow> u64 \<Rightarrow> u64 \<Rightarrow> u32 \<Rightarrow> u64 \<Rightarrow> nat option \<Rightarrow> psm_mq \<Rightarrow> (mq_ret \<times> u64 \<times> psm_mq) run" where
  "psmi_mq_handle_rts env tag send_buf slen peer cb mq =
     (case expected_match tag mq of
        (Some r, mq) \<Rightarrow>
          let mq = upd_req r (\<lambda>q. snd (mq_set_msglen q (req_buf_len q) slen)) mq;
              mq = upd_req r (\<lambda>q. q\<lparr>req_type := MQE_TYPE_RECV, req_state := MQ_STATE_MATCHED, req_tag := tag,
                     recv_msgoff := 0, rts_peer := peer, rts_sbuf := send_buf\<rparr>) mq
          in Inr (MQ_RET_MATCH_OK, r, mq)
      | (None, mq) \<Rightarrow>
          run_bind (psmi_mq_req_alloc env MQE_TYPE_RECV mq)
            (\<lambda>(r, mq).
               let mq = upd_req r (\<lambda>q. q\<lparr>req_type := MQE_TYPE_RECV, recv_msglen := slen, send_msglen := slen,
                      req_state := MQ_STATE_UNEXP_RV, req_tag := tag, rts_callback := cb, recv_msgoff := 0,
                      rts_peer := peer, rts_sbuf := send_buf\<rparr>) mq
               in Inr (MQ_RET_UNEXP_OK, r, mq\<lparr>unexpected_q := unexpected_q mq @ [r]\<rparr>)))"

definition psmi_mq_handle_rts_complete :: "u64 \<Rightarrow> psm_mq \<Rightarrow> psm_mq" where
  "psmi_mq_handle_rts_complete r mq =
     (let mq = psmi_mq_stats_rts_account r mq;
          mq = upd_req r (\<lambda>q. q\<lparr>req_state := MQ_STATE_COMPLETE\<rparr>) mq
      in completed_append r mq)"

section \<open>Envelopes\<close>

definition psmi_mq_register_unexpected_callback :: "nat option \<Rightarrow> psm_mq \<Rightarrow> nat option \<times> psm_mq" where
  "psmi_mq_register_unexpected_callback fn mq = (unexpected_callback mq, mq\<lparr>unexpected_callback := fn\<rparr>)"

text \<open>
  \<open>ucb\<close> is what the registered callbacks do. The unknown modes are reported on the no-return
  endpoint as internal errors.
\<close>

definition psmi_mq_handle_envelope_unexpected ::
  "(nat \<Rightarrow> psm_mq \<Rightarrow> psm_mq run) \<Rightarrow> mq_env \<Rightarrow> u16 \<Rightarrow> u64 \<Rightarrow> u64 \<Rightarrow> psmi_egrid \<Rightarrow> u32 \<Rightarrow> u64 \<Rightarrow> u32 \<Rightarrow> psm_mq \<Rightarrow>
   (mq_ret \<times> psm_mq) run" where
  "psmi_mq_handle_envelope_unexpected ucb env mode epaddr tag eid slen payload paylen mq =
     (case (mode \<ge> MQ_MSG_USER_FIRST, unexpected_callback mq) of
        (True, Some cb) \<Rightarrow> run_bind (ucb cb mq) (\<lambda>mq. Inr (MQ_RET_UNEXP_OK, mq))
      | _ \<Rightarrow>
          run_bind (psmi_mq_req_alloc env MQE_TYPE_RECV mq)
            (\<lambda>(r, mq).
               let msglen = slen;
                   mq = upd_req r (\<lambda>q. q\<lparr>req_tag := tag, recv_msgoff := 0, recv_msglen := slen,
                          send_msglen := slen, req_buf_len := slen\<rparr>) mq
               in run_bind
                 (if mode = MQ_MSG_TINY then
                    run_bind
                      (if msglen > 0 then
                         run_bind (mq_sysbuf_alloc env msglen mq)
                           (\<lambda>(b, mq). mq_tinycpy b payload msglen (upd_req r (\<lambda>q. q\<lparr>req_buf := b\<rparr>) mq))
                       else Inr (upd_req r (\<lambda>q. q\<lparr>req_buf := 0\<rparr>) mq))
                      (\<lambda>mq. Inr (upd_req r (\<lambda>q. q\<lparr>req_state := MQ_STATE_COMPLETE\<rparr>) mq))
                  else if mode = MQ_MSG_SHORT then
                    run_bind (mq_sysbuf_alloc env msglen mq)
                      (\<lambda>(b, mq). run_bind (mq_mtucpy b payload msglen (upd_req r (\<lambda>q. q\<lparr>req_buf := b\<rparr>) mq))
                         (\<lambda>mq. Inr (upd_req r (\<lambda>q. q\<lparr>req_state := MQ_STATE_COMPLETE\<rparr>) mq)))
                  else if mode = MQ_MSG_LONG then
                    (let mq = upd_req r (\<lambda>q. q\<lparr>egrid := eid, send_msgoff := 0\<rparr>) mq
                     in run_bind (mq_sysbuf_alloc env msglen mq)
                       (\<lambda>(b, mq).
                          let mq = upd_req r (\<lambda>q. q\<lparr>req_buf := b, req_state := MQ_STATE_UNEXP,
                                     req_type := req_type q OR MQE_TYPE_EGRLONG\<rparr>) mq;
                              mq = egrlong_insert_tail epaddr (egr_flowid eid) r mq
                          in run_bind (psmi_mq_handle_data r epaddr payload paylen mq) (\<lambda>(_, mq). Inr mq)))
                  else run_bind (psmi_errhandler_psm PSM_INTERNAL_ERR) (\<lambda>_. Inr mq))
                 (\<lambda>mq.
                    let s = stats mq;
                        mq = mq\<lparr>unexpected_q := unexpected_q mq @ [r]\<rparr>;
                        mq = mq\<lparr>stats := s\<lparr>rx_sys_bytes := rx_sys_bytes s + ucast msglen,
                                          rx_sys_num := rx_sys_num s + 1\<rparr>\<rparr>
                    in Inr (MQ_RET_UNEXP_OK, mq))))"

definition rx_user_account :: "u32 \<Rightarrow> psm_mq \<Rightarrow> psm_mq" where
  "rx_user_account msglen mq =
     (let s = stats mq
      in mq\<lparr>stats := s\<lparr>rx_user_bytes := rx_user_bytes s + ucast msglen, rx_user_num := rx_user_num s + 1\<rparr>\<rparr>)"

definition psmi_mq_handle_envelope ::
  "(nat \<Rightarrow> psm_mq \<Rightarrow> psm_mq run) \<Rightarrow> mq_env \<Rightarrow> u16 \<Rightarrow> u64 \<Rightarrow> u64 \<Rightarrow> psmi_egrid \<Rightarrow> u32 \<Rightarrow> u64 \<Rightarrow> u32 \<Rightarrow> psm_mq \<Rightarrow>
   (mq_ret \<times> psm_mq) run" where
  "psmi_mq_handle_envelope ucb env mode epaddr tag eid slen payload paylen mq =
     (case expected_match tag mq of
        (Some r, mq) \<Rightarrow>
          let mq = upd_req r (\<lambda>q. q\<lparr>req_tag := tag\<rparr>) mq;
              (msglen, req) = mq_set_msglen (reqs mq r) (req_buf_len (reqs mq r)) slen;
              mq = upd_req r (\<lambda>_. req) mq
          in run_bind
            (if mode = MQ_MSG_TINY then
               run_bind (mq_tinycpy (req_buf (reqs mq r)) payload msglen mq)
                 (\<lambda>mq. Inr (completed_append r (upd_req r (\<lambda>q. q\<lparr>req_state := MQ_STATE_COMPLETE\<rparr>) mq)))
             else if mode = MQ_MSG_SHORT then
               run_bind (mq_mtucpy (req_buf (reqs mq r)) payload msglen mq)
                 (\<lambda>mq. Inr (completed_append r (upd_req r (\<lambda>q. q\<lparr>req_state := MQ_STATE_COMPLETE\<rparr>) mq)))
             else if mode = MQ_MSG_LONG then
               (let mq = upd_req r (\<lambda>q. q\<lparr>egrid := eid, req_state := MQ_STATE_MATCHED,
                           req_type := req_type q OR MQE_TYPE_EGRLONG, send_msgoff := 0, recv_msgoff := 0\<rparr>) mq;
                    mq = egrlong_insert_tail epaddr (egr_flowid eid) r mq
                in run_bind (psmi_mq_handle_data r epaddr payload paylen mq) (\<lambda>(_, mq). Inr mq))
             else run_bind (psmi_errhandler_psm PSM_INTERNAL_ERR) (\<lambda>_. Inr mq))
            (\<lambda>mq. Inr (MQ_RET_MATCH_OK, rx_user_account msglen mq))
      | (None, mq) \<Rightarrow>
          psmi_mq_handle_envelope_unexpected ucb env mode epaddr tag eid slen payload paylen mq)"

definition psmi_mq_handle_tiny_envelope ::
  "(nat \<Rightarrow> psm_mq \<Rightarrow> psm_mq run) \<Rightarrow> mq_env \<Rightarrow> u64 \<Rightarrow> u64 \<Rightarrow> u64 \<Rightarrow> u32 \<Rightarrow> psm_mq \<Rightarrow> (mq_ret \<times> psm_mq) run" where
  "psmi_mq_handle_tiny_envelope ucb env epaddr tag payload tinylen mq =
     (case expected_match tag mq of
        (Some r, mq) \<Rightarrow>
          let mq = upd_req r (\<lambda>q. q\<lparr>req_tag := tag\<rparr>) mq;
              (msglen, req) = mq_set_msglen (reqs mq r) (req_buf_len (reqs mq r)) tinylen;
              mq = upd_req r (\<lambda>_. req) mq
          in run_bind (mq_tinycpy (req_buf (reqs mq r)) payload msglen mq)
               (\<lambda>mq. Inr (MQ_RET_MATCH_OK, rx_user_account msglen
                  (completed_append r (upd_req r (\<lambda>q. q\<lparr>req_state := MQ_STATE_COMPLETE\<rparr>) mq))))
      | (None, mq) \<Rightarrow>
          psmi_mq_handle_envelope_unexpected ucb env MQ_MSG_TINY epaddr tag \<lparr>egr_flowid = 0, egr_msgno = 0\<rparr>
            tinylen payload tinylen mq)"

end
