(* ===== verification/MQ_Api.thy ===== *)
theory MQ_Api
  imports MQ_Recv
begin

text \<open>
  The user's interface of the matched queue, \<^verbatim>\<open>src/psm_mq.c\<close>. The progress engine
  \<^verbatim>\<open>psmi_poll_internal\<close>, which runs the transports and so the receive engine, is the argument
  \<open>poll\<close>; the callbacks a transport left in a request are the arguments \<open>testwait\<close> and \<open>rts_cb\<close>; the
  endpoint's \<^verbatim>\<open>psmi_handle_error\<close> is \<open>herr\<close>. The progress lock is not modelled: the functions are
  atomic with respect to each other because they hold it. \<open>want\<close> says whether the caller passed a
  status structure, \<open>ireq = 0\<close> is \<^verbatim>\<open>PSM_MQ_REQINVALID\<close>.
\<close>

unbundle bit_operations_syntax

type_synonym mq_poll = "psm_mq \<Rightarrow> (psm_error \<times> psm_mq) run"
type_synonym mq_testwait = "nat \<Rightarrow> u64 \<Rightarrow> bool \<Rightarrow> bool \<Rightarrow> psm_mq \<Rightarrow> (psm_error \<times> psm_mq_status option \<times> u64 \<times> psm_mq) run"
type_synonym mq_rtscb = "nat \<Rightarrow> u64 \<Rightarrow> bool \<Rightarrow> psm_mq \<Rightarrow> psm_mq run"

section \<open>Probing and peeking\<close>

definition opt_status :: "bool \<Rightarrow> u64 \<Rightarrow> psm_mq \<Rightarrow> psm_mq_status option" where
  "opt_status want r mq = (if want then Some (mq_status_copy (reqs mq r)) else None)"

definition psm_mq_iprobe ::
  "mq_poll \<Rightarrow> u64 \<Rightarrow> u64 \<Rightarrow> bool \<Rightarrow> psm_mq \<Rightarrow> (psm_error \<times> psm_mq_status option \<times> psm_mq) run" where
  "psm_mq_iprobe poll tag tagsel want mq =
     (case unexpected_match tag tagsel False mq of
        (Some r, mq) \<Rightarrow> Inr (PSM_OK, opt_status want r mq, mq)
      | (None, mq) \<Rightarrow>
          run_bind (poll mq)
            (\<lambda>(_, mq). case unexpected_match tag tagsel False mq of
                 (Some r, mq) \<Rightarrow> Inr (PSM_OK, opt_status want r mq, mq)
               | (None, mq) \<Rightarrow> Inr (PSM_MQ_NO_COMPLETIONS, None, mq)))"

definition psm_mq_ipeek ::
  "mq_poll \<Rightarrow> bool \<Rightarrow> psm_mq \<Rightarrow> (psm_error \<times> u64 \<times> psm_mq_status option \<times> psm_mq) run" where
  "psm_mq_ipeek poll want mq =
     (case completed_q mq of
        r # _ \<Rightarrow> Inr (PSM_OK, r, opt_status want r mq, mq)
      | [] \<Rightarrow> run_bind (poll mq)
          (\<lambda>(_, mq). case completed_q mq of
               r # _ \<Rightarrow> Inr (PSM_OK, r, opt_status want r mq, mq)
             | [] \<Rightarrow> Inr (PSM_MQ_NO_COMPLETIONS, 0, None, mq)))"

section \<open>Cancelling\<close>

definition psm_mq_cancel :: "(psm_error \<Rightarrow> psm_error run) \<Rightarrow> u64 \<Rightarrow> psm_mq \<Rightarrow> (psm_error \<times> psm_mq) run" where
  "psm_mq_cancel herr req mq =
     (if req = 0 then Inr (PSM_MQ_NO_COMPLETIONS, mq)
      else if MQE_TYPE_IS_RECV (req_type (reqs mq req)) then
        (if req_state (reqs mq req) = MQ_STATE_POSTED then
           (case expected_remove_single req mq of
              (rc, mq) \<Rightarrow>
                if \<not> rc then Inl Assert_Abort
                else Inr (PSM_OK, completed_append req (upd_req req (\<lambda>q. q\<lparr>req_state := MQ_STATE_COMPLETE\<rparr>) mq)))
         else Inr (PSM_MQ_NO_COMPLETIONS, mq))
      else run_bind (herr PSM_PARAM_ERR) (\<lambda>err. Inr (err, mq)))"

section \<open>Waiting and testing\<close>

text \<open>
  \<^verbatim>\<open>PSMI_BLOCKUNTIL\<close> of \<^verbatim>\<open>src/psm_ep.h\<close>: \<open>None\<close> is blocking forever. Yielding the processor has no
  effect on the state.
\<close>

partial_function (option) PSMI_BLOCKUNTIL ::
  "mq_poll \<Rightarrow> (psm_mq \<Rightarrow> bool) \<Rightarrow> psm_error \<Rightarrow> psm_mq \<Rightarrow> (psm_error \<times> psm_mq) run option" where
  "PSMI_BLOCKUNTIL poll cond err mq =
     (if cond mq then Some (Inr (err, mq))
      else case poll mq of
          Inl e \<Rightarrow> Some (Inl e)
        | Inr (err, mq) \<Rightarrow>
            if err = PSM_OK_NO_PROGRESS then PSMI_BLOCKUNTIL poll cond err mq
            else if err = PSM_OK then PSMI_BLOCKUNTIL poll cond err mq
            else Some (Inr (err, mq)))"

text \<open>The end of a wait or a successful test: the request leaves the queue and is released.\<close>

definition mq_retire :: "bool \<Rightarrow> u64 \<Rightarrow> psm_mq \<Rightarrow> psm_error \<times> psm_mq_status option \<times> u64 \<times> psm_mq" where
  "mq_retire want req mq =
     (let mq = completed_remove req mq;
          status = opt_status want req mq
      in (PSM_OK, status, 0, psmi_mq_req_free req mq))"

definition psmi_mq_wait_inner ::
  "mq_poll \<Rightarrow> mq_testwait \<Rightarrow> u64 \<Rightarrow> bool \<Rightarrow> psm_mq \<Rightarrow>
   (psm_error \<times> psm_mq_status option \<times> u64 \<times> psm_mq) run option" where
  "psmi_mq_wait_inner poll testwait ireq want mq =
     (if ireq = 0 then Some (Inr (PSM_OK, None, ireq, mq))
      else if req_state (reqs mq ireq) \<noteq> MQ_STATE_COMPLETE then
        (let mq = upd_req ireq (\<lambda>q. q\<lparr>req_type := req_type q OR MQE_TYPE_WAITING\<rparr>) mq
         in case testwait_callback (reqs mq ireq) of
              Some cb \<Rightarrow> Some (testwait cb ireq False want mq)
            | None \<Rightarrow>
                map_option (\<lambda>res. run_bind res
                    (\<lambda>(err, mq). if psm_error_num err > psm_error_num PSM_OK_NO_PROGRESS
                                 then Inr (err, None, ireq, mq) else Inr (mq_retire want ireq mq)))
                  (PSMI_BLOCKUNTIL poll (\<lambda>mq. req_state (reqs mq ireq) = MQ_STATE_COMPLETE) PSM_OK mq))
      else Some (Inr (mq_retire want ireq mq)))"

definition psm_mq_wait where "psm_mq_wait = psmi_mq_wait_inner"

definition psmi_mq_wait_internal where
  "psmi_mq_wait_internal poll testwait ireq mq = psmi_mq_wait_inner poll testwait ireq False mq"

definition psm_mq_test ::
  "mq_testwait \<Rightarrow> u64 \<Rightarrow> bool \<Rightarrow> psm_mq \<Rightarrow> (psm_error \<times> psm_mq_status option \<times> u64 \<times> psm_mq) run" where
  "psm_mq_test testwait ireq want mq =
     (if ireq = 0 then Inr (PSM_OK, None, ireq, mq)
      else if req_state (reqs mq ireq) \<noteq> MQ_STATE_COMPLETE then
        (case testwait_callback (reqs mq ireq) of
           Some cb \<Rightarrow> testwait cb ireq True want mq
         | None \<Rightarrow> Inr (PSM_MQ_NO_COMPLETIONS, None, ireq, mq))
      else Inr (mq_retire want ireq mq))"

section \<open>Sending\<close>

text \<open>The transport of the destination does the work.\<close>

type_synonym mq_isend_fn = "u32 \<Rightarrow> u64 \<Rightarrow> u64 \<Rightarrow> u32 \<Rightarrow> u64 \<Rightarrow> psm_mq \<Rightarrow> (psm_error \<times> u64 \<times> psm_mq) run"

definition psm_mq_isend ::
  "mq_isend_fn \<Rightarrow> u32 \<Rightarrow> u64 \<Rightarrow> u64 \<Rightarrow> u32 \<Rightarrow> u64 \<Rightarrow> psm_mq \<Rightarrow> (psm_error \<times> u64 \<times> psm_mq) run" where
  "psm_mq_isend ptl_isend flags stag buf len ctx mq = ptl_isend flags stag buf len ctx mq"

section \<open>Receiving\<close>

definition psm_mq_irecv ::
  "mq_rtscb \<Rightarrow> mq_env \<Rightarrow> u64 \<Rightarrow> u64 \<Rightarrow> u64 \<Rightarrow> u32 \<Rightarrow> u64 \<Rightarrow> psm_mq \<Rightarrow> (psm_error \<times> u64 \<times> psm_mq) run" where
  "psm_mq_irecv rts_cb env tag tagsel buf len ctx mq =
     (case unexpected_match tag tagsel True mq of
        (None, mq) \<Rightarrow>
          run_bind (psmi_mq_req_alloc env MQE_TYPE_RECV mq)
            (\<lambda>(r, mq).
               let mq = upd_req r (\<lambda>q. q\<lparr>req_tag := tag, req_tagsel := tagsel, req_state := MQ_STATE_POSTED,
                     req_buf := buf, req_buf_len := len, recv_msglen := len, recv_msgoff := 0, req_context := ctx\<rparr>) mq
               in Inr (PSM_OK, r, mq\<lparr>expected_q := expected_q mq @ [r]\<rparr>))
      | (Some r, mq) \<Rightarrow>
          let mq = upd_req r (\<lambda>q. q\<lparr>req_context := ctx\<rparr>) mq
          in run_bind
            (case req_state (reqs mq r) of
               MQ_STATE_COMPLETE \<Rightarrow>
                 run_bind
                   (if req_buf (reqs mq r) \<noteq> 0 then
                      (let (copysz, req) = mq_set_msglen (reqs mq r) len (send_msglen (reqs mq r));
                           mq = upd_req r (\<lambda>_. req) mq
                       in run_bind (mq_mtucpy buf (req_buf req) copysz mq) (mq_sysbuf_free (req_buf req)))
                    else Inr mq)
                   (\<lambda>mq. Inr (completed_append r (upd_req r (\<lambda>q. q\<lparr>req_buf := buf, req_buf_len := len\<rparr>) mq)))
             | MQ_STATE_UNEXP \<Rightarrow>
                 (let (copysz, req) = mq_set_msglen (reqs mq r) len (send_msglen (reqs mq r));
                      mq = upd_req r (\<lambda>_. req\<lparr>recv_msgoff := min (recv_msgoff req) copysz\<rparr>) mq
                  in run_bind (mq_mtucpy buf (req_buf req) (recv_msgoff (reqs mq r)) mq)
                    (\<lambda>mq. run_bind (mq_sysbuf_free (req_buf req) mq)
                      (\<lambda>mq. Inr (upd_req r (\<lambda>q. q\<lparr>req_state := MQ_STATE_MATCHED, req_buf := buf, req_buf_len := len\<rparr>) mq))))
             | MQ_STATE_UNEXP_RV \<Rightarrow>
                 (let (copysz, req) = mq_set_msglen (reqs mq r) len (send_msglen (reqs mq r));
                      mq = upd_req r (\<lambda>_. req\<lparr>req_state := MQ_STATE_MATCHED, req_buf := buf, req_buf_len := len,
                              recv_msgoff := 0\<rparr>) mq
                  in case rts_callback (reqs mq r) of
                       None \<Rightarrow> Inl Undefined_Access
                     | Some cb \<Rightarrow> rts_cb cb r False mq)
             | _ \<Rightarrow> Inl Assert_Abort)
            (\<lambda>mq. Inr (PSM_OK, r, mq)))"

section \<open>Options\<close>

definition PSM_MQ_RNDV_IPATH_SZ :: u32 where "PSM_MQ_RNDV_IPATH_SZ = 0x301"
definition PSM_MQ_RNDV_SHM_SZ :: u32 where "PSM_MQ_RNDV_SHM_SZ = 0x302"
definition PSM_MQ_MAX_SYSBUF_MBYTES :: u32 where "PSM_MQ_MAX_SYSBUF_MBYTES = 0x303"

lemmas mq_opt_defs = PSM_MQ_RNDV_IPATH_SZ_def PSM_MQ_RNDV_SHM_SZ_def PSM_MQ_MAX_SYSBUF_MBYTES_def

text \<open>\<open>value\<close> is the 32-bit cell the option value is read from or written to.\<close>

definition psmi_mqopt_ctl ::
  "(psm_error \<Rightarrow> psm_error run) \<Rightarrow> u32 \<Rightarrow> u32 \<Rightarrow> bool \<Rightarrow> psm_mq \<Rightarrow> (psm_error \<times> u32 \<times> psm_mq) run" where
  "psmi_mqopt_ctl herr key val get mq =
     (if key = PSM_MQ_RNDV_IPATH_SZ then
        Inr (if get then (PSM_OK, ipath_thresh_rv mq, mq) else (PSM_OK, val, mq\<lparr>ipath_thresh_rv := val\<rparr>))
      else if key = PSM_MQ_RNDV_SHM_SZ then
        Inr (if get then (PSM_OK, shm_thresh_rv mq, mq) else (PSM_OK, val, mq\<lparr>shm_thresh_rv := val\<rparr>))
      else if key = PSM_MQ_MAX_SYSBUF_MBYTES then
        Inr (if get then (PSM_OK, ucast (max_sysbuf_bytes mq div 1048576), mq)
             else (PSM_OK, val, mq\<lparr>max_sysbuf_bytes := - 1\<rparr>))
      else run_bind (herr PSM_PARAM_ERR) (\<lambda>err. Inr (err, val, mq)))"

definition psm_mq_getopt where
  "psm_mq_getopt isinit herr herr_ep key val mq =
     (if \<not> isinit then run_bind (herr_ep PSM_INIT_NOT_INIT) (\<lambda>err. Inr (err, val, mq))
      else psmi_mqopt_ctl herr key val True mq)"

definition psm_mq_setopt where
  "psm_mq_setopt isinit herr herr_ep key val mq =
     (if \<not> isinit then run_bind (herr_ep PSM_INIT_NOT_INIT) (\<lambda>err. Inr (err, val, mq))
      else psmi_mqopt_ctl herr key val False mq)"

fun process_options ::
  "(psm_error \<Rightarrow> psm_error run) \<Rightarrow> (u32 \<times> u32) list \<Rightarrow> psm_mq \<Rightarrow> (psm_error \<times> psm_mq) run" where
  "process_options herr [] mq = Inr (PSM_OK, mq)"
| "process_options herr ((key, val) # opts) mq =
     run_bind (psmi_mqopt_ctl herr key val False mq)
       (\<lambda>(err, _, mq). if err = PSM_OK then process_options herr opts mq else Inr (err, mq))"

text \<open>
  \<open>done\<close> is the static counter \<^verbatim>\<open>done_mq_alloc\<close>; the result tells whether \<^verbatim>\<open>*mqo\<close> was set.
\<close>

definition psm_mq_init ::
  "bool \<Rightarrow> (psm_error \<Rightarrow> psm_error run) \<Rightarrow> (psm_error \<Rightarrow> psm_error run) \<Rightarrow> (u32 \<times> u32) list \<Rightarrow> nat \<Rightarrow> psm_mq \<Rightarrow>
   (psm_error \<times> bool \<times> nat \<times> psm_mq) run" where
  "psm_mq_init isinit herr herr_ep opts done_mq_alloc mq =
     (if \<not> isinit then run_bind (herr_ep PSM_INIT_NOT_INIT) (\<lambda>err. Inr (err, False, done_mq_alloc, mq))
      else let done_mq_alloc = Suc done_mq_alloc
        in if done_mq_alloc \<noteq> 1 then run_bind (herr_ep PSM_PARAM_ERR) (\<lambda>err. Inr (err, False, done_mq_alloc, mq))
           else run_bind (process_options herr opts mq)
             (\<lambda>(err, mq). Inr (err, err = PSM_OK, done_mq_alloc, mq)))"

section \<open>Creation\<close>

definition mq_stats_zero :: psm_mq_stats where
  "mq_stats_zero = \<lparr>rx_user_bytes = 0, rx_user_num = 0, rx_sys_bytes = 0, rx_sys_num = 0, tx_num = 0,
     tx_eager_num = 0, tx_eager_bytes = 0, tx_rndv_num = 0, tx_rndv_bytes = 0, tx_shm_num = 0, rx_shm_num = 0\<rparr>"

text \<open>
  \<open>world\<close> gives what exists beside the new structure: the memory, the system buffers, the peers' queues
  and the contents of the memory requests will be carved from.
\<close>

definition psmi_mq_malloc ::
  "bool \<Rightarrow> (psm_error \<Rightarrow> psm_error run) \<Rightarrow> psm_error + u32 \<times> u32 \<Rightarrow> psm_error + u32 \<times> u32 \<Rightarrow> pool_env \<Rightarrow> pool_env \<Rightarrow>
   mq_env \<Rightarrow> psm_mq \<Rightarrow> (psm_error \<times> psm_mq option) run" where
  "psmi_mq_malloc calloc_ok herr slimits rlimits spe rpe env world =
     (if \<not> calloc_ok then run_bind (herr PSM_NO_MEMORY) (\<lambda>err. Inr (err, None))
      else let mq = world\<lparr>unexpected_callback := None, expected_q := [], unexpected_q := [], completed_q := [],
                     cur_sysbuf_bytes := 0, max_sysbuf_bytes := - 1, ipath_thresh_rv := 64000,
                     ipath_window_rv := 131072, shm_thresh_rv := 16000, stats := mq_stats_zero\<rparr>
        in run_bind (psmi_mq_req_init slimits rlimits spe rpe env mq)
          (\<lambda>(err, mq). if err \<noteq> PSM_OK then Inr (err, None)
             else run_bind (psmi_mq_sysbuf_init (heap env) (sysbufs mq))
               (\<lambda>sb. Inr (PSM_OK, Some (mq\<lparr>sysbufs := sb\<rparr>)))))"

text \<open>The environment variables' values, after \<^verbatim>\<open>psmi_getenv\<close> replaced missing ones by the defaults passed.\<close>

definition psmi_mq_initialize_defaults :: "(string \<Rightarrow> u32 \<Rightarrow> u32) \<Rightarrow> u32 \<Rightarrow> psm_mq \<Rightarrow> psm_error \<times> psm_mq" where
  "psmi_mq_initialize_defaults getenv psmi_shm_mq_rv_thresh mq =
     (let mq = mq\<lparr>ipath_thresh_rv := getenv ''PSM_MQ_RNDV_IPATH_THRESH'' (ipath_thresh_rv mq)\<rparr>;
          mq = mq\<lparr>shm_thresh_rv := psmi_shm_mq_rv_thresh\<rparr>;
          mq = mq\<lparr>shm_thresh_rv := getenv ''PSM_MQ_RNDV_SHM_THRESH'' (shm_thresh_rv mq)\<rparr>;
          mq = mq\<lparr>ipath_window_rv := getenv ''PSM_MQ_RNDV_IPATH_WINDOW'' 131072\<rparr>
      in (PSM_OK, mq))"

text \<open>The blocks released, and the state of the system buffers.\<close>

definition psmi_mq_free :: "psm_mq \<Rightarrow> psm_error \<times> u64 list \<times> sysbuf" where
  "psmi_mq_free mq =
     (let chunks = psmi_mq_req_fini mq;
          (blocks, sb) = psmi_mq_sysbuf_fini (sysbufs mq)
      in (PSM_OK, chunks @ blocks, sb))"

text \<open>The hook for the statistics: the caller's array, left alone when it is too short.\<close>

definition psmi_mq_stats_callback :: "nat \<Rightarrow> u64 list \<Rightarrow> psm_mq \<Rightarrow> u64 list" where
  "psmi_mq_stats_callback num entry mq =
     (if num < 8 then entry
      else let s = stats mq
        in [tx_eager_num s, tx_eager_bytes s, tx_rndv_num s, tx_rndv_bytes s,
            rx_user_num s, rx_user_bytes s, rx_sys_num s, rx_sys_bytes s] @ drop 8 entry)"

end
