(* ===== verification/MQ_Inv.thy ===== *)
theory MQ_Inv
  imports MQ_Api
begin

text \<open>
  The invariant of the matched queue. It ties the state of every request to the queue it is on,
  bounds the offsets a reassembly in progress works with, and accounts for every system buffer: the
  buffers handed out are exactly those of unexpected messages and those in the set \<open>own\<close> that
  a transport holds. Every operation of the user and of the transports keeps it; the states
  reachable by any interleaving of operations satisfy it.
\<close>

unbundle bit_operations_syntax

section \<open>The invariant\<close>

abbreviation rlive :: "psm_mq \<Rightarrow> u64 set" where "rlive mq \<equiv> mp_inuse (rreq_pool mq)"
abbreviation slive :: "psm_mq \<Rightarrow> u64 set" where "slive mq \<equiv> mp_inuse (sreq_pool mq)"

definition pools_ok :: "psm_mq \<Rightarrow> bool" where
  "pools_ok mq \<longleftrightarrow> mpool_inv (rreq_pool mq) \<and> mpool_inv (sreq_pool mq) \<and> rlive mq \<inter> slive mq = {} \<and>
     0 \<notin> rlive mq \<and> 0 \<notin> slive mq"

text \<open>
  One receive request: its state and whether it is on the expected (\<open>e\<close>), the unexpected (\<open>u\<close>), the
  completed queue (\<open>c\<close>) or a peer's queue of eager messages in progress (\<open>g\<close>).
\<close>

definition recv_ok :: "psm_mq_req \<Rightarrow> bool \<Rightarrow> bool \<Rightarrow> bool \<Rightarrow> bool \<Rightarrow> bool" where
  "recv_ok q e u c g \<longleftrightarrow> MQE_TYPE_IS_RECV (req_type q) \<and> \<not> MQE_TYPE_IS_SEND (req_type q) \<and>
     e = (req_state q = MQ_STATE_POSTED) \<and>
     (case req_state q of
        MQ_STATE_COMPLETE \<Rightarrow> u = (\<not> c) \<and> \<not> g
      | MQ_STATE_UNEXP \<Rightarrow> u \<and> \<not> c \<and> g \<and> req_buf q \<noteq> 0
      | MQ_STATE_UNEXP_RV \<Rightarrow> u \<and> \<not> c \<and> \<not> g \<and> rts_callback q \<noteq> None \<and> req_type q AND MQE_TYPE_EGRLONG = 0
      | MQ_STATE_MATCHED \<Rightarrow> \<not> u \<and> \<not> c \<and> g = (req_type q AND MQE_TYPE_EGRLONG \<noteq> 0)
      | _ \<Rightarrow> \<not> u \<and> \<not> c \<and> \<not> g) \<and>
     (g \<longrightarrow> req_type q AND MQE_TYPE_EGRLONG \<noteq> 0) \<and>
     (req_state q \<in> {MQ_STATE_POSTED, MQ_STATE_UNEXP, MQ_STATE_MATCHED} \<longrightarrow>
        recv_msgoff q \<le> recv_msglen q \<and> recv_msglen q \<le> req_buf_len q)"

definition send_ok :: "psm_mq_req \<Rightarrow> bool \<Rightarrow> bool \<Rightarrow> bool \<Rightarrow> bool \<Rightarrow> bool" where
  "send_ok q e u c g \<longleftrightarrow> MQE_TYPE_IS_SEND (req_type q) \<and> \<not> MQE_TYPE_IS_RECV (req_type q) \<and>
     \<not> e \<and> \<not> u \<and> \<not> g \<and> (c \<longrightarrow> req_state q = MQ_STATE_COMPLETE)"

definition on_egrlong :: "psm_mq \<Rightarrow> u64 \<Rightarrow> bool" where
  "on_egrlong mq r \<longleftrightarrow> (\<exists>e f. r \<in> set (egrlong mq e f))"

definition req_ok :: "psm_mq \<Rightarrow> u64 \<Rightarrow> bool" where
  "req_ok mq r \<longleftrightarrow>
     (let q = reqs mq r; e = (r \<in> set (expected_q mq)); u = (r \<in> set (unexpected_q mq));
          c = (r \<in> set (completed_q mq)); g = on_egrlong mq r
      in if r \<in> rlive mq then recv_ok q e u c g
         else if r \<in> slive mq then send_ok q e u c g
         else \<not> e \<and> \<not> u \<and> \<not> c \<and> \<not> g)"

definition queues_ok :: "psm_mq \<Rightarrow> bool" where
  "queues_ok mq \<longleftrightarrow> distinct (expected_q mq) \<and> distinct (unexpected_q mq) \<and> distinct (completed_q mq)"

definition egr_ok :: "psm_mq \<Rightarrow> bool" where
  "egr_ok mq \<longleftrightarrow> (\<forall>e f. distinct (egrlong mq e f)) \<and>
     (\<forall>e f e' f' r. r \<in> set (egrlong mq e f) \<longrightarrow> r \<in> set (egrlong mq e' f') \<longrightarrow> e = e') \<and>
     (\<forall>e f r. r \<in> set (egrlong mq e f) \<longrightarrow> egr_flowid (egrid (reqs mq r)) = f)"

text \<open>The unexpected requests that own a system buffer, and their buffers.\<close>

definition owners :: "psm_mq \<Rightarrow> u64 set" where
  "owners mq = {r \<in> set (unexpected_q mq).
     req_state (reqs mq r) \<in> {MQ_STATE_COMPLETE, MQ_STATE_UNEXP} \<and> req_buf (reqs mq r) \<noteq> 0}"

definition owned_bufs :: "psm_mq \<Rightarrow> u64 set" where
  "owned_bufs mq = (\<lambda>r. req_buf (reqs mq r)) ` owners mq"

definition bufs_ok :: "u64 set \<Rightarrow> psm_mq \<Rightarrow> bool" where
  "bufs_ok own mq \<longleftrightarrow> sysbuf_inv (sysbufs mq) (owned_bufs mq \<union> own) \<and> owned_bufs mq \<inter> own = {} \<and>
     inj_on (\<lambda>r. req_buf (reqs mq r)) (owners mq)"

definition mq_inv :: "u64 set \<Rightarrow> psm_mq \<Rightarrow> bool" where
  "mq_inv own mq \<longleftrightarrow> pools_ok mq \<and> queues_ok mq \<and> (\<forall>r. req_ok mq r) \<and> egr_ok mq \<and> bufs_ok own mq"

text \<open>
  What an operation relies on of the memory allocator: chunks for the request pools are fresh
  memory, also with respect to the other pool, new system buffers are fresh, and neither is at
  address zero.
\<close>

definition req_env_ok :: "mq_env \<Rightarrow> psm_mq \<Rightarrow> bool" where
  "req_env_ok env mq \<longleftrightarrow>
     malloc_ok (pool_chunk env) (rreq_pool mq) \<and> malloc_ok (pool_chunk env) (sreq_pool mq) \<and>
     (\<forall>r p. psmi_mpool_get (pool_chunk env) (rreq_pool mq) = Inr (Some r, p) \<longrightarrow> r \<noteq> 0 \<and> r \<notin> slive mq) \<and>
     (\<forall>r p. psmi_mpool_get (pool_chunk env) (sreq_pool mq) = Inr (Some r, p) \<longrightarrow> r \<noteq> 0 \<and> r \<notin> rlive mq)"

definition env_ok :: "u64 set \<Rightarrow> mq_env \<Rightarrow> psm_mq \<Rightarrow> bool" where
  "env_ok own env mq \<longleftrightarrow> req_env_ok env mq \<and>
     heap_ok (heap env) (sysbufs mq) (owned_bufs mq \<union> own) \<and>
     heap_nonnull (heap env) (sysbufs mq)"

lemma env_ok_req: "env_ok own env mq \<Longrightarrow> req_env_ok env mq"
  by (simp add: env_ok_def)

lemma mq_invD:
  assumes "mq_inv own mq"
  shows "pools_ok mq" "queues_ok mq" "\<And>r. req_ok mq r" "egr_ok mq" "bufs_ok own mq"
  using assms by (auto simp: mq_inv_def)

lemma req_ok_cong:
  assumes "reqs mq' x = reqs mq x" "x \<in> set (expected_q mq') \<longleftrightarrow> x \<in> set (expected_q mq)"
    "x \<in> set (unexpected_q mq') \<longleftrightarrow> x \<in> set (unexpected_q mq)" "x \<in> set (completed_q mq') \<longleftrightarrow> x \<in> set (completed_q mq)"
    "on_egrlong mq' x = on_egrlong mq x" "x \<in> rlive mq' \<longleftrightarrow> x \<in> rlive mq" "x \<in> slive mq' \<longleftrightarrow> x \<in> slive mq"
  shows "req_ok mq' x = req_ok mq x"
  using assms by (simp add: req_ok_def)

text \<open>An operation that touches one request.\<close>

lemma mq_inv_touch:
  assumes "mq_inv own mq" "req_ok mq' r"
    "\<And>x. x \<noteq> r \<Longrightarrow> reqs mq' x = reqs mq x"
    "\<And>x. x \<noteq> r \<Longrightarrow> x \<in> set (expected_q mq') \<longleftrightarrow> x \<in> set (expected_q mq)"
    "\<And>x. x \<noteq> r \<Longrightarrow> x \<in> set (unexpected_q mq') \<longleftrightarrow> x \<in> set (unexpected_q mq)"
    "\<And>x. x \<noteq> r \<Longrightarrow> x \<in> set (completed_q mq') \<longleftrightarrow> x \<in> set (completed_q mq)"
    "\<And>x. x \<noteq> r \<Longrightarrow> on_egrlong mq' x = on_egrlong mq x"
    "\<And>x. x \<noteq> r \<Longrightarrow> x \<in> rlive mq' \<longleftrightarrow> x \<in> rlive mq" "\<And>x. x \<noteq> r \<Longrightarrow> x \<in> slive mq' \<longleftrightarrow> x \<in> slive mq"
    "pools_ok mq'" "queues_ok mq'" "egr_ok mq'" "bufs_ok own' mq'"
  shows "mq_inv own' mq'"
proof -
  have "req_ok mq' x" for x
  proof (cases "x = r")
    case False
    then have "req_ok mq' x = req_ok mq x" using assms by (intro req_ok_cong) auto
    then show ?thesis using mq_invD(3) [OF assms(1)] by simp
  qed (use assms(2) in simp)
  then show ?thesis using assms(10-13) by (simp add: mq_inv_def)
qed

lemma sysbuf_bufs_cong:
  assumes "bufs_ok own mq" "sysbufs mq' = sysbufs mq" "owners mq' = owners mq"
    "\<And>x. x \<in> owners mq \<Longrightarrow> req_buf (reqs mq' x) = req_buf (reqs mq x)"
  shows "bufs_ok own mq'"
proof -
  have "owned_bufs mq' = owned_bufs mq" using assms(3,4) by (auto simp: owned_bufs_def intro!: image_cong)
  moreover have "inj_on (\<lambda>r. req_buf (reqs mq' r)) (owners mq) = inj_on (\<lambda>r. req_buf (reqs mq r)) (owners mq)"
    using assms(4) by (intro inj_on_cong) auto
  ultimately show ?thesis using assms(1-3) by (simp add: bufs_ok_def)
qed

lemma egr_ok_cong:
  assumes "egr_ok mq" "egrlong mq' = egrlong mq"
    "\<And>x. on_egrlong mq x \<Longrightarrow> egr_flowid (egrid (reqs mq' x)) = egr_flowid (egrid (reqs mq x))"
  shows "egr_ok mq'"
  using assms unfolding egr_ok_def on_egrlong_def by metis

section \<open>Allocating a request\<close>

lemma upd_req_frame [simp]:
  "reqs (upd_req r f mq) = (reqs mq)(r := f (reqs mq r))"
  "expected_q (upd_req r f mq) = expected_q mq" "unexpected_q (upd_req r f mq) = unexpected_q mq"
  "completed_q (upd_req r f mq) = completed_q mq" "egrlong (upd_req r f mq) = egrlong mq"
  "rreq_pool (upd_req r f mq) = rreq_pool mq" "sreq_pool (upd_req r f mq) = sreq_pool mq"
  "sysbufs (upd_req r f mq) = sysbufs mq" "stats (upd_req r f mq) = stats mq" "mq_mem (upd_req r f mq) = mq_mem mq"
  "unexpected_callback (upd_req r f mq) = unexpected_callback mq"
  by (simp_all add: upd_req_def)

lemma completed_append_frame [simp]:
  "reqs (completed_append r mq) = reqs mq"
  "expected_q (completed_append r mq) = expected_q mq" "unexpected_q (completed_append r mq) = unexpected_q mq"
  "completed_q (completed_append r mq) = completed_q mq @ [r]" "egrlong (completed_append r mq) = egrlong mq"
  "rreq_pool (completed_append r mq) = rreq_pool mq" "sreq_pool (completed_append r mq) = sreq_pool mq"
  "sysbufs (completed_append r mq) = sysbufs mq" "stats (completed_append r mq) = stats mq"
  "mq_mem (completed_append r mq) = mq_mem mq"
  by (simp_all add: completed_append_def)

text \<open>A receive request that was just allocated.\<close>

definition fresh_req :: "u32 \<Rightarrow> psm_mq_req \<Rightarrow> psm_mq_req" where
  "fresh_req type q = q\<lparr>req_type := type, req_state := MQ_STATE_FREE, req_error_code := PSM_OK,
     testwait_callback := None, rts_peer := 0, ptl_req_ptr := 0\<rparr>"

lemma req_alloc_recv:
  assumes "psmi_mq_req_alloc env MQE_TYPE_RECV mq = Inr (r, mq')"
  obtains p where "psmi_mpool_get (pool_chunk env) (rreq_pool mq) = Inr (Some r, p)"
    "mq' = upd_req r (fresh_req MQE_TYPE_RECV) (mq\<lparr>rreq_pool := p\<rparr>)"
  using assms by (auto simp: psmi_mq_req_alloc_def MQE_TYPE_RECV_def MQE_TYPE_SEND_def psmi_errhandler_psm_def
      fresh_req_def [abs_def] split: option.splits prod.splits)

lemma req_alloc_send:
  assumes "psmi_mq_req_alloc env MQE_TYPE_SEND mq = Inr (r, mq')"
  obtains p where "psmi_mpool_get (pool_chunk env) (sreq_pool mq) = Inr (Some r, p)"
    "mq' = upd_req r (fresh_req MQE_TYPE_SEND) (mq\<lparr>sreq_pool := p\<rparr>)"
  using assms by (auto simp: psmi_mq_req_alloc_def psmi_errhandler_psm_def
      fresh_req_def [abs_def] split: option.splits prod.splits)

lemma unlive_off_queues:
  assumes "mq_inv own mq" "r \<notin> rlive mq" "r \<notin> slive mq"
  shows "r \<notin> set (expected_q mq)" "r \<notin> set (unexpected_q mq)" "r \<notin> set (completed_q mq)" "\<not> on_egrlong mq r"
    "r \<notin> owners mq"
  using mq_invD(3) [OF assms(1), of r] assms(2,3) by (simp_all add: req_ok_def owners_def)

lemma send_not_recv [simp]:
  "MQE_TYPE_IS_RECV MQE_TYPE_RECV" "\<not> MQE_TYPE_IS_SEND MQE_TYPE_RECV"
  "MQE_TYPE_IS_SEND MQE_TYPE_SEND" "\<not> MQE_TYPE_IS_RECV MQE_TYPE_SEND" "MQE_TYPE_RECV AND MQE_TYPE_EGRLONG = 0"
  by (simp_all add: mqe_type_defs)

lemma fresh_req_fields [simp]:
  "req_type (fresh_req t q) = t" "req_state (fresh_req t q) = MQ_STATE_FREE" "egrid (fresh_req t q) = egrid q"
  by (simp_all add: fresh_req_def)

lemma on_egrlong_cong: "egrlong mq' = egrlong mq \<Longrightarrow> on_egrlong mq' = on_egrlong mq"
  by (simp add: on_egrlong_def fun_eq_iff)

lemma new_request_inv:
  assumes inv: "mq_inv own mq" and new: "r \<notin> rlive mq" "r \<notin> slive mq"
    and f: "reqs mq' = (reqs mq)(r := q)" "expected_q mq' = expected_q mq" "unexpected_q mq' = unexpected_q mq"
      "completed_q mq' = completed_q mq" "egrlong mq' = egrlong mq" "sysbufs mq' = sysbufs mq"
    and p: "pools_ok mq'" "rlive mq' = (if recv then insert r (rlive mq) else rlive mq)"
      "slive mq' = (if recv then slive mq else insert r (slive mq))"
    and q: "if recv then recv_ok q False False False False else send_ok q False False False False"
  shows "mq_inv own mq'"
proof -
  note off = unlive_off_queues [OF inv new]
  show ?thesis
  proof (rule mq_inv_touch [OF inv, where r = r])
    show "req_ok mq' r" using off q f p new by (cases recv) (simp_all add: req_ok_def on_egrlong_cong [OF f(5)])
    show "queues_ok mq'" using mq_invD(2) [OF inv] f by (simp add: queues_ok_def)
    show "egr_ok mq'" by (rule egr_ok_cong [OF mq_invD(4) [OF inv] f(5)]) (use off(4) f(1) in auto)
    show "bufs_ok own mq'" using off(5)
      by (intro sysbuf_bufs_cong [OF mq_invD(5) [OF inv] f(6)]) (auto simp: owners_def f off(2))
  qed (use f p in \<open>auto simp: on_egrlong_cong [OF f(5)]\<close>)
qed

lemma alloc_recv_inv:
  assumes inv: "mq_inv own mq" and env: "req_env_ok env mq" and al: "psmi_mq_req_alloc env MQE_TYPE_RECV mq = Inr (r, mq')"
  shows "mq_inv own mq'" "r \<notin> rlive mq" "r \<notin> slive mq" "rlive mq' = insert r (rlive mq)" "r \<noteq> 0"
    "\<exists>p. mq' = upd_req r (fresh_req MQE_TYPE_RECV) (mq\<lparr>rreq_pool := p\<rparr>)"
proof -
  obtain p where p: "psmi_mpool_get (pool_chunk env) (rreq_pool mq) = Inr (Some r, p)"
    "mq' = upd_req r (fresh_req MQE_TYPE_RECV) (mq\<lparr>rreq_pool := p\<rparr>)"
    using al by (rule req_alloc_recv)
  have ok: "mpool_inv (rreq_pool mq)" "malloc_ok (pool_chunk env) (rreq_pool mq)"
    using mq_invD(1) [OF inv] env by (simp_all add: pools_ok_def req_env_ok_def)
  note get = mpool.get_object [OF ok p(1)]
  show r: "r \<notin> rlive mq" using get by simp
  show s: "r \<notin> slive mq" "r \<noteq> 0" using env p(1) by (auto simp: req_env_ok_def)
  show l: "rlive mq' = insert r (rlive mq)" using get p(2) by simp
  show "\<exists>p. mq' = upd_req r (fresh_req MQE_TYPE_RECV) (mq\<lparr>rreq_pool := p\<rparr>)" using p(2) by blast
  show "mq_inv own mq'"
    by (rule new_request_inv [OF inv r s(1), where recv = True and q = "fresh_req MQE_TYPE_RECV (reqs mq r)"])
      (use get p(2) l s mq_invD(1) [OF inv] in \<open>auto simp: pools_ok_def recv_ok_def\<close>)
qed

lemma alloc_send_inv:
  assumes inv: "mq_inv own mq" and env: "req_env_ok env mq" and al: "psmi_mq_req_alloc env MQE_TYPE_SEND mq = Inr (r, mq')"
  shows "mq_inv own mq'" "r \<notin> rlive mq" "r \<notin> slive mq" "slive mq' = insert r (slive mq)" "r \<noteq> 0"
    "\<exists>p. mq' = upd_req r (fresh_req MQE_TYPE_SEND) (mq\<lparr>sreq_pool := p\<rparr>)"
proof -
  obtain p where p: "psmi_mpool_get (pool_chunk env) (sreq_pool mq) = Inr (Some r, p)"
    "mq' = upd_req r (fresh_req MQE_TYPE_SEND) (mq\<lparr>sreq_pool := p\<rparr>)"
    using al by (rule req_alloc_send)
  have ok: "mpool_inv (sreq_pool mq)" "malloc_ok (pool_chunk env) (sreq_pool mq)"
    using mq_invD(1) [OF inv] env by (simp_all add: pools_ok_def req_env_ok_def)
  note get = mpool.get_object [OF ok p(1)]
  show s: "r \<notin> slive mq" using get by simp
  show r: "r \<notin> rlive mq" "r \<noteq> 0" using env p(1) by (auto simp: req_env_ok_def)
  show l: "slive mq' = insert r (slive mq)" using get p(2) by simp
  show "\<exists>p. mq' = upd_req r (fresh_req MQE_TYPE_SEND) (mq\<lparr>sreq_pool := p\<rparr>)" using p(2) by blast
  show "mq_inv own mq'"
    by (rule new_request_inv [OF inv r(1) s, where recv = False and q = "fresh_req MQE_TYPE_SEND (reqs mq r)"])
      (use get p(2) l r s mq_invD(1) [OF inv] in \<open>auto simp: pools_ok_def send_ok_def\<close>)
qed

section \<open>The queues of eager messages in progress\<close>

lemma egrlong_remove:
  assumes ok: "egr_ok mq" and hd: "egrlong mq e f = r # rest" and rm: "egrlong_remove_head e f mq = Inr mq'"
  shows "on_egrlong mq' x = (on_egrlong mq x \<and> x \<noteq> r)" "egr_ok mq'"
    "mq' = mq\<lparr>egrlong := (egrlong mq)(e := (egrlong mq e)(f := rest))\<rparr>"
proof -
  show eq: "mq' = mq\<lparr>egrlong := (egrlong mq)(e := (egrlong mq e)(f := rest))\<rparr>"
    using rm hd by (simp add: egrlong_remove_head_def)
  have u: "r \<in> set (egrlong mq e' f') \<Longrightarrow> e' = e \<and> f' = f" for e' f'
    using ok hd unfolding egr_ok_def by (metis list.set_intros(1))
  have d: "r \<notin> set rest" using ok hd unfolding egr_ok_def by (metis distinct.simps(2))
  show "on_egrlong mq' x = (on_egrlong mq x \<and> x \<noteq> r)"
  proof -
    have mem: "x \<in> set (egrlong mq' e' f') \<longleftrightarrow> x \<in> set (egrlong mq e' f') \<and> x \<noteq> r" for e' f'
      using u [of e' f'] d hd by (cases "e' = e \<and> f' = f") (auto simp: eq)
    then show ?thesis by (simp add: on_egrlong_def)
  qed
  have sub: "set (egrlong mq' e' f') \<subseteq> set (egrlong mq e' f')" for e' f' using hd by (auto simp: eq)
  have "distinct (egrlong mq' e' f')" for e' f'
    using ok hd unfolding egr_ok_def by (simp add: eq) (metis distinct.simps(2))
  moreover have "reqs mq' = reqs mq" by (simp add: eq)
  ultimately show "egr_ok mq'" using ok sub unfolding egr_ok_def by (simp only:) (meson subsetD)
qed

lemma egrlong_insert:
  assumes ok: "egr_ok mq" and new: "\<not> on_egrlong mq r" and fl: "egr_flowid (egrid (reqs mq r)) = f"
  shows "on_egrlong (egrlong_insert_tail e f r mq) x = (on_egrlong mq x \<or> x = r)" "egr_ok (egrlong_insert_tail e f r mq)"
proof -
  let ?m = "egrlong_insert_tail e f r mq"
  have mem: "x \<in> set (egrlong ?m e' f') \<longleftrightarrow> x \<in> set (egrlong mq e' f') \<or> x = r \<and> e' = e \<and> f' = f" for x e' f'
    by (auto simp: egrlong_insert_tail_def)
  show "on_egrlong ?m x = (on_egrlong mq x \<or> x = r)" by (auto simp: on_egrlong_def mem)
  have n: "r \<notin> set (egrlong mq e' f')" for e' f' using new by (auto simp: on_egrlong_def)
  have "distinct (egrlong ?m e' f')" for e' f'
    using ok n [of e f] by (auto simp: egrlong_insert_tail_def egr_ok_def)
  moreover have "egr_flowid (egrid (reqs ?m x)) = f'" if "x \<in> set (egrlong ?m e' f')" for x e' f'
  proof -
    have "egr_flowid (egrid (reqs mq x)) = f'" using that ok fl unfolding mem egr_ok_def by blast
    then show ?thesis by (simp add: egrlong_insert_tail_def)
  qed
  moreover have "e' = e''" if "x \<in> set (egrlong ?m e' f')" "x \<in> set (egrlong ?m e'' f'')" for x e' f' e'' f''
    using that ok n unfolding mem egr_ok_def by metis
  ultimately show "egr_ok ?m" unfolding egr_ok_def by meson
qed

lemma egrlong_insert_frame [simp]:
  "reqs (egrlong_insert_tail e f r mq) = reqs mq"
  "expected_q (egrlong_insert_tail e f r mq) = expected_q mq" "unexpected_q (egrlong_insert_tail e f r mq) = unexpected_q mq"
  "completed_q (egrlong_insert_tail e f r mq) = completed_q mq" "sysbufs (egrlong_insert_tail e f r mq) = sysbufs mq"
  "rreq_pool (egrlong_insert_tail e f r mq) = rreq_pool mq" "sreq_pool (egrlong_insert_tail e f r mq) = sreq_pool mq"
  "mq_mem (egrlong_insert_tail e f r mq) = mq_mem mq" "stats (egrlong_insert_tail e f r mq) = stats mq"
  by (simp_all add: egrlong_insert_tail_def)

section \<open>Data\<close>

lemma mtucpy_frame: "mq_mtucpy d s n mq = Inr mq' \<Longrightarrow> mq' = mq\<lparr>mq_mem := mq_mem mq'\<rparr>"
  by (auto simp: mq_mtucpy_def split: if_splits)

lemma tinycpy_frame: "mq_tinycpy d s n mq = Inr mq' \<Longrightarrow> mq' = mq\<lparr>mq_mem := mq_mem mq'\<rparr>"
  by (auto simp: mq_tinycpy_def split: if_splits)

text \<open>The bytes \<^verbatim>\<open>psmi_mq_req_copy\<close> copies.\<close>

definition copy_now :: "psm_mq_req \<Rightarrow> u32 \<Rightarrow> u32" where
  "copy_now q nb = min (recv_msglen q - recv_msgoff q) nb"

definition copied_req :: "u32 \<Rightarrow> psm_mq_req \<Rightarrow> psm_mq_req" where
  "copied_req nb q = q\<lparr>recv_msgoff := recv_msgoff q + copy_now q nb, send_msgoff := send_msgoff q + nb\<rparr>"

lemma copied_req_fields [simp]:
  "req_state (copied_req nb q) = req_state q" "req_type (copied_req nb q) = req_type q"
  "req_buf (copied_req nb q) = req_buf q" "req_buf_len (copied_req nb q) = req_buf_len q"
  "egrid (copied_req nb q) = egrid q" "recv_msglen (copied_req nb q) = recv_msglen q"
  "rts_callback (copied_req nb q) = rts_callback q" "send_msglen (copied_req nb q) = send_msglen q"
  "recv_msgoff (copied_req nb q) = recv_msgoff q + copy_now q nb" "send_msgoff (copied_req nb q) = send_msgoff q + nb"
  by (simp_all add: copied_req_def)

lemma req_copy_frame:
  assumes "psmi_mq_req_copy r buf nb mq = Inr mq'"
  shows "mq' = upd_req r (copied_req nb) (mq\<lparr>mq_mem := mq_mem mq'\<rparr>)"
proof -
  obtain m where m: "mq_mtucpy (req_buf (reqs mq r) + ucast (recv_msgoff (reqs mq r))) buf (copy_now (reqs mq r) nb) mq = Inr m"
    and eq: "mq' = upd_req r (\<lambda>q. q\<lparr>recv_msgoff := recv_msgoff q + copy_now (reqs mq r) nb, send_msgoff := send_msgoff q + nb\<rparr>) m"
    using assms unfolding psmi_mq_req_copy_def Let_def copy_now_def [symmetric] by auto
  have "m = mq\<lparr>mq_mem := mq_mem m\<rparr>" using mtucpy_frame [OF m] .
  moreover have "reqs m r = reqs mq r" using mtucpy_frame [OF m] by (metis psm_mq.ext_inject psm_mq.surjective psm_mq.update_convs(16))
  ultimately show ?thesis using eq by (simp add: upd_req_def copied_req_def)
qed

lemma word_add_min_le: "a \<le> b \<Longrightarrow> a + min (b - a) c \<le> (b :: 'a::len word)"
proof -
  assume ab: "a \<le> b"
  have "unat (min (b - a) c) \<le> unat b - unat a"
    using ab by (metis min.cobounded1 unat_sub word_le_nat_alt)
  then have le: "unat a + unat (min (b - a) c) \<le> unat b" using ab by (simp add: word_le_nat_alt)
  moreover have "unat b < 2 ^ LENGTH('a)" by (rule unsigned_less)
  ultimately have "unat (a + min (b - a) c) = unat a + unat (min (b - a) c)" by (intro unat_plus_no_wrap) linarith
  then show ?thesis using le by (simp add: word_le_nat_alt)
qed

lemma copied_le: "recv_msgoff q \<le> recv_msglen q \<Longrightarrow> recv_msgoff (copied_req nb q) \<le> recv_msglen q"
  by (simp add: copy_now_def word_add_min_le)

text \<open>What completing one piece of data does to the request, before it is queued.\<close>

definition eager_ready :: "u64 \<Rightarrow> u64 \<Rightarrow> psm_mq \<Rightarrow> bool" where
  "eager_ready r ep mq \<longleftrightarrow> r \<in> rlive mq \<and>
     (if req_type (reqs mq r) AND MQE_TYPE_EGRLONG \<noteq> 0
      then \<exists>rest. egrlong mq ep (egr_flowid (egrid (reqs mq r))) = r # rest
      else req_state (reqs mq r) = MQ_STATE_MATCHED)"

lemma handle_data_cases:
  assumes "psmi_mq_handle_data r ep buf nb mq = Inr (rc, mq')"
  obtains (more) m where "mq' = upd_req r (copied_req nb) (mq\<lparr>mq_mem := m\<rparr>)"
      "send_msgoff (reqs mq r) + nb \<noteq> send_msglen (reqs mq r)"
  | (last) m mq2 where
      "if req_type (reqs mq r) AND MQE_TYPE_EGRLONG \<noteq> 0
       then egrlong_remove_head ep (egr_flowid (egrid (reqs mq r))) (upd_req r (copied_req nb) (mq\<lparr>mq_mem := m\<rparr>)) = Inr mq2
       else mq2 = upd_req r (copied_req nb) (mq\<lparr>mq_mem := m\<rparr>)"
      "mq' = (if req_state (reqs mq r) = MQ_STATE_MATCHED
              then completed_append r (upd_req r (\<lambda>q. q\<lparr>req_state := MQ_STATE_COMPLETE\<rparr>) mq2)
              else upd_req r (\<lambda>q. q\<lparr>req_state := MQ_STATE_COMPLETE\<rparr>) mq2)"
      "send_msgoff (reqs mq r) + nb = send_msglen (reqs mq r)"
proof -
  obtain mq1 where c: "psmi_mq_req_copy r buf nb mq = Inr mq1"
    and rest: "(if send_msgoff (reqs mq1 r) = send_msglen (reqs mq1 r) then
                   run_bind (if req_type (reqs mq1 r) AND MQE_TYPE_EGRLONG \<noteq> 0
                             then egrlong_remove_head ep (egr_flowid (egrid (reqs mq1 r))) mq1
                             else Inr mq1)
                     (\<lambda>mq'. if req_state (reqs mq' r) = MQ_STATE_MATCHED
                           then Inr (if req_state (reqs mq r) = MQ_STATE_MATCHED then MQ_RET_MATCH_OK else MQ_RET_UNEXP_OK,
                             completed_append r (upd_req r (\<lambda>q. q\<lparr>req_state := MQ_STATE_COMPLETE\<rparr>) mq'))
                           else Inr (if req_state (reqs mq r) = MQ_STATE_MATCHED then MQ_RET_MATCH_OK else MQ_RET_UNEXP_OK,
                             upd_req r (\<lambda>q. q\<lparr>req_state := MQ_STATE_COMPLETE\<rparr>) mq'))
                 else Inr (if req_state (reqs mq r) = MQ_STATE_MATCHED then MQ_RET_MATCH_OK else MQ_RET_UNEXP_OK, mq1)) = Inr (rc, mq')"
    using assms unfolding psmi_mq_handle_data_def Let_def by auto
  obtain m where m: "mq1 = upd_req r (copied_req nb) (mq\<lparr>mq_mem := m\<rparr>)" using req_copy_frame [OF c] by blast
  have f: "reqs mq1 r = copied_req nb (reqs mq r)" by (simp add: m)
  show thesis
  proof (cases "send_msgoff (reqs mq r) + nb = send_msglen (reqs mq r)")
    case False
    then show ?thesis using more [OF _ False, of m] rest f m by simp
  next
    case True
    then obtain mq2 where mq2: "(if req_type (reqs mq1 r) AND MQE_TYPE_EGRLONG \<noteq> 0
        then egrlong_remove_head ep (egr_flowid (egrid (reqs mq1 r))) mq1 else Inr mq1) = Inr mq2"
      "mq' = (if req_state (reqs mq2 r) = MQ_STATE_MATCHED
              then completed_append r (upd_req r (\<lambda>q. q\<lparr>req_state := MQ_STATE_COMPLETE\<rparr>) mq2)
              else upd_req r (\<lambda>q. q\<lparr>req_state := MQ_STATE_COMPLETE\<rparr>) mq2)"
      using rest f by (auto split: if_splits)
    have "reqs mq2 = reqs mq1"
      using mq2(1) by (auto simp: egrlong_remove_head_def split: if_splits list.splits)
    then have "req_state (reqs mq2 r) = req_state (reqs mq r)" using f by simp
    then show ?thesis using last [OF _ _ True, of m mq2] mq2 f m by (auto split: if_splits)
  qed
qed

text \<open>Replacing the fields of one request that stays where it is.\<close>

lemma mq_inv_field:
  assumes inv: "mq_inv own mq" and r: "r \<in> rlive mq"
    and q: "recv_ok q (r \<in> set (expected_q mq)) (r \<in> set (unexpected_q mq)) (r \<in> set (completed_q mq)) (on_egrlong mq r)"
    and same: "req_buf q = req_buf (reqs mq r)" "req_state q = req_state (reqs mq r)" "egrid q = egrid (reqs mq r)"
    and f: "reqs mq' = (reqs mq)(r := q)" "expected_q mq' = expected_q mq" "unexpected_q mq' = unexpected_q mq"
      "completed_q mq' = completed_q mq" "egrlong mq' = egrlong mq" "sysbufs mq' = sysbufs mq"
      "rreq_pool mq' = rreq_pool mq" "sreq_pool mq' = sreq_pool mq"
  shows "mq_inv own mq'"
proof (rule mq_inv_touch [OF inv, where r = r])
  note g = on_egrlong_cong [OF f(5)]
  show "req_ok mq' r" using q r f by (simp add: req_ok_def g)
  show "pools_ok mq'" "queues_ok mq'" using mq_invD(1,2) [OF inv] f by (simp_all add: pools_ok_def queues_ok_def)
  show "egr_ok mq'" by (rule egr_ok_cong [OF mq_invD(4) [OF inv] f(5)]) (use same f(1) in auto)
  show "bufs_ok own mq'" using same
    by (intro sysbuf_bufs_cong [OF mq_invD(5) [OF inv] f(6)]) (auto simp: owners_def f)
qed (use f in \<open>auto simp: on_egrlong_cong [OF f(5)]\<close>)

lemma rlive_recv_ok:
  assumes "mq_inv own mq" "r \<in> rlive mq"
  shows "recv_ok (reqs mq r) (r \<in> set (expected_q mq)) (r \<in> set (unexpected_q mq)) (r \<in> set (completed_q mq)) (on_egrlong mq r)"
  using mq_invD(3) [OF assms(1), of r] assms(2) by (simp add: req_ok_def)

lemma eager_state:
  assumes "mq_inv own mq" "eager_ready r ep mq"
  shows "req_state (reqs mq r) \<in> {MQ_STATE_MATCHED, MQ_STATE_UNEXP}"
    "on_egrlong mq r = (req_type (reqs mq r) AND MQE_TYPE_EGRLONG \<noteq> 0)" "r \<in> rlive mq"
    "req_state (reqs mq r) = MQ_STATE_UNEXP \<Longrightarrow> req_type (reqs mq r) AND MQE_TYPE_EGRLONG \<noteq> 0"
proof -
  show r: "r \<in> rlive mq" using assms(2) by (simp add: eager_ready_def)
  note ok = rlive_recv_ok [OF assms(1) r]
  have g: "on_egrlong mq r" if t: "req_type (reqs mq r) AND MQE_TYPE_EGRLONG \<noteq> 0"
  proof -
    obtain rest where "egrlong mq ep (egr_flowid (egrid (reqs mq r))) = r # rest"
      using assms(2) t by (auto simp: eager_ready_def)
    then have "r \<in> set (egrlong mq ep (egr_flowid (egrid (reqs mq r))))" by simp
    then show ?thesis unfolding on_egrlong_def by blast
  qed
  then show "on_egrlong mq r = (req_type (reqs mq r) AND MQE_TYPE_EGRLONG \<noteq> 0)" using ok by (auto simp: recv_ok_def)
  show "req_state (reqs mq r) \<in> {MQ_STATE_MATCHED, MQ_STATE_UNEXP}"
  proof (cases "req_type (reqs mq r) AND MQE_TYPE_EGRLONG = 0")
    case True
    then show ?thesis using assms(2) by (simp add: eager_ready_def)
  next
    case False
    then show ?thesis using ok g by (auto simp: recv_ok_def split: mq_state.splits)
  qed
  show "req_state (reqs mq r) = MQ_STATE_UNEXP \<Longrightarrow> req_type (reqs mq r) AND MQE_TYPE_EGRLONG \<noteq> 0"
    using ok by (auto simp: recv_ok_def)
qed

lemma copied_inv:
  assumes "mq_inv own mq" "r \<in> rlive mq" "req_state (reqs mq r) \<in> {MQ_STATE_MATCHED, MQ_STATE_UNEXP}"
  shows "mq_inv own (upd_req r (copied_req nb) (mq\<lparr>mq_mem := m\<rparr>))"
proof -
  note ok = rlive_recv_ok [OF assms(1,2)]
  have "recv_msgoff (copied_req nb (reqs mq r)) \<le> recv_msglen (reqs mq r)"
    using ok assms(3) by (intro copied_le) (auto simp: recv_ok_def)
  then have "recv_ok (copied_req nb (reqs mq r)) (r \<in> set (expected_q mq)) (r \<in> set (unexpected_q mq)) (r \<in> set (completed_q mq)) (on_egrlong mq r)"
    using ok by (auto simp: recv_ok_def split: mq_state.splits)
  then show ?thesis by (intro mq_inv_field [OF assms(1,2)]) simp_all
qed

text \<open>Finishing a message that was being received.\<close>

lemma finish_inv:
  assumes inv: "mq_inv own mq" and r: "r \<in> rlive mq" and st: "req_state (reqs mq r) \<in> {MQ_STATE_MATCHED, MQ_STATE_UNEXP}"
    and eg: "\<And>x. on_egrlong mq' x = (on_egrlong mq x \<and> x \<noteq> r)" "egr_ok mq'"
    and f: "reqs mq' = (reqs mq)(r := (reqs mq r)\<lparr>req_state := MQ_STATE_COMPLETE\<rparr>)" "expected_q mq' = expected_q mq"
      "unexpected_q mq' = unexpected_q mq"
      "completed_q mq' = (if req_state (reqs mq r) = MQ_STATE_MATCHED then completed_q mq @ [r] else completed_q mq)"
      "sysbufs mq' = sysbufs mq" "rreq_pool mq' = rreq_pool mq" "sreq_pool mq' = sreq_pool mq"
  shows "mq_inv own mq'"
proof (rule mq_inv_touch [OF inv, where r = r])
  note ok = rlive_recv_ok [OF inv r]
  have c: "r \<notin> set (completed_q mq)" "r \<notin> set (expected_q mq)"
    "r \<in> set (unexpected_q mq) \<longleftrightarrow> req_state (reqs mq r) = MQ_STATE_UNEXP"
    using ok st by (auto simp: recv_ok_def)
  show "req_ok mq' r" using ok st r c by (auto simp: req_ok_def recv_ok_def eg(1) f)
  show "pools_ok mq'" "queues_ok mq'"
    using mq_invD(1,2) [OF inv] c f by (simp_all add: pools_ok_def queues_ok_def)
  have "owners mq' = owners mq" using c(3) by (auto simp: owners_def f(1,3))
  then show "bufs_ok own mq'" by (intro sysbuf_bufs_cong [OF mq_invD(5) [OF inv] f(5)]) (simp_all add: f(1))
qed (use f eg in auto)

lemma handle_data_inv:
  assumes inv: "mq_inv own mq" and ready: "eager_ready r ep mq"
    and hd: "psmi_mq_handle_data r ep buf nb mq = Inr (rc, mq')"
  shows "mq_inv own mq'"
  using hd
proof (cases rule: handle_data_cases)
  case (more m)
  then show ?thesis using copied_inv [OF inv eager_state(3,1) [OF inv ready]] by simp
next
  case (last m mq2)
  let ?mq1 = "upd_req r (copied_req nb) (mq\<lparr>mq_mem := m\<rparr>)"
  note st = eager_state [OF inv ready]
  note inv1 = copied_inv [OF inv st(3,1), of nb m]
  have g1: "on_egrlong ?mq1 = on_egrlong mq" by (rule on_egrlong_cong) simp
  have eg: "on_egrlong mq2 x = (on_egrlong ?mq1 x \<and> x \<noteq> r)" "egr_ok mq2" "mq2 = ?mq1\<lparr>egrlong := egrlong mq2\<rparr>" for x
  proof -
    show "on_egrlong mq2 x = (on_egrlong ?mq1 x \<and> x \<noteq> r)"
    proof (cases "req_type (reqs mq r) AND MQE_TYPE_EGRLONG = 0")
      case False
      then obtain rest where "egrlong ?mq1 ep (egr_flowid (egrid (reqs mq r))) = r # rest"
        using ready by (auto simp: eager_ready_def)
      then show ?thesis using egrlong_remove(1) [OF mq_invD(4) [OF inv1]] last(1) False by simp
    qed (use last(1) st(2) g1 in auto)
    show "egr_ok mq2"
    proof (cases "req_type (reqs mq r) AND MQE_TYPE_EGRLONG = 0")
      case False
      then obtain rest where "egrlong ?mq1 ep (egr_flowid (egrid (reqs mq r))) = r # rest"
        using ready by (auto simp: eager_ready_def)
      then show ?thesis using egrlong_remove(2) [OF mq_invD(4) [OF inv1]] last(1) False by simp
    qed (use last(1) mq_invD(4) [OF inv1] in simp)
    show "mq2 = ?mq1\<lparr>egrlong := egrlong mq2\<rparr>"
      using last(1) by (auto simp: egrlong_remove_head_def upd_req_def split: if_splits list.splits)
  qed
  have s: "req_state (reqs ?mq1 r) = req_state (reqs mq r)" by simp
  have F: "reqs mq2 = reqs ?mq1" "expected_q mq2 = expected_q mq" "unexpected_q mq2 = unexpected_q mq"
    "completed_q mq2 = completed_q mq" "sysbufs mq2 = sysbufs mq" "rreq_pool mq2 = rreq_pool mq" "sreq_pool mq2 = sreq_pool mq"
    by (subst eg(3), simp)+
  have g: "on_egrlong mq' = on_egrlong mq2" by (rule on_egrlong_cong) (simp add: last(2))
  have "egr_ok mq'" by (rule egr_ok_cong [OF eg(2)]) (simp_all add: last(2))
  then show ?thesis
    by (intro finish_inv [OF inv1, of r]) (use st eg(1) g F last(2) in auto)
qed

section \<open>Matching\<close>

lemma expected_match_cases:
  obtains (found) r where "expected_match tag mq = (Some r, mq\<lparr>expected_q := remove1 r (expected_q mq)\<rparr>)"
      "r \<in> set (expected_q mq)" "(tag XOR req_tag (reqs mq r)) AND req_tagsel (reqs mq r) = 0"
      "find (\<lambda>c. (tag XOR req_tag (reqs mq c)) AND req_tagsel (reqs mq c) = 0) (expected_q mq) = Some r"
  | (none) "expected_match tag mq = (None, mq)"
      "\<And>r. r \<in> set (expected_q mq) \<Longrightarrow> (tag XOR req_tag (reqs mq r)) AND req_tagsel (reqs mq r) \<noteq> 0"
proof (cases "find (\<lambda>c. (tag XOR req_tag (reqs mq c)) AND req_tagsel (reqs mq c) = 0) (expected_q mq)")
  case None
  then have "expected_match tag mq = (None, mq)" by (simp add: expected_match_def list_search_remove_def)
  then show ?thesis using none None by (auto simp: find_None_iff)
next
  case (Some r)
  then have "expected_match tag mq = (Some r, mq\<lparr>expected_q := remove1 r (expected_q mq)\<rparr>)"
    by (simp add: expected_match_def list_search_remove_def)
  moreover have "r \<in> set (expected_q mq)" "(tag XOR req_tag (reqs mq r)) AND req_tagsel (reqs mq r) = 0"
    using Some by (auto simp: find_Some_iff)
  ultimately show ?thesis using found Some by blast
qed

lemma unexpected_match_cases:
  obtains (found) r where "unexpected_match tag tagsel remove mq =
        (Some r, if remove then mq\<lparr>unexpected_q := remove1 r (unexpected_q mq)\<rparr> else mq)"
      "r \<in> set (unexpected_q mq)" "(tag XOR req_tag (reqs mq r)) AND tagsel = 0"
      "find (\<lambda>c. (tag XOR req_tag (reqs mq c)) AND tagsel = 0) (unexpected_q mq) = Some r"
  | (none) "unexpected_match tag tagsel remove mq = (None, mq)"
      "\<And>r. r \<in> set (unexpected_q mq) \<Longrightarrow> (tag XOR req_tag (reqs mq r)) AND tagsel \<noteq> 0"
proof (cases "find (\<lambda>c. (tag XOR req_tag (reqs mq c)) AND tagsel = 0) (unexpected_q mq)")
  case None
  then have "unexpected_match tag tagsel remove mq = (None, mq)"
    by (simp add: unexpected_match_def list_search_remove_def)
  then show ?thesis using none None by (auto simp: find_None_iff)
next
  case (Some r)
  then have "unexpected_match tag tagsel remove mq =
      (Some r, if remove then mq\<lparr>unexpected_q := remove1 r (unexpected_q mq)\<rparr> else mq)"
    by (simp add: unexpected_match_def list_search_remove_def)
  moreover have "r \<in> set (unexpected_q mq)" "(tag XOR req_tag (reqs mq r)) AND tagsel = 0"
    using Some by (auto simp: find_Some_iff)
  ultimately show ?thesis using found Some by blast
qed

lemma set_msglen_fields [simp]:
  "fst (mq_set_msglen q rl sl) = min rl sl"
  "recv_msglen (snd (mq_set_msglen q rl sl)) = min rl sl" "send_msglen (snd (mq_set_msglen q rl sl)) = sl"
  "req_error_code (snd (mq_set_msglen q rl sl)) = (if rl < sl then PSM_MQ_TRUNCATION else PSM_OK)"
  "req_type (snd (mq_set_msglen q rl sl)) = req_type q" "req_state (snd (mq_set_msglen q rl sl)) = req_state q"
  "req_buf (snd (mq_set_msglen q rl sl)) = req_buf q" "req_buf_len (snd (mq_set_msglen q rl sl)) = req_buf_len q"
  "egrid (snd (mq_set_msglen q rl sl)) = egrid q" "recv_msgoff (snd (mq_set_msglen q rl sl)) = recv_msgoff q"
  "send_msgoff (snd (mq_set_msglen q rl sl)) = send_msgoff q" "req_tag (snd (mq_set_msglen q rl sl)) = req_tag q"
  "req_context (snd (mq_set_msglen q rl sl)) = req_context q" "rts_callback (snd (mq_set_msglen q rl sl)) = rts_callback q"
  by (auto simp: mq_set_msglen_def Let_def min_def)

text \<open>A posted receive that is matched or cancelled leaves the expected queue.\<close>

lemma expected_posted:
  assumes "mq_inv own mq" "r \<in> set (expected_q mq)"
  shows "r \<in> rlive mq" "req_state (reqs mq r) = MQ_STATE_POSTED" "r \<notin> set (unexpected_q mq)" "r \<notin> set (completed_q mq)"
    "\<not> on_egrlong mq r" "MQE_TYPE_IS_RECV (req_type (reqs mq r))" "\<not> MQE_TYPE_IS_SEND (req_type (reqs mq r))"
proof -
  have "req_ok mq r" using mq_invD(3) [OF assms(1)] .
  then show r: "r \<in> rlive mq" using assms(2) by (auto simp: req_ok_def send_ok_def Let_def split: if_splits)
  have "recv_ok (reqs mq r) True (r \<in> set (unexpected_q mq)) (r \<in> set (completed_q mq)) (on_egrlong mq r)"
    using rlive_recv_ok [OF assms(1) r] assms(2) by simp
  then show "req_state (reqs mq r) = MQ_STATE_POSTED" "r \<notin> set (unexpected_q mq)" "r \<notin> set (completed_q mq)"
    "\<not> on_egrlong mq r" "MQE_TYPE_IS_RECV (req_type (reqs mq r))" "\<not> MQE_TYPE_IS_SEND (req_type (reqs mq r))"
    by (auto simp: recv_ok_def)
qed

lemma leave_expected_inv:
  assumes inv: "mq_inv own mq" and r: "r \<in> set (expected_q mq)" and q: "recv_ok q False False c g"
    and eg: "\<And>x. on_egrlong mq' x = (on_egrlong mq x \<or> g \<and> x = r)" "egr_ok mq'"
    and f: "reqs mq' = (reqs mq)(r := q)" "expected_q mq' = remove1 r (expected_q mq)"
      "unexpected_q mq' = unexpected_q mq" "completed_q mq' = (if c then completed_q mq @ [r] else completed_q mq)"
      "sysbufs mq' = sysbufs mq" "rreq_pool mq' = rreq_pool mq" "sreq_pool mq' = sreq_pool mq"
  shows "mq_inv own mq'"
proof (rule mq_inv_touch [OF inv, where r = r])
  note p = expected_posted [OF inv r]
  have d: "distinct (expected_q mq)" using mq_invD(2) [OF inv] by (simp add: queues_ok_def)
  show "req_ok mq' r" using q p d f by (auto simp: req_ok_def eg(1) Let_def)
  show "pools_ok mq'" using mq_invD(1) [OF inv] f by (simp add: pools_ok_def)
  show "queues_ok mq'" using mq_invD(2) [OF inv] f p(4) by (auto simp: queues_ok_def)
  have "owners mq' = owners mq" using p(3) by (auto simp: owners_def f(1,3))
  then show "bufs_ok own mq'" using p(3)
    by (intro sysbuf_bufs_cong [OF mq_invD(5) [OF inv] f(5)]) (auto simp: f(1) owners_def)
  show "egr_ok mq'" by (rule eg(2))
qed (use f eg(1) in \<open>auto simp: in_set_remove1\<close>)

section \<open>Unexpected messages\<close>

lemma sysbuf_alloc_mq:
  assumes bufs: "bufs_ok own mq" and env: "heap_ok (heap env) (sysbufs mq) (owned_bufs mq \<union> own)"
    and nn: "heap_nonnull (heap env) (sysbufs mq)"
    and al: "mq_sysbuf_alloc env n mq = Inr (b, mq')"
  obtains sb where "mq' = mq\<lparr>sysbufs := sb\<rparr>"
    "sysbuf_inv sb (owned_bufs mq \<union> own \<union> (if b = 0 then {} else {b}))" "b \<noteq> 0 \<Longrightarrow> b \<notin> owned_bufs mq \<union> own"
proof -
  let ?H = "owned_bufs mq \<union> own"
  have inv: "sysbuf_inv (sysbufs mq) ?H" using bufs by (simp add: bufs_ok_def)
  note nz = alloc_nonnull [OF inv nn]
  show thesis
  proof (rule alloc_cases [OF inv env, where n = n])
    fix p sb' assume 1: "psmi_mq_sysbuf_alloc (heap env) n (sysbufs mq) = Inr (Some p, sb')" "sysbuf_inv sb' (insert p ?H)" "p \<notin> ?H"
    then have "b = p" "mq' = mq\<lparr>sysbufs := sb'\<rparr>" "b \<noteq> 0" using al nz by (auto simp: mq_sysbuf_alloc_def)
    then show thesis using that [of sb'] 1 by simp
  next
    fix sb' assume 1: "psmi_mq_sysbuf_alloc (heap env) n (sysbufs mq) = Inr (None, sb')" "sysbuf_inv sb' ?H"
    then have "b = 0" "mq' = mq\<lparr>sysbufs := sb'\<rparr>" using al by (auto simp: mq_sysbuf_alloc_def)
    then show thesis using that [of sb'] 1 by simp
  qed
qed

text \<open>A new request is appended to the unexpected queue.\<close>

lemma enter_unexpected_inv:
  assumes inv: "mq_inv own mq" and r: "r \<in> rlive mq" "req_state (reqs mq r) = MQ_STATE_FREE"
    and q: "recv_ok q False True False g"
    and b: "B = (if req_state q \<in> {MQ_STATE_COMPLETE, MQ_STATE_UNEXP} \<and> req_buf q \<noteq> 0 then {req_buf q} else {})"
      "sysbuf_inv (sysbufs mq') (owned_bufs mq \<union> own \<union> B)" "B \<inter> (owned_bufs mq \<union> own) = {}"
    and eg: "\<And>x. on_egrlong mq' x = (on_egrlong mq x \<or> g \<and> x = r)" "egr_ok mq'"
    and f: "reqs mq' = (reqs mq)(r := q)" "expected_q mq' = expected_q mq"
      "unexpected_q mq' = unexpected_q mq @ [r]" "completed_q mq' = completed_q mq"
      "rreq_pool mq' = rreq_pool mq" "sreq_pool mq' = sreq_pool mq"
  shows "mq_inv own mq'"
proof (rule mq_inv_touch [OF inv, where r = r])
  have off: "r \<notin> set (expected_q mq)" "r \<notin> set (unexpected_q mq)" "r \<notin> set (completed_q mq)" "\<not> on_egrlong mq r"
    using rlive_recv_ok [OF inv r(1)] r(2) by (auto simp: recv_ok_def)
  show "req_ok mq' r" using q off f r(1) by (auto simp: req_ok_def eg(1))
  show "pools_ok mq'" "queues_ok mq'"
    using mq_invD(1,2) [OF inv] f off by (simp_all add: pools_ok_def queues_ok_def)
  have same: "x \<in> owners mq \<Longrightarrow> x \<noteq> r" for x using off by (auto simp: owners_def)
  have o: "owners mq' = owners mq \<union> (if B = {} then {} else {r})"
    using off(2) by (auto simp: owners_def f b(1) split: if_splits)
  have ob: "owned_bufs mq' = owned_bufs mq \<union> B"
    unfolding owned_bufs_def o using same by (auto simp: f(1) b(1) split: if_splits)
  have "inj_on (\<lambda>r. req_buf (reqs mq' r)) (owners mq')"
  proof -
    have "inj_on (\<lambda>r. req_buf (reqs mq' r)) (owners mq)"
      using mq_invD(5) [OF inv] same inj_on_cong [of "owners mq" "\<lambda>r. req_buf (reqs mq' r)" "\<lambda>r. req_buf (reqs mq r)"]
      by (auto simp: bufs_ok_def f(1))
    moreover have "req_buf q \<notin> owned_bufs mq" if "B \<noteq> {}" using b(1,3) that by (auto split: if_splits)
    moreover have "(\<lambda>r. req_buf (reqs mq' r)) ` owners mq = owned_bufs mq"
      using same by (auto simp: owned_bufs_def f(1) intro!: image_cong)
    ultimately show ?thesis using same unfolding o by (auto simp: f(1))
  qed
  then show "bufs_ok own mq'" using mq_invD(5) [OF inv] b(2,3) ob by (auto simp: bufs_ok_def Un_ac)
  show "egr_ok mq'" by (rule eg(2))
qed (use f eg(1) in auto)

text \<open>Ending up to three kinds of envelope: what the handlers leave in the request.\<close>

lemma or_egrlong [simp]:
  "MQE_TYPE_IS_RECV (t OR MQE_TYPE_EGRLONG) = MQE_TYPE_IS_RECV t" "MQE_TYPE_IS_SEND (t OR MQE_TYPE_EGRLONG) = MQE_TYPE_IS_SEND t"
  "(t OR MQE_TYPE_EGRLONG) AND MQE_TYPE_EGRLONG = MQE_TYPE_EGRLONG" "MQE_TYPE_EGRLONG \<noteq> 0"
  by (simp_all add: mqe_type_defs bit.conj_disj_distrib2)

lemma leave_expected_plain:
  assumes inv: "mq_inv own mq" and r: "r \<in> set (expected_q mq)" and q: "recv_ok q False False c False"
    and f: "egrlong mq' = egrlong mq" "reqs mq' = (reqs mq)(r := q)" "expected_q mq' = remove1 r (expected_q mq)"
      "unexpected_q mq' = unexpected_q mq" "completed_q mq' = (if c then completed_q mq @ [r] else completed_q mq)"
      "sysbufs mq' = sysbufs mq" "rreq_pool mq' = rreq_pool mq" "sreq_pool mq' = sreq_pool mq"
  shows "mq_inv own mq'"
proof (rule leave_expected_inv [OF inv r q])
  show "on_egrlong mq' x = (on_egrlong mq x \<or> False \<and> x = r)" for x by (simp add: on_egrlong_cong [OF f(1)])
  show "egr_ok mq'" by (rule egr_ok_cong [OF mq_invD(4) [OF inv] f(1)]) (use f(2) expected_posted(5) [OF inv r] in auto)
qed (use f in simp_all)

lemma enter_unexpected_plain:
  assumes inv: "mq_inv own mq" and r: "r \<in> rlive mq" "req_state (reqs mq r) = MQ_STATE_FREE"
    and q: "recv_ok q False True False False"
    and b: "B = (if req_state q \<in> {MQ_STATE_COMPLETE, MQ_STATE_UNEXP} \<and> req_buf q \<noteq> 0 then {req_buf q} else {})"
      "sysbuf_inv (sysbufs mq') (owned_bufs mq \<union> own \<union> B)" "B \<inter> (owned_bufs mq \<union> own) = {}"
    and f: "egrlong mq' = egrlong mq" "reqs mq' = (reqs mq)(r := q)" "expected_q mq' = expected_q mq"
      "unexpected_q mq' = unexpected_q mq @ [r]" "completed_q mq' = completed_q mq"
      "rreq_pool mq' = rreq_pool mq" "sreq_pool mq' = sreq_pool mq"
  shows "mq_inv own mq'"
proof (rule enter_unexpected_inv [OF inv r q b])
  have g: "\<not> on_egrlong mq r" using rlive_recv_ok [OF inv r(1)] r(2) by (auto simp: recv_ok_def)
  show "on_egrlong mq' x = (on_egrlong mq x \<or> False \<and> x = r)" for x by (simp add: on_egrlong_cong [OF f(1)])
  show "egr_ok mq'" by (rule egr_ok_cong [OF mq_invD(4) [OF inv] f(1)]) (use f(2) g in auto)
qed (use f in simp_all)

lemma handle_rts_inv:
  assumes inv: "mq_inv own mq" and env: "req_env_ok env mq"
    and h: "psmi_mq_handle_rts env tag sbuf slen peer (Some cb) mq = Inr (rc, r, mq')"
  shows "mq_inv own mq'"
proof (cases rule: expected_match_cases [of tag mq])
  case (found r')
  note p = expected_posted [OF inv found(2)]
  show ?thesis
    by (rule leave_expected_plain [OF inv found(2), where c = False,
          of "(snd (mq_set_msglen (reqs mq r') (req_buf_len (reqs mq r')) slen))
             \<lparr>req_type := MQE_TYPE_RECV, req_state := MQ_STATE_MATCHED, req_tag := tag, recv_msgoff := 0,
              rts_peer := peer, rts_sbuf := sbuf\<rparr>"])
      (use h found(1) p in \<open>auto simp: psmi_mq_handle_rts_def Let_def recv_ok_def\<close>)
next
  case none
  obtain mq1 where al: "psmi_mq_req_alloc env MQE_TYPE_RECV mq = Inr (r, mq1)"
    and eq: "mq' = (upd_req r (\<lambda>q. q\<lparr>req_type := MQE_TYPE_RECV, recv_msglen := slen, send_msglen := slen,
                      req_state := MQ_STATE_UNEXP_RV, req_tag := tag, rts_callback := Some cb, recv_msgoff := 0,
                      rts_peer := peer, rts_sbuf := sbuf\<rparr>) mq1)\<lparr>unexpected_q := unexpected_q mq1 @ [r]\<rparr>"
    using h none(1) by (auto simp: psmi_mq_handle_rts_def Let_def)
  note a = alloc_recv_inv [OF inv env al]
  have st: "req_state (reqs mq1 r) = MQ_STATE_FREE" using a(6) by auto
  show ?thesis
    by (rule enter_unexpected_plain [OF a(1) _ st, where B = "{}"])
      (use eq a(4) mq_invD(5) [OF a(1)] in \<open>auto simp: recv_ok_def bufs_ok_def\<close>)
qed

text \<open>The heap part of \<open>env_ok\<close>, which changing a request that is on no queue does not affect.\<close>

lemma owned_off_queue:
  assumes "r \<notin> set (unexpected_q mq)"
  shows "owned_bufs (upd_req r f mq) = owned_bufs mq" "owned_bufs (mq\<lparr>rreq_pool := p\<rparr>) = owned_bufs mq"
    "bufs_ok own mq \<Longrightarrow> bufs_ok own (upd_req r f mq)"
proof -
  have o: "owners (upd_req r f mq) = owners mq" using assms by (auto simp: owners_def)
  show b: "owned_bufs (upd_req r f mq) = owned_bufs mq" "owned_bufs (mq\<lparr>rreq_pool := p\<rparr>) = owned_bufs mq"
    using assms unfolding owned_bufs_def o by (auto simp: owners_def intro!: image_cong)
  show "bufs_ok own (upd_req r f mq)" if "bufs_ok own mq"
    by (rule sysbuf_bufs_cong [OF that _ o]) (use assms in \<open>auto simp: owners_def\<close>)
qed

lemma unexpected_buffer:
  assumes inv: "mq_inv own mq" and env: "env_ok own env mq" and al: "psmi_mq_req_alloc env MQE_TYPE_RECV mq = Inr (r, mq1)"
    and sa: "mq_sysbuf_alloc env n (upd_req r f mq1) = Inr (b, mq3)"
  obtains sb where "mq3 = upd_req r f mq1\<lparr>sysbufs := sb\<rparr>"
    "sysbuf_inv sb (owned_bufs mq1 \<union> own \<union> (if b = 0 then {} else {b}))" "b \<noteq> 0 \<Longrightarrow> b \<notin> owned_bufs mq1 \<union> own"
proof -
  note a = alloc_recv_inv [OF inv env_ok_req [OF env] al]
  have off: "r \<notin> set (unexpected_q mq)" using unlive_off_queues(2) [OF inv a(2,3)] .
  obtain p where p: "mq1 = upd_req r (fresh_req MQE_TYPE_RECV) (mq\<lparr>rreq_pool := p\<rparr>)" using a(6) by blast
  have off1: "r \<notin> set (unexpected_q mq1)" using off p by simp
  have o: "owned_bufs mq1 = owned_bufs mq" "owned_bufs (upd_req r f mq1) = owned_bufs mq"
    using owned_off_queue(1) [OF off1] owned_off_queue(1) [of r "mq\<lparr>rreq_pool := p\<rparr>"] owned_off_queue(2) [OF off] off
    by (simp_all add: p)
  have "heap_ok (heap env) (sysbufs (upd_req r f mq1)) (owned_bufs (upd_req r f mq1) \<union> own)"
    "heap_nonnull (heap env) (sysbufs (upd_req r f mq1))"
    using env unfolding o by (simp_all add: env_ok_def p)
  from sysbuf_alloc_mq [OF owned_off_queue(3) [OF off1 mq_invD(5) [OF a(1)]] this sa]
  show thesis using that o by metis
qed

text \<open>What the transports respect: eager messages of one flow are sent one after the other.\<close>

definition envelope_ok :: "u16 \<Rightarrow> u64 \<Rightarrow> psmi_egrid \<Rightarrow> u32 \<Rightarrow> u32 \<Rightarrow> psm_mq \<Rightarrow> bool" where
  "envelope_ok mode ep eid slen paylen mq \<longleftrightarrow> mode \<in> {MQ_MSG_TINY, MQ_MSG_SHORT, MQ_MSG_LONG} \<and>
     (mode = MQ_MSG_LONG \<longrightarrow> slen \<noteq> 0 \<and> paylen \<noteq> 0 \<and> (paylen = slen \<longrightarrow> egrlong mq ep (egr_flowid eid) = []))"

definition unexp_req :: "u64 \<Rightarrow> u32 \<Rightarrow> psm_mq_req \<Rightarrow> psm_mq_req" where
  "unexp_req tag slen q = q\<lparr>req_tag := tag, recv_msgoff := 0, recv_msglen := slen, send_msglen := slen, req_buf_len := slen\<rparr>"

lemma unexp_req_fields [simp]:
  "req_type (unexp_req t n q) = req_type q" "req_state (unexp_req t n q) = req_state q" "req_tag (unexp_req t n q) = t"
  "recv_msgoff (unexp_req t n q) = 0" "recv_msglen (unexp_req t n q) = n" "send_msglen (unexp_req t n q) = n"
  "req_buf_len (unexp_req t n q) = n" "send_msgoff (unexp_req t n q) = send_msgoff q" "egrid (unexp_req t n q) = egrid q"
  "req_buf (unexp_req t n q) = req_buf q"
  by (simp_all add: unexp_req_def)

lemma msg_modes [simp]:
  "\<not> MQ_MSG_USER_FIRST \<le> MQ_MSG_TINY" "\<not> MQ_MSG_USER_FIRST \<le> MQ_MSG_SHORT" "\<not> MQ_MSG_USER_FIRST \<le> MQ_MSG_LONG"
  "MQ_MSG_SHORT \<noteq> MQ_MSG_TINY" "MQ_MSG_LONG \<noteq> MQ_MSG_TINY" "MQ_MSG_LONG \<noteq> MQ_MSG_SHORT"
  "MQ_MSG_TINY \<noteq> MQ_MSG_SHORT" "MQ_MSG_TINY \<noteq> MQ_MSG_LONG" "MQ_MSG_SHORT \<noteq> MQ_MSG_LONG"
  by (simp_all add: mq_msg_defs word_le_nat_alt)

text \<open>The two modes that complete at once: the new request holds a buffer of its own or none.\<close>

lemma unexpected_complete:
  assumes h: "psmi_mq_handle_envelope_unexpected ucb env mode ep tag eid slen pay paylen mq = Inr (rc, mq')"
    and mode: "mode \<in> {MQ_MSG_TINY, MQ_MSG_SHORT}"
  obtains r mq1 b mq3 m st where "psmi_mq_req_alloc env MQE_TYPE_RECV mq = Inr (r, mq1)"
    "mq_sysbuf_alloc env slen (upd_req r (unexp_req tag slen) mq1) = Inr (b, mq3) \<or>
       b = 0 \<and> slen = 0 \<and> mq3 = upd_req r (unexp_req tag slen) mq1"
    "mq' = (upd_req r (\<lambda>q. q\<lparr>req_buf := b, req_state := MQ_STATE_COMPLETE\<rparr>) mq3)
       \<lparr>mq_mem := m, unexpected_q := unexpected_q mq3 @ [r], stats := st\<rparr>"
    "slen = 0 \<and> m = mq_mem mq3 \<or>
       (let mq4 = upd_req r (\<lambda>q. q\<lparr>req_buf := b\<rparr>) mq3
        in (if mode = MQ_MSG_TINY then mq_tinycpy b pay slen mq4 else mq_mtucpy b pay slen mq4) = Inr (mq4\<lparr>mq_mem := m\<rparr>))"
proof -
  obtain r mq1 where al: "psmi_mq_req_alloc env MQE_TYPE_RECV mq = Inr (r, mq1)"
    using h mode by (auto simp: psmi_mq_handle_envelope_unexpected_def)
  note u = unexp_req_def [abs_def]
  show thesis
  proof (cases "mode = MQ_MSG_TINY \<and> slen = 0")
    case True
    let ?mq3 = "upd_req r (unexp_req tag slen) mq1"
    have "mq' = (upd_req r (\<lambda>q. q\<lparr>req_buf := 0, req_state := MQ_STATE_COMPLETE\<rparr>) ?mq3)
       \<lparr>mq_mem := mq_mem ?mq3, unexpected_q := unexpected_q ?mq3 @ [r], stats := stats mq'\<rparr>"
      using h al True by (cases mq1) (auto simp: psmi_mq_handle_envelope_unexpected_def Let_def upd_req_def unexp_req_def)
    then show ?thesis using True that [OF al, of 0 ?mq3 "stats mq'" "mq_mem ?mq3"] by simp
  next
    case False
    then obtain b mq3 where sa: "mq_sysbuf_alloc env slen (upd_req r (unexp_req tag slen) mq1) = Inr (b, mq3)"
      using h al mode by (auto simp: psmi_mq_handle_envelope_unexpected_def Let_def u word_neq_0_conv split: if_splits)
    define mq4 where "mq4 = upd_req r (\<lambda>q. q\<lparr>req_buf := b\<rparr>) mq3"
    obtain mq5 where c: "(if mode = MQ_MSG_TINY then mq_tinycpy b pay slen mq4 else mq_mtucpy b pay slen mq4) = Inr mq5"
      and eq: "mq' = (let s = stats (upd_req r (\<lambda>q. q\<lparr>req_state := MQ_STATE_COMPLETE\<rparr>) mq5);
             mq = (upd_req r (\<lambda>q. q\<lparr>req_state := MQ_STATE_COMPLETE\<rparr>) mq5)\<lparr>unexpected_q := unexpected_q mq5 @ [r]\<rparr>
           in mq\<lparr>stats := s\<lparr>rx_sys_bytes := rx_sys_bytes s + ucast slen, rx_sys_num := rx_sys_num s + 1\<rparr>\<rparr>)"
      using h al mode sa False
      by (auto simp: psmi_mq_handle_envelope_unexpected_def Let_def u mq4_def word_neq_0_conv split: if_splits)
    have m: "mq5 = mq4\<lparr>mq_mem := mq_mem mq5\<rparr>" using c mtucpy_frame tinycpy_frame by (metis (full_types))
    have "mq' = (upd_req r (\<lambda>q. q\<lparr>req_buf := b, req_state := MQ_STATE_COMPLETE\<rparr>) mq3)
       \<lparr>mq_mem := mq_mem mq5, unexpected_q := unexpected_q mq3 @ [r], stats := stats mq'\<rparr>"
      unfolding eq Let_def by (subst m, subst (2) m, subst (3) m, subst (4) m) (simp add: mq4_def upd_req_def)
    moreover have "(if mode = MQ_MSG_TINY then mq_tinycpy b pay slen mq4 else mq_mtucpy b pay slen mq4) =
        Inr (mq4\<lparr>mq_mem := mq_mem mq5\<rparr>)" using c m by simp
    ultimately show ?thesis using that [OF al, of b mq3 "stats mq'" "mq_mem mq5"] sa by (simp only: mq4_def Let_def simp_thms)
  qed
qed

lemma unexpected_complete_inv:
  assumes inv: "mq_inv own mq" and env: "env_ok own env mq" and mode: "mode \<in> {MQ_MSG_TINY, MQ_MSG_SHORT}"
    and h: "psmi_mq_handle_envelope_unexpected ucb env mode ep tag eid slen pay paylen mq = Inr (rc, mq')"
  shows "mq_inv own mq'"
proof -
  obtain r mq1 b mq3 m st where al: "psmi_mq_req_alloc env MQE_TYPE_RECV mq = Inr (r, mq1)"
    and sa: "mq_sysbuf_alloc env slen (upd_req r (unexp_req tag slen) mq1) = Inr (b, mq3) \<or>
       b = 0 \<and> slen = 0 \<and> mq3 = upd_req r (unexp_req tag slen) mq1"
    and eq: "mq' = (upd_req r (\<lambda>q. q\<lparr>req_buf := b, req_state := MQ_STATE_COMPLETE\<rparr>) mq3)
       \<lparr>mq_mem := m, unexpected_q := unexpected_q mq3 @ [r], stats := st\<rparr>"
    using h mode by (rule unexpected_complete)
  note a = alloc_recv_inv [OF inv env_ok_req [OF env] al]
  have st: "req_state (reqs mq1 r) = MQ_STATE_FREE" using a(6) by auto
  obtain sb where sb: "mq3 = upd_req r (unexp_req tag slen) mq1\<lparr>sysbufs := sb\<rparr>"
    "sysbuf_inv sb (owned_bufs mq1 \<union> own \<union> (if b = 0 then {} else {b}))" "b \<noteq> 0 \<Longrightarrow> b \<notin> owned_bufs mq1 \<union> own"
    using sa
  proof
    assume "mq_sysbuf_alloc env slen (upd_req r (unexp_req tag slen) mq1) = Inr (b, mq3)"
    then show thesis using unexpected_buffer [OF inv env al] that by metis
  next
    assume 0: "b = 0 \<and> slen = 0 \<and> mq3 = upd_req r (unexp_req tag slen) mq1"
    show thesis
      by (rule that [of "sysbufs mq1"]) (use 0 mq_invD(5) [OF a(1)] in \<open>simp_all add: upd_req_def bufs_ok_def\<close>)
  qed
  have ty: "req_type (reqs mq1 r) = MQE_TYPE_RECV" using a(6) by auto
  show ?thesis
    by (rule enter_unexpected_plain [OF a(1) _ st, where B = "if b = 0 then {} else {b}",
          of "(unexp_req tag slen (reqs mq1 r))\<lparr>req_buf := b, req_state := MQ_STATE_COMPLETE\<rparr>"])
      (use a(4) sb ty in \<open>simp_all add: eq recv_ok_def\<close>)
qed

text \<open>An eager long message: the new request waits for the rest of its data.\<close>

lemma unexpected_long:
  assumes h: "psmi_mq_handle_envelope_unexpected ucb env MQ_MSG_LONG ep tag eid slen pay paylen mq = Inr (rc, mq')"
  obtains r mq1 b mq3 rc' mq5 where "psmi_mq_req_alloc env MQE_TYPE_RECV mq = Inr (r, mq1)"
    "mq_sysbuf_alloc env slen (upd_req r (\<lambda>q. (unexp_req tag slen q)\<lparr>egrid := eid, send_msgoff := 0\<rparr>) mq1) = Inr (b, mq3)"
    "psmi_mq_handle_data r ep pay paylen (egrlong_insert_tail ep (egr_flowid eid) r
        (upd_req r (\<lambda>q. q\<lparr>req_buf := b, req_state := MQ_STATE_UNEXP, req_type := req_type q OR MQE_TYPE_EGRLONG\<rparr>) mq3)) = Inr (rc', mq5)"
    "mq' = mq5\<lparr>unexpected_q := unexpected_q mq5 @ [r], stats := stats mq'\<rparr>"
proof -
  obtain r mq1 where al: "psmi_mq_req_alloc env MQE_TYPE_RECV mq = Inr (r, mq1)"
    using h by (auto simp: psmi_mq_handle_envelope_unexpected_def)
  have U: "upd_req r (\<lambda>q. q\<lparr>egrid := eid, send_msgoff := 0\<rparr>)
      (upd_req r (\<lambda>q. q\<lparr>req_tag := tag, recv_msgoff := 0, recv_msglen := slen, send_msglen := slen, req_buf_len := slen\<rparr>) mq1) =
    upd_req r (\<lambda>q. (unexp_req tag slen q)\<lparr>egrid := eid, send_msgoff := 0\<rparr>) mq1"
    by (simp add: upd_req_def unexp_req_def)
  obtain b mq3 where sa: "mq_sysbuf_alloc env slen (upd_req r (\<lambda>q. (unexp_req tag slen q)\<lparr>egrid := eid, send_msgoff := 0\<rparr>) mq1) = Inr (b, mq3)"
    using h al by (auto simp: psmi_mq_handle_envelope_unexpected_def Let_def U)
  obtain rc' mq5 where hd: "psmi_mq_handle_data r ep pay paylen (egrlong_insert_tail ep (egr_flowid eid) r
        (upd_req r (\<lambda>q. q\<lparr>req_buf := b, req_state := MQ_STATE_UNEXP, req_type := req_type q OR MQE_TYPE_EGRLONG\<rparr>) mq3)) = Inr (rc', mq5)"
    "mq' = mq5\<lparr>unexpected_q := unexpected_q mq5 @ [r], stats := stats mq'\<rparr>"
    using h al sa by (auto simp: psmi_mq_handle_envelope_unexpected_def Let_def U)
  show thesis by (rule that [OF al sa hd])
qed

end
