(* ===== verification/MQ_Steps.thy ===== *)
theory MQ_Steps
  imports MQ_Inv
begin

text \<open>
  Every operation on the matched queue keeps the invariant of \<open>MQ_Inv\<close>: the handlers the transports
  call, and the user's calls. A step relation collects them, so that the invariant holds
  in every state an interleaving of operations can reach.
\<close>

unbundle bit_operations_syntax

section \<open>The handlers of the transports\<close>

lemma unexpected_long_inv:
  assumes inv: "mq_inv own mq" and env: "env_ok own env mq" and ok: "envelope_ok MQ_MSG_LONG ep eid slen paylen mq"
    and h: "psmi_mq_handle_envelope_unexpected ucb env MQ_MSG_LONG ep tag eid slen pay paylen mq = Inr (rc, mq')"
  shows "mq_inv own mq'"
proof -
  obtain r mq1 b mq3 rc' mq5 where al: "psmi_mq_req_alloc env MQE_TYPE_RECV mq = Inr (r, mq1)"
    and sa: "mq_sysbuf_alloc env slen (upd_req r (\<lambda>q. (unexp_req tag slen q)\<lparr>egrid := eid, send_msgoff := 0\<rparr>) mq1) = Inr (b, mq3)"
    and hd: "psmi_mq_handle_data r ep pay paylen (egrlong_insert_tail ep (egr_flowid eid) r
        (upd_req r (\<lambda>q. q\<lparr>req_buf := b, req_state := MQ_STATE_UNEXP, req_type := req_type q OR MQE_TYPE_EGRLONG\<rparr>) mq3)) = Inr (rc', mq5)"
    and eq: "mq' = mq5\<lparr>unexpected_q := unexpected_q mq5 @ [r], stats := stats mq'\<rparr>"
    using h by (rule unexpected_long)
  note a = alloc_recv_inv [OF inv env_ok_req [OF env] al]
  obtain p where mq1: "mq1 = upd_req r (fresh_req MQE_TYPE_RECV) (mq\<lparr>rreq_pool := p\<rparr>)" using a(6) by blast
  obtain sb where sb: "mq3 = upd_req r (\<lambda>q. (unexp_req tag slen q)\<lparr>egrid := eid, send_msgoff := 0\<rparr>) mq1\<lparr>sysbufs := sb\<rparr>"
    "sysbuf_inv sb (owned_bufs mq1 \<union> own \<union> (if b = 0 then {} else {b}))" "b \<noteq> 0 \<Longrightarrow> b \<notin> owned_bufs mq1 \<union> own"
    using unexpected_buffer [OF inv env al sa] by metis
  let ?q4 = "(unexp_req tag slen (reqs mq1 r))\<lparr>egrid := eid, send_msgoff := 0, req_buf := b,
       req_state := MQ_STATE_UNEXP, req_type := MQE_TYPE_RECV OR MQE_TYPE_EGRLONG\<rparr>"
  let ?mq4 = "egrlong_insert_tail ep (egr_flowid eid) r
        (upd_req r (\<lambda>q. q\<lparr>req_buf := b, req_state := MQ_STATE_UNEXP, req_type := req_type q OR MQE_TYPE_EGRLONG\<rparr>) mq3)"
  have q4: "reqs ?mq4 = (reqs mq1)(r := ?q4)" by (simp add: sb(1) mq1)
  have off: "\<not> on_egrlong mq1 r" "req_state (reqs mq1 r) = MQ_STATE_FREE" "r \<in> rlive mq1"
    using rlive_recv_ok [OF a(1), of r] a(4) by (auto simp: recv_ok_def mq1)
  let ?mid = "upd_req r (\<lambda>q. q\<lparr>req_buf := b, req_state := MQ_STATE_UNEXP, req_type := req_type q OR MQE_TYPE_EGRLONG\<rparr>) mq3"
  have mid: "on_egrlong ?mid = on_egrlong mq1" "egr_ok ?mid"
  proof -
    show "on_egrlong ?mid = on_egrlong mq1" by (rule on_egrlong_cong) (simp add: sb(1))
    show "egr_ok ?mid" by (rule egr_ok_cong [OF mq_invD(4) [OF a(1)]]) (use off(1) in \<open>auto simp: sb(1)\<close>)
  qed
  have eg4: "on_egrlong ?mq4 x = (on_egrlong mq1 x \<or> x = r)" "egr_ok ?mq4" for x
    using egrlong_insert [OF mid(2), of r "egr_flowid eid" ep] off(1) mid(1) by (simp_all add: sb(1))
  have b: "b \<noteq> 0"
  proof
    assume "b = 0"
    moreover have "copy_now (reqs ?mq4 r) paylen \<noteq> 0" using ok q4 by (simp add: copy_now_def envelope_ok_def min_def)
    moreover have "recv_msgoff (reqs ?mq4 r) = 0" "req_buf (reqs ?mq4 r) = b" using q4 by simp_all
    ultimately have "psmi_mq_req_copy r pay paylen ?mq4 = Inl Undefined_Access"
      unfolding psmi_mq_req_copy_def Let_def copy_now_def by (simp add: mq_mtucpy_def)
    then show False using hd unfolding psmi_mq_handle_data_def by (simp add: Let_def)
  qed
  show ?thesis using hd
  proof (cases rule: handle_data_cases)
    case (more m)
    have g: "on_egrlong mq' = on_egrlong ?mq4" by (rule on_egrlong_cong, subst eq) (simp add: more(1))
    have eok: "egr_ok mq'" by (rule egr_ok_cong [OF eg4(2)]; subst eq) (simp_all add: more(1))
    show ?thesis
      by (rule enter_unexpected_inv [OF a(1) off(3,2), where q = "copied_req paylen ?q4" and g = True and B = "{b}"])
        (use b sb copied_le [of ?q4 paylen] eg4 g eok q4 in \<open>simp_all add: recv_ok_def, (subst eq, simp add: more(1) sb(1))+\<close>)
  next
    case (last m mq2)
    have "paylen = slen" using last(3) unfolding q4 by simp
    then have "egrlong mq ep (egr_flowid eid) = []" using ok by (simp add: envelope_ok_def)
    then have e: "egrlong mq1 ep (egr_flowid eid) = []" by (simp add: mq1)
    have ty: "req_type (reqs ?mq4 r) AND MQE_TYPE_EGRLONG \<noteq> 0" "req_state (reqs ?mq4 r) = MQ_STATE_UNEXP"
      "egr_flowid (egrid (reqs ?mq4 r)) = egr_flowid eid" unfolding q4 by simp_all
    have "egrlong ?mq4 = (egrlong mq1)(ep := (egrlong mq1 ep)(egr_flowid eid := [r]))"
      using e by (simp add: egrlong_insert_tail_def sb(1))
    moreover have "(egrlong mq1)(ep := (egrlong mq1 ep)(egr_flowid eid := [])) = egrlong mq1"
      using e by (simp add: fun_upd_idem)
    ultimately have mq2: "mq2 = (upd_req r (copied_req paylen) (?mq4\<lparr>mq_mem := m\<rparr>))\<lparr>egrlong := egrlong mq1\<rparr>"
      using last(1) ty e by (auto simp: egrlong_remove_head_def)
    have mq': "mq' = (upd_req r (\<lambda>q. q\<lparr>req_state := MQ_STATE_COMPLETE\<rparr>) mq2)\<lparr>unexpected_q := unexpected_q mq1 @ [r], stats := stats mq'\<rparr>"
      using eq last(2) ty(2) by (simp add: mq2 sb(1))
    show ?thesis
      by (rule enter_unexpected_plain [OF a(1) off(3,2), where q = "(copied_req paylen ?q4)\<lparr>req_state := MQ_STATE_COMPLETE\<rparr>" and B = "{b}"])
        (use b sb q4 in \<open>simp_all add: recv_ok_def, (subst mq', simp add: mq2 sb(1))+\<close>)
  qed
qed

text \<open>The common shape of the matched branches of the two envelope handlers.\<close>

definition matched_req :: "u64 \<Rightarrow> u32 \<Rightarrow> psm_mq_req \<Rightarrow> psm_mq_req" where
  "matched_req tag slen q = snd (mq_set_msglen (q\<lparr>req_tag := tag\<rparr>) (req_buf_len q) slen)"

lemma matched_req_fields [simp]:
  "req_type (matched_req t n q) = req_type q" "req_state (matched_req t n q) = req_state q" "req_tag (matched_req t n q) = t"
  "recv_msglen (matched_req t n q) = min (req_buf_len q) n" "send_msglen (matched_req t n q) = n"
  "req_buf_len (matched_req t n q) = req_buf_len q" "req_buf (matched_req t n q) = req_buf q"
  "egrid (matched_req t n q) = egrid q" "recv_msgoff (matched_req t n q) = recv_msgoff q"
  "req_context (matched_req t n q) = req_context q"
  "req_error_code (matched_req t n q) = (if req_buf_len q < n then PSM_MQ_TRUNCATION else PSM_OK)"
  by (simp_all add: matched_req_def)

lemma rx_user_account_frame [simp]:
  "reqs (rx_user_account n mq) = reqs mq"
  "expected_q (rx_user_account n mq) = expected_q mq" "unexpected_q (rx_user_account n mq) = unexpected_q mq"
  "completed_q (rx_user_account n mq) = completed_q mq" "egrlong (rx_user_account n mq) = egrlong mq"
  "rreq_pool (rx_user_account n mq) = rreq_pool mq" "sreq_pool (rx_user_account n mq) = sreq_pool mq"
  "sysbufs (rx_user_account n mq) = sysbufs mq" "mq_mem (rx_user_account n mq) = mq_mem mq"
  by (simp_all add: rx_user_account_def Let_def)

text \<open>
  The state after a tiny or short message was delivered to the posted receive \<open>r\<close>.
\<close>

definition delivered :: "u64 \<Rightarrow> u64 \<Rightarrow> u32 \<Rightarrow> mem \<Rightarrow> psm_mq \<Rightarrow> psm_mq" where
  "delivered r tag slen m mq =
     rx_user_account (min (req_buf_len (reqs mq r)) slen)
       (completed_append r (upd_req r (\<lambda>q. (matched_req tag slen q)\<lparr>req_state := MQ_STATE_COMPLETE\<rparr>)
          (mq\<lparr>expected_q := remove1 r (expected_q mq), mq_mem := m\<rparr>)))"

lemma delivered_inv:
  assumes "mq_inv own mq" "r \<in> set (expected_q mq)"
  shows "mq_inv own (delivered r tag slen m mq)"
  by (rule leave_expected_plain [OF assms, where c = True,
        of "(matched_req tag slen (reqs mq r))\<lparr>req_state := MQ_STATE_COMPLETE\<rparr>"])
    (use expected_posted [OF assms] in \<open>simp_all add: delivered_def recv_ok_def\<close>)

lemma handle_envelope_short:
  assumes m: "expected_match tag mq = (Some r, mq\<lparr>expected_q := remove1 r (expected_q mq)\<rparr>)"
    and mode: "mode \<in> {MQ_MSG_TINY, MQ_MSG_SHORT}"
  shows "psmi_mq_handle_envelope ucb env mode ep tag eid slen pay paylen mq =
     run_bind ((if mode = MQ_MSG_TINY then mq_tinycpy else mq_mtucpy) (req_buf (reqs mq r)) pay (min (req_buf_len (reqs mq r)) slen) mq)
       (\<lambda>mq'. Inr (MQ_RET_MATCH_OK, delivered r tag slen (mq_mem mq') mq))"
proof -
  have "req_buf (snd (mq_set_msglen q a b)) = req_buf q" for q a b by simp
  then show ?thesis
    using mode unfolding psmi_mq_handle_envelope_def m
    by (cases mq) (auto simp: Let_def case_prod_unfold mq_tinycpy_def mq_mtucpy_def delivered_def matched_req_def upd_req_def completed_append_def
        rx_user_account_def)
qed

lemma handle_tiny_short:
  "psmi_mq_handle_tiny_envelope ucb env ep tag pay n mq =
   psmi_mq_handle_envelope ucb env MQ_MSG_TINY ep tag \<lparr>egr_flowid = 0, egr_msgno = 0\<rparr> n pay n mq"
  unfolding psmi_mq_handle_tiny_envelope_def psmi_mq_handle_envelope_def
  by (auto simp: Let_def case_prod_unfold run_bind_def split: option.split prod.split sum.split)

text \<open>A long message that was expected: the request before the first piece of data is copied.\<close>

definition long_matched :: "u64 \<Rightarrow> psmi_egrid \<Rightarrow> u64 \<Rightarrow> u64 \<Rightarrow> u32 \<Rightarrow> psm_mq \<Rightarrow> psm_mq" where
  "long_matched ep eid r tag slen mq =
     egrlong_insert_tail ep (egr_flowid eid) r
       (upd_req r (\<lambda>q. (matched_req tag slen q)\<lparr>egrid := eid, req_state := MQ_STATE_MATCHED,
            req_type := req_type q OR MQE_TYPE_EGRLONG, send_msgoff := 0, recv_msgoff := 0\<rparr>)
         (mq\<lparr>expected_q := remove1 r (expected_q mq)\<rparr>))"

lemma handle_envelope_long:
  assumes m: "expected_match tag mq = (Some r, mq\<lparr>expected_q := remove1 r (expected_q mq)\<rparr>)"
  shows "psmi_mq_handle_envelope ucb env MQ_MSG_LONG ep tag eid slen pay paylen mq =
     run_bind (psmi_mq_handle_data r ep pay paylen (long_matched ep eid r tag slen mq))
       (\<lambda>(_, mq'). Inr (MQ_RET_MATCH_OK, rx_user_account (min (req_buf_len (reqs mq r)) slen) mq'))"
  unfolding psmi_mq_handle_envelope_def m
  by (simp add: Let_def case_prod_unfold long_matched_def matched_req_def upd_req_def run_bind_def split: sum.split)

lemma long_matched_inv:
  assumes inv: "mq_inv own mq" and r: "r \<in> set (expected_q mq)"
  shows "mq_inv own (long_matched ep eid r tag slen mq)"
proof -
  note p = expected_posted [OF inv r]
  let ?q = "(matched_req tag slen (reqs mq r))\<lparr>egrid := eid, req_state := MQ_STATE_MATCHED,
            req_type := req_type (reqs mq r) OR MQE_TYPE_EGRLONG, send_msgoff := 0, recv_msgoff := 0\<rparr>"
  let ?mid = "upd_req r (\<lambda>_. ?q) (mq\<lparr>expected_q := remove1 r (expected_q mq)\<rparr>)"
  have lm: "long_matched ep eid r tag slen mq = egrlong_insert_tail ep (egr_flowid eid) r ?mid"
    by (simp add: long_matched_def upd_req_def)
  have g: "on_egrlong ?mid = on_egrlong mq" by (rule on_egrlong_cong) simp
  have e: "egr_ok ?mid" by (rule egr_ok_cong [OF mq_invD(4) [OF inv]]) (use p(5) in auto)
  have ins: "on_egrlong (long_matched ep eid r tag slen mq) x = (on_egrlong mq x \<or> True \<and> x = r)"
    "egr_ok (long_matched ep eid r tag slen mq)" for x
    unfolding lm using egrlong_insert [OF e, of r "egr_flowid eid" ep] p(5) by (simp_all add: g)
  show ?thesis
    by (rule leave_expected_inv [OF inv r, where q = ?q and c = False, OF _ ins])
      (use p in \<open>simp_all add: recv_ok_def lm\<close>)
qed

lemma long_matched_fields:
  "rlive (long_matched ep eid r tag slen mq) = rlive mq"
  "egrlong (long_matched ep eid r tag slen mq) ep (egr_flowid eid) = egrlong mq ep (egr_flowid eid) @ [r]"
  "reqs (long_matched ep eid r tag slen mq) r = (matched_req tag slen (reqs mq r))\<lparr>egrid := eid, req_state := MQ_STATE_MATCHED,
            req_type := req_type (reqs mq r) OR MQE_TYPE_EGRLONG, send_msgoff := 0, recv_msgoff := 0\<rparr>"
  by (simp_all add: long_matched_def egrlong_insert_tail_def)

lemma account_inv: "mq_inv own mq \<Longrightarrow> mq_inv own (rx_user_account n mq)"
proof -
  have "on_egrlong (rx_user_account n mq) = on_egrlong mq" by (rule on_egrlong_cong) simp
  then show "mq_inv own mq \<Longrightarrow> mq_inv own (rx_user_account n mq)"
    by (simp add: mq_inv_def pools_ok_def queues_ok_def req_ok_def egr_ok_def bufs_ok_def owned_bufs_def owners_def Let_def)
qed

lemma handle_envelope_inv:
  assumes inv: "mq_inv own mq" and env: "env_ok own env mq" and ok: "envelope_ok mode ep eid slen paylen mq"
    and h: "psmi_mq_handle_envelope ucb env mode ep tag eid slen pay paylen mq = Inr (rc, mq')"
  shows "mq_inv own mq'"
proof (cases rule: expected_match_cases [of tag mq])
  case (found r)
  note p = expected_posted [OF inv found(2)]
  consider "mode \<in> {MQ_MSG_TINY, MQ_MSG_SHORT}" | "mode = MQ_MSG_LONG" using ok by (auto simp: envelope_ok_def)
  then show ?thesis
  proof cases
    case 1
    then obtain m where "mq' = delivered r tag slen m mq" using h handle_envelope_short [OF found(1) 1] by auto
    then show ?thesis using delivered_inv [OF inv found(2)] by simp
  next
    case 2
    let ?lm = "long_matched ep eid r tag slen mq"
    obtain rc' mq5 where hd: "psmi_mq_handle_data r ep pay paylen ?lm = Inr (rc', mq5)"
      and mq': "mq' = rx_user_account (min (req_buf_len (reqs mq r)) slen) mq5"
      using h handle_envelope_long [OF found(1)] 2 by auto
    note lm = long_matched_inv [OF inv found(2), of ep eid tag slen]
    note F = long_matched_fields [of ep eid r tag slen mq]
    have "mq_inv own mq5"
    proof (cases "paylen = slen")
      case True
      then have "egrlong ?lm ep (egr_flowid eid) = [r]" using ok 2 F by (simp add: envelope_ok_def)
      then have "eager_ready r ep ?lm" using F(1,3) p(1) by (simp add: eager_ready_def)
      then show ?thesis by (rule handle_data_inv [OF lm _ hd])
    next
      case False
      then show ?thesis
        by (cases rule: handle_data_cases [OF hd])
          (use copied_inv [OF lm] p(1) F in auto)
    qed
    then show ?thesis using account_inv mq' by simp
  qed
next
  case none
  then have h': "psmi_mq_handle_envelope_unexpected ucb env mode ep tag eid slen pay paylen mq = Inr (rc, mq')"
    using h by (simp add: psmi_mq_handle_envelope_def)
  consider "mode \<in> {MQ_MSG_TINY, MQ_MSG_SHORT}" | "mode = MQ_MSG_LONG" using ok by (auto simp: envelope_ok_def)
  then show ?thesis
  proof cases
    case 1
    then show ?thesis using unexpected_complete_inv [OF inv env _ h'] by simp
  next
    case 2
    then show ?thesis using unexpected_long_inv [OF inv env] ok h' by simp
  qed
qed

section \<open>The user's receive\<close>

lemma unexpected_on:
  assumes "mq_inv own mq" "r \<in> set (unexpected_q mq)"
  shows "r \<in> rlive mq" "req_state (reqs mq r) \<in> {MQ_STATE_COMPLETE, MQ_STATE_UNEXP, MQ_STATE_UNEXP_RV}"
    "r \<notin> set (expected_q mq)" "r \<notin> set (completed_q mq)"
    "on_egrlong mq r \<longleftrightarrow> req_state (reqs mq r) = MQ_STATE_UNEXP"
    "MQE_TYPE_IS_RECV (req_type (reqs mq r))" "\<not> MQE_TYPE_IS_SEND (req_type (reqs mq r))"
    "req_state (reqs mq r) = MQ_STATE_UNEXP_RV \<Longrightarrow> rts_callback (reqs mq r) \<noteq> None \<and> req_type (reqs mq r) AND MQE_TYPE_EGRLONG = 0"
    "req_state (reqs mq r) = MQ_STATE_UNEXP \<Longrightarrow> req_buf (reqs mq r) \<noteq> 0 \<and> req_type (reqs mq r) AND MQE_TYPE_EGRLONG \<noteq> 0"
proof -
  have "req_ok mq r" using mq_invD(3) [OF assms(1)] .
  then show r: "r \<in> rlive mq" using assms(2) by (auto simp: req_ok_def send_ok_def Let_def split: if_splits)
  have "recv_ok (reqs mq r) (r \<in> set (expected_q mq)) True (r \<in> set (completed_q mq)) (on_egrlong mq r)"
    using rlive_recv_ok [OF assms(1) r] assms(2) by simp
  then show "req_state (reqs mq r) \<in> {MQ_STATE_COMPLETE, MQ_STATE_UNEXP, MQ_STATE_UNEXP_RV}"
    "r \<notin> set (expected_q mq)" "r \<notin> set (completed_q mq)"
    "on_egrlong mq r \<longleftrightarrow> req_state (reqs mq r) = MQ_STATE_UNEXP"
    "MQE_TYPE_IS_RECV (req_type (reqs mq r))" "\<not> MQE_TYPE_IS_SEND (req_type (reqs mq r))"
    "req_state (reqs mq r) = MQ_STATE_UNEXP_RV \<Longrightarrow> rts_callback (reqs mq r) \<noteq> None \<and> req_type (reqs mq r) AND MQE_TYPE_EGRLONG = 0"
    "req_state (reqs mq r) = MQ_STATE_UNEXP \<Longrightarrow> req_buf (reqs mq r) \<noteq> 0 \<and> req_type (reqs mq r) AND MQE_TYPE_EGRLONG \<noteq> 0"
    by (auto simp: recv_ok_def split: mq_state.splits)
qed

lemma leave_unexpected_inv:
  assumes inv: "mq_inv own mq" and r: "r \<in> set (unexpected_q mq)" and q: "recv_ok q False False c (on_egrlong mq r)"
    and sb: "sysbuf_inv (sysbufs mq') (owned_bufs mq \<union> own - (if r \<in> owners mq then {req_buf (reqs mq r)} else {}))"
    and f: "reqs mq' = (reqs mq)(r := q)" "egrid q = egrid (reqs mq r)" "expected_q mq' = expected_q mq"
      "unexpected_q mq' = remove1 r (unexpected_q mq)" "completed_q mq' = (if c then completed_q mq @ [r] else completed_q mq)"
      "egrlong mq' = egrlong mq" "rreq_pool mq' = rreq_pool mq" "sreq_pool mq' = sreq_pool mq"
  shows "mq_inv own mq'"
proof (rule mq_inv_touch [OF inv, where r = r])
  note p = unexpected_on [OF inv r]
  note g = on_egrlong_cong [OF f(6)]
  have d: "distinct (unexpected_q mq)" using mq_invD(2) [OF inv] by (simp add: queues_ok_def)
  show "req_ok mq' r" using q p(1,3,4) d f by (auto simp: req_ok_def g Let_def)
  show "pools_ok mq'" "queues_ok mq'"
    using mq_invD(1,2) [OF inv] f p(4) by (auto simp: pools_ok_def queues_ok_def)
  show "egr_ok mq'" by (rule egr_ok_cong [OF mq_invD(4) [OF inv] f(6)]) (use f(1,2) in auto)
  have bo: "bufs_ok own mq" using mq_invD(5) [OF inv] .
  have o: "owners mq' = owners mq - {r}" using d by (auto simp: owners_def f)
  have inj: "inj_on (\<lambda>r. req_buf (reqs mq r)) (owners mq)" and dis: "owned_bufs mq \<inter> own = {}"
    using bo by (simp_all add: bufs_ok_def)
  have ob: "owned_bufs mq' = owned_bufs mq - (if r \<in> owners mq then {req_buf (reqs mq r)} else {})"
  proof -
    have "owned_bufs mq' = (\<lambda>r. req_buf (reqs mq r)) ` (owners mq - {r})"
      unfolding owned_bufs_def o by (rule image_cong) (auto simp: f(1))
    then show ?thesis using inj_on_image_set_diff [OF inj, of "owners mq" "{r}"] by (auto simp: owned_bufs_def)
  qed
  have "inj_on (\<lambda>r. req_buf (reqs mq' r)) (owners mq')"
    using inj unfolding o by (auto simp: inj_on_def f(1))
  moreover have "owned_bufs mq' \<union> own = owned_bufs mq \<union> own - (if r \<in> owners mq then {req_buf (reqs mq r)} else {})"
    using dis unfolding ob by (auto simp: owned_bufs_def)
  ultimately show "bufs_ok own mq'" using sb dis ob by (auto simp: bufs_ok_def)
qed (use f on_egrlong_cong [OF f(6)] in \<open>auto simp: in_set_remove1\<close>)

text \<open>Freeing the buffer of an unexpected message succeeds: it was handed out and not freed.\<close>

lemma owned_buf_free:
  assumes inv: "mq_inv own mq" and r: "r \<in> owners mq" and sb: "sysbufs mq2 = sysbufs mq"
  obtains sb' where "mq_sysbuf_free (req_buf (reqs mq r)) mq2 = Inr (mq2\<lparr>sysbufs := sb'\<rparr>)"
    "sysbuf_inv sb' (owned_bufs mq \<union> own - {req_buf (reqs mq r)})"
proof -
  have i: "sysbuf_inv (sysbufs mq) (owned_bufs mq \<union> own)" using mq_invD(5) [OF inv] by (simp add: bufs_ok_def)
  have "req_buf (reqs mq r) \<in> owned_bufs mq \<union> own" using r by (auto simp: owned_bufs_def)
  from free_inv [OF i this] obtain x sb' where "psmi_mq_sysbuf_free (req_buf (reqs mq r)) (sysbufs mq) = Inr (x, sb')"
    "sysbuf_inv sb' (owned_bufs mq \<union> own - {req_buf (reqs mq r)})" by metis
  then show thesis using that [of sb'] by (simp add: mq_sysbuf_free_def sb)
qed

text \<open>What \<^verbatim>\<open>psm_mq_irecv\<close> leaves in the request it found.\<close>

definition received_req :: "u64 \<Rightarrow> u32 \<Rightarrow> psm_mq_req \<Rightarrow> psm_mq_req" where
  "received_req ctx len q = snd (mq_set_msglen (q\<lparr>req_context := ctx\<rparr>) len (send_msglen q))"

lemma received_req_fields [simp]:
  "req_type (received_req c n q) = req_type q" "req_state (received_req c n q) = req_state q" "req_tag (received_req c n q) = req_tag q"
  "recv_msglen (received_req c n q) = min n (send_msglen q)" "send_msglen (received_req c n q) = send_msglen q"
  "req_buf_len (received_req c n q) = req_buf_len q" "req_buf (received_req c n q) = req_buf q"
  "egrid (received_req c n q) = egrid q" "recv_msgoff (received_req c n q) = recv_msgoff q"
  "send_msgoff (received_req c n q) = send_msgoff q"
  "req_context (received_req c n q) = c" "rts_callback (received_req c n q) = rts_callback q"
  "req_error_code (received_req c n q) = (if n < send_msglen q then PSM_MQ_TRUNCATION else PSM_OK)"
  by (simp_all add: received_req_def)

definition off_unexpected :: "u64 \<Rightarrow> psm_mq \<Rightarrow> psm_mq" where
  "off_unexpected r mq = mq\<lparr>unexpected_q := remove1 r (unexpected_q mq)\<rparr>"

lemma off_unexpected_fields [simp]:
  "unexpected_q (off_unexpected r mq) = remove1 r (unexpected_q mq)" "expected_q (off_unexpected r mq) = expected_q mq"
  "completed_q (off_unexpected r mq) = completed_q mq" "egrlong (off_unexpected r mq) = egrlong mq"
  "reqs (off_unexpected r mq) = reqs mq" "rreq_pool (off_unexpected r mq) = rreq_pool mq"
  "sreq_pool (off_unexpected r mq) = sreq_pool mq" "sysbufs (off_unexpected r mq) = sysbufs mq"
  "mq_mem (off_unexpected r mq) = mq_mem mq" "stats (off_unexpected r mq) = stats mq"
  by (simp_all add: off_unexpected_def)

lemma irecv_complete:
  assumes m: "unexpected_match tag tagsel True mq = (Some r, off_unexpected r mq)"
    and st: "req_state (reqs mq r) = MQ_STATE_COMPLETE"
  shows "psm_mq_irecv rts_cb env tag tagsel buf len ctx mq =
     run_bind
       (if req_buf (reqs mq r) \<noteq> 0
        then run_bind (mq_mtucpy buf (req_buf (reqs mq r)) (min len (send_msglen (reqs mq r)))
                         (upd_req r (received_req ctx len) (off_unexpected r mq)))
               (mq_sysbuf_free (req_buf (reqs mq r)))
        else Inr (upd_req r (\<lambda>q. q\<lparr>req_context := ctx\<rparr>) (off_unexpected r mq)))
       (\<lambda>mq. Inr (PSM_OK, r, completed_append r (upd_req r (\<lambda>q. q\<lparr>req_buf := buf, req_buf_len := len\<rparr>) mq)))"
proof -
  have "upd_req r (\<lambda>_. received_req ctx len (reqs mq r)) (upd_req r (\<lambda>q. q\<lparr>req_context := ctx\<rparr>) (off_unexpected r mq)) =
    upd_req r (received_req ctx len) (off_unexpected r mq)" by (simp add: upd_req_def)
  then show ?thesis unfolding psm_mq_irecv_def m
    by (simp add: Let_def st case_prod_unfold received_req_def run_bind_def split: sum.split)
qed

lemma irecv_unexp:
  assumes m: "unexpected_match tag tagsel True mq = (Some r, off_unexpected r mq)"
    and st: "req_state (reqs mq r) = MQ_STATE_UNEXP"
  shows "psm_mq_irecv rts_cb env tag tagsel buf len ctx mq =
     run_bind (mq_mtucpy buf (req_buf (reqs mq r)) (min (recv_msgoff (reqs mq r)) (min len (send_msglen (reqs mq r))))
          (upd_req r (\<lambda>q. (received_req ctx len q)\<lparr>recv_msgoff := min (recv_msgoff q) (min len (send_msglen q))\<rparr>) (off_unexpected r mq)))
       (\<lambda>mq2. run_bind (mq_sysbuf_free (req_buf (reqs mq r)) mq2)
          (\<lambda>mq. Inr (PSM_OK, r, upd_req r (\<lambda>q. q\<lparr>req_state := MQ_STATE_MATCHED, req_buf := buf, req_buf_len := len\<rparr>) mq)))"
proof -
  have "upd_req r (\<lambda>_. (received_req ctx len (reqs mq r))\<lparr>recv_msgoff := min (recv_msgoff (reqs mq r)) (min len (send_msglen (reqs mq r)))\<rparr>)
      (upd_req r (\<lambda>q. q\<lparr>req_context := ctx\<rparr>) (off_unexpected r mq)) =
    upd_req r (\<lambda>q. (received_req ctx len q)\<lparr>recv_msgoff := min (recv_msgoff q) (min len (send_msglen q))\<rparr>) (off_unexpected r mq)"
    by (simp add: upd_req_def)
  then show ?thesis unfolding psm_mq_irecv_def m
    by (simp add: Let_def st case_prod_unfold received_req_def run_bind_def split: sum.split)
qed

lemma irecv_rv:
  assumes m: "unexpected_match tag tagsel True mq = (Some r, off_unexpected r mq)"
    and st: "req_state (reqs mq r) = MQ_STATE_UNEXP_RV" and cb: "rts_callback (reqs mq r) = Some cb"
  shows "psm_mq_irecv rts_cb env tag tagsel buf len ctx mq =
     run_bind (rts_cb cb r False (upd_req r (\<lambda>q. (received_req ctx len q)\<lparr>req_state := MQ_STATE_MATCHED, req_buf := buf,
            req_buf_len := len, recv_msgoff := 0\<rparr>) (off_unexpected r mq)))
       (\<lambda>mq. Inr (PSM_OK, r, mq))"
proof -
  have "upd_req r (\<lambda>_. (received_req ctx len (reqs mq r))\<lparr>req_state := MQ_STATE_MATCHED, req_buf := buf, req_buf_len := len, recv_msgoff := 0\<rparr>)
      (upd_req r (\<lambda>q. q\<lparr>req_context := ctx\<rparr>) (off_unexpected r mq)) =
    upd_req r (\<lambda>q. (received_req ctx len q)\<lparr>req_state := MQ_STATE_MATCHED, req_buf := buf, req_buf_len := len, recv_msgoff := 0\<rparr>) (off_unexpected r mq)"
    by (simp add: upd_req_def)
  then show ?thesis unfolding psm_mq_irecv_def m
    by (simp add: Let_def st cb case_prod_unfold received_req_def)
qed

definition posted_req :: "u64 \<Rightarrow> u64 \<Rightarrow> u64 \<Rightarrow> u32 \<Rightarrow> u64 \<Rightarrow> psm_mq_req \<Rightarrow> psm_mq_req" where
  "posted_req tag tagsel buf len ctx q = q\<lparr>req_tag := tag, req_tagsel := tagsel, req_state := MQ_STATE_POSTED,
     req_buf := buf, req_buf_len := len, recv_msglen := len, recv_msgoff := 0, req_context := ctx\<rparr>"

lemma irecv_post:
  assumes m: "unexpected_match tag tagsel True mq = (None, mq)"
  shows "psm_mq_irecv rts_cb env tag tagsel buf len ctx mq =
     run_bind (psmi_mq_req_alloc env MQE_TYPE_RECV mq)
       (\<lambda>(r, mq). Inr (PSM_OK, r, (upd_req r (posted_req tag tagsel buf len ctx) mq)\<lparr>expected_q := expected_q mq @ [r]\<rparr>))"
  unfolding psm_mq_irecv_def m posted_req_def [abs_def] by (simp add: Let_def)

lemma enter_expected_inv:
  assumes inv: "mq_inv own mq" and r: "r \<in> rlive mq" "req_state (reqs mq r) = MQ_STATE_FREE"
    and q: "recv_ok q True False False False"
    and f: "reqs mq' = (reqs mq)(r := q)" "egrlong mq' = egrlong mq" "expected_q mq' = expected_q mq @ [r]"
      "unexpected_q mq' = unexpected_q mq" "completed_q mq' = completed_q mq" "sysbufs mq' = sysbufs mq"
      "rreq_pool mq' = rreq_pool mq" "sreq_pool mq' = sreq_pool mq"
  shows "mq_inv own mq'"
proof (rule mq_inv_touch [OF inv, where r = r])
  note g = on_egrlong_cong [OF f(2)]
  have off: "r \<notin> set (expected_q mq)" "r \<notin> set (unexpected_q mq)" "r \<notin> set (completed_q mq)" "\<not> on_egrlong mq r"
    using rlive_recv_ok [OF inv r(1)] r(2) by (auto simp: recv_ok_def)
  show "req_ok mq' r" using q off f r(1) by (auto simp: req_ok_def g)
  show "pools_ok mq'" "queues_ok mq'"
    using mq_invD(1,2) [OF inv] f off by (simp_all add: pools_ok_def queues_ok_def)
  show "egr_ok mq'" by (rule egr_ok_cong [OF mq_invD(4) [OF inv] f(2)]) (use off f(1) in auto)
  show "bufs_ok own mq'" using off
    by (intro sysbuf_bufs_cong [OF mq_invD(5) [OF inv] f(6)]) (auto simp: owners_def f)
qed (use f on_egrlong_cong [OF f(2)] in auto)

lemma irecv_found:
  assumes "unexpected_match tag tagsel True mq =
     (Some r, if True then mq\<lparr>unexpected_q := remove1 r (unexpected_q mq)\<rparr> else mq)"
  shows "unexpected_match tag tagsel True mq = (Some r, off_unexpected r mq)"
  using assms by (simp add: off_unexpected_def)

text \<open>
  Receiving keeps the invariant if the callback of the transport does, which runs last in the
  rendezvous case on a state that satisfies it.
\<close>

lemma irecv_inv:
  assumes inv: "mq_inv own mq" and env: "req_env_ok env mq"
    and cb: "\<And>cb r mq1 mq2. mq_inv own mq1 \<Longrightarrow> r \<in> rlive mq1 \<Longrightarrow> req_state (reqs mq1 r) = MQ_STATE_MATCHED \<Longrightarrow>
       rts_cb cb r False mq1 = Inr mq2 \<Longrightarrow> mq_inv own mq2"
    and h: "psm_mq_irecv rts_cb env tag tagsel buf len ctx mq = Inr (err, r, mq')"
  shows "mq_inv own mq'"
proof (cases rule: unexpected_match_cases [of tag tagsel True mq])
  case none
  obtain mq1 where al: "psmi_mq_req_alloc env MQE_TYPE_RECV mq = Inr (r, mq1)"
    and mq': "mq' = (upd_req r (posted_req tag tagsel buf len ctx) mq1)\<lparr>expected_q := expected_q mq1 @ [r]\<rparr>"
    using h unfolding irecv_post [OF none(1)] by auto
  note a = alloc_recv_inv [OF inv env al]
  have "req_state (reqs mq1 r) = MQ_STATE_FREE" "req_type (reqs mq1 r) = MQE_TYPE_RECV" using a(6) by auto
  then show ?thesis
    by (intro enter_expected_inv [OF a(1), of r "posted_req tag tagsel buf len ctx (reqs mq1 r)"])
      (use a(4) mq' in \<open>simp_all add: recv_ok_def posted_req_def\<close>)
next
  case (found r')
  note m = irecv_found [OF found(1)]
  note p = unexpected_on [OF inv found(2)]
  have sysb: "sysbuf_inv (sysbufs mq) (owned_bufs mq \<union> own)" using mq_invD(5) [OF inv] by (simp add: bufs_ok_def)
  consider "req_state (reqs mq r') = MQ_STATE_COMPLETE" "req_buf (reqs mq r') = 0"
    | "req_state (reqs mq r') = MQ_STATE_COMPLETE" "req_buf (reqs mq r') \<noteq> 0"
    | "req_state (reqs mq r') = MQ_STATE_UNEXP" | "req_state (reqs mq r') = MQ_STATE_UNEXP_RV" using p(2) by blast
  then show ?thesis
  proof cases
    case 1
    have "r' \<notin> owners mq" using 1 by (simp add: owners_def)
    then show ?thesis using h 1 p sysb unfolding irecv_complete [OF m 1(1)]
      by (intro leave_unexpected_inv [OF inv found(2), where c = True and
            q = "(reqs mq r')\<lparr>req_context := ctx, req_buf := buf, req_buf_len := len\<rparr>"]) (auto simp: recv_ok_def)
  next
    case 2
    have o: "r' \<in> owners mq" using 2 found(2) by (simp add: owners_def)
    obtain mq2 where c: "mq_mtucpy buf (req_buf (reqs mq r')) (min len (send_msglen (reqs mq r')))
        (upd_req r' (received_req ctx len) (off_unexpected r' mq)) = Inr mq2"
      using h 2(2) unfolding irecv_complete [OF m 2(1)] by auto
    have mq2: "mq2 = upd_req r' (received_req ctx len) (off_unexpected r' mq)\<lparr>mq_mem := mq_mem mq2\<rparr>"
      using mtucpy_frame [OF c] .
    have "sysbufs mq2 = sysbufs mq" by (subst mq2) simp
    from owned_buf_free [OF inv o this] obtain sb' where
      fr: "mq_sysbuf_free (req_buf (reqs mq r')) mq2 = Inr (mq2\<lparr>sysbufs := sb'\<rparr>)"
      "sysbuf_inv sb' (owned_bufs mq \<union> own - {req_buf (reqs mq r')})" by metis
    have mq': "mq' = completed_append r' (upd_req r' (\<lambda>q. q\<lparr>req_buf := buf, req_buf_len := len\<rparr>)
        (upd_req r' (received_req ctx len) (off_unexpected r' mq)\<lparr>mq_mem := mq_mem mq2, sysbufs := sb'\<rparr>))"
      using h 2(2) c fr(1) unfolding irecv_complete [OF m 2(1)] by (simp, subst (asm) mq2) auto
    show ?thesis
      by (rule leave_unexpected_inv [OF inv found(2), where c = True and
            q = "(received_req ctx len (reqs mq r'))\<lparr>req_buf := buf, req_buf_len := len\<rparr>"])
        (use fr(2) o p 2 in \<open>simp_all add: mq' recv_ok_def\<close>)
  next
    case 3
    note p9 = p(9) [OF 3]
    have o: "r' \<in> owners mq" using 3 found(2) p9 by (simp add: owners_def)
    let ?u = "\<lambda>q. (received_req ctx len q)\<lparr>recv_msgoff := min (recv_msgoff q) (min len (send_msglen q))\<rparr>"
    obtain mq2 where c: "mq_mtucpy buf (req_buf (reqs mq r')) (min (recv_msgoff (reqs mq r')) (min len (send_msglen (reqs mq r'))))
        (upd_req r' ?u (off_unexpected r' mq)) = Inr mq2"
      using h unfolding irecv_unexp [OF m 3] by auto
    have mq2: "mq2 = upd_req r' ?u (off_unexpected r' mq)\<lparr>mq_mem := mq_mem mq2\<rparr>" using mtucpy_frame [OF c] .
    have "sysbufs mq2 = sysbufs mq" by (subst mq2) simp
    from owned_buf_free [OF inv o this] obtain sb' where
      fr: "mq_sysbuf_free (req_buf (reqs mq r')) mq2 = Inr (mq2\<lparr>sysbufs := sb'\<rparr>)"
      "sysbuf_inv sb' (owned_bufs mq \<union> own - {req_buf (reqs mq r')})" by metis
    have mq': "mq' = upd_req r' (\<lambda>q. q\<lparr>req_state := MQ_STATE_MATCHED, req_buf := buf, req_buf_len := len\<rparr>)
        (upd_req r' ?u (off_unexpected r' mq)\<lparr>mq_mem := mq_mem mq2, sysbufs := sb'\<rparr>)"
      using h c fr(1) unfolding irecv_unexp [OF m 3] by (simp, subst (asm) mq2) auto
    show ?thesis
      by (rule leave_unexpected_inv [OF inv found(2), where c = False and
            q = "(?u (reqs mq r'))\<lparr>req_state := MQ_STATE_MATCHED, req_buf := buf, req_buf_len := len\<rparr>"])
        (use fr(2) o p 3 p9 in \<open>simp_all add: mq' recv_ok_def min.coboundedI2\<close>)
  next
    case 4
    have o: "r' \<notin> owners mq" using 4 by (simp add: owners_def)
    obtain c where c: "rts_callback (reqs mq r') = Some c" using p(8) [OF 4] by blast
    let ?q = "(received_req ctx len (reqs mq r'))\<lparr>req_state := MQ_STATE_MATCHED, req_buf := buf, req_buf_len := len, recv_msgoff := 0\<rparr>"
    let ?mq1 = "upd_req r' (\<lambda>q. (received_req ctx len q)\<lparr>req_state := MQ_STATE_MATCHED, req_buf := buf,
            req_buf_len := len, recv_msgoff := 0\<rparr>) (off_unexpected r' mq)"
    have i: "mq_inv own ?mq1"
      by (rule leave_unexpected_inv [OF inv found(2), where c = False and q = ?q])
        (use o p(1,3-7) p(8) [OF 4] 4 sysb in \<open>simp_all add: recv_ok_def\<close>)
    have "rts_cb c r' False ?mq1 = Inr mq'" using h unfolding irecv_rv [OF m 4 c] by auto
    then show ?thesis by (rule cb [OF i, rotated 2]) (use p(1) in simp_all)
  qed
qed

section \<open>Completion, cancelling and retiring\<close>

lemma stats_frame:
  assumes "reqs mq' = reqs mq" "expected_q mq' = expected_q mq" "unexpected_q mq' = unexpected_q mq" "completed_q mq' = completed_q mq"
    "egrlong mq' = egrlong mq" "rreq_pool mq' = rreq_pool mq" "sreq_pool mq' = sreq_pool mq" "sysbufs mq' = sysbufs mq"
  shows "mq_inv own mq' = mq_inv own mq"
  by (simp add: mq_inv_def pools_ok_def queues_ok_def req_ok_def egr_ok_def bufs_ok_def owned_bufs_def owners_def Let_def
      assms on_egrlong_cong [OF assms(5)])

lemma slive_send_ok:
  assumes "mq_inv own mq" "r \<in> slive mq"
  shows "send_ok (reqs mq r) (r \<in> set (expected_q mq)) (r \<in> set (unexpected_q mq)) (r \<in> set (completed_q mq)) (on_egrlong mq r)"
    "r \<notin> rlive mq"
  using mq_invD(3) [OF assms(1), of r] mq_invD(1) [OF assms(1)] assms(2)
  by (auto simp: req_ok_def pools_ok_def Let_def split: if_splits)

lemma send_touch_inv:
  assumes inv: "mq_inv own mq" and r: "r \<in> slive mq" and q: "send_ok q False False (r \<in> set (completed_q mq')) False"
    and f: "reqs mq' = (reqs mq)(r := q)" "expected_q mq' = expected_q mq" "unexpected_q mq' = unexpected_q mq"
      "completed_q mq' = completed_q mq \<or> completed_q mq' = completed_q mq @ [r] \<and> r \<notin> set (completed_q mq)"
      "egrlong mq' = egrlong mq" "rreq_pool mq' = rreq_pool mq" "sreq_pool mq' = sreq_pool mq" "sysbufs mq' = sysbufs mq"
  shows "mq_inv own mq'"
proof (rule mq_inv_touch [OF inv, where r = r])
  note g = on_egrlong_cong [OF f(5)]
  note s = slive_send_ok [OF inv r]
  then have off: "r \<notin> set (expected_q mq)" "r \<notin> set (unexpected_q mq)" "\<not> on_egrlong mq r" by (simp_all add: send_ok_def)
  show "req_ok mq' r" using q off r s(2) f by (simp add: req_ok_def g)
  show "pools_ok mq'" "queues_ok mq'" using mq_invD(1,2) [OF inv] f by (auto simp: pools_ok_def queues_ok_def)
  show "egr_ok mq'" by (rule egr_ok_cong [OF mq_invD(4) [OF inv] f(5)]) (use off f(1) in auto)
  show "bufs_ok own mq'" using off
    by (intro sysbuf_bufs_cong [OF mq_invD(5) [OF inv] f(8)]) (auto simp: owners_def f)
qed (use f on_egrlong_cong [OF f(5)] in auto)

lemma rts_account_frame [simp]:
  "reqs (psmi_mq_stats_rts_account r mq) = reqs mq" "expected_q (psmi_mq_stats_rts_account r mq) = expected_q mq"
  "unexpected_q (psmi_mq_stats_rts_account r mq) = unexpected_q mq" "completed_q (psmi_mq_stats_rts_account r mq) = completed_q mq"
  "egrlong (psmi_mq_stats_rts_account r mq) = egrlong mq" "rreq_pool (psmi_mq_stats_rts_account r mq) = rreq_pool mq"
  "sreq_pool (psmi_mq_stats_rts_account r mq) = sreq_pool mq" "sysbufs (psmi_mq_stats_rts_account r mq) = sysbufs mq"
  "mq_mem (psmi_mq_stats_rts_account r mq) = mq_mem mq"
  by (simp_all add: psmi_mq_stats_rts_account_def Let_def)

lemma rts_complete_frame [simp]:
  "reqs (psmi_mq_handle_rts_complete r mq) = (reqs mq)(r := (reqs mq r)\<lparr>req_state := MQ_STATE_COMPLETE\<rparr>)"
  "expected_q (psmi_mq_handle_rts_complete r mq) = expected_q mq" "unexpected_q (psmi_mq_handle_rts_complete r mq) = unexpected_q mq"
  "completed_q (psmi_mq_handle_rts_complete r mq) = completed_q mq @ [r]"
  "egrlong (psmi_mq_handle_rts_complete r mq) = egrlong mq" "rreq_pool (psmi_mq_handle_rts_complete r mq) = rreq_pool mq"
  "sreq_pool (psmi_mq_handle_rts_complete r mq) = sreq_pool mq" "sysbufs (psmi_mq_handle_rts_complete r mq) = sysbufs mq"
  "mq_mem (psmi_mq_handle_rts_complete r mq) = mq_mem mq"
  by (simp_all add: psmi_mq_handle_rts_complete_def Let_def)

lemma rts_complete_recv_inv:
  assumes inv: "mq_inv own mq" and r: "r \<in> rlive mq" and st: "req_state (reqs mq r) = MQ_STATE_MATCHED"
    "req_type (reqs mq r) AND MQE_TYPE_EGRLONG = 0"
  shows "mq_inv own (psmi_mq_handle_rts_complete r mq)"
proof -
  have g: "\<not> on_egrlong mq r" using rlive_recv_ok [OF inv r] st by (simp add: recv_ok_def)
  have eg: "on_egrlong (psmi_mq_handle_rts_complete r mq) = on_egrlong mq" by (rule on_egrlong_cong) simp
  have "egr_ok (psmi_mq_handle_rts_complete r mq)" by (rule egr_ok_cong [OF mq_invD(4) [OF inv]]) auto
  then show ?thesis by (intro finish_inv [OF inv r]) (use st g eg in auto)
qed

lemma rts_complete_send_inv:
  assumes inv: "mq_inv own mq" and r: "r \<in> slive mq" "r \<notin> set (completed_q mq)"
  shows "mq_inv own (psmi_mq_handle_rts_complete r mq)"
  by (rule send_touch_inv [OF inv r(1)])
    (use slive_send_ok(1) [OF inv r(1)] r(2) in \<open>simp_all add: send_ok_def\<close>)

lemma find_this: "x \<in> set xs \<Longrightarrow> find (\<lambda>c. c = x) xs = Some x"
  by (induction xs) auto

lemma cancel_posted:
  assumes "mq_inv own mq" "r \<in> set (expected_q mq)"
  shows "psm_mq_cancel herr r mq = Inr (PSM_OK, completed_append r (upd_req r (\<lambda>q. q\<lparr>req_state := MQ_STATE_COMPLETE\<rparr>)
           (mq\<lparr>expected_q := remove1 r (expected_q mq)\<rparr>)))"
proof -
  note p = expected_posted [OF assms]
  have "r \<noteq> 0" using p(1) mq_invD(1) [OF assms(1)] by (auto simp: pools_ok_def)
  moreover have "find (\<lambda>c. c = r) (expected_q mq) = Some r"
    using assms(2) by (rule find_this)
  ultimately show ?thesis using p by (simp add: psm_mq_cancel_def expected_remove_single_def list_search_remove_def)
qed

lemma cancel_inv:
  assumes inv: "mq_inv own mq" and r: "r \<in> rlive mq" and h: "psm_mq_cancel herr r mq = Inr (err, mq')"
  shows "mq_inv own mq'"
proof (cases "r \<in> set (expected_q mq)")
  case True
  note p = expected_posted [OF inv True]
  have "mq' = completed_append r (upd_req r (\<lambda>q. q\<lparr>req_state := MQ_STATE_COMPLETE\<rparr>) (mq\<lparr>expected_q := remove1 r (expected_q mq)\<rparr>))"
    using h cancel_posted [OF inv True] by simp
  then show ?thesis
    by (intro leave_expected_plain [OF inv True, where c = True and q = "(reqs mq r)\<lparr>req_state := MQ_STATE_COMPLETE\<rparr>"])
      (use p in \<open>simp_all add: recv_ok_def\<close>)
next
  case False
  then have "req_state (reqs mq r) \<noteq> MQ_STATE_POSTED" "MQE_TYPE_IS_RECV (req_type (reqs mq r))"
    using rlive_recv_ok [OF inv r] by (auto simp: recv_ok_def)
  then show ?thesis using h inv by (auto simp: psm_mq_cancel_def split: if_splits)
qed

text \<open>Releasing a completed request.\<close>

definition retired :: "u64 \<Rightarrow> psm_mq \<Rightarrow> psm_mq" where
  "retired r mq = psmi_mq_req_free r (completed_remove r mq)"

lemma mq_retire_eq: "mq_retire want r mq = (PSM_OK, opt_status want r mq, 0, retired r mq)"
  by (simp add: mq_retire_def retired_def opt_status_def completed_remove_def Let_def)

lemma completed_live:
  assumes "mq_inv own mq" "r \<in> set (completed_q mq)"
  shows "r \<in> rlive mq \<or> r \<in> slive mq" "req_state (reqs mq r) = MQ_STATE_COMPLETE" "r \<notin> set (expected_q mq)"
    "r \<notin> set (unexpected_q mq)" "\<not> on_egrlong mq r" "r \<noteq> 0"
proof -
  have "req_ok mq r" using mq_invD(3) [OF assms(1)] .
  then show l: "r \<in> rlive mq \<or> r \<in> slive mq" using assms(2) by (auto simp: req_ok_def Let_def split: if_splits)
  show "r \<noteq> 0" using l mq_invD(1) [OF assms(1)] by (auto simp: pools_ok_def)
  show "req_state (reqs mq r) = MQ_STATE_COMPLETE" "r \<notin> set (expected_q mq)" "r \<notin> set (unexpected_q mq)" "\<not> on_egrlong mq r"
  proof -
    have "req_state (reqs mq r) = MQ_STATE_COMPLETE \<and> r \<notin> set (expected_q mq) \<and> r \<notin> set (unexpected_q mq) \<and> \<not> on_egrlong mq r"
    proof (cases "r \<in> rlive mq")
      case True
      then show ?thesis using rlive_recv_ok [OF assms(1) True] assms(2) by (auto simp: recv_ok_def split: mq_state.splits)
    next
      case False
      then show ?thesis using slive_send_ok [OF assms(1), of r] l assms(2) by (auto simp: send_ok_def)
    qed
    then show "req_state (reqs mq r) = MQ_STATE_COMPLETE" "r \<notin> set (expected_q mq)" "r \<notin> set (unexpected_q mq)" "\<not> on_egrlong mq r"
      by simp_all
  qed
qed

lemma retired_frame [simp]:
  "reqs (retired r mq) = reqs mq" "expected_q (retired r mq) = expected_q mq" "unexpected_q (retired r mq) = unexpected_q mq"
  "completed_q (retired r mq) = remove1 r (completed_q mq)" "egrlong (retired r mq) = egrlong mq"
  "sysbufs (retired r mq) = sysbufs mq" "mq_mem (retired r mq) = mq_mem mq" "stats (retired r mq) = stats mq"
  by (simp_all add: retired_def psmi_mq_req_free_def completed_remove_def)

lemma retired_pools:
  assumes inv: "mq_inv own mq" and r: "r \<in> rlive mq \<or> r \<in> slive mq"
  shows "rlive (retired r mq) = rlive mq - {r}" "slive (retired r mq) = slive mq - {r}" "pools_ok (retired r mq)"
proof -
  have P: "mpool_inv (rreq_pool mq)" "mpool_inv (sreq_pool mq)" "rlive mq \<inter> slive mq = {}" "0 \<notin> rlive mq" "0 \<notin> slive mq"
    using mq_invD(1) [OF inv] by (simp_all add: pools_ok_def)
  have "rlive (retired r mq) = rlive mq - {r} \<and> slive (retired r mq) = slive mq - {r} \<and> pools_ok (retired r mq)"
  proof (cases "r \<in> rlive mq")
    case True
    then have "\<not> MQE_TYPE_IS_SEND (req_type (reqs mq r))" "r \<notin> slive mq"
      using rlive_recv_ok [OF inv True] P(3) by (auto simp: recv_ok_def)
    then show ?thesis using mpool.put_object [OF P(1) True] P
      by (auto simp: retired_def psmi_mq_req_free_def completed_remove_def pools_ok_def)
  next
    case False
    then have s: "r \<in> slive mq" using r by simp
    then have "MQE_TYPE_IS_SEND (req_type (reqs mq r))" using slive_send_ok [OF inv s] by (simp add: send_ok_def)
    then show ?thesis using mpool.put_object [OF P(2) s] P False
      by (auto simp: retired_def psmi_mq_req_free_def completed_remove_def pools_ok_def)
  qed
  then show "rlive (retired r mq) = rlive mq - {r}" "slive (retired r mq) = slive mq - {r}" "pools_ok (retired r mq)" by simp_all
qed

lemma retired_inv:
  assumes inv: "mq_inv own mq" and r: "r \<in> set (completed_q mq)"
  shows "mq_inv own (retired r mq)"
proof (rule mq_inv_touch [OF inv, where r = r])
  note l = completed_live [OF inv r]
  note P = retired_pools [OF inv l(1)]
  have g: "on_egrlong (retired r mq) = on_egrlong mq" by (rule on_egrlong_cong) simp
  have d: "distinct (completed_q mq)" using mq_invD(2) [OF inv] by (simp add: queues_ok_def)
  show "req_ok (retired r mq) r" using l P d by (simp add: req_ok_def g)
  show "pools_ok (retired r mq)" by (rule P(3))
  show "queues_ok (retired r mq)" using mq_invD(2) [OF inv] by (simp add: queues_ok_def)
  show "egr_ok (retired r mq)" by (rule egr_ok_cong [OF mq_invD(4) [OF inv]]) simp_all
  show "bufs_ok own (retired r mq)"
    by (intro sysbuf_bufs_cong [OF mq_invD(5) [OF inv]]) (simp_all add: owners_def)
  show "on_egrlong (retired r mq) x = on_egrlong mq x" for x by (simp add: g)
  show "x \<noteq> r \<Longrightarrow> x \<in> rlive (retired r mq) \<longleftrightarrow> x \<in> rlive mq" "x \<noteq> r \<Longrightarrow> x \<in> slive (retired r mq) \<longleftrightarrow> x \<in> slive mq" for x
    using P by auto
qed (auto simp: in_set_remove1)

section \<open>Steps\<close>

text \<open>
  One operation on the matched queue. The user tests only requests whose handle it holds, which are
  not on the unexpected queue; the transports deliver the data of an eager message to the first request
  of its flow. The callback of a rendezvous, the last action of a receive, is here the following
  steps of the transport.
\<close>

inductive mq_step :: "u64 set \<Rightarrow> psm_mq \<Rightarrow> psm_mq \<Rightarrow> bool" for own where
  irecv: "req_env_ok env mq \<Longrightarrow>
     psm_mq_irecv (\<lambda>cb r posted mq. Inr mq) env tag tagsel buf len ctx mq = Inr (err, r, mq') \<Longrightarrow> mq_step own mq mq'"
| cancel: "r \<in> rlive mq \<Longrightarrow> psm_mq_cancel herr r mq = Inr (err, mq') \<Longrightarrow> mq_step own mq mq'"
| test: "r \<in> rlive mq \<and> r \<notin> set (unexpected_q mq) \<or> r \<in> set (completed_q mq) \<Longrightarrow> testwait_callback (reqs mq r) = None \<Longrightarrow>
     psm_mq_test testwait r want mq = Inr (err, status, r', mq') \<Longrightarrow> mq_step own mq mq'"
| send: "req_env_ok env mq \<Longrightarrow> psmi_mq_req_alloc env MQE_TYPE_SEND mq = Inr (r, mq') \<Longrightarrow> mq_step own mq mq'"
| envelope: "env_ok own env mq \<Longrightarrow> envelope_ok mode ep eid slen paylen mq \<Longrightarrow>
     psmi_mq_handle_envelope ucb env mode ep tag eid slen pay paylen mq = Inr (rc, mq') \<Longrightarrow> mq_step own mq mq'"
| tiny: "env_ok own env mq \<Longrightarrow>
     psmi_mq_handle_tiny_envelope ucb env ep tag pay n mq = Inr (rc, mq') \<Longrightarrow> mq_step own mq mq'"
| data: "eager_ready r ep mq \<Longrightarrow> psmi_mq_handle_data r ep buf nb mq = Inr (rc, mq') \<Longrightarrow> mq_step own mq mq'"
| rts: "req_env_ok env mq \<Longrightarrow>
     psmi_mq_handle_rts env tag sbuf slen peer (Some cb) mq = Inr (rc, r, mq') \<Longrightarrow> mq_step own mq mq'"
| rts_complete_recv: "r \<in> rlive mq \<Longrightarrow> req_state (reqs mq r) = MQ_STATE_MATCHED \<Longrightarrow>
     req_type (reqs mq r) AND MQE_TYPE_EGRLONG = 0 \<Longrightarrow> mq_step own mq (psmi_mq_handle_rts_complete r mq)"
| rts_complete_send: "r \<in> slive mq \<Longrightarrow> r \<notin> set (completed_q mq) \<Longrightarrow> mq_step own mq (psmi_mq_handle_rts_complete r mq)"

inductive mq_reach :: "u64 set \<Rightarrow> psm_mq \<Rightarrow> psm_mq \<Rightarrow> bool" for own mq0 where
  start: "mq_reach own mq0 mq0"
| more: "mq_reach own mq0 mq \<Longrightarrow> mq_step own mq mq' \<Longrightarrow> mq_reach own mq0 mq'"

lemma recv_complete_on_queue:
  assumes "mq_inv own mq" "r \<in> rlive mq" "r \<notin> set (unexpected_q mq)" "req_state (reqs mq r) = MQ_STATE_COMPLETE"
  shows "r \<in> set (completed_q mq)"
  using rlive_recv_ok [OF assms(1,2)] assms(3,4) by (auto simp: recv_ok_def)

lemma test_inv:
  assumes inv: "mq_inv own mq" and r: "r \<in> rlive mq \<and> r \<notin> set (unexpected_q mq) \<or> r \<in> set (completed_q mq)"
    and tw: "testwait_callback (reqs mq r) = None" and h: "psm_mq_test testwait r want mq = Inr (err, status, r', mq')"
  shows "mq_inv own mq'"
proof (cases "r \<noteq> 0 \<and> req_state (reqs mq r) = MQ_STATE_COMPLETE")
  case True
  then have "r \<in> set (completed_q mq)" using r recv_complete_on_queue [OF inv] by blast
  then show ?thesis using retired_inv [OF inv] h True by (auto simp: psm_mq_test_def mq_retire_eq)
next
  case False
  then show ?thesis using h tw inv by (auto simp: psm_mq_test_def split: if_splits)
qed

lemma mq_step_inv: "mq_step own mq mq' \<Longrightarrow> mq_inv own mq \<Longrightarrow> mq_inv own mq'"
proof (induction rule: mq_step.induct)
  case (irecv env mq tag tagsel buf len ctx err r mq')
  then show ?case using irecv_inv [OF irecv(3,1) _ irecv(2)] by blast
next
  case (cancel r mq herr err mq')
  then show ?case using cancel_inv by blast
next
  case (test r mq testwait want err status r' mq')
  then show ?case using test_inv by blast
next
  case (send env mq r mq')
  then show ?case using alloc_send_inv(1) by blast
next
  case (envelope env mq mode ep eid slen paylen ucb tag pay rc mq')
  then show ?case using handle_envelope_inv by blast
next
  case (tiny env mq ucb ep tag pay n rc mq')
  then show ?case
    using handle_envelope_inv [OF tiny(3,1), of MQ_MSG_TINY] unfolding handle_tiny_short by (simp add: envelope_ok_def)
next
  case (data r ep mq buf nb rc mq')
  then show ?case using handle_data_inv by blast
next
  case (rts env mq tag sbuf slen peer cb rc r mq')
  then show ?case using handle_rts_inv by blast
next
  case (rts_complete_recv r mq)
  then show ?case using rts_complete_recv_inv by blast
next
  case (rts_complete_send r mq)
  then show ?case using rts_complete_send_inv by blast
qed

lemma mq_reach_inv:
  assumes "mq_reach own mq0 mq" "mq_inv own mq0"
  shows "mq_inv own mq"
  using assms by induction (auto intro: mq_step_inv)

section \<open>Creation\<close>

text \<open>
  The hypotheses on \<^verbatim>\<open>psmi_mq_malloc\<close>: sizes of the request pools that do not overflow, first chunks
  inside the address space (so that the warm-up needs no other), a C heap that grants the warm-up
  of the system buffers, and no peer with a message in progress.
\<close>

definition mq_create_ok :: "u32 \<times> u32 \<Rightarrow> u32 \<times> u32 \<Rightarrow> pool_env \<Rightarrow> pool_env \<Rightarrow> mq_env \<Rightarrow> psm_mq \<Rightarrow> bool" where
  "mq_create_ok sl rl spe rpe env world \<longleftrightarrow>
     create_args_ok sizeof_psm_mq_req (fst sl) (snd sl) (first_chunk spe) \<and>
     create_args_ok sizeof_psm_mq_req (fst rl) (snd rl) (first_chunk rpe) \<and> pool_chunk env = None \<and>
     \<not> mem_ctrl_is_init (sysbufs world) \<and> malloc_calls (sysbufs world) + 1000 < 2 ^ 32 \<and>
     heap_willing (heap env) (malloc_calls (sysbufs world)) \<and> (\<forall>e f. egrlong world e f = [])"

lemma create_req_pool_inv:
  assumes "create_req_pool (Inr l) pe = Inr (Inr p)" "create_args_ok sizeof_psm_mq_req (fst l) (snd l) (first_chunk pe)"
  shows "mpool_inv p" "mp_inuse p = {}"
  using assms create_inv [of sizeof_psm_mq_req "fst l" "snd l" "first_chunk pe"]
  by (auto simp: create_req_pool_def split: option.splits prod.splits)

text \<open>What both warm-ups keep: empty, well-formed pools and everything else.\<close>

definition warm_state :: "psm_mq \<Rightarrow> psm_mq \<Rightarrow> bool" where
  "warm_state mq mq' \<longleftrightarrow> mpool_inv (rreq_pool mq') \<and> mpool_inv (sreq_pool mq') \<and> rlive mq' = {} \<and> slive mq' = {} \<and>
     expected_q mq' = expected_q mq \<and> unexpected_q mq' = unexpected_q mq \<and> completed_q mq' = completed_q mq \<and>
     egrlong mq' = egrlong mq \<and> sysbufs mq' = sysbufs mq"

lemma warmup_state:
  assumes w: "warmup env t mq1 = Inr mq'" and ws: "warm_state mq mq1" and env: "pool_chunk env = None"
    and t: "t = MQE_TYPE_RECV \<or> t = MQE_TYPE_SEND"
  shows "warm_state mq mq'"
proof -
  obtain r mq2 where al: "psmi_mq_req_alloc env t mq1 = Inr (r, mq2)" and mq': "mq' = psmi_mq_req_free r mq2"
    using w by (auto simp: warmup_def split: if_splits)
  have ok: "malloc_ok (pool_chunk env) p" for p by (simp add: malloc_ok_def env)
  note W = ws [unfolded warm_state_def]
  from t show ?thesis
  proof
    assume t: "t = MQE_TYPE_RECV"
    obtain p where p: "psmi_mpool_get (pool_chunk env) (rreq_pool mq1) = Inr (Some r, p)"
      "mq2 = upd_req r (fresh_req MQE_TYPE_RECV) (mq1\<lparr>rreq_pool := p\<rparr>)"
      using al unfolding t by (rule req_alloc_recv)
    note g = mpool.get_object [OF _ ok p(1)]
    have "mpool_inv p" "mp_inuse p = {r}" using g W by auto
    then show ?thesis using mpool.put_object [of p r] W p(2) by (simp add: mq' warm_state_def psmi_mq_req_free_def)
  next
    assume t: "t = MQE_TYPE_SEND"
    obtain p where p: "psmi_mpool_get (pool_chunk env) (sreq_pool mq1) = Inr (Some r, p)"
      "mq2 = upd_req r (fresh_req MQE_TYPE_SEND) (mq1\<lparr>sreq_pool := p\<rparr>)"
      using al unfolding t by (rule req_alloc_send)
    note g = mpool.get_object [OF _ ok p(1)]
    have "mpool_inv p" "mp_inuse p = {r}" using g W by auto
    then show ?thesis using mpool.put_object [of p r] W p(2) by (simp add: mq' warm_state_def psmi_mq_req_free_def)
  qed
qed

lemma empty_mq_inv:
  assumes "mpool_inv (rreq_pool mq)" "mpool_inv (sreq_pool mq)" "rlive mq = {}" "slive mq = {}"
    "expected_q mq = []" "unexpected_q mq = []" "completed_q mq = []" "\<And>e f. egrlong mq e f = []" "sysbuf_inv (sysbufs mq) {}"
  shows "mq_inv {} mq"
  using assms by (simp add: mq_inv_def pools_ok_def queues_ok_def req_ok_def egr_ok_def bufs_ok_def owned_bufs_def owners_def
      on_egrlong_def)

lemma mq_malloc_inv:
  assumes ok: "mq_create_ok sl rl spe rpe env world"
    and m: "psmi_mq_malloc True herr (Inr sl) (Inr rl) spe rpe env world = Inr (PSM_OK, Some mq)"
  shows "mq_inv {} mq"
proof -
  note O = ok [unfolded mq_create_ok_def]
  let ?mq = "world\<lparr>unexpected_callback := None, expected_q := [], unexpected_q := [], completed_q := [],
                     cur_sysbuf_bytes := 0, max_sysbuf_bytes := - 1, ipath_thresh_rv := 64000,
                     ipath_window_rv := 131072, shm_thresh_rv := 16000, stats := mq_stats_zero\<rparr>"
  obtain mq1 sb where i: "psmi_mq_req_init (Inr sl) (Inr rl) spe rpe env ?mq = Inr (PSM_OK, mq1)"
    and sb: "psmi_mq_sysbuf_init (heap env) (sysbufs mq1) = Inr sb" and mq: "mq = mq1\<lparr>sysbufs := sb\<rparr>"
    using m by (auto simp: psmi_mq_malloc_def Let_def split: if_splits)
  obtain s where cs: "create_req_pool (Inr sl) spe = Inr s" using i by (auto simp: psmi_mq_req_init_def)
  then obtain sp where s: "s = Inr sp"
    using i by (cases s) (auto simp: psmi_mq_req_init_def create_req_pool_def split: prod.splits option.splits)
  obtain r where cr: "create_req_pool (Inr rl) rpe = Inr r" using i cs s by (auto simp: psmi_mq_req_init_def Let_def)
  then obtain rp where r: "r = Inr rp"
    using i cs s by (cases r) (auto simp: psmi_mq_req_init_def Let_def create_req_pool_def split: prod.splits option.splits)
  obtain mq2 where w: "warmup env MQE_TYPE_RECV (?mq\<lparr>sreq_pool := sp, rreq_pool := rp\<rparr>) = Inr mq2"
    "warmup env MQE_TYPE_SEND mq2 = Inr mq1"
    using i cs s cr r by (auto simp: psmi_mq_req_init_def Let_def)
  note P = create_req_pool_inv [OF cs [unfolded s]] create_req_pool_inv [OF cr [unfolded r]]
  have "warm_state ?mq (?mq\<lparr>sreq_pool := sp, rreq_pool := rp\<rparr>)" using P O by (simp add: warm_state_def)
  from warmup_state [OF w(1) this] have "warm_state ?mq mq2" using O by simp
  from warmup_state [OF w(2) this] have W: "warm_state ?mq mq1" using O by simp
  have "sysbuf_inv sb {}" using init_inv [of "sysbufs mq1" "heap env"] sb W O by (auto simp: warm_state_def)
  then show ?thesis unfolding mq using W O by (intro empty_mq_inv) (simp_all add: warm_state_def)
qed

end
