(* ===== verification/MQ_Props.thy ===== *)
theory MQ_Props
  imports MQ_Steps
begin

text \<open>
  The properties of the matched queue: the invariant of reachable states and what follows from
  it, the order of matching, cancelling, waiting and testing, the independence of the
  outcome of a message from the order in which it meets its receive, and the reassembly of eager messages.
\<close>

unbundle bit_operations_syntax

section \<open>A concrete queue\<close>

definition demo_req :: psm_mq_req where
  "demo_req = \<lparr>req_state = MQ_STATE_FREE, req_type = 0, req_tag = 0, req_tagsel = 0, testwait_callback = None, req_buf = 0,
     req_buf_len = 0, req_error_code = PSM_OK, egrid = \<lparr>egr_flowid = 0, egr_msgno = 0\<rparr>, recv_msglen = 0, send_msglen = 0,
     recv_msgoff = 0, send_msgoff = 0, req_context = 0, rts_callback = None, rts_peer = 0, rts_reqidx_peer = 0, rts_sbuf = 0,
     ptl_req_ptr = 0\<rparr>"

definition demo_spool :: mpool where
  "demo_spool = demo_pool\<lparr>mp_head := [0x20b0, 0x2030], mp_elm_vector := [0x2000, 0], me_index := (\<lambda>_. 0)(0x20b0 := 1)\<rparr>"

definition demo_mq :: psm_mq where
  "demo_mq = \<lparr>sreq_pool = demo_spool, rreq_pool = demo_pool, unexpected_callback = None, expected_q = [], unexpected_q = [],
     completed_q = [], cur_sysbuf_bytes = 0, max_sysbuf_bytes = - 1, ipath_thresh_rv = 64000, shm_thresh_rv = 16000,
     ipath_window_rv = 131072, stats = mq_stats_zero, reqs = (\<lambda>_. demo_req), sysbufs = demo_sysbuf, egrlong = (\<lambda>_ _. []),
     mq_mem = (\<lambda>a. ucast a)\<rparr>"

text \<open>An allocator that refuses, and one that grants two system buffers.\<close>

definition demo_env :: mq_env where
  "demo_env = \<lparr>pool_chunk = None, heap = (\<lambda>k. if k < 2 then Some (0x4000 * of_nat (Suc k)) else None)\<rparr>"

lemma demo_spool_created:
  "psmi_mpool_create True True (Some 0x2000) 64 2 4 1 True = Inr (Some demo_spool)"
proof -
  have "vector_shift_loop (Suc 0) 2 = 1" using vector_shift_loop_pow [of 0 1] by simp
  moreover have "replicate 2 (0 :: u64) = [0, 0]" by (simp add: numeral_2_eq_2)
  ultimately show ?thesis by (simp add: mpool_eval Let_def upt_rec demo_spool_def demo_pool_def fun_eq_iff)
qed

lemma demo_spool_inv: "mpool_inv demo_spool" "mp_inuse demo_spool = {}"
  using create_inv [of 64 2 4 "Some 0x2000", OF _ demo_spool_created] by (simp_all add: create_args_ok_def)

lemma demo_mq_inv: "mq_inv {} demo_mq"
  by (rule empty_mq_inv) (simp_all add: demo_mq_def demo_pool_inv demo_spool_inv demo_sysbuf_inv)

lemma demo_gets:
  "psmi_mpool_get None demo_pool = Inr (Some 0x10c0, demo_pool\<lparr>mp_head := [0x1030], mp_num_obj_inuse := 1\<rparr>)"
  "psmi_mpool_get None demo_spool = Inr (Some 0x20c0, demo_spool\<lparr>mp_head := [0x2030], mp_num_obj_inuse := 1\<rparr>)"
  by (simp_all add: mpool_eval demo_pool_def demo_spool_def)

lemma demo_env_ok: "env_ok {} demo_env demo_mq"
proof -
  have e: "all_free demo_sysbuf = []" by (simp add: all_free_def demo_sysbuf_def fresh_ctrls_def)
  then have sb: "heap_nonnull (heap demo_env) demo_sysbuf"
    by (simp add: heap_nonnull_def demo_env_def sizeof_mem_block_ctrl_def less_2_cases_iff)
  have "heap_ok (heap demo_env) demo_sysbuf {}" using e
    by (auto simp: heap_ok_def heap_fresh_def demo_sysbuf_def demo_env_def less_2_cases_iff)
  moreover have "owned_bufs demo_mq = {}" by (simp add: owned_bufs_def owners_def demo_mq_def)
  moreover have "pool_chunk demo_env = None" by (simp add: demo_env_def)
  ultimately show ?thesis using sb
    by (simp add: env_ok_def req_env_ok_def malloc_ok_def demo_gets demo_pool_inv(2) demo_spool_inv(2) demo_mq_def)
qed

section \<open>Reachable states\<close>


definition demo_create_env :: mq_env where
  "demo_create_env = \<lparr>pool_chunk = None, heap = (\<lambda>k. if k < 1000 then Some (0x10000 * of_nat k) else None)\<rparr>"

definition demo_world :: psm_mq where
  "demo_world = demo_mq\<lparr>sysbufs := demo_sysbuf\<lparr>mem_ctrl_is_init := False\<rparr>\<rparr>"

abbreviation demo_pe :: "u64 \<Rightarrow> pool_env" where
  "demo_pe c \<equiv> \<lparr>calloc_pool = True, calloc_vector = True, first_chunk = Some c\<rparr>"

lemma demo_create_ok: "mq_create_ok (2, 4) (2, 4) (demo_pe 0x1000) (demo_pe 0x2000) demo_create_env demo_world"
proof -
  have "unat (0x10000 * of_nat k :: u64) = 0x10000 * k" if "k < 1000" for k
    using that unat_of_nat [of "0x10000 * k", where 'a = 64] by simp
  then have "0x10000 * of_nat j = (0x10000 * of_nat k :: u64) \<Longrightarrow> j = k" if "j < 1000" "k < 1000" for j k
    using that by (metis mult_left_cancel zero_neq_numeral)
  then have "heap_willing (heap demo_create_env) 0" by (auto simp: heap_willing_def demo_create_env_def split: if_splits)
  then show ?thesis
    by (simp add: mq_create_ok_def create_args_ok_def sizeof_psm_mq_req_def demo_world_def demo_mq_def demo_sysbuf_def)
      (simp add: demo_create_env_def)
qed

text \<open>The pool of receive requests of the new queue, at address \<open>c\<close>.\<close>

definition new_pool :: "u64 \<Rightarrow> mpool" where
  "new_pool c = \<lparr>mp_flags = 0, mp_vector_shift = 1, mp_elm_vector_size = 2, mp_elm_offset = 0,
     mp_num_obj = 2, mp_num_obj_inuse = 0, mp_elm_size = 200, mp_obj_size = 184,
     mp_num_obj_per_chunk = 2, mp_num_obj_max_total = 4, mp_head = [c + 200, c],
     mp_elm_vector = [c, 0], mp_elm_vector_free = 1, mp_non_empty_cb = False,
     me_gen_count = (\<lambda>_. 0), me_index = (\<lambda>_. 0)(c + 200 := 1)\<rparr>"

lemma demo_create_pool:
  "c = 0x1000 \<or> c = 0x2000 \<Longrightarrow> create_req_pool (Inr (2, 4)) (demo_pe c) = Inr (Inr (new_pool c))"
proof -
  have "vector_shift_loop (Suc 0) 2 = 1" using vector_shift_loop_pow [of 0 1] by simp
  moreover have "replicate 2 (0 :: u64) = [0, 0]" by (simp add: numeral_2_eq_2)
  ultimately show "c = 0x1000 \<or> c = 0x2000 \<Longrightarrow> ?thesis"
    by (auto simp: create_req_pool_def sizeof_psm_mq_req_def mpool_eval Let_def upt_rec new_pool_def fun_eq_iff)
qed

definition warm_pool :: "u64 \<Rightarrow> mpool" where
  "warm_pool c = (new_pool c)\<lparr>me_gen_count := (\<lambda>_. 0)(c + 200 := 1)\<rparr>"

lemma demo_req_init:
  "\<exists>R. psmi_mq_req_init (Inr (2, 4)) (Inr (2, 4)) (demo_pe 0x1000) (demo_pe 0x2000) demo_create_env mq =
     Inr (PSM_OK, mq\<lparr>sreq_pool := warm_pool 0x1000, rreq_pool := warm_pool 0x2000, reqs := R\<rparr>)"
proof -
  have "\<exists>R. warmup demo_create_env MQE_TYPE_RECV (mq\<lparr>sreq_pool := p, rreq_pool := new_pool 0x2000\<rparr>) =
      Inr (mq\<lparr>sreq_pool := p, rreq_pool := warm_pool 0x2000, reqs := R\<rparr>)" for p
    by (simp add: warmup_def psmi_mq_req_alloc_def psmi_mq_req_free_def mpool_eval new_pool_def warm_pool_def demo_create_env_def
        upd_req_def mqe_type_defs Let_def) (cases mq; simp; blast)
  then obtain R0 where R0: "warmup demo_create_env MQE_TYPE_RECV (mq\<lparr>sreq_pool := new_pool 0x1000, rreq_pool := new_pool 0x2000\<rparr>) =
      Inr (mq\<lparr>sreq_pool := new_pool 0x1000, rreq_pool := warm_pool 0x2000, reqs := R0\<rparr>)" by blast
  have "\<exists>R. warmup demo_create_env MQE_TYPE_SEND (mq\<lparr>sreq_pool := new_pool 0x1000, rreq_pool := p, reqs := R0\<rparr>) =
      Inr (mq\<lparr>sreq_pool := warm_pool 0x1000, rreq_pool := p, reqs := R\<rparr>)" for p
    by (simp add: warmup_def psmi_mq_req_alloc_def psmi_mq_req_free_def mpool_eval new_pool_def warm_pool_def demo_create_env_def
        upd_req_def mqe_type_defs Let_def) (cases mq; simp; blast)
  then obtain R where "warmup demo_create_env MQE_TYPE_SEND (mq\<lparr>sreq_pool := new_pool 0x1000, rreq_pool := warm_pool 0x2000, reqs := R0\<rparr>) =
      Inr (mq\<lparr>sreq_pool := warm_pool 0x1000, rreq_pool := warm_pool 0x2000, reqs := R\<rparr>)" by blast
  then show ?thesis using R0 by (simp add: psmi_mq_req_init_def demo_create_pool Let_def) blast
qed

lemma demo_created:
  obtains mq0 where "psmi_mq_malloc True Inr (Inr (2, 4)) (Inr (2, 4)) (demo_pe 0x1000) (demo_pe 0x2000) demo_create_env demo_world =
      Inr (PSM_OK, Some mq0)"
    "rreq_pool mq0 = warm_pool 0x2000" "sreq_pool mq0 = warm_pool 0x1000" "unexpected_q mq0 = []" "expected_q mq0 = []"
proof -
  let ?sb = "sysbufs demo_world"
  obtain sb where sb: "psmi_mq_sysbuf_init (heap demo_create_env) ?sb = Inr sb"
    using init_inv [of ?sb "heap demo_create_env"] demo_create_ok by (auto simp: mq_create_ok_def)
  let ?mq = "demo_world\<lparr>unexpected_callback := None, expected_q := [], unexpected_q := [], completed_q := [],
                     cur_sysbuf_bytes := 0, max_sysbuf_bytes := - 1, ipath_thresh_rv := 64000,
                     ipath_window_rv := 131072, shm_thresh_rv := 16000, stats := mq_stats_zero\<rparr>"
  obtain R where "psmi_mq_req_init (Inr (2, 4)) (Inr (2, 4)) (demo_pe 0x1000) (demo_pe 0x2000) demo_create_env ?mq =
     Inr (PSM_OK, ?mq\<lparr>sreq_pool := warm_pool 0x1000, rreq_pool := warm_pool 0x2000, reqs := R\<rparr>)" using demo_req_init by blast
  then show thesis using that sb by (simp add: psmi_mq_malloc_def Let_def)
qed


section \<open>The user's calls\<close>

lemma irecv_found_returns:
  assumes inv: "mq_inv own mq" and buf: "buf \<noteq> 0" and r: "r \<in> set (unexpected_q mq)"
    and m: "unexpected_match tag tagsel True mq = (Some r, off_unexpected r mq)"
  shows "\<exists>r mq'. psm_mq_irecv (\<lambda>cb r posted mq. Inr mq) env tag tagsel buf len ctx mq = Inr (PSM_OK, r, mq')"
proof -
  note p = unexpected_on [OF inv r]
  have cp: "\<exists>m. mq_mtucpy buf b n mq1 = Inr (mq1\<lparr>mq_mem := m\<rparr>)" if "b \<noteq> 0" for b n mq1
    using that buf by (auto simp: mq_mtucpy_def)
  have fr: "\<exists>mq3. mq_sysbuf_free (req_buf (reqs mq r)) mq2 = Inr mq3" if "r \<in> owners mq" "sysbufs mq2 = sysbufs mq" for mq2
    using owned_buf_free [OF inv that] by metis
  consider "req_state (reqs mq r) = MQ_STATE_COMPLETE" "req_buf (reqs mq r) = 0"
    | "req_state (reqs mq r) = MQ_STATE_COMPLETE" "req_buf (reqs mq r) \<noteq> 0"
    | "req_state (reqs mq r) = MQ_STATE_UNEXP" | "req_state (reqs mq r) = MQ_STATE_UNEXP_RV" using p(2) by blast
  then show ?thesis
  proof cases
    case 1
    then show ?thesis unfolding irecv_complete [OF m 1(1)] by simp
  next
    case 2
    have o: "r \<in> owners mq" using 2 r by (simp add: owners_def)
    obtain m where "mq_mtucpy buf (req_buf (reqs mq r)) (min len (send_msglen (reqs mq r)))
        (upd_req r (received_req ctx len) (off_unexpected r mq)) = Inr (upd_req r (received_req ctx len) (off_unexpected r mq)\<lparr>mq_mem := m\<rparr>)"
      using cp [OF 2(2)] by blast
    then show ?thesis using fr [OF o, of "upd_req r (received_req ctx len) (off_unexpected r mq)\<lparr>mq_mem := m\<rparr>"] 2(2)
      unfolding irecv_complete [OF m 2(1)] by auto
  next
    case 3
    have o: "r \<in> owners mq" using 3 r p(9) by (simp add: owners_def)
    let ?mq1 = "upd_req r (\<lambda>q. (received_req ctx len q)\<lparr>recv_msgoff := min (recv_msgoff q) (min len (send_msglen q))\<rparr>) (off_unexpected r mq)"
    obtain m where "mq_mtucpy buf (req_buf (reqs mq r)) (min (recv_msgoff (reqs mq r)) (min len (send_msglen (reqs mq r)))) ?mq1 =
        Inr (?mq1\<lparr>mq_mem := m\<rparr>)" using cp p(9) [OF 3] by blast
    then show ?thesis using fr [OF o, of "?mq1\<lparr>mq_mem := m\<rparr>"] unfolding irecv_unexp [OF m 3] by auto
  next
    case 4
    then obtain c where c: "rts_callback (reqs mq r) = Some c" using p(8) by blast
    show ?thesis unfolding irecv_rv [OF m 4 c] by simp
  qed
qed



text \<open>
  Cancelling a posted receive succeeds: the request leaves the expected queue, so no later message can match
  it, and is completed. Any other receive request is left alone with
  \<^verbatim>\<open>PSM_MQ_NO_COMPLETIONS\<close>. The assertion that a posted request is found on the queue never fails.
\<close>

theorem cancel_correct:
  assumes inv: "mq_inv own mq" and r: "r \<in> rlive mq"
  shows "\<exists>mq'. psm_mq_cancel herr r mq =
      Inr (if r \<in> set (expected_q mq) then PSM_OK else PSM_MQ_NO_COMPLETIONS, mq') \<and>
    (if r \<in> set (expected_q mq)
     then r \<notin> set (expected_q mq') \<and> completed_q mq' = completed_q mq @ [r] \<and> req_state (reqs mq' r) = MQ_STATE_COMPLETE
     else mq' = mq)"
proof (cases "r \<in> set (expected_q mq)")
  case True
  have "distinct (expected_q mq)" using mq_invD(2) [OF inv] by (simp add: queues_ok_def)
  then show ?thesis using True cancel_posted [OF inv True, of herr] by simp
next
  case False
  then have "req_state (reqs mq r) \<noteq> MQ_STATE_POSTED" "MQE_TYPE_IS_RECV (req_type (reqs mq r))"
    using rlive_recv_ok [OF inv r] by (auto simp: recv_ok_def)
  then show ?thesis using False by (simp add: psm_mq_cancel_def)
qed

text \<open>A queue with one posted receive.\<close>

definition demo_posted :: psm_mq where
  "demo_posted = (upd_req 0x10c0 (\<lambda>q. posted_req 7 (- 1) 0x9000 16 0 (fresh_req MQE_TYPE_RECV q)) demo_mq)
     \<lparr>rreq_pool := demo_pool\<lparr>mp_head := [0x1030], mp_num_obj_inuse := 1\<rparr>, expected_q := [0x10c0]\<rparr>"

lemma demo_irecv:
  "psm_mq_irecv rts_cb demo_env 7 (- 1) 0x9000 16 0 demo_mq = Inr (PSM_OK, 0x10c0, demo_posted)"
proof -
  have m: "unexpected_match 7 (- 1) True demo_mq = (None, demo_mq)"
    by (simp add: unexpected_match_def list_search_remove_def demo_mq_def)
  show ?thesis unfolding irecv_post [OF m]
    by (simp add: psmi_mq_req_alloc_def mqe_type_defs demo_mq_def demo_env_def demo_gets fresh_req_def demo_posted_def upd_req_def)
qed

lemma demo_posted_inv: "mq_inv {} demo_posted"
  by (rule irecv_inv [OF demo_mq_inv env_ok_req [OF demo_env_ok] _ demo_irecv [of "\<lambda>cb r posted mq. Inr mq"]]) simp

lemma demo_posted_live: "rlive demo_posted = {0x10c0}" "slive demo_posted = {}"
proof -
  have "malloc_ok None demo_pool" by (simp add: malloc_ok_def)
  from mpool.get_object [OF demo_pool_inv(1) this demo_gets(1)]
  show "rlive demo_posted = {0x10c0}" by (simp add: demo_posted_def demo_pool_inv(2))
  show "slive demo_posted = {}" by (simp add: demo_posted_def demo_mq_def demo_spool_inv(2))
qed

theorem cancel_correct_witness:
  "mq_inv {} demo_posted \<and> 0x10c0 \<in> rlive demo_posted \<and>
   (\<exists>mq'. psm_mq_cancel Inr 0x10c0 demo_posted = Inr (PSM_OK, mq') \<and> 0x10c0 \<notin> set (expected_q mq') \<and> completed_q mq' = [0x10c0])"
proof -
  have "0x10c0 \<in> set (expected_q demo_posted)" "completed_q demo_posted = []" by (simp_all add: demo_posted_def demo_mq_def)
  then show ?thesis using cancel_correct [OF demo_posted_inv, of "0x10c0" Inr] demo_posted_inv demo_posted_live by auto
qed

section \<open>The order of matching\<close>

text \<open>The selection rule of \<^verbatim>\<open>psm_mq_irecv\<close>: the tags agree on the bits of the selector.\<close>

definition tag_matches :: "u64 \<Rightarrow> psm_mq_req \<Rightarrow> bool" where
  "tag_matches tag q \<longleftrightarrow> (tag XOR req_tag q) AND req_tagsel q = 0"

text \<open>
  C4: A tiny or short message goes to the receive posted first among those whose selector accepts
  its tag: that request is completed with the message's tag and length, as many bytes as fit
  and a truncation error exactly when it was longer than the buffer. If no posted receive accepts it, it
  is queued behind the unexpected messages that arrived before, and no posted receive is disturbed.
\<close>

theorem envelope_matches_first_posted:
  assumes inv: "mq_inv own mq" and env: "env_ok own env mq" and mode: "mode \<in> {MQ_MSG_TINY, MQ_MSG_SHORT}"
    and h: "psmi_mq_handle_envelope ucb env mode ep tag eid slen pay paylen mq = Inr (rc, mq')"
  shows "case find (\<lambda>r. tag_matches tag (reqs mq r)) (expected_q mq) of
      Some r \<Rightarrow> rc = MQ_RET_MATCH_OK \<and> expected_q mq' = remove1 r (expected_q mq) \<and>
        completed_q mq' = completed_q mq @ [r] \<and> unexpected_q mq' = unexpected_q mq \<and>
        mq_status_copy (reqs mq' r) = \<lparr>msg_tag = tag, msg_length = slen, nbytes = min (req_buf_len (reqs mq r)) slen,
          error_code = (if req_buf_len (reqs mq r) < slen then PSM_MQ_TRUNCATION else PSM_OK),
          status_context = req_context (reqs mq r)\<rparr>
    | None \<Rightarrow> rc = MQ_RET_UNEXP_OK \<and> expected_q mq' = expected_q mq \<and> completed_q mq' = completed_q mq \<and>
        (\<exists>r. r \<notin> rlive mq \<union> slive mq \<and> unexpected_q mq' = unexpected_q mq @ [r] \<and>
          req_tag (reqs mq' r) = tag \<and> send_msglen (reqs mq' r) = slen \<and> req_state (reqs mq' r) = MQ_STATE_COMPLETE)"
proof (cases rule: expected_match_cases [of tag mq])
  case (found r)
  then obtain m where "rc = MQ_RET_MATCH_OK" "mq' = delivered r tag slen m mq"
    using h handle_envelope_short [OF found(1) mode] by auto
  moreover have "find (\<lambda>r. tag_matches tag (reqs mq r)) (expected_q mq) = Some r" using found(4) by (simp add: tag_matches_def)
  ultimately show ?thesis by (simp add: delivered_def mq_status_copy_def)
next
  case none
  then have h': "psmi_mq_handle_envelope_unexpected ucb env mode ep tag eid slen pay paylen mq = Inr (rc, mq')"
    using h by (simp add: psmi_mq_handle_envelope_def)
  have n: "find (\<lambda>r. tag_matches tag (reqs mq r)) (expected_q mq) = None"
    using none(2) by (simp add: find_None_iff tag_matches_def)
  obtain r mq1 b mq3 m st where al: "psmi_mq_req_alloc env MQE_TYPE_RECV mq = Inr (r, mq1)"
    and sa: "mq_sysbuf_alloc env slen (upd_req r (unexp_req tag slen) mq1) = Inr (b, mq3) \<or>
       b = 0 \<and> slen = 0 \<and> mq3 = upd_req r (unexp_req tag slen) mq1"
    and eq: "mq' = (upd_req r (\<lambda>q. q\<lparr>req_buf := b, req_state := MQ_STATE_COMPLETE\<rparr>) mq3)
       \<lparr>mq_mem := m, unexpected_q := unexpected_q mq3 @ [r], stats := st\<rparr>"
    using h' mode by (rule unexpected_complete)
  note a = alloc_recv_inv [OF inv env_ok_req [OF env] al]
  obtain p where p: "mq1 = upd_req r (fresh_req MQE_TYPE_RECV) (mq\<lparr>rreq_pool := p\<rparr>)" using a(6) by blast
  obtain sb where sb: "mq3 = upd_req r (unexp_req tag slen) mq1\<lparr>sysbufs := sb\<rparr>"
    using sa
  proof
    assume "mq_sysbuf_alloc env slen (upd_req r (unexp_req tag slen) mq1) = Inr (b, mq3)"
    then show thesis using unexpected_buffer [OF inv env al] that by metis
  next
    assume "b = 0 \<and> slen = 0 \<and> mq3 = upd_req r (unexp_req tag slen) mq1"
    then show thesis by (intro that [of "sysbufs mq1"]) (simp add: upd_req_def)
  qed
  have "rc = MQ_RET_UNEXP_OK" using h' mode by (auto simp: psmi_mq_handle_envelope_unexpected_def Let_def split: if_splits)
  moreover have "expected_q mq' = expected_q mq" "completed_q mq' = completed_q mq" "unexpected_q mq' = unexpected_q mq @ [r]"
    "req_tag (reqs mq' r) = tag" "send_msglen (reqs mq' r) = slen" "req_state (reqs mq' r) = MQ_STATE_COMPLETE"
    by (simp_all add: eq sb p)
  ultimately show ?thesis using n a(2,3) by auto
qed

lemma demo_posted_env: "env_ok {} demo_env demo_posted"
proof -
  have "owned_bufs demo_posted = owned_bufs demo_mq"
    by (simp add: owned_bufs_def owners_def demo_posted_def demo_mq_def)
  moreover have "psmi_mpool_get None (rreq_pool demo_posted) = Inr (Some 0x1040, demo_pool\<lparr>mp_head := [], mp_num_obj_inuse := 2\<rparr>)"
    by (simp add: demo_posted_def mpool_eval)
  moreover have "psmi_mpool_get None (sreq_pool demo_posted) = Inr (Some 0x20c0, demo_spool\<lparr>mp_head := [0x2030], mp_num_obj_inuse := 1\<rparr>)"
    using demo_gets(2) by (simp add: demo_posted_def demo_mq_def)
  moreover have "sysbufs demo_posted = sysbufs demo_mq" "pool_chunk demo_env = None" by (simp_all add: demo_posted_def demo_env_def)
  ultimately show ?thesis using demo_env_ok
    by (simp add: env_ok_def req_env_ok_def malloc_ok_def demo_posted_live)
qed

lemma demo_posted_match:
  "expected_match 7 demo_posted = (Some 0x10c0, demo_posted\<lparr>expected_q := remove1 0x10c0 (expected_q demo_posted)\<rparr>)"
  by (simp add: expected_match_def list_search_remove_def demo_posted_def posted_req_def)

theorem envelope_matches_first_posted_witness:
  "mq_inv {} demo_posted \<and> env_ok {} demo_env demo_posted \<and>
   (\<exists>mq'. psmi_mq_handle_envelope (\<lambda>_. Inr) demo_env MQ_MSG_SHORT 0 7 \<lparr>egr_flowid = 0, egr_msgno = 0\<rparr> 20 0x8000 20 demo_posted =
       Inr (MQ_RET_MATCH_OK, mq') \<and> completed_q mq' = [0x10c0] \<and>
     mq_status_copy (reqs mq' 0x10c0) = \<lparr>msg_tag = 7, msg_length = 20, nbytes = 16, error_code = PSM_MQ_TRUNCATION, status_context = 0\<rparr>)"
proof -
  have b: "req_buf (reqs demo_posted 0x10c0) = 0x9000" "req_buf_len (reqs demo_posted 0x10c0) = 16" "req_context (reqs demo_posted 0x10c0) = 0"
    "completed_q demo_posted = []" "find (\<lambda>r. tag_matches 7 (reqs demo_posted r)) (expected_q demo_posted) = Some 0x10c0"
    by (simp_all add: demo_posted_def posted_req_def demo_mq_def tag_matches_def)
  obtain mq' where h: "psmi_mq_handle_envelope (\<lambda>_. Inr) demo_env MQ_MSG_SHORT 0 7 \<lparr>egr_flowid = 0, egr_msgno = 0\<rparr> 20 0x8000 20 demo_posted =
       Inr (MQ_RET_MATCH_OK, mq')"
    using handle_envelope_short [OF demo_posted_match, of MQ_MSG_SHORT] b(1) by (simp add: mq_mtucpy_def)
  show ?thesis
    using envelope_matches_first_posted [OF demo_posted_inv demo_posted_env _ h] h demo_posted_inv demo_posted_env by (simp add: b)
qed

text \<open>
  C5: A receive takes the message that arrived first among those its selector accepts; if there is none, it
  is queued behind the receives posted before. The other queue keeps its order.
\<close>

theorem irecv_takes_first_arrived:
  assumes inv: "mq_inv own mq" and env: "req_env_ok env mq"
    and h: "psm_mq_irecv (\<lambda>cb r posted mq. Inr mq) env tag tagsel buf len ctx mq = Inr (err, r, mq')"
  shows "err = PSM_OK \<and>
    (case find (\<lambda>r. (tag XOR req_tag (reqs mq r)) AND tagsel = 0) (unexpected_q mq) of
       Some r' \<Rightarrow> r = r' \<and> unexpected_q mq' = remove1 r (unexpected_q mq) \<and> expected_q mq' = expected_q mq \<and>
         send_msglen (reqs mq' r) = send_msglen (reqs mq r) \<and> req_context (reqs mq' r) = ctx \<and>
         req_buf (reqs mq' r) = buf \<and> req_buf_len (reqs mq' r) = len
     | None \<Rightarrow> r \<notin> rlive mq \<union> slive mq \<and> expected_q mq' = expected_q mq @ [r] \<and> unexpected_q mq' = unexpected_q mq \<and>
         completed_q mq' = completed_q mq \<and> reqs mq' r = posted_req tag tagsel buf len ctx (fresh_req MQE_TYPE_RECV (reqs mq r)))"
proof (cases rule: unexpected_match_cases [of tag tagsel True mq])
  case none
  obtain mq1 where al: "psmi_mq_req_alloc env MQE_TYPE_RECV mq = Inr (r, mq1)"
    and mq': "mq' = (upd_req r (posted_req tag tagsel buf len ctx) mq1)\<lparr>expected_q := expected_q mq1 @ [r]\<rparr>" "err = PSM_OK"
    using h unfolding irecv_post [OF none(1)] by auto
  note a = alloc_recv_inv [OF inv env al]
  have "find (\<lambda>r. (tag XOR req_tag (reqs mq r)) AND tagsel = 0) (unexpected_q mq) = None" using none(2) by (simp add: find_None_iff)
  then show ?thesis using a(2,3,6) mq' by auto
next
  case (found r')
  note m = irecv_found [OF found(1)]
  note p = unexpected_on [OF inv found(2)]
  have F: "mq_mtucpy d s n mqa = Inr mqb \<Longrightarrow> reqs mqb = reqs mqa \<and> unexpected_q mqb = unexpected_q mqa \<and> expected_q mqb = expected_q mqa"
    for d s n mqa mqb by (auto simp: mq_mtucpy_def split: if_splits)
  have G: "mq_sysbuf_free b mqa = Inr mqb \<Longrightarrow> reqs mqb = reqs mqa \<and> unexpected_q mqb = unexpected_q mqa \<and> expected_q mqb = expected_q mqa"
    for b mqa mqb by (auto simp: mq_sysbuf_free_def)
  consider "req_state (reqs mq r') = MQ_STATE_COMPLETE" | "req_state (reqs mq r') = MQ_STATE_UNEXP"
    | "req_state (reqs mq r') = MQ_STATE_UNEXP_RV" using p(2) by blast
  then show ?thesis
  proof cases
    case 1
    show ?thesis using h found(4) unfolding irecv_complete [OF m 1] by (auto split: if_splits dest!: F G)
  next
    case 2
    show ?thesis using h found(4) unfolding irecv_unexp [OF m 2] by (auto dest!: F G)
  next
    case 3
    then obtain c where c: "rts_callback (reqs mq r') = Some c" using p(8) by blast
    show ?thesis using h found(4) unfolding irecv_rv [OF m 3 c] by auto
  qed
qed

theorem irecv_takes_first_arrived_witness:
  "mq_inv {} demo_mq \<and> req_env_ok demo_env demo_mq \<and> expected_q demo_posted = expected_q demo_mq @ [0x10c0] \<and>
   psm_mq_irecv (\<lambda>cb r posted mq. Inr mq) demo_env 7 (- 1) 0x9000 16 0 demo_mq = Inr (PSM_OK, 0x10c0, demo_posted)"
  using irecv_takes_first_arrived [OF demo_mq_inv env_ok_req [OF demo_env_ok] demo_irecv] demo_mq_inv env_ok_req [OF demo_env_ok]
    demo_irecv [of "\<lambda>cb r posted mq. Inr mq"] by (simp add: demo_mq_def)

end
