(* ===== verification/MQ_Order.thy ===== *)
theory MQ_Order
  imports MQ_Props
begin

text \<open>
  Messages and receives may meet in either order: a message that finds its receive posted is copied
  into the user's buffer at once, one that does not is kept in a system buffer until the
  receive comes. Shown here: both ways leave the same bytes in the user's buffer and the same
  status.
\<close>

unbundle bit_operations_syntax

section \<open>Copies\<close>

lemma mem_copy_read: "apart n d s \<Longrightarrow> i < n \<Longrightarrow> mem_copy n d s m (d + of_nat i) = m (s + of_nat i)"
proof -
  assume a: "apart n d s" and i: "i < n"
  have "unat (of_nat i :: u64) = i" using a i by (simp add: apart_def unat_of_nat)
  then show ?thesis using i by (simp add: mem_copy_def)
qed

text \<open>The region written does not meet a region that is only read.\<close>

lemma mem_copy_other: "(\<And>j. j < n \<Longrightarrow> a \<noteq> d + of_nat j) \<Longrightarrow> mem_copy n d s m a = m a"
proof -
  assume o: "\<And>j. j < n \<Longrightarrow> a \<noteq> d + of_nat j"
  have "\<not> unat (a - d) < n" using o [of "unat (a - d)"] by auto
  then show ?thesis by (simp add: mem_copy_def)
qed

lemma mtucpy_mem:
  "apart (unat n) d s \<Longrightarrow> mq_mtucpy d s n mq = Inr mq' \<Longrightarrow> mq_mem mq' = mem_copy (unat n) d s (mq_mem mq)"
  by (auto simp: mq_mtucpy_def mtucpy_eq split: if_splits)

lemma tiny_len: "unat n < 256 \<Longrightarrow> unat (ucast (n :: u32) :: u8) = unat n"
  by (simp add: unsigned_ucast_eq take_bit_nat_eq_self)

lemma tinycpy_mem:
  "unat n < 256 \<Longrightarrow> apart (unat n) d s \<Longrightarrow> mq_tinycpy d s n mq = Inr mq' \<Longrightarrow> mq_mem mq' = mem_copy (unat n) d s (mq_mem mq)"
proof -
  assume n: "unat n < 256" and a: "apart (unat n) d s" and c: "mq_tinycpy d s n mq = Inr mq'"
  show ?thesis using tiny_len [OF n] copy_tiny_eq [of "ucast n :: u8" d s "mq_mem mq"] a c by (auto simp: mq_tinycpy_def split: if_splits)
qed

lemma short_copy_mem:
  assumes "mode = MQ_MSG_TINY \<Longrightarrow> unat n < 256" "apart (unat n) d s"
    "(if mode = MQ_MSG_TINY then mq_tinycpy d s n mq else mq_mtucpy d s n mq) = Inr mq'"
  shows "mq_mem mq' = mem_copy (unat n) d s (mq_mem mq)"
  using assms tinycpy_mem mtucpy_mem by (auto split: if_splits)

section \<open>The two orders\<close>

lemma find_append_new:
  "(\<And>x. x \<in> set xs \<Longrightarrow> \<not> P x) \<Longrightarrow> P r \<Longrightarrow> find P (xs @ [r]) = Some r"
  by (induction xs) auto

text \<open>The receive is posted first.\<close>

lemma posted_then_message:
  assumes inv: "mq_inv own mq" and env: "req_env_ok env mq"
    and none_u: "\<And>x. x \<in> set (unexpected_q mq) \<Longrightarrow> (rtag XOR req_tag (reqs mq x)) AND rsel \<noteq> 0"
    and none_e: "\<And>x. x \<in> set (expected_q mq) \<Longrightarrow> \<not> tag_matches stag (reqs mq x)"
    and agree: "(stag XOR rtag) AND rsel = 0"
    and mode: "mode \<in> {MQ_MSG_TINY, MQ_MSG_SHORT}" "mode = MQ_MSG_TINY \<Longrightarrow> unat slen < 256"
    and ap: "apart (unat (min len slen)) buf pay"
    and r1: "psm_mq_irecv rts_cb env rtag rsel buf len ctx mq = Inr (e, r, mqa)"
    and r2: "psmi_mq_handle_envelope ucb env' mode ep stag eid slen pay paylen mqa = Inr (rc, mq')"
  shows "rc = MQ_RET_MATCH_OK" "completed_q mq' = completed_q mq @ [r]"
    "mq_status_copy (reqs mq' r) = \<lparr>msg_tag = stag, msg_length = slen, nbytes = min len slen,
       error_code = (if len < slen then PSM_MQ_TRUNCATION else PSM_OK), status_context = ctx\<rparr>"
    "mq_mem mq' = mem_copy (unat (min len slen)) buf pay (mq_mem mq)"
proof -
  have m: "unexpected_match rtag rsel True mq = (None, mq)"
    using none_u by (cases rule: unexpected_match_cases [of rtag rsel True mq]) auto
  obtain mq1 where al: "psmi_mq_req_alloc env MQE_TYPE_RECV mq = Inr (r, mq1)"
    and mqa: "mqa = (upd_req r (posted_req rtag rsel buf len ctx) mq1)\<lparr>expected_q := expected_q mq1 @ [r]\<rparr>"
    using r1 unfolding irecv_post [OF m] by auto
  note a = alloc_recv_inv [OF inv env al]
  obtain p where p: "mq1 = upd_req r (fresh_req MQE_TYPE_RECV) (mq\<lparr>rreq_pool := p\<rparr>)" using a(6) by blast
  have rE: "r \<notin> set (expected_q mq)" using unlive_off_queues(1) [OF inv a(2,3)] .
  have q: "reqs mqa = (reqs mq)(r := posted_req rtag rsel buf len ctx (fresh_req MQE_TYPE_RECV (reqs mq r)))" by (simp add: mqa p)
  have "find (\<lambda>c. (stag XOR req_tag (reqs mqa c)) AND req_tagsel (reqs mqa c) = 0) (expected_q mqa) = Some r"
    unfolding mqa by (simp add: p, rule find_append_new)
      (use none_e rE agree in \<open>auto simp: tag_matches_def posted_req_def\<close>)
  then have em: "expected_match stag mqa = (Some r, mqa\<lparr>expected_q := remove1 r (expected_q mqa)\<rparr>)"
    by (simp add: expected_match_def list_search_remove_def)
  have bl: "req_buf_len (reqs mqa r) = len" "req_buf (reqs mqa r) = buf" "req_context (reqs mqa r) = ctx"
    "mq_mem mqa = mq_mem mq" "completed_q mqa = completed_q mq" by (simp_all add: q posted_req_def, simp_all add: mqa p)
  obtain mqb where c: "(if mode = MQ_MSG_TINY then mq_tinycpy else mq_mtucpy) buf pay (min len slen) mqa = Inr mqb"
    and mq': "mq' = delivered r stag slen (mq_mem mqb) mqa" and rc: "rc = MQ_RET_MATCH_OK"
    using r2 unfolding handle_envelope_short [OF em mode(1)] bl by auto
  have t: "mode = MQ_MSG_TINY \<Longrightarrow> unat (min len slen) < 256" using mode(2) by (auto simp: min_def word_le_nat_alt)
  have "mq_mem mqb = mem_copy (unat (min len slen)) buf pay (mq_mem mqa)"
    using short_copy_mem [where mode = mode and mq = mqa and mq' = mqb, OF t ap] c by (auto split: if_splits)
  then show "mq_mem mq' = mem_copy (unat (min len slen)) buf pay (mq_mem mq)" by (simp add: mq' delivered_def bl)
  show "rc = MQ_RET_MATCH_OK" by (rule rc)
  show "completed_q mq' = completed_q mq @ [r]" by (simp add: mq' delivered_def bl)
  show "mq_status_copy (reqs mq' r) = \<lparr>msg_tag = stag, msg_length = slen, nbytes = min len slen,
       error_code = (if len < slen then PSM_MQ_TRUNCATION else PSM_OK), status_context = ctx\<rparr>"
    by (simp add: mq' delivered_def mq_status_copy_def bl)
qed

text \<open>
  The message comes first. The system buffer it is kept in is apart from the message and from the user's buffer.
\<close>

definition sysbuf_apart :: "mq_env \<Rightarrow> u32 \<Rightarrow> u64 \<Rightarrow> u64 \<Rightarrow> psm_mq \<Rightarrow> bool" where
  "sysbuf_apart env n pay buf mq \<longleftrightarrow>
     (\<forall>b sb. psmi_mq_sysbuf_alloc (heap env) n (sysbufs mq) = Inr (Some b, sb) \<longrightarrow> apart (unat n) b pay \<and> apart (unat n) buf b)"

lemma message_then_receive:
  assumes inv: "mq_inv own mq" and env: "env_ok own env mq"
    and none_u: "\<And>x. x \<in> set (unexpected_q mq) \<Longrightarrow> (rtag XOR req_tag (reqs mq x)) AND rsel \<noteq> 0"
    and none_e: "\<And>x. x \<in> set (expected_q mq) \<Longrightarrow> \<not> tag_matches stag (reqs mq x)"
    and agree: "(stag XOR rtag) AND rsel = 0"
    and mode: "mode \<in> {MQ_MSG_TINY, MQ_MSG_SHORT}" "mode = MQ_MSG_TINY \<Longrightarrow> unat slen < 256"
    and ap: "sysbuf_apart env slen pay buf mq"
    and r1: "psmi_mq_handle_envelope ucb env mode ep stag eid slen pay paylen mq = Inr (rc, mqa)"
    and r2: "psm_mq_irecv rts_cb env' rtag rsel buf len ctx mqa = Inr (e, r, mq')"
  shows "rc = MQ_RET_UNEXP_OK" "completed_q mq' = completed_q mq @ [r]"
    "mq_status_copy (reqs mq' r) = \<lparr>msg_tag = stag, msg_length = slen, nbytes = min len slen,
       error_code = (if len < slen then PSM_MQ_TRUNCATION else PSM_OK), status_context = ctx\<rparr>"
    "\<And>i. i < unat (min len slen) \<Longrightarrow> mq_mem mq' (buf + of_nat i) = mq_mem mq (pay + of_nat i)"
proof -
  have m: "expected_match stag mq = (None, mq)"
    using none_e by (cases rule: expected_match_cases [of stag mq]) (auto simp: tag_matches_def)
  have h: "psmi_mq_handle_envelope_unexpected ucb env mode ep stag eid slen pay paylen mq = Inr (rc, mqa)"
    using r1 m by (simp add: psmi_mq_handle_envelope_def)
  show rc: "rc = MQ_RET_UNEXP_OK" using h mode by (auto simp: psmi_mq_handle_envelope_unexpected_def Let_def split: if_splits)
  obtain x mq1 b mq3 mm st where al: "psmi_mq_req_alloc env MQE_TYPE_RECV mq = Inr (x, mq1)"
    and sa: "mq_sysbuf_alloc env slen (upd_req x (unexp_req stag slen) mq1) = Inr (b, mq3) \<or>
       b = 0 \<and> slen = 0 \<and> mq3 = upd_req x (unexp_req stag slen) mq1"
    and mqa: "mqa = (upd_req x (\<lambda>q. q\<lparr>req_buf := b, req_state := MQ_STATE_COMPLETE\<rparr>) mq3)
       \<lparr>mq_mem := mm, unexpected_q := unexpected_q mq3 @ [x], stats := st\<rparr>"
    and cp: "slen = 0 \<and> mm = mq_mem mq3 \<or>
       (let mq4 = upd_req x (\<lambda>q. q\<lparr>req_buf := b\<rparr>) mq3
        in (if mode = MQ_MSG_TINY then mq_tinycpy b pay slen mq4 else mq_mtucpy b pay slen mq4) = Inr (mq4\<lparr>mq_mem := mm\<rparr>))"
    using h mode(1) by (rule unexpected_complete)
  note a = alloc_recv_inv [OF inv env_ok_req [OF env] al]
  obtain p where p: "mq1 = upd_req x (fresh_req MQE_TYPE_RECV) (mq\<lparr>rreq_pool := p\<rparr>)" using a(6) by blast
  have xU: "x \<notin> set (unexpected_q mq)" using unlive_off_queues(2) [OF inv a(2,3)] .
  obtain sb where sb: "mq3 = upd_req x (unexp_req stag slen) mq1\<lparr>sysbufs := sb\<rparr>"
    and ba: "b \<noteq> 0 \<Longrightarrow> apart (unat slen) b pay \<and> apart (unat slen) buf b"
    using sa
  proof
    assume s: "mq_sysbuf_alloc env slen (upd_req x (unexp_req stag slen) mq1) = Inr (b, mq3)"
    then obtain o' sb where o: "psmi_mq_sysbuf_alloc (heap env) slen (sysbufs mq) = Inr (o', sb)"
      "mq3 = upd_req x (unexp_req stag slen) mq1\<lparr>sysbufs := sb\<rparr>" "b = (case o' of None \<Rightarrow> 0 | Some b \<Rightarrow> b)"
      by (auto simp: mq_sysbuf_alloc_def p)
    then show thesis using that [of sb] ap by (cases o') (auto simp: sysbuf_apart_def)
  next
    assume "b = 0 \<and> slen = 0 \<and> mq3 = upd_req x (unexp_req stag slen) mq1"
    then show thesis by (intro that [of "sysbufs mq1"]) (simp_all add: upd_req_def)
  qed
  have b0: "b \<noteq> 0 \<or> slen = 0"
  proof (rule ccontr)
    assume "\<not> (b \<noteq> 0 \<or> slen = 0)"
    then have z: "b = 0" "slen \<noteq> 0" by simp_all
    then have "mode = MQ_MSG_TINY \<Longrightarrow> (ucast slen :: u8) \<noteq> 0"
      using tiny_len [OF mode(2)] by (metis unat_eq_0)
    then show False using z cp by (auto simp: mq_tinycpy_def mq_mtucpy_def Let_def split: if_splits)
  qed
  have mm: "mm = mem_copy (unat slen) b pay (mq_mem mq)"
  proof -
    have a': "apart (unat slen) b pay" using ba b0 by (cases "b = 0") (auto simp: apart_def)
    have m3: "mq_mem mq3 = mq_mem mq" by (simp add: sb p)
    let ?mq4 = "upd_req x (\<lambda>q. q\<lparr>req_buf := b\<rparr>) mq3"
    have "mm = mem_copy (unat slen) b pay (mq_mem mq3)"
      using cp short_copy_mem [where mode = mode, OF mode(2) a', of ?mq4 "?mq4\<lparr>mq_mem := mm\<rparr>"]
      by (simp add: Let_def) (metis (no_types) mem_copy_0 unat_0)
    then show ?thesis using m3 by simp
  qed
  have q: "reqs mqa = (reqs mq)(x := (unexp_req stag slen (fresh_req MQE_TYPE_RECV (reqs mq x)))\<lparr>req_buf := b, req_state := MQ_STATE_COMPLETE\<rparr>)"
    by (simp add: mqa sb p)
  have qx: "req_state (reqs mqa x) = MQ_STATE_COMPLETE" "req_buf (reqs mqa x) = b" "send_msglen (reqs mqa x) = slen"
    "recv_msglen (reqs mqa x) = slen" "req_tag (reqs mqa x) = stag" "req_error_code (reqs mqa x) = PSM_OK"
    by (simp_all add: q) (simp_all add: unexp_req_def fresh_req_def)
  have "find (\<lambda>c. (rtag XOR req_tag (reqs mqa c)) AND rsel = 0) (unexpected_q mqa) = Some x"
  proof -
    have "unexpected_q mqa = unexpected_q mq @ [x]" by (simp add: mqa sb p)
    moreover have "(rtag XOR stag) AND rsel = 0" using agree by (simp add: xor.commute)
    ultimately show ?thesis using none_u xU by (simp add: qx, intro find_append_new) (auto simp: q)
  qed
  then have um: "unexpected_match rtag rsel True mqa = (Some x, off_unexpected x mqa)"
    by (simp add: unexpected_match_def list_search_remove_def off_unexpected_def)
  note R = r2 [unfolded irecv_complete [OF um qx(1)]]
  have F: "mq_sysbuf_free c mq1 = Inr mq2 \<Longrightarrow> reqs mq2 = reqs mq1 \<and> completed_q mq2 = completed_q mq1 \<and> mq_mem mq2 = mq_mem mq1"
    for c mq1 mq2 by (auto simp: mq_sysbuf_free_def)
  have cq: "completed_q mqa = completed_q mq" by (simp add: mqa sb p)
  have "completed_q mq' = completed_q mq @ [r] \<and> mq_status_copy (reqs mq' r) = \<lparr>msg_tag = stag, msg_length = slen, nbytes = min len slen,
       error_code = (if len < slen then PSM_MQ_TRUNCATION else PSM_OK), status_context = ctx\<rparr> \<and>
     (\<forall>i < unat (min len slen). mq_mem mq' (buf + of_nat i) = mq_mem mq (pay + of_nat i))"
  proof (cases "b = 0")
    case True
    then have "slen = 0" using b0 by simp
    then show ?thesis using R True qx cq by (auto simp: mq_status_copy_def)
  next
    case False
    let ?n = "min len slen"
    obtain mqc mqd where c: "mq_mtucpy buf b ?n (upd_req x (received_req ctx len) (off_unexpected x mqa)) = Inr mqc"
      and d: "mq_sysbuf_free b mqc = Inr mqd" and mq': "mq' = completed_append x (upd_req x (\<lambda>q. q\<lparr>req_buf := buf, req_buf_len := len\<rparr>) mqd)" "r = x"
      using R False by (auto simp: qx)
    have n: "unat ?n \<le> unat slen" by (simp add: word_le_nat_alt [symmetric])
    have A: "apart (unat slen) b pay" "apart (unat ?n) buf b" using ba [OF False] apart_less [OF _ n] by auto
    have "mq_mem mqc = mem_copy (unat ?n) buf b mm" using mtucpy_mem [OF A(2) c] by (simp add: mqa)
    then have mem: "mq_mem mq' = mem_copy (unat ?n) buf b mm" using F [OF d] by (simp add: mq'(1))
    have "mq_mem mq' (buf + of_nat i) = mq_mem mq (pay + of_nat i)" if "i < unat ?n" for i
      using that n mem_copy_read [OF A(2) that] mem_copy_read [OF A(1), of i] by (simp add: mem mm)
    moreover have "reqs mqc = reqs (upd_req x (received_req ctx len) (off_unexpected x mqa))" "completed_q mqc = completed_q mqa"
      using c by (auto simp: mq_mtucpy_def split: if_splits)
    ultimately show ?thesis using F [OF d] cq by (simp add: mq' mq_status_copy_def qx)
  qed
  then show "completed_q mq' = completed_q mq @ [r]" "mq_status_copy (reqs mq' r) = \<lparr>msg_tag = stag, msg_length = slen, nbytes = min len slen,
       error_code = (if len < slen then PSM_MQ_TRUNCATION else PSM_OK), status_context = ctx\<rparr>"
    "\<And>i. i < unat (min len slen) \<Longrightarrow> mq_mem mq' (buf + of_nat i) = mq_mem mq (pay + of_nat i)" by simp_all
qed

section \<open>Properties\<close>


lemma demo_sysbuf_source:
  assumes "psmi_mq_sysbuf_alloc (heap demo_env) n demo_sysbuf = Inr (Some b, sb)"
  shows "b = 0x4008 \<or> b = 0x8008"
proof -
  have "all_free demo_sysbuf = []" by (simp add: all_free_def demo_sysbuf_def fresh_ctrls_def)
  then obtain k where "heap demo_env k = Some (hdr b)" using alloc_source [OF demo_sysbuf_inv assms] by auto
  then have "k < 2" "0x4000 * of_nat (Suc k) = hdr b" by (auto simp: demo_env_def split: if_splits)
  then have "hdr b = 0x4000 \<or> hdr b = 0x8000" by (auto dest!: less_2_cases)
  then have "hdr b + 8 = 0x4008 \<or> hdr b + 8 = 0x8008" by auto
  then show ?thesis by (simp add: sizeof_mem_block_ctrl_def)
qed

lemma demo_apart: "sysbuf_apart demo_env 20 0x18000 0x9000 demo_mq"
proof -
  have "apart 20 b 0x18000 \<and> apart 20 0x9000 b" if "b = 0x4008 \<or> b = 0x8008" for b :: u64
    using that by (auto intro!: apartI)
  then show ?thesis using demo_sysbuf_source by (auto simp: sysbuf_apart_def demo_mq_def)
qed

text \<open>The message of twenty bytes arrives before the receive.\<close>

lemma demo_unexpected:
  obtains mqb where "psmi_mq_handle_envelope (\<lambda>_. Inr) demo_env MQ_MSG_SHORT 0 7 \<lparr>egr_flowid = 0, egr_msgno = 0\<rparr> 20 0x18000 20 demo_mq =
    Inr (MQ_RET_UNEXP_OK, mqb)" "unexpected_q mqb = [0x10c0]" "req_tag (reqs mqb 0x10c0) = 7"
proof -
  have m: "expected_match 7 demo_mq = (None, demo_mq)" by (simp add: expected_match_def list_search_remove_def demo_mq_def)
  obtain b sb where a: "psmi_mq_sysbuf_alloc (heap demo_env) 20 demo_sysbuf = Inr (Some b, sb)"
  proof -
    have h: "heap_ok (heap demo_env) demo_sysbuf {}" using demo_env_ok by (simp add: env_ok_def owned_bufs_def owners_def demo_mq_def)
    show thesis by (rule alloc_cases [OF demo_sysbuf_inv h, where n = 20]) (use that in \<open>auto simp: demo_sysbuf_def demo_env_def\<close>)
  qed
  then have b: "b \<noteq> 0" using demo_sysbuf_source by force
  have g: "psmi_mq_req_alloc demo_env MQE_TYPE_RECV demo_mq =
      Inr (0x10c0, upd_req 0x10c0 (fresh_req MQE_TYPE_RECV) (demo_mq\<lparr>rreq_pool := demo_pool\<lparr>mp_head := [0x1030], mp_num_obj_inuse := 1\<rparr>\<rparr>))"
    by (simp add: psmi_mq_req_alloc_def mqe_type_defs demo_mq_def demo_env_def demo_gets fresh_req_def [abs_def])
  have f: "sysbufs demo_mq = demo_sysbuf" "unexpected_q demo_mq = []" by (simp_all add: demo_mq_def)
  show thesis using that m g a b f
    by (simp add: psmi_mq_handle_envelope_def psmi_mq_handle_envelope_unexpected_def mq_sysbuf_alloc_def mq_mtucpy_def Let_def)
qed


end
