(* ===== verification/MQ_Eager.thy ===== *)
theory MQ_Eager
  imports MQ_Order
begin

text \<open>
  Eager messages that span several packets: the envelope carries the first piece, the other pieces
  are handed to \<^verbatim>\<open>psmi_mq_handle_data\<close> one after the other, and the receive may come at any moment
  in between. Shown: when the pieces of a message have been delivered in order, the request is
  complete and the receiver's buffer holds the message as far as it fits, wherever the receive came.
\<close>

unbundle bit_operations_syntax

declare of_nat_unat [simp del]

section \<open>Packets\<close>

definition mem_write :: "u64 \<Rightarrow> u8 list \<Rightarrow> mem \<Rightarrow> mem" where
  "mem_write a bs m = (\<lambda>x. if unat (x - a) < length bs then bs ! unat (x - a) else m x)"

text \<open>The network puts each packet into memory, then its data is handled.\<close>

fun deliver :: "u64 \<Rightarrow> u64 \<Rightarrow> (u64 \<times> u8 list) list \<Rightarrow> psm_mq \<Rightarrow> psm_mq run" where
  "deliver r ep [] mq = Inr mq"
| "deliver r ep ((a, bs) # ps) mq =
     run_bind (psmi_mq_handle_data r ep a (of_nat (length bs)) (mq\<lparr>mq_mem := mem_write a bs (mq_mem mq)\<rparr>))
       (\<lambda>(_, mq). deliver r ep ps mq)"

text \<open>The part of the message that has arrived is in the request's buffer.\<close>

definition reassembling :: "u8 list \<Rightarrow> u64 \<Rightarrow> psm_mq \<Rightarrow> bool" where
  "reassembling msg r mq \<longleftrightarrow> (let q = reqs mq r in
     unat (send_msglen q) = length msg \<and> send_msgoff q \<le> send_msglen q \<and> recv_msglen q \<le> send_msglen q \<and>
     recv_msgoff q = min (send_msgoff q) (recv_msglen q) \<and>
     (\<forall>i < unat (recv_msgoff q). mq_mem mq (req_buf q + of_nat i) = msg ! i))"

text \<open>A buffer of \<open>n\<close> bytes that does not wrap around, and a packet outside it.\<close>

definition buf_ok :: "u64 \<Rightarrow> nat \<Rightarrow> bool" where
  "buf_ok buf n \<longleftrightarrow> buf \<noteq> 0 \<and> unat buf + n < 2 ^ 64"

definition packet_ok :: "u64 \<Rightarrow> nat \<Rightarrow> u64 \<times> u8 list \<Rightarrow> bool" where
  "packet_ok buf n p \<longleftrightarrow> fst p \<noteq> 0 \<and> snd p \<noteq> [] \<and> length (snd p) < 2 ^ 32 \<and>
     (\<forall>i < n. \<forall>j < length (snd p). buf + of_nat i \<noteq> fst p + of_nat j)"

lemma mem_write_read: "i < length bs \<Longrightarrow> length bs < 2 ^ 64 \<Longrightarrow> mem_write a bs m (a + of_nat i) = bs ! i"
  by (simp add: mem_write_def unat_of_nat)

lemma mem_write_other: "(\<And>j. j < length bs \<Longrightarrow> x \<noteq> a + of_nat j) \<Longrightarrow> mem_write a bs m x = m x"
proof -
  assume o: "\<And>j. j < length bs \<Longrightarrow> x \<noteq> a + of_nat j"
  have "\<not> unat (x - a) < length bs" using o [of "unat (x - a)"] by (auto simp: of_nat_unat)
  then show ?thesis by (simp add: mem_write_def)
qed

lemma buf_addr: "buf_ok buf n \<Longrightarrow> i \<le> n \<Longrightarrow> unat (buf + of_nat i) = unat buf + i"
proof -
  assume b: "buf_ok buf n" "i \<le> n"
  then have "unat (of_nat i :: u64) = i" by (simp add: buf_ok_def unat_of_nat)
  then show ?thesis using b by (subst unat_plus_no_wrap) (auto simp: buf_ok_def)
qed

lemma buf_inj: "buf_ok buf n \<Longrightarrow> i \<le> n \<Longrightarrow> j \<le> n \<Longrightarrow> buf + of_nat i = buf + of_nat j \<longleftrightarrow> i = j"
  using buf_addr [of buf n i] buf_addr [of buf n j] by (metis add_left_cancel)

lemma buf_nonzero: "buf_ok buf n \<Longrightarrow> i \<le> n \<Longrightarrow> buf + of_nat i \<noteq> 0"
  using buf_addr [of buf n i] by (auto simp: buf_ok_def unat_eq_0 [symmetric])

lemma u32_less: "unat (w :: u32) < 2 ^ 32"
  by (rule order_less_le_trans [OF unsigned_less]) simp

section \<open>One piece of data\<close>

text \<open>
  What \<^verbatim>\<open>psmi_mq_req_copy\<close> does with the next piece of the message.
\<close>

lemma req_copy_progress:
  assumes re: "reassembling msg r mq" and bo: "buf_ok (req_buf (reqs mq r)) (unat (recv_msglen (reqs mq r)))"
    and pk: "packet_ok (req_buf (reqs mq r)) (unat (recv_msglen (reqs mq r))) (a, bs)"
    and nxt: "bs = take (length bs) (drop (unat (send_msgoff (reqs mq r))) msg)"
  obtains mq' where "psmi_mq_req_copy r a (of_nat (length bs)) (mq\<lparr>mq_mem := mem_write a bs (mq_mem mq)\<rparr>) = Inr mq'"
    "reassembling msg r mq'" "unat (send_msgoff (reqs mq' r)) = unat (send_msgoff (reqs mq r)) + length bs"
    "mq' = upd_req r (copied_req (of_nat (length bs))) (mq\<lparr>mq_mem := mq_mem mq'\<rparr>)"
proof -
  let ?q = "reqs mq r"
  let ?n = "of_nat (length bs) :: u32"
  let ?k = "copy_now ?q ?n"
  let ?buf = "req_buf ?q" and ?off = "unat (recv_msgoff ?q)" and ?rl = "unat (recv_msglen ?q)" and ?so = "unat (send_msgoff ?q)"
  note R = re [unfolded reassembling_def Let_def]
  have L: "length bs < 2 ^ 32" and n: "unat ?n = length bs" using pk by (simp_all add: packet_ok_def unat_of_nat)
  have lb: "length bs \<le> length msg - ?so" using nxt by (metis length_drop length_take min.bounded_iff order_refl)
  have so: "?so \<le> length msg" using R by (simp add: word_le_nat_alt)
  have off: "?off = min ?so ?rl" using R by (simp add: min_def word_le_nat_alt)
  have k: "unat ?k = min (?rl - ?off) (length bs)"
  proof -
    have "unat (recv_msglen ?q - recv_msgoff ?q) = ?rl - ?off" using off by (intro unat_sub) (simp add: word_le_nat_alt)
    then show ?thesis by (simp add: copy_now_def min_def word_le_nat_alt n)
  qed
  have ko: "unat ?k > 0 \<Longrightarrow> ?off = ?so" using k off by auto
  have dest: "?buf + ucast (recv_msgoff ?q) = ?buf + of_nat ?off" by (simp add: of_nat_unat)
  have ap: "apart (unat ?k) (?buf + of_nat ?off) a"
    unfolding apart_def
  proof (intro conjI allI impI)
    show "unat ?k < 2 ^ 64" using k L by simp
    fix i j assume "i < unat ?k" "j < unat ?k"
    then have "?off + i < ?rl" "j < length bs" using k by auto
    then have "?buf + of_nat (?off + i) \<noteq> a + of_nat j"
      using pk unfolding packet_ok_def fst_conv snd_conv by blast
    then show "?buf + of_nat ?off + of_nat i \<noteq> a + of_nat j" by (simp add: add.assoc)
  qed
  let ?m0 = "mem_write a bs (mq_mem mq)"
  let ?m1 = "mem_copy (unat ?k) (?buf + of_nat ?off) a ?m0"
  have nz: "?buf + of_nat ?off \<noteq> 0" "a \<noteq> 0" using buf_nonzero [OF bo, of ?off] off pk by (simp_all add: packet_ok_def)
  have c: "psmi_mq_req_copy r a ?n (mq\<lparr>mq_mem := ?m0\<rparr>) = Inr (upd_req r (copied_req ?n) (mq\<lparr>mq_mem := ?m1\<rparr>))"
    unfolding psmi_mq_req_copy_def Let_def
    using nz dest mtucpy_eq [OF ap, of ?m0] by (simp add: mq_mtucpy_def copy_now_def [symmetric] upd_req_def copied_req_def)
  have so': "unat (send_msgoff ?q + ?n) = ?so + length bs"
    using so lb R n u32_less [of "send_msglen ?q"] by (subst unat_plus_no_wrap) auto
  have off': "unat (recv_msgoff ?q + ?k) = ?off + unat ?k"
    using k off u32_less [of "recv_msglen ?q"] by (intro unat_plus_no_wrap) auto
  have re': "recv_msgoff ?q + ?k = min (send_msgoff ?q + ?n) (recv_msglen ?q)"
    by (rule word_unat_eq_iff [THEN iffD2]) (simp add: min_def word_le_nat_alt so' off' k off, arith)
  have mem: "?m1 (?buf + of_nat i) = msg ! i" if i: "i < ?off + unat ?k" for i
  proof (cases "i < ?off")
    case True
    have "?m1 (?buf + of_nat i) = ?m0 (?buf + of_nat i)"
    proof (rule mem_copy_other)
      fix j assume "j < unat ?k"
      then have "?off + j \<le> ?rl" "i \<noteq> ?off + j" using k True by auto
      then show "?buf + of_nat i \<noteq> ?buf + of_nat ?off + of_nat j"
        using buf_inj [OF bo, of i "?off + j"] True off by (simp add: add.assoc)
    qed
    also have "\<dots> = mq_mem mq (?buf + of_nat i)"
      using pk True off by (intro mem_write_other) (auto simp: packet_ok_def)
    finally show ?thesis using R True by simp
  next
    case False
    then obtain j where j: "i = ?off + j" "j < unat ?k" using i by (metis add_diff_inverse_nat nat_add_left_cancel_less)
    have "?m1 (?buf + of_nat i) = ?m0 (a + of_nat j)" using mem_copy_read [OF ap j(2), of ?m0] j(1) by (simp add: add.assoc)
    also have "\<dots> = bs ! j" using j k L by (intro mem_write_read) auto
    also have "\<dots> = take (length bs) (drop ?so msg) ! j" by (rule arg_cong [OF nxt, of "\<lambda>xs. xs ! j"])
    also have "\<dots> = msg ! (?so + j)" using j k by (simp only: nth_take nth_drop [OF so] min_less_iff_conj)
    also have "?so + j = i" using ko j by simp
    finally show ?thesis .
  qed
  show thesis
  proof (rule that [OF c])
    show "reassembling msg r (upd_req r (copied_req ?n) (mq\<lparr>mq_mem := ?m1\<rparr>))"
    proof -
      have F: "reqs (upd_req r (copied_req ?n) (mq\<lparr>mq_mem := ?m1\<rparr>)) r = copied_req ?n ?q"
        "mq_mem (upd_req r (copied_req ?n) (mq\<lparr>mq_mem := ?m1\<rparr>)) = ?m1" by simp_all
      have "send_msgoff ?q + ?n \<le> send_msglen ?q" 
        unfolding word_le_nat_alt so' using R [THEN conjunct1] lb so by linarith
      then show ?thesis unfolding reassembling_def Let_def F copied_req_fields off' using R re' mem by blast
    qed
  qed (simp_all add: so')
qed

text \<open>
  One packet: either more of the message is to come, or the request completes.
\<close>

lemma handle_data_progress:
  assumes inv: "mq_inv own mq" and ready: "eager_ready r ep mq" and re: "reassembling msg r mq"
    and bo: "buf_ok (req_buf (reqs mq r)) (unat (recv_msglen (reqs mq r)))"
    and pk: "packet_ok (req_buf (reqs mq r)) (unat (recv_msglen (reqs mq r))) (a, bs)"
    and nxt: "bs = take (length bs) (drop (unat (send_msgoff (reqs mq r))) msg)"
  obtains (more) rc mq' where
      "psmi_mq_handle_data r ep a (of_nat (length bs)) (mq\<lparr>mq_mem := mem_write a bs (mq_mem mq)\<rparr>) = Inr (rc, mq')"
      "unat (send_msgoff (reqs mq r)) + length bs < length msg"
      "unat (send_msgoff (reqs mq' r)) = unat (send_msgoff (reqs mq r)) + length bs"
      "mq_inv own mq'" "eager_ready r ep mq'" "reassembling msg r mq'" "completed_q mq' = completed_q mq"
      "req_buf (reqs mq' r) = req_buf (reqs mq r)" "recv_msglen (reqs mq' r) = recv_msglen (reqs mq r)"
      "req_state (reqs mq' r) = req_state (reqs mq r)"
  | (last) rc mq' where
      "psmi_mq_handle_data r ep a (of_nat (length bs)) (mq\<lparr>mq_mem := mem_write a bs (mq_mem mq)\<rparr>) = Inr (rc, mq')"
      "unat (send_msgoff (reqs mq r)) + length bs = length msg" "mq_inv own mq'"
      "req_state (reqs mq' r) = MQ_STATE_COMPLETE" "recv_msglen (reqs mq' r) = recv_msglen (reqs mq r)"
      "req_buf (reqs mq' r) = req_buf (reqs mq r)"
      "\<And>i. i < unat (recv_msglen (reqs mq r)) \<Longrightarrow> mq_mem mq' (req_buf (reqs mq r) + of_nat i) = msg ! i"
      "completed_q mq' = (if req_state (reqs mq r) = MQ_STATE_MATCHED then completed_q mq @ [r] else completed_q mq)"
proof -
  let ?n = "of_nat (length bs) :: u32"
  let ?mq0 = "mq\<lparr>mq_mem := mem_write a bs (mq_mem mq)\<rparr>"
  let ?so = "unat (send_msgoff (reqs mq r))"
  obtain mq1 where c: "psmi_mq_req_copy r a ?n ?mq0 = Inr mq1" and re1: "reassembling msg r mq1"
    and so1: "unat (send_msgoff (reqs mq1 r)) = ?so + length bs"
    and f: "mq1 = upd_req r (copied_req ?n) (mq\<lparr>mq_mem := mq_mem mq1\<rparr>)"
    using req_copy_progress [OF re bo pk nxt] by metis
  note st = eager_state [OF inv ready]
  have inv0: "mq_inv own ?mq0" using stats_frame [of ?mq0 mq own] inv by simp
  have ready0: "eager_ready r ep ?mq0" using ready by (simp add: eager_ready_def)
  have q1: "reqs mq1 r = copied_req ?n (reqs mq r)" by (subst f) simp
  have fr: "rreq_pool mq1 = rreq_pool mq" "egrlong mq1 = egrlong mq" "completed_q mq1 = completed_q mq" by (subst f, simp)+
  note R1 = re1 [unfolded reassembling_def Let_def]
  have sl: "unat (send_msglen (reqs mq1 r)) = length msg" "?so + length bs \<le> length msg"
    using R1 so1 by (simp_all add: word_le_nat_alt)
  show thesis
  proof (cases "?so + length bs = length msg")
    case False
    then have ne: "send_msgoff (reqs mq1 r) \<noteq> send_msglen (reqs mq1 r)" using so1 sl by metis
    then have h: "\<exists>rc. psmi_mq_handle_data r ep a ?n ?mq0 = Inr (rc, mq1)"
      unfolding psmi_mq_handle_data_def Let_def c by auto
    then obtain rc where h: "psmi_mq_handle_data r ep a ?n ?mq0 = Inr (rc, mq1)" by blast
    have er: "eager_ready r ep mq1" using ready by (simp add: eager_ready_def q1 fr)
    show ?thesis
      by (rule more [OF h _ so1 handle_data_inv [OF inv0 ready0 h] er re1])
        (use False sl(2) q1 fr in simp_all)
  next
    case True
    then have eq: "send_msgoff (reqs mq1 r) = send_msglen (reqs mq1 r)" using so1 sl by (metis word_unat_eq_iff)
    have "\<exists>mq2. (if req_type (reqs mq1 r) AND MQE_TYPE_EGRLONG \<noteq> 0
        then egrlong_remove_head ep (egr_flowid (egrid (reqs mq1 r))) mq1 else Inr mq1) = Inr mq2 \<and>
        reqs mq2 = reqs mq1 \<and> completed_q mq2 = completed_q mq \<and> mq_mem mq2 = mq_mem mq1"
    proof (cases "req_type (reqs mq1 r) AND MQE_TYPE_EGRLONG = 0")
      case True
      then show ?thesis by (simp add: fr)
    next
      case False
      then obtain rest where "egrlong mq ep (egr_flowid (egrid (reqs mq r))) = r # rest" using ready q1 by (auto simp: eager_ready_def)
      then have "egrlong mq1 ep (egr_flowid (egrid (reqs mq1 r))) = r # rest" by (simp add: q1 fr)
      then show ?thesis using False by (simp add: egrlong_remove_head_def fr)
    qed
    then obtain mq2 where mq2: "(if req_type (reqs mq1 r) AND MQE_TYPE_EGRLONG \<noteq> 0
        then egrlong_remove_head ep (egr_flowid (egrid (reqs mq1 r))) mq1 else Inr mq1) = Inr mq2"
        "reqs mq2 = reqs mq1" "completed_q mq2 = completed_q mq" "mq_mem mq2 = mq_mem mq1" by blast
    let ?fin = "upd_req r (\<lambda>q. q\<lparr>req_state := MQ_STATE_COMPLETE\<rparr>) mq2"
    let ?mq' = "if req_state (reqs mq r) = MQ_STATE_MATCHED then completed_append r ?fin else ?fin"
    have "\<exists>rc. psmi_mq_handle_data r ep a ?n ?mq0 = Inr (rc, ?mq')"
      unfolding psmi_mq_handle_data_def Let_def c using eq mq2(1,2)
      by (cases "req_state (reqs mq r) = MQ_STATE_MATCHED") (simp_all add: q1)
    then obtain rc where h: "psmi_mq_handle_data r ep a ?n ?mq0 = Inr (rc, ?mq')" by blast
    have "recv_msgoff (reqs mq1 r) = recv_msglen (reqs mq1 r)" using R1 eq by (simp add: min_absorb2)
    then have "\<And>i. i < unat (recv_msglen (reqs mq r)) \<Longrightarrow> mq_mem mq1 (req_buf (reqs mq r) + of_nat i) = msg ! i"
      using R1 by (simp add: q1)
    then show ?thesis
      by (intro last [OF h True handle_data_inv [OF inv0 ready0 h]]) (simp_all add: mq2 q1)
  qed
qed

section \<open>All pieces\<close>

definition packets_ok :: "u64 \<Rightarrow> nat \<Rightarrow> (u64 \<times> u8 list) list \<Rightarrow> bool" where
  "packets_ok buf n ps \<longleftrightarrow> buf_ok buf n \<and> (\<forall>p \<in> set ps. packet_ok buf n p)"

lemma concat_prefix: "bs @ cs = drop n xs \<Longrightarrow> bs = take (length bs) (drop n xs) \<and> cs = drop (n + length bs) xs"
  by (metis append_eq_conv_conj drop_drop add.commute)

lemma deliver_all:
  assumes "mq_inv own mq" "eager_ready r ep mq" "reassembling msg r mq"
    "packets_ok (req_buf (reqs mq r)) (unat (recv_msglen (reqs mq r))) ps" "ps \<noteq> []"
    "concat (map snd ps) = drop (unat (send_msgoff (reqs mq r))) msg"
  shows "\<exists>mq'. deliver r ep ps mq = Inr mq' \<and> mq_inv own mq' \<and> req_state (reqs mq' r) = MQ_STATE_COMPLETE \<and>
      recv_msglen (reqs mq' r) = recv_msglen (reqs mq r) \<and> req_buf (reqs mq' r) = req_buf (reqs mq r) \<and>
      (\<forall>i < unat (recv_msglen (reqs mq r)). mq_mem mq' (req_buf (reqs mq r) + of_nat i) = msg ! i) \<and>
      completed_q mq' = (if req_state (reqs mq r) = MQ_STATE_MATCHED then completed_q mq @ [r] else completed_q mq)"
  using assms
proof (induction ps arbitrary: mq)
  case (Cons p ps)
  obtain a bs where p: "p = (a, bs)" by (cases p)
  let ?so = "unat (send_msgoff (reqs mq r))"
  note C = concat_prefix [of bs "concat (map snd ps)" ?so msg]
  have nxt: "bs = take (length bs) (drop ?so msg)" and rest: "concat (map snd ps) = drop (?so + length bs) msg"
    using C Cons.prems(6) p by simp_all
  have ok: "buf_ok (req_buf (reqs mq r)) (unat (recv_msglen (reqs mq r)))"
    "packet_ok (req_buf (reqs mq r)) (unat (recv_msglen (reqs mq r))) (a, bs)"
    using Cons.prems(4) p by (simp_all add: packets_ok_def)
  show ?case
  proof (rule handle_data_progress [OF Cons.prems(1-3) ok nxt])
    fix rc mq' assume m: "psmi_mq_handle_data r ep a (word_of_nat (length bs)) (mq\<lparr>mq_mem := mem_write a bs (mq_mem mq)\<rparr>) = Inr (rc, mq')"
      "?so + length bs < length msg" "unat (send_msgoff (reqs mq' r)) = ?so + length bs"
      "mq_inv own mq'" "eager_ready r ep mq'" "reassembling msg r mq'" "completed_q mq' = completed_q mq"
      "req_buf (reqs mq' r) = req_buf (reqs mq r)" "recv_msglen (reqs mq' r) = recv_msglen (reqs mq r)"
      "req_state (reqs mq' r) = req_state (reqs mq r)"
    have "ps \<noteq> []" using rest m(2) by auto
    moreover have "packets_ok (req_buf (reqs mq' r)) (unat (recv_msglen (reqs mq' r))) ps"
      using Cons.prems(4) m(8,9) by (simp add: packets_ok_def)
    moreover have "concat (map snd ps) = drop (unat (send_msgoff (reqs mq' r))) msg" using rest m(3) by simp
    ultimately show ?thesis using Cons.IH [OF m(4-6)] m p by (simp split del: if_split cong: if_cong)
  next
    fix rc mq' assume l: "psmi_mq_handle_data r ep a (word_of_nat (length bs)) (mq\<lparr>mq_mem := mem_write a bs (mq_mem mq)\<rparr>) = Inr (rc, mq')"
      "?so + length bs = length msg" "mq_inv own mq'"
      "req_state (reqs mq' r) = MQ_STATE_COMPLETE" "recv_msglen (reqs mq' r) = recv_msglen (reqs mq r)"
      "req_buf (reqs mq' r) = req_buf (reqs mq r)"
      "\<And>i. i < unat (recv_msglen (reqs mq r)) \<Longrightarrow> mq_mem mq' (req_buf (reqs mq r) + word_of_nat i) = msg ! i"
      "completed_q mq' = (if req_state (reqs mq r) = MQ_STATE_MATCHED then completed_q mq @ [r] else completed_q mq)"
    have "concat (map snd ps) = []" using rest l(2) by simp
    moreover have "\<forall>p \<in> set ps. snd p \<noteq> []" using Cons.prems(4) by (auto simp: packets_ok_def packet_ok_def)
    ultimately have "ps = []" by (cases ps) auto
    then show ?thesis using l p by simp
  qed
qed simp

text \<open>A receive in the middle of a reassembly moves what has arrived into the user's buffer.\<close>

lemma irecv_reassembling:
  assumes inv: "mq_inv own mq" and m: "unexpected_match tag tagsel True mq = (Some r, off_unexpected r mq)"
    and st: "req_state (reqs mq r) = MQ_STATE_UNEXP" and re: "reassembling msg r mq"
    and full: "recv_msglen (reqs mq r) = send_msglen (reqs mq r)"
    and ap: "apart (unat (recv_msgoff (reqs mq r))) buf (req_buf (reqs mq r))"
    and h: "psm_mq_irecv rts_cb env tag tagsel buf len ctx mq = Inr (e, r', mq')"
  shows "r' = r" "reassembling msg r mq'" "req_state (reqs mq' r) = MQ_STATE_MATCHED"
    "req_buf (reqs mq' r) = buf" "recv_msglen (reqs mq' r) = min len (send_msglen (reqs mq r))"
    "send_msgoff (reqs mq' r) = send_msgoff (reqs mq r)" "send_msglen (reqs mq' r) = send_msglen (reqs mq r)"
    "egrlong mq' = egrlong mq" "rreq_pool mq' = rreq_pool mq" "req_type (reqs mq' r) = req_type (reqs mq r)"
    "egrid (reqs mq' r) = egrid (reqs mq r)" "completed_q mq' = completed_q mq"
proof -
  let ?q = "reqs mq r"
  let ?u = "\<lambda>q. (received_req ctx len q)\<lparr>recv_msgoff := min (recv_msgoff q) (min len (send_msglen q))\<rparr>"
  let ?k = "min (recv_msgoff ?q) (min len (send_msglen ?q))"
  note R = re [unfolded reassembling_def Let_def]
  obtain mq2 mq3 where c: "mq_mtucpy buf (req_buf ?q) ?k (upd_req r ?u (off_unexpected r mq)) = Inr mq2"
    and d: "mq_sysbuf_free (req_buf ?q) mq2 = Inr mq3"
    and mq': "mq' = upd_req r (\<lambda>q. q\<lparr>req_state := MQ_STATE_MATCHED, req_buf := buf, req_buf_len := len\<rparr>) mq3"
    using h unfolding irecv_unexp [OF m st] by auto
  show r': "r' = r" using h unfolding irecv_unexp [OF m st] by auto
  have F: "mq2 = (upd_req r ?u (off_unexpected r mq))\<lparr>mq_mem := mq_mem mq2\<rparr>" by (rule mtucpy_frame [OF c])
  have G: "reqs mq3 = reqs mq2" "mq_mem mq3 = mq_mem mq2" "egrlong mq3 = egrlong mq2" "rreq_pool mq3 = rreq_pool mq2" "completed_q mq3 = completed_q mq2"
    using d by (auto simp: mq_sysbuf_free_def)
  have q2: "reqs mq2 r = ?u ?q" "egrlong mq2 = egrlong mq" "rreq_pool mq2 = rreq_pool mq" "completed_q mq2 = completed_q mq" by (subst F, simp)+
  have q': "reqs mq' r = (?u ?q)\<lparr>req_state := MQ_STATE_MATCHED, req_buf := buf, req_buf_len := len\<rparr>" by (simp add: mq' G q2)
  have k: "unat ?k \<le> unat (recv_msgoff ?q)" by (simp add: word_le_nat_alt [symmetric])
  have mem: "mq_mem mq' = mem_copy (unat ?k) buf (req_buf ?q) (mq_mem mq)"
    using mtucpy_mem [OF apart_less [OF ap k] c] by (simp add: mq' G)
  have kk: "?k = min (send_msgoff ?q) (min len (send_msglen ?q))" using R full by (simp add: min_absorb1)
  have "mq_mem mq' (buf + of_nat i) = msg ! i" if "i < unat ?k" for i
    using mem_copy_read [OF apart_less [OF ap k] that, of "mq_mem mq"] R that k by (simp add: mem)
  then show "reassembling msg r mq'" unfolding reassembling_def Let_def q' using R kk by simp
  show "req_state (reqs mq' r) = MQ_STATE_MATCHED" "req_buf (reqs mq' r) = buf" "recv_msglen (reqs mq' r) = min len (send_msglen ?q)"
    "send_msgoff (reqs mq' r) = send_msgoff ?q" "send_msglen (reqs mq' r) = send_msglen ?q" "req_type (reqs mq' r) = req_type ?q"
    "egrid (reqs mq' r) = egrid ?q" unfolding q' by simp_all
  show "egrlong mq' = egrlong mq" "rreq_pool mq' = rreq_pool mq" "completed_q mq' = completed_q mq" by (simp_all add: mq' G q2)
qed

text \<open>A long message that finds its receive posted.\<close>

lemma account_frames:
  "reassembling msg r (rx_user_account n mq) = reassembling msg r mq"
  "eager_ready r ep (rx_user_account n mq) = eager_ready r ep mq"
  by (simp_all add: reassembling_def eager_ready_def Let_def)

lemma long_matched_start:
  assumes inv: "mq_inv own mq" and r: "r \<in> set (expected_q mq)" and e: "egrlong mq ep (egr_flowid eid) = []"
    and l: "unat slen = length msg"
  shows "mq_inv own (long_matched ep eid r tag slen mq)" "eager_ready r ep (long_matched ep eid r tag slen mq)"
    "reassembling msg r (long_matched ep eid r tag slen mq)"
  using long_matched_inv [OF inv r] expected_posted(1) [OF inv r] l e long_matched_fields [of ep eid r tag slen mq]
  by (simp_all add: eager_ready_def reassembling_def Let_def)

text \<open>A long message that finds no receive: the first packet starts the reassembly in a system buffer.\<close>

lemma unexpected_long_start:
  assumes inv: "mq_inv own mq" and env: "env_ok own env mq" and len: "unat slen = length msg"
    and bs: "bs = take (length bs) msg" "bs \<noteq> []" "length bs < length msg" and e: "egrlong mq ep (egr_flowid eid) = []"
    and sb: "\<And>b sb. psmi_mq_sysbuf_alloc (heap env) slen (sysbufs mq) = Inr (Some b, sb) \<Longrightarrow> packets_ok b (length msg) [(a, bs)]"
    and g: "psmi_mpool_get (pool_chunk env) (rreq_pool mq) = Inr (Some r, p)"
    and al': "\<And>sb'. psmi_mq_sysbuf_alloc (heap env) slen (sysbufs mq) \<noteq> Inr (None, sb')"
  obtains mq' where "psmi_mq_handle_envelope_unexpected ucb env MQ_MSG_LONG ep tag eid slen a (of_nat (length bs))
        (mq\<lparr>mq_mem := mem_write a bs (mq_mem mq)\<rparr>) = Inr (MQ_RET_UNEXP_OK, mq')"
    "unexpected_q mq' = unexpected_q mq @ [r]" "r \<notin> rlive mq \<union> slive mq" "req_state (reqs mq' r) = MQ_STATE_UNEXP"
    "reassembling msg r mq'" "recv_msglen (reqs mq' r) = slen" "send_msglen (reqs mq' r) = slen" "req_tag (reqs mq' r) = tag"
    "eager_ready r ep mq'" "unat (send_msgoff (reqs mq' r)) = length bs" "mq_inv own mq'" "completed_q mq' = completed_q mq"
    "\<exists>sb. psmi_mq_sysbuf_alloc (heap env) slen (sysbufs mq) = Inr (Some (req_buf (reqs mq' r)), sb)"
    "rreq_pool mq' = p" "sreq_pool mq' = sreq_pool mq"
proof -
  let ?mq0 = "mq\<lparr>mq_mem := mem_write a bs (mq_mem mq)\<rparr>"
  let ?n = "of_nat (length bs) :: u32"
  define mq1 where p2: "mq1 = upd_req r (fresh_req MQE_TYPE_RECV) (?mq0\<lparr>rreq_pool := p\<rparr>)"
  have ra: "psmi_mq_req_alloc env MQE_TYPE_RECV ?mq0 = Inr (r, mq1)"
    using g by (simp add: psmi_mq_req_alloc_def mqe_type_defs p2 fresh_req_def [abs_def])
  note p = g p2
  have inv0: "mq_inv own ?mq0" using stats_frame [of ?mq0 mq own] inv by simp
  have env0: "env_ok own env ?mq0" using env by (simp add: env_ok_def req_env_ok_def owned_bufs_def owners_def)
  note A = alloc_recv_inv [OF inv0 env_ok_req [OF env0] ra]
  have "heap_ok (heap env) (sysbufs mq) (owned_bufs mq \<union> own)" "sysbuf_inv (sysbufs mq) (owned_bufs mq \<union> own)"
    using env mq_invD(5) [OF inv] by (simp_all add: env_ok_def bufs_ok_def)
  then obtain x0 s where x0: "psmi_mq_sysbuf_alloc (heap env) slen (sysbufs mq) = Inr (x0, s)" by (metis alloc_cases)
  then obtain b where xb: "x0 = Some b" using al' by (cases x0) auto
  define mq3 where x3: "mq3 = upd_req r (\<lambda>q. (unexp_req tag slen q)\<lparr>egrid := eid, send_msgoff := 0\<rparr>) mq1\<lparr>sysbufs := s\<rparr>"
  have sa: "mq_sysbuf_alloc env slen (upd_req r (\<lambda>q. (unexp_req tag slen q)\<lparr>egrid := eid, send_msgoff := 0\<rparr>) mq1) = Inr (b, mq3)"
    using x0 xb by (simp add: mq_sysbuf_alloc_def x3 p2)
  note x = x0 xb x3
  note pk = sb [OF x0 [unfolded xb]]
  let ?mq4 = "egrlong_insert_tail ep (egr_flowid eid) r
        (upd_req r (\<lambda>q. q\<lparr>req_buf := b, req_state := MQ_STATE_UNEXP, req_type := req_type q OR MQE_TYPE_EGRLONG\<rparr>)
          (mq3\<lparr>mq_mem := mq_mem mq\<rparr>))"
  let ?q4 = "(unexp_req tag slen (fresh_req MQE_TYPE_RECV (reqs mq r)))\<lparr>egrid := eid, send_msgoff := 0, req_buf := b, req_state := MQ_STATE_UNEXP,
       req_type := MQE_TYPE_RECV OR MQE_TYPE_EGRLONG\<rparr>"
  have q4: "reqs ?mq4 r = ?q4" by (simp add: x3 p2)
  have m4: "mq_mem ?mq4 = mq_mem mq" by simp
  have re: "reassembling msg r ?mq4" unfolding reassembling_def Let_def q4 using len by simp
  have ok: "buf_ok (req_buf (reqs ?mq4 r)) (unat (recv_msglen (reqs ?mq4 r)))" "packet_ok (req_buf (reqs ?mq4 r)) (unat (recv_msglen (reqs ?mq4 r))) (a, bs)"
    using pk len by (simp_all only: q4) (simp_all add: packets_ok_def)
  have nxt: "bs = take (length bs) (drop (unat (send_msgoff (reqs ?mq4 r))) msg)" unfolding q4 using bs(1) by simp
  obtain mq6 where c: "psmi_mq_req_copy r a ?n (?mq4\<lparr>mq_mem := mem_write a bs (mq_mem ?mq4)\<rparr>) = Inr mq6" and re6: "reassembling msg r mq6"
    and so6: "unat (send_msgoff (reqs mq6 r)) = unat (send_msgoff (reqs ?mq4 r)) + length bs"
    and f6: "mq6 = upd_req r (copied_req ?n) (?mq4\<lparr>mq_mem := mq_mem mq6\<rparr>)"
    by (rule req_copy_progress [OF re ok nxt])
  have same: "?mq4\<lparr>mq_mem := mem_write a bs (mq_mem ?mq4)\<rparr> = egrlong_insert_tail ep (egr_flowid eid) r
        (upd_req r (\<lambda>q. q\<lparr>req_buf := b, req_state := MQ_STATE_UNEXP, req_type := req_type q OR MQE_TYPE_EGRLONG\<rparr>) mq3)"
    by (simp add: x3 p2 upd_req_def egrlong_insert_tail_def)
  have q6: "reqs mq6 r = copied_req ?n ?q4" by (subst f6) (simp add: x3 p2)
  have so: "unat (send_msgoff (reqs mq6 r)) = length bs" using so6 unfolding q4 by simp
  have sl: "send_msglen (reqs mq6 r) = slen" by (simp add: q6)
  have "send_msgoff (reqs mq6 r) \<noteq> send_msglen (reqs mq6 r)" using so bs(3) len by (auto simp: sl)
  then have hd: "\<exists>rc. psmi_mq_handle_data r ep a ?n (egrlong_insert_tail ep (egr_flowid eid) r
        (upd_req r (\<lambda>q. q\<lparr>req_buf := b, req_state := MQ_STATE_UNEXP, req_type := req_type q OR MQE_TYPE_EGRLONG\<rparr>) mq3)) = Inr (rc, mq6)"
    using c unfolding same psmi_mq_handle_data_def Let_def by auto
  define mq' where mq'_def: "mq' = mq6\<lparr>unexpected_q := unexpected_q mq6 @ [r], stats := (stats mq6)\<lparr>rx_sys_bytes := rx_sys_bytes (stats mq6) + ucast slen,
      rx_sys_num := rx_sys_num (stats mq6) + 1\<rparr>\<rparr>"
  have U: "upd_req r (\<lambda>q. q\<lparr>egrid := eid, send_msgoff := 0\<rparr>)
      (upd_req r (\<lambda>q. q\<lparr>req_tag := tag, recv_msgoff := 0, recv_msglen := slen, send_msglen := slen, req_buf_len := slen\<rparr>) mq1) =
    upd_req r (\<lambda>q. (unexp_req tag slen q)\<lparr>egrid := eid, send_msgoff := 0\<rparr>) mq1"
    by (simp add: upd_req_def unexp_req_def)
  have h: "psmi_mq_handle_envelope_unexpected ucb env MQ_MSG_LONG ep tag eid slen a ?n ?mq0 = Inr (MQ_RET_UNEXP_OK, mq')"
    using ra sa hd by (auto simp: psmi_mq_handle_envelope_unexpected_def Let_def U mq'_def)
  note mq' = mq'_def
  have F: "unexpected_q mq6 = unexpected_q mq" "rreq_pool mq6 = p" "sreq_pool mq6 = sreq_pool mq" "egrlong mq6 ep (egr_flowid eid) = [r]" "completed_q mq6 = completed_q mq"
    by (subst f6, simp add: x3 p2 egrlong_insert_tail_def e)+
  have Q: "reqs mq' = reqs mq6" "mq_mem mq' = mq_mem mq6" "rreq_pool mq' = p" "sreq_pool mq' = sreq_pool mq"
    "unexpected_q mq' = unexpected_q mq @ [r]" "egrlong mq' = egrlong mq6" "completed_q mq' = completed_q mq" by (simp_all add: mq' F)
  have rl: "rlive mq' = insert r (rlive mq)" using A(4) by (simp add: Q p2)
  have n0: "?n \<noteq> 0" "?n \<noteq> slen" using bs(2,3) len so q6 pk by (auto simp: packets_ok_def packet_ok_def unat_of_nat dest: arg_cong [where f = unat])
  show thesis
  proof (rule that [OF h])
    show "mq_inv own mq'"
      by (rule unexpected_long_inv [OF inv0 env0 _ h]) (use n0 len bs in \<open>auto simp: envelope_ok_def e\<close>)
    show "reassembling msg r mq'" using re6 by (simp add: reassembling_def Q)
    show "eager_ready r ep mq'" using rl F(4) by (simp add: eager_ready_def Q q6)
    show "\<exists>sb. psmi_mq_sysbuf_alloc (heap env) slen (sysbufs mq) = Inr (Some (req_buf (reqs mq' r)), sb)" using x0 xb by (simp add: Q q6)
    show "req_tag (reqs mq' r) = tag" by (simp add: Q q6) (simp add: copied_req_def)
  qed (use A(2,3) p(1) so in \<open>simp_all add: Q q6 sl\<close>)
qed

section \<open>Properties\<close>

text \<open>
  C11: An eager message in several packets that arrives while its receive is not posted yet is kept in a
  system buffer; if the receive comes after some of the packets and the rest of them is delivered then, every call
  returns, the request completes exactly once, the user's buffer holds the message as far as it fits, and the status
  reports that length and whether the message was truncated.
\<close>

theorem eager_receive_midway:
  assumes "mq_inv own mq" "req_env_ok env mq" "eager_ready r ep mq" "reassembling msg r mq"
    "req_state (reqs mq r) = MQ_STATE_UNEXP" "recv_msglen (reqs mq r) = send_msglen (reqs mq r)"
    "unexpected_match tag tagsel True mq = (Some r, off_unexpected r mq)"
    "apart (unat (recv_msgoff (reqs mq r))) buf (req_buf (reqs mq r))"
    "packets_ok buf (unat (min len (send_msglen (reqs mq r)))) ps" "ps \<noteq> []"
    "concat (map snd ps) = drop (unat (send_msgoff (reqs mq r))) msg"
  shows "\<exists>mq1 mq2. psm_mq_irecv (\<lambda>cb r posted mq. Inr mq) env tag tagsel buf len ctx mq = Inr (PSM_OK, r, mq1) \<and>
    deliver r ep ps mq1 = Inr mq2 \<and> mq_inv own mq2 \<and>
    req_state (reqs mq2 r) = MQ_STATE_COMPLETE \<and> completed_q mq2 = completed_q mq @ [r] \<and>
    recv_msglen (reqs mq2 r) = min len (send_msglen (reqs mq r)) \<and>
    (\<forall>i < unat (min len (send_msglen (reqs mq r))). mq_mem mq2 (buf + of_nat i) = msg ! i)"
proof -
  have r: "r \<in> set (unexpected_q mq)"
    using assms(7) by (cases rule: unexpected_match_cases [of tag tagsel True mq]) auto
  have "buf \<noteq> 0" using assms(9) by (simp add: packets_ok_def buf_ok_def)
  then obtain x mq1 where h0: "psm_mq_irecv (\<lambda>cb r posted mq. Inr mq) env tag tagsel buf len ctx mq = Inr (PSM_OK, x, mq1)"
    using irecv_found_returns [OF assms(1) _ r assms(7)] by blast
  note I = irecv_reassembling [OF assms(1,7,5,4,6,8) h0]
  have h: "psm_mq_irecv (\<lambda>cb r posted mq. Inr mq) env tag tagsel buf len ctx mq = Inr (PSM_OK, r, mq1)" using h0 I(1) by simp
  have inv1: "mq_inv own mq1" by (rule irecv_inv [OF assms(1,2) _ h]) simp
  have e: "req_type (reqs mq r) AND MQE_TYPE_EGRLONG \<noteq> 0" using eager_state(4) [OF assms(1,3,5)] .
  have ready: "eager_ready r ep mq1" using assms(3) e I(8-11) by (simp add: eager_ready_def)
  have pk: "packets_ok (req_buf (reqs mq1 r)) (unat (recv_msglen (reqs mq1 r))) ps" using assms(9) I(4,5) by simp
  have "concat (map snd ps) = drop (unat (send_msgoff (reqs mq1 r))) msg" using assms(11) I(6) by simp
  from deliver_all [OF inv1 ready I(2) pk assms(10) this] h show ?thesis by (auto simp: I(3-5,12))
qed

text \<open>
  C10: An eager message in one or more packets that finds its receive posted completes that receive, exactly once and only with
  the last packet: the user's buffer then holds the message as far as it fits.
\<close>

theorem eager_posted_delivered:
  assumes inv: "mq_inv own mq" and m: "expected_match tag mq = (Some r, mq\<lparr>expected_q := remove1 r (expected_q mq)\<rparr>)"
    and e: "egrlong mq ep (egr_flowid eid) = []" and l: "unat slen = length msg"
    and pk: "packets_ok (req_buf (reqs mq r)) (unat (min (req_buf_len (reqs mq r)) slen)) ((a, bs) # ps)"
    and cat: "bs @ concat (map snd ps) = msg"
  shows "\<exists>mq1 mq2. psmi_mq_handle_envelope ucb env MQ_MSG_LONG ep tag eid slen a (of_nat (length bs))
        (mq\<lparr>mq_mem := mem_write a bs (mq_mem mq)\<rparr>) = Inr (MQ_RET_MATCH_OK, mq1) \<and>
    deliver r ep ps mq1 = Inr mq2 \<and> mq_inv own mq2 \<and> req_state (reqs mq2 r) = MQ_STATE_COMPLETE \<and>
    completed_q mq2 = completed_q mq @ [r] \<and> (ps \<noteq> [] \<longrightarrow> completed_q mq1 = completed_q mq) \<and>
    (\<forall>i < unat (min (req_buf_len (reqs mq r)) slen). mq_mem mq2 (req_buf (reqs mq r) + of_nat i) = msg ! i)"
proof -
  let ?mq0 = "mq\<lparr>mq_mem := mem_write a bs (mq_mem mq)\<rparr>"
  let ?L = "long_matched ep eid r tag slen mq"
  let ?n = "min (req_buf_len (reqs mq r)) slen"
  have r: "r \<in> set (expected_q mq)" using m by (cases rule: expected_match_cases [of tag mq]) auto
  have fd: "find (\<lambda>c. (tag XOR req_tag (reqs mq c)) AND req_tagsel (reqs mq c) = 0) (expected_q mq) = Some r"
    using m by (cases rule: expected_match_cases [of tag mq]) auto
  note S = long_matched_start [OF inv r e l, of tag]
  have L: "req_buf (reqs ?L r) = req_buf (reqs mq r)" "recv_msglen (reqs ?L r) = ?n" "send_msgoff (reqs ?L r) = 0"
    "req_state (reqs ?L r) = MQ_STATE_MATCHED" using long_matched_fields(3) [of ep eid r tag slen mq] by simp_all
  have F: "completed_q ?L = completed_q mq" "mq_mem ?L = mq_mem mq" by (simp_all add: long_matched_def)
  have "expected_match tag ?mq0 = (Some r, ?mq0\<lparr>expected_q := remove1 r (expected_q ?mq0)\<rparr>)"
    by (simp add: expected_match_def list_search_remove_def fd)
  moreover have "long_matched ep eid r tag slen ?mq0 = ?L\<lparr>mq_mem := mem_write a bs (mq_mem ?L)\<rparr>"
    by (simp add: long_matched_def egrlong_insert_tail_def upd_req_def)
  ultimately have h: "psmi_mq_handle_envelope ucb env MQ_MSG_LONG ep tag eid slen a (of_nat (length bs)) ?mq0 =
      run_bind (psmi_mq_handle_data r ep a (of_nat (length bs)) (?L\<lparr>mq_mem := mem_write a bs (mq_mem ?L)\<rparr>))
       (\<lambda>(_, mq'). Inr (MQ_RET_MATCH_OK, rx_user_account ?n mq'))" by (simp add: handle_envelope_long)
  have ok: "buf_ok (req_buf (reqs ?L r)) (unat (recv_msglen (reqs ?L r)))" "packet_ok (req_buf (reqs ?L r)) (unat (recv_msglen (reqs ?L r))) (a, bs)"
    using pk by (simp_all add: packets_ok_def L)
  have nxt: "bs = take (length bs) (drop (unat (send_msgoff (reqs ?L r))) msg)" using cat L(3) by auto
  show ?thesis
  proof (rule handle_data_progress [OF S ok nxt])
    fix rc mq' assume a: "psmi_mq_handle_data r ep a (of_nat (length bs)) (?L\<lparr>mq_mem := mem_write a bs (mq_mem ?L)\<rparr>) = Inr (rc, mq')"
      "unat (send_msgoff (reqs ?L r)) + length bs < length msg"
      "unat (send_msgoff (reqs mq' r)) = unat (send_msgoff (reqs ?L r)) + length bs"
      "mq_inv own mq'" "eager_ready r ep mq'" "reassembling msg r mq'" "completed_q mq' = completed_q ?L"
      "req_buf (reqs mq' r) = req_buf (reqs ?L r)" "recv_msglen (reqs mq' r) = recv_msglen (reqs ?L r)"
      "req_state (reqs mq' r) = req_state (reqs ?L r)"
    let ?mq1 = "rx_user_account ?n mq'"
    have ne: "ps \<noteq> []" using a(2) cat by (auto simp: L(3))
    have "concat (map snd ps) = drop (unat (send_msgoff (reqs ?mq1 r))) msg" using cat a(3) L(3) by auto
    moreover have "packets_ok (req_buf (reqs ?mq1 r)) (unat (recv_msglen (reqs ?mq1 r))) ps" using pk a(8,9) L by (simp add: packets_ok_def)
    moreover have "mq_inv own ?mq1" "eager_ready r ep ?mq1" "reassembling msg r ?mq1"
      using account_inv [OF a(4)] a(5,6) by (simp_all add: account_frames)
    ultimately obtain mq2 where "deliver r ep ps ?mq1 = Inr mq2" "mq_inv own mq2" "req_state (reqs mq2 r) = MQ_STATE_COMPLETE"
      "\<forall>i < unat ?n. mq_mem mq2 (req_buf (reqs mq r) + of_nat i) = msg ! i" "completed_q mq2 = completed_q mq @ [r]"
      using deliver_all [of own ?mq1 r ep msg ps] ne a L F by auto
    then show ?thesis using h a(1,7) F by simp
  next
    fix rc mq' assume a: "psmi_mq_handle_data r ep a (of_nat (length bs)) (?L\<lparr>mq_mem := mem_write a bs (mq_mem ?L)\<rparr>) = Inr (rc, mq')"
      "unat (send_msgoff (reqs ?L r)) + length bs = length msg" "mq_inv own mq'"
      "req_state (reqs mq' r) = MQ_STATE_COMPLETE" "recv_msglen (reqs mq' r) = recv_msglen (reqs ?L r)"
      "req_buf (reqs mq' r) = req_buf (reqs ?L r)"
      "\<And>i. i < unat (recv_msglen (reqs ?L r)) \<Longrightarrow> mq_mem mq' (req_buf (reqs ?L r) + of_nat i) = msg ! i"
      "completed_q mq' = (if req_state (reqs ?L r) = MQ_STATE_MATCHED then completed_q ?L @ [r] else completed_q ?L)"
    have "length bs = length msg" using a(2) by (simp add: L(3))
    then have "concat (map snd ps) = []" using cat by (metis append_eq_append_conv append_Nil2)
    moreover have "\<forall>p \<in> set ps. snd p \<noteq> []" using pk by (auto simp: packets_ok_def packet_ok_def)
    ultimately have "ps = []" by (cases ps) auto
    then show ?thesis using h a account_inv [OF a(3)] L F by simp
  qed
qed

lemma packet_far:
  assumes "unat buf + n \<le> unat a" "unat a + length bs < 2 ^ 64" "a \<noteq> 0" "bs \<noteq> []" "length bs < 2 ^ 32"
  shows "packet_ok buf n (a, bs)"
  unfolding packet_ok_def fst_conv snd_conv
proof (intro conjI allI impI)
  fix i j assume ij: "i < n" "j < length bs"
  have "unat (buf + of_nat i) = unat buf + i" if "buf \<noteq> 0"
    using buf_addr [of buf n i] assms(1,2) ij(1) that by (simp add: buf_ok_def)
  moreover have "unat (of_nat i :: u64) = i" using assms(1,2) ij(1) by (simp add: unat_of_nat)
  ultimately have "unat (buf + of_nat i) = unat buf + i" by (cases "buf = 0") auto
  moreover have "unat (a + of_nat j) = unat a + j"
    using buf_addr [of a "length bs" j] assms(2,3) ij(2) by (simp add: buf_ok_def)
  ultimately show "buf + of_nat i \<noteq> a + of_nat j" using assms(1) ij by auto
qed (use assms in simp_all)

theorem eager_posted_delivered_witness:
  "\<exists>mq1 mq2. psmi_mq_handle_envelope (\<lambda>_. Inr) demo_env MQ_MSG_LONG 1 7 \<lparr>egr_flowid = 0, egr_msgno = 0\<rparr> 6 0x18000 4
       (demo_posted\<lparr>mq_mem := mem_write 0x18000 [1, 2, 3, 4] (mq_mem demo_posted)\<rparr>) = Inr (MQ_RET_MATCH_OK, mq1) \<and>
     deliver 0x10c0 1 [(0x19000, [5, 6])] mq1 = Inr mq2 \<and> completed_q mq1 = [] \<and> completed_q mq2 = [0x10c0] \<and>
     (\<forall>i < 6. mq_mem mq2 (0x9000 + of_nat i) = [1, 2, 3, 4, 5, 6] ! i)"
proof -
  have f: "egrlong demo_posted = (\<lambda>_ _. [])" "req_buf (reqs demo_posted 0x10c0) = 0x9000" "req_buf_len (reqs demo_posted 0x10c0) = 16"
    "completed_q demo_posted = []" by (simp_all add: demo_posted_def demo_mq_def posted_req_def)
  have m: "min 16 6 = (6 :: u32)" by (simp add: min_def word_le_nat_alt)
  have "packet_ok 0x9000 6 (0x18000, [1, 2, 3, 4])" "packet_ok 0x9000 6 (0x19000, [5, 6])" "buf_ok 0x9000 6"
    by (rule packet_far; simp)+ (simp add: buf_ok_def)
  then have "packets_ok 0x9000 6 [(0x18000, [1, 2, 3, 4]), (0x19000, [5, 6])]" by (simp add: packets_ok_def)
  then show ?thesis
    using eager_posted_delivered [OF demo_posted_inv demo_posted_match, where ep = 1 and eid = "\<lparr>egr_flowid = 0, egr_msgno = 0\<rparr>" and slen = 6
        and msg = "[1, 2, 3, 4, 5, 6]" and a = "0x18000" and bs = "[1, 2, 3, 4]" and ps = "[(0x19000, [5, 6])]" and ucb = "\<lambda>_. Inr" and env = demo_env]
    by (simp add: f m) (elim exE conjE, intro exI conjI; assumption)
qed

text \<open>The first four of six bytes have arrived at the queue without a posted receive.\<close>

lemma demo_partial:
  obtains mqb r where "req_state (reqs mqb r) = MQ_STATE_UNEXP" "reassembling [1, 2, 3, 4, 5, 6] r mqb" "recv_msglen (reqs mqb r) = 6"
    "send_msglen (reqs mqb r) = 6" "eager_ready r 1 mqb" "unat (send_msgoff (reqs mqb r)) = 4" "mq_inv {} mqb"
    "unexpected_match 7 (- 1) True mqb = (Some r, off_unexpected r mqb)" "req_env_ok demo_env mqb"
    "req_buf (reqs mqb r) = 0x4008 \<or> req_buf (reqs mqb r) = 0x8008" "completed_q mqb = []"
proof -
  let ?msg = "[1, 2, 3, 4, 5, 6] :: u8 list" and ?bs = "[1, 2, 3, 4] :: u8 list"
  have f: "sysbufs demo_mq = demo_sysbuf" "unexpected_q demo_mq = []" "rreq_pool demo_mq = demo_pool" "sreq_pool demo_mq = demo_spool"
    "pool_chunk demo_env = None" "egrlong demo_mq = (\<lambda>_ _. [])" "completed_q demo_mq = []"
    by (simp_all add: demo_mq_def demo_env_def)
  have "heap_ok (heap demo_env) demo_sysbuf {}" using demo_env_ok by (simp add: env_ok_def owned_bufs_def owners_def demo_mq_def)
  then have al: "psmi_mq_sysbuf_alloc (heap demo_env) 6 demo_sysbuf \<noteq> Inr (None, sb)" for sb
    by (rule alloc_cases [OF demo_sysbuf_inv, where n = 6]) (auto simp: demo_env_def demo_sysbuf_def)
  have pk: "packets_ok b 6 [(0x18000, ?bs)]" if "b = 0x4008 \<or> b = 0x8008" for b
    using that packet_far [of b 6 "0x18000" ?bs] by (auto simp: packets_ok_def buf_ok_def)
  have "length ?msg = 6" by simp
  with pk have pkl: "packets_ok b (length ?msg) [(0x18000, ?bs)]" if "b = 0x4008 \<or> b = 0x8008" for b using that by (simp only:)
  obtain mq' where u: "unexpected_q mq' = unexpected_q demo_mq @ [0x10c0]" "req_state (reqs mq' 0x10c0) = MQ_STATE_UNEXP"
    "reassembling ?msg 0x10c0 mq'" "recv_msglen (reqs mq' 0x10c0) = 6" "send_msglen (reqs mq' 0x10c0) = 6" "req_tag (reqs mq' 0x10c0) = 7"
    "eager_ready 0x10c0 1 mq'" "unat (send_msgoff (reqs mq' 0x10c0)) = length ?bs" "mq_inv {} mq'" "completed_q mq' = completed_q demo_mq"
    "\<exists>sb. psmi_mq_sysbuf_alloc (heap demo_env) 6 (sysbufs demo_mq) = Inr (Some (req_buf (reqs mq' 0x10c0)), sb)"
    "rreq_pool mq' = demo_pool\<lparr>mp_head := [0x1030], mp_num_obj_inuse := 1\<rparr>" "sreq_pool mq' = sreq_pool demo_mq"
    by (rule unexpected_long_start [OF demo_mq_inv demo_env_ok, of 6 ?msg ?bs 1 "\<lparr>egr_flowid = 0, egr_msgno = 0\<rparr>" "0x18000" "0x10c0"])
      (use demo_sysbuf_source pkl al demo_gets(1) in \<open>auto simp: f\<close>)
  have "malloc_ok None demo_pool" by (simp add: malloc_ok_def)
  from mpool.get_object [OF demo_pool_inv(1) this demo_gets(1)] have rl: "rlive mq' = {0x10c0}" "slive mq' = {}"
    by (simp_all add: u f demo_pool_inv(2) demo_spool_inv(2))
  have "psmi_mpool_get None (rreq_pool mq') = Inr (Some 0x1040, demo_pool\<lparr>mp_head := [], mp_num_obj_inuse := 2\<rparr>)"
    by (simp add: u mpool_eval)
  then have "req_env_ok demo_env mq'" using demo_gets(2) by (simp add: req_env_ok_def f malloc_ok_def rl [unfolded u f] u)
  moreover have "unexpected_match 7 (- 1) True mq' = (Some 0x10c0, off_unexpected 0x10c0 mq')"
    by (simp add: unexpected_match_def list_search_remove_def off_unexpected_def u f)
  ultimately show thesis using that [of mq' "0x10c0"] u demo_sysbuf_source by (auto simp: f)
qed

theorem eager_receive_midway_witness:
  "\<exists>r mq mq1 mq2. req_state (reqs mq r) = MQ_STATE_UNEXP \<and>
     psm_mq_irecv (\<lambda>cb r posted mq. Inr mq) demo_env 7 (- 1) 0x9000 5 0 mq = Inr (PSM_OK, r, mq1) \<and>
     deliver r 1 [(0x19000, [5, 6])] mq1 = Inr mq2 \<and> completed_q mq2 = [r] \<and> recv_msglen (reqs mq2 r) = 5 \<and>
     (\<forall>i < 5. mq_mem mq2 (0x9000 + of_nat i) = [1, 2, 3, 4, 5, 6] ! i)"
proof -
  obtain mq r where d: "req_state (reqs mq r) = MQ_STATE_UNEXP" "reassembling [1, 2, 3, 4, 5, 6] r mq" "recv_msglen (reqs mq r) = 6"
    "send_msglen (reqs mq r) = 6" "eager_ready r 1 mq" "unat (send_msgoff (reqs mq r)) = 4" "mq_inv {} mq"
    "unexpected_match 7 (- 1) True mq = (Some r, off_unexpected r mq)" "req_env_ok demo_env mq"
    "req_buf (reqs mq r) = 0x4008 \<or> req_buf (reqs mq r) = 0x8008" "completed_q mq = []"
    by (rule demo_partial)
  have m: "min 5 6 = (5 :: u32)" by (simp add: min_def word_le_nat_alt)
  have "unat (recv_msgoff (reqs mq r)) = 4"
    using d(2,3,6) by (auto simp: reassembling_def Let_def min_def word_le_nat_alt split: if_splits)
  then have a: "apart (unat (recv_msgoff (reqs mq r))) 0x9000 (req_buf (reqs mq r))" using d(10) by (auto intro!: apartI)
  have "packet_ok 0x9000 5 (0x19000, [5, 6])" by (rule packet_far) simp_all
  then have p: "packets_ok 0x9000 (unat (min 5 (send_msglen (reqs mq r)))) [(0x19000, [5, 6])]" by (simp add: packets_ok_def buf_ok_def d(4) m)
  have "recv_msglen (reqs mq r) = send_msglen (reqs mq r)" using d(3,4) by simp
  from eager_receive_midway [where ctx = 0, OF d(7,9,5,2,1) this d(8) a p] d(4,6,11) d(1) m
  show ?thesis by (simp del: deliver.simps) (elim exE conjE, intro exI conjI; assumption)
qed

end
