(* ===== verification/Ips_Tidflow.thy ===== *)
theory Ips_Tidflow
  imports Mpool
begin

text \<open>
  TID flows, \<^verbatim>\<open>src/ptl_ips/ips_tidflow.c\<close> and \<^verbatim>\<open>src/ptl_ips/ips_tidflow.h\<close>: the allocator of the
  hardware's receive flows and of their generations, the packing of flow, generation and sequence
  number into a 24-bit packet sequence number, and the accessors of the hardware flow table of
  \<^verbatim>\<open>src/include/ipath_user.h\<close>.

  The free list is an \<^verbatim>\<open>SLIST\<close> used as a stack, modelled as the list of flow indices; flows live in
  the array \<open>tf\<close> of the control block, an index past its end is an undefined access. The hardware
  table is a function from flow numbers to register values; the callback run when flows become
  available is the argument \<open>call\<close>. \<open>'w\<close> is the rest of the program it acts on.

  Shown: flows handed out are distinct and inside the range given at initialisation, allocation fails
  exactly when all are in use, a generation is never the invalid one and does not come back before
  255 other generations of the flow have been used, packing and unpacking are inverse.
\<close>

unbundle bit_operations_syntax

section \<open>Packet sequence numbers of flows\<close>

definition INFINIPATH_TF_SEQNUM_MASK :: u32 where "INFINIPATH_TF_SEQNUM_MASK = 0x7ff"
definition INFINIPATH_TF_GENVAL_MASK :: u32 where "INFINIPATH_TF_GENVAL_MASK = 0xff"
definition INFINIPATH_TF_NFLOWS :: nat where "INFINIPATH_TF_NFLOWS = 32"
definition IPS_TF_MAX_GENERATION :: u32 where "IPS_TF_MAX_GENERATION = 256"
definition IPS_TF_INVALID :: u32 where "IPS_TF_INVALID = NOT 0"
definition IPS_TF_INVALID_GENERATION :: u32 where "IPS_TF_INVALID_GENERATION = 0"

lemmas tf_consts = INFINIPATH_TF_SEQNUM_MASK_def INFINIPATH_TF_GENVAL_MASK_def INFINIPATH_TF_NFLOWS_def
  IPS_TF_MAX_GENERATION_def IPS_TF_INVALID_def IPS_TF_INVALID_GENERATION_def

definition IPS_TF_PSN_PACK :: "u32 \<Rightarrow> u32 \<Rightarrow> u32 \<Rightarrow> u64" where
  "IPS_TF_PSN_PACK flow gen seq =
     push_bit 19 (ucast flow AND 0x1f) OR push_bit 11 (ucast gen AND ucast INFINIPATH_TF_GENVAL_MASK) OR
     push_bit 0 (ucast seq AND ucast INFINIPATH_TF_SEQNUM_MASK)"

definition IPS_TF_PSN_UNPACK :: "u32 \<Rightarrow> u32 \<times> u32 \<times> u32" where
  "IPS_TF_PSN_UNPACK tfval =
     (drop_bit 19 tfval AND 0x1f, drop_bit 11 tfval AND INFINIPATH_TF_GENVAL_MASK,
      drop_bit 0 tfval AND INFINIPATH_TF_SEQNUM_MASK)"

definition ipath_tidflow_get_seqnum :: "u32 \<Rightarrow> u32" where
  "ipath_tidflow_get_seqnum val = drop_bit 0 val AND INFINIPATH_TF_SEQNUM_MASK"

definition ipath_tidflow_get_genval :: "u32 \<Rightarrow> u32" where
  "ipath_tidflow_get_genval val = drop_bit 11 val AND INFINIPATH_TF_GENVAL_MASK"

definition IPS_TF_INC_SEQ :: "u32 \<Rightarrow> u32" where
  "IPS_TF_INC_SEQ tfval =
     (tfval AND NOT INFINIPATH_TF_SEQNUM_MASK) OR
     ((ipath_tidflow_get_seqnum tfval + 1) AND INFINIPATH_TF_SEQNUM_MASK)"

section \<open>The flow table and the control block\<close>

datatype tf_state = TF_STATE_INVALID | TF_STATE_ALLOCATED | TF_STATE_DEALLOCATED

record ips_tf =
  tf_st :: tf_state
  tf_idx :: u32
  next_gen :: u8

record ips_tfctrl =
  tf_start_idx :: u32
  tf_end_idx :: u32
  tf_num_max :: u32
  tf_num_avail :: u32
  tf_num_total :: u32
  tf_avail_cb :: "nat option"
  tf_avail_context :: u64
  tf_avail :: "nat list"
  tf :: "ips_tf list"
  rcvtidflow :: "u32 \<Rightarrow> u32"

definition ipath_tidflow_set_entry :: "u32 \<Rightarrow> u8 \<Rightarrow> u16 \<Rightarrow> 'w ips_tfctrl_scheme \<Rightarrow> 'w ips_tfctrl_scheme" where
  "ipath_tidflow_set_entry flowid genval seqnum c =
     c\<lparr>rcvtidflow := (rcvtidflow c)(flowid :=
         push_bit 19 1 OR push_bit 20 1 OR push_bit 27 1 OR push_bit 28 1 OR push_bit 11 (ucast genval) OR
         (ucast seqnum AND INFINIPATH_TF_SEQNUM_MASK))\<rparr>"

definition ipath_tidflow_reset :: "u32 \<Rightarrow> 'w ips_tfctrl_scheme \<Rightarrow> 'w ips_tfctrl_scheme" where
  "ipath_tidflow_reset flowid c =
     c\<lparr>rcvtidflow := (rcvtidflow c)(flowid := push_bit 27 1 OR push_bit 28 1)\<rparr>"

section \<open>Operations\<close>

text \<open>One round of the loop of \<^verbatim>\<open>ips_tf_init\<close>.\<close>

definition tf_init_round :: "nat \<Rightarrow> 'w ips_tfctrl_scheme \<Rightarrow> 'w ips_tfctrl_scheme run" where
  "tf_init_round i c =
     (if i < length (tf c) then
        let c = c\<lparr>tf := (tf c)[i := \<lparr>tf_st = TF_STATE_DEALLOCATED, tf_idx = of_nat i,
                                     next_gen = ucast IPS_TF_INVALID_GENERATION + 1\<rparr>]\<rparr>;
            c = c\<lparr>tf_avail := i # tf_avail c\<rparr>
        in Inr (ipath_tidflow_reset (of_nat i) c)
      else Inl Undefined_Access)"

fun tf_init_loop :: "nat list \<Rightarrow> 'w ips_tfctrl_scheme \<Rightarrow> 'w ips_tfctrl_scheme run" where
  "tf_init_loop [] c = Inr c"
| "tf_init_loop (i # is) c = run_bind (tf_init_round i c) (tf_init_loop is)"

definition ips_tf_init ::
  "nat \<Rightarrow> nat \<Rightarrow> nat option \<Rightarrow> u64 \<Rightarrow> 'w ips_tfctrl_scheme \<Rightarrow> (psm_error \<times> 'w ips_tfctrl_scheme) run" where
  "ips_tf_init start_flowidx end_flowidx cb cb_context c =
     (if \<not> start_flowidx < end_flowidx then Inl Assert_Abort
      else let num_flows = of_nat (end_flowidx - start_flowidx);
               c = c\<lparr>tf_start_idx := of_nat start_flowidx, tf_end_idx := of_nat end_flowidx,
                     tf_num_max := num_flows, tf_num_avail := num_flows, tf_num_total := 0,
                     tf_avail_cb := cb, tf_avail_context := cb_context, tf_avail := []\<rparr>
        in run_bind (tf_init_loop [start_flowidx..<end_flowidx] c) (\<lambda>c. Inr (PSM_OK, c)))"

definition ips_tf_fini :: "'w ips_tfctrl_scheme \<Rightarrow> psm_error" where
  "ips_tf_fini c = PSM_OK"

text \<open>The generation that follows: an 8-bit field that skips the invalid value.\<close>

definition gen_advance :: "u8 \<Rightarrow> u8" where
  "gen_advance g = (let g = g + 1 in if ucast g = IPS_TF_INVALID_GENERATION then g + 1 else g)"

definition ips_tf_allocate :: "'w ips_tfctrl_scheme \<Rightarrow> (psm_error \<times> u32 \<times> u32 \<times> 'w ips_tfctrl_scheme) run" where
  "ips_tf_allocate c =
     (if tf_num_avail c = 0 then Inr (PSM_EP_NO_RESOURCES, IPS_TF_INVALID, IPS_TF_INVALID_GENERATION, c)
      else case tf_avail c of
        [] \<Rightarrow> Inl Undefined_Access
      | i # rest \<Rightarrow>
          let f = tf c ! i;
              gen = ucast (next_gen f) :: u32;
              c = c\<lparr>tf_avail := rest, tf_num_avail := tf_num_avail c - 1, tf_num_total := tf_num_total c + 1,
                    tf := (tf c)[i := f\<lparr>tf_st := TF_STATE_ALLOCATED, next_gen := gen_advance (next_gen f)\<rparr>]\<rparr>
          in if gen \<le> IPS_TF_MAX_GENERATION then Inr (PSM_OK, tf_idx f, gen, c) else Inl Assert_Abort)"

definition ips_tf_deallocate ::
  "(nat \<Rightarrow> u64 \<Rightarrow> 'w ips_tfctrl_scheme \<Rightarrow> 'w ips_tfctrl_scheme) \<Rightarrow> u32 \<Rightarrow> 'w ips_tfctrl_scheme \<Rightarrow>
   (psm_error \<times> 'w ips_tfctrl_scheme) run" where
  "ips_tf_deallocate call idx c =
     (if \<not> idx < tf_end_idx c then Inl Assert_Abort
      else if \<not> unat idx < length (tf c) then Inl Undefined_Access
      else let i = unat idx;
               c = c\<lparr>tf := (tf c)[i := (tf c ! i)\<lparr>tf_st := TF_STATE_DEALLOCATED\<rparr>]\<rparr>;
               c = ipath_tidflow_set_entry idx (ucast IPS_TF_INVALID_GENERATION) 0 c;
               c = c\<lparr>tf_avail := i # tf_avail c\<rparr>;
               was_empty = (tf_num_avail c = 0);
               c = c\<lparr>tf_num_avail := tf_num_avail c + 1\<rparr>
        in Inr (PSM_OK, case tf_avail_cb c of
             Some cb \<Rightarrow> if was_empty then call cb (tf_avail_context c) c else c
           | None \<Rightarrow> c))"

definition ips_tfgen_allocate :: "u32 \<Rightarrow> 'w ips_tfctrl_scheme \<Rightarrow> (psm_error \<times> u32 \<times> 'w ips_tfctrl_scheme) run" where
  "ips_tfgen_allocate idx c =
     (if \<not> idx < tf_end_idx c then Inl Assert_Abort
      else if \<not> unat idx < length (tf c) then Inl Undefined_Access
      else let f = tf c ! unat idx
        in Inr (PSM_OK, ucast (next_gen f),
             c\<lparr>tf := (tf c)[unat idx := f\<lparr>next_gen := gen_advance (next_gen f)\<rparr>]\<rparr>))"

definition ips_tf_available :: "'w ips_tfctrl_scheme \<Rightarrow> u32" where
  "ips_tf_available c = tf_num_avail c"

section \<open>Generations\<close>

lemma ucast_gen_0: "(ucast (g :: u8) :: u32) = 0 \<longleftrightarrow> g = 0"
proof -
  have "unat (ucast g :: u32) = unat g" by (rule unat_ucast_up) simp
  then show ?thesis by (metis unat_eq_zero)
qed

lemma unat_gen_advance: "unat (gen_advance g) = (if unat g = 255 then 1 else unat g + 1)"
proof (cases "g = - 1")
  case True
  then show ?thesis by (simp add: gen_advance_def tf_consts unsigned_minus_1_eq_mask mask_eq_exp_minus_1)
next
  case False
  then have g: "unat (g + 1) = unat g + 1" by (simp add: unat_inc)
  then have "g + 1 \<noteq> 0" by (metis add_is_0 unsigned_0 zero_neq_one)
  moreover have "unat g \<noteq> 255" using g unsigned_less [of "g + 1", where 'a = nat] by auto
  ultimately show ?thesis using g by (simp add: gen_advance_def tf_consts Let_def ucast_gen_0)
qed

lemma gen_advance_valid: "gen_advance g \<noteq> 0"
  using unat_gen_advance [of g] by (metis Suc_eq_plus1 nat.simps(3) unsigned_0 zero_neq_one)

lemma gen_advance_iter: "g \<noteq> 0 \<Longrightarrow> unat ((gen_advance ^^ k) g) = (unat g - 1 + k) mod 255 + 1"
proof (induction k)
  case 0
  then have "unat g - 1 < 255" "0 < unat g" using unsigned_less [of g, where 'a = nat] by (auto simp: unat_gt_0)
  then show ?case by simp
next
  case (Suc k)
  then show ?case by (simp add: unat_gen_advance mod_Suc)
qed

lemma gen_distinct:
  assumes "g \<noteq> 0" "i < j" "j < i + 255"
  shows "(gen_advance ^^ i) g \<noteq> (gen_advance ^^ j) g"
proof
  assume "(gen_advance ^^ i) g = (gen_advance ^^ j) g"
  then have "(unat g - 1 + j) mod 255 = (unat g - 1 + i) mod 255"
    using gen_advance_iter [OF assms(1)] by (metis add_right_cancel)
  then have "255 dvd j - i" using assms(2) by (simp add: mod_eq_dvd_iff_nat)
  then show False using assms(2,3) by (auto dest: dvd_imp_le)
qed

section \<open>Invariant\<close>

text \<open>
  The flows of the range are either on the free list or allocated, and their generation is valid.
\<close>

definition tf_range :: "'w ips_tfctrl_scheme \<Rightarrow> nat set" where
  "tf_range c = {unat (tf_start_idx c)..<unat (tf_end_idx c)}"

definition tf_inv :: "'w ips_tfctrl_scheme \<Rightarrow> bool" where
  "tf_inv c \<longleftrightarrow> length (tf c) = INFINIPATH_TF_NFLOWS \<and> unat (tf_end_idx c) \<le> INFINIPATH_TF_NFLOWS \<and>
     distinct (tf_avail c) \<and> length (tf_avail c) = unat (tf_num_avail c) \<and> set (tf_avail c) \<subseteq> tf_range c \<and>
     (\<forall>i \<in> tf_range c. tf_idx (tf c ! i) = of_nat i \<and> next_gen (tf c ! i) \<noteq> 0 \<and>
        tf_st (tf c ! i) = (if i \<in> set (tf_avail c) then TF_STATE_DEALLOCATED else TF_STATE_ALLOCATED))"

definition tf_held :: "'w ips_tfctrl_scheme \<Rightarrow> u32 set" where
  "tf_held c = of_nat ` (tf_range c - set (tf_avail c))"

lemma tf_range_less: "tf_inv c \<Longrightarrow> i \<in> tf_range c \<Longrightarrow> i < 32 \<and> i < length (tf c)"
  by (auto simp: tf_inv_def tf_range_def tf_consts)

lemma unat_of_nat_flow: "i < 32 \<Longrightarrow> unat (of_nat i :: u32) = i"
  by (simp add: unat_of_nat)

lemma unat_eq_imp: "unat x = unat y \<Longrightarrow> x = y" for x y :: "'a::len word"
  by (rule unsigned_word_eqI)

lemma of_nat_flow_eq: "i < 32 \<Longrightarrow> j < 32 \<Longrightarrow> (of_nat i :: u32) = of_nat j \<longleftrightarrow> i = j"
  by (metis unat_of_nat_flow)

lemma tf_held_iff: "tf_inv c \<Longrightarrow> idx \<in> tf_held c \<longleftrightarrow> unat idx \<in> tf_range c \<and> unat idx \<notin> set (tf_avail c)"
  by (auto simp: tf_held_def unat_of_nat_flow dest: tf_range_less intro!: image_eqI [where x = "unat idx"])

lemma tf_init_loop_spec:
  "\<forall>i \<in> set is. i < length (tf c) \<Longrightarrow> \<exists>c'. tf_init_loop is c = Inr c' \<and> length (tf c') = length (tf c) \<and>
     tf_avail c' = rev is @ tf_avail c \<and> tf_start_idx c' = tf_start_idx c \<and> tf_end_idx c' = tf_end_idx c \<and>
     tf_num_avail c' = tf_num_avail c \<and> tf_avail_cb c' = tf_avail_cb c \<and>
     (\<forall>i < length (tf c). tf c' ! i = (if i \<in> set is
        then \<lparr>tf_st = TF_STATE_DEALLOCATED, tf_idx = of_nat i, next_gen = 1\<rparr> else tf c ! i))"
proof (induction "is" arbitrary: c)
  case (Cons i js)
  define d where "d = (ipath_tidflow_reset (of_nat i) (c\<lparr>tf := (tf c)[i := \<lparr>tf_st = TF_STATE_DEALLOCATED, tf_idx = of_nat i,
      next_gen = 1\<rparr>], tf_avail := i # tf_avail c\<rparr>))"
  have r: "tf_init_round i c = Inr d" using Cons.prems
    by (simp add: tf_init_round_def Let_def d_def tf_consts)
  have d: "length (tf d) = length (tf c)" "tf_avail d = i # tf_avail c" "tf_start_idx d = tf_start_idx c"
    "tf_end_idx d = tf_end_idx c" "tf_num_avail d = tf_num_avail c" "tf_avail_cb d = tf_avail_cb c"
    "tf d = (tf c)[i := \<lparr>tf_st = TF_STATE_DEALLOCATED, tf_idx = of_nat i, next_gen = 1\<rparr>]"
    by (simp_all add: d_def ipath_tidflow_reset_def)
  show ?case using Cons.IH [of d] Cons.prems r d by (auto simp: nth_list_update)
qed simp

lemma tf_init_ok:
  assumes "s < e" "e \<le> INFINIPATH_TF_NFLOWS" "length (tf c0) = INFINIPATH_TF_NFLOWS"
  shows "\<exists>c. ips_tf_init s e cb ctx c0 = Inr (PSM_OK, c) \<and> tf_inv c \<and> tf_held c = {} \<and> tf_range c = {s..<e}"
proof -
  have b: "s < 32" "e \<le> 32" "unat (of_nat e :: u32) = e" "unat (of_nat s :: u32) = s" "unat (of_nat (e - s) :: u32) = e - s"
    using assms by (auto simp: tf_consts unat_of_nat simp del: of_nat_diff)
  let ?c = "c0\<lparr>tf_start_idx := of_nat s, tf_end_idx := of_nat e, tf_num_max := of_nat (e - s),
     tf_num_avail := of_nat (e - s), tf_num_total := 0, tf_avail_cb := cb, tf_avail_context := ctx, tf_avail := []\<rparr>"
  obtain c where c: "tf_init_loop [s..<e] ?c = Inr c" "length (tf c) = length (tf c0)" "tf_avail c = rev [s..<e]"
    "tf_start_idx c = of_nat s" "tf_end_idx c = of_nat e" "tf_num_avail c = of_nat (e - s)"
    "\<forall>i < length (tf c0). tf c ! i = (if s \<le> i \<and> i < e
        then \<lparr>tf_st = TF_STATE_DEALLOCATED, tf_idx = of_nat i, next_gen = 1\<rparr> else tf c0 ! i)"
    using tf_init_loop_spec [of "[s..<e]" ?c] assms by (auto simp: tf_consts)
  have r: "tf_range c = {s..<e}" using c b by (simp add: tf_range_def)
  have "tf_inv c" using c b assms r unfolding tf_inv_def by (auto simp: tf_consts)
  moreover have "tf_held c = {}" using c r by (auto simp: tf_held_def)
  ultimately show ?thesis using c r assms by (auto simp: ips_tf_init_def Let_def)
qed

section \<open>Allocation\<close>

lemma tf_allocate_some:
  assumes "tf_inv c" "tf_avail c = i # rest"
  shows "\<exists>c'. ips_tf_allocate c = Inr (PSM_OK, of_nat i, ucast (next_gen (tf c ! i)), c') \<and> tf_inv c' \<and>
    tf_avail c' = rest \<and> tf_range c' = tf_range c \<and> tf_held c' = insert (of_nat i) (tf_held c) \<and>
    tf c' = (tf c)[i := (tf c ! i)\<lparr>tf_st := TF_STATE_ALLOCATED, next_gen := gen_advance (next_gen (tf c ! i))\<rparr>] \<and>
    tf_end_idx c' = tf_end_idx c"
proof -
  have i: "i \<in> tf_range c" "i \<notin> set rest" "set rest \<subseteq> tf_range c" "unat (tf_num_avail c) = Suc (length rest)"
    using assms by (auto simp: tf_inv_def)
  then have "tf_num_avail c \<noteq> 0" by auto
  then have n: "tf_num_avail c \<noteq> 0" "unat (tf_num_avail c - 1) = length rest" using i(4) by (simp_all add: unat_dec)
  have "unat (ucast (next_gen (tf c ! i)) :: u32) = unat (next_gen (tf c ! i))" by (rule unat_ucast_up) simp
  then have g: "(ucast (next_gen (tf c ! i)) :: u32) \<le> IPS_TF_MAX_GENERATION"
    using unsigned_less [of "next_gen (tf c ! i)", where 'a = nat] by (simp add: word_le_nat_alt tf_consts)
  let ?c = "c\<lparr>tf_avail := rest, tf_num_avail := tf_num_avail c - 1, tf_num_total := tf_num_total c + 1,
     tf := (tf c)[i := (tf c ! i)\<lparr>tf_st := TF_STATE_ALLOCATED, next_gen := gen_advance (next_gen (tf c ! i))\<rparr>]\<rparr>"
  have e: "ips_tf_allocate c = Inr (PSM_OK, of_nat i, ucast (next_gen (tf c ! i)), ?c)"
    using assms i n g by (simp add: ips_tf_allocate_def Let_def tf_inv_def)
  have r: "tf_range ?c = tf_range c" by (simp add: tf_range_def)
  have "tf_inv ?c" using assms i n tf_range_less [OF assms(1)] unfolding tf_inv_def r
    by (auto simp: nth_list_update gen_advance_valid)
  moreover have "tf_held ?c = insert (of_nat i) (tf_held c)" using i assms(2) by (auto simp: tf_held_def r)
  ultimately show ?thesis using e r by simp
qed

lemma tf_allocate_none:
  assumes "tf_inv c" "tf_avail c = []"
  shows "ips_tf_allocate c = Inr (PSM_EP_NO_RESOURCES, IPS_TF_INVALID, IPS_TF_INVALID_GENERATION, c)"
  using assms by (simp add: ips_tf_allocate_def tf_inv_def unat_eq_zero)

text \<open>The callback may do anything but touch the control block.\<close>

definition tf_call_ok :: "(nat \<Rightarrow> u64 \<Rightarrow> 'w ips_tfctrl_scheme \<Rightarrow> 'w ips_tfctrl_scheme) \<Rightarrow> bool" where
  "tf_call_ok call \<longleftrightarrow> (\<forall>cb ctx c. ips_tfctrl.truncate (call cb ctx c) = ips_tfctrl.truncate c)"

lemma tf_truncate:
  assumes "ips_tfctrl.truncate d = ips_tfctrl.truncate c"
  shows "tf_inv d = tf_inv c" "tf_held d = tf_held c" "tf_range d = tf_range c" "tf_avail d = tf_avail c" "tf d = tf c"
    "tf_end_idx d = tf_end_idx c"
  using assms by (auto simp: ips_tfctrl.defs tf_inv_def tf_held_def tf_range_def)

lemma tf_deallocate_ok:
  assumes "tf_inv c" "idx \<in> tf_held c" "tf_call_ok call"
  shows "\<exists>c'. ips_tf_deallocate call idx c = Inr (PSM_OK, c') \<and> tf_inv c' \<and> tf_held c' = tf_held c - {idx} \<and>
     tf_range c' = tf_range c \<and> tf_avail c' = unat idx # tf_avail c"
proof -
  have i: "unat idx \<in> tf_range c" "unat idx \<notin> set (tf_avail c)" using assms tf_held_iff by blast+
  then have l: "unat idx < 32" "unat idx < length (tf c)" "idx < tf_end_idx c"
    using tf_range_less [OF assms(1)] by (auto simp: tf_range_def word_less_nat_alt)
  have "length (tf_avail c) = card (set (tf_avail c))" using assms(1) by (simp add: tf_inv_def distinct_card)
  also have "\<dots> \<le> card {..<32 :: nat}" using assms(1) tf_range_less [OF assms(1)] by (intro card_mono) (auto simp: tf_inv_def)
  finally have n: "unat (tf_num_avail c + 1) = Suc (unat (tf_num_avail c))"
    using assms(1) by (subst unat_plus_no_wrap) (auto simp: tf_inv_def)
  define d where "d = (ipath_tidflow_set_entry idx (ucast IPS_TF_INVALID_GENERATION) 0
      (c\<lparr>tf := (tf c)[unat idx := (tf c ! unat idx)\<lparr>tf_st := TF_STATE_DEALLOCATED\<rparr>]\<rparr>))
      \<lparr>tf_avail := unat idx # tf_avail c, tf_num_avail := tf_num_avail c + 1\<rparr>"
  have d: "tf_range d = tf_range c" "tf_avail d = unat idx # tf_avail c" "tf_num_avail d = tf_num_avail c + 1"
    "tf d = (tf c)[unat idx := (tf c ! unat idx)\<lparr>tf_st := TF_STATE_DEALLOCATED\<rparr>]" "tf_end_idx d = tf_end_idx c"
    by (simp_all add: d_def tf_range_def ipath_tidflow_set_entry_def)
  have "tf_inv d" using assms(1) i l n tf_range_less [OF assms(1)] unfolding tf_inv_def d
    by (auto simp: nth_list_update)
  moreover have "tf_held d = tf_held c - {idx}"
    using i tf_held_iff [OF assms(1)] tf_held_iff [OF calculation] by (auto simp: d dest: unat_eq_imp)
  moreover have "\<exists>c'. ips_tf_deallocate call idx c = Inr (PSM_OK, c') \<and> ips_tfctrl.truncate c' = ips_tfctrl.truncate d"
    using l assms(3) by (auto simp: ips_tf_deallocate_def Let_def d_def tf_call_ok_def ipath_tidflow_set_entry_def split: option.split)
  ultimately show ?thesis using tf_truncate [of _ d] d by metis
qed

section \<open>The interface of a pool\<close>

text \<open>
  A state of the pool is the control block with the callback that is registered on it. Allocating and
  freeing flows satisfies the interface \<open>object_pool\<close> that the object pools satisfy.
\<close>

definition tf_get :: "unit \<Rightarrow> (nat \<Rightarrow> u64 \<Rightarrow> 'w ips_tfctrl_scheme \<Rightarrow> 'w ips_tfctrl_scheme) \<times> 'w ips_tfctrl_scheme \<Rightarrow>
   (u32 option \<times> (nat \<Rightarrow> u64 \<Rightarrow> 'w ips_tfctrl_scheme \<Rightarrow> 'w ips_tfctrl_scheme) \<times> 'w ips_tfctrl_scheme) run" where
  "tf_get u = (\<lambda>(call, c). run_bind (ips_tf_allocate c)
     (\<lambda>(err, idx, gen, c). Inr (if err = PSM_OK then Some idx else None, call, c)))"

definition tf_put :: "u32 \<Rightarrow> (nat \<Rightarrow> u64 \<Rightarrow> 'w ips_tfctrl_scheme \<Rightarrow> 'w ips_tfctrl_scheme) \<times> 'w ips_tfctrl_scheme \<Rightarrow>
   bool \<times> (nat \<Rightarrow> u64 \<Rightarrow> 'w ips_tfctrl_scheme \<Rightarrow> 'w ips_tfctrl_scheme) \<times> 'w ips_tfctrl_scheme" where
  "tf_put idx = (\<lambda>(call, c). case ips_tf_deallocate call idx c of
     Inr (err, c) \<Rightarrow> (err = PSM_OK, call, c) | Inl _ \<Rightarrow> (False, call, c))"

definition tf_pool_inv :: "nat set \<Rightarrow> (nat \<Rightarrow> u64 \<Rightarrow> 'w ips_tfctrl_scheme \<Rightarrow> 'w ips_tfctrl_scheme) \<times> 'w ips_tfctrl_scheme \<Rightarrow> bool" where
  "tf_pool_inv R = (\<lambda>(call, c). tf_call_ok call \<and> tf_inv c \<and> tf_range c = R)"

lemma tf_get_cases:
  assumes "tf_inv c"
  obtains "tf_avail c = []" "tf_get u (call, c) = Inr (None, call, c)"
  | c' idx where "tf_avail c \<noteq> []" "tf_get u (call, c) = Inr (Some idx, call, c')" "tf_inv c'" "tf_range c' = tf_range c"
      "idx \<notin> tf_held c" "tf_held c' = insert idx (tf_held c)"
proof (cases "tf_avail c")
  case Nil
  then show ?thesis using tf_allocate_none [OF assms] that(1) by (simp add: tf_get_def)
next
  case (Cons i rest)
  obtain c' where c': "ips_tf_allocate c = Inr (PSM_OK, of_nat i, ucast (next_gen (tf c ! i)), c')" "tf_inv c'"
    "tf_range c' = tf_range c" "tf_held c' = insert (of_nat i) (tf_held c)"
    using tf_allocate_some [OF assms Cons] by blast
  have "i \<in> tf_range c" using assms Cons by (simp add: tf_inv_def)
  then have "of_nat i \<notin> tf_held c" using tf_range_less [OF assms] Cons by (simp add: tf_held_iff [OF assms] unat_of_nat_flow)
  then show ?thesis using c' that(2) [of "of_nat i" c'] Cons by (simp add: tf_get_def)
qed

lemma tf_get_total: "tf_inv c \<Longrightarrow> \<exists>r. tf_get u (call, c) = Inr r"
  by (erule tf_get_cases [of c u call]) auto

lemma tf_get_result:
  assumes "tf_inv c" "tf_get u (call, c) = Inr (r, p)"
  obtains c' where "p = (call, c')" "tf_inv c'" "tf_range c' = tf_range c"
    "case r of None \<Rightarrow> c' = c | Some idx \<Rightarrow> idx \<notin> tf_held c \<and> tf_held c' = insert idx (tf_held c)"
  using assms(1) by (rule tf_get_cases [of c u call]) (use assms that in auto)

interpretation tidflows: object_pool "tf_pool_inv R" "\<lambda>(call, c). tf_held c" tf_get tf_put "\<lambda>_ _. True" for R
proof (unfold_locales, goal_cases)
  case (1 p m)
  then show ?case using tf_get_total [of "snd p" m "fst p"] by (cases p) (simp add: tf_pool_inv_def)
next
  case (2 p m obj p')
  then show ?case by (cases p) (auto simp: tf_pool_inv_def elim: tf_get_result)
next
  case (3 p m p')
  then show ?case by (cases p) (auto simp: tf_pool_inv_def elim: tf_get_result)
next
  case (4 p obj)
  then show ?case using tf_deallocate_ok [of "snd p" obj "fst p"] by (cases p) (auto simp: tf_pool_inv_def tf_put_def)
qed

lemma tf_exhausted: "tf_inv c \<Longrightarrow> tf_avail c = [] \<longleftrightarrow> card (tf_held c) = card (tf_range c)"
proof -
  assume i: "tf_inv c"
  have inj: "inj_on (of_nat :: nat \<Rightarrow> u32) (tf_range c)"
    using tf_range_less [OF i] by (auto simp: inj_on_def of_nat_flow_eq)
  have f: "finite (tf_range c)" "set (tf_avail c) \<subseteq> tf_range c" using i by (auto simp: tf_range_def tf_inv_def)
  have "card (tf_held c) = card (tf_range c) - card (set (tf_avail c))"
    unfolding tf_held_def using inj f by (subst card_image) (auto intro: inj_on_subset simp: card_Diff_subset)
  moreover have "card (set (tf_avail c)) \<le> card (tf_range c)" using f by (rule card_mono)
  moreover have "card (set (tf_avail c)) = length (tf_avail c)" using i by (simp add: tf_inv_def distinct_card)
  ultimately show ?thesis by (cases "tf_avail c") auto
qed

section \<open>Properties\<close>

text \<open>
  C39: After any history of allocations and deallocations of TID flows on a freshly initialised control
  block, the flows held by the clients are pairwise distinct flows of the configured range, and the next
  allocation is refused exactly when every flow of the range is held.
\<close>

theorem tidflow_history:
  assumes "s < e" "e \<le> INFINIPATH_TF_NFLOWS" "length (tf c0) = INFINIPATH_TF_NFLOWS" "tf_call_ok call"
    and "ips_tf_init s e cb ctx c0 = Inr (PSM_OK, c1)"
    and "pool_hist tf_get tf_put (\<lambda>_ _. True) (call, c1) hs (call', c)"
  shows "distinct hs \<and> (\<forall>idx \<in> set hs. s \<le> unat idx \<and> unat idx < e) \<and>
    (\<exists>err idx gen c'. ips_tf_allocate c = Inr (err, idx, gen, c') \<and>
       (err = PSM_OK \<longleftrightarrow> length hs < e - s) \<and> (err \<noteq> PSM_OK \<longrightarrow> err = PSM_EP_NO_RESOURCES \<and> c' = c) \<and>
       (err = PSM_OK \<longrightarrow> idx \<notin> set hs \<and> gen \<noteq> IPS_TF_INVALID_GENERATION))"
proof -
  have c1: "tf_inv c1" "tf_held c1 = {}" "tf_range c1 = {s..<e}" using tf_init_ok [OF assms(1-3), of cb ctx] assms(5) by auto
  have h: "tf_pool_inv {s..<e} (call', c)" "distinct hs" "set hs = tf_held c"
    using tidflows.hist_held [OF assms(6), of "{s..<e}"] c1 assms(4) by (auto simp: tf_pool_inv_def)
  then have c: "tf_inv c" "tf_range c = {s..<e}" by (auto simp: tf_pool_inv_def)
  have r: "s \<le> unat idx \<and> unat idx < e" if "idx \<in> set hs" for idx using that h tf_held_iff [OF c(1)] c by auto
  have "card (tf_held c) \<le> card (tf_range c)" unfolding tf_held_def using c
    by (metis card_image_le card_mono Diff_subset finite_Diff finite_atLeastLessThan order_trans)
  then have n: "tf_avail c = [] \<longleftrightarrow> \<not> length hs < e - s"
    using tf_exhausted [OF c(1)] c h by (auto simp flip: distinct_card)
  show ?thesis
  proof (cases "tf_avail c")
    case Nil
    then show ?thesis using tf_allocate_none [OF c(1) Nil] h r n by simp
  next
    case (Cons i rest)
    have "i \<in> tf_range c" "next_gen (tf c ! i) \<noteq> 0" using c Cons by (auto simp: tf_inv_def)
    then have "of_nat i \<notin> tf_held c" "(ucast (next_gen (tf c ! i)) :: u32) \<noteq> 0"
      using tf_range_less [OF c(1)] Cons by (simp_all add: tf_held_iff [OF c(1)] unat_of_nat_flow ucast_gen_0)
    then show ?thesis using tf_allocate_some [OF c(1) Cons] h r n Cons by (auto simp: tf_consts)
  qed
qed

text \<open>A concrete control block: four flows, all four allocated, one returned.\<close>

definition demo_tfctrl :: ips_tfctrl where
  "demo_tfctrl = \<lparr>tf_start_idx = 0, tf_end_idx = 0, tf_num_max = 0, tf_num_avail = 0, tf_num_total = 0,
     tf_avail_cb = None, tf_avail_context = 0, tf_avail = [],
     tf = replicate 32 \<lparr>tf_st = TF_STATE_INVALID, tf_idx = 0, next_gen = 0\<rparr>, rcvtidflow = (\<lambda>_. 0)\<rparr>"

lemma demo_call_ok: "tf_call_ok (\<lambda>_ _ c. c)"
  by (simp add: tf_call_ok_def)

theorem tidflow_history_witness:
  "\<exists>c1 c hs. ips_tf_init 4 6 None 0 demo_tfctrl = Inr (PSM_OK, c1) \<and> length hs = 1 \<and>
     pool_hist tf_get tf_put (\<lambda>_ _. True) (\<lambda>_ _ c. c, c1) hs (\<lambda>_ _ c. c, c) \<and>
     (\<exists>idx gen c'. ips_tf_allocate c = Inr (PSM_OK, idx, gen, c') \<and> idx \<notin> set hs)"
proof -
  have l: "length (tf demo_tfctrl) = INFINIPATH_TF_NFLOWS" "(6 :: nat) \<le> INFINIPATH_TF_NFLOWS" "(4 :: nat) < 6"
    by (simp_all add: demo_tfctrl_def tf_consts)
  obtain c1 where c1: "ips_tf_init 4 6 None 0 demo_tfctrl = Inr (PSM_OK, c1)" "tf_inv c1" "tf_held c1 = {}" "tf_range c1 = {4..<6}"
    using tf_init_ok [OF l(3,2,1), of None 0] by blast
  have ne: "tf_avail c1 \<noteq> []" using tf_exhausted [OF c1(2)] c1 by simp
  obtain c idx where c: "tf_get () (\<lambda>_ _ c. c, c1) = Inr (Some idx, \<lambda>_ _ c. c, c)"
    using c1(2) by (rule tf_get_cases [where u = "()" and call = "\<lambda>_ _ c. c"]) (use ne in auto)
  have h: "pool_hist tf_get tf_put (\<lambda>_ _. True) (\<lambda>_ _ c. c, c1) [idx] (\<lambda>_ _ c. c, c)"
    by (rule pool_hist.take [where m = "()" and p = "(\<lambda>_ _ c. c, c1)"]) (simp_all add: pool_hist.start c)
  show ?thesis using tidflow_history [OF l(3,2,1) demo_call_ok c1(1) h] c1(1) h by fastforce
qed

text \<open>\<open>k\<close> further generations of the flow \<open>idx\<close>, as packets lost on it make the receiver allocate them.\<close>

fun tfgen_many :: "nat \<Rightarrow> u32 \<Rightarrow> 'w ips_tfctrl_scheme \<Rightarrow> (u32 list \<times> 'w ips_tfctrl_scheme) run" where
  "tfgen_many 0 idx c = Inr ([], c)"
| "tfgen_many (Suc k) idx c = run_bind (ips_tfgen_allocate idx c)
     (\<lambda>(_, gen, c). run_bind (tfgen_many k idx c) (\<lambda>(gens, c). Inr (gen # gens, c)))"

lemma tfgen_step:
  assumes "unat idx < length (tf c)" "idx < tf_end_idx c"
  shows "ips_tfgen_allocate idx c = Inr (PSM_OK, ucast (next_gen (tf c ! unat idx)),
    c\<lparr>tf := (tf c)[unat idx := (tf c ! unat idx)\<lparr>next_gen := gen_advance (next_gen (tf c ! unat idx))\<rparr>]\<rparr>)"
  using assms by (simp add: ips_tfgen_allocate_def Let_def)

lemma tfgen_many_eq:
  "unat idx < length (tf c) \<Longrightarrow> idx < tf_end_idx c \<Longrightarrow>
   \<exists>c'. tfgen_many k idx c = Inr (map (\<lambda>i. ucast ((gen_advance ^^ i) (next_gen (tf c ! unat idx)))) [0..<k], c')"
proof (induction k arbitrary: c)
  case (Suc k)
  let ?c = "c\<lparr>tf := (tf c)[unat idx := (tf c ! unat idx)\<lparr>next_gen := gen_advance (next_gen (tf c ! unat idx))\<rparr>]\<rparr>"
  have "map (\<lambda>i. (ucast ((gen_advance ^^ i) (next_gen (tf c ! unat idx))) :: u32)) [0..<Suc k] =
     ucast (next_gen (tf c ! unat idx)) # map (\<lambda>i. ucast ((gen_advance ^^ i) (gen_advance (next_gen (tf c ! unat idx))))) [0..<k]"
    by (simp add: upt_conv_Cons map_Suc_upt [symmetric] comp_def funpow_swap1 del: upt_Suc)
  then show ?case using Suc.IH [of ?c] Suc.prems by (auto simp: tfgen_step simp del: upt_Suc)
qed simp

text \<open>
  C40: The generations of a flow: allocating a flow gives it a generation, and the next 254 generations
  allocated for it are valid and all different from that one and from each other, so packets of one of
  the last 254 abandoned generations are not taken for packets of the current one.
\<close>

theorem tidflow_generations_distinct:
  assumes "tf_inv c" "ips_tf_allocate c = Inr (PSM_OK, idx, gen, c')"
  shows "\<exists>gens c''. tfgen_many 254 idx c' = Inr (gens, c'') \<and> distinct (gen # gens) \<and>
    IPS_TF_INVALID_GENERATION \<notin> set (gen # gens)"
proof -
  obtain i rest where av: "tf_avail c = i # rest" using assms tf_allocate_none [OF assms(1)] by (cases "tf_avail c") auto
  define g where "g = next_gen (tf c ! i)"
  have i: "i \<in> tf_range c" "g \<noteq> 0" using assms(1) av by (auto simp: tf_inv_def g_def)
  then have l: "i < 32" "i < length (tf c)" "i < unat (tf_end_idx c)" using tf_range_less [OF assms(1)] by (auto simp: tf_range_def)
  have c': "idx = of_nat i" "gen = ucast g" "tf c' = (tf c)[i := (tf c ! i)\<lparr>tf_st := TF_STATE_ALLOCATED, next_gen := gen_advance g\<rparr>]"
    "tf_end_idx c' = tf_end_idx c" using tf_allocate_some [OF assms(1) av] assms(2) by (auto simp: g_def)
  have u: "unat idx = i" using c' l by (simp add: unat_of_nat_flow)
  define G where "G = (\<lambda>k. (ucast ((gen_advance ^^ k) g) :: u32))"
  obtain c'' where many: "tfgen_many 254 idx c' = Inr (map (\<lambda>k. ucast ((gen_advance ^^ k) (gen_advance g))) [0..<254], c'')"
    using tfgen_many_eq [of idx c' 254] u l c' by (auto simp: word_less_nat_alt)
  have e: "gen # map (\<lambda>k. ucast ((gen_advance ^^ k) (gen_advance g))) [0..<254] = map G [0..<255]"
    using map_upt_Suc [of G 254] by (simp add: G_def c' comp_def funpow_swap1 del: upt_Suc upt_rec_numeral)
  have inj: "(ucast (a :: u8) :: u32) = ucast b \<Longrightarrow> a = b" for a b
    using unat_ucast_up [of a, where 'b = 32] unat_ucast_up [of b, where 'b = 32] by (simp add: unat_eq_imp)
  have ne: "G j \<noteq> G k" if "j < k" "k < 255" for j k
    using gen_distinct [OF i(2) that(1)] that inj [of "(gen_advance ^^ j) g" "(gen_advance ^^ k) g"] by (auto simp: G_def)
  have "inj_on G {0..<255}"
  proof (rule inj_onI)
    fix j k assume "j \<in> {0..<255}" "k \<in> {0..<255}" "G j = G k"
    then show "j = k" using ne [of j k] ne [of k j] by (cases j k rule: linorder_cases) auto
  qed
  then have "distinct (map G [0..<255])" by (simp add: distinct_map del: upt_rec_numeral)
  moreover have "G k \<noteq> 0" for k
    using i(2) gen_advance_valid by (cases k) (simp_all add: G_def ucast_gen_0)
  then have "0 \<notin> set (map G [0..<255])" by (metis ex_map_conv)
  ultimately show ?thesis unfolding IPS_TF_INVALID_GENERATION_def e [symmetric] using many by blast
qed

theorem tidflow_generations_distinct_witness:
  "\<exists>(c :: ips_tfctrl) idx gen c' gens c''. tf_inv c \<and> ips_tf_allocate c = Inr (PSM_OK, idx, gen, c') \<and>
     tfgen_many 254 idx c' = Inr (gens, c'') \<and> gen \<notin> set gens \<and> distinct gens"
proof -
  have l: "length (tf demo_tfctrl) = INFINIPATH_TF_NFLOWS" "(6 :: nat) \<le> INFINIPATH_TF_NFLOWS" "(4 :: nat) < 6"
    by (simp_all add: demo_tfctrl_def tf_consts)
  obtain c :: ips_tfctrl where c: "tf_inv c" "tf_held c = {}" "tf_range c = {4..<6}"
    using tf_init_ok [OF l(3,2,1), of None 0] by blast
  have "tf_avail c \<noteq> []" using tf_exhausted [OF c(1)] c by simp
  then obtain i rest where "tf_avail c = i # rest" by (cases "tf_avail c") auto
  then obtain idx gen c' where a: "ips_tf_allocate c = Inr (PSM_OK, idx, gen, c')" using tf_allocate_some [OF c(1)] by blast
  show ?thesis using tidflow_generations_distinct [OF c(1) a] c(1) a by auto
qed

lemma take_bit_word_below: "unat w < 2 ^ k \<Longrightarrow> take_bit k w = (w :: 'a::len word)"
  by (rule unat_eq_imp) (simp add: unsigned_take_bit_eq take_bit_nat_eq_self)

lemma tf_masks: "(0x1f :: 'a::len word) = mask 5" "INFINIPATH_TF_GENVAL_MASK = mask 8" "INFINIPATH_TF_SEQNUM_MASK = mask 11"
  by (simp_all add: tf_consts mask_eq_exp_minus_1)

lemma ucast_masks: "ucast (mask 8 :: u32) = (mask 8 :: u64)" "ucast (mask 11 :: u32) = (mask 11 :: u64)"
  by (simp_all add: mask_eq_exp_minus_1)

lemmas field_bits = bit_or_iff bit_and_iff bit_not_iff bit_push_bit_iff bit_take_bit_iff bit_unsigned_iff bit_mask_iff
  bit_drop_bit_eq comp_def

lemma PSN_PACK_bits:
  "ucast (IPS_TF_PSN_PACK flow gen seq) =
     (push_bit 19 (take_bit 5 flow) OR push_bit 11 (take_bit 8 gen) OR take_bit 11 seq :: u32)"
  unfolding IPS_TF_PSN_PACK_def tf_masks ucast_masks
  by (rule bit_eqI) (simp only: field_bits, auto)

lemma psn_fields:
  fixes v f g s :: u32
  assumes "v = push_bit 19 (take_bit 5 f) OR push_bit 11 (take_bit 8 g) OR take_bit 11 s"
  shows "drop_bit 19 v AND mask 5 = take_bit 5 f" "drop_bit 11 v AND mask 8 = take_bit 8 g" "v AND mask 11 = take_bit 11 s"
  unfolding assms by (rule bit_eqI, simp only: field_bits, auto)+

lemma INC_SEQ_bits:
  fixes v f g s :: u32
  assumes "v = push_bit 19 (take_bit 5 f) OR push_bit 11 (take_bit 8 g) OR take_bit 11 s"
  shows "IPS_TF_INC_SEQ v = push_bit 19 (take_bit 5 f) OR push_bit 11 (take_bit 8 g) OR take_bit 11 (take_bit 11 s + 1)"
proof -
  have "v AND NOT (mask 11) = push_bit 19 (take_bit 5 f) OR push_bit 11 (take_bit 8 g)"
    unfolding assms by (rule bit_eqI) (simp only: field_bits, auto)
  then show ?thesis using psn_fields(3) [OF assms]
    by (simp add: IPS_TF_INC_SEQ_def ipath_tidflow_get_seqnum_def tf_masks take_bit_eq_mask or.assoc)
qed

text \<open>
  Flow, generation and sequence number survive packing into a packet sequence number, and
  advancing the sequence number wraps within its 11 bits and leaves flow and generation alone.
\<close>

theorem tidflow_psn_roundtrip:
  assumes "flow < 32" "gen < 256" "seq < 2048"
  shows "IPS_TF_PSN_UNPACK (ucast (IPS_TF_PSN_PACK flow gen seq)) = (flow, gen, seq) \<and>
    IPS_TF_PSN_UNPACK (IPS_TF_INC_SEQ (ucast (IPS_TF_PSN_PACK flow gen seq))) = (flow, gen, if seq = 2047 then 0 else seq + 1)"
proof -
  have s: "take_bit 5 flow = flow" "take_bit 8 gen = gen" "take_bit 11 seq = seq"
    using assms by (simp_all add: take_bit_word_below word_less_nat_alt)
  have w: "take_bit 11 (seq + 1) = (if seq = 2047 then 0 else seq + 1)"
  proof (cases "seq = 2047")
    case False
    have "seq \<noteq> - 1" using assms(3) by (auto simp: word_less_nat_alt unsigned_minus_1_eq_mask mask_eq_exp_minus_1)
    moreover have "unat seq \<noteq> unat (2047 :: u32)" using False unat_eq_imp by blast
    ultimately have "unat (seq + 1) < 2 ^ 11" using assms(3) by (simp add: unat_inc word_less_nat_alt)
    then show ?thesis using False by (simp add: take_bit_word_below)
  qed (simp add: take_bit_eq_mask mask_eq_exp_minus_1)
  have p: "IPS_TF_PSN_UNPACK v = (take_bit 5 f, take_bit 8 g, take_bit 11 q)"
    if "v = push_bit 19 (take_bit 5 f) OR push_bit 11 (take_bit 8 g) OR take_bit 11 q" for v f g q
    using psn_fields [OF that] by (simp add: IPS_TF_PSN_UNPACK_def tf_masks)
  show ?thesis by (simp only: p [OF PSN_PACK_bits] p [OF INC_SEQ_bits [OF PSN_PACK_bits]] s w simp_thms)
qed

theorem tidflow_psn_roundtrip_witness:
  "IPS_TF_PSN_UNPACK (ucast (IPS_TF_PSN_PACK 31 255 2047)) = (31, 255, 2047) \<and>
   IPS_TF_PSN_UNPACK (IPS_TF_INC_SEQ (ucast (IPS_TF_PSN_PACK 31 255 2047))) = (31, 255, 0)"
  using tidflow_psn_roundtrip [of 31 255 2047] by simp

end
