(* ===== verification/Ips_Epstate.thy ===== *)
theory Ips_Epstate
  imports PSM_Prelude
begin

text \<open>
  The table of connected endpoints of the InfiniPath transport, \<^verbatim>\<open>src/ptl_ips/ips_epstate.c\<close> and
  \<^verbatim>\<open>src/ptl_ips/ips_epstate.h\<close>, and the packing of endpoint identifiers of \<^verbatim>\<open>src/psm_ep.h\<close>. A peer is
  given a 16-bit communication index, its position in the table less a random base; packets carry
  the index and are looked up by it.

  The table is the list of the entries that were really allocated, \<open>[]\<close> is NULL; an access past it is
  undefined. \<open>calloc_ok\<close> is the answer of the memory allocator, \<open>herr\<close> the endpoint's error handler.

  Shown: adding, deleting and looking up refine a finite map from communication indices to peers, and the
  search for a free slot always succeeds; what a failed growth of the table leaves behind.
\<close>

unbundle bit_operations_syntax

section \<open>Endpoint identifiers\<close>

definition PSMI_EPID_PACK_EXT :: "u64 \<Rightarrow> u64 \<Rightarrow> u64 \<Rightarrow> u64 \<Rightarrow> u64 \<Rightarrow> u64" where
  "PSMI_EPID_PACK_EXT lid ctxt subcontext hca_type sl =
     push_bit 16 (lid AND 0xffff) OR push_bit 14 (subcontext AND 0x3) OR push_bit 8 (ctxt AND 0x3f) OR
     push_bit 4 (sl AND 0xf) OR (hca_type AND 0x7)"

text \<open>The fields lid, context, subcontext, host adapter type and service level.\<close>

definition PSMI_EPID_UNPACK_EXT :: "u64 \<Rightarrow> u64 \<times> u64 \<times> u64 \<times> u64 \<times> u64" where
  "PSMI_EPID_UNPACK_EXT epid =
     (drop_bit 16 epid AND 0xffff, drop_bit 8 epid AND 0x3f, drop_bit 14 epid AND 0x3, epid AND 0x7,
      drop_bit 4 epid AND 0xf)"

definition PSMI_EPID_PACK :: "u64 \<Rightarrow> u64 \<Rightarrow> u64 \<Rightarrow> u64" where
  "PSMI_EPID_PACK lid ctxt subcontext = PSMI_EPID_PACK_EXT lid ctxt subcontext 0 0"

definition psm_epid_nid :: "u64 \<Rightarrow> u64" where
  "psm_epid_nid epid = (case PSMI_EPID_UNPACK_EXT epid of (lid, ctxt, subcontext, hca_type, sl) \<Rightarrow> lid)"

definition psm_epid_context :: "u64 \<Rightarrow> u64" where
  "psm_epid_context epid = (case PSMI_EPID_UNPACK_EXT epid of (lid, ctxt, subcontext, hca_type, sl) \<Rightarrow> ctxt)"

definition psmi_epid_subcontext :: "u64 \<Rightarrow> u64" where
  "psmi_epid_subcontext epid = (case PSMI_EPID_UNPACK_EXT epid of (lid, ctxt, subcontext, hca_type, sl) \<Rightarrow> subcontext)"

section \<open>The table\<close>

record ips_epstate_entry =
  eps_epid :: u64
  eps_ipsaddr :: u64

record ips_epstate =
  eps_base_idx :: u16
  eps_tabsize :: nat
  eps_tabsizeused :: int
  eps_tab_nextidx :: nat
  eps_tab :: "ips_epstate_entry list"

definition IPS_EPSTATE_COMMIDX_MAX :: nat where "IPS_EPSTATE_COMMIDX_MAX = 65535"
definition PTL_EPADDR_ALLOC_CHUNK :: nat where "PTL_EPADDR_ALLOC_CHUNK = 128"

definition eps_zero :: ips_epstate_entry where "eps_zero = \<lparr>eps_epid = 0, eps_ipsaddr = 0\<rparr>"

definition ips_epstate_init :: "u64 \<Rightarrow> psm_error \<times> ips_epstate" where
  "ips_epstate_init cycles =
     (PSM_OK, \<lparr>eps_base_idx = ucast cycles, eps_tabsize = 0, eps_tabsizeused = 0, eps_tab_nextidx = 0, eps_tab = []\<rparr>)"

definition ips_epstate_fini :: "ips_epstate \<Rightarrow> psm_error \<times> ips_epstate" where
  "ips_epstate_fini eps =
     (PSM_OK, \<lparr>eps_base_idx = 0, eps_tabsize = 0, eps_tabsizeused = 0, eps_tab_nextidx = 0, eps_tab = []\<rparr>)"

text \<open>The growth of the table; \<open>None\<close> when memory was refused.\<close>

definition eps_grow :: "bool \<Rightarrow> ips_epstate \<Rightarrow> bool \<times> ips_epstate" where
  "eps_grow calloc_ok eps =
     (let eps = eps\<lparr>eps_tabsizeused := eps_tabsizeused eps + 1\<rparr>
      in if eps_tabsizeused eps > int (eps_tabsize eps) then
           let eps = eps\<lparr>eps_tabsize := eps_tabsize eps + PTL_EPADDR_ALLOC_CHUNK\<rparr>
           in if \<not> calloc_ok then (False, eps)
              else let newtab = replicate (eps_tabsize eps) eps_zero;
                       newtab = (if eps_tab eps \<noteq> [] then
                         take (eps_tabsize eps - PTL_EPADDR_ALLOC_CHUNK) (eps_tab eps) @
                         drop (eps_tabsize eps - PTL_EPADDR_ALLOC_CHUNK) newtab else newtab)
                in (True, eps\<lparr>eps_tab := newtab\<rparr>)
         else (True, eps))"

text \<open>The search for the next hole; the first argument counts the rounds left.\<close>

fun eps_find_hole :: "nat \<Rightarrow> nat \<Rightarrow> ips_epstate \<Rightarrow> nat option run" where
  "eps_find_hole 0 j eps = Inr None"
| "eps_find_hole (Suc n) j eps =
     (let j = (if j = eps_tabsize eps then 0 else j)
      in if \<not> j < length (eps_tab eps) then Inl Undefined_Access
         else if eps_epid (eps_tab eps ! j) = 0 then Inr (Some j)
         else eps_find_hole n (j + 1) eps)"

definition ips_epstate_add ::
  "(psm_error \<Rightarrow> psm_error run) \<Rightarrow> bool \<Rightarrow> nat \<Rightarrow> u16 \<Rightarrow> u16 \<Rightarrow> u16 \<Rightarrow> u64 \<Rightarrow> ips_epstate \<Rightarrow>
   (psm_error \<times> u16 option \<times> ips_epstate) run" where
  "ips_epstate_add herr calloc_ok ep_lmc epr_base_lid epr_context epr_subcontext ipsaddr eps =
     (let lmc_mask = NOT (push_bit ep_lmc 1 - 1 :: u16);
          (ok, eps) = eps_grow calloc_ok eps
      in if \<not> ok then Inr (PSM_NO_MEMORY, None, eps)
         else run_bind (eps_find_hole (eps_tabsize eps) (eps_tab_nextidx eps) eps)
           (\<lambda>hole. case hole of
              None \<Rightarrow> Inl Assert_Abort
            | Some j \<Rightarrow>
                let eps = eps\<lparr>eps_tab_nextidx := (if j + 1 = eps_tabsize eps then 0 else j + 1)\<rparr>;
                    commidx = of_nat j - eps_base_idx eps;
                    eps = eps\<lparr>eps_tab := (eps_tab eps)[j := \<lparr>eps_epid =
                       PSMI_EPID_PACK (ucast (epr_base_lid AND lmc_mask)) (ucast epr_context) (ucast epr_subcontext),
                       eps_ipsaddr = ipsaddr\<rparr>]\<rparr>
                in if j \<ge> IPS_EPSTATE_COMMIDX_MAX
                   then run_bind (herr PSM_TOO_MANY_ENDPOINTS) (\<lambda>err. Inr (err, None, eps))
                   else Inr (PSM_OK, Some commidx, eps)))"

definition ips_epstate_del :: "u16 \<Rightarrow> ips_epstate \<Rightarrow> (psm_error \<times> ips_epstate) run" where
  "ips_epstate_del commidx eps =
     (let idx = unat (commidx + eps_base_idx eps)
      in if \<not> idx < eps_tabsize eps then Inl Assert_Abort
         else if \<not> idx < length (eps_tab eps) then Inl Undefined_Access
         else Inr (PSM_OK, eps\<lparr>eps_tab := (eps_tab eps)[idx := eps_zero],
                               eps_tabsizeused := eps_tabsizeused eps - 1\<rparr>))"

text \<open>The entry looked up, \<open>None\<close> for NULL.\<close>

definition ips_epstate_lookup :: "ips_epstate \<Rightarrow> u16 \<Rightarrow> ips_epstate_entry option run" where
  "ips_epstate_lookup eps commidx =
     (let idx = unat (commidx + eps_base_idx eps)
      in if \<not> idx < eps_tabsize eps then Inr None
         else if \<not> idx < length (eps_tab eps) then Inl Undefined_Access
         else Inr (Some (eps_tab eps ! idx)))"

section \<open>Invariant and abstraction\<close>

definition eps_inv :: "ips_epstate \<Rightarrow> bool" where
  "eps_inv eps \<longleftrightarrow> length (eps_tab eps) = eps_tabsize eps \<and> eps_tab_nextidx eps \<le> eps_tabsize eps \<and>
     eps_tabsizeused eps = int (length (filter (\<lambda>e. eps_epid e \<noteq> 0) (eps_tab eps)))"

definition eps_map :: "ips_epstate \<Rightarrow> u16 \<Rightarrow> ips_epstate_entry option" where
  "eps_map eps commidx =
     (let j = unat (commidx + eps_base_idx eps)
      in if j < length (eps_tab eps) \<and> eps_epid (eps_tab eps ! j) \<noteq> 0 then Some (eps_tab eps ! j) else None)"

lemma hole_found:
  "length (eps_tab eps) = eps_tabsize eps \<Longrightarrow> j \<le> eps_tabsize eps \<Longrightarrow> n \<le> eps_tabsize eps \<Longrightarrow> 0 < eps_tabsize eps \<Longrightarrow>
   \<exists>k < n. eps_epid (eps_tab eps ! ((j + k) mod eps_tabsize eps)) = 0 \<Longrightarrow>
   \<exists>i. eps_find_hole n j eps = Inr (Some i) \<and> i < eps_tabsize eps \<and> eps_epid (eps_tab eps ! i) = 0"
proof (induction n arbitrary: j)
  case (Suc n)
  define i where "i = (if j = eps_tabsize eps then 0 else j)"
  have i: "i < eps_tabsize eps" "i = j mod eps_tabsize eps" "Suc i \<le> eps_tabsize eps" using Suc.prems by (auto simp: i_def)
  show ?case
  proof (cases "eps_epid (eps_tab eps ! i) = 0")
    case True
    then show ?thesis using i Suc.prems by (simp add: Let_def i_def)
  next
    case False
    then obtain k where k: "k < n" "eps_epid (eps_tab eps ! ((j + Suc k) mod eps_tabsize eps)) = 0"
      using Suc.prems(5) i by (metis less_Suc_eq_0_disj add_0_right)
    moreover have "(Suc i + k) mod eps_tabsize eps = (j + Suc k) mod eps_tabsize eps"
      unfolding i(2) by (metis add_Suc add_Suc_right mod_add_left_eq)
    ultimately have "\<exists>k < n. eps_epid (eps_tab eps ! ((Suc i + k) mod eps_tabsize eps)) = 0" by metis
    then show ?thesis using Suc.IH [of "Suc i"] Suc.prems i False by (simp add: Let_def i_def [symmetric])
  qed
qed simp

lemma filter_update_count:
  assumes "j < length xs"
  shows "length (filter P (xs[j := v])) + (if P (xs ! j) then 1 else 0) = length (filter P xs) + (if P v then 1 else 0)"
proof -
  have "length (filter P xs) = length (filter P (take j xs @ xs ! j # drop (Suc j) xs))"
    using id_take_nth_drop [OF assms] by simp
  then have "length (filter P xs) = length (filter P (take j xs)) + (if P (xs ! j) then 1 else 0) + length (filter P (drop (Suc j) xs))"
    by simp
  moreover have "length (filter P (xs[j := v])) = length (filter P (take j xs)) + (if P v then 1 else 0) + length (filter P (drop (Suc j) xs))"
    using assms by (simp add: upd_conv_take_nth_drop)
  ultimately show ?thesis by simp
qed

lemma mod_hits: "j \<le> s \<Longrightarrow> i < s \<Longrightarrow> \<exists>k < s. (j + k) mod s = (i :: nat)"
proof (cases "j \<le> i")
  case True
  then show "i < s \<Longrightarrow> ?thesis" by (intro exI [of _ "i - j"]) auto
next
  case False
  assume "j \<le> s" "i < s"
  with False have "j + (s - j + i) = s + i" "s - j + i < s" by auto
  then show ?thesis using \<open>i < s\<close> by (intro exI [of _ "s - j + i"]) auto
qed

lemma hole_exists:
  assumes "length tab = s" "length (filter (\<lambda>e. eps_epid e \<noteq> 0) tab) < s" "j \<le> s"
  shows "\<exists>k < s. eps_epid (tab ! ((j + k) mod s)) = 0"
proof -
  have "\<exists>e \<in> set tab. eps_epid e = 0" using assms(1,2) by (metis (mono_tags, lifting) filter_True less_irrefl)
  then obtain i where "i < s" "eps_epid (tab ! i) = 0" using assms(1) by (metis in_set_conv_nth)
  then show ?thesis using mod_hits [OF assms(3)] by metis
qed

lemma eps_grow_ok:
  assumes "eps_inv eps" "calloc_ok" "eps_grow calloc_ok eps = (ok, eps')"
  shows "ok \<and> length (eps_tab eps') = eps_tabsize eps' \<and> eps_tab_nextidx eps' \<le> eps_tabsize eps' \<and> 0 < eps_tabsize eps' \<and>
    length (filter (\<lambda>e. eps_epid e \<noteq> 0) (eps_tab eps')) < eps_tabsize eps' \<and> eps_base_idx eps' = eps_base_idx eps \<and>
    eps_tabsizeused eps' = int (length (filter (\<lambda>e. eps_epid e \<noteq> 0) (eps_tab eps'))) + 1 \<and>
    (\<forall>j. j < length (eps_tab eps') \<and> eps_epid (eps_tab eps' ! j) \<noteq> 0 \<longleftrightarrow> j < length (eps_tab eps) \<and> eps_epid (eps_tab eps ! j) \<noteq> 0) \<and>
    (\<forall>j < length (eps_tab eps). eps_tab eps' ! j = eps_tab eps ! j) \<and> eps_tabsize eps' \<le> eps_tabsize eps + PTL_EPADDR_ALLOC_CHUNK \<and>
    eps_tabsize eps \<le> eps_tabsize eps'"
proof -
  let ?n = "length (filter (\<lambda>e. eps_epid e \<noteq> 0) (eps_tab eps))"
  have i: "length (eps_tab eps) = eps_tabsize eps" "eps_tab_nextidx eps \<le> eps_tabsize eps" "eps_tabsizeused eps = int ?n"
    using assms(1) by (auto simp: eps_inv_def)
  have z: "filter (\<lambda>e. eps_epid e \<noteq> 0) (replicate m eps_zero) = []" for m by (simp add: eps_zero_def)
  show ?thesis
  proof (cases "int ?n + 1 > int (eps_tabsize eps)")
    case False
    then show ?thesis using assms i by (auto simp: eps_grow_def Let_def)
  next
    case True
    then have "eps' = eps\<lparr>eps_tabsizeused := int ?n + 1, eps_tabsize := eps_tabsize eps + 128,
        eps_tab := eps_tab eps @ replicate 128 eps_zero\<rparr>" "ok"
      using assms i by (auto simp: eps_grow_def Let_def PTL_EPADDR_ALLOC_CHUNK_def split: if_splits)
    moreover have "?n \<le> eps_tabsize eps" using i(1) by (metis length_filter_le)
    ultimately show ?thesis using i z by (auto simp: nth_append PTL_EPADDR_ALLOC_CHUNK_def eps_zero_def)
  qed
qed

lemma commidx_inverse: "j < 65536 \<Longrightarrow> unat (of_nat j - b + b :: u16) = j"
  by (simp add: unat_of_nat)

lemma commidx_eq_iff: "unat (c + b :: u16) = j \<longleftrightarrow> c = of_nat j - b \<and> j < 65536"
proof
  assume "unat (c + b) = j"
  then show "c = of_nat j - b \<and> j < 65536" using unsigned_less [of "c + b", where 'a = nat] by auto
qed (simp add: unat_of_nat)

section \<open>Adding, deleting and looking up\<close>

text \<open>The identifier entered for a peer, and the condition under which a slot with it is not taken for a free one.\<close>

definition peer_epid :: "nat \<Rightarrow> u16 \<Rightarrow> u16 \<Rightarrow> u16 \<Rightarrow> u64" where
  "peer_epid lmc lid ctxt subcontext =
     PSMI_EPID_PACK (ucast (lid AND NOT (push_bit lmc 1 - 1))) (ucast ctxt) (ucast subcontext)"

lemma eps_add_ok:
  assumes i: "eps_inv eps" and small: "eps_tabsize eps + PTL_EPADDR_ALLOC_CHUNK < IPS_EPSTATE_COMMIDX_MAX"
    and pe: "peer_epid lmc lid ctxt subcontext \<noteq> 0"
  shows "\<exists>c eps'. ips_epstate_add herr True lmc lid ctxt subcontext ipsaddr eps = Inr (PSM_OK, Some c, eps') \<and>
    eps_inv eps' \<and> eps_map eps c = None \<and> eps_tabsizeused eps' = eps_tabsizeused eps + 1 \<and>
    eps_map eps' = (eps_map eps)(c \<mapsto> \<lparr>eps_epid = peer_epid lmc lid ctxt subcontext, eps_ipsaddr = ipsaddr\<rparr>)"
proof -
  let ?e = "\<lparr>eps_epid = peer_epid lmc lid ctxt subcontext, eps_ipsaddr = ipsaddr\<rparr>"
  obtain ok g where g: "eps_grow True eps = (ok, g)" by fastforce
  note gr = eps_grow_ok [OF i TrueI g]
  obtain j where j: "eps_find_hole (eps_tabsize g) (eps_tab_nextidx g) g = Inr (Some j)" "j < eps_tabsize g"
    "eps_epid (eps_tab g ! j) = 0"
    using hole_found [of g "eps_tab_nextidx g" "eps_tabsize g"] hole_exists [of "eps_tab g" "eps_tabsize g" "eps_tab_nextidx g"] gr
    by auto
  define n where "n = g\<lparr>eps_tab_nextidx := (if j + 1 = eps_tabsize g then 0 else j + 1), eps_tab := (eps_tab g)[j := ?e]\<rparr>"
  have l: "j < 65535" "eps_tabsize g < 65535" using j small gr by (auto simp: IPS_EPSTATE_COMMIDX_MAX_def PTL_EPADDR_ALLOC_CHUNK_def)
  define c where "c = (of_nat j - eps_base_idx g :: u16)"
  have r: "ips_epstate_add herr True lmc lid ctxt subcontext ipsaddr eps = Inr (PSM_OK, Some c, n)"
    using g gr j l by (simp add: ips_epstate_add_def Let_def n_def c_def peer_epid_def IPS_EPSTATE_COMMIDX_MAX_def)
  have cnt: "length (filter (\<lambda>e. eps_epid e \<noteq> 0) (eps_tab n)) = Suc (length (filter (\<lambda>e. eps_epid e \<noteq> 0) (eps_tab g)))"
    using filter_update_count [of j "eps_tab g" "\<lambda>e. eps_epid e \<noteq> 0" ?e] j gr pe by (simp add: n_def)
  have "eps_inv n" unfolding eps_inv_def cnt using gr j by (simp add: n_def)
  moreover have mg: "eps_map g = eps_map eps"
    using gr by (intro ext) (auto simp: eps_map_def Let_def)
  moreover have "eps_map n = (eps_map g)(c \<mapsto> ?e)"
  proof
    fix d
    show "eps_map n d = ((eps_map g)(c \<mapsto> ?e)) d"
      using commidx_eq_iff [of d "eps_base_idx g" j] j l gr pe
      by (auto simp: eps_map_def Let_def n_def c_def nth_list_update)
  qed
  moreover have "eps_map g c = None" using j l gr commidx_inverse [of j "eps_base_idx g"] by (simp add: eps_map_def c_def)
  moreover have "eps_tabsizeused n = eps_tabsizeused eps + 1"
    using g by (auto simp: n_def eps_grow_def Let_def split: if_splits)
  ultimately show ?thesis using r by auto
qed

lemma eps_del_ok:
  assumes i: "eps_inv eps" and m: "eps_map eps c = Some e"
  shows "\<exists>eps'. ips_epstate_del c eps = Inr (PSM_OK, eps') \<and> eps_inv eps' \<and> eps_map eps' = (eps_map eps)(c := None) \<and>
    eps_tabsize eps' = eps_tabsize eps"
proof -
  let ?j = "unat (c + eps_base_idx eps)"
  have j: "?j < length (eps_tab eps)" "eps_epid (eps_tab eps ! ?j) \<noteq> 0" "length (eps_tab eps) = eps_tabsize eps"
    using m i by (auto simp: eps_map_def Let_def eps_inv_def split: if_splits)
  let ?n = "eps\<lparr>eps_tab := (eps_tab eps)[?j := eps_zero], eps_tabsizeused := eps_tabsizeused eps - 1\<rparr>"
  have "Suc (length (filter (\<lambda>e. eps_epid e \<noteq> 0) ((eps_tab eps)[?j := eps_zero]))) = length (filter (\<lambda>e. eps_epid e \<noteq> 0) (eps_tab eps))"
    using filter_update_count [of ?j "eps_tab eps" "\<lambda>e. eps_epid e \<noteq> 0" eps_zero] j by (simp add: eps_zero_def)
  then have "eps_inv ?n" using i by (auto simp: eps_inv_def)
  moreover have "eps_map ?n = (eps_map eps)(c := None)"
  proof
    fix d
    have "unat (d + eps_base_idx eps) = ?j \<longleftrightarrow> d = c" using commidx_eq_iff [of d "eps_base_idx eps" ?j] commidx_eq_iff [of c "eps_base_idx eps" ?j] by auto
    then show "eps_map ?n d = ((eps_map eps)(c := None)) d" using j by (auto simp: eps_map_def Let_def nth_list_update eps_zero_def)
  qed
  ultimately show ?thesis using j by (simp add: ips_epstate_del_def Let_def)
qed

lemma eps_lookup_ok:
  "eps_inv eps \<Longrightarrow> \<exists>r. ips_epstate_lookup eps c = Inr r \<and>
     (case eps_map eps c of Some e \<Rightarrow> r = Some e | None \<Rightarrow> (\<forall>e. r = Some e \<longrightarrow> eps_epid e = 0))"
  by (auto simp: ips_epstate_lookup_def eps_map_def eps_inv_def Let_def)

section \<open>Properties\<close>

text \<open>
  A history of the table: peers are added while it may still grow by a chunk below the limit, and
  removed by their index. The map records what was entered under which index.
\<close>

definition may_add :: "ips_epstate \<Rightarrow> bool" where
  "may_add eps \<longleftrightarrow> eps_tabsize eps + PTL_EPADDR_ALLOC_CHUNK < IPS_EPSTATE_COMMIDX_MAX"

inductive eps_hist :: "(psm_error \<Rightarrow> psm_error run) \<Rightarrow> ips_epstate \<Rightarrow> (u16 \<Rightarrow> ips_epstate_entry option) \<Rightarrow> ips_epstate \<Rightarrow> bool"
  for herr eps0 where
  start: "eps_hist herr eps0 Map.empty eps0"
| add: "eps_hist herr eps0 m eps \<Longrightarrow> may_add eps \<Longrightarrow> peer_epid lmc lid ctxt subcontext \<noteq> 0 \<Longrightarrow>
     ips_epstate_add herr True lmc lid ctxt subcontext ipsaddr eps = Inr (PSM_OK, Some c, eps') \<Longrightarrow>
     eps_hist herr eps0 (m(c \<mapsto> \<lparr>eps_epid = peer_epid lmc lid ctxt subcontext, eps_ipsaddr = ipsaddr\<rparr>)) eps'"
| del: "eps_hist herr eps0 m eps \<Longrightarrow> m c \<noteq> None \<Longrightarrow> ips_epstate_del c eps = Inr (PSM_OK, eps') \<Longrightarrow>
     eps_hist herr eps0 (m(c := None)) eps'"

lemma eps_hist_map: "eps_hist herr eps0 m eps \<Longrightarrow> eps_inv eps0 \<Longrightarrow> eps_map eps0 = Map.empty \<Longrightarrow> eps_inv eps \<and> eps_map eps = m"
proof (induction rule: eps_hist.induct)
  case (add m eps lmc lid ctxt subcontext ipsaddr c eps')
  then show ?case using eps_add_ok [of eps lmc lid ctxt subcontext herr ipsaddr] by (auto simp: may_add_def)
next
  case (del m eps c eps')
  then obtain e where "eps_map eps c = Some e" "eps_inv eps" by auto
  then show ?case using eps_del_ok [of eps c e] del by auto
qed simp

lemma eps_init_inv: "ips_epstate_init cycles = (err, eps) \<Longrightarrow> eps_inv eps \<and> eps_map eps = Map.empty \<and> eps_tabsize eps = 0"
  by (auto simp: ips_epstate_init_def eps_inv_def eps_map_def fun_eq_iff)

text \<open>
  C38: The endpoint table refines a finite map: after any history of additions and removals, a lookup
  finds exactly the peers entered under their communication indices and nothing with a non-zero
  identifier under any other index, removing a registered peer succeeds, and a further peer always
  gets a slot and an index that no registered peer has (the search for a free slot never fails).
\<close>

theorem epstate_refines_map:
  assumes "ips_epstate_init cycles = (PSM_OK, eps0)" "eps_hist herr eps0 m eps"
  shows "(\<forall>c. \<exists>r. ips_epstate_lookup eps c = Inr r \<and>
       (case m c of Some e \<Rightarrow> r = Some e | None \<Rightarrow> (\<forall>e. r = Some e \<longrightarrow> eps_epid e = 0))) \<and>
    (\<forall>c. m c \<noteq> None \<longrightarrow> (\<exists>eps'. ips_epstate_del c eps = Inr (PSM_OK, eps') \<and> eps_hist herr eps0 (m(c := None)) eps')) \<and>
    (may_add eps \<and> peer_epid lmc lid ctxt subcontext \<noteq> 0 \<longrightarrow>
      (\<exists>c eps'. ips_epstate_add herr True lmc lid ctxt subcontext ipsaddr eps = Inr (PSM_OK, Some c, eps') \<and> m c = None))"
proof -
  have i: "eps_inv eps" "eps_map eps = m" using eps_hist_map [OF assms(2)] eps_init_inv [OF assms(1)] by auto
  show ?thesis
  proof (intro conjI allI impI)
    show "\<exists>r. ips_epstate_lookup eps c = Inr r \<and>
       (case m c of Some e \<Rightarrow> r = Some e | None \<Rightarrow> (\<forall>e. r = Some e \<longrightarrow> eps_epid e = 0))" for c
      using eps_lookup_ok [OF i(1), of c] i(2) by simp
  next
    fix c assume "m c \<noteq> None"
    then show "\<exists>eps'. ips_epstate_del c eps = Inr (PSM_OK, eps') \<and> eps_hist herr eps0 (m(c := None)) eps'"
      using eps_del_ok [OF i(1), of c] i(2) eps_hist.del [OF assms(2)] by fastforce
  next
    assume "may_add eps \<and> peer_epid lmc lid ctxt subcontext \<noteq> 0"
    then show "\<exists>c eps'. ips_epstate_add herr True lmc lid ctxt subcontext ipsaddr eps = Inr (PSM_OK, Some c, eps') \<and> m c = None"
      using eps_add_ok [OF i(1), of lmc lid ctxt subcontext herr ipsaddr] i(2) by (auto simp: may_add_def)
  qed
qed

lemma demo_peer: "peer_epid 0 0x12 3 1 \<noteq> 0"
  by (simp add: peer_epid_def PSMI_EPID_PACK_def PSMI_EPID_PACK_EXT_def)

theorem epstate_refines_map_witness:
  "\<exists>eps0 eps c e. ips_epstate_init 0xfff0 = (PSM_OK, eps0) \<and>
     eps_hist (\<lambda>e. Inr e) eps0 [c \<mapsto> e] eps \<and> ips_epstate_lookup eps c = Inr (Some e) \<and> eps_ipsaddr e = 0x5000"
proof -
  obtain eps0 where z: "ips_epstate_init 0xfff0 = (PSM_OK, eps0)" by (simp add: ips_epstate_init_def)
  note i = eps_init_inv [OF z]
  have a: "may_add eps0" using i by (simp add: may_add_def PTL_EPADDR_ALLOC_CHUNK_def IPS_EPSTATE_COMMIDX_MAX_def)
  obtain c eps where c: "ips_epstate_add (\<lambda>e. Inr e) True 0 0x12 3 1 0x5000 eps0 = Inr (PSM_OK, Some c, eps)"
    using eps_add_ok [OF _ _ demo_peer, of eps0 "\<lambda>e. Inr e" "0x5000"] i a by (auto simp: may_add_def)
  have h: "eps_hist (\<lambda>e. Inr e) eps0 [c \<mapsto> \<lparr>eps_epid = peer_epid 0 0x12 3 1, eps_ipsaddr = 0x5000\<rparr>] eps"
    using eps_hist.add [OF eps_hist.start a demo_peer c] .
  have "ips_epstate_lookup eps c = Inr (Some \<lparr>eps_epid = peer_epid 0 0x12 3 1, eps_ipsaddr = 0x5000\<rparr>)"
    using epstate_refines_map [OF z h, THEN conjunct1, rule_format, of c] by simp
  then show ?thesis using z h by (metis ips_epstate_entry.select_convs(2))
qed

text \<open>
  When the table is full and the allocator refuses its growth, adding a peer reports
  PSM_NO_MEMORY but leaves the enlarged size behind with the old array: looking up the first index
  of the missing chunk, and adding a further peer, then run past the end of the array.
\<close>

theorem epstate_failed_growth:
  assumes "eps_inv eps" "eps_tabsizeused eps = int (eps_tabsize eps)" "eps_tabsize eps < 65408" "eps_tab_nextidx eps = 0"
  shows "\<exists>eps'. ips_epstate_add herr False lmc lid ctxt subcontext ipsaddr eps = Inr (PSM_NO_MEMORY, None, eps') \<and>
    ips_epstate_lookup eps' (of_nat (eps_tabsize eps) - eps_base_idx eps') = Inl Undefined_Access \<and>
    ips_epstate_add herr calloc_ok lmc lid ctxt subcontext ipsaddr eps' = Inl Undefined_Access"
proof -
  let ?g = "\<lambda>u. eps\<lparr>eps_tabsize := eps_tabsize eps + 128, eps_tabsizeused := u\<rparr>"
  let ?e = "?g (int (eps_tabsize eps) + 1)"
  have l: "length (eps_tab eps) = eps_tabsize eps" using assms(1) by (simp add: eps_inv_def)
  have full: "eps_epid (eps_tab eps ! j) \<noteq> 0" if "j < eps_tabsize eps" for j
    using assms(1,2) that l by (simp add: eps_inv_def) (metis (mono_tags, lifting) filter_id_conv length_filter_less nth_mem nat_neq_iff)
  have walk: "eps_find_hole n j (?g u) = Inl Undefined_Access" if "j \<le> eps_tabsize eps" "eps_tabsize eps < j + n" for n j u
    using that
  proof (induction n arbitrary: j)
    case (Suc n)
    then show ?case using full [of j] l by (cases "j = eps_tabsize eps") (auto simp: Let_def)
  qed simp
  have a: "ips_epstate_add herr False lmc lid ctxt subcontext ipsaddr eps = Inr (PSM_NO_MEMORY, None, ?e)"
    using assms(2) by (simp add: ips_epstate_add_def eps_grow_def Let_def PTL_EPADDR_ALLOC_CHUNK_def)
  moreover have "ips_epstate_lookup ?e (of_nat (eps_tabsize eps) - eps_base_idx ?e) = Inl Undefined_Access"
    using commidx_inverse [of "eps_tabsize eps" "eps_base_idx eps"] assms(3) l by (simp add: ips_epstate_lookup_def Let_def)
  moreover have "eps_grow calloc_ok ?e = (True, ?g (int (eps_tabsize eps) + 2))"
    by (simp add: eps_grow_def Let_def)
  then have "ips_epstate_add herr calloc_ok lmc lid ctxt subcontext ipsaddr ?e = Inl Undefined_Access"
    using walk [of 0 "eps_tabsize eps + 128"] assms(4) by (simp add: ips_epstate_add_def Let_def)
  ultimately show ?thesis by blast
qed

theorem epstate_failed_growth_witness:
  "\<exists>eps'. ips_epstate_add (\<lambda>e. Inr e) False 0 0x12 3 1 0x5000 (snd (ips_epstate_init 7)) = Inr (PSM_NO_MEMORY, None, eps') \<and>
     ips_epstate_lookup eps' (- 7) = Inl Undefined_Access"
proof -
  have i: "eps_inv (snd (ips_epstate_init 7))" "eps_tabsize (snd (ips_epstate_init 7)) = 0"
    "eps_tabsizeused (snd (ips_epstate_init 7)) = int (eps_tabsize (snd (ips_epstate_init 7)))"
    "eps_tab_nextidx (snd (ips_epstate_init 7)) = 0" "eps_base_idx (snd (ips_epstate_init 7)) = 7"
    by (simp_all add: ips_epstate_init_def eps_inv_def)
  have b: "eps_base_idx eps' = eps_base_idx eps" if "ips_epstate_add herr False lmc lid ctxt sub ipsaddr eps = Inr (PSM_NO_MEMORY, None, eps')"
      "eps_tabsizeused eps = int (eps_tabsize eps)"
    for eps eps' herr lmc lid ctxt sub ipsaddr using that by (auto simp: ips_epstate_add_def eps_grow_def Let_def)
  show ?thesis
    using epstate_failed_growth [OF i(1,3) _ i(4), of "\<lambda>e. Inr e" 0 "0x12" 3 1 "0x5000" True] i b [OF _ i(3)] by fastforce
qed

end
