(* ===== verification/Ips_Scb.thy ===== *)
theory Ips_Scb
  imports Mpool
begin

text \<open>
  Send control blocks, \<^verbatim>\<open>src/ptl_ips/ips_scb.c\<close> and \<^verbatim>\<open>src/ptl_ips/ips_scb.h\<close>: the pools of control blocks
  and of bounce buffers that every frame in flight on the InfiniPath transport uses.

  Control blocks and buffers are named by their addresses; the blocks' fields are the function \<open>scbs\<close> of
  the control structure. The two free lists are \<^verbatim>\<open>SLIST\<close>s used as stacks. The union of \<^verbatim>\<open>payload\<close> and
  \<^verbatim>\<open>sbuf\<close> is the one field \<open>payload\<close>. \<^verbatim>\<open>PSM_VALGRIND_REDZONE_SZ\<close> is 0. The callback for available blocks is
  the argument \<open>call\<close>; \<open>'w\<close> is the rest of the program, which it acts on.

  Shown: a block is handed out to one client at a time, a bounce buffer belongs to one block at a
  time, the counters are exact, the assertions of the buffer allocation never fail, and the callback
  runs exactly when the pool of blocks was empty.
\<close>

unbundle bit_operations_syntax

section \<open>Blocks and their control structure\<close>

type_synonym u24 = "24 word"

definition IPS_SEND_FLAG_ACK_REQ :: u32 where "IPS_SEND_FLAG_ACK_REQ = 0x04"
definition IPS_SEND_FLAG_PENDING :: u32 where "IPS_SEND_FLAG_PENDING = 0x0100"
definition IPS_SEND_FLAG_PERSISTENT :: u32 where "IPS_SEND_FLAG_PERSISTENT = 0x0200"
definition IPS_SEND_FLAG_WAIT_SDMA :: u32 where "IPS_SEND_FLAG_WAIT_SDMA = 0x0800"
definition IPS_SEND_FLAG_PROTO_OPTS :: u32 where "IPS_SEND_FLAG_PROTO_OPTS = 0xff"
definition IPS_SCB_FLAG_ADD_BUFFER :: u32 where "IPS_SCB_FLAG_ADD_BUFFER = 0x1"
definition IPATH_EAGER_TID_ID :: u16 where "IPATH_EAGER_TID_ID = 0x7ff"

text \<open>
  \<^verbatim>\<open>struct ips_scb\<close>. Of the message header the fields that the protocol sets and reads are kept; the
  sequence number is its 24-bit packet sequence number, \<open>lrh_pad\<close> the two bits of \<^verbatim>\<open>bth[0]\<close> that count the bytes of
  padding.
\<close>

record ips_scb =
  payload :: u64
  ack_timeout :: u64
  abs_timeout :: u64
  seq_num :: u24
  payload_size :: u32
  scb_cksum :: u32
  scb_flags :: u32
  dma_ctr :: u32
  scb_tid :: u16
  scb_offset :: u16
  tidsendc :: u64
  imm_payload :: u64
  scb_callback :: "nat option"
  cb_param :: u64
  lrh_pad :: u32
  lrh_flags :: u8
  lrh_flowid :: u8
  lrh_ack_seq_num :: u24
  lrh_sub_opcode :: u8
  lrh_hdr_dlen :: u8
  lrh_mqhdr :: u16
  lrh_data :: "u64 \<times> u64"

record ips_scbctrl =
  scb_num :: u32
  scb_num_cur :: u32
  scb_free :: "u64 list"
  scb_base :: u64
  scb_avail_callback :: "nat option"
  scb_avail_context :: u64
  scb_imm_size :: u32
  scb_imm_buf :: u64
  sbuf_num :: u32
  sbuf_num_cur :: u32
  sbuf_free :: "u64 list"
  sbuf_buf_alloc :: u64
  sbuf_buf_size :: u32
  sbuf_buf_base :: u64
  sbuf_buf_last :: u64
  scbs :: "u64 \<Rightarrow> ips_scb"

definition upd_scb :: "u64 \<Rightarrow> (ips_scb \<Rightarrow> ips_scb) \<Rightarrow> 'w ips_scbctrl_scheme \<Rightarrow> 'w ips_scbctrl_scheme" where
  "upd_scb s f c = c\<lparr>scbs := (scbs c)(s := f (scbs c s))\<rparr>"

definition sizeof_ips_scb :: u64 where "sizeof_ips_scb = 192"

definition scb_calloc :: ips_scb where
  "scb_calloc = \<lparr>payload = 0, ack_timeout = 0, abs_timeout = 0, seq_num = 0, payload_size = 0, scb_cksum = 0,
     scb_flags = 0, dma_ctr = 0, scb_tid = 0, scb_offset = 0, tidsendc = 0, imm_payload = 0, scb_callback = None,
     cb_param = 0, lrh_pad = 0, lrh_flags = 0, lrh_flowid = 0, lrh_ack_seq_num = 0, lrh_sub_opcode = 0, lrh_hdr_dlen = 0,
     lrh_mqhdr = 0, lrh_data = (0, 0)\<rparr>"

section \<open>Initialisation\<close>

text \<open>
  The addresses of the bounce buffers and of the control blocks. The products are computed in 32 bits
  for the buffers, as \<^verbatim>\<open>bufsize\<close> and \<^verbatim>\<open>numbufs\<close> are, and in 64 bits for the blocks.
\<close>

definition sbuf_addr :: "u64 \<Rightarrow> u32 \<Rightarrow> nat \<Rightarrow> u64" where
  "sbuf_addr base bufsize i = base + ucast (bufsize * of_nat i)"

definition scb_addr :: "u64 \<Rightarrow> nat \<Rightarrow> u64" where
  "scb_addr base i = base + of_nat i * sizeof_ips_scb"

text \<open>The two loops that fill the free lists.\<close>

definition sbuf_init_loop :: "u64 \<Rightarrow> u32 \<Rightarrow> nat \<Rightarrow> 'w ips_scbctrl_scheme \<Rightarrow> 'w ips_scbctrl_scheme" where
  "sbuf_init_loop base bufsize n c =
     fold (\<lambda>i c. c\<lparr>sbuf_free := sbuf_addr base bufsize i # sbuf_free c\<rparr>) [0..<n] c"

definition scb_init_loop :: "u64 \<Rightarrow> nat \<Rightarrow> 'w ips_scbctrl_scheme \<Rightarrow> 'w ips_scbctrl_scheme" where
  "scb_init_loop base n c =
     fold (\<lambda>i c. let s = scb_addr base i;
                     c = upd_scb s (\<lambda>_. scb_calloc\<lparr>imm_payload :=
                           if scb_imm_buf c \<noteq> 0 then scb_imm_buf c + ucast (of_nat i * scb_imm_size c) else 0\<rparr>) c
                 in c\<lparr>scb_free := s # scb_free c\<rparr>) [0..<n] c"

definition ips_scbctrl_init ::
  "u64 \<Rightarrow> u64 option \<Rightarrow> u64 option \<Rightarrow> u64 option \<Rightarrow> u32 \<Rightarrow> u32 \<Rightarrow> u32 \<Rightarrow> u32 \<Rightarrow> nat option \<Rightarrow> u64 \<Rightarrow>
   'w ips_scbctrl_scheme \<Rightarrow> (psm_error \<times> 'w ips_scbctrl_scheme) run" where
  "ips_scbctrl_init pagesize buf_mem imm_mem scb_mem numscb numbufs imm_size bufsize cb cb_context c =
     (if \<not> numscb > 0 then Inl Assert_Abort
      else let c = c\<lparr>sbuf_num := numbufs, sbuf_num_cur := numbufs, sbuf_free := [], sbuf_buf_size := bufsize,
                     sbuf_buf_base := 0, sbuf_buf_alloc := 0, sbuf_buf_last := 0\<rparr>
        in case (if numbufs > 0 then
                   (case buf_mem of
                      None \<Rightarrow> None
                    | Some m \<Rightarrow>
                        let base = PSMI_ALIGNUP m pagesize;
                            c = c\<lparr>sbuf_buf_alloc := m, sbuf_buf_base := base,
                                  sbuf_buf_last := base + ucast (bufsize * (numbufs - 1))\<rparr>
                        in Some (sbuf_init_loop base bufsize (unat numbufs) c))
                 else Some c) of
             None \<Rightarrow> Inr (PSM_NO_MEMORY, c)
           | Some c \<Rightarrow>
               let c = c\<lparr>scb_imm_size := imm_size\<rparr>
               in case (if imm_size \<noteq> 0 then imm_mem else Some 0) of
                    None \<Rightarrow> Inr (PSM_NO_MEMORY, c\<lparr>scb_imm_buf := 0\<rparr>)
                  | Some m \<Rightarrow>
                      let c = c\<lparr>scb_imm_buf := m, scb_num := numscb, scb_num_cur := numscb, scb_free := []\<rparr>
                      in case scb_mem of
                           None \<Rightarrow> Inr (PSM_NO_MEMORY, c)
                         | Some m \<Rightarrow>
                             let c = scb_init_loop m (unat numscb) (c\<lparr>scb_base := m\<rparr>)
                             in Inr (PSM_OK, c\<lparr>scb_avail_callback := cb, scb_avail_context := cb_context\<rparr>))"

text \<open>The blocks returned to the C heap.\<close>

definition ips_scbctrl_fini :: "'w ips_scbctrl_scheme \<Rightarrow> psm_error \<times> u64 list" where
  "ips_scbctrl_fini c =
     (PSM_OK, (if scb_base c \<noteq> 0 then [scb_base c] else []) @
              (if sbuf_buf_alloc c \<noteq> 0 then [sbuf_buf_alloc c] else []))"

section \<open>Allocation\<close>

text \<open>Whether a payload is one of the bounce buffers, by the test of the code.\<close>

definition in_sbufs :: "u64 \<Rightarrow> 'w ips_scbctrl_scheme \<Rightarrow> bool" where
  "in_sbufs p c \<longleftrightarrow> p \<ge> sbuf_buf_base c \<and> p \<le> sbuf_buf_last c"

definition ips_scbctrl_bufalloc :: "u64 \<Rightarrow> 'w ips_scbctrl_scheme \<Rightarrow> (bool \<times> 'w ips_scbctrl_scheme) run" where
  "ips_scbctrl_bufalloc s c =
     (if \<not> sbuf_num c > 0 then Inl Assert_Abort
      else if in_sbufs (payload (scbs c s)) c then Inl Assert_Abort
      else case sbuf_free c of
        [] \<Rightarrow> Inr (False, c)
      | b # rest \<Rightarrow>
          let c = upd_scb s (\<lambda>x. x\<lparr>payload := b, payload_size := sbuf_buf_size c\<rparr>) c;
              c = c\<lparr>sbuf_num_cur := sbuf_num_cur c - 1\<rparr>;
              c = (if sbuf_num_cur c < drop_bit 1 (sbuf_num c)
                   then upd_scb s (\<lambda>x. x\<lparr>scb_flags := scb_flags x OR IPS_SEND_FLAG_ACK_REQ\<rparr>) c else c)
          in Inr (True, c\<lparr>sbuf_free := rest\<rparr>))"

definition ips_scbctrl_avail :: "'w ips_scbctrl_scheme \<Rightarrow> bool" where
  "ips_scbctrl_avail c \<longleftrightarrow> scb_free c \<noteq> [] \<and> sbuf_num_cur c > 0"

text \<open>The accounting common to the two allocators: one block less, an acknowledgement when half are in use.\<close>

definition scb_account :: "u64 \<Rightarrow> 'w ips_scbctrl_scheme \<Rightarrow> 'w ips_scbctrl_scheme" where
  "scb_account s c =
     (let c = c\<lparr>scb_num_cur := scb_num_cur c - 1\<rparr>
      in if scb_num_cur c < drop_bit 1 (scb_num c)
         then upd_scb s (\<lambda>x. x\<lparr>scb_flags := scb_flags x OR IPS_SEND_FLAG_ACK_REQ\<rparr>) c else c)"

definition scb_attach :: "u64 \<Rightarrow> u32 \<Rightarrow> u32 \<Rightarrow> 'w ips_scbctrl_scheme \<Rightarrow> (bool \<times> 'w ips_scbctrl_scheme) run" where
  "scb_attach s len flags c =
     (if flags AND IPS_SCB_FLAG_ADD_BUFFER \<noteq> 0 then
        (if len > scb_imm_size c then ips_scbctrl_bufalloc s c
         else Inr (True, upd_scb s (\<lambda>x. x\<lparr>payload := imm_payload x, payload_size := scb_imm_size c\<rparr>) c))
      else Inr (True, upd_scb s (\<lambda>x. x\<lparr>payload := 0, payload_size := 0\<rparr>) c))"

text \<open>The list of blocks handed out, the one allocated last first, as they are linked.\<close>

fun ips_scbctrl_alloc ::
  "nat \<Rightarrow> u32 \<Rightarrow> u32 \<Rightarrow> u64 list \<Rightarrow> 'w ips_scbctrl_scheme \<Rightarrow> (u64 list \<times> 'w ips_scbctrl_scheme) run" where
  "ips_scbctrl_alloc 0 len flags scb_head c = Inr (scb_head, c)"
| "ips_scbctrl_alloc (Suc scbnum) len flags scb_head c =
     (case scb_free c of
        [] \<Rightarrow> Inr (scb_head, c)
      | s # _ \<Rightarrow>
          run_bind (scb_attach s len flags (upd_scb s (\<lambda>x. x\<lparr>scb_flags := 0\<rparr>) c))
            (\<lambda>(ok, c). if \<not> ok then Inr (scb_head, c)
               else let c = upd_scb s (\<lambda>x. x\<lparr>scb_tid := IPATH_EAGER_TID_ID, tidsendc := 0, scb_callback := None,
                                             lrh_mqhdr := 0, scb_offset := 0\<rparr>) c;
                        c = scb_account s c;
                        c = c\<lparr>scb_free := tl (scb_free c)\<rparr>
                 in ips_scbctrl_alloc scbnum len flags (s # scb_head) c))"

definition ips_scbctrl_alloc_tiny :: "'w ips_scbctrl_scheme \<Rightarrow> u64 option \<times> 'w ips_scbctrl_scheme" where
  "ips_scbctrl_alloc_tiny c =
     (case scb_free c of
        [] \<Rightarrow> (None, c)
      | s # rest \<Rightarrow>
          let c = c\<lparr>scb_free := rest\<rparr>;
              c = upd_scb s (\<lambda>x. x\<lparr>payload := 0, payload_size := 0, scb_flags := 0, scb_tid := IPATH_EAGER_TID_ID,
                    tidsendc := 0, scb_callback := None\<rparr>) c
          in (Some s, scb_account s c))"

definition ips_scbctrl_free ::
  "(nat \<Rightarrow> u64 \<Rightarrow> 'w ips_scbctrl_scheme \<Rightarrow> 'w ips_scbctrl_scheme) \<Rightarrow> u64 \<Rightarrow> 'w ips_scbctrl_scheme \<Rightarrow> 'w ips_scbctrl_scheme" where
  "ips_scbctrl_free call s c =
     (let c = (if sbuf_num c \<noteq> 0 \<and> in_sbufs (payload (scbs c s)) c
               then c\<lparr>sbuf_num_cur := sbuf_num_cur c + 1, sbuf_free := payload (scbs c s) # sbuf_free c\<rparr> else c);
          c = upd_scb s (\<lambda>x. x\<lparr>payload := 0, tidsendc := 0, payload_size := 0\<rparr>) c;
          c = c\<lparr>scb_num_cur := scb_num_cur c + 1\<rparr>;
          was_empty = (scb_free c = []);
          c = c\<lparr>scb_free := s # scb_free c\<rparr>
      in if was_empty then (case scb_avail_callback c of
             Some cb \<Rightarrow> call cb (scb_avail_context c) c | None \<Rightarrow> c)
         else c)"

section \<open>Invariant\<close>

definition scb_set :: "'w ips_scbctrl_scheme \<Rightarrow> u64 set" where
  "scb_set c = scb_addr (scb_base c) ` {..<unat (scb_num c)}"

definition sbuf_set :: "'w ips_scbctrl_scheme \<Rightarrow> u64 set" where
  "sbuf_set c = sbuf_addr (sbuf_buf_base c) (sbuf_buf_size c) ` {..<unat (sbuf_num c)}"

definition scb_held :: "'w ips_scbctrl_scheme \<Rightarrow> u64 set" where
  "scb_held c = scb_set c - set (scb_free c)"

definition bounced :: "'w ips_scbctrl_scheme \<Rightarrow> u64 \<Rightarrow> bool" where
  "bounced c s \<longleftrightarrow> sbuf_num c \<noteq> 0 \<and> in_sbufs (payload (scbs c s)) c"

text \<open>
  The geometry: the blocks and the buffers lie in the address space, NULL is neither, and the
  immediate buffers are not among the bounce buffers.
\<close>

definition scb_geom :: "'w ips_scbctrl_scheme \<Rightarrow> bool" where
  "scb_geom c \<longleftrightarrow> unat (scb_base c) + unat (scb_num c) * 192 \<le> 2 ^ 64 \<and>
     (sbuf_num c \<noteq> 0 \<longrightarrow> sbuf_buf_base c \<noteq> 0 \<and> sbuf_buf_size c \<noteq> 0 \<and>
        unat (sbuf_num c) * unat (sbuf_buf_size c) < 2 ^ 32 \<and>
        unat (sbuf_buf_base c) + unat (sbuf_num c) * unat (sbuf_buf_size c) \<le> 2 ^ 64 \<and>
        sbuf_buf_last c = sbuf_buf_base c + ucast (sbuf_buf_size c * (sbuf_num c - 1)) \<and>
        (\<forall>s \<in> scb_set c. \<not> in_sbufs (imm_payload (scbs c s)) c))"

definition scb_inv :: "'w ips_scbctrl_scheme \<Rightarrow> bool" where
  "scb_inv c \<longleftrightarrow> scb_geom c \<and>
     distinct (scb_free c) \<and> set (scb_free c) \<subseteq> scb_set c \<and> length (scb_free c) = unat (scb_num_cur c) \<and>
     (\<forall>s \<in> set (scb_free c). payload (scbs c s) = 0) \<and>
     distinct (sbuf_free c) \<and> set (sbuf_free c) \<subseteq> sbuf_set c \<and> length (sbuf_free c) = unat (sbuf_num_cur c) \<and>
     bij_betw (\<lambda>s. payload (scbs c s)) {s \<in> scb_held c. bounced c s} (sbuf_set c - set (sbuf_free c))"

lemma unat_sbuf_addr:
  assumes "scb_geom c" "i < unat (sbuf_num c)"
  shows "unat (sbuf_addr (sbuf_buf_base c) (sbuf_buf_size c) i) = unat (sbuf_buf_base c) + unat (sbuf_buf_size c) * i"
proof -
  have g: "unat (sbuf_num c) * unat (sbuf_buf_size c) < 2 ^ 32"
    "unat (sbuf_buf_base c) + unat (sbuf_num c) * unat (sbuf_buf_size c) \<le> 2 ^ 64" "sbuf_buf_size c \<noteq> 0"
    using assms by (auto simp: scb_geom_def)
  have "unat (of_nat i :: u32) = i" using assms(2) by (rule unat_of_nat_below)
  moreover have le: "unat (sbuf_buf_size c) * i < unat (sbuf_num c) * unat (sbuf_buf_size c)"
    using assms(2) g(3) by (simp add: unat_gt_0)
  moreover have lt: "unat (sbuf_buf_size c) * i < 2 ^ 32" "unat (sbuf_buf_base c) + unat (sbuf_buf_size c) * i < 2 ^ 64"
    using le g by linarith+
  ultimately have "unat (sbuf_buf_size c * of_nat i) = unat (sbuf_buf_size c) * i" by (simp add: unat_word_ariths)
  then have "unat (ucast (sbuf_buf_size c * of_nat i) :: u64) = unat (sbuf_buf_size c) * i" by (simp add: unat_ucast_up)
  then show ?thesis unfolding sbuf_addr_def using lt by (subst unat_plus_no_wrap) auto
qed

lemma sbuf_addr_inj: "scb_geom c \<Longrightarrow> inj_on (sbuf_addr (sbuf_buf_base c) (sbuf_buf_size c)) {..<unat (sbuf_num c)}"
proof (rule inj_onI)
  fix i j assume a: "scb_geom c" "i \<in> {..<unat (sbuf_num c)}" "j \<in> {..<unat (sbuf_num c)}"
    "sbuf_addr (sbuf_buf_base c) (sbuf_buf_size c) i = sbuf_addr (sbuf_buf_base c) (sbuf_buf_size c) j"
  then have "sbuf_num c \<noteq> 0" by auto
  then have "sbuf_buf_size c \<noteq> 0" using a(1) by (simp add: scb_geom_def)
  then have "0 < unat (sbuf_buf_size c)" by (simp add: unat_gt_0)
  moreover have "unat (sbuf_buf_size c) * i = unat (sbuf_buf_size c) * j"
    using unat_sbuf_addr [OF a(1), of i] unat_sbuf_addr [OF a(1), of j] a(2-4) by (metis add_left_cancel lessThan_iff)
  ultimately show "i = j" by simp
qed

lemma sbuf_in_range: "scb_geom c \<Longrightarrow> b \<in> sbuf_set c \<Longrightarrow> sbuf_num c \<noteq> 0 \<and> in_sbufs b c \<and> b \<noteq> 0"
proof -
  assume g: "scb_geom c" and "b \<in> sbuf_set c"
  then obtain i where i: "i < unat (sbuf_num c)" "b = sbuf_addr (sbuf_buf_base c) (sbuf_buf_size c) i" by (auto simp: sbuf_set_def)
  then have n: "sbuf_num c \<noteq> 0" by auto
  have "of_nat (unat (sbuf_num c - 1)) = sbuf_num c - 1" by simp
  then have "of_nat (unat (sbuf_num c) - 1) = sbuf_num c - 1" unfolding unat_dec [OF n] .
  then have l: "sbuf_buf_last c = sbuf_addr (sbuf_buf_base c) (sbuf_buf_size c) (unat (sbuf_num c) - 1)" "sbuf_buf_base c \<noteq> 0"
    using g n by (simp_all add: scb_geom_def sbuf_addr_def)
  have "i \<le> unat (sbuf_num c) - 1" "unat (sbuf_num c) - 1 < unat (sbuf_num c)" using i(1) by auto
  then have "sbuf_buf_base c \<le> b" "b \<le> sbuf_buf_last c"
    unfolding l(1) i(2) word_le_nat_alt unat_sbuf_addr [OF g i(1)] by (simp_all add: unat_sbuf_addr [OF g])
  then show ?thesis using n l(2) by (auto simp: in_sbufs_def)
qed

lemma null_not_sbuf: "scb_geom c \<Longrightarrow> sbuf_num c \<noteq> 0 \<Longrightarrow> \<not> in_sbufs 0 c"
  by (auto simp: scb_geom_def in_sbufs_def)

lemma scb_addr_inj: "scb_geom c \<Longrightarrow> inj_on (scb_addr (scb_base c)) {..<unat (scb_num c)}"
proof (rule inj_onI)
  fix i j assume g: "scb_geom c" "i \<in> {..<unat (scb_num c)}" "j \<in> {..<unat (scb_num c)}" "scb_addr (scb_base c) i = scb_addr (scb_base c) j"
  have "unat (scb_addr (scb_base c) k) = unat (scb_base c) + k * 192" if "k < unat (scb_num c)" for k
  proof -
    have "k * 192 < unat (scb_num c) * 192" using that by simp
    then have le: "unat (scb_base c) + k * 192 < 2 ^ 64" using g(1) unfolding scb_geom_def by linarith
    then have "unat (of_nat k * sizeof_ips_scb) = k * 192" by (simp add: sizeof_ips_scb_def unat_word_ariths unat_of_nat)
    then show ?thesis using le by (simp add: scb_addr_def unat_plus_no_wrap)
  qed
  then show "i = j" using g by (metis lessThan_iff add_left_cancel mult_cancel2 zero_neq_numeral)
qed

lemma card_scb_set: "scb_geom c \<Longrightarrow> card (scb_set c) = unat (scb_num c)"
  unfolding scb_set_def by (subst card_image) (auto intro: scb_addr_inj)

lemma card_sbuf_set: "scb_geom c \<Longrightarrow> card (sbuf_set c) = unat (sbuf_num c)"
  unfolding sbuf_set_def by (subst card_image) (auto intro: sbuf_addr_inj)

lemma finite_sets [simp]: "finite (scb_set c)" "finite (sbuf_set c)"
  by (simp_all add: scb_set_def sbuf_set_def)

text \<open>What an allocation and a release change, whatever else they write into the block.\<close>

definition scb_frame :: "u64 \<Rightarrow> 'w ips_scbctrl_scheme \<Rightarrow> 'w ips_scbctrl_scheme \<Rightarrow> bool" where
  "scb_frame s c c' \<longleftrightarrow> scb_num c' = scb_num c \<and> scb_base c' = scb_base c \<and> sbuf_num c' = sbuf_num c \<and>
     sbuf_buf_size c' = sbuf_buf_size c \<and> sbuf_buf_base c' = sbuf_buf_base c \<and> sbuf_buf_last c' = sbuf_buf_last c \<and>
     scb_imm_size c' = scb_imm_size c \<and> scb_avail_callback c' = scb_avail_callback c \<and>
     (\<forall>t. t \<noteq> s \<longrightarrow> scbs c' t = scbs c t) \<and> imm_payload (scbs c' s) = imm_payload (scbs c s)"

lemma scb_frame_sets:
  assumes "scb_frame s c c'"
  shows "scb_set c' = scb_set c" "sbuf_set c' = sbuf_set c" "in_sbufs p c' = in_sbufs p c" "scb_geom c' = scb_geom c"
    "t \<noteq> s \<Longrightarrow> bounced c' t = bounced c t" "sbuf_num c' = sbuf_num c"
proof -
  show s: "scb_set c' = scb_set c" "sbuf_set c' = sbuf_set c" "in_sbufs p c' = in_sbufs p c" "sbuf_num c' = sbuf_num c" for p
    using assms by (auto simp: scb_frame_def scb_set_def sbuf_set_def in_sbufs_def)
  show "t \<noteq> s \<Longrightarrow> bounced c' t = bounced c t" using assms by (auto simp: bounced_def scb_frame_def in_sbufs_def)
  have "imm_payload (scbs c' t) = imm_payload (scbs c t)" for t using assms by (cases "t = s") (auto simp: scb_frame_def)
  then show "scb_geom c' = scb_geom c" using assms s unfolding scb_geom_def by (simp add: scb_frame_def)
qed

lemma unat_pred: "unat x = Suc n \<Longrightarrow> unat (x - 1 :: 'a::len word) = n"
  by (metis diff_Suc_1 nat.simps(3) unat_dec unsigned_0)

lemma bij_update:
  assumes "bij_betw f A B" "\<And>x. x \<in> A \<Longrightarrow> g x = f x"
  shows "bij_betw g A B"
  using bij_betw_cong [of A f g B] assms by simp

lemma inv_take:
  assumes i: "scb_inv c" and fr: "scb_frame s c c'" and f: "scb_free c = s # rest" "scb_free c' = rest"
      "scb_num_cur c' = scb_num_cur c - 1"
    and b: "sbuf_free c' = sbuf_free c \<and> sbuf_num_cur c' = sbuf_num_cur c \<and> \<not> bounced c' s \<or>
      (\<exists>b. sbuf_free c = b # sbuf_free c' \<and> sbuf_num_cur c' = sbuf_num_cur c - 1 \<and> payload (scbs c' s) = b)"
  shows "scb_inv c'" "scb_held c' = insert s (scb_held c)" "s \<notin> scb_held c"
proof -
  note fs = scb_frame_sets [OF fr]
  have s: "s \<in> scb_set c" "s \<notin> set rest" "set rest \<subseteq> scb_set c" using i f by (auto simp: scb_inv_def)
  show held: "scb_held c' = insert s (scb_held c)" "s \<notin> scb_held c" using s f fs by (auto simp: scb_held_def)
  have pay: "payload (scbs c' t) = payload (scbs c t)" if "t \<noteq> s" for t using fr that by (simp add: scb_frame_def)
  have bt: "t \<in> scb_held c \<Longrightarrow> bounced c' t = bounced c t" for t using fs(5) [of t] held(2) by blast
  have "unat (scb_num_cur c) = Suc (length rest)" using i f by (auto simp: scb_inv_def)
  then have n: "unat (scb_num_cur c') = length rest" unfolding f(3) by (rule unat_pred)
  have bij: "bij_betw (\<lambda>t. payload (scbs c t)) {t \<in> scb_held c. bounced c t} (sbuf_set c - set (sbuf_free c))"
    using i by (simp add: scb_inv_def)
  have bb: "distinct (sbuf_free c') \<and> set (sbuf_free c') \<subseteq> sbuf_set c \<and> length (sbuf_free c') = unat (sbuf_num_cur c') \<and>
     bij_betw (\<lambda>t. payload (scbs c' t)) {t \<in> scb_held c'. bounced c' t} (sbuf_set c - set (sbuf_free c'))"
    using b
  proof (elim disjE exE conjE)
    assume a: "sbuf_free c' = sbuf_free c" "sbuf_num_cur c' = sbuf_num_cur c" "\<not> bounced c' s"
    have "{t \<in> scb_held c'. bounced c' t} = {t \<in> scb_held c. bounced c t}" using held a(3) bt by auto
    moreover have "bij_betw (\<lambda>t. payload (scbs c' t)) {t \<in> scb_held c. bounced c t} (sbuf_set c - set (sbuf_free c))"
      using bij by (rule bij_update) (metis (no_types, lifting) held(2) pay mem_Collect_eq)
    ultimately show ?thesis using a i by (simp add: scb_inv_def)
  next
    fix b assume a: "sbuf_free c = b # sbuf_free c'" "sbuf_num_cur c' = sbuf_num_cur c - 1" "payload (scbs c' s) = b"
    have bs: "b \<in> sbuf_set c" "b \<notin> set (sbuf_free c')" using i a(1) by (auto simp: scb_inv_def)
    then have "bounced c' s" using sbuf_in_range [of c b] i a(3) fs by (auto simp: bounced_def scb_inv_def)
    then have e: "{t \<in> scb_held c'. bounced c' t} = {t \<in> scb_held c. bounced c t} \<union> {s}" using held bt by auto
    have e2: "sbuf_set c - set (sbuf_free c') = (sbuf_set c - set (sbuf_free c)) \<union> {payload (scbs c' s)}" using a bs by auto
    have "bij_betw (\<lambda>t. payload (scbs c' t)) {t \<in> scb_held c. bounced c t} (sbuf_set c - set (sbuf_free c))"
      using bij by (rule bij_update) (metis (no_types, lifting) held(2) pay mem_Collect_eq)
    then have "bij_betw (\<lambda>t. payload (scbs c' t)) {t \<in> scb_held c'. bounced c' t} (sbuf_set c - set (sbuf_free c'))"
      unfolding e e2 by (rule notIn_Un_bij_betw [rotated 2]) (use held a in auto)
    moreover have "unat (sbuf_num_cur c) = Suc (length (sbuf_free c'))" using i a(1) by (auto simp: scb_inv_def)
    then have "unat (sbuf_num_cur c') = length (sbuf_free c')" unfolding a(2) by (rule unat_pred)
    ultimately show ?thesis using i a by (auto simp: scb_inv_def)
  qed
  have "\<forall>t \<in> set rest. payload (scbs c' t) = 0" using i f(1) s(2) pay unfolding scb_inv_def by (metis list.set_intros(2))
  then show "scb_inv c'" using i f n bb s unfolding scb_inv_def fs by (simp add: fs)
qed

lemma inv_give:
  assumes i: "scb_inv c" and h: "s \<in> scb_held c" and fr: "scb_frame s c c'" and f: "scb_free c' = s # scb_free c"
      "scb_num_cur c' = scb_num_cur c + 1" "payload (scbs c' s) = 0"
    and b: "if bounced c s then sbuf_free c' = payload (scbs c s) # sbuf_free c \<and> sbuf_num_cur c' = sbuf_num_cur c + 1
      else sbuf_free c' = sbuf_free c \<and> sbuf_num_cur c' = sbuf_num_cur c"
  shows "scb_inv c'" "scb_held c' = scb_held c - {s}"
proof -
  note fs = scb_frame_sets [OF fr]
  have g: "scb_geom c" using i by (simp add: scb_inv_def)
  have s: "s \<in> scb_set c" "s \<notin> set (scb_free c)" using h by (auto simp: scb_held_def)
  show held: "scb_held c' = scb_held c - {s}" using f fs by (auto simp: scb_held_def)
  have pay: "payload (scbs c' t) = payload (scbs c t)" if "t \<noteq> s" for t using fr that by (simp add: scb_frame_def)
  have "Suc (length (scb_free c)) = card (insert s (set (scb_free c)))" using i s by (simp add: scb_inv_def distinct_card)
  also have "\<dots> \<le> unat (scb_num c)" unfolding card_scb_set [OF g, symmetric] using i s by (intro card_mono) (auto simp: scb_inv_def)
  finally have n: "unat (scb_num_cur c') = Suc (length (scb_free c))"
    using i f(2) unsigned_less [of "scb_num c", where 'a = nat] by (subst f(2), subst unat_plus_no_wrap) (auto simp: scb_inv_def)
  have bij: "bij_betw (\<lambda>t. payload (scbs c t)) {t \<in> scb_held c. bounced c t} (sbuf_set c - set (sbuf_free c))"
    using i by (simp add: scb_inv_def)
  have "\<not> bounced c' s" using f(3) null_not_sbuf [OF g] fs(3,6) by (auto simp: bounced_def)
  then have e: "{t \<in> scb_held c'. bounced c' t} = {t \<in> scb_held c. bounced c t} - {s}" using held fs(5) by auto
  have bb: "distinct (sbuf_free c') \<and> set (sbuf_free c') \<subseteq> sbuf_set c \<and> length (sbuf_free c') = unat (sbuf_num_cur c') \<and>
     bij_betw (\<lambda>t. payload (scbs c' t)) {t \<in> scb_held c'. bounced c' t} (sbuf_set c - set (sbuf_free c'))"
  proof (cases "bounced c s")
    case False
    then have "{t \<in> scb_held c. bounced c t} - {s} = {t \<in> scb_held c. bounced c t}" by auto
    moreover have "bij_betw (\<lambda>t. payload (scbs c' t)) ({t \<in> scb_held c. bounced c t} - {s}) (sbuf_set c - set (sbuf_free c))"
      unfolding calculation using bij by (rule bij_update) (metis (no_types, lifting) False pay mem_Collect_eq)
    ultimately show ?thesis using False b i unfolding e by (simp add: scb_inv_def)
  next
    case True
    let ?b = "payload (scbs c s)"
    have bs: "?b \<in> sbuf_set c" "?b \<notin> set (sbuf_free c)" using bij h True by (auto simp: bij_betw_def)
    have "Suc (length (sbuf_free c)) = card (insert ?b (set (sbuf_free c)))" using i bs by (simp add: scb_inv_def distinct_card)
    also have "\<dots> \<le> unat (sbuf_num c)" unfolding card_sbuf_set [OF g, symmetric] using i bs by (intro card_mono) (auto simp: scb_inv_def)
    finally have m: "unat (sbuf_num_cur c') = Suc (length (sbuf_free c))"
      using i b True unsigned_less [of "sbuf_num c", where 'a = nat] by (simp add: scb_inv_def unat_plus_no_wrap)
    have "bij_betw (\<lambda>t. payload (scbs c t)) ({t \<in> scb_held c. bounced c t} - {s}) (sbuf_set c - set (sbuf_free c) - {?b})"
      using bij_betw_DiffI [OF bij, of "{s}" "{?b}"] h True bs by (simp add: bij_betw_def)
    moreover have "sbuf_set c - set (sbuf_free c) - {?b} = sbuf_set c - set (sbuf_free c')" using b True by auto
    ultimately have q: "bij_betw (\<lambda>t. payload (scbs c t)) ({t \<in> scb_held c. bounced c t} - {s}) (sbuf_set c - set (sbuf_free c'))"
      by simp
    have "bij_betw (\<lambda>t. payload (scbs c' t)) {t \<in> scb_held c'. bounced c' t} (sbuf_set c - set (sbuf_free c'))"
      unfolding e using q by (rule bij_update) (metis (no_types, lifting) pay DiffE singletonI)
    then show ?thesis using True b i bs m by (auto simp: scb_inv_def)
  qed
  have "\<forall>t \<in> set (s # scb_free c). payload (scbs c' t) = 0" using i f(3) pay unfolding scb_inv_def by (metis set_ConsD)
  then show "scb_inv c'" using i f n bb s unfolding scb_inv_def fs by (auto simp: fs scb_inv_def)
qed

section \<open>The operations preserve the invariant\<close>

lemma in_sbufs_upd [simp]: "in_sbufs p (upd_scb s f c) = in_sbufs p c"
  by (simp add: in_sbufs_def upd_scb_def)

lemma upd_scb_sel [simp]:
  "scbs (upd_scb s f c) t = (if t = s then f (scbs c s) else scbs c t)" "scb_free (upd_scb s f c) = scb_free c"
  "scb_num (upd_scb s f c) = scb_num c" "scb_num_cur (upd_scb s f c) = scb_num_cur c" "sbuf_num (upd_scb s f c) = sbuf_num c"
  "sbuf_num_cur (upd_scb s f c) = sbuf_num_cur c" "sbuf_free (upd_scb s f c) = sbuf_free c" "scb_base (upd_scb s f c) = scb_base c"
  "scb_imm_size (upd_scb s f c) = scb_imm_size c" "sbuf_buf_size (upd_scb s f c) = sbuf_buf_size c"
  "sbuf_buf_base (upd_scb s f c) = sbuf_buf_base c" "sbuf_buf_last (upd_scb s f c) = sbuf_buf_last c"
  "scb_avail_callback (upd_scb s f c) = scb_avail_callback c" "scb_avail_context (upd_scb s f c) = scb_avail_context c"
  by (simp_all add: upd_scb_def)

lemma scb_account_sel [simp]:
  "scb_free (scb_account s c) = scb_free c" "scb_num_cur (scb_account s c) = scb_num_cur c - 1"
  "sbuf_free (scb_account s c) = sbuf_free c" "sbuf_num_cur (scb_account s c) = sbuf_num_cur c"
  "payload (scbs (scb_account s c) t) = payload (scbs c t)" "scb_frame s c (scb_account s c)"
  by (simp_all add: scb_account_def Let_def scb_frame_def)

lemma scb_frame_trans: "scb_frame s c d \<Longrightarrow> scb_frame s d e \<Longrightarrow> scb_frame s c e"
  by (auto simp: scb_frame_def)

lemma scb_frame_upd: "(\<And>x. imm_payload (f x) = imm_payload x) \<Longrightarrow> scb_frame s c (upd_scb s f c)"
  by (simp add: scb_frame_def)

lemma scb_frame_free: "scb_frame s c (c\<lparr>scb_free := xs\<rparr>)"
  by (simp add: scb_frame_def)

text \<open>The request is one the pool was set up for: bounce buffers exist if one may be asked for.\<close>

definition attach_ok :: "u32 \<Rightarrow> u32 \<Rightarrow> 'w ips_scbctrl_scheme \<Rightarrow> bool" where
  "attach_ok len flags c \<longleftrightarrow> (flags AND IPS_SCB_FLAG_ADD_BUFFER \<noteq> 0 \<and> len > scb_imm_size c \<longrightarrow> sbuf_num c \<noteq> 0)"

text \<open>
  Attaching a payload to the block at the head of the free list succeeds unless a bounce buffer is
  needed and none is free.
\<close>

lemma attach_cases:
  assumes i: "scb_inv c" and f: "scb_free c = s # rest" and a: "attach_ok len flags c"
    and d: "d = upd_scb s (\<lambda>x. x\<lparr>scb_flags := 0\<rparr>) c"
  obtains (busy) "scb_attach s len flags d = Inr (False, d)" "sbuf_free c = []" "flags AND IPS_SCB_FLAG_ADD_BUFFER \<noteq> 0" "len > scb_imm_size c"
  | (plain) e where "scb_attach s len flags d = Inr (True, e)" "scb_frame s c e" "scb_free e = scb_free c" "scb_num_cur e = scb_num_cur c"
      "sbuf_free e = sbuf_free c" "sbuf_num_cur e = sbuf_num_cur c" "\<not> bounced e s"
  | (buffer) e b where "scb_attach s len flags d = Inr (True, e)" "scb_frame s c e" "scb_free e = scb_free c" "scb_num_cur e = scb_num_cur c"
      "sbuf_free c = b # sbuf_free e" "sbuf_num_cur e = sbuf_num_cur c - 1" "payload (scbs e s) = b"
proof -
  have g: "scb_geom c" "s \<in> scb_set c" "payload (scbs c s) = 0" using i f by (auto simp: scb_inv_def)
  consider "flags AND IPS_SCB_FLAG_ADD_BUFFER = 0" | "flags AND IPS_SCB_FLAG_ADD_BUFFER \<noteq> 0" "\<not> len > scb_imm_size c"
    | "flags AND IPS_SCB_FLAG_ADD_BUFFER \<noteq> 0" "len > scb_imm_size c" by blast
  then show ?thesis
  proof cases
    case 1
    then show ?thesis using null_not_sbuf [OF g(1)]
      by (intro plain [of "upd_scb s (\<lambda>x. x\<lparr>payload := 0, payload_size := 0\<rparr>) d"])
        (auto simp: scb_attach_def d scb_frame_def bounced_def)
  next
    case 2
    then show ?thesis using g
      by (intro plain [of "upd_scb s (\<lambda>x. x\<lparr>payload := imm_payload x, payload_size := scb_imm_size d\<rparr>) d"])
        (auto simp: scb_attach_def d scb_frame_def bounced_def scb_geom_def)
  next
    case 3
    then have n: "sbuf_num c \<noteq> 0" "\<not> in_sbufs 0 c" using a null_not_sbuf [OF g(1)] by (auto simp: attach_ok_def)
    then have n': "sbuf_num c > 0" by (simp add: word_gt_0)
    show ?thesis
    proof (cases "sbuf_free c")
      case Nil
      then show ?thesis using 3 n n' g by (intro busy) (auto simp: scb_attach_def ips_scbctrl_bufalloc_def d)
    next
      case (Cons b bs)
      then obtain e where "scb_attach s len flags d = Inr (True, e)" "scb_frame s c e" "scb_free e = scb_free c"
        "scb_num_cur e = scb_num_cur c" "sbuf_free e = bs" "sbuf_num_cur e = sbuf_num_cur c - 1" "payload (scbs e s) = b"
        using 3 n n' g by (auto simp: scb_attach_def ips_scbctrl_bufalloc_def d Let_def scb_frame_def)
      then show ?thesis using Cons by (intro buffer) auto
    qed
  qed
qed

lemma alloc_one:
  fixes c :: "'w ips_scbctrl_scheme"
  assumes i: "scb_inv c" and a: "attach_ok len flags c"
  obtains (empty) "scb_free c = []" "\<And>n hd. ips_scbctrl_alloc (Suc n) len flags hd c = Inr (hd, c)"
  | (busy) s rest where "scb_free c = s # rest" "sbuf_free c = []"
      "\<And>n hd. ips_scbctrl_alloc (Suc n) len flags hd c = Inr (hd, upd_scb s (\<lambda>x. x\<lparr>scb_flags := 0\<rparr>) c)"
  | (took) s rest e where "scb_free c = s # rest" "scb_free e = rest" "scb_inv e" "scb_held e = insert s (scb_held c)" "s \<notin> scb_held c"
      "scb_frame s c e" "\<And>n hd. ips_scbctrl_alloc (Suc n) len flags hd c = ips_scbctrl_alloc n len flags (s # hd) e"
proof (cases "scb_free c")
  case Nil
  then show ?thesis by (intro empty) auto
next
  case (Cons s rest)
  define fin where "fin = (\<lambda>e :: 'w ips_scbctrl_scheme. (scb_account s (upd_scb s (\<lambda>x. x\<lparr>scb_tid := IPATH_EAGER_TID_ID, tidsendc := 0, scb_callback := None,
      lrh_mqhdr := 0, scb_offset := 0\<rparr>) e))\<lparr>scb_free := rest\<rparr>)"
  have fin: "scb_frame s c (fin e)" "scb_free (fin e) = rest" "scb_num_cur (fin e) = scb_num_cur e - 1" "sbuf_free (fin e) = sbuf_free e"
    "sbuf_num_cur (fin e) = sbuf_num_cur e" "payload (scbs (fin e) s) = payload (scbs e s)" "bounced (fin e) s = bounced e s"
    if "scb_frame s c e" for e
  proof -
    have "scb_frame s e (fin e)" unfolding fin_def
      by (rule scb_frame_trans [OF scb_frame_trans [OF scb_frame_upd [of "\<lambda>x. x\<lparr>scb_tid := IPATH_EAGER_TID_ID, tidsendc := 0,
        scb_callback := None, lrh_mqhdr := 0, scb_offset := 0\<rparr>" s e] scb_account_sel(6)] scb_frame_free]) simp
    then show "scb_frame s c (fin e)" "bounced (fin e) s = bounced e s"
      using scb_frame_trans [OF that] scb_frame_sets(3,6) [of s e "fin e"] by (auto simp: bounced_def fin_def)
  qed (simp_all add: fin_def)
  have step: "ips_scbctrl_alloc (Suc n) len flags hd c = ips_scbctrl_alloc n len flags (s # hd) (fin e)"
    if "scb_attach s len flags (upd_scb s (\<lambda>x. x\<lparr>scb_flags := 0\<rparr>) c) = Inr (True, e)" "scb_free e = scb_free c" for n hd e
    using that Cons by (simp add: fin_def Let_def)
  from i Cons a refl show ?thesis
  proof (cases rule: attach_cases)
    case busy
    then show ?thesis using Cons by (intro that(2)) auto
  next
    case (plain e)
    have "sbuf_free (fin e) = sbuf_free c \<and> sbuf_num_cur (fin e) = sbuf_num_cur c \<and> \<not> bounced (fin e) s"
      using fin [OF plain(2)] plain by simp
    note t = inv_take [OF i fin(1) [OF plain(2)] Cons fin(2) [OF plain(2)] _ disjI1 [OF this]]
    show ?thesis using t fin [OF plain(2)] plain step [OF plain(1,3)] Cons by (intro that(3)) auto
  next
    case (buffer e b)
    have "\<exists>b. sbuf_free c = b # sbuf_free (fin e) \<and> sbuf_num_cur (fin e) = sbuf_num_cur c - 1 \<and> payload (scbs (fin e) s) = b"
      using fin [OF buffer(2)] buffer by simp
    note t = inv_take [OF i fin(1) [OF buffer(2)] Cons fin(2) [OF buffer(2)] _ disjI2 [OF this]]
    show ?thesis using t fin [OF buffer(2)] buffer step [OF buffer(1,3)] Cons by (intro that(3)) auto
  qed
qed

lemma inv_same:
  assumes "scb_inv c" "scb_frame s c c'" "scb_free c' = scb_free c" "scb_num_cur c' = scb_num_cur c" "sbuf_free c' = sbuf_free c"
    "sbuf_num_cur c' = sbuf_num_cur c" "payload (scbs c' s) = payload (scbs c s)"
  shows "scb_inv c'" "scb_held c' = scb_held c"
proof -
  note fs = scb_frame_sets [OF assms(2)]
  have p: "payload (scbs c' t) = payload (scbs c t)" for t using assms(2,7) by (cases "t = s") (auto simp: scb_frame_def)
  have "bounced c' t = bounced c t" for t using fs p by (simp add: bounced_def)
  then show "scb_inv c'" "scb_held c' = scb_held c" using assms fs p unfolding scb_inv_def by (simp_all add: scb_held_def)
qed

lemma alloc_tiny_cases:
  assumes i: "scb_inv c"
  obtains (empty) "scb_free c = []" "ips_scbctrl_alloc_tiny c = (None, c)"
  | (took) s rest e where "scb_free c = s # rest" "ips_scbctrl_alloc_tiny c = (Some s, e)" "scb_inv e" "scb_held e = insert s (scb_held c)"
      "s \<notin> scb_held c" "scb_frame s c e"
proof (cases "scb_free c")
  case Nil
  then show ?thesis by (intro empty) (auto simp: ips_scbctrl_alloc_tiny_def)
next
  case (Cons s rest)
  obtain e where e: "ips_scbctrl_alloc_tiny c = (Some s, e)" "scb_frame s c e" "scb_free e = rest" "scb_num_cur e = scb_num_cur c - 1"
    "sbuf_free e = sbuf_free c" "sbuf_num_cur e = sbuf_num_cur c" "payload (scbs e s) = 0"
    using Cons by (auto simp: ips_scbctrl_alloc_tiny_def Let_def scb_account_def scb_frame_def)
  have g: "scb_geom c" using i by (simp add: scb_inv_def)
  then have "\<not> bounced e s" using e(7) scb_frame_sets(3,6) [OF e(2)] null_not_sbuf [OF g] by (auto simp: bounced_def)
  then have d: "sbuf_free e = sbuf_free c \<and> sbuf_num_cur e = sbuf_num_cur c \<and> \<not> bounced e s" using e by simp
  show ?thesis using inv_take [OF i e(2) Cons e(3,4) disjI1 [OF d]] Cons e by (intro took) auto
qed

text \<open>The callback may do anything but touch the pool.\<close>

definition scb_call_ok :: "(nat \<Rightarrow> u64 \<Rightarrow> 'w ips_scbctrl_scheme \<Rightarrow> 'w ips_scbctrl_scheme) \<Rightarrow> bool" where
  "scb_call_ok call \<longleftrightarrow> (\<forall>cb ctx c. ips_scbctrl.truncate (call cb ctx c) = ips_scbctrl.truncate c)"

lemma scb_truncate:
  assumes "ips_scbctrl.truncate d = ips_scbctrl.truncate c"
  shows "scb_inv d = scb_inv c" "scb_held d = scb_held c" "scb_free d = scb_free c" "scbs d = scbs c" "scb_frame s e d = scb_frame s e c"
    "sbuf_free d = sbuf_free c"
  using assms by (auto simp: ips_scbctrl.defs scb_inv_def scb_held_def scb_set_def sbuf_set_def scb_geom_def in_sbufs_def bounced_def scb_frame_def)

lemma free_ok:
  assumes i: "scb_inv c" and h: "s \<in> scb_held c" and call: "scb_call_ok call"
  shows "scb_inv (ips_scbctrl_free call s c)" "scb_held (ips_scbctrl_free call s c) = scb_held c - {s}"
    "scb_free (ips_scbctrl_free call s c) = s # scb_free c" "scb_frame s c (ips_scbctrl_free call s c)"
    "t \<noteq> s \<Longrightarrow> scbs (ips_scbctrl_free call s c) t = scbs c t"
proof -
  define e where "e = (let c = (if bounced c s
               then c\<lparr>sbuf_num_cur := sbuf_num_cur c + 1, sbuf_free := payload (scbs c s) # sbuf_free c\<rparr> else c);
          c = upd_scb s (\<lambda>x. x\<lparr>payload := 0, tidsendc := 0, payload_size := 0\<rparr>) c;
          c = c\<lparr>scb_num_cur := scb_num_cur c + 1\<rparr>
      in c\<lparr>scb_free := s # scb_free c\<rparr>)"
  have e: "scb_frame s c e" "scb_free e = s # scb_free c" "scb_num_cur e = scb_num_cur c + 1" "payload (scbs e s) = 0"
    "if bounced c s then sbuf_free e = payload (scbs c s) # sbuf_free c \<and> sbuf_num_cur e = sbuf_num_cur c + 1
      else sbuf_free e = sbuf_free c \<and> sbuf_num_cur e = sbuf_num_cur c" "t \<noteq> s \<Longrightarrow> scbs e t = scbs c t" for t
    by (auto simp: e_def Let_def scb_frame_def)
  have "ips_scbctrl.truncate (ips_scbctrl_free call s c) = ips_scbctrl.truncate e"
    using call by (auto simp: ips_scbctrl_free_def e_def Let_def bounced_def scb_call_ok_def split: option.split)
  note t = scb_truncate [OF this]
  show "scb_inv (ips_scbctrl_free call s c)" "scb_held (ips_scbctrl_free call s c) = scb_held c - {s}"
    "scb_free (ips_scbctrl_free call s c) = s # scb_free c" "scb_frame s c (ips_scbctrl_free call s c)"
    "t \<noteq> s \<Longrightarrow> scbs (ips_scbctrl_free call s c) t = scbs c t"
    using t inv_give [OF i h e(1,2,3,4,5)] e by simp_all
qed

section \<open>The interface of a pool\<close>

text \<open>
  A state of the pool is the control structure with its callback. A request is for a tiny message
  (\<open>None\<close>) or for a length and flags; the buffers are part of the resource.
\<close>

type_synonym 'w scb_pool = "(nat \<Rightarrow> u64 \<Rightarrow> 'w ips_scbctrl_scheme \<Rightarrow> 'w ips_scbctrl_scheme) \<times> 'w ips_scbctrl_scheme"

definition scb_get :: "(u32 \<times> u32) option \<Rightarrow> 'w scb_pool \<Rightarrow> (u64 option \<times> 'w scb_pool) run" where
  "scb_get m = (\<lambda>(call, c). case m of
       None \<Rightarrow> (case ips_scbctrl_alloc_tiny c of (r, c) \<Rightarrow> Inr (r, call, c))
     | Some (len, flags) \<Rightarrow> run_bind (ips_scbctrl_alloc 1 len flags [] c)
         (\<lambda>(l, c). Inr (case l of [] \<Rightarrow> None | s # _ \<Rightarrow> Some s, call, c)))"

definition scb_put :: "u64 \<Rightarrow> 'w scb_pool \<Rightarrow> bool \<times> 'w scb_pool" where
  "scb_put s = (\<lambda>(call, c). (scb_free c = [], call, ips_scbctrl_free call s c))"

definition scb_req_ok :: "(u32 \<times> u32) option \<Rightarrow> 'w scb_pool \<Rightarrow> bool" where
  "scb_req_ok m = (\<lambda>(call, c). case m of None \<Rightarrow> True | Some (len, flags) \<Rightarrow> attach_ok len flags c)"

text \<open>The fixed part of the structure.\<close>

definition scb_shape :: "'w ips_scbctrl_scheme \<Rightarrow> 'w ips_scbctrl_scheme \<Rightarrow> bool" where
  "scb_shape c c' \<longleftrightarrow> scb_num c' = scb_num c \<and> scb_base c' = scb_base c \<and> sbuf_num c' = sbuf_num c \<and> scb_set c' = scb_set c \<and>
     sbuf_set c' = sbuf_set c"

lemma scb_shape_frame: "scb_shape c0 c \<Longrightarrow> scb_frame s c c' \<Longrightarrow> scb_shape c0 c'"
  by (simp add: scb_shape_def scb_frame_sets [of s c c']) (simp add: scb_frame_def)

definition scb_pool_inv :: "'w ips_scbctrl_scheme \<Rightarrow> 'w scb_pool \<Rightarrow> bool" where
  "scb_pool_inv c0 = (\<lambda>(call, c). scb_call_ok call \<and> scb_inv c \<and> scb_shape c0 c)"

lemma scb_get_cases:
  assumes "scb_inv c" "scb_req_ok m (call, c)"
  obtains (none) e where "scb_get m (call, c) = Inr (None, call, e)" "scb_inv e" "scb_held e = scb_held c" "\<exists>s. scb_frame s c e"
      "scb_free c = [] \<or> sbuf_free c = []"
  | (some) s e where "scb_get m (call, c) = Inr (Some s, call, e)" "scb_inv e" "scb_held e = insert s (scb_held c)" "s \<notin> scb_held c"
      "scb_frame s c e" "scb_free c \<noteq> []"
proof (cases m)
  case None
  from assms(1) show ?thesis
  proof (cases rule: alloc_tiny_cases)
    case empty
    then show ?thesis using assms(1) by (intro that(1) [of c]) (auto simp: scb_get_def None scb_frame_def)
  next
    case (took s rest e)
    then show ?thesis by (intro that(2) [of s e]) (auto simp: scb_get_def None)
  qed
next
  case (Some lf)
  obtain len flags where lf: "lf = (len, flags)" by fastforce
  have "attach_ok len flags c" using assms(2) Some lf by (simp add: scb_req_ok_def)
  with assms(1) show ?thesis
  proof (cases rule: alloc_one)
    case empty
    show ?thesis using empty(1) empty(2) [of 0 "[]"] assms(1) by (intro that(1) [of c]) (auto simp: scb_get_def Some lf scb_frame_def)
  next
    case (busy s rest)
    let ?e = "upd_scb s (\<lambda>x. x\<lparr>scb_flags := 0\<rparr>) c"
    have "scb_frame s c ?e" by (rule scb_frame_upd) simp
    then show ?thesis using busy(1,2) busy(3) [of 0 "[]"] inv_same [OF assms(1), of s ?e]
      by (intro that(1) [of ?e]) (auto simp: scb_get_def Some lf)
  next
    case (took s rest e)
    then show ?thesis using took(7) [of 0 "[]"] by (intro that(2) [of s e]) (auto simp: scb_get_def Some lf)
  qed
qed

interpretation scb_pool: object_pool "scb_pool_inv c0" "\<lambda>(call, c). scb_held c" scb_get scb_put scb_req_ok for c0
proof (unfold_locales, goal_cases)
  case (1 p m)
  obtain call c where p: "p = (call, c)" by fastforce
  then have i: "scb_inv c" "scb_req_ok m (call, c)" using 1 by (auto simp: scb_pool_inv_def)
  then show ?case using p by (cases rule: scb_get_cases) auto
next
  case (2 p m obj p')
  obtain call c where p: "p = (call, c)" by fastforce
  then have i: "scb_inv c" "scb_req_ok m (call, c)" using 2 by (auto simp: scb_pool_inv_def)
  then show ?case using 2 p by (cases rule: scb_get_cases) (auto simp: scb_pool_inv_def intro: scb_shape_frame)
next
  case (3 p m p')
  obtain call c where p: "p = (call, c)" by fastforce
  then have i: "scb_inv c" "scb_req_ok m (call, c)" using 3 by (auto simp: scb_pool_inv_def)
  then show ?case using 3 p by (cases rule: scb_get_cases) (auto simp: scb_pool_inv_def intro: scb_shape_frame)
next
  case (4 p obj)
  obtain call c where p: "p = (call, c)" by fastforce
  then have i: "scb_inv c" "obj \<in> scb_held c" "scb_call_ok call" "scb_shape c0 c" using 4 by (auto simp: scb_pool_inv_def)
  then show ?case using free_ok [OF i(1-3)] scb_shape_frame [OF i(4)] p by (simp add: scb_pool_inv_def scb_put_def)
qed

section \<open>A fresh pool\<close>

lemma sbuf_init_loop_eq:
  "sbuf_init_loop base sz n c = c\<lparr>sbuf_free := rev (map (sbuf_addr base sz) [0..<n]) @ sbuf_free c\<rparr>"
  by (induction n) (simp_all add: sbuf_init_loop_def)

lemma scb_init_loop_spec:
  defines "fresh \<equiv> \<lambda>c i. scb_calloc\<lparr>imm_payload := if scb_imm_buf c \<noteq> 0 then scb_imm_buf c + ucast (of_nat i * scb_imm_size c) else 0\<rparr>"
  assumes "inj_on (scb_addr base) {..<m}" "n \<le> m"
  shows "\<exists>f. scb_init_loop base n c = c\<lparr>scb_free := rev (map (scb_addr base) [0..<n]) @ scb_free c, scbs := f\<rparr> \<and>
    (\<forall>i < n. f (scb_addr base i) = fresh c i)"
  using assms(3)
proof (induction n)
  case 0
  show ?case by (intro exI [of _ "scbs c"]) (simp add: scb_init_loop_def)
next
  case (Suc n)
  then obtain f where f: "scb_init_loop base n c = c\<lparr>scb_free := rev (map (scb_addr base) [0..<n]) @ scb_free c, scbs := f\<rparr>"
    "\<forall>i < n. f (scb_addr base i) = fresh c i" by auto
  have ne: "scb_addr base i \<noteq> scb_addr base n" if "i < n" for i
    using that Suc.prems inj_onD [OF assms(2), of i n] by auto
  have "scb_init_loop base (Suc n) c = c\<lparr>scb_free := rev (map (scb_addr base) [0..<Suc n]) @ scb_free c,
      scbs := f(scb_addr base n := fresh c n)\<rparr>"
    using f(1) by (simp add: scb_init_loop_def upd_scb_def fresh_def Let_def)
  moreover have "\<forall>i < Suc n. (f(scb_addr base n := fresh c n)) (scb_addr base i) = fresh c i"
    using f(2) ne by (auto simp: less_Suc_eq)
  ultimately show ?case by blast
qed

text \<open>The memory the allocator answered with: inside the address space, not NULL, pairwise disjoint.\<close>

definition scb_mem_ok :: "u64 \<Rightarrow> u64 \<Rightarrow> u64 \<Rightarrow> u64 \<Rightarrow> u32 \<Rightarrow> u32 \<Rightarrow> u32 \<Rightarrow> u32 \<Rightarrow> bool" where
  "scb_mem_ok pagesize buf_mem imm_mem scb_mem numscb numbufs imm_size bufsize \<longleftrightarrow>
     numscb \<noteq> 0 \<and> unat scb_mem + unat numscb * 192 \<le> 2 ^ 64 \<and>
     (numbufs \<noteq> 0 \<longrightarrow> PSMI_ALIGNUP buf_mem pagesize \<noteq> 0 \<and> bufsize \<noteq> 0 \<and> unat numbufs * unat bufsize < 2 ^ 32 \<and>
        unat (PSMI_ALIGNUP buf_mem pagesize) + unat numbufs * unat bufsize \<le> 2 ^ 64 \<and>
        (imm_size \<noteq> 0 \<longrightarrow> (\<forall>i < unat numscb. let p = imm_mem + ucast (of_nat i * imm_size) in
           \<not> (PSMI_ALIGNUP buf_mem pagesize \<le> p \<and> p \<le> PSMI_ALIGNUP buf_mem pagesize + ucast (bufsize * (numbufs - 1))))))"

lemma scb_init_ok:
  assumes "scb_mem_ok pagesize bm im sm numscb numbufs imm_size bufsize"
  shows "\<exists>c. ips_scbctrl_init pagesize (Some bm) (Some im) (Some sm) numscb numbufs imm_size bufsize cb ctx c0 = Inr (PSM_OK, c) \<and>
     scb_inv c \<and> scb_held c = {} \<and> scb_num c = numscb \<and> sbuf_num c = numbufs \<and> scb_imm_size c = imm_size \<and> scb_avail_callback c = cb"
proof -
  define base where "base = PSMI_ALIGNUP bm pagesize"
  let ?bufs = "if numbufs > 0 then rev (map (sbuf_addr base bufsize) [0..<unat numbufs]) else []"
  let ?c0 = "c0\<lparr>sbuf_num := numbufs, sbuf_num_cur := numbufs, sbuf_free := [], sbuf_buf_size := bufsize,
     sbuf_buf_base := 0, sbuf_buf_alloc := 0, sbuf_buf_last := 0\<rparr>"
  define c1 where "c1 = (if numbufs > 0 then sbuf_init_loop base bufsize (unat numbufs) (?c0\<lparr>sbuf_buf_alloc := bm,
       sbuf_buf_base := base, sbuf_buf_last := base + ucast (bufsize * (numbufs - 1))\<rparr>) else ?c0)
     \<lparr>scb_imm_size := imm_size, scb_imm_buf := if imm_size \<noteq> 0 then im else 0, scb_num := numscb, scb_num_cur := numscb,
       scb_free := [], scb_base := sm\<rparr>"
  have z: "numscb > 0" "unat sm + unat numscb * 192 \<le> 2 ^ 64" using assms by (auto simp: scb_mem_ok_def word_gt_0)
  have "inj_on (scb_addr sm) {..<unat numscb}"
    using scb_addr_inj [of "c1\<lparr>sbuf_num := 0\<rparr>"] z by (simp add: scb_geom_def c1_def sbuf_init_loop_eq)
  then obtain f where f: "scb_init_loop sm (unat numscb) c1 = c1\<lparr>scb_free := rev (map (scb_addr sm) [0..<unat numscb]), scbs := f\<rparr>"
    "\<forall>i < unat numscb. f (scb_addr sm i) = scb_calloc\<lparr>imm_payload := if scb_imm_buf c1 \<noteq> 0 then scb_imm_buf c1 + ucast (of_nat i * scb_imm_size c1) else 0\<rparr>"
    using scb_init_loop_spec [of sm "unat numscb" "unat numscb" c1] by (auto simp: c1_def)
  define c where "c = c1\<lparr>scb_free := rev (map (scb_addr sm) [0..<unat numscb]), scbs := f, scb_avail_callback := cb, scb_avail_context := ctx\<rparr>"
  have "ips_scbctrl_init pagesize (Some bm) (Some im) (Some sm) numscb numbufs imm_size bufsize cb ctx c0 =
      Inr (PSM_OK, (scb_init_loop sm (unat numscb) c1)\<lparr>scb_avail_callback := cb, scb_avail_context := ctx\<rparr>)"
    using z(1) by (simp add: ips_scbctrl_init_def Let_def c1_def base_def)
  then have "ips_scbctrl_init pagesize (Some bm) (Some im) (Some sm) numscb numbufs imm_size bufsize cb ctx c0 = Inr (PSM_OK, c)"
    unfolding f(1) c_def .
  moreover have sel: "scb_num c = numscb" "sbuf_num c = numbufs" "scb_imm_size c = imm_size" "scb_avail_callback c = cb" "scb_base c = sm"
    "scb_free c = rev (map (scb_addr sm) [0..<unat numscb])" "sbuf_free c = ?bufs" "scbs c = f" "scb_num_cur c = numscb" "sbuf_num_cur c = numbufs"
    "sbuf_buf_size c = bufsize" "numbufs \<noteq> 0 \<Longrightarrow> sbuf_buf_base c = base" "numbufs \<noteq> 0 \<Longrightarrow> sbuf_buf_last c = base + ucast (bufsize * (numbufs - 1))"
    by (simp_all add: c_def c1_def word_gt_0 sbuf_init_loop_eq)
  have fp: "payload (f s) = 0" "imm_payload (f s) = 0 \<or> (\<exists>i < unat numscb. imm_size \<noteq> 0 \<and> imm_payload (f s) = im + ucast (of_nat i * imm_size))"
    if "s \<in> scb_set c" for s
  proof -
    have "s \<in> scb_addr sm ` {..<unat numscb}" using that by (simp add: scb_set_def sel)
    then obtain i where i: "i < unat numscb" "s = scb_addr sm i" by auto
    then have "f s = scb_calloc\<lparr>imm_payload := if scb_imm_buf c1 \<noteq> 0 then scb_imm_buf c1 + ucast (of_nat i * scb_imm_size c1) else 0\<rparr>"
      using f(2) by blast
    moreover have "scb_imm_buf c1 = (if imm_size \<noteq> 0 then im else 0)" "scb_imm_size c1 = imm_size" by (simp_all add: c1_def)
    ultimately show "payload (f s) = 0" "imm_payload (f s) = 0 \<or> (\<exists>i < unat numscb. imm_size \<noteq> 0 \<and> imm_payload (f s) = im + ucast (of_nat i * imm_size))"
      using i(1) by (auto simp: scb_calloc_def)
  qed
  have "\<not> in_sbufs (imm_payload (f s)) c" if "s \<in> scb_set c" "numbufs \<noteq> 0" for s
    using fp(2) [OF that(1)] assms that(2) by (auto simp: scb_mem_ok_def in_sbufs_def sel base_def Let_def)
  then have g: "scb_geom c" using assms z by (auto simp: scb_geom_def sel scb_mem_ok_def base_def)
  have sets: "set (scb_free c) = scb_set c" "set (sbuf_free c) = sbuf_set c"
    using sel(12) by (cases "numbufs = 0"; auto simp: scb_set_def sbuf_set_def sel(1-11) word_gt_0 lessThan_atLeast0)+
  have d: "distinct (scb_free c)" "distinct (sbuf_free c)"
    using scb_addr_inj [OF g] sbuf_addr_inj [OF g] by (auto simp: sel distinct_map lessThan_atLeast0 word_gt_0)
  have h: "scb_held c = {}" using sets by (simp add: scb_held_def)
  have "scb_inv c" unfolding scb_inv_def using g d sets h fp(1) by (auto simp: sel word_gt_0 bij_betw_def)
  ultimately show ?thesis using h sel(1-4) by auto
qed

section \<open>Properties\<close>

text \<open>
  C37: After any history of allocations (tiny, with immediate or with bounce buffer) and releases on a
  fresh pool, every block is held by one client, the counters of free blocks and free bounce buffers are
  exact, blocks that use a bounce buffer use different ones, none of which is on the free list, and
  the next request returns: it is refused only when no block or no bounce buffer is left.
\<close>

theorem scb_history:
  assumes "scb_mem_ok pagesize bm im sm numscb numbufs imm_size bufsize" "scb_call_ok call"
    "ips_scbctrl_init pagesize (Some bm) (Some im) (Some sm) numscb numbufs imm_size bufsize cb ctx c0 = Inr (PSM_OK, c1)"
    "pool_hist scb_get scb_put scb_req_ok (call, c1) hs (call', c)"
  shows "distinct hs \<and> unat (scb_num_cur c) + length hs = unat numscb \<and>
    unat (sbuf_num_cur c) + card {s \<in> set hs. bounced c s} = unat numbufs \<and>
    inj_on (\<lambda>s. payload (scbs c s)) {s \<in> set hs. bounced c s} \<and>
    (\<forall>s \<in> set hs. bounced c s \<longrightarrow> payload (scbs c s) \<notin> set (sbuf_free c)) \<and>
    (\<forall>m. scb_req_ok m (call', c) \<longrightarrow> (\<exists>r p. scb_get m (call', c) = Inr (r, p) \<and>
       (r = None \<longrightarrow> scb_num_cur c = 0 \<or> sbuf_num_cur c = 0) \<and> (\<forall>s. r = Some s \<longrightarrow> s \<notin> set hs)))"
proof -
  have c1: "scb_inv c1" "scb_held c1 = {}" "scb_num c1 = numscb" "sbuf_num c1 = numbufs"
    using scb_init_ok [OF assms(1), of cb ctx c0] assms(3) by auto
  then have "scb_pool_inv c1 (call, c1)" using assms(2) by (simp add: scb_pool_inv_def scb_shape_def)
  then have h: "scb_pool_inv c1 (call', c)" "distinct hs" "set hs = scb_held c"
    using scb_pool.hist_held [OF assms(4), of c1] c1 by auto
  then have i: "scb_inv c" "scb_num c = numscb" "sbuf_num c = numbufs" using c1 by (auto simp: scb_pool_inv_def scb_shape_def)
  have g: "scb_geom c" using i by (simp add: scb_inv_def)
  have b: "bij_betw (\<lambda>s. payload (scbs c s)) {s \<in> set hs. bounced c s} (sbuf_set c - set (sbuf_free c))"
    using i(1) h(3) by (simp add: scb_inv_def)
  have "length hs = card (scb_held c)" using h by (metis distinct_card)
  also have "\<dots> = card (scb_set c) - length (scb_free c)" unfolding scb_held_def using i(1) by (subst card_Diff_subset) (auto simp: scb_inv_def distinct_card)
  finally have n: "unat (scb_num_cur c) + length hs = unat numscb"
    using i card_scb_set [OF g] card_mono [of "scb_set c" "set (scb_free c)"] by (auto simp: scb_inv_def distinct_card)
  have "card {s \<in> set hs. bounced c s} = card (sbuf_set c - set (sbuf_free c))" using b by (rule bij_betw_same_card)
  also have "\<dots> = card (sbuf_set c) - length (sbuf_free c)" using i(1) by (subst card_Diff_subset) (auto simp: scb_inv_def distinct_card)
  finally have m: "unat (sbuf_num_cur c) + card {s \<in> set hs. bounced c s} = unat numbufs"
    using i card_sbuf_set [OF g] card_mono [of "sbuf_set c" "set (sbuf_free c)"] by (auto simp: scb_inv_def distinct_card)
  have nul: "scb_free c = [] \<Longrightarrow> scb_num_cur c = 0" "sbuf_free c = [] \<Longrightarrow> sbuf_num_cur c = 0"
    using i(1) by (auto simp: scb_inv_def unat_eq_zero)
  have "\<exists>r p. scb_get m (call', c) = Inr (r, p) \<and> (r = None \<longrightarrow> scb_num_cur c = 0 \<or> sbuf_num_cur c = 0) \<and> (\<forall>s. r = Some s \<longrightarrow> s \<notin> set hs)"
    if "scb_req_ok m (call', c)" for m
    using i(1) that by (cases rule: scb_get_cases) (use nul h(3) in auto)
  then show ?thesis using h(2) n m b by (auto simp: bij_betw_def)
qed

text \<open>Two blocks and one bounce buffer of 4096 bytes.\<close>

definition demo_scbctrl :: ips_scbctrl where
  "demo_scbctrl = \<lparr>scb_num = 0, scb_num_cur = 0, scb_free = [], scb_base = 0, scb_avail_callback = None, scb_avail_context = 0,
     scb_imm_size = 0, scb_imm_buf = 0, sbuf_num = 0, sbuf_num_cur = 0, sbuf_free = [], sbuf_buf_alloc = 0, sbuf_buf_size = 0,
     sbuf_buf_base = 0, sbuf_buf_last = 0, scbs = (\<lambda>_. scb_calloc)\<rparr>"

lemma demo_scb_mem: "scb_mem_ok 4096 0x10008 0 0x20000 2 1 0 4096"
  by (simp add: scb_mem_ok_def PSMI_ALIGNUP_def PSMI_ALIGNDOWN_def)

theorem scb_history_witness:
  "\<exists>c1 c s. ips_scbctrl_init 4096 (Some 0x10008) (Some 0) (Some 0x20000) 2 1 0 4096 None 0 demo_scbctrl = Inr (PSM_OK, c1) \<and>
     pool_hist scb_get scb_put scb_req_ok (\<lambda>_ _ c. c, c1) [s] (\<lambda>_ _ c. c, c) \<and> unat (scb_num_cur c) = 1"
proof -
  have call: "scb_call_ok (\<lambda>_ _ c :: ips_scbctrl. c)" by (simp add: scb_call_ok_def)
  obtain c1 where c1: "ips_scbctrl_init 4096 (Some 0x10008) (Some 0) (Some 0x20000) 2 1 0 4096 None 0 demo_scbctrl = Inr (PSM_OK, c1)"
    "scb_inv c1" "scb_held c1 = {}" "scb_num c1 = 2" using scb_init_ok [OF demo_scb_mem, of None 0 demo_scbctrl] by auto
  have r: "scb_req_ok None (\<lambda>_ _ c. c, c1)" by (simp add: scb_req_ok_def)
  have "scb_geom c1" "set (scb_free c1) \<subseteq> scb_set c1" using c1(2) by (auto simp: scb_inv_def)
  then have "card (scb_set c1) = 2" using card_scb_set [of c1] c1 by simp
  then have ne: "scb_free c1 \<noteq> []" using c1(3) by (auto simp: scb_held_def)
  have "\<exists>s c. scb_get None (\<lambda>_ _ c. c, c1) = Inr (Some s, \<lambda>_ _ c. c, c)"
    using c1(2) by (cases rule: alloc_tiny_cases) (use ne in \<open>auto simp: scb_get_def\<close>)
  then obtain s c where g: "scb_get None (\<lambda>_ _ c. c, c1) = Inr (Some s, \<lambda>_ _ c. c, c)" by blast
  have h: "pool_hist scb_get scb_put scb_req_ok (\<lambda>_ _ c. c, c1) [s] (\<lambda>_ _ c. c, c)"
    by (rule pool_hist.take [where m = None and p = "(\<lambda>_ _ c. c, c1)"]) (simp_all add: pool_hist.start g r)
  show ?thesis using scb_history [OF demo_scb_mem call c1(1) h] c1(1) h by fastforce
qed

end
