(* ===== verification/Ips_Data.thy ===== *)
theory Ips_Data
  imports Ips_Scb Timer
begin

text \<open>
  The data of the InfiniPath transport's protocol, \<^verbatim>\<open>src/ptl_ips/ips_proto.h\<close>, \<^verbatim>\<open>src/ptl_ips/ips_path_rec.h\<close> and
  \<^verbatim>\<open>src/ptl_ips/ips_proto_header.h\<close>: flows, paths, endpoint addresses, frame headers, the queue of control
  messages and the protocol object.

  A flow keeps the blocks that are sent or waiting and not yet acknowledged in \<^verbatim>\<open>scb_unacked\<close>;
  \<^verbatim>\<open>scb_pend\<close> points at the first one that still has to be put on the wire. Both lists run through the
  same link field of the blocks (a union in \<^verbatim>\<open>struct ips_scb\<close>), so following the links from \<^verbatim>\<open>scb_pend\<close>
  visits the rest of \<^verbatim>\<open>scb_unacked\<close>; here the queue is a list, \<open>scb_pend\<close> a pointer and \<open>pend_list\<close> the
  blocks reached from it.

  The state extends the pool of control blocks of \<open>Ips_Scb\<close>; it has one pool, the code has one for each
  kind of send. Flows, paths, endpoint addresses and the words that record which control messages are
  queued are stores indexed by their addresses. What the device and the host answer is the argument
  \<open>e\<close>: the n-th call outside the component is answered by the value of the field at \<open>n\<close> (\<open>ext\<close> counts
  the calls). A timer is \<open>None\<close> when it is idle and its deadline when it is pending;
  \<open>timer_request_refines\<close> and \<open>timer_cancel_refines\<close> justify this by the interface of \<open>Timer\<close>. \<open>wire\<close> lists the
  frames handed to the device. Sequence numbers are the 24 bits of \<^verbatim>\<open>psn\<close>; the eight bits above them are
  never set.
\<close>

unbundle bit_operations_syntax

section \<open>Data\<close>

datatype psm_transfer_type = PSM_TRANSFER_PIO | PSM_TRANSFER_DMA | PSM_TRANSFER_LAST
datatype psm_protocol_type = PSM_PROTOCOL_GO_BACK_N | PSM_PROTOCOL_TIDFLOW | PSM_PROTOCOL_LAST

definition IPS_FLOW_FLAG_NAK_SEND :: u16 where "IPS_FLOW_FLAG_NAK_SEND = 0x01"
definition IPS_FLOW_FLAG_PENDING_ACK :: u16 where "IPS_FLOW_FLAG_PENDING_ACK = 0x04"
definition IPS_FLOW_FLAG_GEN_BECN :: u16 where "IPS_FLOW_FLAG_GEN_BECN = 0x08"
definition IPS_FLOW_FLAG_CONGESTED :: u16 where "IPS_FLOW_FLAG_CONGESTED = 0x10"
definition IPS_FLOW_FLAG_PENDING_NAK :: u16 where "IPS_FLOW_FLAG_PENDING_NAK = 0x20"

definition IPS_PROTO_FLAG_CTRL_SDMA :: u32 where "IPS_PROTO_FLAG_CTRL_SDMA = 0x10"
definition IPS_PROTO_FLAG_CKSUM :: u32 where "IPS_PROTO_FLAG_CKSUM = 0x20"
definition IPS_PROTO_FLAG_COALESCE_ACKS :: u32 where "IPS_PROTO_FLAG_COALESCE_ACKS = 0x80"
definition IPS_PROTO_FLAG_PPOLICY_ADAPTIVE :: u32 where "IPS_PROTO_FLAG_PPOLICY_ADAPTIVE = 0x200"

definition TIMEOUT_INFINITE :: u64 where "TIMEOUT_INFINITE = 0xFFFFFFFFFFFFFFFF"
definition CCA_DIVISOR_SHIFT :: nat where "CCA_DIVISOR_SHIFT = 14"
definition CCA_IPD_MASK :: u16 where "CCA_IPD_MASK = 0x3FFF"

lemmas flow_flag_defs = IPS_FLOW_FLAG_NAK_SEND_def IPS_FLOW_FLAG_PENDING_ACK_def IPS_FLOW_FLAG_GEN_BECN_def
  IPS_FLOW_FLAG_CONGESTED_def IPS_FLOW_FLAG_PENDING_NAK_def

text \<open>The views of \<^verbatim>\<open>psmi_seqnum_t\<close>: the sequence number, the generation and the flow of a TID flow.\<close>

definition sn_seq :: "u24 \<Rightarrow> 11 word" where "sn_seq n = ucast n"
definition sn_gen :: "u24 \<Rightarrow> u8" where "sn_gen n = ucast (drop_bit 11 n)"
definition sn_set_seq :: "11 word \<Rightarrow> u24 \<Rightarrow> u24" where "sn_set_seq q n = (n AND NOT 0x7FF) OR ucast q"
definition sn_set_gen :: "u8 \<Rightarrow> u24 \<Rightarrow> u24" where "sn_set_gen g n = (n AND NOT 0x7F800) OR push_bit 11 (ucast g)"

text \<open>
  The address of a flow: one of the flows of an endpoint address, the flow of a TID send descriptor,
  or the flow of the request a TID receive descriptor belongs to. The words of queued control
  messages belong to an endpoint address or to a descriptor.
\<close>

datatype flowp = Ep_flow nat nat | Tidsend_flow u32 | Tidrecv_flow u32
datatype maskp = Ep_mask nat | Tidsend_mask u64 | Tidrecv_mask u32

record ips_flow =
  flow_ipsaddr :: nat
  flow_path :: nat
  transfer :: psm_transfer_type
  protocol :: psm_protocol_type
  flowid :: u32
  flow_flags :: u16
  flow_sl :: u16
  cca_ooo_pkts :: u16
  credits :: u16
  cwin :: u16
  ack_interval :: u16
  xmit_seq_num :: u24
  xmit_ack_num :: u24
  recv_seq_num :: u24
  last_seq_num :: u24
  scb_num_pending :: u32
  scb_num_unacked :: u32
  egr_flowid :: u8
  egr_msgno :: u24
  timer_send :: "u64 option"
  timer_ack :: "u64 option"
  scb_unacked :: "u64 list"
  scb_pend :: "u64 option"

record ips_path_rec =
  epr_mtu :: u16
  epr_sl :: u8
  epr_static_ipd :: u16
  epr_ccti :: u16
  epr_ccti_min :: u16
  epr_timer_cca :: "u64 option"
  epr_active_ipd :: u16
  epr_cca_divisor :: u8
  epr_timeout_ack_factor :: u32
  epr_timeout_ack :: u64
  epr_timeout_ack_max :: u64

record ips_epaddr =
  ep_flags :: u16
  epr_hpp_index :: u8
  epr_num_hpp :: u8
  err_chk_send :: u64
  err_chk_recv :: u64
  nak_send :: u64
  nak_recv :: u64
  connect_req :: u64
  disconnect_req :: u64
  tids_grant_send :: u64
  send_rexmit :: u64
  congestion_pkts :: u64

text \<open>
  The header fields of a frame that the protocol writes and reads, and the payload it points at. The
  addressing words of the header are functions of the path and are left out. \<open>h_becn\<close> is the congestion
  bit of \<^verbatim>\<open>bth[1]\<close>, \<open>h_psn\<close> is \<^verbatim>\<open>bth[2]\<close>.
\<close>

record ips_hdr =
  h_sub_opcode :: u8
  h_psn :: u32
  h_becn :: bool
  h_flags :: u8
  h_flowid :: u8
  h_ack_seq_num :: u24
  h_hdr_dlen :: u8
  h_mqhdr :: u16
  h_data :: "u64 \<times> u64"
  h_payload :: u64
  h_paylen :: u32

text \<open>One element of the queue of control messages, and the queue (a ring of 32 elements).\<close>

record ips_ctrlq_elem =
  cqe_ipsaddr :: "nat option"
  cqe_message_type :: u8
  cqe_mask :: maskp
  cqe_flow :: flowp
  cqe_args :: "u64 \<times> u64 \<times> u64"

record ips_ctrlq =
  ctrlq_head :: nat
  ctrlq_tail :: nat
  ctrlq_cqe :: "nat \<Rightarrow> ips_ctrlq_elem"
  ctrlq_timer :: "u64 option"

record 'w ips_proto = ips_scbctrl +
  flows :: "flowp \<Rightarrow> ips_flow"
  paths :: "nat \<Rightarrow> ips_path_rec"
  ipsaddrs :: "nat \<Rightarrow> ips_epaddr"
  masks :: "maskp \<Rightarrow> u32"
  ctrlqs :: "nat \<Rightarrow> ips_ctrlq"
  ctrl_msg_queue_overflow :: u32
  pending_acks :: "flowp list"
  timeout_send :: u64
  proto_flags :: u32
  iovec_cntr_next_inflight :: u32
  iovec_cntr_last_completed :: u32
  scb_max_sdma :: u32
  scb_max_inflight :: u16
  flow_credits :: u16
  cct :: "nat \<Rightarrow> u16"
  ccti_increase :: u16
  ccti_limit :: u16
  ccti_timer_cycles :: u64
  pio_busy_cnt :: u64
  writev_busy_cnt :: u64
  tid_iovec_cntr_last :: "u64 \<Rightarrow> u32"
  ext :: nat
  wire :: "(flowp \<times> ips_hdr) list"
  app :: 'w

text \<open>
  The calls into the matched queue that an accepted packet makes: an envelope (mode, tag, identification
  of an eager message, length of the message, payload and its length), data for the first eager message
  of a flow or for a request of the pool, a request to send and a clear to send. A tiny message is in
  the header.
\<close>

datatype mq_payload = In_buffer u64 | In_header u64

datatype mq_op =
    Mq_envelope u16 u64 "u32 option" u32 mq_payload u32
  | Mq_data nat nat u64 u32
  | Mq_rts u16 u64 u32 u32
  | Mq_data_req u32 u64 u32
  | Mq_cts "u64 \<times> u64"

text \<open>
  What lies outside: the clock, the transfer of a frame by programmed I/O and by send DMA
  (\<^verbatim>\<open>ips_spio_transfer_frame\<close>, \<^verbatim>\<open>ips_dma_transfer_frame\<close>, \<^verbatim>\<open>scb_dma_send\<close>), the device's completion counter, whether
  \<^verbatim>\<open>rand()\<close> returns \<^verbatim>\<open>RAND_MAX\<close>, the checksum of a frame, the completion and availability callbacks, which
  act on the rest of the program, and the pools of TID descriptors of the expected protocol: the
  generation of a send descriptor (\<open>None\<close>: no such index), the generation and the next expected
  sequence number of a receive descriptor, the identifiers a send descriptor puts into an error check,
  and the payload length of the connect messages; and the matched queue: what a call does, and the
  number of the eager message whose envelope is first for a flow of an endpoint address.
\<close>

record 'w ips_env =
  cycles :: "nat \<Rightarrow> u64"
  spio_result :: "nat \<Rightarrow> psm_error"
  dma_result :: "nat \<Rightarrow> psm_error"
  dma_send :: "nat \<Rightarrow> u32 \<Rightarrow> psm_error \<times> u32"
  sdma_complete :: "nat \<Rightarrow> u32 option"
  rand_is_max :: "nat \<Rightarrow> bool"
  crc :: "ips_scb \<Rightarrow> u32"
  completion :: "nat \<Rightarrow> u64 \<Rightarrow> 'w \<Rightarrow> 'w"
  scb_avail :: "nat \<Rightarrow> u64 \<Rightarrow> 'w \<Rightarrow> 'w"
  tid_send_gen :: "u32 \<Rightarrow> u32 option"
  tid_recv_desc :: "u32 \<Rightarrow> (u32 \<times> u24) option"
  tid_send_ids :: "u64 \<Rightarrow> u64 \<times> u64"
  connect_paylen :: "u8 \<Rightarrow> u32"
  mq_call :: "mq_op \<Rightarrow> 'w \<Rightarrow> 'w"
  egr_first :: "nat \<Rightarrow> nat \<Rightarrow> 'w \<Rightarrow> u24 option"

definition upd_flow :: "flowp \<Rightarrow> (ips_flow \<Rightarrow> ips_flow) \<Rightarrow> 'w ips_proto \<Rightarrow> 'w ips_proto" where
  "upd_flow fl g p = p\<lparr>flows := (flows p)(fl := g (flows p fl))\<rparr>"

definition upd_path :: "nat \<Rightarrow> (ips_path_rec \<Rightarrow> ips_path_rec) \<Rightarrow> 'w ips_proto \<Rightarrow> 'w ips_proto" where
  "upd_path i g p = p\<lparr>paths := (paths p)(i := g (paths p i))\<rparr>"

definition upd_epaddr :: "nat \<Rightarrow> (ips_epaddr \<Rightarrow> ips_epaddr) \<Rightarrow> 'w ips_proto \<Rightarrow> 'w ips_proto" where
  "upd_epaddr i g p = p\<lparr>ipsaddrs := (ipsaddrs p)(i := g (ipsaddrs p i))\<rparr>"

abbreviation path_of :: "flowp \<Rightarrow> 'w ips_proto \<Rightarrow> ips_path_rec" where
  "path_of fl p \<equiv> paths p (flow_path (flows p fl))"

definition get_cycles :: "'w ips_env \<Rightarrow> 'w ips_proto \<Rightarrow> u64 \<times> 'w ips_proto" where
  "get_cycles e p = (cycles e (ext p), p\<lparr>ext := Suc (ext p)\<rparr>)"

text \<open>\<^verbatim>\<open>psmi_timer_request\<close> and \<^verbatim>\<open>psmi_timer_cancel\<close> on one timer.\<close>

definition timer_request :: "u64 \<Rightarrow> u64 option \<Rightarrow> u64 option" where
  "timer_request t d = (case d of None \<Rightarrow> Some t | Some _ \<Rightarrow> d)"

definition armed :: "('c \<Rightarrow> tmr set) \<Rightarrow> ('c \<Rightarrow> tmr \<Rightarrow> u64) \<Rightarrow> 'c \<Rightarrow> tmr \<Rightarrow> u64 option" where
  "armed pending deadline c t = (if t \<in> pending c then Some (deadline c t) else None)"

context alarm_queue
begin

lemma arm_armed:
  assumes "inv c"
  shows "\<exists>c'. arm t d c = Some c' \<and> inv c' \<and>
    armed pending deadline c' = (armed pending deadline c)(t := timer_request d (armed pending deadline c t))"
proof (cases "t \<in> pending c")
  case True
  then show ?thesis using assms arm_pending [of c t d] by (auto simp: armed_def timer_request_def)
next
  case False
  then obtain c' where c: "arm t d c = Some c'" "inv c'" "pending c' = insert t (pending c)" "deadline c' = (deadline c)(t := d)"
    using arm_idle [of c t d] assms by blast
  then have "armed pending deadline c' = (armed pending deadline c)(t := timer_request d (armed pending deadline c t))"
    using False by (intro ext) (simp add: armed_def timer_request_def)
  then show ?thesis using c by blast
qed

lemma disarm_armed:
  assumes "inv c"
  shows "inv (disarm t c) \<and> armed pending deadline (disarm t c) = (armed pending deadline c)(t := None)"
  using disarm_law [OF assms, of t] by (intro conjI ext) (simp_all add: armed_def)

end

lemmas timer_request_refines = timer.arm_armed
lemmas timer_cancel_refines = timer.disarm_armed

section \<open>Links\<close>

definition slist_first :: "'a list \<Rightarrow> 'a option" where
  "slist_first xs = (case xs of [] \<Rightarrow> None | x # _ \<Rightarrow> Some x)"

text \<open>The blocks reached from \<^verbatim>\<open>scb_pend\<close> by the link field.\<close>

definition pend_list :: "ips_flow \<Rightarrow> u64 list" where
  "pend_list f = (case scb_pend f of None \<Rightarrow> [] | Some s \<Rightarrow> dropWhile (\<lambda>x. x \<noteq> s) (scb_unacked f))"

section \<open>A small instance\<close>

text \<open>
  A protocol object for the examples: four control blocks, all of them free, no bounce buffers, flows
  of 64 credits by programmed I/O, and a host whose device takes every frame.
\<close>

definition demo_flow :: ips_flow where
  "demo_flow = \<lparr>flow_ipsaddr = 0, flow_path = 0, transfer = PSM_TRANSFER_PIO, protocol = PSM_PROTOCOL_GO_BACK_N, flowid = 0,
     flow_flags = 0, flow_sl = 0, cca_ooo_pkts = 0, credits = 64, cwin = 64, ack_interval = 15, xmit_seq_num = 0, xmit_ack_num = 0,
     recv_seq_num = 0, last_seq_num = 0, scb_num_pending = 0, scb_num_unacked = 0, egr_flowid = 0, egr_msgno = 0,
     timer_send = None, timer_ack = None, scb_unacked = [], scb_pend = None\<rparr>"

definition demo_path :: ips_path_rec where
  "demo_path = \<lparr>epr_mtu = 2048, epr_sl = 0, epr_static_ipd = 0, epr_ccti = 0, epr_ccti_min = 0, epr_timer_cca = None,
     epr_active_ipd = 0, epr_cca_divisor = 0, epr_timeout_ack_factor = 2, epr_timeout_ack = 100, epr_timeout_ack_max = 400\<rparr>"

definition demo_epaddr :: ips_epaddr where
  "demo_epaddr = \<lparr>ep_flags = 0, epr_hpp_index = 0, epr_num_hpp = 1, err_chk_send = 0, err_chk_recv = 0, nak_send = 0, nak_recv = 0,
     connect_req = 0, disconnect_req = 0, tids_grant_send = 0, send_rexmit = 0, congestion_pkts = 0\<rparr>"

definition demo_cqe :: ips_ctrlq_elem where
  "demo_cqe = \<lparr>cqe_ipsaddr = None, cqe_message_type = 0, cqe_mask = Ep_mask 0, cqe_flow = Ep_flow 0 0, cqe_args = (0, 0, 0)\<rparr>"

definition demo_ctrlq :: ips_ctrlq where
  "demo_ctrlq = \<lparr>ctrlq_head = 0, ctrlq_tail = 0, ctrlq_cqe = (\<lambda>_. demo_cqe), ctrlq_timer = None\<rparr>"

definition demo_proto :: "'w \<Rightarrow> 'w ips_proto" where
  "demo_proto w = \<lparr>scb_num = 4, scb_num_cur = 4, scb_free = [0x1000, 0x10C0, 0x1180, 0x1240], scb_base = 0x1000,
     scb_avail_callback = None, scb_avail_context = 0, scb_imm_size = 0, scb_imm_buf = 0, sbuf_num = 0, sbuf_num_cur = 0,
     sbuf_free = [], sbuf_buf_alloc = 0, sbuf_buf_size = 0, sbuf_buf_base = 0, sbuf_buf_last = 0, scbs = (\<lambda>_. scb_calloc),
     flows = (\<lambda>_. demo_flow), paths = (\<lambda>_. demo_path), ipsaddrs = (\<lambda>_. demo_epaddr), masks = (\<lambda>_. 0),
     ctrlqs = (\<lambda>_. demo_ctrlq), ctrl_msg_queue_overflow = 0, pending_acks = [], timeout_send = 2,
     proto_flags = IPS_PROTO_FLAG_COALESCE_ACKS, iovec_cntr_next_inflight = 0, iovec_cntr_last_completed = 0, scb_max_sdma = 32,
     scb_max_inflight = 8, flow_credits = 64, cct = (\<lambda>_. 0), ccti_increase = 1, ccti_limit = 127, ccti_timer_cycles = 1000,
     pio_busy_cnt = 0, writev_busy_cnt = 0, tid_iovec_cntr_last = (\<lambda>_. 0), ext = 0, wire = [], app = w\<rparr>"

definition demo_env :: "'w ips_env" where
  "demo_env = \<lparr>cycles = of_nat, spio_result = (\<lambda>_. PSM_OK), dma_result = (\<lambda>_. PSM_OK), dma_send = (\<lambda>_ n. (PSM_OK, n)),
     sdma_complete = (\<lambda>_. None), rand_is_max = (\<lambda>_. False), crc = (\<lambda>_. 0), completion = (\<lambda>_ _ w. w), scb_avail = (\<lambda>_ _ w. w),
     tid_send_gen = (\<lambda>_. None), tid_recv_desc = (\<lambda>_. Some (1, 0)), tid_send_ids = (\<lambda>_. (0, 0)), connect_paylen = (\<lambda>_. 0),
     mq_call = (\<lambda>_ w. w), egr_first = (\<lambda>_ _ _. None)\<rparr>"

lemma demo_proto_simps [simp]:
  "scb_num (demo_proto w) = 4" "scb_num_cur (demo_proto w) = 4" "scb_free (demo_proto w) = [0x1000, 0x10C0, 0x1180, 0x1240]"
  "scb_base (demo_proto w) = 0x1000" "scb_avail_callback (demo_proto w) = None" "sbuf_num (demo_proto w) = 0"
  "sbuf_num_cur (demo_proto w) = 0" "sbuf_free (demo_proto w) = []" "scbs (demo_proto w) s = scb_calloc"
  "flows (demo_proto w) fl = demo_flow" "paths (demo_proto w) i = demo_path" "ipsaddrs (demo_proto w) i = demo_epaddr"
  "masks (demo_proto w) m = 0" "ctrlqs (demo_proto w) qi = demo_ctrlq" "pending_acks (demo_proto w) = []"
  "proto_flags (demo_proto w) = IPS_PROTO_FLAG_COALESCE_ACKS" "scb_max_sdma (demo_proto w) = 32" "scb_max_inflight (demo_proto w) = 8"
  "flow_credits (demo_proto w) = 64" "ccti_increase (demo_proto w) = 1" "ccti_limit (demo_proto w) = 127"
  "ext (demo_proto w) = 0" "wire (demo_proto w) = []" "app (demo_proto w) = w"
  by (simp_all add: demo_proto_def)

lemma demo_scb_set: "scb_set (demo_proto w) = {0x1000, 0x10C0, 0x1180, 0x1240}"
proof -
  have "{..<4 :: nat} = {0, 1, 2, 3}" by auto
  then show ?thesis by (simp add: scb_set_def scb_addr_def sizeof_ips_scb_def)
qed

lemma demo_proto_inv: "scb_inv (demo_proto w)"
  by (simp add: scb_inv_def scb_geom_def demo_scb_set bounced_def sbuf_set_def bij_betw_def scb_calloc_def)

end
