(* ===== verification/Ips_Flow.thy ===== *)
theory Ips_Flow
  imports Ips_Data
begin

text \<open>
  The sending side of flows, \<^verbatim>\<open>src/ptl_ips/ips_proto.c\<close>, \<^verbatim>\<open>src/ptl_ips/ips_proto_help.h\<close> and
  \<^verbatim>\<open>src/ptl_ips/ips_proto_connect.c\<close>: a frame gets the next sequence number and joins the queue of
  unacknowledged frames, a flush puts pending frames on the wire while there are credits, by
  programmed I/O or by send DMA; the timer for sends flushes again; congestion adjusts the injection
  rate of the path.

  Shown: every operation keeps the flow consistent (the queue holds distinct blocks with consecutive
  sequence numbers up to the next one to be used, the pending pointer points into it, the counters
  are exact), and a flush transmits exactly a prefix of the pending frames, in order and never more
  than the credits allow.
\<close>

unbundle bit_operations_syntax

section \<open>Initialisation\<close>

definition IPS_FLOWID_PACK :: "psm_protocol_type \<Rightarrow> u32 \<Rightarrow> u32" where
  "IPS_FLOWID_PACK proto flowindex =
     (push_bit 4 ((case proto of PSM_PROTOCOL_GO_BACK_N \<Rightarrow> 0 | PSM_PROTOCOL_TIDFLOW \<Rightarrow> 1 | PSM_PROTOCOL_LAST \<Rightarrow> 2) AND 0xF))
       OR (flowindex AND 0xF)"

text \<open>\<^verbatim>\<open>max ((credits >> 2) - 1, 1)\<close>, computed in \<^verbatim>\<open>int\<close> and stored in 16 bits.\<close>

definition ack_interval_of :: "u16 \<Rightarrow> u16" where
  "ack_interval_of c = (if unat c div 4 - 1 > 1 then of_nat (unat c div 4 - 1) else 1)"

definition ips_flow_init ::
  "nat \<Rightarrow> nat \<Rightarrow> psm_transfer_type \<Rightarrow> psm_protocol_type \<Rightarrow> u32 \<Rightarrow> flowp \<Rightarrow> 'w ips_proto \<Rightarrow> 'w ips_proto" where
  "ips_flow_init path ipsaddr transfer_type protocol_type flow_index fl p =
     upd_flow fl (\<lambda>f. f\<lparr>flow_path := path, flow_ipsaddr := ipsaddr, transfer := transfer_type, protocol := protocol_type,
       flowid := IPS_FLOWID_PACK protocol_type flow_index, xmit_seq_num := 0, xmit_ack_num := 0, recv_seq_num := 0,
       flow_flags := 0, flow_sl := ucast (epr_sl (paths p path)), cca_ooo_pkts := 0,
       credits := flow_credits p, cwin := flow_credits p, ack_interval := ack_interval_of (flow_credits p),
       scb_num_pending := 0, scb_num_unacked := 0, egr_flowid := ucast flow_index, egr_msgno := 0,
       timer_ack := None, timer_send := None, scb_unacked := [], scb_pend := None\<rparr>) p"

section \<open>Composing and queueing a frame\<close>

definition ips_flow_gen_ackflags :: "u64 \<Rightarrow> flowp \<Rightarrow> 'w ips_proto \<Rightarrow> u8 \<times> 'w ips_proto" where
  "ips_flow_gen_ackflags s fl p =
     (let f = flows p fl;
          diff = (if protocol f = PSM_PROTOCOL_TIDFLOW
                  then ucast (sn_seq (xmit_seq_num f)) - ucast (sn_seq (xmit_ack_num f))
                  else ucast (xmit_seq_num f) - ucast (xmit_ack_num f)) :: u32;
          p = upd_scb s (\<lambda>x. if diff AND ucast (ack_interval f) = 0 \<or> credits f = 1
                               then x\<lparr>scb_flags := scb_flags x OR IPS_SEND_FLAG_ACK_REQ\<rparr> else x) p
      in (ucast (scb_flags (scbs p s) AND IPS_SEND_FLAG_PROTO_OPTS), p))"

text \<open>The fields of the header that \<^verbatim>\<open>ips_proto_hdr\<close> fills from the flow.\<close>

definition ips_proto_hdr :: "u64 \<Rightarrow> flowp \<Rightarrow> u32 \<Rightarrow> u8 \<Rightarrow> 'w ips_proto \<Rightarrow> 'w ips_proto" where
  "ips_proto_hdr s fl extra_bytes flags p =
     upd_scb s (\<lambda>x. x\<lparr>lrh_pad := extra_bytes, lrh_flags := flags, lrh_flowid := ucast (flowid (flows p fl)),
                       lrh_ack_seq_num := recv_seq_num (flows p fl)\<rparr>) p"

definition ips_scb_prepare_flow_inner :: "u64 \<Rightarrow> flowp \<Rightarrow> 'w ips_proto \<Rightarrow> 'w ips_proto" where
  "ips_scb_prepare_flow_inner s fl p =
     (let p = upd_scb s (\<lambda>x. x\<lparr>payload_size := payload_size x + 3\<rparr>) p;
          extra_bytes = 3 - (payload_size (scbs p s) AND 3);
          p = upd_scb s (\<lambda>x. x\<lparr>payload_size := payload_size x AND NOT 3\<rparr>) p;
          (flags, p) = ips_flow_gen_ackflags s fl p;
          p = ips_proto_hdr s fl extra_bytes flags p;
          p = upd_scb s (\<lambda>x. x\<lparr>ack_timeout := epr_timeout_ack (path_of fl p), abs_timeout := TIMEOUT_INFINITE,
                                seq_num := xmit_seq_num (flows p fl),
                                scb_flags := scb_flags x OR IPS_SEND_FLAG_PENDING\<rparr>) p
      in upd_flow fl (\<lambda>f. f\<lparr>xmit_seq_num :=
           (if protocol f = PSM_PROTOCOL_TIDFLOW then sn_set_seq (sn_seq (xmit_seq_num f) + 1) (xmit_seq_num f)
            else xmit_seq_num f + 1)\<rparr>) p)"

definition ips_do_cksum :: "'w ips_env \<Rightarrow> u64 \<Rightarrow> 'w ips_proto \<Rightarrow> 'w ips_proto" where
  "ips_do_cksum e s p =
     upd_scb s (\<lambda>x. if proto_flags p AND IPS_PROTO_FLAG_CKSUM \<noteq> 0 \<and> scb_tid x = IPATH_EAGER_TID_ID
                     then x\<lparr>scb_cksum := crc e x\<rparr> else x) p"

definition ips_proto_flow_enqueue :: "'w ips_env \<Rightarrow> flowp \<Rightarrow> u64 \<Rightarrow> 'w ips_proto \<Rightarrow> 'w ips_proto" where
  "ips_proto_flow_enqueue e fl s p =
     (let p = ips_scb_prepare_flow_inner s fl p;
          p = ips_do_cksum e s p;
          p = upd_flow fl (\<lambda>f. f\<lparr>scb_unacked := scb_unacked f @ [s], scb_num_pending := scb_num_pending f + 1,
                                  scb_num_unacked := scb_num_unacked f + 1\<rparr>) p
      in upd_flow fl (\<lambda>f. if scb_pend f = None then f\<lparr>scb_pend := Some s\<rparr> else f) p)"

section \<open>Putting frames on the wire\<close>

text \<open>
  The frame of a block; \<^verbatim>\<open>bth[2]\<close> and \<^verbatim>\<open>seq_num\<close> are always assigned together. The length that the receiver
  sees is the one \<^verbatim>\<open>ips_recvhdrq_event_paylen\<close> computes: the length of the frame less its fixed parts and
  the padding that the header announces. A checksum makes the frame longer by the bytes that are taken off
  again, so it is left out here.
\<close>

definition sizeof_ips_message_header :: u32 where "sizeof_ips_message_header = 56"
definition CRC_SIZE_IN_BYTES :: u32 where "CRC_SIZE_IN_BYTES = 4"
definition PSM_CRC_SIZE_IN_BYTES :: u32 where "PSM_CRC_SIZE_IN_BYTES = 8"

definition ips_recvhdrq_event_paylen :: "bool \<Rightarrow> u32 \<Rightarrow> u32 \<Rightarrow> u32" where
  "ips_recvhdrq_event_paylen has_cksum length_in_bytes padding =
     (let cksum_len = if has_cksum then PSM_CRC_SIZE_IN_BYTES else 0
      in length_in_bytes - (sizeof_ips_message_header + CRC_SIZE_IN_BYTES + cksum_len + padding))"

definition frame_length :: "ips_scb \<Rightarrow> u32" where
  "frame_length x = sizeof_ips_message_header + payload_size x + CRC_SIZE_IN_BYTES"

definition hdr_of :: "ips_scb \<Rightarrow> ips_hdr" where
  "hdr_of x = \<lparr>h_sub_opcode = lrh_sub_opcode x, h_psn = ucast (seq_num x), h_becn = False, h_flags = lrh_flags x,
     h_flowid = lrh_flowid x, h_ack_seq_num = lrh_ack_seq_num x, h_hdr_dlen = lrh_hdr_dlen x, h_mqhdr = lrh_mqhdr x,
     h_data = lrh_data x, h_payload = payload x,
     h_paylen = ips_recvhdrq_event_paylen False (frame_length x) (lrh_pad x)\<rparr>"

definition ips_spio_transfer_frame ::
  "'w ips_env \<Rightarrow> flowp \<Rightarrow> ips_hdr \<Rightarrow> 'w ips_proto \<Rightarrow> psm_error \<times> 'w ips_proto" where
  "ips_spio_transfer_frame e fl h p =
     (let err = spio_result e (ext p)
      in (err, p\<lparr>ext := Suc (ext p), wire := wire p @ (if err = PSM_OK then [(fl, h)] else [])\<rparr>))"

text \<open>What a flush records about a frame that is on the wire.\<close>

definition scb_sent :: "u64 \<Rightarrow> u64 \<Rightarrow> ips_scb \<Rightarrow> ips_scb" where
  "scb_sent timeout t x = x\<lparr>scb_flags := scb_flags x AND NOT IPS_SEND_FLAG_PENDING,
                              ack_timeout := timeout, abs_timeout := timeout + t\<rparr>"

text \<open>The body of the loop of \<^verbatim>\<open>ips_proto_flow_flush_pio\<close> when the frame \<open>s\<close> was accepted.\<close>

definition flush_pio_sent :: "'w ips_env \<Rightarrow> flowp \<Rightarrow> u64 \<Rightarrow> 'w ips_proto \<Rightarrow> 'w ips_proto" where
  "flush_pio_sent e fl s p =
     (let (t_cyc, p) = get_cycles e p;
          p = upd_scb s (scb_sent (epr_timeout_ack (path_of fl p)) t_cyc) p
      in upd_flow fl (\<lambda>f. f\<lparr>timer_ack := timer_request (abs_timeout (scbs p s)) (timer_ack f),
                             scb_num_pending := scb_num_pending f - 1, credits := credits f - 1,
                             scb_pend := slist_first (tl (pend_list f))\<rparr>) p)"

lemma flush_pio_sent_credits: "credits (flows (flush_pio_sent e fl s p) fl) = credits (flows p fl) - 1"
  by (simp add: flush_pio_sent_def get_cycles_def upd_flow_def upd_scb_def Let_def)

lemma spio_flows [simp]: "flows (snd (ips_spio_transfer_frame e fl h p)) = flows p"
  by (simp add: ips_spio_transfer_frame_def Let_def)

function flush_pio_loop :: "'w ips_env \<Rightarrow> flowp \<Rightarrow> nat \<Rightarrow> 'w ips_proto \<Rightarrow> psm_error \<times> nat \<times> 'w ips_proto" where
  "flush_pio_loop e fl num_sent p =
     (case scb_pend (flows p fl) of
        None \<Rightarrow> (PSM_OK, num_sent, p)
      | Some s \<Rightarrow>
          if credits (flows p fl) = 0 then (PSM_OK, num_sent, p)
          else let r = ips_spio_transfer_frame e fl (hdr_of (scbs p s)) p
            in if fst r = PSM_OK then flush_pio_loop e fl (Suc num_sent) (flush_pio_sent e fl s (snd r))
               else (fst r, num_sent, snd r))"
  by pat_completeness auto
termination
  by (relation "measure (\<lambda>(e, fl, n, p). unat (credits (flows p fl)))")
    (auto simp: flush_pio_sent_credits unat_dec unat_gt_0)

declare flush_pio_loop.simps [simp del]

definition ips_proto_flow_flush_pio :: "'w ips_env \<Rightarrow> flowp \<Rightarrow> 'w ips_proto \<Rightarrow> psm_error \<times> nat \<times> 'w ips_proto" where
  "ips_proto_flow_flush_pio e fl p =
     (if credits (flows p fl) = 0 \<or> flow_flags (flows p fl) AND IPS_FLOW_FLAG_CONGESTED \<noteq> 0 then (PSM_OK, 0, p)
      else let (err, num_sent, p) = flush_pio_loop e fl 0 p
        in if scb_pend (flows p fl) \<noteq> None
           then let p = p\<lparr>pio_busy_cnt := pio_busy_cnt p + 1\<rparr>;
                    (t, p) = get_cycles e p
             in (err, num_sent, upd_flow fl (\<lambda>f. f\<lparr>timer_send := timer_request (t + timeout_send p) (timer_send f)\<rparr>) p)
           else (err, num_sent, p))"

text \<open>
  \<^verbatim>\<open>ips_proto_dma_wait_until\<close>: polls the completion counter until it reaches \<open>dma_cntr\<close>; the comparison is on the
  wrapped signed difference. Yielding the processor and its counter are left out. An error of the
  device ends the wait; the handler of errors is taken to return.
\<close>

partial_function (option) dma_wait_loop ::
  "'w ips_env \<Rightarrow> u32 \<Rightarrow> 'w ips_proto \<Rightarrow> (psm_error \<times> 'w ips_proto) option" where
  "dma_wait_loop e dma_cntr p =
     (if sint (iovec_cntr_last_completed p - dma_cntr) < 0
      then (case sdma_complete e (ext p) of
              None \<Rightarrow> Some (PSM_EP_DEVICE_FAILURE, p\<lparr>ext := Suc (ext p)\<rparr>)
            | Some c \<Rightarrow> dma_wait_loop e dma_cntr (p\<lparr>ext := Suc (ext p), iovec_cntr_last_completed := c\<rparr>))
      else Some (PSM_OK, p))"

definition ips_proto_dma_wait_until :: "'w ips_env \<Rightarrow> u32 \<Rightarrow> 'w ips_proto \<Rightarrow> (psm_error \<times> 'w ips_proto) run" where
  "ips_proto_dma_wait_until e dma_cntr p =
     (case dma_wait_loop e dma_cntr p of None \<Rightarrow> Inl Endless_Wait | Some r \<Rightarrow> Inr r)"

text \<open>The loop over the frames that \<^verbatim>\<open>scb_dma_send\<close> accepted.\<close>

definition dma_mark :: "flowp \<Rightarrow> u64 \<Rightarrow> u64 \<Rightarrow> 'w ips_proto \<Rightarrow> 'w ips_proto" where
  "dma_mark fl t_cyc s p =
     (let p = upd_scb s (\<lambda>x. scb_sent (epr_timeout_ack (path_of fl p)) t_cyc x\<lparr>dma_ctr := iovec_cntr_next_inflight p\<rparr>) p;
          p = p\<lparr>iovec_cntr_next_inflight := iovec_cntr_next_inflight p + 1\<rparr>
      in if tidsendc (scbs p s) \<noteq> 0
         then p\<lparr>tid_iovec_cntr_last := (tid_iovec_cntr_last p)(tidsendc (scbs p s) := dma_ctr (scbs p s))\<rparr> else p)"

definition dma_account :: "flowp \<Rightarrow> u64 \<Rightarrow> u32 \<Rightarrow> 'w ips_proto \<Rightarrow> 'w ips_proto" where
  "dma_account fl t_cyc nsent p =
     (let sent = take (unat nsent) (pend_list (flows p fl));
          rest = slist_first (drop (unat nsent) (pend_list (flows p fl)));
          p = upd_flow fl (\<lambda>f. f\<lparr>scb_num_pending := scb_num_pending f - nsent,
                                  credits := of_nat (unat (credits f) - unat nsent)\<rparr>) p;
          p = fold (dma_mark fl t_cyc) sent p
      in upd_flow fl (\<lambda>f. f\<lparr>scb_pend := rest\<rparr>) p)"

definition flush_dma_sent :: "'w ips_env \<Rightarrow> flowp \<Rightarrow> u32 \<Rightarrow> 'w ips_proto \<Rightarrow> 'w ips_proto run" where
  "flush_dma_sent e fl nsent p =
     (let (t_cyc, p) = get_cycles e p;
          new_inflight = iovec_cntr_next_inflight p + nsent
      in run_bind (if sint (new_inflight - iovec_cntr_last_completed p) < 0
                   then ips_proto_dma_wait_until e (iovec_cntr_last_completed p + nsent) p else Inr (PSM_OK, p)) (\<lambda>(_, p).
         Inr (dma_account fl t_cyc nsent p)))"

text \<open>The timers at the end of \<^verbatim>\<open>ips_proto_flow_flush_dma\<close>.\<close>

definition flush_dma_timers :: "'w ips_env \<Rightarrow> flowp \<Rightarrow> 'w ips_proto \<Rightarrow> 'w ips_proto" where
  "flush_dma_timers e fl p =
     (let (t, p) = get_cycles e p; f = flows p fl; timeout = epr_timeout_ack (path_of fl p)
      in if scb_pend f \<noteq> None
         then (if credits f \<noteq> 0
               then (upd_flow fl (\<lambda>f. f\<lparr>timer_ack := (if protocol f = PSM_PROTOCOL_TIDFLOW then None else timer_ack f),
                       timer_send := timer_request (t + push_bit 1 (timeout_send p)) (timer_send f)\<rparr>) p)
                    \<lparr>writev_busy_cnt := writev_busy_cnt p + 1\<rparr>
               else upd_flow fl (\<lambda>f. f\<lparr>timer_ack := timer_request (t + drop_bit 2 timeout) (timer_ack f)\<rparr>) p)
         else upd_flow fl (\<lambda>f. f\<lparr>timer_send := None, timer_ack := timer_request (t + timeout) (timer_ack f)\<rparr>) p)"

definition ips_proto_flow_flush_dma :: "'w ips_env \<Rightarrow> flowp \<Rightarrow> 'w ips_proto \<Rightarrow> (psm_error \<times> nat \<times> 'w ips_proto) run" where
  "ips_proto_flow_flush_dma e fl p =
     (let f = flows p fl
      in if credits f = 0 \<or> flow_flags f AND IPS_FLOW_FLAG_CONGESTED \<noteq> 0 then Inr (PSM_EP_NO_RESOURCES, 0, p)
         else if scb_pend f = None then Inr (PSM_OK, 0, p)
         else let howmany = min (min (scb_num_pending f) (ucast (credits f))) (scb_max_sdma p)
           in if howmany = 0 then Inr (PSM_OK, 0, p)
              else let (err, nsent) = dma_send e (ext p) howmany;
                       frames = map (\<lambda>s. (fl, hdr_of (scbs p s))) (take (unat nsent) (pend_list f));
                       p = p\<lparr>ext := Suc (ext p), wire := wire p @ frames\<rparr>
                in if err \<noteq> PSM_OK \<and> err \<noteq> PSM_EP_NO_RESOURCES \<and> err \<noteq> PSM_OK_NO_PROGRESS
                   then Inr (err, unat nsent, p)
                   else run_bind (if nsent > 0 then flush_dma_sent e fl nsent p else Inr p) (\<lambda>p.
                     Inr (if nsent > 0 then (if nsent < howmany then PSM_OK_NO_PROGRESS else PSM_OK) else PSM_EP_NO_RESOURCES,
                          unat nsent, flush_dma_timers e fl p)))"

text \<open>\<^verbatim>\<open>flow->fn.xfer.flush\<close>.\<close>

definition flow_flush :: "'w ips_env \<Rightarrow> flowp \<Rightarrow> 'w ips_proto \<Rightarrow> (psm_error \<times> nat \<times> 'w ips_proto) run" where
  "flow_flush e fl p = (case transfer (flows p fl) of
      PSM_TRANSFER_PIO \<Rightarrow> Inr (ips_proto_flow_flush_pio e fl p)
    | PSM_TRANSFER_DMA \<Rightarrow> ips_proto_flow_flush_dma e fl p
    | PSM_TRANSFER_LAST \<Rightarrow> Inl Undefined_Access)"

section \<open>Congestion control\<close>

definition ips_cca_adjust_rate :: "'w ips_env \<Rightarrow> nat \<Rightarrow> int \<Rightarrow> 'w ips_proto \<Rightarrow> 'w ips_proto run" where
  "ips_cca_adjust_rate e i cct_increment p =
     (if epr_ccti (paths p i) < epr_ccti_min (paths p i) then Inl Assert_Abort
      else let p = upd_path i (\<lambda>r. r\<lparr>epr_ccti := epr_ccti r + of_int cct_increment\<rparr>) p;
               r = paths p i; entry = cct p (unat (epr_ccti r));
               p = upd_path i (\<lambda>r. if epr_static_ipd r \<noteq> 0 \<and> unat (epr_static_ipd r) + 1 > unat (entry AND CCA_IPD_MASK)
                     then r\<lparr>epr_active_ipd := epr_static_ipd r + 1, epr_cca_divisor := 0\<rparr>
                     else r\<lparr>epr_active_ipd := entry AND CCA_IPD_MASK,
                            epr_cca_divisor := ucast (drop_bit CCA_DIVISOR_SHIFT entry)\<rparr>) p
        in if epr_ccti (paths p i) > epr_ccti_min (paths p i)
           then let (t, p) = get_cycles e p
             in Inr (upd_path i (\<lambda>r. r\<lparr>epr_timer_cca := timer_request (t + ccti_timer_cycles p) (epr_timer_cca r)\<rparr>) p)
           else Inr p)"

text \<open>The callback of the path's timer, which the sweep has taken off the queue.\<close>

definition ips_cca_timer_callback :: "'w ips_env \<Rightarrow> nat \<Rightarrow> 'w ips_proto \<Rightarrow> 'w ips_proto run" where
  "ips_cca_timer_callback e i p =
     (let p = upd_path i (\<lambda>r. r\<lparr>epr_timer_cca := None\<rparr>) p
      in if epr_ccti (paths p i) > epr_ccti_min (paths p i) then ips_cca_adjust_rate e i (-1) p else Inr p)"

text \<open>The test and the call that four places of the code share.\<close>

definition cca_slow_down :: "'w ips_env \<Rightarrow> nat \<Rightarrow> 'w ips_proto \<Rightarrow> (bool \<times> 'w ips_proto) run" where
  "cca_slow_down e i p =
     (if unat (epr_ccti (paths p i)) + unat (ccti_increase p) < unat (ccti_limit p)
      then run_bind (ips_cca_adjust_rate e i (int (unat (ccti_increase p))) p) (\<lambda>p. Inr (True, p))
      else Inr (False, p))"

definition ips_proto_timer_send_callback :: "'w ips_env \<Rightarrow> flowp \<Rightarrow> 'w ips_proto \<Rightarrow> 'w ips_proto run" where
  "ips_proto_timer_send_callback e fl p =
     (let p = upd_flow fl (\<lambda>f. f\<lparr>timer_send := None\<rparr>) p
      in run_bind (if flow_flags (flows p fl) AND IPS_FLOW_FLAG_CONGESTED \<noteq> 0
                   then let p = upd_flow fl (\<lambda>f. f\<lparr>flow_flags := flow_flags f AND NOT IPS_FLOW_FLAG_CONGESTED\<rparr>) p
                     in run_bind (cca_slow_down e (flow_path (flows p fl)) p) (\<lambda>(_, p). Inr p)
                   else Inr p) (\<lambda>p.
         run_bind (flow_flush e fl p) (\<lambda>(_, _, p). Inr p)))"

section \<open>What the sending side leaves alone\<close>

text \<open>
  The parts of a block, of a flow and of the protocol object that flushing and timers do not touch.
\<close>

definition scb_view :: "ips_scb \<Rightarrow> ips_scb" where
  "scb_view x = x\<lparr>scb_flags := scb_flags x AND NOT IPS_SEND_FLAG_PENDING, ack_timeout := 0, abs_timeout := 0, dma_ctr := 0\<rparr>"

definition flow_view :: "ips_flow \<Rightarrow> ips_flow" where
  "flow_view f = f\<lparr>credits := 0, scb_num_pending := 0, timer_send := None, timer_ack := None, scb_pend := None\<rparr>"

definition tx_view :: "flowp \<Rightarrow> 'w ips_proto \<Rightarrow> 'w ips_proto" where
  "tx_view fl p = p\<lparr>scbs := (\<lambda>s. scb_view (scbs p s)), flows := (flows p)(fl := flow_view (flows p fl)), ext := 0, wire := [],
     pio_busy_cnt := 0, writev_busy_cnt := 0, iovec_cntr_next_inflight := 0, iovec_cntr_last_completed := 0,
     tid_iovec_cntr_last := (\<lambda>_. 0)\<rparr>"

lemma scb_view_simps [simp]:
  "payload (scb_view x) = payload x" "imm_payload (scb_view x) = imm_payload x" "seq_num (scb_view x) = seq_num x"
  "hdr_of (scb_view x) = hdr_of x" "scb_callback (scb_view x) = scb_callback x" "cb_param (scb_view x) = cb_param x"
  "tidsendc (scb_view x) = tidsendc x"
  by (simp_all add: scb_view_def hdr_of_def frame_length_def)

lemma scb_view_sent [simp]: "scb_view (scb_sent t c x) = scb_view x" "hdr_of (scb_sent t c x) = hdr_of x"
    "seq_num (scb_sent t c x) = seq_num x" "scb_view (x\<lparr>dma_ctr := d\<rparr>) = scb_view x"
  by (simp_all add: scb_view_def scb_sent_def hdr_of_def frame_length_def and.assoc)

lemma flow_view_simps [simp]:
  "scb_unacked (flow_view f) = scb_unacked f" "xmit_seq_num (flow_view f) = xmit_seq_num f"
  "recv_seq_num (flow_view f) = recv_seq_num f" "flow_path (flow_view f) = flow_path f" "protocol (flow_view f) = protocol f"
  "transfer (flow_view f) = transfer f" "flow_flags (flow_view f) = flow_flags f" "flow_ipsaddr (flow_view f) = flow_ipsaddr f"
  "scb_num_unacked (flow_view f) = scb_num_unacked f" "cwin (flow_view f) = cwin f" "ack_interval (flow_view f) = ack_interval f"
  "flowid (flow_view f) = flowid f" "last_seq_num (flow_view f) = last_seq_num f"
  by (simp_all add: flow_view_def)

lemma flow_view_upd [simp]:
  "flow_view (f\<lparr>credits := c\<rparr>) = flow_view f" "flow_view (f\<lparr>scb_num_pending := n\<rparr>) = flow_view f"
  "flow_view (f\<lparr>timer_send := t\<rparr>) = flow_view f" "flow_view (f\<lparr>timer_ack := t\<rparr>) = flow_view f"
  "flow_view (f\<lparr>scb_pend := s\<rparr>) = flow_view f"
  by (simp_all add: flow_view_def)

lemma tx_view_flow [simp]:
  assumes "\<And>f. flow_view (g f) = flow_view f"
  shows "tx_view fl (upd_flow fl g p) = tx_view fl p"
  by (simp add: tx_view_def upd_flow_def assms)

lemma tx_view_scb [simp]:
  assumes "\<And>x. scb_view (g x) = scb_view x"
  shows "tx_view fl (upd_scb s g p) = tx_view fl p"
  by (rule ips_proto.equality) (auto simp: tx_view_def upd_scb_def assms)

lemma tx_view_upd [simp]:
  "tx_view fl (p\<lparr>ext := n\<rparr>) = tx_view fl p" "tx_view fl (p\<lparr>wire := w\<rparr>) = tx_view fl p"
  "tx_view fl (p\<lparr>pio_busy_cnt := b\<rparr>) = tx_view fl p" "tx_view fl (p\<lparr>writev_busy_cnt := b\<rparr>) = tx_view fl p"
  "tx_view fl (p\<lparr>iovec_cntr_next_inflight := i\<rparr>) = tx_view fl p" "tx_view fl (p\<lparr>iovec_cntr_last_completed := i\<rparr>) = tx_view fl p"
  "tx_view fl (p\<lparr>tid_iovec_cntr_last := t\<rparr>) = tx_view fl p"
  by (simp_all add: tx_view_def)

lemma tx_viewD:
  assumes "tx_view fl p' = tx_view fl p"
  shows "hdr_of (scbs p' s) = hdr_of (scbs p s)" "seq_num (scbs p' s) = seq_num (scbs p s)"
    "scb_callback (scbs p' s) = scb_callback (scbs p s)" "cb_param (scbs p' s) = cb_param (scbs p s)"
    "scb_held p' = scb_held p" "scb_inv p' = scb_inv p" "scb_num p' = scb_num p"
    "flow_view (flows p' fl) = flow_view (flows p fl)" "g \<noteq> fl \<Longrightarrow> flows p' g = flows p g"
    "paths p' = paths p" "ipsaddrs p' = ipsaddrs p" "masks p' = masks p" "ctrlqs p' = ctrlqs p" "app p' = app p"
    "pending_acks p' = pending_acks p" "scb_max_inflight p' = scb_max_inflight p" "flow_credits p' = flow_credits p"
    "timeout_send p' = timeout_send p" "proto_flags p' = proto_flags p" "scb_view (scbs p' s) = scb_view (scbs p s)"
    "ctrl_msg_queue_overflow p' = ctrl_msg_queue_overflow p"
proof -
  have a: "h (tx_view fl p') = h (tx_view fl p)" for h :: "'a ips_proto \<Rightarrow> 'c" using assms by simp
  have v: "scb_view (scbs p' s) = scb_view (scbs p s)" for s using a [of "\<lambda>p. scbs p s"] by (simp add: tx_view_def)
  then show "hdr_of (scbs p' s) = hdr_of (scbs p s)" "seq_num (scbs p' s) = seq_num (scbs p s)"
    "scb_callback (scbs p' s) = scb_callback (scbs p s)" "cb_param (scbs p' s) = cb_param (scbs p s)"
    "scb_view (scbs p' s) = scb_view (scbs p s)" for s by (metis scb_view_simps)+
  have pay: "payload (scbs p' s) = payload (scbs p s)" "imm_payload (scbs p' s) = imm_payload (scbs p s)" for s
    using v by (metis scb_view_simps)+
  have pool: "scb_num p' = scb_num p" "scb_num_cur p' = scb_num_cur p" "scb_free p' = scb_free p" "scb_base p' = scb_base p"
    "sbuf_num p' = sbuf_num p" "sbuf_num_cur p' = sbuf_num_cur p" "sbuf_free p' = sbuf_free p" "sbuf_buf_size p' = sbuf_buf_size p"
    "sbuf_buf_base p' = sbuf_buf_base p" "sbuf_buf_last p' = sbuf_buf_last p"
    using a [of scb_num] a [of scb_num_cur] a [of scb_free] a [of scb_base] a [of sbuf_num] a [of sbuf_num_cur] a [of sbuf_free]
      a [of sbuf_buf_size] a [of sbuf_buf_base] a [of sbuf_buf_last] by (simp_all add: tx_view_def)
  show "scb_num p' = scb_num p" by (rule pool)
  show h: "scb_held p' = scb_held p" by (simp add: scb_held_def scb_set_def pool)
  show "scb_inv p' = scb_inv p"
    unfolding scb_inv_def scb_geom_def h by (simp add: bounced_def scb_set_def sbuf_set_def in_sbufs_def pool pay)
  show "flow_view (flows p' fl) = flow_view (flows p fl)" using a [of "\<lambda>p. flows p fl"] by (simp add: tx_view_def)
  show "g \<noteq> fl \<Longrightarrow> flows p' g = flows p g" using a [of "\<lambda>p. flows p g"] by (simp add: tx_view_def)
  show "paths p' = paths p" "ipsaddrs p' = ipsaddrs p" "masks p' = masks p" "ctrlqs p' = ctrlqs p" "app p' = app p"
    "pending_acks p' = pending_acks p" "scb_max_inflight p' = scb_max_inflight p" "flow_credits p' = flow_credits p"
    "timeout_send p' = timeout_send p" "proto_flags p' = proto_flags p" "ctrl_msg_queue_overflow p' = ctrl_msg_queue_overflow p"
    using a [of paths] a [of ipsaddrs] a [of masks] a [of ctrlqs] a [of app] a [of pending_acks] a [of scb_max_inflight]
      a [of flow_credits] a [of timeout_send] a [of proto_flags] a [of ctrl_msg_queue_overflow] by (simp_all add: tx_view_def)
qed

section \<open>The flow as two lists\<close>

text \<open>
  A consistent flow: \<open>inflight\<close> are the blocks on the wire, \<open>pending\<close> the ones behind them that still have to
  be sent. Their sequence numbers are consecutive and end just before the next one to be used.
\<close>

definition flow_rep :: "flowp \<Rightarrow> u64 list \<Rightarrow> u64 list \<Rightarrow> 'w ips_proto \<Rightarrow> bool" where
  "flow_rep fl inflight pending p \<longleftrightarrow>
     (let f = flows p fl; q = inflight @ pending
      in scb_unacked f = q \<and> scb_pend f = slist_first pending \<and> distinct q \<and> set q \<subseteq> scb_held p \<and>
         unat (scb_num_unacked f) = length q \<and> unat (scb_num_pending f) = length pending \<and>
         (\<forall>i < length q. seq_num (scbs p (q ! i)) = xmit_seq_num f - of_nat (length q - i)))"

lemma slist_first_simps [simp]: "slist_first [] = None" "slist_first (x # xs) = Some x"
    "slist_first xs = None \<longleftrightarrow> xs = []" "None = slist_first xs \<longleftrightarrow> xs = []"
  by (simp_all add: slist_first_def split: list.splits)

lemma pend_list_rep:
  assumes "flow_rep fl inflight pending p"
  shows "pend_list (flows p fl) = pending"
proof (cases pending)
  case (Cons s rest)
  have "dropWhile (\<lambda>x. x \<noteq> s) (inflight @ s # rest) = s # rest"
    using assms Cons by (subst dropWhile_append2) (auto simp: flow_rep_def Let_def)
  then show ?thesis using assms Cons by (simp add: flow_rep_def Let_def pend_list_def)
qed (use assms in \<open>simp add: flow_rep_def Let_def pend_list_def\<close>)

lemma flow_rep_view:
  assumes "flow_rep fl inflight pending p" "tx_view fl p' = tx_view fl p" "inflight' @ pending' = inflight @ pending"
    "scb_pend (flows p' fl) = slist_first pending'" "unat (scb_num_pending (flows p' fl)) = length pending'"
  shows "flow_rep fl inflight' pending' p'"
proof -
  have v: "flow_view (flows p' fl) = flow_view (flows p fl)" using assms(2) by (rule tx_viewD)
  have "scb_unacked (flows p' fl) = scb_unacked (flows p fl)" "scb_num_unacked (flows p' fl) = scb_num_unacked (flows p fl)"
    "xmit_seq_num (flows p' fl) = xmit_seq_num (flows p fl)" using v by (metis flow_view_simps)+
  then show ?thesis using assms(1,4,5) unfolding flow_rep_def Let_def assms(3) by (simp add: tx_viewD [OF assms(2)])
qed

section \<open>Flushing\<close>

lemma flush_pio_sent_view [simp]: "tx_view fl (flush_pio_sent e fl s p) = tx_view fl p"
  by (simp add: flush_pio_sent_def get_cycles_def Let_def)

lemma spio_view [simp]: "tx_view fl (snd (ips_spio_transfer_frame e g h p)) = tx_view fl p"
  by (simp add: ips_spio_transfer_frame_def Let_def)

lemma flush_pio_sent_flow:
  "scb_pend (flows (flush_pio_sent e fl s p) fl) = slist_first (tl (pend_list (flows p fl)))"
  "scb_num_pending (flows (flush_pio_sent e fl s p) fl) = scb_num_pending (flows p fl) - 1"
  "wire (flush_pio_sent e fl s p) = wire p"
  by (simp_all add: flush_pio_sent_def get_cycles_def upd_flow_def upd_scb_def Let_def)

lemma flush_pio_step:
  fixes e :: "'w ips_env" and p :: "'w ips_proto"
  assumes "flow_rep fl inflight (s # rest) p"
  defines "p' \<equiv> flush_pio_sent e fl s (snd (ips_spio_transfer_frame e fl (hdr_of (scbs p s)) p))"
  shows "flow_rep fl (inflight @ [s]) rest p'" "tx_view fl p' = tx_view fl p"
    "credits (flows p' fl) = credits (flows p fl) - 1"
    "fst (ips_spio_transfer_frame e fl (hdr_of (scbs p s)) p) = PSM_OK \<Longrightarrow> wire p' = wire p @ [(fl, hdr_of (scbs p s))]"
proof -
  show v: "tx_view fl p' = tx_view fl p" by (simp add: p'_def)
  have "unat (scb_num_pending (flows p fl)) = Suc (length rest)" using assms(1) by (simp add: flow_rep_def Let_def)
  then have "unat (scb_num_pending (flows p fl) - 1) = length rest" by (rule unat_pred)
  then show "flow_rep fl (inflight @ [s]) rest p'"
    using assms(1) v by (intro flow_rep_view [OF assms(1)]) (simp_all add: p'_def flush_pio_sent_flow pend_list_rep)
  show "credits (flows p' fl) = credits (flows p fl) - 1" by (simp add: p'_def flush_pio_sent_credits)
  show "fst (ips_spio_transfer_frame e fl (hdr_of (scbs p s)) p) = PSM_OK \<Longrightarrow> wire p' = wire p @ [(fl, hdr_of (scbs p s))]"
    by (simp add: p'_def flush_pio_sent_flow ips_spio_transfer_frame_def Let_def)
qed

text \<open>The frames that a flush of \<open>k\<close> blocks puts on the wire.\<close>

definition frames :: "flowp \<Rightarrow> 'w ips_proto \<Rightarrow> u64 list \<Rightarrow> (flowp \<times> ips_hdr) list" where
  "frames fl p q = map (\<lambda>s. (fl, hdr_of (scbs p s))) q"

lemma frames_view:
  assumes "tx_view fl p' = tx_view fl p"
  shows "frames g p' q = frames g p q"
  by (simp add: frames_def tx_viewD(1) [OF assms])

lemma flush_pio_loop_rep:
  assumes "flow_rep fl inflight pending p"
  shows "\<exists>k err p'. flush_pio_loop e fl n p = (err, n + k, p') \<and> k \<le> length pending \<and> k \<le> unat (credits (flows p fl)) \<and>
    flow_rep fl (inflight @ take k pending) (drop k pending) p' \<and> tx_view fl p' = tx_view fl p \<and>
    wire p' = wire p @ frames fl p (take k pending) \<and>
    unat (credits (flows p' fl)) = unat (credits (flows p fl)) - k \<and>
    (err = PSM_OK \<longrightarrow> k = min (length pending) (unat (credits (flows p fl))))"
  using assms
proof (induction e fl n p arbitrary: inflight pending rule: flush_pio_loop.induct)
  case (1 e fl n p)
  show ?case
  proof (cases "pending = [] \<or> credits (flows p fl) = 0")
    case True
    then have "flush_pio_loop e fl n p = (PSM_OK, n, p)"
      using 1(2) by (subst flush_pio_loop.simps) (auto simp: flow_rep_def Let_def slist_first_def split: list.splits)
    then show ?thesis using True 1(2) by (intro exI [of _ 0] exI [of _ PSM_OK] exI [of _ p]) (auto simp: frames_def)
  next
    case False
    then obtain s rest where q: "pending = s # rest" by (cases pending) auto
    define r where "r = ips_spio_transfer_frame e fl (hdr_of (scbs p s)) p"
    have pend: "scb_pend (flows p fl) = Some s" using 1(2) q by (simp add: flow_rep_def Let_def)
    show ?thesis
    proof (cases "fst r = PSM_OK")
      case True
      note step = flush_pio_step [OF 1(2) [unfolded q], of e, folded r_def]
      let ?p = "flush_pio_sent e fl s (snd r)"
      have u: "flush_pio_loop e fl n p = flush_pio_loop e fl (Suc n) ?p"
        using False True pend by (subst flush_pio_loop.simps) (simp add: r_def [symmetric] Let_def)
      have c: "unat (credits (flows ?p fl)) = unat (credits (flows p fl)) - 1" "0 < unat (credits (flows p fl))"
        using step(3) False by (simp_all add: unat_dec unat_gt_0)
      obtain k err p' where k: "flush_pio_loop e fl (Suc n) ?p = (err, Suc n + k, p')" "k \<le> length rest"
        "k \<le> unat (credits (flows ?p fl))" "flow_rep fl ((inflight @ [s]) @ take k rest) (drop k rest) p'"
        "tx_view fl p' = tx_view fl ?p" "wire p' = wire ?p @ frames fl ?p (take k rest)"
        "unat (credits (flows p' fl)) = unat (credits (flows ?p fl)) - k"
        "err = PSM_OK \<longrightarrow> k = min (length rest) (unat (credits (flows ?p fl)))"
        using 1(1) [OF pend _ r_def True step(1)] False by auto
      have "wire p' = wire p @ frames fl p (take (Suc k) pending)"
        using k(6) step(4) True frames_view [OF step(2)] by (simp add: r_def [symmetric] q frames_def)
      then show ?thesis using k step(2) u c by (intro exI [of _ "Suc k"] exI [of _ err] exI [of _ p']) (auto simp: q)
    next
      case err: False
      then have u: "flush_pio_loop e fl n p = (fst r, n, snd r)"
        using False pend by (subst flush_pio_loop.simps) (simp add: r_def [symmetric] Let_def)
      have "flow_rep fl inflight pending (snd r)"
        using 1(2) by (intro flow_rep_view [OF 1(2)]) (simp_all add: r_def flow_rep_def Let_def)
      moreover have "wire (snd r) = wire p" "flows (snd r) = flows p" "tx_view fl (snd r) = tx_view fl p"
        using err by (simp_all add: r_def ips_spio_transfer_frame_def Let_def)
      ultimately show ?thesis using err u by (intro exI [of _ 0] exI [of _ "fst r"] exI [of _ "snd r"]) (simp add: frames_def)
    qed
  qed
qed

text \<open>
  The result of a flush: \<open>k\<close> frames are accounted as sent; \<open>j\<close> frames were handed to the device (more than
  \<open>k\<close> only when the device fails beyond recovery).
\<close>

definition flush_result :: "flowp \<Rightarrow> nat \<Rightarrow> nat \<Rightarrow> u64 list \<Rightarrow> u64 list \<Rightarrow> 'w ips_proto \<Rightarrow> 'w ips_proto \<Rightarrow> bool" where
  "flush_result fl k j inflight pending p p' \<longleftrightarrow> k \<le> j \<and> j \<le> length pending \<and> j \<le> unat (credits (flows p fl)) \<and>
     flow_rep fl (inflight @ take k pending) (drop k pending) p' \<and> tx_view fl p' = tx_view fl p \<and>
     wire p' = wire p @ frames fl p (take j pending) \<and> unat (credits (flows p' fl)) = unat (credits (flows p fl)) - k"

abbreviation flow_stopped :: "ips_flow \<Rightarrow> bool" where
  "flow_stopped f \<equiv> credits f = 0 \<or> flow_flags f AND IPS_FLOW_FLAG_CONGESTED \<noteq> 0"

lemma flush_none: "flow_rep fl inflight pending p \<Longrightarrow> flush_result fl 0 0 inflight pending p p"
  by (simp add: flush_result_def frames_def)

lemma flush_result_timer:
  assumes "flush_result fl k j inflight pending p p'" "tx_view fl p'' = tx_view fl p'" "wire p'' = wire p'"
    "scb_pend (flows p'' fl) = scb_pend (flows p' fl)" "scb_num_pending (flows p'' fl) = scb_num_pending (flows p' fl)"
    "credits (flows p'' fl) = credits (flows p' fl)"
  shows "flush_result fl k j inflight pending p p''"
proof -
  have "flow_rep fl (inflight @ take k pending) (drop k pending) p'" using assms(1) by (simp add: flush_result_def)
  then have "flow_rep fl (inflight @ take k pending) (drop k pending) p''"
    by (rule flow_rep_view) (use \<open>flow_rep fl _ _ p'\<close> assms in \<open>simp_all add: flow_rep_def Let_def\<close>)
  then show ?thesis using assms by (simp add: flush_result_def)
qed

lemma flush_pio_result:
  assumes rep: "flow_rep fl inflight pending p"
  shows "\<exists>k err p'. ips_proto_flow_flush_pio e fl p = (err, k, p') \<and> flush_result fl k k inflight pending p p' \<and>
    (flow_stopped (flows p fl) \<longrightarrow> k = 0 \<and> err = PSM_OK) \<and>
    (\<not> flow_stopped (flows p fl) \<and> err = PSM_OK \<longrightarrow> k = min (length pending) (unat (credits (flows p fl)))) \<and>
    (\<not> flow_stopped (flows p fl) \<and> k < length pending \<longrightarrow> timer_send (flows p' fl) \<noteq> None)"
proof (cases "flow_stopped (flows p fl)")
  case True
  then show ?thesis using flush_none [OF rep] by (intro exI [of _ 0] exI [of _ PSM_OK] exI [of _ p]) (auto simp: ips_proto_flow_flush_pio_def)
next
  case False
  obtain k err p1 where k: "flush_pio_loop e fl 0 p = (err, k, p1)" "k \<le> length pending" "k \<le> unat (credits (flows p fl))"
    "flow_rep fl (inflight @ take k pending) (drop k pending) p1" "tx_view fl p1 = tx_view fl p"
    "wire p1 = wire p @ frames fl p (take k pending)" "unat (credits (flows p1 fl)) = unat (credits (flows p fl)) - k"
    "err = PSM_OK \<longrightarrow> k = min (length pending) (unat (credits (flows p fl)))"
    using flush_pio_loop_rep [OF rep, of e 0] by auto
  have r: "flush_result fl k k inflight pending p p1" using k by (simp add: flush_result_def)
  define p2 where "p2 = upd_flow fl (\<lambda>f. f\<lparr>timer_send := timer_request (cycles e (ext p1) + timeout_send p1) (timer_send f)\<rparr>)
    (p1\<lparr>pio_busy_cnt := pio_busy_cnt p1 + 1, ext := Suc (ext p1)\<rparr>)"
  have u: "ips_proto_flow_flush_pio e fl p = (err, k, if drop k pending \<noteq> [] then p2 else p1)"
    using False k(1,4) by (auto simp: ips_proto_flow_flush_pio_def Let_def get_cycles_def p2_def flow_rep_def)
  have "flush_result fl k k inflight pending p p2"
    by (rule flush_result_timer [OF r]) (simp_all add: p2_def, simp_all add: upd_flow_def)
  moreover have "timer_send (flows p2 fl) \<noteq> None" by (simp add: p2_def upd_flow_def timer_request_def split: option.splits)
  ultimately show ?thesis using False k(8) r
    by (intro exI [of _ k] exI [of _ err] exI [of _ "if drop k pending \<noteq> [] then p2 else p1"]) (simp add: u)
qed

lemma dma_wait_loop_frame:
  assumes "dma_wait_loop e d p = Some r"
  shows "tx_view fl (snd r) = tx_view fl p \<and> flows (snd r) = flows p \<and> wire (snd r) = wire p"
proof (rule dma_wait_loop.raw_induct [where P = "\<lambda>e d p r. tx_view fl (snd r) = tx_view fl p \<and>
    flows (snd r) = flows p \<and> wire (snd r) = wire p", OF _ assms])
  fix loop and e :: "'a ips_env" and d and p :: "'a ips_proto" and r
  assume IH: "\<And>e d p r. loop e d p = Some r \<Longrightarrow> tx_view fl (snd r) = tx_view fl p \<and> flows (snd r) = flows p \<and> wire (snd r) = wire p"
    and eq: "(if sint (iovec_cntr_last_completed p - d) < 0
      then (case sdma_complete e (ext p) of
              None \<Rightarrow> Some (PSM_EP_DEVICE_FAILURE, p\<lparr>ext := Suc (ext p)\<rparr>)
            | Some c \<Rightarrow> loop e d (p\<lparr>ext := Suc (ext p), iovec_cntr_last_completed := c\<rparr>))
      else Some (PSM_OK, p)) = Some r"
  show "tx_view fl (snd r) = tx_view fl p \<and> flows (snd r) = flows p \<and> wire (snd r) = wire p"
    using eq by (auto dest!: IH split: if_splits option.splits)
qed

lemma dma_wait_frame:
  assumes "ips_proto_dma_wait_until e c p = Inr (err, p')"
  shows "tx_view fl p' = tx_view fl p" "flows p' = flows p" "wire p' = wire p"
  using assms dma_wait_loop_frame [of e c p "(err, p')"] by (auto simp: ips_proto_dma_wait_until_def split: option.splits)

lemma dma_mark_frame [simp]: "tx_view fl (dma_mark g t s p) = tx_view fl p" "flows (dma_mark g t s p) = flows p" "wire (dma_mark g t s p) = wire p"
  by (auto simp: dma_mark_def Let_def) (auto simp: upd_scb_def)

lemma dma_marks_frame [simp]: "tx_view fl (fold (dma_mark g t) q p) = tx_view fl p" "flows (fold (dma_mark g t) q p) = flows p"
    "wire (fold (dma_mark g t) q p) = wire p"
  by (induction q arbitrary: p) simp_all

lemma flush_dma_timers_frame:
  "tx_view fl (flush_dma_timers e fl p) = tx_view fl p" "wire (flush_dma_timers e fl p) = wire p"
  "scb_pend (flows (flush_dma_timers e fl p) fl) = scb_pend (flows p fl)"
  "scb_num_pending (flows (flush_dma_timers e fl p) fl) = scb_num_pending (flows p fl)"
  "credits (flows (flush_dma_timers e fl p) fl) = credits (flows p fl)"
  by (simp_all add: flush_dma_timers_def get_cycles_def Let_def) (simp_all add: upd_flow_def)

lemma dma_account_result:
  fixes t :: u64 and p :: "'w ips_proto"
  assumes rep: "flow_rep fl inflight pending p" and n: "unat nsent \<le> length pending" "unat nsent \<le> unat (credits (flows p fl))"
  defines "p' \<equiv> dma_account fl t nsent p"
  shows "flow_rep fl (inflight @ take (unat nsent) pending) (drop (unat nsent) pending) p'" "tx_view fl p' = tx_view fl p"
    "wire p' = wire p" "unat (credits (flows p' fl)) = unat (credits (flows p fl)) - unat nsent"
proof -
  show v: "tx_view fl p' = tx_view fl p" by (simp add: p'_def dma_account_def)
  show "wire p' = wire p" by (simp add: p'_def dma_account_def Let_def) (simp add: upd_flow_def)
  have "unat (of_nat (unat (credits (flows p fl)) - unat nsent) :: u16) = unat (credits (flows p fl)) - unat nsent"
    by (metis diff_le_self le_less_trans mod_less unat_of_nat unsigned_less)
  then show "unat (credits (flows p' fl)) = unat (credits (flows p fl)) - unat nsent"
    by (simp add: p'_def dma_account_def Let_def upd_flow_def)
  have "unat (scb_num_pending (flows p fl)) = length pending" using rep by (simp add: flow_rep_def Let_def)
  then have "unat (scb_num_pending (flows p fl) - nsent) = length pending - unat nsent"
    using n(1) by (simp add: unat_sub word_le_nat_alt)
  then show "flow_rep fl (inflight @ take (unat nsent) pending) (drop (unat nsent) pending) p'"
    by (intro flow_rep_view [OF rep v]) (simp_all add: p'_def dma_account_def Let_def upd_flow_def pend_list_rep [OF rep])
qed

lemma flow_rep_same:
  assumes "flow_rep fl inflight pending p" "tx_view fl p' = tx_view fl p" "flows p' = flows p"
  shows "flow_rep fl inflight pending p'"
  using assms by (intro flow_rep_view [OF assms(1,2)]) (simp_all add: flow_rep_def Let_def)

lemma flush_dma_sent_result:
  assumes rep: "flow_rep fl inflight pending p" and n: "unat nsent \<le> length pending" "unat nsent \<le> unat (credits (flows p fl))"
    and run: "flush_dma_sent e fl nsent p = Inr p'"
  shows "flow_rep fl (inflight @ take (unat nsent) pending) (drop (unat nsent) pending) p'" "tx_view fl p' = tx_view fl p"
    "wire p' = wire p" "unat (credits (flows p' fl)) = unat (credits (flows p fl)) - unat nsent"
proof -
  define p1 where "p1 = p\<lparr>ext := Suc (ext p)\<rparr>"
  have "run_bind (if sint (iovec_cntr_next_inflight p1 + nsent - iovec_cntr_last_completed p1) < 0
        then ips_proto_dma_wait_until e (iovec_cntr_last_completed p1 + nsent) p1 else Inr (PSM_OK, p1))
      (\<lambda>(_, p). Inr (dma_account fl (cycles e (ext p1 - 1)) nsent p)) = Inr p'"
    using run by (auto simp: flush_dma_sent_def get_cycles_def Let_def p1_def split: if_split_asm)
  then obtain r where "(if sint (iovec_cntr_next_inflight p1 + nsent - iovec_cntr_last_completed p1) < 0
        then ips_proto_dma_wait_until e (iovec_cntr_last_completed p1 + nsent) p1 else Inr (PSM_OK, p1)) = Inr r"
      "(case r of (_, p) \<Rightarrow> Inr (dma_account fl (cycles e (ext p1 - 1)) nsent p)) = (Inr p' :: 'a ips_proto run)"
    by (rule run_bind_InrE)
  moreover obtain err p2 where "r = (err, p2)" by fastforce
  ultimately have r: "(if sint (iovec_cntr_next_inflight p1 + nsent - iovec_cntr_last_completed p1) < 0
        then ips_proto_dma_wait_until e (iovec_cntr_last_completed p1 + nsent) p1 else Inr (PSM_OK, p1)) = Inr (err, p2)"
    and p': "p' = dma_account fl (cycles e (ext p1 - 1)) nsent p2" by simp_all
  have w: "tx_view fl p2 = tx_view fl p1 \<and> flows p2 = flows p1 \<and> wire p2 = wire p1"
  proof (cases "sint (iovec_cntr_next_inflight p1 + nsent - iovec_cntr_last_completed p1) < 0")
    case True
    then show ?thesis using r dma_wait_frame [of e "iovec_cntr_last_completed p1 + nsent" p1 err p2] by simp
  next
    case False
    then show ?thesis using r by simp
  qed
  then have "flow_rep fl inflight pending p2" using rep by (intro flow_rep_same [OF rep]) (simp_all add: p1_def)
  note acc = dma_account_result [OF this n(1), of "cycles e (ext p1 - 1)", folded p']
  show "flow_rep fl (inflight @ take (unat nsent) pending) (drop (unat nsent) pending) p'" "tx_view fl p' = tx_view fl p"
    "wire p' = wire p" "unat (credits (flows p' fl)) = unat (credits (flows p fl)) - unat nsent"
    using acc w n(2) by (simp_all add: p1_def)
qed

text \<open>The device never claims more frames than it was given.\<close>

definition dma_honest :: "'w ips_env \<Rightarrow> bool" where
  "dma_honest e \<longleftrightarrow> (\<forall>n m. snd (dma_send e n m) \<le> m)"

lemma flush_dma_result:
  assumes rep: "flow_rep fl inflight pending p" and dev: "dma_honest e" and run: "ips_proto_flow_flush_dma e fl p = Inr (err, k, p')"
  shows "\<exists>j. flush_result fl j k inflight pending p p'"
proof -
  let ?f = "flows p fl" and ?m = "min (min (scb_num_pending (flows p fl)) (ucast (credits (flows p fl)))) (scb_max_sdma p)"
  show ?thesis
  proof (cases "flow_stopped ?f \<or> scb_pend ?f = None \<or> ?m = 0")
    case True
    then show ?thesis using run flush_none [OF rep] by (auto simp: ips_proto_flow_flush_dma_def Let_def split: if_splits)
  next
    case False
    obtain err1 nsent where d: "dma_send e (ext p) ?m = (err1, nsent)" by fastforce
    have le: "nsent \<le> ?m" using dev d unfolding dma_honest_def by (metis snd_conv)
    then have "nsent \<le> scb_num_pending ?f" "nsent \<le> ucast (credits ?f)" by auto
    then have n: "unat nsent \<le> length pending" "unat nsent \<le> unat (credits ?f)"
      using rep by (simp_all add: flow_rep_def Let_def word_le_nat_alt unat_ucast_up)
    define p1 where "p1 = p\<lparr>ext := Suc (ext p), wire := wire p @ frames fl p (take (unat nsent) pending)\<rparr>"
    have rep1: "flow_rep fl inflight pending p1" by (rule flow_rep_same [OF rep]) (simp_all add: p1_def)
    have base: "flush_result fl 0 (unat nsent) inflight pending p p1"
      using rep1 n by (simp add: flush_result_def) (simp add: p1_def)
    have u: "ips_proto_flow_flush_dma e fl p =
        (if err1 \<noteq> PSM_OK \<and> err1 \<noteq> PSM_EP_NO_RESOURCES \<and> err1 \<noteq> PSM_OK_NO_PROGRESS then Inr (err1, unat nsent, p1)
         else run_bind (if nsent > 0 then flush_dma_sent e fl nsent p1 else Inr p1) (\<lambda>p.
           Inr (if nsent > 0 then (if nsent < ?m then PSM_OK_NO_PROGRESS else PSM_OK) else PSM_EP_NO_RESOURCES,
                unat nsent, flush_dma_timers e fl p)))"
      unfolding ips_proto_flow_flush_dma_def Let_def p1_def frames_def pend_list_rep [OF rep]
      using False by (simp only: de_Morgan_disj d prod.case if_False simp_thms)
    show ?thesis
    proof (cases "err1 \<noteq> PSM_OK \<and> err1 \<noteq> PSM_EP_NO_RESOURCES \<and> err1 \<noteq> PSM_OK_NO_PROGRESS")
      case True
      then have "k = unat nsent \<and> p' = p1" using run u by simp
      then show ?thesis using base by blast
    next
      case err: False
      obtain p2 where p2: "(if nsent > 0 then flush_dma_sent e fl nsent p1 else Inr p1) = Inr p2" "k = unat nsent" "p' = flush_dma_timers e fl p2"
        using err run unfolding u by (auto simp only: if_False run_bind_Inr_iff Inr_inject prod.inject)
      have "flush_result fl (unat nsent) (unat nsent) inflight pending p p2"
      proof (cases "nsent > 0")
        case True
        note s = flush_dma_sent_result [OF rep1 n(1)]
        show ?thesis using True p2(1) s [of e p2] n by (simp add: flush_result_def) (simp add: p1_def)
      next
        case z: False
        then have "nsent = 0" by (simp add: word_greater_zero_iff)
        then show ?thesis using base p2(1) by simp
      qed
      then have "flush_result fl (unat nsent) (unat nsent) inflight pending p p'"
        unfolding p2(3) by (rule flush_result_timer) (simp_all add: flush_dma_timers_frame)
      then show ?thesis using p2(2) by blast
    qed
  qed
qed

lemma flow_flush_result:
  assumes "flow_rep fl inflight pending p" "dma_honest e" "flow_flush e fl p = Inr (err, k, p')"
  shows "\<exists>i j. flush_result fl i j inflight pending p p'"
  using assms flush_pio_result [OF assms(1), of e] flush_dma_result [OF assms(1,2), of err k p']
  by (fastforce simp: flow_flush_def split: psm_transfer_type.splits)

section \<open>Queueing\<close>

lemma upd_scb_twice [simp]: "upd_scb s g (upd_scb s h p) = upd_scb s (\<lambda>x. g (h x)) p"
  by (simp add: upd_scb_def)

lemma upd_scb_flows [simp]: "flows (upd_scb s g p) = flows p" "paths (upd_scb s g p) = paths p" "proto_flags (upd_scb s g p) = proto_flags p"
    "scbs (upd_scb s g p) s = g (scbs p s)"
  by (simp_all add: upd_scb_def)

lemma upd_flow_twice [simp]: "upd_flow fl g (upd_flow fl h p) = upd_flow fl (\<lambda>f. g (h f)) p"
  by (simp add: upd_flow_def)

lemma upd_scb_flow: "upd_scb s g (upd_flow fl h p) = upd_flow fl h (upd_scb s g p)"
  by (simp add: upd_flow_def upd_scb_def)

lemma upd_flow_sel [simp]: "scbs (upd_flow fl h p) = scbs p" "proto_flags (upd_flow fl h p) = proto_flags p"
  by (simp_all add: upd_flow_def)

text \<open>What becomes of the block: the fields set by the user of the flow stay, the next sequence number is taken.\<close>

definition scb_prepared :: "u24 \<Rightarrow> u24 \<Rightarrow> ips_scb \<Rightarrow> ips_scb \<Rightarrow> bool" where
  "scb_prepared n ack x x' \<longleftrightarrow> seq_num x' = n \<and> lrh_ack_seq_num x' = ack \<and> abs_timeout x' = TIMEOUT_INFINITE \<and>
     payload x' = payload x \<and> imm_payload x' = imm_payload x \<and> tidsendc x' = tidsendc x \<and>
     scb_callback x' = scb_callback x \<and> cb_param x' = cb_param x \<and> lrh_sub_opcode x' = lrh_sub_opcode x \<and>
     lrh_hdr_dlen x' = lrh_hdr_dlen x \<and> lrh_mqhdr x' = lrh_mqhdr x \<and> lrh_data x' = lrh_data x \<and>
     payload_size x' = (payload_size x + 3) AND NOT 3 \<and> lrh_pad x' = 3 - ((payload_size x + 3) AND 3) \<and>
     scb_flags x' AND IPS_SEND_FLAG_PERSISTENT = scb_flags x AND IPS_SEND_FLAG_PERSISTENT \<and>
     scb_flags x' AND IPS_SEND_FLAG_WAIT_SDMA = scb_flags x AND IPS_SEND_FLAG_WAIT_SDMA"

text \<open>Padding to whole words and its removal cancel, also when the length wraps around.\<close>

lemma pad_unpad: "((n + 3) AND NOT 3) - (3 - ((n + 3) AND 3)) = (n :: u32)"
proof -
  have "((n + 3) AND NOT 3) OR ((n + 3) AND 3) = n + 3"
    by (simp add: bit.conj_disj_distrib [symmetric])
  moreover have "((n + 3) AND NOT 3) + ((n + 3) AND 3) = ((n + 3) AND NOT 3) OR ((n + 3) AND 3)"
    by (rule disjunctive_add) (auto simp: bit_simps)
  ultimately show ?thesis by (simp add: algebra_simps)
qed

lemma prepared_paylen:
  assumes "scb_prepared n ack x x'"
  shows "h_paylen (hdr_of x') = payload_size x"
proof -
  have "payload_size x' - lrh_pad x' = payload_size x" using assms pad_unpad [of "payload_size x"] unfolding scb_prepared_def by metis
  moreover have "h_paylen (hdr_of x') = payload_size x' - lrh_pad x'"
    by (simp add: hdr_of_def ips_recvhdrq_event_paylen_def frame_length_def)
  ultimately show ?thesis by simp
qed

lemma flag_bits [simp]:
  "(f OR IPS_SEND_FLAG_ACK_REQ) AND IPS_SEND_FLAG_PERSISTENT = f AND IPS_SEND_FLAG_PERSISTENT"
  "(f OR IPS_SEND_FLAG_PENDING) AND IPS_SEND_FLAG_PERSISTENT = f AND IPS_SEND_FLAG_PERSISTENT"
  "(f OR IPS_SEND_FLAG_ACK_REQ) AND IPS_SEND_FLAG_WAIT_SDMA = f AND IPS_SEND_FLAG_WAIT_SDMA"
  "(f OR IPS_SEND_FLAG_PENDING) AND IPS_SEND_FLAG_WAIT_SDMA = f AND IPS_SEND_FLAG_WAIT_SDMA"
  by (simp_all add: IPS_SEND_FLAG_ACK_REQ_def IPS_SEND_FLAG_PERSISTENT_def IPS_SEND_FLAG_PENDING_def IPS_SEND_FLAG_WAIT_SDMA_def
      bit.conj_disj_distrib2)

lemma prepare_eq:
  obtains g where "ips_scb_prepare_flow_inner s fl p = upd_flow fl (\<lambda>f. f\<lparr>xmit_seq_num :=
           (if protocol f = PSM_PROTOCOL_TIDFLOW then sn_set_seq (sn_seq (xmit_seq_num f) + 1) (xmit_seq_num f)
            else xmit_seq_num f + 1)\<rparr>) (upd_scb s g p)"
    "scb_prepared (xmit_seq_num (flows p fl)) (recv_seq_num (flows p fl)) (scbs p s) (g (scbs p s))"
  apply (rule that)
   apply (unfold ips_scb_prepare_flow_inner_def ips_flow_gen_ackflags_def ips_proto_hdr_def Let_def prod.case upd_scb_twice upd_scb_flows)
   apply (rule refl)
  apply (simp add: scb_prepared_def upd_scb_def)
  done

lemma scb_inv_cong:
  assumes "scb_inv p" "\<And>s. payload (scbs p' s) = payload (scbs p s)" "\<And>s. imm_payload (scbs p' s) = imm_payload (scbs p s)"
    "p' = p\<lparr>scbs := scbs p', flows := flows p'\<rparr>"
  shows "scb_inv p'" "scb_held p' = scb_held p"
proof -
  have e: "scb_num p' = scb_num p" "scb_num_cur p' = scb_num_cur p" "scb_free p' = scb_free p" "scb_base p' = scb_base p"
    "sbuf_num p' = sbuf_num p" "sbuf_num_cur p' = sbuf_num_cur p" "sbuf_free p' = sbuf_free p" "sbuf_buf_size p' = sbuf_buf_size p"
    "sbuf_buf_base p' = sbuf_buf_base p" "sbuf_buf_last p' = sbuf_buf_last p" by (subst assms(4), simp)+
  show h: "scb_held p' = scb_held p" by (simp add: scb_held_def scb_set_def e)
  have "scb_inv p' = scb_inv p" unfolding scb_inv_def scb_geom_def h
    by (simp add: bounced_def scb_set_def sbuf_set_def in_sbufs_def e assms(2,3))
  then show "scb_inv p'" using assms(1) by simp
qed

lemma queue_bound:
  assumes "distinct q" "set q \<subseteq> scb_held p"
  shows "length q \<le> unat (scb_num p)"
proof -
  have "card (set q) \<le> card (scb_set p)" using assms(2) by (intro card_mono) (auto simp: scb_held_def)
  also have "\<dots> \<le> card {..<unat (scb_num p)}" unfolding scb_set_def by (rule card_image_le) simp
  finally show ?thesis using assms(1) by (simp add: distinct_card)
qed

lemma enqueue_rep:
  fixes e :: "'w ips_env" and p :: "'w ips_proto"
  assumes rep: "flow_rep fl inflight pending p" and s: "s \<in> scb_held p" "s \<notin> set (inflight @ pending)"
    and prot: "protocol (flows p fl) \<noteq> PSM_PROTOCOL_TIDFLOW" and inv: "scb_inv p"
  defines "p' \<equiv> ips_proto_flow_enqueue e fl s p"
  shows "flow_rep fl inflight (pending @ [s]) p'" "scb_inv p'" "scb_held p' = scb_held p"
    "p' = p\<lparr>scbs := (scbs p)(s := scbs p' s), flows := (flows p)(fl := flows p' fl)\<rparr>"
    "flows p' fl = flows p fl\<lparr>xmit_seq_num := xmit_seq_num (flows p fl) + 1, scb_unacked := inflight @ pending @ [s],
       scb_num_pending := scb_num_pending (flows p fl) + 1, scb_num_unacked := scb_num_unacked (flows p fl) + 1,
       scb_pend := slist_first (pending @ [s])\<rparr>"
    "scb_prepared (xmit_seq_num (flows p fl)) (recv_seq_num (flows p fl)) (scbs p s) (scbs p' s)"
proof -
  let ?f = "flows p fl" and ?n = "length inflight + length pending"
  obtain g where g: "ips_scb_prepare_flow_inner s fl p = upd_flow fl (\<lambda>f. f\<lparr>xmit_seq_num :=
           (if protocol f = PSM_PROTOCOL_TIDFLOW then sn_set_seq (sn_seq (xmit_seq_num f) + 1) (xmit_seq_num f)
            else xmit_seq_num f + 1)\<rparr>) (upd_scb s g p)"
    "scb_prepared (xmit_seq_num ?f) (recv_seq_num ?f) (scbs p s) (g (scbs p s))" by (rule prepare_eq [of s fl p]) blast
  have q: "scb_unacked ?f = inflight @ pending" "scb_pend ?f = slist_first pending" using rep by (simp_all add: flow_rep_def Let_def)
  define C where "C x = (if proto_flags p AND IPS_PROTO_FLAG_CKSUM \<noteq> 0 \<and> scb_tid (g x) = IPATH_EAGER_TID_ID
    then (g x)\<lparr>scb_cksum := crc e (g x)\<rparr> else g x)" for x
  have "p' = upd_flow fl (\<lambda>f. flows p' fl) (upd_scb s C p)" and f: "flows p' fl = flows p fl\<lparr>xmit_seq_num := xmit_seq_num ?f + 1,
      scb_unacked := inflight @ pending @ [s], scb_num_pending := scb_num_pending ?f + 1,
      scb_num_unacked := scb_num_unacked ?f + 1, scb_pend := slist_first (pending @ [s])\<rparr>"
    unfolding p'_def ips_proto_flow_enqueue_def g(1) Let_def ips_do_cksum_def upd_scb_flow upd_flow_twice upd_scb_twice
    using prot q by (cases pending; simp add: upd_flow_def upd_scb_def C_def [abs_def])+
  then have eq: "p' = p\<lparr>scbs := (scbs p)(s := C (scbs p s)), flows := (flows p)(fl := flows p' fl)\<rparr>"
    by (simp add: upd_flow_def upd_scb_def)
  have sc: "scbs p' = (scbs p)(s := C (scbs p s))" using arg_cong [OF eq, of scbs] by simp
  then have X: "scbs p' s = C (scbs p s)" by simp
  show "p' = p\<lparr>scbs := (scbs p)(s := scbs p' s), flows := (flows p)(fl := flows p' fl)\<rparr>" using eq unfolding X .
  show "flows p' fl = flows p fl\<lparr>xmit_seq_num := xmit_seq_num (flows p fl) + 1, scb_unacked := inflight @ pending @ [s],
       scb_num_pending := scb_num_pending (flows p fl) + 1, scb_num_unacked := scb_num_unacked (flows p fl) + 1,
       scb_pend := slist_first (pending @ [s])\<rparr>" by (rule f)
  show prep: "scb_prepared (xmit_seq_num ?f) (recv_seq_num ?f) (scbs p s) (scbs p' s)"
    using g(2) unfolding X by (simp add: C_def scb_prepared_def)
  have pay: "payload (scbs p' t) = payload (scbs p t)" "imm_payload (scbs p' t) = imm_payload (scbs p t)" for t
    using prep by (cases "t = s"; simp add: sc scb_prepared_def)+
  have "p' = p\<lparr>scbs := scbs p', flows := flows p'\<rparr>" by (subst (1 2 3) eq) simp
  then show "scb_inv p'" and h: "scb_held p' = scb_held p" using scb_inv_cong [OF inv pay] by blast+
  have "length ((inflight @ pending) @ [s]) \<le> unat (scb_num p)"
    using rep s by (intro queue_bound) (auto simp: flow_rep_def Let_def)
  then have "Suc ?n < 2 ^ 32" using unsigned_less [of "scb_num p", where 'a = nat] by simp
  then have cnt: "unat (scb_num_unacked ?f + 1) = Suc ?n" "unat (scb_num_pending ?f + 1) = Suc (length pending)"
    using rep by (simp_all add: flow_rep_def Let_def unat_word_ariths)
  have psn: "seq_num (scbs p' ((inflight @ pending @ [s]) ! i)) = xmit_seq_num ?f + 1 - of_nat (Suc ?n - i)" if "i < Suc ?n" for i
  proof (cases "i = ?n")
    case True
    then show ?thesis using prep by (simp add: nth_append scb_prepared_def)
  next
    case False
    then have i: "i < ?n" using that by simp
    then have nth: "(inflight @ pending @ [s]) ! i = (inflight @ pending) ! i" by (metis append.assoc length_append nth_append)
    have "(inflight @ pending) ! i \<in> set (inflight @ pending)" using i by (intro nth_mem) simp
    then have "(inflight @ pending) ! i \<noteq> s" using s(2) by blast
    moreover have "seq_num (scbs p ((inflight @ pending) ! i)) = xmit_seq_num ?f - of_nat (?n - i)"
      using rep i by (simp add: flow_rep_def Let_def)
    ultimately show ?thesis using i unfolding nth sc by (simp add: Suc_diff_le)
  qed
  show "flow_rep fl inflight (pending @ [s]) p'"
    using rep s cnt psn unfolding flow_rep_def Let_def h f by (auto simp: f)
qed

lemma flow_init_rep:
  assumes "p' = ips_flow_init path ipsaddr tt pt i fl p"
  shows "flow_rep fl [] [] p'" "xmit_seq_num (flows p' fl) = 0" "recv_seq_num (flows p' fl) = 0" "protocol (flows p' fl) = pt"
    "credits (flows p' fl) = flow_credits p" "cwin (flows p' fl) = flow_credits p" "g \<noteq> fl \<Longrightarrow> flows p' g = flows p g"
  by (simp_all add: assms ips_flow_init_def upd_flow_def flow_rep_def)

section \<open>Congestion control\<close>

lemma cca_frame: "ips_cca_adjust_rate e i c p = Inr p' \<Longrightarrow> p' = p\<lparr>paths := paths p', ext := ext p'\<rparr>"
  by (auto simp: ips_cca_adjust_rate_def get_cycles_def upd_path_def Let_def split: if_splits)

lemma cca_slow_down_frame: "cca_slow_down e i p = Inr (b, p') \<Longrightarrow> p' = p\<lparr>paths := paths p', ext := ext p'\<rparr>"
  by (auto simp: cca_slow_down_def split: if_splits dest!: cca_frame)

text \<open>
  The index into the congestion control table of a path: at least its minimum, and below the limit
  unless it is at the minimum.
\<close>

definition cca_ok :: "nat \<Rightarrow> 'w ips_proto \<Rightarrow> bool" where
  "cca_ok i p \<longleftrightarrow> epr_ccti_min (paths p i) \<le> epr_ccti (paths p i) \<and>
     (epr_ccti (paths p i) < ccti_limit p \<or> epr_ccti (paths p i) = epr_ccti_min (paths p i)) \<and>
     (epr_ccti_min (paths p i) < epr_ccti (paths p i) \<longrightarrow> epr_timer_cca (paths p i) \<noteq> None)"

lemma cca_adjust_path:
  assumes "ips_cca_adjust_rate e i c p = Inr p'"
  shows "epr_ccti (paths p' i) = epr_ccti (paths p i) + of_int c" "epr_ccti_min (paths p' i) = epr_ccti_min (paths p i)"
    "ccti_limit p' = ccti_limit p" "epr_ccti_min (paths p' i) < epr_ccti (paths p' i) \<Longrightarrow> epr_timer_cca (paths p' i) \<noteq> None"
    "j \<noteq> i \<Longrightarrow> paths p' j = paths p j"
  using assms
  by (auto simp: ips_cca_adjust_rate_def get_cycles_def upd_path_def Let_def timer_request_def split: if_splits option.splits)

lemma cca_adjust_total: "epr_ccti_min (paths p i) \<le> epr_ccti (paths p i) \<Longrightarrow> \<exists>p'. ips_cca_adjust_rate e i c p = Inr p'"
  by (auto simp: ips_cca_adjust_rate_def get_cycles_def Let_def)

lemma cca_slow_down_ok:
  assumes "cca_ok i p"
  shows "\<exists>b p'. cca_slow_down e i p = Inr (b, p') \<and> cca_ok i p' \<and> epr_ccti (paths p i) \<le> epr_ccti (paths p' i)"
proof (cases "unat (epr_ccti (paths p i)) + unat (ccti_increase p) < unat (ccti_limit p)")
  case True
  obtain p' where p': "ips_cca_adjust_rate e i (int (unat (ccti_increase p))) p = Inr p'"
    using assms cca_adjust_total by (metis cca_ok_def)
  note a = cca_adjust_path [OF p']
  have "unat (epr_ccti (paths p i) + ccti_increase p) = unat (epr_ccti (paths p i)) + unat (ccti_increase p)"
    using True unsigned_less [of "ccti_limit p", where 'a = nat] by (intro unat_plus_no_wrap) simp
  then have c: "unat (epr_ccti (paths p' i)) = unat (epr_ccti (paths p i)) + unat (ccti_increase p)" using a(1) by simp
  have "cca_ok i p'"
    using assms True a(2-4) c unfolding cca_ok_def word_le_nat_alt word_less_nat_alt by (metis le_trans le_add1)
  moreover have "epr_ccti (paths p i) \<le> epr_ccti (paths p' i)" using c by (simp add: word_le_nat_alt)
  ultimately show ?thesis using True p' by (auto simp: cca_slow_down_def)
next
  case False
  then show ?thesis using assms by (auto simp: cca_slow_down_def)
qed

lemma cca_timer_ok:
  assumes "cca_ok i p"
  shows "\<exists>p'. ips_cca_timer_callback e i p = Inr p' \<and> cca_ok i p' \<and>
    unat (epr_ccti (paths p' i)) = max (unat (epr_ccti_min (paths p i))) (unat (epr_ccti (paths p i)) - 1)"
proof (cases "epr_ccti_min (paths p i) < epr_ccti (paths p i)")
  case True
  define p1 where "p1 = upd_path i (\<lambda>r. r\<lparr>epr_timer_cca := None\<rparr>) p"
  have s: "epr_ccti (paths p1 i) = epr_ccti (paths p i)" "epr_ccti_min (paths p1 i) = epr_ccti_min (paths p i)" "ccti_limit p1 = ccti_limit p"
    by (simp_all add: p1_def upd_path_def)
  obtain p' where p': "ips_cca_adjust_rate e i (-1) p1 = Inr p'"
    using cca_adjust_total [of p1 i] True s by (metis less_imp_le)
  note a = cca_adjust_path [OF p']
  have "epr_ccti (paths p i) \<noteq> 0" using True by (metis word_not_simps(1))
  then have c: "unat (epr_ccti (paths p' i)) = unat (epr_ccti (paths p i)) - 1" "epr_ccti_min (paths p' i) = epr_ccti_min (paths p i)"
    using a(1,2) s by (simp_all add: unat_dec)
  have "epr_ccti (paths p i) < ccti_limit p" using assms True by (auto simp: cca_ok_def)
  then have "cca_ok i p'" using True a(3,4) c s unfolding cca_ok_def word_le_nat_alt word_less_nat_alt by (simp; linarith)
  then show ?thesis using True p' c s by (intro exI [of _ p']) (simp add: ips_cca_timer_callback_def p1_def [symmetric] word_less_nat_alt)
next
  case False
  then have "epr_ccti (paths p i) = epr_ccti_min (paths p i)" using assms by (simp add: cca_ok_def)
  then show ?thesis using assms by (auto simp: ips_cca_timer_callback_def upd_path_def cca_ok_def)
qed

text \<open>What happens to a path: a congestion notice, or its timer expires.\<close>

datatype cca_event = Congestion_Notice | Timer_Expired

fun cca_run :: "'w ips_env \<Rightarrow> nat \<Rightarrow> cca_event list \<Rightarrow> 'w ips_proto \<Rightarrow> 'w ips_proto run" where
  "cca_run e i [] p = Inr p"
| "cca_run e i (Congestion_Notice # evs) p = run_bind (cca_slow_down e i p) (\<lambda>(_, p). cca_run e i evs p)"
| "cca_run e i (Timer_Expired # evs) p = run_bind (ips_cca_timer_callback e i p) (\<lambda>p. cca_run e i evs p)"

lemma cca_run_ok: "cca_ok i p \<Longrightarrow> \<exists>p'. cca_run e i evs p = Inr p' \<and> cca_ok i p'"
proof (induction evs arbitrary: p)
  case (Cons ev evs)
  show ?case
  proof (cases ev)
    case Congestion_Notice
    then show ?thesis using cca_slow_down_ok [OF Cons.prems, of e] Cons.IH by fastforce
  next
    case Timer_Expired
    then show ?thesis using cca_timer_ok [OF Cons.prems, of e] Cons.IH by fastforce
  qed
qed auto

lemma cca_slow_down_limit:
  assumes "cca_slow_down e i p = Inr (b, p')"
  shows "ccti_limit p' = ccti_limit p \<and> epr_ccti_min (paths p' i) = epr_ccti_min (paths p i)"
  using assms by (auto simp: cca_slow_down_def run_bind_Inr_iff dest: cca_adjust_path(2,3) split: if_splits)

lemma cca_timer_limit:
  assumes "ips_cca_timer_callback e i p = Inr p'"
  shows "ccti_limit p' = ccti_limit p \<and> epr_ccti_min (paths p' i) = epr_ccti_min (paths p i)"
proof -
  let ?p = "upd_path i (\<lambda>r. r\<lparr>epr_timer_cca := None\<rparr>) p"
  have "ips_cca_adjust_rate e i (-1) ?p = Inr p' \<or> p' = ?p" using assms by (auto simp: ips_cca_timer_callback_def Let_def split: if_splits)
  then show ?thesis using cca_adjust_path(2,3) [of e i "-1" ?p p'] by (auto simp: upd_path_def)
qed

lemma cca_run_limit:
  "cca_run e i evs p = Inr p' \<Longrightarrow> ccti_limit p' = ccti_limit p \<and> epr_ccti_min (paths p' i) = epr_ccti_min (paths p i)"
proof (induction evs arbitrary: p)
  case (Cons ev evs)
  then show ?case by (cases ev) (auto simp: run_bind_Inr_iff dest: cca_slow_down_limit cca_timer_limit)
qed simp

lemma cca_recovers:
  "cca_ok i p \<Longrightarrow> \<exists>p'. cca_run e i (replicate n Timer_Expired) p = Inr p' \<and> cca_ok i p' \<and> epr_ccti_min (paths p' i) = epr_ccti_min (paths p i) \<and>
     unat (epr_ccti (paths p' i)) = max (unat (epr_ccti_min (paths p i))) (unat (epr_ccti (paths p i)) - n)"
proof (induction n arbitrary: p)
  case 0
  then show ?case by (simp add: cca_ok_def word_le_nat_alt max_def)
next
  case (Suc n)
  obtain p1 where p1: "ips_cca_timer_callback e i p = Inr p1" "cca_ok i p1"
    "unat (epr_ccti (paths p1 i)) = max (unat (epr_ccti_min (paths p i))) (unat (epr_ccti (paths p i)) - 1)"
    using cca_timer_ok [OF Suc.prems, of e] by blast
  have m: "epr_ccti_min (paths p1 i) = epr_ccti_min (paths p i)" using cca_timer_limit [OF p1(1)] by simp
  have "max a (max a (b - 1) - n) = max a (b - Suc n)" for a b :: nat by arith
  then show ?case using Suc.IH [OF p1(2)] p1 m by auto
qed

section \<open>Properties\<close>

text \<open>
  C16: A flush by programmed I/O of a consistent flow ends, puts exactly the first \<open>k\<close> pending frames on the wire,
  in order and never more than there are credits, takes one credit for each, and leaves the flow
  consistent with those frames in flight; nothing else of the protocol object changes apart from the bookkeeping of the
  blocks. It stops early only when the device refuses a frame, and then the timer for sends is pending.
\<close>

theorem flush_pio_sends_prefix:
  assumes "flow_rep fl inflight pending p"
  shows "\<exists>k err p'. ips_proto_flow_flush_pio e fl p = (err, k, p') \<and> k \<le> length pending \<and> k \<le> unat (credits (flows p fl)) \<and>
    wire p' = wire p @ map (\<lambda>s. (fl, hdr_of (scbs p s))) (take k pending) \<and>
    unat (credits (flows p' fl)) = unat (credits (flows p fl)) - k \<and>
    flow_rep fl (inflight @ take k pending) (drop k pending) p' \<and> tx_view fl p' = tx_view fl p \<and>
    (flow_stopped (flows p fl) \<longrightarrow> k = 0) \<and>
    (\<not> flow_stopped (flows p fl) \<and> err = PSM_OK \<longrightarrow> k = min (length pending) (unat (credits (flows p fl)))) \<and>
    (\<not> flow_stopped (flows p fl) \<and> k < length pending \<longrightarrow> timer_send (flows p' fl) \<noteq> None)"
  using flush_pio_result [OF assms, of e] by (fastforce simp: flush_result_def frames_def)

definition demo_queue :: "'w \<Rightarrow> 'w ips_proto" where
  "demo_queue w = ips_proto_flow_enqueue demo_env (Ep_flow 0 0) 0x10C0
     (ips_proto_flow_enqueue demo_env (Ep_flow 0 0) 0x1000 ((demo_proto w)\<lparr>scb_free := [0x1180, 0x1240], scb_num_cur := 2\<rparr>))"

lemma demo_queue_rep:
  fixes w :: 'w
  shows "flow_rep (Ep_flow 0 0) [] [0x1000, 0x10C0] (demo_queue w)" "scb_inv (demo_queue w)"
    "flows (demo_queue w) (Ep_flow 0 0) = demo_flow\<lparr>xmit_seq_num := 2, scb_unacked := [0x1000, 0x10C0], scb_num_pending := 2,
       scb_num_unacked := 2, scb_pend := Some 0x1000\<rparr>"
    "paths (demo_queue w) = paths (demo_proto w)" "scb_max_inflight (demo_queue w) = 8"
    "g \<noteq> Ep_flow 0 0 \<Longrightarrow> flows (demo_queue w) g = demo_flow" "wire (demo_queue w) = []" "ctrlqs (demo_queue w) = (\<lambda>_. demo_ctrlq)"
    "pending_acks (demo_queue w) = []" "proto_flags (demo_queue w) = IPS_PROTO_FLAG_COALESCE_ACKS"
    "ccti_limit (demo_queue w) = 127" "scb_num (demo_queue w) = 4" "scb_held (demo_queue w) = {0x1000, 0x10C0}"
proof -
  let ?p = "(demo_proto w)\<lparr>scb_free := [0x1180, 0x1240], scb_num_cur := 2\<rparr>" and ?fl = "Ep_flow 0 0"
  have inv: "scb_inv ?p" using demo_scb_set [of w] by (auto simp: scb_inv_def scb_geom_def scb_set_def bounced_def sbuf_set_def bij_betw_def scb_calloc_def)
  have held: "scb_held ?p = {0x1000, 0x10C0}" using demo_scb_set [of w] by (auto simp: scb_held_def scb_set_def)
  have r0: "flow_rep ?fl [] [] ?p" by (simp add: flow_rep_def demo_flow_def)
  let ?q = "ips_proto_flow_enqueue demo_env ?fl 0x1000 ?p"
  note e1 = enqueue_rep [OF r0, of "0x1000" "demo_env :: 'w ips_env"]
  have q: "flow_rep ?fl [] [0x1000] ?q" "scb_inv ?q" "scb_held ?q = {0x1000, 0x10C0}"
    and f: "flows ?q ?fl = demo_flow\<lparr>xmit_seq_num := 1, scb_unacked := [0x1000], scb_num_pending := 1, scb_num_unacked := 1, scb_pend := Some 0x1000\<rparr>"
    and fr: "?q = ?p\<lparr>scbs := (scbs ?p)(0x1000 := scbs ?q 0x1000), flows := (flows ?p)(?fl := flows ?q ?fl)\<rparr>"
    using e1 held inv by (simp_all add: demo_flow_def)
  note e2 = enqueue_rep [OF q(1), of "0x10C0" "demo_env :: 'w ips_env"]
  have pr: "protocol (flows ?q ?fl) \<noteq> PSM_PROTOCOL_TIDFLOW" using f by (simp add: demo_flow_def)
  have r: "demo_queue w = ?q\<lparr>scbs := (scbs ?q)(0x10C0 := scbs (demo_queue w) 0x10C0), flows := (flows ?q)(?fl := flows (demo_queue w) ?fl)\<rparr>"
    using e2(4) pr q(2,3) by (simp add: demo_queue_def)
  show "flow_rep (Ep_flow 0 0) [] [0x1000, 0x10C0] (demo_queue w)" "scb_inv (demo_queue w)" "scb_held (demo_queue w) = {0x1000, 0x10C0}"
    using e2(1-3) pr q(2,3) by (simp_all add: demo_queue_def)
  show "flows (demo_queue w) ?fl = demo_flow\<lparr>xmit_seq_num := 2, scb_unacked := [0x1000, 0x10C0], scb_num_pending := 2,
      scb_num_unacked := 2, scb_pend := Some 0x1000\<rparr>" using e2(5) pr q(2,3) f by (simp add: demo_queue_def demo_flow_def)
  show "paths (demo_queue w) = paths (demo_proto w)" "scb_max_inflight (demo_queue w) = 8" "wire (demo_queue w) = []"
    "ctrlqs (demo_queue w) = (\<lambda>_. demo_ctrlq)" "pending_acks (demo_queue w) = []" "proto_flags (demo_queue w) = IPS_PROTO_FLAG_COALESCE_ACKS"
    "ccti_limit (demo_queue w) = 127" "scb_num (demo_queue w) = 4"
    by (subst r, subst fr, simp add: demo_proto_def)+
  show "g \<noteq> ?fl \<Longrightarrow> flows (demo_queue w) g = demo_flow" by (subst r, subst fr) simp
qed

theorem flush_pio_sends_prefix_witness:
  "\<exists>k err p'. ips_proto_flow_flush_pio demo_env (Ep_flow 0 0) (demo_queue ()) = (err, k, p') \<and> k \<le> 2 \<and>
    wire p' = map (\<lambda>s. (Ep_flow 0 0, hdr_of (scbs (demo_queue ()) s))) (take k [0x1000, 0x10C0])"
  using flush_pio_sends_prefix [OF demo_queue_rep(1), of demo_env "()"] by (fastforce simp: demo_queue_rep(7))

text \<open>
  C18: The index of a path into the congestion control table: whatever congestion notices arrive and
  whenever its timer expires, no assertion fails, the index stays at or above its minimum and, unless it is at the
  minimum, below the limit with the timer pending; and when the notices stop, as many expiries as the
  index is above its minimum bring it back there.
\<close>

theorem cca_index_bounded:
  assumes "cca_ok i p"
  shows "\<exists>p'. cca_run e i evs p = Inr p' \<and> epr_ccti_min (paths p i) \<le> epr_ccti (paths p' i) \<and>
    (epr_ccti (paths p' i) < ccti_limit p \<or> epr_ccti (paths p' i) = epr_ccti_min (paths p i)) \<and>
    (epr_ccti_min (paths p i) < epr_ccti (paths p' i) \<longrightarrow> epr_timer_cca (paths p' i) \<noteq> None) \<and>
    (\<exists>p''. cca_run e i (replicate (unat (epr_ccti (paths p' i)) - unat (epr_ccti_min (paths p i))) Timer_Expired) p' = Inr p'' \<and>
       epr_ccti (paths p'' i) = epr_ccti_min (paths p i))"
proof -
  obtain p' where p': "cca_run e i evs p = Inr p'" "cca_ok i p'" using cca_run_ok [OF assms] by blast
  have l: "ccti_limit p' = ccti_limit p" "epr_ccti_min (paths p' i) = epr_ccti_min (paths p i)" using cca_run_limit [OF p'(1)] by simp_all
  let ?n = "unat (epr_ccti (paths p' i)) - unat (epr_ccti_min (paths p i))"
  obtain p'' where "cca_run e i (replicate ?n Timer_Expired) p' = Inr p''"
    "unat (epr_ccti (paths p'' i)) = max (unat (epr_ccti_min (paths p' i))) (unat (epr_ccti (paths p' i)) - ?n)"
    using cca_recovers [OF p'(2)] by blast
  moreover have "unat (epr_ccti_min (paths p i)) \<le> unat (epr_ccti (paths p' i))" using p'(2) l by (simp add: cca_ok_def word_le_nat_alt)
  ultimately have "\<exists>p''. cca_run e i (replicate ?n Timer_Expired) p' = Inr p'' \<and> epr_ccti (paths p'' i) = epr_ccti_min (paths p i)"
    using l by (intro exI [of _ p'']) (simp add: word_unat_eq_iff)
  then show ?thesis using p' l by (intro exI [of _ p']) (simp add: cca_ok_def)
qed

theorem cca_index_bounded_witness:
  "\<exists>p'. cca_run demo_env 0 [Congestion_Notice, Congestion_Notice, Timer_Expired] (demo_proto ()) = Inr p' \<and> 0 \<le> epr_ccti (paths p' 0) \<and>
    (epr_ccti (paths p' 0) < 127 \<or> epr_ccti (paths p' 0) = 0) \<and>
    (\<exists>p''. cca_run demo_env 0 (replicate (unat (epr_ccti (paths p' 0)) - 0) Timer_Expired) p' = Inr p'' \<and> epr_ccti (paths p'' 0) = 0)"
  using cca_index_bounded [of 0 "demo_proto ()" demo_env "[Congestion_Notice, Congestion_Notice, Timer_Expired]"]
  by (fastforce simp: cca_ok_def demo_path_def)

end
