(* ===== verification/Ips_Ctrl.thy ===== *)
theory Ips_Ctrl
  imports Ips_Flow
begin

text \<open>
  Control messages, \<^verbatim>\<open>src/ptl_ips/ips_proto.c\<close>: acknowledgements, negative acknowledgements, error checks and
  congestion notices are composed when they are sent; when the device has no room they wait in a ring
  of 32 elements, at most one of a kind for each word of queued messages.

  Header words that a message type does not assign (the code leaves them as they are on the stack and
  no receiver reads them) are 0 here. The lengths of the payloads that the connect and the expected
  protocol compose are the field \<open>connect_paylen\<close> of the environment.

  Shown: the ring is a queue; draining it sends its elements in order, stops at the first frame that
  is refused and always ends; a message reported as accepted was sent, is queued, or one of its kind
  is queued already. Two defects are shown too: one discarded message makes the same drain drop every
  message behind it, and the error check reply to a stray process is queued although its word says
  that it is.
\<close>

unbundle bit_operations_syntax

section \<open>Message types\<close>

definition OPCODE_SEQ_MQ_CTRL :: u8 where "OPCODE_SEQ_MQ_CTRL = 0x04"
definition OPCODE_SEQ_MQ_HDR :: u8 where "OPCODE_SEQ_MQ_HDR = 0x05"
definition OPCODE_ACK :: u8 where "OPCODE_ACK = 0x10"
definition OPCODE_NAK :: u8 where "OPCODE_NAK = 0x11"
definition OPCODE_ERR_CHK_OLD :: u8 where "OPCODE_ERR_CHK_OLD = 0x20"
definition OPCODE_ERR_CHK_PLS :: u8 where "OPCODE_ERR_CHK_PLS = 0x21"
definition OPCODE_ERR_CHK :: u8 where "OPCODE_ERR_CHK = 0x22"
definition OPCODE_ERR_CHK_BAD :: u8 where "OPCODE_ERR_CHK_BAD = 0x23"
definition OPCODE_ERR_CHK_GEN :: u8 where "OPCODE_ERR_CHK_GEN = 0x24"
definition OPCODE_STARTUP :: u8 where "OPCODE_STARTUP = 0x30"
definition OPCODE_STARTUP_ACK :: u8 where "OPCODE_STARTUP_ACK = 0x31"
definition OPCODE_STARTUP_EXT :: u8 where "OPCODE_STARTUP_EXT = 0x34"
definition OPCODE_STARTUP_ACK_EXT :: u8 where "OPCODE_STARTUP_ACK_EXT = 0x35"
definition OPCODE_TIDS_RELEASE :: u8 where "OPCODE_TIDS_RELEASE = 0x40"
definition OPCODE_TIDS_RELEASE_CONFIRM :: u8 where "OPCODE_TIDS_RELEASE_CONFIRM = 0x41"
definition OPCODE_TIDS_GRANT :: u8 where "OPCODE_TIDS_GRANT = 0x42"
definition OPCODE_TIDS_GRANT_ACK :: u8 where "OPCODE_TIDS_GRANT_ACK = 0x43"
definition OPCODE_CLOSE :: u8 where "OPCODE_CLOSE = 0x50"
definition OPCODE_CLOSE_ACK :: u8 where "OPCODE_CLOSE_ACK = 0x51"
definition OPCODE_ABORT :: u8 where "OPCODE_ABORT = 0x52"
definition OPCODE_CONNECT_REQUEST :: u8 where "OPCODE_CONNECT_REQUEST = 0x60"
definition OPCODE_CONNECT_REPLY :: u8 where "OPCODE_CONNECT_REPLY = 0x61"
definition OPCODE_DISCONNECT_REQUEST :: u8 where "OPCODE_DISCONNECT_REQUEST = 0x62"
definition OPCODE_DISCONNECT_REPLY :: u8 where "OPCODE_DISCONNECT_REPLY = 0x63"
definition OPCODE_FLOW_CCA_BECN :: u8 where "OPCODE_FLOW_CCA_BECN = 0x80"

lemmas opcode_defs = OPCODE_SEQ_MQ_CTRL_def OPCODE_SEQ_MQ_HDR_def OPCODE_ACK_def OPCODE_NAK_def OPCODE_ERR_CHK_OLD_def OPCODE_ERR_CHK_PLS_def OPCODE_ERR_CHK_def OPCODE_ERR_CHK_BAD_def
  OPCODE_ERR_CHK_GEN_def OPCODE_STARTUP_def OPCODE_STARTUP_ACK_def OPCODE_STARTUP_EXT_def OPCODE_STARTUP_ACK_EXT_def
  OPCODE_TIDS_RELEASE_def OPCODE_TIDS_RELEASE_CONFIRM_def OPCODE_TIDS_GRANT_def OPCODE_TIDS_GRANT_ACK_def OPCODE_CLOSE_def
  OPCODE_CLOSE_ACK_def OPCODE_ABORT_def OPCODE_CONNECT_REQUEST_def OPCODE_CONNECT_REPLY_def OPCODE_DISCONNECT_REQUEST_def
  OPCODE_DISCONNECT_REPLY_def OPCODE_FLOW_CCA_BECN_def

text \<open>
  The table that \<^verbatim>\<open>ctrlq_init\<close> fills: the bit of a message type in the word of queued messages, 0 for the
  types without one, and the types that are never queued.
\<close>

definition message_type_to_index :: "u8 \<Rightarrow> u32" where
  "message_type_to_index t =
     (if t = OPCODE_ACK then 0x1 else if t = OPCODE_NAK then 0x2 else if t = OPCODE_ERR_CHK then 0x4
      else if t = OPCODE_ERR_CHK_PLS then 0x8 else if t = OPCODE_CONNECT_REQUEST then 0x10
      else if t = OPCODE_CONNECT_REPLY then 0x20 else if t = OPCODE_DISCONNECT_REQUEST then 0x40
      else if t = OPCODE_DISCONNECT_REPLY then 0x80 else if t = OPCODE_CLOSE then 0x400 else if t = OPCODE_CLOSE_ACK then 0x800
      else if t = OPCODE_ABORT then 0x1000 else if t = OPCODE_TIDS_GRANT then 0x2000 else if t = OPCODE_TIDS_GRANT_ACK then 0x4000
      else if t = OPCODE_ERR_CHK_GEN then 0x8000 else if t = OPCODE_FLOW_CCA_BECN then 0x10000 else 0)"

definition ctrl_msg_queue_never_enqueue :: u32 where
  "ctrl_msg_queue_never_enqueue = 0x10 OR 0x20 OR 0x40 OR 0x80 OR 0x8000 OR 0x2000"

definition CTRL_MSG_QUEUE_ALWAYS :: u32 where "CTRL_MSG_QUEUE_ALWAYS = 0x80000000"

definition message_type2index :: "u8 \<Rightarrow> u32" where
  "message_type2index t = message_type_to_index t AND NOT CTRL_MSG_QUEUE_ALWAYS"

definition CTRL_MSG_QEUEUE_SIZE :: nat where "CTRL_MSG_QEUEUE_SIZE = 32"

definition ctrlq_init :: "nat \<Rightarrow> 'w ips_proto \<Rightarrow> 'w ips_proto" where
  "ctrlq_init i p = p\<lparr>ctrlqs := (ctrlqs p)(i := \<lparr>ctrlq_head = 0, ctrlq_tail = 0,
     ctrlq_cqe = (\<lambda>_. \<lparr>cqe_ipsaddr = None, cqe_message_type = 0, cqe_mask = Ep_mask 0, cqe_flow = Ep_flow 0 0, cqe_args = (0, 0, 0)\<rparr>),
     ctrlq_timer = None\<rparr>)\<rparr>"

definition upd_ctrlq :: "nat \<Rightarrow> (ips_ctrlq \<Rightarrow> ips_ctrlq) \<Rightarrow> 'w ips_proto \<Rightarrow> 'w ips_proto" where
  "upd_ctrlq i g p = p\<lparr>ctrlqs := (ctrlqs p)(i := g (ctrlqs p i))\<rparr>"

definition ips_epaddr_stats_send :: "nat \<Rightarrow> u8 \<Rightarrow> 'w ips_proto \<Rightarrow> 'w ips_proto" where
  "ips_epaddr_stats_send i t p = upd_epaddr i (\<lambda>a.
     if t = OPCODE_TIDS_GRANT then a\<lparr>tids_grant_send := tids_grant_send a + 1\<rparr>
     else if t = OPCODE_ERR_CHK \<or> t = OPCODE_ERR_CHK_GEN then a\<lparr>err_chk_send := err_chk_send a + 1\<rparr>
     else if t = OPCODE_NAK then a\<lparr>nak_send := nak_send a + 1\<rparr>
     else if t = OPCODE_CONNECT_REQUEST then a\<lparr>connect_req := connect_req a + 1\<rparr>
     else if t = OPCODE_DISCONNECT_REQUEST then a\<lparr>disconnect_req := disconnect_req a + 1\<rparr> else a) p"

section \<open>Composing a message\<close>

definition desc_idx :: "u64 \<Rightarrow> u32" where "desc_idx a = ucast a"
definition desc_genc :: "u64 \<Rightarrow> u32" where "desc_genc a = ucast (drop_bit 32 a)"

text \<open>
  The part of \<^verbatim>\<open>_build_ctrl_message\<close> before the switch: the congestion bit moves from the flow to the message,
  and the adaptive policy goes to the next path for control messages.
\<close>

definition build_ctrl_base :: "nat \<Rightarrow> u8 \<Rightarrow> flowp \<Rightarrow> 'w ips_proto \<Rightarrow> ips_hdr \<times> 'w ips_proto" where
  "build_ctrl_base ipsaddr t fl p =
     (let p = (if proto_flags p AND IPS_PROTO_FLAG_PPOLICY_ADAPTIVE \<noteq> 0
               then upd_epaddr ipsaddr (\<lambda>a. a\<lparr>epr_hpp_index :=
                      (if epr_hpp_index a + 1 \<ge> epr_num_hpp a then 0 else epr_hpp_index a + 1)\<rparr>) p else p);
          becn = (flow_flags (flows p fl) AND IPS_FLOW_FLAG_GEN_BECN \<noteq> 0);
          p = (if becn then upd_flow fl (\<lambda>f. f\<lparr>flow_flags := flow_flags f AND NOT IPS_FLOW_FLAG_GEN_BECN\<rparr>) p else p)
      in (\<lparr>h_sub_opcode = t, h_psn = 0, h_becn = becn, h_flags = 0, h_flowid = ucast (flowid (flows p fl)), h_ack_seq_num = 0,
           h_hdr_dlen = 0, h_mqhdr = 0, h_data = (0, 0), h_payload = 0, h_paylen = 0\<rparr>, p))"

text \<open>The receive descriptor a TID flow message is about; a stale generation discards the message.\<close>

definition tidflow_recv :: "'w ips_env \<Rightarrow> (u64 \<times> u64 \<times> u64) option \<Rightarrow> ((u64 \<times> u64) \<times> bool \<times> u24) run" where
  "tidflow_recv e args = (case args of None \<Rightarrow> Inl Undefined_Access | Some (a0, a1, a2) \<Rightarrow>
     (case tid_recv_desc e (desc_idx a1) of None \<Rightarrow> Inl Undefined_Access
      | Some (genc, genseq) \<Rightarrow> Inr ((a0, a2), genc \<noteq> desc_genc a1, genseq)))"

definition build_ctrl_body ::
  "'w ips_env \<Rightarrow> u8 \<Rightarrow> flowp \<Rightarrow> (u64 \<times> u64 \<times> u64) option \<Rightarrow> bool \<Rightarrow> ips_hdr \<Rightarrow> 'w ips_proto \<Rightarrow> (ips_hdr \<times> bool) run" where
  "build_ctrl_body e t fl args discard h p =
     (let f = flows p fl in
      if t = OPCODE_ACK then
        (if protocol f \<noteq> PSM_PROTOCOL_TIDFLOW then Inr (h\<lparr>h_ack_seq_num := recv_seq_num f\<rparr>, discard)
         else run_bind (tidflow_recv e args) (\<lambda>((a0, _), stale, genseq).
           if stale then Inr (h, True) else Inr (h\<lparr>h_data := (a0, 0), h_ack_seq_num := genseq\<rparr>, discard)))
      else if t = OPCODE_NAK then
        (if protocol f \<noteq> PSM_PROTOCOL_TIDFLOW then Inr (h\<lparr>h_ack_seq_num := recv_seq_num f\<rparr>, discard)
         else run_bind (tidflow_recv e args) (\<lambda>((a0, a2), stale, genseq).
           if stale then Inr (h, True)
           else Inr (h\<lparr>h_data := (a0, ucast genseq), h_ack_seq_num := sn_set_gen (ucast a2) genseq\<rparr>, discard)))
      else if t = OPCODE_ERR_CHK then
        Inr (h\<lparr>h_psn := (case scb_pend f of None \<Rightarrow> ucast (xmit_seq_num f) - 1 | Some s \<Rightarrow> ucast (seq_num (scbs p s) - 1))\<rparr>, discard)
      else if t = OPCODE_ERR_CHK_GEN then
        (case scb_unacked f of [] \<Rightarrow> Inr (h, True)
         | s # _ \<Rightarrow>
             if tidsendc (scbs p s) = 0 then Inl Assert_Abort
             else let n = (case scb_pend f of None \<Rightarrow> xmit_seq_num f | Some s' \<Rightarrow> seq_num (scbs p s'))
               in Inr (h\<lparr>h_psn := ucast (sn_set_seq (sn_seq n - 1) n), h_data := tid_send_ids e (tidsendc (scbs p s))\<rparr>, discard))
      else if t = OPCODE_FLOW_CCA_BECN then Inr (h\<lparr>h_becn := True, h_data := (ucast (cca_ooo_pkts f), 0)\<rparr>, discard)
      else if t = OPCODE_STARTUP \<or> t = OPCODE_STARTUP_ACK \<or> t = OPCODE_STARTUP_EXT \<or> t = OPCODE_STARTUP_ACK_EXT then
        Inl (Error_Exit PSM_INTERNAL_ERR)
      else if t = OPCODE_CONNECT_REQUEST \<or> t = OPCODE_CONNECT_REPLY then
        Inr (h\<lparr>h_psn := ucast (xmit_seq_num f), h_paylen := connect_paylen e t\<rparr>, discard)
      else if t = OPCODE_DISCONNECT_REQUEST \<or> t = OPCODE_DISCONNECT_REPLY \<or> t = OPCODE_TIDS_RELEASE \<or>
              t = OPCODE_TIDS_RELEASE_CONFIRM \<or> t = OPCODE_TIDS_GRANT_ACK \<or> t = OPCODE_TIDS_GRANT then
        Inr (h\<lparr>h_paylen := connect_paylen e t\<rparr>, discard)
      else Inr (h, discard))"

definition build_ctrl_message ::
  "'w ips_env \<Rightarrow> nat \<Rightarrow> u8 \<Rightarrow> flowp \<Rightarrow> (u64 \<times> u64 \<times> u64) option \<Rightarrow> bool \<Rightarrow> 'w ips_proto \<Rightarrow>
   (ips_hdr \<times> bool \<times> 'w ips_proto) run" where
  "build_ctrl_message e ipsaddr t fl args discard p =
     (let (h, p) = build_ctrl_base ipsaddr t fl p
      in run_bind (build_ctrl_body e t fl args discard h p) (\<lambda>(h, discard). Inr (h, discard, p)))"

section \<open>Sending and queueing\<close>

definition ips_dma_transfer_frame ::
  "'w ips_env \<Rightarrow> flowp \<Rightarrow> ips_hdr \<Rightarrow> 'w ips_proto \<Rightarrow> psm_error \<times> 'w ips_proto" where
  "ips_dma_transfer_frame e fl h p =
     (let err = dma_result e (ext p)
      in (err, p\<lparr>ext := Suc (ext p), wire := wire p @ (if err = PSM_OK then [(fl, h)] else []),
               iovec_cntr_next_inflight := iovec_cntr_next_inflight p + (if err = PSM_OK then 1 else 0)\<rparr>))"

text \<open>Error checks follow the transfer of the flow, other messages the setting of the protocol.\<close>

definition ctrl_transfer :: "'w ips_env \<Rightarrow> u8 \<Rightarrow> flowp \<Rightarrow> ips_hdr \<Rightarrow> 'w ips_proto \<Rightarrow> psm_error \<times> 'w ips_proto" where
  "ctrl_transfer e t fl h p =
     (if t = OPCODE_ERR_CHK \<or> t = OPCODE_ERR_CHK_GEN \<or> t = OPCODE_ERR_CHK_BAD
      then (if transfer (flows p fl) = PSM_TRANSFER_DMA then ips_dma_transfer_frame e fl h p
            else ips_spio_transfer_frame e fl h p)
      else if proto_flags p AND IPS_PROTO_FLAG_CTRL_SDMA \<noteq> 0 then ips_dma_transfer_frame e fl h p
      else ips_spio_transfer_frame e fl h p)"

definition ctrl_busy :: "'w ips_proto \<Rightarrow> 'w ips_proto" where
  "ctrl_busy p = (if proto_flags p AND IPS_PROTO_FLAG_CTRL_SDMA \<noteq> 0 then p\<lparr>writev_busy_cnt := writev_busy_cnt p + 1\<rparr>
                  else p\<lparr>pio_busy_cnt := pio_busy_cnt p + 1\<rparr>)"

text \<open>Compose and transfer: a discarded message counts as sent.\<close>

definition ctrl_send ::
  "'w ips_env \<Rightarrow> nat \<Rightarrow> u8 \<Rightarrow> flowp \<Rightarrow> (u64 \<times> u64 \<times> u64) option \<Rightarrow> bool \<Rightarrow> 'w ips_proto \<Rightarrow>
   (psm_error \<times> bool \<times> 'w ips_proto) run" where
  "ctrl_send e ipsaddr t fl args discard p =
     run_bind (build_ctrl_message e ipsaddr t fl args discard p) (\<lambda>(h, discard, p).
       if discard then Inr (PSM_OK, True, p)
       else let (err, p) = ctrl_transfer e t fl h p in Inr (err, False, p))"

abbreviation cqe_at :: "nat \<Rightarrow> 'w ips_proto \<Rightarrow> nat \<Rightarrow> ips_ctrlq_elem" where
  "cqe_at qi p i \<equiv> ctrlq_cqe (ctrlqs p qi) i"

text \<open>The element at the tail was sent.\<close>

definition ctrlq_pop :: "nat \<Rightarrow> 'w ips_proto \<Rightarrow> 'w ips_proto" where
  "ctrlq_pop qi p =
     (let q = ctrlqs p qi; c = ctrlq_cqe q (ctrlq_tail q);
          p = p\<lparr>masks := (masks p)(cqe_mask c := masks p (cqe_mask c) AND NOT (message_type2index (cqe_message_type c)))\<rparr>
      in upd_ctrlq qi (\<lambda>q. q\<lparr>ctrlq_cqe := (ctrlq_cqe q)(ctrlq_tail q := c\<lparr>cqe_ipsaddr := None\<rparr>),
                              ctrlq_tail := (ctrlq_tail q + 1) mod CTRL_MSG_QEUEUE_SIZE\<rparr>) p)"

definition ctrlq_refused :: "nat \<Rightarrow> 'w ips_proto \<Rightarrow> 'w ips_proto" where
  "ctrlq_refused qi p = upd_ctrlq qi (\<lambda>q. q\<lparr>ctrlq_timer := timer_request 0 (ctrlq_timer q)\<rparr>) (ctrl_busy p)"

definition ctrlq_live :: "ips_ctrlq \<Rightarrow> nat set" where
  "ctrlq_live q = {i. i < CTRL_MSG_QEUEUE_SIZE \<and> cqe_ipsaddr (ctrlq_cqe q i) \<noteq> None}"

text \<open>
  What composing and sending messages leaves alone: in a flow only the congestion notice changes, in an endpoint address
  the next path and the counters.
\<close>

definition becn_view :: "ips_flow \<Rightarrow> ips_flow" where
  "becn_view f = f\<lparr>flow_flags := flow_flags f AND NOT IPS_FLOW_FLAG_GEN_BECN\<rparr>"

definition ep_view :: "ips_epaddr \<Rightarrow> ips_epaddr" where
  "ep_view a = a\<lparr>epr_hpp_index := 0, epr_num_hpp := 0, err_chk_send := 0, err_chk_recv := 0, nak_send := 0, nak_recv := 0, connect_req := 0,
     disconnect_req := 0, tids_grant_send := 0, send_rexmit := 0, congestion_pkts := 0\<rparr>"

lemma ep_view_upd [simp]:
  "ep_view (a\<lparr>epr_hpp_index := i\<rparr>) = ep_view a" "ep_view (a\<lparr>err_chk_send := n\<rparr>) = ep_view a" "ep_view (a\<lparr>err_chk_recv := n\<rparr>) = ep_view a"
  "ep_view (a\<lparr>nak_send := n\<rparr>) = ep_view a" "ep_view (a\<lparr>nak_recv := n\<rparr>) = ep_view a" "ep_view (a\<lparr>connect_req := n\<rparr>) = ep_view a"
  "ep_view (a\<lparr>disconnect_req := n\<rparr>) = ep_view a" "ep_view (a\<lparr>tids_grant_send := n\<rparr>) = ep_view a" "ep_view (a\<lparr>send_rexmit := n\<rparr>) = ep_view a"
  "ep_view (a\<lparr>congestion_pkts := n\<rparr>) = ep_view a" "ep_flags (ep_view a) = ep_flags a"
  by (simp_all add: ep_view_def)

definition ctrl_view :: "'w ips_proto \<Rightarrow> 'w ips_proto" where
  "ctrl_view p = p\<lparr>flows := (\<lambda>g. becn_view (flows p g)), ipsaddrs := (\<lambda>i. ep_view (ipsaddrs p i)), ext := 0, wire := [],
     iovec_cntr_next_inflight := 0, pio_busy_cnt := 0, writev_busy_cnt := 0\<rparr>"

definition msg_view :: "'w ips_proto \<Rightarrow> 'w ips_proto" where
  "msg_view p = (ctrl_view p)\<lparr>ctrlqs := (\<lambda>_. undefined), masks := (\<lambda>_. 0), ctrl_msg_queue_overflow := 0\<rparr>"

lemma becn_view_idem [simp]: "becn_view (f\<lparr>flow_flags := flow_flags f AND NOT IPS_FLOW_FLAG_GEN_BECN\<rparr>) = becn_view f"
  by (simp add: becn_view_def and.assoc)

lemma becn_view_simps [simp]:
  "recv_seq_num (becn_view f) = recv_seq_num f" "protocol (becn_view f) = protocol f" "transfer (becn_view f) = transfer f"
  "flowid (becn_view f) = flowid f" "flow_ipsaddr (becn_view f) = flow_ipsaddr f" "scb_unacked (becn_view f) = scb_unacked f"
  "scb_pend (becn_view f) = scb_pend f" "xmit_seq_num (becn_view f) = xmit_seq_num f" "scb_num_unacked (becn_view f) = scb_num_unacked f"
  "scb_num_pending (becn_view f) = scb_num_pending f" "credits (becn_view f) = credits f" "cwin (becn_view f) = cwin f"
  "last_seq_num (becn_view f) = last_seq_num f" "flow_path (becn_view f) = flow_path f"
  by (simp_all add: becn_view_def)

lemma build_base_view: "build_ctrl_base i t fl p = (h, p') \<Longrightarrow> ctrl_view p' = ctrl_view p \<and> wire p' = wire p"
  by (auto simp: build_ctrl_base_def Let_def ctrl_view_def upd_flow_def upd_epaddr_def intro!: ips_proto.equality)

lemma build_view:
  assumes "build_ctrl_message e i t fl args d p = Inr (h, d', p')"
  shows "ctrl_view p' = ctrl_view p \<and> wire p' = wire p"
  using assms build_base_view [of i t fl p] by (auto simp: build_ctrl_message_def run_bind_Inr_iff split: prod.splits)

lemma transfer_view:
  assumes "ctrl_transfer e t fl h p = (err, p')"
  shows "ctrl_view p' = ctrl_view p \<and> wire p' = wire p @ (if err = PSM_OK then [(fl, h)] else []) \<and> flows p' = flows p"
  using assms by (auto simp: ctrl_transfer_def ips_dma_transfer_frame_def ips_spio_transfer_frame_def Let_def ctrl_view_def split: if_splits)

lemma ctrl_send_view:
  assumes "ctrl_send e i t fl args d p = Inr (err, d', p')"
  shows "ctrl_view p' = ctrl_view p"
  using assms
  by (auto simp: ctrl_send_def run_bind_Inr_iff dest!: build_view transfer_view split: if_splits prod.splits)

lemma ctrl_viewD:
  assumes "ctrl_view p' = ctrl_view p"
  shows "ctrlqs p' = ctrlqs p" "masks p' = masks p" "msg_view p' = msg_view p"
proof -
  have a: "h (ctrl_view p') = h (ctrl_view p)" for h :: "'a ips_proto \<Rightarrow> 'c" using assms by simp
  show "ctrlqs p' = ctrlqs p" "masks p' = masks p" "msg_view p' = msg_view p"
    using a [of ctrlqs] a [of masks] assms by (simp_all add: ctrl_view_def msg_view_def)
qed

lemma msg_viewD:
  assumes "msg_view p' = msg_view p"
  shows "scbs p' = scbs p" "pending_acks p' = pending_acks p" "app p' = app p" "becn_view (flows p' g) = becn_view (flows p g)"
    "paths p' = paths p" "proto_flags p' = proto_flags p" "scb_max_inflight p' = scb_max_inflight p" "flow_credits p' = flow_credits p"
    "scb_held p' = scb_held p" "scb_inv p' = scb_inv p" "timeout_send p' = timeout_send p" "scb_num p' = scb_num p"
    "ep_flags (ipsaddrs p' i) = ep_flags (ipsaddrs p i)"
proof -
  have a: "h (msg_view p') = h (msg_view p)" for h :: "'a ips_proto \<Rightarrow> 'c" using assms by simp
  have "ep_view (ipsaddrs p' i) = ep_view (ipsaddrs p i)" using a [of "\<lambda>p. ipsaddrs p i"] by (simp add: ctrl_view_def msg_view_def)
  then show "ep_flags (ipsaddrs p' i) = ep_flags (ipsaddrs p i)" by (metis ep_view_upd(11))
  show "pending_acks p' = pending_acks p" "app p' = app p" "becn_view (flows p' g) = becn_view (flows p g)" "paths p' = paths p"
    "proto_flags p' = proto_flags p" "scb_max_inflight p' = scb_max_inflight p" "flow_credits p' = flow_credits p" "timeout_send p' = timeout_send p"
    using a [of pending_acks] a [of app] a [of "\<lambda>p. flows p g"] a [of paths] a [of proto_flags] a [of scb_max_inflight]
      a [of flow_credits] a [of timeout_send] by (simp_all add: ctrl_view_def msg_view_def)
  have e: "scb_num p' = scb_num p" "scb_num_cur p' = scb_num_cur p" "scb_free p' = scb_free p" "scb_base p' = scb_base p"
    "sbuf_num p' = sbuf_num p" "sbuf_num_cur p' = sbuf_num_cur p" "sbuf_free p' = sbuf_free p" "sbuf_buf_size p' = sbuf_buf_size p"
    "sbuf_buf_base p' = sbuf_buf_base p" "sbuf_buf_last p' = sbuf_buf_last p" "scbs p' = scbs p"
    using a [of scb_num] a [of scb_num_cur] a [of scb_free] a [of scb_base] a [of sbuf_num] a [of sbuf_num_cur] a [of sbuf_free]
      a [of sbuf_buf_size] a [of sbuf_buf_base] a [of sbuf_buf_last] a [of scbs] by (simp_all add: ctrl_view_def msg_view_def)
  show "scbs p' = scbs p" "scb_num p' = scb_num p" by (rule e)+
  show h: "scb_held p' = scb_held p" by (simp add: scb_held_def scb_set_def e)
  show "scb_inv p' = scb_inv p" unfolding scb_inv_def scb_geom_def h
    by (simp add: bounced_def scb_set_def sbuf_set_def in_sbufs_def e)
qed

lemma msg_view_epaddr [simp]:
  assumes "\<And>a. ep_view (g a) = ep_view a"
  shows "msg_view (upd_epaddr i g p) = msg_view p"
  by (rule ips_proto.equality) (auto simp: msg_view_def ctrl_view_def upd_epaddr_def assms)

lemma msg_view_stats [simp]: "msg_view (ips_epaddr_stats_send i t p) = msg_view p"
  unfolding ips_epaddr_stats_send_def by (rule msg_view_epaddr) simp

lemma msg_view_upd [simp]:
  "msg_view (ctrl_busy p) = msg_view p"
  "msg_view (upd_ctrlq qi g p) = msg_view p" "msg_view (p\<lparr>masks := m\<rparr>) = msg_view p"
  "msg_view (p\<lparr>ctrl_msg_queue_overflow := n\<rparr>) = msg_view p" "msg_view (ctrlq_pop qi p) = msg_view p"
  by (simp_all add: msg_view_def ctrl_view_def ctrl_busy_def upd_ctrlq_def ctrlq_pop_def Let_def)

lemma live_pop:
  assumes "ctrlq_tail (ctrlqs p qi) < CTRL_MSG_QEUEUE_SIZE" "cqe_ipsaddr (cqe_at qi p (ctrlq_tail (ctrlqs p qi))) = Some i"
  shows "ctrlq_live (ctrlqs (ctrlq_pop qi p) qi) \<subset> ctrlq_live (ctrlqs p qi)" "finite (ctrlq_live (ctrlqs p qi))"
proof -
  have "ctrlq_tail (ctrlqs p qi) \<in> ctrlq_live (ctrlqs p qi)" using assms by (simp add: ctrlq_live_def)
  moreover have "ctrlq_live (ctrlqs (ctrlq_pop qi p) qi) = ctrlq_live (ctrlqs p qi) - {ctrlq_tail (ctrlqs p qi)}"
    by (auto simp: ctrlq_live_def ctrlq_pop_def upd_ctrlq_def Let_def split: if_splits)
  ultimately show "ctrlq_live (ctrlqs (ctrlq_pop qi p) qi) \<subset> ctrlq_live (ctrlqs p qi)" by blast
  show "finite (ctrlq_live (ctrlqs p qi))" by (simp add: ctrlq_live_def)
qed

lemma stats_ctrlqs [simp]: "ctrlqs (ips_epaddr_stats_send i t p) = ctrlqs p"
  by (simp add: ips_epaddr_stats_send_def upd_epaddr_def)

function ctrlq_drain :: "'w ips_env \<Rightarrow> nat \<Rightarrow> bool \<Rightarrow> 'w ips_proto \<Rightarrow> 'w ips_proto run" where
  "ctrlq_drain e qi discard p =
     (let q = ctrlqs p qi; c = ctrlq_cqe q (ctrlq_tail q)
      in if ctrlq_tail q \<ge> CTRL_MSG_QEUEUE_SIZE then Inl Undefined_Access
         else if cqe_ipsaddr c = None then Inr p
         else run_bind (ctrl_send e (the (cqe_ipsaddr c)) (cqe_message_type c) (cqe_flow c) (Some (cqe_args c)) discard p)
           (\<lambda>(err, discard, p).
              if err = PSM_OK
              then ctrlq_drain e qi discard (ctrlq_pop qi (ips_epaddr_stats_send (the (cqe_ipsaddr c)) (cqe_message_type c) p))
              else Inr (ctrlq_refused qi p)))"
  by pat_completeness auto
termination
proof (relation "measure (\<lambda>(e, qi, d, p). card (ctrlq_live (ctrlqs p qi)))", simp, goal_cases)
  case (1 e qi discard p q c a err x1 d p')
  then have "ctrlqs p' = ctrlqs p" by (auto dest!: ctrl_send_view ctrl_viewD(1))
  then have "ctrlq_live (ctrlqs (ctrlq_pop qi (ips_epaddr_stats_send (the (cqe_ipsaddr c)) (cqe_message_type c) p')) qi)
      \<subset> ctrlq_live (ctrlqs p qi) \<and> finite (ctrlq_live (ctrlqs p qi))"
    using 1 live_pop [of "ips_epaddr_stats_send (the (cqe_ipsaddr c)) (cqe_message_type c) p'" qi] by auto
  then show ?case by (simp add: psubset_card_mono)
qed

declare ctrlq_drain.simps [simp del]

text \<open>\<^verbatim>\<open>ips_proto_timer_ctrlq_callback\<close>, called by the drain of a full queue and by its timer.\<close>

definition ips_proto_timer_ctrlq_callback :: "'w ips_env \<Rightarrow> nat \<Rightarrow> 'w ips_proto \<Rightarrow> 'w ips_proto run" where
  "ips_proto_timer_ctrlq_callback e qi p = ctrlq_drain e qi False p"

definition ctrlq_push :: "nat \<Rightarrow> nat \<Rightarrow> u8 \<Rightarrow> maskp \<Rightarrow> flowp \<Rightarrow> (u64 \<times> u64 \<times> u64) option \<Rightarrow> 'w ips_proto \<Rightarrow> 'w ips_proto" where
  "ctrlq_push qi ipsaddr t m fl args p =
     (let p = p\<lparr>masks := (masks p)(m := masks p m OR message_type2index t)\<rparr>
      in upd_ctrlq qi (\<lambda>q. q\<lparr>ctrlq_cqe := (ctrlq_cqe q)(ctrlq_head q := \<lparr>cqe_ipsaddr = Some ipsaddr, cqe_message_type = t,
             cqe_mask = m, cqe_flow = fl, cqe_args = (case args of Some a \<Rightarrow> a | None \<Rightarrow> cqe_args (ctrlq_cqe q (ctrlq_head q)))\<rparr>),
           ctrlq_head := (ctrlq_head q + 1) mod CTRL_MSG_QEUEUE_SIZE,
           ctrlq_timer := timer_request 0 (ctrlq_timer q)\<rparr>) p)"

text \<open>The last part of \<^verbatim>\<open>ips_proto_send_ctrl_message\<close>: the device had no room.\<close>

definition ctrl_enqueue ::
  "nat \<Rightarrow> nat \<Rightarrow> u8 \<Rightarrow> maskp \<Rightarrow> flowp \<Rightarrow> (u64 \<times> u64 \<times> u64) option \<Rightarrow> 'w ips_proto \<Rightarrow> psm_error \<times> 'w ips_proto" where
  "ctrl_enqueue qi ipsaddr t m fl args p =
     (let p = ctrl_busy p
      in if ctrl_msg_queue_never_enqueue AND message_type_to_index t \<noteq> 0 then (PSM_EP_NO_RESOURCES, p)
         else if masks p m AND message_type_to_index t \<noteq> 0 then (PSM_OK, p)
         else if cqe_ipsaddr (cqe_at qi p (ctrlq_head (ctrlqs p qi))) = None
              then (PSM_OK, ctrlq_push qi ipsaddr t m fl args p)
         else (PSM_EP_NO_RESOURCES, p\<lparr>ctrl_msg_queue_overflow := ctrl_msg_queue_overflow p + 1\<rparr>))"

definition ips_proto_send_ctrl_message ::
  "'w ips_env \<Rightarrow> flowp \<Rightarrow> u8 \<Rightarrow> maskp \<Rightarrow> (u64 \<times> u64 \<times> u64) option \<Rightarrow> 'w ips_proto \<Rightarrow> (psm_error \<times> 'w ips_proto) run" where
  "ips_proto_send_ctrl_message e fl t m args p =
     (let ipsaddr = flow_ipsaddr (flows p fl); qi = unat (flowid (flows p fl) AND 0xF)
      in if qi \<ge> 4 \<or> ctrlq_tail (ctrlqs p qi) \<ge> CTRL_MSG_QEUEUE_SIZE \<or> ctrlq_head (ctrlqs p qi) \<ge> CTRL_MSG_QEUEUE_SIZE
         then Inl Undefined_Access
         else run_bind (if cqe_ipsaddr (cqe_at qi p (ctrlq_tail (ctrlqs p qi))) \<noteq> None
                        then ips_proto_timer_ctrlq_callback e qi p else Inr p) (\<lambda>p.
           run_bind (if cqe_ipsaddr (cqe_at qi p (ctrlq_tail (ctrlqs p qi))) = None
                     then run_bind (ctrl_send e ipsaddr t fl args False p) (\<lambda>(err, discard, p).
                            Inr (err, if err = PSM_OK \<and> \<not> discard then ips_epaddr_stats_send ipsaddr t p else p))
                     else Inr (PSM_EP_NO_RESOURCES, p)) (\<lambda>(err, p).
             if err \<noteq> PSM_EP_NO_RESOURCES then Inr (err, p)
             else Inr (ctrl_enqueue qi ipsaddr t m fl args p))))"

text \<open>The timer for acknowledgements, taken off the timer queue by the sweep that runs its callback.\<close>

definition ips_proto_timer_ack_callback :: "'w ips_env \<Rightarrow> flowp \<Rightarrow> u64 \<Rightarrow> 'w ips_proto \<Rightarrow> 'w ips_proto run" where
  "ips_proto_timer_ack_callback e fl current p =
     (let p = upd_flow fl (\<lambda>f. f\<lparr>timer_ack := None\<rparr>) p;
          (t_cyc_next, p) = get_cycles e p
      in case scb_unacked (flows p fl) of
           [] \<Rightarrow> Inr p
         | s # _ \<Rightarrow>
             if current \<ge> abs_timeout (scbs p s)
             then let r = path_of fl p;
                      timeout = min (ack_timeout (scbs p s) * ucast (epr_timeout_ack_factor r)) (epr_timeout_ack_max r);
                      p = upd_scb s (\<lambda>x. x\<lparr>ack_timeout := timeout, abs_timeout := t_cyc_next + timeout\<rparr>) p
               in run_bind (if protocol (flows p fl) = PSM_PROTOCOL_TIDFLOW
                            then ips_proto_send_ctrl_message e fl OPCODE_ERR_CHK_GEN (Tidsend_mask (tidsendc (scbs p s))) None p
                            else ips_proto_send_ctrl_message e fl OPCODE_ERR_CHK (Ep_mask (flow_ipsaddr (flows p fl))) None p)
                 (\<lambda>(_, p). let (t, p) = get_cycles e p
                    in Inr (upd_flow fl (\<lambda>f. f\<lparr>timer_ack := timer_request (t + ack_timeout (scbs p s)) (timer_ack f)\<rparr>) p))
             else Inr (upd_flow fl (\<lambda>f. f\<lparr>timer_ack :=
                    timer_request (t_cyc_next + (abs_timeout (scbs p s) - current)) (timer_ack f)\<rparr>) p))"

section \<open>Messages of go-back-N flows\<close>

definition gbn_type :: "u8 \<Rightarrow> bool" where
  "gbn_type t \<longleftrightarrow> t = OPCODE_ACK \<or> t = OPCODE_NAK \<or> t = OPCODE_ERR_CHK \<or> t = OPCODE_FLOW_CCA_BECN"

definition gbn_msg :: "'w ips_proto \<Rightarrow> u8 \<Rightarrow> flowp \<Rightarrow> bool" where
  "gbn_msg p t fl \<longleftrightarrow> protocol (flows p fl) \<noteq> PSM_PROTOCOL_TIDFLOW \<and> gbn_type t"

text \<open>The content a message must have when it is sent in the state \<open>p\<close>.\<close>

definition genuine :: "'w ips_proto \<Rightarrow> u8 \<Rightarrow> flowp \<Rightarrow> ips_hdr \<Rightarrow> bool" where
  "genuine p t fl h \<longleftrightarrow> h_sub_opcode h = t \<and> h_flowid h = ucast (flowid (flows p fl)) \<and>
     (t = OPCODE_ACK \<or> t = OPCODE_NAK \<longrightarrow> h_ack_seq_num h = recv_seq_num (flows p fl)) \<and>
     (t = OPCODE_ERR_CHK \<longrightarrow> h_psn h = (case scb_pend (flows p fl) of None \<Rightarrow> ucast (xmit_seq_num (flows p fl)) - 1
                                        | Some s \<Rightarrow> ucast (seq_num (scbs p s) - 1)))"

lemma msg_view_flow:
  assumes "msg_view p' = msg_view p"
  shows "recv_seq_num (flows p' g) = recv_seq_num (flows p g)" "protocol (flows p' g) = protocol (flows p g)"
    "flowid (flows p' g) = flowid (flows p g)" "flow_ipsaddr (flows p' g) = flow_ipsaddr (flows p g)"
    "scb_pend (flows p' g) = scb_pend (flows p g)" "xmit_seq_num (flows p' g) = xmit_seq_num (flows p g)"
  using msg_viewD(4) [OF assms, of g] by (metis becn_view_simps)+

lemma gbn_msg_view:
  assumes "msg_view p' = msg_view p"
  shows "gbn_msg p' t fl = gbn_msg p t fl"
  by (simp add: gbn_msg_def msg_view_flow [OF assms])

lemma genuine_view:
  assumes "msg_view p' = msg_view p"
  shows "genuine p' t fl h = genuine p t fl h"
  by (simp add: genuine_def msg_view_flow [OF assms] msg_viewD(1) [OF assms] split: option.splits)

lemma build_gbn:
  assumes "gbn_msg p t fl"
  shows "\<exists>h p'. build_ctrl_message e i t fl args d p = Inr (h, d, p') \<and> ctrl_view p' = ctrl_view p \<and> wire p' = wire p \<and> genuine p t fl h"
proof -
  obtain h0 p' where b: "build_ctrl_base i t fl p = (h0, p')" by fastforce
  have v: "ctrl_view p' = ctrl_view p \<and> wire p' = wire p" using b by (rule build_base_view)
  then have m: "msg_view p' = msg_view p" by (metis ctrl_viewD(3))
  have h0: "h_sub_opcode h0 = t" "h_flowid h0 = ucast (flowid (flows p' fl))" using b by (auto simp: build_ctrl_base_def Let_def)
  have "protocol (flows p' fl) \<noteq> PSM_PROTOCOL_TIDFLOW" "gbn_type t" using assms gbn_msg_view [OF m] by (auto simp: gbn_msg_def)
  then have "\<exists>h. build_ctrl_body e t fl args d h0 p' = Inr (h, d) \<and> genuine p' t fl h"
    using h0 unfolding gbn_type_def by (elim disjE) (simp_all add: build_ctrl_body_def genuine_def Let_def opcode_defs)
  then obtain h where "build_ctrl_body e t fl args d h0 p' = Inr (h, d)" "genuine p' t fl h" by blast
  then show ?thesis using b v genuine_view [OF m] by (auto simp: build_ctrl_message_def)
qed

lemma ctrl_send_gbn:
  assumes "gbn_msg p t fl"
  shows "\<exists>h err p'. ctrl_send e i t fl args False p = Inr (err, False, p') \<and> ctrl_view p' = ctrl_view p \<and>
    wire p' = wire p @ (if err = PSM_OK then [(fl, h)] else []) \<and> genuine p t fl h"
proof -
  obtain h p1 where b: "build_ctrl_message e i t fl args False p = Inr (h, False, p1)" "ctrl_view p1 = ctrl_view p" "wire p1 = wire p"
    "genuine p t fl h" using build_gbn [OF assms, of e i args False] by blast
  obtain err p' where t: "ctrl_transfer e t fl h p1 = (err, p')" by fastforce
  show ?thesis using b transfer_view [OF t] t by (intro exI [of _ h] exI [of _ err] exI [of _ p']) (simp add: ctrl_send_def)
qed

section \<open>The ring as a queue\<close>

definition ctrlq_rep :: "ips_ctrlq \<Rightarrow> ips_ctrlq_elem list \<Rightarrow> bool" where
  "ctrlq_rep q es \<longleftrightarrow> ctrlq_tail q < CTRL_MSG_QEUEUE_SIZE \<and> length es \<le> CTRL_MSG_QEUEUE_SIZE \<and>
     ctrlq_head q = (ctrlq_tail q + length es) mod CTRL_MSG_QEUEUE_SIZE \<and>
     (\<forall>i < length es. ctrlq_cqe q ((ctrlq_tail q + i) mod CTRL_MSG_QEUEUE_SIZE) = es ! i \<and> cqe_ipsaddr (es ! i) \<noteq> None) \<and>
     (\<forall>i < CTRL_MSG_QEUEUE_SIZE. length es \<le> i \<longrightarrow>
        cqe_ipsaddr (ctrlq_cqe q ((ctrlq_tail q + i) mod CTRL_MSG_QEUEUE_SIZE)) = None)"

lemma ctrlq_init_rep: "ctrlq_rep (ctrlqs (ctrlq_init qi p) qi) []"
  by (simp add: ctrlq_init_def ctrlq_rep_def CTRL_MSG_QEUEUE_SIZE_def)

lemma ctrlq_rep_bounds: "ctrlq_rep q es \<Longrightarrow> ctrlq_tail q < CTRL_MSG_QEUEUE_SIZE \<and> ctrlq_head q < CTRL_MSG_QEUEUE_SIZE"
  by (auto simp: ctrlq_rep_def CTRL_MSG_QEUEUE_SIZE_def)

lemma ctrlq_rep_tail:
  assumes "ctrlq_rep q es"
  shows "es = [] \<Longrightarrow> cqe_ipsaddr (ctrlq_cqe q (ctrlq_tail q)) = None"
    "es = c # cs \<Longrightarrow> ctrlq_cqe q (ctrlq_tail q) = c \<and> cqe_ipsaddr c \<noteq> None"
proof -
  have t: "ctrlq_tail q mod CTRL_MSG_QEUEUE_SIZE = ctrlq_tail q" using assms by (simp add: ctrlq_rep_def)
  show "es = [] \<Longrightarrow> cqe_ipsaddr (ctrlq_cqe q (ctrlq_tail q)) = None"
  proof -
    assume "es = []"
    then have "\<forall>i < CTRL_MSG_QEUEUE_SIZE. cqe_ipsaddr (ctrlq_cqe q ((ctrlq_tail q + i) mod CTRL_MSG_QEUEUE_SIZE)) = None"
      using assms by (simp add: ctrlq_rep_def)
    moreover have "0 < CTRL_MSG_QEUEUE_SIZE" by (simp add: CTRL_MSG_QEUEUE_SIZE_def)
    ultimately show ?thesis using t by (metis add_0_right)
  qed
  show "es = c # cs \<Longrightarrow> ctrlq_cqe q (ctrlq_tail q) = c \<and> cqe_ipsaddr c \<noteq> None"
  proof -
    assume "es = c # cs"
    then have "ctrlq_cqe q ((ctrlq_tail q + 0) mod CTRL_MSG_QEUEUE_SIZE) = c \<and> cqe_ipsaddr c \<noteq> None"
      using assms by (fastforce simp: ctrlq_rep_def)
    then show ?thesis using t by simp
  qed
qed

lemma ring_inj:
  assumes "(t + i) mod n = (t + j) mod n" "i < n" "j < (n :: nat)"
  shows "i = j"
proof -
  have "n dvd j - i" "n dvd i - j" using assms(1)
    by (metis add_diff_cancel_left dvd_imp_mod_0 le_add_diff_inverse mod_eq_dvd_iff_nat nat_le_linear add_le_cancel_left diff_is_0_eq dvd_0_right)+
  then show ?thesis using assms(2,3) by (metis diff_is_0_eq le_antisym less_imp_diff_less nat_dvd_not_less neq0_conv)
qed

lemma ctrlq_rep_head:
  assumes "ctrlq_rep q es"
  shows "cqe_ipsaddr (ctrlq_cqe q (ctrlq_head q)) = None \<longleftrightarrow> length es < CTRL_MSG_QEUEUE_SIZE"
proof (cases "length es < CTRL_MSG_QEUEUE_SIZE")
  case True
  then show ?thesis using assms unfolding ctrlq_rep_def by (metis order_refl)
next
  case False
  then have l: "length es = CTRL_MSG_QEUEUE_SIZE" "es \<noteq> []" using assms by (auto simp: ctrlq_rep_def CTRL_MSG_QEUEUE_SIZE_def)
  then have "ctrlq_head q = ctrlq_tail q" using assms by (simp add: ctrlq_rep_def)
  then show ?thesis using False l(2) ctrlq_rep_tail(2) [OF assms] by (cases es) auto
qed

lemma ctrlq_rep_push:
  assumes rep: "ctrlq_rep q es" and len: "length es < CTRL_MSG_QEUEUE_SIZE" and c: "cqe_ipsaddr c \<noteq> None"
  shows "ctrlq_rep (q\<lparr>ctrlq_cqe := (ctrlq_cqe q)(ctrlq_head q := c), ctrlq_head := (ctrlq_head q + 1) mod CTRL_MSG_QEUEUE_SIZE,
      ctrlq_timer := t\<rparr>) (es @ [c])"
proof -
  let ?n = "CTRL_MSG_QEUEUE_SIZE"
  have h: "ctrlq_head q = (ctrlq_tail q + length es) mod ?n" using rep by (simp add: ctrlq_rep_def)
  have ne: "(ctrlq_tail q + i) mod ?n \<noteq> ctrlq_head q" if "i < ?n" "i \<noteq> length es" for i
    using ring_inj [OF _ that(1) len] that(2) unfolding h by blast
  have "((ctrlq_tail q + length es) mod ?n + 1) mod ?n = (ctrlq_tail q + length (es @ [c])) mod ?n" by (simp add: mod_simps)
  then show ?thesis using rep len c ne h unfolding ctrlq_rep_def by (auto simp: nth_append less_Suc_eq)
qed

lemma ctrlq_rep_pop:
  assumes rep: "ctrlq_rep q (c # cs)"
  shows "ctrlq_rep (q\<lparr>ctrlq_cqe := (ctrlq_cqe q)(ctrlq_tail q := c\<lparr>cqe_ipsaddr := None\<rparr>),
      ctrlq_tail := (ctrlq_tail q + 1) mod CTRL_MSG_QEUEUE_SIZE\<rparr>) cs"
proof -
  let ?n = "CTRL_MSG_QEUEUE_SIZE" and ?t = "ctrlq_tail q"
  have n: "0 < ?n" "?t < ?n" "Suc (length cs) \<le> ?n" using rep by (auto simp: ctrlq_rep_def CTRL_MSG_QEUEUE_SIZE_def)
  have idx: "((?t + 1) mod ?n + i) mod ?n = (?t + Suc i) mod ?n" for i by (simp add: mod_simps)
  have ne: "(?t + Suc i) mod ?n \<noteq> ?t" if "Suc i < ?n" for i
    using ring_inj [of ?t "Suc i" ?n 0] that n by auto
  have last: "(?t + Suc i) mod ?n = ?t" if "Suc i = ?n" for i using that n by (metis mod_add_self2 mod_less)
  have old: "ctrlq_cqe q ((?t + Suc i) mod ?n) = cs ! i \<and> cqe_ipsaddr (cs ! i) \<noteq> None" if "i < length cs" for i
    using rep that unfolding ctrlq_rep_def by (metis Suc_less_eq length_Cons nth_Cons_Suc)
  have free: "cqe_ipsaddr (ctrlq_cqe q ((?t + Suc i) mod ?n)) = None" if "length cs \<le> i" "Suc i < ?n" for i
    using rep that unfolding ctrlq_rep_def by (metis Suc_le_mono length_Cons)
  let ?q = "q\<lparr>ctrlq_cqe := (ctrlq_cqe q)(?t := c\<lparr>cqe_ipsaddr := None\<rparr>), ctrlq_tail := (?t + 1) mod ?n\<rparr>"
  have "ctrlq_cqe ?q ((ctrlq_tail ?q + i) mod ?n) = cs ! i \<and> cqe_ipsaddr (cs ! i) \<noteq> None" if "i < length cs" for i
    using old [OF that] ne [of i] n that idx [of i] by simp
  moreover have "cqe_ipsaddr (ctrlq_cqe ?q ((ctrlq_tail ?q + i) mod ?n)) = None" if "length cs \<le> i" "i < ?n" for i
    using free [OF that(1)] last [of i] ne [of i] that(2) idx [of i] by (cases "Suc i = ?n") auto
  moreover have "ctrlq_head q = ((?t + 1) mod ?n + length cs) mod ?n" using rep by (simp add: ctrlq_rep_def mod_simps)
  ultimately show ?thesis using n unfolding ctrlq_rep_def by auto
qed

definition clear_mask :: "ips_ctrlq_elem \<Rightarrow> (maskp \<Rightarrow> u32) \<Rightarrow> maskp \<Rightarrow> u32" where
  "clear_mask c m = m(cqe_mask c := m (cqe_mask c) AND NOT (message_type2index (cqe_message_type c)))"

text \<open>A frame of the wire is the message of a queued element.\<close>

definition delivers :: "'w ips_proto \<Rightarrow> ips_ctrlq_elem \<Rightarrow> flowp \<times> ips_hdr \<Rightarrow> bool" where
  "delivers p c f \<longleftrightarrow> fst f = cqe_flow c \<and> genuine p (cqe_message_type c) (cqe_flow c) (snd f)"

lemma delivers_view:
  assumes "msg_view p' = msg_view p"
  shows "delivers p' = delivers p"
  by (simp add: delivers_def genuine_view [OF assms] fun_eq_iff)

definition queue_ok :: "'w ips_proto \<Rightarrow> ips_ctrlq_elem list \<Rightarrow> bool" where
  "queue_ok p es \<longleftrightarrow> (\<forall>c \<in> set es. gbn_msg p (cqe_message_type c) (cqe_flow c))"

lemma queue_ok_view:
  assumes "msg_view p' = msg_view p"
  shows "queue_ok p' es = queue_ok p es"
  by (simp add: queue_ok_def gbn_msg_view [OF assms])

lemma pop_ctrlqs:
  assumes "ctrlq_rep (ctrlqs p qi) (c # cs)"
  shows "ctrlq_rep (ctrlqs (ctrlq_pop qi p) qi) cs" "masks (ctrlq_pop qi p) = clear_mask c (masks p)" "wire (ctrlq_pop qi p) = wire p"
    "j \<noteq> qi \<Longrightarrow> ctrlqs (ctrlq_pop qi p) j = ctrlqs p j"
  using ctrlq_rep_pop [OF assms] ctrlq_rep_tail(2) [OF assms refl]
  by (simp_all add: ctrlq_pop_def upd_ctrlq_def clear_mask_def Let_def)

lemma refused_ctrlqs:
  "ctrlq_rep (ctrlqs p qi) es \<Longrightarrow> ctrlq_rep (ctrlqs (ctrlq_refused qi p) qi) es" "masks (ctrlq_refused qi p) = masks p"
  "wire (ctrlq_refused qi p) = wire p" "msg_view (ctrlq_refused qi p) = msg_view p" "j \<noteq> qi \<Longrightarrow> ctrlqs (ctrlq_refused qi p) j = ctrlqs p j"
  "ctrlq_timer (ctrlqs (ctrlq_refused qi p) qi) \<noteq> None"
  by (simp_all add: ctrlq_refused_def upd_ctrlq_def ctrl_busy_def ctrlq_rep_def timer_request_def msg_view_def ctrl_view_def split: option.splits)

lemma ctrl_stats_frame [simp]: "masks (ips_epaddr_stats_send i t p) = masks p" "wire (ips_epaddr_stats_send i t p) = wire p"
    "flows (ips_epaddr_stats_send i t p) = flows p"
  by (simp_all add: ips_epaddr_stats_send_def upd_epaddr_def)

lemma drain_gbn:
  assumes "ctrlq_rep (ctrlqs p qi) es" "queue_ok p es"
  shows "\<exists>k p' fs. ctrlq_drain e qi False p = Inr p' \<and> k \<le> length es \<and> ctrlq_rep (ctrlqs p' qi) (drop k es) \<and>
    msg_view p' = msg_view p \<and> (\<forall>j. j \<noteq> qi \<longrightarrow> ctrlqs p' j = ctrlqs p j) \<and> masks p' = fold clear_mask (take k es) (masks p) \<and>
    wire p' = wire p @ fs \<and> list_all2 (delivers p) (take k es) fs \<and> (k < length es \<longrightarrow> ctrlq_timer (ctrlqs p' qi) \<noteq> None)"
  using assms
proof (induction es arbitrary: p)
  case Nil
  then have "ctrlq_drain e qi False p = Inr p"
    using ctrlq_rep_tail(1) [OF Nil(1) refl] ctrlq_rep_bounds [OF Nil(1)] by (subst ctrlq_drain.simps) (simp add: Let_def)
  then show ?case using Nil by (intro exI [of _ 0] exI [of _ p] exI [of _ "[]"]) simp
next
  case (Cons c cs)
  let ?i = "the (cqe_ipsaddr c)" and ?t = "cqe_message_type c" and ?fl = "cqe_flow c"
  have g: "gbn_msg p ?t ?fl" using Cons.prems(2) by (simp add: queue_ok_def)
  obtain h err p1 where s: "ctrl_send e ?i ?t ?fl (Some (cqe_args c)) False p = Inr (err, False, p1)" "ctrl_view p1 = ctrl_view p"
    "wire p1 = wire p @ (if err = PSM_OK then [(?fl, h)] else [])" "genuine p ?t ?fl h"
    using ctrl_send_gbn [OF g, of e ?i "Some (cqe_args c)"] by blast
  have q: "ctrlqs p1 = ctrlqs p" "masks p1 = masks p" "msg_view p1 = msg_view p" using s(2) by (rule ctrl_viewD)+
  have u: "ctrlq_drain e qi False p =
      (if err = PSM_OK then ctrlq_drain e qi False (ctrlq_pop qi (ips_epaddr_stats_send ?i ?t p1)) else Inr (ctrlq_refused qi p1))"
    using ctrlq_rep_tail(2) [OF Cons.prems(1) refl] ctrlq_rep_bounds [OF Cons.prems(1)] s(1)
    by (subst ctrlq_drain.simps) (auto simp: Let_def)
  show ?case
  proof (cases "err = PSM_OK")
    case True
    let ?p = "ctrlq_pop qi (ips_epaddr_stats_send ?i ?t p1)"
    have rep: "ctrlq_rep (ctrlqs (ips_epaddr_stats_send ?i ?t p1) qi) (c # cs)" using Cons.prems(1) q(1) by simp
    have v: "msg_view ?p = msg_view p" using q(3) by simp
    obtain k p' fs where k: "ctrlq_drain e qi False ?p = Inr p'" "k \<le> length cs" "ctrlq_rep (ctrlqs p' qi) (drop k cs)"
      "msg_view p' = msg_view ?p" "\<forall>j. j \<noteq> qi \<longrightarrow> ctrlqs p' j = ctrlqs ?p j" "masks p' = fold clear_mask (take k cs) (masks ?p)"
      "wire p' = wire ?p @ fs" "list_all2 (delivers ?p) (take k cs) fs" "k < length cs \<longrightarrow> ctrlq_timer (ctrlqs p' qi) \<noteq> None"
      using Cons.IH [OF pop_ctrlqs(1) [OF rep]] Cons.prems(2) queue_ok_view [OF v] by (auto simp: queue_ok_def)
    note pc = pop_ctrlqs [OF rep]
    have "delivers p c (?fl, h)" using s(4) by (simp add: delivers_def)
    then show ?thesis
      using k v True u pc(2-4) q s(3) unfolding delivers_view [OF v]
      by (intro exI [of _ "Suc k"] exI [of _ p'] exI [of _ "(?fl, h) # fs"]) auto
  next
    case False
    then show ?thesis using u q s(3) Cons.prems(1) refused_ctrlqs(1) [of p1 qi "c # cs"] refused_ctrlqs(2-6) [where p = p1 and qi = qi]
      by (intro exI [of _ 0] exI [of _ "ctrlq_refused qi p1"] exI [of _ "[]"]) auto
  qed
qed

text \<open>What becomes of a message that is to be sent.\<close>

datatype ctrl_outcome = Sent | Queued | Merged | Refused

definition ctrl_outcome_ok ::
  "ctrl_outcome \<Rightarrow> 'w ips_proto \<Rightarrow> u8 \<Rightarrow> maskp \<Rightarrow> flowp \<Rightarrow> ips_ctrlq_elem list \<Rightarrow>
   psm_error \<Rightarrow> (flowp \<times> ips_hdr) list \<Rightarrow> ips_ctrlq_elem list \<Rightarrow> 'w ips_proto \<Rightarrow> bool" where
  "ctrl_outcome_ok oc p t m fl waiting err out es' p' = (case oc of
     Sent \<Rightarrow> err = PSM_OK \<and> waiting = [] \<and> es' = [] \<and> (\<exists>h. out = [(fl, h)] \<and> genuine p t fl h)
   | Queued \<Rightarrow> err = PSM_OK \<and> out = [] \<and> (\<exists>c. es' = waiting @ [c] \<and> cqe_ipsaddr c = Some (flow_ipsaddr (flows p fl)) \<and>
       cqe_message_type c = t \<and> cqe_mask c = m \<and> cqe_flow c = fl) \<and> masks p' m AND message_type2index t = message_type2index t
   | Merged \<Rightarrow> err = PSM_OK \<and> out = [] \<and> es' = waiting \<and> masks p' m AND message_type_to_index t \<noteq> 0
   | Refused \<Rightarrow> err \<noteq> PSM_OK \<and> out = [] \<and> es' = waiting \<and> (err = PSM_EP_NO_RESOURCES \<longrightarrow> length es' = CTRL_MSG_QEUEUE_SIZE))"

lemma gbn_never: "gbn_type t \<Longrightarrow> ctrl_msg_queue_never_enqueue AND message_type_to_index t = 0"
  by (auto simp: gbn_type_def ctrl_msg_queue_never_enqueue_def message_type_to_index_def opcode_defs)

lemma push_ctrlqs:
  fixes i :: nat and t :: u8 and m :: maskp and fl :: flowp and args :: "(u64 \<times> u64 \<times> u64) option" and p :: "'w ips_proto"
  assumes "ctrlq_rep (ctrlqs p qi) es" "length es < CTRL_MSG_QEUEUE_SIZE"
  defines "p' \<equiv> ctrlq_push qi i t m fl args p"
  shows "\<exists>c. ctrlq_rep (ctrlqs p' qi) (es @ [c]) \<and> cqe_ipsaddr c = Some i \<and> cqe_message_type c = t \<and> cqe_mask c = m \<and> cqe_flow c = fl"
    "masks p' m AND message_type2index t = message_type2index t" "wire p' = wire p" "msg_view p' = msg_view p"
    "j \<noteq> qi \<Longrightarrow> ctrlqs p' j = ctrlqs p j" "k \<noteq> m \<Longrightarrow> masks p' k = masks p k"
proof -
  show "masks p' m AND message_type2index t = message_type2index t" "wire p' = wire p" "msg_view p' = msg_view p"
    "j \<noteq> qi \<Longrightarrow> ctrlqs p' j = ctrlqs p j" "k \<noteq> m \<Longrightarrow> masks p' k = masks p k"
    by (simp_all add: p'_def ctrlq_push_def upd_ctrlq_def msg_view_def ctrl_view_def bit.conj_disj_distrib2 Let_def)
  define c where "c = \<lparr>cqe_ipsaddr = Some i, cqe_message_type = t, cqe_mask = m, cqe_flow = fl,
     cqe_args = (case args of Some a \<Rightarrow> a | None \<Rightarrow> cqe_args (cqe_at qi p (ctrlq_head (ctrlqs p qi))))\<rparr>"
  have "ctrlq_rep (ctrlqs p' qi) (es @ [c])"
    using ctrlq_rep_push [OF assms(1,2), of c "timer_request 0 (ctrlq_timer (ctrlqs p qi))"]
    by (cases args) (simp_all add: p'_def ctrlq_push_def upd_ctrlq_def c_def Let_def)
  then show "\<exists>c. ctrlq_rep (ctrlqs p' qi) (es @ [c]) \<and> cqe_ipsaddr c = Some i \<and> cqe_message_type c = t \<and> cqe_mask c = m \<and> cqe_flow c = fl"
    by (intro exI [of _ c]) (simp add: c_def)
qed

lemma ctrl_no_room:
  assumes rep: "ctrlq_rep (ctrlqs p qi) es" and g: "gbn_type t" and i: "i = flow_ipsaddr (flows p0 fl)"
  shows "\<exists>err p' es' oc. ctrl_enqueue qi i t m fl args p = (err, p') \<and> ctrl_outcome_ok oc p0 t m fl es err [] es' p' \<and>
    ctrlq_rep (ctrlqs p' qi) es' \<and> msg_view p' = msg_view p \<and> wire p' = wire p \<and> (\<forall>j. j \<noteq> qi \<longrightarrow> ctrlqs p' j = ctrlqs p j)"
proof -
  let ?p = "ctrl_busy p"
  have b: "ctrlqs ?p = ctrlqs p" "masks ?p = masks p" "wire ?p = wire p" "msg_view ?p = msg_view p"
    by (simp_all add: ctrl_busy_def msg_view_def ctrl_view_def)
  have rep': "ctrlq_rep (ctrlqs ?p qi) es" using rep b(1) by simp
  consider "masks p m AND message_type_to_index t \<noteq> 0" | "masks p m AND message_type_to_index t = 0" "length es < CTRL_MSG_QEUEUE_SIZE"
    | "masks p m AND message_type_to_index t = 0" "\<not> length es < CTRL_MSG_QEUEUE_SIZE" by blast
  then show ?thesis
  proof cases
    case 1
    then have "ctrl_enqueue qi i t m fl args p = (PSM_OK, ?p)" using gbn_never [OF g] b by (simp add: ctrl_enqueue_def Let_def)
    then show ?thesis using 1 b rep' by (intro exI [of _ PSM_OK] exI [of _ ?p] exI [of _ es] exI [of _ Merged]) (simp add: ctrl_outcome_ok_def)
  next
    case 2
    then have r: "ctrl_enqueue qi i t m fl args p = (PSM_OK, ctrlq_push qi i t m fl args ?p)"
      using gbn_never [OF g] b ctrlq_rep_head [OF rep'] by (auto simp: ctrl_enqueue_def Let_def)
    note pc = push_ctrlqs [OF rep' 2(2), where i = i and t = t and m = m and fl = fl and args = args]
    obtain c where "ctrlq_rep (ctrlqs (ctrlq_push qi i t m fl args ?p) qi) (es @ [c])" "cqe_ipsaddr c = Some i" "cqe_message_type c = t"
      "cqe_mask c = m" "cqe_flow c = fl" using pc(1) by blast
    then show ?thesis using r pc(2-5) b i
      by (intro exI [of _ PSM_OK] exI [of _ "ctrlq_push qi i t m fl args ?p"] exI [of _ "es @ [c]"] exI [of _ Queued]) (simp add: ctrl_outcome_ok_def)
  next
    case 3
    then have l: "length es = CTRL_MSG_QEUEUE_SIZE" using rep by (simp add: ctrlq_rep_def)
    have "ctrl_enqueue qi i t m fl args p = (PSM_EP_NO_RESOURCES, ?p\<lparr>ctrl_msg_queue_overflow := ctrl_msg_queue_overflow ?p + 1\<rparr>)"
      using 3 gbn_never [OF g] b ctrlq_rep_head [OF rep'] by (auto simp: ctrl_enqueue_def Let_def)
    then show ?thesis using b rep' l
      by (intro exI [of _ PSM_EP_NO_RESOURCES] exI [of _ "?p\<lparr>ctrl_msg_queue_overflow := ctrl_msg_queue_overflow ?p + 1\<rparr>"] exI [of _ es]
          exI [of _ Refused]) (simp add: ctrl_outcome_ok_def)
  qed
qed

lemma send_ctrl_gbn:
  assumes qi: "unat (flowid (flows p fl) AND 0xF) = qi" "qi < 4" and rep: "ctrlq_rep (ctrlqs p qi) es" and ok: "queue_ok p es"
    and g: "gbn_msg p t fl"
  shows "\<exists>err p' k fs out es' oc. ips_proto_send_ctrl_message e fl t m args p = Inr (err, p') \<and> k \<le> length es \<and>
    wire p' = wire p @ fs @ out \<and> list_all2 (delivers p) (take k es) fs \<and> msg_view p' = msg_view p \<and>
    (\<forall>j. j \<noteq> qi \<longrightarrow> ctrlqs p' j = ctrlqs p j) \<and> ctrlq_rep (ctrlqs p' qi) es' \<and>
    ctrl_outcome_ok oc p t m fl (drop k es) err out es' p'"
proof -
  let ?i = "flow_ipsaddr (flows p fl)"
  have gt: "gbn_type t" using g by (simp add: gbn_msg_def)
  obtain k p1 fs where d: "(if cqe_ipsaddr (cqe_at qi p (ctrlq_tail (ctrlqs p qi))) \<noteq> None
       then ips_proto_timer_ctrlq_callback e qi p else Inr p) = Inr p1" "k \<le> length es" "ctrlq_rep (ctrlqs p1 qi) (drop k es)"
    "msg_view p1 = msg_view p" "\<forall>j. j \<noteq> qi \<longrightarrow> ctrlqs p1 j = ctrlqs p j" "wire p1 = wire p @ fs" "list_all2 (delivers p) (take k es) fs"
  proof (cases "cqe_ipsaddr (cqe_at qi p (ctrlq_tail (ctrlqs p qi))) \<noteq> None")
    case True
    note t = that
    show ?thesis using drain_gbn [OF rep ok, of e] True by (auto simp: ips_proto_timer_ctrlq_callback_def intro: t)
  next
    case False
    then show ?thesis using that [of p 0 "[]"] rep by simp
  qed
  let ?room = "cqe_ipsaddr (cqe_at qi p1 (ctrlq_tail (ctrlqs p1 qi))) = None"
  have room: "?room \<longleftrightarrow> drop k es = []" using ctrlq_rep_tail [OF d(3)] by (cases "drop k es") auto
  have u: "ips_proto_send_ctrl_message e fl t m args p =
      run_bind (if ?room then run_bind (ctrl_send e ?i t fl args False p1) (\<lambda>(err, discard, p).
                            Inr (err, if err = PSM_OK \<and> \<not> discard then ips_epaddr_stats_send ?i t p else p))
                else Inr (PSM_EP_NO_RESOURCES, p1)) (\<lambda>(err, p). if err \<noteq> PSM_EP_NO_RESOURCES then Inr (err, p) else Inr (ctrl_enqueue qi ?i t m fl args p))"
    using d(1) qi ctrlq_rep_bounds [OF rep] by (simp add: ips_proto_send_ctrl_message_def Let_def)
  have g1: "gbn_msg p1 t fl" using g gbn_msg_view [OF d(4)] by simp
  obtain h err p2 where s: "ctrl_send e ?i t fl args False p1 = Inr (err, False, p2)" "ctrl_view p2 = ctrl_view p1"
    "wire p2 = wire p1 @ (if err = PSM_OK then [(fl, h)] else [])" "genuine p1 t fl h"
    using ctrl_send_gbn [OF g1, of e ?i args] by blast
  have q2: "ctrlqs p2 = ctrlqs p1" "msg_view p2 = msg_view p1" using s(2) by (rule ctrl_viewD)+
  have no_room: ?thesis if "ips_proto_send_ctrl_message e fl t m args p = Inr (ctrl_enqueue qi ?i t m fl args p3)" "ctrlqs p3 = ctrlqs p1" "msg_view p3 = msg_view p1"
    "wire p3 = wire p1" for p3
  proof -
    have "ctrlq_rep (ctrlqs p3 qi) (drop k es)" using d(3) that(2) by simp
    then obtain err' p' es' oc where "ctrl_enqueue qi ?i t m fl args p3 = (err', p')" "ctrl_outcome_ok oc p t m fl (drop k es) err' [] es' p'"
      "ctrlq_rep (ctrlqs p' qi) es'" "msg_view p' = msg_view p3" "wire p' = wire p3" "\<forall>j. j \<noteq> qi \<longrightarrow> ctrlqs p' j = ctrlqs p3 j"
      using ctrl_no_room [OF _ gt refl] by blast
    then show ?thesis using that d
      by (intro exI [of _ err'] exI [of _ p'] exI [of _ k] exI [of _ fs] exI [of _ "[]"] exI [of _ es'] exI [of _ oc]) auto
  qed
  consider "\<not> ?room" | "?room" "err = PSM_EP_NO_RESOURCES" | "?room" "err = PSM_OK" | "?room" "err \<noteq> PSM_EP_NO_RESOURCES" "err \<noteq> PSM_OK" by blast
  then show ?thesis
  proof cases
    case 1
    then show ?thesis by (intro no_room [of p1]) (auto simp: u)
  next
    case 2
    then show ?thesis using s q2 by (intro no_room [of p2]) (simp_all add: u)
  next
    case 3
    then have "ips_proto_send_ctrl_message e fl t m args p = Inr (PSM_OK, ips_epaddr_stats_send ?i t p2)" using s(1) by (simp add: u)
    moreover have "ctrl_outcome_ok Sent p t m fl (drop k es) PSM_OK [(fl, h)] [] (ips_epaddr_stats_send ?i t p2)"
      using 3 room s(4) genuine_view [OF d(4)] by (simp add: ctrl_outcome_ok_def)
    ultimately show ?thesis using d 3 room q2 s(3)
      by (intro exI [of _ PSM_OK] exI [of _ "ips_epaddr_stats_send ?i t p2"] exI [of _ k] exI [of _ fs] exI [of _ "[(fl, h)]"]
          exI [of _ "[]"] exI [of _ Sent]) auto
  next
    case 4
    then have "ips_proto_send_ctrl_message e fl t m args p = Inr (err, p2)" using s(1) by (simp add: u)
    moreover have "ctrl_outcome_ok Refused p t m fl (drop k es) err [] (drop k es) p2" using 4 by (simp add: ctrl_outcome_ok_def)
    ultimately show ?thesis using d 4 q2 s(3)
      by (intro exI [of _ err] exI [of _ p2] exI [of _ k] exI [of _ fs] exI [of _ "[]"] exI [of _ "drop k es"] exI [of _ Refused]) auto
  qed
qed

text \<open>
  \<^verbatim>\<open>discard_msg\<close> is set before the loop of the drain and never cleared in it: once it is set, the rest of
  the ring is emptied without a frame.
\<close>

lemma ctrl_send_discard:
  assumes "gbn_msg p t fl"
  shows "\<exists>p'. ctrl_send e i t fl args True p = Inr (PSM_OK, True, p') \<and> ctrl_view p' = ctrl_view p \<and> wire p' = wire p"
  using build_gbn [OF assms, of e i args True] by (auto simp: ctrl_send_def)

lemma drain_discard:
  assumes "ctrlq_rep (ctrlqs p qi) es" "queue_ok p es"
  shows "\<exists>p'. ctrlq_drain e qi True p = Inr p' \<and> ctrlq_rep (ctrlqs p' qi) [] \<and> wire p' = wire p"
  using assms
proof (induction es arbitrary: p)
  case Nil
  then have "ctrlq_drain e qi True p = Inr p"
    using ctrlq_rep_tail(1) [OF Nil(1) refl] ctrlq_rep_bounds [OF Nil(1)] by (subst ctrlq_drain.simps) (simp add: Let_def)
  then show ?case using Nil by blast
next
  case (Cons c cs)
  let ?i = "the (cqe_ipsaddr c)" and ?t = "cqe_message_type c"
  obtain p1 where s: "ctrl_send e ?i ?t (cqe_flow c) (Some (cqe_args c)) True p = Inr (PSM_OK, True, p1)" "ctrl_view p1 = ctrl_view p" "wire p1 = wire p"
    using ctrl_send_discard [of p ?t "cqe_flow c"] Cons.prems(2) by (fastforce simp: queue_ok_def)
  let ?p = "ctrlq_pop qi (ips_epaddr_stats_send ?i ?t p1)"
  have u: "ctrlq_drain e qi True p = ctrlq_drain e qi True ?p"
    using ctrlq_rep_tail(2) [OF Cons.prems(1) refl] ctrlq_rep_bounds [OF Cons.prems(1)] s(1) by (subst ctrlq_drain.simps) (auto simp: Let_def)
  have rep: "ctrlq_rep (ctrlqs (ips_epaddr_stats_send ?i ?t p1) qi) (c # cs)" using Cons.prems(1) ctrl_viewD(1) [OF s(2)] by simp
  have "msg_view ?p = msg_view p" using ctrl_viewD(3) [OF s(2)] by simp
  then have "queue_ok ?p cs" using Cons.prems(2) queue_ok_view by (fastforce simp: queue_ok_def)
  then show ?case using Cons.IH [OF pop_ctrlqs(1) [OF rep]] u pop_ctrlqs(3) [OF rep] s(3) by simp
qed

text \<open>An acknowledgement of a TID flow whose receive descriptor has been released since it was queued.\<close>

definition stale_msg :: "'w ips_env \<Rightarrow> 'w ips_proto \<Rightarrow> ips_ctrlq_elem \<Rightarrow> bool" where
  "stale_msg e p c \<longleftrightarrow> protocol (flows p (cqe_flow c)) = PSM_PROTOCOL_TIDFLOW \<and> cqe_message_type c = OPCODE_ACK \<and>
     (\<exists>genc genseq. tid_recv_desc e (desc_idx (fst (snd (cqe_args c)))) = Some (genc, genseq) \<and> genc \<noteq> desc_genc (fst (snd (cqe_args c))))"

lemma ctrl_send_stale:
  assumes "stale_msg e p c"
  shows "\<exists>p'. ctrl_send e i (cqe_message_type c) (cqe_flow c) (Some (cqe_args c)) d p = Inr (PSM_OK, True, p') \<and>
    ctrl_view p' = ctrl_view p \<and> wire p' = wire p"
proof -
  let ?t = "cqe_message_type c" and ?fl = "cqe_flow c"
  obtain h0 p' where b: "build_ctrl_base i ?t ?fl p = (h0, p')" by fastforce
  have v: "ctrl_view p' = ctrl_view p \<and> wire p' = wire p" using b by (rule build_base_view)
  then have m: "msg_view p' = msg_view p" by (metis ctrl_viewD(3))
  obtain a0 a1 a2 where a: "cqe_args c = (a0, a1, a2)" by (cases "cqe_args c")
  have "build_ctrl_body e ?t ?fl (Some (cqe_args c)) d h0 p' = Inr (h0, True)"
    using assms a msg_view_flow(2) [OF m, of ?fl] by (auto simp: build_ctrl_body_def stale_msg_def tidflow_recv_def Let_def)
  then show ?thesis using b v by (simp add: ctrl_send_def build_ctrl_message_def)
qed

section \<open>Properties\<close>



text \<open>
  C19: A defect of the drain. When the message at the head of the ring is an acknowledgement whose receive
  descriptor was released meanwhile, it is discarded as intended, and with it every message behind it
  in the ring, although those are valid: the ring ends empty and nothing is put on the wire.
\<close>

theorem ctrlq_stale_drops_rest:
  assumes "ctrlq_rep (ctrlqs p qi) (c # cs)" "stale_msg e p c" "queue_ok p cs"
  shows "\<exists>p'. ips_proto_timer_ctrlq_callback e qi p = Inr p' \<and> ctrlq_rep (ctrlqs p' qi) [] \<and> wire p' = wire p"
proof -
  let ?i = "the (cqe_ipsaddr c)" and ?t = "cqe_message_type c"
  obtain p1 where s: "ctrl_send e ?i ?t (cqe_flow c) (Some (cqe_args c)) False p = Inr (PSM_OK, True, p1)" "ctrl_view p1 = ctrl_view p"
    "wire p1 = wire p" using ctrl_send_stale [OF assms(2)] by blast
  let ?p = "ctrlq_pop qi (ips_epaddr_stats_send ?i ?t p1)"
  have u: "ctrlq_drain e qi False p = ctrlq_drain e qi True ?p"
    using ctrlq_rep_tail(2) [OF assms(1) refl] ctrlq_rep_bounds [OF assms(1)] s(1) by (subst ctrlq_drain.simps) (auto simp: Let_def)
  have rep: "ctrlq_rep (ctrlqs (ips_epaddr_stats_send ?i ?t p1) qi) (c # cs)" using assms(1) ctrl_viewD(1) [OF s(2)] by simp
  have "msg_view ?p = msg_view p" using ctrl_viewD(3) [OF s(2)] by simp
  then have "queue_ok ?p cs" using assms(3) queue_ok_view by blast
  then show ?thesis using drain_discard [OF pop_ctrlqs(1) [OF rep]] u pop_ctrlqs(3) [OF rep] s(3)
    by (simp add: ips_proto_timer_ctrlq_callback_def)
qed

text \<open>Two messages in the ring: a stale acknowledgement of a TID flow and a good one of a go-back-N flow.\<close>

definition demo_ring :: "unit ips_proto" where
  "demo_ring = (demo_proto ())
     \<lparr>flows := (\<lambda>fl. if fl = Tidrecv_flow 0 then demo_flow\<lparr>protocol := PSM_PROTOCOL_TIDFLOW\<rparr> else demo_flow),
      ctrlqs := (\<lambda>_. \<lparr>ctrlq_head = 2, ctrlq_tail = 0,
        ctrlq_cqe = (\<lambda>i. if i = 0 then demo_cqe\<lparr>cqe_ipsaddr := Some 0, cqe_message_type := OPCODE_ACK, cqe_flow := Tidrecv_flow 0\<rparr>
          else if i = 1 then demo_cqe\<lparr>cqe_ipsaddr := Some 0, cqe_message_type := OPCODE_ACK\<rparr> else demo_cqe), ctrlq_timer = Some 0\<rparr>)\<rparr>"

theorem ctrlq_stale_drops_rest_witness:
  "\<exists>p'. ips_proto_timer_ctrlq_callback demo_env 0 demo_ring = Inr p' \<and> ctrlq_rep (ctrlqs p' 0) [] \<and> wire p' = []"
proof -
  let ?c = "demo_cqe\<lparr>cqe_ipsaddr := Some 0, cqe_message_type := OPCODE_ACK, cqe_flow := Tidrecv_flow 0\<rparr>"
  let ?d = "demo_cqe\<lparr>cqe_ipsaddr := Some 0, cqe_message_type := OPCODE_ACK\<rparr>"
  have "ctrlq_rep (ctrlqs demo_ring 0) [?c, ?d]"
    by (auto simp: demo_ring_def demo_cqe_def ctrlq_rep_def CTRL_MSG_QEUEUE_SIZE_def less_Suc_eq)
  moreover have "stale_msg demo_env demo_ring ?c"
    by (simp add: stale_msg_def demo_ring_def demo_cqe_def demo_env_def desc_genc_def)
  moreover have "queue_ok demo_ring [?d]"
    by (simp add: queue_ok_def gbn_msg_def gbn_type_def demo_ring_def demo_cqe_def demo_flow_def)
  moreover have "wire demo_ring = []" by (simp add: demo_ring_def)
  ultimately show ?thesis using ctrlq_stale_drops_rest [of demo_ring 0 ?c "[?d]" demo_env] by simp
qed

text \<open>
  A defect of the reply to a stray process. Its endpoint address lives on the stack, so the code sets
  every bit of its word of queued messages to keep the reply out of the ring. The reply's kind has no
  bit: when the device has no room the reply is queued all the same, and the ring keeps the address.
\<close>

theorem stray_reply_queued:
  assumes "unat (flowid (flows p fl) AND 0xF) = qi" "qi < 4" "ctrlq_rep (ctrlqs p qi) []" "transfer (flows p fl) = PSM_TRANSFER_PIO"
    "masks p m = 0xFFFFFFFF" "spio_result e (ext p) = PSM_EP_NO_RESOURCES"
  shows "\<exists>c p'. ips_proto_send_ctrl_message e fl OPCODE_ERR_CHK_BAD m None p = Inr (PSM_OK, p') \<and> wire p' = wire p \<and>
    ctrlq_rep (ctrlqs p' qi) [c] \<and> cqe_ipsaddr c = Some (flow_ipsaddr (flows p fl))"
proof -
  let ?t = OPCODE_ERR_CHK_BAD and ?i = "flow_ipsaddr (flows p fl)"
  obtain h0 p1 where b: "build_ctrl_base ?i ?t fl p = (h0, p1)" by fastforce
  have v: "ctrl_view p1 = ctrl_view p" "wire p1 = wire p" using build_base_view [OF b] by auto
  have e: "ext p1 = ext p" "transfer (flows p1 fl) = transfer (flows p fl)"
    using b by (auto simp: build_ctrl_base_def upd_epaddr_def upd_flow_def Let_def split: if_splits)
  define p2 where "p2 = snd (ctrl_transfer e ?t fl h0 p1)"
  have t: "ctrl_transfer e ?t fl h0 p1 = (PSM_EP_NO_RESOURCES, p2)"
    using assms(4,6) e by (simp add: p2_def ctrl_transfer_def ips_spio_transfer_frame_def Let_def)
  have v2: "ctrl_view p2 = ctrl_view p" "wire p2 = wire p" using transfer_view [OF t] v by simp_all
  have "build_ctrl_body e ?t fl None False h0 p1 = Inr (h0, False)" by (simp add: build_ctrl_body_def opcode_defs Let_def)
  then have s: "ctrl_send e ?i ?t fl None False p = Inr (PSM_EP_NO_RESOURCES, False, p2)"
    using b t by (simp add: ctrl_send_def build_ctrl_message_def)
  let ?p = "ctrl_busy p2"
  have "ctrlqs ?p = ctrlqs p" "masks ?p = masks p" "wire ?p = wire p"
    using ctrl_viewD [OF v2(1)] v2(2) by (simp_all add: ctrl_busy_def)
  moreover have z: "message_type_to_index ?t = 0" by (simp add: message_type_to_index_def opcode_defs)
  moreover have "cqe_ipsaddr (cqe_at qi p (ctrlq_head (ctrlqs p qi))) = None"
    using ctrlq_rep_head [OF assms(3)] by (simp add: CTRL_MSG_QEUEUE_SIZE_def)
  ultimately have "ips_proto_send_ctrl_message e fl ?t m None p = Inr (PSM_OK, ctrlq_push qi ?i ?t m fl None ?p)"
    using assms(1,2) ctrlq_rep_bounds [OF assms(3)] ctrlq_rep_tail(1) [OF assms(3) refl] s
    by (simp add: ips_proto_send_ctrl_message_def ctrl_enqueue_def Let_def)
  moreover have "ctrlq_rep (ctrlqs ?p qi) []" using assms(3) \<open>ctrlqs ?p = ctrlqs p\<close> by simp
  note pc = push_ctrlqs [OF this, where i = ?i and t = ?t and m = m and fl = fl and args = None]
  ultimately show ?thesis using pc(1,3) \<open>wire ?p = wire p\<close> by (auto simp: CTRL_MSG_QEUEUE_SIZE_def)
qed

theorem stray_reply_queued_witness:
  "\<exists>c p'. ips_proto_send_ctrl_message (demo_env\<lparr>spio_result := (\<lambda>_. PSM_EP_NO_RESOURCES)\<rparr>) (Ep_flow 0 0) OPCODE_ERR_CHK_BAD (Ep_mask 0) None
      ((demo_proto ())\<lparr>masks := (\<lambda>_. 0xFFFFFFFF)\<rparr>) = Inr (PSM_OK, p') \<and> wire p' = [] \<and>
    ctrlq_rep (ctrlqs p' 0) [c] \<and> cqe_ipsaddr c = Some 0"
proof -
  have "ctrlq_rep demo_ctrlq []" by (simp add: demo_ctrlq_def demo_cqe_def ctrlq_rep_def CTRL_MSG_QEUEUE_SIZE_def)
  then show ?thesis
    using stray_reply_queued [of "(demo_proto ())\<lparr>masks := (\<lambda>_. 0xFFFFFFFF)\<rparr>" "Ep_flow 0 0" 0 "Ep_mask 0"
        "demo_env\<lparr>spio_result := (\<lambda>_. PSM_EP_NO_RESOURCES)\<rparr>"]
    by (simp add: demo_flow_def)
qed

end
