(* ===== verification/Ips_Recv.thy ===== *)
theory Ips_Recv
  imports Ips_Ctrl
begin

text \<open>
  The receiving side of flows, \<^verbatim>\<open>src/ptl_ips/ips_proto_recv.c\<close>, \<^verbatim>\<open>src/ptl_ips/ips_proto_help.h\<close> and the pending
  acknowledgements of \<^verbatim>\<open>src/ptl_ips/ips_recvhdrq.c\<close>: acknowledgements and negative acknowledgements release
  or repeat frames, a data frame is accepted when it carries the expected sequence number, error
  checks are answered.

  A packet is an event with its header, the two congestion bits and the receive type. The code clears
  the congestion bits in the event once they are used; nothing reads them afterwards, so the event is not
  updated here. The queue of acknowledgements to send belongs to the receive queue in the code and to
  the protocol object here. What an accepted packet does to the matched queue is the field \<open>mq_call\<close> of the
  environment; packets of the other protocols (active messages, expected transfers, connections) are
  handled by the argument \<open>other\<close>. Assertions of the debugging build (\<^verbatim>\<open>psmi_assert\<close>) are left out.

  Shown: an acknowledgement of a consistent flow releases exactly the frames it covers, in order and
  with one completion each, never reads past the queue, and leaves the flow consistent; a negative
  acknowledgement makes exactly the rest pending again; a data frame is passed on exactly when it carries
  the expected number.
\<close>

unbundle bit_operations_syntax

section \<open>Packets\<close>

definition MQ_MSG_TINY :: u16 where "MQ_MSG_TINY = 1"
definition MQ_MSG_SHORT :: u16 where "MQ_MSG_SHORT = 2"
definition MQ_MSG_LONG :: u16 where "MQ_MSG_LONG = 3"
definition MQ_MSG_RTS :: u16 where "MQ_MSG_RTS = 6"
definition MQ_MSG_RTS_WAIT :: u16 where "MQ_MSG_RTS_WAIT = 7"
definition MQ_MSG_DATA :: u16 where "MQ_MSG_DATA = 8"
definition MQ_MSG_RTS_EGR :: u16 where "MQ_MSG_RTS_EGR = 9"
definition MQ_MSG_CTS_EGR :: u16 where "MQ_MSG_CTS_EGR = 10"
definition MQ_MSG_DATA_REQ :: u16 where "MQ_MSG_DATA_REQ = 11"

definition SESS_FLAG_HAS_FLOWID :: u16 where "SESS_FLAG_HAS_FLOWID = 0x8"
definition EP_FLOW_LAST :: nat where "EP_FLOW_LAST = 4"

datatype rcv_type = RCVHQ_RCV_TYPE_EAGER | RCVHQ_RCV_TYPE_EXPECTED | RCVHQ_RCV_TYPE_NON_KD | RCVHQ_RCV_TYPE_ERROR

record ips_recvhdrq_event =
  ev_ipsaddr :: nat
  ev_hdr :: ips_hdr
  ev_ptype :: rcv_type
  ev_fecn :: bool
  ev_becn :: bool

text \<open>The two halves of the flow identifier of a header.\<close>

definition flowid_protocol :: "ips_hdr \<Rightarrow> nat" where "flowid_protocol h = unat (drop_bit 4 (h_flowid h) AND 0xF)"
definition ips_proto_flowid :: "ips_hdr \<Rightarrow> nat" where "ips_proto_flowid h = unat (h_flowid h AND 0xF)"

abbreviation ev_flow :: "ips_recvhdrq_event \<Rightarrow> flowp" where
  "ev_flow ev \<equiv> Ep_flow (ev_ipsaddr ev) (ips_proto_flowid (ev_hdr ev))"

section \<open>Acknowledgements to send\<close>

text \<open>One control message for an endpoint flow.\<close>

abbreviation flow_ctrl :: "'w ips_env \<Rightarrow> flowp \<Rightarrow> u8 \<Rightarrow> 'w ips_proto \<Rightarrow> (psm_error \<times> 'w ips_proto) run" where
  "flow_ctrl e fl t p \<equiv> ips_proto_send_ctrl_message e fl t (Ep_mask (flow_ipsaddr (flows p fl))) None p"

abbreviation set_flag :: "flowp \<Rightarrow> u16 \<Rightarrow> 'w ips_proto \<Rightarrow> 'w ips_proto" where
  "set_flag fl b p \<equiv> upd_flow fl (\<lambda>f. f\<lparr>flow_flags := flow_flags f OR b\<rparr>) p"

abbreviation clear_flag :: "flowp \<Rightarrow> u16 \<Rightarrow> 'w ips_proto \<Rightarrow> 'w ips_proto" where
  "clear_flag fl b p \<equiv> upd_flow fl (\<lambda>f. f\<lparr>flow_flags := flow_flags f AND NOT b\<rparr>) p"

abbreviation has_flag :: "flowp \<Rightarrow> u16 \<Rightarrow> 'w ips_proto \<Rightarrow> bool" where
  "has_flag fl b p \<equiv> flow_flags (flows p fl) AND b \<noteq> 0"

definition ips_proto_send_ack :: "'w ips_env \<Rightarrow> flowp \<Rightarrow> 'w ips_proto \<Rightarrow> 'w ips_proto run" where
  "ips_proto_send_ack e fl p =
     (if proto_flags p AND IPS_PROTO_FLAG_COALESCE_ACKS \<noteq> 0
      then let p = (if has_flag fl IPS_FLOW_FLAG_PENDING_NAK p then clear_flag fl IPS_FLOW_FLAG_PENDING_NAK p
                    else if \<not> has_flag fl IPS_FLOW_FLAG_PENDING_ACK p then p\<lparr>pending_acks := fl # pending_acks p\<rparr> else p)
        in Inr (set_flag fl IPS_FLOW_FLAG_PENDING_ACK p)
      else run_bind (flow_ctrl e fl OPCODE_ACK p) (\<lambda>(_, p). Inr p))"

definition ips_proto_send_nak :: "'w ips_env \<Rightarrow> flowp \<Rightarrow> 'w ips_proto \<Rightarrow> 'w ips_proto run" where
  "ips_proto_send_nak e fl p =
     (if proto_flags p AND IPS_PROTO_FLAG_COALESCE_ACKS \<noteq> 0
      then let p = (if has_flag fl IPS_FLOW_FLAG_PENDING_ACK p then clear_flag fl IPS_FLOW_FLAG_PENDING_ACK p
                    else if \<not> has_flag fl IPS_FLOW_FLAG_PENDING_NAK p then p\<lparr>pending_acks := fl # pending_acks p\<rparr> else p)
        in Inr (set_flag fl IPS_FLOW_FLAG_PENDING_NAK p)
      else run_bind (flow_ctrl e fl OPCODE_NAK p) (\<lambda>(_, p). Inr p))"

lemma drain_view: "ctrlq_drain e qi d p = Inr p' \<Longrightarrow> msg_view p' = msg_view p"
proof (induction e qi d p rule: ctrlq_drain.induct)
  case (1 e qi d p)
  let ?q = "ctrlqs p qi" let ?c = "ctrlq_cqe ?q (ctrlq_tail ?q)"
  show ?case
  proof (cases "ctrlq_tail ?q \<ge> CTRL_MSG_QEUEUE_SIZE \<or> cqe_ipsaddr ?c = None")
    case True
    then show ?thesis using 1(2) by (subst (asm) ctrlq_drain.simps) (auto simp: Let_def split: if_splits)
  next
    case False
    then obtain err d1 p1 where s: "ctrl_send e (the (cqe_ipsaddr ?c)) (cqe_message_type ?c) (cqe_flow ?c) (Some (cqe_args ?c)) d p = Inr (err, d1, p1)"
      using 1(2) by (subst (asm) ctrlq_drain.simps) (auto simp: Let_def split: if_splits)
    have v: "msg_view p1 = msg_view p" using ctrl_send_view [OF s] by (rule ctrl_viewD)
    have u: "(if err = PSM_OK then ctrlq_drain e qi d1 (ctrlq_pop qi (ips_epaddr_stats_send (the (cqe_ipsaddr ?c)) (cqe_message_type ?c) p1))
        else Inr (ctrlq_refused qi p1)) = Inr p'"
      using 1(2) False s by (subst (asm) ctrlq_drain.simps) (auto simp: Let_def split: if_splits)
    show ?thesis
    proof (cases "err = PSM_OK")
      case True
      then show ?thesis using 1(1) [OF refl refl _ _ s refl refl] u v False by auto
    next
      case False
      then show ?thesis using u v by (auto simp: ctrlq_refused_def)
    qed
  qed
qed

lemma enqueue_view: "ctrl_enqueue qi i t m fl args p = (err, p') \<Longrightarrow> msg_view p' = msg_view p"
  by (auto simp: ctrl_enqueue_def ctrlq_push_def Let_def split: if_splits)

lemma send_ctrl_view:
  assumes "ips_proto_send_ctrl_message e fl t m args p = Inr (err, p')"
  shows "msg_view p' = msg_view p"
  using assms unfolding ips_proto_send_ctrl_message_def Let_def ips_proto_timer_ctrlq_callback_def
  by (auto split: if_splits dest!: drain_view enqueue_view ctrl_send_view ctrl_viewD(3))

function process_pending_acks :: "'w ips_env \<Rightarrow> 'w ips_proto \<Rightarrow> 'w ips_proto run" where
  "process_pending_acks e p = (case pending_acks p of
     [] \<Rightarrow> Inr p
   | fl # rest \<Rightarrow>
       let p = p\<lparr>pending_acks := rest\<rparr>
       in if has_flag fl IPS_FLOW_FLAG_PENDING_ACK p
          then if has_flag fl IPS_FLOW_FLAG_PENDING_NAK p then Inl Assert_Abort
               else run_bind (flow_ctrl e fl OPCODE_ACK (clear_flag fl IPS_FLOW_FLAG_PENDING_ACK p)) (\<lambda>(_, p). process_pending_acks e p)
          else if \<not> has_flag fl IPS_FLOW_FLAG_PENDING_NAK p then Inl Assert_Abort
               else run_bind (flow_ctrl e fl OPCODE_NAK (clear_flag fl IPS_FLOW_FLAG_PENDING_NAK p)) (\<lambda>(_, p). process_pending_acks e p))"
  by pat_completeness auto
termination
  by (relation "measure (\<lambda>(e, p). length (pending_acks p))")
    (auto simp: upd_flow_def dest!: send_ctrl_view msg_viewD(2))

declare process_pending_acks.simps [simp del]

section \<open>Data frames\<close>

text \<open>
  The comparison of sequence numbers is on the low 16 bits of their difference, read as a signed number.
\<close>

definition ips_proto_is_expected_or_nak :: "'w ips_env \<Rightarrow> ips_recvhdrq_event \<Rightarrow> 'w ips_proto \<Rightarrow> (bool \<times> 'w ips_proto) run" where
  "ips_proto_is_expected_or_nak e ev p =
     (let sequence_num = ucast (h_psn (ev_hdr ev)) :: u24; fl = ev_flow ev
      in if ips_proto_flowid (ev_hdr ev) \<ge> EP_FLOW_LAST then Inl Undefined_Access
         else let p = (if ev_fecn ev \<and> cca_ooo_pkts (flows p fl) AND 0xF = 0
                then upd_epaddr (ev_ipsaddr ev) (\<lambda>a. a\<lparr>congestion_pkts := congestion_pkts a + 1\<rparr>)
                       (upd_flow fl (\<lambda>f. f\<lparr>flow_flags := flow_flags f OR IPS_FLOW_FLAG_GEN_BECN, cca_ooo_pkts := cca_ooo_pkts f + 1\<rparr>) p)
                else p)
         in if recv_seq_num (flows p fl) \<noteq> sequence_num
            then let diff = ucast (sequence_num - last_seq_num (flows p fl)) :: u16
              in if sint diff < 0 then Inr (False, p)
                 else let p = upd_flow fl (\<lambda>f. f\<lparr>cca_ooo_pkts := diff\<rparr>) p;
                          p = (if cca_ooo_pkts (flows p fl) > ack_interval (flows p fl)
                               then set_flag fl IPS_FLOW_FLAG_GEN_BECN
                                      (upd_epaddr (ev_ipsaddr ev) (\<lambda>a. a\<lparr>congestion_pkts := congestion_pkts a + 1\<rparr>) p)
                               else p);
                          p = upd_flow fl (\<lambda>f. f\<lparr>last_seq_num := sequence_num\<rparr>) p
                   in if \<not> has_flag fl IPS_FLOW_FLAG_NAK_SEND p
                      then run_bind (ips_proto_send_nak e fl p) (\<lambda>p.
                             Inr (False, upd_flow fl (\<lambda>f. f\<lparr>flow_flags := flow_flags f OR IPS_FLOW_FLAG_NAK_SEND, cca_ooo_pkts := 0\<rparr>) p))
                      else if has_flag fl IPS_FLOW_FLAG_GEN_BECN p
                      then run_bind (flow_ctrl e fl OPCODE_FLOW_CCA_BECN p) (\<lambda>(_, p). Inr (False, p))
                      else Inr (False, p)
            else Inr (True, upd_flow fl (\<lambda>f. f\<lparr>flow_flags := flow_flags f AND NOT IPS_FLOW_FLAG_NAK_SEND,
                              recv_seq_num := recv_seq_num f + 1, last_seq_num := recv_seq_num f + 1, cca_ooo_pkts := 0\<rparr>) p))"

text \<open>
  \<^verbatim>\<open>_process_mq\<close>, after the packet was accepted: the call into the matched queue, or \<open>None\<close> for data of an eager
  message whose envelope is not the first one of the flow.
\<close>

definition lo32 :: "u64 \<Rightarrow> u32" where "lo32 x = ucast x"
definition hi32 :: "u64 \<Rightarrow> u32" where "hi32 x = ucast (drop_bit 32 x)"

definition mq_dispatch :: "'w ips_env \<Rightarrow> ips_recvhdrq_event \<Rightarrow> 'w ips_proto \<Rightarrow> mq_op option option run" where
  "mq_dispatch e ev p =
     (let h = ev_hdr ev; mode = h_mqhdr h; (d0, d1) = h_data h; i = ev_ipsaddr ev;
          has_flowid = (ep_flags (ipsaddrs p i) AND SESS_FLAG_HAS_FLOWID \<noteq> 0)
      in if mode \<le> MQ_MSG_LONG then
           (if mode = MQ_MSG_SHORT
            then let len = h_paylen h - ucast (h_hdr_dlen h) in Inr (Some (Some (Mq_envelope mode d0 None len (In_buffer (h_payload h)) len)))
            else if mode = MQ_MSG_TINY
            then let len = ucast (h_hdr_dlen h) in Inr (Some (Some (Mq_envelope mode d0 None len (In_header d1) len)))
            else if mode = MQ_MSG_LONG
            then Inr (Some (Some (Mq_envelope mode d0 (Some (if has_flowid then hi32 d1 else 0)) (lo32 d1) (In_buffer (h_payload h)) (h_paylen h))))
            else Inr (Some (Some (Mq_envelope mode d0 None (h_paylen h) (In_buffer (h_payload h)) (h_paylen h)))))
         else if mode = MQ_MSG_DATA then
           (if has_flowid
            then let fi = ips_proto_flowid h
              in if egr_first e i fi (app p) = Some (ucast (drop_bit 8 (lo32 d1)))
                 then Inr (Some (Some (Mq_data i fi (h_payload h) (h_paylen h)))) else Inr None
            else if egr_first e i 0 (app p) = None then Inl Undefined_Access
            else Inr (Some (Some (Mq_data i 0 (h_payload h) (h_paylen h)))))
         else if mode = MQ_MSG_RTS \<or> mode = MQ_MSG_RTS_WAIT \<or> mode = MQ_MSG_RTS_EGR then Inr (Some (Some (Mq_rts mode d0 (lo32 d1) (hi32 d1))))
         else if mode = MQ_MSG_DATA_REQ then Inr (Some (Some (Mq_data_req (lo32 d0) (h_payload h) (h_paylen h))))
         else if mode = MQ_MSG_CTS_EGR then Inr (Some (Some (Mq_cts (h_data h))))
         else Inr (Some None))"

text \<open>The packet is taken back: the number is expected again and a negative acknowledgement goes out.\<close>

definition mq_unreceive :: "'w ips_env \<Rightarrow> ips_recvhdrq_event \<Rightarrow> 'w ips_proto \<Rightarrow> 'w ips_proto run" where
  "mq_unreceive e ev p =
     (let fl = ev_flow ev; p = upd_flow fl (\<lambda>f. f\<lparr>recv_seq_num := recv_seq_num f - 1\<rparr>) p
      in if \<not> has_flag fl IPS_FLOW_FLAG_NAK_SEND p
         then if unat (flowid (flows p fl)) \<ge> EP_FLOW_LAST then Inl Undefined_Access
              else run_bind (ips_proto_send_ctrl_message e (Ep_flow (ev_ipsaddr ev) (unat (flowid (flows p fl)))) OPCODE_NAK (Ep_mask (ev_ipsaddr ev)) None p)
                (\<lambda>(err, p). Inr (if err = PSM_OK then set_flag fl IPS_FLOW_FLAG_NAK_SEND p else p))
         else Inr p)"

definition process_mq :: "'w ips_env \<Rightarrow> ips_recvhdrq_event \<Rightarrow> 'w ips_proto \<Rightarrow> 'w ips_proto run" where
  "process_mq e ev p =
     run_bind (ips_proto_is_expected_or_nak e ev p) (\<lambda>(ok, p).
       if \<not> ok then Inr p
       else run_bind (mq_dispatch e ev p) (\<lambda>r. case r of
              None \<Rightarrow> mq_unreceive e ev p
            | Some call \<Rightarrow>
                let p = (case call of None \<Rightarrow> p | Some c \<Rightarrow> p\<lparr>app := mq_call e c (app p)\<rparr>)
                in if ucast (h_flags (ev_hdr ev)) AND IPS_SEND_FLAG_ACK_REQ \<noteq> 0 \<or> has_flag (ev_flow ev) IPS_FLOW_FLAG_GEN_BECN p
                   then ips_proto_send_ack e (ev_flow ev) p else Inr p))"

definition ips_proto_process_mq_tiny :: "'w ips_env \<Rightarrow> ips_recvhdrq_event \<Rightarrow> 'w ips_proto \<Rightarrow> 'w ips_proto run" where
  "ips_proto_process_mq_tiny e ev p =
     run_bind (ips_proto_is_expected_or_nak e ev p) (\<lambda>(ok, p).
       if ok
       then let h = ev_hdr ev; len = ucast (h_hdr_dlen h);
                p = p\<lparr>app := mq_call e (Mq_envelope MQ_MSG_TINY (fst (h_data h)) None len (In_header (snd (h_data h))) len) (app p)\<rparr>
         in if ucast (h_flags h) AND IPS_SEND_FLAG_ACK_REQ \<noteq> 0 then ips_proto_send_ack e (ev_flow ev) p else Inr p
       else Inr p)"

definition process_err_chk :: "'w ips_env \<Rightarrow> ips_recvhdrq_event \<Rightarrow> 'w ips_proto \<Rightarrow> 'w ips_proto run" where
  "process_err_chk e ev p =
     (let fl = ev_flow ev
      in if ips_proto_flowid (ev_hdr ev) \<ge> EP_FLOW_LAST then Inl Undefined_Access
         else let p = upd_epaddr (ev_ipsaddr ev) (\<lambda>a. a\<lparr>err_chk_recv := err_chk_recv a + 1\<rparr>) p;
                  seq_off = sint (ucast (ucast (recv_seq_num (flows p fl)) - h_psn (ev_hdr ev)) :: u16)
           in if seq_off \<le> 0
              then let p = (if seq_off < - int (unat (ack_interval (flows p fl))) then set_flag fl IPS_FLOW_FLAG_GEN_BECN p else p)
                in run_bind (ips_proto_send_nak e fl p) (\<lambda>p. Inr (set_flag fl IPS_FLOW_FLAG_NAK_SEND p))
              else run_bind (ips_proto_send_ctrl_message e fl OPCODE_ACK (Ep_mask (ev_ipsaddr ev)) None p) (\<lambda>(_, p). Inr p))"

section \<open>Acknowledgements received\<close>

definition pio_dma_ack_valid :: "flowp \<Rightarrow> u24 \<Rightarrow> u16 \<Rightarrow> 'w ips_proto \<Rightarrow> bool" where
  "pio_dma_ack_valid fl ack_seq_num ack_window p = (case scb_unacked (flows p fl) of
     [] \<Rightarrow> False
   | s # rest \<Rightarrow>
       let ack_window_hi = ack_seq_num - seq_num (scbs p s); ack_window_lo = seq_num (scbs p (last (s # rest))) - ack_seq_num
       in \<not> (unat ack_window_hi > unat ack_window \<or> unat ack_window_lo > unat ack_window))"

definition get_tidflow :: "'w ips_env \<Rightarrow> ips_hdr \<Rightarrow> u24 \<Rightarrow> u16 \<Rightarrow> 'w ips_proto \<Rightarrow> (flowp \<times> 'w ips_proto) option" where
  "get_tidflow e h ack_seq_num ack_window p =
     (let desc_id = fst (h_data h); fl = Tidsend_flow (desc_idx desc_id)
      in if tid_send_gen e (desc_idx desc_id) \<noteq> Some (desc_genc desc_id) then None
         else case scb_unacked (flows p fl) of
             [] \<Rightarrow> None
           | s # rest \<Rightarrow>
               let ack_window_hi = ucast (sn_seq ack_seq_num) - ucast (sn_seq (seq_num (scbs p s))) :: u24;
                   ack_window_lo = ucast (sn_seq (seq_num (scbs p (last (s # rest))))) - ucast (sn_seq ack_seq_num) :: u24
               in if unat ack_window_hi > unat ack_window \<or> unat ack_window_lo > unat ack_window then None
                  else if sn_gen (seq_num (scbs p s)) \<noteq> sn_gen ack_seq_num then None
                  else Some (fl, upd_flow fl (\<lambda>f. f\<lparr>xmit_ack_num := sn_set_seq (sn_seq ack_seq_num - 1) ack_seq_num\<rparr>) p))"

text \<open>
  The head of the unacknowledged frames leaves the queue. An acknowledgement gives its credit back and
  moves the pending pointer along with it; for a negative one both are set later.
\<close>

definition unacked_remove :: "bool \<Rightarrow> u64 \<Rightarrow> ips_flow \<Rightarrow> ips_flow" where
  "unacked_remove credited s f =
     (let f = f\<lparr>scb_unacked := tl (scb_unacked f), scb_num_unacked := scb_num_unacked f - 1\<rparr>
      in if \<not> credited then f
         else let f = f\<lparr>credits := credits f + 1\<rparr>
           in if scb_pend f = Some s then f\<lparr>scb_num_pending := scb_num_pending f - 1, scb_pend := slist_first (scb_unacked f)\<rparr> else f)"

definition scb_complete :: "'w ips_env \<Rightarrow> u64 \<Rightarrow> 'w ips_proto \<Rightarrow> 'w ips_proto" where
  "scb_complete e s p = (case scb_callback (scbs p s) of
     None \<Rightarrow> p | Some cb \<Rightarrow> p\<lparr>app := completion e cb (cb_param (scbs p s)) (app p)\<rparr>)"

definition scb_release :: "'w ips_env \<Rightarrow> u64 \<Rightarrow> 'w ips_proto \<Rightarrow> 'w ips_proto run" where
  "scb_release e s p =
     run_bind (if scb_flags (scbs p s) AND IPS_SEND_FLAG_WAIT_SDMA \<noteq> 0 then ips_proto_dma_wait_until e (dma_ctr (scbs p s)) p else Inr (PSM_OK, p)) (\<lambda>(_, p).
       let p = scb_complete e s p
       in Inr (if scb_flags (scbs p s) AND IPS_SEND_FLAG_PERSISTENT = 0
               then ips_scbctrl_free (\<lambda>cb ctx p. p\<lparr>app := scb_avail e cb ctx (app p)\<rparr>) s p else p))"

text \<open>Every frame is acknowledged: the timers stop and the congestion window is reset.\<close>

definition flow_all_acked :: "flowp \<Rightarrow> 'w ips_proto \<Rightarrow> 'w ips_proto" where
  "flow_all_acked fl p = upd_flow fl (\<lambda>f. f\<lparr>timer_ack := None, timer_send := None, scb_pend := None,
     credits := flow_credits p, cwin := flow_credits p, ack_interval := ack_interval_of (flow_credits p),
     flow_flags := flow_flags f AND NOT IPS_FLOW_FLAG_CONGESTED\<rparr>) p"

lemma dma_wait_flows: "dma_wait_loop e c p = Some (err, p') \<Longrightarrow> flows p' = flows p \<and> scbs p' = scbs p"
  by (rule dma_wait_loop.raw_induct [where P = "\<lambda>e c p r. flows (snd r) = flows p \<and> scbs (snd r) = scbs p" and y = "(err, p')", simplified])
    (auto split: if_splits option.splits)

lemma free_flows [simp]: "flows (ips_scbctrl_free (\<lambda>cb ctx p. p\<lparr>app := g cb ctx (app p)\<rparr>) s p) = flows p"
  by (simp add: ips_scbctrl_free_def upd_scb_def Let_def split: option.split)

lemma complete_flows [simp]: "flows (scb_complete e s p) = flows p" "scbs (scb_complete e s p) = scbs p"
  by (simp_all add: scb_complete_def split: option.split)

lemma release_flows:
  assumes "scb_release e s p = Inr p'"
  shows "flows p' = flows p"
  using assms
  by (auto simp: scb_release_def ips_proto_dma_wait_until_def Let_def split: if_splits option.splits dest!: dma_wait_flows)

function release_loop :: "bool \<Rightarrow> 'w ips_env \<Rightarrow> flowp \<Rightarrow> u24 \<Rightarrow> 'w ips_proto \<Rightarrow> (bool \<times> 'w ips_proto) run" where
  "release_loop credited e fl ack_seq_num p = (case scb_unacked (flows p fl) of
     [] \<Rightarrow> Inl Undefined_Access
   | s # rest \<Rightarrow>
       if seq_num (scbs p s) = ack_seq_num then Inr (False, p)
       else run_bind (scb_release e s (upd_flow fl (unacked_remove credited s) p)) (\<lambda>p.
              if scb_unacked (flows p fl) = [] then Inr (True, flow_all_acked fl p)
              else release_loop credited e fl ack_seq_num p))"
  by pat_completeness auto
termination
  by (relation "measure (\<lambda>(c, e, fl, a, p). length (scb_unacked (flows p fl)))")
    (auto simp: upd_flow_def unacked_remove_def Let_def dest!: release_flows)

declare release_loop.simps [simp del]

text \<open>Congestion control on an acknowledgement; the sums are computed in \<^verbatim>\<open>int\<close>.\<close>

definition ack_window_update :: "'w ips_env \<Rightarrow> bool \<Rightarrow> flowp \<Rightarrow> 'w ips_proto \<Rightarrow> 'w ips_proto run" where
  "ack_window_update e becn fl p =
     (if becn then run_bind (cca_slow_down e (flow_path (flows p fl)) p) (\<lambda>(_, p). Inr p)
      else if cwin (flows p fl) < flow_credits p
      then let w = of_nat (min (2 * unat (cwin (flows p fl))) (unat (flow_credits p)))
        in Inr (upd_flow fl (\<lambda>f. f\<lparr>credits := credits f + (w - cwin f), cwin := w, ack_interval := ack_interval_of (credits f + (w - cwin f))\<rparr>) p)
      else Inr p)"

definition ack_flow :: "'w ips_env \<Rightarrow> ips_recvhdrq_event \<Rightarrow> flowp \<Rightarrow> u24 \<Rightarrow> 'w ips_proto \<Rightarrow> 'w ips_proto run" where
  "ack_flow e ev fl ack_seq_num p =
     run_bind (release_loop True e fl ack_seq_num p) (\<lambda>(all_acked, p).
       if all_acked then Inr p
       else run_bind (ack_window_update e (ev_becn ev) fl p) (\<lambda>p.
         run_bind (flow_flush e fl p) (\<lambda>(_, _, p). case scb_unacked (flows p fl) of
             [] \<Rightarrow> Inl Undefined_Access
           | s # _ \<Rightarrow> Inr (if abs_timeout (scbs p s) = TIMEOUT_INFINITE then upd_flow fl (\<lambda>f. f\<lparr>timer_ack := None\<rparr>) p else p))))"

definition ips_proto_process_ack :: "'w ips_env \<Rightarrow> ips_recvhdrq_event \<Rightarrow> 'w ips_proto \<Rightarrow> 'w ips_proto run" where
  "ips_proto_process_ack e ev p =
     (let h = ev_hdr ev; ack_seq_num = h_ack_seq_num h
      in if flowid_protocol h = 0
         then if ips_proto_flowid h \<ge> EP_FLOW_LAST then Inl Undefined_Access
              else if \<not> pio_dma_ack_valid (ev_flow ev) (ack_seq_num - 1) (scb_max_inflight p) p then Inr p
              else ack_flow e ev (ev_flow ev) ack_seq_num (upd_flow (ev_flow ev) (\<lambda>f. f\<lparr>xmit_ack_num := ack_seq_num - 1\<rparr>) p)
         else if flowid_protocol h = 1
         then (case get_tidflow e h (sn_set_seq (sn_seq ack_seq_num - 1) ack_seq_num) (scb_max_inflight p) p of
                 None \<Rightarrow> Inr p | Some (fl, p) \<Rightarrow> ack_flow e ev fl ack_seq_num p)
         else Inr p)"

text \<open>The frames of a TID flow are numbered again, in the generation the receiver chose.\<close>

definition ips_tidflow_nak_post_process :: "flowp \<Rightarrow> 'w ips_proto \<Rightarrow> 'w ips_proto" where
  "ips_tidflow_nak_post_process fl p =
     fold (\<lambda>s p. upd_flow fl (\<lambda>f. f\<lparr>xmit_seq_num := sn_set_seq (sn_seq (xmit_seq_num f) + 1) (xmit_seq_num f)\<rparr>)
                   (upd_scb s (\<lambda>x. x\<lparr>seq_num := xmit_seq_num (flows p fl)\<rparr>) p)) (scb_unacked (flows p fl)) p"

text \<open>
  Retransmission after a negative acknowledgement. The delay of a congested flow is computed in the
  code as \<^verbatim>\<open>offset * (rand()/RAND_MAX + 1.0)\<close>: the quotient of two integers is 0 or 1.
\<close>

definition nak_congested :: "ips_flow \<Rightarrow> ips_flow" where
  "nak_congested f =
     (let f = f\<lparr>flow_flags := flow_flags f OR IPS_FLOW_FLAG_CONGESTED\<rparr>;
          f = (if protocol f \<noteq> PSM_PROTOCOL_TIDFLOW then f\<lparr>credits := 1, cwin := 1\<rparr> else f\<lparr>credits := cwin f\<rparr>)
      in f\<lparr>ack_interval := ack_interval_of (credits f), timer_send := None\<rparr>)"

definition nak_delay :: "'w ips_env \<Rightarrow> flowp \<Rightarrow> 'w ips_proto \<Rightarrow> 'w ips_proto run" where
  "nak_delay e fl p = (case scb_pend (flows p fl) of
     None \<Rightarrow> Inl Undefined_Access
   | Some s \<Rightarrow>
       let offset = (if ack_timeout (scbs p s) \<noteq> TIMEOUT_INFINITE then drop_bit 1 (ack_timeout (scbs p s)) else 0);
           (t, p) = get_cycles e p;
           factor = (if rand_is_max e (ext p) then 2 else 1)
       in Inr (upd_flow fl (\<lambda>f. f\<lparr>timer_send := timer_request (t + offset * factor) (timer_send f)\<rparr>) (p\<lparr>ext := Suc (ext p)\<rparr>)))"

definition nak_restart :: "'w ips_env \<Rightarrow> bool \<Rightarrow> nat \<Rightarrow> flowp \<Rightarrow> 'w ips_proto \<Rightarrow> 'w ips_proto run" where
  "nak_restart e becn ipsaddr fl p =
     (let p = upd_flow fl (\<lambda>f. f\<lparr>timer_ack := None, scb_pend := slist_first (scb_unacked f), scb_num_pending := scb_num_unacked f\<rparr>) p
      in if becn then nak_delay e fl (upd_flow fl nak_congested p)
         else let p = upd_flow fl (\<lambda>f. f\<lparr>credits := cwin f, ack_interval := ack_interval_of (cwin f)\<rparr>) p
           in run_bind (flow_flush e fl p) (\<lambda>(_, num_resent, p).
                Inr (upd_epaddr ipsaddr (\<lambda>a. a\<lparr>send_rexmit := send_rexmit a + of_nat num_resent\<rparr>) p)))"

definition nak_flow :: "'w ips_env \<Rightarrow> ips_recvhdrq_event \<Rightarrow> flowp \<Rightarrow> u24 \<Rightarrow> 'w ips_proto \<Rightarrow> 'w ips_proto run" where
  "nak_flow e ev fl ack_seq_num p =
     run_bind (release_loop False e fl ack_seq_num (upd_epaddr (ev_ipsaddr ev) (\<lambda>a. a\<lparr>nak_recv := nak_recv a + 1\<rparr>) p)) (\<lambda>(all_acked, p).
       if all_acked then Inr p
       else nak_restart e (ev_becn ev) (ev_ipsaddr ev) fl
              (if protocol (flows p fl) = PSM_PROTOCOL_TIDFLOW then ips_tidflow_nak_post_process fl p else p))"

definition process_nak :: "'w ips_env \<Rightarrow> ips_recvhdrq_event \<Rightarrow> 'w ips_proto \<Rightarrow> 'w ips_proto run" where
  "process_nak e ev p =
     (let h = ev_hdr ev; ack_seq_num = h_ack_seq_num h
      in if flowid_protocol h = 0
         then if ips_proto_flowid h \<ge> EP_FLOW_LAST then Inl Undefined_Access
              else if \<not> pio_dma_ack_valid (ev_flow ev) ack_seq_num (scb_max_inflight p) p then Inr p
              else nak_flow e ev (ev_flow ev) ack_seq_num (upd_flow (ev_flow ev) (\<lambda>f. f\<lparr>xmit_ack_num := ack_seq_num - 1\<rparr>) p)
         else if flowid_protocol h = 1
         then (case get_tidflow e h ack_seq_num (scb_max_inflight p) p of
                 None \<Rightarrow> Inr p
               | Some (fl, p) \<Rightarrow> nak_flow e ev fl ack_seq_num (upd_flow fl (\<lambda>f. f\<lparr>xmit_seq_num := ucast (snd (h_data h))\<rparr>) p))
         else Inr p)"

section \<open>Dispatch\<close>

definition OPCODE_AM_REQUEST :: u8 where "OPCODE_AM_REQUEST = 0x70"
definition OPCODE_AM_REPLY :: u8 where "OPCODE_AM_REPLY = 0x71"
definition OPCODE_AM_REQUEST_NOREPLY :: u8 where "OPCODE_AM_REQUEST_NOREPLY = 0x72"

text \<open>
  The first case of \<^verbatim>\<open>ips_proto_process_packet_error\<close>: an eager packet whose payload was dropped because the eager
  buffers are full (\<open>data_err\<close>: its header is damaged too; \<open>known\<close>: its sender is in the endpoint table).
\<close>

definition overflow_nak :: "'w ips_env \<Rightarrow> ips_recvhdrq_event \<Rightarrow> 'w ips_proto \<Rightarrow> 'w ips_proto run" where
  "overflow_nak e ev p =
     (let fl = ev_flow ev; sequence_num = ucast (h_psn (ev_hdr ev)) :: u24;
          diff = sint (ucast (sequence_num - recv_seq_num (flows p fl)) :: u16)
      in if diff \<ge> 0 \<and> \<not> has_flag fl IPS_FLOW_FLAG_NAK_SEND p
         then ips_proto_send_nak e fl
           (upd_flow fl (\<lambda>f. f\<lparr>flow_flags := flow_flags f OR IPS_FLOW_FLAG_GEN_BECN OR IPS_FLOW_FLAG_NAK_SEND,
                               last_seq_num := sequence_num, cca_ooo_pkts := 0\<rparr>)
             (upd_epaddr (ev_ipsaddr ev) (\<lambda>a. a\<lparr>congestion_pkts := congestion_pkts a + 1\<rparr>) p))
         else Inr p)"

definition process_eager_overflow :: "'w ips_env \<Rightarrow> bool \<Rightarrow> bool \<Rightarrow> ips_recvhdrq_event \<Rightarrow> 'w ips_proto \<Rightarrow> 'w ips_proto run" where
  "process_eager_overflow e data_err known ev p =
     (let t = h_sub_opcode (ev_hdr ev)
      in if data_err then Inr p
         else if t = OPCODE_SEQ_MQ_HDR \<or> t = OPCODE_SEQ_MQ_CTRL \<or> t = OPCODE_AM_REQUEST \<or> t = OPCODE_AM_REQUEST_NOREPLY \<or> t = OPCODE_AM_REPLY
         then if \<not> known then Inr p
              else if ips_proto_flowid (ev_hdr ev) \<ge> EP_FLOW_LAST then Inl Undefined_Access
              else run_bind (overflow_nak e ev p) (ips_proto_process_ack e ev)
         else Inr p)"

definition process_cca_becn :: "'w ips_env \<Rightarrow> ips_recvhdrq_event \<Rightarrow> 'w ips_proto \<Rightarrow> 'w ips_proto run" where
  "process_cca_becn e ev p =
     (if flowid_protocol (ev_hdr ev) \<noteq> 0 then Inl Assert_Abort
      else if ips_proto_flowid (ev_hdr ev) \<ge> EP_FLOW_LAST then Inl Undefined_Access
      else run_bind (cca_slow_down e (flow_path (flows p (ev_flow ev))) p) (\<lambda>(_, p). Inr p))"

definition ips_proto_process_packet_inner ::
  "'w ips_env \<Rightarrow> (ips_recvhdrq_event \<Rightarrow> 'w ips_proto \<Rightarrow> 'w ips_proto run) \<Rightarrow> ips_recvhdrq_event \<Rightarrow> 'w ips_proto \<Rightarrow> 'w ips_proto run" where
  "ips_proto_process_packet_inner e other ev p =
     (let t = h_sub_opcode (ev_hdr ev)
      in case ev_ptype ev of
          RCVHQ_RCV_TYPE_EAGER \<Rightarrow>
            if t = OPCODE_SEQ_MQ_HDR \<or> t = OPCODE_SEQ_MQ_CTRL then run_bind (process_mq e ev p) (ips_proto_process_ack e ev)
            else if t = OPCODE_ACK then ips_proto_process_ack e ev p
            else if t = OPCODE_NAK then process_nak e ev p
            else if t = OPCODE_FLOW_CCA_BECN then process_cca_becn e ev p
            else if t = OPCODE_ERR_CHK \<or> t = OPCODE_ERR_CHK_OLD then process_err_chk e ev p
            else if t = OPCODE_ERR_CHK_PLS then Inr p
            else other ev p
        | RCVHQ_RCV_TYPE_EXPECTED \<Rightarrow> other ev p
        | _ \<Rightarrow> Inl (Error_Exit PSM_INTERNAL_ERR))"

definition ips_proto_process_packet ::
  "'w ips_env \<Rightarrow> (ips_recvhdrq_event \<Rightarrow> 'w ips_proto \<Rightarrow> 'w ips_proto run) \<Rightarrow> ips_recvhdrq_event \<Rightarrow> 'w ips_proto \<Rightarrow> 'w ips_proto run" where
  "ips_proto_process_packet e other ev p =
     (if h_sub_opcode (ev_hdr ev) = OPCODE_SEQ_MQ_HDR
      then run_bind (ips_proto_process_mq_tiny e ev p) (ips_proto_process_ack e ev)
      else ips_proto_process_packet_inner e other ev p)"

end
