(* ===== verification/Ips_Ack.thy ===== *)
theory Ips_Ack
  imports Ips_Recv
begin

text \<open>
  What acknowledgements do to a consistent flow: which are valid, what the release of the frames they cover
  leaves, and the two handlers as a whole.
\<close>

unbundle bit_operations_syntax

section \<open>Releasing a block\<close>

text \<open>The device completes what it was given, or fails: a wait for it ends.\<close>

definition dma_completes :: "'w ips_env \<Rightarrow> bool" where
  "dma_completes e \<longleftrightarrow> (\<forall>c p. dma_wait_loop e c p \<noteq> None)"

text \<open>A record of completions: a completion callback appends the entry of its call, the callback for free blocks appends nothing.\<close>

definition completion_log :: "'w ips_env \<Rightarrow> (nat \<Rightarrow> u64 \<Rightarrow> 'b list) \<Rightarrow> ('w \<Rightarrow> 'b list) \<Rightarrow> bool" where
  "completion_log e lg L \<longleftrightarrow> (\<forall>cb x w. L (completion e cb x w) = L w @ lg cb x) \<and> (\<forall>cb x w. L (scb_avail e cb x w) = L w)"

definition completions :: "(nat \<Rightarrow> u64 \<Rightarrow> 'b list) \<Rightarrow> ips_scb \<Rightarrow> 'b list" where
  "completions lg x = (case scb_callback x of None \<Rightarrow> [] | Some cb \<Rightarrow> lg cb (cb_param x))"

definition persistent :: "ips_scb \<Rightarrow> bool" where
  "persistent x \<longleftrightarrow> scb_flags x AND IPS_SEND_FLAG_PERSISTENT \<noteq> 0"

text \<open>What releasing blocks of a flow may change.\<close>

definition rel_view :: "flowp \<Rightarrow> 'w ips_proto \<Rightarrow> 'w ips_proto" where
  "rel_view fl p = p\<lparr>scb_num_cur := 0, scb_free := [], sbuf_num_cur := 0, sbuf_free := [], scbs := (\<lambda>_. scb_calloc),
     flows := (flows p)(fl := undefined), iovec_cntr_last_completed := 0, ext := 0, app := undefined\<rparr>"

lemma rel_viewD:
  assumes "rel_view fl p' = rel_view fl p"
  shows "g \<noteq> fl \<Longrightarrow> flows p' g = flows p g" "paths p' = paths p" "ipsaddrs p' = ipsaddrs p" "masks p' = masks p" "ctrlqs p' = ctrlqs p"
    "wire p' = wire p" "pending_acks p' = pending_acks p" "scb_max_inflight p' = scb_max_inflight p" "flow_credits p' = flow_credits p"
    "scb_num p' = scb_num p" "ccti_limit p' = ccti_limit p" "proto_flags p' = proto_flags p" "ccti_increase p' = ccti_increase p"
proof -
  have a: "h (rel_view fl p') = h (rel_view fl p)" for h :: "'a ips_proto \<Rightarrow> 'c" using assms by simp
  show "g \<noteq> fl \<Longrightarrow> flows p' g = flows p g" using a [of "\<lambda>p. flows p g"] by (simp add: rel_view_def)
  show "paths p' = paths p" "ipsaddrs p' = ipsaddrs p" "masks p' = masks p" "ctrlqs p' = ctrlqs p"
    "wire p' = wire p" "pending_acks p' = pending_acks p" "scb_max_inflight p' = scb_max_inflight p" "flow_credits p' = flow_credits p"
    "scb_num p' = scb_num p" "ccti_limit p' = ccti_limit p" "proto_flags p' = proto_flags p" "ccti_increase p' = ccti_increase p"
    using a [of paths] a [of ipsaddrs] a [of masks] a [of ctrlqs] a [of wire] a [of pending_acks] a [of scb_max_inflight] a [of flow_credits]
      a [of scb_num] a [of ccti_limit] a [of proto_flags] a [of ccti_increase] by (simp_all add: rel_view_def)
qed

lemma rel_view_flow [simp]: "rel_view fl (upd_flow fl g p) = rel_view fl p"
  by (simp add: rel_view_def upd_flow_def)

lemma rel_view_all_acked [simp]: "rel_view fl (flow_all_acked fl p) = rel_view fl p"
  by (simp add: flow_all_acked_def)

lemma dma_wait_rel:
  assumes "dma_wait_loop e d p = Some r"
  shows "snd r = p\<lparr>ext := ext (snd r), iovec_cntr_last_completed := iovec_cntr_last_completed (snd r)\<rparr>"
proof (rule dma_wait_loop.raw_induct [where P = "\<lambda>e d p r. snd r = p\<lparr>ext := ext (snd r),
    iovec_cntr_last_completed := iovec_cntr_last_completed (snd r)\<rparr>", OF _ assms])
  fix loop and e :: "'a ips_env" and d and p :: "'a ips_proto" and r
  assume IH: "\<And>e d p r. loop e d p = Some r \<Longrightarrow> snd r = p\<lparr>ext := ext (snd r), iovec_cntr_last_completed := iovec_cntr_last_completed (snd r)\<rparr>"
    and eq: "(if sint (iovec_cntr_last_completed p - d) < 0
      then (case sdma_complete e (ext p) of
              None \<Rightarrow> Some (PSM_EP_DEVICE_FAILURE, p\<lparr>ext := Suc (ext p)\<rparr>)
            | Some c \<Rightarrow> loop e d (p\<lparr>ext := Suc (ext p), iovec_cntr_last_completed := c\<rparr>))
      else Some (PSM_OK, p)) = Some r"
  show "snd r = p\<lparr>ext := ext (snd r), iovec_cntr_last_completed := iovec_cntr_last_completed (snd r)\<rparr>"
    using eq by (auto dest: IH split: if_splits option.splits)
qed

lemma dma_wait_total:
  assumes "dma_completes e"
  shows "\<exists>err p'. ips_proto_dma_wait_until e c p = Inr (err, p') \<and>
    p' = p\<lparr>ext := ext p', iovec_cntr_last_completed := iovec_cntr_last_completed p'\<rparr>"
  using assms dma_wait_rel [of e c p] by (fastforce simp: dma_completes_def ips_proto_dma_wait_until_def split: option.splits)

lemma release_ok:
  assumes inv: "scb_inv p" and s: "s \<in> scb_held p" and e: "dma_completes e" and L: "completion_log e lg L"
  shows "\<exists>p'. scb_release e s p = Inr p' \<and> scb_inv p' \<and> scb_held p' = scb_held p - (if persistent (scbs p s) then {} else {s}) \<and>
    (\<forall>t. t \<noteq> s \<longrightarrow> scbs p' t = scbs p t) \<and> flows p' = flows p \<and> rel_view fl p' = rel_view fl p \<and> L (app p') = L (app p) @ completions lg (scbs p s)"
proof -
  obtain err p1 where p1: "(if scb_flags (scbs p s) AND IPS_SEND_FLAG_WAIT_SDMA \<noteq> 0 then ips_proto_dma_wait_until e (dma_ctr (scbs p s)) p
      else Inr (PSM_OK, p)) = Inr (err, p1)" "p1 = p\<lparr>ext := ext p1, iovec_cntr_last_completed := iovec_cntr_last_completed p1\<rparr>"
    using dma_wait_total [OF e, of "dma_ctr (scbs p s)" p] by (cases "scb_flags (scbs p s) AND IPS_SEND_FLAG_WAIT_SDMA \<noteq> 0") auto
  define p2 where "p2 = scb_complete e s p1"
  have t: "ips_scbctrl.truncate p2 = ips_scbctrl.truncate p" unfolding p2_def
    by (subst p1(2)) (simp add: scb_complete_def ips_scbctrl.defs split: option.split)
  note tr = scb_truncate [OF t]
  have f2: "flows p2 = flows p" by (simp add: p2_def) (subst p1(2), simp)
  have v2: "rel_view fl p2 = rel_view fl p" unfolding p2_def
    by (subst p1(2)) (simp add: scb_complete_def rel_view_def split: option.split)
  have L2: "L (app p2) = L (app p) @ completions lg (scbs p s)"
  proof -
    have "app p1 = app p" "scbs p1 = scbs p" by (subst p1(2), simp)+
    then show ?thesis using L by (simp add: p2_def scb_complete_def completions_def completion_log_def split: option.split)
  qed
  have u: "scb_release e s p = Inr (if \<not> persistent (scbs p s)
      then ips_scbctrl_free (\<lambda>cb ctx p. p\<lparr>app := scb_avail e cb ctx (app p)\<rparr>) s p2 else p2)"
    unfolding scb_release_def p1(1) run_bind_simps prod.case Let_def p2_def [symmetric] tr(4) persistent_def not_not by (rule refl)
  show ?thesis
  proof (cases "persistent (scbs p s)")
    case True
    then show ?thesis using u tr inv f2 v2 L2 by auto
  next
    case False
    define p3 where "p3 = ips_scbctrl_free (\<lambda>cb ctx p. p\<lparr>app := scb_avail e cb ctx (app p)\<rparr>) s p2"
    have "scb_call_ok (\<lambda>cb ctx p. p\<lparr>app := scb_avail e cb ctx (app p)\<rparr>)" by (simp add: scb_call_ok_def ips_scbctrl.defs)
    note fr = free_ok [OF _ _ this, of p2 s, folded p3_def]
    have "rel_view fl p3 = rel_view fl p2" by (simp add: p3_def ips_scbctrl_free_def upd_scb_def rel_view_def Let_def split: option.split)
    moreover have "L (app p3) = L (app p2)"
      using L by (simp add: p3_def ips_scbctrl_free_def upd_scb_def Let_def completion_log_def split: option.split)
    moreover have "flows p3 = flows p2" by (simp add: p3_def)
    ultimately show ?thesis using False u fr tr inv s f2 v2 L2 by (auto simp: p3_def [symmetric])
  qed
qed

section \<open>The loop\<close>

lemma release_loop_ok:
  assumes "scb_inv p" "scb_unacked (flows p fl) = ss @ rest" "distinct (ss @ rest)" "set (ss @ rest) \<subseteq> scb_held p" "ss @ rest \<noteq> []"
    "\<forall>s \<in> set ss. seq_num (scbs p s) \<noteq> a" "rest \<noteq> [] \<Longrightarrow> seq_num (scbs p (hd rest)) = a" "dma_completes e" "completion_log e lg L"
  shows "\<exists>p'. release_loop c e fl a p = Inr (rest = [], p') \<and> scb_inv p' \<and>
    scb_held p' = scb_held p - {s \<in> set ss. \<not> persistent (scbs p s)} \<and> (\<forall>t. t \<notin> set ss \<longrightarrow> scbs p' t = scbs p t) \<and>
    rel_view fl p' = rel_view fl p \<and> L (app p') = L (app p) @ concat (map (\<lambda>s. completions lg (scbs p s)) ss) \<and>
    flows p' fl = (if rest = [] then flows (flow_all_acked fl (upd_flow fl (fold (unacked_remove c) ss) p)) fl else fold (unacked_remove c) ss (flows p fl))"
  using assms(1-7)
proof (induction ss arbitrary: p)
  case Nil
  then obtain s rest' where "rest = s # rest'" by (cases rest) auto
  then show ?case using Nil by (subst release_loop.simps) auto
next
  case (Cons s ss)
  define p0 where "p0 = upd_flow fl (unacked_remove c s) p"
  have t0: "ips_scbctrl.truncate p0 = ips_scbctrl.truncate p" by (simp add: p0_def upd_flow_def ips_scbctrl.defs)
  note tr = scb_truncate [OF t0]
  have f0: "scb_unacked (flows p0 fl) = ss @ rest" using Cons.prems(2) by (simp add: p0_def upd_flow_def unacked_remove_def Let_def)
  obtain p1 where p1: "scb_release e s p0 = Inr p1" "scb_inv p1" "scb_held p1 = scb_held p - (if persistent (scbs p s) then {} else {s})"
    "\<forall>t. t \<noteq> s \<longrightarrow> scbs p1 t = scbs p t" "flows p1 = flows p0" "rel_view fl p1 = rel_view fl p0" "L (app p1) = L (app p0) @ completions lg (scbs p s)"
    using release_ok [of p0 s e lg L fl] Cons.prems(1,4) tr assms(8,9) by auto
  have a0: "app p0 = app p" "flow_credits p0 = flow_credits p" by (simp_all add: p0_def upd_flow_def)
  have u: "release_loop c e fl a p = (if ss @ rest = [] then Inr (True, flow_all_acked fl p1) else release_loop c e fl a p1)"
    using Cons.prems(2,6) p1(1,5) f0 by (subst release_loop.simps) (simp add: p0_def [symmetric])
  have v: "rel_view fl p1 = rel_view fl p" using p1(6) by (simp add: p0_def)
  show ?case
  proof (cases "ss @ rest = []")
    case True
    have fc: "flow_credits p1 = flow_credits p" using v by (rule rel_viewD)
    have "flows (flow_all_acked fl p1) fl = flows (flow_all_acked fl (upd_flow fl (fold (unacked_remove c) [s]) p)) fl"
      using p1(5) fc by (simp add: flow_all_acked_def upd_flow_def p0_def)
    moreover have "ips_scbctrl.truncate (flow_all_acked fl p1) = ips_scbctrl.truncate p1"
      by (simp add: flow_all_acked_def upd_flow_def ips_scbctrl.defs)
    note scb_truncate [OF this]
    moreover have "app (flow_all_acked fl p1) = app p1" by (simp add: flow_all_acked_def upd_flow_def)
    ultimately show ?thesis using True u p1 v a0 by (intro exI [of _ "flow_all_acked fl p1"]) auto
  next
    case False
    have s: "s \<notin> set ss" "s \<notin> set rest" using Cons.prems(3) by auto
    have sc: "scbs p1 t = scbs p t" if "t \<in> set ss \<union> set rest" for t using p1(4) that s by auto
    have m: "map (\<lambda>s. completions lg (scbs p1 s)) ss = map (\<lambda>s. completions lg (scbs p s)) ss" using sc by simp
    have h: "{s \<in> set ss. \<not> persistent (scbs p1 s)} = {s \<in> set ss. \<not> persistent (scbs p s)}" using sc by auto
    have "rest \<noteq> [] \<Longrightarrow> scbs p1 (hd rest) = scbs p (hd rest)" using sc by simp
    then have "rest \<noteq> [] \<Longrightarrow> seq_num (scbs p1 (hd rest)) = a" using Cons.prems(7) by simp
    moreover have "\<forall>s \<in> set ss. seq_num (scbs p1 s) \<noteq> a" using Cons.prems(6) sc by simp
    moreover have "set (ss @ rest) \<subseteq> scb_held p1" using Cons.prems(4) p1(3) s by auto
    moreover have "scb_unacked (flows p1 fl) = ss @ rest" using p1(5) f0 by simp
    ultimately obtain p' where p': "release_loop c e fl a p1 = Inr (rest = [], p')" "scb_inv p'"
      "scb_held p' = scb_held p1 - {s \<in> set ss. \<not> persistent (scbs p1 s)}" "\<forall>t. t \<notin> set ss \<longrightarrow> scbs p' t = scbs p1 t"
      "rel_view fl p' = rel_view fl p1" "L (app p') = L (app p1) @ concat (map (\<lambda>s. completions lg (scbs p1 s)) ss)"
      "flows p' fl = (if rest = [] then flows (flow_all_acked fl (upd_flow fl (fold (unacked_remove c) ss) p1)) fl else fold (unacked_remove c) ss (flows p1 fl))"
      using Cons.IH [of p1] p1(2) Cons.prems(3) False by auto
    have fc: "flow_credits p1 = flow_credits p" using v by (rule rel_viewD)
    have "scb_held p' = scb_held p - {t \<in> set (s # ss). \<not> persistent (scbs p t)}" using p'(3) p1(3) h by (auto split: if_splits)
    moreover have "flows p' fl = (if rest = [] then flows (flow_all_acked fl (upd_flow fl (fold (unacked_remove c) (s # ss)) p)) fl
        else fold (unacked_remove c) (s # ss) (flows p fl))"
      using p'(7) p1(5) fc by (simp add: flow_all_acked_def upd_flow_def p0_def)
    ultimately show ?thesis using False u p' p1(4,7) v a0 m by (intro exI [of _ p']) auto
  qed
qed

section \<open>The queue of a flow\<close>

definition flow_q :: "u64 list \<Rightarrow> u64 list \<Rightarrow> ips_flow \<Rightarrow> bool" where
  "flow_q inflight pending f \<longleftrightarrow> scb_unacked f = inflight @ pending \<and> scb_pend f = slist_first pending \<and> distinct (inflight @ pending) \<and>
     unat (scb_num_unacked f) = length (inflight @ pending) \<and> unat (scb_num_pending f) = length pending"

lemma flow_rep_q:
  "flow_rep fl inflight pending p \<longleftrightarrow> flow_q inflight pending (flows p fl) \<and> set (inflight @ pending) \<subseteq> scb_held p \<and>
     (\<forall>i < length (inflight @ pending). seq_num (scbs p ((inflight @ pending) ! i)) =
        xmit_seq_num (flows p fl) - of_nat (length (inflight @ pending) - i))"
  by (auto simp: flow_rep_def flow_q_def Let_def)

text \<open>The fields of a flow that the release of frames leaves alone.\<close>

definition rem_view :: "ips_flow \<Rightarrow> ips_flow" where
  "rem_view f = f\<lparr>scb_unacked := [], scb_num_unacked := 0, credits := 0, scb_num_pending := 0, scb_pend := None\<rparr>"

lemma rem_view_simps [simp]:
  "xmit_seq_num (rem_view f) = xmit_seq_num f" "recv_seq_num (rem_view f) = recv_seq_num f" "flow_path (rem_view f) = flow_path f"
  "protocol (rem_view f) = protocol f" "transfer (rem_view f) = transfer f" "flow_ipsaddr (rem_view f) = flow_ipsaddr f"
  "flowid (rem_view f) = flowid f" "flow_flags (rem_view f) = flow_flags f" "cwin (rem_view f) = cwin f" "last_seq_num (rem_view f) = last_seq_num f"
  by (simp_all add: rem_view_def)

lemma rem_view_remove [simp]: "rem_view (unacked_remove c s f) = rem_view f"
  by (simp add: rem_view_def unacked_remove_def Let_def)

lemma rem_view_fold [simp]: "rem_view (fold (unacked_remove c) ss f) = rem_view f"
  by (induction ss arbitrary: f) simp_all

lemma remove_step:
  assumes "flow_q inflight pending f" "inflight @ pending = s # q"
  shows "flow_q (drop 1 inflight) (drop (1 - length inflight) pending) (unacked_remove True s f)"
    "credits (unacked_remove True s f) = credits f + 1"
proof -
  have n: "unat (scb_num_unacked f - 1) = length q" by (rule unat_pred) (use assms in \<open>simp add: flow_q_def\<close>)
  show "credits (unacked_remove True s f) = credits f + 1" by (simp add: unacked_remove_def Let_def)
  show "flow_q (drop 1 inflight) (drop (1 - length inflight) pending) (unacked_remove True s f)"
  proof (cases inflight)
    case Nil
    then have q: "pending = s # q" using assms(2) by simp
    have "unat (scb_num_pending f - 1) = length q" by (rule unat_pred) (use assms q in \<open>simp add: flow_q_def\<close>)
    then show ?thesis using assms Nil q n by (simp add: flow_q_def unacked_remove_def Let_def)
  next
    case (Cons x xs)
    then have q: "x = s" "q = xs @ pending" using assms(2) by auto
    then have "scb_pend f \<noteq> Some s" using assms(1) Cons by (cases pending) (auto simp: flow_q_def)
    then show ?thesis using assms Cons q n by (simp add: flow_q_def unacked_remove_def Let_def)
  qed
qed

lemma remove_fold:
  assumes "flow_q inflight pending f" "k \<le> length (inflight @ pending)"
  shows "flow_q (drop k inflight) (drop (k - length inflight) pending) (fold (unacked_remove True) (take k (inflight @ pending)) f)"
    "credits (fold (unacked_remove True) (take k (inflight @ pending)) f) = credits f + of_nat k"
proof -
  have "flow_q (drop k inflight) (drop (k - length inflight) pending) (fold (unacked_remove True) (take k (inflight @ pending)) f) \<and>
    credits (fold (unacked_remove True) (take k (inflight @ pending)) f) = credits f + of_nat k"
    using assms
  proof (induction k arbitrary: inflight pending f)
    case (Suc k)
    then obtain s q where q: "inflight @ pending = s # q" by (cases "inflight @ pending") auto
    let ?i = "drop 1 inflight" and ?p = "drop (1 - length inflight) pending" and ?f = "unacked_remove True s f"
    have st: "flow_q ?i ?p ?f" "credits ?f = credits f + 1" using remove_step [OF Suc.prems(1) q] by auto
    have q': "?i @ ?p = q" using q by (cases inflight) auto
    have l: "k \<le> length (?i @ ?p)" using Suc.prems(2) q q' by simp
    have "drop k ?i = drop (Suc k) inflight" "drop (k - length ?i) ?p = drop (Suc k - length inflight) pending"
      by (cases inflight; simp)+
    moreover have "fold (unacked_remove True) (take (Suc k) (inflight @ pending)) f = fold (unacked_remove True) (take k (?i @ ?p)) ?f"
      unfolding q q' by simp
    ultimately show ?case using Suc.IH [OF st(1) l] st(2) by simp
  qed simp
  then show "flow_q (drop k inflight) (drop (k - length inflight) pending) (fold (unacked_remove True) (take k (inflight @ pending)) f)"
    "credits (fold (unacked_remove True) (take k (inflight @ pending)) f) = credits f + of_nat k" by auto
qed

lemma remove_fold_nak:
  "fold (unacked_remove False) ss f = f\<lparr>scb_unacked := drop (length ss) (scb_unacked f), scb_num_unacked := scb_num_unacked f - of_nat (length ss)\<rparr>"
  by (induction ss arbitrary: f) (simp_all add: unacked_remove_def drop_Suc)

section \<open>Valid acknowledgements\<close>

lemma unat_psn: "n < 2 ^ 24 \<Longrightarrow> unat (of_nat n :: u24) = n"
  by (simp add: unat_of_nat)

lemma psn_inj:
  assumes "(x :: u24) - of_nat i = x - of_nat j" "i < 2 ^ 24" "j < 2 ^ 24"
  shows "i = j"
proof -
  have "(of_nat i :: u24) = of_nat j" using assms(1) by simp
  then have "unat (of_nat i :: u24) = unat (of_nat j :: u24)" by simp
  then show ?thesis using assms(2,3) by (simp add: unat_psn)
qed

text \<open>
  A number is valid for a flow exactly when it is the sequence number of a frame of its queue, and both ends of the
  queue are within the window.
\<close>

lemma ack_valid_iff:
  assumes rep: "flow_rep fl inflight pending p" and n: "n = length (inflight @ pending)" "n < 2 ^ 24"
  shows "pio_dma_ack_valid fl x w p \<longleftrightarrow>
    (\<exists>k < n. x = xmit_seq_num (flows p fl) - of_nat (n - k) \<and> k \<le> unat w \<and> n - 1 - k \<le> unat w)"
proof (cases "n = 0")
  case True
  then show ?thesis using rep n by (simp add: pio_dma_ack_valid_def flow_rep_def Let_def)
next
  case False
  define q where "q = inflight @ pending"
  define t where "t = xmit_seq_num (flows p fl)"
  have q: "scb_unacked (flows p fl) = q" "\<And>i. i < n \<Longrightarrow> seq_num (scbs p (q ! i)) = t - of_nat (n - i)" "length q = n"
    using rep n by (auto simp: flow_rep_def Let_def q_def t_def)
  obtain s rest where sr: "q = s # rest" using False q(3) by (cases q) auto
  have "seq_num (scbs p s) = t - of_nat n" using q(2) [of 0] False sr by simp
  moreover have "seq_num (scbs p (last q)) = t - 1" using q(2) [of "n - 1"] False q(3) last_conv_nth [of q] by auto
  ultimately have v: "pio_dma_ack_valid fl x w p \<longleftrightarrow> unat (x - (t - of_nat n)) \<le> unat w \<and> unat (t - 1 - x) \<le> unat w"
    using q(1) sr by (auto simp: pio_dma_ack_valid_def Let_def not_less)
  have w: "unat w < 2 ^ 16" using unsigned_less [of w, where 'a = nat] by simp
  have hi: "unat (x - (t - of_nat n)) = k \<and> unat (t - 1 - x) = n - 1 - k" if "k < n" "x = t - of_nat (n - k)" for k
  proof -
    have "x - (t - of_nat n) = of_nat n - of_nat (n - k)" using that(2) by simp
    also have "\<dots> = of_nat k" using that(1) by (simp add: of_nat_diff)
    finally have 1: "unat (x - (t - of_nat n)) = k" using that(1) n(2) by (simp add: unat_psn)
    have "t - 1 - x = of_nat (n - k) - 1" using that(2) by simp
    also have "\<dots> = of_nat (n - 1 - k)" using that(1) by (simp add: of_nat_diff)
    finally have "t - 1 - x = of_nat (n - 1 - k)" .
    moreover have "n - 1 - k < 2 ^ 24" using n(2) by simp
    ultimately have "unat (t - 1 - x) = n - 1 - k" by (simp only: unat_psn)
    then show ?thesis using 1 by simp
  qed
  show ?thesis unfolding v t_def [symmetric]
  proof
    assume a: "unat (x - (t - of_nat n)) \<le> unat w \<and> unat (t - 1 - x) \<le> unat w"
    define k where "k = unat (x - (t - of_nat n))"
    have "unat (x - (t - of_nat n)) + unat (t - 1 - x) = unat ((x - (t - of_nat n)) + (t - 1 - x))"
      using a w by (intro unat_plus_no_wrap [symmetric]) simp
    also have "(x - (t - of_nat n)) + (t - 1 - x) = of_nat (n - 1)" using False by (simp add: of_nat_diff)
    finally have "k + unat (t - 1 - x) = unat (of_nat (n - 1) :: u24)" by (simp only: k_def)
    moreover have "n - 1 < 2 ^ 24" using n(2) by simp
    ultimately have "k + unat (t - 1 - x) = n - 1" by (simp only: unat_psn)
    then have k: "k \<le> n - 1" "k < n" using False by simp_all
    have "of_nat k = x - (t - of_nat n)" by (simp add: k_def)
    moreover have "(of_nat (n - k) :: u24) = of_nat n - of_nat k" using k(2) by (simp add: of_nat_diff)
    ultimately have x: "x = t - of_nat (n - k)" by simp
    show "\<exists>k < n. x = t - of_nat (n - k) \<and> k \<le> unat w \<and> n - 1 - k \<le> unat w"
      using hi [OF k(2) x] x k(2) a by (intro exI [of _ k]) simp
  qed (use hi in auto)
qed

section \<open>Releasing the acknowledged frames\<close>

text \<open>
  The state after the first \<open>k\<close> frames of a flow were released: everything but the flow, the released blocks and
  the pool is as before.
\<close>

definition released :: "flowp \<Rightarrow> u64 list \<Rightarrow> (nat \<Rightarrow> u64 \<Rightarrow> 'b list) \<Rightarrow> ('w \<Rightarrow> 'b list) \<Rightarrow> 'w ips_proto \<Rightarrow> 'w ips_proto \<Rightarrow> bool" where
  "released fl ss lg L p p' \<longleftrightarrow> scb_inv p' \<and> scb_held p' = scb_held p - {s \<in> set ss. \<not> persistent (scbs p s)} \<and>
     (\<forall>t. t \<notin> set ss \<longrightarrow> scbs p' t = scbs p t) \<and> rel_view fl p' = rel_view fl p \<and>
     L (app p') = L (app p) @ concat (map (\<lambda>s. completions lg (scbs p s)) ss)"

lemma released_run:
  assumes rep: "flow_rep fl inflight pending p" and inv: "scb_inv p" and e: "dma_completes e" "completion_log e lg L"
    and n: "n = length (inflight @ pending)" "n < 2 ^ 24" "k \<le> n" "0 < n" and a: "a = xmit_seq_num (flows p fl) - of_nat (n - k)"
  shows "\<exists>p'. release_loop c e fl a p = Inr (k = n, p') \<and> released fl (take k (inflight @ pending)) lg L p p' \<and>
    flows p' fl = (if k = n then flows (flow_all_acked fl (upd_flow fl (fold (unacked_remove c) (inflight @ pending)) p)) fl
      else fold (unacked_remove c) (take k (inflight @ pending)) (flows p fl))"
proof -
  define q where "q = inflight @ pending"
  have q: "scb_unacked (flows p fl) = take k q @ drop k q" "distinct (take k q @ drop k q)" "set (take k q @ drop k q) \<subseteq> scb_held p"
    "take k q @ drop k q \<noteq> []" and seq: "\<And>i. i < n \<Longrightarrow> seq_num (scbs p (q ! i)) = xmit_seq_num (flows p fl) - of_nat (n - i)"
    using rep n by (auto simp: flow_rep_def Let_def q_def simp del: take_append drop_append)
  have ne: "drop k q = [] \<longleftrightarrow> k = n" using n by (auto simp: q_def)
  have "\<forall>s \<in> set (take k q). seq_num (scbs p s) \<noteq> a"
  proof
    fix s assume "s \<in> set (take k q)"
    then obtain i where i: "i < k" "s = q ! i" by (auto simp: in_set_conv_nth)
    have "n - i < 2 ^ 24" "n - k < 2 ^ 24" "n - i \<noteq> n - k" "i < n" using i(1) n(2,3) by linarith+
    then show "seq_num (scbs p s) \<noteq> a" using seq [of i] psn_inj [of "xmit_seq_num (flows p fl)" "n - i" "n - k"] unfolding a i(2) by metis
  qed
  moreover have "drop k q \<noteq> [] \<Longrightarrow> seq_num (scbs p (hd (drop k q))) = a"
  proof -
    assume d: "drop k q \<noteq> []"
    then have "hd (drop k q) = q ! k" "k < n" using ne n(3) by (simp_all add: hd_drop_conv_nth)
    then show ?thesis using seq [of k] a by simp
  qed
  ultimately obtain p' where "release_loop c e fl a p = Inr (drop k q = [], p')" "scb_inv p'"
    "scb_held p' = scb_held p - {s \<in> set (take k q). \<not> persistent (scbs p s)}" "\<forall>t. t \<notin> set (take k q) \<longrightarrow> scbs p' t = scbs p t"
    "rel_view fl p' = rel_view fl p" "L (app p') = L (app p) @ concat (map (\<lambda>s. completions lg (scbs p s)) (take k q))"
    "flows p' fl = (if drop k q = [] then flows (flow_all_acked fl (upd_flow fl (fold (unacked_remove c) (take k q)) p)) fl
      else fold (unacked_remove c) (take k q) (flows p fl))"
    using release_loop_ok [OF inv q _ _ e, of a c] by blast
  moreover have "k = n \<Longrightarrow> take k q = q" using n by (simp add: q_def)
  ultimately show ?thesis using ne by (intro exI [of _ p']) (auto simp: released_def q_def [symmetric])
qed

lemma released_blocks:
  assumes rep: "flow_rep fl inflight pending p" and r: "released fl (take k (inflight @ pending)) lg L p p'" and q: "q = drop k (inflight @ pending)"
    and x: "xmit_seq_num (flows p' fl) = xmit_seq_num (flows p fl)"
  shows "set q \<subseteq> scb_held p'" "\<forall>i < length q. seq_num (scbs p' (q ! i)) = xmit_seq_num (flows p' fl) - of_nat (length q - i)"
proof -
  define Q where "Q = inflight @ pending"
  have Q: "distinct Q" "set Q \<subseteq> scb_held p" "\<And>i. i < length Q \<Longrightarrow> seq_num (scbs p (Q ! i)) = xmit_seq_num (flows p fl) - of_nat (length Q - i)"
    using rep by (auto simp: flow_rep_def Let_def Q_def)
  have dis: "set (take k Q) \<inter> set (drop k Q) = {}" using Q(1) by (rule set_take_disj_set_drop_if_distinct) simp
  then show "set q \<subseteq> scb_held p'" using r Q(2) set_drop_subset [of k Q] unfolding q Q_def [symmetric] released_def by blast
  show "\<forall>i < length q. seq_num (scbs p' (q ! i)) = xmit_seq_num (flows p' fl) - of_nat (length q - i)"
  proof (intro allI impI)
    fix i assume i: "i < length q"
    then have "q ! i \<notin> set (take k Q)" using dis unfolding q Q_def [symmetric] by (metis disjoint_iff nth_mem)
    then have "scbs p' (q ! i) = scbs p (Q ! (k + i))" using r i by (simp add: released_def q Q_def [symmetric])
    then show "seq_num (scbs p' (q ! i)) = xmit_seq_num (flows p' fl) - of_nat (length q - i)"
      using Q(3) [of "k + i"] i x by (simp add: q Q_def [symmetric])
  qed
qed

section \<open>What an acknowledgement leaves alone\<close>

text \<open>The state of the receiving direction of a flow and the settings of the protocol.\<close>

definition rx_state :: "flowp \<Rightarrow> 'w ips_proto \<Rightarrow> u24 \<times> psm_protocol_type \<times> u32 \<times> nat \<times> nat \<times> psm_transfer_type \<times> u16 \<times> flowp list \<times>
    (nat \<Rightarrow> ips_ctrlq) \<times> u32 \<times> u16 \<times> u16 \<times> u32 \<times> (nat \<Rightarrow> u16)" where
  "rx_state fl p = (let f = flows p fl in (recv_seq_num f, protocol f, flowid f, flow_ipsaddr f, flow_path f, transfer f,
     flow_flags f AND (IPS_FLOW_FLAG_PENDING_ACK OR IPS_FLOW_FLAG_PENDING_NAK), pending_acks p, ctrlqs p, proto_flags p, scb_max_inflight p, flow_credits p, scb_num p,
     \<lambda>i. ep_flags (ipsaddrs p i)))"

lemma rx_state_epaddr [simp]:
  assumes "\<And>a. ep_flags (g a) = ep_flags a"
  shows "rx_state fl (upd_epaddr i g p) = rx_state fl p"
proof -
  have "(\<lambda>j. ep_flags (ipsaddrs (upd_epaddr i g p) j)) = (\<lambda>j. ep_flags (ipsaddrs p j))" by (rule ext) (simp add: upd_epaddr_def assms)
  then show ?thesis by (simp add: rx_state_def Let_def) (simp add: upd_epaddr_def)
qed

lemma rx_state_tx:
  assumes "tx_view fl p' = tx_view fl p"
  shows "rx_state fl p' = rx_state fl p"
proof -
  have "flow_view (flows p' fl) = flow_view (flows p fl)" using assms by (rule tx_viewD)
  then have "recv_seq_num (flows p' fl) = recv_seq_num (flows p fl)" "protocol (flows p' fl) = protocol (flows p fl)" "flowid (flows p' fl) = flowid (flows p fl)"
    "flow_ipsaddr (flows p' fl) = flow_ipsaddr (flows p fl)" "flow_path (flows p' fl) = flow_path (flows p fl)" "transfer (flows p' fl) = transfer (flows p fl)"
    "flow_flags (flows p' fl) = flow_flags (flows p fl)" by (metis flow_view_simps)+
  then show ?thesis by (simp add: rx_state_def Let_def tx_viewD [OF assms])
qed

lemma congested_bits [simp]:
  "(f AND NOT IPS_FLOW_FLAG_CONGESTED) AND (IPS_FLOW_FLAG_PENDING_ACK OR IPS_FLOW_FLAG_PENDING_NAK) = f AND (IPS_FLOW_FLAG_PENDING_ACK OR IPS_FLOW_FLAG_PENDING_NAK)"
  "(f OR IPS_FLOW_FLAG_CONGESTED) AND (IPS_FLOW_FLAG_PENDING_ACK OR IPS_FLOW_FLAG_PENDING_NAK) = f AND (IPS_FLOW_FLAG_PENDING_ACK OR IPS_FLOW_FLAG_PENDING_NAK)"
  by (simp_all add: flow_flag_defs and.assoc bit.conj_disj_distrib2)

lemma rx_state_rel:
  assumes "rel_view fl p' = rel_view fl p"
    "flows p' fl = flows (flow_all_acked fl (upd_flow fl g p)) fl \<or> rem_view (flows p' fl) = rem_view (flows p fl)" "\<And>f. rem_view (g f) = rem_view f"
  shows "rx_state fl p' = rx_state fl p" "xmit_seq_num (flows p' fl) = xmit_seq_num (flows p fl)"
proof -
  have g: "recv_seq_num (g f) = recv_seq_num f" "protocol (g f) = protocol f" "flowid (g f) = flowid f" "flow_ipsaddr (g f) = flow_ipsaddr f"
    "flow_path (g f) = flow_path f" "transfer (g f) = transfer f" "flow_flags (g f) = flow_flags f" "xmit_seq_num (g f) = xmit_seq_num f" for f
    using assms(3) by (metis rem_view_simps)+
  have "flows p' fl = flows (flow_all_acked fl (upd_flow fl g p)) fl \<or>
    (recv_seq_num (flows p' fl) = recv_seq_num (flows p fl) \<and> protocol (flows p' fl) = protocol (flows p fl) \<and> flowid (flows p' fl) = flowid (flows p fl) \<and>
     flow_ipsaddr (flows p' fl) = flow_ipsaddr (flows p fl) \<and> flow_path (flows p' fl) = flow_path (flows p fl) \<and> transfer (flows p' fl) = transfer (flows p fl) \<and>
     flow_flags (flows p' fl) = flow_flags (flows p fl) \<and> xmit_seq_num (flows p' fl) = xmit_seq_num (flows p fl))"
    using assms(2) by (metis rem_view_simps)
  then show "rx_state fl p' = rx_state fl p" "xmit_seq_num (flows p' fl) = xmit_seq_num (flows p fl)"
    by (auto simp: rx_state_def Let_def rel_viewD [OF assms(1)] flow_all_acked_def upd_flow_def g)
qed

lemma flow_flush_total:
  assumes "dma_completes e" "transfer (flows p fl) \<noteq> PSM_TRANSFER_LAST"
  shows "\<exists>err k p'. flow_flush e fl p = Inr (err, k, p')"
proof -
  have s: "\<exists>p'. flush_dma_sent e fl n p = Inr p'" for n p
  proof -
    let ?p = "p\<lparr>ext := Suc (ext p)\<rparr>"
    obtain err q where "ips_proto_dma_wait_until e (iovec_cntr_last_completed ?p + n) ?p = Inr (err, q)"
      using dma_wait_total [OF assms(1)] by blast
    then show ?thesis by (simp add: flush_dma_sent_def get_cycles_def Let_def)
  qed
  have "\<exists>err k p'. ips_proto_flow_flush_dma e fl p = Inr (err, k, p')"
  proof -
    let ?m = "min (min (scb_num_pending (flows p fl)) (ucast (credits (flows p fl)))) (scb_max_sdma p)"
    obtain err n where d: "dma_send e (ext p) ?m = (err, n)" by fastforce
    obtain q where "flush_dma_sent e fl n (p\<lparr>ext := Suc (ext p), wire := wire p @ map (\<lambda>s. (fl, hdr_of (scbs p s))) (take (unat n) (pend_list (flows p fl)))\<rparr>) = Inr q"
      using s by blast
    then show ?thesis using d by (simp add: ips_proto_flow_flush_dma_def Let_def)
  qed
  moreover obtain err k p' where "ips_proto_flow_flush_pio e fl p = (err, k, p')" by (cases "ips_proto_flow_flush_pio e fl p")
  ultimately show ?thesis using assms(2) by (cases "transfer (flows p fl)") (auto simp: flow_flush_def)
qed

text \<open>The window grows, or the path slows down; queue and blocks stay.\<close>

definition window_fun :: "(ips_flow \<Rightarrow> ips_flow) \<Rightarrow> bool" where
  "window_fun g \<longleftrightarrow> g = (\<lambda>f. f) \<or> (\<exists>c w i. g = (\<lambda>f. f\<lparr>credits := c f, cwin := w, ack_interval := i f\<rparr>))"

lemma window_update_ok:
  assumes "cca_ok (flow_path (flows p fl)) p"
  shows "\<exists>p' g. ack_window_update e becn fl p = Inr p' \<and> p' = (upd_flow fl g p)\<lparr>paths := paths p', ext := ext p'\<rparr> \<and> (\<forall>i. cca_ok i p \<longrightarrow> cca_ok i p') \<and> window_fun g"
proof (cases becn)
  case True
  let ?i = "flow_path (flows p fl)"
  obtain b p' where p': "cca_slow_down e ?i p = Inr (b, p')" "cca_ok ?i p'" using cca_slow_down_ok [OF assms] by blast
  have f: "p' = p\<lparr>paths := paths p', ext := ext p'\<rparr>" using p'(1) by (rule cca_slow_down_frame)
  have o: "paths p' j = paths p j" if "j \<noteq> ?i" for j
    using p'(1) that by (auto simp: cca_slow_down_def run_bind_Inr_iff dest: cca_adjust_path(5) split: if_splits)
  have l: "ccti_limit p' = ccti_limit p" by (subst f) simp
  have "cca_ok j p \<longrightarrow> cca_ok j p'" for j using o l p'(2) by (cases "j = ?i") (auto simp: cca_ok_def)
  then show ?thesis using True p' f by (intro exI [of _ p'] exI [of _ "\<lambda>f. f"]) (auto simp: ack_window_update_def upd_flow_def window_fun_def)
next
  case False
  show ?thesis
  proof (cases "cwin (flows p fl) < flow_credits p")
    case True
    let ?w = "of_nat (min (2 * unat (cwin (flows p fl))) (unat (flow_credits p)))"
    let ?g = "\<lambda>f. f\<lparr>credits := credits f + (?w - cwin f), cwin := ?w, ack_interval := ack_interval_of (credits f + (?w - cwin f))\<rparr>"
    have "ack_window_update e becn fl p = Inr (upd_flow fl ?g p)" using True False by (simp add: ack_window_update_def Let_def)
    moreover have "window_fun ?g" unfolding window_fun_def
      by (intro disjI2 exI [of _ "\<lambda>f. credits f + (?w - cwin f)"] exI [of _ ?w] exI [of _ "\<lambda>f. ack_interval_of (credits f + (?w - cwin f))"]) (rule refl)
    ultimately show ?thesis by (intro exI [of _ "upd_flow fl ?g p"] exI [of _ ?g]) (auto simp: upd_flow_def cca_ok_def)
  next
    case c: False
    then show ?thesis using False by (intro exI [of _ p] exI [of _ "\<lambda>f. f"]) (auto simp: ack_window_update_def upd_flow_def window_fun_def)
  qed
qed

section \<open>The handlers\<close>

text \<open>
  What either handler makes of a consistent flow: the frames \<open>ss\<close> are released, \<open>inflight'\<close> and \<open>pending'\<close> remain, and the flush at
  the end puts the first \<open>j\<close> of the pending ones on the wire, of which \<open>i\<close> (all, unless the device failed) count as in flight.
\<close>

definition ack_result :: "flowp \<Rightarrow> u64 list \<Rightarrow> u64 list \<Rightarrow> u64 list \<Rightarrow> nat \<Rightarrow> nat \<Rightarrow> (nat \<Rightarrow> u64 \<Rightarrow> 'b list) \<Rightarrow> ('w \<Rightarrow> 'b list) \<Rightarrow> 'w ips_proto \<Rightarrow> 'w ips_proto \<Rightarrow> bool" where
  "ack_result fl ss inflight' pending' i j lg L p p' \<longleftrightarrow> i \<le> j \<and> j \<le> length pending' \<and>
     flow_rep fl (inflight' @ take i pending') (drop i pending') p' \<and> scb_inv p' \<and> wire p' = wire p @ frames fl p (take j pending') \<and>
     scb_held p' = scb_held p - {s \<in> set ss. \<not> persistent (scbs p s)} \<and> (\<forall>t. t \<notin> set ss \<longrightarrow> scb_view (scbs p' t) = scb_view (scbs p t)) \<and>
     L (app p') = L (app p) @ concat (map (\<lambda>s. completions lg (scbs p s)) ss) \<and> rx_state fl p' = rx_state fl p \<and>
     xmit_seq_num (flows p' fl) = xmit_seq_num (flows p fl) \<and> (\<forall>g. g \<noteq> fl \<longrightarrow> flows p' g = flows p g) \<and> (\<forall>i. cca_ok i p \<longrightarrow> cca_ok i p')"

lemma ack_result_queue: "ack_result fl ss inflight' pending' i j lg L p p' \<Longrightarrow> scb_unacked (flows p' fl) = inflight' @ pending'"
  by (simp add: ack_result_def flow_rep_def Let_def)

lemma window_flow_q:
  assumes "flow_q i q f" "window_fun g"
  shows "flow_q i q (g f)" "recv_seq_num (g f) = recv_seq_num f" "protocol (g f) = protocol f" "flowid (g f) = flowid f" "flow_ipsaddr (g f) = flow_ipsaddr f"
    "flow_path (g f) = flow_path f" "transfer (g f) = transfer f" "flow_flags (g f) = flow_flags f" "xmit_seq_num (g f) = xmit_seq_num f"
  using assms by (auto simp: flow_q_def window_fun_def)

lemma frames_scb:
  assumes "\<And>t. t \<in> set q \<Longrightarrow> hdr_of (scbs p' t) = hdr_of (scbs p t)"
  shows "frames fl p' q = frames fl p q"
  using assms by (simp add: frames_def)

lemma released_cca:
  assumes "rel_view fl p' = rel_view fl p"
  shows "cca_ok i p' = cca_ok i p"
  by (simp add: cca_ok_def rel_viewD [OF assms])

text \<open>A change of a flow that only concerns its timer for acknowledgements.\<close>

lemma timer_cancel_result:
  assumes "ack_result fl ss inflight' pending' i j lg L p p'"
  shows "ack_result fl ss inflight' pending' i j lg L p (upd_flow fl (\<lambda>f. f\<lparr>timer_ack := None\<rparr>) p')"
proof -
  let ?p = "upd_flow fl (\<lambda>f. f\<lparr>timer_ack := None\<rparr>) p'"
  have v: "tx_view fl ?p = tx_view fl p'" by simp
  have rep: "flow_rep fl (inflight' @ take i pending') (drop i pending') p'" using assms by (simp add: ack_result_def)
  then have "flow_rep fl (inflight' @ take i pending') (drop i pending') ?p"
    by (intro flow_rep_view [OF rep v]) (simp_all add: flow_rep_def Let_def upd_flow_def)
  moreover have "cca_ok k ?p = cca_ok k p'" for k by (simp add: cca_ok_def upd_flow_def)
  moreover have "wire ?p = wire p'" "xmit_seq_num (flows ?p fl) = xmit_seq_num (flows p' fl)" by (simp_all add: upd_flow_def)
  ultimately show ?thesis using assms rx_state_tx [OF v] by (simp add: ack_result_def tx_viewD [OF v])
qed

lemma flush_after:
  assumes r: "ack_result fl ss inflight' pending' 0 0 lg L p p1" and e: "dma_completes e" "dma_honest e"
    and t: "transfer (flows p1 fl) \<noteq> PSM_TRANSFER_LAST" and ss: "set pending' \<inter> set ss = {}"
  shows "\<exists>err k p' i j. flow_flush e fl p1 = Inr (err, k, p') \<and> ack_result fl ss inflight' pending' i j lg L p p'"
proof -
  have rep: "flow_rep fl inflight' pending' p1" using r by (simp add: ack_result_def)
  obtain err k p' where f: "flow_flush e fl p1 = Inr (err, k, p')" using flow_flush_total [OF e(1) t] by blast
  obtain i j where fr: "flush_result fl i j inflight' pending' p1 p'" using flow_flush_result [OF rep e(2) f] by blast
  then have v: "tx_view fl p' = tx_view fl p1" by (simp add: flush_result_def)
  have x: "xmit_seq_num (flows p' fl) = xmit_seq_num (flows p1 fl)" using tx_viewD(8) [OF v] by (metis flow_view_simps(2))
  have hdr: "hdr_of (scbs p1 t) = hdr_of (scbs p t)" if "t \<notin> set ss" for t
    using r that unfolding ack_result_def by (metis scb_view_simps(4))
  have "frames fl p1 (take j pending') = frames fl p (take j pending')"
  proof (rule frames_scb)
    fix t assume "t \<in> set (take j pending')"
    then have "t \<notin> set ss" using ss by (auto dest: in_set_takeD)
    then show "hdr_of (scbs p1 t) = hdr_of (scbs p t)" by (rule hdr)
  qed
  moreover have "wire p1 = wire p" using r by (simp add: ack_result_def frames_def)
  moreover have "cca_ok k p' = cca_ok k p1" for k
    using arg_cong [OF v, of ccti_limit] by (simp add: cca_ok_def tx_viewD [OF v]) (simp add: tx_view_def)
  ultimately have "ack_result fl ss inflight' pending' i j lg L p p'"
    using fr r x rx_state_tx [OF v] by (simp add: ack_result_def flush_result_def tx_viewD [OF v])
  then show ?thesis using f by blast
qed

lemma released_result:
  assumes rep: "flow_rep fl inflight pending p" and r: "released fl (take k (inflight @ pending)) lg L p p'"
    and q: "flow_q inflight' pending' (flows p' fl)" "inflight' @ pending' = drop k (inflight @ pending)"
    and rx: "rx_state fl p' = rx_state fl p" "xmit_seq_num (flows p' fl) = xmit_seq_num (flows p fl)"
  shows "ack_result fl (take k (inflight @ pending)) inflight' pending' 0 0 lg L p p'"
proof -
  have v: "rel_view fl p' = rel_view fl p" using r by (simp add: released_def)
  have "flow_rep fl inflight' pending' p'"
    using released_blocks [OF rep r q(2) rx(2)] q(1) by (simp only: flow_rep_q)
  then show ?thesis using r rx rel_viewD(1,6) [OF v] released_cca [OF v] by (simp add: ack_result_def released_def frames_def)
qed

lemma ack_flow_ok:
  assumes rep: "flow_rep fl inflight pending p" and inv: "scb_inv p" and e: "dma_completes e" "dma_honest e" "completion_log e lg L"
    and n: "n = length (inflight @ pending)" "n < 2 ^ 24" "0 < k" "k \<le> n" and a: "a = xmit_seq_num (flows p fl) - of_nat (n - k)"
    and t: "transfer (flows p fl) \<noteq> PSM_TRANSFER_LAST" and cca: "cca_ok (flow_path (flows p fl)) p"
  shows "\<exists>p' i j. ack_flow e ev fl a p = Inr p' \<and>
    ack_result fl (take k (inflight @ pending)) (drop k inflight) (drop (k - length inflight) pending) i j lg L p p'"
proof -
  let ?q = "inflight @ pending" and ?i = "drop k inflight" and ?p = "drop (k - length inflight) pending"
  obtain p1 where p1: "release_loop True e fl a p = Inr (k = n, p1)" "released fl (take k ?q) lg L p p1"
    "flows p1 fl = (if k = n then flows (flow_all_acked fl (upd_flow fl (fold (unacked_remove True) ?q) p)) fl
      else fold (unacked_remove True) (take k ?q) (flows p fl))"
    using released_run [OF rep inv e(1,3) n(1,2,4) _ a, of True] n(3,4) by auto
  have q: "flow_q inflight pending (flows p fl)" using rep by (simp add: flow_rep_q)
  have rf: "flow_q ?i ?p (fold (unacked_remove True) (take k ?q) (flows p fl))" using remove_fold(1) [OF q] n by simp
  have v: "rel_view fl p1 = rel_view fl p" using p1(2) by (simp add: released_def)
  have rx: "rx_state fl p1 = rx_state fl p" "xmit_seq_num (flows p1 fl) = xmit_seq_num (flows p fl)"
    using rx_state_rel [OF v, of "fold (unacked_remove True) ?q"] p1(3) by (auto split: if_splits)
  have ip: "?i @ ?p = drop k ?q" by simp
  have dis: "set ?p \<inter> set (take k ?q) = {}"
  proof -
    have "distinct ?q" using q by (simp add: flow_q_def)
    then have "set (take k ?q) \<inter> set (drop k ?q) = {}" by (intro set_take_disj_set_drop_if_distinct) simp_all
    then show ?thesis by auto
  qed
  show ?thesis
  proof (cases "k = n")
    case True
    then have tk: "take k ?q = ?q" and e': "?i = []" "?p = []" using n by simp_all
    have "flow_q ?i ?p (flows p1 fl)" using rf unfolding p1(3) e' tk using True
      by (simp add: flow_q_def flow_all_acked_def upd_flow_def)
    then have "ack_result fl (take k ?q) ?i ?p 0 0 lg L p p1" using released_result [OF rep p1(2) _ ip rx] by blast
    then show ?thesis using p1(1) True by (intro exI [of _ p1] exI [of _ 0]) (simp add: ack_flow_def)
  next
    case False
    then have q1: "flow_q ?i ?p (flows p1 fl)" using rf p1(3) by simp
    have fp: "flow_path (flows p1 fl) = flow_path (flows p fl)" "transfer (flows p1 fl) = transfer (flows p fl)"
      using rx(1) by (simp_all add: rx_state_def Let_def)
    then have "cca_ok (flow_path (flows p1 fl)) p1" using cca released_cca [OF v] by simp
    then obtain p2 g where p2: "ack_window_update e (ev_becn ev) fl p1 = Inr p2" "p2 = (upd_flow fl g p1)\<lparr>paths := paths p2, ext := ext p2\<rparr>"
      "\<forall>i. cca_ok i p1 \<longrightarrow> cca_ok i p2" "window_fun g"
      using window_update_ok [of p1 fl e "ev_becn ev"] by blast
    note w = window_flow_q [OF q1 p2(4)]
    have f2: "flows p2 = (flows p1)(fl := g (flows p1 fl))" "scbs p2 = scbs p1" "wire p2 = wire p1" "app p2 = app p1"
      using arg_cong [OF p2(2), of flows] arg_cong [OF p2(2), of scbs] arg_cong [OF p2(2), of wire] arg_cong [OF p2(2), of app]
      by (simp_all add: upd_flow_def)
    have tr: "ips_scbctrl.truncate p2 = ips_scbctrl.truncate p1" by (subst p2(2)) (simp add: upd_flow_def ips_scbctrl.defs)
    have "rx_state fl p2 = rx_state fl (upd_flow fl g p1)" by (subst p2(2)) (simp add: rx_state_def Let_def)
    also have "\<dots> = rx_state fl p1" using w by (simp add: rx_state_def Let_def upd_flow_def)
    finally have rx2: "rx_state fl p2 = rx_state fl p" using rx(1) by simp
    have "ack_result fl (take k ?q) ?i ?p 0 0 lg L p p1" using released_result [OF rep p1(2) q1 ip rx] .
    then have r2: "ack_result fl (take k ?q) ?i ?p 0 0 lg L p p2"
      using w(1,9) rx2 p2(3) by (auto simp: ack_result_def flow_rep_q f2 scb_truncate(1,2) [OF tr] simp del: take_append)
    have "transfer (flows p2 fl) \<noteq> PSM_TRANSFER_LAST" using w fp t f2(1) by simp
    then obtain err m p3 i j where p3: "flow_flush e fl p2 = Inr (err, m, p3)" "ack_result fl (take k ?q) ?i ?p i j lg L p p3"
      using flush_after [OF r2 e(1,2) _ dis] by blast
    have "scb_unacked (flows p3 fl) = ?i @ ?p" using p3(2) by (rule ack_result_queue)
    also have "\<dots> \<noteq> []" using False n unfolding ip by (auto simp del: drop_append)
    finally obtain s rest where "scb_unacked (flows p3 fl) = s # rest" by (cases "scb_unacked (flows p3 fl)") auto
    then have "ack_flow e ev fl a p = Inr (if abs_timeout (scbs p3 s) = TIMEOUT_INFINITE then upd_flow fl (\<lambda>f. f\<lparr>timer_ack := None\<rparr>) p3 else p3)"
      using p1(1) False p2(1) p3(1) by (simp add: ack_flow_def)
    then show ?thesis using p3(2) timer_cancel_result [OF p3(2)] by (cases "abs_timeout (scbs p3 s) = TIMEOUT_INFINITE") auto
  qed
qed

text \<open>A negative acknowledgement: the rest of the queue is pending again.\<close>

lemma nak_delay_eq:
  assumes "scb_pend (flows p fl) = Some s"
  shows "\<exists>d. nak_delay e fl p = Inr ((upd_flow fl (\<lambda>f. f\<lparr>timer_send := timer_request d (timer_send f)\<rparr>) p)\<lparr>ext := Suc (Suc (ext p))\<rparr>)"
proof
  show "nak_delay e fl p = Inr ((upd_flow fl (\<lambda>f. f\<lparr>timer_send := timer_request (cycles e (ext p) +
      (if ack_timeout (scbs p s) \<noteq> TIMEOUT_INFINITE then drop_bit 1 (ack_timeout (scbs p s)) else 0) * (if rand_is_max e (Suc (ext p)) then 2 else 1))
      (timer_send f)\<rparr>) p)\<lparr>ext := Suc (Suc (ext p))\<rparr>)"
    using assms by (simp add: nak_delay_def get_cycles_def Let_def) (simp add: upd_flow_def)
qed

lemma nak_restart_ok:
  assumes r: "ack_result fl ss [] pending' 0 0 lg L p (upd_flow fl (\<lambda>f. f\<lparr>timer_ack := None, scb_pend := slist_first (scb_unacked f), scb_num_pending := scb_num_unacked f\<rparr>) p1)"
    and e: "dma_completes e" "dma_honest e" and t: "transfer (flows p1 fl) \<noteq> PSM_TRANSFER_LAST" and q: "pending' \<noteq> []" "set pending' \<inter> set ss = {}"
  shows "\<exists>p' i j. nak_restart e becn ipsaddr fl p1 = Inr p' \<and> ack_result fl ss [] pending' i j lg L p p'"
proof -
  define p2 where "p2 = upd_flow fl (\<lambda>f. f\<lparr>timer_ack := None, scb_pend := slist_first (scb_unacked f), scb_num_pending := scb_num_unacked f\<rparr>) p1"
  have r2: "ack_result fl ss [] pending' 0 0 lg L p p2" using r by (simp add: p2_def)
  have upd: "ack_result fl ss [] pending' 0 0 lg L p ((upd_flow fl g p2)\<lparr>ext := n\<rparr>)"
    if "\<And>f. flow_q [] pending' f \<Longrightarrow> flow_q [] pending' (g f)" "\<And>f. recv_seq_num (g f) = recv_seq_num f" "\<And>f. protocol (g f) = protocol f"
      "\<And>f. flowid (g f) = flowid f" "\<And>f. flow_ipsaddr (g f) = flow_ipsaddr f" "\<And>f. flow_path (g f) = flow_path f" "\<And>f. transfer (g f) = transfer f"
      "\<And>f. flow_flags (g f) AND (IPS_FLOW_FLAG_PENDING_ACK OR IPS_FLOW_FLAG_PENDING_NAK) = flow_flags f AND (IPS_FLOW_FLAG_PENDING_ACK OR IPS_FLOW_FLAG_PENDING_NAK)"
      "\<And>f. xmit_seq_num (g f) = xmit_seq_num f" for g n
  proof -
    let ?p = "(upd_flow fl g p2)\<lparr>ext := n\<rparr>"
    have s: "flows ?p = (flows p2)(fl := g (flows p2 fl))" "scbs ?p = scbs p2" "wire ?p = wire p2" "app ?p = app p2" by (simp_all add: upd_flow_def)
    have rx: "rx_state fl ?p = rx_state fl p2" using that by (simp add: rx_state_def Let_def upd_flow_def)
    have tr: "ips_scbctrl.truncate ?p = ips_scbctrl.truncate p2" by (simp add: upd_flow_def ips_scbctrl.defs)
    have "cca_ok i ?p = cca_ok i p2" for i by (simp add: cca_ok_def upd_flow_def)
    then show ?thesis using r2 that(1) [of "flows p2 fl"] that(9) rx by (auto simp: ack_result_def flow_rep_q s scb_truncate(1,2) [OF tr])
  qed
  show ?thesis
  proof (cases becn)
    case True
    obtain s rest where s: "pending' = s # rest" using q(1) by (cases pending') auto
    have "scb_pend (flows p2 fl) = Some s" using r2 s by (simp add: ack_result_def flow_rep_def Let_def)
    then have "scb_pend (flows (upd_flow fl nak_congested p2) fl) = Some s" by (simp add: nak_congested_def upd_flow_def Let_def)
    then obtain d where "nak_delay e fl (upd_flow fl nak_congested p2) =
        Inr ((upd_flow fl (\<lambda>f. f\<lparr>timer_send := timer_request d (timer_send f)\<rparr>) (upd_flow fl nak_congested p2))\<lparr>ext := Suc (Suc (ext (upd_flow fl nak_congested p2)))\<rparr>)"
      using nak_delay_eq by blast
    moreover have "ext (upd_flow fl nak_congested p2) = ext p2" by (simp add: upd_flow_def)
    ultimately have d: "nak_restart e becn ipsaddr fl p1 =
        Inr ((upd_flow fl (\<lambda>f. (nak_congested f)\<lparr>timer_send := timer_request d (timer_send (nak_congested f))\<rparr>) p2)\<lparr>ext := Suc (Suc (ext p2))\<rparr>)"
      using True by (simp add: nak_restart_def p2_def [symmetric])
    have "ack_result fl ss [] pending' 0 0 lg L p ((upd_flow fl (\<lambda>f. (nak_congested f)\<lparr>timer_send := timer_request d (timer_send (nak_congested f))\<rparr>) p2)\<lparr>ext := Suc (Suc (ext p2))\<rparr>)"
      by (rule upd) (simp_all add: nak_congested_def Let_def flow_q_def)
    then show ?thesis using d by blast
  next
    case False
    define p3 where "p3 = upd_flow fl (\<lambda>f. f\<lparr>credits := cwin f, ack_interval := ack_interval_of (cwin f)\<rparr>) p2"
    have "p3 = p3\<lparr>ext := ext p2\<rparr>" by (simp add: p3_def upd_flow_def)
    then have r3: "ack_result fl ss [] pending' 0 0 lg L p p3" using upd [of "\<lambda>f. f\<lparr>credits := cwin f, ack_interval := ack_interval_of (cwin f)\<rparr>" "ext p2"]
      by (simp add: p3_def flow_q_def)
    have "transfer (flows p3 fl) \<noteq> PSM_TRANSFER_LAST" using t by (simp add: p3_def p2_def upd_flow_def)
    then obtain err k p4 i j where p4: "flow_flush e fl p3 = Inr (err, k, p4)" "ack_result fl ss [] pending' i j lg L p p4"
      using flush_after [OF r3 e _ q(2)] by blast
    let ?p = "upd_epaddr ipsaddr (\<lambda>a. a\<lparr>send_rexmit := send_rexmit a + of_nat k\<rparr>) p4"
    have s: "flows ?p = flows p4" "scbs ?p = scbs p4" "wire ?p = wire p4" "app ?p = app p4" "rx_state fl ?p = rx_state fl p4" "cca_ok i ?p = cca_ok i p4" for i
      by simp_all (simp_all add: upd_epaddr_def cca_ok_def)
    have tr: "ips_scbctrl.truncate ?p = ips_scbctrl.truncate p4" by (simp add: upd_epaddr_def ips_scbctrl.defs)
    have "ack_result fl ss [] pending' i j lg L p ?p" using p4(2) by (auto simp: ack_result_def flow_rep_q s scb_truncate(1,2) [OF tr])
    moreover have "nak_restart e becn ipsaddr fl p1 = Inr ?p" using False p4(1) by (simp add: nak_restart_def Let_def p2_def [symmetric] p3_def [symmetric])
    ultimately show ?thesis by blast
  qed
qed

lemma nak_flow_ok:
  assumes rep: "flow_rep fl inflight pending p" and inv: "scb_inv p" and e: "dma_completes e" "dma_honest e" "completion_log e lg L"
    and n: "n = length (inflight @ pending)" "n < 2 ^ 24" "k < n" and a: "a = xmit_seq_num (flows p fl) - of_nat (n - k)"
    and t: "transfer (flows p fl) \<noteq> PSM_TRANSFER_LAST" "protocol (flows p fl) \<noteq> PSM_PROTOCOL_TIDFLOW"
  shows "\<exists>p' i j. nak_flow e ev fl a p = Inr p' \<and> ack_result fl (take k (inflight @ pending)) [] (drop k (inflight @ pending)) i j lg L p p'"
proof -
  let ?q = "inflight @ pending"
  define p0 where "p0 = upd_epaddr (ev_ipsaddr ev) (\<lambda>a. a\<lparr>nak_recv := nak_recv a + 1\<rparr>) p"
  have s0: "flows p0 = flows p" "scbs p0 = scbs p" "wire p0 = wire p" "app p0 = app p" "rx_state fl p0 = rx_state fl p" "cca_ok i p0 = cca_ok i p" for i
    by (simp_all add: p0_def) (simp_all add: upd_epaddr_def cca_ok_def)
  have tr: "ips_scbctrl.truncate p0 = ips_scbctrl.truncate p" by (simp add: p0_def upd_epaddr_def ips_scbctrl.defs)
  have rep0: "flow_rep fl inflight pending p0" "scb_inv p0" using rep inv by (simp_all add: flow_rep_q s0 scb_truncate(1,2) [OF tr])
  obtain p1 where p1: "release_loop False e fl a p0 = Inr (k = n, p1)" "released fl (take k ?q) lg L p0 p1"
    "flows p1 fl = fold (unacked_remove False) (take k ?q) (flows p0 fl)"
  proof -
    note t = that
    have "0 < n" "k \<le> n" "k \<noteq> n" using n(3) by simp_all
    then show ?thesis using released_run [OF rep0 e(1,3) n(1,2), of k a False] a s0(1) t by auto
  qed
  have f1: "flows p1 fl = flows p fl\<lparr>scb_unacked := drop k ?q, scb_num_unacked := scb_num_unacked (flows p fl) - of_nat k\<rparr>"
  proof -
    have l: "length (take k ?q) = k" using n by simp
    show ?thesis using p1(3) rep unfolding remove_fold_nak l s0(1) by (simp add: flow_rep_q flow_q_def del: drop_append)
  qed
  let ?p = "upd_flow fl (\<lambda>f. f\<lparr>timer_ack := None, scb_pend := slist_first (scb_unacked f), scb_num_pending := scb_num_unacked f\<rparr>) p1"
  have v: "rel_view fl p1 = rel_view fl p0" using p1(2) by (simp add: released_def)
  have rel: "released fl (take k ?q) lg L p0 ?p"
  proof -
    have "ips_scbctrl.truncate ?p = ips_scbctrl.truncate p1" by (simp add: upd_flow_def ips_scbctrl.defs)
    note tr = scb_truncate(1,2) [OF this]
    have "scbs ?p = scbs p1" "app ?p = app p1" by (simp_all add: upd_flow_def)
    then show ?thesis using p1(2) tr by (simp add: released_def)
  qed
  have k: "unat (of_nat k :: u32) = k" using n(2,3) by (simp add: unat_of_nat)
  have nu: "unat (scb_num_unacked (flows p fl)) = n" using rep n by (simp add: flow_rep_q flow_q_def)
  then have "unat (scb_num_unacked (flows p fl) - of_nat k) = n - k" using n(3) k by (simp add: unat_sub word_le_nat_alt)
  then have q: "flow_q [] (drop k ?q) (flows ?p fl)" using rep n f1 by (auto simp: flow_rep_q flow_q_def upd_flow_def simp del: drop_append)
  have f: "flows ?p fl = flows p fl\<lparr>scb_unacked := drop k ?q, scb_num_unacked := scb_num_unacked (flows p fl) - of_nat k,
      timer_ack := None, scb_pend := slist_first (drop k ?q), scb_num_pending := scb_num_unacked (flows p fl) - of_nat k\<rparr>"
    using f1 by (simp add: upd_flow_def)
  have rx: "rx_state fl ?p = rx_state fl p0" "xmit_seq_num (flows ?p fl) = xmit_seq_num (flows p0 fl)"
    using f rel_viewD(7-10,12) [OF v] rel_viewD(3,5) [OF v] s0(1) by (simp_all add: rx_state_def Let_def) (simp_all add: upd_flow_def)
  have "ack_result fl (take k ?q) [] (drop k ?q) 0 0 lg L p0 ?p" by (rule released_result [OF rep0(1) rel q _ rx]) simp
  then have r: "ack_result fl (take k ?q) [] (drop k ?q) 0 0 lg L p ?p" by (simp add: ack_result_def s0 scb_truncate(1,2) [OF tr] frames_def)
  have ne: "drop k ?q \<noteq> []" using n by (auto simp del: drop_append)
  have dis: "set (drop k ?q) \<inter> set (take k ?q) = {}"
    using rep set_take_disj_set_drop_if_distinct [of ?q k k] by (auto simp: flow_rep_q flow_q_def simp del: take_append drop_append)
  have pr: "transfer (flows p1 fl) \<noteq> PSM_TRANSFER_LAST" "protocol (flows p1 fl) \<noteq> PSM_PROTOCOL_TIDFLOW" using f1 t by simp_all
  have "nak_flow e ev fl a p = nak_restart e (ev_becn ev) (ev_ipsaddr ev) fl p1"
    using p1(1) n(3) pr(2) by (simp add: nak_flow_def p0_def [symmetric])
  then show ?thesis using nak_restart_ok [OF r e(1,2) pr(1) ne dis] by simp
qed

section \<open>Properties\<close>

text \<open>What the handlers rely on: the pool is consistent, the device ends what it begins and counts right, the flow has a transfer.\<close>

definition flow_ready :: "'w ips_env \<Rightarrow> flowp \<Rightarrow> 'w ips_proto \<Rightarrow> bool" where
  "flow_ready e fl p \<longleftrightarrow> scb_inv p \<and> dma_completes e \<and> dma_honest e \<and> transfer (flows p fl) \<noteq> PSM_TRANSFER_LAST \<and>
     protocol (flows p fl) \<noteq> PSM_PROTOCOL_TIDFLOW \<and> cca_ok (flow_path (flows p fl)) p"

text \<open>The packet is for a go-back-N flow of an endpoint address.\<close>

definition ev_for :: "ips_recvhdrq_event \<Rightarrow> flowp \<Rightarrow> bool" where
  "ev_for ev fl \<longleftrightarrow> fl = ev_flow ev \<and> flowid_protocol (ev_hdr ev) = 0 \<and> ips_proto_flowid (ev_hdr ev) < EP_FLOW_LAST"

lemma xmit_ack_base:
  fixes x :: u24 and fl :: flowp and p :: "'w ips_proto"
  defines "p0 \<equiv> upd_flow fl (\<lambda>f. f\<lparr>xmit_ack_num := x\<rparr>) p"
  shows "flow_rep fl inflight pending p0 = flow_rep fl inflight pending p" "flow_ready e fl p0 = flow_ready e fl p"
    "xmit_seq_num (flows p0 fl) = xmit_seq_num (flows p fl)" "ack_result fl ss inflight' pending' i j lg L p0 p' = ack_result fl ss inflight' pending' i j lg L p p'"
proof -
  have tr: "ips_scbctrl.truncate p0 = ips_scbctrl.truncate p" by (simp add: p0_def upd_flow_def ips_scbctrl.defs)
  have s: "scbs p0 = scbs p" "wire p0 = wire p" "app p0 = app p" "rx_state fl p0 = rx_state fl p" "cca_ok i p0 = cca_ok i p" "g \<noteq> fl \<Longrightarrow> flows p0 g = flows p g"
    "flow_q inflight pending (flows p0 fl) = flow_q inflight pending (flows p fl)" "transfer (flows p0 fl) = transfer (flows p fl)"
    "protocol (flows p0 fl) = protocol (flows p fl)" "flow_path (flows p0 fl) = flow_path (flows p fl)" for i g
    by (simp_all add: p0_def upd_flow_def rx_state_def cca_ok_def flow_q_def Let_def)
  show x: "xmit_seq_num (flows p0 fl) = xmit_seq_num (flows p fl)" by (simp add: p0_def upd_flow_def)
  show "flow_rep fl inflight pending p0 = flow_rep fl inflight pending p" by (simp add: flow_rep_q s x scb_truncate(2) [OF tr])
  show "flow_ready e fl p0 = flow_ready e fl p" by (simp add: flow_ready_def s scb_truncate(1) [OF tr])
  show "ack_result fl ss inflight' pending' i j lg L p0 p' = ack_result fl ss inflight' pending' i j lg L p p'"
    using s(6) by (auto simp: ack_result_def s(1-5) x frames_def scb_truncate(1,2) [OF tr])
qed

text \<open>A device that completes at once, completions that are written down, and a packet for the first flow.\<close>

definition demo_log_env :: "(nat \<times> u64) list ips_env" where
  "demo_log_env = demo_env\<lparr>completion := (\<lambda>cb x w. w @ [(cb, x)])\<rparr>"

definition demo_packet :: "u8 \<Rightarrow> u24 \<Rightarrow> ips_recvhdrq_event" where
  "demo_packet t a = \<lparr>ev_ipsaddr = 0, ev_hdr = \<lparr>h_sub_opcode = t, h_psn = 0, h_becn = False, h_flags = 0, h_flowid = 0, h_ack_seq_num = a,
     h_hdr_dlen = 0, h_mqhdr = 1, h_data = (0, 0), h_payload = 0, h_paylen = 0\<rparr>, ev_ptype = RCVHQ_RCV_TYPE_EAGER, ev_fecn = False, ev_becn = False\<rparr>"

lemma demo_log_ok: "dma_completes demo_log_env" "dma_honest demo_log_env" "completion_log demo_log_env (\<lambda>cb x. [(cb, x)]) (\<lambda>w. w)"
proof -
  show "dma_completes demo_log_env" unfolding dma_completes_def
    by (intro allI, subst dma_wait_loop.simps) (simp add: demo_log_env_def demo_env_def)
qed (simp_all add: dma_honest_def completion_log_def demo_log_env_def demo_env_def)

lemma demo_queue_ready: "flow_ready demo_log_env (Ep_flow 0 0) (demo_queue [])" "ev_for (demo_packet t a) (Ep_flow 0 0)"
  using demo_log_ok by (simp_all add: flow_ready_def demo_queue_rep demo_flow_def cca_ok_def demo_path_def ev_for_def demo_packet_def
      flowid_protocol_def ips_proto_flowid_def EP_FLOW_LAST_def)

text \<open>The number of an acknowledgement, one less than it and positions in the queue.\<close>

lemma ack_shift:
  fixes a x :: u24
  assumes "0 < k" "k \<le> n"
  shows "a - 1 = x - of_nat (n - (k - 1)) \<longleftrightarrow> a = x - of_nat (n - k)"
proof -
  have "n - (k - 1) = Suc (n - k)" using assms by simp
  moreover have "a - 1 = x - of_nat (Suc m) \<longleftrightarrow> a = x - of_nat m" for m
    by (simp add: diff_diff_eq [symmetric] add.commute)
  ultimately show ?thesis by metis
qed

lemma ack_accepted:
  assumes "flow_rep fl inflight pending p" "flow_ready e fl p" "completion_log e lg L" "ev_for ev fl" "n = length (inflight @ pending)" "n < 2 ^ 24"
    "0 < k" "k \<le> n" "h_ack_seq_num (ev_hdr ev) = xmit_seq_num (flows p fl) - of_nat (n - k)"
    "k - 1 \<le> unat (scb_max_inflight p)" "n - k \<le> unat (scb_max_inflight p)"
  shows "\<exists>p' i j. ips_proto_process_ack e ev p = Inr p' \<and>
    ack_result fl (take k (inflight @ pending)) (drop k inflight) (drop (k - length inflight) pending) i j lg L p p'"
proof -
  let ?a = "h_ack_seq_num (ev_hdr ev)"
  let ?p0 = "upd_flow fl (\<lambda>f. f\<lparr>xmit_ack_num := ?a - 1\<rparr>) p"
  have ev: "fl = ev_flow ev" "flowid_protocol (ev_hdr ev) = 0" "\<not> EP_FLOW_LAST \<le> ips_proto_flowid (ev_hdr ev)" using assms(4) by (auto simp: ev_for_def)
  have "pio_dma_ack_valid fl (?a - 1) (scb_max_inflight p) p"
    unfolding ack_valid_iff [OF assms(1,5,6)] using assms(7-11) ack_shift [of k n ?a] by (intro exI [of _ "k - 1"]) auto
  then have u: "ips_proto_process_ack e ev p = ack_flow e ev fl ?a ?p0" using ev by (simp add: ips_proto_process_ack_def Let_def)
  have r: "flow_rep fl inflight pending ?p0" "flow_ready e fl ?p0" "?a = xmit_seq_num (flows ?p0 fl) - of_nat (n - k)"
    using assms(1,2,9) by (simp_all add: xmit_ack_base)
  have "\<exists>p' i j. ack_flow e ev fl ?a ?p0 = Inr p' \<and>
      ack_result fl (take k (inflight @ pending)) (drop k inflight) (drop (k - length inflight) pending) i j lg L ?p0 p'"
    using r assms(3,5-8) unfolding flow_ready_def by (intro ack_flow_ok) auto
  then show ?thesis unfolding u by (simp only: xmit_ack_base)
qed

lemma ack_refused:
  assumes "ev_for ev fl" "\<not> pio_dma_ack_valid fl (h_ack_seq_num (ev_hdr ev) - 1) (scb_max_inflight p) p"
  shows "ips_proto_process_ack e ev p = Inr p"
  using assms by (auto simp: ev_for_def ips_proto_process_ack_def Let_def)

lemma process_ack_cases:
  assumes "flow_rep fl inflight pending p" "flow_ready e fl p" "completion_log e lg L" "ev_for ev fl" "n = length (inflight @ pending)" "n < 2 ^ 24"
  shows "ips_proto_process_ack e ev p = Inr p \<or> (\<exists>k p' i j. k \<le> n \<and> h_ack_seq_num (ev_hdr ev) = xmit_seq_num (flows p fl) - of_nat (n - k) \<and>
    ips_proto_process_ack e ev p = Inr p' \<and>
    ack_result fl (take k (inflight @ pending)) (drop k inflight) (drop (k - length inflight) pending) i j lg L p p')"
proof (cases "pio_dma_ack_valid fl (h_ack_seq_num (ev_hdr ev) - 1) (scb_max_inflight p) p")
  case True
  then obtain k where k: "k < n" "h_ack_seq_num (ev_hdr ev) - 1 = xmit_seq_num (flows p fl) - of_nat (n - k)" "k \<le> unat (scb_max_inflight p)"
    "n - 1 - k \<le> unat (scb_max_inflight p)" unfolding ack_valid_iff [OF assms(1,5,6)] by blast
  then have a: "h_ack_seq_num (ev_hdr ev) = xmit_seq_num (flows p fl) - of_nat (n - Suc k)"
    using ack_shift [of "Suc k" n "h_ack_seq_num (ev_hdr ev)"] by (metis diff_Suc_1 Suc_leI zero_less_Suc)
  moreover have "\<exists>p' i j. ips_proto_process_ack e ev p = Inr p' \<and>
      ack_result fl (take (Suc k) (inflight @ pending)) (drop (Suc k) inflight) (drop (Suc k - length inflight) pending) i j lg L p p'"
    using k by (intro ack_accepted [OF assms _ _ a]) auto
  ultimately show ?thesis using k(1) by (metis Suc_leI)
qed (use ack_refused [OF assms(4)] in blast)

text \<open>
  C13: An acknowledgement for a consistent flow. When its number is the one after the \<open>k\<close>-th frame of the queue, and the window covers the
  queue, exactly the first \<open>k\<close> frames are released, their completions run once each and in order, the blocks go back to
  the pool, the rest stays queued and pending as before, and the credits that came back are used to send
  the next pending frames in order. Every other number leaves the state unchanged. No access is outside the
  queue in either case.
\<close>

theorem process_ack_releases_prefix:
  assumes "flow_rep fl inflight pending p" "flow_ready e fl p" "completion_log e lg L" "ev_for ev fl"
    "n = length (inflight @ pending)" "n < 2 ^ 24"
  shows "(\<forall>k. 0 < k \<and> k \<le> n \<and> h_ack_seq_num (ev_hdr ev) = xmit_seq_num (flows p fl) - of_nat (n - k) \<and>
         k - 1 \<le> unat (scb_max_inflight p) \<and> n - k \<le> unat (scb_max_inflight p) \<longrightarrow>
       (\<exists>p' i j. ips_proto_process_ack e ev p = Inr p' \<and>
          ack_result fl (take k (inflight @ pending)) (drop k inflight) (drop (k - length inflight) pending) i j lg L p p')) \<and>
    ((\<forall>k. 0 < k \<and> k \<le> n \<longrightarrow> h_ack_seq_num (ev_hdr ev) \<noteq> xmit_seq_num (flows p fl) - of_nat (n - k)) \<longrightarrow>
       ips_proto_process_ack e ev p = Inr p)"
proof (intro conjI allI impI)
  fix k assume "0 < k \<and> k \<le> n \<and> h_ack_seq_num (ev_hdr ev) = xmit_seq_num (flows p fl) - of_nat (n - k) \<and>
    k - 1 \<le> unat (scb_max_inflight p) \<and> n - k \<le> unat (scb_max_inflight p)"
  then show "\<exists>p' i j. ips_proto_process_ack e ev p = Inr p' \<and>
      ack_result fl (take k (inflight @ pending)) (drop k inflight) (drop (k - length inflight) pending) i j lg L p p'"
    using ack_accepted [OF assms] by blast
next
  assume no: "\<forall>k. 0 < k \<and> k \<le> n \<longrightarrow> h_ack_seq_num (ev_hdr ev) \<noteq> xmit_seq_num (flows p fl) - of_nat (n - k)"
  have "\<not> pio_dma_ack_valid fl (h_ack_seq_num (ev_hdr ev) - 1) (scb_max_inflight p) p" unfolding ack_valid_iff [OF assms(1,5,6)]
  proof (intro notI, elim exE conjE)
    fix k assume k: "k < n" "h_ack_seq_num (ev_hdr ev) - 1 = xmit_seq_num (flows p fl) - of_nat (n - k)"
    then have "h_ack_seq_num (ev_hdr ev) = xmit_seq_num (flows p fl) - of_nat (n - Suc k)"
      using ack_shift [of "Suc k" n "h_ack_seq_num (ev_hdr ev)"] by (metis diff_Suc_1 Suc_leI zero_less_Suc)
    then show False using no \<open>k < n\<close> by (metis Suc_leI zero_less_Suc)
  qed
  then show "ips_proto_process_ack e ev p = Inr p" by (rule ack_refused [OF assms(4)])
qed

theorem process_ack_releases_prefix_witness:
  "\<exists>p' i j. ips_proto_process_ack demo_log_env (demo_packet OPCODE_ACK 1) (demo_queue []) = Inr p' \<and>
     ack_result (Ep_flow 0 0) [0x1000] [] [0x10C0] i j (\<lambda>cb x. [(cb, x)]) (\<lambda>w. w) (demo_queue []) p'"
proof -
  let ?p = "demo_queue [] :: (nat \<times> u64) list ips_proto"
  have "h_ack_seq_num (ev_hdr (demo_packet OPCODE_ACK 1)) = xmit_seq_num (flows ?p (Ep_flow 0 0)) - of_nat (2 - 1)"
    by (simp add: demo_packet_def demo_queue_rep(3))
  then show ?thesis
    using process_ack_releases_prefix [OF demo_queue_rep(1) demo_queue_ready(1) demo_log_ok(3) demo_queue_ready(2) refl, of OPCODE_ACK 1, THEN conjunct1, THEN spec [of _ 1]]
    by (simp add: demo_queue_rep(5))
qed

lemma nak_accepted:
  assumes "flow_rep fl inflight pending p" "flow_ready e fl p" "completion_log e lg L" "ev_for ev fl" "n = length (inflight @ pending)" "n < 2 ^ 24"
    "k < n" "h_ack_seq_num (ev_hdr ev) = xmit_seq_num (flows p fl) - of_nat (n - k)"
    "k \<le> unat (scb_max_inflight p)" "n - 1 - k \<le> unat (scb_max_inflight p)"
  shows "\<exists>p' i j. process_nak e ev p = Inr p' \<and> ack_result fl (take k (inflight @ pending)) [] (drop k (inflight @ pending)) i j lg L p p'"
proof -
  let ?a = "h_ack_seq_num (ev_hdr ev)"
  let ?p0 = "upd_flow fl (\<lambda>f. f\<lparr>xmit_ack_num := ?a - 1\<rparr>) p"
  have ev: "fl = ev_flow ev" "flowid_protocol (ev_hdr ev) = 0" "\<not> EP_FLOW_LAST \<le> ips_proto_flowid (ev_hdr ev)" using assms(4) by (auto simp: ev_for_def)
  have "pio_dma_ack_valid fl ?a (scb_max_inflight p) p" unfolding ack_valid_iff [OF assms(1,5,6)] using assms(7-10) by blast
  then have u: "process_nak e ev p = nak_flow e ev fl ?a ?p0" using ev by (simp add: process_nak_def Let_def)
  have r: "flow_rep fl inflight pending ?p0" "flow_ready e fl ?p0" "?a = xmit_seq_num (flows ?p0 fl) - of_nat (n - k)"
    using assms(1,2,8) by (simp_all add: xmit_ack_base)
  have "\<exists>p' i j. nak_flow e ev fl ?a ?p0 = Inr p' \<and> ack_result fl (take k (inflight @ pending)) [] (drop k (inflight @ pending)) i j lg L ?p0 p'"
    using r assms(3,5-7) unfolding flow_ready_def by (intro nak_flow_ok) auto
  then show ?thesis unfolding u by (simp only: xmit_ack_base)
qed

lemma nak_refused:
  assumes "ev_for ev fl" "\<not> pio_dma_ack_valid fl (h_ack_seq_num (ev_hdr ev)) (scb_max_inflight p) p"
  shows "process_nak e ev p = Inr p"
  using assms by (auto simp: ev_for_def process_nak_def Let_def)

lemma process_nak_cases:
  assumes "flow_rep fl inflight pending p" "flow_ready e fl p" "completion_log e lg L" "ev_for ev fl" "n = length (inflight @ pending)" "n < 2 ^ 24"
  shows "process_nak e ev p = Inr p \<or> (\<exists>k p' i j. k \<le> n \<and> h_ack_seq_num (ev_hdr ev) = xmit_seq_num (flows p fl) - of_nat (n - k) \<and>
    process_nak e ev p = Inr p' \<and> ack_result fl (take k (inflight @ pending)) [] (drop k (inflight @ pending)) i j lg L p p')"
proof (cases "pio_dma_ack_valid fl (h_ack_seq_num (ev_hdr ev)) (scb_max_inflight p) p")
  case True
  then obtain k where k: "k < n" "h_ack_seq_num (ev_hdr ev) = xmit_seq_num (flows p fl) - of_nat (n - k)" "k \<le> unat (scb_max_inflight p)"
    "n - 1 - k \<le> unat (scb_max_inflight p)" unfolding ack_valid_iff [OF assms(1,5,6)] by blast
  then show ?thesis using nak_accepted [OF assms k] by (metis less_imp_le)
qed (use nak_refused [OF assms(4)] in blast)

text \<open>
  C14: A negative acknowledgement for a consistent flow. When its number is that of the frame at position \<open>k\<close> of the queue, and the
  window covers the queue, the frames before it are released as by an acknowledgement, and all the
  others are pending again, in order: they are sent again from that frame on, at once or, when the flow is congested, when
  the timer for sends expires. Every other number leaves the state unchanged.
\<close>

theorem process_nak_restarts:
  assumes "flow_rep fl inflight pending p" "flow_ready e fl p" "completion_log e lg L" "ev_for ev fl"
    "n = length (inflight @ pending)" "n < 2 ^ 24"
  shows "(\<forall>k. k < n \<and> h_ack_seq_num (ev_hdr ev) = xmit_seq_num (flows p fl) - of_nat (n - k) \<and>
         k \<le> unat (scb_max_inflight p) \<and> n - 1 - k \<le> unat (scb_max_inflight p) \<longrightarrow>
       (\<exists>p' i j. process_nak e ev p = Inr p' \<and>
          ack_result fl (take k (inflight @ pending)) [] (drop k (inflight @ pending)) i j lg L p p')) \<and>
    ((\<forall>k. k < n \<longrightarrow> h_ack_seq_num (ev_hdr ev) \<noteq> xmit_seq_num (flows p fl) - of_nat (n - k)) \<longrightarrow> process_nak e ev p = Inr p)"
proof (intro conjI allI impI)
  fix k assume "k < n \<and> h_ack_seq_num (ev_hdr ev) = xmit_seq_num (flows p fl) - of_nat (n - k) \<and> k \<le> unat (scb_max_inflight p) \<and> n - 1 - k \<le> unat (scb_max_inflight p)"
  then show "\<exists>p' i j. process_nak e ev p = Inr p' \<and> ack_result fl (take k (inflight @ pending)) [] (drop k (inflight @ pending)) i j lg L p p'"
    using nak_accepted [OF assms] by blast
next
  assume "\<forall>k. k < n \<longrightarrow> h_ack_seq_num (ev_hdr ev) \<noteq> xmit_seq_num (flows p fl) - of_nat (n - k)"
  then have "\<not> pio_dma_ack_valid fl (h_ack_seq_num (ev_hdr ev)) (scb_max_inflight p) p" unfolding ack_valid_iff [OF assms(1,5,6)] by blast
  then show "process_nak e ev p = Inr p" by (rule nak_refused [OF assms(4)])
qed

theorem process_nak_restarts_witness:
  "\<exists>p' i j. process_nak demo_log_env (demo_packet OPCODE_NAK 1) (demo_queue []) = Inr p' \<and>
     ack_result (Ep_flow 0 0) [0x1000] [] [0x10C0] i j (\<lambda>cb x. [(cb, x)]) (\<lambda>w. w) (demo_queue []) p'"
proof -
  let ?p = "demo_queue [] :: (nat \<times> u64) list ips_proto"
  have "h_ack_seq_num (ev_hdr (demo_packet OPCODE_NAK 1)) = xmit_seq_num (flows ?p (Ep_flow 0 0)) - of_nat (2 - 1)"
    by (simp add: demo_packet_def demo_queue_rep(3))
  then show ?thesis
    using process_nak_restarts [OF demo_queue_rep(1) demo_queue_ready(1) demo_log_ok(3) demo_queue_ready(2) refl, of OPCODE_NAK 1, THEN conjunct1, THEN spec [of _ 1]]
    by (simp add: demo_queue_rep(5))
qed

end
