(* ===== verification/Ips_Rx.thy ===== *)
theory Ips_Rx
  imports Ips_Ack
begin

text \<open>
  What the receiving side does to the rest of the protocol object: the control messages it sends carry the
  expected sequence number, the flows to acknowledge are queued once each, a data frame is passed on
  exactly when it is the expected one, and no assertion fails.
\<close>

unbundle bit_operations_syntax

section \<open>Control messages of a set of flows\<close>

text \<open>The flows of \<open>F\<close> are go-back-N flows and the rings hold messages for them.\<close>

definition ctrl_ok :: "flowp set \<Rightarrow> 'w ips_proto \<Rightarrow> bool" where
  "ctrl_ok F p \<longleftrightarrow> (\<forall>g \<in> F. protocol (flows p g) \<noteq> PSM_PROTOCOL_TIDFLOW \<and> unat (flowid (flows p g) AND 0xF) < 4) \<and>
     (\<forall>qi < 4. \<exists>es. ctrlq_rep (ctrlqs p qi) es \<and> (\<forall>c \<in> set es. cqe_flow c \<in> F \<and> gbn_type (cqe_message_type c)))"

text \<open>Messages for flows of \<open>F\<close> with the content they must have in the state \<open>p\<close>.\<close>

definition msgs_ok :: "flowp set \<Rightarrow> 'w ips_proto \<Rightarrow> (flowp \<times> ips_hdr) list \<Rightarrow> bool" where
  "msgs_ok F p ms \<longleftrightarrow> (\<forall>(g, h) \<in> set ms. g \<in> F \<and> gbn_type (h_sub_opcode h) \<and> genuine p (h_sub_opcode h) g h)"

lemma msgs_ok_Nil [simp]: "msgs_ok F p []"
  by (simp add: msgs_ok_def)

lemma msgs_ok_append [simp]: "msgs_ok F p (xs @ ys) \<longleftrightarrow> msgs_ok F p xs \<and> msgs_ok F p ys"
  by (auto simp: msgs_ok_def)

lemma msgs_ok_view:
  assumes "msg_view p' = msg_view p"
  shows "msgs_ok F p' ms = msgs_ok F p ms"
  by (simp add: msgs_ok_def genuine_view [OF assms])

lemma ctrl_ok_flows:
  assumes "ctrl_ok F p" "ctrlqs p' = ctrlqs p" "\<And>g. g \<in> F \<Longrightarrow> protocol (flows p' g) = protocol (flows p g) \<and> flowid (flows p' g) = flowid (flows p g)"
  shows "ctrl_ok F p'"
  using assms by (auto simp: ctrl_ok_def)

lemma delivers_msgs:
  assumes "list_all2 (delivers p) es fs" "\<forall>c \<in> set es. cqe_flow c \<in> F \<and> gbn_type (cqe_message_type c)"
  shows "msgs_ok F p fs"
  using assms by (induction rule: list_all2_induct) (auto simp: msgs_ok_def delivers_def genuine_def split: prod.splits)

lemma send_ctrl_ok:
  assumes F: "fl \<in> F" "ctrl_ok F p" and t: "gbn_type t"
  shows "\<exists>err p' ms. ips_proto_send_ctrl_message e fl t m args p = Inr (err, p') \<and> wire p' = wire p @ ms \<and> msgs_ok F p ms \<and>
    msg_view p' = msg_view p \<and> ctrl_ok F p'"
proof -
  let ?qi = "unat (flowid (flows p fl) AND 0xF)"
  have g: "gbn_msg p t fl" "?qi < 4" using F t by (auto simp: gbn_msg_def ctrl_ok_def)
  obtain es where es: "ctrlq_rep (ctrlqs p ?qi) es" "\<forall>c \<in> set es. cqe_flow c \<in> F \<and> gbn_type (cqe_message_type c)"
    using F(2) g(2) by (auto simp: ctrl_ok_def)
  then have "queue_ok p es" using F(2) by (auto simp: queue_ok_def gbn_msg_def ctrl_ok_def)
  then obtain err p' k fs out es' oc where r: "ips_proto_send_ctrl_message e fl t m args p = Inr (err, p')" "wire p' = wire p @ fs @ out"
    "list_all2 (delivers p) (take k es) fs" "msg_view p' = msg_view p" "\<forall>j. j \<noteq> ?qi \<longrightarrow> ctrlqs p' j = ctrlqs p j" "ctrlq_rep (ctrlqs p' ?qi) es'"
    "ctrl_outcome_ok oc p t m fl (drop k es) err out es' p'"
    using send_ctrl_gbn [OF refl g(2) es(1) _ g(1), of e m args] by blast
  have "msgs_ok F p fs" using r(3) by (rule delivers_msgs) (use es(2) in \<open>auto dest: in_set_takeD\<close>)
  moreover have "msgs_ok F p out" using r(7) F(1) t by (auto simp: ctrl_outcome_ok_def msgs_ok_def genuine_def split: ctrl_outcome.splits)
  moreover have "\<forall>c \<in> set (drop k es). cqe_flow c \<in> F \<and> gbn_type (cqe_message_type c)" using es(2) by (auto dest: in_set_dropD)
  then have "\<forall>c \<in> set es'. cqe_flow c \<in> F \<and> gbn_type (cqe_message_type c)"
    using r(7) F(1) t by (auto simp: ctrl_outcome_ok_def split: ctrl_outcome.splits)
  then have "ctrl_ok F p'"
    using F(2) r(5,6) msg_view_flow(2,3) [OF r(4)] unfolding ctrl_ok_def by metis
  ultimately show ?thesis using r(1,2,4) by auto
qed

section \<open>Acknowledgements to send\<close>

text \<open>A flow is queued for an acknowledgement exactly when one of its two flags is set, and never both.\<close>

definition acks_ok :: "flowp set \<Rightarrow> 'w ips_proto \<Rightarrow> bool" where
  "acks_ok F p \<longleftrightarrow> distinct (pending_acks p) \<and> set (pending_acks p) \<subseteq> F \<and>
     (\<forall>g \<in> F. (g \<in> set (pending_acks p) \<longleftrightarrow> has_flag g IPS_FLOW_FLAG_PENDING_ACK p \<or> has_flag g IPS_FLOW_FLAG_PENDING_NAK p) \<and>
        \<not> (has_flag g IPS_FLOW_FLAG_PENDING_ACK p \<and> has_flag g IPS_FLOW_FLAG_PENDING_NAK p))"

lemma becn_flags [simp]:
  "flow_flags (becn_view f) AND IPS_FLOW_FLAG_PENDING_ACK = flow_flags f AND IPS_FLOW_FLAG_PENDING_ACK"
  "flow_flags (becn_view f) AND IPS_FLOW_FLAG_PENDING_NAK = flow_flags f AND IPS_FLOW_FLAG_PENDING_NAK"
  by (simp_all add: becn_view_def flow_flag_defs and.assoc)

lemma has_flag_view:
  assumes "msg_view p' = msg_view p"
  shows "has_flag g IPS_FLOW_FLAG_PENDING_ACK p' = has_flag g IPS_FLOW_FLAG_PENDING_ACK p"
    "has_flag g IPS_FLOW_FLAG_PENDING_NAK p' = has_flag g IPS_FLOW_FLAG_PENDING_NAK p"
  using msg_viewD(4) [OF assms, of g] by (metis becn_flags)+

lemma acks_ok_view:
  assumes "msg_view p' = msg_view p"
  shows "acks_ok F p' = acks_ok F p"
  by (simp add: acks_ok_def msg_viewD(2) [OF assms] has_flag_view [OF assms])

text \<open>
  What receiving changes in a flow, and in the protocol object: besides what control messages change, the receiving
  fields of the flows, the queue of acknowledgements and the rest of the program.
\<close>

definition rxf_view :: "ips_flow \<Rightarrow> ips_flow" where
  "rxf_view f = f\<lparr>flow_flags := flow_flags f AND IPS_FLOW_FLAG_CONGESTED, cca_ooo_pkts := 0, recv_seq_num := 0, last_seq_num := 0\<rparr>"

definition snd_view :: "'w ips_proto \<Rightarrow> 'w ips_proto" where
  "snd_view p = (msg_view p)\<lparr>flows := (\<lambda>g. rxf_view (flows p g)), pending_acks := [], app := undefined\<rparr>"

lemma rxf_becn [simp]: "rxf_view (becn_view f) = rxf_view f"
  by (simp add: rxf_view_def becn_view_def flow_flag_defs and.assoc)

lemma snd_view_msg:
  assumes "msg_view p' = msg_view p"
  shows "snd_view p' = snd_view p"
proof -
  have "rxf_view (flows p' g) = rxf_view (flows p g)" for g using msg_viewD(4) [OF assms, of g] by (metis rxf_becn)
  then show ?thesis using assms by (simp add: snd_view_def)
qed

lemma snd_view_upd [simp]:
  "snd_view (p\<lparr>pending_acks := l\<rparr>) = snd_view p" "snd_view (p\<lparr>app := w\<rparr>) = snd_view p"
  by (simp_all add: snd_view_def msg_view_def ctrl_view_def)

lemma snd_view_epaddr [simp]:
  assumes "\<And>a. ep_view (g a) = ep_view a"
  shows "snd_view (upd_epaddr i g p) = snd_view p"
  by (rule ips_proto.equality) (auto simp: snd_view_def msg_view_def ctrl_view_def upd_epaddr_def assms)

lemma snd_view_flow [simp]:
  assumes "\<And>f. rxf_view (g f) = rxf_view f"
  shows "snd_view (upd_flow fl g p) = snd_view p"
  by (rule ips_proto.equality) (auto simp: snd_view_def msg_view_def ctrl_view_def upd_flow_def assms)

lemma rxf_upd [simp]:
  "rxf_view (f\<lparr>cca_ooo_pkts := c\<rparr>) = rxf_view f" "rxf_view (f\<lparr>recv_seq_num := n\<rparr>) = rxf_view f" "rxf_view (f\<lparr>last_seq_num := n\<rparr>) = rxf_view f"
  by (simp_all add: rxf_view_def)

lemma rxf_flags [simp]:
  "rxf_view (f\<lparr>flow_flags := flow_flags f OR IPS_FLOW_FLAG_NAK_SEND\<rparr>) = rxf_view f"
  "rxf_view (f\<lparr>flow_flags := flow_flags f OR IPS_FLOW_FLAG_PENDING_ACK\<rparr>) = rxf_view f"
  "rxf_view (f\<lparr>flow_flags := flow_flags f OR IPS_FLOW_FLAG_PENDING_NAK\<rparr>) = rxf_view f"
  "rxf_view (f\<lparr>flow_flags := flow_flags f OR IPS_FLOW_FLAG_GEN_BECN\<rparr>) = rxf_view f"
  "rxf_view (f\<lparr>flow_flags := flow_flags f AND NOT IPS_FLOW_FLAG_NAK_SEND\<rparr>) = rxf_view f"
  "rxf_view (f\<lparr>flow_flags := flow_flags f AND NOT IPS_FLOW_FLAG_PENDING_ACK\<rparr>) = rxf_view f"
  "rxf_view (f\<lparr>flow_flags := flow_flags f AND NOT IPS_FLOW_FLAG_PENDING_NAK\<rparr>) = rxf_view f"
  by (simp_all add: rxf_view_def flow_flag_defs and.assoc bit.conj_disj_distrib2)

lemma snd_viewD:
  assumes "snd_view p' = snd_view p"
  shows "scbs p' = scbs p" "paths p' = paths p" "proto_flags p' = proto_flags p" "scb_max_inflight p' = scb_max_inflight p" "flow_credits p' = flow_credits p"
    "scb_num p' = scb_num p" "ccti_limit p' = ccti_limit p" "rxf_view (flows p' g) = rxf_view (flows p g)" "scb_held p' = scb_held p" "scb_inv p' = scb_inv p"
    "ep_flags (ipsaddrs p' i) = ep_flags (ipsaddrs p i)"
proof -
  have a: "h (snd_view p') = h (snd_view p)" for h :: "'a ips_proto \<Rightarrow> 'c" using assms by simp
  show "rxf_view (flows p' g) = rxf_view (flows p g)" "paths p' = paths p" "proto_flags p' = proto_flags p" "scb_max_inflight p' = scb_max_inflight p"
    "flow_credits p' = flow_credits p" "ccti_limit p' = ccti_limit p"
    using a [of "\<lambda>p. flows p g"] a [of paths] a [of proto_flags] a [of scb_max_inflight] a [of flow_credits] a [of ccti_limit]
    by (simp_all add: snd_view_def msg_view_def ctrl_view_def)
  have "ep_view (ipsaddrs p' i) = ep_view (ipsaddrs p i)" using a [of "\<lambda>p. ipsaddrs p i"] by (simp add: snd_view_def msg_view_def ctrl_view_def)
  then show "ep_flags (ipsaddrs p' i) = ep_flags (ipsaddrs p i)" by (metis ep_view_upd(11))
  have t: "ips_scbctrl.truncate p' = ips_scbctrl.truncate p"
    using a [of ips_scbctrl.truncate] by (simp add: snd_view_def msg_view_def ctrl_view_def ips_scbctrl.defs)
  then show "scbs p' = scbs p" "scb_num p' = scb_num p" "scb_held p' = scb_held p" "scb_inv p' = scb_inv p"
    using scb_truncate [OF t] by (simp_all add: ips_scbctrl.defs)
qed

lemma rxf_viewD:
  assumes "rxf_view f' = rxf_view f"
  shows "protocol f' = protocol f" "flowid f' = flowid f" "flow_ipsaddr f' = flow_ipsaddr f" "flow_path f' = flow_path f" "transfer f' = transfer f"
    "scb_unacked f' = scb_unacked f" "scb_pend f' = scb_pend f" "xmit_seq_num f' = xmit_seq_num f" "scb_num_unacked f' = scb_num_unacked f"
    "scb_num_pending f' = scb_num_pending f"
proof -
  have a: "h (rxf_view f') = h (rxf_view f)" for h :: "ips_flow \<Rightarrow> 'c" using assms by simp
  show "protocol f' = protocol f" "flowid f' = flowid f" "flow_ipsaddr f' = flow_ipsaddr f" "flow_path f' = flow_path f" "transfer f' = transfer f"
    "scb_unacked f' = scb_unacked f" "scb_pend f' = scb_pend f" "xmit_seq_num f' = xmit_seq_num f" "scb_num_unacked f' = scb_num_unacked f"
    "scb_num_pending f' = scb_num_pending f"
    using a [of protocol] a [of flowid] a [of flow_ipsaddr] a [of flow_path] a [of transfer] a [of scb_unacked] a [of scb_pend] a [of xmit_seq_num]
      a [of scb_num_unacked] a [of scb_num_pending] by (simp_all add: rxf_view_def)
qed

lemmas snd_flowD = rxf_viewD [OF snd_viewD(8)]

lemma snd_view_rep:
  assumes "snd_view p' = snd_view p"
  shows "flow_rep fl inflight pending p' = flow_rep fl inflight pending p" "flow_ready e fl p' = flow_ready e fl p" "cca_ok i p' = cca_ok i p"
proof -
  show c: "cca_ok i p' = cca_ok i p" for i by (simp add: cca_ok_def snd_viewD [OF assms])
  show "flow_rep fl inflight pending p' = flow_rep fl inflight pending p" by (simp add: flow_rep_q flow_q_def snd_viewD [OF assms] snd_flowD [OF assms])
  show "flow_ready e fl p' = flow_ready e fl p" by (simp add: flow_ready_def c snd_viewD [OF assms] snd_flowD [OF assms])
qed

section \<open>The result of a receiving operation\<close>

definition rx_result :: "flowp set \<Rightarrow> 'w ips_proto \<Rightarrow> 'w ips_proto \<Rightarrow> bool" where
  "rx_result F p p' \<longleftrightarrow> snd_view p' = snd_view p \<and> (\<exists>ms. wire p' = wire p @ ms \<and> msgs_ok F p' ms) \<and> ctrl_ok F p' \<and> acks_ok F p'"

abbreviation same_recv :: "'w ips_proto \<Rightarrow> 'w ips_proto \<Rightarrow> bool" where
  "same_recv p p' \<equiv> \<forall>g. recv_seq_num (flows p' g) = recv_seq_num (flows p g)"

lemma msgs_ok_snd:
  assumes "snd_view p' = snd_view p" "same_recv p p'"
  shows "msgs_ok F p' ms = msgs_ok F p ms"
proof -
  have "genuine p' t g h = genuine p t g h" for t g h
    using assms(2) by (cases "scb_pend (flows p g)") (simp_all add: genuine_def snd_viewD [OF assms(1)] snd_flowD [OF assms(1)])
  then show ?thesis by (simp add: msgs_ok_def)
qed

lemma rx_result_trans:
  assumes "rx_result F p p1" "rx_result F p1 p2" "wire p1 = wire p \<or> same_recv p1 p2"
  shows "rx_result F p p2"
proof -
  obtain ms1 ms2 where ms: "wire p1 = wire p @ ms1" "msgs_ok F p1 ms1" "wire p2 = wire p1 @ ms2" "msgs_ok F p2 ms2"
    using assms(1,2) by (auto simp: rx_result_def)
  have "msgs_ok F p2 ms1" using assms(3) ms(1,2) msgs_ok_snd [of p2 p1 F ms1] assms(2) by (auto simp: rx_result_def)
  then have "\<exists>ms. wire p2 = wire p @ ms \<and> msgs_ok F p2 ms" using ms by auto
  then show ?thesis using assms(1,2) by (simp add: rx_result_def)
qed

lemma rx_result_refl: "ctrl_ok F p \<Longrightarrow> acks_ok F p \<Longrightarrow> rx_result F p p"
  by (auto simp: rx_result_def intro!: exI [of _ "[]"])

text \<open>A change of receiving fields only.\<close>

lemma rx_result_quiet:
  assumes "snd_view p' = snd_view p" "wire p' = wire p" "ctrlqs p' = ctrlqs p" "ctrl_ok F p" "acks_ok F p'"
  shows "rx_result F p p'"
proof -
  have "ctrl_ok F p'" using assms(4,3) by (rule ctrl_ok_flows) (simp add: snd_flowD [OF assms(1)])
  then show ?thesis using assms by (auto simp: rx_result_def)
qed

lemma rx_result_send:
  assumes "fl \<in> F" "ctrl_ok F p" "acks_ok F p" "gbn_type t"
  shows "\<exists>err p'. ips_proto_send_ctrl_message e fl t m args p = Inr (err, p') \<and> rx_result F p p' \<and> same_recv p p' \<and> app p' = app p"
proof -
  obtain err p' ms where r: "ips_proto_send_ctrl_message e fl t m args p = Inr (err, p')" "wire p' = wire p @ ms" "msgs_ok F p ms"
    "msg_view p' = msg_view p" "ctrl_ok F p'" using send_ctrl_ok [OF assms(1,2,4), of e m args] by blast
  have "rx_result F p p'"
    using r assms(3) snd_view_msg [OF r(4)] acks_ok_view [OF r(4)] msgs_ok_view [OF r(4)] by (auto simp: rx_result_def)
  then show ?thesis using r(1) msg_view_flow(1) [OF r(4)] msg_viewD(3) [OF r(4)] by auto
qed

lemma flag_bits_u16 [simp]: "(x OR b) AND b = (b :: u16)" "(x AND NOT b) AND b = (0 :: u16)"
  by (auto intro!: bit_word_eqI simp: bit_simps)

lemma flag_cross [simp]:
  "(x OR IPS_FLOW_FLAG_PENDING_ACK) AND IPS_FLOW_FLAG_PENDING_NAK = x AND IPS_FLOW_FLAG_PENDING_NAK"
  "(x OR IPS_FLOW_FLAG_PENDING_NAK) AND IPS_FLOW_FLAG_PENDING_ACK = x AND IPS_FLOW_FLAG_PENDING_ACK"
  "(x AND NOT IPS_FLOW_FLAG_PENDING_ACK) AND IPS_FLOW_FLAG_PENDING_NAK = x AND IPS_FLOW_FLAG_PENDING_NAK"
  "(x AND NOT IPS_FLOW_FLAG_PENDING_NAK) AND IPS_FLOW_FLAG_PENDING_ACK = x AND IPS_FLOW_FLAG_PENDING_ACK"
  "(x OR IPS_FLOW_FLAG_NAK_SEND) AND IPS_FLOW_FLAG_PENDING_ACK = x AND IPS_FLOW_FLAG_PENDING_ACK"
  "(x OR IPS_FLOW_FLAG_NAK_SEND) AND IPS_FLOW_FLAG_PENDING_NAK = x AND IPS_FLOW_FLAG_PENDING_NAK"
  "(x AND NOT IPS_FLOW_FLAG_NAK_SEND) AND IPS_FLOW_FLAG_PENDING_ACK = x AND IPS_FLOW_FLAG_PENDING_ACK"
  "(x AND NOT IPS_FLOW_FLAG_NAK_SEND) AND IPS_FLOW_FLAG_PENDING_NAK = x AND IPS_FLOW_FLAG_PENDING_NAK"
  "(x OR IPS_FLOW_FLAG_GEN_BECN) AND IPS_FLOW_FLAG_PENDING_ACK = x AND IPS_FLOW_FLAG_PENDING_ACK"
  "(x OR IPS_FLOW_FLAG_GEN_BECN) AND IPS_FLOW_FLAG_PENDING_NAK = x AND IPS_FLOW_FLAG_PENDING_NAK"
  "IPS_FLOW_FLAG_PENDING_ACK \<noteq> 0" "IPS_FLOW_FLAG_PENDING_NAK \<noteq> 0"
  by (simp_all add: flow_flag_defs and.assoc bit.conj_disj_distrib2)

text \<open>Updates of a flow that touch neither of the two flags keep the queue of acknowledgements consistent.\<close>

lemma acks_ok_flow:
  assumes "acks_ok F p" "\<And>f. flow_flags (g f) AND IPS_FLOW_FLAG_PENDING_ACK = flow_flags f AND IPS_FLOW_FLAG_PENDING_ACK"
    "\<And>f. flow_flags (g f) AND IPS_FLOW_FLAG_PENDING_NAK = flow_flags f AND IPS_FLOW_FLAG_PENDING_NAK"
  shows "acks_ok F (upd_flow fl g p)"
  using assms by (auto simp: acks_ok_def upd_flow_def)

lemma rx_result_flow:
  assumes "ctrl_ok F p" "acks_ok F p" "\<And>f. rxf_view (g f) = rxf_view f"
    "\<And>f. flow_flags (g f) AND IPS_FLOW_FLAG_PENDING_ACK = flow_flags f AND IPS_FLOW_FLAG_PENDING_ACK"
    "\<And>f. flow_flags (g f) AND IPS_FLOW_FLAG_PENDING_NAK = flow_flags f AND IPS_FLOW_FLAG_PENDING_NAK"
  shows "rx_result F p (upd_flow fl g p)"
  using assms(1,2) by (intro rx_result_quiet acks_ok_flow) (simp_all add: assms(3-5), simp_all add: upd_flow_def)

lemma coalesced_acks_ok:
  assumes "acks_ok F p" "fl \<in> F"
  shows "acks_ok F (set_flag fl IPS_FLOW_FLAG_PENDING_ACK (if has_flag fl IPS_FLOW_FLAG_PENDING_NAK p then clear_flag fl IPS_FLOW_FLAG_PENDING_NAK p
      else if \<not> has_flag fl IPS_FLOW_FLAG_PENDING_ACK p then p\<lparr>pending_acks := fl # pending_acks p\<rparr> else p))"
    "acks_ok F (set_flag fl IPS_FLOW_FLAG_PENDING_NAK (if has_flag fl IPS_FLOW_FLAG_PENDING_ACK p then clear_flag fl IPS_FLOW_FLAG_PENDING_ACK p
      else if \<not> has_flag fl IPS_FLOW_FLAG_PENDING_NAK p then p\<lparr>pending_acks := fl # pending_acks p\<rparr> else p))"
  using assms by (auto simp: acks_ok_def upd_flow_def)

lemma rx_coalesced:
  assumes "ctrl_ok F p" "acks_ok F (set_flag fl b q)" "snd_view q = snd_view p" "wire q = wire p" "ctrlqs q = ctrlqs p" "\<And>f. rxf_view (f\<lparr>flow_flags := flow_flags f OR b\<rparr>) = rxf_view f"
  shows "rx_result F p (set_flag fl b q)"
  using assms(1,2) by (intro rx_result_quiet) (simp_all add: assms(3-6), simp_all add: upd_flow_def assms(4,5))

lemma send_ack_ok:
  assumes "fl \<in> F" "ctrl_ok F p" "acks_ok F p"
  shows "\<exists>p'. ips_proto_send_ack e fl p = Inr p' \<and> rx_result F p p' \<and> same_recv p p' \<and> app p' = app p"
proof (cases "proto_flags p AND IPS_PROTO_FLAG_COALESCE_ACKS \<noteq> 0")
  case True
  let ?q = "if has_flag fl IPS_FLOW_FLAG_PENDING_NAK p then clear_flag fl IPS_FLOW_FLAG_PENDING_NAK p
      else if \<not> has_flag fl IPS_FLOW_FLAG_PENDING_ACK p then p\<lparr>pending_acks := fl # pending_acks p\<rparr> else p"
  have "rx_result F p (set_flag fl IPS_FLOW_FLAG_PENDING_ACK ?q)"
    by (rule rx_coalesced [OF assms(2) coalesced_acks_ok(1) [OF assms(3,1)]]) (simp_all, simp_all add: upd_flow_def)
  moreover have "same_recv p (set_flag fl IPS_FLOW_FLAG_PENDING_ACK ?q)" "app (set_flag fl IPS_FLOW_FLAG_PENDING_ACK ?q) = app p" by (simp_all add: upd_flow_def)
  ultimately show ?thesis using True by (simp add: ips_proto_send_ack_def Let_def)
next
  case False
  have "gbn_type OPCODE_ACK" by (simp add: gbn_type_def)
  then obtain err p' where "flow_ctrl e fl OPCODE_ACK p = Inr (err, p')" "rx_result F p p'" "same_recv p p'" "app p' = app p"
    using rx_result_send [OF assms, where t = OPCODE_ACK] by blast
  then show ?thesis using False by (simp add: ips_proto_send_ack_def)
qed

lemma send_nak_ok:
  assumes "fl \<in> F" "ctrl_ok F p" "acks_ok F p"
  shows "\<exists>p'. ips_proto_send_nak e fl p = Inr p' \<and> rx_result F p p' \<and> same_recv p p' \<and> app p' = app p"
proof (cases "proto_flags p AND IPS_PROTO_FLAG_COALESCE_ACKS \<noteq> 0")
  case True
  let ?q = "if has_flag fl IPS_FLOW_FLAG_PENDING_ACK p then clear_flag fl IPS_FLOW_FLAG_PENDING_ACK p
      else if \<not> has_flag fl IPS_FLOW_FLAG_PENDING_NAK p then p\<lparr>pending_acks := fl # pending_acks p\<rparr> else p"
  have "rx_result F p (set_flag fl IPS_FLOW_FLAG_PENDING_NAK ?q)"
    by (rule rx_coalesced [OF assms(2) coalesced_acks_ok(2) [OF assms(3,1)]]) (simp_all, simp_all add: upd_flow_def)
  moreover have "same_recv p (set_flag fl IPS_FLOW_FLAG_PENDING_NAK ?q)" "app (set_flag fl IPS_FLOW_FLAG_PENDING_NAK ?q) = app p" by (simp_all add: upd_flow_def)
  ultimately show ?thesis using True by (simp add: ips_proto_send_nak_def Let_def)
next
  case False
  have "gbn_type OPCODE_NAK" by (simp add: gbn_type_def)
  then obtain err p' where "flow_ctrl e fl OPCODE_NAK p = Inr (err, p')" "rx_result F p p'" "same_recv p p'" "app p' = app p"
    using rx_result_send [OF assms, where t = OPCODE_NAK] by blast
  then show ?thesis using False by (simp add: ips_proto_send_nak_def)
qed

text \<open>A receiving operation that accepts nothing: the expected numbers and the rest of the program stay.\<close>

definition rx_keep :: "flowp set \<Rightarrow> 'w ips_proto \<Rightarrow> 'w ips_proto \<Rightarrow> bool" where
  "rx_keep F p p' \<longleftrightarrow> rx_result F p p' \<and> same_recv p p' \<and> app p' = app p"

lemma rx_keep_trans: "rx_keep F p p1 \<Longrightarrow> rx_keep F p1 p2 \<Longrightarrow> rx_keep F p p2"
  by (auto simp: rx_keep_def intro: rx_result_trans)

lemma rx_keepD: "rx_keep F p p' \<Longrightarrow> ctrl_ok F p' \<and> acks_ok F p'"
  by (simp add: rx_keep_def rx_result_def)

lemma rx_keep_flow:
  assumes "ctrl_ok F p" "acks_ok F p" "\<And>f. rxf_view (g f) = rxf_view f" "\<And>f. recv_seq_num (g f) = recv_seq_num f"
    "\<And>f. flow_flags (g f) AND IPS_FLOW_FLAG_PENDING_ACK = flow_flags f AND IPS_FLOW_FLAG_PENDING_ACK"
    "\<And>f. flow_flags (g f) AND IPS_FLOW_FLAG_PENDING_NAK = flow_flags f AND IPS_FLOW_FLAG_PENDING_NAK"
  shows "rx_keep F p (upd_flow fl g p)"
  unfolding rx_keep_def using rx_result_flow [OF assms(1,2,3,5,6)] assms(4) by (simp add: upd_flow_def)

lemma rx_keep_epaddr:
  assumes "ctrl_ok F p" "acks_ok F p" "\<And>a. ep_view (g a) = ep_view a"
  shows "rx_keep F p (upd_epaddr i g p)"
proof -
  have f: "flows (upd_epaddr i g p) = flows p" "wire (upd_epaddr i g p) = wire p" "ctrlqs (upd_epaddr i g p) = ctrlqs p" "app (upd_epaddr i g p) = app p"
    "pending_acks (upd_epaddr i g p) = pending_acks p" by (simp_all add: upd_epaddr_def)
  have "acks_ok F (upd_epaddr i g p)" using assms(2) by (simp add: acks_ok_def f)
  then show ?thesis using assms(1) by (auto simp: rx_keep_def f assms(3) intro!: rx_result_quiet)
qed

lemma rx_keep_refl: "ctrl_ok F p \<Longrightarrow> acks_ok F p \<Longrightarrow> rx_keep F p p"
  by (simp add: rx_keep_def rx_result_refl)

lemma send_nak_keep:
  assumes "fl \<in> F" "ctrl_ok F p" "acks_ok F p"
  obtains p' where "ips_proto_send_nak e fl p = Inr p'" "rx_keep F p p'"
  using send_nak_ok [OF assms, of e] by (auto simp: rx_keep_def)

lemma send_ctrl_keep:
  assumes "fl \<in> F" "ctrl_ok F p" "acks_ok F p" "gbn_type t"
  obtains err p' where "ips_proto_send_ctrl_message e fl t m args p = Inr (err, p')" "rx_keep F p p'"
  using rx_result_send [OF assms, of e m args] by (auto simp: rx_keep_def)

lemma gbn_types [simp]: "gbn_type OPCODE_ACK" "gbn_type OPCODE_NAK" "gbn_type OPCODE_ERR_CHK" "gbn_type OPCODE_FLOW_CCA_BECN"
  by (simp_all add: gbn_type_def)

section \<open>Data frames\<close>

text \<open>An out-of-sequence frame: at most a negative acknowledgement or a congestion notice.\<close>

lemma unexpected_keep:
  fixes d :: u16 and i :: nat and q :: u24 and e :: "'w ips_env" and p :: "'w ips_proto"
  assumes F: "fl \<in> F" and ok: "ctrl_ok F p" "acks_ok F p"
  defines "p1 \<equiv> upd_flow fl (\<lambda>f. f\<lparr>cca_ooo_pkts := d\<rparr>) p"
  defines "p2 \<equiv> (if cca_ooo_pkts (flows p1 fl) > ack_interval (flows p1 fl)
                then set_flag fl IPS_FLOW_FLAG_GEN_BECN (upd_epaddr i (\<lambda>a. a\<lparr>congestion_pkts := congestion_pkts a + 1\<rparr>) p1) else p1)"
  defines "p3 \<equiv> upd_flow fl (\<lambda>f. f\<lparr>last_seq_num := q\<rparr>) p2"
  shows "\<exists>p'. (if \<not> has_flag fl IPS_FLOW_FLAG_NAK_SEND p3
                 then run_bind (ips_proto_send_nak e fl p3) (\<lambda>p.
                        Inr (False, upd_flow fl (\<lambda>f. f\<lparr>flow_flags := flow_flags f OR IPS_FLOW_FLAG_NAK_SEND, cca_ooo_pkts := 0\<rparr>) p))
                 else if has_flag fl IPS_FLOW_FLAG_GEN_BECN p3
                 then run_bind (flow_ctrl e fl OPCODE_FLOW_CCA_BECN p3) (\<lambda>(_, p). Inr (False, p))
                 else Inr (False, p3)) = Inr (False, p') \<and> rx_keep F p p'"
proof -
  have k1: "rx_keep F p p1" unfolding p1_def by (rule rx_keep_flow [OF ok]) simp_all
  note o1 = rx_keepD [OF k1]
  have "rx_keep F p1 p2"
  proof (cases "cca_ooo_pkts (flows p1 fl) > ack_interval (flows p1 fl)")
    case True
    let ?q = "upd_epaddr i (\<lambda>a. a\<lparr>congestion_pkts := congestion_pkts a + 1\<rparr>) p1"
    have "rx_keep F p1 ?q" using o1 by (intro rx_keep_epaddr) auto
    moreover from this have "rx_keep F ?q (set_flag fl IPS_FLOW_FLAG_GEN_BECN ?q)" by (intro rx_keep_flow) (auto dest: rx_keepD)
    ultimately show ?thesis using True by (auto simp: p2_def intro: rx_keep_trans)
  next
    case False
    then show ?thesis using o1 by (simp add: p2_def rx_keep_refl)
  qed
  then have k2: "rx_keep F p p2" using k1 rx_keep_trans by blast
  have "rx_keep F p2 p3" unfolding p3_def using rx_keepD [OF k2] by (intro rx_keep_flow) auto
  then have k3: "rx_keep F p p3" using k2 rx_keep_trans by blast
  note o3 = rx_keepD [OF k3]
  show ?thesis
  proof (cases "has_flag fl IPS_FLOW_FLAG_NAK_SEND p3")
    case False
    obtain p4 where p4: "ips_proto_send_nak e fl p3 = Inr p4" "rx_keep F p3 p4" using send_nak_keep F o3 by blast
    let ?p = "upd_flow fl (\<lambda>f. f\<lparr>flow_flags := flow_flags f OR IPS_FLOW_FLAG_NAK_SEND, cca_ooo_pkts := 0\<rparr>) p4"
    have "rx_keep F p4 ?p" using rx_keepD [OF p4(2)] by (intro rx_keep_flow) auto
    then have "rx_keep F p ?p" using k3 p4(2) by (blast intro: rx_keep_trans)
    then show ?thesis using False p4(1) by (intro exI [of _ ?p]) simp
  next
    case True
    obtain err p4 where "flow_ctrl e fl OPCODE_FLOW_CCA_BECN p3 = Inr (err, p4)" "rx_keep F p3 p4"
      using send_ctrl_keep [OF F, of p3 OPCODE_FLOW_CCA_BECN] o3 by (metis gbn_types(4))
    then show ?thesis using True k3 by (auto intro: rx_keep_trans)
  qed
qed

lemma expected_ok:
  assumes F: "ev_flow ev \<in> F" "ips_proto_flowid (ev_hdr ev) < EP_FLOW_LAST" and ok: "ctrl_ok F p" "acks_ok F p"
  shows "\<exists>p'. ips_proto_is_expected_or_nak e ev p = Inr (recv_seq_num (flows p (ev_flow ev)) = ucast (h_psn (ev_hdr ev)), p') \<and>
    (if recv_seq_num (flows p (ev_flow ev)) = ucast (h_psn (ev_hdr ev))
     then rx_result F p p' \<and> app p' = app p \<and> wire p' = wire p \<and>
       (\<forall>g. recv_seq_num (flows p' g) = recv_seq_num (flows p g) + (if g = ev_flow ev then 1 else 0))
     else rx_keep F p p')"
proof -
  let ?fl = "ev_flow ev" and ?n = "ucast (h_psn (ev_hdr ev)) :: u24"
  define p1 where "p1 = (if ev_fecn ev \<and> cca_ooo_pkts (flows p ?fl) AND 0xF = 0
                then upd_epaddr (ev_ipsaddr ev) (\<lambda>a. a\<lparr>congestion_pkts := congestion_pkts a + 1\<rparr>)
                       (upd_flow ?fl (\<lambda>f. f\<lparr>flow_flags := flow_flags f OR IPS_FLOW_FLAG_GEN_BECN, cca_ooo_pkts := cca_ooo_pkts f + 1\<rparr>) p)
                else p)"
  have k1: "rx_keep F p p1"
  proof -
    let ?q = "upd_flow ?fl (\<lambda>f. f\<lparr>flow_flags := flow_flags f OR IPS_FLOW_FLAG_GEN_BECN, cca_ooo_pkts := cca_ooo_pkts f + 1\<rparr>) p"
    have q: "rx_keep F p ?q" by (rule rx_keep_flow [OF ok]) simp_all
    then have "rx_keep F ?q (upd_epaddr (ev_ipsaddr ev) (\<lambda>a. a\<lparr>congestion_pkts := congestion_pkts a + 1\<rparr>) ?q)"
      by (intro rx_keep_epaddr) (auto dest: rx_keepD)
    with q show ?thesis using rx_keep_refl [OF ok] by (auto simp: p1_def intro: rx_keep_trans)
  qed
  have r1: "recv_seq_num (flows p1 g) = recv_seq_num (flows p g)" for g using k1 by (simp add: rx_keep_def)
  have w1: "wire p1 = wire p" by (simp add: p1_def upd_epaddr_def upd_flow_def)
  note o1 = rx_keepD [OF k1]
  show ?thesis
  proof (cases "recv_seq_num (flows p ?fl) = ?n")
    case True
    let ?p = "upd_flow ?fl (\<lambda>f. f\<lparr>flow_flags := flow_flags f AND NOT IPS_FLOW_FLAG_NAK_SEND,
                              recv_seq_num := recv_seq_num f + 1, last_seq_num := recv_seq_num f + 1, cca_ooo_pkts := 0\<rparr>) p1"
    have "rx_result F p1 ?p" using o1 by (intro rx_result_flow) auto
    then have "rx_result F p ?p" using k1 w1 by (auto simp: rx_keep_def intro: rx_result_trans)
    moreover have "app ?p = app p" "wire ?p = wire p" using k1 w1 by (simp_all add: rx_keep_def upd_flow_def)
    moreover have "ips_proto_is_expected_or_nak e ev p = Inr (True, ?p)"
      using True F(2) r1 by (simp add: ips_proto_is_expected_or_nak_def Let_def p1_def [symmetric])
    ultimately show ?thesis using True r1 by (intro exI [of _ ?p]) (simp add: upd_flow_def)
  next
    case False
    let ?d = "ucast (?n - last_seq_num (flows p1 ?fl)) :: u16"
    show ?thesis
    proof (cases "sint ?d < 0")
      case True
      then have "ips_proto_is_expected_or_nak e ev p = Inr (False, p1)"
        using False F(2) r1 by (simp add: ips_proto_is_expected_or_nak_def Let_def p1_def [symmetric])
      then show ?thesis using False k1 by auto
    next
      case d: False
      have "\<exists>p'. ips_proto_is_expected_or_nak e ev p = Inr (False, p') \<and> rx_keep F p1 p'"
        using unexpected_keep [OF F(1), where p = p1 and d = ?d and i = "ev_ipsaddr ev" and q = ?n and e = e] o1 False F(2) d r1
        by (simp add: ips_proto_is_expected_or_nak_def Let_def p1_def [symmetric])
      then show ?thesis using False k1 by (auto intro: rx_keep_trans)
    qed
  qed
qed

text \<open>The calls into the matched queue that belong to a header.\<close>

definition call_matches :: "ips_hdr \<Rightarrow> mq_op \<Rightarrow> bool" where
  "call_matches h c = (let mode = (if h_sub_opcode h = OPCODE_SEQ_MQ_HDR then MQ_MSG_TINY else h_mqhdr h); (d0, d1) = h_data h
     in case c of
       Mq_envelope m tag eid len pay paylen \<Rightarrow> m = mode \<and> mode \<le> MQ_MSG_LONG \<and> tag = d0 \<and>
         (mode = MQ_MSG_TINY \<longrightarrow> len = ucast (h_hdr_dlen h) \<and> pay = In_header d1 \<and> paylen = len) \<and>
         (mode = MQ_MSG_SHORT \<longrightarrow> len = h_paylen h - ucast (h_hdr_dlen h) \<and> pay = In_buffer (h_payload h) \<and> paylen = len) \<and>
         (mode = MQ_MSG_LONG \<longrightarrow> len = lo32 d1 \<and> pay = In_buffer (h_payload h) \<and> paylen = h_paylen h)
     | Mq_data i fi a n \<Rightarrow> mode = MQ_MSG_DATA \<and> a = h_payload h \<and> n = h_paylen h
     | Mq_rts m tag req len \<Rightarrow> m = mode \<and> mode \<in> {MQ_MSG_RTS, MQ_MSG_RTS_WAIT, MQ_MSG_RTS_EGR} \<and> tag = d0 \<and> req = lo32 d1 \<and> len = hi32 d1
     | Mq_data_req r a n \<Rightarrow> mode = MQ_MSG_DATA_REQ \<and> r = lo32 d0 \<and> a = h_payload h \<and> n = h_paylen h
     | Mq_cts d \<Rightarrow> mode = MQ_MSG_CTS_EGR \<and> d = h_data h)"

definition data_hdr :: "ips_hdr \<Rightarrow> bool" where
  "data_hdr h \<longleftrightarrow> h_sub_opcode h = OPCODE_SEQ_MQ_HDR \<or> h_sub_opcode h = OPCODE_SEQ_MQ_CTRL \<and>
     (h_mqhdr h \<le> MQ_MSG_LONG \<or> h_mqhdr h \<in> {MQ_MSG_DATA, MQ_MSG_RTS, MQ_MSG_RTS_WAIT, MQ_MSG_RTS_EGR, MQ_MSG_DATA_REQ, MQ_MSG_CTS_EGR})"

lemmas mq_mode_defs = MQ_MSG_TINY_def MQ_MSG_SHORT_def MQ_MSG_LONG_def MQ_MSG_RTS_def MQ_MSG_RTS_WAIT_def MQ_MSG_DATA_def MQ_MSG_RTS_EGR_def
  MQ_MSG_CTS_EGR_def MQ_MSG_DATA_REQ_def

text \<open>Data of an eager message whose envelope is not the first one of the flow.\<close>

definition refused :: "'w ips_env \<Rightarrow> ips_recvhdrq_event \<Rightarrow> 'w ips_proto \<Rightarrow> bool" where
  "refused e ev p \<longleftrightarrow> h_sub_opcode (ev_hdr ev) = OPCODE_SEQ_MQ_CTRL \<and> h_mqhdr (ev_hdr ev) = MQ_MSG_DATA \<and>
     egr_first e (ev_ipsaddr ev) (ips_proto_flowid (ev_hdr ev)) (app p) \<noteq> Some (ucast (drop_bit 8 (lo32 (snd (h_data (ev_hdr ev))))))"

lemma dispatch_cases:
  assumes "ep_flags (ipsaddrs p (ev_ipsaddr ev)) AND SESS_FLAG_HAS_FLOWID \<noteq> 0" "data_hdr (ev_hdr ev)" "h_sub_opcode (ev_hdr ev) = OPCODE_SEQ_MQ_CTRL"
  shows "if refused e ev p then mq_dispatch e ev p = Inr None
    else \<exists>c. mq_dispatch e ev p = Inr (Some (Some c)) \<and> call_matches (ev_hdr ev) c"
proof -
  obtain d0 d1 where d: "h_data (ev_hdr ev) = (d0, d1)" by fastforce
  have o: "OPCODE_SEQ_MQ_CTRL \<noteq> OPCODE_SEQ_MQ_HDR" by (simp add: opcode_defs)
  consider "h_mqhdr (ev_hdr ev) \<le> MQ_MSG_LONG" | "h_mqhdr (ev_hdr ev) = MQ_MSG_DATA" | "h_mqhdr (ev_hdr ev) \<in> {MQ_MSG_RTS, MQ_MSG_RTS_WAIT, MQ_MSG_RTS_EGR}"
    | "h_mqhdr (ev_hdr ev) = MQ_MSG_DATA_REQ" | "h_mqhdr (ev_hdr ev) = MQ_MSG_CTS_EGR" using assms(2,3) o by (auto simp: data_hdr_def)
  then show ?thesis
  proof cases
    case 1
    then show ?thesis using d assms(3) o by (auto simp: mq_dispatch_def refused_def call_matches_def Let_def mq_mode_defs)
  next
    case 2
    then show ?thesis using d assms(1,3) o by (auto simp: mq_dispatch_def refused_def call_matches_def Let_def mq_mode_defs)
  next
    case 3
    then show ?thesis using d assms(3) o by (auto simp: mq_dispatch_def refused_def call_matches_def Let_def mq_mode_defs)
  next
    case 4
    then show ?thesis using d assms(3) o by (auto simp: mq_dispatch_def refused_def call_matches_def Let_def mq_mode_defs)
  next
    case 5
    then show ?thesis using d assms(3) o by (auto simp: mq_dispatch_def refused_def call_matches_def Let_def mq_mode_defs)
  qed
qed

text \<open>A data frame was accepted: the number moves on and the matched queue got one call, the one of its header.\<close>

definition rx_accept :: "flowp set \<Rightarrow> 'w ips_env \<Rightarrow> ips_recvhdrq_event \<Rightarrow> 'w ips_proto \<Rightarrow> 'w ips_proto \<Rightarrow> bool" where
  "rx_accept F e ev p p' \<longleftrightarrow> recv_seq_num (flows p (ev_flow ev)) = ucast (h_psn (ev_hdr ev)) \<and> rx_result F p p' \<and>
     (\<forall>g. recv_seq_num (flows p' g) = recv_seq_num (flows p g) + (if g = ev_flow ev then 1 else 0)) \<and>
     (\<exists>c. call_matches (ev_hdr ev) c \<and> app p' = mq_call e c (app p))"

text \<open>The packet belongs to a flow of \<open>F\<close> whose identifier is its index, and its endpoint identifies eager messages by flows.\<close>

definition rx_ready :: "flowp set \<Rightarrow> ips_recvhdrq_event \<Rightarrow> 'w ips_proto \<Rightarrow> bool" where
  "rx_ready F ev p \<longleftrightarrow> ev_flow ev \<in> F \<and> ips_proto_flowid (ev_hdr ev) < EP_FLOW_LAST \<and> unat (flowid (flows p (ev_flow ev))) = ips_proto_flowid (ev_hdr ev) \<and>
     ep_flags (ipsaddrs p (ev_ipsaddr ev)) AND SESS_FLAG_HAS_FLOWID \<noteq> 0 \<and> ctrl_ok F p \<and> acks_ok F p"

lemma unreceive_keep:
  assumes F: "rx_ready F ev p" and p1: "rx_result F p p1" "app p1 = app p" "wire p1 = wire p"
    "\<forall>g. recv_seq_num (flows p1 g) = recv_seq_num (flows p g) + (if g = ev_flow ev then 1 else 0)"
  shows "\<exists>p'. mq_unreceive e ev p1 = Inr p' \<and> rx_keep F p p'"
proof -
  let ?fl = "ev_flow ev"
  define p2 where "p2 = upd_flow ?fl (\<lambda>f. f\<lparr>recv_seq_num := recv_seq_num f - 1\<rparr>) p1"
  have o1: "ctrl_ok F p1" "acks_ok F p1" using p1(1) by (simp_all add: rx_result_def)
  have "rx_result F p1 p2" unfolding p2_def by (rule rx_result_flow [OF o1]) simp_all
  then have k2: "rx_keep F p p2" using p1 rx_result_trans [OF p1(1)] by (auto simp: rx_keep_def) (simp_all add: p2_def upd_flow_def)
  note o2 = rx_keepD [OF k2]
  have fid: "flowid (flows p2 ?fl) = flowid (flows p ?fl)" using k2 by (auto simp: rx_keep_def rx_result_def intro: snd_flowD)
  then have fl: "Ep_flow (ev_ipsaddr ev) (unat (flowid (flows p2 ?fl))) = ?fl" "unat (flowid (flows p2 ?fl)) < EP_FLOW_LAST"
    using F by (simp_all add: rx_ready_def)
  have mem: "?fl \<in> F" using F by (simp add: rx_ready_def)
  show ?thesis
  proof (cases "has_flag ?fl IPS_FLOW_FLAG_NAK_SEND p2")
    case True
    then show ?thesis using k2 by (simp add: mq_unreceive_def Let_def p2_def [symmetric])
  next
    case False
    obtain err p3 where p3: "ips_proto_send_ctrl_message e ?fl OPCODE_NAK (Ep_mask (ev_ipsaddr ev)) None p2 = Inr (err, p3)" "rx_keep F p2 p3"
      using send_ctrl_keep [OF mem, of p2 OPCODE_NAK] o2 by (metis gbn_types(2))
    let ?p = "if err = PSM_OK then set_flag ?fl IPS_FLOW_FLAG_NAK_SEND p3 else p3"
    have "rx_keep F p3 ?p" using rx_keepD [OF p3(2)] by (auto intro!: rx_keep_flow rx_keep_refl)
    then have "rx_keep F p ?p" using k2 p3(2) by (blast intro: rx_keep_trans)
    moreover have "mq_unreceive e ev p1 = Inr ?p" using False fl p3(1) by (simp add: mq_unreceive_def Let_def p2_def [symmetric])
    ultimately show ?thesis by blast
  qed
qed

lemma accept_ack:
  fixes e :: "'w ips_env" and p1 :: "'w ips_proto" and c :: mq_op and b :: bool
  assumes F: "rx_ready F ev p" and p1: "rx_result F p p1" "app p1 = app p" "wire p1 = wire p"
    "\<forall>g. recv_seq_num (flows p1 g) = recv_seq_num (flows p g) + (if g = ev_flow ev then 1 else 0)"
    and h: "recv_seq_num (flows p (ev_flow ev)) = ucast (h_psn (ev_hdr ev))" "call_matches (ev_hdr ev) c"
  defines "p2 \<equiv> p1\<lparr>app := mq_call e c (app p1)\<rparr>"
  shows "\<exists>p'. (if b then ips_proto_send_ack e (ev_flow ev) p2 else Inr p2) = Inr p' \<and> rx_accept F e ev p p'"
proof -
  have o1: "ctrl_ok F p1" "acks_ok F p1" using p1(1) by (simp_all add: rx_result_def)
  have a2: "acks_ok F p2" using o1(2) by (simp add: acks_ok_def p2_def)
  then have "rx_result F p1 p2" using o1 by (intro rx_result_quiet) (simp_all add: p2_def)
  then have r2: "rx_result F p p2" using p1(1,3) by (blast intro: rx_result_trans)
  have acc2: "rx_accept F e ev p p2" using r2 p1(2,4) h by (auto simp: rx_accept_def p2_def)
  have mem: "ev_flow ev \<in> F" and o2: "ctrl_ok F p2" using F r2 by (simp_all add: rx_ready_def rx_result_def)
  obtain p3 where p3: "ips_proto_send_ack e (ev_flow ev) p2 = Inr p3" "rx_result F p2 p3" "same_recv p2 p3" "app p3 = app p2"
    using send_ack_ok [OF mem o2 a2] by blast
  have "rx_accept F e ev p p3" using acc2 p3 rx_result_trans [OF r2 p3(2)] by (auto simp: rx_accept_def)
  then show ?thesis using p3(1) acc2 by (cases b) auto
qed

lemma process_mq_ok:
  assumes F: "rx_ready F ev p" and h: "data_hdr (ev_hdr ev)" "h_sub_opcode (ev_hdr ev) = OPCODE_SEQ_MQ_CTRL"
  shows "\<exists>p'. process_mq e ev p = Inr p' \<and> (if recv_seq_num (flows p (ev_flow ev)) = ucast (h_psn (ev_hdr ev)) \<and> \<not> refused e ev p
    then rx_accept F e ev p p' else rx_keep F p p')"
proof -
  let ?ok = "recv_seq_num (flows p (ev_flow ev)) = ucast (h_psn (ev_hdr ev))"
  have R: "ev_flow ev \<in> F" "ips_proto_flowid (ev_hdr ev) < EP_FLOW_LAST" "ctrl_ok F p" "acks_ok F p" using F by (simp_all add: rx_ready_def)
  obtain p1 where p1: "ips_proto_is_expected_or_nak e ev p = Inr (?ok, p1)" "if ?ok then rx_result F p p1 \<and> app p1 = app p \<and> wire p1 = wire p \<and>
       (\<forall>g. recv_seq_num (flows p1 g) = recv_seq_num (flows p g) + (if g = ev_flow ev then 1 else 0)) else rx_keep F p p1"
    using expected_ok [OF R] by blast
  show ?thesis
  proof (cases ?ok)
    case False
    then show ?thesis using p1 by (simp add: process_mq_def)
  next
    case True
    then have q: "rx_result F p p1" "app p1 = app p" "wire p1 = wire p"
      "\<forall>g. recv_seq_num (flows p1 g) = recv_seq_num (flows p g) + (if g = ev_flow ev then 1 else 0)" using p1(2) by simp_all
    have "ep_flags (ipsaddrs p1 (ev_ipsaddr ev)) AND SESS_FLAG_HAS_FLOWID \<noteq> 0"
      using F q(1) snd_viewD(11) [of p1 p] by (simp add: rx_ready_def rx_result_def)
    moreover have "refused e ev p1 = refused e ev p" using q(2) by (simp add: refused_def)
    ultimately consider "refused e ev p" "mq_dispatch e ev p1 = Inr None"
      | c where "\<not> refused e ev p" "mq_dispatch e ev p1 = Inr (Some (Some c))" "call_matches (ev_hdr ev) c"
      using dispatch_cases [OF _ h, of p1 e] by (metis (full_types))
    then show ?thesis
    proof cases
      case 1
      then show ?thesis using unreceive_keep [OF F q, of e] p1(1) True by (auto simp: process_mq_def)
    next
      case 2
      obtain p' where p': "(if ucast (h_flags (ev_hdr ev)) AND IPS_SEND_FLAG_ACK_REQ \<noteq> 0 \<or> has_flag (ev_flow ev) IPS_FLOW_FLAG_GEN_BECN p1
          then ips_proto_send_ack e (ev_flow ev) (p1\<lparr>app := mq_call e c (app p1)\<rparr>) else Inr (p1\<lparr>app := mq_call e c (app p1)\<rparr>)) = Inr p'"
        "rx_accept F e ev p p'" using accept_ack [OF F q True 2(3)] by blast
      then have "process_mq e ev p = Inr p'" using 2(2) p1(1) True by (auto simp: process_mq_def Let_def upd_flow_def split: if_splits)
      then show ?thesis using p'(2) 2(1) True by auto
    qed
  qed
qed

lemma process_tiny_ok:
  assumes F: "rx_ready F ev p" and h: "h_sub_opcode (ev_hdr ev) = OPCODE_SEQ_MQ_HDR"
  shows "\<exists>p'. ips_proto_process_mq_tiny e ev p = Inr p' \<and> (if recv_seq_num (flows p (ev_flow ev)) = ucast (h_psn (ev_hdr ev))
    then rx_accept F e ev p p' else rx_keep F p p')"
proof -
  let ?ok = "recv_seq_num (flows p (ev_flow ev)) = ucast (h_psn (ev_hdr ev))" and ?h = "ev_hdr ev"
  have R: "ev_flow ev \<in> F" "ips_proto_flowid ?h < EP_FLOW_LAST" "ctrl_ok F p" "acks_ok F p" using F by (simp_all add: rx_ready_def)
  obtain p1 where p1: "ips_proto_is_expected_or_nak e ev p = Inr (?ok, p1)" "if ?ok then rx_result F p p1 \<and> app p1 = app p \<and> wire p1 = wire p \<and>
       (\<forall>g. recv_seq_num (flows p1 g) = recv_seq_num (flows p g) + (if g = ev_flow ev then 1 else 0)) else rx_keep F p p1"
    using expected_ok [OF R] by blast
  have c: "call_matches ?h (Mq_envelope MQ_MSG_TINY (fst (h_data ?h)) None (ucast (h_hdr_dlen ?h)) (In_header (snd (h_data ?h))) (ucast (h_hdr_dlen ?h)))"
    using h by (simp add: call_matches_def mq_mode_defs split: prod.split)
  show ?thesis
  proof (cases ?ok)
    case False
    then show ?thesis using p1 by (simp add: ips_proto_process_mq_tiny_def)
  next
    case True
    then have q: "rx_result F p p1" "app p1 = app p" "wire p1 = wire p"
      "\<forall>g. recv_seq_num (flows p1 g) = recv_seq_num (flows p g) + (if g = ev_flow ev then 1 else 0)" using p1(2) by simp_all
    obtain p' where "ips_proto_process_mq_tiny e ev p = Inr p'" "rx_accept F e ev p p'"
      using accept_ack [OF F q True c, where b = "ucast (h_flags ?h) AND IPS_SEND_FLAG_ACK_REQ \<noteq> 0" and e = e] p1(1) True
      by (auto simp: ips_proto_process_mq_tiny_def Let_def)
    then show ?thesis using True by auto
  qed
qed

section \<open>Error checks, pending acknowledgements and the rings\<close>

lemma process_err_chk_ok:
  assumes "rx_ready F ev p"
  shows "\<exists>p'. process_err_chk e ev p = Inr p' \<and> rx_keep F p p'"
proof -
  let ?fl = "ev_flow ev"
  have R: "?fl \<in> F" "\<not> EP_FLOW_LAST \<le> ips_proto_flowid (ev_hdr ev)" "ctrl_ok F p" "acks_ok F p" using assms by (auto simp: rx_ready_def)
  define p1 where "p1 = upd_epaddr (ev_ipsaddr ev) (\<lambda>a. a\<lparr>err_chk_recv := err_chk_recv a + 1\<rparr>) p"
  have k1: "rx_keep F p p1" unfolding p1_def by (rule rx_keep_epaddr [OF R(3,4)]) simp
  define off where "off = sint (ucast (ucast (recv_seq_num (flows p1 ?fl)) - h_psn (ev_hdr ev)) :: u16)"
  show ?thesis
  proof (cases "off \<le> 0")
    case True
    define p2 where "p2 = (if off < - int (unat (ack_interval (flows p1 ?fl))) then set_flag ?fl IPS_FLOW_FLAG_GEN_BECN p1 else p1)"
    have "rx_keep F p1 p2" unfolding p2_def using rx_keepD [OF k1] by (auto intro!: rx_keep_flow rx_keep_refl)
    then have k2: "rx_keep F p p2" using k1 rx_keep_trans by blast
    obtain p3 where p3: "ips_proto_send_nak e ?fl p2 = Inr p3" "rx_keep F p2 p3" using send_nak_keep R(1) rx_keepD [OF k2] by blast
    have "rx_keep F p3 (set_flag ?fl IPS_FLOW_FLAG_NAK_SEND p3)" using rx_keepD [OF p3(2)] by (intro rx_keep_flow) auto
    then have "rx_keep F p (set_flag ?fl IPS_FLOW_FLAG_NAK_SEND p3)" using k2 p3(2) by (blast intro: rx_keep_trans)
    then show ?thesis using True R(2) p3(1)
      by (intro exI [of _ "set_flag ?fl IPS_FLOW_FLAG_NAK_SEND p3"]) (auto simp: process_err_chk_def Let_def p1_def [symmetric] off_def [symmetric] p2_def split: if_splits)
  next
    case False
    obtain err p2 where p2: "ips_proto_send_ctrl_message e ?fl OPCODE_ACK (Ep_mask (ev_ipsaddr ev)) None p1 = Inr (err, p2)" "rx_keep F p1 p2"
      using send_ctrl_keep [OF R(1), of p1 OPCODE_ACK] rx_keepD [OF k1] by (metis gbn_types(1))
    then have "rx_keep F p p2" using k1 rx_keep_trans by blast
    then show ?thesis using False R(2) p2(1) by (intro exI [of _ p2]) (simp add: process_err_chk_def Let_def p1_def [symmetric] off_def [symmetric])
  qed
qed

lemma pending_step:
  assumes "ctrl_ok F p" "acks_ok F p" "pending_acks p = fl # rest"
  shows "fl \<in> F" "has_flag fl IPS_FLOW_FLAG_PENDING_ACK p \<noteq> has_flag fl IPS_FLOW_FLAG_PENDING_NAK p"
    "has_flag fl IPS_FLOW_FLAG_PENDING_ACK p \<Longrightarrow> rx_keep F p (clear_flag fl IPS_FLOW_FLAG_PENDING_ACK (p\<lparr>pending_acks := rest\<rparr>))"
    "has_flag fl IPS_FLOW_FLAG_PENDING_NAK p \<Longrightarrow> rx_keep F p (clear_flag fl IPS_FLOW_FLAG_PENDING_NAK (p\<lparr>pending_acks := rest\<rparr>))"
proof -
  show "fl \<in> F" "has_flag fl IPS_FLOW_FLAG_PENDING_ACK p \<noteq> has_flag fl IPS_FLOW_FLAG_PENDING_NAK p" using assms(2,3) by (auto simp: acks_ok_def)
  have gen: "rx_keep F p (clear_flag fl b (p\<lparr>pending_acks := rest\<rparr>))"
    if "acks_ok F (clear_flag fl b (p\<lparr>pending_acks := rest\<rparr>))" "\<And>f. rxf_view (f\<lparr>flow_flags := flow_flags f AND NOT b\<rparr>) = rxf_view f" for b
  proof -
    have "rx_result F p (clear_flag fl b (p\<lparr>pending_acks := rest\<rparr>))"
      by (rule rx_result_quiet [OF _ _ _ assms(1) that(1)]) (simp_all add: that(2), simp_all add: upd_flow_def)
    then show ?thesis by (simp add: rx_keep_def upd_flow_def)
  qed
  show "rx_keep F p (clear_flag fl IPS_FLOW_FLAG_PENDING_ACK (p\<lparr>pending_acks := rest\<rparr>))" if "has_flag fl IPS_FLOW_FLAG_PENDING_ACK p"
    using that assms(2,3) by (intro gen) (auto simp: acks_ok_def upd_flow_def)
  show "rx_keep F p (clear_flag fl IPS_FLOW_FLAG_PENDING_NAK (p\<lparr>pending_acks := rest\<rparr>))" if "has_flag fl IPS_FLOW_FLAG_PENDING_NAK p"
    using that assms(2,3) by (intro gen) (auto simp: acks_ok_def upd_flow_def)
qed

lemma pending_acks_ok:
  assumes "ctrl_ok F p" "acks_ok F p"
  shows "\<exists>p'. process_pending_acks e p = Inr p' \<and> rx_keep F p p' \<and> pending_acks p' = []"
  using assms
proof (induction "length (pending_acks p)" arbitrary: p)
  case 0
  then show ?case by (subst process_pending_acks.simps) (simp add: rx_keep_refl)
next
  case (Suc n)
  then obtain fl rest where q: "pending_acks p = fl # rest" by (cases "pending_acks p") auto
  note st = pending_step [OF Suc.prems q]
  define b where "b = (if has_flag fl IPS_FLOW_FLAG_PENDING_ACK p then IPS_FLOW_FLAG_PENDING_ACK else IPS_FLOW_FLAG_PENDING_NAK)"
  define t where "t = (if has_flag fl IPS_FLOW_FLAG_PENDING_ACK p then OPCODE_ACK else OPCODE_NAK)"
  define p1 where "p1 = clear_flag fl b (p\<lparr>pending_acks := rest\<rparr>)"
  have k1: "rx_keep F p p1" using st by (auto simp: p1_def b_def)
  obtain err p2 where p2: "flow_ctrl e fl t p1 = Inr (err, p2)" "rx_keep F p1 p2"
    using send_ctrl_keep [OF st(1), of p1 t] rx_keepD [OF k1] by (metis t_def gbn_types(1,2))
  have k2: "rx_keep F p p2" using k1 p2(2) by (rule rx_keep_trans)
  have "pending_acks p2 = pending_acks p1" using send_ctrl_view [OF p2(1)] by (rule msg_viewD)
  then have len: "n = length (pending_acks p2)" using Suc.hyps(2) q by (simp add: p1_def upd_flow_def)
  have u: "process_pending_acks e p = process_pending_acks e p2"
    using st(2) q p2(1) by (subst process_pending_acks.simps) (auto simp: Let_def p1_def b_def t_def split: if_splits)
  show ?case using Suc.hyps(1) [OF len] rx_keepD [OF k2] k2 u by (auto intro: rx_keep_trans)
qed

lemma ctrlq_callback_ok:
  assumes "qi < 4" "ctrl_ok F p" "acks_ok F p"
  shows "\<exists>p'. ips_proto_timer_ctrlq_callback e qi p = Inr p' \<and> rx_keep F p p'"
proof -
  obtain es where es: "ctrlq_rep (ctrlqs p qi) es" "\<forall>c \<in> set es. cqe_flow c \<in> F \<and> gbn_type (cqe_message_type c)" using assms by (auto simp: ctrl_ok_def)
  then have "queue_ok p es" using assms(2) by (auto simp: queue_ok_def gbn_msg_def ctrl_ok_def)
  then obtain k p' fs where r: "ctrlq_drain e qi False p = Inr p'" "ctrlq_rep (ctrlqs p' qi) (drop k es)" "msg_view p' = msg_view p"
    "\<forall>j. j \<noteq> qi \<longrightarrow> ctrlqs p' j = ctrlqs p j" "wire p' = wire p @ fs" "list_all2 (delivers p) (take k es) fs"
    using drain_gbn [OF es(1), of e] by blast
  have "msgs_ok F p fs" using r(6) by (rule delivers_msgs) (use es(2) in \<open>auto dest: in_set_takeD\<close>)
  then have "\<exists>ms. wire p' = wire p @ ms \<and> msgs_ok F p' ms" using r(5) msgs_ok_view [OF r(3)] by auto
  moreover have "\<forall>c \<in> set (drop k es). cqe_flow c \<in> F \<and> gbn_type (cqe_message_type c)" using es(2) by (auto dest: in_set_dropD)
  then have "ctrl_ok F p'" using assms(2) r(2,4) msg_view_flow(2,3) [OF r(3)] unfolding ctrl_ok_def by metis
  ultimately have "rx_keep F p p'"
    using snd_view_msg [OF r(3)] acks_ok_view [OF r(3)] assms(3) msg_view_flow(1) [OF r(3)] msg_viewD(3) [OF r(3)] by (simp add: rx_keep_def rx_result_def)
  then show ?thesis using r(1) by (simp add: ips_proto_timer_ctrlq_callback_def)
qed

section \<open>What receiving guarantees\<close>

text \<open>A node at rest that writes down the calls into its matched queue, and an environment that does so.\<close>

definition demo_recv :: "mq_op list ips_proto" where
  "demo_recv = (demo_proto [])\<lparr>ipsaddrs := (\<lambda>_. demo_epaddr\<lparr>ep_flags := SESS_FLAG_HAS_FLOWID\<rparr>)\<rparr>"

definition demo_mq_env :: "mq_op list ips_env" where
  "demo_mq_env = demo_env\<lparr>mq_call := (\<lambda>c w. w @ [c])\<rparr>"

definition demo_owing :: "mq_op list ips_proto" where
  "demo_owing = demo_recv\<lparr>pending_acks := [Ep_flow 0 0], flows := (\<lambda>_. demo_flow\<lparr>flow_flags := IPS_FLOW_FLAG_PENDING_ACK\<rparr>)\<rparr>"

lemma demo_recv_ready:
  "ctrl_ok {Ep_flow 0 0} demo_recv" "acks_ok {Ep_flow 0 0} demo_recv" "rx_ready {Ep_flow 0 0} (demo_packet t a) demo_recv"
proof -
  show 1: "ctrl_ok {Ep_flow 0 0} demo_recv"
    by (auto simp: ctrl_ok_def demo_recv_def demo_flow_def demo_ctrlq_def demo_cqe_def ctrlq_rep_def CTRL_MSG_QEUEUE_SIZE_def intro!: exI [of _ "[]"])
  show 2: "acks_ok {Ep_flow 0 0} demo_recv" by (simp add: acks_ok_def demo_recv_def demo_flow_def)
  show "rx_ready {Ep_flow 0 0} (demo_packet t a) demo_recv" using 1 2
    by (simp add: rx_ready_def demo_packet_def ips_proto_flowid_def EP_FLOW_LAST_def) (simp add: demo_recv_def demo_flow_def SESS_FLAG_HAS_FLOWID_def)
qed





end
