(* ===== verification/Ips_Net.thy ===== *)
theory Ips_Net
  imports Ips_Rx
begin

text \<open>
  Two nodes that exchange frames over a network which loses, duplicates, delays and reorders them. What a node
  promises about one of its flows is stated as an interface (\<open>gbn_node\<close>), and from this interface alone it follows that frames are
  passed on in order, once each and without gaps, and that a frame is released only after it was passed on.
\<close>

section \<open>The interface of a node\<close>

text \<open>
  What can be seen of a node: the frames that wait for an acknowledgement, the numbers of the next frame to queue and of the next
  frame expected, the calls made so far into the matched queue, and the frames that were put on the wire.
\<close>

record 'p gbn_view =
  queue_of :: "'p \<Rightarrow> ips_hdr list"
  xmit_of :: "'p \<Rightarrow> u24"
  recv_of :: "'p \<Rightarrow> u24"
  calls_of :: "'p \<Rightarrow> mq_op list"
  wire_of :: "'p \<Rightarrow> ips_hdr list"

text \<open>What a node does: on its own (flushes, timers, the user), queueing a frame, receiving a frame.\<close>

record 'p gbn_steps =
  local_step :: "'p \<Rightarrow> 'p \<Rightarrow> bool"
  queue_step :: "ips_hdr \<Rightarrow> 'p \<Rightarrow> 'p \<Rightarrow> bool"
  recv_step :: "ips_hdr \<Rightarrow> 'p \<Rightarrow> 'p \<Rightarrow> bool"

definition is_data :: "ips_hdr \<Rightarrow> bool" where
  "is_data h \<longleftrightarrow> h_sub_opcode h = OPCODE_SEQ_MQ_HDR \<or> h_sub_opcode h = OPCODE_SEQ_MQ_CTRL"

definition has_ack :: "ips_hdr \<Rightarrow> bool" where
  "has_ack h \<longleftrightarrow> is_data h \<or> h_sub_opcode h = OPCODE_ACK \<or> h_sub_opcode h = OPCODE_NAK"

definition hdr_psn :: "ips_hdr \<Rightarrow> u24" where "hdr_psn h = ucast (h_psn h)"

text \<open>Frames for the flow of the interface: data of the kinds that the matched queue knows, or control messages.\<close>

definition well_formed :: "u8 \<Rightarrow> ips_hdr \<Rightarrow> bool" where
  "well_formed f h \<longleftrightarrow> h_flowid h = f \<and> (if is_data h then data_hdr h else gbn_type (h_sub_opcode h))"

text \<open>
  The frames that a step puts on the wire: frames of the queue, and control messages with the number expected after the step.
\<close>

definition emits :: "'p gbn_view \<Rightarrow> u8 \<Rightarrow> 'p \<Rightarrow> 'p \<Rightarrow> bool" where
  "emits v f p p' \<longleftrightarrow> (\<exists>ms. wire_of v p' = wire_of v p @ ms \<and>
     (\<forall>h \<in> set ms. h \<in> set (queue_of v p) \<or> well_formed f h \<and> \<not> is_data h \<and> (has_ack h \<longrightarrow> h_ack_seq_num h = recv_of v p')))"

text \<open>The two halves of receiving a frame: it is passed on or not, and its acknowledgement releases frames or not.\<close>

definition passes :: "'p gbn_view \<Rightarrow> ips_hdr \<Rightarrow> 'p \<Rightarrow> 'p \<Rightarrow> bool" where
  "passes v h p p' \<longleftrightarrow> recv_of v p' = recv_of v p \<and> calls_of v p' = calls_of v p \<or>
     is_data h \<and> recv_of v p = hdr_psn h \<and> recv_of v p' = recv_of v p + 1 \<and> (\<exists>c. call_matches h c \<and> calls_of v p' = calls_of v p @ [c])"

definition acked :: "'p gbn_view \<Rightarrow> ips_hdr \<Rightarrow> 'p \<Rightarrow> 'p \<Rightarrow> bool" where
  "acked v h p p' \<longleftrightarrow> queue_of v p' = queue_of v p \<or>
     has_ack h \<and> (\<exists>k \<le> length (queue_of v p). h_ack_seq_num h = xmit_of v p - of_nat (length (queue_of v p) - k) \<and>
       queue_of v p' = drop k (queue_of v p))"

locale gbn_node =
  fixes v :: "'p gbn_view" and st :: "'p gbn_steps" and f :: u8 and ok :: "'p \<Rightarrow> bool"
  assumes short: "ok p \<Longrightarrow> length (queue_of v p) < 2 ^ 24"
    and local_law: "ok p \<Longrightarrow> local_step st p p' \<Longrightarrow> ok p' \<and> queue_of v p' = queue_of v p \<and> xmit_of v p' = xmit_of v p \<and>
        recv_of v p' = recv_of v p \<and> calls_of v p' = calls_of v p \<and> emits v f p p'"
    and queue_law: "ok p \<Longrightarrow> queue_step st h p p' \<Longrightarrow> ok p' \<and> queue_of v p' = queue_of v p @ [h] \<and> xmit_of v p' = xmit_of v p + 1 \<and>
        recv_of v p' = recv_of v p \<and> calls_of v p' = calls_of v p \<and> wire_of v p' = wire_of v p \<and>
        well_formed f h \<and> is_data h \<and> hdr_psn h = xmit_of v p \<and> h_ack_seq_num h = recv_of v p"
    and recv_law: "ok p \<Longrightarrow> well_formed f h \<Longrightarrow> recv_step st h p p' \<Longrightarrow> ok p' \<and> xmit_of v p' = xmit_of v p \<and> emits v f p p' \<and>
        passes v h p p' \<and> acked v h p p'"

section \<open>Two nodes and a network\<close>

text \<open>
  The state of the system: the nodes, the frames each has queued so far, with the number of frames of the peer passed on at that time, and the frames
  that each has put on the wire. A frame in the network carries two notes that the nodes do not see: its position among the
  frames of its sender, and how many frames of the receiver it acknowledges.
\<close>

record 'p gbn_net =
  node :: "bool \<Rightarrow> 'p"
  sent :: "bool \<Rightarrow> (ips_hdr \<times> nat) list"
  net :: "bool \<Rightarrow> (ips_hdr \<times> nat \<times> nat) set"

definition noted :: "(ips_hdr \<times> nat) list \<Rightarrow> nat \<Rightarrow> ips_hdr \<Rightarrow> ips_hdr \<times> nat \<times> nat" where
  "noted S r h = (h, if is_data h then let i = length S - unat (of_nat (length S) - hdr_psn h :: u24) in (i, snd (S ! i)) else (0, r))"

text \<open>Node \<open>x\<close> moves to the state \<open>p\<close>; what it puts on the wire goes into the network.\<close>

definition moves :: "(bool \<Rightarrow> 'p gbn_view) \<Rightarrow> bool \<Rightarrow> 'p \<Rightarrow> 'p gbn_net \<Rightarrow> 'p gbn_net" where
  "moves v x p s = s\<lparr>node := (node s)(x := p),
     net := (net s)(x := net s x \<union> noted (sent s x) (length (calls_of (v x) p)) ` set (drop (length (wire_of (v x) (node s x))) (wire_of (v x) p)))\<rparr>"

text \<open>
  The steps. The network is a set of frames that is never emptied: not receiving a frame is losing it, receiving
  it again duplicates it. Numbers are 24 bits wide, so an old frame must not survive until its numbers are used
  again: a frame is received only while fewer than \<open>2 ^ 24\<close> frames were queued after the ones it names.
\<close>

inductive net_step :: "(bool \<Rightarrow> 'p gbn_view) \<Rightarrow> (bool \<Rightarrow> 'p gbn_steps) \<Rightarrow> 'p gbn_net \<Rightarrow> 'p gbn_net \<Rightarrow> bool" for v st where
  Local: "local_step (st x) (node s x) p \<Longrightarrow> net_step v st s (moves v x p s)"
| Queue: "queue_step (st x) h (node s x) p \<Longrightarrow>
    net_step v st s (s\<lparr>node := (node s)(x := p), sent := (sent s)(x := sent s x @ [(h, length (calls_of (v x) (node s x)))])\<rparr>)"
| Receive: "(h, i, r) \<in> net s (\<not> x) \<Longrightarrow> is_data h \<longrightarrow> length (sent s (\<not> x)) - i < 2 ^ 24 \<Longrightarrow> has_ack h \<longrightarrow> length (sent s x) - r < 2 ^ 24 \<Longrightarrow>
    recv_step (st x) h (node s x) p \<Longrightarrow> net_step v st s (moves v x p s)"

definition net_start :: "(bool \<Rightarrow> 'p gbn_view) \<Rightarrow> (bool \<Rightarrow> 'p \<Rightarrow> bool) \<Rightarrow> 'p gbn_net \<Rightarrow> bool" where
  "net_start v ok s \<longleftrightarrow> (\<forall>x. ok x (node s x) \<and> queue_of (v x) (node s x) = [] \<and> xmit_of (v x) (node s x) = 0 \<and> recv_of (v x) (node s x) = 0 \<and>
     calls_of (v x) (node s x) = [] \<and> sent s x = [] \<and> net s x = {})"

text \<open>
  What holds of the frames from \<open>x\<close> to its peer: the queue is the end of the list of frames, the peer has
  passed on a beginning of it that covers all the released frames, and the frames in the network are copies of the frames.
\<close>

definition in_order :: "(bool \<Rightarrow> 'p gbn_view) \<Rightarrow> bool \<Rightarrow> 'p gbn_net \<Rightarrow> bool" where
  "in_order v x s \<longleftrightarrow>
     (let S = sent s x; N = length S; Q = queue_of (v x) (node s x); D = calls_of (v (\<not> x)) (node s (\<not> x)); R = length D
      in length Q \<le> N \<and> N - length Q \<le> R \<and> R \<le> N \<and> Q = map fst (drop (N - length Q) S) \<and> xmit_of (v x) (node s x) = of_nat N \<and>
         recv_of (v (\<not> x)) (node s (\<not> x)) = of_nat R \<and> list_all2 (\<lambda>(h, r) c. call_matches h c) (take R S) D)"

definition queued_ok :: "u8 \<Rightarrow> nat \<Rightarrow> nat \<Rightarrow> ips_hdr \<times> nat \<Rightarrow> bool" where
  "queued_ok f R i t \<longleftrightarrow> well_formed f (fst t) \<and> is_data (fst t) \<and> hdr_psn (fst t) = of_nat i \<and> h_ack_seq_num (fst t) = of_nat (snd t) \<and> snd t \<le> R"

definition packet_ok :: "u8 \<Rightarrow> (ips_hdr \<times> nat) list \<Rightarrow> nat \<Rightarrow> ips_hdr \<times> nat \<times> nat \<Rightarrow> bool" where
  "packet_ok f S R t \<longleftrightarrow> (case t of (h, i, r) \<Rightarrow> well_formed f h \<and> r \<le> R \<and> (has_ack h \<longrightarrow> h_ack_seq_num h = of_nat r) \<and>
     (is_data h \<longrightarrow> i < length S \<and> hdr_psn h = of_nat i \<and> fst (S ! i) = h))"

definition frames_ok :: "(bool \<Rightarrow> 'p gbn_view) \<Rightarrow> u8 \<Rightarrow> bool \<Rightarrow> 'p gbn_net \<Rightarrow> bool" where
  "frames_ok v f x s \<longleftrightarrow> (\<forall>i < length (sent s x). queued_ok f (length (calls_of (v x) (node s x))) i (sent s x ! i)) \<and>
     (\<forall>t \<in> net s x. packet_ok f (sent s x) (length (calls_of (v x) (node s x))) t)"

lemma queued_ok_mono: "queued_ok f R i t \<Longrightarrow> R \<le> R' \<Longrightarrow> queued_ok f R' i t"
  by (simp add: queued_ok_def)

lemma packet_ok_mono: "packet_ok f S R t \<Longrightarrow> R \<le> R' \<Longrightarrow> packet_ok f S R' t"
  by (auto simp: packet_ok_def)

lemma packet_ok_append: "packet_ok f S R t \<Longrightarrow> packet_ok f (S @ T) R t"
  by (auto simp: packet_ok_def nth_append)

definition net_inv :: "(bool \<Rightarrow> 'p gbn_view) \<Rightarrow> u8 \<Rightarrow> (bool \<Rightarrow> 'p \<Rightarrow> bool) \<Rightarrow> 'p gbn_net \<Rightarrow> bool" where
  "net_inv v f ok s \<longleftrightarrow> (\<forall>x. ok x (node s x) \<and> in_order v x s \<and> frames_ok v f x s)"

lemma net_inv_two:
  assumes "ok x (node s x)" "in_order v x s" "frames_ok v f x s" "ok (\<not> x) (node s (\<not> x))" "in_order v (\<not> x) s" "frames_ok v f (\<not> x) s"
  shows "net_inv v f ok s"
  unfolding net_inv_def
proof
  fix y
  show "ok y (node s y) \<and> in_order v y s \<and> frames_ok v f y s"
  proof (cases "y = x")
    case False
    then have "y = (\<not> x)" by blast
    then show ?thesis using assms(4-6) by simp
  qed (use assms(1-3) in simp)
qed

lemma of_nat_u24_eq:
  assumes "(of_nat a :: u24) = of_nat b" "a < b + 2 ^ 24" "b < a + 2 ^ 24"
  shows "a = b"
proof -
  have mod: "a mod 2 ^ 24 = b mod 2 ^ 24" using assms(1) by (simp add: word_of_nat_eq_iff take_bit_eq_mod)
  have "m = n" if "m \<le> n" "m mod 2 ^ 24 = n mod 2 ^ 24" "n < m + 2 ^ 24" for m n :: nat
  proof -
    have "2 ^ 24 dvd n - m" using that mod_eq_dvd_iff_nat [of m n "2 ^ 24"] by simp
    then show ?thesis using that(1,3) by (cases "n - m = 0") (auto dest!: dvd_imp_le)
  qed
  then show ?thesis using mod assms(2,3) by (metis nle_le)
qed

lemma unat_diff_u24:
  assumes "i \<le> n" "n - i < 2 ^ 24"
  shows "unat (of_nat n - of_nat i :: u24) = n - i"
proof -
  have "(of_nat n - of_nat i :: u24) = of_nat (n - i)" using assms(1) by (simp add: of_nat_diff)
  then show ?thesis using assms(2) by (simp add: unat_of_nat take_bit_eq_mod)
qed

section \<open>Steps keep the invariant\<close>

lemma noted_queue:
  assumes "in_order v x s" "frames_ok v f x s" "length (queue_of (v x) (node s x)) < 2 ^ 24" "h \<in> set (queue_of (v x) (node s x))"
  shows "\<exists>i < length (sent s x). noted (sent s x) r h = (h, i, snd (sent s x ! i)) \<and> fst (sent s x ! i) = h \<and> is_data h"
proof -
  let ?S = "sent s x" and ?Q = "queue_of (v x) (node s x)"
  have Q: "length ?Q \<le> length ?S" "?Q = map fst (drop (length ?S - length ?Q) ?S)" using assms(1) by (simp_all add: in_order_def Let_def)
  obtain j where j: "j < length ?Q" "h = ?Q ! j" using assms(4) by (auto simp: in_set_conv_nth)
  define i where "i = length ?S - length ?Q + j"
  have i: "i < length ?S" "length ?S - i < 2 ^ 24" using j(1) Q(1) assms(3) by (auto simp: i_def)
  have "h = map fst (drop (length ?S - length ?Q) ?S) ! j" using j(2) Q(2) by simp
  then have h: "h = fst (?S ! i)" using j(1) Q(1) by (simp add: i_def)
  then have d: "is_data h" "hdr_psn h = of_nat i" using assms(2) i(1) by (auto simp: frames_ok_def queued_ok_def)
  then have "noted ?S r h = (h, i, snd (?S ! i))" using i by (simp add: noted_def unat_diff_u24)
  then show ?thesis using i(1) h d(1) by blast
qed

lemma moves_simps [simp]:
  "node (moves v x p s) x = p" "node (moves v x p s) (\<not> x) = node s (\<not> x)" "sent (moves v x p s) = sent s" "net (moves v x p s) (\<not> x) = net s (\<not> x)"
  by (simp_all add: moves_def)

lemma frames_ok_mono:
  assumes "frames_ok v f x s" "sent s' x = sent s x" "net s' x = net s x" "length (calls_of (v x) (node s x)) \<le> length (calls_of (v x) (node s' x))"
  shows "frames_ok v f x s'"
  using assms by (auto simp: frames_ok_def intro: queued_ok_mono packet_ok_mono)

lemma moves_frames:
  assumes "in_order v x s" "frames_ok v f x s" "length (queue_of (v x) (node s x)) < 2 ^ 24" "emits (v x) f (node s x) p"
    and c: "recv_of (v x) p = of_nat (length (calls_of (v x) p))" "length (calls_of (v x) (node s x)) \<le> length (calls_of (v x) p)"
  shows "frames_ok v f x (moves v x p s)"
proof -
  obtain ms where ms: "wire_of (v x) p = wire_of (v x) (node s x) @ ms"
    "\<forall>h \<in> set ms. h \<in> set (queue_of (v x) (node s x)) \<or> well_formed f h \<and> \<not> is_data h \<and> (has_ack h \<longrightarrow> h_ack_seq_num h = recv_of (v x) p)"
    using assms(4) by (auto simp: emits_def)
  let ?R = "length (calls_of (v x) p)" and ?S = "sent s x"
  have old: "\<forall>i < length ?S. queued_ok f ?R i (?S ! i)" "\<forall>t \<in> net s x. packet_ok f ?S ?R t"
    using assms(2) c(2) by (auto simp: frames_ok_def intro: queued_ok_mono packet_ok_mono)
  have "packet_ok f ?S ?R (noted ?S ?R h)" if "h \<in> set ms" for h
  proof (cases "h \<in> set (queue_of (v x) (node s x))")
    case True
    then obtain i where i: "i < length ?S" "noted ?S ?R h = (h, i, snd (?S ! i))" "fst (?S ! i) = h" "is_data h"
      using noted_queue [OF assms(1-3)] by blast
    then show ?thesis using old(1) by (auto simp: packet_ok_def queued_ok_def)
  next
    case False
    then have "well_formed f h" "\<not> is_data h" "has_ack h \<longrightarrow> h_ack_seq_num h = of_nat ?R" using ms(2) that c(1) by auto
    then show ?thesis by (simp add: noted_def packet_ok_def)
  qed
  then have "\<forall>t \<in> net (moves v x p s) x. packet_ok f ?S ?R t" using old(2) ms(1) by (auto simp: moves_def)
  then show ?thesis using old(1) by (simp add: frames_ok_def)
qed

lemma order_sender:
  assumes "in_order v x s" "xmit_of (v x) p = xmit_of (v x) (node s x)" "queue_of (v x) p = drop k (queue_of (v x) (node s x))" "k \<le> length (queue_of (v x) (node s x))"
    "length (sent s x) - length (queue_of (v x) (node s x)) + k \<le> length (calls_of (v (\<not> x)) (node s (\<not> x)))"
  shows "in_order v x (moves v x p s)"
proof -
  let ?S = "sent s x" and ?Q = "queue_of (v x) (node s x)"
  have Q: "length ?Q \<le> length ?S" "?Q = map fst (drop (length ?S - length ?Q) ?S)" using assms(1) by (simp_all add: in_order_def Let_def)
  have n: "length ?S - (length ?Q - k) = length ?S - length ?Q + k" using Q(1) assms(4) by simp
  have "drop k ?Q = map fst (drop (length ?S - length ?Q + k) ?S)" by (subst Q(2)) (simp add: drop_map add.commute)
  moreover have "length ?Q - k \<le> length ?S" using Q(1) by simp
  ultimately show ?thesis using assms n by (simp add: in_order_def Let_def)
qed

lemma order_receiver:
  assumes "in_order v (\<not> x) s"
    and "recv_of (v x) p = recv_of (v x) (node s x) \<and> calls_of (v x) p = calls_of (v x) (node s x) \<or>
      recv_of (v x) p = recv_of (v x) (node s x) + 1 \<and> (\<exists>c. call_matches h c \<and> calls_of (v x) p = calls_of (v x) (node s x) @ [c]) \<and>
      length (calls_of (v x) (node s x)) < length (sent s (\<not> x)) \<and> fst (sent s (\<not> x) ! length (calls_of (v x) (node s x))) = h"
  shows "in_order v (\<not> x) (moves v x p s)"
  using assms(2)
proof
  assume "recv_of (v x) p = recv_of (v x) (node s x) \<and> calls_of (v x) p = calls_of (v x) (node s x)"
  then show ?thesis using assms(1) by (simp add: in_order_def Let_def)
next
  assume a: "recv_of (v x) p = recv_of (v x) (node s x) + 1 \<and> (\<exists>c. call_matches h c \<and> calls_of (v x) p = calls_of (v x) (node s x) @ [c]) \<and>
      length (calls_of (v x) (node s x)) < length (sent s (\<not> x)) \<and> fst (sent s (\<not> x) ! length (calls_of (v x) (node s x))) = h"
  then obtain c where c: "call_matches h c" "calls_of (v x) p = calls_of (v x) (node s x) @ [c]" by blast
  have "take (Suc (length (calls_of (v x) (node s x)))) (sent s (\<not> x)) = take (length (calls_of (v x) (node s x))) (sent s (\<not> x)) @ [sent s (\<not> x) ! length (calls_of (v x) (node s x))]"
    using a by (simp add: take_Suc_conv_app_nth)
  moreover have "list_all2 (\<lambda>(h, r) c. call_matches h c) (take (length (calls_of (v x) (node s x))) (sent s (\<not> x)) @ [sent s (\<not> x) ! length (calls_of (v x) (node s x))])
      (calls_of (v x) (node s x) @ [c])"
    using assms(1) a c(1) by (intro list_all2_appendI) (auto simp: in_order_def Let_def split: prod.splits)
  ultimately show ?thesis using assms(1) a c(2) by (auto simp: in_order_def Let_def)
qed

text \<open>A pair of nodes that each keep the promises of a node.\<close>

locale gbn_pair =
  fixes v :: "bool \<Rightarrow> 'p gbn_view" and st :: "bool \<Rightarrow> 'p gbn_steps" and f :: u8 and ok :: "bool \<Rightarrow> 'p \<Rightarrow> bool"
  assumes nodes: "gbn_node (v x) (st x) f (ok x)"

sublocale gbn_pair \<subseteq> n: gbn_node "v x" "st x" f "ok x" for x
  by (rule nodes)

context gbn_pair
begin

lemma inv_parts:
  assumes "net_inv v f ok s"
  shows "ok x (node s x)" "in_order v x s" "frames_ok v f x s" "length (queue_of (v x) (node s x)) < 2 ^ 24"
    "recv_of (v x) (node s x) = of_nat (length (calls_of (v x) (node s x)))"
proof -
  show o: "ok x (node s x)" "in_order v x s" "frames_ok v f x s" using assms by (simp_all add: net_inv_def)
  show "length (queue_of (v x) (node s x)) < 2 ^ 24" using o(1) by (rule n.short)
  have "in_order v (\<not> x) s" using assms by (simp add: net_inv_def)
  then show "recv_of (v x) (node s x) = of_nat (length (calls_of (v x) (node s x)))" by (simp add: in_order_def Let_def)
qed

lemma inv_moves:
  assumes "net_inv v f ok s" "ok x p" "in_order v x (moves v x p s)" "in_order v (\<not> x) (moves v x p s)" "emits (v x) f (node s x) p"
    "length (calls_of (v x) (node s x)) \<le> length (calls_of (v x) p)"
  shows "net_inv v f ok (moves v x p s)"
proof -
  note i = inv_parts [OF assms(1)]
  have "recv_of (v x) p = of_nat (length (calls_of (v x) p))" using assms(4) by (simp add: in_order_def Let_def)
  then have "frames_ok v f x (moves v x p s)" using i assms(5,6) by (intro moves_frames) auto
  moreover have "frames_ok v f (\<not> x) (moves v x p s)" using i(3) by (rule frames_ok_mono) simp_all
  ultimately show ?thesis using assms(2-4) i(1) [of "\<not> x"] by (intro net_inv_two [of ok x]) simp_all
qed

lemma inv_local:
  assumes "net_inv v f ok s" "local_step (st x) (node s x) p"
  shows "net_inv v f ok (moves v x p s)"
proof -
  note i = inv_parts [OF assms(1)] and l = n.local_law [OF inv_parts(1) [OF assms(1)] assms(2)]
  have "in_order v x (moves v x p s)" using i(2) [of x] l by (intro order_sender [where k = 0]) (auto simp: in_order_def Let_def)
  moreover have "in_order v (\<not> x) (moves v x p s)" using l by (intro order_receiver [OF i(2)]) blast
  ultimately show ?thesis using l assms(1) by (intro inv_moves) auto
qed

lemma inv_receive:
  assumes inv: "net_inv v f ok s" and h: "(h, i, r) \<in> net s (\<not> x)" "is_data h \<longrightarrow> length (sent s (\<not> x)) - i < 2 ^ 24"
      "has_ack h \<longrightarrow> length (sent s x) - r < 2 ^ 24" and st: "recv_step (st x) h (node s x) p"
  shows "net_inv v f ok (moves v x p s)"
proof -
  let ?N = "length (sent s (\<not> x))" and ?R = "length (calls_of (v x) (node s x))" and ?Q = "queue_of (v x) (node s x)" and ?M = "length (sent s x)"
    and ?T = "length (calls_of (v (\<not> x)) (node s (\<not> x)))"
  note i = inv_parts [OF inv]
  have w: "well_formed f h" "r \<le> ?T" "has_ack h \<longrightarrow> h_ack_seq_num h = of_nat r" "is_data h \<longrightarrow> i < ?N \<and> hdr_psn h = of_nat i \<and> fst (sent s (\<not> x) ! i) = h"
    using i(3) [of "\<not> x"] h(1) by (fastforce simp: frames_ok_def packet_ok_def)+
  note l = n.recv_law [OF i(1) w(1) st]
  have A: "length ?Q \<le> ?M" "?M - length ?Q \<le> ?T" "?T \<le> ?M" "xmit_of (v x) (node s x) = of_nat ?M" using i(2) [of x] by (simp_all add: in_order_def Let_def)
  have B: "?R \<le> ?N" "?N - length (queue_of (v (\<not> x)) (node s (\<not> x))) \<le> ?R" using i(2) [of "\<not> x"] by (simp_all add: in_order_def Let_def)
  have "in_order v x (moves v x p s)"
  proof (cases "queue_of (v x) p = ?Q")
    case True
    then show ?thesis using l A by (intro order_sender [OF i(2), where k = 0]) auto
  next
    case False
    then obtain k where k: "k \<le> length ?Q" "h_ack_seq_num h = xmit_of (v x) (node s x) - of_nat (length ?Q - k)" "queue_of (v x) p = drop k ?Q" "has_ack h"
      using l by (auto simp: acked_def)
    have "(of_nat r :: u24) = of_nat (?M - (length ?Q - k))" using k(1,2,4) w(3) A(1,4) by (simp add: of_nat_diff)
    then have "r = ?M - (length ?Q - k)" using k(1,4) h(3) w(2) A(1,3) i(4) [of x] by (intro of_nat_u24_eq) auto
    then show ?thesis using l w(2) A(1) k(1,3) by (intro order_sender [OF i(2), where k = k]) auto
  qed
  moreover have "in_order v (\<not> x) (moves v x p s)"
  proof (cases "recv_of (v x) p = recv_of (v x) (node s x) \<and> calls_of (v x) p = calls_of (v x) (node s x)")
    case True
    then show ?thesis by (intro order_receiver [OF i(2)]) blast
  next
    case False
    then have a: "is_data h" "recv_of (v x) (node s x) = hdr_psn h" "recv_of (v x) p = recv_of (v x) (node s x) + 1" "\<exists>c. call_matches h c \<and> calls_of (v x) p = calls_of (v x) (node s x) @ [c]"
      using l unfolding passes_def by blast+
    have "(of_nat i :: u24) = of_nat ?R" using a(1,2) w(4) i(5) by metis
    then have "i = ?R" using a(1) h(2) w(4) B i(4) [of "\<not> x"] by (intro of_nat_u24_eq) auto
    then show ?thesis using a w(4) by (intro order_receiver [OF i(2), where h = h]) auto
  qed
  moreover have "?R \<le> length (calls_of (v x) p)" using l by (auto simp: passes_def)
  ultimately show ?thesis using l inv by (intro inv_moves) auto
qed

lemma inv_queue:
  assumes inv: "net_inv v f ok s" and st: "queue_step (st x) h (node s x) p"
  shows "net_inv v f ok (s\<lparr>node := (node s)(x := p), sent := (sent s)(x := sent s x @ [(h, length (calls_of (v x) (node s x)))])\<rparr>)" (is "net_inv v f ok ?s")
proof -
  note i = inv_parts [OF inv] and l = n.queue_law [OF inv_parts(1) [OF inv] st]
  have A: "length (queue_of (v x) (node s x)) \<le> length (sent s x)" "length (calls_of (v (\<not> x)) (node s (\<not> x))) \<le> length (sent s x)"
    "queue_of (v x) (node s x) = map fst (drop (length (sent s x) - length (queue_of (v x) (node s x))) (sent s x))"
    using i(2) [of x] by (simp_all add: in_order_def Let_def)
  have "in_order v x ?s" using i(2) [of x] l A by (simp add: in_order_def Let_def Suc_diff_le)
  moreover have "in_order v (\<not> x) ?s" using i(2) [of "\<not> x"] l by (simp add: in_order_def Let_def)
  moreover have "queued_ok f (length (calls_of (v x) p)) (length (sent s x)) (h, length (calls_of (v x) (node s x)))"
    using l i(5) [of x] i(2) [of x] by (simp add: queued_ok_def in_order_def Let_def)
  then have "frames_ok v f x ?s"
    using i(3) [of x] l by (auto simp: frames_ok_def nth_append less_Suc_eq intro: packet_ok_append)
  moreover have "frames_ok v f (\<not> x) ?s" using i(3) by (rule frames_ok_mono) simp_all
  moreover note \<open>frames_ok v f x ?s\<close>
  moreover have "ok x (node ?s x)" "ok (\<not> x) (node ?s (\<not> x))" using l i(1) by simp_all
  ultimately show ?thesis by (intro net_inv_two [of ok x ?s])
qed

lemma inv_start: "net_start v ok s \<Longrightarrow> net_inv v f ok s"
  by (auto simp: net_start_def net_inv_def in_order_def frames_ok_def Let_def)

lemma inv_reachable:
  assumes "net_start v ok s0" "(net_step v st)\<^sup>*\<^sup>* s0 s"
  shows "net_inv v f ok s"
  using assms(2)
proof (induction rule: rtranclp_induct)
  case base
  show ?case using assms(1) by (rule inv_start)
next
  case (step s s')
  show ?case using step.hyps(2) step.IH by cases (auto intro: inv_local inv_queue inv_receive)
qed

lemma delivered_in_order:
  fixes x :: bool and s :: "'p gbn_net"
  assumes "net_start v ok s0" "(net_step v st)\<^sup>*\<^sup>* s0 s"
  defines "S \<equiv> sent s x" and "D \<equiv> calls_of (v (\<not> x)) (node s (\<not> x))"
  shows "length D \<le> length S" "list_all2 call_matches (map fst (take (length D) S)) D"
    "queue_of (v x) (node s x) = map fst (drop (length S - length (queue_of (v x) (node s x))) S)" "length S - length (queue_of (v x) (node s x)) \<le> length D"
    "length (queue_of (v x) (node s x)) \<le> length S"
  using inv_parts(2) [OF inv_reachable [OF assms(1,2)], of x]
  by (auto simp: in_order_def Let_def S_def D_def list.rel_map case_prod_unfold intro: list.rel_mono_strong)

end

end
