(* ===== verification/Ips_Reliable.thy ===== *)
theory Ips_Reliable
  imports Ips_Net
begin

text \<open>
  The nodes of this library as nodes of the network: the operations of the protocol on one go-back-N flow keep what the
  interface promises. So frames sent over a flow between two endpoints are passed on in order and once each, whatever
  the network does with them.
\<close>

unbundle bit_operations_syntax

section \<open>The steps of a node\<close>

text \<open>
  What the rest of the program may do between the steps of the protocol: take and return blocks that are not queued, fill
  blocks it holds, and change its own state without calling the matched queue on behalf of the flow.
\<close>

definition user_step :: "('w \<Rightarrow> mq_op list) \<Rightarrow> flowp \<Rightarrow> 'w ips_proto \<Rightarrow> 'w ips_proto \<Rightarrow> bool" where
  "user_step D fl p p' \<longleftrightarrow> rel_view fl p' = rel_view fl p \<and> flows p' fl = flows p fl \<and> scb_inv p' \<and> D (app p') = D (app p) \<and>
     (\<forall>s \<in> set (scb_unacked (flows p fl)). s \<in> scb_held p' \<and> scbs p' s = scbs p s)"

inductive node_local :: "'w ips_env \<Rightarrow> ('w \<Rightarrow> mq_op list) \<Rightarrow> flowp \<Rightarrow> 'w ips_proto \<Rightarrow> 'w ips_proto \<Rightarrow> bool" for e D fl where
  Flush: "flow_flush e fl p = Inr (err, k, p') \<Longrightarrow> node_local e D fl p p'"
| Timer_Send: "ips_proto_timer_send_callback e fl p = Inr p' \<Longrightarrow> node_local e D fl p p'"
| Timer_Ack: "ips_proto_timer_ack_callback e fl t p = Inr p' \<Longrightarrow> node_local e D fl p p'"
| Timer_Ctrlq: "qi < 4 \<Longrightarrow> ips_proto_timer_ctrlq_callback e qi p = Inr p' \<Longrightarrow> node_local e D fl p p'"
| Timer_Cca: "ips_cca_timer_callback e (flow_path (flows p fl)) p = Inr p' \<Longrightarrow> node_local e D fl p p'"
| Pending_Acks: "process_pending_acks e p = Inr p' \<Longrightarrow> node_local e D fl p p'"
| User: "user_step D fl p p' \<Longrightarrow> node_local e D fl p p'"

definition node_queue :: "'w ips_env \<Rightarrow> flowp \<Rightarrow> ips_hdr \<Rightarrow> 'w ips_proto \<Rightarrow> 'w ips_proto \<Rightarrow> bool" where
  "node_queue e fl h p p' \<longleftrightarrow> (\<exists>s \<in> scb_held p. s \<notin> set (scb_unacked (flows p fl)) \<and> data_hdr (hdr_of (scbs p s)) \<and>
     p' = ips_proto_flow_enqueue e fl s p \<and> h = hdr_of (scbs p' s))"

text \<open>A packet comes in, with or without its payload, with or without marks of congestion.\<close>

definition ev_from :: "nat \<Rightarrow> ips_hdr \<Rightarrow> bool \<Rightarrow> bool \<Rightarrow> ips_recvhdrq_event" where
  "ev_from i h fecn becn = \<lparr>ev_ipsaddr = i, ev_hdr = h, ev_ptype = RCVHQ_RCV_TYPE_EAGER, ev_fecn = fecn, ev_becn = becn\<rparr>"

inductive node_recv ::
  "'w ips_env \<Rightarrow> (ips_recvhdrq_event \<Rightarrow> 'w ips_proto \<Rightarrow> 'w ips_proto run) \<Rightarrow> nat \<Rightarrow> ips_hdr \<Rightarrow> 'w ips_proto \<Rightarrow> 'w ips_proto \<Rightarrow> bool" for e other i where
  Packet: "ips_proto_process_packet e other (ev_from i h fecn becn) p = Inr p' \<Longrightarrow> node_recv e other i h p p'"
| Overflow: "process_eager_overflow e data_err True (ev_from i h fecn becn) p = Inr p' \<Longrightarrow> node_recv e other i h p p'"

text \<open>The log of calls: a call appends itself, the callbacks of the pool append nothing.\<close>

definition call_log :: "'w ips_env \<Rightarrow> ('w \<Rightarrow> mq_op list) \<Rightarrow> bool" where
  "call_log e D \<longleftrightarrow> (\<forall>c w. D (mq_call e c w) = D w @ [c]) \<and> completion_log e (\<lambda>_ _. []) D"

definition node_view :: "('w \<Rightarrow> mq_op list) \<Rightarrow> flowp \<Rightarrow> 'w ips_proto gbn_view" where
  "node_view D fl = \<lparr>queue_of = (\<lambda>p. map (\<lambda>s. hdr_of (scbs p s)) (scb_unacked (flows p fl))), xmit_of = (\<lambda>p. xmit_seq_num (flows p fl)),
     recv_of = (\<lambda>p. recv_seq_num (flows p fl)), calls_of = (\<lambda>p. D (app p)), wire_of = (\<lambda>p. map snd (wire p))\<rparr>"

definition node_steps :: "'w ips_env \<Rightarrow> ('w \<Rightarrow> mq_op list) \<Rightarrow> (ips_recvhdrq_event \<Rightarrow> 'w ips_proto \<Rightarrow> 'w ips_proto run) \<Rightarrow> nat \<Rightarrow> nat \<Rightarrow> 'w ips_proto gbn_steps" where
  "node_steps e D other i j = \<lparr>local_step = node_local e D (Ep_flow i j), queue_step = node_queue e (Ep_flow i j), recv_step = node_recv e other i\<rparr>"

text \<open>A node with a go-back-N flow that is connected: the flow with index \<open>j\<close> of the endpoint address \<open>i\<close>.\<close>

definition node_ok :: "'w ips_env \<Rightarrow> ('w \<Rightarrow> mq_op list) \<Rightarrow> nat \<Rightarrow> nat \<Rightarrow> 'w ips_proto \<Rightarrow> bool" where
  "node_ok e D i j p \<longleftrightarrow> (let fl = Ep_flow i j in j < EP_FLOW_LAST \<and> call_log e D \<and> (\<exists>inflight pending. flow_rep fl inflight pending p) \<and>
     flow_ready e fl p \<and> ctrl_ok {fl} p \<and> acks_ok {fl} p \<and> flowid (flows p fl) = of_nat j \<and> ep_flags (ipsaddrs p i) AND SESS_FLAG_HAS_FLOWID \<noteq> 0 \<and>
     unat (scb_num p) < 2 ^ 24 \<and> (\<forall>s \<in> set (scb_unacked (flows p fl)). data_hdr (hdr_of (scbs p s)) \<and> lrh_flowid (scbs p s) = of_nat j))"

text \<open>The result of a step that queues nothing: \<open>k\<close> frames were released, the messages of the flow went out.\<close>

definition node_result :: "'w ips_env \<Rightarrow> ('w \<Rightarrow> mq_op list) \<Rightarrow> nat \<Rightarrow> nat \<Rightarrow> nat \<Rightarrow> 'w ips_proto \<Rightarrow> 'w ips_proto \<Rightarrow> bool" where
  "node_result e D i j k p p' \<longleftrightarrow> (let v = node_view D (Ep_flow i j) in node_ok e D i j p' \<and> queue_of v p' = drop k (queue_of v p) \<and>
     xmit_of v p' = xmit_of v p \<and> emits v (of_nat j) p p')"

lemma node_view_simps [simp]:
  "queue_of (node_view D fl) p = map (\<lambda>s. hdr_of (scbs p s)) (scb_unacked (flows p fl))" "xmit_of (node_view D fl) p = xmit_seq_num (flows p fl)"
  "recv_of (node_view D fl) p = recv_seq_num (flows p fl)" "calls_of (node_view D fl) p = D (app p)" "wire_of (node_view D fl) p = map snd (wire p)"
  by (simp_all add: node_view_def)

lemma enqueue_flowid: "lrh_flowid (scbs (ips_proto_flow_enqueue e fl s p) s) = ucast (flowid (flows p fl))"
  by (simp add: ips_proto_flow_enqueue_def ips_scb_prepare_flow_inner_def ips_do_cksum_def ips_proto_hdr_def ips_flow_gen_ackflags_def
      upd_scb_def upd_flow_def Let_def)

lemma data_not_gbn: "gbn_type t \<Longrightarrow> t \<noteq> OPCODE_SEQ_MQ_HDR \<and> t \<noteq> OPCODE_SEQ_MQ_CTRL"
  by (auto simp: gbn_type_def opcode_defs)

lemma queue_short:
  assumes "node_ok e D i j p"
  shows "length (scb_unacked (flows p (Ep_flow i j))) < 2 ^ 24"
proof -
  let ?q = "scb_unacked (flows p (Ep_flow i j))"
  have q: "distinct ?q" "set ?q \<subseteq> scb_held p" "scb_inv p" "unat (scb_num p) < 2 ^ 24" using assms by (auto simp: node_ok_def flow_rep_def flow_ready_def Let_def)
  have "scb_held p \<subseteq> scb_set p" by (auto simp: scb_held_def)
  moreover have "finite (scb_set p)" "card (scb_set p) \<le> unat (scb_num p)" by (auto simp: scb_set_def intro: le_trans [OF card_image_le])
  ultimately have "card (set ?q) \<le> unat (scb_num p)" using q(2) by (meson card_mono order_trans)
  then show ?thesis using q(1,4) by (simp add: distinct_card)
qed

section \<open>Receiving and sending as steps of a node\<close>

lemma emits_trans:
  assumes "emits v f p p1" "emits v f p1 p2" "set (queue_of v p1) \<subseteq> set (queue_of v p)" "recv_of v p2 = recv_of v p1"
  shows "emits v f p p2"
proof -
  obtain ms1 ms2 where ms: "wire_of v p1 = wire_of v p @ ms1" "wire_of v p2 = wire_of v p1 @ ms2"
    "\<forall>h \<in> set ms1. h \<in> set (queue_of v p) \<or> well_formed f h \<and> \<not> is_data h \<and> (has_ack h \<longrightarrow> h_ack_seq_num h = recv_of v p1)"
    "\<forall>h \<in> set ms2. h \<in> set (queue_of v p1) \<or> well_formed f h \<and> \<not> is_data h \<and> (has_ack h \<longrightarrow> h_ack_seq_num h = recv_of v p2)"
    using assms(1,2) by (auto simp: emits_def)
  then have "\<forall>h \<in> set (ms1 @ ms2). h \<in> set (queue_of v p) \<or> well_formed f h \<and> \<not> is_data h \<and> (has_ack h \<longrightarrow> h_ack_seq_num h = recv_of v p2)"
    using assms(3,4) by auto
  then show ?thesis using ms(1,2) by (auto simp: emits_def)
qed

lemma emits_refl: "wire_of v p' = wire_of v p \<Longrightarrow> emits v f p p'"
  by (auto simp: emits_def)

lemma node_result_refl: "node_ok e D i j p \<Longrightarrow> node_result e D i j 0 p p"
  by (simp add: node_result_def Let_def emits_refl)

lemma node_result_trans:
  assumes "node_result e D i j 0 p p1" "node_result e D i j k p1 p2" "recv_seq_num (flows p2 (Ep_flow i j)) = recv_seq_num (flows p1 (Ep_flow i j))"
  shows "node_result e D i j k p p2"
proof -
  let ?v = "node_view D (Ep_flow i j)"
  have a: "queue_of ?v p1 = queue_of ?v p" "xmit_of ?v p1 = xmit_of ?v p" "emits ?v (of_nat j) p p1" using assms(1) by (simp_all add: node_result_def Let_def)
  have "emits ?v (of_nat j) p1 p2" using assms(2) by (simp add: node_result_def Let_def)
  then have "emits ?v (of_nat j) p p2" using assms(3) by (intro emits_trans [OF a(3)]) (simp_all only: a(1) node_view_simps(3) subset_refl)
  then show ?thesis using assms(2) a(1,2) by (simp add: node_result_def Let_def)
qed

lemma ucast_flow: "j < EP_FLOW_LAST \<Longrightarrow> (ucast (of_nat j :: u32) :: u8) = of_nat j"
  by (rule bit_word_eqI) (simp add: bit_simps EP_FLOW_LAST_def)

lemma result_rx:
  assumes ok: "node_ok e D i j p" and r: "rx_result {Ep_flow i j} p p'"
  shows "node_result e D i j 0 p p'"
proof -
  let ?fl = "Ep_flow i j" and ?v = "node_view D (Ep_flow i j)"
  obtain ms where v: "snd_view p' = snd_view p" "wire p' = wire p @ ms" "msgs_ok {?fl} p' ms" "ctrl_ok {?fl} p'" "acks_ok {?fl} p'"
    using r by (auto simp: rx_result_def)
  note d = snd_viewD [OF v(1)] snd_flowD [OF v(1)] snd_view_rep [OF v(1)]
  have o: "node_ok e D i j p'" using ok v(4,5) by (simp add: node_ok_def Let_def d)
  have j: "flowid (flows p' ?fl) = of_nat j" "j < EP_FLOW_LAST" using o by (simp_all add: node_ok_def Let_def)
  have "well_formed (of_nat j) h \<and> \<not> is_data h \<and> (has_ack h \<longrightarrow> h_ack_seq_num h = recv_seq_num (flows p' ?fl))" if "h \<in> set (map snd ms)" for h
  proof -
    have "gbn_type (h_sub_opcode h)" "genuine p' (h_sub_opcode h) ?fl h" using that v(3) by (auto simp: msgs_ok_def)
    then show ?thesis using data_not_gbn [of "h_sub_opcode h"] j
      by (auto simp: well_formed_def is_data_def has_ack_def genuine_def ucast_flow)
  qed
  then have "emits ?v (of_nat j) p p'" unfolding emits_def using v(2) by (intro exI [of _ "map snd ms"]) auto
  then show ?thesis using o d by (simp add: node_result_def Let_def)
qed

lemma acks_ok_state:
  assumes "rx_state fl p' = rx_state fl p" "acks_ok {fl} p"
  shows "acks_ok {fl} p'"
proof -
  have "flow_flags (flows p' fl) AND (IPS_FLOW_FLAG_PENDING_ACK OR IPS_FLOW_FLAG_PENDING_NAK) =
      flow_flags (flows p fl) AND (IPS_FLOW_FLAG_PENDING_ACK OR IPS_FLOW_FLAG_PENDING_NAK)" and p: "pending_acks p' = pending_acks p"
    using assms(1) by (simp_all add: rx_state_def Let_def)
  then have "(flow_flags (flows p' fl) AND (IPS_FLOW_FLAG_PENDING_ACK OR IPS_FLOW_FLAG_PENDING_NAK)) AND b =
      (flow_flags (flows p fl) AND (IPS_FLOW_FLAG_PENDING_ACK OR IPS_FLOW_FLAG_PENDING_NAK)) AND b" for b by simp
  from this [of IPS_FLOW_FLAG_PENDING_ACK] this [of IPS_FLOW_FLAG_PENDING_NAK]
  have "flow_flags (flows p' fl) AND IPS_FLOW_FLAG_PENDING_ACK = flow_flags (flows p fl) AND IPS_FLOW_FLAG_PENDING_ACK"
    "flow_flags (flows p' fl) AND IPS_FLOW_FLAG_PENDING_NAK = flow_flags (flows p fl) AND IPS_FLOW_FLAG_PENDING_NAK"
    by (simp_all add: flow_flag_defs and.assoc)
  then show ?thesis using assms(2) p by (simp add: acks_ok_def)
qed

lemma completions_none: "completions (\<lambda>_ _. []) x = []"
  by (simp add: completions_def split: option.split)

lemma result_ack:
  assumes ok: "node_ok e D i j p" and q: "scb_unacked (flows p (Ep_flow i j)) = q"
    and r: "ack_result (Ep_flow i j) (take k q) inflight' pending' a b (\<lambda>_ _. []) D p p'" "inflight' @ pending' = drop k q"
  shows "node_result e D i j k p p'" "recv_seq_num (flows p' (Ep_flow i j)) = recv_seq_num (flows p (Ep_flow i j))" "D (app p') = D (app p)"
proof -
  let ?fl = "Ep_flow i j" and ?v = "node_view D (Ep_flow i j)"
  have R: "flow_rep ?fl (inflight' @ take a pending') (drop a pending') p'" "scb_inv p'" "wire p' = wire p @ frames ?fl p (take b pending')"
    "\<forall>t. t \<notin> set (take k q) \<longrightarrow> scb_view (scbs p' t) = scb_view (scbs p t)" "D (app p') = D (app p)" "rx_state ?fl p' = rx_state ?fl p"
    "xmit_seq_num (flows p' ?fl) = xmit_seq_num (flows p ?fl)" "\<forall>i. cca_ok i p \<longrightarrow> cca_ok i p'" using r(1) by (simp_all add: ack_result_def completions_none)
  have q': "scb_unacked (flows p' ?fl) = drop k q" using ack_result_queue [OF r(1)] r(2) by simp
  have dq: "distinct q" using ok q by (auto simp: node_ok_def Let_def flow_rep_def)
  then have "set (drop k q) \<inter> set (take k q) = {}" using set_take_disj_set_drop_if_distinct [of q k k] by (simp add: inf_commute)
  then have sv: "scb_view (scbs p' t) = scb_view (scbs p t)" if "t \<in> set (drop k q)" for t using R(4) that by blast
  have h: "hdr_of (scbs p' t) = hdr_of (scbs p t)" if "t \<in> set (drop k q)" for t using arg_cong [OF sv [OF that], of hdr_of] by simp
  have st: "recv_seq_num (flows p' ?fl) = recv_seq_num (flows p ?fl)" "protocol (flows p' ?fl) = protocol (flows p ?fl)" "flowid (flows p' ?fl) = flowid (flows p ?fl)"
    "flow_path (flows p' ?fl) = flow_path (flows p ?fl)" "transfer (flows p' ?fl) = transfer (flows p ?fl)" "ctrlqs p' = ctrlqs p" "scb_num p' = scb_num p"
    "(\<lambda>i. ep_flags (ipsaddrs p' i)) = (\<lambda>i. ep_flags (ipsaddrs p i))" using R(6) by (simp_all add: rx_state_def Let_def)
  then have ep: "ep_flags (ipsaddrs p' i) = ep_flags (ipsaddrs p i)" by (rule_tac fun_cong)
  show "recv_seq_num (flows p' ?fl) = recv_seq_num (flows p ?fl)" "D (app p') = D (app p)" by (rule st(1), rule R(5))
  have "ctrl_ok {?fl} p" using ok by (simp add: node_ok_def Let_def)
  then have "ctrl_ok {?fl} p'" using st(6) by (rule ctrl_ok_flows) (simp add: st(2,3))
  moreover have "acks_ok {?fl} p'" using ok acks_ok_state [OF R(6)] by (simp add: node_ok_def Let_def)
  moreover have "flow_ready e ?fl p'" using ok R(2,8) st by (simp add: node_ok_def flow_ready_def Let_def)
  moreover have "\<forall>s \<in> set (drop k q). data_hdr (hdr_of (scbs p' s)) \<and> lrh_flowid (scbs p' s) = of_nat j"
  proof
    fix s assume s: "s \<in> set (drop k q)"
    have "lrh_flowid (scbs p' s) = h_flowid (hdr_of (scbs p' s))" "lrh_flowid (scbs p s) = h_flowid (hdr_of (scbs p s))" by (simp_all add: hdr_of_def)
    then show "data_hdr (hdr_of (scbs p' s)) \<and> lrh_flowid (scbs p' s) = of_nat j"
      using h [OF s] ok q s by (auto simp: node_ok_def Let_def dest: in_set_dropD)
  qed
  moreover have "\<exists>x y. flow_rep ?fl x y p'" using R(1) by blast
  ultimately have ok': "node_ok e D i j p'" using ok st(3,7) ep q' by (simp add: node_ok_def Let_def)
  have "map snd (frames ?fl p (take b pending')) = map (\<lambda>s. hdr_of (scbs p s)) (take b pending')" by (simp add: frames_def)
  moreover have "set (take b pending') \<subseteq> set q" using r(2) set_take_subset [of b pending'] set_drop_subset [of k q] by (metis (no_types) le_sup_iff order_trans set_append)
  ultimately have "emits ?v (of_nat j) p p'" unfolding emits_def using R(3) q by (intro exI [of _ "map snd (frames ?fl p (take b pending'))"]) auto
  moreover have "map (\<lambda>s. hdr_of (scbs p' s)) (drop k q) = drop k (map (\<lambda>s. hdr_of (scbs p s)) q)" using h by (simp add: drop_map)
  ultimately show "node_result e D i j k p p'" using ok' q q' R(7) by (simp add: node_result_def Let_def)
qed

text \<open>A step that leaves the queue, the expected number and the log of calls alone.\<close>

definition node_same :: "'w ips_env \<Rightarrow> ('w \<Rightarrow> mq_op list) \<Rightarrow> nat \<Rightarrow> nat \<Rightarrow> 'w ips_proto \<Rightarrow> 'w ips_proto \<Rightarrow> bool" where
  "node_same e D i j p p' \<longleftrightarrow> node_result e D i j 0 p p' \<and> recv_seq_num (flows p' (Ep_flow i j)) = recv_seq_num (flows p (Ep_flow i j)) \<and> D (app p') = D (app p)"

lemma node_same_trans: "node_same e D i j p p1 \<Longrightarrow> node_same e D i j p1 p2 \<Longrightarrow> node_same e D i j p p2"
  by (auto simp: node_same_def intro: node_result_trans)

lemma node_same_refl: "node_ok e D i j p \<Longrightarrow> node_same e D i j p p"
  by (simp add: node_same_def node_result_refl)

lemma node_same_ok: "node_same e D i j p p' \<Longrightarrow> node_ok e D i j p'"
  by (simp add: node_same_def node_result_def Let_def)

lemma same_keep: "node_ok e D i j p \<Longrightarrow> rx_keep {Ep_flow i j} p p' \<Longrightarrow> node_same e D i j p p'"
  by (simp add: node_same_def rx_keep_def result_rx)

lemma node_okD:
  assumes "node_ok e D i j p"
  obtains inflight pending where "flow_rep (Ep_flow i j) inflight pending p" "flow_ready e (Ep_flow i j) p" "ctrl_ok {Ep_flow i j} p" "acks_ok {Ep_flow i j} p"
    "completion_log e (\<lambda>_ _. []) D" "scb_unacked (flows p (Ep_flow i j)) = inflight @ pending" "j < EP_FLOW_LAST"
  using assms by (auto simp: node_ok_def Let_def call_log_def flow_rep_def)

text \<open>A change that only concerns timers, credits, congestion and clocks.\<close>

definition quiet_step :: "flowp \<Rightarrow> 'w ips_proto \<Rightarrow> 'w ips_proto \<Rightarrow> bool" where
  "quiet_step fl p p' \<longleftrightarrow> (\<forall>inflight pending lg L. flow_rep fl inflight pending p \<longrightarrow> scb_inv p \<longrightarrow>
     ack_result fl [] inflight pending 0 0 (lg :: nat \<Rightarrow> u64 \<Rightarrow> mq_op list) L p p')"

lemma same_quiet:
  assumes "node_ok e D i j p" "quiet_step (Ep_flow i j) p p'"
  shows "node_same e D i j p p'"
proof (rule node_okD [OF assms(1)])
  fix inflight pending
  assume r: "flow_rep (Ep_flow i j) inflight pending p" "flow_ready e (Ep_flow i j) p" "scb_unacked (flows p (Ep_flow i j)) = inflight @ pending"
  then have "ack_result (Ep_flow i j) (take 0 (inflight @ pending)) inflight pending 0 0 (\<lambda>_ _. []) D p p'"
    using assms(2) by (simp add: quiet_step_def flow_ready_def)
  then show ?thesis using result_ack [OF assms(1) r(3), of 0 inflight pending 0 0 p'] by (simp add: node_same_def)
qed

lemma quiet_view:
  assumes "tx_view fl p' = tx_view fl p" "wire p' = wire p" "scb_pend (flows p' fl) = scb_pend (flows p fl)" "scb_num_pending (flows p' fl) = scb_num_pending (flows p fl)"
  shows "quiet_step fl p p'"
  unfolding quiet_step_def
proof (intro allI impI)
  fix inflight pending and lg :: "nat \<Rightarrow> u64 \<Rightarrow> mq_op list" and L
  assume rep: "flow_rep fl inflight pending p" and inv: "scb_inv p"
  have "flow_rep fl inflight pending p'" using assms(3,4) by (intro flow_rep_view [OF rep assms(1)]) (use rep in \<open>simp_all add: flow_rep_def Let_def\<close>)
  moreover have "cca_ok k p' = cca_ok k p" for k
    using arg_cong [OF assms(1), of ccti_limit] by (simp add: cca_ok_def tx_viewD [OF assms(1)]) (simp add: tx_view_def)
  moreover have "xmit_seq_num (flows p' fl) = xmit_seq_num (flows p fl)" using tx_viewD(8) [OF assms(1)] by (metis flow_view_simps(2))
  ultimately show "ack_result fl [] inflight pending 0 0 lg L p p'"
    using inv assms(2) rx_state_tx [OF assms(1)] by (simp add: ack_result_def frames_def tx_viewD [OF assms(1)])
qed

lemma same_flush:
  assumes ok: "node_ok e D i j p"
  shows "\<exists>err k p'. flow_flush e (Ep_flow i j) p = Inr (err, k, p') \<and> node_same e D i j p p'"
proof (rule node_okD [OF ok])
  fix inflight pending
  let ?fl = "Ep_flow i j"
  assume r: "flow_rep ?fl inflight pending p" "flow_ready e ?fl p" "scb_unacked (flows p ?fl) = inflight @ pending"
  have "quiet_step ?fl p p" by (rule quiet_view) simp_all
  then have "ack_result ?fl [] inflight pending 0 0 (\<lambda>_ _. []) D p p" using r(1,2) by (simp add: quiet_step_def flow_ready_def)
  then obtain err k p' a b where f: "flow_flush e ?fl p = Inr (err, k, p')" "ack_result ?fl [] inflight pending a b (\<lambda>_ _. []) D p p'"
    using flush_after [where e = e] r(2) unfolding flow_ready_def by fastforce
  then have "node_same e D i j p p'" using result_ack [OF ok r(3), of 0 inflight pending a b p'] by (simp add: node_same_def)
  then show ?thesis using f(1) by blast
qed

lemma quiet_paths:
  fixes p :: "'w ips_proto"
  assumes "p' = p\<lparr>paths := P, ext := n\<rparr>" "\<forall>i. cca_ok i p \<longrightarrow> cca_ok i p'"
  shows "quiet_step fl p p'"
proof -
  have t: "ips_scbctrl.truncate p' = ips_scbctrl.truncate p" by (simp add: assms(1) ips_scbctrl.defs)
  have f: "flows p' = flows p" "scbs p' = scbs p" "wire p' = wire p" "app p' = app p" "rx_state fl p' = rx_state fl p"
    by (simp_all add: assms(1) rx_state_def Let_def)
  have "flow_rep fl inflight pending p' = flow_rep fl inflight pending p" for inflight pending by (simp add: flow_rep_q f scb_truncate(1,2) [OF t])
  then show ?thesis using assms(2) by (simp add: quiet_step_def ack_result_def f scb_truncate(1,2) [OF t] frames_def)
qed

lemma quiet_timer:
  assumes "\<And>f. flow_view (g f) = flow_view f" "\<And>f. scb_pend (g f) = scb_pend f" "\<And>f. scb_num_pending (g f) = scb_num_pending f"
  shows "quiet_step fl p (upd_flow fl g (p\<lparr>ext := n\<rparr>))"
  by (rule quiet_view) (simp_all add: assms(1), simp_all add: upd_flow_def assms(2,3))

lemma quiet_flags: "quiet_step fl p (upd_flow fl (\<lambda>f. f\<lparr>flow_flags := flow_flags f AND NOT IPS_FLOW_FLAG_CONGESTED\<rparr>) p)" (is "quiet_step fl p ?p")
proof -
  have t: "ips_scbctrl.truncate ?p = ips_scbctrl.truncate p" by (simp add: upd_flow_def ips_scbctrl.defs)
  have f: "scbs ?p = scbs p" "wire ?p = wire p" "app ?p = app p" "rx_state fl ?p = rx_state fl p" "xmit_seq_num (flows ?p fl) = xmit_seq_num (flows p fl)"
    "g \<noteq> fl \<Longrightarrow> flows ?p g = flows p g" "cca_ok i ?p = cca_ok i p" for g i by (simp_all add: upd_flow_def rx_state_def Let_def cca_ok_def)
  have "flow_rep fl inflight pending ?p = flow_rep fl inflight pending p" for inflight pending
    by (simp add: flow_rep_q f scb_truncate(1,2) [OF t]) (simp add: flow_q_def upd_flow_def)
  then show ?thesis by (simp add: quiet_step_def ack_result_def f scb_truncate(1,2) [OF t] frames_def)
qed

lemma slow_down_quiet:
  assumes "cca_ok k p"
  shows "\<exists>b p'. cca_slow_down e k p = Inr (b, p') \<and> quiet_step fl p p'"
proof -
  obtain b p' where p': "cca_slow_down e k p = Inr (b, p')" "cca_ok k p'" using cca_slow_down_ok [OF assms] by blast
  have f: "p' = p\<lparr>paths := paths p', ext := ext p'\<rparr>" using p'(1) by (rule cca_slow_down_frame)
  have "paths p' m = paths p m" if "m \<noteq> k" for m
    using p'(1) that by (auto simp: cca_slow_down_def run_bind_Inr_iff dest: cca_adjust_path(5) split: if_splits)
  moreover have "ccti_limit p' = ccti_limit p" by (subst f) simp
  ultimately have "\<forall>m. cca_ok m p \<longrightarrow> cca_ok m p'" using p'(2) by (metis cca_ok_def)
  then show ?thesis using p'(1) quiet_paths [OF f] by blast
qed

lemma timer_cca_quiet:
  assumes "cca_ok k p"
  shows "\<exists>p'. ips_cca_timer_callback e k p = Inr p' \<and> quiet_step fl p p'"
proof -
  let ?p = "upd_path k (\<lambda>r. r\<lparr>epr_timer_cca := None\<rparr>) p"
  obtain p' where p': "ips_cca_timer_callback e k p = Inr p'" "cca_ok k p'" using cca_timer_ok [OF assms] by blast
  then have c: "ips_cca_adjust_rate e k (-1) ?p = Inr p' \<or> p' = ?p" by (auto simp: ips_cca_timer_callback_def Let_def split: if_splits)
  then have f: "p' = p\<lparr>paths := paths p', ext := ext p'\<rparr>" using cca_frame [of e k "-1" ?p p'] by (auto simp: upd_path_def)
  have "paths p' m = paths p m" if "m \<noteq> k" for m
    using c that cca_adjust_path(5) [of e k "-1" ?p p' m] by (auto simp: upd_path_def)
  moreover have "ccti_limit p' = ccti_limit p" by (subst f) simp
  ultimately have "\<forall>m. cca_ok m p \<longrightarrow> cca_ok m p'" using p'(2) by (metis cca_ok_def)
  then show ?thesis using p'(1) quiet_paths [OF f] by blast
qed

lemma node_ok_cca: "node_ok e D i j p \<Longrightarrow> cca_ok (flow_path (flows p (Ep_flow i j))) p"
  by (simp add: node_ok_def flow_ready_def Let_def)

lemma same_timer_cca:
  assumes "node_ok e D i j p"
  shows "\<exists>p'. ips_cca_timer_callback e (flow_path (flows p (Ep_flow i j))) p = Inr p' \<and> node_same e D i j p p'"
  using timer_cca_quiet [OF node_ok_cca [OF assms], of e "Ep_flow i j"] same_quiet [OF assms] by blast

lemma same_timer_send:
  assumes ok: "node_ok e D i j p"
  shows "\<exists>p'. ips_proto_timer_send_callback e (Ep_flow i j) p = Inr p' \<and> node_same e D i j p p'"
proof -
  let ?fl = "Ep_flow i j"
  define p1 where "p1 = upd_flow ?fl (\<lambda>f. f\<lparr>timer_send := None\<rparr>) p"
  have s1: "node_same e D i j p p1" using same_quiet [OF ok quiet_timer [where n = "ext p"]] by (simp add: p1_def)
  obtain p2 where p2: "(if flow_flags (flows p1 ?fl) AND IPS_FLOW_FLAG_CONGESTED \<noteq> 0
                   then let p = upd_flow ?fl (\<lambda>f. f\<lparr>flow_flags := flow_flags f AND NOT IPS_FLOW_FLAG_CONGESTED\<rparr>) p1
                     in run_bind (cca_slow_down e (flow_path (flows p ?fl)) p) (\<lambda>(_, p). Inr p)
                   else Inr p1) = Inr p2" "node_same e D i j p1 p2"
  proof (cases "flow_flags (flows p1 ?fl) AND IPS_FLOW_FLAG_CONGESTED = 0")
    case True
    then show ?thesis using that node_same_refl [OF node_same_ok [OF s1]] by simp
  next
    case False
    let ?p = "upd_flow ?fl (\<lambda>f. f\<lparr>flow_flags := flow_flags f AND NOT IPS_FLOW_FLAG_CONGESTED\<rparr>) p1"
    have s: "node_same e D i j p1 ?p" by (rule same_quiet [OF node_same_ok [OF s1] quiet_flags])
    obtain b p2 where c: "cca_slow_down e (flow_path (flows ?p ?fl)) ?p = Inr (b, p2)" "quiet_step ?fl ?p p2"
      using slow_down_quiet [OF node_ok_cca [OF node_same_ok [OF s]]] by blast
    then have "node_same e D i j p1 p2" using s same_quiet [OF node_same_ok [OF s]] node_same_trans by blast
    then show ?thesis using that c(1) False by (simp add: Let_def)
  qed
  obtain err k p3 where p3: "flow_flush e ?fl p2 = Inr (err, k, p3)" "node_same e D i j p2 p3" using same_flush [OF node_same_ok [OF p2(2)]] by blast
  have "ips_proto_timer_send_callback e ?fl p = Inr p3" unfolding ips_proto_timer_send_callback_def Let_def p1_def [symmetric]
    unfolding p2(1) [unfolded Let_def] using p3(1) by simp
  then show ?thesis using s1 p2(2) p3(2) node_same_trans by blast
qed

lemma same_timer_ack:
  assumes ok: "node_ok e D i j p"
  shows "\<exists>p'. ips_proto_timer_ack_callback e (Ep_flow i j) t p = Inr p' \<and> node_same e D i j p p'"
proof -
  let ?fl = "Ep_flow i j"
  define p1 where "p1 = upd_flow ?fl (\<lambda>f. f\<lparr>timer_ack := None\<rparr>) (p\<lparr>ext := Suc (ext p)\<rparr>)"
  have s1: "node_same e D i j p p1" unfolding p1_def by (rule same_quiet [OF ok quiet_timer]) simp_all
  have c: "get_cycles e (upd_flow ?fl (\<lambda>f. f\<lparr>timer_ack := None\<rparr>) p) = (cycles e (ext p), p1)" by (simp add: get_cycles_def p1_def upd_flow_def)
  note ok1 = node_same_ok [OF s1]
  then have tp: "protocol (flows p1 ?fl) \<noteq> PSM_PROTOCOL_TIDFLOW" by (simp add: node_ok_def flow_ready_def Let_def)
  have timer: "node_same e D i j q (upd_flow ?fl (\<lambda>f. f\<lparr>timer_ack := x f\<rparr>) (q\<lparr>ext := n\<rparr>))" if "node_ok e D i j q" for q n x
    by (rule same_quiet [OF that quiet_timer]) simp_all
  show ?thesis
  proof (cases "scb_unacked (flows p1 ?fl)")
    case Nil
    then show ?thesis using s1 c by (auto simp: ips_proto_timer_ack_callback_def Let_def)
  next
    case (Cons s q)
    define w where "w = min (ack_timeout (scbs p1 s) * ucast (epr_timeout_ack_factor (path_of ?fl p1))) (epr_timeout_ack_max (path_of ?fl p1))"
    define p2 where "p2 = upd_scb s (\<lambda>x. x\<lparr>ack_timeout := w, abs_timeout := cycles e (ext p) + w\<rparr>) p1"
    have s2: "node_same e D i j p1 p2" unfolding p2_def by (rule same_quiet [OF ok1], rule quiet_view) (simp add: scb_view_def, simp_all add: upd_scb_def)
    have f2: "flows p2 = flows p1" by (simp add: p2_def)
    show ?thesis
    proof (cases "t \<ge> abs_timeout (scbs p1 s)")
      case True
      have o2: "ctrl_ok {?fl} p2" "acks_ok {?fl} p2" "protocol (flows p2 ?fl) \<noteq> PSM_PROTOCOL_TIDFLOW"
        using node_same_ok [OF s2] by (simp_all add: node_ok_def flow_ready_def Let_def)
      obtain err p3 where p3: "ips_proto_send_ctrl_message e ?fl OPCODE_ERR_CHK (Ep_mask (flow_ipsaddr (flows p2 ?fl))) None p2 = Inr (err, p3)" "rx_keep {?fl} p2 p3"
        using send_ctrl_keep [OF singletonI o2(1,2) gbn_types(3)] by blast
      let ?p = "upd_flow ?fl (\<lambda>f. f\<lparr>timer_ack := timer_request (cycles e (ext p3) + ack_timeout (scbs p3 s)) (timer_ack f)\<rparr>) (p3\<lparr>ext := Suc (ext p3)\<rparr>)"
      have s3: "node_same e D i j p2 p3" using same_keep [OF node_same_ok [OF s2] p3(2)] .
      have "node_same e D i j p3 ?p" by (rule timer [OF node_same_ok [OF s3]])
      then have "node_same e D i j p ?p" using s1 s2 s3 node_same_trans by blast
      moreover have "ips_proto_timer_ack_callback e ?fl t p = Inr ?p"
        using True Cons p3(1) [unfolded f2] tp c by (simp add: ips_proto_timer_ack_callback_def Let_def w_def [symmetric] p2_def [symmetric]) (simp add: get_cycles_def)
      ultimately show ?thesis by blast
    next
      case False
      let ?p = "upd_flow ?fl (\<lambda>f. f\<lparr>timer_ack := timer_request (cycles e (ext p) + (abs_timeout (scbs p1 s) - t)) (timer_ack f)\<rparr>) p1"
      have "node_same e D i j p1 ?p" using timer [OF ok1, of _ "ext p1"] by simp
      then have "node_same e D i j p ?p" using s1 node_same_trans by blast
      then show ?thesis using False Cons c by (auto simp: ips_proto_timer_ack_callback_def Let_def)
    qed
  qed
qed

section \<open>Receiving as a step of a node\<close>

text \<open>What an acknowledgement does to a node, and what a frame does.\<close>

definition node_acked :: "'w ips_env \<Rightarrow> ('w \<Rightarrow> mq_op list) \<Rightarrow> nat \<Rightarrow> nat \<Rightarrow> ips_hdr \<Rightarrow> 'w ips_proto \<Rightarrow> 'w ips_proto \<Rightarrow> bool" where
  "node_acked e D i j h p p' \<longleftrightarrow> recv_seq_num (flows p' (Ep_flow i j)) = recv_seq_num (flows p (Ep_flow i j)) \<and> D (app p') = D (app p) \<and>
     (let n = length (scb_unacked (flows p (Ep_flow i j))) in \<exists>k. node_result e D i j k p p' \<and>
        (k = 0 \<or> k \<le> n \<and> h_ack_seq_num h = xmit_seq_num (flows p (Ep_flow i j)) - of_nat (n - k)))"

definition node_received :: "'w ips_env \<Rightarrow> ('w \<Rightarrow> mq_op list) \<Rightarrow> nat \<Rightarrow> nat \<Rightarrow> ips_hdr \<Rightarrow> 'w ips_proto \<Rightarrow> 'w ips_proto \<Rightarrow> bool" where
  "node_received e D i j h p p' \<longleftrightarrow> (let v = node_view D (Ep_flow i j) in node_ok e D i j p' \<and> xmit_of v p' = xmit_of v p \<and>
     emits v (of_nat j) p p' \<and> passes v h p p' \<and> acked v h p p')"

lemma flow_byte:
  assumes "j < EP_FLOW_LAST"
  shows "unat ((of_nat j :: u8) AND 0xF) = j" "drop_bit 4 (of_nat j :: u8) AND 0xF = 0" "unat (of_nat j :: u32) = j"
proof -
  have "j \<in> {0, 1, 2, 3}" using assms by (auto simp: EP_FLOW_LAST_def)
  then show "unat ((of_nat j :: u8) AND 0xF) = j" "drop_bit 4 (of_nat j :: u8) AND 0xF = 0" "unat (of_nat j :: u32) = j" by auto
qed

lemma ev_node:
  assumes ok: "node_ok e D i j p" and h: "h_flowid h = of_nat j"
  shows "ev_flow (ev_from i h fecn becn) = Ep_flow i j" "ev_for (ev_from i h fecn becn) (Ep_flow i j)" "rx_ready {Ep_flow i j} (ev_from i h fecn becn) p"
    "ips_proto_flowid h = j" "flowid_protocol h = 0"
proof -
  have j: "j < EP_FLOW_LAST" using ok by (simp add: node_ok_def Let_def)
  show f: "ips_proto_flowid h = j" "flowid_protocol h = 0" using h flow_byte [OF j] by (simp_all add: ips_proto_flowid_def flowid_protocol_def)
  then show "ev_flow (ev_from i h fecn becn) = Ep_flow i j" "ev_for (ev_from i h fecn becn) (Ep_flow i j)" using j by (simp_all add: ev_from_def ev_for_def)
  show "rx_ready {Ep_flow i j} (ev_from i h fecn becn) p" using ok f j flow_byte(3) [OF j] by (simp add: rx_ready_def ev_from_def node_ok_def Let_def)
qed

lemma same_acked: "node_same e D i j p p' \<Longrightarrow> node_acked e D i j h p p'"
  by (auto simp: node_acked_def node_same_def Let_def)

lemma recv_ack:
  assumes ok: "node_ok e D i j p" and h: "h_flowid h = of_nat j"
  shows "\<exists>p'. ips_proto_process_ack e (ev_from i h fecn becn) p = Inr p' \<and> node_acked e D i j h p p'"
    "\<exists>p'. process_nak e (ev_from i h fecn becn) p = Inr p' \<and> node_acked e D i j h p p'"
proof -
  let ?fl = "Ep_flow i j" and ?ev = "ev_from i h fecn becn"
  obtain inflight pending where r: "flow_rep ?fl inflight pending p" "flow_ready e ?fl p" "completion_log e (\<lambda>_ _. []) D" "scb_unacked (flows p ?fl) = inflight @ pending"
    using node_okD [OF ok] by metis
  have len: "length (inflight @ pending) < 2 ^ 24" using queue_short [OF ok] r(4) by simp
  note pre = r(1-3) ev_node(2) [OF ok h, of fecn becn] refl len
  have hh: "h_ack_seq_num (ev_hdr ?ev) = h_ack_seq_num h" by (simp add: ev_from_def)
  have res: "node_acked e D i j h p p'" if "k \<le> length (inflight @ pending)" "h_ack_seq_num h = xmit_seq_num (flows p ?fl) - of_nat (length (inflight @ pending) - k)"
    "ack_result ?fl (take k (inflight @ pending)) x y a b (\<lambda>_ _. []) D p p'" "x @ y = drop k (inflight @ pending)" for k p' x y a b
    using result_ack [OF ok r(4) that(3,4)] that(1,2) r(4) by (auto simp: node_acked_def Let_def)
  have d: "drop k inflight @ drop (k - length inflight) pending = drop k (inflight @ pending)" for k by simp
  show "\<exists>p'. ips_proto_process_ack e ?ev p = Inr p' \<and> node_acked e D i j h p p'"
    using process_ack_cases [OF pre, unfolded hh] res [OF _ _ _ d] same_acked [OF node_same_refl [OF ok]] by blast
  show "\<exists>p'. process_nak e ?ev p = Inr p' \<and> node_acked e D i j h p p'"
    using process_nak_cases [OF pre, unfolded hh] res [OF _ _ _ append_Nil] same_acked [OF node_same_refl [OF ok]] by blast
qed

lemma received_acked:
  assumes r: "node_result e D i j 0 p p1" "passes (node_view D (Ep_flow i j)) h p p1" and a: "node_acked e D i j h p1 p'" "has_ack h"
  shows "node_received e D i j h p p'"
proof -
  let ?v = "node_view D (Ep_flow i j)"
  obtain k where k: "node_result e D i j k p1 p'" "k = 0 \<or> k \<le> length (queue_of ?v p1) \<and> h_ack_seq_num h = xmit_of ?v p1 - of_nat (length (queue_of ?v p1) - k)"
    "recv_of ?v p' = recv_of ?v p1" "calls_of ?v p' = calls_of ?v p1" using a(1) by (auto simp: node_acked_def Let_def)
  have q: "queue_of ?v p1 = queue_of ?v p" "xmit_of ?v p1 = xmit_of ?v p" using r(1) by (simp_all add: node_result_def Let_def)
  have "passes ?v h p p'" using r(2) k(3,4) by (simp only: passes_def)
  moreover have "node_result e D i j k p p'" using node_result_trans [OF r(1) k(1)] k(3) by simp
  moreover from this have "queue_of ?v p' = drop k (queue_of ?v p)" by (simp only: node_result_def Let_def)
  then have "acked ?v h p p'" using k(2) a(2) unfolding acked_def q by auto
  ultimately show ?thesis by (simp add: node_received_def node_result_def Let_def)
qed

lemma received_keep:
  assumes "node_ok e D i j p" "rx_keep {Ep_flow i j} p p'"
  shows "node_received e D i j h p p'"
  using same_keep [OF assms] by (auto simp: node_same_def node_result_def node_received_def passes_def acked_def Let_def)

lemma received_same: "node_same e D i j p p' \<Longrightarrow> node_received e D i j h p p'"
  by (auto simp: node_same_def node_result_def node_received_def passes_def acked_def Let_def)

lemma passes_rx:
  assumes "node_ok e D i j p" "is_data h" "h_flowid h = of_nat j"
    and "if c then rx_accept {Ep_flow i j} e (ev_from i h fecn becn) p p' else rx_keep {Ep_flow i j} p p'"
  shows "node_result e D i j 0 p p'" "passes (node_view D (Ep_flow i j)) h p p'"
proof -
  have f: "ev_flow (ev_from i h fecn becn) = Ep_flow i j" "ev_hdr (ev_from i h fecn becn) = h" using ev_node(1) [OF assms(1,3)] by (simp_all add: ev_from_def)
  have "rx_result {Ep_flow i j} p p'" using assms(4) by (auto simp: rx_accept_def rx_keep_def split: if_splits)
  then show "node_result e D i j 0 p p'" by (rule result_rx [OF assms(1)])
  have "\<forall>c w. D (mq_call e c w) = D w @ [c]" using assms(1) by (simp add: node_ok_def call_log_def Let_def)
  then show "passes (node_view D (Ep_flow i j)) h p p'" using assms(2,4) f
    by (auto simp: passes_def rx_accept_def rx_keep_def hdr_psn_def split: if_splits)
qed

lemma received_data:
  assumes ok: "node_ok e D i j p" and h: "is_data h" "h_flowid h = of_nat j"
    and r: "f = Inr p1" "if c then rx_accept {Ep_flow i j} e (ev_from i h fecn becn) p p1 else rx_keep {Ep_flow i j} p p1"
  shows "\<exists>p'. run_bind f (ips_proto_process_ack e (ev_from i h fecn becn)) = Inr p' \<and> node_received e D i j h p p'"
proof -
  note q = passes_rx [OF ok h r(2)]
  have "node_ok e D i j p1" using q(1) by (simp add: node_result_def Let_def)
  then obtain p' where "ips_proto_process_ack e (ev_from i h fecn becn) p1 = Inr p'" "node_acked e D i j h p1 p'" using recv_ack(1) h(2) by blast
  then show ?thesis using received_acked [OF q] h(1) r(1) by (auto simp: has_ack_def)
qed

lemma received_packet:
  assumes ok: "node_ok e D i j p" and h: "well_formed (of_nat j) h"
  shows "\<exists>p'. ips_proto_process_packet e other (ev_from i h fecn becn) p = Inr p' \<and> node_received e D i j h p p'"
proof -
  let ?ev = "ev_from i h fecn becn" and ?fl = "Ep_flow i j"
  have hf: "h_flowid h = of_nat j" and kind: "if is_data h then data_hdr h else gbn_type (h_sub_opcode h)" using h by (simp_all add: well_formed_def)
  note ev = ev_node [OF ok hf]
  have s: "ev_hdr ?ev = h" "ev_ptype ?ev = RCVHQ_RCV_TYPE_EAGER" "ev_ipsaddr ?ev = i" by (simp_all add: ev_from_def)
  consider (Tiny) "h_sub_opcode h = OPCODE_SEQ_MQ_HDR" | (Mq) "h_sub_opcode h = OPCODE_SEQ_MQ_CTRL" "data_hdr h" | (Ack) "h_sub_opcode h = OPCODE_ACK"
    | (Nak) "h_sub_opcode h = OPCODE_NAK" | (Becn) "h_sub_opcode h = OPCODE_FLOW_CCA_BECN" | (Chk) "h_sub_opcode h = OPCODE_ERR_CHK"
    using kind by (auto simp: is_data_def gbn_type_def split: if_splits)
  then show ?thesis
  proof cases
    case Tiny
    then obtain p1 where "ips_proto_process_mq_tiny e ?ev p = Inr p1"
      "if recv_seq_num (flows p (ev_flow ?ev)) = ucast (h_psn (ev_hdr ?ev)) then rx_accept {?fl} e ?ev p p1 else rx_keep {?fl} p p1"
      using process_tiny_ok [OF ev(3), of fecn becn e] s by auto
    then show ?thesis using received_data [OF ok _ hf] Tiny s by (simp add: ips_proto_process_packet_def is_data_def)
  next
    case Mq
    then obtain p1 where p1: "process_mq e ?ev p = Inr p1"
      "if recv_seq_num (flows p (ev_flow ?ev)) = ucast (h_psn (ev_hdr ?ev)) \<and> \<not> refused e ?ev p then rx_accept {?fl} e ?ev p p1 else rx_keep {?fl} p p1"
      using process_mq_ok [OF ev(3), of fecn becn e] s by auto
    have "h_sub_opcode h \<noteq> OPCODE_SEQ_MQ_HDR" using Mq(1) by (simp add: opcode_defs)
    then have "ips_proto_process_packet e other ?ev p = run_bind (process_mq e ?ev p) (ips_proto_process_ack e ?ev)"
      using Mq(1) s by (simp add: ips_proto_process_packet_def ips_proto_process_packet_inner_def Let_def)
    then show ?thesis using received_data [OF ok _ hf p1] Mq(1) by (simp add: is_data_def)
  next
    case Ack
    then have u: "ips_proto_process_packet e other ?ev p = ips_proto_process_ack e ?ev p"
      using s by (simp add: ips_proto_process_packet_def ips_proto_process_packet_inner_def Let_def opcode_defs)
    show ?thesis unfolding u using recv_ack(1) [OF ok hf, of fecn becn] received_acked [OF node_result_refl [OF ok]] Ack by (auto simp: passes_def has_ack_def)
  next
    case Nak
    then have u: "ips_proto_process_packet e other ?ev p = process_nak e ?ev p"
      using s by (simp add: ips_proto_process_packet_def ips_proto_process_packet_inner_def Let_def opcode_defs)
    show ?thesis unfolding u using recv_ack(2) [OF ok hf, of fecn becn] received_acked [OF node_result_refl [OF ok]] Nak by (auto simp: passes_def has_ack_def)
  next
    case Becn
    then have u: "ips_proto_process_packet e other ?ev p = process_cca_becn e ?ev p"
      using s by (simp add: ips_proto_process_packet_def ips_proto_process_packet_inner_def Let_def opcode_defs)
    have "j < EP_FLOW_LAST" using ok by (simp add: node_ok_def Let_def)
    then show ?thesis using slow_down_quiet [OF node_ok_cca [OF ok], of e ?fl] same_quiet [OF ok] received_same ev(4,5) s
      by (fastforce simp: u process_cca_becn_def)
  next
    case Chk
    then have u: "ips_proto_process_packet e other ?ev p = process_err_chk e ?ev p"
      using s by (simp add: ips_proto_process_packet_def ips_proto_process_packet_inner_def Let_def opcode_defs)
    show ?thesis unfolding u using process_err_chk_ok [OF ev(3)] received_keep [OF ok] by blast
  qed
qed

lemma overflow_keep:
  assumes F: "rx_ready F ev p"
  shows "\<exists>p'. overflow_nak e ev p = Inr p' \<and> rx_keep F p p'"
proof -
  let ?fl = "ev_flow ev"
  define c where "c \<longleftrightarrow> sint (ucast (ucast (h_psn (ev_hdr ev)) - recv_seq_num (flows p ?fl) :: u24) :: u16) \<ge> 0 \<and> \<not> has_flag ?fl IPS_FLOW_FLAG_NAK_SEND p"
  define p1 where "p1 = upd_epaddr (ev_ipsaddr ev) (\<lambda>a. a\<lparr>congestion_pkts := congestion_pkts a + 1\<rparr>) p"
  define p2 where "p2 = upd_flow ?fl (\<lambda>f. f\<lparr>flow_flags := flow_flags f OR IPS_FLOW_FLAG_GEN_BECN OR IPS_FLOW_FLAG_NAK_SEND,
          last_seq_num := ucast (h_psn (ev_hdr ev)), cca_ooo_pkts := 0\<rparr>) p1"
  have u: "overflow_nak e ev p = (if c then ips_proto_send_nak e ?fl p2 else Inr p)"
    unfolding overflow_nak_def Let_def c_def p2_def p1_def by (rule refl)
  have R: "?fl \<in> F" "ctrl_ok F p" "acks_ok F p" using F by (simp_all add: rx_ready_def)
  have k1: "rx_keep F p p1" unfolding p1_def by (rule rx_keep_epaddr [OF R(2,3)]) simp
  have "rx_keep F p1 p2" unfolding p2_def using rx_keepD [OF k1]
    by (intro rx_keep_flow) (simp_all add: rxf_view_def flow_flag_defs and.assoc bit.conj_disj_distrib2)
  then have k2: "rx_keep F p p2" using k1 rx_keep_trans by blast
  obtain p3 where p3: "ips_proto_send_nak e ?fl p2 = Inr p3" "rx_keep F p2 p3" using send_nak_keep R(1) rx_keepD [OF k2] by blast
  have "rx_keep F p p3" using k2 p3(2) by (rule rx_keep_trans)
  then show ?thesis using u p3(1) rx_keep_refl [OF R(2,3)] by (cases c) simp_all
qed

lemma received_overflow:
  assumes ok: "node_ok e D i j p" and h: "well_formed (of_nat j) h"
  shows "\<exists>p'. process_eager_overflow e data_err True (ev_from i h fecn becn) p = Inr p' \<and> node_received e D i j h p p'"
proof (cases "is_data h \<and> \<not> data_err")
  case False
  have "gbn_type (h_sub_opcode h)" if "\<not> is_data h" using that h by (simp add: well_formed_def)
  then have "process_eager_overflow e data_err True (ev_from i h fecn becn) p = Inr p"
    using False by (auto simp: process_eager_overflow_def Let_def ev_from_def gbn_type_def is_data_def OPCODE_AM_REQUEST_def OPCODE_AM_REPLY_def
        OPCODE_AM_REQUEST_NOREPLY_def opcode_defs)
  then show ?thesis using received_same [OF node_same_refl [OF ok]] by blast
next
  case True
  have hf: "h_flowid h = of_nat j" using h by (simp add: well_formed_def)
  have s: "ev_hdr (ev_from i h fecn becn) = h" "ips_proto_flowid h < EP_FLOW_LAST" using ev_node(3) [OF ok hf, of fecn becn] by (simp_all add: ev_from_def rx_ready_def)
  obtain p1 where p1: "overflow_nak e (ev_from i h fecn becn) p = Inr p1" "rx_keep {Ep_flow i j} p p1"
    using overflow_keep [OF ev_node(3) [OF ok hf]] by blast
  have "process_eager_overflow e data_err True (ev_from i h fecn becn) p = run_bind (overflow_nak e (ev_from i h fecn becn) p) (ips_proto_process_ack e (ev_from i h fecn becn))"
    using True s by (auto simp: process_eager_overflow_def Let_def is_data_def)
  then show ?thesis using received_data [OF ok _ hf p1(1), of False] p1(2) True by simp
qed

section \<open>The promises of a node\<close>

lemma same_user:
  assumes ok: "node_ok e D i j p" and u: "user_step D (Ep_flow i j) p p'"
  shows "node_same e D i j p p'"
proof -
  let ?fl = "Ep_flow i j"
  have v: "rel_view ?fl p' = rel_view ?fl p" and f: "flows p' ?fl = flows p ?fl" "scb_inv p'" "D (app p') = D (app p)"
    "\<forall>s \<in> set (scb_unacked (flows p ?fl)). s \<in> scb_held p' \<and> scbs p' s = scbs p s" using u by (simp_all add: user_step_def)
  note d = rel_viewD [OF v]
  have rep: "flow_rep ?fl inflight pending p'" if "flow_rep ?fl inflight pending p" for inflight pending
  proof -
    have q: "scb_unacked (flows p ?fl) = inflight @ pending" using that by (simp add: flow_rep_def Let_def)
    have "scbs p' ((inflight @ pending) ! k) = scbs p ((inflight @ pending) ! k)" if "k < length (inflight @ pending)" for k
      using f(4) nth_mem [OF that] q by auto
    then show ?thesis using that f(1,4) q unfolding flow_rep_q by auto
  qed
  have o: "ctrl_ok {?fl} p" "acks_ok {?fl} p" "flow_ready e ?fl p" using ok by (simp_all add: node_ok_def Let_def)
  have "ctrl_ok {?fl} p'" using o(1) d(5) by (rule ctrl_ok_flows) (simp add: f(1))
  moreover have "acks_ok {?fl} p'" "flow_ready e ?fl p'" using o(2,3) f(1,2) d(7) released_cca [OF v] by (simp_all add: acks_ok_def flow_ready_def)
  ultimately have "node_ok e D i j p'" using ok rep f(1,4) d by (auto simp: node_ok_def Let_def)
  moreover have "emits (node_view D ?fl) (of_nat j) p p'" by (rule emits_refl) (simp add: d)
  moreover have "map (\<lambda>s. hdr_of (scbs p' s)) (scb_unacked (flows p' ?fl)) = map (\<lambda>s. hdr_of (scbs p s)) (scb_unacked (flows p ?fl))"
    using f(1,4) by simp
  ultimately show ?thesis using f(1,3) by (simp add: node_same_def node_result_def Let_def)
qed

lemma local_same:
  assumes ok: "node_ok e D i j p" and st: "node_local e D (Ep_flow i j) p p'"
  shows "node_same e D i j p p'"
  using st
proof cases
  case (Flush err k)
  then show ?thesis using same_flush [OF ok] by auto
next
  case Timer_Send
  then show ?thesis using same_timer_send [OF ok] by auto
next
  case (Timer_Ack t)
  then show ?thesis using same_timer_ack [OF ok, of t] by auto
next
  case (Timer_Ctrlq qi)
  then show ?thesis using ctrlq_callback_ok [of qi "{Ep_flow i j}" p e] same_keep [OF ok] ok by (auto simp: node_ok_def Let_def)
next
  case Timer_Cca
  then show ?thesis using same_timer_cca [OF ok] by auto
next
  case Pending_Acks
  then show ?thesis using pending_acks_ok [of "{Ep_flow i j}" p e] same_keep [OF ok] ok by (auto simp: node_ok_def Let_def)
next
  case User
  then show ?thesis by (rule same_user [OF ok])
qed

lemma ucast_psn [simp]: "ucast (ucast x :: u32) = (x :: u24)"
  by (rule bit_word_eqI) (simp add: bit_simps)

lemma queue_result:
  assumes ok: "node_ok e D i j p" and st: "node_queue e (Ep_flow i j) h p p'"
  defines "v \<equiv> node_view D (Ep_flow i j)"
  shows "node_ok e D i j p'" "queue_of v p' = queue_of v p @ [h]" "xmit_of v p' = xmit_of v p + 1" "recv_of v p' = recv_of v p" "calls_of v p' = calls_of v p"
    "wire_of v p' = wire_of v p" "well_formed (of_nat j) h" "is_data h" "hdr_psn h = xmit_of v p" "h_ack_seq_num h = recv_of v p"
proof -
  let ?fl = "Ep_flow i j"
  obtain s where s: "s \<in> scb_held p" "s \<notin> set (scb_unacked (flows p ?fl))" "data_hdr (hdr_of (scbs p s))" "p' = ips_proto_flow_enqueue e ?fl s p" "h = hdr_of (scbs p' s)"
    using st by (auto simp: node_queue_def)
  obtain inflight pending where r: "flow_rep ?fl inflight pending p" "flow_ready e ?fl p" "ctrl_ok {?fl} p" "acks_ok {?fl} p" "scb_unacked (flows p ?fl) = inflight @ pending"
    using node_okD [OF ok] by metis
  have pr: "protocol (flows p ?fl) \<noteq> PSM_PROTOCOL_TIDFLOW" "scb_inv p" using r(2) by (simp_all add: flow_ready_def)
  note q = enqueue_rep [OF r(1) s(1) s(2) [unfolded r(5)] pr, of e, folded s(4)]
  have fr: "wire p' = wire p" "app p' = app p" "ctrlqs p' = ctrlqs p" "pending_acks p' = pending_acks p" "scb_num p' = scb_num p" "ipsaddrs p' = ipsaddrs p" "paths p' = paths p"
    "ccti_limit p' = ccti_limit p" "\<And>t. t \<noteq> s \<Longrightarrow> scbs p' t = scbs p t" by (subst q(4), simp)+
  have fw: "recv_seq_num (flows p' ?fl) = recv_seq_num (flows p ?fl)" "flow_flags (flows p' ?fl) = flow_flags (flows p ?fl)" "flowid (flows p' ?fl) = flowid (flows p ?fl)"
    "protocol (flows p' ?fl) = protocol (flows p ?fl)" "transfer (flows p' ?fl) = transfer (flows p ?fl)" "flow_path (flows p' ?fl) = flow_path (flows p ?fl)"
    "scb_unacked (flows p' ?fl) = inflight @ pending @ [s]" "xmit_seq_num (flows p' ?fl) = xmit_seq_num (flows p ?fl) + 1" by (simp_all add: q(5))
  have j: "flowid (flows p ?fl) = of_nat j" "j < EP_FLOW_LAST" using ok by (simp_all add: node_ok_def Let_def)
  have fid: "lrh_flowid (scbs p' s) = of_nat j" using enqueue_flowid [of e ?fl s p] s(4) j by (simp add: ucast_flow)
  have dh: "data_hdr h" "is_data h" using s(3) q(6) by (auto simp: s(5) data_hdr_def is_data_def hdr_of_def scb_prepared_def)
  then show "is_data h" "well_formed (of_nat j) h" using fid by (simp_all add: well_formed_def) (simp add: s(5) hdr_of_def)
  show "hdr_psn h = xmit_of v p" "h_ack_seq_num h = recv_of v p" using q(6) by (simp_all add: v_def s(5) hdr_psn_def hdr_of_def scb_prepared_def)
  have keep: "scbs p' t = scbs p t" if "t \<in> set (inflight @ pending)" for t
  proof -
    have "t \<noteq> s" using that s(2) r(5) by metis
    then show ?thesis by (rule fr(9))
  qed
  then show "queue_of v p' = queue_of v p @ [h]" using s(5) r(5) fw(7) by (simp add: v_def)
  show "xmit_of v p' = xmit_of v p + 1" "recv_of v p' = recv_of v p" "calls_of v p' = calls_of v p" "wire_of v p' = wire_of v p"
    using fw fr by (simp_all add: v_def)
  have "ctrl_ok {?fl} p'" using r(3) fr(3) by (rule ctrl_ok_flows) (simp add: fw)
  moreover have "acks_ok {?fl} p'" using r(4) fw(2) fr(4) by (simp add: acks_ok_def)
  moreover have "flow_ready e ?fl p'" using r(2) q(2) fw fr(7,8) by (simp add: flow_ready_def cca_ok_def)
  moreover have "\<forall>t \<in> set (scb_unacked (flows p' ?fl)). data_hdr (hdr_of (scbs p' t)) \<and> lrh_flowid (scbs p' t) = of_nat j"
  proof
    fix t assume "t \<in> set (scb_unacked (flows p' ?fl))"
    then have "t = s \<or> t \<in> set (inflight @ pending)" using fw(7) by auto
    then show "data_hdr (hdr_of (scbs p' t)) \<and> lrh_flowid (scbs p' t) = of_nat j"
      using ok r(5) keep [of t] dh(1) fid by (auto simp: node_ok_def Let_def s(5))
  qed
  ultimately show "node_ok e D i j p'" using ok q(1) fw(3) fr(5,6) by (auto simp: node_ok_def Let_def)
qed

lemma recv_received:
  assumes "node_ok e D i j p" "well_formed (of_nat j) h" "node_recv e other i h p p'"
  shows "node_received e D i j h p p'"
  using assms(3)
proof cases
  case (Packet fecn becn)
  then show ?thesis using received_packet [OF assms(1,2), of other fecn becn] by auto
next
  case (Overflow data_err fecn becn)
  then show ?thesis using received_overflow [OF assms(1,2), of data_err fecn becn] by auto
qed

interpretation ips_node: gbn_node "node_view D (Ep_flow i j)" "node_steps e D other i j" "of_nat j" "node_ok e D i j"
  for e :: "'w ips_env" and D other i j
proof
  fix p p' h
  assume ok: "node_ok e D i j p"
  show "length (queue_of (node_view D (Ep_flow i j)) p) < 2 ^ 24" using queue_short [OF ok] by simp
  show "node_ok e D i j p' \<and> queue_of (node_view D (Ep_flow i j)) p' = queue_of (node_view D (Ep_flow i j)) p \<and>
      xmit_of (node_view D (Ep_flow i j)) p' = xmit_of (node_view D (Ep_flow i j)) p \<and> recv_of (node_view D (Ep_flow i j)) p' = recv_of (node_view D (Ep_flow i j)) p \<and>
      calls_of (node_view D (Ep_flow i j)) p' = calls_of (node_view D (Ep_flow i j)) p \<and> emits (node_view D (Ep_flow i j)) (of_nat j) p p'"
    if "local_step (node_steps e D other i j) p p'"
    using local_same [OF ok] that by (simp add: node_steps_def node_same_def node_result_def Let_def)
  show "node_ok e D i j p' \<and> queue_of (node_view D (Ep_flow i j)) p' = queue_of (node_view D (Ep_flow i j)) p @ [h] \<and>
      xmit_of (node_view D (Ep_flow i j)) p' = xmit_of (node_view D (Ep_flow i j)) p + 1 \<and> recv_of (node_view D (Ep_flow i j)) p' = recv_of (node_view D (Ep_flow i j)) p \<and>
      calls_of (node_view D (Ep_flow i j)) p' = calls_of (node_view D (Ep_flow i j)) p \<and> wire_of (node_view D (Ep_flow i j)) p' = wire_of (node_view D (Ep_flow i j)) p \<and>
      well_formed (of_nat j) h \<and> is_data h \<and> hdr_psn h = xmit_of (node_view D (Ep_flow i j)) p \<and> h_ack_seq_num h = recv_of (node_view D (Ep_flow i j)) p"
    if "queue_step (node_steps e D other i j) h p p'"
    using queue_result [OF ok, of h p'] that by (simp only: node_steps_def gbn_steps.simps simp_thms)
  show "node_ok e D i j p' \<and> xmit_of (node_view D (Ep_flow i j)) p' = xmit_of (node_view D (Ep_flow i j)) p \<and> emits (node_view D (Ep_flow i j)) (of_nat j) p p' \<and>
      passes (node_view D (Ep_flow i j)) h p p' \<and> acked (node_view D (Ep_flow i j)) h p p'"
    if "well_formed (of_nat j) h" "recv_step (node_steps e D other i j) h p p'"
    using recv_received [OF ok that(1)] that(2) by (simp add: node_steps_def node_received_def Let_def)
qed

section \<open>Two connected nodes\<close>

text \<open>
  The two ends of the flow with index \<open>j\<close>: each node has its own environment, its own index of the peer's address, and
  its own log of calls into its matched queue.
\<close>

definition pair_view :: "(bool \<Rightarrow> 'w \<Rightarrow> mq_op list) \<Rightarrow> (bool \<Rightarrow> nat) \<Rightarrow> nat \<Rightarrow> bool \<Rightarrow> 'w ips_proto gbn_view" where
  "pair_view D i j x = node_view (D x) (Ep_flow (i x) j)"

definition pair_steps :: "(bool \<Rightarrow> 'w ips_env) \<Rightarrow> (bool \<Rightarrow> 'w \<Rightarrow> mq_op list) \<Rightarrow> (bool \<Rightarrow> ips_recvhdrq_event \<Rightarrow> 'w ips_proto \<Rightarrow> 'w ips_proto run) \<Rightarrow>
    (bool \<Rightarrow> nat) \<Rightarrow> nat \<Rightarrow> bool \<Rightarrow> 'w ips_proto gbn_steps" where
  "pair_steps e D other i j x = node_steps (e x) (D x) (other x) (i x) j"

definition pair_ok :: "(bool \<Rightarrow> 'w ips_env) \<Rightarrow> (bool \<Rightarrow> 'w \<Rightarrow> mq_op list) \<Rightarrow> (bool \<Rightarrow> nat) \<Rightarrow> nat \<Rightarrow> bool \<Rightarrow> 'w ips_proto \<Rightarrow> bool" where
  "pair_ok e D i j x p = node_ok (e x) (D x) (i x) j p"

interpretation ips_pair: gbn_pair "pair_view D i j" "pair_steps e D other i j" "of_nat j" "pair_ok e D i j"
  for e :: "bool \<Rightarrow> 'w ips_env" and D other i j
proof (rule gbn_pair.intro)
  fix x
  have "pair_ok e D i j x = node_ok (e x) (D x) (i x) j" by (rule ext) (simp add: pair_ok_def)
  then show "gbn_node (pair_view D i j x) (pair_steps e D other i j x) (of_nat j) (pair_ok e D i j x)"
    by (simp add: pair_view_def pair_steps_def ips_node.gbn_node_axioms)
qed

text \<open>Two nodes that are connected and have not exchanged anything.\<close>

definition pair_start :: "(bool \<Rightarrow> 'w ips_env) \<Rightarrow> (bool \<Rightarrow> 'w \<Rightarrow> mq_op list) \<Rightarrow> (bool \<Rightarrow> nat) \<Rightarrow> nat \<Rightarrow> 'w ips_proto gbn_net \<Rightarrow> bool" where
  "pair_start e D i j s \<longleftrightarrow> net_start (pair_view D i j) (pair_ok e D i j) s"

abbreviation pair_run :: "(bool \<Rightarrow> 'w ips_env) \<Rightarrow> (bool \<Rightarrow> 'w \<Rightarrow> mq_op list) \<Rightarrow> (bool \<Rightarrow> ips_recvhdrq_event \<Rightarrow> 'w ips_proto \<Rightarrow> 'w ips_proto run) \<Rightarrow>
    (bool \<Rightarrow> nat) \<Rightarrow> nat \<Rightarrow> 'w ips_proto gbn_net \<Rightarrow> 'w ips_proto gbn_net \<Rightarrow> bool" where
  "pair_run e D other i j \<equiv> (net_step (pair_view D i j) (pair_steps e D other i j))\<^sup>*\<^sup>*"

text \<open>Two nodes at rest that each hold a block with the header of a tiny message, and one of them queues it.\<close>

definition demo_node :: "mq_op list ips_proto" where
  "demo_node = demo_recv\<lparr>scb_free := [0x10C0, 0x1180, 0x1240], scb_num_cur := 3,
     scbs := (\<lambda>_. scb_calloc)(0x1000 := scb_calloc\<lparr>lrh_sub_opcode := OPCODE_SEQ_MQ_HDR\<rparr>)\<rparr>"

definition demo_pair :: "mq_op list ips_proto gbn_net" where
  "demo_pair = \<lparr>node = (\<lambda>_. demo_node), sent = (\<lambda>_. []), net = (\<lambda>_. {})\<rparr>"

definition demo_queued :: "mq_op list ips_proto gbn_net" where
  "demo_queued = (let p = ips_proto_flow_enqueue demo_mq_env (Ep_flow 0 0) 0x1000 demo_node
     in demo_pair\<lparr>node := (\<lambda>_. demo_node)(True := p), sent := (\<lambda>_. [])(True := [(hdr_of (scbs p 0x1000), 0)])\<rparr>)"

lemma demo_node_ok: "node_ok demo_mq_env (\<lambda>w. w) 0 0 demo_node"
proof -
  let ?fl = "Ep_flow 0 0"
  have set: "scb_set demo_node = {0x1000, 0x10C0, 0x1180, 0x1240}" using demo_scb_set [of "[] :: mq_op list"] by (simp add: demo_node_def demo_recv_def scb_set_def)
  have inv: "scb_inv demo_node"
    using demo_proto_inv [of "[] :: mq_op list"] set by (auto simp: scb_inv_def scb_geom_def demo_node_def demo_recv_def scb_set_def bounced_def sbuf_set_def bij_betw_def scb_calloc_def)
  have f: "flows demo_node = flows (demo_proto ([] :: mq_op list))" "ctrlqs demo_node = ctrlqs demo_recv" "pending_acks demo_node = []" "paths demo_node = paths (demo_proto ([] :: mq_op list))" "ccti_limit demo_node = 127"
    "scb_num demo_node = 4" "ep_flags (ipsaddrs demo_node 0) = SESS_FLAG_HAS_FLOWID" "flows demo_recv = flows (demo_proto ([] :: mq_op list))"
    by (simp_all add: demo_node_def demo_recv_def)
  have "flow_rep ?fl [] [] demo_node" by (simp add: flow_rep_def f demo_flow_def)
  moreover have "dma_completes demo_mq_env" unfolding dma_completes_def
    by (intro allI, subst dma_wait_loop.simps) (simp add: demo_mq_env_def demo_env_def)
  then have "flow_ready demo_mq_env ?fl demo_node" using inv
    by (simp add: flow_ready_def dma_honest_def demo_mq_env_def demo_env_def f demo_flow_def cca_ok_def demo_path_def)
  moreover have "ctrl_ok {?fl} demo_node" by (rule ctrl_ok_flows [OF demo_recv_ready(1) f(2)]) (simp add: f(1,8))
  moreover have "acks_ok {?fl} demo_node" by (simp add: acks_ok_def f demo_flow_def)
  moreover have "call_log demo_mq_env (\<lambda>w. w)" by (simp add: call_log_def completion_log_def demo_mq_env_def demo_env_def)
  moreover have "flowid (flows demo_node ?fl) = of_nat 0" "scb_unacked (flows demo_node ?fl) = []" by (simp_all add: f demo_flow_def)
  ultimately show ?thesis unfolding node_ok_def Let_def by (auto simp: f EP_FLOW_LAST_def SESS_FLAG_HAS_FLOWID_def)
qed

lemma demo_run:
  "pair_start (\<lambda>_. demo_mq_env) (\<lambda>_ w. w) (\<lambda>_. 0) 0 demo_pair"
  "pair_run (\<lambda>_. demo_mq_env) (\<lambda>_ w. w) (\<lambda>_ _. Inr) (\<lambda>_. 0) 0 demo_pair demo_queued"
proof -
  have f: "flows demo_node (Ep_flow 0 0) = demo_flow" "app demo_node = []" by (simp_all add: demo_node_def demo_recv_def)
  then show "pair_start (\<lambda>_. demo_mq_env) (\<lambda>_ w. w) (\<lambda>_. 0) 0 demo_pair" using demo_node_ok
    by (simp add: pair_start_def net_start_def pair_ok_def pair_view_def demo_pair_def) (simp add: demo_flow_def)
  let ?p = "ips_proto_flow_enqueue demo_mq_env (Ep_flow 0 0) 0x1000 demo_node"
  have "0x1000 \<in> scb_held demo_node" using demo_scb_set [of "[] :: mq_op list"] by (simp add: demo_node_def demo_recv_def scb_held_def scb_set_def)
  moreover have "scbs demo_node 0x1000 = scb_calloc\<lparr>lrh_sub_opcode := OPCODE_SEQ_MQ_HDR\<rparr>" by (simp add: demo_node_def)
  ultimately have "node_queue demo_mq_env (Ep_flow 0 0) (hdr_of (scbs ?p 0x1000)) demo_node ?p"
    unfolding node_queue_def by (intro bexI [of _ "0x1000"]) (simp_all add: f demo_flow_def data_hdr_def hdr_of_def)
  then have "queue_step (pair_steps (\<lambda>_. demo_mq_env) (\<lambda>_ w. w) (\<lambda>_ _. Inr) (\<lambda>_. 0) 0 True) (hdr_of (scbs ?p 0x1000)) (node demo_pair True) ?p"
    by (simp add: pair_steps_def node_steps_def demo_pair_def)
  from net_step.Queue [where st = "pair_steps (\<lambda>_. demo_mq_env) (\<lambda>_ w. w) (\<lambda>_ _. Inr) (\<lambda>_. 0) 0" and x = True and s = demo_pair, OF this,
      of "pair_view (\<lambda>_ w. w) (\<lambda>_. 0) 0"]
  have "net_step (pair_view (\<lambda>_ w. w) (\<lambda>_. 0) 0) (pair_steps (\<lambda>_. demo_mq_env) (\<lambda>_ w. w) (\<lambda>_ _. Inr) (\<lambda>_. 0) 0) demo_pair demo_queued"
    by (simp add: demo_queued_def Let_def pair_view_def f(2) demo_pair_def)
  then show "pair_run (\<lambda>_. demo_mq_env) (\<lambda>_ w. w) (\<lambda>_ _. Inr) (\<lambda>_. 0) 0 demo_pair demo_queued" by blast
qed

text \<open>
  C1: Reliable delivery over a go-back-N flow. Two connected nodes run any interleaving of queueing, flushing, timer callbacks, acknowledgements put off and
  receptions, while the network loses, duplicates, delays and reorders frames as it likes, within the lifetime that 24-bit
  numbers need. In every state that is reached, the calls that a node has made into its matched queue are, in order and once each, the calls
  that belong to a beginning of the list of frames queued by its peer, and the frames that the peer still holds for retransmission are
  the end of that list: every frame already released has been passed on.
\<close>

theorem reliable_in_order:
  assumes "pair_start e D i j s0" "pair_run e D other i j s0 s"
  shows "\<exists>R Q. R = length (D (\<not> x) (app (node s (\<not> x)))) \<and> Q = length (scb_unacked (flows (node s x) (Ep_flow (i x) j))) \<and>
    R \<le> length (sent s x) \<and> list_all2 call_matches (map fst (take R (sent s x))) (D (\<not> x) (app (node s (\<not> x)))) \<and>
    Q \<le> length (sent s x) \<and> length (sent s x) - Q \<le> R \<and>
    map (\<lambda>b. hdr_of (scbs (node s x) b)) (scb_unacked (flows (node s x) (Ep_flow (i x) j))) = map fst (drop (length (sent s x) - Q) (sent s x))"
proof -
  note d = ips_pair.delivered_in_order [OF assms(1) [unfolded pair_start_def] assms(2), of x]
  have "length (scb_unacked (flows (node s x) (Ep_flow (i x) j))) \<le> length (sent s x)" using d(5) by (simp add: pair_view_def)
  then show ?thesis using d(1-4) by (simp add: pair_view_def)
qed

theorem reliable_in_order_witness:
  "length (sent demo_queued True) = 1 \<and> length (app (node demo_queued False)) \<le> length (sent demo_queued True) \<and>
   map (\<lambda>b. hdr_of (scbs (node demo_queued True) b)) (scb_unacked (flows (node demo_queued True) (Ep_flow 0 0))) =
     map fst (drop (length (sent demo_queued True) - length (scb_unacked (flows (node demo_queued True) (Ep_flow 0 0)))) (sent demo_queued True))"
  using reliable_in_order [OF demo_run, of True] by (simp add: demo_queued_def Let_def)

text \<open>
  C2: No step of the protocol stops. In every state that two connected nodes reach, flushing, the callbacks of all the timers, the acknowledgements put
  off and the reception of any frame of the network, with or without its payload, return: no assertion fails, no index leaves its array and
  no loop runs on.
\<close>

theorem reliable_never_stops:
  assumes "pair_start e D i j s0" "pair_run e D other i j s0 s" "p = node s x" "fl = Ep_flow (i x) j"
  shows "(\<exists>err k p'. flow_flush (e x) fl p = Inr (err, k, p')) \<and> (\<exists>p'. ips_proto_timer_send_callback (e x) fl p = Inr p') \<and>
    (\<forall>t. \<exists>p'. ips_proto_timer_ack_callback (e x) fl t p = Inr p') \<and> (\<forall>qi < 4. \<exists>p'. ips_proto_timer_ctrlq_callback (e x) qi p = Inr p') \<and>
    (\<exists>p'. ips_cca_timer_callback (e x) (flow_path (flows p fl)) p = Inr p') \<and> (\<exists>p'. process_pending_acks (e x) p = Inr p') \<and>
    (\<forall>(h, a, r) \<in> net s (\<not> x). \<forall>fecn becn data_err. (\<exists>p'. ips_proto_process_packet (e x) (other x) (ev_from (i x) h fecn becn) p = Inr p') \<and>
       (\<exists>p'. process_eager_overflow (e x) data_err True (ev_from (i x) h fecn becn) p = Inr p'))"
proof -
  have inv: "net_inv (pair_view D i j) (of_nat j) (pair_ok e D i j) s" using assms(1,2) by (intro ips_pair.inv_reachable) (simp_all add: pair_start_def)
  have ok: "node_ok (e x) (D x) (i x) j p" using ips_pair.inv_parts(1) [OF inv, of x] assms(3) by (simp add: pair_ok_def)
  have c: "ctrl_ok {fl} p" "acks_ok {fl} p" using ok assms(4) by (simp_all add: node_ok_def Let_def)
  have w: "well_formed (of_nat j) h" if "(h, a, r) \<in> net s (\<not> x)" for h a r
    using ips_pair.inv_parts(3) [OF inv, of "\<not> x"] that by (auto simp: frames_ok_def packet_ok_def)
  have "\<forall>qi < 4. \<exists>p'. ips_proto_timer_ctrlq_callback (e x) qi p = Inr p'" using ctrlq_callback_ok [OF _ c] by blast
  moreover have "\<exists>p'. process_pending_acks (e x) p = Inr p'" using pending_acks_ok [OF c] by blast
  moreover have "\<forall>(h, a, r) \<in> net s (\<not> x). \<forall>fecn becn data_err. (\<exists>p'. ips_proto_process_packet (e x) (other x) (ev_from (i x) h fecn becn) p = Inr p') \<and>
       (\<exists>p'. process_eager_overflow (e x) data_err True (ev_from (i x) h fecn becn) p = Inr p')"
    using received_packet [OF ok w] received_overflow [OF ok w] by blast
  ultimately show ?thesis using same_flush [OF ok] same_timer_send [OF ok] same_timer_ack [OF ok] same_timer_cca [OF ok] unfolding assms(4) by blast
qed

theorem reliable_never_stops_witness:
  "(\<exists>err k p'. flow_flush demo_mq_env (Ep_flow 0 0) (node demo_queued True) = Inr (err, k, p')) \<and>
   (\<exists>p'. ips_proto_timer_ack_callback demo_mq_env (Ep_flow 0 0) 7 (node demo_queued True) = Inr p')"
  using reliable_never_stops [OF demo_run refl refl, of True] by blast

end
