(* ===== verification/Ips_Mq.thy ===== *)
theory Ips_Mq
  imports MQ_Eager Ips_Rx
begin

text \<open>
  Messages of the matched queue over InfiniPath, \<^verbatim>\<open>src/ptl_ips/ips_proto_mq.c\<close>: which protocol a message takes, the control
  blocks it is cut into, the completion of its request, and the rendezvous by eager data (\<^verbatim>\<open>MQ_MSG_RTS_EGR\<close>,
  \<^verbatim>\<open>MQ_MSG_CTS_EGR\<close>, \<^verbatim>\<open>MQ_MSG_DATA_REQ\<close>) with its queue of pending sends (\<^verbatim>\<open>src/ptl_ips/ips_proto_recv.c\<close>).

  The rest of the program that \<open>ips_proto\<close> carries is the matched queue with its memory and the pending sends. \<open>cx\<close> holds what
  does not change during a send: the sizes and thresholds of the connection, whether the expected protocol is there, and the
  progress engine (\<open>poll_internal\<close> for \<^verbatim>\<open>psmi_poll_internal\<close>, \<open>ep_poll\<close> for the transport's own \<^verbatim>\<open>ep_poll\<close>). A block's endpoint address is the
  one of the flow it is queued on. Requests that wait for control blocks may wait for ever (\<open>None\<close>). The pool of \<open>ips_proto\<close> is
  \<^verbatim>\<open>scbc_egr\<close>; \<open>scbc_rv\<close> is the second one, for the data of a rendezvous, whose blocks are in the same store. Its blocks are taken here; their way
  back to it on an acknowledgement is not modelled. Callbacks are named by numbers; \<open>mq_completion\<close> interprets them. Messages of the debugging build are left out.
\<close>

unbundle bit_operations_syntax

section \<open>State\<close>

definition MQ_NUM_MTUS :: "u32 \<Rightarrow> u16 \<Rightarrow> nat option" where
  "MQ_NUM_MTUS sz mtu = (if mtu = 0 then None else Some (unat ((sz + ucast mtu - 1) div ucast mtu)))"

definition MQ_IPATH_THRESH_TINY :: u32 where "MQ_IPATH_THRESH_TINY = 8"
definition PSM_MQ_FLAG_SENDSYNC :: u32 where "PSM_MQ_FLAG_SENDSYNC = 1"
definition PSM_CACHE_LINE_BYTES :: u32 where "PSM_CACHE_LINE_BYTES = 64"
definition IPS_PROTO_FLAG_MQ_ENVELOPE_SDMA :: u32 where "IPS_PROTO_FLAG_MQ_ENVELOPE_SDMA = 0x01"
definition IPS_PROTO_FLAG_MQ_EAGER_SDMA :: u32 where "IPS_PROTO_FLAG_MQ_EAGER_SDMA = 0x02"
definition IPS_PROTO_FLAG_MQ_MASK :: u32 where "IPS_PROTO_FLAG_MQ_MASK = 0x0f"
definition MQE_TYPE_WAITING_PEER :: u32 where "MQE_TYPE_WAITING_PEER = 0x04"
definition EP_FLOW_GO_BACK_N_PIO :: nat where "EP_FLOW_GO_BACK_N_PIO = 0"
definition EP_FLOW_GO_BACK_N_DMA :: nat where "EP_FLOW_GO_BACK_N_DMA = 1"

datatype pendsend_type = IPS_PENDSEND_EAGER_DATA | IPS_PENDSEND_EAGER_REQ

record mq_world =
  wmq :: psm_mq
  scbc_rv :: ips_scbctrl
  pend_sends_pool :: mpool
  pend_sreq :: "u64 \<Rightarrow> pendsend_type \<times> u64"
  pendq :: "u64 list"
  pend_timer :: "u64 option"

type_synonym proto = "mq_world ips_proto"

record ips_mq_ctx =
  cx_env :: "mq_world ips_env"
  req_env :: mq_env
  sreq_chunk :: "u64 option"
  poll_internal :: "proto \<Rightarrow> (psm_error \<times> proto) run"
  ep_poll :: "proto \<Rightarrow> (psm_error \<times> proto) run"
  epr_piosize :: "nat \<Rightarrow> u16"
  frag_size :: "flowp \<Rightarrow> u32"
  iovec_thresh_eager :: u32
  iovec_thresh_eager_blocking :: u32
  pagesize :: u64
  protoexp :: bool
  ptladdr :: "u64 \<Rightarrow> nat"
  epaddr_of :: "nat \<Rightarrow> u64"
  tid_get_from_token :: "u64 \<Rightarrow> proto \<Rightarrow> proto run"

definition upd_mq :: "(psm_mq \<Rightarrow> psm_mq) \<Rightarrow> proto \<Rightarrow> proto" where
  "upd_mq g p = p\<lparr>app := (app p)\<lparr>wmq := g (wmq (app p))\<rparr>\<rparr>"

abbreviation mq_of :: "proto \<Rightarrow> psm_mq" where "mq_of p \<equiv> wmq (app p)"

abbreviation rv_free :: "proto \<Rightarrow> u64 list" where "rv_free p \<equiv> scb_free (scbc_rv (app p))"

abbreviation set_req :: "u64 \<Rightarrow> (psm_mq_req \<Rightarrow> psm_mq_req) \<Rightarrow> proto \<Rightarrow> proto" where
  "set_req r g \<equiv> upd_mq (upd_req r g)"

definition in_mq :: "(psm_mq \<Rightarrow> ('a \<times> psm_mq) run) \<Rightarrow> proto \<Rightarrow> ('a \<times> proto) run" where
  "in_mq f p = run_bind (f (mq_of p)) (\<lambda>(x, mq). Inr (x, p\<lparr>app := (app p)\<lparr>wmq := mq\<rparr>\<rparr>))"

text \<open>\<^verbatim>\<open>egr_data\<close>, the union view of an eager message's identification; the two words of a header argument.\<close>

definition egr_data :: "u8 \<Rightarrow> u24 \<Rightarrow> u32" where
  "egr_data fid msgno = ucast fid OR push_bit 8 (ucast msgno)"

definition set_lo32 :: "u32 \<Rightarrow> u64 \<Rightarrow> u64" where "set_lo32 w d = (d AND NOT 0xFFFFFFFF) OR ucast w"
definition set_hi32 :: "u32 \<Rightarrow> u64 \<Rightarrow> u64" where "set_hi32 w d = (d AND 0xFFFFFFFF) OR push_bit 32 (ucast w)"

section \<open>Control blocks\<close>

text \<open>\<^verbatim>\<open>PSMI_BLOCKUNTIL\<close> with an allocation as its condition. When the progress engine fails the result is NULL.\<close>

partial_function (option) alloc_blockuntil ::
  "(proto \<Rightarrow> (psm_error \<times> proto) run) \<Rightarrow> (proto \<Rightarrow> ('r option \<times> proto) run) \<Rightarrow> proto \<Rightarrow> ('r option \<times> proto) run option" where
  "alloc_blockuntil poll try_alloc p =
     (case try_alloc p of
        Inl x \<Rightarrow> Some (Inl x)
      | Inr (Some r, p) \<Rightarrow> Some (Inr (Some r, p))
      | Inr (None, p) \<Rightarrow>
          (case poll p of
             Inl x \<Rightarrow> Some (Inl x)
           | Inr (err, p) \<Rightarrow>
               if err = PSM_OK_NO_PROGRESS \<or> err = PSM_OK then alloc_blockuntil poll try_alloc p else Some (Inr (None, p))))"

definition try_tiny :: "proto \<Rightarrow> (u64 option \<times> proto) run" where
  "try_tiny p = Inr (ips_scbctrl_alloc_tiny p)"

definition try_pkts :: "nat \<Rightarrow> u32 \<Rightarrow> u32 \<Rightarrow> proto \<Rightarrow> (u64 list option \<times> proto) run" where
  "try_pkts npkts len flags p =
     run_bind (ips_scbctrl_alloc npkts len flags [] p) (\<lambda>(ss, p). Inr (if ss = [] then None else Some ss, p))"

text \<open>
  \<^verbatim>\<open>mq_alloc_tiny\<close> and \<^verbatim>\<open>mq_alloc_pkts\<close> with \<^verbatim>\<open>ips_poll_scb\<close>: the allocation is tried once before the loop. The callers use the
  result without a test, so NULL is an access through it.
\<close>

definition ips_poll_scb :: "ips_mq_ctx \<Rightarrow> (proto \<Rightarrow> ('r option \<times> proto) run) \<Rightarrow> proto \<Rightarrow> ('r option \<times> proto) run option" where
  "ips_poll_scb cx try_alloc p = alloc_blockuntil (poll_internal cx) try_alloc p"

definition mq_alloc :: "ips_mq_ctx \<Rightarrow> (proto \<Rightarrow> ('r option \<times> proto) run) \<Rightarrow> proto \<Rightarrow> ('r \<times> proto) run option" where
  "mq_alloc cx try_alloc p =
     map_option (\<lambda>res. run_bind res (\<lambda>(r, p). case r of None \<Rightarrow> Inl Undefined_Access | Some r \<Rightarrow> Inr (r, p)))
       (case try_alloc p of
          Inl x \<Rightarrow> Some (Inl x)
        | Inr (Some r, p) \<Rightarrow> Some (Inr (Some r, p))
        | Inr (None, p) \<Rightarrow> ips_poll_scb cx try_alloc p)"

definition mq_alloc_tiny :: "ips_mq_ctx \<Rightarrow> proto \<Rightarrow> (u64 \<times> proto) run option" where
  "mq_alloc_tiny cx p = mq_alloc cx try_tiny p"

definition mq_alloc_pkts :: "ips_mq_ctx \<Rightarrow> nat \<Rightarrow> u32 \<Rightarrow> u32 \<Rightarrow> proto \<Rightarrow> (u64 list \<times> proto) run option" where
  "mq_alloc_pkts cx npkts len flags p = mq_alloc cx (try_pkts npkts len flags) p"

text \<open>Sequencing of computations that may stop and may wait for ever.\<close>

definition wait_bind :: "'a run option \<Rightarrow> ('a \<Rightarrow> 'b run option) \<Rightarrow> 'b run option" where
  "wait_bind r f = (case r of None \<Rightarrow> None | Some (Inl x) \<Rightarrow> Some (Inl x) | Some (Inr a) \<Rightarrow> f a)"

lemma wait_bind_simps [simp]: "wait_bind None f = None" "wait_bind (Some (Inl x)) f = Some (Inl x)" "wait_bind (Some (Inr a)) f = f a"
  by (simp_all add: wait_bind_def)

section \<open>Completion\<close>

definition CB_EAGER_COMPLETE :: nat where "CB_EAGER_COMPLETE = 1"
definition CB_RV_COMPLETE :: nat where "CB_RV_COMPLETE = 2"

definition ips_proto_mq_eager_complete :: "u64 \<Rightarrow> psm_mq \<Rightarrow> psm_mq" where
  "ips_proto_mq_eager_complete req mq = completed_append req (upd_req req (\<lambda>q. q\<lparr>req_state := MQ_STATE_COMPLETE\<rparr>) mq)"

definition ips_proto_mq_rv_complete :: "u64 \<Rightarrow> psm_mq \<Rightarrow> psm_mq" where
  "ips_proto_mq_rv_complete req mq = psmi_mq_handle_rts_complete req mq"

definition mq_completion :: "nat \<Rightarrow> u64 \<Rightarrow> mq_world \<Rightarrow> mq_world" where
  "mq_completion cb req w =
     (if cb = CB_EAGER_COMPLETE then w\<lparr>wmq := ips_proto_mq_eager_complete req (wmq w)\<rparr>
      else if cb = CB_RV_COMPLETE then w\<lparr>wmq := ips_proto_mq_rv_complete req (wmq w)\<rparr> else w)"

section \<open>Envelopes and payload\<close>

definition ips_recv_progress_if_busy :: "ips_mq_ctx \<Rightarrow> psm_error \<Rightarrow> proto \<Rightarrow> (psm_error \<times> proto) run" where
  "ips_recv_progress_if_busy cx err p =
     (if err = PSM_EP_NO_RESOURCES then run_bind (ep_poll cx p) (\<lambda>(_, p). Inr (PSM_OK, p)) else Inr (err, p))"

definition flush_err :: "ips_mq_ctx \<Rightarrow> flowp \<Rightarrow> proto \<Rightarrow> (psm_error \<times> proto) run" where
  "flush_err cx fl p = run_bind (flow_flush (cx_env cx) fl p) (\<lambda>(err, _, p). Inr (err, p))"

definition ips_mq_send_envelope :: "ips_mq_ctx \<Rightarrow> nat \<Rightarrow> u64 \<Rightarrow> bool \<Rightarrow> proto \<Rightarrow> (psm_error \<times> proto) run" where
  "ips_mq_send_envelope cx i s do_flush p =
     (let sdma = proto_flags p AND IPS_PROTO_FLAG_MQ_ENVELOPE_SDMA \<noteq> 0;
          fl = Ep_flow i (if sdma then EP_FLOW_GO_BACK_N_DMA else EP_FLOW_GO_BACK_N_PIO);
          p = (if sdma \<and> payload_size (scbs p s) \<noteq> 0
               then upd_scb s (\<lambda>x. x\<lparr>scb_flags := scb_flags x OR IPS_SEND_FLAG_WAIT_SDMA\<rparr>) p else p);
          p = ips_proto_flow_enqueue (cx_env cx) fl s p
      in run_bind (if transfer (flows p fl) = PSM_TRANSFER_PIO \<or> transfer (flows p fl) = PSM_TRANSFER_DMA \<and> do_flush
                   then flush_err cx fl p else Inr (PSM_OK, p)) (\<lambda>(err, p).
         run_bind (if do_flush then ips_recv_progress_if_busy cx err p else Inr (err, p)) (\<lambda>(err, p).
           Inr (if err = PSM_EP_NO_RESOURCES \<or> err = PSM_OK_NO_PROGRESS then PSM_OK else err, p))))"

text \<open>
  One packet of \<^verbatim>\<open>ips_mq_send_payload\<close>. A request is there exactly for the non-blocking send (\<open>req \<noteq> 0\<close>); the blocking one copies
  into the block's bounce buffer.
\<close>

definition payload_pktlen :: "ips_mq_ctx \<Rightarrow> flowp \<Rightarrow> bool \<Rightarrow> u64 \<Rightarrow> u32 \<Rightarrow> proto \<Rightarrow> u32" where
  "payload_pktlen cx fl is_blocking buf nbytes_left p =
     (let pktlen = min (ucast (ucast (frag_size cx fl) :: u16)) nbytes_left
      in if transfer (flows p fl) = PSM_TRANSFER_DMA \<and> \<not> is_blocking
         then ucast (min (ucast pktlen) (pagesize cx - (buf AND (pagesize cx - 1)))) else pktlen)"

definition payload_packet :: "ips_mq_ctx \<Rightarrow> flowp \<Rightarrow> u32 \<Rightarrow> u64 \<Rightarrow> u32 \<Rightarrow> u64 \<Rightarrow> u64 \<Rightarrow> u32 \<Rightarrow> proto \<Rightarrow> (u32 \<times> proto) run" where
  "payload_packet cx fl egr req flags s buf nbytes_left p =
     (let is_blocking = (req = 0); pktlen = payload_pktlen cx fl is_blocking buf nbytes_left p;
          p = upd_scb s (\<lambda>x. x\<lparr>payload_size := pktlen, lrh_mqhdr := Ips_Recv.MQ_MSG_DATA,
                lrh_data := (fst (lrh_data x), set_lo32 egr (snd (lrh_data x))), lrh_sub_opcode := OPCODE_SEQ_MQ_CTRL\<rparr>) p;
          nbytes_left = nbytes_left - pktlen
      in run_bind (if \<not> is_blocking then Inr ((), upd_scb s (\<lambda>x. x\<lparr>payload := buf\<rparr>) p)
                   else in_mq (\<lambda>mq. run_bind (mq_mtucpy (payload (scbs p s)) buf pktlen mq) (\<lambda>mq. Inr ((), mq))) p) (\<lambda>(_, p).
           let p = (if nbytes_left = 0
                    then upd_scb s (\<lambda>x. x\<lparr>scb_flags := scb_flags x OR IPS_SEND_FLAG_ACK_REQ\<rparr>)
                      (if \<not> is_blocking then upd_scb s (\<lambda>x. x\<lparr>scb_callback := Some CB_EAGER_COMPLETE, cb_param := req\<rparr>) p else p)
                    else p);
               p = ips_proto_flow_enqueue (cx_env cx) fl s p
           in if flags AND IPS_PROTO_FLAG_MQ_EAGER_SDMA \<noteq> 0
              then Inr (pktlen, upd_scb s (\<lambda>x. x\<lparr>scb_flags := scb_flags x OR IPS_SEND_FLAG_WAIT_SDMA\<rparr>) p)
              else run_bind (flush_err cx fl p) (\<lambda>(err, p). run_bind (ips_recv_progress_if_busy cx err p) (\<lambda>(_, p). Inr (pktlen, p)))))"

fun payload_chain :: "ips_mq_ctx \<Rightarrow> flowp \<Rightarrow> u32 \<Rightarrow> u64 \<Rightarrow> u32 \<Rightarrow> u64 list \<Rightarrow> u64 \<Rightarrow> u32 \<Rightarrow> proto \<Rightarrow> (u64 \<times> u32 \<times> proto) run" where
  "payload_chain cx fl egr req flags [] buf nbytes_left p = Inr (buf, nbytes_left, p)"
| "payload_chain cx fl egr req flags (s # rest) buf nbytes_left p =
     run_bind (payload_packet cx fl egr req flags s buf nbytes_left p) (\<lambda>(pktlen, p).
       payload_chain cx fl egr req flags rest (buf + ucast pktlen) (nbytes_left - pktlen) p)"

partial_function (option) payload_loop ::
  "ips_mq_ctx \<Rightarrow> flowp \<Rightarrow> u32 \<Rightarrow> u64 \<Rightarrow> u32 \<Rightarrow> u64 \<Rightarrow> u32 \<Rightarrow> proto \<Rightarrow> proto run option" where
  "payload_loop cx fl egr req flags buf nbytes_left p =
     (case MQ_NUM_MTUS nbytes_left (ucast (frag_size cx fl)) of
        None \<Rightarrow> Some (Inl Undefined_Access)
      | Some npkts \<Rightarrow>
          (case mq_alloc_pkts cx npkts nbytes_left (if req = 0 then IPS_SCB_FLAG_ADD_BUFFER else 0) p of
             None \<Rightarrow> None
           | Some (Inl x) \<Rightarrow> Some (Inl x)
           | Some (Inr (ss, p)) \<Rightarrow>
               (case payload_chain cx fl egr req flags ss buf nbytes_left p of
                  Inl x \<Rightarrow> Some (Inl x)
                | Inr (buf, nbytes_left, p) \<Rightarrow>
                    (case (if flags AND IPS_PROTO_FLAG_MQ_EAGER_SDMA \<noteq> 0
                           then run_bind (flush_err cx fl p) (\<lambda>(err, p).
                                  if err = PSM_EP_NO_RESOURCES \<or> err = PSM_OK_NO_PROGRESS
                                  then ips_recv_progress_if_busy cx PSM_EP_NO_RESOURCES p else Inr (err, p))
                           else Inr (PSM_OK, p)) of
                       Inl x \<Rightarrow> Some (Inl x)
                     | Inr (_, p) \<Rightarrow> if nbytes_left \<noteq> 0 then payload_loop cx fl egr req flags buf nbytes_left p else Some (Inr p)))))"

definition ips_mq_send_payload ::
  "ips_mq_ctx \<Rightarrow> nat \<Rightarrow> u32 \<Rightarrow> u64 \<Rightarrow> u32 \<Rightarrow> u64 \<Rightarrow> u32 \<Rightarrow> proto \<Rightarrow> proto run option" where
  "ips_mq_send_payload cx i egr ubuf len req flags p =
     payload_loop cx (Ep_flow i (if flags AND IPS_PROTO_FLAG_MQ_EAGER_SDMA \<noteq> 0 then EP_FLOW_GO_BACK_N_DMA else EP_FLOW_GO_BACK_N_PIO))
       egr req flags ubuf len p"

section \<open>Sending\<close>

definition ips_shortcpy :: "u64 \<Rightarrow> u64 \<Rightarrow> u32 \<Rightarrow> mem \<Rightarrow> mem" where
  "ips_shortcpy dest src nchars m =
     (let m = (if drop_bit 2 nchars \<noteq> 0 then ipath_dwordcpy dest src (unat (drop_bit 2 nchars)) m else m);
          off = ucast (push_bit 2 (drop_bit 2 nchars))
      in byte_loop (unat (nchars AND 3)) (dest + off) (src + off) m)"

definition mq_shortcpy :: "u64 \<Rightarrow> u64 \<Rightarrow> u32 \<Rightarrow> proto \<Rightarrow> proto run" where
  "mq_shortcpy dest src n p =
     (if n \<noteq> 0 \<and> (dest = 0 \<or> src = 0) then Inl Undefined_Access
      else Inr (upd_mq (\<lambda>mq. mq\<lparr>mq_mem := ips_shortcpy dest src n (mq_mem mq)\<rparr>) p))"

text \<open>\<^verbatim>\<open>mq_copy_tiny\<close> into the argument of the header: its first \<open>n\<close> bytes come from memory, the others stay.\<close>

definition tiny_byte :: "mem \<Rightarrow> u64 \<Rightarrow> nat \<Rightarrow> u64 \<Rightarrow> u64" where
  "tiny_byte m src i d = (d AND NOT (push_bit (8 * i) 0xFF)) OR push_bit (8 * i) (ucast (m (src + of_nat i)))"

definition tiny_param :: "mem \<Rightarrow> u64 \<Rightarrow> nat \<Rightarrow> u64 \<Rightarrow> u64" where
  "tiny_param m src n d = fold (tiny_byte m src) [0..<n] d"

definition tx_account :: "u32 \<Rightarrow> proto \<Rightarrow> proto" where
  "tx_account len p = upd_mq (\<lambda>mq. mq\<lparr>stats := (stats mq)\<lparr>tx_num := tx_num (stats mq) + 1, tx_eager_num := tx_eager_num (stats mq) + 1,
     tx_eager_bytes := tx_eager_bytes (stats mq) + ucast len\<rparr>\<rparr>) p"

text \<open>The tiny and the short message, common to the two sends.\<close>

definition send_tiny :: "ips_mq_ctx \<Rightarrow> nat \<Rightarrow> u64 \<Rightarrow> u64 \<Rightarrow> u32 \<Rightarrow> proto \<Rightarrow> (psm_error \<times> proto) run option" where
  "send_tiny cx i tag buf len p =
     wait_bind (mq_alloc_tiny cx p) (\<lambda>(s, p).
       if len \<noteq> 0 \<and> buf = 0 then Some (Inl Undefined_Access)
       else let p = upd_scb s (\<lambda>x. x\<lparr>lrh_sub_opcode := OPCODE_SEQ_MQ_HDR, lrh_hdr_dlen := ucast len, lrh_mqhdr := Ips_Recv.MQ_MSG_TINY,
                      lrh_data := (tag, tiny_param (mq_mem (mq_of p)) buf (unat len) (snd (lrh_data x)))\<rparr>) p
         in Some (ips_mq_send_envelope cx i s True p))"

definition pad_write_bytes :: "ips_mq_ctx \<Rightarrow> nat \<Rightarrow> u32 \<Rightarrow> proto \<Rightarrow> u32" where
  "pad_write_bytes cx i len p =
     (let cksum_len = (if proto_flags p AND IPS_PROTO_FLAG_CKSUM \<noteq> 0 then PSM_CRC_SIZE_IN_BYTES else 0);
          pad = (PSM_CACHE_LINE_BYTES - ((len + cksum_len) AND (PSM_CACHE_LINE_BYTES - 1))) AND (PSM_CACHE_LINE_BYTES - 1)
      in if pad + len > ucast (epr_piosize cx i) then 0 else pad)"

definition send_short :: "ips_mq_ctx \<Rightarrow> nat \<Rightarrow> u64 \<Rightarrow> u64 \<Rightarrow> u32 \<Rightarrow> proto \<Rightarrow> (psm_error \<times> proto) run option" where
  "send_short cx i tag buf len p =
     (let pad = pad_write_bytes cx i len p
      in wait_bind (mq_alloc_pkts cx 1 (len + pad) IPS_SCB_FLAG_ADD_BUFFER p) (\<lambda>(ss, p).
           let s = hd ss;
               p = upd_scb s (\<lambda>x. x\<lparr>lrh_sub_opcode := OPCODE_SEQ_MQ_CTRL, lrh_hdr_dlen := ucast pad, payload_size := len + pad,
                     lrh_mqhdr := Ips_Recv.MQ_MSG_SHORT, lrh_data := (tag, snd (lrh_data x))\<rparr>) p
           in Some (run_bind (mq_shortcpy (payload (scbs p s)) buf len p) (\<lambda>p. ips_mq_send_envelope cx i s True p))))"

text \<open>
  The eager message in several packets. The first packet holds what is left of the message when the others are full, or up to
  the end of the page.
\<close>

definition long_first :: "ips_mq_ctx \<Rightarrow> nat \<Rightarrow> bool \<Rightarrow> u64 \<Rightarrow> u32 \<Rightarrow> u32" where
  "long_first cx i pio buf len =
     (let piosize = ucast (epr_piosize cx i)
      in if pio then if len \<le> 2 * piosize then len - ((drop_bit 1 len + 3) AND NOT 3) else min len piosize
         else let pktlen = ucast (pagesize cx - (buf AND (pagesize cx - 1))) in if pktlen > piosize then 0 else pktlen)"

definition send_long ::
  "ips_mq_ctx \<Rightarrow> nat \<Rightarrow> u32 \<Rightarrow> u64 \<Rightarrow> u64 \<Rightarrow> u32 \<Rightarrow> u64 \<Rightarrow> proto \<Rightarrow> (psm_error \<times> proto) run option" where
  "send_long cx i thresh tag buf len req p =
     (let pio = (len < thresh);
          pflags = proto_flags p AND IPS_PROTO_FLAG_MQ_MASK;
          pflags = (if pio then pflags AND NOT IPS_PROTO_FLAG_MQ_EAGER_SDMA else pflags);
          pktlen = long_first cx i pio buf len
      in wait_bind (if req \<noteq> 0 then mq_alloc_pkts cx 1 0 0 p else mq_alloc_pkts cx 1 pktlen IPS_SCB_FLAG_ADD_BUFFER p) (\<lambda>(ss, p).
           let s = hd ss;
               p = upd_scb s (\<lambda>x. x\<lparr>lrh_sub_opcode := OPCODE_SEQ_MQ_CTRL, payload_size := pktlen, lrh_mqhdr := Ips_Recv.MQ_MSG_LONG,
                     lrh_data := (tag, set_lo32 len (snd (lrh_data x)))\<rparr>) p;
               fl = Ep_flow i (if pflags AND IPS_PROTO_FLAG_MQ_EAGER_SDMA \<noteq> 0 then EP_FLOW_GO_BACK_N_DMA else EP_FLOW_GO_BACK_N_PIO)
           in wait_bind (Some (if req \<noteq> 0 then Inr (upd_scb s (\<lambda>x. x\<lparr>payload := buf\<rparr>) p)
                              else mq_shortcpy (payload (scbs p s)) buf pktlen p)) (\<lambda>p.
                let egr = egr_data (ips_flow.egr_flowid (flows p fl)) (ips_flow.egr_msgno (flows p fl));
                    p = upd_scb s (\<lambda>x. x\<lparr>lrh_data := (fst (lrh_data x), set_hi32 egr (snd (lrh_data x)))\<rparr>) p;
                    p = upd_flow fl (\<lambda>f. f\<lparr>ips_flow.egr_msgno := ips_flow.egr_msgno f + 1\<rparr>) p
                in wait_bind (Some (ips_mq_send_envelope cx i s False p)) (\<lambda>(err, p).
                     wait_bind (ips_mq_send_payload cx i egr (buf + ucast pktlen) (len - pktlen) req pflags p) (\<lambda>p.
                       Some (Inr (err, p)))))))"

text \<open>The rendezvous: only the envelope is sent, with the index of the request.\<close>

definition ips_ptl_mq_rndv :: "ips_mq_ctx \<Rightarrow> nat \<Rightarrow> u64 \<Rightarrow> u64 \<Rightarrow> u32 \<Rightarrow> proto \<Rightarrow> (psm_error \<times> proto) run option" where
  "ips_ptl_mq_rndv cx i req buf len p =
     (let p = set_req req (\<lambda>q. q\<lparr>req_buf := buf, req_buf_len := len, send_msglen := len, send_msgoff := 0, recv_msgoff := 0,
                rts_peer := epaddr_of cx i\<rparr>) p
      in wait_bind (mq_alloc_tiny cx p) (\<lambda>(s, p).
           let r = reqs (mq_of p) req;
               p = upd_scb s (\<lambda>x. x\<lparr>lrh_mqhdr := (if protoexp cx
                       then if req_type r AND MQE_TYPE_WAITING \<noteq> 0 then Ips_Recv.MQ_MSG_RTS_WAIT else Ips_Recv.MQ_MSG_RTS
                       else Ips_Recv.MQ_MSG_RTS_EGR),
                     lrh_sub_opcode := OPCODE_SEQ_MQ_CTRL, scb_flags := scb_flags x OR IPS_SEND_FLAG_ACK_REQ,
                     lrh_data := (req_tag r, set_hi32 len (set_lo32 (psmi_mpool_get_obj_index req (sreq_pool (mq_of p))) (snd (lrh_data x))))\<rparr>) p
           in wait_bind (Some (ips_mq_send_envelope cx i s True p)) (\<lambda>(err, p).
                if err \<noteq> PSM_OK then Some (Inr (err, p))
                else wait_bind (Some (poll_internal cx p)) (\<lambda>(_, p). Some (Inr (err, p))))))"

definition ips_proto_mq_isend ::
  "ips_mq_ctx \<Rightarrow> u64 \<Rightarrow> u32 \<Rightarrow> u64 \<Rightarrow> u64 \<Rightarrow> u32 \<Rightarrow> u64 \<Rightarrow> proto \<Rightarrow> (psm_error \<times> u64 \<times> proto) run option" where
  "ips_proto_mq_isend cx epaddr flags tag ubuf len ctx p =
     (let i = ptladdr cx epaddr in wait_bind (Some (in_mq (psmi_mq_req_alloc (req_env cx) MQE_TYPE_SEND) p)) (\<lambda>(req, p).
       if req = 0 then Some (Inr (PSM_NO_MEMORY, 0, p))
       else let p = set_req req (\<lambda>q. q\<lparr>send_msglen := len, req_tag := tag, req_context := ctx\<rparr>) p;
                done = (\<lambda>p. upd_mq (completed_append req) (set_req req (\<lambda>q. q\<lparr>req_state := MQ_STATE_COMPLETE\<rparr>) p))
         in if flags = 0 \<and> len \<le> MQ_IPATH_THRESH_TINY
            then wait_bind (send_tiny cx i tag ubuf len p) (\<lambda>(err, p). Some (Inr (err, req, tx_account len (done p))))
            else if flags AND PSM_MQ_FLAG_SENDSYNC \<noteq> 0
            then wait_bind (ips_ptl_mq_rndv cx i req ubuf len p) (\<lambda>(err, p). Some (Inr (err, req, p)))
            else if len \<le> ucast (epr_piosize cx i)
            then wait_bind (send_short cx i tag ubuf len p) (\<lambda>(err, p). Some (Inr (err, req, tx_account len (done p))))
            else if len \<le> ipath_thresh_rv (mq_of p)
            then let p = set_req req (\<lambda>q. q\<lparr>req_buf := ubuf, req_buf_len := len\<rparr>) p
              in wait_bind (send_long cx i (iovec_thresh_eager cx) tag ubuf len req p) (\<lambda>(err, p). Some (Inr (err, req, tx_account len p)))
            else wait_bind (ips_ptl_mq_rndv cx i req ubuf len p) (\<lambda>(err, p). Some (Inr (err, req, p)))))"

text \<open>
  \<^verbatim>\<open>psmi_mq_wait_internal\<close> for a request of this transport, which leaves no callback in it; the progress engine acts on the whole
  protocol object.
\<close>

definition mq_wait_internal :: "ips_mq_ctx \<Rightarrow> u64 \<Rightarrow> proto \<Rightarrow> proto run option" where
  "mq_wait_internal cx req p =
     (if req_state (reqs (mq_of p) req) \<noteq> MQ_STATE_COMPLETE
      then let p = set_req req (\<lambda>q. q\<lparr>req_type := req_type q OR MQE_TYPE_WAITING\<rparr>) p
        in if testwait_callback (reqs (mq_of p) req) \<noteq> None then Some (Inl Undefined_Access)
           else wait_bind (alloc_blockuntil (poll_internal cx)
                  (\<lambda>p. Inr (if req_state (reqs (mq_of p) req) = MQ_STATE_COMPLETE then Some () else None, p)) p) (\<lambda>(ok, p).
                Some (Inr (if ok = None then p else upd_mq (\<lambda>mq. snd (snd (snd (mq_retire False req mq)))) p)))
      else Some (Inr (upd_mq (\<lambda>mq. snd (snd (snd (mq_retire False req mq)))) p)))"

definition rndv_send :: "ips_mq_ctx \<Rightarrow> nat \<Rightarrow> u64 \<Rightarrow> u64 \<Rightarrow> u32 \<Rightarrow> proto \<Rightarrow> (psm_error \<times> proto) run option" where
  "rndv_send cx i tag ubuf len p =
     wait_bind (alloc_blockuntil (poll_internal cx)
         (\<lambda>p. run_bind (in_mq (psmi_mq_req_alloc (req_env cx) MQE_TYPE_SEND) p) (\<lambda>(r, p). Inr (if r = 0 then None else Some r, p))) p) (\<lambda>(r, p).
       case r of
         None \<Rightarrow> Some (Inl Undefined_Access)
       | Some req \<Rightarrow>
           let p = set_req req (\<lambda>q. q\<lparr>req_type := req_type q OR MQE_TYPE_WAITING, req_tag := tag\<rparr>) p
           in wait_bind (ips_ptl_mq_rndv cx i req ubuf len p) (\<lambda>(err, p).
                if err \<noteq> PSM_OK then Some (Inr (err, p))
                else wait_bind (mq_wait_internal cx req p) (\<lambda>p. Some (Inr (err, p)))))"

definition ips_proto_mq_send ::
  "ips_mq_ctx \<Rightarrow> u64 \<Rightarrow> u32 \<Rightarrow> u64 \<Rightarrow> u64 \<Rightarrow> u32 \<Rightarrow> proto \<Rightarrow> (psm_error \<times> proto) run option" where
  "ips_proto_mq_send cx epaddr flags tag ubuf len p =
     (let i = ptladdr cx epaddr
      in if flags = 0 \<and> len \<le> MQ_IPATH_THRESH_TINY
         then wait_bind (send_tiny cx i tag ubuf len p) (\<lambda>(err, p). Some (Inr (err, tx_account len p)))
         else if flags AND PSM_MQ_FLAG_SENDSYNC \<noteq> 0 then rndv_send cx i tag ubuf len p
         else if len \<le> ucast (epr_piosize cx i)
         then wait_bind (send_short cx i tag ubuf len p) (\<lambda>(err, p). Some (Inr (err, tx_account len p)))
         else if len \<le> ipath_thresh_rv (mq_of p)
         then wait_bind (send_long cx i (iovec_thresh_eager_blocking cx) tag ubuf len 0 p) (\<lambda>(err, p). Some (Inr (err, tx_account len p)))
         else rndv_send cx i tag ubuf len p)"

section \<open>Rendezvous\<close>

text \<open>\<^verbatim>\<open>ips_scbctrl_alloc\<close> on \<^verbatim>\<open>scbc_rv\<close>.\<close>

definition rv_scbctrl_alloc :: "nat \<Rightarrow> u32 \<Rightarrow> u32 \<Rightarrow> proto \<Rightarrow> (u64 list \<times> proto) run" where
  "rv_scbctrl_alloc n len flags p =
     run_bind (ips_scbctrl_alloc n len flags [] ((scbc_rv (app p))\<lparr>scbs := scbs p\<rparr>)) (\<lambda>(ss, c).
       Inr (ss, p\<lparr>scbs := scbs c, app := (app p)\<lparr>scbc_rv := c\<rparr>\<rparr>))"

definition pend_timer_request :: "proto \<Rightarrow> proto" where
  "pend_timer_request p = p\<lparr>app := (app p)\<lparr>pend_timer := timer_request 1 (pend_timer (app p))\<rparr>\<rparr>"

text \<open>A pending send is appended to the queue and the timer of the queue is requested with priority 1.\<close>

definition pend_append :: "ips_mq_ctx \<Rightarrow> pendsend_type \<Rightarrow> u64 \<Rightarrow> proto \<Rightarrow> proto run" where
  "pend_append cx type req p =
     run_bind (psmi_mpool_get (sreq_chunk cx) (pend_sends_pool (app p))) (\<lambda>(sreq, mp).
       case sreq of
         None \<Rightarrow> Inl Undefined_Access
       | Some sreq \<Rightarrow> Inr (pend_timer_request (p\<lparr>app := (app p)\<lparr>pend_sends_pool := mp,
           pend_sreq := (pend_sreq (app p))(sreq := (type, req)), pendq := pendq (app p) @ [sreq]\<rparr>\<rparr>)))"

definition ips_proto_mq_rts_match_callback :: "ips_mq_ctx \<Rightarrow> u64 \<Rightarrow> bool \<Rightarrow> proto \<Rightarrow> proto run" where
  "ips_proto_mq_rts_match_callback cx req was_posted p =
     (let p = set_req req (\<lambda>q. q\<lparr>recv_msgoff := 0\<rparr>) p
      in if \<not> protoexp cx then pend_append cx IPS_PENDSEND_EAGER_REQ req p else tid_get_from_token cx req p)"

definition ips_proto_mq_handle_rts_envelope :: "ips_mq_ctx \<Rightarrow> u16 \<Rightarrow> nat \<Rightarrow> u64 \<Rightarrow> u32 \<Rightarrow> u32 \<Rightarrow> proto \<Rightarrow> proto run" where
  "ips_proto_mq_handle_rts_envelope cx mode i tag reqidx_peer msglen p =
     run_bind (psmi_mq_handle_rts (req_env cx) tag 0 msglen (epaddr_of cx i) (Some 0) (mq_of p)) (\<lambda>(rc, req, mq).
       let p = p\<lparr>app := (app p)\<lparr>wmq := mq\<rparr>\<rparr>;
           p = set_req req (\<lambda>q. q\<lparr>rts_reqidx_peer := reqidx_peer,
                 req_type := (if mode = Ips_Recv.MQ_MSG_RTS_WAIT then req_type q OR MQE_TYPE_WAITING_PEER else req_type q)\<rparr>) p
       in if rc = MQ_RET_MATCH_OK then ips_proto_mq_rts_match_callback cx req True p else Inr p)"

definition ips_proto_mq_push_eager_req :: "ips_mq_ctx \<Rightarrow> u64 \<Rightarrow> proto \<Rightarrow> (psm_error \<times> proto) run" where
  "ips_proto_mq_push_eager_req cx req p =
     run_bind (ips_scbctrl_alloc 1 0 0 [] p) (\<lambda>(ss, p).
       case ss of
         [] \<Rightarrow> Inr (PSM_OK_NO_PROGRESS, p)
       | s # _ \<Rightarrow>
           let r = reqs (mq_of p) req; fl = Ep_flow (ptladdr cx (rts_peer r)) EP_FLOW_GO_BACK_N_PIO;
               p = upd_scb s (\<lambda>x. x\<lparr>lrh_data := (set_hi32 (psmi_mpool_get_obj_index req (rreq_pool (mq_of p)))
                       (set_lo32 (rts_reqidx_peer r) (fst (lrh_data x))), set_lo32 (recv_msglen r) (snd (lrh_data x))),
                     lrh_sub_opcode := OPCODE_SEQ_MQ_CTRL, lrh_mqhdr := Ips_Recv.MQ_MSG_CTS_EGR\<rparr>) p;
               p = (if recv_msglen r = 0 then upd_scb s (\<lambda>x. x\<lparr>scb_callback := Some CB_RV_COMPLETE, cb_param := req\<rparr>) p else p);
               p = ips_proto_flow_enqueue (cx_env cx) fl s p
           in run_bind (flush_err cx fl p) (\<lambda>(_, p). Inr (PSM_OK, p)))"

text \<open>One round of the loop of \<^verbatim>\<open>ips_proto_mq_push_eager_data\<close>; \<open>None\<close> is running out of control blocks.\<close>

definition push_data_frame :: "ips_mq_ctx \<Rightarrow> u64 \<Rightarrow> u32 \<Rightarrow> proto \<Rightarrow> (u32 option \<times> proto) run" where
  "push_data_frame cx req nbytes_left p =
     run_bind (rv_scbctrl_alloc 1 0 0 p) (\<lambda>(ss, p).
       case ss of
         [] \<Rightarrow> Inr (None, p)
       | s # _ \<Rightarrow>
           let r = reqs (mq_of p) req; i = ptladdr cx (rts_peer r); fl = Ep_flow i EP_FLOW_GO_BACK_N_PIO;
               nbytes_this = min nbytes_left (ucast (epr_piosize cx i));
               p = upd_scb s (\<lambda>x. x\<lparr>payload_size := nbytes_this, lrh_sub_opcode := OPCODE_SEQ_MQ_CTRL,
                     lrh_mqhdr := Ips_Recv.MQ_MSG_DATA_REQ, payload := req_buf r + ucast (send_msgoff r),
                     lrh_data := (set_hi32 (send_msgoff r) (set_lo32 (rts_reqidx_peer r) (fst (lrh_data x))), snd (lrh_data x))\<rparr>) p;
               p = (if nbytes_left = nbytes_this
                    then upd_scb s (\<lambda>x. x\<lparr>scb_callback := Some CB_RV_COMPLETE, cb_param := req,
                           scb_flags := scb_flags x OR IPS_SEND_FLAG_ACK_REQ\<rparr>) p else p);
               p = ips_proto_flow_enqueue (cx_env cx) fl s p
           in run_bind (flush_err cx fl p) (\<lambda>(_, p).
                Inr (Some nbytes_this, set_req req (\<lambda>q. q\<lparr>send_msgoff := send_msgoff q + nbytes_this\<rparr>) p)))"

section \<open>What a flush and a queued frame leave alone\<close>

lemma flush_pio_loop_view: "tx_view fl (snd (snd (flush_pio_loop e fl n p))) = tx_view fl p"
proof (induction e fl n p rule: flush_pio_loop.induct)
  case (1 e fl n p)
  show ?case
  proof (cases "scb_pend (flows p fl)")
    case None
    then show ?thesis by (subst flush_pio_loop.simps) simp
  next
    case (Some s)
    let ?r = "ips_spio_transfer_frame e fl (hdr_of (scbs p s)) p"
    show ?thesis
    proof (cases "credits (flows p fl) \<noteq> 0 \<and> fst ?r = PSM_OK")
      case True
      have "flush_pio_loop e fl n p = flush_pio_loop e fl (Suc n) (flush_pio_sent e fl s (snd ?r))"
        using Some True by (subst flush_pio_loop.simps) (simp add: Let_def)
      then show ?thesis using 1 [OF Some _ refl] True by simp
    next
      case False
      then show ?thesis using Some by (subst flush_pio_loop.simps) (auto simp: Let_def)
    qed
  qed
qed

lemma flush_pio_view: "tx_view fl (snd (snd (ips_proto_flow_flush_pio e fl p))) = tx_view fl p"
  using flush_pio_loop_view [of fl e 0 p]
  by (auto simp: ips_proto_flow_flush_pio_def get_cycles_def Let_def split: prod.split)

lemma flush_dma_view:
  assumes "ips_proto_flow_flush_dma e fl p = Inr (err, k, p')"
  shows "tx_view fl p' = tx_view fl p"
proof -
  have s: "tx_view fl q' = tx_view fl q" if "flush_dma_sent e fl n q = Inr q'" for n q q'
    using that by (auto simp: flush_dma_sent_def get_cycles_def Let_def dma_account_def split: if_splits dest!: dma_wait_frame(1) [where fl = fl])
  show ?thesis using assms
    by (auto simp: ips_proto_flow_flush_dma_def Let_def flush_dma_timers_frame split: if_splits prod.splits dest!: s)
qed

lemma flow_flush_view: "flow_flush e fl p = Inr (err, k, p') \<Longrightarrow> tx_view fl p' = tx_view fl p"
  using flush_pio_view [of fl e p] by (auto simp: flow_flush_def split: psm_transfer_type.splits dest: flush_dma_view)

lemma flush_err_view: "flush_err cx fl p = Inr (err, p') \<Longrightarrow> tx_view fl p' = tx_view fl p"
  by (auto simp: flush_err_def dest: flow_flush_view)

lemma tx_view_free: "tx_view fl p' = tx_view fl p \<Longrightarrow> scb_free p' = scb_free p"
proof -
  assume "tx_view fl p' = tx_view fl p"
  then have "scb_free (tx_view fl p') = scb_free (tx_view fl p)" by simp
  then show ?thesis by (simp add: tx_view_def)
qed

lemma enqueue_frame:
  fixes e :: "'w ips_env" and p :: "'w ips_proto" and s :: u64
  assumes "protocol (flows p fl) \<noteq> PSM_PROTOCOL_TIDFLOW"
  defines "p' \<equiv> ips_proto_flow_enqueue e fl s p"
  shows "p' = p\<lparr>scbs := (scbs p)(s := scbs p' s), flows := (flows p)(fl := flows p' fl)\<rparr>"
    "scb_prepared (xmit_seq_num (flows p fl)) (recv_seq_num (flows p fl)) (scbs p s) (scbs p' s)"
    "flows p' fl = flows p fl\<lparr>xmit_seq_num := xmit_seq_num (flows p fl) + 1, scb_unacked := scb_unacked (flows p fl) @ [s],
       scb_num_pending := scb_num_pending (flows p fl) + 1, scb_num_unacked := scb_num_unacked (flows p fl) + 1,
       scb_pend := (if scb_pend (flows p fl) = None then Some s else scb_pend (flows p fl))\<rparr>"
proof -
  let ?f = "flows p fl"
  obtain g where g: "ips_scb_prepare_flow_inner s fl p = upd_flow fl (\<lambda>f. f\<lparr>xmit_seq_num :=
           (if protocol f = PSM_PROTOCOL_TIDFLOW then sn_set_seq (sn_seq (xmit_seq_num f) + 1) (xmit_seq_num f)
            else xmit_seq_num f + 1)\<rparr>) (upd_scb s g p)"
    "scb_prepared (xmit_seq_num ?f) (recv_seq_num ?f) (scbs p s) (g (scbs p s))" by (rule prepare_eq [of s fl p]) blast
  define C where "C x = (if proto_flags p AND IPS_PROTO_FLAG_CKSUM \<noteq> 0 \<and> scb_tid (g x) = IPATH_EAGER_TID_ID
    then (g x)\<lparr>scb_cksum := crc e (g x)\<rparr> else g x)" for x
  have eq: "p' = upd_flow fl (\<lambda>f. flows p' fl) (upd_scb s C p)" and f: "flows p' fl = ?f\<lparr>xmit_seq_num := xmit_seq_num ?f + 1,
      scb_unacked := scb_unacked ?f @ [s], scb_num_pending := scb_num_pending ?f + 1,
      scb_num_unacked := scb_num_unacked ?f + 1, scb_pend := (if scb_pend ?f = None then Some s else scb_pend ?f)\<rparr>"
    unfolding p'_def ips_proto_flow_enqueue_def g(1) Let_def ips_do_cksum_def upd_scb_flow upd_flow_twice upd_scb_twice
    using assms(1) by (cases "scb_pend ?f"; simp add: upd_flow_def upd_scb_def C_def [abs_def])+
  have sc: "scbs p' = (scbs p)(s := C (scbs p s))" using arg_cong [OF eq, of scbs] by (simp add: upd_scb_def)
  then have X: "scbs p' s = C (scbs p s)" by simp
  show "p' = p\<lparr>scbs := (scbs p)(s := scbs p' s), flows := (flows p)(fl := flows p' fl)\<rparr>"
    using eq unfolding X by (simp add: upd_flow_def upd_scb_def)
  show "scb_prepared (xmit_seq_num ?f) (recv_seq_num ?f) (scbs p s) (scbs p' s)"
    using g(2) unfolding X by (simp add: C_def scb_prepared_def)
  show "flows p' fl = ?f\<lparr>xmit_seq_num := xmit_seq_num ?f + 1, scb_unacked := scb_unacked ?f @ [s],
       scb_num_pending := scb_num_pending ?f + 1, scb_num_unacked := scb_num_unacked ?f + 1,
       scb_pend := (if scb_pend ?f = None then Some s else scb_pend ?f)\<rparr>" by (rule f)
qed

lemma enqueue_free: "scb_free (ips_proto_flow_enqueue e fl s p) = scb_free p"
proof -
  have g: "scb_free (upd_flow fl h q) = scb_free q" "scb_free (upd_scb r k q) = scb_free q" for h r k and q :: "'a ips_proto"
    by (simp_all add: upd_flow_def upd_scb_def)
  obtain k h where "ips_scb_prepare_flow_inner s fl p = upd_flow fl h (upd_scb s k p)"
    by (rule prepare_eq [of s fl p]) blast
  then show ?thesis by (simp add: ips_proto_flow_enqueue_def ips_do_cksum_def Let_def g)
qed

lemma enqueue_app: "app (ips_proto_flow_enqueue e fl s p) = app p"
proof -
  have g: "app (upd_flow fl h q) = app q" "app (upd_scb r k q) = app q" for h r k and q :: "'a ips_proto"
    by (simp_all add: upd_flow_def upd_scb_def)
  obtain k h where "ips_scb_prepare_flow_inner s fl p = upd_flow fl h (upd_scb s k p)"
    by (rule prepare_eq [of s fl p]) blast
  then show ?thesis by (simp add: ips_proto_flow_enqueue_def ips_do_cksum_def Let_def g)
qed

lemma tx_view_app: "tx_view fl p' = tx_view fl p \<Longrightarrow> app p' = app p"
proof -
  assume "tx_view fl p' = tx_view fl p"
  then have "app (tx_view fl p') = app (tx_view fl p)" by simp
  then show ?thesis by (simp add: tx_view_def)
qed

lemma alloc_one_free:
  assumes "ips_scbctrl_alloc 1 len flags [] p = Inr (s # ss, p')"
  shows "length (scb_free p') < length (scb_free p)"
proof -
  have k: "scb_free (upd_scb a f c) = scb_free c" for a f and c :: "'a ips_scbctrl_scheme" by (simp add: upd_scb_def)
  have at: "scb_free c' = scb_free c" if "scb_attach a l g c = Inr (ok, c')" for a l g ok and c c' :: "'a ips_scbctrl_scheme"
    using that by (auto simp: scb_attach_def ips_scbctrl_bufalloc_def Let_def k split: if_splits list.splits)
  have ac: "scb_free (scb_account a c) = scb_free c" for a and c :: "'a ips_scbctrl_scheme" by (simp add: scb_account_def Let_def k)
  show ?thesis using assms by (auto simp: Let_def k ac split: list.splits if_splits dest!: at)
qed

lemma push_data_frame_free:
  assumes "push_data_frame cx req n p = Inr (Some k, p')"
  shows "length (rv_free p') < length (rv_free p)"
proof -
  obtain ss p1 where a: "rv_scbctrl_alloc 1 0 0 p = Inr (ss, p1)" using assms by (auto simp: push_data_frame_def)
  then obtain s rest where ss: "ss = s # rest" using assms by (cases ss) (auto simp: push_data_frame_def)
  obtain c where c: "ips_scbctrl_alloc 1 0 0 [] ((scbc_rv (app p))\<lparr>scbs := scbs p\<rparr>) = Inr (s # rest, c)" "scbc_rv (app p1) = c"
    using a ss by (auto simp: rv_scbctrl_alloc_def)
  have k: "app (upd_scb r f q) = app q" "scbc_rv (app (upd_mq g q')) = scbc_rv (app q')" for r f g and q :: "mq_world ips_proto" and q'
    by (simp_all add: upd_scb_def upd_mq_def)
  have "rv_free p' = rv_free p1" using assms a ss
    by (auto simp: push_data_frame_def Let_def k enqueue_app split: if_splits dest!: flush_err_view tx_view_app)
  then show ?thesis using alloc_one_free [OF c(1)] c(2) by simp
qed

section \<open>Pending sends\<close>

function push_data_loop :: "ips_mq_ctx \<Rightarrow> u64 \<Rightarrow> u32 \<Rightarrow> proto \<Rightarrow> (psm_error \<times> proto) run" where
  "push_data_loop cx req nbytes_left p =
     (if nbytes_left = 0 then Inr (PSM_OK, p)
      else case push_data_frame cx req nbytes_left p of
          Inl x \<Rightarrow> Inl x
        | Inr (None, p) \<Rightarrow> Inr (PSM_OK_NO_PROGRESS, p)
        | Inr (Some n, p) \<Rightarrow> push_data_loop cx req (nbytes_left - n) p)"
  by pat_completeness auto
termination by (relation "measure (\<lambda>(cx, req, n, p). length (rv_free p))") (auto dest: push_data_frame_free)

declare push_data_loop.simps [simp del]

definition ips_proto_mq_push_eager_data :: "ips_mq_ctx \<Rightarrow> u64 \<Rightarrow> proto \<Rightarrow> (psm_error \<times> proto) run" where
  "ips_proto_mq_push_eager_data cx req p =
     push_data_loop cx req (send_msglen (reqs (mq_of p) req) - send_msgoff (reqs (mq_of p) req)) p"

definition ips_proto_mq_handle_cts :: "ips_mq_ctx \<Rightarrow> u64 \<times> u64 \<Rightarrow> proto \<Rightarrow> proto run" where
  "ips_proto_mq_handle_cts cx args p =
     (let reqidx = lo32 (fst args); reqidx_peer = hi32 (fst args); msglen = lo32 (snd args)
      in run_bind (psmi_mpool_find_obj_by_index (sreq_pool (mq_of p)) (sint reqidx)) (\<lambda>r.
           case r of
             None \<Rightarrow> Inl Assert_Abort
           | Some req \<Rightarrow>
               if msglen = 0 then Inr (upd_mq (ips_proto_mq_rv_complete req) p)
               else pend_append cx IPS_PENDSEND_EAGER_DATA req
                      (set_req req (\<lambda>q. q\<lparr>rts_reqidx_peer := reqidx_peer, send_msglen := msglen, send_msgoff := 0\<rparr>) p)))"

text \<open>
  The callback of the queue's timer: sends go out in the order of the queue; the first one that runs out of control blocks
  stays at the head. The recursion follows the list the queue had.
\<close>

fun pendq_loop :: "ips_mq_ctx \<Rightarrow> u64 list \<Rightarrow> proto \<Rightarrow> (psm_error \<times> proto) run" where
  "pendq_loop cx [] p = Inr (PSM_OK, p)"
| "pendq_loop cx (sreq # rest) p =
     (let (type, req) = pend_sreq (app p) sreq
      in run_bind (case type of
             IPS_PENDSEND_EAGER_REQ \<Rightarrow> ips_proto_mq_push_eager_req cx req p
           | IPS_PENDSEND_EAGER_DATA \<Rightarrow> ips_proto_mq_push_eager_data cx req p) (\<lambda>(err, p).
           if err = PSM_OK
           then pendq_loop cx rest (p\<lparr>app := (app p)\<lparr>pendq := tl (pendq (app p)), pend_sends_pool := snd (psmi_mpool_put sreq (pend_sends_pool (app p)))\<rparr>\<rparr>)
           else Inr (err, p)))"

definition ips_proto_timer_pendq_callback :: "ips_mq_ctx \<Rightarrow> proto \<Rightarrow> (psm_error \<times> proto) run" where
  "ips_proto_timer_pendq_callback cx p =
     pendq_loop cx (pendq (app p)) (p\<lparr>app := (app p)\<lparr>pend_timer := None\<rparr>\<rparr>)"

definition ips_proto_rv_scbavail_callback :: "proto \<Rightarrow> proto" where
  "ips_proto_rv_scbavail_callback p = (if pendq (app p) \<noteq> [] then pend_timer_request p else p)"

end
