(* ===== verification/Ips_Mq_Send.thy ===== *)
theory Ips_Mq_Send
  imports Ips_Mq
begin

text \<open>
  What the sends of \<open>Ips_Mq\<close> put on a flow, read as the receiver reads it: the frames carry the message's tag, identification and
  length, and their pieces cover the message without gap or overlap, in order.
\<close>

unbundle bit_operations_syntax

section \<open>Reading the frames of a flow\<close>

definition queued :: "flowp \<Rightarrow> proto \<Rightarrow> (ips_hdr \<times> nat option \<times> u64) list" where
  "queued fl p = map (\<lambda>s. (hdr_of (scbs p s), scb_callback (scbs p s), cb_param (scbs p s))) (scb_unacked (flows p fl))"

text \<open>
  What the receiver of a frame with header \<open>h\<close> calls, for peers that know flow identifiers: \<open>op\<close>, or for eager data the piece \<open>(a, n)\<close>
  exactly when the message \<open>msgno\<close> is the first one of the flow \<open>w\<close> of the header.
\<close>

abbreviation has_flowid :: "ips_recvhdrq_event \<Rightarrow> proto \<Rightarrow> bool" where
  "has_flowid ev q \<equiv> ep_flags (ipsaddrs q (ev_ipsaddr ev)) AND SESS_FLAG_HAS_FLOWID \<noteq> 0"

fun op_piece :: "mq_op \<Rightarrow> (u64 \<times> u32) option" where
  "op_piece (Mq_envelope mode tag egr len (In_buffer a) n) = (if mode = Ips_Recv.MQ_MSG_LONG then Some (a, n) else None)"
| "op_piece (Mq_data_req idx a n) = Some (a, n)"
| "op_piece _ = None"

definition carries :: "ips_hdr \<Rightarrow> mq_op \<Rightarrow> bool" where
  "carries h op \<longleftrightarrow> h_sub_opcode h = OPCODE_SEQ_MQ_CTRL \<and> (op_piece op = None \<or> op_piece op = Some (h_payload h, h_paylen h)) \<and>
     (\<forall>e ev q. ev_hdr ev = h \<longrightarrow> has_flowid ev q \<longrightarrow> mq_dispatch e ev q = Inr (Some (Some op)))"

definition carries_data :: "u8 \<Rightarrow> u24 \<Rightarrow> ips_hdr \<Rightarrow> u64 \<times> u32 \<Rightarrow> bool" where
  "carries_data w msgno h a \<longleftrightarrow> h_sub_opcode h = OPCODE_SEQ_MQ_CTRL \<and> h_flowid h = w \<and> h_payload h = fst a \<and> h_paylen h = snd a \<and>
     (\<forall>e ev q. ev_hdr ev = h \<longrightarrow> has_flowid ev q \<longrightarrow> mq_dispatch e ev q =
        Inr (if egr_first e (ev_ipsaddr ev) (ips_proto_flowid h) (app q) = Some msgno
             then Some (Some (Mq_data (ev_ipsaddr ev) (ips_proto_flowid h) (fst a) (snd a))) else None))"

text \<open>Consecutive pieces from an address on.\<close>

fun pieces :: "u64 \<Rightarrow> u32 list \<Rightarrow> (u64 \<times> u32) list" where
  "pieces a [] = []"
| "pieces a (n # ns) = (a, n) # pieces (a + ucast n) ns"

definition bytes_at :: "mem \<Rightarrow> u64 \<Rightarrow> nat \<Rightarrow> u8 list" where
  "bytes_at m a n = map (\<lambda>i. m (a + of_nat i)) [0..<n]"

lemma bytes_at_append: "bytes_at m a (j + k) = bytes_at m a j @ bytes_at m (a + of_nat j) k"
  by (induction k) (simp_all add: bytes_at_def add.assoc)

lemma pieces_bytes: "concat (map (\<lambda>(a, n). bytes_at m a (unat n)) (pieces a ns)) = bytes_at m a (\<Sum>n \<leftarrow> ns. unat n)"
proof (induction ns arbitrary: a)
  case (Cons n ns)
  show ?case by (simp add: Cons bytes_at_append)
qed (simp add: bytes_at_def)

lemma pieces_append: "pieces a (ms @ ns) = pieces a ms @ pieces (a + of_nat (\<Sum>n \<leftarrow> ms. unat n)) ns"
  by (induction ms arbitrary: a) (simp_all add: add.assoc)

section \<open>Words of the header\<close>

lemma lo_hi [simp]: "lo32 (set_lo32 w d) = w" "hi32 (set_hi32 w d) = w" "lo32 (set_hi32 w d) = lo32 d" "hi32 (set_lo32 w d) = hi32 d"
proof -
  have m: "(0xFFFFFFFF :: u64) = mask 32" by (simp add: mask_eq_exp_minus_1)
  show "lo32 (set_lo32 w d) = w" by (rule bit_word_eqI) (auto simp: lo32_def set_lo32_def m bit_simps dest: bit_imp_le_length)
  show "hi32 (set_hi32 w d) = w" by (rule bit_word_eqI) (auto simp: hi32_def set_hi32_def m bit_simps dest: bit_imp_le_length)
  show "lo32 (set_hi32 w d) = lo32 d" by (rule bit_word_eqI) (auto simp: lo32_def set_hi32_def m bit_simps dest: bit_imp_le_length)
  show "hi32 (set_lo32 w d) = hi32 d" by (rule bit_word_eqI) (auto simp: hi32_def set_lo32_def m bit_simps dest: bit_imp_le_length)
qed

lemma egr_data_msgno [simp]: "ucast (drop_bit 8 (egr_data fid msgno)) = msgno"
  by (rule bit_word_eqI) (auto simp: egr_data_def bit_simps dest: bit_imp_le_length)

lemmas mq_msg_defs = Ips_Recv.MQ_MSG_TINY_def Ips_Recv.MQ_MSG_SHORT_def Ips_Recv.MQ_MSG_LONG_def Ips_Recv.MQ_MSG_RTS_def Ips_Recv.MQ_MSG_RTS_WAIT_def
  Ips_Recv.MQ_MSG_DATA_def Ips_Recv.MQ_MSG_RTS_EGR_def Ips_Recv.MQ_MSG_CTS_EGR_def Ips_Recv.MQ_MSG_DATA_REQ_def

lemma carries_long:
  assumes "h_sub_opcode h = OPCODE_SEQ_MQ_CTRL" "h_mqhdr h = Ips_Recv.MQ_MSG_LONG" "h_data h = (tag, set_hi32 egr (set_lo32 len d))"
  shows "carries h (Mq_envelope Ips_Recv.MQ_MSG_LONG tag (Some egr) len (In_buffer (h_payload h)) (h_paylen h))"
  using assms by (simp add: carries_def mq_dispatch_def mq_msg_defs)

lemma carries_short:
  assumes "h_sub_opcode h = OPCODE_SEQ_MQ_CTRL" "h_mqhdr h = Ips_Recv.MQ_MSG_SHORT" "fst (h_data h) = tag" "h_paylen h - ucast (h_hdr_dlen h) = len"
  shows "carries h (Mq_envelope Ips_Recv.MQ_MSG_SHORT tag None len (In_buffer (h_payload h)) len)"
  using assms by (auto simp: carries_def mq_dispatch_def mq_msg_defs Let_def case_prod_unfold)

lemma carries_eager_data:
  assumes "h_flowid h = w" "h_sub_opcode h = OPCODE_SEQ_MQ_CTRL" "h_mqhdr h = Ips_Recv.MQ_MSG_DATA" "snd (h_data h) = set_lo32 (egr_data fid msgno) d"
  shows "carries_data w msgno h (h_payload h, h_paylen h)"
  using assms by (simp add: carries_data_def mq_dispatch_def mq_msg_defs Let_def case_prod_unfold)

lemma carries_data_req:
  assumes "h_sub_opcode h = OPCODE_SEQ_MQ_CTRL" "h_mqhdr h = Ips_Recv.MQ_MSG_DATA_REQ" "fst (h_data h) = set_hi32 off (set_lo32 idx d)"
  shows "carries h (Mq_data_req idx (h_payload h) (h_paylen h))"
  using assms by (simp add: carries_def mq_dispatch_def mq_msg_defs Let_def case_prod_unfold)

lemma carries_rts:
  assumes "h_sub_opcode h = OPCODE_SEQ_MQ_CTRL" "h_mqhdr h \<in> {Ips_Recv.MQ_MSG_RTS, Ips_Recv.MQ_MSG_RTS_WAIT, Ips_Recv.MQ_MSG_RTS_EGR}"
    "h_data h = (tag, set_hi32 len (set_lo32 idx d))"
  shows "carries h (Mq_rts (h_mqhdr h) tag idx len)"
  using assms by (auto simp: carries_def mq_dispatch_def mq_msg_defs)

section \<open>What sending keeps\<close>

definition tx_kept :: "flowp \<Rightarrow> u64 set \<Rightarrow> proto \<Rightarrow> proto \<Rightarrow> bool" where
  "tx_kept fl S p p' \<longleftrightarrow> app p' = app p \<and> scb_free p' = scb_free p \<and> proto_flags p' = proto_flags p \<and> (\<forall>g. g \<noteq> fl \<longrightarrow> flows p' g = flows p g) \<and>
     transfer (flows p' fl) = transfer (flows p fl) \<and> protocol (flows p' fl) = protocol (flows p fl) \<and> flowid (flows p' fl) = flowid (flows p fl) \<and>
     ips_flow.egr_flowid (flows p' fl) = ips_flow.egr_flowid (flows p fl) \<and> ips_flow.egr_msgno (flows p' fl) = ips_flow.egr_msgno (flows p fl) \<and>
     (\<forall>r. r \<notin> S \<longrightarrow> scb_view (scbs p' r) = scb_view (scbs p r))"

lemma tx_kept_refl [simp]: "tx_kept fl S p p" by (simp add: tx_kept_def)

lemma tx_kept_trans: "tx_kept fl S p q \<Longrightarrow> tx_kept fl T q r \<Longrightarrow> S \<union> T \<subseteq> U \<Longrightarrow> tx_kept fl U p r"
  unfolding tx_kept_def by (elim conjE, intro conjI allI impI) (simp, simp, simp, simp, simp, simp, simp, simp, simp, metis Un_iff subsetD)

lemma view_kept:
  assumes "tx_view fl p' = tx_view fl p"
  shows "tx_kept fl S p p'" "queued fl p' = queued fl p" "scb_unacked (flows p' fl) = scb_unacked (flows p fl)"
proof -
  note v = tx_viewD [OF assms]
  have e: "ips_flow.egr_flowid (flow_view f) = ips_flow.egr_flowid f" "ips_flow.egr_msgno (flow_view f) = ips_flow.egr_msgno f" for f
    by (simp_all add: flow_view_def)
  have f: "transfer (flows p' fl) = transfer (flows p fl)" "protocol (flows p' fl) = protocol (flows p fl)" "flowid (flows p' fl) = flowid (flows p fl)"
    "ips_flow.egr_flowid (flows p' fl) = ips_flow.egr_flowid (flows p fl)" "ips_flow.egr_msgno (flows p' fl) = ips_flow.egr_msgno (flows p fl)"
    using v(8) by (metis flow_view_simps e)+
  show "scb_unacked (flows p' fl) = scb_unacked (flows p fl)" using v(8) by (metis flow_view_simps(1))
  then show "queued fl p' = queued fl p" by (simp add: queued_def v(1,3,4))
  show "tx_kept fl S p p'" using f v(9,14,19,20) tx_view_free [OF assms] by (simp add: tx_kept_def)
qed

lemma scb_viewD: "scb_view x = scb_view y \<Longrightarrow> hdr_of x = hdr_of y \<and> scb_callback x = scb_callback y \<and> cb_param x = cb_param y"
  by (metis scb_view_simps(4-6))

lemma kept_queued:
  assumes "tx_kept fl S p p'" "scb_unacked (flows p' fl) = scb_unacked (flows p fl)" "S \<inter> set (scb_unacked (flows p fl)) = {}"
  shows "queued fl p' = queued fl p"
proof -
  have view: "scb_view (scbs p' r) = scb_view (scbs p r)" if "r \<in> set (scb_unacked (flows p fl))" for r
    using assms(1,3) that unfolding tx_kept_def by blast
  then have "(hdr_of (scbs p' r), scb_callback (scbs p' r), cb_param (scbs p' r)) = (hdr_of (scbs p r), scb_callback (scbs p r), cb_param (scbs p r))"
    if "r \<in> set (scb_unacked (flows p fl))" for r using scb_viewD [OF view [OF that]] by simp
  then show ?thesis unfolding queued_def assms(2) by (intro map_cong refl)
qed

lemma scb_kept: "scb_free (upd_scb s g p) = scb_free p" "app (upd_scb s g p) = app p" "proto_flags (upd_scb s g p) = proto_flags p"
  "r \<noteq> s \<Longrightarrow> scbs (upd_scb s g p) r = scbs p r"
  by (simp_all add: upd_scb_def)

lemma upd_scb_kept: "tx_kept fl {s} p (upd_scb s g p)" by (simp add: tx_kept_def scb_kept)

text \<open>A block is filled in and queued.\<close>

lemma queued_block_flowid: "lrh_flowid (scbs (ips_proto_flow_enqueue e fl s p) s) = ucast (flowid (flows p fl))"
proof -
  have k: "scbs (upd_flow fl g q) = scbs q" for g and q :: "'a ips_proto" by (simp add: upd_flow_def)
  have "lrh_flowid (scbs (ips_scb_prepare_flow_inner s fl p) s) = ucast (flowid (flows p fl))"
    by (simp add: ips_scb_prepare_flow_inner_def ips_flow_gen_ackflags_def ips_proto_hdr_def Let_def k)
  then show ?thesis by (simp add: ips_proto_flow_enqueue_def ips_do_cksum_def Let_def k)
qed

lemma enqueue_queued:
  fixes e :: "mq_world ips_env" and p :: proto
  assumes "protocol (flows p fl) \<noteq> PSM_PROTOCOL_TIDFLOW" "s \<notin> set (scb_unacked (flows p fl))"
  defines "p' \<equiv> ips_proto_flow_enqueue e fl s p" and "x \<equiv> scbs p s"
  shows "\<exists>h. queued fl p' = queued fl p @ [(h, scb_callback x, cb_param x)] \<and> h_sub_opcode h = lrh_sub_opcode x \<and> h_mqhdr h = lrh_mqhdr x \<and>
    h_flowid h = ucast (flowid (flows p fl)) \<and> h_data h = lrh_data x \<and> h_hdr_dlen h = lrh_hdr_dlen x \<and> h_payload h = payload x \<and> h_paylen h = payload_size x"
    "tx_kept fl {s} p p'" "scb_unacked (flows p' fl) = scb_unacked (flows p fl) @ [s]"
proof -
  note E = enqueue_frame [OF assms(1), where e = e and s = s, folded p'_def]
  have sc: "r \<noteq> s \<Longrightarrow> scbs p' r = scbs p r" for r using arg_cong [OF E(1), of "\<lambda>p. scbs p r"] by simp
  have fl: "g \<noteq> fl \<Longrightarrow> flows p' g = flows p g" for g using arg_cong [OF E(1), of "\<lambda>p. flows p g"] by simp
  show u: "scb_unacked (flows p' fl) = scb_unacked (flows p fl) @ [s]" by (simp add: E(3))
  have "app p' = app p" "proto_flags p' = proto_flags p" using arg_cong [OF E(1), of app] arg_cong [OF E(1), of proto_flags] by simp_all
  then show "tx_kept fl {s} p p'" using sc fl by (simp add: tx_kept_def E(3) enqueue_free p'_def [symmetric]) (simp add: p'_def enqueue_free)
  have old: "r \<in> set (scb_unacked (flows p fl)) \<Longrightarrow> scbs p' r = scbs p r" for r using sc [of r] assms(2) by auto
  have "queued fl p' = queued fl p @ [(hdr_of (scbs p' s), scb_callback x, cb_param x)]"
    using E(2) map_cong [OF refl, of "scb_unacked (flows p fl)" "\<lambda>s. (hdr_of (scbs p' s), scb_callback (scbs p' s), cb_param (scbs p' s))"] old
    by (simp add: queued_def u x_def scb_prepared_def)
  then show "\<exists>h. queued fl p' = queued fl p @ [(h, scb_callback x, cb_param x)] \<and> h_sub_opcode h = lrh_sub_opcode x \<and> h_mqhdr h = lrh_mqhdr x \<and>
    h_flowid h = ucast (flowid (flows p fl)) \<and> h_data h = lrh_data x \<and> h_hdr_dlen h = lrh_hdr_dlen x \<and> h_payload h = payload x \<and> h_paylen h = payload_size x"
    using E(2) prepared_paylen [OF E(2)] queued_block_flowid [of e fl s p, folded p'_def]
    by (intro exI [of _ "hdr_of (scbs p' s)"]) (simp add: x_def scb_prepared_def, simp add: hdr_of_def)
qed

section \<open>Payload by programmed I/O\<close>

text \<open>
  While a message is sent nothing of the flow is acknowledged and the matched queue does not change: the progress made when the
  device is busy concerns other things, or flushes.
\<close>

definition quiet :: "ips_mq_ctx \<Rightarrow> flowp \<Rightarrow> bool" where
  "quiet cx fl \<longleftrightarrow> (\<forall>p. \<exists>err p'. ep_poll cx p = Inr (err, p') \<and> tx_view fl p' = tx_view fl p)"

lemma flush_pio_ok:
  assumes "transfer (flows p fl) = PSM_TRANSFER_PIO"
  shows "\<exists>err p'. flush_err cx fl p = Inr (err, p') \<and> tx_view fl p' = tx_view fl p"
proof -
  have "\<exists>err p'. flush_err cx fl p = Inr (err, p')" using assms by (auto simp: flush_err_def flow_flush_def split: prod.split)
  then show ?thesis using flush_err_view by blast
qed

lemma progress_ok:
  assumes "quiet cx fl"
  shows "\<exists>err' p'. ips_recv_progress_if_busy cx err p = Inr (err', p') \<and> tx_view fl p' = tx_view fl p"
proof (cases "err = PSM_EP_NO_RESOURCES")
  case True
  obtain err1 p1 where "ep_poll cx p = Inr (err1, p1)" "tx_view fl p1 = tx_view fl p" using assms unfolding quiet_def by blast
  then show ?thesis using True by (simp add: ips_recv_progress_if_busy_def)
qed (simp add: ips_recv_progress_if_busy_def)

abbreviation hdr_flowid :: "flowp \<Rightarrow> proto \<Rightarrow> u8" where "hdr_flowid fl p \<equiv> ucast (flowid (flows p fl))"

definition pktsize :: "ips_mq_ctx \<Rightarrow> flowp \<Rightarrow> u32" where "pktsize cx fl = ucast (ucast (frag_size cx fl) :: u16)"

lemma payload_packet_pio:
  fixes left :: u32
  assumes q: "quiet cx fl" and pio: "transfer (flows p fl) = PSM_TRANSFER_PIO" and gbn: "protocol (flows p fl) = PSM_PROTOCOL_GO_BACK_N"
    and req: "req \<noteq> 0" "flags AND IPS_PROTO_FLAG_MQ_EAGER_SDMA = 0" and s: "s \<notin> set (scb_unacked (flows p fl))" "scb_callback (scbs p s) = None"
  defines "n \<equiv> min (pktsize cx fl) left"
  shows "\<exists>h prm p'. payload_packet cx fl (egr_data fid msgno) req flags s buf left p = Inr (n, p') \<and>
    queued fl p' = queued fl p @ [(h, if left = n then Some CB_EAGER_COMPLETE else None, prm)] \<and> (left = n \<longrightarrow> prm = req) \<and>
    carries_data (hdr_flowid fl p) msgno h (buf, n) \<and> tx_kept fl {s} p p' \<and> scb_unacked (flows p' fl) = scb_unacked (flows p fl) @ [s]"
proof -
  define p1 where "p1 = upd_scb s (\<lambda>x. x\<lparr>payload := buf\<rparr>) (upd_scb s (\<lambda>x. x\<lparr>payload_size := n, lrh_mqhdr := Ips_Recv.MQ_MSG_DATA,
    lrh_data := (fst (lrh_data x), set_lo32 (egr_data fid msgno) (snd (lrh_data x))), lrh_sub_opcode := OPCODE_SEQ_MQ_CTRL\<rparr>) p)"
  define p2 where "p2 = (if left - n = 0
    then upd_scb s (\<lambda>x. x\<lparr>scb_flags := scb_flags x OR IPS_SEND_FLAG_ACK_REQ\<rparr>) (upd_scb s (\<lambda>x. x\<lparr>scb_callback := Some CB_EAGER_COMPLETE, cb_param := req\<rparr>) p1)
    else p1)"
  have f: "flows p2 = flows p" by (simp add: p2_def p1_def)
  have x: "lrh_sub_opcode (scbs p2 s) = OPCODE_SEQ_MQ_CTRL" "lrh_mqhdr (scbs p2 s) = Ips_Recv.MQ_MSG_DATA"
    "snd (lrh_data (scbs p2 s)) = set_lo32 (egr_data fid msgno) (snd (lrh_data (scbs p s)))" "payload (scbs p2 s) = buf" "payload_size (scbs p2 s) = n"
    "scb_callback (scbs p2 s) = (if left = n then Some CB_EAGER_COMPLETE else None)" "left = n \<longrightarrow> cb_param (scbs p2 s) = req"
    using s(2) by (auto simp: p2_def p1_def)
  have k2: "tx_kept fl {s} p p2" by (auto simp: p2_def p1_def simp flip: upd_scb_twice intro!: tx_kept_trans [OF upd_scb_kept upd_scb_kept] tx_kept_trans [OF _ upd_scb_kept])
  have prot: "protocol (flows p2 fl) \<noteq> PSM_PROTOCOL_TIDFLOW" and s2: "s \<notin> set (scb_unacked (flows p2 fl))" using gbn s(1) by (simp_all add: f)
  define p3 where "p3 = ips_proto_flow_enqueue (cx_env cx) fl s p2"
  note E = enqueue_queued [OF prot s2, where e = "cx_env cx", folded p3_def]
  have "queued fl p2 = queued fl p" using s(1) by (intro kept_queued [OF k2]) (simp_all add: f)
  then obtain h where h: "queued fl p3 = queued fl p @ [(h, if left = n then Some CB_EAGER_COMPLETE else None, cb_param (scbs p2 s))]"
      "h_sub_opcode h = OPCODE_SEQ_MQ_CTRL" "h_mqhdr h = Ips_Recv.MQ_MSG_DATA" "h_payload h = buf" "h_paylen h = n"
      "snd (h_data h) = set_lo32 (egr_data fid msgno) (snd (lrh_data (scbs p s)))" "h_flowid h = hdr_flowid fl p"
    using E(1) by (auto simp: x f)
  have c: "carries_data (hdr_flowid fl p) msgno h (buf, n)" using carries_eager_data [OF h(7,2,3,6)] h(4,5) by simp
  have "transfer (flows p3 fl) = PSM_TRANSFER_PIO" using E(2) pio f by (simp add: tx_kept_def)
  then obtain err4 p4 where p4: "flush_err cx fl p3 = Inr (err4, p4)" "tx_view fl p4 = tx_view fl p3" using flush_pio_ok by blast
  obtain err5 p5 where p5: "ips_recv_progress_if_busy cx err4 p4 = Inr (err5, p5)" "tx_view fl p5 = tx_view fl p4" using progress_ok [OF q] by blast
  have len: "payload_pktlen cx fl False buf left p = n" using pio by (simp add: payload_pktlen_def n_def pktsize_def)
  have "payload_packet cx fl (egr_data fid msgno) req flags s buf left p = Inr (n, p5)"
    using req p4(1) p5(1) len unfolding payload_packet_def Let_def
    by (cases "left = n") (simp_all add: p1_def [symmetric] p3_def p2_def del: upd_scb_twice)
  moreover have v: "tx_view fl p5 = tx_view fl p3" using p4(2) p5(2) by simp
  moreover have "tx_kept fl {s} p p5"
    using tx_kept_trans [OF tx_kept_trans [OF k2 E(2), of "{s}"] view_kept(1) [OF v, of "{s}"], of "{s}"] by simp
  ultimately show ?thesis using h(1) c x(7) E(3) view_kept(2,3) [OF v] f by (intro exI [of _ h] exI [of _ "cb_param (scbs p2 s)"] exI [of _ p5]) simp
qed

text \<open>Exactly the last of the frames completes the request when it is acknowledged.\<close>

definition completes :: "nat \<Rightarrow> u64 \<Rightarrow> (ips_hdr \<times> nat option \<times> u64) list \<Rightarrow> bool" where
  "completes cb req hs \<longleftrightarrow> hs \<noteq> [] \<and> snd (last hs) = (Some cb, req) \<and> (\<forall>x \<in> set (butlast hs). fst (snd x) = None)"

definition data_frames :: "u8 \<Rightarrow> u24 \<Rightarrow> (ips_hdr \<times> nat option \<times> u64) list \<Rightarrow> (u64 \<times> u32) list \<Rightarrow> bool" where
  "data_frames w msgno hs ps \<longleftrightarrow> list_all2 (\<lambda>x. carries_data w msgno (fst x)) hs ps"

lemma payload_chain_pio:
  fixes left :: u32
  assumes q: "quiet cx fl" and req: "req \<noteq> 0" "flags AND IPS_PROTO_FLAG_MQ_EAGER_SDMA = 0"
    and "transfer (flows p fl) = PSM_TRANSFER_PIO" "protocol (flows p fl) = PSM_PROTOCOL_GO_BACK_N"
    and "distinct ss" "set ss \<inter> set (scb_unacked (flows p fl)) = {}" "\<forall>s \<in> set ss. scb_callback (scbs p s) = None" "ss \<noteq> []"
    and "(length ss - 1) * unat (pktsize cx fl) < unat left" "unat left \<le> length ss * unat (pktsize cx fl)"
  shows "\<exists>hs ns p'. payload_chain cx fl (egr_data fid msgno) req flags ss buf left p = Inr (buf + ucast left, 0, p') \<and>
    queued fl p' = queued fl p @ hs \<and> data_frames (hdr_flowid fl p) msgno hs (pieces buf ns) \<and> completes CB_EAGER_COMPLETE req hs \<and>
    (\<Sum>n \<leftarrow> ns. unat n) = unat left \<and> (\<forall>n \<in> set ns. 0 < n \<and> n \<le> pktsize cx fl) \<and> tx_kept fl (set ss) p p' \<and>
    scb_unacked (flows p' fl) = scb_unacked (flows p fl) @ ss"
  using assms(4-)
proof (induction ss arbitrary: buf left p)
  case (Cons s ss)
  let ?sz = "pktsize cx fl" and ?n = "min (pktsize cx fl) left"
  have s: "s \<notin> set (scb_unacked (flows p fl))" "scb_callback (scbs p s) = None" using Cons.prems by auto
  obtain h prm p1 where P: "payload_packet cx fl (egr_data fid msgno) req flags s buf left p = Inr (?n, p1)"
      "queued fl p1 = queued fl p @ [(h, if left = ?n then Some CB_EAGER_COMPLETE else None, prm)]" "left = ?n \<longrightarrow> prm = req"
      "carries_data (hdr_flowid fl p) msgno h (buf, ?n)" "tx_kept fl {s} p p1" "scb_unacked (flows p1 fl) = scb_unacked (flows p fl) @ [s]"
    using payload_packet_pio [OF q Cons.prems(1,2) req s] by blast
  have pos: "0 < unat left" using Cons.prems(7) by simp
  show ?case
  proof (cases "ss = []")
    case True
    then have "left \<le> ?sz" using Cons.prems(8) by (simp add: word_le_nat_alt)
    then have n: "?n = left" by (simp add: min_def)
    have "0 < left" using pos by (simp add: word_less_nat_alt)
    then show ?thesis using True P n \<open>left \<le> ?sz\<close>
      by (intro exI [of _ "[(h, Some CB_EAGER_COMPLETE, req)]"] exI [of _ "[left]"] exI [of _ p1]) (simp add: completes_def data_frames_def)
  next
    case False
    then have "unat ?sz \<le> (length (s # ss) - 1) * unat ?sz" by (cases ss) auto
    then have gt: "unat ?sz < unat left" using Cons.prems(7) by linarith
    then have n: "?n = ?sz" by (simp add: min_def word_le_nat_alt)
    have z: "0 < unat ?sz" using Cons.prems(8) pos by (cases "unat ?sz") auto
    have l: "unat (left - ?sz) = unat left - unat ?sz" using gt by (simp add: unat_sub word_le_nat_alt)
    have k: "transfer (flows p1 fl) = PSM_TRANSFER_PIO" "protocol (flows p1 fl) = PSM_PROTOCOL_GO_BACK_N" and w: "hdr_flowid fl p1 = hdr_flowid fl p"
      using P(5) Cons.prems(1,2) by (simp_all add: tx_kept_def)
    have d: "distinct ss" "set ss \<inter> set (scb_unacked (flows p1 fl)) = {}" using Cons.prems(3,4) P(6) by auto
    have c: "\<forall>r \<in> set ss. scb_callback (scbs p1 r) = None"
    proof
      fix r assume r: "r \<in> set ss"
      then have "scb_view (scbs p1 r) = scb_view (scbs p r)" using P(5) Cons.prems(3) by (auto simp: tx_kept_def)
      from scb_viewD [OF this] show "scb_callback (scbs p1 r) = None" using Cons.prems(5) r by simp
    qed
    have "(length ss - 1) * unat ?sz < unat (left - ?sz)" "unat (left - ?sz) \<le> length ss * unat ?sz"
      using Cons.prems(7,8) False gt unfolding l by (cases ss; simp add: algebra_simps)+
    from Cons.IH [OF k d c False this, of "buf + ucast ?sz"] obtain hs ns p' where
      I: "payload_chain cx fl (egr_data fid msgno) req flags ss (buf + ucast ?sz) (left - ?sz) p1 = Inr (buf + ucast ?sz + ucast (left - ?sz), 0, p')"
        "queued fl p' = queued fl p1 @ hs" "data_frames (hdr_flowid fl p) msgno hs (pieces (buf + ucast ?sz) ns)" "completes CB_EAGER_COMPLETE req hs"
        "(\<Sum>n \<leftarrow> ns. unat n) = unat (left - ?sz)" "\<forall>n \<in> set ns. 0 < n \<and> n \<le> ?sz" "tx_kept fl (set ss) p1 p'"
        "scb_unacked (flows p' fl) = scb_unacked (flows p1 fl) @ ss" unfolding w by blast
    have "(ucast ?sz + ucast (left - ?sz) :: u64) = of_nat (unat ?sz + unat (left - ?sz))" by simp
    also have "\<dots> = ucast left" using gt by (simp only: l) simp
    finally have b: "buf + ucast ?sz + ucast (left - ?sz) = buf + ucast left" by (simp add: add.assoc)
    have "left \<noteq> ?sz" "0 < ?sz" using gt z by (auto simp: word_less_nat_alt)
    then show ?thesis using P I n b l gt tx_kept_trans [OF P(5) I(7), of "set (s # ss)"]
      by (intro exI [of _ "(h, None, prm) # hs"] exI [of _ "?sz # ns"] exI [of _ p']) (auto simp: completes_def data_frames_def)
  qed
qed simp

section \<open>Control blocks without a bounce buffer\<close>

lemma alloc_nobuf:
  fixes p :: proto
  assumes "n \<le> length (scb_free p)" "distinct (scb_free p)"
  shows "\<exists>p'. ips_scbctrl_alloc n len 0 acc p = Inr (rev (take n (scb_free p)) @ acc, p') \<and> scb_free p' = drop n (scb_free p) \<and>
    flows p' = flows p \<and> app p' = app p \<and> proto_flags p' = proto_flags p \<and> (\<forall>r. r \<notin> set (take n (scb_free p)) \<longrightarrow> scbs p' r = scbs p r) \<and>
    (\<forall>r \<in> set (take n (scb_free p)). scb_callback (scbs p' r) = None)"
  using assms
proof (induction n arbitrary: acc p)
  case (Suc n)
  then obtain s rest where f: "scb_free p = s # rest" by (cases "scb_free p") auto
  define c where "c = (scb_account s (upd_scb s (\<lambda>x. x\<lparr>scb_tid := IPATH_EAGER_TID_ID, tidsendc := 0, scb_callback := None, lrh_mqhdr := 0, scb_offset := 0\<rparr>)
    (upd_scb s (\<lambda>x. x\<lparr>payload := 0, payload_size := 0\<rparr>) (upd_scb s (\<lambda>x. x\<lparr>scb_flags := 0\<rparr>) p))))\<lparr>scb_free := rest\<rparr>"
  have free: "scb_free (scb_account s q) = scb_free q" "flows (scb_account s q) = flows q" "app (scb_account s q) = app q"
    "proto_flags (scb_account s q) = proto_flags q" "r \<noteq> s \<Longrightarrow> scbs (scb_account s q) r = scbs q r"
    "scb_callback (scbs (scb_account s q) s) = scb_callback (scbs q s)" for q :: proto and r
    by (simp_all add: scb_account_def Let_def upd_scb_def)
  have k: "scb_free c = rest" "flows c = flows p" "app c = app p" "proto_flags c = proto_flags p" "\<And>r. r \<noteq> s \<Longrightarrow> scbs c r = scbs p r"
    "scb_callback (scbs c s) = None" by (simp_all add: c_def free scb_kept)
  have "ips_scbctrl_alloc (Suc n) len 0 acc p = ips_scbctrl_alloc n len 0 (s # acc) c"
    by (simp add: f scb_attach_def c_def free scb_kept Let_def)
  moreover obtain p' where I: "ips_scbctrl_alloc n len 0 (s # acc) c = Inr (rev (take n rest) @ s # acc, p')" "scb_free p' = drop n rest"
      "flows p' = flows c" "app p' = app c" "proto_flags p' = proto_flags c" "\<And>r. r \<notin> set (take n rest) \<Longrightarrow> scbs p' r = scbs c r"
      "\<And>r. r \<in> set (take n rest) \<Longrightarrow> scb_callback (scbs p' r) = None"
    using Suc.IH [of c "s # acc"] Suc.prems by (auto simp: k f)
  moreover have "s \<notin> set (take n rest)" using Suc.prems(2) f by (auto dest: in_set_takeD)
  ultimately show ?case using k by (intro exI [of _ p']) (auto simp: f)
qed simp

lemma alloc_pkts_nobuf:
  fixes p :: proto
  assumes "0 < n" "n \<le> length (scb_free p)" "distinct (scb_free p)"
  shows "\<exists>p'. mq_alloc_pkts cx n len 0 p = Some (Inr (rev (take n (scb_free p)), p')) \<and> scb_free p' = drop n (scb_free p) \<and>
    flows p' = flows p \<and> app p' = app p \<and> proto_flags p' = proto_flags p \<and> (\<forall>r. r \<notin> set (take n (scb_free p)) \<longrightarrow> scbs p' r = scbs p r) \<and>
    (\<forall>r \<in> set (take n (scb_free p)). scb_callback (scbs p' r) = None)"
proof -
  have "rev (take n (scb_free p)) \<noteq> []" using assms(1,2) by (cases "scb_free p") auto
  then show ?thesis using alloc_nobuf [OF assms(2,3), of len "[]"] by (auto simp: mq_alloc_pkts_def mq_alloc_def try_pkts_def)
qed

lemma num_mtus:
  assumes "mtu \<noteq> 0" "l \<noteq> 0" "unat l + unat mtu < 2 ^ 32"
  shows "\<exists>k. MQ_NUM_MTUS l mtu = Some k \<and> 0 < k \<and> (k - 1) * unat mtu < unat l \<and> unat l \<le> k * unat mtu \<and> k = (unat l + unat mtu - 1) div unat mtu"
proof -
  let ?z = "unat mtu" and ?l = "unat l"
  have z: "0 < ?z" "0 < ?l" using assms(1,2) by (simp_all add: unat_gt_0)
  have "unat (ucast mtu :: u32) = ?z" by (simp add: unat_ucast_up)
  moreover have "unat (l + ucast mtu - 1) = ?l + ?z - 1" using assms(3) calculation z
    by (subst unat_sub) (auto simp: word_le_nat_alt unat_word_ariths)
  ultimately have k: "unat ((l + ucast mtu - 1) div ucast mtu) = (?l + ?z - 1) div ?z" by (simp add: unat_div)
  let ?k = "(?l + ?z - 1) div ?z"
  have "?k * ?z + (?l + ?z - 1) mod ?z = ?l + ?z - 1" "(?l + ?z - 1) mod ?z < ?z" using z by simp_all
  then have "?k * ?z \<le> ?l + ?z - 1" "?l + ?z - 1 < (?k + 1) * ?z" unfolding distrib_right mult_1 by linarith+
  moreover have "0 < ?k" using z by (simp add: div_greater_zero_iff)
  ultimately have "(?k - 1) * ?z < ?l" "?l \<le> ?k * ?z" using z unfolding diff_mult_distrib distrib_right mult_1 by linarith+
  then show ?thesis using assms(1) k \<open>0 < ?k\<close> by (simp add: MQ_NUM_MTUS_def)
qed

section \<open>The eager message\<close>

lemma payload_loop_pio:
  fixes left :: u32 and p :: proto
  assumes q: "quiet cx fl" and req: "req \<noteq> 0" "flags AND IPS_PROTO_FLAG_MQ_EAGER_SDMA = 0"
    and flow: "transfer (flows p fl) = PSM_TRANSFER_PIO" "protocol (flows p fl) = PSM_PROTOCOL_GO_BACK_N"
    and free: "distinct (scb_free p)" "set (scb_free p) \<inter> set (scb_unacked (flows p fl)) = {}"
    and size: "pktsize cx fl \<noteq> 0" "left \<noteq> 0" "unat left < 2 ^ 31"
    and enough: "(unat left + unat (pktsize cx fl) - 1) div unat (pktsize cx fl) \<le> length (scb_free p)"
  shows "\<exists>hs ns p'. payload_loop cx fl (egr_data fid msgno) req flags buf left p = Some (Inr p') \<and>
    queued fl p' = queued fl p @ hs \<and> data_frames (hdr_flowid fl p) msgno hs (pieces buf ns) \<and> completes CB_EAGER_COMPLETE req hs \<and>
    (\<Sum>n \<leftarrow> ns. unat n) = unat left \<and> (\<forall>n \<in> set ns. 0 < n \<and> n \<le> pktsize cx fl) \<and> app p' = app p"
proof -
  let ?m = "ucast (frag_size cx fl) :: u16"
  have m: "?m \<noteq> 0" "unat (pktsize cx fl) = unat ?m" using size(1) by (auto simp: pktsize_def unat_ucast_up)
  have "unat ?m < 2 ^ 16" by (rule order.strict_trans2 [OF unsigned_less]) simp
  then have "unat left + unat ?m < 2 ^ 32" using size(3) by simp
  from num_mtus [OF m(1) size(2) this] obtain k where
    k: "MQ_NUM_MTUS left ?m = Some k" "0 < k" "(k - 1) * unat ?m < unat left" "unat left \<le> k * unat ?m" "k \<le> length (scb_free p)"
    using enough m(2) by auto
  obtain p1 where a: "mq_alloc_pkts cx k left 0 p = Some (Inr (rev (take k (scb_free p)), p1))" "flows p1 = flows p" "app p1 = app p"
      "\<And>r. r \<notin> set (take k (scb_free p)) \<Longrightarrow> scbs p1 r = scbs p r" "\<And>r. r \<in> set (take k (scb_free p)) \<Longrightarrow> scb_callback (scbs p1 r) = None"
    using alloc_pkts_nobuf [OF k(2,5) free(1)] by blast
  let ?ss = "rev (take k (scb_free p))"
  have sub: "set ?ss \<subseteq> set (scb_free p)" by (auto dest: in_set_takeD)
  then have dis: "set ?ss \<inter> set (scb_unacked (flows p1 fl)) = {}" using free(2) a(2) by auto
  have q1: "queued fl p1 = queued fl p" unfolding queued_def a(2)
  proof (intro map_cong refl)
    fix r assume "r \<in> set (scb_unacked (flows p fl))"
    then have "scbs p1 r = scbs p r" using a(4) sub free(2) by auto
    then show "(hdr_of (scbs p1 r), scb_callback (scbs p1 r), cb_param (scbs p1 r)) = (hdr_of (scbs p r), scb_callback (scbs p r), cb_param (scbs p r))" by simp
  qed
  have len: "length ?ss = k" using k(5) by simp
  have chain: "\<exists>hs ns p'. payload_chain cx fl (egr_data fid msgno) req flags ?ss buf left p1 = Inr (buf + ucast left, 0, p') \<and>
    queued fl p' = queued fl p1 @ hs \<and> data_frames (hdr_flowid fl p1) msgno hs (pieces buf ns) \<and> completes CB_EAGER_COMPLETE req hs \<and>
    (\<Sum>n \<leftarrow> ns. unat n) = unat left \<and> (\<forall>n \<in> set ns. 0 < n \<and> n \<le> pktsize cx fl) \<and> tx_kept fl (set ?ss) p1 p' \<and>
    scb_unacked (flows p' fl) = scb_unacked (flows p1 fl) @ ?ss"
    using free(1) dis a(5) k len by (intro payload_chain_pio [OF q req]) (simp_all add: flow a(2) m(2) del: rev_is_Nil_conv, auto)
  then show ?thesis using req k(1) a(1,3) q1 unfolding a(2) by (subst payload_loop.simps) (auto simp: tx_kept_def)
qed

text \<open>The first packet of an eager message by programmed I/O fits, and leaves something for the others.\<close>

lemma long_first_bounds:
  assumes "ucast (epr_piosize cx i) < len" "8 < len" "unat len < 2 ^ 31" "epr_piosize cx i \<noteq> 0"
  shows "long_first cx i True buf len < len" "long_first cx i True buf len \<le> ucast (epr_piosize cx i)" "0 < long_first cx i True buf len"
proof -
  let ?z = "ucast (epr_piosize cx i) :: u32" and ?y = "(drop_bit 1 len + 3) AND NOT 3"
  have z: "unat ?z < 2 ^ 16" by (simp add: unat_ucast_up) (use unsigned_less [of "epr_piosize cx i"] in simp)
  have zp: "0 < unat ?z" using assms(4) by (simp add: unat_ucast_up unat_gt_0)
  have l: "8 < unat len" "unat ?z < unat len" using assms(1,2) by (simp_all add: word_less_nat_alt)
  have h: "unat (drop_bit 1 len + 3) = unat len div 2 + 3"
    using assms(3) by (simp add: unat_word_ariths drop_bit_eq_div unat_div)
  have "unat ?y = unat (drop_bit 1 len + 3) - unat (drop_bit 1 len + 3) mod 4"
  proof -
    have "?y + ((drop_bit 1 len + 3) AND 3) = drop_bit 1 len + 3"
      by (subst disjunctive_add) (auto simp: bit_simps bit.conj_disj_distrib [symmetric])
    moreover have "(drop_bit 1 len + 3) AND 3 = (drop_bit 1 len + 3) mod 4"
      using take_bit_eq_mod [of 2 "drop_bit 1 len + 3"] by (simp add: take_bit_eq_mask mask_numeral)
    ultimately have "?y = (drop_bit 1 len + 3) - (drop_bit 1 len + 3) mod 4" by (simp add: eq_diff_eq)
    then show ?thesis by (simp add: unat_sub unat_mod word_le_nat_alt)
  qed
  then have y: "unat ?y = unat len div 2 + 3 - (unat len div 2 + 3) mod 4" by (simp only: h)
  define w where "w = unat len div 2"
  have w: "4 \<le> w" "2 * w \<le> unat len" using l(1) by (simp_all add: w_def)
  have "(w + 3) mod 4 \<le> 3" by simp
  then have "unat len div 2 \<le> unat ?y" "0 < unat ?y" "unat ?y < unat len" unfolding y w_def [symmetric] using w l(1) by linarith+
  then have sub: "unat (len - ?y) = unat len - unat ?y" by (simp add: unat_sub word_le_nat_alt)
  have two: "unat (2 * ?z) = 2 * unat ?z" using z by (simp add: unat_word_ariths)
  show "long_first cx i True buf len < len" "long_first cx i True buf len \<le> ?z" "0 < long_first cx i True buf len"
    using l zp \<open>unat len div 2 \<le> unat ?y\<close> \<open>0 < unat ?y\<close> \<open>unat ?y < unat len\<close> sub two
    by (auto simp: long_first_def Let_def word_less_nat_alt word_le_nat_alt min_def)
qed

lemma envelope_pio:
  assumes "quiet cx (Ep_flow i 0)" "proto_flags p AND IPS_PROTO_FLAG_MQ_ENVELOPE_SDMA = 0" "transfer (flows p (Ep_flow i 0)) = PSM_TRANSFER_PIO"
    "protocol (flows p (Ep_flow i 0)) = PSM_PROTOCOL_GO_BACK_N"
  shows "\<exists>err p'. ips_mq_send_envelope cx i s do_flush p = Inr (err, p') \<and> err \<noteq> PSM_EP_NO_RESOURCES \<and>
    tx_view (Ep_flow i 0) p' = tx_view (Ep_flow i 0) (ips_proto_flow_enqueue (cx_env cx) (Ep_flow i 0) s p)"
proof -
  let ?fl = "Ep_flow i 0" and ?p1 = "ips_proto_flow_enqueue (cx_env cx) (Ep_flow i 0) s p"
  have prot: "protocol (flows p ?fl) \<noteq> PSM_PROTOCOL_TIDFLOW" using assms(4) by simp
  have tr: "transfer (flows ?p1 ?fl) = PSM_TRANSFER_PIO" using enqueue_frame(3) [OF prot, of "cx_env cx" s] assms(3) by simp
  obtain err2 p2 where p2: "flush_err cx ?fl ?p1 = Inr (err2, p2)" "tx_view ?fl p2 = tx_view ?fl ?p1" using flush_pio_ok [OF tr] by blast
  obtain err3 p3 where p3: "(if do_flush then ips_recv_progress_if_busy cx err2 p2 else Inr (err2, p2)) = Inr (err3, p3)" "tx_view ?fl p3 = tx_view ?fl p2"
    using progress_ok [OF assms(1), of err2 p2] by (cases do_flush) auto
  show ?thesis using assms(2) tr p2 p3 unfolding ips_mq_send_envelope_def Let_def by (auto simp: EP_FLOW_GO_BACK_N_PIO_def)
qed

text \<open>
  The message as frames: the envelope, then the pieces of the rest.
\<close>

definition eager_frames :: "u8 \<Rightarrow> u64 \<Rightarrow> u8 \<Rightarrow> u24 \<Rightarrow> u64 \<Rightarrow> u32 \<Rightarrow> u32 list \<Rightarrow> (ips_hdr \<times> nat option \<times> u64) list \<Rightarrow> bool" where
  "eager_frames w tag fid msgno buf len ns xs \<longleftrightarrow> (\<exists>h cb prm hs l0 ns'. xs = (h, cb, prm) # hs \<and> ns = l0 # ns' \<and> cb = None \<and>
     carries h (Mq_envelope Ips_Recv.MQ_MSG_LONG tag (Some (egr_data fid msgno)) len (In_buffer buf) l0) \<and>
     data_frames w msgno hs (pieces (buf + ucast l0) ns'))"

lemma send_long_pio:
  fixes p :: proto and len :: u32
  assumes q: "quiet cx (Ep_flow i 0)" and fl: "proto_flags p AND IPS_PROTO_FLAG_MQ_ENVELOPE_SDMA = 0" "transfer (flows p (Ep_flow i 0)) = PSM_TRANSFER_PIO"
      "protocol (flows p (Ep_flow i 0)) = PSM_PROTOCOL_GO_BACK_N" and req: "req \<noteq> 0"
    and free: "distinct (scb_free p)" "set (scb_free p) \<inter> set (scb_unacked (flows p (Ep_flow i 0))) = {}"
    and size: "ucast (epr_piosize cx i) < len" "8 < len" "len < thresh" "unat len < 2 ^ 31" "frag_size cx (Ep_flow i 0) = ucast (epr_piosize cx i)"
      "epr_piosize cx i \<noteq> 0"
    and enough: "(unat len - 1) div unat (epr_piosize cx i) + 2 \<le> length (scb_free p)"
  defines "fid \<equiv> ips_flow.egr_flowid (flows p (Ep_flow i 0))" and "msgno \<equiv> ips_flow.egr_msgno (flows p (Ep_flow i 0))"
  shows "\<exists>xs ns err p'. send_long cx i thresh tag buf len req p = Some (Inr (err, p')) \<and> err \<noteq> PSM_EP_NO_RESOURCES \<and>
    queued (Ep_flow i 0) p' = queued (Ep_flow i 0) p @ xs \<and>
    eager_frames (hdr_flowid (Ep_flow i 0) p) tag fid msgno buf len ns xs \<and> completes CB_EAGER_COMPLETE req xs \<and> (\<Sum>n \<leftarrow> ns. unat n) = unat len \<and>
    (\<forall>n \<in> set ns. 0 < n \<and> n \<le> ucast (epr_piosize cx i)) \<and> app p' = app p"
proof -
  let ?fl = "Ep_flow i 0" and ?l0 = "long_first cx i True buf len" and ?z = "ucast (epr_piosize cx i) :: u32"
  note b = long_first_bounds [OF size(1,2,4,6), of buf]
  have "(ucast ?z :: u16) = epr_piosize cx i" by (rule bit_word_eqI) (simp add: bit_simps)
  then have z: "unat ?z = unat (epr_piosize cx i)" "pktsize cx ?fl = ?z" using size(5) by (simp_all add: pktsize_def unat_ucast_up)
  have l: "unat (len - ?l0) = unat len - unat ?l0" "unat ?l0 < unat len" using b(1) by (simp_all add: unat_sub word_le_nat_alt word_less_nat_alt)
  obtain s rest where f: "scb_free p = s # rest" using enough by (cases "scb_free p") auto
  obtain p1 where a: "mq_alloc_pkts cx 1 0 0 p = Some (Inr ([s], p1))" "scb_free p1 = rest" "flows p1 = flows p" "app p1 = app p"
      "proto_flags p1 = proto_flags p" "\<And>r. r \<noteq> s \<Longrightarrow> scbs p1 r = scbs p r" "scb_callback (scbs p1 s) = None"
    using alloc_pkts_nobuf [of 1 p cx 0] free(1) by (auto simp: f)
  define g where "g x = x\<lparr>lrh_sub_opcode := OPCODE_SEQ_MQ_CTRL, payload_size := ?l0, lrh_mqhdr := Ips_Recv.MQ_MSG_LONG,
    lrh_data := (tag, set_lo32 len (snd (lrh_data x)))\<rparr>" for x :: ips_scb
  define k where "k x = (x\<lparr>payload := buf\<rparr>)\<lparr>lrh_data := (fst (lrh_data x), set_hi32 (egr_data fid msgno) (snd (lrh_data x)))\<rparr>" for x :: ips_scb
  define p5 where "p5 = upd_flow ?fl (\<lambda>f. f\<lparr>ips_flow.egr_msgno := ips_flow.egr_msgno f + 1\<rparr>) (upd_scb s (\<lambda>x. k (g x)) p1)"
  have sU: "s \<notin> set (scb_unacked (flows p ?fl))" using free(2) f by auto
  have k5: "flows p5 ?fl = flows p ?fl\<lparr>ips_flow.egr_msgno := msgno + 1\<rparr>" "app p5 = app p" "proto_flags p5 = proto_flags p" "scb_free p5 = rest"
    "\<And>r. r \<noteq> s \<Longrightarrow> scbs p5 r = scbs p r" "scbs p5 s = k (g (scbs p1 s))"
    using a by (simp_all add: p5_def upd_flow_def upd_scb_def msgno_def)
  have q5: "queued ?fl p5 = queued ?fl p" unfolding queued_def k5(1)
    using k5(5) sU by (auto intro!: map_cong) metis+
  have flow5: "proto_flags p5 AND IPS_PROTO_FLAG_MQ_ENVELOPE_SDMA = 0" "transfer (flows p5 ?fl) = PSM_TRANSFER_PIO"
    "protocol (flows p5 ?fl) = PSM_PROTOCOL_GO_BACK_N" "s \<notin> set (scb_unacked (flows p5 ?fl))" using fl sU by (simp_all add: k5)
  then have prot: "protocol (flows p5 ?fl) \<noteq> PSM_PROTOCOL_TIDFLOW" by simp
  define pe where "pe = ips_proto_flow_enqueue (cx_env cx) ?fl s p5"
  note E = enqueue_queued [OF prot flow5(4), where e = "cx_env cx", folded pe_def]
  obtain err p6 where p6: "ips_mq_send_envelope cx i s False p5 = Inr (err, p6)" "err \<noteq> PSM_EP_NO_RESOURCES" "tx_view ?fl p6 = tx_view ?fl pe"
    using envelope_pio [OF q flow5(1-3)] unfolding pe_def by blast
  obtain h prm where h: "queued ?fl pe = queued ?fl p @ [(h, None, prm)]" "h_sub_opcode h = OPCODE_SEQ_MQ_CTRL" "h_mqhdr h = Ips_Recv.MQ_MSG_LONG"
      "h_data h = (tag, set_hi32 (egr_data fid msgno) (set_lo32 len (snd (lrh_data (scbs p1 s)))))" "h_payload h = buf" "h_paylen h = ?l0"
    using E(1) a(7) by (auto simp: q5 k5(6) k_def g_def)
  have c: "carries h (Mq_envelope Ips_Recv.MQ_MSG_LONG tag (Some (egr_data fid msgno)) len (In_buffer buf) ?l0)"
    using carries_long [OF h(2,3,4)] h(5,6) by simp
  note v = view_kept [OF p6(3)]
  have kept: "app p6 = app p" "scb_free p6 = rest" "transfer (flows p6 ?fl) = PSM_TRANSFER_PIO" "protocol (flows p6 ?fl) = PSM_PROTOCOL_GO_BACK_N"
    "scb_unacked (flows p6 ?fl) = scb_unacked (flows p ?fl) @ [s]" and w6: "hdr_flowid ?fl p6 = hdr_flowid ?fl p"
    using v(1) [of "{}"] v(3) E(2,3) flow5(2,3) by (simp_all add: tx_kept_def k5)
  define fl6 where "fl6 = (proto_flags p AND IPS_PROTO_FLAG_MQ_MASK) AND NOT IPS_PROTO_FLAG_MQ_EAGER_SDMA"
  have nosdma: "fl6 AND IPS_PROTO_FLAG_MQ_EAGER_SDMA = 0" by (simp add: fl6_def and.assoc)
  have "(unat (len - ?l0) + unat ?z - 1) div unat ?z \<le> (unat len - 1 + unat ?z) div unat ?z" unfolding l(1) by (intro div_le_mono) simp
  also have "\<dots> \<le> length rest"
  proof -
    have "0 < unat (epr_piosize cx i)" using size(6) by (simp add: unat_gt_0)
    then show ?thesis using enough by (simp add: f z(1) div_add_self2)
  qed
  finally have en: "(unat (len - ?l0) + unat (pktsize cx ?fl) - 1) div unat (pktsize cx ?fl) \<le> length (scb_free p6)" by (simp add: z(2) kept(2))
  have rest: "distinct (scb_free p6)" "set (scb_free p6) \<inter> set (scb_unacked (flows p6 ?fl)) = {}" using free f by (auto simp: kept)
  have nz: "pktsize cx ?fl \<noteq> 0" "len - ?l0 \<noteq> 0" "unat (len - ?l0) < 2 ^ 31"
  proof -
    have "0 < unat ?z" unfolding z(1) using size(6) by (simp add: unat_gt_0)
    then show "pktsize cx ?fl \<noteq> 0" unfolding z(2) by auto
    show "len - ?l0 \<noteq> 0" "unat (len - ?l0) < 2 ^ 31" using size(4) b(1) l by auto
  qed
  obtain hs ns p' where P: "payload_loop cx ?fl (egr_data fid msgno) req fl6 (buf + ucast ?l0) (len - ?l0) p6 = Some (Inr p')"
      "queued ?fl p' = queued ?fl p6 @ hs" "data_frames (hdr_flowid ?fl p) msgno hs (pieces (buf + ucast ?l0) ns)" "completes CB_EAGER_COMPLETE req hs"
      "(\<Sum>n \<leftarrow> ns. unat n) = unat (len - ?l0)" "\<forall>n \<in> set ns. 0 < n \<and> n \<le> ?z" "app p' = app p6"
    using payload_loop_pio [OF q req nosdma kept(3,4) rest nz en] unfolding z(2) w6 by blast
  have "send_long cx i thresh tag buf len req p = Some (Inr (err, p'))"
    using size(3) req a(1) p6(1) [unfolded p5_def k_def g_def] P(1) nosdma
    by (simp add: send_long_def Let_def ips_mq_send_payload_def fl6_def [symmetric] EP_FLOW_GO_BACK_N_PIO_def a(3) msgno_def [symmetric] fid_def [symmetric])
  moreover have "eager_frames (hdr_flowid ?fl p) tag fid msgno buf len (?l0 # ns) ((h, None, prm) # hs)" using c P(3) by (simp add: eager_frames_def)
  moreover have "completes CB_EAGER_COMPLETE req ((h, None, prm) # hs)" using P(4) by (auto simp: completes_def)
  ultimately show ?thesis using p6(2) P h(1) v(2) kept(1) l b(2,3)
    by (intro exI [of _ "(h, None, prm) # hs"] exI [of _ "?l0 # ns"] exI [of _ err] exI [of _ p']) simp
qed

section \<open>Sends\<close>

lemma queued_mq [simp]: "queued fl (upd_mq g p) = queued fl p" "queued fl (p\<lparr>app := w\<rparr>) = queued fl p"
  by (simp_all add: queued_def upd_mq_def)

lemma upd_mq_sel [simp]: "flows (upd_mq g p) = flows p" "scbs (upd_mq g p) = scbs p" "scb_free (upd_mq g p) = scb_free p" "scbc_rv (app (upd_mq g p)) = scbc_rv (app p)"
  "proto_flags (upd_mq g p) = proto_flags p" "wmq (app (upd_mq g p)) = g (wmq (app p))"
  by (simp_all add: upd_mq_def)

lemma upd_req_thresh [simp]: "ipath_thresh_rv (upd_req r g mq) = ipath_thresh_rv mq"
  by (simp add: upd_req_def)

lemma req_alloc_keeps:
  assumes "psmi_mq_req_alloc env MQE_TYPE_SEND mq = Inr (r, mq')"
  shows "ipath_thresh_rv mq' = ipath_thresh_rv mq" "completed_q mq' = completed_q mq" "mq_mem mq' = mq_mem mq"
    "r \<noteq> 0 \<Longrightarrow> req_state (reqs mq' r) = MQ_STATE_FREE"
  using assms by (auto simp: psmi_mq_req_alloc_def split: if_splits option.splits)

text \<open>
  A non-blocking send of a message that is longer than a packet and shorter than the rendezvous limit, by programmed I/O, while
  enough control blocks are free. The call returns; the frames it has queued on the flow behind the earlier ones are an envelope
  that the receiver reads as one with the message's tag, length and number, and data frames of the same number; the pieces they
  carry are consecutive, fit into packets and make up the message; the last frame, and no other one, completes the
  request, which is not complete yet.
\<close>

lemma isend_eager_frames:
  fixes p :: proto and cx :: ips_mq_ctx and epaddr :: u64
  defines "fl \<equiv> Ep_flow (ptladdr cx epaddr) 0" and "piosize \<equiv> epr_piosize cx (ptladdr cx epaddr)"
  assumes "quiet cx fl" "proto_flags p AND IPS_PROTO_FLAG_MQ_ENVELOPE_SDMA = 0" "transfer (flows p fl) = PSM_TRANSFER_PIO"
      "protocol (flows p fl) = PSM_PROTOCOL_GO_BACK_N" "distinct (scb_free p)" "set (scb_free p) \<inter> set (scb_unacked (flows p fl)) = {}"
    and len: "8 < len" "ucast piosize < len" "len \<le> ipath_thresh_rv (mq_of p)" "len < iovec_thresh_eager cx" "unat len < 2 ^ 31"
      "frag_size cx fl = ucast piosize" "piosize \<noteq> 0"
    and enough: "(unat len - 1) div unat piosize + 2 \<le> length (scb_free p)"
    and al: "psmi_mq_req_alloc (req_env cx) MQE_TYPE_SEND (mq_of p) = Inr (req, mq1)" "req \<noteq> 0"
  shows "\<exists>xs ns err p'. ips_proto_mq_isend cx epaddr 0 tag ubuf len ctx p = Some (Inr (err, req, p')) \<and>
    queued fl p' = queued fl p @ xs \<and>
    eager_frames (hdr_flowid fl p) tag (ips_flow.egr_flowid (flows p fl)) (ips_flow.egr_msgno (flows p fl)) ubuf len ns xs \<and>
    (\<forall>n \<in> set ns. 0 < n \<and> n \<le> ucast piosize) \<and>
    (\<forall>m. concat (map (\<lambda>(a, n). bytes_at m a (unat n)) (pieces ubuf ns)) = bytes_at m ubuf (unat len)) \<and>
    completes CB_EAGER_COMPLETE req xs \<and> req_state (reqs (mq_of p') req) \<noteq> MQ_STATE_COMPLETE \<and> completed_q (mq_of p') = completed_q (mq_of p)"
proof -
  let ?i = "ptladdr cx epaddr"
  define p1 where "p1 = set_req req (\<lambda>q. q\<lparr>req_buf := ubuf, req_buf_len := len\<rparr>)
    (set_req req (\<lambda>q. q\<lparr>send_msglen := len, req_tag := tag, req_context := ctx\<rparr>) (p\<lparr>app := (app p)\<lparr>wmq := mq1\<rparr>\<rparr>))"
  have k: "flows p1 = flows p" "scb_free p1 = scb_free p" "proto_flags p1 = proto_flags p" "queued fl p1 = queued fl p"
    "completed_q (mq_of p1) = completed_q (mq_of p)" "req_state (reqs (mq_of p1) req) = MQ_STATE_FREE"
    using req_alloc_keeps [OF al(1)] al(2) by (simp_all add: p1_def)
  have c: "quiet cx (Ep_flow ?i 0)" "proto_flags p1 AND IPS_PROTO_FLAG_MQ_ENVELOPE_SDMA = 0" "transfer (flows p1 (Ep_flow ?i 0)) = PSM_TRANSFER_PIO"
      "protocol (flows p1 (Ep_flow ?i 0)) = PSM_PROTOCOL_GO_BACK_N" "distinct (scb_free p1)" "set (scb_free p1) \<inter> set (scb_unacked (flows p1 (Ep_flow ?i 0))) = {}"
      "ucast (epr_piosize cx ?i) < len" "8 < len" "frag_size cx (Ep_flow ?i 0) = ucast (epr_piosize cx ?i)" "epr_piosize cx ?i \<noteq> 0"
      "(unat len - 1) div unat (epr_piosize cx ?i) + 2 \<le> length (scb_free p1)"
    using assms(3-8) len enough by (simp_all add: k fl_def piosize_def word_less_nat_alt)
  obtain xs ns err p' where S: "send_long cx ?i (iovec_thresh_eager cx) tag ubuf len req p1 = Some (Inr (err, p'))"
      "queued fl p' = queued fl p1 @ xs" "eager_frames (hdr_flowid fl p1) tag (ips_flow.egr_flowid (flows p1 fl)) (ips_flow.egr_msgno (flows p1 fl)) ubuf len ns xs"
      "completes CB_EAGER_COMPLETE req xs" "(\<Sum>n \<leftarrow> ns. unat n) = unat len" "\<forall>n \<in> set ns. 0 < n \<and> n \<le> ucast (epr_piosize cx ?i)" "app p' = app p1"
    using send_long_pio [OF c(1-4) al(2) c(5-8) len(4,5) c(9-11)] unfolding fl_def by blast
  have "\<not> len \<le> MQ_IPATH_THRESH_TINY" "\<not> len \<le> ucast (epr_piosize cx ?i)" using len(1,2) by (simp_all add: MQ_IPATH_THRESH_TINY_def piosize_def not_le)
  then have "ips_proto_mq_isend cx epaddr 0 tag ubuf len ctx p = Some (Inr (err, req, tx_account len p'))"
    using al S(1) len(3) req_alloc_keeps(1) [OF al(1)] unfolding p1_def by (simp add: ips_proto_mq_isend_def in_mq_def Let_def)
  moreover have "\<forall>m. concat (map (\<lambda>(a, n). bytes_at m a (unat n)) (pieces ubuf ns)) = bytes_at m ubuf (unat len)"
    using pieces_bytes S(5) by metis
  ultimately show ?thesis using S k
    by (intro exI [of _ xs] exI [of _ ns] exI [of _ err] exI [of _ "tx_account len p'"]) (simp add: tx_account_def piosize_def)
qed

text \<open>A connection with packets of sixteen bytes, and a queue without requests.\<close>

definition demo_rv :: ips_scbctrl where
  "demo_rv = \<lparr>scb_num = 2, scb_num_cur = 2, scb_free = [0x3000, 0x30C0], scb_base = 0x3000, scb_avail_callback = Some 0, scb_avail_context = 0,
     scb_imm_size = 0, scb_imm_buf = 0, sbuf_num = 0, sbuf_num_cur = 0, sbuf_free = [], sbuf_buf_alloc = 0, sbuf_buf_size = 0, sbuf_buf_base = 0,
     sbuf_buf_last = 0, scbs = (\<lambda>_. scb_calloc)\<rparr>"

definition demo_world :: mq_world where
  "demo_world = \<lparr>wmq = MQ_Props.demo_mq, scbc_rv = demo_rv, pend_sends_pool = demo_pool, pend_sreq = (\<lambda>_. (IPS_PENDSEND_EAGER_DATA, 0)), pendq = [], pend_timer = None\<rparr>"

definition demo_cx :: ips_mq_ctx where
  "demo_cx = \<lparr>cx_env = Ips_Data.demo_env, req_env = MQ_Props.demo_env, sreq_chunk = None, poll_internal = (\<lambda>p. Inr (PSM_OK, p)),
     ep_poll = (\<lambda>p. Inr (PSM_OK, p)), epr_piosize = (\<lambda>_. 16), frag_size = (\<lambda>_. 16), iovec_thresh_eager = 64000, iovec_thresh_eager_blocking = 64000,
     pagesize = 4096, protoexp = False, ptladdr = (\<lambda>_. 0), epaddr_of = (\<lambda>_. 1), tid_get_from_token = (\<lambda>_ p. Inr p)\<rparr>"

abbreviation demo_ips :: proto where "demo_ips \<equiv> demo_proto demo_world"

lemma demo_send_req: "\<exists>mq1. psmi_mq_req_alloc (req_env demo_cx) MQE_TYPE_SEND (mq_of demo_ips) = Inr (0x20c0, mq1)"
  by (simp add: psmi_mq_req_alloc_def demo_cx_def demo_world_def demo_mq_def MQ_Props.demo_env_def demo_gets)

lemma demo_cx_quiet: "quiet demo_cx fl" by (simp add: quiet_def demo_cx_def)

section \<open>Pushing the data of a rendezvous\<close>

definition req_frames :: "u32 \<Rightarrow> (ips_hdr \<times> nat option \<times> u64) list \<Rightarrow> (u64 \<times> u32) list \<Rightarrow> bool" where
  "req_frames idx hs ps \<longleftrightarrow> list_all2 (\<lambda>x (a, n). carries (fst x) (Mq_data_req idx a n)) hs ps"

lemma rv_alloc_none: "rv_free p = [] \<Longrightarrow> \<exists>p'. rv_scbctrl_alloc 1 0 0 p = Inr ([], p') \<and> queued fl p' = queued fl p \<and> mq_of p' = mq_of p \<and> rv_free p' = []"
  by (simp add: rv_scbctrl_alloc_def queued_def)

lemma rv_alloc_one:
  fixes p :: proto
  assumes "rv_free p = s # rest"
  shows "\<exists>p'. rv_scbctrl_alloc 1 0 0 p = Inr ([s], p') \<and> rv_free p' = rest \<and> flows p' = flows p \<and> mq_of p' = mq_of p \<and>
    (\<forall>t. t \<noteq> s \<longrightarrow> scbs p' t = scbs p t) \<and> scb_callback (scbs p' s) = None"
proof -
  have k: "scb_free (scb_account s c) = scb_free c" "t \<noteq> s \<Longrightarrow> scbs (scb_account s c) t = scbs c t"
    "scb_callback (scbs (scb_account s c) s) = scb_callback (scbs c s)" for c :: ips_scbctrl and t
    by (simp_all add: scb_account_def Let_def upd_scb_def)
  have f: "scb_free (upd_scb s g c) = scb_free c" "t \<noteq> s \<Longrightarrow> scbs (upd_scb s g c) t = scbs c t" for g t and c :: ips_scbctrl
    by (simp_all add: upd_scb_def)
  show ?thesis using assms by (simp add: rv_scbctrl_alloc_def scb_attach_def Let_def k f)
qed

lemma push_frame_none:
  assumes "rv_free p = []"
  shows "\<exists>p'. push_data_frame cx req left p = Inr (None, p') \<and> queued fl p' = queued fl p \<and> mq_of p' = mq_of p \<and> rv_free p' = []"
proof -
  obtain p' where "rv_scbctrl_alloc 1 0 0 p = Inr ([], p')" "queued fl p' = queued fl p" "mq_of p' = mq_of p" "rv_free p' = []"
    using rv_alloc_none [OF assms] by blast
  then show ?thesis by (simp add: push_data_frame_def)
qed

lemma push_frame_pio:
  fixes left :: u32 and p :: proto and req :: u64
  defines "r \<equiv> reqs (mq_of p) req"
  assumes i: "i = ptladdr cx (rts_peer r)" and pio: "transfer (flows p (Ep_flow i 0)) = PSM_TRANSFER_PIO" and gbn: "protocol (flows p (Ep_flow i 0)) = PSM_PROTOCOL_GO_BACK_N"
    and free: "rv_free p = s # rest" "s \<notin> set (scb_unacked (flows p (Ep_flow i 0)))"
    and n: "n = min left (ucast (epr_piosize cx i))"
  shows "\<exists>h prm p'. push_data_frame cx req left p = Inr (Some n, p') \<and>
    queued (Ep_flow i 0) p' = queued (Ep_flow i 0) p @ [(h, if left = n then Some CB_RV_COMPLETE else None, prm)] \<and> (left = n \<longrightarrow> prm = req) \<and>
    carries h (Mq_data_req (rts_reqidx_peer r) (req_buf r + ucast (send_msgoff r)) n) \<and>
    mq_of p' = upd_req req (\<lambda>q. q\<lparr>send_msgoff := send_msgoff q + n\<rparr>) (mq_of p) \<and> rv_free p' = rest \<and>
    scb_unacked (flows p' (Ep_flow i 0)) = scb_unacked (flows p (Ep_flow i 0)) @ [s] \<and>
    transfer (flows p' (Ep_flow i 0)) = PSM_TRANSFER_PIO \<and> protocol (flows p' (Ep_flow i 0)) = PSM_PROTOCOL_GO_BACK_N"
proof -
  let ?fl = "Ep_flow i 0"
  obtain p1 where a: "rv_scbctrl_alloc 1 0 0 p = Inr ([s], p1)" "rv_free p1 = rest" "flows p1 = flows p" "mq_of p1 = mq_of p"
      "\<And>t. t \<noteq> s \<Longrightarrow> scbs p1 t = scbs p t" "scb_callback (scbs p1 s) = None"
    using rv_alloc_one [OF free(1)] by blast
  define x1 where "x1 = (scbs p1 s)\<lparr>payload_size := n, lrh_sub_opcode := OPCODE_SEQ_MQ_CTRL, lrh_mqhdr := Ips_Recv.MQ_MSG_DATA_REQ,
    payload := req_buf r + ucast (send_msgoff r), lrh_data := (set_hi32 (send_msgoff r) (set_lo32 (rts_reqidx_peer r) (fst (lrh_data (scbs p1 s)))), snd (lrh_data (scbs p1 s)))\<rparr>"
  define x2 where "x2 = (if left = n then x1\<lparr>scb_callback := Some CB_RV_COMPLETE, cb_param := req, scb_flags := scb_flags x1 OR IPS_SEND_FLAG_ACK_REQ\<rparr> else x1)"
  define p2 where "p2 = upd_scb s (\<lambda>_. x2) p1"
  have k: "flows p2 = flows p" "mq_of p2 = mq_of p" "rv_free p2 = rest" "scbs p2 s = x2" "\<And>t. t \<noteq> s \<Longrightarrow> scbs p2 t = scbs p t"
    using a by (simp_all add: p2_def scb_kept)
  have q2: "queued ?fl p2 = queued ?fl p" unfolding queued_def k(1) using k(5) free(2) by (auto intro!: map_cong) metis+
  have x: "lrh_sub_opcode x2 = OPCODE_SEQ_MQ_CTRL" "lrh_mqhdr x2 = Ips_Recv.MQ_MSG_DATA_REQ" "payload x2 = req_buf r + ucast (send_msgoff r)" "payload_size x2 = n"
    "fst (lrh_data x2) = set_hi32 (send_msgoff r) (set_lo32 (rts_reqidx_peer r) (fst (lrh_data (scbs p1 s))))"
    "scb_callback x2 = (if left = n then Some CB_RV_COMPLETE else None)" "left = n \<longrightarrow> cb_param x2 = req"
    using a(6) by (auto simp: x2_def x1_def)
  have prot: "protocol (flows p2 ?fl) \<noteq> PSM_PROTOCOL_TIDFLOW" "s \<notin> set (scb_unacked (flows p2 ?fl))" using gbn free(2) by (simp_all add: k)
  define p3 where "p3 = ips_proto_flow_enqueue (cx_env cx) ?fl s p2"
  note E = enqueue_queued [OF prot, where e = "cx_env cx", folded p3_def, unfolded k(4)]
  have "transfer (flows p3 ?fl) = PSM_TRANSFER_PIO" using E(2) pio by (simp add: tx_kept_def k)
  then obtain err p4 where p4: "flush_err cx ?fl p3 = Inr (err, p4)" "tx_view ?fl p4 = tx_view ?fl p3" using flush_pio_ok by blast
  note v = view_kept [OF p4(2)]
  obtain h where h: "queued ?fl p3 = queued ?fl p @ [(h, if left = n then Some CB_RV_COMPLETE else None, cb_param x2)]"
      "h_sub_opcode h = OPCODE_SEQ_MQ_CTRL" "h_mqhdr h = Ips_Recv.MQ_MSG_DATA_REQ" "h_payload h = req_buf r + ucast (send_msgoff r)" "h_paylen h = n"
      "fst (h_data h) = set_hi32 (send_msgoff r) (set_lo32 (rts_reqidx_peer r) (fst (lrh_data (scbs p1 s))))"
    using E(1) by (auto simp: x q2)
  have c: "carries h (Mq_data_req (rts_reqidx_peer r) (req_buf r + ucast (send_msgoff r)) n)" using carries_data_req [OF h(2,3,6)] h(4,5) by simp
  have "push_data_frame cx req left p = Inr (Some n, set_req req (\<lambda>q. q\<lparr>send_msgoff := send_msgoff q + n\<rparr>) p4)"
  proof -
    have "(if left = n then upd_scb s (\<lambda>x. x\<lparr>scb_callback := Some CB_RV_COMPLETE, cb_param := req, scb_flags := scb_flags x OR IPS_SEND_FLAG_ACK_REQ\<rparr>) q else q) = p2"
      if "q = upd_scb s (\<lambda>x. x\<lparr>payload_size := n, lrh_sub_opcode := OPCODE_SEQ_MQ_CTRL, lrh_mqhdr := Ips_Recv.MQ_MSG_DATA_REQ,
        payload := req_buf r + ucast (send_msgoff r), lrh_data := (set_hi32 (send_msgoff r) (set_lo32 (rts_reqidx_peer r) (fst (lrh_data x))), snd (lrh_data x))\<rparr>) p1" for q
      unfolding that p2_def x2_def x1_def by (simp add: upd_scb_def)
    note eq = this [OF refl]
    show ?thesis unfolding push_data_frame_def a(1) Let_def
      using p4(1) by (simp only: run_bind_simps prod.case list.case a(4) r_def [symmetric] i [symmetric] n [symmetric] EP_FLOW_GO_BACK_N_PIO_def eq p3_def [symmetric])
  qed
  then show ?thesis using h(1) c x(7) v(2,3) E(2,3) v(1) [of "{}"] pio gbn
    by (intro exI [of _ h] exI [of _ "cb_param x2"] exI [of _ "set_req req (\<lambda>q. q\<lparr>send_msgoff := send_msgoff q + n\<rparr>) p4"]) (simp add: tx_kept_def k)
qed

lemma upd_req_id [simp]: "upd_req r (\<lambda>q. q) mq = mq"
  by (simp add: upd_req_def)

lemma push_loop_pio:
  fixes left :: u32 and p :: proto
  assumes "i = ptladdr cx (rts_peer (reqs (mq_of p) req))" "transfer (flows p (Ep_flow i 0)) = PSM_TRANSFER_PIO"
    "protocol (flows p (Ep_flow i 0)) = PSM_PROTOCOL_GO_BACK_N" "rv_free p = bs" "distinct bs" "set bs \<inter> set (scb_unacked (flows p (Ep_flow i 0))) = {}"
    "epr_piosize cx i \<noteq> 0" "unat (send_msgoff (reqs (mq_of p) req)) + unat left < 2 ^ 32"
  shows "\<exists>hs ns err p'. push_data_loop cx req left p = Inr (err, p') \<and> queued (Ep_flow i 0) p' = queued (Ep_flow i 0) p @ hs \<and>
    req_frames (rts_reqidx_peer (reqs (mq_of p) req)) hs (pieces (req_buf (reqs (mq_of p) req) + ucast (send_msgoff (reqs (mq_of p) req))) ns) \<and>
    (\<forall>n \<in> set ns. 0 < n \<and> n \<le> ucast (epr_piosize cx i)) \<and>
    mq_of p' = upd_req req (\<lambda>q. q\<lparr>send_msgoff := send_msgoff q + sum_list ns\<rparr>) (mq_of p) \<and>
    (err = PSM_OK \<and> (\<Sum>n \<leftarrow> ns. unat n) = unat left \<and> (left \<noteq> 0 \<longrightarrow> completes CB_RV_COMPLETE req hs) \<or>
     err = PSM_OK_NO_PROGRESS \<and> (\<Sum>n \<leftarrow> ns. unat n) < unat left \<and> rv_free p' = [] \<and> (\<forall>x \<in> set hs. fst (snd x) = None))"
  using assms
proof (induction bs arbitrary: left p)
  case Nil
  show ?case
  proof (cases "left = 0")
    case True
    then show ?thesis by (subst push_data_loop.simps) (auto simp: req_frames_def intro!: exI [of _ "[]"])
  next
    case False
    obtain p' where "push_data_frame cx req left p = Inr (None, p')" "queued (Ep_flow i 0) p' = queued (Ep_flow i 0) p" "mq_of p' = mq_of p" "rv_free p' = []"
      using push_frame_none [OF Nil.prems(4)] by blast
    then show ?thesis using False
      by (subst push_data_loop.simps) (auto simp: req_frames_def unat_gt_0 intro!: exI [of _ "[]"])
  qed
next
  case (Cons s bs)
  let ?fl = "Ep_flow i 0" and ?z = "ucast (epr_piosize cx i) :: u32"
  define r where "r = reqs (mq_of p) req"
  define n where "n = min left ?z"
  show ?case
  proof (cases "left = 0")
    case True
    then show ?thesis by (subst push_data_loop.simps) (auto simp: req_frames_def intro!: exI [of _ "[]"])
  next
    case False
    have "0 < unat (epr_piosize cx i)" using Cons.prems(7) by (simp add: unat_gt_0)
    then have "0 < unat ?z" by (simp add: unat_ucast_up)
    then have z: "0 < ?z" by (simp add: word_less_nat_alt)
    then have n: "0 < n" "n \<le> ?z" "n \<le> left" "left \<noteq> n \<Longrightarrow> n = ?z" using False by (auto simp: n_def min_def word_greater_zero_iff)
    have "s \<notin> set (scb_unacked (flows p ?fl))" using Cons.prems by auto
    from push_frame_pio [OF Cons.prems(1,2,3,4) this n_def] obtain h prm p1 where
      F: "push_data_frame cx req left p = Inr (Some n, p1)" "queued ?fl p1 = queued ?fl p @ [(h, if left = n then Some CB_RV_COMPLETE else None, prm)]"
        "left = n \<longrightarrow> prm = req" "carries h (Mq_data_req (rts_reqidx_peer r) (req_buf r + ucast (send_msgoff r)) n)"
        "mq_of p1 = upd_req req (\<lambda>q. q\<lparr>send_msgoff := send_msgoff q + n\<rparr>) (mq_of p)" "rv_free p1 = bs"
        "scb_unacked (flows p1 ?fl) = scb_unacked (flows p ?fl) @ [s]" "transfer (flows p1 ?fl) = PSM_TRANSFER_PIO" "protocol (flows p1 ?fl) = PSM_PROTOCOL_GO_BACK_N"
      unfolding r_def by blast
    have r1: "reqs (mq_of p1) req = r\<lparr>send_msgoff := send_msgoff r + n\<rparr>" by (simp add: F(5) r_def)
    have loop: "push_data_loop cx req left p = push_data_loop cx req (left - n) p1" using False F(1) by (subst push_data_loop.simps) simp
    have u: "unat (left - n) = unat left - unat n" "unat n \<le> unat left" using n(3) by (simp_all add: unat_sub word_le_nat_alt)
    have off: "unat (send_msgoff r + n) = unat (send_msgoff r) + unat n" using Cons.prems(8) u(2) by (subst unat_plus_no_wrap) (auto simp: r_def)
    have "(ucast (send_msgoff r + n) :: u64) = of_nat (unat (send_msgoff r + n))" by simp
    then have addr: "req_buf r + ucast (send_msgoff r + n) = req_buf r + ucast (send_msgoff r) + ucast n" by (simp only: off of_nat_add) (simp add: add.assoc)
    show ?thesis
    proof (cases "left = n")
      case True
      then have "push_data_loop cx req left p = Inr (PSM_OK, p1)" unfolding loop by (subst push_data_loop.simps) simp
      then show ?thesis using True F n r_def
        by (intro exI [of _ "[(h, Some CB_RV_COMPLETE, req)]"] exI [of _ "[n]"] exI [of _ PSM_OK] exI [of _ p1]) (simp add: req_frames_def completes_def)
    next
      case neq: False
      have "i = ptladdr cx (rts_peer (reqs (mq_of p1) req))" "distinct bs" "set bs \<inter> set (scb_unacked (flows p1 ?fl)) = {}"
        "unat (send_msgoff (reqs (mq_of p1) req)) + unat (left - n) < 2 ^ 32"
        using Cons.prems(1,5,6,8) F(7) u off by (auto simp: r1 r_def [symmetric])
      from Cons.IH [OF this(1) F(8,9,6) this(2,3) Cons.prems(7) this(4)] obtain hs ns err p' where
        I: "push_data_loop cx req (left - n) p1 = Inr (err, p')" "queued ?fl p' = queued ?fl p1 @ hs"
          "req_frames (rts_reqidx_peer r) hs (pieces (req_buf r + ucast (send_msgoff r + n)) ns)" "\<forall>n \<in> set ns. 0 < n \<and> n \<le> ?z"
          "mq_of p' = upd_req req (\<lambda>q. q\<lparr>send_msgoff := send_msgoff q + sum_list ns\<rparr>) (mq_of p1)"
          "err = PSM_OK \<and> (\<Sum>n \<leftarrow> ns. unat n) = unat (left - n) \<and> (left - n \<noteq> 0 \<longrightarrow> completes CB_RV_COMPLETE req hs) \<or>
           err = PSM_OK_NO_PROGRESS \<and> (\<Sum>n \<leftarrow> ns. unat n) < unat (left - n) \<and> rv_free p' = [] \<and> (\<forall>x \<in> set hs. fst (snd x) = None)"
        unfolding r1 by auto
      have fr: "req_frames (rts_reqidx_peer r) ((h, None, prm) # hs) (pieces (req_buf r + ucast (send_msgoff r)) (n # ns))"
        using I(3) F(4) by (simp add: req_frames_def addr)
      have mq: "mq_of p' = upd_req req (\<lambda>q. q\<lparr>send_msgoff := send_msgoff q + sum_list (n # ns)\<rparr>) (mq_of p)"
        unfolding I(5) F(5) by (simp add: upd_req_def add.assoc)
      have "left - n \<noteq> 0" using neq by simp
      then have res: "err = PSM_OK \<and> (\<Sum>n \<leftarrow> n # ns. unat n) = unat left \<and> (left \<noteq> 0 \<longrightarrow> completes CB_RV_COMPLETE req ((h, None, prm) # hs)) \<or>
          err = PSM_OK_NO_PROGRESS \<and> (\<Sum>n \<leftarrow> n # ns. unat n) < unat left \<and> rv_free p' = [] \<and> (\<forall>x \<in> set ((h, None, prm) # hs). fst (snd x) = None)"
        using I(6) u by (auto simp: completes_def)
      show ?thesis using loop I(1,2,4) F(2) neq n fr mq res unfolding r_def
        by (intro exI [of _ "(h, None, prm) # hs"] exI [of _ "n # ns"] exI [of _ err] exI [of _ p']) simp
    qed
  qed
qed

text \<open>
  C9: Pushing the data of a rendezvous whose receiver has agreed. Whatever number of control blocks is free, the call returns, and the
  frames it queues carry consecutive pieces of the message from where the last call stopped, each addressed to the request that the receiver
  named and not longer than a packet. If the blocks suffice, the pieces reach the end of the message and the last frame, and no other one,
  completes the request; if not, all blocks are in use, nothing completes the request, and the offset says exactly how far the call got.
\<close>

theorem push_eager_data_resumes:
  fixes p :: proto and cx :: ips_mq_ctx and req :: u64
  defines "r \<equiv> reqs (mq_of p) req"
  defines "i \<equiv> ptladdr cx (rts_peer r)"
  assumes "transfer (flows p (Ep_flow i 0)) = PSM_TRANSFER_PIO" "protocol (flows p (Ep_flow i 0)) = PSM_PROTOCOL_GO_BACK_N"
    "distinct (rv_free p)" "set (rv_free p) \<inter> set (scb_unacked (flows p (Ep_flow i 0))) = {}" "epr_piosize cx i \<noteq> 0" "send_msgoff r < send_msglen r"
  shows "\<exists>hs ns err p'. ips_proto_mq_push_eager_data cx req p = Inr (err, p') \<and> queued (Ep_flow i 0) p' = queued (Ep_flow i 0) p @ hs \<and>
    req_frames (rts_reqidx_peer r) hs (pieces (req_buf r + ucast (send_msgoff r)) ns) \<and> (\<forall>n \<in> set ns. 0 < n \<and> n \<le> ucast (epr_piosize cx i)) \<and>
    unat (send_msgoff (reqs (mq_of p') req)) = unat (send_msgoff r) + (\<Sum>n \<leftarrow> ns. unat n) \<and>
    (if err = PSM_OK then send_msgoff (reqs (mq_of p') req) = send_msglen r \<and> completes CB_RV_COMPLETE req hs
     else err = PSM_OK_NO_PROGRESS \<and> send_msgoff (reqs (mq_of p') req) < send_msglen r \<and> rv_free p' = [] \<and> (\<forall>x \<in> set hs. fst (snd x) = None))"
proof -
  let ?left = "send_msglen r - send_msgoff r"
  have l: "unat ?left = unat (send_msglen r) - unat (send_msgoff r)" "unat (send_msgoff r) < unat (send_msglen r)"
    using assms(8) by (simp_all add: unat_sub word_le_nat_alt word_less_nat_alt)
  have "unat (send_msglen r) < 2 ^ 32" by (rule order.strict_trans2 [OF unsigned_less]) simp
  then have b: "unat (send_msgoff r) + unat ?left < 2 ^ 32" using l by simp
  have i: "i = ptladdr cx (rts_peer (reqs (mq_of p) req))" by (simp add: i_def r_def)
  obtain hs ns err p' where L: "push_data_loop cx req ?left p = Inr (err, p')" "queued (Ep_flow i 0) p' = queued (Ep_flow i 0) p @ hs"
      "req_frames (rts_reqidx_peer r) hs (pieces (req_buf r + ucast (send_msgoff r)) ns)" "\<forall>n \<in> set ns. 0 < n \<and> n \<le> ucast (epr_piosize cx i)"
      "mq_of p' = upd_req req (\<lambda>q. q\<lparr>send_msgoff := send_msgoff q + sum_list ns\<rparr>) (mq_of p)"
      "err = PSM_OK \<and> (\<Sum>n \<leftarrow> ns. unat n) = unat ?left \<and> (?left \<noteq> 0 \<longrightarrow> completes CB_RV_COMPLETE req hs) \<or>
       err = PSM_OK_NO_PROGRESS \<and> (\<Sum>n \<leftarrow> ns. unat n) < unat ?left \<and> rv_free p' = [] \<and> (\<forall>x \<in> set hs. fst (snd x) = None)"
    using push_loop_pio [OF i assms(3,4) refl assms(5-7), of ?left] b unfolding r_def by blast
  have o: "send_msgoff (reqs (mq_of p') req) = send_msgoff r + sum_list ns" by (simp add: L(5) r_def)
  have "sum_list ns = of_nat (\<Sum>n \<leftarrow> ns. unat n)" by (induction ns) simp_all
  then have w: "send_msgoff (reqs (mq_of p') req) = of_nat (unat (send_msgoff r) + (\<Sum>n \<leftarrow> ns. unat n))" by (simp add: o)
  have le: "unat (send_msgoff r) + (\<Sum>n \<leftarrow> ns. unat n) \<le> unat (send_msglen r)" using L(6) l by auto
  have "unat (send_msgoff r) + (\<Sum>n \<leftarrow> ns. unat n) < 2 ^ LENGTH(32)" using le \<open>unat (send_msglen r) < 2 ^ 32\<close> by simp
  then have u: "unat (send_msgoff (reqs (mq_of p') req)) = unat (send_msgoff r) + (\<Sum>n \<leftarrow> ns. unat n)"
    unfolding w unat_of_nat by (rule mod_less)
  have "?left \<noteq> 0" using assms(8) by auto
  then have "if err = PSM_OK then send_msgoff (reqs (mq_of p') req) = send_msglen r \<and> completes CB_RV_COMPLETE req hs
     else err = PSM_OK_NO_PROGRESS \<and> send_msgoff (reqs (mq_of p') req) < send_msglen r \<and> rv_free p' = [] \<and> (\<forall>x \<in> set hs. fst (snd x) = None)"
    using L(6) u l by (auto simp: word_less_nat_alt word_unat_eq_iff)
  then show ?thesis using L u unfolding ips_proto_mq_push_eager_data_def r_def [symmetric] by blast
qed

theorem push_eager_data_resumes_witness:
  fixes p :: proto
  defines "p \<equiv> set_req 7 (\<lambda>q. q\<lparr>req_buf := 0xa000, send_msglen := 20, send_msgoff := 0, rts_peer := 1, rts_reqidx_peer := 3\<rparr>) demo_ips"
  shows "\<exists>hs ns err p'. ips_proto_mq_push_eager_data demo_cx 7 p = Inr (err, p') \<and> queued (Ep_flow 0 0) p' = hs \<and>
    req_frames 3 hs (pieces 0xa000 ns) \<and> (\<forall>n \<in> set ns. 0 < n \<and> n \<le> 16) \<and> unat (send_msgoff (reqs (mq_of p') 7)) = (\<Sum>n \<leftarrow> ns. unat n) \<and>
    (if err = PSM_OK then send_msgoff (reqs (mq_of p') 7) = 20 \<and> completes CB_RV_COMPLETE 7 hs
     else err = PSM_OK_NO_PROGRESS \<and> send_msgoff (reqs (mq_of p') 7) < 20 \<and> rv_free p' = [] \<and> (\<forall>x \<in> set hs. fst (snd x) = None))"
proof -
  have r: "reqs (mq_of p) 7 = (reqs (mq_of demo_ips) 7)\<lparr>req_buf := 0xa000, send_msglen := 20, send_msgoff := 0, rts_peer := 1, rts_reqidx_peer := 3\<rparr>"
    by (simp add: p_def)
  have k: "flows p = flows demo_ips" "rv_free p = [0x3000, 0x30C0]" "scbs p = scbs demo_ips" by (simp_all add: p_def upd_mq_def demo_world_def demo_rv_def)
  have q: "queued (Ep_flow 0 0) p = []" by (simp add: queued_def k demo_flow_def)
  have sel: "ptladdr demo_cx 1 = 0" "epr_piosize demo_cx 0 = 16" by (simp_all add: demo_cx_def)
  show ?thesis using push_eager_data_resumes [where p = p and cx = demo_cx and req = 7] by (simp add: r k q sel demo_flow_def cong: if_cong split del: if_split)
qed

end
