(* ===== verification/Ips_Message.thy ===== *)
theory Ips_Message
  imports Ips_Mq_Send
begin

text \<open>
  A message from the send to the receive. The calls into the matched queue that an accepted frame makes (\<^verbatim>\<open>_process_mq\<close> in
  \<^verbatim>\<open>src/ptl_ips/ips_proto_recv.c\<close>) are interpreted by the operations of the matched queue and of \<^verbatim>\<open>src/ptl_ips/ips_proto_mq.c\<close>; the frames
  that a send has queued are handed over in their order, as the go-back-N flow does (\<open>Ips_Reliable\<close>), and the receive gets the bytes of the
  sender's buffer.
\<close>

unbundle bit_operations_syntax

section \<open>The calls of an accepted frame\<close>

text \<open>
  The first eager message of a flow, and the identification of an eager message in a header (tiny and short messages have
  none). A tiny message lies in the header, at the address \<open>ha\<close>.
\<close>

definition egr_first_of :: "ips_mq_ctx \<Rightarrow> nat \<Rightarrow> nat \<Rightarrow> mq_world \<Rightarrow> u24 option" where
  "egr_first_of cx i fi w =
     (case egrlong (wmq w) (epaddr_of cx i) (of_nat fi) of [] \<Rightarrow> None | r # _ \<Rightarrow> Some (psmi_egrid.egr_msgno (egrid (reqs (wmq w) r))))"

definition egrid_of :: "u32 option \<Rightarrow> psmi_egrid" where
  "egrid_of w = (case w of None \<Rightarrow> \<lparr>psmi_egrid.egr_flowid = 0, egr_msgno = 0\<rparr> | Some w \<Rightarrow> \<lparr>psmi_egrid.egr_flowid = ucast w, egr_msgno = ucast (drop_bit 8 w)\<rparr>)"

definition hdr_bytes :: "u64 \<Rightarrow> u8 list" where
  "hdr_bytes d = map (\<lambda>k. ucast (drop_bit (8 * k) d)) [0..<8]"

definition set_mem :: "u64 \<Rightarrow> u8 list \<Rightarrow> proto \<Rightarrow> proto" where
  "set_mem a bs = upd_mq (\<lambda>mq. mq\<lparr>mq_mem := mem_write a bs (mq_mem mq)\<rparr>)"

definition rx_data :: "ips_mq_ctx \<Rightarrow> nat \<Rightarrow> u64 \<Rightarrow> u64 \<Rightarrow> u32 \<Rightarrow> proto \<Rightarrow> proto run" where
  "rx_data cx i r a n p = run_bind (in_mq (psmi_mq_handle_data r (epaddr_of cx i) a n) p) (\<lambda>(_, p). Inr p)"

definition rx_op :: "ips_mq_ctx \<Rightarrow> (nat \<Rightarrow> psm_mq \<Rightarrow> psm_mq run) \<Rightarrow> u64 \<Rightarrow> nat \<Rightarrow> mq_op \<Rightarrow> proto \<Rightarrow> proto run" where
  "rx_op cx ucb ha i call p = (case call of
     Mq_envelope mode tag egr len pay n \<Rightarrow>
       let (a, p) = (case pay of In_buffer a \<Rightarrow> (a, p) | In_header d \<Rightarrow> (ha, set_mem ha (hdr_bytes d) p))
       in run_bind (in_mq (psmi_mq_handle_envelope ucb (req_env cx) mode (epaddr_of cx i) tag (egrid_of egr) len a n) p) (\<lambda>(_, p). Inr p)
   | Mq_data j fi a n \<Rightarrow>
       (case egrlong (mq_of p) (epaddr_of cx j) (of_nat fi) of [] \<Rightarrow> Inl Undefined_Access | r # _ \<Rightarrow> rx_data cx j r a n p)
   | Mq_rts mode tag idx len \<Rightarrow> ips_proto_mq_handle_rts_envelope cx mode i tag idx len p
   | Mq_data_req idx a n \<Rightarrow>
       run_bind (psmi_mpool_find_obj_by_index (rreq_pool (mq_of p)) (sint idx)) (\<lambda>r.
         case r of None \<Rightarrow> Inl Undefined_Access | Some r \<Rightarrow> rx_data cx i r a n p)
   | Mq_cts args \<Rightarrow> ips_proto_mq_handle_cts cx args p)"

text \<open>
  A frame of the sender whose memory is \<open>m\<close>: the device has put its payload into the eager buffer \<open>a\<close>. The result says whether the frame was taken
  or is to come again.
\<close>

definition receive_frame ::
  "ips_mq_ctx \<Rightarrow> (nat \<Rightarrow> psm_mq \<Rightarrow> psm_mq run) \<Rightarrow> u64 \<Rightarrow> nat \<Rightarrow> mem \<Rightarrow> ips_hdr \<Rightarrow> u64 \<Rightarrow> proto \<Rightarrow> (bool \<times> proto) run" where
  "receive_frame cx ucb ha i m h a p =
     (let p = set_mem a (bytes_at m (h_payload h) (unat (h_paylen h))) p;
          ev = \<lparr>ev_ipsaddr = i, ev_hdr = h\<lparr>h_payload := a\<rparr>, ev_ptype = RCVHQ_RCV_TYPE_EAGER, ev_fecn = False, ev_becn = False\<rparr>
      in run_bind (mq_dispatch ((cx_env cx)\<lparr>egr_first := egr_first_of cx\<rparr>) ev p) (\<lambda>r.
           case r of
             None \<Rightarrow> Inr (False, p)
           | Some None \<Rightarrow> Inr (True, p)
           | Some (Some call) \<Rightarrow> run_bind (rx_op cx ucb ha i call p) (\<lambda>p. Inr (True, p))))"

fun receive_frames ::
  "ips_mq_ctx \<Rightarrow> (nat \<Rightarrow> psm_mq \<Rightarrow> psm_mq run) \<Rightarrow> u64 \<Rightarrow> nat \<Rightarrow> mem \<Rightarrow> ips_hdr list \<Rightarrow> (nat \<Rightarrow> u64) \<Rightarrow> proto \<Rightarrow> (bool \<times> proto) run" where
  "receive_frames cx ucb ha i m [] bufs p = Inr (True, p)"
| "receive_frames cx ucb ha i m (h # hs) bufs p =
     run_bind (receive_frame cx ucb ha i m h (bufs 0) p) (\<lambda>(ok, p).
       if ok then receive_frames cx ucb ha i m hs (\<lambda>k. bufs (Suc k)) p else Inr (False, p))"

section \<open>Frames in eager buffers\<close>

text \<open>A frame whose payload was moved carries the same call with the new address.\<close>

fun relocate :: "u64 \<Rightarrow> mq_op \<Rightarrow> mq_op" where
  "relocate a (Mq_envelope mode tag egr len (In_buffer b) n) = Mq_envelope mode tag egr len (In_buffer a) n"
| "relocate a (Mq_data i fi b n) = Mq_data i fi a n"
| "relocate a (Mq_data_req idx b n) = Mq_data_req idx a n"
| "relocate a call = call"

lemma dispatch_relocate:
  "mq_dispatch e (ev\<lparr>ev_hdr := h\<lparr>h_payload := a\<rparr>\<rparr>) q = map_sum id (map_option (map_option (relocate a))) (mq_dispatch e (ev\<lparr>ev_hdr := h\<rparr>) q)"
proof (cases "h_data h")
  case (Pair d0 d1)
  let ?f = "map_sum id (map_option (map_option (relocate a)))"
  have d: "?f (if b then x else y) = (if b then ?f x else ?f y)" for b x y by (rule if_distrib)
  show ?thesis unfolding mq_dispatch_def Let_def by (simp add: Pair d ips_proto_flowid_def split del: if_split cong: if_cong)
qed

lemma carriesD:
  fixes q :: proto
  assumes "carries h call" "ep_flags (ipsaddrs q i) AND SESS_FLAG_HAS_FLOWID \<noteq> 0"
  shows "mq_dispatch e \<lparr>ev_ipsaddr = i, ev_hdr = h\<lparr>h_payload := a\<rparr>, ev_ptype = t, ev_fecn = x, ev_becn = y\<rparr> q = Inr (Some (Some (relocate a call)))"
proof -
  define ev where "ev = \<lparr>ev_ipsaddr = i, ev_hdr = h, ev_ptype = t, ev_fecn = x, ev_becn = y\<rparr>"
  have "mq_dispatch e ev q = Inr (Some (Some call))" using assms unfolding carries_def by (simp add: ev_def)
  then show ?thesis using dispatch_relocate [where e = e and ev = ev and h = h and a = a and q = q] by (simp add: ev_def)
qed

lemma carries_dataD:
  fixes q :: proto
  assumes "carries_data w msgno h pc" "ep_flags (ipsaddrs q i) AND SESS_FLAG_HAS_FLOWID \<noteq> 0" "egr_first e i (unat (w AND 0xF)) (app q) = Some msgno"
  shows "mq_dispatch e \<lparr>ev_ipsaddr = i, ev_hdr = h\<lparr>h_payload := a\<rparr>, ev_ptype = t, ev_fecn = x, ev_becn = y\<rparr> q =
    Inr (Some (Some (Mq_data i (unat (w AND 0xF)) a (snd pc))))"
proof -
  define ev where "ev = \<lparr>ev_ipsaddr = i, ev_hdr = h, ev_ptype = t, ev_fecn = x, ev_becn = y\<rparr>"
  have "ips_proto_flowid h = unat (w AND 0xF)" using assms(1) by (simp add: carries_data_def ips_proto_flowid_def)
  then have "mq_dispatch e ev q = Inr (Some (Some (Mq_data i (unat (w AND 0xF)) (fst pc) (snd pc))))"
    using assms unfolding carries_data_def by (simp add: ev_def)
  then show ?thesis using dispatch_relocate [where e = e and ev = ev and h = h and a = a and q = q] by (simp add: ev_def)
qed


section \<open>Data frames\<close>

lemma set_mem_sel [simp]: "mq_of (set_mem a bs q) = mq_of q\<lparr>mq_mem := mem_write a bs (mq_mem (mq_of q))\<rparr>" "ipsaddrs (set_mem a bs q) = ipsaddrs q"
  by (simp_all add: set_mem_def upd_mq_def)

lemma in_mq_sel: "in_mq f q = Inr (x, q') \<Longrightarrow> f (mq_of q) = Inr (x, mq_of q') \<and> ipsaddrs q' = ipsaddrs q"
  by (auto simp: in_mq_def)

lemma in_mq_Inr: "f (mq_of q) = Inr (x, mq') \<Longrightarrow> in_mq f q = Inr (x, q\<lparr>app := (app q)\<lparr>wmq := mq'\<rparr>\<rparr>)"
  by (simp add: in_mq_def)

text \<open>A data frame is handed to the request that waits first on its flow.\<close>

lemma receive_data_frame:
  fixes q :: proto
  assumes c: "carries_data w msgno h (b, n)" and f: "ep_flags (ipsaddrs q i) AND SESS_FLAG_HAS_FLOWID \<noteq> 0"
    and r: "egrlong (mq_of q) (epaddr_of cx i) (w AND 0xF) = r # rs" "psmi_egrid.egr_msgno (egrid (reqs (mq_of q) r)) = msgno"
    and d: "psmi_mq_handle_data r (epaddr_of cx i) a n (mq_of q\<lparr>mq_mem := mem_write a (bytes_at m b (unat n)) (mq_mem (mq_of q))\<rparr>) = Inr (rc, mq')"
  shows "\<exists>q'. receive_frame cx ucb ha i m h a q = Inr (True, q') \<and> mq_of q' = mq' \<and> ipsaddrs q' = ipsaddrs q"
proof -
  let ?p = "set_mem a (bytes_at m b (unat n)) q" and ?w = "unat (w AND 0xF)"
  let ?e = "(cx_env cx)\<lparr>egr_first := egr_first_of cx\<rparr>"
  have h: "h_payload h = b" "h_paylen h = n" using c by (simp_all add: carries_data_def)
  have w: "of_nat ?w = w AND 0xF" by simp
  have "egr_first ?e i ?w (app ?p) = Some msgno" using r by (simp add: egr_first_of_def w)
  moreover have "ep_flags (ipsaddrs ?p i) AND SESS_FLAG_HAS_FLOWID \<noteq> 0" using f by simp
  ultimately have "mq_dispatch ?e \<lparr>ev_ipsaddr = i, ev_hdr = h\<lparr>h_payload := a\<rparr>, ev_ptype = RCVHQ_RCV_TYPE_EAGER, ev_fecn = False, ev_becn = False\<rparr> ?p =
      Inr (Some (Some (Mq_data i ?w a n)))" using carries_dataD [OF c] by simp
  moreover have "rx_op cx ucb ha i (Mq_data i ?w a n) ?p = Inr (?p\<lparr>app := (app ?p)\<lparr>wmq := mq'\<rparr>\<rparr>)"
    using r(1) d by (simp add: rx_op_def rx_data_def w in_mq_def)
  ultimately show ?thesis unfolding receive_frame_def Let_def h by simp
qed

abbreviation packets :: "mem \<Rightarrow> (nat \<Rightarrow> u64) \<Rightarrow> (u64 \<times> u32) list \<Rightarrow> (u64 \<times> u8 list) list" where
  "packets m bufs pcs \<equiv> map2 (\<lambda>k (b, n). (bufs k, bytes_at m b (unat n))) [0..<length pcs] pcs"

lemma packets_Cons: "packets m bufs ((b, n) # pcs) = (bufs 0, bytes_at m b (unat n)) # packets m (\<lambda>k. bufs (Suc k)) pcs"
proof -
  have "map2 f [Suc 0..<Suc k] xs = map2 (\<lambda>j. f (Suc j)) [0..<k] xs" for f :: "nat \<Rightarrow> u64 \<times> u32 \<Rightarrow> u64 \<times> u8 list" and k xs
    by (simp only: map_Suc_upt [symmetric] zip_map1 map_map) (simp add: comp_def case_prod_unfold)
  then show ?thesis by (simp add: upt_conv_Cons del: upt_Suc)
qed

lemma handle_data_egrid:
  assumes "psmi_mq_handle_data r ep a n mq = Inr (rc, mq')"
  shows "egrid (reqs mq' r) = egrid (reqs mq r)" "req_type (reqs mq' r) = req_type (reqs mq r)"
  using assms by (rule handle_data_cases; auto simp: egrlong_remove_head_def split: list.splits if_splits)+

text \<open>The rest of an eager message, in the order of its frames.\<close>

lemma receive_data_frames:
  fixes q :: proto
  assumes "mq_inv own (mq_of q)" "eager_ready r (epaddr_of cx i) (mq_of q)" "reassembling msg r (mq_of q)"
    "egrid (reqs (mq_of q) r) = \<lparr>psmi_egrid.egr_flowid = w AND 0xF, egr_msgno = msgno\<rparr>" "req_type (reqs (mq_of q) r) AND MQE_TYPE_EGRLONG \<noteq> 0"
    "ep_flags (ipsaddrs q i) AND SESS_FLAG_HAS_FLOWID \<noteq> 0" "data_frames w msgno hs pcs"
    "packets_ok (req_buf (reqs (mq_of q) r)) (unat (recv_msglen (reqs (mq_of q) r))) (packets m bufs pcs)" "hs \<noteq> []"
    "concat (map snd (packets m bufs pcs)) = drop (unat (send_msgoff (reqs (mq_of q) r))) msg" "req_state (reqs (mq_of q) r) = MQ_STATE_MATCHED"
  shows "\<exists>q'. receive_frames cx ucb ha i m (map fst hs) bufs q = Inr (True, q') \<and> mq_inv own (mq_of q') \<and> req_state (reqs (mq_of q') r) = MQ_STATE_COMPLETE \<and>
    (\<forall>k < unat (recv_msglen (reqs (mq_of q) r)). mq_mem (mq_of q') (req_buf (reqs (mq_of q) r) + of_nat k) = msg ! k) \<and>
    completed_q (mq_of q') = completed_q (mq_of q) @ [r]"
  using assms
proof (induction hs arbitrary: q pcs bufs)
  case (Cons x hs)
  let ?mq = "mq_of q" and ?ep = "epaddr_of cx i"
  obtain b n pcs' where pcs: "pcs = (b, n) # pcs'" and c: "carries_data w msgno (fst x) (b, n)" and rest: "data_frames w msgno hs pcs'"
    using Cons.prems(7) by (cases pcs) (auto simp: data_frames_def)
  let ?bs = "bytes_at m b (unat n)" and ?so = "unat (send_msgoff (reqs ?mq r))" and ?bufs = "\<lambda>k. bufs (Suc k)"
  have len: "length ?bs = unat n" "of_nat (length ?bs) = n" by (simp_all add: bytes_at_def)
  note pk = Cons.prems(8) [unfolded pcs packets_Cons]
  have ok: "buf_ok (req_buf (reqs ?mq r)) (unat (recv_msglen (reqs ?mq r)))" "packet_ok (req_buf (reqs ?mq r)) (unat (recv_msglen (reqs ?mq r))) (bufs 0, ?bs)"
    and pk': "packets_ok (req_buf (reqs ?mq r)) (unat (recv_msglen (reqs ?mq r))) (packets m ?bufs pcs')"
    using pk by (simp_all add: packets_ok_def)
  note C = concat_prefix [of ?bs "concat (map snd (packets m ?bufs pcs'))" ?so msg]
  have cat: "?bs @ concat (map snd (packets m ?bufs pcs')) = drop ?so msg" using Cons.prems(10) unfolding pcs packets_Cons by simp
  have nxt: "?bs = take (length ?bs) (drop ?so msg)" and tl: "concat (map snd (packets m ?bufs pcs')) = drop (?so + length ?bs) msg"
    using C [OF cat] by simp_all
  obtain rs where hd: "egrlong ?mq ?ep (w AND 0xF) = r # rs" "psmi_egrid.egr_msgno (egrid (reqs ?mq r)) = msgno"
    using Cons.prems(2,4,5) by (auto simp: eager_ready_def)
  note one = receive_data_frame [OF c Cons.prems(6) hd, where m = m and a = "bufs 0" and ucb = ucb and ha = ha]
  show ?case
  proof (rule handle_data_progress [OF Cons.prems(1-3) ok nxt, unfolded len(2)])
    fix rc mq' assume M: "psmi_mq_handle_data r ?ep (bufs 0) n (?mq\<lparr>mq_mem := mem_write (bufs 0) ?bs (mq_mem ?mq)\<rparr>) = Inr (rc, mq')"
      "?so + length ?bs < length msg" "unat (send_msgoff (reqs mq' r)) = ?so + length ?bs"
      "mq_inv own mq'" "eager_ready r ?ep mq'" "reassembling msg r mq'" "completed_q mq' = completed_q ?mq"
      "req_buf (reqs mq' r) = req_buf (reqs ?mq r)" "recv_msglen (reqs mq' r) = recv_msglen (reqs ?mq r)"
      "req_state (reqs mq' r) = req_state (reqs ?mq r)"
    obtain q1 where q1: "receive_frame cx ucb ha i m (fst x) (bufs 0) q = Inr (True, q1)" "mq_of q1 = mq'" "ipsaddrs q1 = ipsaddrs q"
      using one [OF M(1)] by blast
    note eg = handle_data_egrid [OF M(1)]
    have "hs \<noteq> []" using tl M(2) rest by (auto simp: data_frames_def)
    then have "\<exists>q'. receive_frames cx ucb ha i m (map fst hs) ?bufs q1 = Inr (True, q') \<and> mq_inv own (mq_of q') \<and> req_state (reqs (mq_of q') r) = MQ_STATE_COMPLETE \<and>
        (\<forall>k < unat (recv_msglen (reqs (mq_of q1) r)). mq_mem (mq_of q') (req_buf (reqs (mq_of q1) r) + of_nat k) = msg ! k) \<and>
        completed_q (mq_of q') = completed_q (mq_of q1) @ [r]"
      using M Cons.prems(4-6,11) pk' tl rest eg by (intro Cons.IH [where pcs = pcs']) (simp_all add: q1)
    then show ?thesis using q1 M by simp
  next
    fix rc mq' assume L: "psmi_mq_handle_data r ?ep (bufs 0) n (?mq\<lparr>mq_mem := mem_write (bufs 0) ?bs (mq_mem ?mq)\<rparr>) = Inr (rc, mq')"
      "?so + length ?bs = length msg" "mq_inv own mq'" "req_state (reqs mq' r) = MQ_STATE_COMPLETE" "recv_msglen (reqs mq' r) = recv_msglen (reqs ?mq r)"
      "req_buf (reqs mq' r) = req_buf (reqs ?mq r)"
      "\<And>i. i < unat (recv_msglen (reqs ?mq r)) \<Longrightarrow> mq_mem mq' (req_buf (reqs ?mq r) + of_nat i) = msg ! i"
      "completed_q mq' = (if req_state (reqs ?mq r) = MQ_STATE_MATCHED then completed_q ?mq @ [r] else completed_q ?mq)"
    obtain q1 where q1: "receive_frame cx ucb ha i m (fst x) (bufs 0) q = Inr (True, q1)" "mq_of q1 = mq'" using one [OF L(1)] by blast
    have "concat (map snd (packets m ?bufs pcs')) = []" using tl L(2) by simp
    moreover have "\<forall>p \<in> set (packets m ?bufs pcs'). snd p \<noteq> []" using pk' by (auto simp: packets_ok_def packet_ok_def)
    ultimately have "packets m ?bufs pcs' = []" by (cases "packets m ?bufs pcs'") auto
    then have "pcs' = []" by (cases pcs') (auto simp: packets_Cons)
    then have "hs = []" using rest by (simp add: data_frames_def)
    then show ?thesis using q1 L Cons.prems(11) by simp
  qed
qed simp

section \<open>The envelope\<close>

lemma egrid_of_data: "egrid_of (Some (egr_data fid msgno)) = \<lparr>psmi_egrid.egr_flowid = fid, egr_msgno = msgno\<rparr>"
proof -
  have "(ucast (egr_data fid msgno) :: u8) = fid"
    by (rule bit_word_eqI) (auto simp: egr_data_def bit_simps dest: bit_imp_le_length)
  then show ?thesis by (simp add: egrid_of_def)
qed

lemma receive_envelope:
  fixes q :: proto and mm :: mem
  assumes c: "carries h (Mq_envelope Ips_Recv.MQ_MSG_LONG tag (Some (egr_data fid msgno)) len (In_buffer b) l0)"
    and f: "ep_flags (ipsaddrs q i) AND SESS_FLAG_HAS_FLOWID \<noteq> 0" and inv: "mq_inv own (mq_of q)"
    and m: "expected_match tag (mq_of q) = (Some r, mq_of q\<lparr>expected_q := remove1 r (expected_q (mq_of q))\<rparr>)"
    and e: "egrlong (mq_of q) (epaddr_of cx i) fid = []" and l: "unat len = length msg"
  defines "n \<equiv> min (req_buf_len (reqs (mq_of q) r)) len" and "bs \<equiv> bytes_at mm b (unat l0)"
  assumes pk: "buf_ok (req_buf (reqs (mq_of q) r)) (unat n)" "packet_ok (req_buf (reqs (mq_of q) r)) (unat n) (a, bs)"
    and bs: "bs = take (length bs) msg" "length bs < length msg"
  shows "\<exists>q'. receive_frame cx ucb ha i mm h a q = Inr (True, q') \<and> mq_inv own (mq_of q') \<and> eager_ready r (epaddr_of cx i) (mq_of q') \<and>
    reassembling msg r (mq_of q') \<and> egrid (reqs (mq_of q') r) = \<lparr>psmi_egrid.egr_flowid = fid, egr_msgno = msgno\<rparr> \<and>
    req_type (reqs (mq_of q') r) AND MQE_TYPE_EGRLONG \<noteq> 0 \<and> ipsaddrs q' = ipsaddrs q \<and> unat (send_msgoff (reqs (mq_of q') r)) = length bs \<and>
    req_buf (reqs (mq_of q') r) = req_buf (reqs (mq_of q) r) \<and> recv_msglen (reqs (mq_of q') r) = n \<and>
    req_state (reqs (mq_of q') r) = MQ_STATE_MATCHED \<and> completed_q (mq_of q') = completed_q (mq_of q)"
proof -
  let ?mq = "mq_of q" and ?ep = "epaddr_of cx i" and ?eid = "\<lparr>psmi_egrid.egr_flowid = fid, egr_msgno = msgno\<rparr>"
  let ?L = "long_matched ?ep ?eid r tag len ?mq" and ?p = "set_mem a bs q"
  have long: "Ips_Recv.MQ_MSG_LONG = MQ_State.MQ_MSG_LONG" by (simp add: Ips_Recv.MQ_MSG_LONG_def MQ_State.MQ_MSG_LONG_def)
  have h: "h_payload h = b" "h_paylen h = l0" using c by (auto simp: carries_def)
  have n: "of_nat (length bs) = l0" by (simp add: bs_def bytes_at_def)
  have r: "r \<in> set (expected_q ?mq)" using m by (cases rule: expected_match_cases [of tag ?mq]) auto
  have fd: "find (\<lambda>c. (tag XOR req_tag (reqs ?mq c)) AND req_tagsel (reqs ?mq c) = 0) (expected_q ?mq) = Some r"
    using m by (cases rule: expected_match_cases [of tag ?mq]) auto
  have e': "egrlong ?mq ?ep (psmi_egrid.egr_flowid ?eid) = []" using e by simp
  note S = long_matched_start [OF inv r e' l, of tag]
  have L: "req_buf (reqs ?L r) = req_buf (reqs ?mq r)" "recv_msglen (reqs ?L r) = n" "send_msgoff (reqs ?L r) = 0"
    "req_state (reqs ?L r) = MQ_STATE_MATCHED" "egrid (reqs ?L r) = ?eid" "req_type (reqs ?L r) AND MQE_TYPE_EGRLONG \<noteq> 0"
    using long_matched_fields(3) [of ?ep ?eid r tag len ?mq] eager_state(4) [OF S(1,2)] by (simp_all add: n_def)
  have F: "completed_q ?L = completed_q ?mq" "mq_mem ?L = mq_mem ?mq" by (simp_all add: long_matched_def)
  have em: "expected_match tag (mq_of ?p) = (Some r, mq_of ?p\<lparr>expected_q := remove1 r (expected_q (mq_of ?p))\<rparr>)"
    by (simp add: expected_match_def list_search_remove_def fd)
  have lm: "long_matched ?ep ?eid r tag len (mq_of ?p) = ?L\<lparr>mq_mem := mem_write a bs (mq_mem ?L)\<rparr>"
    by (simp add: long_matched_def egrlong_insert_tail_def upd_req_def)
  have ok: "buf_ok (req_buf (reqs ?L r)) (unat (recv_msglen (reqs ?L r)))" "packet_ok (req_buf (reqs ?L r)) (unat (recv_msglen (reqs ?L r))) (a, bs)"
    using pk by (simp_all add: L)
  have nxt: "bs = take (length bs) (drop (unat (send_msgoff (reqs ?L r))) msg)" using bs(1) L(3) by simp
  have d: "mq_dispatch ((cx_env cx)\<lparr>egr_first := egr_first_of cx\<rparr>)
      \<lparr>ev_ipsaddr = i, ev_hdr = h\<lparr>h_payload := a\<rparr>, ev_ptype = RCVHQ_RCV_TYPE_EAGER, ev_fecn = False, ev_becn = False\<rparr> ?p =
      Inr (Some (Some (Mq_envelope Ips_Recv.MQ_MSG_LONG tag (Some (egr_data fid msgno)) len (In_buffer a) l0)))"
    using carriesD [OF c, of ?p i] f by simp
  have hl: "psmi_mq_handle_envelope ucb (req_env cx) MQ_State.MQ_MSG_LONG ?ep tag ?eid len a l0 (mq_of ?p) =
      run_bind (psmi_mq_handle_data r ?ep a l0 (?L\<lparr>mq_mem := mem_write a bs (mq_mem ?L)\<rparr>)) (\<lambda>(_, mq'). Inr (MQ_RET_MATCH_OK, rx_user_account n mq'))"
    unfolding handle_envelope_long [OF em] lm by (simp add: n_def)
  show ?thesis
  proof (rule handle_data_progress [OF S ok nxt, unfolded n])
    fix rc mq' assume A: "psmi_mq_handle_data r ?ep a l0 (?L\<lparr>mq_mem := mem_write a bs (mq_mem ?L)\<rparr>) = Inr (rc, mq')"
      "unat (send_msgoff (reqs mq' r)) = unat (send_msgoff (reqs ?L r)) + length bs"
      "mq_inv own mq'" "eager_ready r ?ep mq'" "reassembling msg r mq'" "completed_q mq' = completed_q ?L"
      "req_buf (reqs mq' r) = req_buf (reqs ?L r)" "recv_msglen (reqs mq' r) = recv_msglen (reqs ?L r)" "req_state (reqs mq' r) = req_state (reqs ?L r)"
    note eg = handle_data_egrid [OF A(1)]
    let ?q = "?p\<lparr>app := (app ?p)\<lparr>wmq := rx_user_account n mq'\<rparr>\<rparr>"
    have "receive_frame cx ucb ha i mm h a q = Inr (True, ?q)" unfolding receive_frame_def Let_def h bs_def [symmetric] d
      using hl A(1) by (simp add: rx_op_def in_mq_def egrid_of_data long)
    moreover have "req_type (reqs mq' r) AND MQE_TYPE_EGRLONG \<noteq> 0" "egrid (reqs mq' r) = ?eid" using eg L(5,6) by simp_all
    ultimately show ?thesis using A L F account_inv [OF A(3)] by (intro exI [of _ ?q]) (simp add: account_frames)
  next
    assume "unat (send_msgoff (reqs ?L r)) + length bs = length msg"
    then show ?thesis using bs(2) L(3) by simp
  qed
qed

section \<open>From buffer to buffer\<close>

text \<open>The acknowledgements of the frames run their callbacks.\<close>

definition acknowledged :: "(ips_hdr \<times> nat option \<times> u64) list \<Rightarrow> mq_world \<Rightarrow> mq_world" where
  "acknowledged xs w = fold (\<lambda>(h, cb, prm) w. case cb of None \<Rightarrow> w | Some cb \<Rightarrow> mq_completion cb prm w) xs w"

lemma acknowledged_completes:
  assumes "completes cb req xs"
  shows "acknowledged xs w = mq_completion cb req w"
proof -
  obtain ys h where xs: "xs = ys @ [(h, Some cb, req)]"
    using assms unfolding completes_def by (metis append_butlast_last_id prod.collapse)
  have "\<forall>y \<in> set ys. fst (snd y) = None" using assms by (simp add: completes_def xs)
  then have "fold (\<lambda>(h, cb, prm) w. case cb of None \<Rightarrow> w | Some cb \<Rightarrow> mq_completion cb prm w) ys w = w"
    by (induction ys) (auto simp: case_prod_unfold)
  then show ?thesis by (simp add: acknowledged_def xs)
qed

lemma pieces_map [simp]: "length (pieces a ns) = length ns"
  by (induction ns arbitrary: a) simp_all

lemma pieces_len: "(b, n) \<in> set (pieces a ns) \<Longrightarrow> n \<in> set ns"
  by (induction ns arbitrary: a) auto

lemma packets_pieces:
  assumes "\<forall>n \<in> set ns. 0 < n \<and> n \<le> (z :: u32)" "buf_ok buf k" "\<forall>j. bufs j \<noteq> 0 \<and> (\<forall>x < k. \<forall>y < unat z. buf + of_nat x \<noteq> bufs j + of_nat y)"
  shows "packets_ok buf k (packets m bufs (pieces a ns))"
proof -
  have "packet_ok buf k (bufs j, bytes_at m b (unat n))" if "n \<in> set ns" for j b n
  proof -
    have n: "0 < unat n" "unat n \<le> unat z" using assms(1) that by (auto simp: word_less_nat_alt word_le_nat_alt)
    have "unat n < 2 ^ 32" by (rule u32_less)
    moreover have "bytes_at m b (unat n) \<noteq> []" using n(1) by (simp add: bytes_at_def)
    ultimately show ?thesis using assms(3) n(2) by (simp add: packet_ok_def bytes_at_def)
  qed
  then have "packet_ok buf k (bufs j, bytes_at m (fst x) (unat (snd x)))" if "x \<in> set (pieces a ns)" for x j using that pieces_len [of "fst x" "snd x" a ns] by simp
  then show ?thesis using assms(2) by (auto simp: packets_ok_def dest: set_zip_rightD)
qed

lemma packets_concat: "concat (map snd (packets m bufs pcs)) = concat (map (\<lambda>(b, n). bytes_at m b (unat n)) pcs)"
proof (induction pcs arbitrary: bufs)
  case (Cons x pcs)
  show ?case using Cons [of "\<lambda>k. bufs (Suc k)"] by (cases x) (simp only: packets_Cons list.map concat.simps prod.case snd_conv)
qed simp

text \<open>The frames of an eager message, one after the other, at a receiver whose receive is posted.\<close>

lemma receive_eager_frames:
  fixes q :: proto and m :: mem and len :: u32 and w :: u8
  assumes fr: "eager_frames w tag (w AND 0xF) msgno ubuf len ns xs" and ns: "\<forall>n \<in> set ns. 0 < n \<and> n \<le> z" "xs \<noteq> []" "tl xs \<noteq> []"
      "concat (map (\<lambda>(a, n). bytes_at m a (unat n)) (pieces ubuf ns)) = bytes_at m ubuf (unat len)"
    and f: "ep_flags (ipsaddrs q i) AND SESS_FLAG_HAS_FLOWID \<noteq> 0" and inv: "mq_inv own (mq_of q)"
    and mt: "expected_match tag (mq_of q) = (Some r, mq_of q\<lparr>expected_q := remove1 r (expected_q (mq_of q))\<rparr>)"
    and e: "egrlong (mq_of q) (epaddr_of cx i) (w AND 0xF) = []"
  defines "n \<equiv> min (req_buf_len (reqs (mq_of q) r)) len" and "buf \<equiv> req_buf (reqs (mq_of q) r)"
  assumes bo: "buf_ok buf (unat n)" and eb: "\<forall>j. bufs j \<noteq> 0 \<and> (\<forall>x < unat n. \<forall>y < unat z. buf + of_nat x \<noteq> bufs j + of_nat y)"
  shows "\<exists>q'. receive_frames cx ucb ha i m (map fst xs) bufs q = Inr (True, q') \<and> mq_inv own (mq_of q') \<and> req_state (reqs (mq_of q') r) = MQ_STATE_COMPLETE \<and>
    (\<forall>k < unat n. mq_mem (mq_of q') (buf + of_nat k) = m (ubuf + of_nat k)) \<and> completed_q (mq_of q') = completed_q (mq_of q) @ [r]"
proof -
  let ?msg = "bytes_at m ubuf (unat len)" and ?bufs = "\<lambda>k. bufs (Suc k)"
  obtain h prm hs l0 ns' where x: "xs = (h, None, prm) # hs" "ns = l0 # ns'"
    "carries h (Mq_envelope Ips_Recv.MQ_MSG_LONG tag (Some (egr_data (w AND 0xF) msgno)) len (In_buffer ubuf) l0)"
    "data_frames w msgno hs (pieces (ubuf + ucast l0) ns')" using fr unfolding eager_frames_def by blast
  let ?bs = "bytes_at m ubuf (unat l0)" and ?pcs = "pieces (ubuf + ucast l0) ns'"
  have l: "unat len = length ?msg" by (simp add: bytes_at_def)
  have pk: "packets_ok buf (unat n) (packets m bufs (pieces ubuf ns))" by (rule packets_pieces [OF ns(1) bo eb])
  have pk': "packet_ok buf (unat n) (bufs 0, ?bs)" "packets_ok buf (unat n) (packets m ?bufs ?pcs)"
    using pk unfolding x(2) pieces.simps packets_Cons by (simp_all add: packets_ok_def)
  have cat: "?bs @ concat (map snd (packets m ?bufs ?pcs)) = ?msg" using ns(4) unfolding packets_concat by (simp add: x(2))
  have hs: "hs \<noteq> []" using ns(3) x(1) by simp
  then have "?pcs \<noteq> []" using x(4) by (auto simp: data_frames_def)
  then have "packets m ?bufs ?pcs \<noteq> []" by (cases ?pcs) (auto simp: packets_Cons)
  then have "concat (map snd (packets m ?bufs ?pcs)) \<noteq> []" using pk'(2) by (cases "packets m ?bufs ?pcs") (auto simp: packets_ok_def packet_ok_def)
  then have bs: "?bs = take (length ?bs) ?msg" "length ?bs < length ?msg" using cat
    by (metis append_eq_conv_conj, metis cat length_append less_add_same_cancel1 length_greater_0_conv)
  obtain q1 where q1: "receive_frame cx ucb ha i m h (bufs 0) q = Inr (True, q1)" "mq_inv own (mq_of q1)" "eager_ready r (epaddr_of cx i) (mq_of q1)"
      "reassembling ?msg r (mq_of q1)" "egrid (reqs (mq_of q1) r) = \<lparr>psmi_egrid.egr_flowid = w AND 0xF, egr_msgno = msgno\<rparr>"
      "req_type (reqs (mq_of q1) r) AND MQE_TYPE_EGRLONG \<noteq> 0" "ipsaddrs q1 = ipsaddrs q" "unat (send_msgoff (reqs (mq_of q1) r)) = length ?bs"
      "req_buf (reqs (mq_of q1) r) = buf" "recv_msglen (reqs (mq_of q1) r) = n"
      "req_state (reqs (mq_of q1) r) = MQ_STATE_MATCHED" "completed_q (mq_of q1) = completed_q (mq_of q)"
    using receive_envelope [OF x(3) f inv mt e l, where mm = m and a = "bufs 0" and ucb = ucb and ha = ha] bo pk'(1) bs unfolding n_def buf_def by blast
  have "concat (map snd (packets m ?bufs ?pcs)) = drop (length ?bs) ?msg" using cat by (metis append_eq_conv_conj)
  then obtain q' where q': "receive_frames cx ucb ha i m (map fst hs) ?bufs q1 = Inr (True, q')" "mq_inv own (mq_of q')" "req_state (reqs (mq_of q') r) = MQ_STATE_COMPLETE"
      "\<forall>k < unat n. mq_mem (mq_of q') (buf + of_nat k) = ?msg ! k" "completed_q (mq_of q') = completed_q (mq_of q) @ [r]"
    using receive_data_frames [OF q1(2-6) _ x(4), where m = m and bufs = ?bufs and ucb = ucb and ha = ha] f pk'(2) hs q1(7-12) by auto
  have "unat n \<le> unat len" unfolding n_def by (simp add: min_def word_le_nat_alt)
  then show ?thesis using q1(1) q' by (intro exI [of _ q']) (simp add: x(1) bytes_at_def)
qed


text \<open>A receiver with a receive of sixteen bytes posted; the peer knows flow identifiers.\<close>

definition demo_receiver :: proto where
  "demo_receiver = (demo_proto (demo_world\<lparr>wmq := demo_posted\<rparr>))\<lparr>ipsaddrs := (\<lambda>_. demo_epaddr\<lparr>ep_flags := SESS_FLAG_HAS_FLOWID\<rparr>)\<rparr>"


end
