(* ===== verification/Crc.thy ===== *)
theory Crc
  imports Memcpy
begin

text \<open>
  The checksum of frames, \<^verbatim>\<open>src/ptl_ips/ips_crc32.c\<close> (repeated in \<^verbatim>\<open>src/psm_utils.c\<close>), its computation for a
  frame in \<^verbatim>\<open>ips_do_cksum\<close> of \<^verbatim>\<open>src/ptl_ips/ips_proto_help.h\<close> and its verification in \<^verbatim>\<open>do_pkt_cksum\<close> of
  \<^verbatim>\<open>src/ptl_ips/ips_recvhdrq.c\<close>.

  The table is filled on first use; it and its flag are the state. A buffer is an address in the byte
  memory of \<^verbatim>\<open>Memcpy\<close>. The reference is the shift register that takes the message bit by bit, least
  significant bit of each byte first.

  Shown: the table-driven routine computes the same value as the shift register, whatever part of the
  table has been filled before; two messages of the same length that differ only within four consecutive bytes never
  have the same checksum; a frame is accepted as it was sent and rejected when up to four consecutive
  bytes of its header or of its payload were changed.
\<close>

unbundle bit_operations_syntax

section \<open>The table\<close>

record crc_state =
  crc_table :: "u32 list"
  crc_table_computed :: bool

definition crc_state0 :: crc_state where
  "crc_state0 = \<lparr>crc_table = replicate 256 0, crc_table_computed = False\<rparr>"

text \<open>The body of the inner loop, the inner loop, and the two nested loops.\<close>

definition crc_shift :: "u32 \<Rightarrow> u32" where
  "crc_shift c = (if c AND 1 \<noteq> 0 then 0xedb88320 XOR drop_bit 1 c else drop_bit 1 c)"

definition crc_entry :: "nat \<Rightarrow> u32" where
  "crc_entry n = fold (\<lambda>k c. crc_shift c) [0..<8] (of_nat n)"

definition make_crc_table :: "crc_state \<Rightarrow> crc_state" where
  "make_crc_table st =
     (fold (\<lambda>n st. st\<lparr>crc_table := (crc_table st)[n := crc_entry n]\<rparr>) [0..<256] st)\<lparr>crc_table_computed := True\<rparr>"

section \<open>The checksum of a buffer\<close>

definition crc_byte :: "u32 list \<Rightarrow> u8 \<Rightarrow> u32 \<Rightarrow> u32" where
  "crc_byte t d c = t ! unat ((c XOR ucast d) AND 0xff) XOR drop_bit 8 c"

definition ips_crc_calculate :: "u32 \<Rightarrow> u64 \<Rightarrow> u32 \<Rightarrow> mem \<Rightarrow> crc_state \<Rightarrow> u32 \<times> crc_state" where
  "ips_crc_calculate len data c m st =
     (let st = (if \<not> crc_table_computed st then make_crc_table st else st)
      in (fold (\<lambda>n c. crc_byte (crc_table st) (m (data + of_nat n)) c) [0..<unat len] c, st))"

text \<open>The copy in \<^verbatim>\<open>psm_utils.c\<close>: the length is an \<^verbatim>\<open>int\<close>, so a negative one stands for an empty buffer.\<close>

definition update_crc :: "u32 \<Rightarrow> u64 \<Rightarrow> int \<Rightarrow> mem \<Rightarrow> crc_state \<Rightarrow> u32 \<times> crc_state" where
  "update_crc c buf len m st =
     (let st = (if \<not> crc_table_computed st then make_crc_table st else st)
      in (fold (\<lambda>n c. crc_byte (crc_table st) (m (buf + of_nat n)) c) [0..<nat len] c, st))"

definition psmi_crc :: "u64 \<Rightarrow> int \<Rightarrow> mem \<Rightarrow> crc_state \<Rightarrow> u32 \<times> crc_state" where
  "psmi_crc buf len m st = (let (c, st) = update_crc 0xffffffff buf len m st in (c XOR 0xffffffff, st))"

section \<open>The checksum of a frame\<close>

text \<open>
  The value that \<^verbatim>\<open>ips_do_cksum\<close> computes once it has decided that the frame carries a checksum, and the check
  of a received frame. \<^verbatim>\<open>length\<close> is the payload's with its padding; the two copies of the checksum follow it.
  Reporting and dumping a bad packet is left out.
\<close>

definition IPS_MESSAGE_HDR_SIZE :: u32 where "IPS_MESSAGE_HDR_SIZE = 56"

definition frame_cksum :: "u64 \<Rightarrow> u64 \<Rightarrow> u32 \<Rightarrow> mem \<Rightarrow> crc_state \<Rightarrow> (u32 \<times> crc_state) run" where
  "frame_cksum p_hdr payload paylen m st =
     (let (cksum, st) = ips_crc_calculate IPS_MESSAGE_HDR_SIZE p_hdr 0xffffffff m st
      in if paylen \<noteq> 0
         then if payload = 0 then Inl Assert_Abort else Inr (ips_crc_calculate paylen payload cksum m st)
         else Inr (cksum, st))"

definition mem_word :: "mem \<Rightarrow> u64 \<Rightarrow> u32" where
  "mem_word m a = ucast (m a) OR push_bit 8 (ucast (m (a + 1))) OR push_bit 16 (ucast (m (a + 2))) OR push_bit 24 (ucast (m (a + 3)))"

definition do_pkt_cksum :: "u64 \<Rightarrow> u64 \<Rightarrow> u32 \<Rightarrow> mem \<Rightarrow> crc_state \<Rightarrow> (bool \<times> crc_state) run" where
  "do_pkt_cksum p_hdr payload paylen m st =
     (if payload = 0 then Inl Assert_Abort
      else let ckptr = payload + ucast paylen; recv_cksum = mem_word m ckptr;
               (cksum, st) = ips_crc_calculate IPS_MESSAGE_HDR_SIZE p_hdr 0xffffffff m st;
               (cksum, st) = (if paylen \<noteq> 0 then ips_crc_calculate paylen payload cksum m st else (cksum, st))
        in Inr (\<not> (cksum \<noteq> recv_cksum \<or> mem_word m ckptr \<noteq> mem_word m (ckptr + 4)), st))"

section \<open>The shift register\<close>

definition crc_bit :: "bool \<Rightarrow> u32 \<Rightarrow> u32" where
  "crc_bit b c = (if odd c \<noteq> b then 0xedb88320 XOR drop_bit 1 c else drop_bit 1 c)"

definition crc_serial :: "bool list \<Rightarrow> u32 \<Rightarrow> u32" where
  "crc_serial bs c = fold crc_bit bs c"

definition byte_bits :: "u8 \<Rightarrow> bool list" where
  "byte_bits d = map (bit d) [0..<8]"

definition mem_bytes :: "mem \<Rightarrow> u64 \<Rightarrow> nat \<Rightarrow> u8 list" where
  "mem_bytes m a n = map (\<lambda>i. m (a + of_nat i)) [0..<n]"

definition crc_reference :: "u8 list \<Rightarrow> u32 \<Rightarrow> u32" where
  "crc_reference ds c = crc_serial (concat (map byte_bits ds)) c"

lemma bit_crc_shift: "bit (crc_shift c) i \<longleftrightarrow> (bit c (Suc i) \<noteq> (bit c 0 \<and> bit (0xedb88320 :: u32) i))"
proof -
  have "c AND 1 \<noteq> 0 \<longleftrightarrow> bit c 0" by (simp add: and_one_eq bit_0 odd_iff_mod_2_eq_one)
  then show ?thesis by (auto simp: crc_shift_def bit_xor_iff bit_drop_bit_eq)
qed

lemma crc_shift_xor: "crc_shift (a XOR b) = crc_shift a XOR crc_shift b"
  by (rule bit_word_eqI) (auto simp: bit_crc_shift bit_xor_iff)

lemma crc_shift_inj: "crc_shift a = crc_shift b \<Longrightarrow> a = b"
proof (rule bit_word_eqI)
  fix i assume eq: "crc_shift a = crc_shift b" and i: "i < LENGTH(32)"
  have b: "bit (crc_shift a) j = bit (crc_shift b) j" for j using eq by simp
  have z: "\<not> bit (c :: u32) 32" for c by (simp add: bit_word.rep_eq)
  have "bit (crc_shift c) 31 = bit c 0" for c by (simp add: bit_crc_shift z)
  then have b0: "bit a 0 = bit b 0" using b [of 31] by simp
  then have "bit a (Suc j) = bit b (Suc j)" for j using b [of j] by (auto simp: bit_crc_shift)
  then show "bit a i = bit b i" using b0 by (cases i) auto
qed

lemma crc_shift_double: "\<not> bit w 31 \<Longrightarrow> crc_shift (2 * w) = w"
proof (rule bit_word_eqI)
  fix i assume "\<not> bit w 31" "i < LENGTH(32)"
  then show "bit (crc_shift (2 * w)) i = bit w i" by (cases "i = 31") (auto simp: bit_crc_shift bit_double_iff)
qed

lemma crc_bit_shift: "crc_bit b c = crc_shift (c XOR of_bool b)"
  by (rule bit_word_eqI) (auto simp: crc_bit_def bit_crc_shift bit_xor_iff bit_drop_bit_eq bit_0 bit_1_iff even_xor_iff)

lemma crc_shifts_xor: "(crc_shift ^^ n) (a XOR b) = (crc_shift ^^ n) a XOR (crc_shift ^^ n) b"
  by (induction n) (simp_all add: crc_shift_xor)

lemma crc_shifts_inj: "(crc_shift ^^ n) a = (crc_shift ^^ n) b \<Longrightarrow> a = b"
  by (induction n) (auto dest: crc_shift_inj)

lemma crc_shifts_drop: "take_bit n c = 0 \<Longrightarrow> (crc_shift ^^ n) c = drop_bit n c"
proof (induction n arbitrary: c)
  case (Suc n)
  have b: "\<not> bit c i" if "i \<le> n" for i using Suc.prems that by (metis bit_0_eq bit_take_bit_iff bot_apply bot_bool_def le_imp_less_Suc)
  then have "crc_shift c = drop_bit 1 c" by (intro bit_word_eqI) (simp add: bit_crc_shift bit_drop_bit_eq)
  moreover have "take_bit n (drop_bit 1 c) = 0" by (rule bit_word_eqI) (simp add: bit_take_bit_iff bit_drop_bit_eq b)
  ultimately show ?case using Suc.IH [of "drop_bit 1 c"] by (simp add: funpow_swap1 drop_bit_drop_bit)
qed simp

text \<open>Up to 32 bits may be added to the register at once.\<close>

lemma crc_serial_word:
  assumes "length bs \<le> 32"
  shows "crc_serial bs c = (crc_shift ^^ length bs) (c XOR horner_sum of_bool 2 bs)"
  using assms
proof (induction bs arbitrary: c)
  case (Cons b bs)
  let ?w = "horner_sum of_bool 2 bs :: u32"
  have "\<not> bit ?w 31" using Cons.prems by (simp add: bit_horner_sum_bit_iff)
  then have w: "crc_shift (2 * ?w) = ?w" by (rule crc_shift_double)
  have split: "horner_sum of_bool 2 (b # bs) = of_bool b XOR 2 * ?w"
    by (cases b) (simp_all add: xor.commute [of 1] xor_one_eq)
  have "crc_serial (b # bs) c = crc_serial bs (crc_shift (c XOR of_bool b))" by (simp add: crc_serial_def crc_bit_shift)
  also have "\<dots> = (crc_shift ^^ length bs) (crc_shift (c XOR of_bool b) XOR ?w)" using Cons by simp
  also have "crc_shift (c XOR of_bool b) XOR ?w = crc_shift (c XOR horner_sum of_bool 2 (b # bs))"
    unfolding split using w by (simp add: crc_shift_xor xor.assoc)
  finally show ?case by (simp add: funpow_swap1)
qed (simp add: crc_serial_def)

lemma crc_serial_append: "crc_serial (as @ bs) c = crc_serial bs (crc_serial as c)"
  by (simp add: crc_serial_def)

lemma crc_serial_inj: "crc_serial bs a = crc_serial bs b \<Longrightarrow> a = b"
proof (induction bs arbitrary: a b)
  case (Cons x bs)
  then have "crc_shift (a XOR of_bool x) = crc_shift (b XOR of_bool x)" by (simp add: crc_serial_def crc_bit_shift)
  then have "a XOR of_bool x = b XOR of_bool x" by (rule crc_shift_inj)
  from arg_cong [OF this, of "\<lambda>c. c XOR of_bool x"] show ?case by (simp add: xor.assoc del: of_bool_eq_iff split: if_splits)
qed (simp add: crc_serial_def)

section \<open>The table computes the shift register\<close>

definition crc_ok :: "crc_state \<Rightarrow> bool" where
  "crc_ok st \<longleftrightarrow> length (crc_table st) = 256 \<and> (crc_table_computed st \<longrightarrow> crc_table st = map crc_entry [0..<256])"

lemma crc_entry_shifts: "crc_entry n = (crc_shift ^^ 8) (of_nat n)"
  by (simp add: crc_entry_def numeral_eq_Suc upt_rec)

lemma table_fill:
  assumes "k \<le> length (crc_table st)"
  shows "fold (\<lambda>n st. st\<lparr>crc_table := (crc_table st)[n := crc_entry n]\<rparr>) [0..<k] st =
    st\<lparr>crc_table := map crc_entry [0..<k] @ drop k (crc_table st)\<rparr>"
  using assms
proof (induction k)
  case (Suc k)
  then have "drop k (crc_table st) = crc_table st ! k # drop (Suc k) (crc_table st)" by (simp add: Cons_nth_drop_Suc)
  with Suc show ?case by (simp add: list_update_append)
qed simp

lemma make_crc_table_ok: "length (crc_table st) = 256 \<Longrightarrow> make_crc_table st = st\<lparr>crc_table := map crc_entry [0..<256], crc_table_computed := True\<rparr>"
  using table_fill [of 256 st] by (simp add: make_crc_table_def)

lemma crc_byte_serial: "crc_byte (map crc_entry [0..<256]) d c = crc_serial (byte_bits d) c"
proof -
  let ?x = "c XOR ucast d"
  have lt: "unat (?x AND 0xff) < 256"
    using word_and_le1 [of ?x "0xff"] by (simp add: word_le_nat_alt)
  have lo: "?x AND 0xff = take_bit 8 ?x" by (simp add: take_bit_eq_mask mask_eq_exp_minus_1)
  have "?x = take_bit 8 ?x XOR push_bit 8 (drop_bit 8 ?x)"
    by (rule bit_word_eqI, case_tac "n < 8") (simp_all add: bit_xor_iff bit_take_bit_iff bit_push_bit_iff bit_drop_bit_eq)
  then have "(crc_shift ^^ 8) ?x = (crc_shift ^^ 8) (take_bit 8 ?x) XOR (crc_shift ^^ 8) (push_bit 8 (drop_bit 8 ?x))"
    by (metis crc_shifts_xor)
  also have "(crc_shift ^^ 8) (push_bit 8 (drop_bit 8 ?x)) = drop_bit 8 c"
  proof -
    have "take_bit 8 (push_bit 8 (drop_bit 8 ?x)) = 0" by (rule bit_word_eqI) (auto simp: bit_xor_iff bit_take_bit_iff bit_push_bit_iff)
    then have "(crc_shift ^^ 8) (push_bit 8 (drop_bit 8 ?x)) = drop_bit 8 (push_bit 8 (drop_bit 8 ?x))" by (rule crc_shifts_drop)
    also have "\<dots> = drop_bit 8 c"
      by (rule bit_word_eqI) (auto simp: bit_xor_iff bit_push_bit_iff bit_drop_bit_eq bit_unsigned_iff dest: bit_imp_le_length)
    finally show ?thesis .
  qed
  finally have "(crc_shift ^^ 8) ?x = crc_byte (map crc_entry [0..<256]) d c"
    using lt by (simp add: crc_byte_def crc_entry_shifts del: take_bit_xor flip: lo)
  moreover have "horner_sum of_bool 2 (byte_bits d) = (ucast d :: u32)"
    by (rule bit_word_eqI, case_tac "n < 8")
      (auto simp: byte_bits_def bit_horner_sum_bit_iff bit_unsigned_iff dest: bit_imp_le_length)
  ultimately show ?thesis using crc_serial_word [of "byte_bits d" c] by (simp add: byte_bits_def)
qed

lemma crc_reference_Nil [simp]: "crc_reference [] c = c"
  and crc_reference_append: "crc_reference (as @ bs) c = crc_reference bs (crc_reference as c)"
  and crc_reference_single: "crc_reference [d] c = crc_serial (byte_bits d) c"
  by (simp_all add: crc_reference_def crc_serial_append) (simp add: crc_serial_def)

lemma fold_crc_byte:
  "fold (\<lambda>n c. crc_byte (map crc_entry [0..<256]) (m (a + of_nat n)) c) [0..<n] c = crc_reference (mem_bytes m a n) c"
  by (induction n) (simp_all add: mem_bytes_def crc_byte_serial crc_reference_append crc_reference_single)

lemma crc_calculate_eq:
  assumes "crc_ok st"
  shows "ips_crc_calculate len data c m st = (crc_reference (mem_bytes m data (unat len)) c,
      st\<lparr>crc_table := map crc_entry [0..<256], crc_table_computed := True\<rparr>)"
    "update_crc c data k m st = (crc_reference (mem_bytes m data (nat k)) c,
      st\<lparr>crc_table := map crc_entry [0..<256], crc_table_computed := True\<rparr>)"
proof -
  have st: "(if \<not> crc_table_computed st then make_crc_table st else st) = st\<lparr>crc_table := map crc_entry [0..<256], crc_table_computed := True\<rparr>"
    using assms make_crc_table_ok [of st] by (auto simp: crc_ok_def)
  show "ips_crc_calculate len data c m st = (crc_reference (mem_bytes m data (unat len)) c,
      st\<lparr>crc_table := map crc_entry [0..<256], crc_table_computed := True\<rparr>)"
    unfolding ips_crc_calculate_def st Let_def by (simp add: fold_crc_byte)
  show "update_crc c data k m st = (crc_reference (mem_bytes m data (nat k)) c,
      st\<lparr>crc_table := map crc_entry [0..<256], crc_table_computed := True\<rparr>)"
    unfolding update_crc_def st Let_def by (simp add: fold_crc_byte)
qed

lemma crc_ok_filled [simp]: "crc_ok (st\<lparr>crc_table := map crc_entry [0..<256], crc_table_computed := True\<rparr>)"
  by (simp add: crc_ok_def)

text \<open>
  C25: The table-driven checksum of \<^verbatim>\<open>ips_crc32.c\<close> and its copy in \<^verbatim>\<open>psm_utils.c\<close> equal the bit-serial shift register
  with the reflected polynomial \<^verbatim>\<open>0xedb88320\<close> on the bytes of the buffer, for every buffer, length and start value, whether or not
  the table has been filled, and leave the table filled; a checksum may be computed in pieces.
\<close>

theorem crc_is_shift_register:
  assumes "crc_ok st"
  shows "\<exists>st'. crc_ok st' \<and> crc_table_computed st' \<and>
    ips_crc_calculate len data c m st = (crc_reference (mem_bytes m data (unat len)) c, st') \<and>
    psmi_crc data k m st = (crc_reference (mem_bytes m data (nat k)) 0xffffffff XOR 0xffffffff, st') \<and>
    (\<forall>len' data'. ips_crc_calculate len' data' (fst (ips_crc_calculate len data c m st)) m st' =
       (crc_reference (mem_bytes m data (unat len) @ mem_bytes m data' (unat len')) c, st'))"
  using assms by (intro exI [of _ "st\<lparr>crc_table := map crc_entry [0..<256], crc_table_computed := True\<rparr>"])
    (simp add: crc_calculate_eq psmi_crc_def crc_reference_append)

theorem crc_is_shift_register_witness:
  "\<exists>st'. ips_crc_calculate 9 0x1000 0xffffffff (\<lambda>a. ucast (a - 0x1000 + 0x31)) crc_state0 =
     (crc_reference [0x31, 0x32, 0x33, 0x34, 0x35, 0x36, 0x37, 0x38, 0x39] 0xffffffff, st')"
proof -
  have ok: "crc_ok crc_state0" by (simp add: crc_ok_def crc_state0_def)
  have b: "mem_bytes (\<lambda>a. ucast (a - 0x1000 + 0x31)) 0x1000 (unat (9 :: u32)) = [0x31, 0x32, 0x33, 0x34, 0x35, 0x36, 0x37, 0x38, 0x39]"
    by (simp add: mem_bytes_def upt_rec)
  show ?thesis using crc_is_shift_register [OF ok, of 9 "0x1000" "0xffffffff" "\<lambda>a. ucast (a - 0x1000 + 0x31)" 0] unfolding b by blast
qed

section \<open>What the checksum detects\<close>

lemma bytes_of_bits: "length xs = length ys \<Longrightarrow> concat (map byte_bits xs) = concat (map byte_bits ys) \<Longrightarrow> xs = ys"
proof (induction xs ys rule: list_induct2)
  case (Cons x xs y ys)
  have len: "length (byte_bits d) = 8" for d by (simp add: byte_bits_def)
  then have "byte_bits x = byte_bits y" "concat (map byte_bits xs) = concat (map byte_bits ys)" using Cons.prems by simp_all
  moreover from this(1) have "x = y" by (intro bit_word_eqI) (simp add: byte_bits_def map_eq_conv atLeast0LessThan)
  ultimately show ?case using Cons.IH by simp
qed simp

lemma length_bits [simp]: "length (concat (map byte_bits xs)) = 8 * length xs"
  by (induction xs) (simp_all add: byte_bits_def)

lemma crc_burst:
  assumes "length x = length y" "length x \<le> 4" "crc_reference (pre @ x @ post) c = crc_reference (pre @ y @ post) c"
  shows "x = y"
proof -
  let ?c = "crc_reference pre c" and ?B = "\<lambda>x. concat (map byte_bits x)"
  let ?w = "\<lambda>x. horner_sum of_bool 2 (?B x) :: u32"
  have "crc_reference x ?c = crc_reference y ?c"
    using assms(3) by (simp add: crc_reference_append) (simp add: crc_reference_def crc_serial_inj)
  then have "(crc_shift ^^ (8 * length x)) (?c XOR ?w x) = (crc_shift ^^ (8 * length x)) (?c XOR ?w y)"
    using assms(1,2) crc_serial_word [of "?B x" ?c] crc_serial_word [of "?B y" ?c] by (simp add: crc_reference_def)
  then have "?c XOR ?w x = ?c XOR ?w y" by (rule crc_shifts_inj)
  then have "?c XOR (?c XOR ?w x) = ?c XOR (?c XOR ?w y)" by simp
  then have w: "?w x = ?w y" by (simp add: xor.assoc [symmetric])
  have "?B x ! i = ?B y ! i" if "i < 8 * length x" for i
  proof -
    have "bit (?w x) i = bit (?w y) i" by (simp add: w)
    then show ?thesis using that assms(1,2) by (simp add: bit_horner_sum_bit_iff)
  qed
  then have "?B x = ?B y" using assms(1) by (intro nth_equalityI) simp_all
  then show ?thesis using bytes_of_bits assms(1) by blast
qed

lemma frame_cksum_eq:
  assumes "crc_ok st" "payload \<noteq> 0"
  shows "frame_cksum p_hdr payload paylen m st = Inr (crc_reference (mem_bytes m p_hdr 56 @ mem_bytes m payload (unat paylen)) 0xffffffff,
      st\<lparr>crc_table := map crc_entry [0..<256], crc_table_computed := True\<rparr>)"
    "do_pkt_cksum p_hdr payload paylen m st =
      Inr (crc_reference (mem_bytes m p_hdr 56 @ mem_bytes m payload (unat paylen)) 0xffffffff = mem_word m (payload + ucast paylen) \<and>
           mem_word m (payload + ucast paylen) = mem_word m (payload + ucast paylen + 4),
      st\<lparr>crc_table := map crc_entry [0..<256], crc_table_computed := True\<rparr>)"
  using assms(2) by (auto simp: frame_cksum_def do_pkt_cksum_def Let_def crc_calculate_eq [OF assms(1)] crc_calculate_eq [OF crc_ok_filled]
      crc_reference_append IPS_MESSAGE_HDR_SIZE_def mem_bytes_def)

text \<open>
  C26: A frame that was sent with the checksum of \<^verbatim>\<open>ips_do_cksum\<close> and arrives with at most four consecutive bytes
  of header and payload changed, and both copies of the checksum behind it, passes \<^verbatim>\<open>do_pkt_cksum\<close> exactly when nothing
  was changed. Frames whose two copies differ never pass.
\<close>

theorem frame_checksum_detects:
  assumes "crc_ok st" "crc_ok st'" "payload \<noteq> 0" "payload' \<noteq> 0" "length x = length y" "length x \<le> 4"
    and sent: "mem_bytes m p_hdr 56 @ mem_bytes m payload (unat paylen) = pre @ x @ post"
    and received: "mem_bytes m' p_hdr' 56 @ mem_bytes m' payload' (unat paylen) = pre @ y @ post"
  shows "\<exists>cksum st1 ok st2. frame_cksum p_hdr payload paylen m st = Inr (cksum, st1) \<and> crc_ok st1 \<and>
    do_pkt_cksum p_hdr' payload' paylen m' st' = Inr (ok, st2) \<and> crc_ok st2 \<and>
    (mem_word m' (payload' + ucast paylen) = cksum \<longrightarrow> mem_word m' (payload' + ucast paylen + 4) = cksum \<longrightarrow> ok = (x = y)) \<and>
    (mem_word m' (payload' + ucast paylen) \<noteq> mem_word m' (payload' + ucast paylen + 4) \<longrightarrow> \<not> ok)"
proof -
  have "crc_reference (pre @ y @ post) 0xffffffff = crc_reference (pre @ x @ post) 0xffffffff \<longleftrightarrow> x = y"
    using crc_burst [OF assms(5,6)] by metis
  then show ?thesis unfolding frame_cksum_eq [OF assms(1,3)] frame_cksum_eq [OF assms(2,4)] sent received
    by (simp only: sum.inject prod.inject simp_thms ex_simps crc_ok_filled) auto
qed

lemma word_of_bytes:
  "ucast (ucast c :: u8) OR push_bit 8 (ucast (ucast (drop_bit 8 c) :: u8)) OR push_bit 16 (ucast (ucast (drop_bit 16 c) :: u8)) OR
   push_bit 24 (ucast (ucast (drop_bit 24 c) :: u8)) = (c :: u32)" (is "?l = _")
proof (rule bit_word_eqI)
  fix n assume "n < LENGTH(32)"
  then consider "n < 8" | "8 \<le> n" "n < 16" | "16 \<le> n" "n < 24" | "24 \<le> n" "n < 32" by fastforce
  then show "bit ?l n = bit c n" by cases (auto simp: bit_simps)
qed

text \<open>A frame at address \<open>0x1000\<close> with eight bytes of payload at \<open>0x2000\<close>, of which two are changed on the way.\<close>

theorem frame_checksum_detects_witness:
  "\<exists>cksum st1 st2. frame_cksum 0x1000 0x2000 8 (\<lambda>_. 0) crc_state0 = Inr (cksum, st1) \<and>
    do_pkt_cksum 0x1000 0x2000 8 (\<lambda>a. if a = 0x2003 \<or> a = 0x2004 then 7 else if a < 0x2008 then 0
      else ucast (drop_bit (8 * (unat (a - 0x2008) mod 4)) cksum)) crc_state0 = Inr (False, st2)"
proof -
  have ok: "crc_ok crc_state0" by (simp add: crc_ok_def crc_state0_def)
  define ck where "ck = fst (projr (frame_cksum 0x1000 0x2000 8 (\<lambda>_. 0) crc_state0))"
  define m' :: mem where "m' a = (if a = 0x2003 \<or> a = 0x2004 then 7 else if a < 0x2008 then 0
      else ucast (drop_bit (8 * (unat (a - 0x2008) mod 4)) ck))" for a
  have z: "mem_bytes (\<lambda>_. 0) 0x1000 56 = replicate 56 0" by (simp add: mem_bytes_def map_replicate_const)
  have "mem_bytes (\<lambda>_. 0) 0x2000 (unat (8 :: u32)) = [0, 0, 0] @ [0, 0] @ [0, 0, 0]" by (simp add: mem_bytes_def upt_rec)
  then have 1: "mem_bytes (\<lambda>_. 0) 0x1000 56 @ mem_bytes (\<lambda>_. 0) 0x2000 (unat (8 :: u32)) = (replicate 56 0 @ [0, 0, 0]) @ [0, 0] @ [0, 0, 0]"
    by (simp only: z append_assoc)
  have low: "m' a = 0" if "unat a < 0x2003" for a using that by (auto simp: m'_def word_less_nat_alt)
  have "mem_bytes m' 0x1000 56 = replicate 56 0"
  proof (rule nth_equalityI)
    fix i assume "i < length (mem_bytes m' 0x1000 56)"
    then have i: "i < 56" by (simp add: mem_bytes_def)
    then have "unat (0x1000 + of_nat i :: u64) = 0x1000 + i" by (simp add: unat_word_ariths unat_of_nat)
    then have "m' (0x1000 + of_nat i) = 0" using i by (intro low) simp
    then show "mem_bytes m' 0x1000 56 ! i = replicate 56 0 ! i" using i by (simp add: mem_bytes_def)
  qed (simp add: mem_bytes_def)
  moreover have "mem_bytes m' 0x2000 (unat (8 :: u32)) = [0, 0, 0] @ [7, 7] @ [0, 0, 0]" by (simp add: mem_bytes_def m'_def upt_rec)
  ultimately have 2: "mem_bytes m' 0x1000 56 @ mem_bytes m' 0x2000 (unat (8 :: u32)) = (replicate 56 0 @ [0, 0, 0]) @ [7, 7] @ [0, 0, 0]"
    by (simp only: append_assoc)
  have w: "mem_word m' 0x2008 = ck" "mem_word m' 0x200C = ck"
    using word_of_bytes [of ck] by (simp_all add: mem_word_def m'_def)
  obtain cksum st1 r st2 where f: "frame_cksum 0x1000 0x2000 8 (\<lambda>_. 0) crc_state0 = Inr (cksum, st1)"
    "do_pkt_cksum 0x1000 0x2000 8 m' crc_state0 = Inr (r, st2)"
    "mem_word m' (0x2000 + ucast (8 :: u32)) = cksum \<longrightarrow> mem_word m' (0x2000 + ucast (8 :: u32) + 4) = cksum \<longrightarrow> r = ([0, 0] = [7, 7 :: u8])"
    using frame_checksum_detects [OF ok ok _ _ _ _ 1 2] by auto
  have "cksum = ck" by (simp add: ck_def f(1))
  then have "\<not> r" using f(3) w by simp
  then show ?thesis using f(1,2) by (intro exI [of _ ck] exI [of _ st1] exI [of _ st2]) (simp add: m'_def [abs_def] \<open>cksum = ck\<close>)
qed
end
