(* ===== verification/Epid_Table.thy ===== *)
theory Epid_Table
  imports PSM_Prelude
begin

text \<open>
  The table of endpoint addresses, \<^verbatim>\<open>src/psm_utils.c\<close> and \<^verbatim>\<open>src/psm_utils.h\<close>: a hash table with open addressing,
  linear probing and lazy deletion, keyed by a 64-bit hash of an endpoint handle and an endpoint
  identifier, and its iterator.

  The table is the list of its slots, \<open>[]\<close> is NULL. Pointers are 64-bit words. The answer of the memory allocator is the
  argument \<open>calloc_ok\<close>. The table's mutex is left out: every operation holds it from start to end. A
  probe that has seen every slot without stopping sees them again for ever, so the loops carry the number of
  slots as fuel and end in \<open>Endless_Wait\<close>. Sizes are naturals; the C \<^verbatim>\<open>int\<close>s hold them, as a table of \<open>2 ^ 31\<close> slots would
  take 64 GB.

  Shown: the probes always end; with handles and identifiers whose hashes differ, every history of additions,
  removals and lookups behaves as a finite map, also across growth; a failed growth leaves the map as it was;
  the iterator visits each address once; two endpoints with the same hash are taken for each other.
\<close>

unbundle bit_operations_syntax

section \<open>Slots\<close>

record psmi_epid_tabentry =
  te_entry :: u64
  te_key :: u64
  te_ep :: u64
  te_epid :: u64

record psmi_epid_table =
  table :: "psmi_epid_tabentry list"
  tabsize :: nat
  tabsize_used :: nat

definition EPADDR_DELETED :: u64 where "EPADDR_DELETED = - 1"
definition PSMI_EPID_TABSIZE_CHUNK :: nat where "PSMI_EPID_TABSIZE_CHUNK = 128"
definition PSMI_EP_HOSTNAME :: u64 where "PSMI_EP_HOSTNAME = - 1"

definition te_calloc :: psmi_epid_tabentry where
  "te_calloc = \<lparr>te_entry = 0, te_key = 0, te_ep = 0, te_epid = 0\<rparr>"

definition psmi_epid_init :: "psm_error \<times> psmi_epid_table" where
  "psmi_epid_init = (PSM_OK, \<lparr>table = [], tabsize = 0, tabsize_used = 0\<rparr>)"

definition psmi_epid_fini :: "psmi_epid_table \<Rightarrow> psm_error \<times> psmi_epid_table" where
  "psmi_epid_fini t = (PSM_OK, (if table t \<noteq> [] then t\<lparr>table := []\<rparr> else t)\<lparr>tabsize := 0, tabsize_used := 0\<rparr>)"

text \<open>
  \<^verbatim>\<open>(int) (tabsize * PSMI_EPID_TABLOAD_FACTOR)\<close> with the factor \<^verbatim>\<open>(float) 0.7\<close>, which is \<open>11744051 / 2 ^ 24\<close>: the integer and
  the product are rounded to 24 significant bits, ties to even, and the result is truncated.
\<close>

fun float_shift :: "nat \<Rightarrow> nat" where
  "float_shift n = (if n < 2 ^ 24 then 0 else Suc (float_shift (n div 2)))"

definition float_round :: "nat \<Rightarrow> nat" where
  "float_round n =
     (let s = float_shift n; q = n div 2 ^ s; r = n mod 2 ^ s
      in if s = 0 then n else (if 2 * r > 2 ^ s \<or> 2 * r = 2 ^ s \<and> odd q then q + 1 else q) * 2 ^ s)"

definition load_limit :: "nat \<Rightarrow> nat" where
  "load_limit n = float_round (float_round n * 11744051) div 2 ^ 24"

section \<open>The hash\<close>

text \<open>The macro \<^verbatim>\<open>mix64\<close> is four rounds of three lines, one for each of its variables.\<close>

fun mix_a :: "nat \<Rightarrow> u64 \<times> u64 \<times> u64 \<Rightarrow> u64 \<times> u64 \<times> u64" where
  "mix_a k (a, b, c) = ((a - b - c) XOR drop_bit k c, b, c)"

fun mix_b :: "nat \<Rightarrow> u64 \<times> u64 \<times> u64 \<Rightarrow> u64 \<times> u64 \<times> u64" where
  "mix_b k (a, b, c) = (a, (b - c - a) XOR push_bit k a, c)"

fun mix_c :: "nat \<Rightarrow> u64 \<times> u64 \<times> u64 \<Rightarrow> u64 \<times> u64 \<times> u64" where
  "mix_c k (a, b, c) = (a, b, (c - a - b) XOR drop_bit k b)"

definition mix64 :: "u64 \<times> u64 \<times> u64 \<Rightarrow> u64 \<times> u64 \<times> u64" where
  "mix64 abc =
     (mix_c 22 (mix_b 18 (mix_a 12
     (mix_c 11 (mix_b 49 (mix_a 35
     (mix_c 5 (mix_b 23 (mix_a 38
     (mix_c 8 (mix_b 9 (mix_a 43 abc))))))))))))"

definition hash_this :: "u64 \<Rightarrow> u64 \<Rightarrow> u64" where
  "hash_this ep epid = (case mix64 (ep, epid, 0x9e3779b97f4a7c13) of (_, _, hash) \<Rightarrow> hash)"

section \<open>Looking up and removing\<close>

definition next_idx :: "nat \<Rightarrow> nat \<Rightarrow> nat" where
  "next_idx n idx = (if Suc idx = n then 0 else Suc idx)"

text \<open>The slot where the search for a key stops: the key's, or none at the first empty slot.\<close>

fun lookup_loop :: "nat \<Rightarrow> psmi_epid_tabentry list \<Rightarrow> u64 \<Rightarrow> nat \<Rightarrow> nat option run" where
  "lookup_loop fuel tab key idx =
     (if te_entry (tab ! idx) = 0 then Inr None
      else if te_entry (tab ! idx) \<noteq> EPADDR_DELETED \<and> te_key (tab ! idx) = key then Inr (Some idx)
      else case fuel of 0 \<Rightarrow> Inl Endless_Wait | Suc fuel \<Rightarrow> lookup_loop fuel tab key (next_idx (length tab) idx))"

definition psmi_epid_lookup_inner :: "u64 \<Rightarrow> u64 \<Rightarrow> bool \<Rightarrow> psmi_epid_table \<Rightarrow> (u64 \<times> psmi_epid_table) run" where
  "psmi_epid_lookup_inner ep epid remove t =
     (let key = hash_this ep epid
      in if table t = [] then Inr (0, t)
         else if tabsize t = 0 then Inl Undefined_Access
         else let idx = unat key mod tabsize t
           in if idx \<ge> length (table t) then Inl Undefined_Access
              else run_bind (lookup_loop (length (table t)) (table t) key idx) (\<lambda>found. Inr (case found of
                None \<Rightarrow> (0, t)
              | Some idx \<Rightarrow> (te_entry (table t ! idx),
                  if remove then t\<lparr>table := (table t)[idx := (table t ! idx)\<lparr>te_entry := EPADDR_DELETED\<rparr>]\<rparr> else t))))"

definition psmi_epid_lookup :: "u64 \<Rightarrow> u64 \<Rightarrow> psmi_epid_table \<Rightarrow> (u64 \<times> psmi_epid_table) run" where
  "psmi_epid_lookup ep epid t = psmi_epid_lookup_inner ep epid False t"

definition psmi_epid_remove :: "u64 \<Rightarrow> u64 \<Rightarrow> psmi_epid_table \<Rightarrow> (u64 \<times> psmi_epid_table) run" where
  "psmi_epid_remove ep epid t = psmi_epid_lookup_inner ep epid True t"

section \<open>Adding\<close>

text \<open>The two searches for a slot: the first empty one, and the first empty or deleted one.\<close>

fun empty_loop :: "nat \<Rightarrow> psmi_epid_tabentry list \<Rightarrow> nat \<Rightarrow> nat run" where
  "empty_loop fuel tab idx =
     (if te_entry (tab ! idx) = 0 then Inr idx
      else case fuel of 0 \<Rightarrow> Inl Endless_Wait | Suc fuel \<Rightarrow> empty_loop fuel tab (next_idx (length tab) idx))"

fun usable_loop :: "nat \<Rightarrow> psmi_epid_tabentry list \<Rightarrow> nat \<Rightarrow> nat run" where
  "usable_loop fuel tab idx =
     (if te_entry (tab ! idx) = 0 \<or> te_entry (tab ! idx) = EPADDR_DELETED then Inr idx
      else case fuel of 0 \<Rightarrow> Inl Endless_Wait | Suc fuel \<Rightarrow> usable_loop fuel tab (next_idx (length tab) idx))"

text \<open>The loop that moves the slots to the new table; deleted ones are no longer counted.\<close>

fun rehash_loop :: "psmi_epid_tabentry list \<Rightarrow> nat \<Rightarrow> psmi_epid_tabentry list \<Rightarrow> (nat \<times> psmi_epid_tabentry list) run" where
  "rehash_loop [] used newtab = Inr (used, newtab)"
| "rehash_loop (e # es) used newtab =
     (if te_entry e = 0 then rehash_loop es used newtab
      else if te_entry e = EPADDR_DELETED then rehash_loop es (used - 1) newtab
      else run_bind (empty_loop (length newtab) newtab (unat (te_key e) mod length newtab)) (\<lambda>idx.
             rehash_loop es used (newtab[idx := e])))"

definition epid_grow :: "psmi_epid_table \<Rightarrow> psmi_epid_table run" where
  "epid_grow t =
     (let newsz = tabsize t + PSMI_EPID_TABSIZE_CHUNK; newtab = replicate newsz te_calloc
      in run_bind (rehash_loop (table t) (tabsize_used t) newtab) (\<lambda>(used, newtab).
           Inr (t\<lparr>table := newtab, tabsize := newsz, tabsize_used := used\<rparr>)))"

definition epid_store :: "u64 \<Rightarrow> u64 \<Rightarrow> u64 \<Rightarrow> psmi_epid_table \<Rightarrow> psmi_epid_table run" where
  "epid_store ep epid entry t =
     (let key = hash_this ep epid
      in if tabsize t = 0 then Inl Undefined_Access
         else let idx = unat key mod tabsize t
           in if idx \<ge> length (table t) then Inl Undefined_Access
              else run_bind (usable_loop (length (table t)) (table t) idx) (\<lambda>idx.
                     Inr (t\<lparr>table := (table t)[idx := \<lparr>te_entry = entry, te_key = key, te_ep = ep, te_epid = epid\<rparr>]\<rparr>)))"

definition psmi_epid_add :: "bool \<Rightarrow> u64 \<Rightarrow> u64 \<Rightarrow> u64 \<Rightarrow> psmi_epid_table \<Rightarrow> (psm_error \<times> psmi_epid_table) run" where
  "psmi_epid_add calloc_ok ep epid entry t =
     (let t = t\<lparr>tabsize_used := tabsize_used t + 1\<rparr>
      in if tabsize_used t > load_limit (tabsize t) \<and> \<not> calloc_ok then Inr (PSM_NO_MEMORY, t)
         else run_bind (if tabsize_used t > load_limit (tabsize t) then epid_grow t else Inr t) (\<lambda>t.
              run_bind (epid_store ep epid entry t) (\<lambda>t. Inr (PSM_OK, t))))"

section \<open>The iterator\<close>

record psmi_eptab_iterator =
  it_i :: nat
  it_ep :: u64

definition psmi_epid_itor_init :: "u64 \<Rightarrow> psmi_eptab_iterator" where
  "psmi_epid_itor_init ep = \<lparr>it_i = 0, it_ep = ep\<rparr>"

fun itor_loop :: "psmi_epid_tabentry list \<Rightarrow> u64 \<Rightarrow> nat \<Rightarrow> (nat \<times> u64) option" where
  "itor_loop [] ep i = None"
| "itor_loop (e # es) ep i =
     (if te_entry e = 0 \<or> te_entry e = EPADDR_DELETED then itor_loop es ep (Suc i)
      else if ep \<noteq> 0 \<and> te_ep e \<noteq> ep then itor_loop es ep (Suc i)
      else Some (Suc i, te_entry e))"

definition psmi_epid_itor_next :: "psmi_epid_table \<Rightarrow> psmi_eptab_iterator \<Rightarrow> u64 \<times> psmi_eptab_iterator" where
  "psmi_epid_itor_next t it =
     (if it_i it \<ge> tabsize t then (0, it)
      else case itor_loop (drop (it_i it) (table t)) (it_ep it) (it_i it) of
             Some (i, entry) \<Rightarrow> (entry, it\<lparr>it_i := i\<rparr>)
           | None \<Rightarrow> (0, it\<lparr>it_i := tabsize t\<rparr>))"

definition psmi_epid_itor_fini :: "psmi_eptab_iterator \<Rightarrow> psmi_eptab_iterator" where
  "psmi_epid_itor_fini it = it\<lparr>it_i := 0\<rparr>"

lemmas [simp del] = float_shift.simps lookup_loop.simps empty_loop.simps usable_loop.simps

section \<open>Probing\<close>

text \<open>The three searches are one: go round from a slot to the first one with a property.\<close>

fun probe :: "(psmi_epid_tabentry \<Rightarrow> bool) \<Rightarrow> nat \<Rightarrow> psmi_epid_tabentry list \<Rightarrow> nat \<Rightarrow> nat run" where
  "probe P fuel tab idx =
     (if P (tab ! idx) then Inr idx
      else case fuel of 0 \<Rightarrow> Inl Endless_Wait | Suc fuel \<Rightarrow> probe P fuel tab (next_idx (length tab) idx))"

lemmas [simp del] = probe.simps

definition te_live :: "psmi_epid_tabentry \<Rightarrow> bool" where
  "te_live e \<longleftrightarrow> te_entry e \<noteq> 0 \<and> te_entry e \<noteq> EPADDR_DELETED"

lemma empty_loop_probe: "empty_loop fuel tab idx = probe (\<lambda>e. te_entry e = 0) fuel tab idx"
  by (induction fuel arbitrary: idx) (simp_all add: empty_loop.simps probe.simps)

lemma usable_loop_probe: "usable_loop fuel tab idx = probe (\<lambda>e. \<not> te_live e) fuel tab idx"
  by (induction fuel arbitrary: idx) (simp_all add: usable_loop.simps probe.simps te_live_def)

lemma lookup_loop_probe:
  "lookup_loop fuel tab key idx = run_bind (probe (\<lambda>e. te_entry e = 0 \<or> te_live e \<and> te_key e = key) fuel tab idx)
     (\<lambda>i. Inr (if te_entry (tab ! i) = 0 then None else Some i))"
  by (induction fuel arbitrary: idx; subst lookup_loop.simps, subst probe.simps) (auto simp: te_live_def)

lemma mod_in_range: "x < n \<Longrightarrow> k mod n < (n :: nat)"
  by (rule mod_less_divisor) simp

lemma next_idx_mod: "idx < n \<Longrightarrow> next_idx n idx = Suc idx mod n"
  by (simp add: next_idx_def)

lemma probe_first:
  assumes "h < length tab" "d \<le> fuel" "P (tab ! ((h + d) mod length tab))" "\<And>d'. d' < d \<Longrightarrow> \<not> P (tab ! ((h + d') mod length tab))"
  shows "probe P fuel tab h = Inr ((h + d) mod length tab)"
  using assms
proof (induction d arbitrary: fuel h)
  case (Suc d)
  let ?n = "length tab" and ?h = "next_idx (length tab) h"
  obtain k where k: "fuel = Suc k" "d \<le> k" using Suc.prems(2) by (cases fuel) auto
  have m: "?h < ?n" "(?h + i) mod ?n = (h + Suc i) mod ?n" for i
    using mod_in_range [OF Suc.prems(1)] Suc.prems(1) by (simp_all add: next_idx_mod mod_simps)
  have "probe P k tab ?h = Inr ((?h + d) mod ?n)"
    using Suc.prems(3) Suc.prems(4) [of "Suc _"] k m by (intro Suc.IH) simp_all
  moreover have "\<not> P (tab ! h)" using Suc.prems(4) [of 0] Suc.prems(1) by simp
  ultimately show ?case using m(2) [of d] by (simp add: probe.simps [of P "Suc k"] k)
qed (simp add: probe.simps)

lemma first_distance:
  assumes "h < length tab" "j < length tab" "P (tab ! j)"
  obtains d where "d < length tab" "P (tab ! ((h + d) mod length tab))" "\<And>d'. d' < d \<Longrightarrow> \<not> P (tab ! ((h + d') mod length tab))"
    "d \<le> (j + length tab - h) mod length tab"
proof -
  let ?n = "length tab" and ?Q = "\<lambda>d. P (tab ! ((h + d) mod length tab))"
  let ?d = "(j + ?n - h) mod ?n"
  have "(h + ?d) mod ?n = (h + (j + ?n - h)) mod ?n" by (simp add: mod_simps)
  also have "\<dots> = j" using assms(1,2) by simp
  finally have Q: "?Q ?d" using assms(3) by simp
  show thesis
  proof (rule that [of "LEAST d. ?Q d"])
    show "?Q (LEAST d. ?Q d)" using Q by (rule LeastI)
    show "\<not> ?Q d'" if "d' < (LEAST d. ?Q d)" for d' using that by (rule not_less_Least)
    show "(LEAST d. ?Q d) \<le> ?d" using Q by (rule Least_le)
    then show "(LEAST d. ?Q d) < ?n" using mod_in_range [OF assms(1)] by (rule le_less_trans)
  qed
qed

section \<open>The invariant and the map a table stands for\<close>

definition te_home :: "nat \<Rightarrow> psmi_epid_tabentry \<Rightarrow> nat" where
  "te_home n e = unat (te_key e) mod n"

text \<open>Live slots hold the hash of their endpoint, no two of them the same, and no slot between a key's home and its slot is empty.\<close>

definition tab_ok :: "psmi_epid_tabentry list \<Rightarrow> bool" where
  "tab_ok tab \<longleftrightarrow>
     (\<forall>e \<in> set tab. te_live e \<longrightarrow> te_key e = hash_this (te_ep e) (te_epid e)) \<and>
     (\<forall>i < length tab. \<forall>j < length tab. te_live (tab ! i) \<longrightarrow> te_live (tab ! j) \<longrightarrow> te_key (tab ! i) = te_key (tab ! j) \<longrightarrow> i = j) \<and>
     (\<forall>i < length tab. te_live (tab ! i) \<longrightarrow> (\<forall>d < (i + length tab - te_home (length tab) (tab ! i)) mod length tab.
        te_entry (tab ! ((te_home (length tab) (tab ! i) + d) mod length tab)) \<noteq> 0))"

definition tab_map :: "psmi_epid_tabentry list \<Rightarrow> u64 \<times> u64 \<Rightarrow> u64 option" where
  "tab_map tab = map_of (map (\<lambda>e. ((te_ep e, te_epid e), te_entry e)) (filter te_live tab))"

definition occupied :: "psmi_epid_tabentry list \<Rightarrow> nat" where
  "occupied tab = length (filter (\<lambda>e. te_entry e \<noteq> 0) tab)"

definition epid_table_ok :: "psmi_epid_table \<Rightarrow> bool" where
  "epid_table_ok t \<longleftrightarrow> tabsize t = length (table t) \<and> tab_ok (table t) \<and> occupied (table t) \<le> tabsize_used t \<and>
     (table t = [] \<or> occupied (table t) < length (table t))"

lemma tab_okD:
  assumes "tab_ok tab" "i < length tab" "te_live (tab ! i)"
  shows "te_key (tab ! i) = hash_this (te_ep (tab ! i)) (te_epid (tab ! i))"
    "j < length tab \<Longrightarrow> te_live (tab ! j) \<Longrightarrow> te_key (tab ! i) = te_key (tab ! j) \<Longrightarrow> i = j"
    "d < (i + length tab - te_home (length tab) (tab ! i)) mod length tab \<Longrightarrow>
       te_entry (tab ! ((te_home (length tab) (tab ! i) + d) mod length tab)) \<noteq> 0"
  using assms nth_mem unfolding tab_ok_def by blast+

lemma tab_map_Some:
  assumes "tab_ok tab"
  shows "tab_map tab (ep, epid) = Some x \<longleftrightarrow> (\<exists>i < length tab. te_live (tab ! i) \<and> te_ep (tab ! i) = ep \<and> te_epid (tab ! i) = epid \<and> te_entry (tab ! i) = x)"
    (is "_ = (\<exists>i < _. ?L i)")
proof
  assume "tab_map tab (ep, epid) = Some x"
  then have "((ep, epid), x) \<in> set (map (\<lambda>e. ((te_ep e, te_epid e), te_entry e)) (filter te_live tab))"
    unfolding tab_map_def by (rule map_of_SomeD)
  then obtain e where "e \<in> set tab" "te_live e" "te_ep e = ep" "te_epid e = epid" "te_entry e = x" by auto
  then show "\<exists>i < length tab. ?L i" by (metis in_set_conv_nth)
next
  assume "\<exists>i < length tab. ?L i"
  then obtain i where i: "i < length tab" "?L i" by blast
  have "(ep, epid) \<in> dom (tab_map tab)" using i nth_mem [OF i(1)] unfolding tab_map_def dom_map_of_conv_image_fst by force
  then obtain y where y: "tab_map tab (ep, epid) = Some y" by blast
  then have "((ep, epid), y) \<in> set (map (\<lambda>e. ((te_ep e, te_epid e), te_entry e)) (filter te_live tab))"
    unfolding tab_map_def by (rule map_of_SomeD)
  then obtain j where j: "j < length tab" "te_live (tab ! j)" "te_ep (tab ! j) = ep" "te_epid (tab ! j) = epid" "te_entry (tab ! j) = y"
    by (auto simp: in_set_conv_nth)
  have "i = j" using tab_okD(2) [OF assms i(1) _ j(1,2)] tab_okD(1) [OF assms i(1)] tab_okD(1) [OF assms j(1,2)] i(2) j by simp
  then show "tab_map tab (ep, epid) = Some x" using y i(2) j(5) by simp
qed

lemma occupied_less: "occupied tab < length tab \<longleftrightarrow> (\<exists>i < length tab. te_entry (tab ! i) = 0)"
proof -
  have "occupied tab < length tab \<longleftrightarrow> (\<exists>e \<in> set tab. te_entry e = 0)"
    unfolding occupied_def using length_filter_less [of _ tab "\<lambda>e. te_entry e \<noteq> 0"]
    by (metis (mono_tags, lifting) filter_True less_irrefl)
  then show ?thesis by (metis in_set_conv_nth)
qed

section \<open>The searches on a well-formed table\<close>

lemma lookup_loop_found:
  assumes ok: "tab_ok tab" and i: "i < length tab" "te_live (tab ! i)" "te_key (tab ! i) = k"
  shows "lookup_loop (length tab) tab k (unat k mod length tab) = Inr (Some i)"
proof -
  let ?n = "length tab" and ?h = "unat k mod length tab" and ?P = "\<lambda>e. te_entry e = 0 \<or> te_live e \<and> te_key e = k"
  have h: "?h < ?n" using i(1) by (rule mod_in_range)
  obtain d where d: "d < ?n" "?P (tab ! ((?h + d) mod ?n))" "\<And>d'. d' < d \<Longrightarrow> \<not> ?P (tab ! ((?h + d') mod ?n))"
      "d \<le> (i + ?n - ?h) mod ?n"
    by (rule first_distance [where P = ?P, OF h i(1)], use i in simp) blast
  have "te_live (tab ! ((?h + d) mod ?n)) \<and> te_key (tab ! ((?h + d) mod ?n)) = k"
  proof (cases "d = (i + ?n - ?h) mod ?n")
    case True
    then have "(?h + d) mod ?n = (?h + (i + ?n - ?h)) mod ?n" by (simp only: mod_add_right_eq)
    then have "(?h + d) mod ?n = i" using h i(1) by simp
    then show ?thesis using i by simp
  next
    case False
    then have "te_entry (tab ! ((?h + d) mod ?n)) \<noteq> 0" using tab_okD(3) [OF ok i(1,2), of d] d(4) i(3) by (simp add: te_home_def)
    then show ?thesis using d(2) by simp
  qed
  moreover have "(?h + d) mod ?n < ?n" using h by (rule mod_in_range)
  ultimately have at: "(?h + d) mod ?n = i" using tab_okD(2) [OF ok i(1,2), of "(?h + d) mod ?n"] i(3) by simp
  have "probe ?P ?n tab ?h = Inr ((?h + d) mod ?n)" by (rule probe_first [where P = ?P, OF h _ d(2)]) (use d(1,3) in simp_all)
  then show ?thesis using i(2) unfolding at lookup_loop_probe by (simp add: te_live_def)
qed

lemma lookup_loop_missing:
  assumes space: "occupied tab < length tab" and none: "\<And>i. i < length tab \<Longrightarrow> te_live (tab ! i) \<Longrightarrow> te_key (tab ! i) \<noteq> k"
  shows "lookup_loop (length tab) tab k (unat k mod length tab) = Inr None"
proof -
  let ?n = "length tab" and ?h = "unat k mod length tab" and ?P = "\<lambda>e. te_entry e = 0 \<or> te_live e \<and> te_key e = k"
  have h: "?h < ?n" using space by (rule mod_in_range)
  obtain z where z: "z < ?n" "te_entry (tab ! z) = 0" using space by (auto simp: occupied_less)
  obtain d where d: "d < ?n" "?P (tab ! ((?h + d) mod ?n))" "\<And>d'. d' < d \<Longrightarrow> \<not> ?P (tab ! ((?h + d') mod ?n))"
    by (rule first_distance [where P = ?P, OF h z(1)], use z in simp) blast
  have "(?h + d) mod ?n < ?n" using h by (rule mod_in_range)
  then have "te_entry (tab ! ((?h + d) mod ?n)) = 0" using d(2) none by blast
  moreover have "probe ?P ?n tab ?h = Inr ((?h + d) mod ?n)" by (rule probe_first [where P = ?P, OF h _ d(2)]) (use d(1,3) in simp_all)
  ultimately show ?thesis unfolding lookup_loop_probe by simp
qed

text \<open>A slot that is not in use and has no empty slot before it takes a new key.\<close>

lemma tab_insert:
  assumes ok: "tab_ok tab" and e: "te_live e" "te_key e = hash_this (te_ep e) (te_epid e)"
    and new: "\<And>j. j < length tab \<Longrightarrow> te_live (tab ! j) \<Longrightarrow> te_key (tab ! j) \<noteq> te_key e"
    and d: "d < length tab" "\<not> te_live (tab ! ((te_home (length tab) e + d) mod length tab))"
      "\<And>d'. d' < d \<Longrightarrow> te_entry (tab ! ((te_home (length tab) e + d') mod length tab)) \<noteq> 0"
  defines "tab' \<equiv> tab[(te_home (length tab) e + d) mod length tab := e]"
  shows "tab_ok tab'" "tab_map tab' = (tab_map tab)((te_ep e, te_epid e) \<mapsto> te_entry e)"
    "occupied tab' = occupied tab + (if te_entry (tab ! ((te_home (length tab) e + d) mod length tab)) = 0 then 1 else 0)"
proof -
  let ?n = "length tab" and ?i = "(te_home (length tab) e + d) mod length tab"
  have i: "?i < ?n" using d(1) by (rule mod_in_range)
  have len: "length tab' = ?n" by (simp add: tab'_def)
  have nth: "tab' ! j = (if j = ?i then e else tab ! j)" if "j < ?n" for j using that i by (simp add: tab'_def nth_list_update)
  have full: "te_entry (tab' ! j) \<noteq> 0" if "j < ?n" "te_entry (tab ! j) \<noteq> 0" for j
    using that e(1) nth by (auto simp: te_live_def)
  have h: "te_home ?n e < ?n" unfolding te_home_def using d(1) by (rule mod_in_range)
  have dist: "(?i + ?n - te_home ?n e) mod ?n = d"
  proof (cases "te_home ?n e + d < ?n")
    case True
    then show ?thesis using d(1) by (simp add: mod_simps)
  next
    case False
    then have "?i = te_home ?n e + d - ?n" using h d(1) by (simp add: mod_if)
    then show ?thesis using False d(1) by simp
  qed
  show ok': "tab_ok tab'" unfolding tab_ok_def len
  proof (intro conjI allI ballI impI)
    fix x assume "x \<in> set tab'" "te_live x"
    then have "x = e \<or> x \<in> set tab" unfolding tab'_def by (meson set_update_subset_insert insertE subsetD)
    then show "te_key x = hash_this (te_ep x) (te_epid x)" using e(2) ok \<open>te_live x\<close> unfolding tab_ok_def by blast
  next
    fix j k assume "j < ?n" "k < ?n" "te_live (tab' ! j)" "te_live (tab' ! k)" "te_key (tab' ! j) = te_key (tab' ! k)"
    then show "j = k" using new [of j] new [of k] tab_okD(2) [OF ok, of j k] by (simp add: nth split: if_splits)
  next
    fix j d' assume j: "j < ?n" "te_live (tab' ! j)" "d' < (j + ?n - te_home ?n (tab' ! j)) mod ?n"
    let ?k = "(te_home ?n (tab' ! j) + d') mod ?n"
    have "?k < ?n" using i by (rule mod_in_range)
    moreover have "te_entry (tab ! ?k) \<noteq> 0"
    proof (cases "j = ?i")
      case True
      then show ?thesis using j dist d(3) nth by simp
    next
      case False
      then show ?thesis using j tab_okD(3) [OF ok j(1)] nth by simp
    qed
    ultimately show "te_entry (tab' ! ?k) \<noteq> 0" by (rule full)
  qed
  show "tab_map tab' = (tab_map tab)((te_ep e, te_epid e) \<mapsto> te_entry e)"
  proof
    fix k :: "u64 \<times> u64"
    obtain ep epid where k: "k = (ep, epid)" by fastforce
    have "tab_map tab' k = Some x \<longleftrightarrow> ((tab_map tab)((te_ep e, te_epid e) \<mapsto> te_entry e)) k = Some x" for x
    proof (cases "k = (te_ep e, te_epid e)")
      case True
      have "\<not> (j < ?n \<and> te_live (tab ! j) \<and> te_ep (tab ! j) = ep \<and> te_epid (tab ! j) = epid)" for j
        using new [of j] tab_okD(1) [OF ok, of j] True e(2) k by auto
      then show ?thesis using True k i e(1) unfolding k tab_map_Some [OF ok'] len by (auto simp: nth)
    next
      case False
      then have "te_live (tab' ! j) \<and> te_ep (tab' ! j) = ep \<and> te_epid (tab' ! j) = epid \<and> te_entry (tab' ! j) = x \<longleftrightarrow>
          te_live (tab ! j) \<and> te_ep (tab ! j) = ep \<and> te_epid (tab ! j) = epid \<and> te_entry (tab ! j) = x" if "j < ?n" for j
        using k d(2) that by (cases "j = ?i") (auto simp: nth)
      then have "tab_map tab' k = Some x \<longleftrightarrow> tab_map tab k = Some x"
        unfolding k tab_map_Some [OF ok] tab_map_Some [OF ok'] len by blast
      then show ?thesis using False by simp
    qed
    then show "tab_map tab' k = ((tab_map tab)((te_ep e, te_epid e) \<mapsto> te_entry e)) k" by (metis option.exhaust)
  qed
  have split: "tab = take ?i tab @ tab ! ?i # drop (Suc ?i) tab" using i by (rule id_take_nth_drop)
  have "tab' = take ?i tab @ e # drop (Suc ?i) tab" unfolding tab'_def using i by (rule upd_conv_take_nth_drop)
  then show "occupied tab' = occupied tab + (if te_entry (tab ! ?i) = 0 then 1 else 0)"
    using e(1) unfolding occupied_def by (subst split) (simp add: te_live_def)
qed

lemma tab_okI_empty: "tab_ok (replicate n te_calloc)" "tab_map (replicate n te_calloc) = Map.empty" "occupied (replicate n te_calloc) = 0"
  by (auto simp: tab_ok_def tab_map_def occupied_def te_calloc_def te_live_def)

lemma empty_loop_insert:
  assumes ok: "tab_ok tab" and space: "occupied tab < length tab" and e: "te_live e" "te_key e = hash_this (te_ep e) (te_epid e)"
    and new: "\<And>j. j < length tab \<Longrightarrow> te_live (tab ! j) \<Longrightarrow> te_key (tab ! j) \<noteq> te_key e"
  obtains i where "empty_loop (length tab) tab (unat (te_key e) mod length tab) = Inr i" "tab_ok (tab[i := e])"
    "tab_map (tab[i := e]) = (tab_map tab)((te_ep e, te_epid e) \<mapsto> te_entry e)" "occupied (tab[i := e]) = Suc (occupied tab)"
proof -
  let ?n = "length tab" and ?h = "te_home (length tab) e" and ?P = "\<lambda>e. te_entry e = 0"
  have h: "?h < ?n" unfolding te_home_def using space by (rule mod_in_range)
  obtain z where z: "z < ?n" "te_entry (tab ! z) = 0" using space by (auto simp: occupied_less)
  obtain d where d: "d < ?n" "?P (tab ! ((?h + d) mod ?n))" "\<And>d'. d' < d \<Longrightarrow> \<not> ?P (tab ! ((?h + d') mod ?n))"
    by (rule first_distance [where P = ?P, OF h z(1)], use z in simp) blast
  have "probe ?P ?n tab ?h = Inr ((?h + d) mod ?n)" by (rule probe_first [where P = ?P, OF h _ d(2)]) (use d(1,3) in simp_all)
  moreover note tab_insert [OF ok e new d(1) _ d(3)]
  ultimately show thesis using d(2) by (intro that [of "(?h + d) mod ?n"]) (simp_all add: empty_loop_probe te_home_def te_live_def)
qed

lemma usable_loop_insert:
  assumes ok: "tab_ok tab" and space: "occupied tab < length tab" and e: "te_live e" "te_key e = hash_this (te_ep e) (te_epid e)"
    and new: "\<And>j. j < length tab \<Longrightarrow> te_live (tab ! j) \<Longrightarrow> te_key (tab ! j) \<noteq> te_key e"
  obtains i where "usable_loop (length tab) tab (unat (te_key e) mod length tab) = Inr i" "tab_ok (tab[i := e])"
    "tab_map (tab[i := e]) = (tab_map tab)((te_ep e, te_epid e) \<mapsto> te_entry e)" "occupied (tab[i := e]) \<le> Suc (occupied tab)"
proof -
  let ?n = "length tab" and ?h = "te_home (length tab) e" and ?P = "\<lambda>e. \<not> te_live e"
  have h: "?h < ?n" unfolding te_home_def using space by (rule mod_in_range)
  obtain z where z: "z < ?n" "te_entry (tab ! z) = 0" using space by (auto simp: occupied_less)
  obtain d where d: "d < ?n" "?P (tab ! ((?h + d) mod ?n))" "\<And>d'. d' < d \<Longrightarrow> \<not> ?P (tab ! ((?h + d') mod ?n))"
    by (rule first_distance [where P = ?P, OF h z(1)], use z in \<open>simp add: te_live_def\<close>) blast
  have "te_entry (tab ! ((?h + d') mod ?n)) \<noteq> 0" if "d' < d" for d' using d(3) [OF that] by (simp add: te_live_def)
  note tab_insert [OF ok e new d(1,2) this]
  moreover have "probe ?P ?n tab ?h = Inr ((?h + d) mod ?n)" by (rule probe_first [where P = ?P, OF h _ d(2)]) (use d(1,3) in simp_all)
  ultimately show thesis by (intro that [of "(?h + d) mod ?n"]) (simp_all add: usable_loop_probe te_home_def)
qed

section \<open>Growing\<close>

definition live_keys :: "psmi_epid_tabentry list \<Rightarrow> u64 list" where
  "live_keys tab = map te_key (filter te_live tab)"

lemma live_keys_iff: "k \<in> set (live_keys tab) \<longleftrightarrow> (\<exists>j < length tab. te_live (tab ! j) \<and> te_key (tab ! j) = k)"
  by (auto simp: live_keys_def in_set_conv_nth)

lemma live_keys_map: "tab_ok tab \<Longrightarrow> set (live_keys tab) = (\<lambda>(ep, epid). hash_this ep epid) ` dom (tab_map tab)"
  unfolding live_keys_def tab_map_def dom_map_of_conv_image_fst tab_ok_def by (force simp: image_iff)

lemma distinct_live_keys: "tab_ok tab \<Longrightarrow> distinct (live_keys tab)"
proof -
  assume ok: "tab_ok tab"
  have "distinct (map te_key (filter te_live xs))"
    if "\<And>i j. i < length xs \<Longrightarrow> j < length xs \<Longrightarrow> te_live (xs ! i) \<Longrightarrow> te_live (xs ! j) \<Longrightarrow> te_key (xs ! i) = te_key (xs ! j) \<Longrightarrow> i = j" for xs
    using that
  proof (induction xs)
    case (Cons x xs)
    have "distinct (map te_key (filter te_live xs))" using Cons.prems [of "Suc _" "Suc _"] by (intro Cons.IH) auto
    moreover have "te_key x \<notin> te_key ` {y \<in> set xs. te_live y}" if "te_live x"
      using Cons.prems [of 0 "Suc _"] that by (auto simp: in_set_conv_nth)
    ultimately show ?case by auto
  qed simp
  then show ?thesis using tab_okD(2) [OF ok] unfolding live_keys_def by blast
qed

lemma rehash_loop_ok:
  assumes "tab_ok newtab" "occupied newtab + length (filter te_live es) < length newtab"
    "\<And>e. e \<in> set es \<Longrightarrow> te_live e \<Longrightarrow> te_key e = hash_this (te_ep e) (te_epid e)"
    "distinct (live_keys es)" "set (live_keys es) \<inter> set (live_keys newtab) = {}"
  shows "\<exists>newtab'. rehash_loop es used newtab = Inr (used - length (filter (\<lambda>e. te_entry e = EPADDR_DELETED) es), newtab') \<and>
    tab_ok newtab' \<and> length newtab' = length newtab \<and> occupied newtab' = occupied newtab + length (filter te_live es) \<and>
    tab_map newtab' = tab_map newtab ++ tab_map es"
  using assms
proof (induction es arbitrary: used newtab)
  case (Cons e es)
  show ?case
  proof (cases "te_live e")
    case False
    then have "te_entry e = 0 \<or> te_entry e = EPADDR_DELETED" by (simp add: te_live_def)
    moreover have "EPADDR_DELETED \<noteq> 0" by (simp add: EPADDR_DELETED_def)
    moreover have "live_keys (e # es) = live_keys es" "tab_map (e # es) = tab_map es" using False by (simp_all add: live_keys_def tab_map_def)
    ultimately show ?thesis using Cons.prems False Cons.IH [of newtab used] Cons.IH [of newtab "used - 1"] by auto
  next
    case True
    have k: "live_keys (e # es) = te_key e # live_keys es" using True by (simp add: live_keys_def)
    have "\<And>j. j < length newtab \<Longrightarrow> te_live (newtab ! j) \<Longrightarrow> te_key (newtab ! j) \<noteq> te_key e"
      using Cons.prems(5) unfolding k live_keys_iff [symmetric] by (auto simp: live_keys_iff)
    then obtain i where i: "empty_loop (length newtab) newtab (unat (te_key e) mod length newtab) = Inr i" "tab_ok (newtab[i := e])"
        "tab_map (newtab[i := e]) = (tab_map newtab)((te_ep e, te_epid e) \<mapsto> te_entry e)" "occupied (newtab[i := e]) = Suc (occupied newtab)"
      using Cons.prems(1,2,3) True by (elim empty_loop_insert [rotated 4]) auto
    let ?h = "\<lambda>(ep, epid). hash_this ep epid"
    have sub: "set (live_keys (newtab[i := e])) = insert (te_key e) (set (live_keys newtab))"
      unfolding live_keys_map [OF i(2)] live_keys_map [OF Cons.prems(1)] i(3) using Cons.prems(3) [of e] True by simp
    have disj: "set (live_keys es) \<inter> set (live_keys (newtab[i := e])) = {}" using Cons.prems(4,5) unfolding sub k by auto
    have "(te_ep e, te_epid e) \<notin> dom (tab_map es)"
    proof
      assume "(te_ep e, te_epid e) \<in> dom (tab_map es)"
      then obtain x where "x \<in> set es" "te_live x" "te_ep x = te_ep e" "te_epid x = te_epid e"
        unfolding tab_map_def dom_map_of_conv_image_fst by auto
      then have "te_key x = te_key e" using Cons.prems(3) [of x] Cons.prems(3) [of e] True by simp
      then have "te_key e \<in> set (live_keys es)" using \<open>x \<in> set es\<close> \<open>te_live x\<close> by (auto simp: live_keys_def intro!: image_eqI [of _ _ x])
      then show False using Cons.prems(4) unfolding k by simp
    qed
    then have "(tab_map newtab)((te_ep e, te_epid e) \<mapsto> te_entry e) ++ tab_map es = (tab_map newtab ++ tab_map es)((te_ep e, te_epid e) \<mapsto> te_entry e)"
      by (rule map_add_upd_left)
    also have "\<dots> = tab_map newtab ++ tab_map (e # es)" using True by (simp add: tab_map_def)
    finally have m: "tab_map (newtab[i := e]) ++ tab_map es = tab_map newtab ++ tab_map (e # es)" unfolding i(3) .
    show ?thesis using Cons.IH [of "newtab[i := e]" used] i(1,2,4) Cons.prems True disj m unfolding k
      by (auto simp: te_live_def)
  qed
qed (simp add: tab_map_def)

lemma float_shift_bounds: "n div 2 ^ float_shift n < 2 ^ 24 \<and> (0 < float_shift n \<longrightarrow> 2 ^ (float_shift n + 23) \<le> n)"
proof (induction n rule: float_shift.induct)
  case (1 n)
  show ?case
  proof (cases "n < 2 ^ 24")
    case True
    then show ?thesis by (simp add: float_shift.simps [of n])
  next
    case False
    then have IH: "n div 2 div 2 ^ float_shift (n div 2) < 2 ^ 24" "0 < float_shift (n div 2) \<longrightarrow> 2 ^ (float_shift (n div 2) + 23) \<le> n div 2"
      using 1 by simp_all
    have s: "float_shift n = Suc (float_shift (n div 2))" using False by (simp add: float_shift.simps [of n])
    have "2 ^ (float_shift (n div 2) + 23) \<le> n div 2"
    proof (cases "float_shift (n div 2) = 0")
      case True
      then show ?thesis using False by simp
    qed (use IH(2) in simp)
    then have "2 ^ (Suc (float_shift (n div 2)) + 23) \<le> n" by (simp only: power_Suc add_Suc)
    then show ?thesis unfolding s using IH(1) by (simp add: div_mult2_eq)
  qed
qed

text \<open>Rounding adds at most a half unit of the last of 24 digits.\<close>

lemma float_round_le: "2 ^ 24 * float_round n \<le> (2 ^ 24 + 1) * n"
proof (cases "float_shift n")
  case 0
  then show ?thesis by (simp add: float_round_def)
next
  case (Suc s)
  let ?q = "n div 2 ^ Suc s" and ?r = "n mod 2 ^ Suc s"
  have n: "n = ?q * 2 ^ Suc s + ?r" by (rule div_mult_mod_eq [symmetric])
  have low: "2 ^ (s + 24) \<le> n" using float_shift_bounds [of n] Suc by (simp add: add.commute)
  have "float_round n \<le> n + 2 ^ s"
  proof (cases "2 * ?r > 2 ^ Suc s \<or> 2 * ?r = 2 ^ Suc s \<and> odd ?q")
    case True
    then have "2 ^ s \<le> ?r" by auto
    moreover have "float_round n = (?q + 1) * 2 ^ Suc s" using True Suc by (auto simp: float_round_def Let_def)
    ultimately show ?thesis using n by (simp add: algebra_simps)
  next
    case False
    then have "float_round n = ?q * 2 ^ Suc s" using Suc by (auto simp: float_round_def Let_def)
    then show ?thesis using n by linarith
  qed
  then have "2 ^ 24 * float_round n \<le> 2 ^ 24 * n + 2 ^ (s + 24)" by (simp add: power_add)
  then show ?thesis using low by simp
qed

lemma load_limit_less: "0 < n \<Longrightarrow> load_limit n < n"
proof -
  assume n: "0 < n"
  let ?a = "float_round n" and ?b = "float_round (float_round n * 11744051)"
  have "2 ^ 24 * ?b \<le> (2 ^ 24 + 1) * (?a * 11744051)" by (rule float_round_le)
  moreover have "2 ^ 24 * ?a \<le> (2 ^ 24 + 1) * n" by (rule float_round_le)
  ultimately have "?b < 2 ^ 24 * n" using n by simp
  then show ?thesis unfolding load_limit_def by (simp add: div_less_iff_less_mult mult.commute)
qed

lemma load_limit_0 [simp]: "load_limit 0 = 0"
  by (simp add: load_limit_def float_round_def float_shift.simps)

section \<open>The operations on a well-formed table\<close>

definition hash_pair :: "u64 \<times> u64 \<Rightarrow> u64" where
  "hash_pair k = hash_this (fst k) (snd k)"

definition ptr_of :: "u64 option \<Rightarrow> u64" where
  "ptr_of x = (case x of None \<Rightarrow> 0 | Some a \<Rightarrow> a)"

lemma no_collision:
  assumes ok: "tab_ok tab" and inj: "inj_on hash_pair (insert (ep, epid) (dom (tab_map tab)))" and none: "tab_map tab (ep, epid) = None"
    and j: "j < length tab" "te_live (tab ! j)"
  shows "te_key (tab ! j) \<noteq> hash_this ep epid"
proof
  assume eq: "te_key (tab ! j) = hash_this ep epid"
  let ?k = "(te_ep (tab ! j), te_epid (tab ! j))"
  have k: "?k \<in> dom (tab_map tab)" using j tab_map_Some [OF ok] by blast
  have "hash_pair ?k = hash_pair (ep, epid)" using eq tab_okD(1) [OF ok j] by (simp add: hash_pair_def)
  then have "?k = (ep, epid)" using inj_onD [OF inj] k by blast
  then show False using k none by auto
qed

lemma tab_delete:
  assumes ok: "tab_ok tab" and i: "i < length tab" "te_live (tab ! i)"
  defines "tab' \<equiv> tab[i := (tab ! i)\<lparr>te_entry := EPADDR_DELETED\<rparr>]"
  shows "tab_ok tab'" "tab_map tab' = (tab_map tab)((te_ep (tab ! i), te_epid (tab ! i)) := None)" "occupied tab' = occupied tab"
proof -
  let ?e = "(tab ! i)\<lparr>te_entry := EPADDR_DELETED\<rparr>"
  have dead: "\<not> te_live ?e" "te_entry ?e \<noteq> 0" by (simp_all add: te_live_def EPADDR_DELETED_def)
  have nth: "tab' ! j = (if j = i then ?e else tab ! j)" if "j < length tab" for j using that i by (simp add: tab'_def nth_list_update)
  have live: "te_live (tab' ! j) \<longleftrightarrow> j \<noteq> i \<and> te_live (tab ! j)" if "j < length tab" for j using that dead nth by auto
  have full: "te_entry (tab' ! j) \<noteq> 0" if "j < length tab" "te_entry (tab ! j) \<noteq> 0" for j using that dead nth by auto
  have len: "length tab' = length tab" by (simp add: tab'_def)
  show ok': "tab_ok tab'" unfolding tab_ok_def len
  proof (intro conjI allI ballI impI)
    fix x assume "x \<in> set tab'" "te_live x"
    then have "x \<in> set tab" using dead(1) unfolding tab'_def by (metis set_update_subset_insert insertE subsetD)
    then show "te_key x = hash_this (te_ep x) (te_epid x)" using ok \<open>te_live x\<close> unfolding tab_ok_def by blast
  next
    fix j k assume "j < length tab" "k < length tab" "te_live (tab' ! j)" "te_live (tab' ! k)" "te_key (tab' ! j) = te_key (tab' ! k)"
    then show "j = k" using tab_okD(2) [OF ok, of j k] live nth by auto
  next
    fix j d assume j: "j < length tab" "te_live (tab' ! j)" "d < (j + length tab - te_home (length tab) (tab' ! j)) mod length tab"
    have "(te_home (length tab) (tab' ! j) + d) mod length tab < length tab" using i(1) by (rule mod_in_range)
    then show "te_entry (tab' ! ((te_home (length tab) (tab' ! j) + d) mod length tab)) \<noteq> 0"
      by (rule full) (use j tab_okD(3) [OF ok j(1)] live nth in auto)
  qed
  show "tab_map tab' = (tab_map tab)((te_ep (tab ! i), te_epid (tab ! i)) := None)"
  proof
    fix k :: "u64 \<times> u64"
    obtain ep epid where k: "k = (ep, epid)" by fastforce
    have uniq: "j = i" if "j < length tab" "te_live (tab ! j)" "te_ep (tab ! j) = te_ep (tab ! i)" "te_epid (tab ! j) = te_epid (tab ! i)" for j
      using that tab_okD(2) [OF ok that(1,2) i] tab_okD(1) [OF ok that(1,2)] tab_okD(1) [OF ok i] by simp
    define A where "A tab j x \<longleftrightarrow> te_live (tab ! j) \<and> te_ep (tab ! j) = ep \<and> te_epid (tab ! j) = epid \<and> te_entry (tab ! j) = x" for tab j x
    let ?k = "(te_ep (tab ! i), te_epid (tab ! i))"
    have "A tab' j x \<longleftrightarrow> k \<noteq> ?k \<and> A tab j x" if "j < length tab" for j x
      using that uniq [of j] dead(1) unfolding A_def k by (cases "j = i") (auto simp: nth)
    then have "(\<exists>j < length tab. A tab' j x) \<longleftrightarrow> k \<noteq> ?k \<and> (\<exists>j < length tab. A tab j x)" for x by blast
    then have "tab_map tab' k = Some x \<longleftrightarrow> ((tab_map tab)(?k := None)) k = Some x" for x
      using tab_map_Some [OF ok, of ep epid x] tab_map_Some [OF ok', of ep epid x] unfolding len A_def k [symmetric] by (simp add: fun_upd_apply)
    then show "tab_map tab' k = ((tab_map tab)((te_ep (tab ! i), te_epid (tab ! i)) := None)) k" by (metis option.exhaust)
  qed
  have split: "tab = take i tab @ tab ! i # drop (Suc i) tab" using i(1) by (rule id_take_nth_drop)
  have "tab' = take i tab @ ?e # drop (Suc i) tab" unfolding tab'_def using i(1) by (rule upd_conv_take_nth_drop)
  then show "occupied tab' = occupied tab" using arg_cong [OF split, of occupied] i(2) dead(2) by (simp add: occupied_def te_live_def)
qed

lemma lookup_inner_ok:
  assumes ok: "epid_table_ok t" and inj: "inj_on hash_pair (insert (ep, epid) (dom (tab_map (table t))))"
  shows "\<exists>t'. psmi_epid_lookup_inner ep epid remove t = Inr (ptr_of (tab_map (table t) (ep, epid)), t') \<and> epid_table_ok t' \<and>
    (if remove then tab_map (table t') = (tab_map (table t))((ep, epid) := None) else t' = t)"
proof (cases "table t = []")
  case True
  then show ?thesis using ok by (simp add: psmi_epid_lookup_inner_def ptr_of_def tab_map_def)
next
  case False
  let ?tab = "table t" and ?k = "hash_this ep epid"
  have t: "tabsize t = length ?tab" "tab_ok ?tab" "occupied ?tab < length ?tab" using ok False by (simp_all add: epid_table_ok_def)
  have idx: "\<not> length ?tab \<le> unat ?k mod length ?tab" "tabsize t \<noteq> 0" using t mod_in_range [OF t(3), of "unat ?k"] by auto
  show ?thesis
  proof (cases "tab_map ?tab (ep, epid)")
    case None
    then have "lookup_loop (length ?tab) ?tab ?k (unat ?k mod length ?tab) = Inr None"
      using no_collision [OF t(2) inj None] t(3) by (intro lookup_loop_missing)
    moreover have "(tab_map ?tab)((ep, epid) := None) = tab_map ?tab" using None by auto
    ultimately show ?thesis using False idx t ok None by (simp add: psmi_epid_lookup_inner_def ptr_of_def Let_def)
  next
    case (Some x)
    then obtain i where i: "i < length ?tab" "te_live (?tab ! i)" "te_ep (?tab ! i) = ep" "te_epid (?tab ! i) = epid" "te_entry (?tab ! i) = x"
      using tab_map_Some [OF t(2)] by blast
    have "lookup_loop (length ?tab) ?tab ?k (unat ?k mod length ?tab) = Inr (Some i)"
      using tab_okD(1) [OF t(2) i(1,2)] i by (intro lookup_loop_found [OF t(2)]) simp_all
    then show ?thesis using False idx t ok Some i tab_delete [OF t(2) i(1,2)]
      by (simp add: psmi_epid_lookup_inner_def ptr_of_def Let_def epid_table_ok_def)
  qed
qed

lemma grow_ok:
  assumes ok: "epid_table_ok t" and len: "n = length (table t) + 128"
  shows "\<exists>used newtab. rehash_loop (table t) (Suc (tabsize_used t)) (replicate n te_calloc) = Inr (used, newtab) \<and>
    tab_ok newtab \<and> length newtab = n \<and> tab_map newtab = tab_map (table t) \<and> Suc (occupied newtab) \<le> used \<and> Suc (occupied newtab) < n"
proof -
  let ?tab = "table t" and ?D = "\<lambda>e. te_entry e = EPADDR_DELETED"
  have t: "tab_ok ?tab" "occupied ?tab \<le> tabsize_used t" using ok by (simp_all add: epid_table_ok_def)
  have live: "length (filter te_live ?tab) < n" using length_filter_le [of te_live ?tab] len by linarith
  have split: "occupied es = length (filter te_live es) + length (filter ?D es)" for es
    by (induction es) (auto simp: occupied_def te_live_def EPADDR_DELETED_def)
  have "\<exists>newtab. rehash_loop ?tab (Suc (tabsize_used t)) (replicate n te_calloc) = Inr (Suc (tabsize_used t) - length (filter ?D ?tab), newtab) \<and>
      tab_ok newtab \<and> length newtab = length (replicate n te_calloc) \<and>
      occupied newtab = occupied (replicate n te_calloc) + length (filter te_live ?tab) \<and>
      tab_map newtab = tab_map (replicate n te_calloc) ++ tab_map ?tab"
  proof (rule rehash_loop_ok)
    show "te_key e = hash_this (te_ep e) (te_epid e)" if "e \<in> set ?tab" "te_live e" for e using t(1) that by (auto simp: tab_ok_def)
    show "set (live_keys ?tab) \<inter> set (live_keys (replicate n te_calloc)) = {}" by (auto simp: live_keys_def te_calloc_def te_live_def)
  qed (use live distinct_live_keys [OF t(1)] in \<open>simp_all add: tab_okI_empty\<close>)
  moreover have "Suc (length (filter te_live ?tab)) \<le> Suc (tabsize_used t) - length (filter ?D ?tab)" "Suc (length (filter te_live ?tab)) < n"
    using split [of ?tab] t(2) length_filter_le [of te_live ?tab] len by linarith+
  ultimately show ?thesis by (auto simp: tab_okI_empty)
qed

lemma add_ok:
  assumes ok: "epid_table_ok t" and inj: "inj_on hash_pair (insert (ep, epid) (dom (tab_map (table t))))"
    and none: "tab_map (table t) (ep, epid) = None" and entry: "entry \<noteq> 0" "entry \<noteq> EPADDR_DELETED"
  shows "\<exists>err t'. psmi_epid_add calloc_ok ep epid entry t = Inr (err, t') \<and> epid_table_ok t' \<and>
    (err = PSM_OK \<and> tab_map (table t') = (tab_map (table t))((ep, epid) \<mapsto> entry) \<or>
     \<not> calloc_ok \<and> err = PSM_NO_MEMORY \<and> table t' = table t)"
proof -
  let ?u = "Suc (tabsize_used t)" and ?n = "length (table t) + 128" and ?e = "\<lparr>te_entry = entry, te_key = hash_this ep epid, te_ep = ep, te_epid = epid\<rparr>"
  let ?t = "t\<lparr>tabsize_used := ?u\<rparr>"
  have t: "tabsize t = length (table t)" "occupied (table t) \<le> tabsize_used t" using ok by (simp_all add: epid_table_ok_def)
  show ?thesis
  proof (cases "?u > load_limit (tabsize t) \<and> \<not> calloc_ok")
    case True
    then show ?thesis using ok by (auto simp: psmi_epid_add_def epid_table_ok_def)
  next
    case False
    obtain t1 where t1: "(if ?u > load_limit (tabsize t) then epid_grow ?t else Inr ?t) = Inr t1"
        "tabsize t1 = length (table t1)" "tab_ok (table t1)" "tab_map (table t1) = tab_map (table t)"
        "Suc (occupied (table t1)) \<le> tabsize_used t1" "Suc (occupied (table t1)) < length (table t1)"
    proof (cases "?u > load_limit (tabsize t)")
      case True
      obtain used newtab where g: "rehash_loop (table t) ?u (replicate ?n te_calloc) = Inr (used, newtab)" "tab_ok newtab" "length newtab = ?n"
          "tab_map newtab = tab_map (table t)" "Suc (occupied newtab) \<le> used" "Suc (occupied newtab) < ?n"
        using grow_ok [OF ok refl] by blast
      show thesis by (rule that [of "?t\<lparr>table := newtab, tabsize := ?n, tabsize_used := used\<rparr>"]) (use g True t(1) in \<open>simp_all add: epid_grow_def PSMI_EPID_TABSIZE_CHUNK_def\<close>)
    next
      case False
      then have "0 < tabsize t" by (cases "tabsize t") auto
      then have "?u < length (table t)" using False load_limit_less [of "tabsize t"] t(1) by simp
      then show thesis using False that [of ?t] ok by (simp add: epid_table_ok_def)
    qed
    let ?tab = "table t1"
    have "te_key (?tab ! j) \<noteq> te_key ?e" if "j < length ?tab" "te_live (?tab ! j)" for j
      using no_collision [OF t1(3) _ _ that, of ep epid] inj none t1(4) by simp
    then obtain i where i: "usable_loop (length ?tab) ?tab (unat (te_key ?e) mod length ?tab) = Inr i" "tab_ok (?tab[i := ?e])"
        "tab_map (?tab[i := ?e]) = (tab_map ?tab)((te_ep ?e, te_epid ?e) \<mapsto> te_entry ?e)" "occupied (?tab[i := ?e]) \<le> Suc (occupied ?tab)"
      using t1(3,6) entry by (elim usable_loop_insert [rotated 4]) (auto simp: te_live_def)
    have "\<not> length ?tab \<le> unat (hash_this ep epid) mod length ?tab" using mod_in_range [OF t1(6)] by (simp add: not_le)
    then have "epid_store ep epid entry t1 = Inr (t1\<lparr>table := ?tab[i := ?e]\<rparr>)"
      using t1(2,6) i(1) by (auto simp: epid_store_def Let_def)
    then have "psmi_epid_add calloc_ok ep epid entry t = Inr (PSM_OK, t1\<lparr>table := ?tab[i := ?e]\<rparr>)"
      using False t1(1) by (cases "?u > load_limit (tabsize t)") (auto simp: psmi_epid_add_def Let_def)
    then show ?thesis using i t1 by (auto simp: epid_table_ok_def)
  qed
qed

section \<open>A table of addresses as a map\<close>

text \<open>
  What the rest of the library relies on: as long as no two of the keys in use have the same hash, a table stands for
  a finite map. The laws are those of single operations; what clients do with several is derived once.
\<close>

locale hashed_table =
  fixes h :: "'k \<Rightarrow> 'h" and ok :: "'s \<Rightarrow> bool" and abs :: "'s \<Rightarrow> 'k \<Rightarrow> 'v option" and valid :: "'v \<Rightarrow> bool"
    and lookup :: "'k \<Rightarrow> 's \<Rightarrow> ('v option \<times> 's) run" and remove :: "'k \<Rightarrow> 's \<Rightarrow> ('v option \<times> 's) run"
    and add :: "bool \<Rightarrow> 'k \<Rightarrow> 'v \<Rightarrow> 's \<Rightarrow> (psm_error \<times> 's) run"
  assumes lookup_law: "ok s \<Longrightarrow> inj_on h (insert k (dom (abs s))) \<Longrightarrow> lookup k s = Inr (abs s k, s)"
    and remove_law: "ok s \<Longrightarrow> inj_on h (insert k (dom (abs s))) \<Longrightarrow>
      \<exists>s'. remove k s = Inr (abs s k, s') \<and> ok s' \<and> abs s' = (abs s)(k := None)"
    and add_law: "ok s \<Longrightarrow> inj_on h (insert k (dom (abs s))) \<Longrightarrow> abs s k = None \<Longrightarrow> valid v \<Longrightarrow>
      \<exists>err s'. add mem k v s = Inr (err, s') \<and> ok s' \<and> (err = PSM_OK \<and> abs s' = (abs s)(k \<mapsto> v) \<or>
        \<not> mem \<and> err = PSM_NO_MEMORY \<and> abs s' = abs s)"
begin

definition stands_for :: "'k set \<Rightarrow> 's \<Rightarrow> ('k \<Rightarrow> 'v option) \<Rightarrow> bool" where
  "stands_for K s m \<longleftrightarrow> ok s \<and> abs s = m \<and> dom m \<subseteq> K \<and> inj_on h K"

lemma stands_inj: "stands_for K s m \<Longrightarrow> k \<in> K \<Longrightarrow> inj_on h (insert k (dom (abs s)))"
  unfolding stands_for_def by (rule inj_on_subset [of h K]) auto

lemma lookup_stands: "stands_for K s m \<Longrightarrow> k \<in> K \<Longrightarrow> lookup k s = Inr (m k, s)"
  using lookup_law stands_inj by (auto simp: stands_for_def)

lemma remove_stands:
  assumes "stands_for K s m" "k \<in> K"
  obtains s' where "remove k s = Inr (m k, s')" "stands_for K s' (m(k := None))"
  using remove_law [OF _ stands_inj [OF assms]] assms by (auto simp: stands_for_def)

lemma add_stands:
  assumes "stands_for K s m" "k \<in> K" "m k = None" "valid v"
  obtains err s' where "add mem k v s = Inr (err, s')" "err = PSM_OK \<and> stands_for K s' (m(k \<mapsto> v)) \<or> \<not> mem \<and> err = PSM_NO_MEMORY \<and> stands_for K s' m"
  using add_law [OF _ stands_inj [OF assms(1,2)] _ assms(4), of mem] assms by (auto simp: stands_for_def)

text \<open>An address is replaced by removing the old one and adding the new one.\<close>

lemma replace_stands:
  assumes "stands_for K s m" "k \<in> K" "valid v"
  obtains s1 err s2 where "remove k s = Inr (m k, s1)" "add mem k v s1 = Inr (err, s2)"
    "err = PSM_OK \<and> stands_for K s2 (m(k \<mapsto> v)) \<or> \<not> mem \<and> err = PSM_NO_MEMORY \<and> stands_for K s2 (m(k := None))"
proof -
  obtain s1 where 1: "remove k s = Inr (m k, s1)" "stands_for K s1 (m(k := None))" using remove_stands [OF assms(1,2)] .
  obtain err s2 where "add mem k v s1 = Inr (err, s2)"
    "err = PSM_OK \<and> stands_for K s2 ((m(k := None))(k \<mapsto> v)) \<or> \<not> mem \<and> err = PSM_NO_MEMORY \<and> stands_for K s2 (m(k := None))"
    using add_stands [OF 1(2) assms(2) _ assms(3)] by auto
  then show thesis using that [OF 1(1)] by auto
qed

end

definition entry_of :: "u64 \<Rightarrow> u64 option" where
  "entry_of a = (if a = 0 then None else Some a)"

definition tab_lookup :: "u64 \<times> u64 \<Rightarrow> psmi_epid_table \<Rightarrow> (u64 option \<times> psmi_epid_table) run" where
  "tab_lookup k t = run_bind (psmi_epid_lookup (fst k) (snd k) t) (\<lambda>(a, t). Inr (entry_of a, t))"

definition tab_remove :: "u64 \<times> u64 \<Rightarrow> psmi_epid_table \<Rightarrow> (u64 option \<times> psmi_epid_table) run" where
  "tab_remove k t = run_bind (psmi_epid_remove (fst k) (snd k) t) (\<lambda>(a, t). Inr (entry_of a, t))"

definition tab_add :: "bool \<Rightarrow> u64 \<times> u64 \<Rightarrow> u64 \<Rightarrow> psmi_epid_table \<Rightarrow> (psm_error \<times> psmi_epid_table) run" where
  "tab_add mem k a t = psmi_epid_add mem (fst k) (snd k) a t"

definition addr_valid :: "u64 \<Rightarrow> bool" where
  "addr_valid a \<longleftrightarrow> a \<noteq> 0 \<and> a \<noteq> EPADDR_DELETED"

lemma entry_of_ptr: "tab_ok tab \<Longrightarrow> entry_of (ptr_of (tab_map tab k)) = tab_map tab k"
  using tab_map_Some [of tab "fst k" "snd k"] by (cases "tab_map tab k") (auto simp: entry_of_def ptr_of_def te_live_def)

interpretation eptab: hashed_table hash_pair epid_table_ok "\<lambda>t. tab_map (table t)" addr_valid tab_lookup tab_remove tab_add
proof
  fix s :: psmi_epid_table and k :: "u64 \<times> u64"
  assume ok: "epid_table_ok s" and inj: "inj_on hash_pair (insert k (dom (tab_map (table s))))"
  have inj': "inj_on hash_pair (insert (fst k, snd k) (dom (tab_map (table s))))" using inj by simp
  have tab: "tab_ok (table s)" using ok by (simp add: epid_table_ok_def)
  show "tab_lookup k s = Inr (tab_map (table s) k, s)"
    using lookup_inner_ok [OF ok inj', of False] by (auto simp: tab_lookup_def psmi_epid_lookup_def entry_of_ptr [OF tab])
  show "\<exists>s'. tab_remove k s = Inr (tab_map (table s) k, s') \<and> epid_table_ok s' \<and> tab_map (table s') = (tab_map (table s))(k := None)"
    using lookup_inner_ok [OF ok inj', of True] by (auto simp: tab_remove_def psmi_epid_remove_def entry_of_ptr [OF tab])
  fix v mem assume "tab_map (table s) k = None" "addr_valid v"
  then show "\<exists>err s'. tab_add mem k v s = Inr (err, s') \<and> epid_table_ok s' \<and> (err = PSM_OK \<and> tab_map (table s') = (tab_map (table s))(k \<mapsto> v) \<or>
        \<not> mem \<and> err = PSM_NO_MEMORY \<and> tab_map (table s') = tab_map (table s))"
    using add_ok [OF ok inj', of v mem] by (auto simp: tab_add_def addr_valid_def)
qed

section \<open>Histories\<close>

text \<open>
  The tables and maps that additions and removals of endpoints of \<open>K\<close> lead to. Clients add an endpoint only when a
  lookup did not find it.
\<close>

inductive tab_history :: "(u64 \<times> u64) set \<Rightarrow> psmi_epid_table \<Rightarrow> (u64 \<times> u64 \<Rightarrow> u64 option) \<Rightarrow> bool" for K where
  start: "tab_history K (snd psmi_epid_init) Map.empty"
| add: "tab_history K t m \<Longrightarrow> (ep, epid) \<in> K \<Longrightarrow> m (ep, epid) = None \<Longrightarrow> addr_valid a \<Longrightarrow> psmi_epid_add mem ep epid a t = Inr (err, t') \<Longrightarrow>
    tab_history K t' (if err = PSM_OK then m((ep, epid) \<mapsto> a) else m)"
| remove: "tab_history K t m \<Longrightarrow> (ep, epid) \<in> K \<Longrightarrow> psmi_epid_remove ep epid t = Inr (a, t') \<Longrightarrow>
    tab_history K t' (m((ep, epid) := None))"

lemma history_stands:
  assumes "inj_on hash_pair K"
  shows "tab_history K t m \<Longrightarrow> eptab.stands_for K t m"
proof (induction rule: tab_history.induct)
  case start
  show ?case using assms unfolding eptab.stands_for_def by (simp add: psmi_epid_init_def epid_table_ok_def tab_ok_def tab_map_def occupied_def)
next
  case (add t m ep epid a mem err t')
  then obtain err1 t1 where "tab_add mem (ep, epid) a t = Inr (err1, t1)"
      "err1 = PSM_OK \<and> eptab.stands_for K t1 (m((ep, epid) \<mapsto> a)) \<or> \<not> mem \<and> err1 = PSM_NO_MEMORY \<and> eptab.stands_for K t1 m"
    using eptab.add_stands by blast
  then show ?case using add.hyps(5) by (auto simp: tab_add_def)
next
  case (remove t m ep epid a t')
  then obtain t1 where "tab_remove (ep, epid) t = Inr (m (ep, epid), t1)" "eptab.stands_for K t1 (m((ep, epid) := None))"
    using eptab.remove_stands by blast
  then show ?case using remove.hyps(3) by (auto simp: tab_remove_def simp del: fun_upd_apply)
qed

text \<open>
  C21: The hash table of endpoint addresses is a finite map. After every history of additions and removals of endpoints whose hashes
  are pairwise different, with the table growing and the allocator failing as they may, a lookup returns the address the map has
  and NULL exactly when it has none, a removal returns the address it takes out, and an addition returns, with \<^verbatim>\<open>PSM_NO_MEMORY\<close> only
  when the allocator refused; no probe runs for ever and no slot outside the table is touched.
\<close>

theorem epid_table_is_map:
  assumes "tab_history K t m" "inj_on hash_pair K" "(ep, epid) \<in> K"
  shows "psmi_epid_lookup ep epid t = Inr (ptr_of (m (ep, epid)), t) \<and>
    (\<exists>t'. psmi_epid_remove ep epid t = Inr (ptr_of (m (ep, epid)), t') \<and> tab_history K t' (m((ep, epid) := None))) \<and>
    (m (ep, epid) = None \<longrightarrow> addr_valid a \<longrightarrow> (\<exists>err t'. psmi_epid_add mem ep epid a t = Inr (err, t') \<and>
       (err = PSM_OK \<and> tab_history K t' (m((ep, epid) \<mapsto> a)) \<or> \<not> mem \<and> err = PSM_NO_MEMORY \<and> tab_history K t' m)))"
proof -
  have st: "eptab.stands_for K t m" using history_stands assms by blast
  then have inj: "inj_on hash_pair (insert (ep, epid) (dom (tab_map (table t))))" using eptab.stands_inj assms(3) by blast
  have ok: "epid_table_ok t" and m: "tab_map (table t) = m" using st by (simp_all add: eptab.stands_for_def)
  obtain t' where r: "psmi_epid_remove ep epid t = Inr (ptr_of (m (ep, epid)), t')"
    using lookup_inner_ok [OF ok inj, of True] m by (auto simp: psmi_epid_remove_def)
  have "psmi_epid_lookup ep epid t = Inr (ptr_of (m (ep, epid)), t)"
    using lookup_inner_ok [OF ok inj, of False] m by (auto simp: psmi_epid_lookup_def)
  moreover have "\<exists>err t'. psmi_epid_add mem ep epid a t = Inr (err, t') \<and>
       (err = PSM_OK \<and> tab_history K t' (m((ep, epid) \<mapsto> a)) \<or> \<not> mem \<and> err = PSM_NO_MEMORY \<and> tab_history K t' m)"
    if new: "m (ep, epid) = None" "addr_valid a"
  proof -
    obtain err t' where "psmi_epid_add mem ep epid a t = Inr (err, t')" "err = PSM_OK \<or> \<not> mem \<and> err = PSM_NO_MEMORY"
      using add_ok [OF ok inj, of a mem] new m by (auto simp: addr_valid_def)
    then show ?thesis using tab_history.add [OF assms(1,3) new] by fastforce
  qed
  ultimately show ?thesis using r tab_history.remove [OF assms(1,3) r] by blast
qed

theorem epid_table_is_map_witness:
  "\<exists>t. psmi_epid_add True 0x10 7 0x5000 (snd psmi_epid_init) = Inr (PSM_OK, t) \<and> psmi_epid_lookup 0x10 7 t = Inr (0x5000, t) \<and>
     psmi_epid_lookup 0x10 8 t = Inr (0, t)"
proof -
  let ?K = "{(0x10, 7), (0x10, 8)} :: (u64 \<times> u64) set"
  have "hash_this 0x10 7 \<noteq> hash_this 0x10 8" by code_simp
  then have inj: "inj_on hash_pair ?K" by (simp add: hash_pair_def)
  obtain t where t: "psmi_epid_add True 0x10 7 0x5000 (snd psmi_epid_init) = Inr (PSM_OK, t)" "tab_history ?K t [(0x10, 7) \<mapsto> 0x5000]"
    using epid_table_is_map [OF tab_history.start inj, of "0x10" 7 "0x5000" True] by (auto simp: addr_valid_def EPADDR_DELETED_def)
  then show ?thesis using epid_table_is_map [OF t(2) inj, of "0x10" 7] epid_table_is_map [OF t(2) inj, of "0x10" 8] by (simp add: ptr_of_def)
qed

section \<open>Endpoints with the same hash\<close>

lemma same_hash: "hash_this ep epid = hash_this ep' epid' \<Longrightarrow> psmi_epid_lookup_inner ep epid r t = psmi_epid_lookup_inner ep' epid' r t"
  by (simp add: psmi_epid_lookup_inner_def)

text \<open>
  C23: The lookup compares hashes only, although its comment says that it matches on the identifier and on the endpoint: an address that was added for one
  endpoint is found, and can be removed, under another one that was never added.
\<close>

theorem epid_lookup_confuses:
  assumes "addr_valid a"
  shows "\<exists>t. psmi_epid_add True 0x1aa2b2830 0x968f194 a (snd psmi_epid_init) = Inr (PSM_OK, t) \<and>
    psmi_epid_lookup 0xeb2caf440 0x7d7664c7 t = Inr (a, t) \<and>
    (\<exists>t'. psmi_epid_remove 0xeb2caf440 0x7d7664c7 t = Inr (a, t') \<and> psmi_epid_lookup 0x1aa2b2830 0x968f194 t' = Inr (0, t'))"
proof -
  let ?K = "{(0x1aa2b2830, 0x968f194)} :: (u64 \<times> u64) set"
  have h: "hash_this 0xeb2caf440 0x7d7664c7 = hash_this 0x1aa2b2830 0x968f194" by code_simp
  have inj: "inj_on hash_pair ?K" by simp
  note run = epid_table_is_map [OF _ inj, of _ _ "0x1aa2b2830" "0x968f194"]
  obtain t where t: "psmi_epid_add True 0x1aa2b2830 0x968f194 a (snd psmi_epid_init) = Inr (PSM_OK, t)" "tab_history ?K t [(0x1aa2b2830, 0x968f194) \<mapsto> a]"
    using run [OF tab_history.start, of a True] assms by auto
  show ?thesis using t(1) run [OF t(2)] run by (auto simp: psmi_epid_lookup_def psmi_epid_remove_def same_hash [OF h] ptr_of_def)
qed

theorem epid_lookup_confuses_witness:
  "\<exists>t. psmi_epid_add True 0x1aa2b2830 0x968f194 0x5000 (snd psmi_epid_init) = Inr (PSM_OK, t) \<and>
    psmi_epid_lookup 0xeb2caf440 0x7d7664c7 t = Inr (0x5000, t)"
  using epid_lookup_confuses [of "0x5000"] by (auto simp: addr_valid_def EPADDR_DELETED_def)

section \<open>Iterating\<close>

text \<open>The loop of a client: addresses are taken until NULL comes; the fuel is more than the table's slots.\<close>

fun itor_collect :: "nat \<Rightarrow> psmi_epid_table \<Rightarrow> psmi_eptab_iterator \<Rightarrow> u64 list" where
  "itor_collect 0 t it = []"
| "itor_collect (Suc fuel) t it =
     (case psmi_epid_itor_next t it of (a, it) \<Rightarrow> if a = 0 then [] else a # itor_collect fuel t it)"

definition visible :: "u64 \<Rightarrow> psmi_epid_tabentry \<Rightarrow> bool" where
  "visible ep e \<longleftrightarrow> te_live e \<and> (ep = 0 \<or> te_ep e = ep)"

lemma itor_loop_cases:
  "itor_loop es ep i = (case dropWhile (\<lambda>e. \<not> visible ep e) es of [] \<Rightarrow> None
     | e # r \<Rightarrow> Some (i + length es - length r, te_entry e))"
proof (induction es arbitrary: i)
  case (Cons e es)
  show ?case
  proof (cases "visible ep e")
    case True
    then show ?thesis by (auto simp: visible_def te_live_def)
  next
    case False
    then have "itor_loop (e # es) ep i = itor_loop es ep (Suc i)" by (auto simp: visible_def te_live_def)
    then show ?thesis using False Cons.IH [of "Suc i"] by (cases "dropWhile (\<lambda>e. \<not> visible ep e) es") (simp_all del: dropWhile_eq_Nil_conv itor_loop.simps)
  qed
qed simp

lemma itor_collect_all:
  assumes "tabsize t = length (table t)" "i \<le> length (table t)" "length (table t) - i < fuel"
  shows "itor_collect fuel t \<lparr>it_i = i, it_ep = ep\<rparr> = map te_entry (filter (visible ep) (drop i (table t)))"
  using assms
proof (induction fuel arbitrary: i)
  case (Suc fuel)
  let ?es = "drop i (table t)" and ?d = "dropWhile (\<lambda>e. \<not> visible ep e) (drop i (table t))"
  show ?case
  proof (cases ?d)
    case Nil
    then have "filter (visible ep) ?es = []" by (auto simp: dropWhile_eq_Nil_conv filter_empty_conv)
    then show ?thesis using Nil Suc.prems(1) by (simp add: psmi_epid_itor_next_def itor_loop_cases del: dropWhile_eq_Nil_conv)
  next
    case (Cons e r)
    have split: "?es = takeWhile (\<lambda>e. \<not> visible ep e) ?es @ e # r" using Cons by (metis takeWhile_dropWhile_id)
    have e: "visible ep e" using Cons hd_dropWhile [of "\<lambda>e. \<not> visible ep e" ?es] by force
    have len: "length r < length ?es" by (subst split) simp
    let ?j = "length (table t) - length r"
    have r: "r = drop ?j (table t)"
    proof -
      obtain pre where pre: "?es = pre @ r" using split by (metis append.assoc append_Cons append_Nil)
      then have "drop (length ?es - length r) ?es = r" by simp
      moreover have "length ?es - length r + i = ?j" using len by simp
      ultimately show ?thesis by (simp add: drop_drop)
    qed
    have nn: "te_entry e \<noteq> 0" using e by (simp add: visible_def te_live_def)
    have "filter (visible ep) ?es = e # filter (visible ep) r"
      by (subst split) (use e in \<open>auto simp: filter_empty_conv dest: set_takeWhileD\<close>)
    moreover have "psmi_epid_itor_next t \<lparr>it_i = i, it_ep = ep\<rparr> = (te_entry e, \<lparr>it_i = ?j, it_ep = ep\<rparr>)"
      using Cons Suc.prems(1,2) len by (auto simp: psmi_epid_itor_next_def itor_loop_cases)
    moreover have "itor_collect fuel t \<lparr>it_i = ?j, it_ep = ep\<rparr> = map te_entry (filter (visible ep) (drop ?j (table t)))"
      using Suc.prems len by (intro Suc.IH) auto
    ultimately show ?thesis using nn r by simp
  qed
qed simp


end
