(* ===== verification/Ptl_Self.thy ===== *)
theory Ptl_Self
  imports MQ_Order
begin

text \<open>
  The loopback transport, \<^verbatim>\<open>src/ptl_self/ptl.c\<close>: sends of an endpoint to itself. Every message is a rendezvous in the endpoint's own
  matched queue; when the send is waited for before a receive is posted, its bytes move to a system buffer.

  The two callbacks are named by numbers in the requests, as elsewhere; \<open>self_rts_cb\<close> and \<open>self_testwait\<close> interpret them for the
  user's interface. Allocations for the send and for the receive request have an environment each.

  Shown: receive first, send first, and send-and-wait first give the same bytes and the same status to the receive; a send that was
  told to be complete early holds its system buffer until the receive comes, and then gives it back.
\<close>

unbundle bit_operations_syntax

section \<open>Operations\<close>

definition CB_SELF_RTSMATCH :: nat where "CB_SELF_RTSMATCH = 0"
definition CB_SELF_TESTWAIT :: nat where "CB_SELF_TESTWAIT = 0"

definition ptl_handle_rtsmatch :: "u64 \<Rightarrow> bool \<Rightarrow> psm_mq \<Rightarrow> psm_mq run" where
  "ptl_handle_rtsmatch recv_req was_posted mq =
     (let send_req = ptl_req_ptr (reqs mq recv_req)
      in run_bind
        (if recv_msglen (reqs mq recv_req) > 0
         then mq_mtucpy (req_buf (reqs mq recv_req)) (req_buf (reqs mq send_req)) (recv_msglen (reqs mq recv_req)) mq
         else Inr mq) (\<lambda>mq.
        let mq = psmi_mq_handle_rts_complete recv_req mq
        in if req_state (reqs mq send_req) = MQ_STATE_COMPLETE
           then let mq = psmi_mq_stats_rts_account send_req mq
             in run_bind (if req_buf (reqs mq send_req) \<noteq> 0 \<and> send_msglen (reqs mq send_req) > 0
                          then mq_sysbuf_free (req_buf (reqs mq send_req)) mq else Inr mq)
                  (\<lambda>mq. Inr (psmi_mq_req_free send_req mq))
           else Inr (psmi_mq_handle_rts_complete send_req mq)))"

definition self_rts_cb :: mq_rtscb where
  "self_rts_cb cb r was_posted mq = (if cb = CB_SELF_RTSMATCH then ptl_handle_rtsmatch r was_posted mq else Inl Undefined_Access)"

definition self_mq_send_testwait :: "mq_env \<Rightarrow> u64 \<Rightarrow> bool \<Rightarrow> bool \<Rightarrow> psm_mq \<Rightarrow> (psm_error \<times> psm_mq_status option \<times> u64 \<times> psm_mq) run" where
  "self_mq_send_testwait env ireq istest want mq =
     (let mq = upd_req ireq (\<lambda>q. q\<lparr>testwait_callback := None\<rparr>) mq;
          ubuf = req_buf (reqs mq ireq); n = send_msglen (reqs mq ireq);
          finish = (\<lambda>mq. let mq = upd_req ireq (\<lambda>q. q\<lparr>req_state := MQ_STATE_COMPLETE\<rparr>) mq in (PSM_OK, opt_status want ireq mq, 0, mq))
      in if ubuf \<noteq> 0 \<and> n > 0
         then run_bind (mq_sysbuf_alloc env n mq) (\<lambda>(b, mq).
                let mq = upd_req ireq (\<lambda>q. q\<lparr>req_buf := b\<rparr>) mq
                in if b = 0 then Inr (PSM_NO_MEMORY, None, ireq, mq)
                   else run_bind (mq_mtucpy b ubuf n mq) (\<lambda>mq. Inr (finish mq)))
         else Inr (finish mq))"

definition self_testwait :: "mq_env \<Rightarrow> mq_testwait" where
  "self_testwait env cb ireq istest want mq =
     (if cb = CB_SELF_TESTWAIT then self_mq_send_testwait env ireq istest want mq else Inl Undefined_Access)"

definition self_mq_isend :: "mq_env \<Rightarrow> mq_env \<Rightarrow> u64 \<Rightarrow> mq_isend_fn" where
  "self_mq_isend senv renv epaddr flags tag ubuf len ctx mq =
     run_bind (psmi_mq_req_alloc senv MQE_TYPE_SEND mq) (\<lambda>(send_req, mq).
       if send_req = 0 then Inr (PSM_NO_MEMORY, 0, mq)
       else run_bind (psmi_mq_handle_rts renv tag ubuf len epaddr (Some CB_SELF_RTSMATCH) mq) (\<lambda>(rc, recv_req, mq).
         let mq = upd_req send_req (\<lambda>q. q\<lparr>req_buf := ubuf, send_msglen := len, req_context := ctx\<rparr>) mq;
             mq = upd_req recv_req (\<lambda>q. q\<lparr>ptl_req_ptr := send_req\<rparr>) mq
         in if rc = MQ_RET_MATCH_OK
            then run_bind (ptl_handle_rtsmatch recv_req True mq) (\<lambda>mq. Inr (PSM_OK, send_req, mq))
            else Inr (PSM_OK, send_req, upd_req send_req (\<lambda>q. q\<lparr>testwait_callback := Some CB_SELF_TESTWAIT\<rparr>) mq)))"

text \<open>The blocking send; \<open>None\<close> is waiting for ever. The result of the wait is dropped.\<close>

definition self_mq_send ::
  "mq_poll \<Rightarrow> mq_env \<Rightarrow> mq_env \<Rightarrow> mq_env \<Rightarrow> u64 \<Rightarrow> u32 \<Rightarrow> u64 \<Rightarrow> u64 \<Rightarrow> u32 \<Rightarrow> psm_mq \<Rightarrow> (psm_error \<times> psm_mq) run option" where
  "self_mq_send poll senv renv wenv epaddr flags tag ubuf len mq =
     (case self_mq_isend senv renv epaddr flags tag ubuf len 0 mq of
        Inl e \<Rightarrow> Some (Inl e)
      | Inr (err, req, mq) \<Rightarrow>
          map_option (\<lambda>res. run_bind res (\<lambda>(_, _, _, mq). Inr (err, mq))) (psmi_mq_wait_internal poll (self_testwait wenv) req mq))"

section \<open>Sending\<close>

definition sent_req :: "u64 \<Rightarrow> u32 \<Rightarrow> u64 \<Rightarrow> psm_mq_req \<Rightarrow> psm_mq_req" where
  "sent_req ubuf len ctx q = (fresh_req MQE_TYPE_SEND q)\<lparr>req_buf := ubuf, send_msglen := len, req_context := ctx\<rparr>"

lemma find_cong_set: "(\<And>x. x \<in> set xs \<Longrightarrow> P x = Q x) \<Longrightarrow> find P xs = find Q xs"
  by (induction xs) auto

text \<open>The copy of a match, and a match with a send that is still waiting.\<close>

definition match_copied :: "u64 \<Rightarrow> psm_mq \<Rightarrow> psm_mq" where
  "match_copied r mq = mq\<lparr>mq_mem := mem_copy (unat (recv_msglen (reqs mq r))) (req_buf (reqs mq r))
     (req_buf (reqs mq (ptl_req_ptr (reqs mq r)))) (mq_mem mq)\<rparr>"

definition match_ready :: "u64 \<Rightarrow> psm_mq \<Rightarrow> bool" where
  "match_ready r mq \<longleftrightarrow> ptl_req_ptr (reqs mq r) \<noteq> r \<and> (recv_msglen (reqs mq r) \<noteq> 0 \<longrightarrow>
     req_buf (reqs mq r) \<noteq> 0 \<and> req_buf (reqs mq (ptl_req_ptr (reqs mq r))) \<noteq> 0 \<and>
     apart (unat (recv_msglen (reqs mq r))) (req_buf (reqs mq r)) (req_buf (reqs mq (ptl_req_ptr (reqs mq r)))))"

lemma match_copied_fields [simp]:
  "reqs (match_copied r mq) = reqs mq" "completed_q (match_copied r mq) = completed_q mq" "expected_q (match_copied r mq) = expected_q mq"
  "unexpected_q (match_copied r mq) = unexpected_q mq" "sysbufs (match_copied r mq) = sysbufs mq" "sreq_pool (match_copied r mq) = sreq_pool mq"
  "rreq_pool (match_copied r mq) = rreq_pool mq" "egrlong (match_copied r mq) = egrlong mq"
  by (simp_all add: match_copied_def)

lemma match_copy:
  assumes "match_ready r mq"
  shows "(if recv_msglen (reqs mq r) > 0
     then mq_mtucpy (req_buf (reqs mq r)) (req_buf (reqs mq (ptl_req_ptr (reqs mq r)))) (recv_msglen (reqs mq r)) mq else Inr mq) =
    Inr (match_copied r mq)"
  using assms by (auto simp: match_ready_def match_copied_def mq_mtucpy_def mtucpy_eq word_neq_0_conv [symmetric])

lemma rtsmatch_waiting:
  assumes "match_ready r mq" "req_state (reqs mq (ptl_req_ptr (reqs mq r))) \<noteq> MQ_STATE_COMPLETE"
  shows "ptl_handle_rtsmatch r wp mq = Inr (psmi_mq_handle_rts_complete (ptl_req_ptr (reqs mq r)) (psmi_mq_handle_rts_complete r (match_copied r mq)))"
  using assms(2) match_ready_def [of r mq] assms(1) unfolding ptl_handle_rtsmatch_def Let_def match_copy [OF assms(1)] by simp

text \<open>A receive is posted: both requests are completed at once, the receive first.\<close>

lemma self_isend_posted:
  assumes inv: "mq_inv own mq" and env: "req_env_ok senv mq"
    and al: "psmi_mq_req_alloc senv MQE_TYPE_SEND mq = Inr (s, mq1)"
    and f: "find (\<lambda>x. tag_matches tag (reqs mq x)) (expected_q mq) = Some r"
    and bufs: "req_buf (reqs mq r) \<noteq> 0" "ubuf \<noteq> 0"
    and ap: "apart (unat (min (req_buf_len (reqs mq r)) len)) (req_buf (reqs mq r)) ubuf"
  shows "\<exists>mq'. self_mq_isend senv renv ep flags tag ubuf len ctx mq = Inr (PSM_OK, s, mq') \<and>
    completed_q mq' = completed_q mq @ [r, s] \<and> expected_q mq' = remove1 r (expected_q mq) \<and> unexpected_q mq' = unexpected_q mq \<and>
    sysbufs mq' = sysbufs mq \<and> req_state (reqs mq' s) = MQ_STATE_COMPLETE \<and>
    mq_status_copy (reqs mq' r) = \<lparr>msg_tag = tag, msg_length = len, nbytes = min (req_buf_len (reqs mq r)) len,
      error_code = (if req_buf_len (reqs mq r) < len then PSM_MQ_TRUNCATION else PSM_OK), status_context = req_context (reqs mq r)\<rparr> \<and>
    mq_mem mq' = mem_copy (unat (min (req_buf_len (reqs mq r)) len)) (req_buf (reqs mq r)) ubuf (mq_mem mq)"
proof -
  note a = alloc_send_inv [OF inv env al]
  obtain p where p: "mq1 = upd_req s (fresh_req MQE_TYPE_SEND) (mq\<lparr>sreq_pool := p\<rparr>)" using a(6) by blast
  have sE: "s \<notin> set (expected_q mq)" using unlive_off_queues(1) [OF inv a(2,3)] .
  have rE: "r \<in> set (expected_q mq)" using f by (auto simp: find_Some_iff)
  then have rs: "r \<noteq> s" using sE by auto
  have "find (\<lambda>c. (tag XOR req_tag (reqs mq1 c)) AND req_tagsel (reqs mq1 c) = 0) (expected_q mq1) = Some r"
    using f sE by (simp add: p, subst find_cong_set [where Q = "\<lambda>x. tag_matches tag (reqs mq x)"]) (auto simp: tag_matches_def)
  then have m: "expected_match tag mq1 = (Some r, mq1\<lparr>expected_q := remove1 r (expected_q mq)\<rparr>)"
    by (simp add: expected_match_def list_search_remove_def p)
  define mq2 where "mq2 = upd_req r (\<lambda>q. q\<lparr>ptl_req_ptr := s\<rparr>) (upd_req s (\<lambda>q. q\<lparr>req_buf := ubuf, send_msglen := len, req_context := ctx\<rparr>)
    (upd_req r (\<lambda>q. q\<lparr>req_type := MQE_TYPE_RECV, req_state := MQ_STATE_MATCHED, req_tag := tag, recv_msgoff := 0, rts_peer := ep, rts_sbuf := ubuf\<rparr>)
      (upd_req r (\<lambda>q. snd (mq_set_msglen q (req_buf_len q) len)) (mq1\<lparr>expected_q := remove1 r (expected_q mq)\<rparr>))))"
  have q: "ptl_req_ptr (reqs mq2 r) = s" "recv_msglen (reqs mq2 r) = min (req_buf_len (reqs mq r)) len" "req_buf (reqs mq2 r) = req_buf (reqs mq r)"
    "req_buf (reqs mq2 s) = ubuf" "req_state (reqs mq2 s) = MQ_STATE_FREE" using rs by (simp_all add: mq2_def p)
  have "match_ready r mq2" using rs bufs ap by (simp add: match_ready_def q)
  then have "ptl_handle_rtsmatch r True mq2 = Inr (psmi_mq_handle_rts_complete s (psmi_mq_handle_rts_complete r (match_copied r mq2)))"
    using rtsmatch_waiting [of r mq2 True] q by simp
  then have eq: "self_mq_isend senv renv ep flags tag ubuf len ctx mq = Inr (PSM_OK, s, psmi_mq_handle_rts_complete s (psmi_mq_handle_rts_complete r (match_copied r mq2)))"
    unfolding self_mq_isend_def al psmi_mq_handle_rts_def using a(5) by (simp add: m Let_def flip: mq2_def)
  show ?thesis unfolding eq using rs by (simp add: match_copied_def q) (simp add: mq2_def p mq_status_copy_def)
qed

text \<open>No receive is posted: the message is queued as a rendezvous, the send waits.\<close>

definition rts_req :: "u64 \<Rightarrow> u64 \<Rightarrow> u32 \<Rightarrow> u64 \<Rightarrow> u64 \<Rightarrow> psm_mq_req \<Rightarrow> psm_mq_req" where
  "rts_req tag ubuf len ep s q = (fresh_req MQE_TYPE_RECV q)\<lparr>recv_msglen := len, send_msglen := len, req_state := MQ_STATE_UNEXP_RV, req_tag := tag,
     rts_callback := Some CB_SELF_RTSMATCH, recv_msgoff := 0, rts_peer := ep, rts_sbuf := ubuf, ptl_req_ptr := s\<rparr>"

definition self_sent :: "u64 \<Rightarrow> u64 \<Rightarrow> u64 \<Rightarrow> u32 \<Rightarrow> u64 \<Rightarrow> u64 \<Rightarrow> u64 \<Rightarrow> psm_mq \<Rightarrow> psm_mq \<Rightarrow> bool" where
  "self_sent ctx tag ubuf len ep s x mq mq' \<longleftrightarrow> x \<noteq> s \<and> s \<noteq> 0 \<and> x \<notin> set (unexpected_q mq) \<and> s \<notin> set (unexpected_q mq) \<and>
    reqs mq' = (reqs mq)(s := (sent_req ubuf len ctx (reqs mq s))\<lparr>testwait_callback := Some CB_SELF_TESTWAIT\<rparr>,
      x := rts_req tag ubuf len ep s (reqs mq x)) \<and>
    unexpected_q mq' = unexpected_q mq @ [x] \<and> completed_q mq' = completed_q mq \<and> expected_q mq' = expected_q mq \<and>
    mq_mem mq' = mq_mem mq \<and> sysbufs mq' = sysbufs mq"

lemma self_sentD:
  assumes "self_sent ctx tag ubuf len ep s x mq mq'"
  shows "x \<noteq> s" "reqs mq' x = rts_req tag ubuf len ep s (reqs mq x)" "unexpected_q mq' = unexpected_q mq @ [x]" "x \<notin> set (unexpected_q mq)"
    "y \<in> set (unexpected_q mq) \<Longrightarrow> reqs mq' y = reqs mq y" "s \<noteq> 0"
    "reqs mq' s = (sent_req ubuf len ctx (reqs mq s))\<lparr>testwait_callback := Some CB_SELF_TESTWAIT\<rparr>"
    "completed_q mq' = completed_q mq" "mq_mem mq' = mq_mem mq" "sysbufs mq' = sysbufs mq"
  using assms by (auto simp: self_sent_def)

lemma self_isend_unmatched:
  assumes inv: "mq_inv own mq" and env: "req_env_ok senv mq"
    and al: "psmi_mq_req_alloc senv MQE_TYPE_SEND mq = Inr (s, mq1)" and env1: "req_env_ok renv mq1"
    and al1: "psmi_mq_req_alloc renv MQE_TYPE_RECV mq1 = Inr (x, mq2)"
    and none: "\<And>y. y \<in> set (expected_q mq) \<Longrightarrow> \<not> tag_matches tag (reqs mq y)"
  shows "\<exists>mq'. self_mq_isend senv renv ep flags tag ubuf len ctx mq = Inr (PSM_OK, s, mq') \<and> self_sent ctx tag ubuf len ep s x mq mq'"
proof -
  note a = alloc_send_inv [OF inv env al]
  obtain p where p: "mq1 = upd_req s (fresh_req MQE_TYPE_SEND) (mq\<lparr>sreq_pool := p\<rparr>)" using a(6) by blast
  note b = alloc_recv_inv [OF a(1) env1 al1]
  obtain p2 where p2: "mq2 = upd_req x (fresh_req MQE_TYPE_RECV) (mq1\<lparr>rreq_pool := p2\<rparr>)" using b(6) by blast
  have xs: "x \<noteq> s" using b(3) a(4) by auto
  have off: "s \<notin> set (expected_q mq)" "s \<notin> set (unexpected_q mq)" using unlive_off_queues [OF inv a(2,3)] by auto
  have xU: "x \<notin> set (unexpected_q mq)" using unlive_off_queues(2) [OF a(1) b(2,3)] by (simp add: p)
  have "expected_match tag mq1 = (None, mq1)"
    using none off(1) by (cases rule: expected_match_cases [of tag mq1]) (auto simp: p tag_matches_def split: if_splits)
  then show ?thesis
    unfolding self_mq_isend_def psmi_mq_handle_rts_def self_sent_def using a(5) xs xU off
    by (simp add: al al1 Let_def) (simp add: p2 p sent_req_def rts_req_def fun_eq_iff fresh_req_def)
qed

text \<open>The receive takes the queued message.\<close>

definition self_matched :: "u64 \<Rightarrow> u64 \<Rightarrow> u64 \<Rightarrow> u32 \<Rightarrow> psm_mq \<Rightarrow> psm_mq" where
  "self_matched x rctx buf rlen mq =
     upd_req x (\<lambda>q. (received_req rctx rlen q)\<lparr>req_state := MQ_STATE_MATCHED, req_buf := buf, req_buf_len := rlen, recv_msgoff := 0\<rparr>)
       (off_unexpected x mq)"

lemma irecv_self:
  fixes rctx buf :: u64 and rlen :: u32
  assumes "x \<noteq> s" "reqs mq x = rts_req tag ubuf len ep s q" "unexpected_q mq = us @ [x]" "x \<notin> set us"
    and none: "\<And>y. y \<in> set us \<Longrightarrow> (rtag XOR req_tag (reqs mq y)) AND rsel \<noteq> 0" and agree: "(tag XOR rtag) AND rsel = 0"
  defines "mq1 \<equiv> self_matched x rctx buf rlen mq"
  shows "psm_mq_irecv self_rts_cb env rtag rsel buf rlen rctx mq = run_bind (ptl_handle_rtsmatch x False mq1) (\<lambda>mq. Inr (PSM_OK, x, mq))"
    "ptl_req_ptr (reqs mq1 x) = s" "recv_msglen (reqs mq1 x) = min rlen len" "req_buf (reqs mq1 x) = buf" "reqs mq1 s = reqs mq s"
    "unexpected_q mq1 = us" "completed_q mq1 = completed_q mq" "mq_mem mq1 = mq_mem mq" "sysbufs mq1 = sysbufs mq"
    "mq_status_copy (reqs mq1 x) = \<lparr>msg_tag = tag, msg_length = len, nbytes = min rlen len,
       error_code = (if rlen < len then PSM_MQ_TRUNCATION else PSM_OK), status_context = rctx\<rparr>"
proof -
  have "find (\<lambda>c. (rtag XOR req_tag (reqs mq c)) AND rsel = 0) (unexpected_q mq) = Some x"
    unfolding assms(3) using none agree by (intro find_append_new) (auto simp: assms(2) rts_req_def xor.commute)
  then have um: "unexpected_match rtag rsel True mq = (Some x, off_unexpected x mq)"
    by (simp add: unexpected_match_def list_search_remove_def off_unexpected_def)
  have st: "req_state (reqs mq x) = MQ_STATE_UNEXP_RV" "rts_callback (reqs mq x) = Some CB_SELF_RTSMATCH" by (simp_all add: assms(2) rts_req_def)
  show "psm_mq_irecv self_rts_cb env rtag rsel buf rlen rctx mq = run_bind (ptl_handle_rtsmatch x False mq1) (\<lambda>mq. Inr (PSM_OK, x, mq))"
    unfolding irecv_rv [OF um st] by (simp add: self_rts_cb_def mq1_def self_matched_def)
  have pp: "ptl_req_ptr (received_req rctx rlen q) = ptl_req_ptr q" for q by (simp add: received_req_def mq_set_msglen_def Let_def)
  show "ptl_req_ptr (reqs mq1 x) = s" "recv_msglen (reqs mq1 x) = min rlen len" "req_buf (reqs mq1 x) = buf" "reqs mq1 s = reqs mq s"
    "unexpected_q mq1 = us" "completed_q mq1 = completed_q mq" "mq_mem mq1 = mq_mem mq" "sysbufs mq1 = sysbufs mq"
    "mq_status_copy (reqs mq1 x) = \<lparr>msg_tag = tag, msg_length = len, nbytes = min rlen len,
       error_code = (if rlen < len then PSM_MQ_TRUNCATION else PSM_OK), status_context = rctx\<rparr>"
    using assms(1,4) by (simp_all add: mq1_def self_matched_def assms(2,3) pp rts_req_def mq_status_copy_def remove1_append)
qed

text \<open>A match with a send that was told to be complete: its system buffer and its request are given back.\<close>

lemma rtsmatch_buffered:
  assumes r: "match_ready r mq" and sb: "sysbuf_inv (sysbufs mq) (insert b H)" "b \<notin> H" "b \<noteq> 0"
    and s: "req_state (reqs mq (ptl_req_ptr (reqs mq r))) = MQ_STATE_COMPLETE" "req_buf (reqs mq (ptl_req_ptr (reqs mq r))) = b"
      "send_msglen (reqs mq (ptl_req_ptr (reqs mq r))) \<noteq> 0"
  shows "\<exists>mq'. ptl_handle_rtsmatch r wp mq = Inr mq' \<and> sysbuf_inv (sysbufs mq') H \<and> completed_q mq' = completed_q mq @ [r] \<and>
    unexpected_q mq' = unexpected_q mq \<and> reqs mq' r = (reqs mq r)\<lparr>req_state := MQ_STATE_COMPLETE\<rparr> \<and> mq_mem mq' = mq_mem (match_copied r mq)"
proof -
  have ne: "ptl_req_ptr (reqs mq r) \<noteq> r" using r by (simp add: match_ready_def)
  obtain y sb' where f: "psmi_mq_sysbuf_free b (sysbufs mq) = Inr (y, sb')" "sysbuf_inv sb' (insert b H - {b})"
    by (rule free_inv [OF sb(1), of b]) auto
  then have H: "sysbuf_inv sb' H" using sb(2) by simp
  show ?thesis using H ne s sb(3) f(1) unfolding ptl_handle_rtsmatch_def Let_def match_copy [OF r]
    by (auto simp: mq_sysbuf_free_def psmi_mq_req_free_def word_neq_0_conv [symmetric])
qed

text \<open>Waiting for a send that no receive has matched moves its bytes to a system buffer.\<close>

definition self_buffered :: "u64 \<Rightarrow> u64 \<Rightarrow> sysbuf \<Rightarrow> psm_mq \<Rightarrow> psm_mq \<Rightarrow> bool" where
  "self_buffered s b sb mq mq' \<longleftrightarrow> (\<forall>y. y \<noteq> s \<longrightarrow> reqs mq' y = reqs mq y) \<and> req_state (reqs mq' s) = MQ_STATE_COMPLETE \<and>
     req_buf (reqs mq' s) = b \<and> send_msglen (reqs mq' s) = send_msglen (reqs mq s) \<and> unexpected_q mq' = unexpected_q mq \<and>
     completed_q mq' = completed_q mq \<and> expected_q mq' = expected_q mq \<and> sysbufs mq' = sb"

lemma buffered_sentD:
  assumes "self_sent ctx tag ubuf len ep s x mq mqa" "self_buffered s b sb mqa mqc"
  shows "reqs mqc x = rts_req tag ubuf len ep s (reqs mq x)" "unexpected_q mqc = unexpected_q mq @ [x]" "completed_q mqc = completed_q mq"
    "sysbufs mqc = sb" "req_state (reqs mqc s) = MQ_STATE_COMPLETE" "req_buf (reqs mqc s) = b" "send_msglen (reqs mqc s) = len"
    "y \<in> set (unexpected_q mq) \<Longrightarrow> reqs mqc y = reqs mq y"
proof -
  have s: "s \<notin> set (unexpected_q mq)" using assms(1) by (simp add: self_sent_def)
  note v = self_sentD [OF assms(1)]
  have w: "y \<noteq> s \<Longrightarrow> reqs mqc y = reqs mqa y" for y using assms(2) by (simp add: self_buffered_def)
  show "reqs mqc x = rts_req tag ubuf len ep s (reqs mq x)" using w [OF v(1)] v(2) by simp
  show "unexpected_q mqc = unexpected_q mq @ [x]" "completed_q mqc = completed_q mq" "sysbufs mqc = sb"
    "req_state (reqs mqc s) = MQ_STATE_COMPLETE" "req_buf (reqs mqc s) = b" "send_msglen (reqs mqc s) = len"
    using assms(2) v(3,7,8) by (simp_all add: self_buffered_def sent_req_def)
  show "y \<in> set (unexpected_q mq) \<Longrightarrow> reqs mqc y = reqs mq y" using w [of y] v(5) [of y] s by auto
qed

lemma self_wait_buffers:
  assumes "s \<noteq> 0" "req_state (reqs mq s) \<noteq> MQ_STATE_COMPLETE" "testwait_callback (reqs mq s) = Some CB_SELF_TESTWAIT"
    "req_buf (reqs mq s) \<noteq> 0" "send_msglen (reqs mq s) \<noteq> 0" "b \<noteq> 0"
    "psmi_mq_sysbuf_alloc (heap env) (send_msglen (reqs mq s)) (sysbufs mq) = Inr (Some b, sb)"
    "apart (unat (send_msglen (reqs mq s))) b (req_buf (reqs mq s))"
  shows "\<exists>mq'. psmi_mq_wait_internal poll (self_testwait env) s mq = Some (Inr (PSM_OK, None, 0, mq')) \<and> self_buffered s b sb mq mq' \<and>
    mq_mem mq' = mem_copy (unat (send_msglen (reqs mq s))) b (req_buf (reqs mq s)) (mq_mem mq)"
  using assms by (simp add: psmi_mq_wait_internal_def psmi_mq_wait_inner_def self_testwait_def self_mq_send_testwait_def Let_def mq_sysbuf_alloc_def
    mq_mtucpy_def mtucpy_eq opt_status_def self_buffered_def word_neq_0_conv [symmetric])

lemma sysbuf_taken:
  assumes "mq_inv own mq" "env_ok own env mq" "psmi_mq_sysbuf_alloc (heap env) n (sysbufs mq) = Inr (Some b, sb)"
  shows "sysbuf_inv sb (insert b (owned_bufs mq \<union> own))" "b \<notin> owned_bufs mq \<union> own" "b \<noteq> 0"
proof -
  have i: "sysbuf_inv (sysbufs mq) (owned_bufs mq \<union> own)" "heap_ok (heap env) (sysbufs mq) (owned_bufs mq \<union> own)"
    "heap_nonnull (heap env) (sysbufs mq)" using mq_invD(5) [OF assms(1)] assms(2) by (auto simp: bufs_ok_def env_ok_def)
  show "sysbuf_inv sb (insert b (owned_bufs mq \<union> own))" "b \<notin> owned_bufs mq \<union> own"
    using assms(3) by (cases rule: alloc_cases [OF i(1,2), of n]; simp)+
  show "b \<noteq> 0" using alloc_nonnull [OF i(1,3), of n sb] assms(3) by auto
qed

section \<open>A queue to try them on\<close>

lemma demo_apart_far: "apart 8 0x9000 (0xa000 :: u64)" "apart 8 (0x4008 :: u64) 0xa000" "apart 8 (0x8008 :: u64) 0xa000"
  "apart 8 (0x9000 :: u64) 0x4008" "apart 8 (0x9000 :: u64) 0x8008"
  by (rule apartI; simp)+

lemma demo_min: "min 16 8 = (8 :: u32)" by (simp add: min_def word_le_nat_alt)

lemma demo_send_alloc:
  "psmi_mq_req_alloc demo_env MQE_TYPE_SEND demo_posted = Inr (0x20c0,
     upd_req 0x20c0 (fresh_req MQE_TYPE_SEND) (demo_posted\<lparr>sreq_pool := demo_spool\<lparr>mp_head := [0x2030], mp_num_obj_inuse := 1\<rparr>\<rparr>))"
  by (simp add: psmi_mq_req_alloc_def demo_posted_def demo_mq_def demo_env_def demo_gets fresh_req_def [abs_def])

lemma demo_sent_alloc:
  defines "mq1 \<equiv> upd_req 0x20c0 (fresh_req MQE_TYPE_SEND) (demo_mq\<lparr>sreq_pool := demo_spool\<lparr>mp_head := [0x2030], mp_num_obj_inuse := 1\<rparr>\<rparr>)"
  shows "psmi_mq_req_alloc demo_env MQE_TYPE_SEND demo_mq = Inr (0x20c0, mq1)" "req_env_ok demo_env mq1"
    "\<exists>mq2. psmi_mq_req_alloc demo_env MQE_TYPE_RECV mq1 = Inr (0x10c0, mq2)"
proof -
  have f: "sreq_pool mq1 = demo_spool\<lparr>mp_head := [0x2030], mp_num_obj_inuse := 1\<rparr>" "rreq_pool mq1 = demo_pool" "pool_chunk demo_env = None"
    by (simp_all add: mq1_def demo_mq_def demo_env_def)
  have "malloc_ok None demo_spool" by (simp add: malloc_ok_def)
  from mpool.get_object [OF demo_spool_inv(1) this demo_gets(2)]
  have "slive mq1 = {0x20c0}" by (simp add: f demo_spool_inv(2))
  moreover have "psmi_mpool_get None (sreq_pool mq1) = Inr (Some 0x2040, demo_spool\<lparr>mp_head := [], mp_num_obj_inuse := 2\<rparr>)"
    by (simp add: f demo_spool_def mpool_eval)
  ultimately show "req_env_ok demo_env mq1" using demo_gets(1) demo_pool_inv(2) by (simp add: req_env_ok_def f(2,3) malloc_ok_def)
  show "psmi_mq_req_alloc demo_env MQE_TYPE_SEND demo_mq = Inr (0x20c0, mq1)"
    by (simp add: psmi_mq_req_alloc_def demo_mq_def demo_env_def demo_gets fresh_req_def [abs_def] mq1_def)
  show "\<exists>mq2. psmi_mq_req_alloc demo_env MQE_TYPE_RECV mq1 = Inr (0x10c0, mq2)"
    by (simp add: psmi_mq_req_alloc_def mqe_type_defs f demo_gets)
qed

lemma demo_mq_empty: "expected_q demo_mq = []" "unexpected_q demo_mq = []" "completed_q demo_mq = []" "sysbufs demo_mq = demo_sysbuf"
  "mq_mem demo_mq = (\<lambda>a. ucast a)" by (simp_all add: demo_mq_def)

section \<open>Properties\<close>

text \<open>
  C27: A message an endpoint sends to itself goes to the receive posted first among those that accept its tag. The call returns,
  the receive's buffer holds the first bytes of the message, as many as fit, the receive is completed with the message's tag and
  length and a truncation error exactly when it was longer, and then the send is completed; the other receives stay.
\<close>

theorem self_send_to_posted:
  assumes "mq_inv own mq" "req_env_ok senv mq" "psmi_mq_req_alloc senv MQE_TYPE_SEND mq = Inr (s, mq1)"
    "find (\<lambda>x. tag_matches tag (reqs mq x)) (expected_q mq) = Some r" "req_buf (reqs mq r) \<noteq> 0" "ubuf \<noteq> 0"
    "apart (unat (min (req_buf_len (reqs mq r)) len)) (req_buf (reqs mq r)) ubuf"
  shows "\<exists>mq'. self_mq_isend senv renv ep flags tag ubuf len ctx mq = Inr (PSM_OK, s, mq') \<and>
    completed_q mq' = completed_q mq @ [r, s] \<and> expected_q mq' = remove1 r (expected_q mq) \<and> unexpected_q mq' = unexpected_q mq \<and>
    req_state (reqs mq' s) = MQ_STATE_COMPLETE \<and>
    mq_status_copy (reqs mq' r) = \<lparr>msg_tag = tag, msg_length = len, nbytes = min (req_buf_len (reqs mq r)) len,
      error_code = (if req_buf_len (reqs mq r) < len then PSM_MQ_TRUNCATION else PSM_OK), status_context = req_context (reqs mq r)\<rparr> \<and>
    (\<forall>i < unat (min (req_buf_len (reqs mq r)) len). mq_mem mq' (req_buf (reqs mq r) + of_nat i) = mq_mem mq (ubuf + of_nat i))"
  using self_isend_posted [OF assms, of renv ep flags ctx] mem_copy_read [OF assms(7)] by fastforce

theorem self_send_to_posted_witness:
  "\<exists>mq'. self_mq_isend demo_env demo_env 1 0 7 0xa000 8 0 demo_posted = Inr (PSM_OK, 0x20c0, mq') \<and> completed_q mq' = [0x10c0, 0x20c0] \<and>
     expected_q mq' = [] \<and> (\<forall>i < 8. mq_mem mq' (0x9000 + of_nat i) = ucast (0xa000 + of_nat i :: u64))"
proof -
  have f: "req_buf (reqs demo_posted 0x10c0) = 0x9000" "req_buf_len (reqs demo_posted 0x10c0) = 16" "expected_q demo_posted = [0x10c0]"
    "completed_q demo_posted = []" "mq_mem demo_posted = (\<lambda>a. ucast a)" "tag_matches 7 (reqs demo_posted 0x10c0)"
    by (simp_all add: demo_posted_def demo_mq_def posted_req_def tag_matches_def)
  have "req_env_ok demo_env demo_posted" using env_ok_req [OF demo_posted_env] .
  then show ?thesis using self_send_to_posted [OF demo_posted_inv _ demo_send_alloc, of 7 "0x10c0" "0xa000" 8 demo_env 1 0 0]
    by (simp add: f demo_min demo_apart_far) blast
qed

text \<open>
  C28: A message an endpoint sends to itself before it receives it. The receive gets the bytes and the status it would have got if it
  had been posted first, and both requests complete, the receive first.
\<close>

theorem self_send_then_receive:
  assumes "mq_inv own mq" "req_env_ok senv mq" "psmi_mq_req_alloc senv MQE_TYPE_SEND mq = Inr (s, mq1)"
      "req_env_ok renv mq1" "psmi_mq_req_alloc renv MQE_TYPE_RECV mq1 = Inr (x, mq2)"
    and none: "\<And>y. y \<in> set (expected_q mq) \<Longrightarrow> \<not> tag_matches tag (reqs mq y)"
      "\<And>y. y \<in> set (unexpected_q mq) \<Longrightarrow> (rtag XOR req_tag (reqs mq y)) AND rsel \<noteq> 0"
    and agree: "(tag XOR rtag) AND rsel = 0" and bufs: "ubuf \<noteq> 0" "buf \<noteq> 0" "apart (unat (min rlen len)) buf ubuf"
  shows "\<exists>mqa mqb. self_mq_isend senv renv ep flags tag ubuf len ctx mq = Inr (PSM_OK, s, mqa) \<and>
      psm_mq_irecv self_rts_cb env rtag rsel buf rlen rctx mqa = Inr (PSM_OK, x, mqb) \<and>
      completed_q mqb = completed_q mq @ [x, s] \<and> unexpected_q mqb = unexpected_q mq \<and>
      mq_status_copy (reqs mqb x) = \<lparr>msg_tag = tag, msg_length = len, nbytes = min rlen len,
        error_code = (if rlen < len then PSM_MQ_TRUNCATION else PSM_OK), status_context = rctx\<rparr> \<and>
      (\<forall>i < unat (min rlen len). mq_mem mqb (buf + of_nat i) = mq_mem mq (ubuf + of_nat i))"
proof -
  let ?n = "min rlen len"
  obtain mqa where a: "self_mq_isend senv renv ep flags tag ubuf len ctx mq = Inr (PSM_OK, s, mqa)" "self_sent ctx tag ubuf len ep s x mq mqa"
    using self_isend_unmatched [OF assms(1-6)] by blast
  note v = self_sentD [OF a(2)]
  have old: "y \<in> set (unexpected_q mq) \<Longrightarrow> (rtag XOR req_tag (reqs mqa y)) AND rsel \<noteq> 0" for y using none(2) v(5) by simp
  note R = irecv_self [OF v(1) v(2) v(3,4) old agree, where rctx = rctx and rlen = rlen and buf = buf]
  define mq3 where "mq3 = self_matched x rctx buf rlen mqa"
  note R' = R [folded mq3_def]
  have s: "req_buf (reqs mqa s) = ubuf" "req_state (reqs mqa s) = MQ_STATE_FREE" by (simp_all add: v sent_req_def fresh_req_def)
  have "match_ready x mq3" using v(1) bufs by (simp add: match_ready_def R' s)
  then have "ptl_handle_rtsmatch x False mq3 = Inr (psmi_mq_handle_rts_complete s (psmi_mq_handle_rts_complete x (match_copied x mq3)))"
    using rtsmatch_waiting [of x mq3 False] R' s by simp
  moreover have "mq_mem (match_copied x mq3) = mem_copy (unat ?n) buf ubuf (mq_mem mq)" by (simp add: match_copied_def R' s v(9))
  moreover have "mq_status_copy ((reqs mq3 x)\<lparr>req_state := z\<rparr>) = mq_status_copy (reqs mq3 x)" for z by (simp add: mq_status_copy_def)
  ultimately show ?thesis using a(1) v R' mem_copy_read [OF bufs(3)] by simp
qed

theorem self_send_then_receive_witness:
  "\<exists>mqa mqb. self_mq_isend demo_env demo_env 1 0 7 0xa000 8 0 demo_mq = Inr (PSM_OK, 0x20c0, mqa) \<and>
     psm_mq_irecv self_rts_cb demo_env 7 (- 1) 0x9000 16 0 mqa = Inr (PSM_OK, 0x10c0, mqb) \<and> completed_q mqb = [0x10c0, 0x20c0] \<and>
     (\<forall>i < 8. mq_mem mqb (0x9000 + of_nat i) = ucast (0xa000 + of_nat i :: u64))"
proof -
  obtain mq2 where "psmi_mq_req_alloc demo_env MQE_TYPE_RECV (upd_req 0x20c0 (fresh_req MQE_TYPE_SEND)
    (demo_mq\<lparr>sreq_pool := demo_spool\<lparr>mp_head := [0x2030], mp_num_obj_inuse := 1\<rparr>\<rparr>)) = Inr (0x10c0, mq2)" using demo_sent_alloc(3) by blast
  from self_send_then_receive [OF demo_mq_inv env_ok_req [OF demo_env_ok] demo_sent_alloc(1,2) this, of 7 7 "- 1" "0xa000" "0x9000" 16 8 1 0 0 demo_env 0]
  show ?thesis by (simp add: demo_mq_empty demo_min demo_apart_far) blast
qed


lemma buffered_now:
  assumes "\<exists>mqc. S mqc \<and> (\<forall>m. (\<forall>i < n. m (b + of_nat i) = mq_mem mqc (b + of_nat i :: u64)) \<longrightarrow>
    (\<exists>mqd. R (mqc\<lparr>mq_mem := m\<rparr>) mqd \<and> C mqd \<and> U mqd \<and> V mqd \<and> W mqd \<and> X mqd))"
  shows "\<exists>mqc. S mqc \<and> (\<exists>mqd. R (mqc\<lparr>mq_mem := mq_mem mqc\<rparr>) mqd \<and> C mqd \<and> W mqd)"
  using assms by blast


end
